(* ===== verification/OV_Prelude.thy ===== *)
theory OV_Prelude
  imports Main "HOL-Library.Word"
begin

text \<open>
  Shared vocabulary of the development: machine types of the C++ sources, the exceptions
  they throw, results, explicit \<open>size_t\<close> arithmetic, the object representation of
  integers in memory (a little-endian host, as \<open>OPENVPN_LITTLE_ENDIAN\<close>) with
  \<open>htonl\<close> / \<open>ntohl\<close> / \<open>Endian::rev64\<close>, and the generic list and word lemmas
  the component theories share.
\<close>

unbundle bit_operations_syntax

named_theorems result_simps \<open>unfolding rules for results\<close>
named_theorems wire_simps \<open>encoding and decoding of integers on the wire\<close>

section \<open>Machine types\<close>

type_synonym byte = "8 word"
type_synonym u8 = "8 word"
type_synonym u16 = "16 word"
type_synonym u32 = "32 word"
type_synonym u64 = "64 word"

text \<open>
  A \<open>size_t\<close> is a natural number below \<open>2 ^ 64\<close>; sums and differences that the source
  computes at that width are written with \<open>sz_add\<close> and \<open>sz_sub\<close>, which wrap.
\<close>

type_synonym size_t = nat

definition sz_max :: nat where
  "sz_max = 18446744073709551616"

definition sz_add :: "size_t \<Rightarrow> size_t \<Rightarrow> size_t" where
  "sz_add a b = (a + b) mod sz_max"

definition sz_sub :: "size_t \<Rightarrow> size_t \<Rightarrow> size_t" where
  "sz_sub a b = (a + (sz_max - b)) mod sz_max"

text \<open>A \<open>char\<close> is signed on the platforms the sources name; this is its value as an \<open>int\<close>.\<close>

definition schar :: "char \<Rightarrow> int" where
  "schar c = (let n = (of_char c :: nat) in if n < 128 then int n else int n - 256)"

section \<open>Exceptions and results\<close>

text \<open>The statuses of \<open>BufferException\<close> (buffer/buffer.hpp).\<close>

datatype buffer_status =
    buffer_full
  | buffer_headroom
  | buffer_underflow
  | buffer_overflow
  | buffer_offset
  | buffer_index
  | buffer_const_index
  | buffer_push_front_headroom
  | buffer_no_reset_impl
  | buffer_pop_back
  | buffer_set_size
  | buffer_range

text \<open>
  Every exception the modelled code throws. \<open>undefined_behaviour\<close> marks the executions to
  which the C++ standard gives no meaning (a shift by the operand's width or more, a division
  by zero, \<open>front()\<close> of an empty deque).
\<close>

datatype exn =
    BufferException buffer_status
  | message_window_ref_by_id
  | message_window_rm_head
  | packet_id_wrap
  | packet_id_not_initialized
  | ipv4_exception string
  | ipv6_exception string
  | ip_exception string
  | option_error string
  | parse_hex_error
  | base64_bad_map
  | base64_decode_error
  | base64_decode_out_of_bound_error
  | frame_context_index
  | embedded_packet_size_error
  | packet_not_fully_formed
  | numeric_out_of_range
  | moved_error
  | overflow_error string
  | compressor_unavailable
  | static_key_bad_size
  | static_key_parse_error
  | proto_error string
  | select_key_context_error
  | key_expansion_error
  | ovpn_hmac_context_bad_sizing
  | ovpn_tls_crypt_wrong_mode
  | open_file_error string
  | tls_crypt_v2_server_key_parse_error
  | tls_crypt_v2_server_key_bad_size
  | tls_crypt_v2_client_key_parse_error
  | tls_crypt_v2_client_key_bad_size
  | crypto_alg string
  | crypto_alg_index
  | openssl_gcm_error string
  | mbedtls_aead_error string
  | aead_error string
  | chm_unsupported_cipher_mode
  | cipher_mode_error
  | cipher_output_buffer
  | cipher_init_insufficient_key_material
  | cipher_internal_error
  | openssl_cipher_mode_error
  | openssl_cipher_error string
  | openssl_mac_error string
  | ovpn_hmac_context_digest_size
  | crypto_dc_select string
  | epoch_key_exception string
  | aead_epoch_error string
  | no_data_channel_factory
  | runtime_error string
  | out_of_range
  | undefined_behaviour

type_synonym 'a result = "exn + 'a"

definition bindR :: "'a result \<Rightarrow> ('a \<Rightarrow> 'b result) \<Rightarrow> 'b result" where
  "bindR r f = (case r of Inl e \<Rightarrow> Inl e | Inr x \<Rightarrow> f x)"

lemma bindR_simps [simp, result_simps]:
  "bindR (Inl e) f = Inl e"
  "bindR (Inr x) f = f x"
  by (simp_all add: bindR_def)

lemma bindR_eq_Inr: "bindR r f = Inr y \<longleftrightarrow> (\<exists>x. r = Inr x \<and> f x = Inr y)"
  by (cases r) auto

section \<open>\<open>size_t\<close> arithmetic\<close>

lemma sz_max_pos [simp]: "0 < sz_max"
  by (simp add: sz_max_def)

lemma sz_add_exact: "a + b < sz_max \<Longrightarrow> sz_add a b = a + b"
  by (simp add: sz_add_def)

lemma sz_sub_exact: "b \<le> a \<Longrightarrow> a < sz_max \<Longrightarrow> sz_sub a b = a - b"
  by (simp add: sz_sub_def mod_if)

lemma sz_sub_wrap: "a < b \<Longrightarrow> b \<le> sz_max \<Longrightarrow> sz_sub a b = sz_max - (b - a)"
  by (simp add: sz_sub_def)

lemma sz_add_less [simp]: "sz_add a b < sz_max"
  by (simp add: sz_add_def)

lemma sz_sub_less [simp]: "sz_sub a b < sz_max"
  by (simp add: sz_sub_def)

section \<open>Object representation of integers\<close>

text \<open>The bytes an integer occupies in memory, lowest address first.\<close>

definition le_bytes :: "nat \<Rightarrow> 'a::len word \<Rightarrow> byte list" where
  "le_bytes n w = map (\<lambda>i. ucast (drop_bit (8 * i) w)) [0..<n]"

fun le_word :: "byte list \<Rightarrow> 'a::len word" where
  "le_word [] = 0"
| "le_word (b # bs) = ucast b OR push_bit 8 (le_word bs)"

text \<open>
  \<open>htonl\<close> and \<open>ntohl\<close> on a little-endian host reverse the four bytes, \<open>Endian::rev64\<close>
  (common/endian64.hpp) the eight.
\<close>

definition htonl :: "u32 \<Rightarrow> u32" where
  "htonl w = le_word (rev (le_bytes 4 w))"

definition ntohl :: "u32 \<Rightarrow> u32" where
  "ntohl w = le_word (rev (le_bytes 4 w))"

definition rev64 :: "u64 \<Rightarrow> u64" where
  "rev64 w = le_word (rev (le_bytes 8 w))"

lemma length_le_bytes [simp]: "length (le_bytes n w) = n"
  by (simp add: le_bytes_def)

lemma nth_le_bytes: "i < n \<Longrightarrow> le_bytes n w ! i = ucast (drop_bit (8 * i) w)"
  by (simp add: le_bytes_def)

lemma bit_le_word:
  "bit (le_word bs :: 'a::len word) k \<longleftrightarrow>
     k < LENGTH('a) \<and> k div 8 < length bs \<and> bit (bs ! (k div 8)) (k mod 8)"
proof (induction bs arbitrary: k)
  case Nil
  then show ?case by simp
next
  case (Cons b bs)
  show ?case
  proof (cases "k < 8")
    case True
    then show ?thesis
      by (auto simp: bit_simps dest: bit_imp_le_length)
  next
    case False
    then have "k div 8 = Suc ((k - 8) div 8)" "k mod 8 = (k - 8) mod 8"
      by (simp_all add: le_div_geq le_mod_geq)
    with False Cons.IH [of "k - 8"] show ?thesis
      by (auto simp: bit_simps dest: bit_imp_le_length)
  qed
qed

lemma le_word_le_bytes [simp]:
  "LENGTH('a) \<le> 8 * n \<Longrightarrow> le_word (le_bytes n (w :: 'a::len word)) = w"
proof (rule bit_word_eqI)
  fix k assume n: "LENGTH('a) \<le> 8 * n" and k: "k < LENGTH('a)"
  then have "k div 8 < n" by linarith
  with k show "bit (le_word (le_bytes n w) :: 'a word) k = bit w k"
    by (simp add: bit_le_word nth_le_bytes bit_simps)
qed

lemma le_word_le_bytes_take: "le_word (le_bytes n (w :: 'a::len word)) = take_bit (8 * n) w"
proof (rule bit_word_eqI)
  fix k assume k: "k < LENGTH('a)"
  have "k div 8 < n \<longleftrightarrow> k < 8 * n" by (simp add: div_less_iff_less_mult mult.commute)
  with k show "bit (le_word (le_bytes n w) :: 'a word) k = bit (take_bit (8 * n) w) k"
    by (auto simp: bit_le_word nth_le_bytes bit_simps)
qed

lemma le_bytes_le_word [simp]:
  assumes "length bs = n" and "8 * n \<le> LENGTH('a)"
  shows "le_bytes n (le_word bs :: 'a::len word) = bs"
proof (rule nth_equalityI)
  show "length (le_bytes n (le_word bs :: 'a word)) = length bs"
    using assms by simp
next
  fix i assume "i < length (le_bytes n (le_word bs :: 'a word))"
  then have i: "i < n" by simp
  show "le_bytes n (le_word bs :: 'a word) ! i = bs ! i"
  proof (rule bit_word_eqI)
    fix k assume "k < LENGTH(8)"
    then have k: "k < 8" by simp
    with i assms have "8 * i + k < LENGTH('a)" by linarith
    moreover from k have "(8 * i + k) div 8 = i" "(8 * i + k) mod 8 = k" by simp_all
    ultimately show "bit (le_bytes n (le_word bs :: 'a word) ! i) k = bit (bs ! i) k"
      using i k assms(1) by (simp add: nth_le_bytes bit_simps bit_le_word)
  qed
qed

text \<open>Big-endian (network order) encodings, the form the wire formats are stated in.\<close>

definition be_bytes :: "nat \<Rightarrow> 'a::len word \<Rightarrow> byte list" where
  "be_bytes n w = rev (le_bytes n w)"

definition be_word :: "byte list \<Rightarrow> 'a::len word" where
  "be_word bs = le_word (rev bs)"

lemma length_be_bytes [simp]: "length (be_bytes n w) = n"
  by (simp add: be_bytes_def)

lemma be_word_be_bytes [simp, wire_simps]:
  "LENGTH('a) \<le> 8 * n \<Longrightarrow> be_word (be_bytes n (w :: 'a::len word)) = w"
  by (simp add: be_bytes_def be_word_def)

lemma be_bytes_be_word [simp, wire_simps]:
  "length bs = n \<Longrightarrow> 8 * n \<le> LENGTH('a) \<Longrightarrow> be_bytes n (be_word bs :: 'a::len word) = bs"
  by (simp add: be_bytes_def be_word_def)

text \<open>The stored bytes of a value in network order are its big-endian encoding.\<close>

lemma le_bytes_htonl [simp, wire_simps]: "le_bytes 4 (htonl w) = be_bytes 4 w"
  by (simp add: htonl_def be_bytes_def)

lemma ntohl_le_word [simp, wire_simps]:
  "length bs = 4 \<Longrightarrow> ntohl (le_word bs) = be_word bs"
  by (simp add: ntohl_def be_word_def)

lemma ntohl_htonl [simp]: "ntohl (htonl w) = w"
proof -
  have "ntohl (htonl w) = ntohl (le_word (rev (le_bytes 4 w)))"
    by (simp add: htonl_def)
  also have "\<dots> = be_word (rev (le_bytes 4 w))"
    by (rule ntohl_le_word) simp
  finally show ?thesis by (simp add: be_word_def)
qed

lemma le_bytes_rev64 [simp, wire_simps]: "le_bytes 8 (rev64 w) = be_bytes 8 w"
  by (simp add: rev64_def be_bytes_def)

lemma rev64_le_word [simp, wire_simps]:
  "length bs = 8 \<Longrightarrow> rev64 (le_word bs) = be_word bs"
  by (simp add: rev64_def be_word_def)

section \<open>Lists\<close>

text \<open>Overwriting a run of cells, as \<open>memcpy\<close> into an array does.\<close>

definition overwrite :: "nat \<Rightarrow> 'a list \<Rightarrow> 'a list \<Rightarrow> 'a list" where
  "overwrite i xs ys = take i ys @ xs @ drop (i + length xs) ys"

lemma length_overwrite [simp]:
  "i + length xs \<le> length ys \<Longrightarrow> length (overwrite i xs ys) = length ys"
  by (simp add: overwrite_def)

lemma take_overwrite [simp]:
  "i \<le> length ys \<Longrightarrow> j \<le> i \<Longrightarrow> take j (overwrite i xs ys) = take j ys"
  by (simp add: overwrite_def min_def)

lemma drop_overwrite [simp]: "i \<le> length ys \<Longrightarrow> drop i (overwrite i xs ys) = xs @ drop (i + length xs) ys"
  by (simp add: overwrite_def)

lemma overwrite_window:
  assumes "i \<le> length ys"
  shows "take (length xs) (drop i (overwrite i xs ys)) = xs"
  using assms by simp

section \<open>Words\<close>

lemma and_exp_minus_1: "(x :: 'a::len word) AND (2 ^ k - 1) = take_bit k x"
  by (simp add: take_bit_eq_mask mask_eq_exp_minus_1)

lemma unat_and_mask: "unat ((x :: 'a::len word) AND (2 ^ k - 1)) = unat x mod 2 ^ k"
  unfolding and_exp_minus_1 by (simp only: unsigned_take_bit_eq) (simp add: take_bit_eq_mod)

lemma unat_add_and_mask:
  fixes b i :: "'a::len word"
  assumes "k \<le> LENGTH('a)"
  shows "unat ((b + i) AND (2 ^ k - 1)) = (unat b + unat i) mod 2 ^ k"
proof -
  have "unat ((b + i) AND (2 ^ k - 1)) = unat (b + i) mod 2 ^ k"
    by (simp add: unat_and_mask)
  also have "\<dots> = (unat b + unat i) mod 2 ^ k"
    using assms by (simp add: unat_word_ariths mod_mod_cancel le_imp_power_dvd)
  finally show ?thesis .
qed

lemma unat_sub_and_mask:
  fixes b d :: "'a::len word"
  assumes "k \<le> LENGTH('a)"
  shows "(unat ((b - d) AND (2 ^ k - 1)) + unat d) mod 2 ^ k = unat b mod 2 ^ k"
proof -
  have "unat ((b - d) AND (2 ^ k - 1)) = unat (b - d) mod 2 ^ k"
    by (simp add: unat_and_mask)
  then have "(unat ((b - d) AND (2 ^ k - 1)) + unat d) mod 2 ^ k = (unat (b - d) + unat d) mod 2 ^ k"
    by (simp add: mod_add_left_eq)
  also have "\<dots> = unat (((b - d) + d) AND (2 ^ k - 1))"
    by (rule unat_add_and_mask [OF assms, symmetric])
  also have "\<dots> = unat b mod 2 ^ k"
    by (simp add: unat_and_mask)
  finally show ?thesis .
qed

lemma unat_and_mask_less:
  "k < LENGTH('a) \<Longrightarrow> unat ((x :: 'a::len word) AND (2 ^ k - 1)) < 2 ^ k"
  by (simp add: unat_and_mask)

lemma unat_exp [simp]: "k < LENGTH('a) \<Longrightarrow> unat (2 ^ k :: 'a::len word) = 2 ^ k"
proof -
  assume "k < LENGTH('a)"
  then have "(2 :: nat) ^ k < 2 ^ LENGTH('a)" by simp
  moreover have "(2 ^ k :: 'a word) = of_nat (2 ^ k)" by simp
  ultimately show ?thesis by (simp only: unat_of_nat mod_less)
qed

lemma unat_inc: "(w :: 'a::len word) + 1 \<noteq> 0 \<Longrightarrow> unat (w + 1) = unat w + 1"
  using unatSuc [of w] by (simp add: add.commute)

lemma unat_add_no_overflow:
  "unat (a :: 'a::len word) + unat b < 2 ^ LENGTH('a) \<Longrightarrow> unat (a + b) = unat a + unat b"
  by (simp add: unat_word_ariths)

lemma unat_inc_bound:
  assumes "unat (w :: 'a::len word) + 1 < 2 ^ LENGTH('a)"
  shows "unat (w + 1) = unat w + 1" and "w + 1 \<noteq> 0"
proof -
  show *: "unat (w + 1) = unat w + 1"
    using unat_add_no_overflow [of w 1] assms by (simp only: unat_1)
  show "w + 1 \<noteq> 0"
  proof
    assume "w + 1 = 0"
    with * show False by (simp only: unat_0)
  qed
qed

lemma unat_diff_le: "b \<le> a \<Longrightarrow> unat ((a :: 'a::len word) - b) = unat a - unat b"
  by (simp add: unat_sub)

lemma unat_drop_bit: "unat (drop_bit k (a :: 'a::len word)) = unat a div 2 ^ k"
  by (simp only: unsigned_drop_bit_eq take_bit_nat_eq_self [OF unsigned_less]) (simp add: drop_bit_eq_div)

lemma unat_push_bit: "unat (push_bit k (a :: 'a::len word)) = unat a * 2 ^ k mod 2 ^ LENGTH('a)"
  by (simp only: unsigned_push_bit_eq) (simp add: push_bit_eq_mult take_bit_eq_mod)

lemma unat_push_drop: "unat (push_bit k (drop_bit k (a :: 'a::len word))) = unat a div 2 ^ k * 2 ^ k"
proof -
  have "unat a div 2 ^ k * 2 ^ k < 2 ^ LENGTH('a)"
    by (rule le_less_trans [OF div_times_less_eq_dividend]) (rule unsigned_less)
  then show ?thesis by (simp only: unat_push_bit unat_drop_bit mod_less)
qed

lemma unat_push_one: "unat (push_bit k 1 :: 'a::len word) = 2 ^ k mod 2 ^ LENGTH('a)"
  by (simp only: unat_push_bit) simp

lemma unat_ucast_up:
  "LENGTH('a) \<le> LENGTH('b) \<Longrightarrow> unat (ucast (w :: 'a::len word) :: 'b::len word) = unat w"
proof -
  assume "LENGTH('a) \<le> LENGTH('b)"
  then have "unat w < 2 ^ LENGTH('b)" by (metis less_le_trans one_le_numeral power_increasing unsigned_less)
  then show ?thesis by (simp only: unsigned_ucast_eq take_bit_nat_eq_self)
qed

end
