(* ===== verification/Replay_Window.thy ===== *)
theory Replay_Window
  imports OV_Prelude
begin

text \<open>
  The bit array both replay filters (crypto/packet_id_control.hpp, crypto/packet_id_data.hpp)
  keep in \<open>history\<close>: a circular window in which bit \<open>(base + d) mod W\<close> says whether the
  packet ID \<open>d\<close> below the highest one has been accepted. The locale \<open>bit_ring\<close> states what
  the filters need of the bit array; the lemmas proved in it say how the window follows the set
  of accepted IDs when the filter slides, restarts or marks.
\<close>

section \<open>The bit array\<close>

text \<open>\<open>history[i / 8] & (1 << (i % 8))\<close>, \<open>|=\<close> and \<open>&= ~\<close>.\<close>

definition hist_test :: "byte list \<Rightarrow> nat \<Rightarrow> bool" where
  "hist_test h i \<longleftrightarrow> h ! (i div 8) AND push_bit (i mod 8) 1 \<noteq> 0"

definition hist_set :: "byte list \<Rightarrow> nat \<Rightarrow> byte list" where
  "hist_set h i = h[i div 8 := h ! (i div 8) OR push_bit (i mod 8) 1]"

definition hist_clear :: "byte list \<Rightarrow> nat \<Rightarrow> byte list" where
  "hist_clear h i = h[i div 8 := h ! (i div 8) AND NOT (push_bit (i mod 8) 1)]"

lemma hist_test_bit: "hist_test h i \<longleftrightarrow> bit (h ! (i div 8)) (i mod 8)"
  by (simp add: hist_test_def push_bit_eq_mult and_exp_eq_0_iff_not_bit)

lemma length_hist_set [simp]: "length (hist_set h i) = length h"
  by (simp add: hist_set_def)

lemma length_hist_clear [simp]: "length (hist_clear h i) = length h"
  by (simp add: hist_clear_def)

lemma div_mod_8_eq: "(i div 8 = j div 8 \<and> i mod 8 = j mod 8) \<longleftrightarrow> i = (j :: nat)"
  by (metis div_mult_mod_eq)

lemma hist_test_set:
  assumes "i < 8 * length h"
  shows "hist_test (hist_set h i) j \<longleftrightarrow> j = i \<or> hist_test h j"
proof -
  have "i div 8 < length h" using assms by auto
  then show ?thesis
    using div_mod_8_eq [of i j] mod_less_divisor [of 8 j]
    by (cases "i div 8 = j div 8") (auto simp: hist_test_bit hist_set_def bit_simps)
qed

lemma hist_test_clear:
  assumes "i < 8 * length h"
  shows "hist_test (hist_clear h i) j \<longleftrightarrow> j \<noteq> i \<and> hist_test h j"
proof -
  have "i div 8 < length h" using assms by auto
  then show ?thesis
    using div_mod_8_eq [of i j] mod_less_divisor [of 8 j]
    by (cases "i div 8 = j div 8") (auto simp: hist_test_bit hist_clear_def bit_simps)
qed

lemma hist_test_zero: "i < 8 * n \<Longrightarrow> \<not> hist_test (replicate n 0) i"
  by (auto simp: hist_test_bit)

section \<open>A circular window over a bit array\<close>

text \<open>
  \<open>ring_window\<close>: within the extent, the bits are exactly the accepted IDs, no ID above \<open>high\<close>
  has been accepted, and the extent reaches neither past the array nor past 0.
\<close>

definition ring_window ::
  "('h \<Rightarrow> nat \<Rightarrow> bool) \<Rightarrow> nat \<Rightarrow> nat \<Rightarrow> nat \<Rightarrow> nat \<Rightarrow> nat set \<Rightarrow> 'h \<Rightarrow> bool" where
  "ring_window test W base ext high acc h \<longleftrightarrow> base < W \<and> ext \<le> W \<and> ext \<le> high
     \<and> (\<forall>a\<in>acc. a \<le> high) \<and> (\<forall>d<ext. test h ((base + d) mod W) \<longleftrightarrow> high - d \<in> acc)"

lemma ring_windowD:
  assumes "ring_window test W base ext high acc h"
  shows "base < W" "ext \<le> W" "ext \<le> high" "a \<in> acc \<Longrightarrow> a \<le> high"
    "d < ext \<Longrightarrow> test h ((base + d) mod W) \<longleftrightarrow> high - d \<in> acc"
  using assms by (auto simp: ring_window_def)

lemma ring_inj:
  fixes base :: nat
  assumes "i < W" "j < W"
  shows "(base + i) mod W = (base + j) mod W \<longleftrightarrow> i = j"
proof -
  have "a = b" if "a \<le> b" "b < W" "(base + a) mod W = (base + b) mod W" for a b
  proof -
    have "W dvd (base + b) - (base + a)"
      using that by (metis mod_eq_dvd_iff_nat add_le_mono1 add.commute)
    then have "W dvd b - a" by simp
    moreover have "b - a < W" using that(2) by simp
    ultimately show ?thesis using that(1) by (auto dest: nat_dvd_not_less)
  qed
  from this [of i j] this [of j i] assms show ?thesis by (metis nat_le_linear)
qed

locale bit_ring =
  fixes test :: "'h \<Rightarrow> nat \<Rightarrow> bool"
    and setb :: "'h \<Rightarrow> nat \<Rightarrow> 'h"
    and clr :: "'h \<Rightarrow> nat \<Rightarrow> 'h"
    and ok :: "'h \<Rightarrow> bool"
    and W :: nat
  assumes test_setb: "ok h \<Longrightarrow> i < W \<Longrightarrow> j < W \<Longrightarrow> test (setb h i) j \<longleftrightarrow> j = i \<or> test h j"
    and test_clr: "ok h \<Longrightarrow> i < W \<Longrightarrow> j < W \<Longrightarrow> test (clr h i) j \<longleftrightarrow> j \<noteq> i \<and> test h j"
    and ok_setb: "ok h \<Longrightarrow> i < W \<Longrightarrow> ok (setb h i)"
    and ok_clr: "ok h \<Longrightarrow> i < W \<Longrightarrow> ok (clr h i)"
begin

lemma clear_run:
  assumes "ok h" and "\<forall>i\<in>set is. i < W"
  shows "ok (fold (\<lambda>i h. clr h i) is h)
    \<and> (\<forall>j<W. test (fold (\<lambda>i h. clr h i) is h) j \<longleftrightarrow> j \<notin> set is \<and> test h j)"
  using assms
proof (induction "is" arbitrary: h)
  case Nil
  then show ?case by simp
next
  case (Cons i "is")
  then have "ok (clr h i)" by (simp add: ok_clr)
  with Cons show ?case by (auto simp: test_clr)
qed

text \<open>Sliding up by \<open>delta < W\<close>: the new head is set, the skipped IDs are cleared.\<close>

lemma slide:
  assumes win: "ring_window test W base ext high acc h" and ok: "ok h"
    and delta: "0 < delta" "delta < W"
    and base': "(base' + delta) mod W = base" "base' < W"
    and idx: "is = map (\<lambda>i. (base' + i) mod W) [1..<delta]"
  shows "ring_window test W base' (min W (ext + delta)) (high + delta) (insert (high + delta) acc)
           (fold (\<lambda>i h. clr h i) is (setb h base'))
    \<and> ok (fold (\<lambda>i h. clr h i) is (setb h base'))"
proof -
  let ?h = "fold (\<lambda>i h. clr h i) is (setb h base')"
  have W: "0 < W" using delta by simp
  have is_W: "\<forall>i\<in>set is. i < W" using W idx by auto
  note run = clear_run [OF ok_setb [OF ok base'(2)] is_W]
  have bits: "test ?h j \<longleftrightarrow> j \<notin> set is \<and> (j = base' \<or> test h j)" if "j < W" for j
    using run that base' ok by (simp add: test_setb)
  have mem: "(base' + d) mod W \<in> set is \<longleftrightarrow> 1 \<le> d \<and> d < delta" if "d < W" for d
  proof -
    have "(base' + d) mod W \<in> set is \<longleftrightarrow> (\<exists>i. 1 \<le> i \<and> i < delta \<and> (base' + d) mod W = (base' + i) mod W)"
      using idx by auto
    also have "\<dots> \<longleftrightarrow> 1 \<le> d \<and> d < delta"
      using ring_inj [OF that, of _ base'] delta(2) by (metis order.strict_trans)
    finally show ?thesis .
  qed
  have "test ?h ((base' + d) mod W) \<longleftrightarrow> high + delta - d \<in> insert (high + delta) acc"
    if d: "d < min W (ext + delta)" for d
  proof -
    consider "d = 0" | "1 \<le> d" "d < delta" | "delta \<le> d" by linarith
    then show ?thesis
    proof cases
      case 1
      then show ?thesis using bits [of base'] base' mem [of 0] W by auto
    next
      case 2
      then have "high + delta - d \<notin> insert (high + delta) acc"
        using ring_windowD(4) [OF win] by force
      moreover have "(base' + d) mod W \<in> set is" using mem [of d] 2 d by simp
      ultimately show ?thesis using bits [of "(base' + d) mod W"] W by simp
    next
      case 3
      then have e: "d - delta < ext" using d by linarith
      have "(base' + d) mod W = ((base' + delta) + (d - delta)) mod W" using 3 by simp
      also have "\<dots> = ((base' + delta) mod W + (d - delta)) mod W" by (simp only: mod_add_left_eq)
      also have "\<dots> = (base + (d - delta)) mod W" by (simp only: base'(1))
      finally have eq: "(base' + d) mod W = (base + (d - delta)) mod W" .
      have ni: "(base' + d) mod W \<notin> set is" using mem [of d] 3 d by simp
      have ne: "(base' + d) mod W \<noteq> base'"
        using ring_inj [of d W 0 base'] d 3 delta base'(2) by simp
      have hi: "high + delta - d = high - (d - delta)" "high - (d - delta) \<noteq> high + delta"
        using 3 delta ring_windowD(3) [OF win] e by linarith+
      have "test ?h ((base' + d) mod W) \<longleftrightarrow> test h ((base' + d) mod W)"
        using bits [of "(base' + d) mod W"] ni ne mod_less_divisor [OF W] by blast
      also have "\<dots> \<longleftrightarrow> high - (d - delta) \<in> acc"
        unfolding eq by (rule ring_windowD(5) [OF win e])
      finally show ?thesis unfolding hi(1) using hi(2) by blast
    qed
  qed
  moreover have "ext \<le> W" "ext \<le> high" "\<forall>a\<in>acc. a \<le> high" using win by (auto simp: ring_window_def)
  ultimately show ?thesis using base'(2) run by (auto simp: ring_window_def)
qed

text \<open>A jump of \<open>W\<close> or more restarts the window with only the new head set.\<close>

lemma restart:
  assumes win: "ring_window test W base ext high acc h" and W: "0 < W"
    and far: "high + W \<le> high'" and h': "\<forall>j<W. test h' j \<longleftrightarrow> j = 0"
  shows "ring_window test W 0 W high' (insert high' acc) h'"
proof -
  have "high' - d \<notin> acc" if "d < W" for d
    using ring_windowD(4) [OF win, of "high' - d"] far that by linarith
  moreover have "\<forall>a\<in>acc. a \<le> high'" using ring_windowD(4) [OF win] far by force
  ultimately show ?thesis using W far h' by (auto simp: ring_window_def)
qed

text \<open>Marking an ID inside the extent.\<close>

lemma mark:
  assumes win: "ring_window test W base ext high acc h" and ok: "ok h" and d: "d < ext"
  shows "ring_window test W base ext high (insert (high - d) acc) (setb h ((base + d) mod W))"
proof -
  have W: "base < W" "ext \<le> W" "ext \<le> high" using win by (auto simp: ring_window_def)
  have "test (setb h ((base + d) mod W)) ((base + e) mod W) \<longleftrightarrow> high - e \<in> insert (high - d) acc"
    if e: "e < ext" for e
  proof -
    have "(base + e) mod W = (base + d) mod W \<longleftrightarrow> e = d"
      using ring_inj [of e W d base] d e W by simp
    moreover have "high - e = high - d \<longleftrightarrow> e = d" using d e W by linarith
    ultimately show ?thesis
      using test_setb [OF ok] ring_windowD(5) [OF win e] W by auto
  qed
  then show ?thesis using win by (auto simp: ring_window_def)
qed

end

interpretation hist: bit_ring hist_test hist_set hist_clear "\<lambda>h. 8 * length h = W" W for W
  by unfold_locales (auto simp: hist_test_set hist_test_clear)

end
