(* ===== verification/Replay_Filter.thy ===== *)
theory Replay_Filter
  imports Replay_Window
begin

text \<open>
  The sliding-window code that \<open>PacketIDControlReceiveType\<close> and \<open>PacketIDDataReceiveType\<close>
  share, on a ring of \<open>2 ^ (order + 3)\<close> bits addressed with machine words, the abstract filter
  it implements (a set of accepted IDs), and the locale \<open>replay_filter\<close> in which the
  consequences are proved once for both receivers: no ID is accepted twice.
\<close>

section \<open>State and steps of the ring\<close>

text \<open>The verdicts: \<open>Error::SUCCESS\<close> and the packet ID errors of error/error.hpp.\<close>

datatype pid_error = SUCCESS | PKTID_INVALID | PKTID_BACKTRACK | PKTID_EXPIRE | PKTID_REPLAY
  | PKTID_TIME_BACKTRACK

record 'w replay_state =
  r_base :: 'w
  r_extent :: 'w
  r_high :: 'w
  r_history :: "byte list"

definition REPLAY_WINDOW_SIZE :: "nat \<Rightarrow> 'a::len word" where
  "REPLAY_WINDOW_SIZE order = push_bit order 1 * 8"

definition REPLAY_INDEX :: "nat \<Rightarrow> ('a::len word) \<Rightarrow> 'a word \<Rightarrow> 'a word" where
  "REPLAY_INDEX order base i = (base + i) AND (REPLAY_WINDOW_SIZE order - 1)"

text \<open>The next ID in sequence.\<close>

definition replay_next :: "nat \<Rightarrow> 'a::len word \<Rightarrow> 'a word replay_state \<Rightarrow> 'a word replay_state" where
  "replay_next order pid r =
     (let base = REPLAY_INDEX order (r_base r) (-1)
      in r\<lparr>r_base := base,
           r_history := hist_set (r_history r) (unat base),
           r_extent := (if r_extent r < REPLAY_WINDOW_SIZE order then r_extent r + 1 else r_extent r),
           r_high := pid\<rparr>)"

text \<open>An ID that jumps forward by more than one.\<close>

definition replay_jump :: "nat \<Rightarrow> 'a::len word \<Rightarrow> 'a word replay_state \<Rightarrow> 'a word replay_state" where
  "replay_jump order pid r =
     (let delta = pid - r_high r
      in if delta < REPLAY_WINDOW_SIZE order
         then let base = REPLAY_INDEX order (r_base r) (- delta);
                  h = hist_set (r_history r) (unat base);
                  extent = r_extent r + delta
              in r\<lparr>r_base := base,
                   r_extent := (if extent > REPLAY_WINDOW_SIZE order then REPLAY_WINDOW_SIZE order
                                else extent),
                   r_history := fold (\<lambda>i h. hist_clear h (unat (REPLAY_INDEX order base (of_nat i))))
                                  [1..<unat delta] h,
                   r_high := pid\<rparr>
         else r\<lparr>r_base := 0,
                r_extent := REPLAY_WINDOW_SIZE order,
                r_history := (replicate (length (r_history r)) 0)[0 := 1],
                r_high := pid\<rparr>)"

text \<open>An ID at or below the highest one: the verdict, and the marked history.\<close>

definition replay_backtrack ::
  "nat \<Rightarrow> 'a::len word \<Rightarrow> 'a word \<Rightarrow> bool \<Rightarrow> 'a word replay_state \<Rightarrow> pid_error \<times> 'a word replay_state" where
  "replay_backtrack order pid id_floor md r =
     (let delta = r_high r - pid
      in if delta < r_extent r
         then if pid > id_floor
              then let ri = REPLAY_INDEX order (r_base r) delta
                   in if hist_test (r_history r) (unat ri) then (PKTID_REPLAY, r)
                      else if \<not> md then (SUCCESS, r)
                      else (SUCCESS, r\<lparr>r_history := hist_set (r_history r) (unat ri)\<rparr>)
              else (PKTID_EXPIRE, r)
         else (PKTID_BACKTRACK, r))"

text \<open>The three-way branch on the ID that both receivers contain.\<close>

definition replay_sequence ::
  "nat \<Rightarrow> 'a::len word \<Rightarrow> 'a word \<Rightarrow> bool \<Rightarrow> 'a word replay_state \<Rightarrow> pid_error \<times> 'a word replay_state" where
  "replay_sequence order pid id_floor md r =
     (if pid = r_high r + 1
      then if \<not> md then (SUCCESS, r) else (SUCCESS, replay_next order pid r)
      else if pid > r_high r
      then if \<not> md then (SUCCESS, r) else (SUCCESS, replay_jump order pid r)
      else replay_backtrack order pid id_floor md r)"

section \<open>The abstract filter\<close>

text \<open>
  The specification keeps the set of accepted IDs of the current time stamp instead of a ring.
  An input is a time stamp, an ID, the clock, and whether the history may be modified.
\<close>

record replay_spec =
  s_time :: int
  s_high :: nat
  s_extent :: nat
  s_floor :: nat
  s_expire :: int
  s_accepted :: "nat set"

type_synonym replay_input = "int \<times> nat \<times> int \<times> bool"

definition spec_expire :: "int \<Rightarrow> int \<Rightarrow> replay_spec \<Rightarrow> replay_spec" where
  "spec_expire xp now t =
     t\<lparr>s_floor := (if now \<ge> s_expire t then s_high t else s_floor t), s_expire := now + xp\<rparr>"

definition spec_sequence :: "nat \<Rightarrow> nat \<Rightarrow> bool \<Rightarrow> replay_spec \<Rightarrow> pid_error \<times> replay_spec" where
  "spec_sequence W pid md t =
     (if pid > s_high t
      then (SUCCESS, if md then t\<lparr>s_high := pid, s_extent := min W (s_extent t + (pid - s_high t)),
                                  s_accepted := insert pid (s_accepted t)\<rparr> else t)
      else if s_high t - pid \<ge> s_extent t then (PKTID_BACKTRACK, t)
      else if pid \<le> s_floor t then (PKTID_EXPIRE, t)
      else if pid \<in> s_accepted t then (PKTID_REPLAY, t)
      else (SUCCESS, if md then t\<lparr>s_accepted := insert pid (s_accepted t)\<rparr> else t))"

definition spec_new_time :: "int \<Rightarrow> replay_spec \<Rightarrow> replay_spec" where
  "spec_new_time time t =
     t\<lparr>s_time := time, s_high := 0, s_extent := 0, s_floor := 0, s_accepted := {}\<rparr>"

fun spec_step :: "nat \<Rightarrow> int \<Rightarrow> replay_spec \<Rightarrow> replay_input \<Rightarrow> pid_error \<times> replay_spec" where
  "spec_step W xp t (time, pid, now, md) =
     (let t1 = spec_expire xp now t
      in if pid = 0 then (PKTID_INVALID, t1)
         else if time < s_time t1 then (PKTID_TIME_BACKTRACK, t1)
         else if time > s_time t1
              then if md then spec_sequence W pid md (spec_new_time time t1) else (SUCCESS, t1)
         else spec_sequence W pid md t1)"

section \<open>The ring implements the set\<close>

abbreviation (input) ring_rel :: "nat \<Rightarrow> 'a::len word replay_state \<Rightarrow> nat set \<Rightarrow> bool" where
  "ring_rel order r acc \<equiv>
     8 * length (r_history r) = 2 ^ (order + 3)
     \<and> ring_window hist_test (2 ^ (order + 3)) (unat (r_base r)) (unat (r_extent r)) (unat (r_high r))
         acc (r_history r)"

lemma REPLAY_WINDOW_SIZE_exp: "REPLAY_WINDOW_SIZE order = (2 ^ (order + 3) :: 'a::len word)"
  by (simp add: REPLAY_WINDOW_SIZE_def push_bit_eq_mult power_add)

lemma unat_WINDOW_SIZE [simp]:
  "order + 3 < LENGTH('a) \<Longrightarrow> unat (REPLAY_WINDOW_SIZE order :: 'a::len word) = 2 ^ (order + 3)"
  unfolding REPLAY_WINDOW_SIZE_exp by (rule unat_exp)

lemma unat_REPLAY_INDEX:
  fixes b i :: "'a::len word"
  assumes "order + 3 < LENGTH('a)"
  shows "unat (REPLAY_INDEX order b i) = (unat b + unat i) mod 2 ^ (order + 3)"
  unfolding REPLAY_INDEX_def REPLAY_WINDOW_SIZE_exp using assms by (intro unat_add_and_mask) simp

lemma unat_REPLAY_INDEX_less:
  "order + 3 < LENGTH('a) \<Longrightarrow> unat (REPLAY_INDEX order (b :: 'a::len word) i) < 2 ^ (order + 3)"
  by (simp add: unat_REPLAY_INDEX)

lemma REPLAY_INDEX_back:
  fixes b d :: "'a::len word"
  assumes "order + 3 < LENGTH('a)" and "unat b < 2 ^ (order + 3)"
  shows "(unat (REPLAY_INDEX order b (- d)) + unat d) mod 2 ^ (order + 3) = unat b"
  unfolding REPLAY_INDEX_def REPLAY_WINDOW_SIZE_exp
  using unat_sub_and_mask [of "order + 3" b d] assms by simp

lemma replay_jump_near:
  fixes r :: "'a::len word replay_state"
  assumes k: "order + 3 < LENGTH('a)" and rel: "ring_rel order r acc"
    and pid: "r_high r < pid" and near: "pid - r_high r < REPLAY_WINDOW_SIZE order"
  shows "ring_rel order (replay_jump order pid r) (insert (unat pid) acc)
    \<and> r_high (replay_jump order pid r) = pid
    \<and> unat (r_extent (replay_jump order pid r))
        = min (2 ^ (order + 3)) (unat (r_extent r) + (unat pid - unat (r_high r)))"
proof -
  let ?W = "2 ^ (order + 3) :: nat" and ?d = "pid - r_high r"
  let ?b = "REPLAY_INDEX order (r_base r) (- ?d)"
  let ?is = "map (\<lambda>i. (unat ?b + i) mod ?W) [1..<unat ?d]"
  have d: "unat ?d = unat pid - unat (r_high r)" using pid by (simp add: unat_diff_le)
  have d0: "0 < unat ?d" using d pid by (simp add: word_less_nat_alt)
  have dW: "unat ?d < ?W" using near k by (simp add: word_less_nat_alt)
  have base: "unat (r_base r) < ?W" and ext: "unat (r_extent r) \<le> ?W"
    using rel by (auto simp: ring_window_def)
  have bk: "(unat ?b + unat ?d) mod ?W = unat (r_base r)" by (rule REPLAY_INDEX_back [OF k base])
  note slide = hist.slide [OF conjunct2 [OF rel] conjunct1 [OF rel] d0 dW bk
      unat_REPLAY_INDEX_less [OF k] refl]
  have len: "2 * ?W \<le> 2 ^ LENGTH('a)"
    using k by (simp flip: power_Suc add: power_increasing)
  have sum: "unat (r_extent r + ?d) = unat (r_extent r) + unat ?d"
    by (rule unat_add_no_overflow) (use ext dW len in linarith)
  have ext': "unat (r_extent (replay_jump order pid r)) = min ?W (unat (r_extent r) + unat ?d)"
    using near k sum by (auto simp: replay_jump_def Let_def word_less_nat_alt)
  have idx: "unat (REPLAY_INDEX order ?b (of_nat i :: 'a word)) = (unat ?b + i) mod ?W"
    if "i \<in> set [1..<unat ?d]" for i
  proof -
    have "i < 2 ^ LENGTH('a)" using that dW len by simp
    then show ?thesis using k by (simp add: unat_REPLAY_INDEX unat_of_nat)
  qed
  have "fold (\<lambda>i h. hist_clear h (unat (REPLAY_INDEX order ?b (of_nat i :: 'a word)))) [1..<unat ?d]
          (hist_set (r_history r) (unat ?b))
      = fold (\<lambda>i h. hist_clear h i) ?is (hist_set (r_history r) (unat ?b))"
    unfolding fold_map by (rule fold_cong) (simp_all only: comp_def idx)
  moreover have "unat (r_high r) + unat ?d = unat pid" using d d0 by linarith
  ultimately show ?thesis
    using slide near ext' d by (simp add: replay_jump_def Let_def)
qed

lemma replay_next_jump:
  fixes r :: "'a::len word replay_state"
  assumes k: "order + 3 < LENGTH('a)" and ext: "unat (r_extent r) \<le> 2 ^ (order + 3)"
    and pid: "pid = r_high r + 1" "pid \<noteq> 0"
  shows "replay_next order pid r = replay_jump order pid r"
proof -
  have 8: "(8 :: nat) \<le> 2 ^ (order + 3)" by (simp add: power_add)
  have "unat (1 :: 'a word) < unat (REPLAY_WINDOW_SIZE order :: 'a word)"
    using 8 by (simp only: unat_1 unat_WINDOW_SIZE [OF k])
  then have 1: "(1 :: 'a word) < REPLAY_WINDOW_SIZE order" by (simp only: word_less_nat_alt)
  have "unat (r_extent r) + unat (1 :: 'a word) < 2 ^ LENGTH('a)"
  proof -
    have "(2 :: nat) ^ (order + 3) * 2 \<le> 2 ^ LENGTH('a)"
      using k by (simp flip: power_Suc2 add: power_increasing)
    then show ?thesis using 8 ext unat_1 [where ?'a = 'a] by linarith
  qed
  then have sum: "unat (r_extent r + 1) = unat (r_extent r) + 1"
    using unat_add_no_overflow by fastforce
  have ext_eq: "(if r_extent r < REPLAY_WINDOW_SIZE order then r_extent r + 1 else r_extent r)
      = (if r_extent r + 1 > REPLAY_WINDOW_SIZE order then REPLAY_WINDOW_SIZE order
         else r_extent r + 1)"
    using k ext sum by (auto simp: word_less_nat_alt word_unat_eq_iff)
  have "pid - r_high r = 1" using pid by simp
  then show ?thesis using 1 ext_eq by (simp add: replay_next_def replay_jump_def Let_def)
qed

lemma replay_jump_far:
  fixes r :: "'a::len word replay_state"
  assumes k: "order + 3 < LENGTH('a)" and rel: "ring_rel order r acc"
    and pid: "r_high r < pid" and far: "\<not> pid - r_high r < REPLAY_WINDOW_SIZE order"
  shows "ring_rel order (replay_jump order pid r) (insert (unat pid) acc)
    \<and> r_high (replay_jump order pid r) = pid
    \<and> unat (r_extent (replay_jump order pid r))
        = min (2 ^ (order + 3)) (unat (r_extent r) + (unat pid - unat (r_high r)))"
proof -
  let ?W = "2 ^ (order + 3) :: nat" and ?n = "length (r_history r)"
  let ?h = "(replicate ?n 0)[0 := 1] :: byte list"
  have d: "?W \<le> unat pid - unat (r_high r)"
    using far pid k by (simp add: word_less_nat_alt unat_diff_le not_less)
  have n: "8 * ?n = ?W" using rel by simp
  then have n0: "0 < ?n" by (metis mult_0_right neq0_conv power_not_zero zero_neq_numeral)
  have "?h = hist_set (replicate ?n 0) 0" using n0 by (simp add: hist_set_def)
  then have bits: "\<forall>j<?W. hist_test ?h j \<longleftrightarrow> j = 0"
    using n n0 hist_test_zero [of _ ?n] by (auto simp: hist_test_set)
  have far': "unat (r_high r) + ?W \<le> unat pid" using d pid by (simp add: word_less_nat_alt)
  have "ring_window hist_test ?W 0 ?W (unat pid) (insert (unat pid) acc) ?h"
    by (rule hist.restart [OF conjunct2 [OF rel] _ far' bits]) simp
  with far d n k show ?thesis by (simp add: replay_jump_def Let_def)
qed

lemma replay_jump_ok:
  fixes r :: "'a::len word replay_state"
  assumes "order + 3 < LENGTH('a)" and "ring_rel order r acc" and "r_high r < pid"
  shows "ring_rel order (replay_jump order pid r) (insert (unat pid) acc)
    \<and> r_high (replay_jump order pid r) = pid
    \<and> unat (r_extent (replay_jump order pid r))
        = min (2 ^ (order + 3)) (unat (r_extent r) + (unat pid - unat (r_high r)))"
  using replay_jump_near [OF assms] replay_jump_far [OF assms] by blast

lemma replay_forward:
  fixes r :: "'a::len word replay_state"
  assumes k: "order + 3 < LENGTH('a)" and rel: "ring_rel order r acc"
    and pid: "pid \<noteq> 0" "pid = r_high r + 1 \<or> r_high r < pid"
  shows "r_high r < pid"
    and "replay_sequence order pid id_floor md r
         = (SUCCESS, if md then replay_jump order pid r else r)"
proof -
  have ext: "unat (r_extent r) \<le> 2 ^ (order + 3)" using rel by (auto simp: ring_window_def)
  show "r_high r < pid"
    using pid by (metis lessI less_add_one unat_inc word_less_nat_alt)
  then show "replay_sequence order pid id_floor md r
         = (SUCCESS, if md then replay_jump order pid r else r)"
    using pid(1) replay_next_jump [OF k ext _ pid(1)] by (auto simp: replay_sequence_def)
qed

lemma replay_backtrack_ok:
  fixes r :: "'a::len word replay_state"
  assumes k: "order + 3 < LENGTH('a)" and rel: "ring_rel order r acc" and pid: "pid \<le> r_high r"
    and bt: "replay_backtrack order pid id_floor md r = (e, r')"
  shows "r_high r' = r_high r \<and> r_extent r' = r_extent r \<and> r_base r' = r_base r
    \<and> (if unat (r_high r) - unat pid \<ge> unat (r_extent r) then e = PKTID_BACKTRACK \<and> ring_rel order r' acc
       else if unat pid \<le> unat id_floor then e = PKTID_EXPIRE \<and> ring_rel order r' acc
       else if unat pid \<in> acc then e = PKTID_REPLAY \<and> ring_rel order r' acc
       else e = SUCCESS \<and> ring_rel order r' (if md then insert (unat pid) acc else acc))"
proof (cases "unat (r_high r) - unat pid < unat (r_extent r)")
  case False
  then show ?thesis using bt rel pid
    by (simp add: replay_backtrack_def Let_def word_less_nat_alt unat_diff_le)
next
  case True
  let ?W = "2 ^ (order + 3) :: nat" and ?d = "r_high r - pid"
  have d: "unat ?d = unat (r_high r) - unat pid" using pid by (rule unat_diff_le)
  have dx: "unat ?d < unat (r_extent r)" using True d by simp
  have ri: "unat (REPLAY_INDEX order (r_base r) ?d) = (unat (r_base r) + unat ?d) mod ?W"
    by (rule unat_REPLAY_INDEX [OF k])
  have hi: "unat (r_high r) - unat ?d = unat pid" using pid d by (simp add: word_le_nat_alt)
  have test: "hist_test (r_history r) (unat (REPLAY_INDEX order (r_base r) ?d)) \<longleftrightarrow> unat pid \<in> acc"
    using ring_windowD(5) [OF conjunct2 [OF rel] dx] unfolding ri hi .
  have mark: "ring_window hist_test ?W (unat (r_base r)) (unat (r_extent r)) (unat (r_high r))
      (insert (unat pid) acc) (hist_set (r_history r) (unat (REPLAY_INDEX order (r_base r) ?d)))"
    using hist.mark [OF conjunct2 [OF rel] conjunct1 [OF rel] dx] unfolding ri hi .
  from dx have "?d < r_extent r" by (simp add: word_less_nat_alt)
  then show ?thesis
    using bt rel test mark True
    by (auto simp: replay_backtrack_def Let_def word_less_nat_alt split: if_splits)
qed

text \<open>One step of the ring is one step of the set.\<close>

lemma replay_sequence_refines:
  fixes r :: "'a::len word replay_state"
  assumes k: "order + 3 < LENGTH('a)" and rel: "ring_rel order r (s_accepted t)"
    and t: "s_high t = unat (r_high r)" "s_extent t = unat (r_extent r)" "s_floor t = unat id_floor"
    and pid: "pid \<noteq> 0" and sq: "replay_sequence order pid id_floor md r = (e, r')"
  shows "\<exists>t'. spec_sequence (2 ^ (order + 3)) (unat pid) md t = (e, t')
    \<and> ring_rel order r' (s_accepted t') \<and> s_high t' = unat (r_high r')
    \<and> s_extent t' = unat (r_extent r') \<and> s_floor t' = s_floor t \<and> s_time t' = s_time t
    \<and> s_expire t' = s_expire t"
proof (cases "pid = r_high r + 1 \<or> r_high r < pid")
  case True
  note fwd = replay_forward [OF k rel pid True]
  note jump = replay_jump_ok [OF k rel fwd(1)]
  have "unat (r_high r) < unat pid" using fwd(1) by (simp add: word_less_nat_alt)
  with fwd(2) [of id_floor md] sq jump t rel show ?thesis by (auto simp: spec_sequence_def)
next
  case False
  then have le: "pid \<le> r_high r" by (simp add: not_less)
  then have nle: "\<not> unat (r_high r) < unat pid" by (simp add: word_le_nat_alt)
  have "replay_backtrack order pid id_floor md r = (e, r')"
    using sq False by (simp add: replay_sequence_def)
  from replay_backtrack_ok [OF k rel le this] nle t show ?thesis
    by (auto simp: spec_sequence_def split: if_splits)
qed

section \<open>The filter interface\<close>

text \<open>The keys a filter accepts and records over a sequence of inputs; an exception ends it.\<close>

fun accepted ::
  "('s \<Rightarrow> 'x \<Rightarrow> (pid_error \<times> 's) result) \<Rightarrow> ('x \<Rightarrow> replay_input) \<Rightarrow> 's \<Rightarrow> 'x list \<Rightarrow> (int \<times> nat) list" where
  "accepted stp inp s [] = []"
| "accepted stp inp s (x # xs) =
     (case stp s x of
        Inl _ \<Rightarrow> []
      | Inr (e, s') \<Rightarrow>
          (case inp x of (time, pid, now, md) \<Rightarrow>
             (if e = SUCCESS \<and> md then [(time, pid)] else []) @ accepted stp inp s' xs))"

text \<open>The verdicts of a filter over a sequence of inputs, and those of the specification.\<close>

fun run_verdicts :: "('s \<Rightarrow> 'x \<Rightarrow> (pid_error \<times> 's) result) \<Rightarrow> 's \<Rightarrow> 'x list \<Rightarrow> pid_error list result" where
  "run_verdicts stp s [] = Inr []"
| "run_verdicts stp s (x # xs) =
     bindR (stp s x) (\<lambda>(e, s'). bindR (run_verdicts stp s' xs) (\<lambda>es. Inr (e # es)))"

fun spec_verdicts :: "nat \<Rightarrow> int \<Rightarrow> replay_spec \<Rightarrow> replay_input list \<Rightarrow> pid_error list" where
  "spec_verdicts W xp t [] = []"
| "spec_verdicts W xp t (x # xs) = (let (e, t') = spec_step W xp t x in e # spec_verdicts W xp t' xs)"

text \<open>\<open>K\<close> holds only keys the specification state knows to be used.\<close>

definition keys_known :: "replay_spec \<Rightarrow> (int \<times> nat) set \<Rightarrow> bool" where
  "keys_known t K \<longleftrightarrow> (\<forall>(time, pid) \<in> K. time < s_time t \<or> time = s_time t \<and> pid \<in> s_accepted t)"

definition key_less :: "int \<times> nat \<Rightarrow> int \<times> nat \<Rightarrow> bool" where
  "key_less a b \<longleftrightarrow> fst a < fst b \<or> fst a = fst b \<and> snd a < snd b"

lemmas spec_defs = spec_sequence_def spec_expire_def spec_new_time_def Let_def

lemma spec_step_fresh:
  assumes "spec_step W xp t (time, pid, now, md) = (e, t')"
    and "keys_known t K" and "\<forall>a\<in>s_accepted t. a \<le> s_high t"
  shows "if e = SUCCESS \<and> md then (time, pid) \<notin> K \<and> keys_known t' (insert (time, pid) K)
         else keys_known t' K"
  using assms by (fastforce simp: spec_defs keys_known_def split: if_splits)

lemma spec_step_ascending:
  assumes "key_less (s_time t, s_high t) (time, pid)" and "0 < pid"
  shows "\<exists>t'. spec_step W xp t (time, pid, now, True) = (SUCCESS, t')
    \<and> s_time t' = time \<and> s_high t' = pid"
  using assms by (auto simp: spec_defs key_less_def)

locale replay_filter =
  fixes stp :: "'s \<Rightarrow> 'x \<Rightarrow> (pid_error \<times> 's) result"
    and inp :: "'x \<Rightarrow> replay_input"
    and R :: "'s \<Rightarrow> replay_spec \<Rightarrow> bool"
    and W :: nat
    and xp :: int
  assumes refine: "R s t \<Longrightarrow> \<exists>e s' t'. stp s x = Inr (e, s') \<and> spec_step W xp t (inp x) = (e, t') \<and> R s' t'"
    and high: "R s t \<Longrightarrow> \<forall>a\<in>s_accepted t. a \<le> s_high t"
begin

lemma accepted_fresh:
  "R s t \<Longrightarrow> keys_known t K \<Longrightarrow>
     distinct (accepted stp inp s xs) \<and> set (accepted stp inp s xs) \<inter> K = {}"
proof (induction xs arbitrary: s t K)
  case Nil
  then show ?case by simp
next
  case (Cons x xs)
  obtain time pid now md where x: "inp x = (time, pid, now, md)" by (metis prod_cases4)
  obtain e s' t' where s: "stp s x = Inr (e, s')" and t: "spec_step W xp t (inp x) = (e, t')"
    and R: "R s' t'" using refine [OF Cons.prems(1)] by blast
  note fresh = spec_step_fresh [OF t [unfolded x] Cons.prems(2) high [OF Cons.prems(1)]]
  show ?case
  proof (cases "e = SUCCESS \<and> md")
    case True
    with fresh have "(time, pid) \<notin> K" "keys_known t' (insert (time, pid) K)" by auto
    with Cons.IH [OF R, of "insert (time, pid) K"] True s x show ?thesis by auto
  next
    case False
    with fresh Cons.IH [OF R, of K] s x show ?thesis by auto
  qed
qed

lemma verdicts_refine:
  "R s t \<Longrightarrow> run_verdicts stp s xs = Inr (spec_verdicts W xp t (map inp xs))"
proof (induction xs arbitrary: s t)
  case Nil
  then show ?case by simp
next
  case (Cons x xs)
  obtain e s' t' where "stp s x = Inr (e, s')" "spec_step W xp t (inp x) = (e, t')" "R s' t'"
    using refine [OF Cons.prems] by blast
  with Cons.IH [of s' t'] show ?case by simp
qed

lemma accepted_ascending:
  "R s t \<Longrightarrow> \<forall>x\<in>set xs. \<exists>time pid now. inp x = (time, pid, now, True) \<and> 0 < pid
     \<and> key_less (s_time t, s_high t) (time, pid) \<Longrightarrow>
   sorted_wrt key_less (map (\<lambda>x. (fst (inp x), fst (snd (inp x)))) xs) \<Longrightarrow>
   accepted stp inp s xs = map (\<lambda>x. (fst (inp x), fst (snd (inp x)))) xs"
proof (induction xs arbitrary: s t)
  case Nil
  then show ?case by simp
next
  case (Cons x xs)
  obtain time pid now where x: "inp x = (time, pid, now, True)" "0 < pid"
    "key_less (s_time t, s_high t) (time, pid)" using Cons.prems(2) by auto
  obtain e s' t' where s: "stp s x = Inr (e, s')" and t: "spec_step W xp t (inp x) = (e, t')"
    and R: "R s' t'" using refine [OF Cons.prems(1)] by blast
  from spec_step_ascending [OF x(3,2), of W xp now] t [unfolded x(1)]
  have e: "e = SUCCESS" "s_time t' = time" "s_high t' = pid" by (auto simp del: spec_step.simps)
  have "accepted stp inp s' xs = map (\<lambda>x. (fst (inp x), fst (snd (inp x)))) xs"
    by (rule Cons.IH [OF R]) (use Cons.prems(2,3) x(1) e in \<open>auto, metis fst_conv snd_conv\<close>)
  with s e x(1) show ?case by simp
qed

end

section \<open>Runs\<close>

text \<open>
  An interface for replay protection: a step takes an input, may accept it, and remembers the keys of the
  accepted ones. Then no key is accepted twice in a run.
\<close>

fun accepted_keys :: "('s \<Rightarrow> 'x \<Rightarrow> bool \<times> 's) \<Rightarrow> ('s \<Rightarrow> 'x \<Rightarrow> 'k) \<Rightarrow> 's \<Rightarrow> 'x list \<Rightarrow> 'k list" where
  "accepted_keys stp key s [] = []"
| "accepted_keys stp key s (x # xs) = (case stp s x of (r, s') \<Rightarrow> (if r then [key s x] else []) @ accepted_keys stp key s' xs)"

locale fresh_steps =
  fixes stp :: "'s \<Rightarrow> 'x \<Rightarrow> bool \<times> 's"
    and key :: "'s \<Rightarrow> 'x \<Rightarrow> 'k"
    and known :: "'s \<Rightarrow> 'k set \<Rightarrow> bool"
    and admissible :: "'x \<Rightarrow> bool"
  assumes fresh: "known s K \<Longrightarrow> admissible x \<Longrightarrow> stp s x = (r, s') \<Longrightarrow>
    \<exists>K'. known s' K' \<and> K \<subseteq> K' \<and> (r \<longrightarrow> key s x \<in> K' - K)"
begin

lemma run_distinct: "known s K \<Longrightarrow> \<forall>x\<in>set xs. admissible x \<Longrightarrow> distinct (accepted_keys stp key s xs) \<and> set (accepted_keys stp key s xs) \<inter> K = {}"
proof (induction xs arbitrary: s K)
  case (Cons x xs)
  obtain r s' where st: "stp s x = (r, s')" by fastforce
  obtain K' where k: "known s' K'" "K \<subseteq> K'" "r \<longrightarrow> key s x \<in> K' - K" using fresh [OF Cons.prems(1) _ st] Cons.prems(2) by auto
  have "distinct (accepted_keys stp key s' xs)" "set (accepted_keys stp key s' xs) \<inter> K' = {}" using Cons.IH [OF k(1)] Cons.prems(2) by auto
  then show ?case using k by (auto simp: st)
qed simp

end

end
