(* ===== verification/OV_Buffer.thy ===== *)
theory OV_Buffer
  imports OV_Prelude
begin

text \<open>
  The data buffers of buffer/buffer.hpp: an array with a window \<open>[offset, offset + size)\<close>
  that can be consumed and extended at both ends. \<open>b_flags = None\<close> is a non-owning
  \<open>BufferType\<close>, \<open>Some f\<close> a \<open>BufferAllocatedType\<close> with flags \<open>f\<close>: the two virtual
  members \<open>resize\<close> and \<open>reset_impl\<close> dispatch on it. Fresh memory is indeterminate in C++;
  operations that allocate take its contents as the argument \<open>junk\<close>. The abstraction
  \<open>content\<close> reads the window as a byte list, and every operation is shown to act on it as
  the corresponding list operation.
\<close>

section \<open>State\<close>

record buffer =
  b_data :: "byte list"
  b_offset :: size_t
  b_size :: size_t
  b_capacity :: size_t
  b_flags :: "u32 option"

definition CONSTRUCT_ZERO :: u32 where "CONSTRUCT_ZERO = 1"
definition DESTRUCT_ZERO :: u32 where "DESTRUCT_ZERO = 2"
definition GROW :: u32 where "GROW = 4"
definition ARRAY :: u32 where "ARRAY = 8"

text \<open>The invariant the layout diagram of the class draws.\<close>

definition buf_wf :: "buffer \<Rightarrow> bool" where
  "buf_wf b \<longleftrightarrow> length (b_data b) = b_capacity b \<and> b_offset b + b_size b \<le> b_capacity b
     \<and> b_capacity b < sz_max"

definition content :: "buffer \<Rightarrow> byte list" where
  "content b = take (b_size b) (drop (b_offset b) (b_data b))"

text \<open>A store of bytes into the array; outside of it there is no defined result.\<close>

definition buf_poke :: "nat \<Rightarrow> byte list \<Rightarrow> buffer \<Rightarrow> buffer result" where
  "buf_poke i bs b =
     (if i + length bs \<le> length (b_data b) then Inr (b\<lparr>b_data := overwrite i bs (b_data b)\<rparr>)
      else Inl undefined_behaviour)"

definition buf_peek :: "nat \<Rightarrow> nat \<Rightarrow> buffer \<Rightarrow> byte list result" where
  "buf_peek i n b =
     (if i + n \<le> length (b_data b) then Inr (take n (drop i (b_data b)))
      else Inl undefined_behaviour)"

section \<open>\<open>ConstBufferType\<close>: observers\<close>

definition buf_ctor :: "byte list \<Rightarrow> size_t \<Rightarrow> bool \<Rightarrow> buffer" where
  "buf_ctor dat n filled =
     \<lparr>b_data = dat, b_offset = 0, b_size = (if filled then n else 0), b_capacity = n,
      b_flags = None\<rparr>"

definition buf_defined :: "buffer \<Rightarrow> bool" where
  "buf_defined b \<longleftrightarrow> b_size b > 0"

definition buf_empty :: "buffer \<Rightarrow> bool" where
  "buf_empty b \<longleftrightarrow> b_size b = 0"

definition buf_at :: "buffer \<Rightarrow> size_t \<Rightarrow> byte result" where
  "buf_at b index =
     (if index \<ge> b_size b then Inl (BufferException buffer_const_index)
      else bindR (buf_peek (b_offset b + index) 1 b) (\<lambda>bs. Inr (hd bs)))"

definition buf_front :: "buffer \<Rightarrow> byte result" where
  "buf_front b = buf_at b 0"

definition buf_back :: "buffer \<Rightarrow> byte result" where
  "buf_back b = buf_at b (sz_sub (b_size b) 1)"

definition buf_contains_null :: "buffer \<Rightarrow> bool" where
  "buf_contains_null b = list_ex (\<lambda>x. x = 0) (content b)"

definition buf_is_zeroed :: "buffer \<Rightarrow> bool" where
  "buf_is_zeroed b = list_all (\<lambda>x. x = 0) (content b)"

definition buf_max_size :: "buffer \<Rightarrow> size_t" where
  "buf_max_size b =
     (let r = sz_sub (b_capacity b) (b_offset b) in if r \<le> b_capacity b then r else 0)"

definition buf_remaining :: "buffer \<Rightarrow> size_t \<Rightarrow> size_t" where
  "buf_remaining b tailroom =
     (let r = sz_sub (b_capacity b) (sz_add (sz_add (b_offset b) (b_size b)) tailroom)
      in if r \<le> b_capacity b then r else 0)"

definition buf_max_size_tailroom :: "buffer \<Rightarrow> size_t \<Rightarrow> size_t" where
  "buf_max_size_tailroom b tailroom =
     (let r = sz_sub (b_capacity b) (sz_add (b_offset b) tailroom)
      in if r \<le> b_capacity b then r else 0)"

definition buf_eq :: "buffer \<Rightarrow> buffer \<Rightarrow> bool" where
  "buf_eq a b = (if b_size a \<noteq> b_size b then False else content a = content b)"

text \<open>\<open>range\<close> returns a view: its data pointer is the window's start.\<close>

definition buf_range :: "buffer \<Rightarrow> size_t \<Rightarrow> size_t \<Rightarrow> buffer" where
  "buf_range b offset len =
     (let len' = (if sz_add offset len > b_size b
                  then (if offset < b_size b then sz_sub (b_size b) offset else 0) else len)
      in \<lparr>b_data = drop (b_offset b) (b_data b), b_offset = offset, b_size = len',
          b_capacity = len', b_flags = None\<rparr>)"

section \<open>\<open>ConstBufferType\<close>: operations\<close>

definition buf_init_headroom :: "size_t \<Rightarrow> buffer \<Rightarrow> buffer result" where
  "buf_init_headroom headroom b =
     (if headroom > b_capacity b then Inl (BufferException buffer_headroom)
      else Inr (b\<lparr>b_offset := headroom, b_size := 0\<rparr>))"

definition buf_reset_offset :: "size_t \<Rightarrow> buffer \<Rightarrow> buffer result" where
  "buf_reset_offset offset b =
     (let n = sz_sub (sz_add (b_size b) (b_offset b)) offset
      in if offset > b_capacity b \<or> n > b_capacity b \<or> sz_add offset n > b_capacity b
         then Inl (BufferException buffer_offset)
         else Inr (b\<lparr>b_offset := offset, b_size := n\<rparr>))"

definition buf_reset_size :: "buffer \<Rightarrow> buffer" where
  "buf_reset_size b = b\<lparr>b_size := 0\<rparr>"

definition buf_reset_content :: "buffer \<Rightarrow> buffer" where
  "buf_reset_content b = b\<lparr>b_offset := 0, b_size := 0\<rparr>"

definition buf_pop_back :: "buffer \<Rightarrow> (byte \<times> buffer) result" where
  "buf_pop_back b =
     (if b_size b = 0 then Inl (BufferException buffer_pop_back)
      else bindR (buf_peek (b_offset b + (b_size b - 1)) 1 b)
             (\<lambda>bs. Inr (hd bs, b\<lparr>b_size := b_size b - 1\<rparr>)))"

definition buf_pop_front :: "buffer \<Rightarrow> (byte \<times> buffer) result" where
  "buf_pop_front b =
     bindR (buf_at b 0)
       (\<lambda>ret. Inr (ret, b\<lparr>b_offset := b_offset b + 1, b_size := b_size b - 1\<rparr>))"

definition buf_advance :: "size_t \<Rightarrow> buffer \<Rightarrow> buffer result" where
  "buf_advance delta b =
     (if delta > b_size b then Inl (BufferException buffer_overflow)
      else Inr (b\<lparr>b_offset := b_offset b + delta, b_size := b_size b - delta\<rparr>))"

text \<open>\<open>read\<close> copies the bytes \<open>read_alloc\<close> consumes.\<close>

definition buf_read :: "size_t \<Rightarrow> buffer \<Rightarrow> (byte list \<times> buffer) result" where
  "buf_read n b =
     (if n \<le> b_size b
      then bindR (buf_peek (b_offset b) n b)
             (\<lambda>bs. Inr (bs, b\<lparr>b_offset := b_offset b + n, b_size := b_size b - n\<rparr>))
      else Inl (BufferException buffer_underflow))"

text \<open>\<open>read_alloc_buf\<close> returns a non-owning view of the consumed part.\<close>

definition buf_read_alloc_buf :: "size_t \<Rightarrow> buffer \<Rightarrow> (buffer \<times> buffer) result" where
  "buf_read_alloc_buf n b =
     (if n \<le> b_size b
      then Inr (b\<lparr>b_size := n, b_flags := None\<rparr>,
                b\<lparr>b_offset := b_offset b + n, b_size := b_size b - n\<rparr>)
      else Inl (BufferException buffer_underflow))"

definition buf_set_size :: "size_t \<Rightarrow> buffer \<Rightarrow> buffer result" where
  "buf_set_size n b =
     (if n > buf_max_size b then Inl (BufferException buffer_set_size)
      else Inr (b\<lparr>b_size := n\<rparr>))"

definition buf_inc_size :: "size_t \<Rightarrow> buffer \<Rightarrow> buffer result" where
  "buf_inc_size delta b = buf_set_size (sz_add (b_size b) delta) b"

section \<open>\<open>BufferAllocatedType\<close>: allocation\<close>

definition buf_alloc :: "(nat \<Rightarrow> byte) \<Rightarrow> size_t \<Rightarrow> size_t \<Rightarrow> size_t \<Rightarrow> u32 \<Rightarrow> buffer" where
  "buf_alloc junk offset n capacity flags =
     \<lparr>b_data = (if flags AND CONSTRUCT_ZERO \<noteq> 0 then replicate capacity 0
                else map junk [0..<capacity]),
      b_offset = offset, b_size = n, b_capacity = capacity, b_flags = Some flags\<rparr>"

definition buf_alloc_capacity :: "(nat \<Rightarrow> byte) \<Rightarrow> size_t \<Rightarrow> u32 \<Rightarrow> buffer" where
  "buf_alloc_capacity junk capacity flags =
     buf_alloc junk 0 (if flags AND ARRAY \<noteq> 0 then capacity else 0) capacity flags"

definition buf_alloc_data :: "(nat \<Rightarrow> byte) \<Rightarrow> byte list \<Rightarrow> u32 \<Rightarrow> buffer" where
  "buf_alloc_data junk bs flags =
     (let n = length bs; b = buf_alloc junk 0 n n flags
      in b\<lparr>b_data := overwrite 0 bs (b_data b)\<rparr>)"

definition buf_alloc_copy :: "(nat \<Rightarrow> byte) \<Rightarrow> buffer \<Rightarrow> u32 \<Rightarrow> buffer" where
  "buf_alloc_copy junk other flags =
     (let b = buf_alloc junk (b_offset other) (b_size other) (b_capacity other) flags
      in b\<lparr>b_data := overwrite (b_offset other) (content other) (b_data b)\<rparr>)"

definition buf_realloc_impl :: "(nat \<Rightarrow> byte) \<Rightarrow> size_t \<Rightarrow> size_t \<Rightarrow> u32 \<Rightarrow> buffer \<Rightarrow> buffer result" where
  "buf_realloc_impl junk newcap new_offset flags b =
     buf_poke new_offset (content b) (buf_alloc junk new_offset (b_size b) newcap flags)"

text \<open>The virtual member \<open>resize\<close>: \<open>BufferType\<close> and \<open>BufferAllocatedType\<close> versions.\<close>

definition buf_resize :: "(nat \<Rightarrow> byte) \<Rightarrow> size_t \<Rightarrow> buffer \<Rightarrow> buffer result" where
  "buf_resize junk new_capacity b =
     (case b_flags b of
        None \<Rightarrow> if new_capacity > b_capacity b then Inl (BufferException buffer_full) else Inr b
      | Some flags \<Rightarrow>
          let newcap = max new_capacity ((b_capacity b * 2) mod sz_max)
          in if newcap > b_capacity b
             then if flags AND GROW \<noteq> 0
                  then buf_realloc_impl junk newcap (b_offset b) flags b
                  else Inl (BufferException buffer_full)
             else Inr b)"

definition buf_reserve :: "(nat \<Rightarrow> byte) \<Rightarrow> size_t \<Rightarrow> buffer \<Rightarrow> buffer result" where
  "buf_reserve junk n b = (if n > b_capacity b then buf_resize junk n b else Inr b)"

text \<open>The virtual member \<open>reset_impl\<close> and the two-argument \<open>reset\<close>.\<close>

definition buf_reset_impl :: "(nat \<Rightarrow> byte) \<Rightarrow> size_t \<Rightarrow> u32 \<Rightarrow> buffer \<Rightarrow> buffer result" where
  "buf_reset_impl junk min_capacity flags b =
     (case b_flags b of
        None \<Rightarrow> Inl (BufferException buffer_no_reset_impl)
      | Some _ \<Rightarrow> Inr (buf_alloc_capacity junk min_capacity flags))"

definition buf_reset :: "(nat \<Rightarrow> byte) \<Rightarrow> size_t \<Rightarrow> u32 \<Rightarrow> buffer \<Rightarrow> buffer result" where
  "buf_reset junk min_capacity flags b =
     (if min_capacity > b_capacity b then buf_reset_impl junk min_capacity flags b else Inr b)"

definition buf_clear :: "buffer" where
  "buf_clear = \<lparr>b_data = [], b_offset = 0, b_size = 0, b_capacity = 0, b_flags = Some 0\<rparr>"

text \<open>The bytes left in the array when the destructor hands it back to the allocator.\<close>

definition buf_free_data :: "buffer \<Rightarrow> byte list" where
  "buf_free_data b =
     (case b_flags b of
        None \<Rightarrow> b_data b
      | Some flags \<Rightarrow>
          if b_size b \<noteq> 0 \<and> flags AND DESTRUCT_ZERO \<noteq> 0 then replicate (b_capacity b) 0
          else b_data b)"

section \<open>Writing\<close>

definition buf_write :: "(nat \<Rightarrow> byte) \<Rightarrow> byte list \<Rightarrow> buffer \<Rightarrow> buffer result" where
  "buf_write junk bs b =
     bindR (if length bs > buf_remaining b 0
            then buf_resize junk (sz_add (sz_add (b_offset b) (b_size b)) (length bs)) b
            else Inr b)
       (\<lambda>b'. buf_poke (b_offset b' + b_size b') bs (b'\<lparr>b_size := b_size b' + length bs\<rparr>))"

definition buf_write_alloc :: "(nat \<Rightarrow> byte) \<Rightarrow> size_t \<Rightarrow> buffer \<Rightarrow> buffer result" where
  "buf_write_alloc junk n b =
     bindR (if n > buf_remaining b 0 then buf_resize junk (sz_add (sz_add (b_offset b) (b_size b)) n) b else Inr b)
       (\<lambda>b'. Inr (b'\<lparr>b_size := b_size b' + n\<rparr>))"

definition buf_append :: "(nat \<Rightarrow> byte) \<Rightarrow> buffer \<Rightarrow> buffer \<Rightarrow> buffer result" where
  "buf_append junk other b = buf_write junk (content other) b"

definition buf_push_back :: "(nat \<Rightarrow> byte) \<Rightarrow> byte \<Rightarrow> buffer \<Rightarrow> buffer result" where
  "buf_push_back junk v b =
     bindR (if buf_remaining b 0 = 0
            then buf_resize junk (sz_add (sz_add (b_offset b) (b_size b)) 1) b else Inr b)
       (\<lambda>b'. buf_poke (b_offset b' + b_size b') [v] (b'\<lparr>b_size := b_size b' + 1\<rparr>))"

definition buf_set_trailer :: "(nat \<Rightarrow> byte) \<Rightarrow> byte \<Rightarrow> buffer \<Rightarrow> buffer result" where
  "buf_set_trailer junk v b =
     bindR (if buf_remaining b 0 = 0
            then buf_resize junk (sz_add (sz_add (b_offset b) (b_size b)) 1) b else Inr b)
       (\<lambda>b'. buf_poke (b_offset b' + b_size b') [v] b')"

definition buf_null_terminate :: "(nat \<Rightarrow> byte) \<Rightarrow> buffer \<Rightarrow> buffer result" where
  "buf_null_terminate junk b =
     (if buf_empty b then buf_push_back junk 0 b
      else bindR (buf_back b) (\<lambda>x. if x \<noteq> 0 then buf_push_back junk 0 b else Inr b))"

definition buf_push_front :: "byte \<Rightarrow> buffer \<Rightarrow> buffer result" where
  "buf_push_front v b =
     (if b_offset b = 0 then Inl (BufferException buffer_push_front_headroom)
      else buf_poke (b_offset b - 1) [v]
             (b\<lparr>b_offset := b_offset b - 1, b_size := b_size b + 1\<rparr>))"

text \<open>\<open>ConstBufferType::realign\<close>, the version \<open>prepend_alloc\<close> calls for every buffer.\<close>

definition buf_realign :: "size_t \<Rightarrow> buffer \<Rightarrow> buffer result" where
  "buf_realign headroom b =
     (if headroom \<noteq> b_offset b
      then if sz_add headroom (b_size b) > b_capacity b
           then Inl (BufferException buffer_headroom)
           else bindR (buf_poke headroom (content b) b) (\<lambda>b'. Inr (b'\<lparr>b_offset := headroom\<rparr>))
      else Inr b)"

text \<open>\<open>BufferAllocatedType::realign\<close>, which reallocates when the array is too small.\<close>

definition buf_realign_alloc :: "(nat \<Rightarrow> byte) \<Rightarrow> size_t \<Rightarrow> u32 \<Rightarrow> buffer \<Rightarrow> buffer result" where
  "buf_realign_alloc junk headroom flags b =
     (if headroom \<noteq> b_offset b
      then if sz_add headroom (b_size b) > b_capacity b
           then buf_realloc_impl junk (sz_add headroom (b_size b)) headroom flags b
           else buf_realign headroom b
      else Inr b)"

definition buf_prepend :: "byte list \<Rightarrow> buffer \<Rightarrow> buffer result" where
  "buf_prepend bs b =
     bindR (if length bs > b_offset b then buf_realign (length bs) b else Inr b)
       (\<lambda>b'. let o' = b_offset b' - length bs
             in buf_poke o' bs (b'\<lparr>b_offset := o', b_size := b_size b' + length bs\<rparr>))"

text \<open>\<open>prepend_alloc\<close>: the space in front is not written: its bytes are those the array has there.\<close>

definition buf_prepend_alloc :: "size_t \<Rightarrow> buffer \<Rightarrow> buffer result" where
  "buf_prepend_alloc n b =
     bindR (if n > b_offset b then buf_realign n b else Inr b)
       (\<lambda>b'. Inr (b'\<lparr>b_offset := b_offset b' - n, b_size := b_size b' + n\<rparr>))"

section \<open>The window as a list\<close>

lemmas buf_prim_defs = buf_poke_def buf_peek_def content_def buf_wf_def

lemma length_content [simp]: "buf_wf b \<Longrightarrow> length (content b) = b_size b"
  by (auto simp: buf_wf_def content_def)

lemma content_size_0 [simp]: "b_size b = 0 \<Longrightarrow> content b = []"
  by (simp add: content_def)

lemma buf_remaining_exact: "buf_wf b \<Longrightarrow> buf_remaining b 0 = b_capacity b - (b_offset b + b_size b)"
  by (simp add: buf_remaining_def buf_wf_def sz_add_exact sz_sub_exact)

lemma buf_max_size_exact: "buf_wf b \<Longrightarrow> buf_max_size b = b_capacity b - b_offset b"
  by (simp add: buf_max_size_def buf_wf_def sz_sub_exact)

lemma content_consume:
  "content (b\<lparr>b_offset := b_offset b + n, b_size := b_size b - n\<rparr>) = drop n (content b)"
  by (simp add: content_def drop_take add.commute)

lemma wf_consume:
  "buf_wf b \<Longrightarrow> n \<le> b_size b \<Longrightarrow>
     buf_wf (b\<lparr>b_offset := b_offset b + n, b_size := b_size b - n\<rparr>)"
  by (simp add: buf_wf_def)

lemma wf_shrink: "buf_wf b \<Longrightarrow> n \<le> b_size b \<Longrightarrow> buf_wf (b\<lparr>b_size := n\<rparr>)"
  by (simp add: buf_wf_def)

lemma content_shrink: "n \<le> b_size b \<Longrightarrow> content (b\<lparr>b_size := n\<rparr>) = take n (content b)"
  by (simp add: content_def min_def)

lemma buf_at_eq:
  "buf_wf b \<Longrightarrow>
     buf_at b i = (if i < b_size b then Inr (content b ! i) else Inl (BufferException buffer_const_index))"
  by (auto simp: buf_at_def buf_prim_defs hd_drop_conv_nth take_Suc hd_conv_nth)

lemma buf_read_eq:
  assumes "buf_wf b"
  shows "buf_read n b =
     (if n \<le> b_size b
      then Inr (take n (content b), b\<lparr>b_offset := b_offset b + n, b_size := b_size b - n\<rparr>)
      else Inl (BufferException buffer_underflow))"
  using assms by (simp add: buf_read_def buf_prim_defs min_def)

text \<open>Storing right behind or right before the window extends the list at that end.\<close>

lemma poke_back:
  assumes "buf_wf b" and "b_offset b + b_size b + length bs \<le> b_capacity b"
  shows "\<exists>b'. buf_poke (b_offset b + b_size b) bs (b\<lparr>b_size := b_size b + length bs\<rparr>) = Inr b'
     \<and> buf_wf b' \<and> content b' = content b @ bs \<and> b_capacity b' = b_capacity b
     \<and> b_flags b' = b_flags b \<and> b_offset b' = b_offset b"
  using assms by (simp add: buf_prim_defs overwrite_def add.commute drop_take)

lemma poke_front:
  assumes "buf_wf b" and "length bs \<le> b_offset b"
  shows "\<exists>b'. buf_poke (b_offset b - length bs) bs
      (b\<lparr>b_offset := b_offset b - length bs, b_size := b_size b + length bs\<rparr>) = Inr b'
     \<and> buf_wf b' \<and> content b' = bs @ content b \<and> b_capacity b' = b_capacity b
     \<and> b_flags b' = b_flags b"
  using assms by (auto simp: buf_prim_defs)

lemma realloc_impl_ok:
  assumes "buf_wf b" and "off + b_size b \<le> newcap" and "newcap < sz_max"
  shows "\<exists>b'. buf_realloc_impl junk newcap off flags b = Inr b' \<and> buf_wf b'
     \<and> content b' = content b \<and> b_capacity b' = newcap \<and> b_offset b' = off
     \<and> b_size b' = b_size b \<and> b_flags b' = Some flags"
  using assms by (auto simp: buf_realloc_impl_def buf_alloc_def buf_prim_defs overwrite_def min_def)

lemma resize_grow:
  assumes "buf_wf b" and "b_flags b = Some flags" and "flags AND GROW \<noteq> 0"
    and "b_capacity b < n" and "n < sz_max"
  shows "\<exists>b'. buf_resize junk n b = Inr b' \<and> buf_wf b' \<and> content b' = content b
     \<and> n \<le> b_capacity b' \<and> b_offset b' = b_offset b \<and> b_size b' = b_size b
     \<and> b_flags b' = Some flags"
proof -
  define m where "m = max n ((b_capacity b * 2) mod sz_max)"
  have m: "n \<le> m" "m < sz_max" using assms(5) by (auto simp: m_def)
  have sz: "b_offset b + b_size b \<le> m" using assms(1,4) m by (simp add: buf_wf_def)
  obtain b' where b': "buf_realloc_impl junk m (b_offset b) flags b = Inr b'" "buf_wf b'"
    "content b' = content b" "b_capacity b' = m" "b_offset b' = b_offset b"
    "b_size b' = b_size b" "b_flags b' = Some flags"
    using realloc_impl_ok [OF assms(1) sz m(2)] by blast
  moreover have "buf_resize junk n b = Inr b'"
    using assms(2-4) m b'(1) by (simp add: buf_resize_def flip: m_def)
  ultimately show ?thesis using m(1) by blast
qed

lemma resize_full:
  assumes "b_capacity b < n"
    and "case b_flags b of None \<Rightarrow> True | Some flags \<Rightarrow> flags AND GROW = 0"
  shows "buf_resize junk n b = Inl (BufferException buffer_full)"
  using assms by (auto simp: buf_resize_def Let_def split: option.splits)

lemma resize_Inr:
  assumes "buf_wf b" and "buf_resize junk n b = Inr b'" and "n < sz_max"
  shows "buf_wf b' \<and> content b' = content b \<and> b_offset b' = b_offset b \<and> b_size b' = b_size b"
proof (cases "b_flags b")
  case None
  with assms show ?thesis by (auto simp: buf_resize_def split: if_splits)
next
  case (Some flags)
  define m where "m = max n ((b_capacity b * 2) mod sz_max)"
  have "m < sz_max" using assms(3) by (simp add: m_def)
  show ?thesis
  proof (cases "m > b_capacity b")
    case True
    then have "b_offset b + b_size b \<le> m" using assms(1) by (simp add: buf_wf_def)
    with realloc_impl_ok [OF assms(1) this \<open>m < sz_max\<close>, of junk flags] True assms(2) Some
    show ?thesis by (auto simp: buf_resize_def simp flip: m_def split: if_splits)
  next
    case False
    with assms Some show ?thesis by (auto simp: buf_resize_def simp flip: m_def)
  qed
qed

section \<open>Operations refine list operations\<close>

lemma buf_write_Inr:
  assumes wf: "buf_wf b" and ok: "buf_write junk bs b = Inr b'"
  shows "buf_wf b' \<and> content b' = content b @ bs"
proof -
  obtain c where c: "buf_wf c" "content c = content b" "b_offset c = b_offset b" "b_size c = b_size b"
    and p: "buf_poke (b_offset c + b_size c) bs (c\<lparr>b_size := b_size c + length bs\<rparr>) = Inr b'"
  proof (cases "length bs > buf_remaining b 0")
    case True
    with ok obtain c where r: "buf_resize junk (sz_add (sz_add (b_offset b) (b_size b)) (length bs)) b = Inr c"
      and p: "buf_poke (b_offset c + b_size c) bs (c\<lparr>b_size := b_size c + length bs\<rparr>) = Inr b'"
      by (auto simp: buf_write_def bindR_eq_Inr)
    have "buf_wf c \<and> content c = content b \<and> b_offset c = b_offset b \<and> b_size c = b_size b"
      by (rule resize_Inr [OF wf r]) simp
    then show thesis using p by (intro that [of c]) simp_all
  next
    case False
    with ok wf that show thesis by (simp add: buf_write_def)
  qed
  from p c(1) have "b_offset c + b_size c + length bs \<le> b_capacity c"
    by (simp add: buf_poke_def buf_wf_def split: if_splits)
  from poke_back [OF c(1) this] p c(2) show ?thesis by auto
qed

lemma buf_write_room:
  assumes "buf_wf b" and "b_offset b + b_size b + length bs \<le> b_capacity b"
  shows "\<exists>b'. buf_write junk bs b = Inr b' \<and> b_capacity b' = b_capacity b"
  using assms poke_back [OF assms] by (auto simp: buf_write_def buf_remaining_exact)

lemma buf_write_fits:
  assumes "buf_wf b" and "b_offset b + b_size b + length bs \<le> b_capacity b"
  obtains b' where "buf_write junk bs b = Inr b'" "buf_wf b'" "content b' = content b @ bs"
    "b_size b' = b_size b + length bs" "b_capacity b' = b_capacity b" "b_flags b' = b_flags b"
    "b_offset b' = b_offset b"
proof -
  obtain b' where b': "buf_poke (b_offset b + b_size b) bs (b\<lparr>b_size := b_size b + length bs\<rparr>) = Inr b'"
    "buf_wf b'" "content b' = content b @ bs" "b_capacity b' = b_capacity b" "b_flags b' = b_flags b"
    "b_offset b' = b_offset b"
    using poke_back [OF assms] by blast
  moreover have "b_size b' = b_size b + length bs"
    using arg_cong [OF b'(3), of length] b'(2) assms(1) by simp
  moreover have "buf_write junk bs b = Inr b'"
    using assms b'(1) by (auto simp: buf_write_def buf_remaining_exact)
  ultimately show thesis by (intro that)
qed

lemma buf_read_fits:
  assumes "buf_wf b" "n \<le> b_size b"
  obtains b' where "buf_read n b = Inr (take n (content b), b')" "buf_wf b'" "content b' = drop n (content b)"
    "b_size b' = b_size b - n" "b_capacity b' = b_capacity b" "b_flags b' = b_flags b"
    "b_offset b' = b_offset b + n"
  by (rule that [of "b\<lparr>b_offset := b_offset b + n, b_size := b_size b - n\<rparr>"])
    (use assms in \<open>simp_all add: buf_read_eq wf_consume content_consume\<close>)

lemma buf_write_grow:
  assumes "buf_wf b" and "b_flags b = Some flags" and "flags AND GROW \<noteq> 0"
    and "b_offset b + b_size b + length bs < sz_max"
  shows "\<exists>b'. buf_write junk bs b = Inr b'"
proof (cases "b_offset b + b_size b + length bs \<le> b_capacity b")
  case True
  with assms(1) buf_write_room show ?thesis by blast
next
  case False
  with assms(4) have n: "b_capacity b < b_offset b + b_size b + length bs" by simp
  obtain c where c: "buf_resize junk (b_offset b + b_size b + length bs) b = Inr c" "buf_wf c"
    "b_offset b + b_size b + length bs \<le> b_capacity c" "b_offset c = b_offset b" "b_size c = b_size b"
    using resize_grow [OF assms(1-3) n assms(4)] by blast
  from c have room: "b_offset c + b_size c + length bs \<le> b_capacity c" by simp
  have "length bs > buf_remaining b 0"
    using False assms(1) by (auto simp: buf_remaining_exact buf_wf_def)
  with c(1) assms(4) poke_back [OF c(2) room] show ?thesis
    by (auto simp: buf_write_def sz_add_exact)
qed

lemma buf_write_full:
  assumes "buf_wf b" and "case b_flags b of None \<Rightarrow> True | Some flags \<Rightarrow> flags AND GROW = 0"
    and "b_capacity b < b_offset b + b_size b + length bs"
    and "b_offset b + b_size b + length bs < sz_max"
  shows "buf_write junk bs b = Inl (BufferException buffer_full)"
proof -
  have "length bs > buf_remaining b 0"
    using assms(1,3) by (auto simp: buf_remaining_exact buf_wf_def)
  with resize_full [OF assms(3,2)] assms(4) show ?thesis
    by (simp add: buf_write_def sz_add_exact)
qed

lemma buf_realign_Inr:
  assumes "buf_wf b" and "buf_realign h b = Inr b'" and "h < sz_max"
  shows "buf_wf b' \<and> content b' = content b \<and> b_offset b' = h \<and> b_capacity b' = b_capacity b
     \<and> b_flags b' = b_flags b"
  using assms by (auto simp: buf_realign_def buf_prim_defs overwrite_def split: if_splits)

lemma buf_realign_room:
  assumes "buf_wf b" and "h + b_size b \<le> b_capacity b"
  shows "\<exists>b'. buf_realign h b = Inr b'"
  using assms by (auto simp: buf_realign_def buf_prim_defs sz_add_exact)

lemma buf_prepend_Inr:
  assumes wf: "buf_wf b" and ok: "buf_prepend bs b = Inr b'" and len: "length bs < sz_max"
  shows "buf_wf b' \<and> content b' = bs @ content b \<and> b_capacity b' = b_capacity b
    \<and> b_flags b' = b_flags b"
proof -
  obtain c where c: "buf_wf c" "content c = content b" "length bs \<le> b_offset c"
      "b_capacity c = b_capacity b" "b_flags c = b_flags b"
    and p: "buf_poke (b_offset c - length bs) bs
      (c\<lparr>b_offset := b_offset c - length bs, b_size := b_size c + length bs\<rparr>) = Inr b'"
  proof (cases "length bs > b_offset b")
    case True
    with ok obtain c where r: "buf_realign (length bs) b = Inr c"
      and p: "buf_poke (b_offset c - length bs) bs
        (c\<lparr>b_offset := b_offset c - length bs, b_size := b_size c + length bs\<rparr>) = Inr b'"
      by (auto simp: buf_prepend_def bindR_eq_Inr Let_def)
    from buf_realign_Inr [OF wf r len] p show thesis by (intro that [of c]) simp_all
  next
    case False
    with ok wf that show thesis by (simp add: buf_prepend_def Let_def)
  qed
  from poke_front [OF c(1,3)] p c show ?thesis by auto
qed

lemma buf_prepend_room:
  assumes "buf_wf b" and "length bs + b_size b \<le> b_capacity b"
  shows "\<exists>b'. buf_prepend bs b = Inr b'"
proof (cases "length bs > b_offset b")
  case True
  obtain c where c: "buf_realign (length bs) b = Inr c"
    using buf_realign_room [OF assms] by blast
  have "length bs < sz_max" using assms by (simp add: buf_wf_def)
  from buf_realign_Inr [OF assms(1) c this] have "buf_wf c" "length bs \<le> b_offset c" by auto
  from poke_front [OF this] True c show ?thesis by (auto simp: buf_prepend_def Let_def)
next
  case False
  then have "length bs \<le> b_offset b" by simp
  from poke_front [OF assms(1) this] False show ?thesis by (auto simp: buf_prepend_def Let_def)
qed

lemma buf_prepend_no_room:
  assumes "buf_wf b" and "b_capacity b < length bs + b_size b" and "length bs + b_size b < sz_max"
  shows "buf_prepend bs b = Inl (BufferException buffer_headroom)"
  using assms by (auto simp: buf_prepend_def buf_realign_def buf_wf_def sz_add_exact)

lemma buf_push_front_eq:
  assumes "buf_wf b" and "b_offset b > 0"
  shows "\<exists>b'. buf_push_front v b = Inr b' \<and> buf_wf b' \<and> content b' = v # content b
    \<and> b_capacity b' = b_capacity b"
  using assms poke_front [OF assms(1), of "[v]"] by (auto simp: buf_push_front_def)

lemma buf_pop_front_eq:
  assumes "buf_wf b"
  shows "buf_pop_front b =
     (if b_size b = 0 then Inl (BufferException buffer_const_index)
      else Inr (hd (content b), b\<lparr>b_offset := b_offset b + 1, b_size := b_size b - 1\<rparr>))"
  using assms by (auto simp: buf_pop_front_def buf_at_eq hd_conv_nth simp flip: length_greater_0_conv)

section \<open>Access inside the window\<close>

lemma buf_peek_window:
  "buf_wf b \<Longrightarrow> i + n \<le> b_size b \<Longrightarrow> buf_peek (b_offset b + i) n b = Inr (take n (drop i (content b)))"
  by (simp add: buf_prim_defs drop_take min_absorb1 le_diff_conv2 add.commute)

lemma drop_overwrite_front: "drop k (overwrite (k + i) bs xs) = overwrite i bs (drop k xs)" if "k + i \<le> length xs"
  using that by (simp add: overwrite_def drop_take add.commute add.left_commute)

lemma take_overwrite_end: "i + length bs \<le> n \<Longrightarrow> take n (overwrite i bs xs) = overwrite i bs (take n xs)" if "i \<le> length xs"
  using that by (simp add: overwrite_def min_absorb1 min_absorb2 drop_take)

lemma buf_poke_window:
  assumes "buf_wf b" "i + length bs \<le> b_size b"
  obtains b' where "buf_poke (b_offset b + i) bs b = Inr b'" "buf_wf b'" "content b' = overwrite i bs (content b)"
    "b_offset b' = b_offset b" "b_size b' = b_size b" "b_capacity b' = b_capacity b" "b_flags b' = b_flags b"
proof (rule that)
  show "buf_poke (b_offset b + i) bs b = Inr (b\<lparr>b_data := overwrite (b_offset b + i) bs (b_data b)\<rparr>)"
    using assms by (auto simp: buf_prim_defs)
  show "buf_wf (b\<lparr>b_data := overwrite (b_offset b + i) bs (b_data b)\<rparr>)"
    using assms by (auto simp: buf_prim_defs)
  show "content (b\<lparr>b_data := overwrite (b_offset b + i) bs (b_data b)\<rparr>) = overwrite i bs (content b)"
  proof -
    have "i \<le> length (drop (b_offset b) (b_data b))" "b_offset b + i \<le> length (b_data b)" using assms by (auto simp: buf_wf_def)
    then show ?thesis using assms(2)
      by (simp add: content_def drop_overwrite_front take_overwrite_end del: length_drop)
  qed
qed simp_all

lemma overwrite_mid: "length xs = i \<Longrightarrow> length ys = length zs \<Longrightarrow> overwrite i ys (xs @ zs @ ws) = xs @ ys @ ws"
  by (simp add: overwrite_def)

lemma buf_prepend_alloc_Inr:
  assumes "buf_wf b" "buf_prepend_alloc n b = Inr b'" "n < sz_max"
  obtains xs where "buf_wf b'" "length xs = n" "content b' = xs @ content b" "b_capacity b' = b_capacity b" "b_flags b' = b_flags b"
proof -
  obtain c where c: "buf_wf c" "content c = content b" "n \<le> b_offset c" "b_capacity c = b_capacity b" "b_flags c = b_flags b"
    and b': "b' = c\<lparr>b_offset := b_offset c - n, b_size := b_size c + n\<rparr>"
  proof (cases "n > b_offset b")
    case True
    then obtain c where r: "buf_realign n b = Inr c" and "b' = c\<lparr>b_offset := b_offset c - n, b_size := b_size c + n\<rparr>"
      using assms(2) by (auto simp: buf_prepend_alloc_def bindR_eq_Inr)
    then show thesis using buf_realign_Inr [OF assms(1) r assms(3)] by (intro that [of c]) auto
  next
    case False
    then show thesis using assms by (intro that [of b]) (auto simp: buf_prepend_alloc_def)
  qed
  have w: "buf_wf b'" using c b' by (auto simp: buf_wf_def)
  have "content b' = take n (drop (b_offset c - n) (b_data c)) @ content c"
  proof -
    have "take (b_size c + n) (drop (b_offset c - n) (b_data c))
        = take n (drop (b_offset c - n) (b_data c)) @ take (b_size c) (drop n (drop (b_offset c - n) (b_data c)))"
      by (simp add: take_add add.commute)
    then show ?thesis using c(3) by (simp add: b' content_def)
  qed
  moreover have "length (take n (drop (b_offset c - n) (b_data c))) = n" using c by (auto simp: buf_wf_def)
  ultimately show thesis using that [of "take n (drop (b_offset c - n) (b_data c))"] w c(2,4,5) by (simp add: b')
qed

text \<open>Room taken at either end: the window grows by bytes that hold whatever was there.\<close>

lemma buf_write_alloc_fits:
  assumes "buf_wf b" "b_offset b + b_size b + n \<le> b_capacity b"
  shows "buf_write_alloc junk n b = Inr (b\<lparr>b_size := b_size b + n\<rparr>)" "buf_wf (b\<lparr>b_size := b_size b + n\<rparr>)"
  using assms by (auto simp: buf_write_alloc_def buf_remaining_exact buf_wf_def)

lemma buf_prepend_alloc_fits:
  assumes "buf_wf b" "n \<le> b_offset b"
  shows "buf_prepend_alloc n b = Inr (b\<lparr>b_offset := b_offset b - n, b_size := b_size b + n\<rparr>)"
    "buf_wf (b\<lparr>b_offset := b_offset b - n, b_size := b_size b + n\<rparr>)"
  using assms by (auto simp: buf_prepend_alloc_def buf_wf_def)

section \<open>The byte-queue interface\<close>

text \<open>
  What the protocol components rely on: reading takes a prefix of the contents or fails with
  an underflow, writing appends, prepending puts in front.
\<close>

locale byte_queue =
  fixes cont :: "'b \<Rightarrow> byte list"
    and inv :: "'b \<Rightarrow> bool"
    and rd :: "nat \<Rightarrow> 'b \<Rightarrow> (byte list \<times> 'b) result"
    and wr :: "byte list \<Rightarrow> 'b \<Rightarrow> 'b result"
    and pre :: "byte list \<Rightarrow> 'b \<Rightarrow> 'b result"
  assumes rd_ok: "inv b \<Longrightarrow> n \<le> length (cont b) \<Longrightarrow>
      \<exists>b'. rd n b = Inr (take n (cont b), b') \<and> inv b' \<and> cont b' = drop n (cont b)"
    and rd_short: "inv b \<Longrightarrow> length (cont b) < n \<Longrightarrow> rd n b = Inl (BufferException buffer_underflow)"
    and wr_ok: "inv b \<Longrightarrow> wr bs b = Inr b' \<Longrightarrow> inv b' \<and> cont b' = cont b @ bs"
    and pre_ok: "inv b \<Longrightarrow> length bs < sz_max \<Longrightarrow> pre bs b = Inr b' \<Longrightarrow> inv b' \<and> cont b' = bs @ cont b"
begin

lemma rd_after_pre:
  assumes "inv b" and "length bs < sz_max" and "pre bs b = Inr b'"
  shows "\<exists>c. rd (length bs) b' = Inr (bs, c) \<and> inv c \<and> cont c = cont b"
  using rd_ok [of b' "length bs"] pre_ok [OF assms] by auto

lemma rd_after_wr:
  assumes "inv b" and "cont b = []" and "wr bs b = Inr b'"
  shows "\<exists>c. rd (length bs) b' = Inr (bs, c) \<and> inv c \<and> cont c = []"
  using rd_ok [of b' "length bs"] wr_ok [OF assms(1,3)] assms(2) by auto

lemma rd_cases:
  assumes "inv b"
  obtains (short) "length (cont b) < n" "rd n b = Inl (BufferException buffer_underflow)"
  | (ok) b' where "n \<le> length (cont b)" "rd n b = Inr (take n (cont b), b')" "inv b'"
      "cont b' = drop n (cont b)"
  using rd_ok [OF assms, of n] rd_short [OF assms, of n] by (meson linorder_not_less)

end

interpretation bq: byte_queue content buf_wf buf_read "buf_write junk" buf_prepend for junk
proof unfold_locales
  fix b :: buffer and n assume "buf_wf b" "n \<le> length (content b)"
  then show "\<exists>b'. buf_read n b = Inr (take n (content b), b') \<and> buf_wf b' \<and> content b' = drop n (content b)"
    by (simp add: buf_read_eq wf_consume content_consume)
next
  fix b :: buffer and n assume "buf_wf b" "length (content b) < n"
  then show "buf_read n b = Inl (BufferException buffer_underflow)"
    by (simp add: buf_read_eq)
next
  fix b b' :: buffer and bs assume "buf_wf b" "buf_write junk bs b = Inr b'"
  then show "buf_wf b' \<and> content b' = content b @ bs" by (rule buf_write_Inr)
next
  fix b b' :: buffer and bs
  assume "buf_wf b" "length bs < sz_max" "buf_prepend bs b = Inr b'"
  then show "buf_wf b' \<and> content b' = bs @ content b" using buf_prepend_Inr by blast
qed

section \<open>Memory safety and refinement of every operation\<close>

text \<open>
  The operations that change a buffer, as data, and their execution; an owning buffer is one with flags.
\<close>

datatype buf_op =
    InitHeadroom size_t | ResetOffset size_t | ResetSize | ResetContent | PopBack | PopFront
  | Advance size_t | Read size_t | SetSize size_t | IncSize size_t | Reserve size_t
  | Reset size_t u32 | Write "byte list" | PushBack byte | SetTrailer byte | NullTerminate
  | PushFront byte | Realign size_t | RealignAlloc size_t u32 | Prepend "byte list"

fun buf_exec :: "(nat \<Rightarrow> byte) \<Rightarrow> buf_op \<Rightarrow> buffer \<Rightarrow> buffer result" where
  "buf_exec junk (InitHeadroom h) b = buf_init_headroom h b"
| "buf_exec junk (ResetOffset n) b = buf_reset_offset n b"
| "buf_exec junk ResetSize b = Inr (buf_reset_size b)"
| "buf_exec junk ResetContent b = Inr (buf_reset_content b)"
| "buf_exec junk PopBack b = bindR (buf_pop_back b) (\<lambda>r. Inr (snd r))"
| "buf_exec junk PopFront b = bindR (buf_pop_front b) (\<lambda>r. Inr (snd r))"
| "buf_exec junk (Advance n) b = buf_advance n b"
| "buf_exec junk (Read n) b = bindR (buf_read n b) (\<lambda>r. Inr (snd r))"
| "buf_exec junk (SetSize n) b = buf_set_size n b"
| "buf_exec junk (IncSize n) b = buf_inc_size n b"
| "buf_exec junk (Reserve n) b = buf_reserve junk n b"
| "buf_exec junk (Reset n flags) b = buf_reset junk n flags b"
| "buf_exec junk (Write bs) b = buf_write junk bs b"
| "buf_exec junk (PushBack v) b = buf_push_back junk v b"
| "buf_exec junk (SetTrailer v) b = buf_set_trailer junk v b"
| "buf_exec junk NullTerminate b = buf_null_terminate junk b"
| "buf_exec junk (PushFront v) b = buf_push_front v b"
| "buf_exec junk (Realign h) b = buf_realign h b"
| "buf_exec junk (RealignAlloc h flags) b = buf_realign_alloc junk h flags b"
| "buf_exec junk (Prepend bs) b = buf_prepend bs b"

text \<open>What an operation asks of the address space on top of the buffer's array.\<close>

fun op_room :: "buf_op \<Rightarrow> nat" where
  "op_room (Write bs) = length bs"
| "op_room (Prepend bs) = length bs"
| "op_room (Realign h) = h"
| "op_room (RealignAlloc h flags) = h"
| "op_room (Reserve n) = n"
| "op_room (Reset n flags) = n"
| "op_room (ResetOffset n) = n"
| "op_room (IncSize n) = n"
| "op_room _ = 1"

text \<open>The effect on the contents, as a relation of byte lists.\<close>

fun op_spec :: "buf_op \<Rightarrow> byte list \<Rightarrow> byte list \<Rightarrow> bool" where
  "op_spec (InitHeadroom h) xs ys = (ys = [])"
| "op_spec (ResetOffset n) xs ys = (\<exists>zs. ys = zs @ xs \<or> xs = zs @ ys)"
| "op_spec ResetSize xs ys = (ys = [])"
| "op_spec ResetContent xs ys = (ys = [])"
| "op_spec PopBack xs ys = (xs \<noteq> [] \<and> ys = butlast xs)"
| "op_spec PopFront xs ys = (xs \<noteq> [] \<and> ys = tl xs)"
| "op_spec (Advance n) xs ys = (n \<le> length xs \<and> ys = drop n xs)"
| "op_spec (Read n) xs ys = (n \<le> length xs \<and> ys = drop n xs)"
| "op_spec (SetSize n) xs ys = (length ys = n \<and> take (length xs) ys = take n xs)"
| "op_spec (IncSize n) xs ys = (length ys = length xs + n \<and> take (length xs) ys = xs)"
| "op_spec (Reserve n) xs ys = (ys = xs)"
| "op_spec (Reset n flags) xs ys = (ys = xs \<or> length ys = (if flags AND ARRAY \<noteq> 0 then n else 0))"
| "op_spec (Write bs) xs ys = (ys = xs @ bs)"
| "op_spec (PushBack v) xs ys = (ys = xs @ [v])"
| "op_spec (SetTrailer v) xs ys = (ys = xs)"
| "op_spec NullTerminate xs ys = (ys = (if xs \<noteq> [] \<and> last xs = 0 then xs else xs @ [0]))"
| "op_spec (PushFront v) xs ys = (ys = v # xs)"
| "op_spec (Realign h) xs ys = (ys = xs)"
| "op_spec (RealignAlloc h flags) xs ys = (ys = xs)"
| "op_spec (Prepend bs) xs ys = (ys = bs @ xs)"

definition op_meets :: "buf_op \<Rightarrow> buffer \<Rightarrow> buffer result \<Rightarrow> bool" where
  "op_meets op b r = (case r of Inl e \<Rightarrow> e \<noteq> undefined_behaviour
     | Inr b' \<Rightarrow> buf_wf b' \<and> op_spec op (content b) (content b'))"

lemma op_meets_simps [simp]:
  "op_meets op b (Inl e) \<longleftrightarrow> e \<noteq> undefined_behaviour"
  "op_meets op b (Inr b') \<longleftrightarrow> buf_wf b' \<and> op_spec op (content b) (content b')"
  by (simp_all add: op_meets_def)

lemma buf_push_back_write: "buf_push_back junk v b = buf_write junk [v] b"
proof -
  have "(buf_remaining b 0 = 0) = (length [v] > buf_remaining b 0)" by auto
  then show ?thesis by (simp add: buf_push_back_def buf_write_def)
qed

lemma buf_write_meets:
  assumes "buf_wf b" "b_capacity b + length bs < sz_max"
  shows "op_meets (Write bs) b (buf_write junk bs b)"
proof -
  have lt: "b_offset b + b_size b + length bs < sz_max" using assms by (simp add: buf_wf_def)
  consider "b_offset b + b_size b + length bs \<le> b_capacity b"
    | flags where "b_flags b = Some flags" "flags AND GROW \<noteq> 0"
    | "case b_flags b of None \<Rightarrow> True | Some flags \<Rightarrow> flags AND GROW = 0"
        "b_capacity b < b_offset b + b_size b + length bs"
    by (cases "b_flags b") force+
  then show ?thesis
  proof cases
    case 1
    from buf_write_room [OF assms(1) 1, of junk] buf_write_Inr [OF assms(1), of junk bs]
    show ?thesis by auto
  next
    case 2
    from buf_write_grow [OF assms(1) 2 lt, of junk] buf_write_Inr [OF assms(1), of junk bs]
    show ?thesis by auto
  next
    case 3
    from buf_write_full [OF assms(1) 3 lt] show ?thesis by simp
  qed
qed

lemma buf_realign_meets:
  assumes "buf_wf b" "b_capacity b + h < sz_max"
  shows "op_meets (Realign h) b (buf_realign h b)"
proof (cases "h + b_size b \<le> b_capacity b")
  case True
  from buf_realign_room [OF assms(1) True] buf_realign_Inr [OF assms(1), of h] assms(2)
  show ?thesis by auto
next
  case False
  then show ?thesis using assms by (auto simp: buf_realign_def buf_wf_def sz_add_exact)
qed

lemma buf_realign_alloc_meets:
  assumes "buf_wf b" "b_capacity b + h < sz_max"
  shows "op_meets (RealignAlloc h flags) b (buf_realign_alloc junk h flags b)"
proof -
  have a: "sz_add h (b_size b) = h + b_size b" using assms by (simp add: sz_add_exact buf_wf_def)
  have r: "op_meets (RealignAlloc h flags) b (buf_realign h b)"
    using buf_realign_meets [OF assms] by (simp add: op_meets_def split: sum.splits)
  have lt: "h + b_size b < sz_max" using assms by (simp add: buf_wf_def)
  show ?thesis
    using realloc_impl_ok [OF assms(1) le_refl lt, of junk flags] assms(1) r
    by (auto simp: buf_realign_alloc_def a)
qed

lemma buf_prepend_meets:
  assumes "buf_wf b" "b_capacity b + length bs < sz_max"
  shows "op_meets (Prepend bs) b (buf_prepend bs b)"
proof (cases "length bs + b_size b \<le> b_capacity b")
  case True
  from buf_prepend_room [OF assms(1) True] buf_prepend_Inr [OF assms(1), of bs] assms(2)
  show ?thesis by auto
next
  case False
  have "length bs + b_size b < sz_max" using assms by (simp add: buf_wf_def)
  with buf_prepend_no_room [OF assms(1)] False show ?thesis by simp
qed

lemma buf_resize_meets:
  assumes "buf_wf b" "n < sz_max" "b_capacity b < n"
  shows "op_meets (Reserve n) b (buf_resize junk n b)"
proof (cases "case b_flags b of None \<Rightarrow> True | Some flags \<Rightarrow> flags AND GROW = 0")
  case True
  then show ?thesis using resize_full [OF assms(3)] by simp
next
  case False
  then obtain flags where "b_flags b = Some flags" "flags AND GROW \<noteq> 0" by (auto split: option.splits)
  from resize_grow [OF assms(1) this assms(3,2), of junk] show ?thesis by auto
qed

lemma buf_set_trailer_meets:
  assumes "buf_wf b" "b_capacity b + 1 < sz_max"
  shows "op_meets (SetTrailer v) b (buf_set_trailer junk v b)"
proof -
  have poke: "op_meets (SetTrailer v) b (buf_poke (b_offset c + b_size c) [v] c)"
    if "buf_wf c" "content c = content b" "b_offset c + b_size c < b_capacity c" for c
  proof -
    have "content (c\<lparr>b_data := overwrite (b_offset c + b_size c) [v] (b_data c)\<rparr>) = content c"
      using that(1,3) by (simp add: buf_prim_defs overwrite_def drop_take)
    then show ?thesis using that by (simp add: buf_poke_def) (simp add: buf_wf_def overwrite_def)
  qed
  show ?thesis
  proof (cases "buf_remaining b 0 = 0")
    case False
    then show ?thesis using assms(1) poke [of b] by (simp add: buf_set_trailer_def buf_remaining_exact)
  next
    case True
    let ?n = "b_offset b + b_size b + 1"
    have n: "b_capacity b < ?n" "?n < sz_max" "sz_add (sz_add (b_offset b) (b_size b)) 1 = ?n"
      using True assms by (simp_all add: buf_remaining_exact buf_wf_def sz_add_exact)
    show ?thesis
    proof (cases "case b_flags b of None \<Rightarrow> True | Some flags \<Rightarrow> flags AND GROW = 0")
      case full: True
      then show ?thesis using True n resize_full [OF n(1) full, of junk] by (simp add: buf_set_trailer_def)
    next
      case False
      then obtain flags where "b_flags b = Some flags" "flags AND GROW \<noteq> 0" by (auto split: option.splits)
      from resize_grow [OF assms(1) this n(1,2), of junk]
      obtain c where c: "buf_resize junk ?n b = Inr c" "buf_wf c" "content c = content b" "?n \<le> b_capacity c"
        "b_offset c = b_offset b" "b_size c = b_size b" by blast
      then show ?thesis using True n(3) poke [of c] by (simp add: buf_set_trailer_def)
    qed
  qed
qed

lemma buf_null_terminate_meets:
  assumes "buf_wf b" "b_capacity b + 1 < sz_max"
  shows "op_meets NullTerminate b (buf_null_terminate junk b)"
proof -
  have w: "op_meets (Write [0]) b (buf_push_back junk 0 b)"
    using buf_write_meets [OF assms(1), of "[0]" junk] assms(2) by (simp add: buf_push_back_write)
  show ?thesis
  proof (cases "b_size b = 0")
    case True
    then show ?thesis using w by (simp add: buf_null_terminate_def buf_empty_def op_meets_def split: sum.splits)
  next
    case False
    then have c: "content b \<noteq> []" using assms(1) length_content [of b] by force
    have "sz_sub (b_size b) 1 = b_size b - 1" using assms(1) False by (simp add: sz_sub_exact buf_wf_def)
    then have "buf_back b = Inr (last (content b))"
      using assms(1) False c by (simp add: buf_back_def buf_at_eq last_conv_nth)
    then show ?thesis using w assms(1) False c
      by (simp add: buf_null_terminate_def buf_empty_def op_meets_def split: sum.splits)
  qed
qed

lemma buf_set_size_meets:
  assumes "buf_wf b"
  shows "op_meets (SetSize n) b (buf_set_size n b)"
  using assms by (simp add: buf_set_size_def buf_max_size_exact) (auto simp: buf_wf_def content_def min_def)

lemma buf_reset_offset_meets:
  assumes "buf_wf b" "2 * b_capacity b < sz_max"
  shows "op_meets (ResetOffset n) b (buf_reset_offset n b)"
proof -
  let ?e = "b_offset b + b_size b"
  have e: "sz_add (b_size b) (b_offset b) = ?e" "?e \<le> b_capacity b" "?e < sz_max"
    using assms by (simp_all add: sz_add_exact buf_wf_def)
  show ?thesis
  proof (cases "n \<le> b_capacity b")
    case False
    then show ?thesis by (simp add: buf_reset_offset_def)
  next
    case cap: True
    show ?thesis
    proof (cases "n \<le> ?e")
      case False
      then have "sz_sub ?e n = ?e + (sz_max - n)" using cap assms by (simp add: sz_sub_def)
      moreover have "b_capacity b < ?e + (sz_max - n)" using cap assms(2) by linarith
      ultimately show ?thesis by (simp add: buf_reset_offset_def e Let_def)
    next
      case True
      let ?b = "b\<lparr>b_offset := n, b_size := ?e - n\<rparr>"
      have r: "buf_reset_offset n b = Inr ?b"
        using True cap e by (simp add: buf_reset_offset_def sz_sub_exact sz_add_exact Let_def add.commute)
      have wf: "buf_wf ?b" using True e assms(1) by (simp add: buf_wf_def)
      have "content ?b = take (b_offset b - n) (drop n (b_data b)) @ content b" if "n \<le> b_offset b"
        using that take_add [of "b_offset b - n" "b_size b" "drop n (b_data b)"] by (simp add: content_def)
      moreover have "content b = take (n - b_offset b) (content b) @ content ?b" if "b_offset b \<le> n"
        using that True content_consume [of b "n - b_offset b"] by (simp add: add.commute)
      ultimately have "op_spec (ResetOffset n) (content b) (content ?b)"
        unfolding op_spec.simps by (metis nat_le_linear)
      with wf show ?thesis unfolding r op_meets_simps by blast
    qed
  qed
qed

lemma buf_pop_back_meets:
  assumes "buf_wf b"
  shows "op_meets PopBack b (bindR (buf_pop_back b) (\<lambda>r. Inr (snd r)))"
proof (cases "b_size b = 0")
  case True
  then show ?thesis by (simp add: buf_pop_back_def)
next
  case False
  then have "content b \<noteq> []" using length_content [OF assms] by force
  moreover have "buf_wf (b\<lparr>b_size := b_size b - 1\<rparr>)" "content (b\<lparr>b_size := b_size b - 1\<rparr>) = butlast (content b)"
    using wf_shrink [OF assms] content_shrink [of _ b] length_content [OF assms] by (simp_all add: butlast_conv_take)
  ultimately show ?thesis using False assms
    by (simp add: buf_pop_back_def buf_peek_def) (simp add: buf_wf_def)
qed

lemma buf_inc_size_meets:
  assumes "buf_wf b" "b_capacity b + n < sz_max"
  shows "op_meets (IncSize n) b (buf_inc_size n b)"
proof -
  have "sz_add (b_size b) n = b_size b + n" using assms by (simp add: sz_add_exact buf_wf_def)
  then show ?thesis using buf_set_size_meets [OF assms(1), of "b_size b + n"] length_content [OF assms(1)]
    by (auto simp: buf_inc_size_def op_meets_def split: sum.splits)
qed

lemma buf_alloc_capacity_wf:
  "n < sz_max \<Longrightarrow> buf_wf (buf_alloc_capacity junk n flags)
     \<and> length (content (buf_alloc_capacity junk n flags)) = (if flags AND ARRAY \<noteq> 0 then n else 0)"
  by (auto simp: buf_alloc_capacity_def buf_alloc_def buf_prim_defs)

lemma buf_consume_meets:
  assumes "buf_wf b"
  shows "op_meets (Advance n) b (buf_advance n b)" "op_meets (Read n) b (bindR (buf_read n b) (\<lambda>r. Inr (snd r)))"
    "op_meets PopFront b (bindR (buf_pop_front b) (\<lambda>r. Inr (snd r)))"
proof -
  note c = wf_consume [OF assms] content_consume length_content [OF assms]
  show "op_meets (Advance n) b (buf_advance n b)" "op_meets (Read n) b (bindR (buf_read n b) (\<lambda>r. Inr (snd r)))"
    using c by (simp_all add: buf_advance_def buf_read_eq [OF assms])
  show "op_meets PopFront b (bindR (buf_pop_front b) (\<lambda>r. Inr (snd r)))"
    using wf_consume [OF assms, of 1] content_consume [of b 1] length_content [OF assms] by (cases "b_size b = 0") (auto simp: buf_pop_front_eq [OF assms] drop_Suc)
qed

lemmas buf_meets = buf_write_meets buf_realign_meets buf_realign_alloc_meets buf_prepend_meets
  buf_set_trailer_meets buf_null_terminate_meets buf_set_size_meets buf_inc_size_meets buf_pop_back_meets
  buf_consume_meets buf_reset_offset_meets



text \<open>
  When writing and prepending succeed: \<open>write\<close> succeeds exactly when the bytes fit behind the
  window or the buffer may grow, and throws \<open>buffer_full\<close> otherwise; \<open>prepend\<close> never grows the
  array and succeeds exactly when the bytes and the contents fit it, moving the contents if the
  headroom is short, and throws \<open>buffer_headroom\<close> otherwise.
\<close>

lemma buf_write_prepend_outcome:
  assumes "buf_wf b" "b_capacity b + length bs < sz_max"
  shows "(buf_write junk bs b = Inl (BufferException buffer_full)
      \<and> b_capacity b < b_offset b + b_size b + length bs
      \<and> (case b_flags b of None \<Rightarrow> True | Some flags \<Rightarrow> flags AND GROW = 0)
    \<or> (\<exists>b'. buf_write junk bs b = Inr b' \<and> content b' = content b @ bs)
      \<and> (b_offset b + b_size b + length bs \<le> b_capacity b
         \<or> (case b_flags b of None \<Rightarrow> False | Some flags \<Rightarrow> flags AND GROW \<noteq> 0)))
    \<and> (buf_prepend bs b = Inl (BufferException buffer_headroom) \<and> b_capacity b < length bs + b_size b
    \<or> (\<exists>b'. buf_prepend bs b = Inr b' \<and> content b' = bs @ content b \<and> b_capacity b' = b_capacity b)
      \<and> length bs + b_size b \<le> b_capacity b)" (is "?W \<and> ?P")
proof (rule conjI)
  have lt: "b_offset b + b_size b + length bs < sz_max" "length bs + b_size b < sz_max" "length bs < sz_max"
    using assms by (simp_all add: buf_wf_def)
  show ?W
  proof (cases "case b_flags b of None \<Rightarrow> True | Some flags \<Rightarrow> flags AND GROW = 0")
    case full: True
    show ?thesis
    proof (cases "b_offset b + b_size b + length bs \<le> b_capacity b")
      case True
      with buf_write_room [OF assms(1) True, of junk] buf_write_Inr [OF assms(1), of junk bs]
      show ?thesis by blast
    next
      case False
      with buf_write_full [OF assms(1) full _ lt(1), of junk] full show ?thesis by simp
    qed
  next
    case False
    then obtain flags where f: "b_flags b = Some flags" "flags AND GROW \<noteq> 0" by (auto split: option.splits)
    from buf_write_grow [OF assms(1) f lt(1), of junk] buf_write_Inr [OF assms(1), of junk bs] f
    show ?thesis by auto
  qed
  show ?P
    using buf_prepend_room [OF assms(1), of bs] buf_prepend_no_room [OF assms(1) _ lt(2)]
      buf_prepend_Inr [OF assms(1) _ lt(3)]
    by (meson not_le_imp_less)
qed

text \<open>
  The destructor zeroes the array of a \<open>DESTRUCT_ZERO\<close> buffer when the window is not empty; a
  buffer whose contents were read to the end hands its bytes back to the allocator as they were.
\<close>

lemma buf_destruct_zero:
  assumes "buf_wf b" "b_flags b = Some flags" "flags AND DESTRUCT_ZERO \<noteq> 0" "0 < b_size b"
  shows "buf_free_data b = replicate (b_capacity b) 0
    \<and> (\<exists>b'. buf_read (b_size b) b = Inr (content b, b') \<and> buf_free_data b' = b_data b)"
  using assms length_content [OF assms(1)] by (simp add: buf_free_data_def buf_read_eq)

end
