(* ===== verification/Packet_Id_Control.thy ===== *)
theory Packet_Id_Control
  imports Replay_Filter OV_Buffer
begin

text \<open>
  Control channel packet IDs (crypto/packet_id_control.hpp): the wire format of a 32-bit counter
  and a 32-bit time stamp, the sender that numbers packets, and the receiver's replay filter.
  \<open>time_t\<close> is a mathematical integer; the wire carries its low 32 bits. Calls of
  \<open>stats->error\<close> are recorded in \<open>pcr_errors\<close>. The debugging fields \<open>unit\<close> and \<open>name\<close> and the
  \<open>str\<close> members are left out.
\<close>

section \<open>\<open>PacketIDControl\<close>\<close>

record packet_id_control =
  pc_id :: u32
  pc_time :: int

definition pc_idsize :: nat where
  "pc_idsize = 4 + 4"

definition pc_is_valid :: "packet_id_control \<Rightarrow> bool" where
  "pc_is_valid p \<longleftrightarrow> pc_id p \<noteq> 0"

definition pc_reset :: "packet_id_control \<Rightarrow> packet_id_control" where
  "pc_reset p = p\<lparr>pc_id := 0, pc_time := 0\<rparr>"

definition pc_read :: "buffer \<Rightarrow> (packet_id_control \<times> buffer) result" where
  "pc_read buf =
     bindR (buf_read 4 buf) (\<lambda>(net_id, buf1).
     bindR (buf_read 4 buf1) (\<lambda>(net_time, buf2).
       Inr (\<lparr>pc_id = ntohl (le_word net_id), pc_time = uint (ntohl (le_word net_time))\<rparr>, buf2)))"

definition pc_write :: "(nat \<Rightarrow> byte) \<Rightarrow> packet_id_control \<Rightarrow> bool \<Rightarrow> buffer \<Rightarrow> buffer result" where
  "pc_write junk p prepend buf =
     (let net_id = le_bytes 4 (htonl (pc_id p));
          net_time = le_bytes 4 (htonl (word_of_int (pc_time p)))
      in if prepend
         then bindR (buf_prepend net_time buf) (\<lambda>b. buf_prepend net_id b)
         else bindR (buf_write junk net_id buf) (\<lambda>b. buf_write junk net_time b))"

section \<open>\<open>PacketIDControlSend\<close>\<close>

type_synonym pid_control_send = packet_id_control

definition pcs_init :: "u32 \<Rightarrow> pid_control_send" where
  "pcs_init start_at = \<lparr>pc_id = start_at, pc_time = 0\<rparr>"

definition pcs_next :: "int \<Rightarrow> pid_control_send \<Rightarrow> packet_id_control \<times> pid_control_send" where
  "pcs_next now s =
     (let s1 = (if pc_time s = 0 then s\<lparr>pc_time := now\<rparr> else s);
          s2 = s1\<lparr>pc_id := pc_id s1 + 1\<rparr>;
          s3 = (if pc_id s2 = 0 then s2\<lparr>pc_time := now, pc_id := 1\<rparr> else s2)
      in (\<lparr>pc_id = pc_id s3, pc_time = pc_time s3\<rparr>, s3))"

definition pcs_write_next ::
  "(nat \<Rightarrow> byte) \<Rightarrow> bool \<Rightarrow> int \<Rightarrow> pid_control_send \<Rightarrow> buffer \<Rightarrow> buffer result \<times> pid_control_send" where
  "pcs_write_next junk prepend now s buf =
     (let (pid, s') = pcs_next now s in (pc_write junk pid prepend buf, s'))"

fun pcs_run :: "pid_control_send \<Rightarrow> int list \<Rightarrow> packet_id_control list" where
  "pcs_run s [] = []"
| "pcs_run s (now # ns) = (let (p, s') = pcs_next now s in p # pcs_run s' ns)"

section \<open>\<open>PacketIDControlReceiveType\<close>\<close>

record pid_control_recv =
  pcr_initialized :: bool
  pcr_ring :: "u32 replay_state"
  pcr_expire :: int
  pcr_time_high :: int
  pcr_id_floor :: u32
  pcr_max_backtrack :: u32
  pcr_errors :: "pid_error list"

definition pcr_init :: "nat \<Rightarrow> pid_control_recv" where
  "pcr_init order =
     \<lparr>pcr_initialized = True,
      pcr_ring = \<lparr>r_base = 0, r_extent = 0, r_high = 0, r_history = replicate (2 ^ order) 0\<rparr>,
      pcr_expire = 0, pcr_time_high = 0, pcr_id_floor = 0, pcr_max_backtrack = 0, pcr_errors = []\<rparr>"

text \<open>The end of \<open>do_test_add\<close>, from the sequence check on.\<close>

definition pcr_test_sequence ::
  "nat \<Rightarrow> u32 \<Rightarrow> bool \<Rightarrow> pid_control_recv \<Rightarrow> pid_error \<times> pid_control_recv" where
  "pcr_test_sequence order pid md s =
     (let r = pcr_ring s;
          delta = r_high r - pid;
          s1 = (if pid = r_high r + 1 \<or> pid > r_high r then s
                else s\<lparr>pcr_max_backtrack :=
                         (if delta > pcr_max_backtrack s then delta else pcr_max_backtrack s)\<rparr>);
          (e, r') = replay_sequence order pid (pcr_id_floor s) md r
      in (e, s1\<lparr>pcr_ring := r'\<rparr>))"

definition pcr_do_test_add ::
  "nat \<Rightarrow> int \<Rightarrow> packet_id_control \<Rightarrow> int \<Rightarrow> bool \<Rightarrow> pid_control_recv
     \<Rightarrow> (pid_error \<times> pid_control_recv) result" where
  "pcr_do_test_add order xp pin now md s =
     (if \<not> pcr_initialized s then Inl packet_id_not_initialized
      else
        let s1 = (if now \<ge> pcr_expire s then s\<lparr>pcr_id_floor := r_high (pcr_ring s)\<rparr> else s);
            s2 = s1\<lparr>pcr_expire := now + xp\<rparr>
        in if \<not> pc_is_valid pin then Inr (PKTID_INVALID, s2)
           else if pc_time pin \<noteq> pcr_time_high s2
           then if pc_time pin > pcr_time_high s2
                then if \<not> md then Inr (SUCCESS, s2)
                     else Inr (pcr_test_sequence order (pc_id pin) md
                            (s2\<lparr>pcr_ring := (pcr_ring s2)\<lparr>r_base := 0, r_extent := 0, r_high := 0\<rparr>,
                                pcr_time_high := pc_time pin, pcr_id_floor := 0\<rparr>))
                else Inr (PKTID_TIME_BACKTRACK, s2)
           else Inr (pcr_test_sequence order (pc_id pin) md s2))"

definition pcr_test_add ::
  "nat \<Rightarrow> int \<Rightarrow> packet_id_control \<Rightarrow> int \<Rightarrow> bool \<Rightarrow> pid_control_recv \<Rightarrow> (bool \<times> pid_control_recv) result" where
  "pcr_test_add order xp pin now md s =
     bindR (pcr_do_test_add order xp pin now md s)
       (\<lambda>(err, s'). if err \<noteq> SUCCESS then Inr (False, s'\<lparr>pcr_errors := pcr_errors s' @ [err]\<rparr>)
                    else Inr (True, s'))"

definition pcr_read_next :: "pid_control_recv \<Rightarrow> buffer \<Rightarrow> (packet_id_control \<times> buffer) result" where
  "pcr_read_next s buf =
     (if \<not> pcr_initialized s then Inl packet_id_not_initialized else pc_read buf)"

text \<open>\<open>typedef PacketIDControlReceiveType<8, 30> PacketIDControlReceive\<close>\<close>

definition PacketIDControlReceive_order :: nat where
  "PacketIDControlReceive_order = 8"

definition PacketIDControlReceive_expire :: int where
  "PacketIDControlReceive_expire = 30"

section \<open>The receiver implements the abstract filter\<close>

definition pcr_rel :: "nat \<Rightarrow> pid_control_recv \<Rightarrow> replay_spec \<Rightarrow> bool" where
  "pcr_rel order s t \<longleftrightarrow> order + 3 < 32 \<and> pcr_initialized s
     \<and> ring_rel order (pcr_ring s) (s_accepted t)
     \<and> s_high t = unat (r_high (pcr_ring s)) \<and> s_extent t = unat (r_extent (pcr_ring s))
     \<and> s_floor t = unat (pcr_id_floor s) \<and> s_time t = pcr_time_high s \<and> s_expire t = pcr_expire s"

abbreviation (input) pcr_step ::
  "nat \<Rightarrow> int \<Rightarrow> pid_control_recv \<Rightarrow> packet_id_control \<times> int \<times> bool
     \<Rightarrow> (pid_error \<times> pid_control_recv) result" where
  "pcr_step order xp \<equiv> \<lambda>s (pin, now, md). pcr_do_test_add order xp pin now md s"

abbreviation (input) pcr_input :: "packet_id_control \<times> int \<times> bool \<Rightarrow> replay_input" where
  "pcr_input \<equiv> \<lambda>(pin, now, md). (pc_time pin, unat (pc_id pin), now, md)"

definition spec_init :: replay_spec where
  "spec_init = \<lparr>s_time = 0, s_high = 0, s_extent = 0, s_floor = 0, s_expire = 0, s_accepted = {}\<rparr>"

lemma pcr_rel_init: "order + 3 < 32 \<Longrightarrow> pcr_rel order (pcr_init order) spec_init"
  by (simp add: pcr_rel_def pcr_init_def spec_init_def ring_window_def power_add)

lemma pcr_test_sequence_refines:
  assumes rel: "pcr_rel order s t" and pid: "pid \<noteq> 0"
    and st: "pcr_test_sequence order pid md s = (e, s')"
  shows "\<exists>t'. spec_sequence (2 ^ (order + 3)) (unat pid) md t = (e, t') \<and> pcr_rel order s' t'"
proof -
  have k: "order + 3 < LENGTH(32)" using rel by (simp add: pcr_rel_def)
  obtain r' where sq: "replay_sequence order pid (pcr_id_floor s) md (pcr_ring s) = (e, r')"
    and r': "pcr_ring s' = r'" and s': "pcr_initialized s' = pcr_initialized s"
      "pcr_id_floor s' = pcr_id_floor s" "pcr_time_high s' = pcr_time_high s"
      "pcr_expire s' = pcr_expire s"
    using st by (auto simp: pcr_test_sequence_def Let_def split: prod.splits if_splits)
  have ring: "ring_rel order (pcr_ring s) (s_accepted t)"
    and t: "s_high t = unat (r_high (pcr_ring s))" "s_extent t = unat (r_extent (pcr_ring s))"
      "s_floor t = unat (pcr_id_floor s)" using rel by (simp_all add: pcr_rel_def)
  from replay_sequence_refines [OF k ring t pid sq] rel r' s' show ?thesis
    by (auto simp: pcr_rel_def)
qed

lemma pcr_rel_expire:
  "pcr_rel order s t \<Longrightarrow>
     pcr_rel order ((if now \<ge> pcr_expire s then s\<lparr>pcr_id_floor := r_high (pcr_ring s)\<rparr> else s)
       \<lparr>pcr_expire := now + xp\<rparr>) (spec_expire xp now t)"
  by (simp add: pcr_rel_def spec_expire_def)

lemma pcr_rel_new_time:
  "pcr_rel order s t \<Longrightarrow>
     pcr_rel order (s\<lparr>pcr_ring := (pcr_ring s)\<lparr>r_base := 0, r_extent := 0, r_high := 0\<rparr>,
       pcr_time_high := time, pcr_id_floor := 0\<rparr>) (spec_new_time time t)"
  by (simp add: pcr_rel_def spec_new_time_def ring_window_def)

lemma pcr_do_test_add_refines:
  assumes rel: "pcr_rel order s t"
  shows "\<exists>e s' t'. pcr_do_test_add order xp pin now md s = Inr (e, s')
    \<and> spec_step (2 ^ (order + 3)) xp t (pc_time pin, unat (pc_id pin), now, md) = (e, t')
    \<and> pcr_rel order s' t'"
proof -
  define s2 where "s2 = (if now \<ge> pcr_expire s then s\<lparr>pcr_id_floor := r_high (pcr_ring s)\<rparr> else s)
       \<lparr>pcr_expire := now + xp\<rparr>"
  define t2 where "t2 = spec_expire xp now t"
  have rel2: "pcr_rel order s2 t2" unfolding s2_def t2_def by (rule pcr_rel_expire [OF rel])
  have init: "pcr_initialized s" and time: "s_time t2 = pcr_time_high s2"
    using rel rel2 by (simp_all add: pcr_rel_def)
  have th: "pcr_time_high s2 = pcr_time_high s" by (simp add: s2_def)
  show ?thesis
  proof (cases "pc_id pin = 0 \<or> pc_time pin < pcr_time_high s2 \<or> (pc_time pin > pcr_time_high s2 \<and> \<not> md)")
    case True
    then show ?thesis using init rel2 time
      by (auto simp: pcr_do_test_add_def pc_is_valid_def unat_eq_0 simp flip: s2_def t2_def)
  next
    case False
    define s3 where "s3 = (if pc_time pin > pcr_time_high s2 then s2\<lparr>pcr_ring :=
        (pcr_ring s2)\<lparr>r_base := 0, r_extent := 0, r_high := 0\<rparr>, pcr_time_high := pc_time pin,
        pcr_id_floor := 0\<rparr> else s2)"
    define t3 where "t3 = (if pc_time pin > s_time t2 then spec_new_time (pc_time pin) t2 else t2)"
    have rel3: "pcr_rel order s3 t3"
      unfolding s3_def t3_def using rel2 time by (simp add: pcr_rel_new_time)
    have pid: "pc_id pin \<noteq> 0" using False by simp
    obtain e s' where st: "pcr_test_sequence order (pc_id pin) md s3 = (e, s')" by fastforce
    have "pcr_do_test_add order xp pin now md s = Inr (e, s')"
      using False init st th
      by (auto simp: pcr_do_test_add_def pc_is_valid_def s3_def simp flip: s2_def split: if_splits)
    moreover have "spec_step (2 ^ (order + 3)) xp t (pc_time pin, unat (pc_id pin), now, md)
        = spec_sequence (2 ^ (order + 3)) (unat (pc_id pin)) md t3"
      using False time by (auto simp: t3_def unat_eq_0 simp flip: t2_def split: if_splits)
    ultimately show ?thesis using pcr_test_sequence_refines [OF rel3 pid st] by auto
  qed
qed

interpretation pcr: replay_filter "pcr_step order xp" pcr_input "pcr_rel order" "2 ^ (order + 3)" xp
  for order xp
proof unfold_locales
  fix s :: pid_control_recv and t :: replay_spec and x :: "packet_id_control \<times> int \<times> bool"
  assume "pcr_rel order s t"
  then show "\<exists>e s' t'. (\<lambda>(pin, now, md). pcr_do_test_add order xp pin now md s) x = Inr (e, s')
      \<and> spec_step (2 ^ (order + 3)) xp t (pcr_input x) = (e, t') \<and> pcr_rel order s' t'"
    by (cases x) (simp only: prod.case pcr_do_test_add_refines)
next
  fix s :: pid_control_recv and t :: replay_spec
  assume "pcr_rel order s t"
  then show "\<forall>a\<in>s_accepted t. a \<le> s_high t" by (simp add: pcr_rel_def ring_window_def)
qed

section \<open>The sender\<close>

lemma pcs_next_steady:
  assumes "pc_time s \<noteq> 0" and "pc_id s + 1 \<noteq> 0"
  shows "pcs_next now s = (\<lparr>pc_id = pc_id s + 1, pc_time = pc_time s\<rparr>, s\<lparr>pc_id := pc_id s + 1\<rparr>)"
  using assms by (simp add: pcs_next_def)

lemma pcs_run_steady:
  assumes "pc_time s \<noteq> 0" and "unat (pc_id s) + length ns < 2 ^ 32"
  shows "map (\<lambda>p. (pc_time p, unat (pc_id p))) (pcs_run s ns)
    = map (\<lambda>i. (pc_time s, unat (pc_id s) + 1 + i)) [0..<length ns]"
  using assms
proof (induction ns arbitrary: s)
  case Nil
  then show ?case by simp
next
  case (Cons now ns)
  have "unat (pc_id s) + 1 < 2 ^ LENGTH(32)" using Cons.prems(2) by simp
  note inc = unat_inc_bound(1) [OF this] and nz = unat_inc_bound(2) [OF this]
  have "map (\<lambda>i. (pc_time s, Suc (Suc (unat (pc_id s) + i)))) [0..<length ns]
      = map (\<lambda>i. (pc_time s, Suc (unat (pc_id s) + i))) [Suc 0..<Suc (length ns)]"
    by (simp only: map_Suc_upt [symmetric] map_map comp_def add_Suc_right)
  moreover have "[0..<Suc (length ns)] = 0 # [Suc 0..<Suc (length ns)]"
    by (rule upt_conv_Cons) simp
  ultimately show ?case
    using Cons.IH [of "s\<lparr>pc_id := pc_id s + 1\<rparr>"] Cons.prems inc
    by (simp add: pcs_next_steady [OF Cons.prems(1) nz] del: upt_Suc)
qed

lemma pcs_run_first:
  assumes "0 < now" and "unat start + 1 < 2 ^ 32"
  shows "pcs_run (pcs_init start) (now # ns)
    = \<lparr>pc_id = start + 1, pc_time = now\<rparr> # pcs_run \<lparr>pc_id = start + 1, pc_time = now\<rparr> ns"
proof -
  have "start + 1 \<noteq> 0" using assms(2) by (intro unat_inc_bound) simp
  then show ?thesis using assms(1) by (simp add: pcs_next_def pcs_init_def Let_def)
qed

lemma pcs_run_keys:
  assumes "0 < now" and "unat start + length (now # ns) < 2 ^ 32"
  shows "map (\<lambda>p. (pc_time p, unat (pc_id p))) (pcs_run (pcs_init start) (now # ns))
    = map (\<lambda>i. (now, unat start + 1 + i)) [0..<length (now # ns)]"
proof -
  have 1: "unat start + 1 < 2 ^ 32" using assms(2) by simp
  then have inc: "unat (start + 1) = unat start + 1" by (intro unat_inc_bound) simp
  have "map (\<lambda>p. (pc_time p, unat (pc_id p))) (pcs_run \<lparr>pc_id = start + 1, pc_time = now\<rparr> ns)
      = map (\<lambda>i. (now, unat start + 1 + Suc i)) [0..<length ns]"
    using pcs_run_steady [of "\<lparr>pc_id = start + 1, pc_time = now\<rparr>" ns] assms inc by simp
  also have "\<dots> = map (\<lambda>i. (now, unat start + 1 + i)) [Suc 0..<Suc (length ns)]"
    by (simp only: map_Suc_upt [symmetric] map_map comp_def)
  finally show ?thesis
    unfolding pcs_run_first [OF assms(1) 1] using inc upt_conv_Cons [of 0 "Suc (length ns)"]
    by (simp del: upt_Suc)
qed

section \<open>Properties\<close>

text \<open>
  C1. Replay protection of the control channel: whatever sequence of packets reaches a freshly
  initialised \<open>PacketIDControlReceiveType\<close>, with whatever clock, no (time stamp, ID) pair is
  accepted and recorded twice.
\<close>

theorem pcr_no_replay:
  assumes "order + 3 < 32"
  shows "distinct (accepted (\<lambda>s (pin, now, md). pcr_do_test_add order xp pin now md s)
           (\<lambda>(pin, now, md). (pc_time pin, unat (pc_id pin), now, md)) (pcr_init order) xs)"
  using pcr.accepted_fresh [OF pcr_rel_init [OF assms], of "{}"] by (simp add: keys_known_def)

theorem pcr_no_replay_witness:
  "PacketIDControlReceive_order + 3 < 32 \<and>
   distinct (accepted (\<lambda>s (pin, now, md). pcr_do_test_add PacketIDControlReceive_order 30 pin now md s)
     (\<lambda>(pin, now, md). (pc_time pin, unat (pc_id pin), now, md))
     (pcr_init PacketIDControlReceive_order)
     [(\<lparr>pc_id = 1, pc_time = 9\<rparr>, 9, True), (\<lparr>pc_id = 1, pc_time = 9\<rparr>, 9, True)])"
  using pcr_no_replay [of PacketIDControlReceive_order] by (simp add: PacketIDControlReceive_order_def del: accepted.simps)

text \<open>
  C29. The bitmap filter gives, packet by packet, exactly the verdicts of the abstract filter
  that remembers the set of accepted IDs: invalid, replayed, expired and too old IDs and older
  time stamps are rejected with the code's error, everything else is accepted.
\<close>

theorem pcr_verdicts_refine:
  assumes "order + 3 < 32"
  shows "run_verdicts (\<lambda>s (pin, now, md). pcr_do_test_add order xp pin now md s) (pcr_init order) xs
    = Inr (spec_verdicts (2 ^ (order + 3)) xp spec_init
        (map (\<lambda>(pin, now, md). (pc_time pin, unat (pc_id pin), now, md)) xs))"
  by (rule pcr.verdicts_refine [OF pcr_rel_init [OF assms]])

theorem pcr_verdicts_refine_witness:
  "(0::nat) + 3 < 32 \<and>
   run_verdicts (\<lambda>s (pin, now, md). pcr_do_test_add 0 30 pin now md s) (pcr_init 0)
     [(\<lparr>pc_id = 2, pc_time = 9\<rparr>, 9, True), (\<lparr>pc_id = 1, pc_time = 9\<rparr>, 9, True),
      (\<lparr>pc_id = 2, pc_time = 9\<rparr>, 9, True), (\<lparr>pc_id = 0, pc_time = 9\<rparr>, 9, True),
      (\<lparr>pc_id = 7, pc_time = 8\<rparr>, 9, True)]
   = Inr [SUCCESS, SUCCESS, PKTID_REPLAY, PKTID_INVALID, PKTID_TIME_BACKTRACK]"
  unfolding pcr_verdicts_refine [of 0, simplified]
  by (simp add: spec_init_def spec_defs)

text \<open>
  The control channel sender and receiver agree: the packet IDs that
  \<open>PacketIDControlSend\<close> hands out (fewer than \<open>2 ^ 32\<close> of them, the clock positive) are all
  accepted by a fresh receiver that gets them in order.
\<close>

lemma pcs_pcr_in_order:
  assumes k: "order + 3 < 32" and now: "0 < now" and n: "unat start + length (now # ns) < 2 ^ 32"
    and len: "length rs = length (now # ns)"
  shows "accepted (\<lambda>s (pin, now, md). pcr_do_test_add order xp pin now md s)
      (\<lambda>(pin, now, md). (pc_time pin, unat (pc_id pin), now, md)) (pcr_init order)
      (map2 (\<lambda>p r. (p, r, True)) (pcs_run (pcs_init start) (now # ns)) rs)
    = map (\<lambda>p. (pc_time p, unat (pc_id p))) (pcs_run (pcs_init start) (now # ns))"
proof -
  let ?ps = "pcs_run (pcs_init start) (now # ns)"
  let ?xs = "map2 (\<lambda>p r. (p, r, True)) ?ps rs"
  let ?key = "\<lambda>p. (pc_time p, unat (pc_id p))"
  note keys = pcs_run_keys [OF now n]
  have ps_len: "length ?ps = length (now # ns)" using arg_cong [OF keys, of length] by simp
  have map_keys: "map (\<lambda>x. (fst (pcr_input x), fst (snd (pcr_input x)))) ?xs = map ?key ?ps"
    using ps_len len by (intro nth_equalityI) simp_all
  have elem: "0 < unat (pc_id p) \<and> pc_time p = now" if "p \<in> set ?ps" for p
  proof -
    from that have "?key p \<in> set (map ?key ?ps)" by (simp only: set_map image_eqI)
    then show ?thesis unfolding keys by auto
  qed
  show ?thesis
  proof (subst map_keys [symmetric], rule pcr.accepted_ascending [OF pcr_rel_init [OF k]])
    show "\<forall>x\<in>set ?xs. \<exists>time pid now. pcr_input x = (time, pid, now, True) \<and> 0 < pid \<and>
        key_less (s_time spec_init, s_high spec_init) (time, pid)"
      using elem now by (auto simp: key_less_def spec_init_def dest!: set_zip_leftD)
    show "sorted_wrt key_less (map (\<lambda>x. (fst (pcr_input x), fst (snd (pcr_input x)))) ?xs)"
      unfolding map_keys keys by (simp add: sorted_wrt_map key_less_def sorted_wrt_upt del: upt_Suc)
  qed
qed

text \<open>
  The wire format round trips: a packet ID written in front of a buffer is read back with
  the time stamp's low 32 bits, and reading leaves exactly the bytes that were there before.
\<close>

lemma pc_write_read:
  assumes "buf_wf buf" and "pc_write junk p True buf = Inr buf'"
  shows "\<exists>buf''. pc_read buf' = Inr (\<lparr>pc_id = pc_id p, pc_time = pc_time p mod 2 ^ 32\<rparr>, buf'')
    \<and> buf_wf buf'' \<and> content buf'' = content buf"
proof -
  obtain b where b: "buf_prepend (be_bytes 4 (word_of_int (pc_time p) :: u32)) buf = Inr b"
    and b': "buf_prepend (be_bytes 4 (pc_id p)) b = Inr buf'"
    using assms(2) by (auto simp: pc_write_def bindR_eq_Inr)
  have len: "length (be_bytes 4 (w :: u32)) < sz_max" for w by (simp add: sz_max_def)
  from bq.pre_ok [OF assms(1) len b] bq.rd_after_pre [OF _ len b'] obtain c
    where c: "buf_read 4 buf' = Inr (be_bytes 4 (pc_id p), c)" "buf_wf c"
      "content c = be_bytes 4 (word_of_int (pc_time p) :: u32) @ content buf" by auto
  from bq.rd_ok [OF c(2), of 4] c(3) obtain d
    where "buf_read 4 c = Inr (be_bytes 4 (word_of_int (pc_time p) :: u32), d)" "buf_wf d"
      "content d = content buf" by auto
  with c show ?thesis by (simp add: pc_read_def uint_word_of_int)
qed

end
