(* ===== verification/Packet_Id_Data.thy ===== *)
theory Packet_Id_Data
  imports Packet_Id_Control
begin

text \<open>
  Data channel packet IDs (crypto/packet_id_data.hpp): a 32-bit counter, or a 64-bit one whose top
  16 bits are the epoch; the sender with its exhaustion check and the receiver's replay filter,
  which is the sliding window of \<open>Replay_Filter\<close> at width 64 without time stamps. Calls of
  \<open>stats->error\<close> are recorded in \<open>pdr_errors\<close>; \<open>unit\<close>, \<open>name\<close> and \<open>str\<close> are left out.
\<close>

section \<open>\<open>PacketIDData\<close>\<close>

record packet_id_data =
  pd_id :: u64
  pd_wide :: bool

definition epoch_packet_id_mask :: u64 where
  "epoch_packet_id_mask = 0x0000ffffffffffff"

definition pd_size :: "bool \<Rightarrow> nat" where
  "pd_size wide = (if wide then 8 else 4)"

definition pd_is_valid :: "packet_id_data \<Rightarrow> bool" where
  "pd_is_valid p \<longleftrightarrow> pd_id p \<noteq> 0"

definition pd_reset :: "packet_id_data \<Rightarrow> packet_id_data" where
  "pd_reset p = p\<lparr>pd_id := 0\<rparr>"

definition pd_get_epoch :: "packet_id_data \<Rightarrow> u16" where
  "pd_get_epoch p = ucast (drop_bit 48 (pd_id p AND NOT epoch_packet_id_mask))"

definition pd_read :: "packet_id_data \<Rightarrow> buffer \<Rightarrow> (packet_id_data \<times> buffer) result" where
  "pd_read p buf =
     (if pd_wide p
      then bindR (buf_read 8 buf) (\<lambda>(net_id, buf'). Inr (p\<lparr>pd_id := rev64 (le_word net_id)\<rparr>, buf'))
      else bindR (buf_read 4 buf) (\<lambda>(net_id, buf'). Inr (p\<lparr>pd_id := ucast (ntohl (le_word net_id))\<rparr>, buf')))"

definition pd_write :: "(nat \<Rightarrow> byte) \<Rightarrow> packet_id_data \<Rightarrow> buffer \<Rightarrow> buffer result" where
  "pd_write junk p buf =
     (if pd_wide p then buf_write junk (le_bytes 8 (rev64 (pd_id p))) buf
      else buf_write junk (le_bytes 4 (htonl (ucast (pd_id p)))) buf)"

definition pd_write_prepend :: "packet_id_data \<Rightarrow> buffer \<Rightarrow> buffer result" where
  "pd_write_prepend p buf =
     (if pd_wide p then buf_prepend (le_bytes 8 (rev64 (pd_id p))) buf
      else buf_prepend (le_bytes 4 (htonl (ucast (pd_id p)))) buf)"

section \<open>\<open>PacketIDDataSend\<close>\<close>

definition epoch_packet_id_max :: u64 where
  "epoch_packet_id_max = 0x0000ffffffffffff"

definition pds_ctor :: "bool \<Rightarrow> u16 \<Rightarrow> packet_id_data" where
  "pds_ctor wide epoch = \<lparr>pd_id = push_bit 48 (ucast epoch), pd_wide = wide\<rparr>"

definition pds_default :: packet_id_data where
  "pds_default = \<lparr>pd_id = 0, pd_wide = False\<rparr>"

definition pds_at_limit :: "packet_id_data \<Rightarrow> bool" where
  "pds_at_limit s =
     (if \<not> pd_wide s \<and> pd_id s = 0xffffffff then True
      else if pd_id s AND epoch_packet_id_mask = epoch_packet_id_max then True
      else False)"

text \<open>The counter is incremented before the check, so an exception leaves it advanced.\<close>

definition pds_next :: "packet_id_data \<Rightarrow> packet_id_data result \<times> packet_id_data" where
  "pds_next s =
     (let s' = s\<lparr>pd_id := pd_id s + 1\<rparr>;
          ret = \<lparr>pd_id = pd_id s', pd_wide = pd_wide s'\<rparr>
      in if pds_at_limit s' then (Inl packet_id_wrap, s') else (Inr ret, s'))"

definition pds_write_next ::
  "(nat \<Rightarrow> byte) \<Rightarrow> packet_id_data \<Rightarrow> buffer \<Rightarrow> buffer result \<times> packet_id_data" where
  "pds_write_next junk s buf =
     (let (r, s') = pds_next s in (bindR r (\<lambda>pid. pd_write junk pid buf), s'))"

definition pds_prepend_next :: "packet_id_data \<Rightarrow> buffer \<Rightarrow> buffer result \<times> packet_id_data" where
  "pds_prepend_next s buf =
     (let (r, s') = pds_next s in (bindR r (\<lambda>pid. pd_write_prepend pid buf), s'))"

definition pds_length :: "packet_id_data \<Rightarrow> nat" where
  "pds_length s = pd_size (pd_wide s)"

definition pds_wrap_warning :: "packet_id_data \<Rightarrow> bool" where
  "pds_wrap_warning s = (if pd_wide s then False else pd_id s \<ge> 0xff000000)"

text \<open>The IDs of \<open>n\<close> calls of \<open>next\<close>, as long as none throws.\<close>

fun pds_run :: "nat \<Rightarrow> packet_id_data \<Rightarrow> packet_id_data list result" where
  "pds_run 0 s = Inr []"
| "pds_run (Suc n) s =
     (let (r, s') = pds_next s
      in bindR r (\<lambda>pid. bindR (pds_run n s') (\<lambda>pids. Inr (pid # pids))))"

section \<open>\<open>PacketIDDataReceiveType\<close>\<close>

record pid_data_recv =
  pdr_ring :: "u64 replay_state"
  pdr_expire :: int
  pdr_id_floor :: u64
  pdr_wide :: bool
  pdr_errors :: "pid_error list"

definition pdr_init :: "nat \<Rightarrow> bool \<Rightarrow> pid_data_recv" where
  "pdr_init order wide =
     \<lparr>pdr_ring = \<lparr>r_base = 0, r_extent = 0, r_high = 0, r_history = replicate (2 ^ order) 0\<rparr>,
      pdr_expire = 0, pdr_id_floor = 0, pdr_wide = wide, pdr_errors = []\<rparr>"

definition pdr_do_test_add ::
  "nat \<Rightarrow> int \<Rightarrow> packet_id_data \<Rightarrow> int \<Rightarrow> pid_data_recv \<Rightarrow> pid_error \<times> pid_data_recv" where
  "pdr_do_test_add order xp pin now s =
     (let s1 = (if now \<ge> pdr_expire s then s\<lparr>pdr_id_floor := r_high (pdr_ring s)\<rparr> else s);
          s2 = s1\<lparr>pdr_expire := now + xp\<rparr>
      in if \<not> pd_is_valid pin then (PKTID_INVALID, s2)
         else let (e, r) = replay_sequence order (pd_id pin) (pdr_id_floor s2) True (pdr_ring s2)
              in (e, s2\<lparr>pdr_ring := r\<rparr>))"

definition pdr_test_add ::
  "nat \<Rightarrow> int \<Rightarrow> packet_id_data \<Rightarrow> int \<Rightarrow> pid_data_recv \<Rightarrow> bool \<times> pid_data_recv" where
  "pdr_test_add order xp pin now s =
     (let (err, s') = pdr_do_test_add order xp pin now s
      in if err \<noteq> SUCCESS then (False, s'\<lparr>pdr_errors := pdr_errors s' @ [err]\<rparr>) else (True, s'))"

definition pdr_read_next :: "pid_data_recv \<Rightarrow> buffer \<Rightarrow> (packet_id_data \<times> buffer) result" where
  "pdr_read_next s buf = pd_read \<lparr>pd_id = 0, pd_wide = pdr_wide s\<rparr> buf"

definition pdr_length :: "pid_data_recv \<Rightarrow> nat" where
  "pdr_length s = pd_size (pdr_wide s)"

section \<open>The receiver implements the abstract filter\<close>

definition pdr_rel :: "nat \<Rightarrow> pid_data_recv \<Rightarrow> replay_spec \<Rightarrow> bool" where
  "pdr_rel order s t \<longleftrightarrow> order + 3 < 32
     \<and> ring_rel order (pdr_ring s) (s_accepted t)
     \<and> s_high t = unat (r_high (pdr_ring s)) \<and> s_extent t = unat (r_extent (pdr_ring s))
     \<and> s_floor t = unat (pdr_id_floor s) \<and> s_time t = 0 \<and> s_expire t = pdr_expire s"

abbreviation (input) pdr_step ::
  "nat \<Rightarrow> int \<Rightarrow> pid_data_recv \<Rightarrow> packet_id_data \<times> int \<Rightarrow> (pid_error \<times> pid_data_recv) result" where
  "pdr_step order xp \<equiv> \<lambda>s (pin, now). Inr (pdr_do_test_add order xp pin now s)"

abbreviation (input) pdr_input :: "packet_id_data \<times> int \<Rightarrow> replay_input" where
  "pdr_input \<equiv> \<lambda>(pin, now). (0, unat (pd_id pin), now, True)"

lemma pdr_rel_init: "order + 3 < 32 \<Longrightarrow> pdr_rel order (pdr_init order wide) spec_init"
  by (simp add: pdr_rel_def pdr_init_def spec_init_def ring_window_def power_add)

lemma pdr_rel_expire:
  "pdr_rel order s t \<Longrightarrow>
     pdr_rel order ((if now \<ge> pdr_expire s then s\<lparr>pdr_id_floor := r_high (pdr_ring s)\<rparr> else s)
       \<lparr>pdr_expire := now + xp\<rparr>) (spec_expire xp now t)"
  by (simp add: pdr_rel_def spec_expire_def)

lemma pdr_do_test_add_refines:
  assumes rel: "pdr_rel order s t"
  shows "\<exists>e s' t'. pdr_do_test_add order xp pin now s = (e, s')
    \<and> spec_step (2 ^ (order + 3)) xp t (0, unat (pd_id pin), now, True) = (e, t')
    \<and> pdr_rel order s' t'"
proof -
  define s2 where "s2 = (if now \<ge> pdr_expire s then s\<lparr>pdr_id_floor := r_high (pdr_ring s)\<rparr> else s)
       \<lparr>pdr_expire := now + xp\<rparr>"
  define t2 where "t2 = spec_expire xp now t"
  have rel2: "pdr_rel order s2 t2" unfolding s2_def t2_def by (rule pdr_rel_expire [OF rel])
  show ?thesis
  proof (cases "pd_id pin = 0")
    case True
    then show ?thesis using rel2
      by (simp add: pdr_do_test_add_def pd_is_valid_def flip: s2_def t2_def)
  next
    case False
    obtain e r where sq: "replay_sequence order (pd_id pin) (pdr_id_floor s2) True (pdr_ring s2) = (e, r)"
      by fastforce
    have k: "order + 3 < LENGTH(64)" and ring: "ring_rel order (pdr_ring s2) (s_accepted t2)"
      and t: "s_high t2 = unat (r_high (pdr_ring s2))" "s_extent t2 = unat (r_extent (pdr_ring s2))"
        "s_floor t2 = unat (pdr_id_floor s2)" "s_time t2 = 0"
      using rel2 by (simp_all add: pdr_rel_def)
    have "spec_step (2 ^ (order + 3)) xp t (0, unat (pd_id pin), now, True)
        = spec_sequence (2 ^ (order + 3)) (unat (pd_id pin)) True t2"
      using False t(4) by (simp add: unat_eq_0 flip: t2_def)
    moreover have "pdr_do_test_add order xp pin now s = (e, s2\<lparr>pdr_ring := r\<rparr>)"
      using False sq unfolding pdr_do_test_add_def Let_def s2_def [symmetric]
      by (simp add: pd_is_valid_def)
    ultimately show ?thesis
      using replay_sequence_refines [OF k ring t(1-3) False sq] rel2
      by (auto simp: pdr_rel_def simp del: spec_step.simps)
  qed
qed

interpretation pdr: replay_filter "pdr_step order xp" pdr_input "pdr_rel order" "2 ^ (order + 3)" xp
  for order xp
proof unfold_locales
  fix s :: pid_data_recv and t :: replay_spec and x :: "packet_id_data \<times> int"
  assume rel: "pdr_rel order s t"
  obtain pin now where x: "x = (pin, now)" by fastforce
  show "\<exists>e s' t'. (\<lambda>(pin, now). Inr (pdr_do_test_add order xp pin now s)) x = Inr (e, s')
      \<and> spec_step (2 ^ (order + 3)) xp t (pdr_input x) = (e, t') \<and> pdr_rel order s' t'"
    using pdr_do_test_add_refines [OF rel, of xp pin now] by (simp only: x prod.case) blast
next
  fix s :: pid_data_recv and t :: replay_spec
  assume "pdr_rel order s t"
  then show "\<forall>a\<in>s_accepted t. a \<le> s_high t" by (simp add: pdr_rel_def ring_window_def)
qed

text \<open>The IDs that have been accepted are known, and none of them is accepted again.\<close>

definition pdr_known :: "pid_data_recv \<Rightarrow> nat set \<Rightarrow> bool" where
  "pdr_known s K \<longleftrightarrow> (\<exists>t. pdr_rel 8 s t \<and> keys_known t (Pair 0 ` K))"

lemma pdr_known_init: "pdr_known (pdr_init 8 wide) {}"
  using pdr_rel_init [of 8 wide] by (auto simp: pdr_known_def keys_known_def)

lemma pdr_rel_errors: "pdr_rel order (s\<lparr>pdr_errors := es\<rparr>) t = pdr_rel order s t"
  by (simp add: pdr_rel_def)

lemma pdr_do_test_add_wide: "pdr_do_test_add order xp pin now s = (e, s') \<Longrightarrow> pdr_wide s' = pdr_wide s"
  by (auto simp: pdr_do_test_add_def Let_def split: if_splits prod.splits)

lemma pdr_test_add_known:
  assumes "pdr_known s K"
  obtains ok s' where "pdr_test_add 8 xp pin now s = (ok, s')" "pdr_wide s' = pdr_wide s"
    "pdr_known s' (if ok then insert (unat (pd_id pin)) K else K)" "ok \<Longrightarrow> unat (pd_id pin) \<notin> K"
proof -
  obtain t where t: "pdr_rel 8 s t" "keys_known t (Pair 0 ` K)" using assms by (auto simp: pdr_known_def)
  obtain e s1 t' where s1: "pdr_do_test_add 8 xp pin now s = (e, s1)" "pdr_rel 8 s1 t'"
    and st: "spec_step (2 ^ (8 + 3)) xp t (0, unat (pd_id pin), now, True) = (e, t')"
    using pdr_do_test_add_refines [OF t(1)] by blast
  have "\<forall>a\<in>s_accepted t. a \<le> s_high t" using t(1) by (simp add: pdr_rel_def ring_window_def)
  from spec_step_fresh [OF st t(2) this]
  have k: "if e = SUCCESS then unat (pd_id pin) \<notin> K \<and> keys_known t' (Pair 0 ` insert (unat (pd_id pin)) K) else keys_known t' (Pair 0 ` K)"
    by (auto split: if_splits)
  show thesis
  proof (rule that)
    show "pdr_test_add 8 xp pin now s = (e = SUCCESS, if e = SUCCESS then s1 else s1\<lparr>pdr_errors := pdr_errors s1 @ [e]\<rparr>)"
      using s1(1) by (simp add: pdr_test_add_def)
    show "pdr_wide (if e = SUCCESS then s1 else s1\<lparr>pdr_errors := pdr_errors s1 @ [e]\<rparr>) = pdr_wide s"
      using pdr_do_test_add_wide [OF s1(1)] by simp
    show "pdr_known (if e = SUCCESS then s1 else s1\<lparr>pdr_errors := pdr_errors s1 @ [e]\<rparr>)
        (if e = SUCCESS then insert (unat (pd_id pin)) K else K)"
      unfolding pdr_known_def using s1(2) k by (auto simp: pdr_rel_errors split: if_splits)
    show "unat (pd_id pin) \<notin> K" if "e = SUCCESS" using k that by simp
  qed
qed

text \<open>An ID above all that were accepted is accepted, and is then the highest.\<close>

lemma pdr_test_add_ascending:
  assumes "pdr_rel 8 s t" "r_high (pdr_ring s) < pd_id pin"
  obtains s' t' where "pdr_test_add 8 xp pin now s = (True, s')" "pdr_rel 8 s' t'" "r_high (pdr_ring s') = pd_id pin" "pdr_wide s' = pdr_wide s"
proof -
  obtain e s1 t' where s1: "pdr_do_test_add 8 xp pin now s = (e, s1)" "pdr_rel 8 s1 t'"
    and st: "spec_step (2 ^ (8 + 3)) xp t (0, unat (pd_id pin), now, True) = (e, t')"
    using pdr_do_test_add_refines [OF assms(1)] by blast
  have "unat (r_high (pdr_ring s)) < unat (pd_id pin)" using assms(2) by (simp add: word_less_nat_alt)
  then have "key_less (s_time t, s_high t) (0, unat (pd_id pin))" "0 < unat (pd_id pin)"
    using assms(1) by (auto simp: key_less_def pdr_rel_def)
  from spec_step_ascending [OF this, of "2 ^ (8 + 3)" xp now] st have e: "e = SUCCESS" "s_high t' = unat (pd_id pin)"
    by (auto simp del: spec_step.simps)
  moreover have "s_high t' = unat (r_high (pdr_ring s1))" using s1(2) by (simp add: pdr_rel_def)
  ultimately have "r_high (pdr_ring s1) = pd_id pin" by (simp add: word_unat_eq_iff)
  moreover have "pdr_test_add 8 xp pin now s = (True, s1)" using s1(1) e(1) by (simp add: pdr_test_add_def)
  ultimately show thesis using that s1(2) pdr_do_test_add_wide [OF s1(1)] by blast
qed

section \<open>The sender\<close>

lemma pds_next_ok:
  assumes "unat (pd_id s) + 1 < 2 ^ 32 - 1"
  shows "pds_next s = (Inr (s\<lparr>pd_id := pd_id s + 1\<rparr>), s\<lparr>pd_id := pd_id s + 1\<rparr>)"
    and "unat (pd_id s + 1) = unat (pd_id s) + 1"
proof -
  show inc: "unat (pd_id s + 1) = unat (pd_id s) + 1"
    using assms by (intro unat_inc_bound) simp
  then have lt: "unat (pd_id s + 1) < 4294967295" using assms by simp
  have "pd_id s + 1 \<noteq> 0xffffffff" using lt by auto
  moreover have "(pd_id s + 1) AND epoch_packet_id_mask \<noteq> epoch_packet_id_max"
  proof
    assume "(pd_id s + 1) AND epoch_packet_id_mask = epoch_packet_id_max"
    moreover have "unat ((pd_id s + 1) AND epoch_packet_id_mask) \<le> unat (pd_id s + 1)"
      by (simp add: word_and_le2 flip: word_le_nat_alt)
    ultimately show False using lt by (simp add: epoch_packet_id_max_def)
  qed
  ultimately show "pds_next s = (Inr (s\<lparr>pd_id := pd_id s + 1\<rparr>), s\<lparr>pd_id := pd_id s + 1\<rparr>)"
    by (simp add: pds_next_def pds_at_limit_def Let_def)
qed

lemma pds_run_ids:
  assumes "unat (pd_id s) + n < 2 ^ 32 - 1"
  shows "\<exists>ps. pds_run n s = Inr ps \<and> map (\<lambda>p. unat (pd_id p)) ps = [Suc (unat (pd_id s))..<Suc (unat (pd_id s) + n)]"
  using assms
proof (induction n arbitrary: s)
  case 0
  then show ?case by simp
next
  case (Suc n)
  have 1: "unat (pd_id s) + 1 < 2 ^ 32 - 1" using Suc.prems by simp
  let ?s = "s\<lparr>pd_id := pd_id s + 1\<rparr>"
  have "unat (pd_id ?s) + n < 2 ^ 32 - 1" using Suc.prems pds_next_ok(2) [OF 1] by simp
  from Suc.IH [OF this] pds_next_ok [OF 1] show ?case
    by (auto simp: upt_conv_Cons simp del: upt_Suc)
qed

lemma unat_ucast_32: "unat (x :: u64) < 2 ^ 32 \<Longrightarrow> unat (ucast x :: u32) = unat x"
  by (simp add: unsigned_ucast_eq take_bit_eq_mod)

section \<open>Properties\<close>

text \<open>
  Replay protection of the data channel: whatever sequence of packet IDs reaches a freshly
  initialised \<open>PacketIDDataReceiveType\<close>, with whatever clock, no ID is accepted twice.
\<close>

lemma pdr_no_replay:
  assumes "order + 3 < 32"
  shows "distinct (accepted (\<lambda>s (pin, now). Inr (pdr_do_test_add order xp pin now s))
           (\<lambda>(pin, now). (0, unat (pd_id pin), now, True)) (pdr_init order wide) xs)"
  using pdr.accepted_fresh [OF pdr_rel_init [OF assms], of "{}"] by (simp add: keys_known_def)

text \<open>
  The data channel filter gives exactly the verdicts of the abstract filter that remembers
  the set of accepted IDs, for every sequence of packets.
\<close>

lemma pdr_verdicts_refine:
  assumes "order + 3 < 32"
  shows "run_verdicts (\<lambda>s (pin, now). Inr (pdr_do_test_add order xp pin now s)) (pdr_init order wide) xs
    = Inr (spec_verdicts (2 ^ (order + 3)) xp spec_init
        (map (\<lambda>(pin, now). (0, unat (pd_id pin), now, True)) xs))"
  by (rule pdr.verdicts_refine [OF pdr_rel_init [OF assms]])

text \<open>
  The data channel sender never repeats an ID on the wire before it throws: the first
  \<open>2 ^ 32 - 2\<close> calls of \<open>next\<close> on a narrow sender succeed, the IDs are 1, 2, 3, ..., and the
  32-bit values that \<open>write\<close> truncates them to are pairwise different and never 0.
\<close>

lemma pds_wire_distinct:
  assumes "n < 2 ^ 32 - 1"
  shows "\<exists>ps. pds_run n pds_default = Inr ps \<and> length ps = n
    \<and> distinct (map (\<lambda>p. ucast (pd_id p) :: u32) ps) \<and> (\<forall>p\<in>set ps. (ucast (pd_id p) :: u32) \<noteq> 0)"
proof -
  obtain ps where ps: "pds_run n pds_default = Inr ps" and ids: "map (\<lambda>p. unat (pd_id p)) ps = [1..<Suc n]"
    using pds_run_ids [of pds_default n] assms by (auto simp: pds_default_def simp del: upt_Suc)
  have small: "unat (pd_id p) < 2 ^ 32 \<and> 0 < unat (pd_id p)" if "p \<in> set ps" for p
  proof -
    have "unat (pd_id p) \<in> set [1..<Suc n]" using that ids by (metis image_eqI set_map)
    then show ?thesis using assms by (simp del: upt_Suc)
  qed
  have "map (\<lambda>p. unat (ucast (pd_id p) :: u32)) ps = map (\<lambda>p. unat (pd_id p)) ps"
    by (rule map_cong [OF refl]) (use small unat_ucast_32 in blast)
  with ids have "map (\<lambda>p. unat (ucast (pd_id p) :: u32)) ps = [1..<Suc n]" by (simp only:)
  then have eq: "map unat (map (\<lambda>p. ucast (pd_id p) :: u32) ps) = [1..<Suc n]"
    by (simp add: comp_def del: upt_Suc)
  have "distinct (map unat (map (\<lambda>p. ucast (pd_id p) :: u32) ps))"
    unfolding eq by (rule distinct_upt)
  then have "distinct (map (\<lambda>p. ucast (pd_id p) :: u32) ps)" by (simp only: distinct_map)
  moreover have "length ps = n" using arg_cong [OF ids, of length] by (simp del: upt_Suc)
  moreover have "\<forall>p\<in>set ps. (ucast (pd_id p) :: u32) \<noteq> 0"
    using small by (metis less_numeral_extra(3) unat_0 unat_ucast_32)
  ultimately show ?thesis using ps by blast
qed

text \<open>
  The exhaustion check compares for equality, so it fires once: after the call of \<open>next\<close>
  that throws \<open>packet_id_wrap\<close>, the following calls on a narrow sender succeed again and hand
  out IDs whose 32-bit wire form starts over at 0, 1.
\<close>

lemma pds_next_after_wrap:
  "let s0 = \<lparr>pd_id = 0xfffffffe, pd_wide = False\<rparr>; (r1, s1) = pds_next s0; (r2, s2) = pds_next s1;
       (r3, s3) = pds_next s2
   in r1 = Inl packet_id_wrap
      \<and> (\<exists>p2. r2 = Inr p2 \<and> (ucast (pd_id p2) :: u32) = 0)
      \<and> (\<exists>p3. r3 = Inr p3 \<and> (ucast (pd_id p3) :: u32) = 1)"
  by (simp add: pds_next_def pds_at_limit_def epoch_packet_id_mask_def epoch_packet_id_max_def Let_def)

text \<open>
  The data packet ID round trips over the wire in both widths: what is prepended to a buffer
  is read back (a narrow ID modulo \<open>2 ^ 32\<close>) and the rest of the buffer is unchanged.
\<close>

lemma pd_write_read:
  assumes wf: "buf_wf buf" and w: "pd_write_prepend p buf = Inr buf'"
  shows "\<exists>buf''. pd_read \<lparr>pd_id = 0, pd_wide = pd_wide p\<rparr> buf'
      = Inr (p\<lparr>pd_id := (if pd_wide p then pd_id p else take_bit 32 (pd_id p))\<rparr>, buf'')
    \<and> buf_wf buf'' \<and> content buf'' = content buf"
proof (cases "pd_wide p")
  case True
  have len: "length (be_bytes 8 (pd_id p)) < sz_max" by (simp add: sz_max_def)
  have "buf_prepend (be_bytes 8 (pd_id p)) buf = Inr buf'" using w True by (simp add: pd_write_prepend_def)
  from bq.rd_after_pre [OF wf len this] True show ?thesis by (auto simp: pd_read_def)
next
  case False
  let ?w = "ucast (pd_id p) :: u32"
  have len: "length (be_bytes 4 ?w) < sz_max" by (simp add: sz_max_def)
  have "buf_prepend (be_bytes 4 ?w) buf = Inr buf'" using w False by (simp add: pd_write_prepend_def)
  moreover have "ucast ?w = take_bit 32 (pd_id p)"
    by (rule bit_word_eqI) (auto simp: bit_simps)
  ultimately show ?thesis using bq.rd_after_pre [OF wf len, of buf'] False by (auto simp: pd_read_def)
qed

end
