(* ===== verification/Msg_Window.thy ===== *)
theory Msg_Window
  imports OV_Prelude
begin

text \<open>
  The message window of common/msgwin.hpp and the message base of reliable/relcommon.hpp: a deque
  of messages for the IDs from \<open>head_id\<close> on, created on demand, inside a span of IDs. IDs are
  32-bit words, so \<open>head_id + span\<close> wraps; \<open>mw_wf\<close> is the range in which it does not. The
  abstraction \<open>mw_slot\<close> reads the window as a function from IDs to messages, to which growing the
  deque is invisible.
\<close>

section \<open>\<open>ReliableMessageBase\<close>\<close>

record 'p rel_msg =
  m_packet :: "'p option"
  m_id :: u32
  m_erased :: bool

definition msg_defined :: "('p, 'z) rel_msg_scheme \<Rightarrow> bool" where
  "msg_defined m \<longleftrightarrow> m_packet m \<noteq> None"

definition msg_erase :: "('p, 'z) rel_msg_scheme \<Rightarrow> ('p, 'z) rel_msg_scheme" where
  "msg_erase m = m\<lparr>m_id := 0, m_packet := None, m_erased := True\<rparr>"

section \<open>\<open>MessageWindow\<close>\<close>

record 'm msg_window =
  mw_head :: u32
  mw_span :: u32
  mw_q :: "'m list"

definition mw_init :: "u32 \<Rightarrow> u32 \<Rightarrow> 'm msg_window" where
  "mw_init starting_head_id span = \<lparr>mw_head = starting_head_id, mw_span = span, mw_q = []\<rparr>"

definition mw_in_window :: "'m msg_window \<Rightarrow> u32 \<Rightarrow> bool" where
  "mw_in_window w i \<longleftrightarrow> i \<ge> mw_head w \<and> i < mw_head w + mw_span w"

definition mw_pre_window :: "'m msg_window \<Rightarrow> u32 \<Rightarrow> bool" where
  "mw_pre_window w i \<longleftrightarrow> i < mw_head w"

definition mw_tail :: "'m msg_window \<Rightarrow> u32" where
  "mw_tail w = mw_head w + mw_span w"

text \<open>\<open>grow\<close> appends default-constructed messages until the index exists.\<close>

definition mw_grow :: "'m \<Rightarrow> u32 \<Rightarrow> 'm msg_window \<Rightarrow> 'm msg_window" where
  "mw_grow dflt i w =
     (let needed_index = unat (i - mw_head w)
      in w\<lparr>mw_q := mw_q w @ replicate (Suc needed_index - length (mw_q w)) dflt\<rparr>)"

text \<open>\<open>ref_by_id\<close> returns a reference: here the index into the grown deque.\<close>

definition mw_ref_by_id :: "'m \<Rightarrow> u32 \<Rightarrow> 'm msg_window \<Rightarrow> (nat \<times> 'm msg_window) result" where
  "mw_ref_by_id dflt i w =
     (if mw_in_window w i then Inr (unat (i - mw_head w), mw_grow dflt i w)
      else Inl message_window_ref_by_id)"

definition mw_assign :: "nat \<Rightarrow> 'm \<Rightarrow> 'm msg_window \<Rightarrow> 'm msg_window" where
  "mw_assign k m w = w\<lparr>mw_q := (mw_q w)[k := m]\<rparr>"

fun mw_purge_q :: "u32 \<Rightarrow> ('p, 'z) rel_msg_scheme list \<Rightarrow> u32 \<times> ('p, 'z) rel_msg_scheme list" where
  "mw_purge_q head [] = (head, [])"
| "mw_purge_q head (m # q) = (if m_erased m then mw_purge_q (head + 1) q else (head, m # q))"

definition mw_purge :: "('p, 'z) rel_msg_scheme msg_window \<Rightarrow> ('p, 'z) rel_msg_scheme msg_window" where
  "mw_purge w = (let (head, q) = mw_purge_q (mw_head w) (mw_q w) in w\<lparr>mw_head := head, mw_q := q\<rparr>)"

definition mw_rm_by_id ::
  "('p, 'z) rel_msg_scheme \<Rightarrow> u32 \<Rightarrow> ('p, 'z) rel_msg_scheme msg_window
     \<Rightarrow> ('p, 'z) rel_msg_scheme msg_window" where
  "mw_rm_by_id dflt i w =
     mw_purge (if mw_in_window w i
               then let w' = mw_grow dflt i w; k = unat (i - mw_head w)
                    in mw_assign k (msg_erase (mw_q w' ! k)) w'
               else w)"

definition mw_head_defined :: "('p, 'z) rel_msg_scheme msg_window \<Rightarrow> bool" where
  "mw_head_defined w \<longleftrightarrow> mw_q w \<noteq> [] \<and> msg_defined (hd (mw_q w))"

definition mw_ref_head :: "'m msg_window \<Rightarrow> 'm result" where
  "mw_ref_head w = (case mw_q w of [] \<Rightarrow> Inl undefined_behaviour | m # _ \<Rightarrow> Inr m)"

definition mw_rm_head_nocheck :: "'m msg_window \<Rightarrow> 'm msg_window result" where
  "mw_rm_head_nocheck w =
     (case mw_q w of [] \<Rightarrow> Inl undefined_behaviour
      | m # q \<Rightarrow> Inr (w\<lparr>mw_q := q, mw_head := mw_head w + 1\<rparr>))"

definition mw_rm_head :: "('p, 'z) rel_msg_scheme msg_window \<Rightarrow> ('p, 'z) rel_msg_scheme msg_window result" where
  "mw_rm_head w = (if mw_head_defined w then mw_rm_head_nocheck w else Inl message_window_rm_head)"

section \<open>The window as a function from IDs\<close>

definition mw_wf :: "'m msg_window \<Rightarrow> bool" where
  "mw_wf w \<longleftrightarrow> unat (mw_head w) + unat (mw_span w) < 2 ^ 32 \<and> length (mw_q w) \<le> unat (mw_span w)"

definition mw_slot :: "'m \<Rightarrow> 'm msg_window \<Rightarrow> nat \<Rightarrow> 'm" where
  "mw_slot dflt w i =
     (if i - unat (mw_head w) < length (mw_q w) then mw_q w ! (i - unat (mw_head w)) else dflt)"

lemma mw_wf_tail: "mw_wf w \<Longrightarrow> unat (mw_head w + mw_span w) = unat (mw_head w) + unat (mw_span w)"
  by (intro unat_add_no_overflow) (simp add: mw_wf_def)

lemma mw_in_window_iff:
  "mw_wf w \<Longrightarrow>
     mw_in_window w i \<longleftrightarrow> unat (mw_head w) \<le> unat i \<and> unat i < unat (mw_head w) + unat (mw_span w)"
  by (simp add: mw_in_window_def word_le_nat_alt word_less_nat_alt mw_wf_tail)

lemma mw_index:
  "mw_wf w \<Longrightarrow> mw_in_window w i \<Longrightarrow> unat (i - mw_head w) = unat i - unat (mw_head w)"
  by (simp add: mw_in_window_def unat_diff_le)

lemma mw_grow_simps [simp]:
  "mw_head (mw_grow dflt i w) = mw_head w" "mw_span (mw_grow dflt i w) = mw_span w"
  by (simp_all add: mw_grow_def Let_def)

lemma mw_assign_simps [simp]:
  "mw_head (mw_assign k m w) = mw_head w" "mw_span (mw_assign k m w) = mw_span w"
  "length (mw_q (mw_assign k m w)) = length (mw_q w)"
  by (simp_all add: mw_assign_def)

lemma mw_grow_length:
  "length (mw_q (mw_grow dflt i w)) = max (length (mw_q w)) (Suc (unat (i - mw_head w)))"
  by (simp add: mw_grow_def Let_def)

lemma mw_grow_wf:
  assumes "mw_wf w" and "mw_in_window w i"
  shows "mw_wf (mw_grow dflt i w)"
  using assms mw_index [OF assms] mw_in_window_iff [OF assms(1), of i]
  by (auto simp: mw_wf_def mw_grow_length)

lemma mw_grow_slot [simp]: "mw_slot dflt (mw_grow dflt i w) = mw_slot dflt w"
  by (rule ext) (auto simp: mw_slot_def mw_grow_def Let_def nth_append)

lemma mw_grow_nth:
  assumes "mw_wf w" and "mw_in_window w i"
  shows "mw_q (mw_grow dflt i w) ! unat (i - mw_head w) = mw_slot dflt w (unat i)"
  using mw_index [OF assms] by (auto simp: mw_slot_def mw_grow_def Let_def nth_append)

lemma mw_assign_wf [simp]: "mw_wf (mw_assign k m w) \<longleftrightarrow> mw_wf w"
  by (simp add: mw_wf_def)

lemma mw_assign_slot:
  assumes "mw_wf w" and "mw_in_window w i" and "unat (mw_head w) \<le> j"
  shows "mw_slot dflt (mw_assign (unat (i - mw_head w)) m (mw_grow dflt i w)) j
    = (if j = unat i then m else mw_slot dflt w j)"
proof (cases "j = unat i")
  case True
  then show ?thesis using mw_index [OF assms(1,2)]
    by (simp add: mw_slot_def mw_assign_def mw_grow_length less_max_iff_disj)
next
  case False
  then have "j - unat (mw_head w) \<noteq> unat (i - mw_head w)"
    using mw_index [OF assms(1,2)] assms(3) mw_in_window_iff [OF assms(1), of i] assms(2) by auto
  then have "mw_slot dflt (mw_assign (unat (i - mw_head w)) m (mw_grow dflt i w)) j
      = mw_slot dflt (mw_grow dflt i w) j"
    by (simp add: mw_slot_def mw_assign_def del: mw_grow_slot)
  then show ?thesis using False by simp
qed

lemma mw_purge_q_spec:
  assumes "mw_purge_q head q = (head', q')" and "unat head + length q < 2 ^ 32"
  shows "\<exists>n\<le>length q. unat head' = unat head + n \<and> q' = drop n q \<and> (\<forall>k<n. m_erased (q ! k))
    \<and> (n < length q \<longrightarrow> \<not> m_erased (q ! n))"
  using assms
proof (induction q arbitrary: head)
  case Nil
  then show ?case by simp
next
  case (Cons m q)
  show ?case
  proof (cases "m_erased m")
    case True
    have "unat head + 1 < 2 ^ LENGTH(32)" using Cons.prems(2) by simp
    note inc = unat_inc_bound(1) [OF this]
    from Cons.IH [of "head + 1"] Cons.prems True inc obtain n where
      "n \<le> length q" "unat head' = unat head + Suc n" "q' = drop n q" "\<forall>k<n. m_erased (q ! k)"
      "n < length q \<longrightarrow> \<not> m_erased (q ! n)" by auto
    with True show ?thesis by (intro exI [of _ "Suc n"]) (auto simp: nth_Cons split: nat.splits)
  next
    case False
    with Cons.prems show ?thesis by (intro exI [of _ 0]) auto
  qed
qed

text \<open>\<open>purge\<close> moves the head over erased messages only and keeps every slot above it.\<close>

lemma mw_purge_spec:
  assumes wf: "mw_wf w" and room: "unat (mw_head w) + length (mw_q w) + unat (mw_span w) < 2 ^ 32"
  shows "unat (mw_head w) \<le> unat (mw_head (mw_purge w)) \<and> mw_span (mw_purge w) = mw_span w
    \<and> mw_wf (mw_purge w)
    \<and> (\<forall>i. unat (mw_head (mw_purge w)) \<le> i \<longrightarrow> mw_slot dflt (mw_purge w) i = mw_slot dflt w i)
    \<and> (\<forall>i. unat (mw_head w) \<le> i \<longrightarrow> i < unat (mw_head (mw_purge w)) \<longrightarrow> m_erased (mw_slot dflt w i))"
proof -
  obtain head' q' where p: "mw_purge_q (mw_head w) (mw_q w) = (head', q')" by fastforce
  have "unat (mw_head w) + length (mw_q w) < 2 ^ 32" using room by simp
  from mw_purge_q_spec [OF p this] obtain n where n: "n \<le> length (mw_q w)"
    "unat head' = unat (mw_head w) + n" "q' = drop n (mw_q w)" "\<forall>k<n. m_erased (mw_q w ! k)" by blast
  have w': "mw_purge w = w\<lparr>mw_head := head', mw_q := q'\<rparr>" using p by (simp add: mw_purge_def)
  have "mw_slot dflt (mw_purge w) i = mw_slot dflt w i" if "unat head' \<le> i" for i
    using that n by (auto simp: w' mw_slot_def add.commute)
  moreover have "m_erased (mw_slot dflt w i)"
    if "unat (mw_head w) \<le> i" "i < unat head'" for i
    using that n by (auto simp: mw_slot_def)
  moreover have "mw_wf (mw_purge w)" using wf room n by (simp add: w' mw_wf_def)
  ultimately show ?thesis using n(2) by (simp add: w')
qed

lemma mw_rm_head_spec:
  assumes "mw_wf w" and "mw_rm_head_nocheck w = Inr w'" and "unat (mw_head w) + unat (mw_span w) + 1 < 2 ^ 32"
  shows "mw_wf w' \<and> unat (mw_head w') = unat (mw_head w) + 1 \<and> mw_span w' = mw_span w
    \<and> (\<forall>i. unat (mw_head w) < i \<longrightarrow> mw_slot dflt w' i = mw_slot dflt w i)"
proof -
  obtain m q where q: "mw_q w = m # q" and w': "w' = w\<lparr>mw_q := q, mw_head := mw_head w + 1\<rparr>"
    using assms(2) by (auto simp: mw_rm_head_nocheck_def split: list.splits)
  have inc: "unat (mw_head w + 1) = unat (mw_head w) + 1"
    using assms(3) by (intro unat_inc_bound) simp
  have "mw_slot dflt w' i = mw_slot dflt w i" if "unat (mw_head w) < i" for i
  proof -
    from that obtain k where "i = Suc (unat (mw_head w) + k)" using less_imp_Suc_add by blast
    then show ?thesis using inc by (simp add: mw_slot_def w' q)
  qed
  then show ?thesis using assms(1,3) inc q by (auto simp: w' mw_wf_def)
qed

end
