(* ===== verification/OV_Time.thy ===== *)
theory OV_Time
  imports OV_Prelude
begin

text \<open>
  Times and durations in units of 1/1024 s (time/time.hpp). The template parameter \<open>T\<close> is the
  word length; the largest value stands for infinity. The clock (\<open>now\<close>, \<open>update\<close>, the time base)
  is an input of the components that use it, and the floating point helpers are left out.
\<close>

type_synonym 'a duration = "'a word"
type_synonym 'a tm = "'a word"

section \<open>\<open>Duration\<close>\<close>

definition dur_seconds :: "'a::len word \<Rightarrow> 'a duration" where
  "dur_seconds v = v * 1024"

definition dur_binary_ms :: "'a::len word \<Rightarrow> 'a duration" where
  "dur_binary_ms v = v"

definition dur_infinite :: "'a::len duration" where
  "dur_infinite = - 1"

definition dur_milliseconds :: "'a::len word \<Rightarrow> 'a duration" where
  "dur_milliseconds v = v + (v * 3 div 128)"

definition dur_zero :: "'a::len duration" where
  "dur_zero = 0"

definition dur_defined :: "'a::len duration \<Rightarrow> bool" where
  "dur_defined d \<longleftrightarrow> d \<noteq> 0"

definition dur_is_infinite :: "'a::len duration \<Rightarrow> bool" where
  "dur_is_infinite d \<longleftrightarrow> d = - 1"

definition dur_enabled :: "'a::len duration \<Rightarrow> bool" where
  "dur_enabled d \<longleftrightarrow> dur_defined d \<and> \<not> dur_is_infinite d"

definition dur_plus :: "'a::len duration \<Rightarrow> 'a duration \<Rightarrow> 'a duration" where
  "dur_plus a b = (if dur_is_infinite a \<or> dur_is_infinite b then dur_infinite else a + b)"

text \<open>\<open>operator+(const int delta)\<close>; \<open>-delta\<close> of the least \<open>int\<close> is not defined.\<close>

definition dur_plus_int :: "'a::len duration \<Rightarrow> int \<Rightarrow> 'a duration" where
  "dur_plus_int a delta =
     (if dur_is_infinite a then dur_infinite
      else if delta \<ge> 0 then a + word_of_int delta
      else let ndelta = - delta
           in if uint a \<ge> ndelta then a - word_of_int ndelta else 0)"

definition dur_times :: "'a::len duration \<Rightarrow> nat \<Rightarrow> 'a duration" where
  "dur_times a mult = a * of_nat mult"

definition dur_min :: "'a::len duration \<Rightarrow> 'a duration \<Rightarrow> 'a duration" where
  "dur_min a d = (if d < a then d else a)"

definition dur_max :: "'a::len duration \<Rightarrow> 'a duration \<Rightarrow> 'a duration" where
  "dur_max a d = (if d > a then d else a)"

definition dur_minus :: "'a::len duration \<Rightarrow> 'a duration \<Rightarrow> 'a duration" where
  "dur_minus a d = (if d \<ge> a then 0 else if dur_is_infinite a then dur_infinite else a - d)"

definition dur_minus_assign :: "'a::len duration \<Rightarrow> 'a duration \<Rightarrow> 'a duration" where
  "dur_minus_assign a d = (if d \<ge> a then dur_zero else if \<not> dur_is_infinite a then a - d else a)"

definition dur_to_seconds :: "'a::len duration \<Rightarrow> 'a word" where
  "dur_to_seconds d = d div 1024"

definition dur_to_binary_ms :: "'a::len duration \<Rightarrow> 'a word" where
  "dur_to_binary_ms d = d"

definition dur_to_milliseconds :: "'a::len duration \<Rightarrow> 'a word" where
  "dur_to_milliseconds d = d - (d * 3 div 128)"

section \<open>\<open>TimeType\<close>\<close>

definition tm_zero :: "'a::len tm" where
  "tm_zero = 0"

definition tm_infinite :: "'a::len tm" where
  "tm_infinite = - 1"

definition tm_from_seconds_since_epoch :: "int \<Rightarrow> int \<Rightarrow> 'a::len tm" where
  "tm_from_seconds_since_epoch base t = (if t \<le> base then 1 else word_of_int ((t - base) * 1024))"

definition tm_is_infinite :: "'a::len tm \<Rightarrow> bool" where
  "tm_is_infinite t \<longleftrightarrow> t = - 1"

definition tm_defined :: "'a::len tm \<Rightarrow> bool" where
  "tm_defined t \<longleftrightarrow> t \<noteq> 0"

definition tm_seconds_since_epoch :: "int \<Rightarrow> 'a::len tm \<Rightarrow> int" where
  "tm_seconds_since_epoch base t = base + uint t div 1024"

definition tm_fractional_binary_ms :: "'a::len tm \<Rightarrow> 'a word" where
  "tm_fractional_binary_ms t = t mod 1024"

definition tm_plus :: "'a::len tm \<Rightarrow> 'a duration \<Rightarrow> 'a tm" where
  "tm_plus t d = (if tm_is_infinite t \<or> dur_is_infinite d then tm_infinite else t + d)"

definition tm_minus :: "'a::len tm \<Rightarrow> 'a tm \<Rightarrow> 'a duration" where
  "tm_minus a t = (if t \<ge> a then 0 else if tm_is_infinite a then dur_infinite else a - t)"

definition tm_min :: "'a::len tm \<Rightarrow> 'a tm \<Rightarrow> 'a tm" where
  "tm_min a t = (if t < a then t else a)"

definition tm_max :: "'a::len tm \<Rightarrow> 'a tm \<Rightarrow> 'a tm" where
  "tm_max a t = (if t > a then t else a)"

section \<open>Arithmetic\<close>

lemmas dur_defs = dur_plus_def dur_minus_def dur_is_infinite_def dur_infinite_def
lemmas tm_defs = tm_plus_def tm_minus_def tm_is_infinite_def tm_infinite_def

lemma word_le_minus_one [simp]: "(x :: 'a::len word) \<le> - 1"
  by simp

lemma tm_plus_minus:
  fixes t d :: "'a::len word"
  assumes "unat t + unat d < 2 ^ LENGTH('a) - 1"
  shows "tm_minus (tm_plus t d) t = d"
proof -
  have sum: "unat (t + d) = unat t + unat d" using assms by (intro unat_add_no_overflow) simp
  have m1: "unat (- 1 :: 'a word) = 2 ^ LENGTH('a) - 1" by (simp add: unsigned_minus_1_eq_mask mask_eq_exp_minus_1)
  have "t \<noteq> - 1" "d \<noteq> - 1" "t + d \<noteq> - 1" using assms sum m1 by auto
  then show ?thesis using sum by (cases "d = 0") (auto simp: tm_defs dur_defs word_le_nat_alt unat_gt_0)
qed

lemma tm_minus_le: "tm_minus a t \<le> a"
  by (auto simp: tm_defs dur_defs word_le_nat_alt unat_diff_le)

lemma ms_bounds:
  fixes n :: nat
  defines "a \<equiv> n * 3 div 128"
  defines "b \<equiv> (n + a) * 3 div 128"
  shows "a \<le> b" and "b \<le> a + n div 1024 + 1"
proof -
  show "a \<le> b" unfolding a_def b_def by (intro div_le_mono) simp
  define c where "c = n div 1024"
  have a: "128 * a \<le> 3 * n" "3 * n < 128 * a + 128" unfolding a_def by linarith+
  have "128 * b \<le> (n + a) * 3" unfolding b_def by (rule times_div_less_eq_dividend)
  then have b: "128 * b \<le> 3 * n + 3 * a" by (simp add: algebra_simps)
  have c: "n < 1024 * c + 1024" unfolding c_def by linarith
  have "384 * a < 9216 * c + 9216" using a(1) c by linarith
  then have "3 * a < 72 * c + 72" by linarith
  then have "128 * b < 128 * a + 72 * c + 200" using a(2) b by linarith
  then show "b \<le> a + n div 1024 + 1" unfolding c_def [symmetric] by linarith
qed

lemma nat_between: "r = x + a - b \<Longrightarrow> a \<le> b \<Longrightarrow> b \<le> a + c + 1 \<Longrightarrow> r \<le> x \<and> x \<le> r + c + (1 :: nat)"
  by linarith

section \<open>Properties\<close>

text \<open>
  Adding a duration to a time and subtracting the time gives the duration back as long as the
  sum stays below the value that stands for infinity; infinity absorbs addition; and a
  difference of times never underflows: it is zero when the subtrahend is later.
\<close>

lemma tm_arith:
  fixes t d u :: "'a::len word"
  shows "(unat t + unat d < 2 ^ LENGTH('a) - 1 \<longrightarrow> tm_minus (tm_plus t d) t = d)
    \<and> tm_plus tm_infinite d = tm_infinite \<and> tm_plus t dur_infinite = tm_infinite
    \<and> (t \<le> u \<longrightarrow> tm_minus t u = 0) \<and> (u < tm_infinite \<longrightarrow> tm_minus tm_infinite u = dur_infinite)"
proof (intro conjI impI)
  show "tm_minus (tm_plus t d) t = d" if "unat t + unat d < 2 ^ LENGTH('a) - 1"
    using that by (rule tm_plus_minus)
qed (auto simp: tm_defs dur_defs)

text \<open>
  Converting milliseconds to 1/1024 s units and back loses little and never gains: for
  inputs small enough not to wrap, the result is at most the input and at least the input
  minus one part in 1024 minus 1.
\<close>

lemma milliseconds_round_trip:
  fixes v :: "'a::len word"
  assumes len: "8 \<le> LENGTH('a)" and small: "unat v * 4 < 2 ^ LENGTH('a)"
  shows "unat (dur_to_milliseconds (dur_milliseconds v)) \<le> unat v
    \<and> unat v \<le> unat (dur_to_milliseconds (dur_milliseconds v)) + unat v div 1024 + 1"
proof -
  have l: "(2 :: nat) ^ 8 \<le> 2 ^ LENGTH('a)" by (rule power_increasing [OF len]) simp
  define d where "d = dur_milliseconds v"
  have n3: "unat (3 :: 'a word) = 3" and n128: "unat (128 :: 'a word) = 128"
    using l by (simp_all only: unat_numeral) (simp_all add: mod_less)
  have scale: "unat (x * 3 div 128) = unat x * 3 div 128" if "unat x * 3 < 2 ^ LENGTH('a)" for x :: "'a word"
    using unat_mult_lem [of x 3, THEN iffD1, unfolded n3, OF that] by (simp only: unat_div_distrib n128)
  have d: "unat d = unat v + unat v * 3 div 128"
    unfolding d_def dur_milliseconds_def using small scale [of v]
    by (subst unat_add_no_overflow) auto
  have 3: "unat (d * 3 div 128) = unat d * 3 div 128"
    by (rule scale) (use d small in linarith)
  have "d * 3 div 128 \<le> d" unfolding word_le_nat_alt 3 by linarith
  then have "unat (dur_to_milliseconds d) = unat d - unat d * 3 div 128"
    unfolding dur_to_milliseconds_def by (simp add: unat_diff_le 3)
  then show ?thesis
    unfolding d_def [symmetric] d by (rule nat_between) (rule ms_bounds)+
qed

end
