(* ===== verification/Reliable.thy ===== *)
theory Reliable
  imports Msg_Window OV_Time OV_Buffer
begin

text \<open>
  The reliability layer of the control channel: the receive window (reliable/relrecv.hpp), the send
  window with its retransmission times (reliable/relsend.hpp) and the acknowledgement queues with
  their wire format (reliable/relack.hpp). A packet is of any type \<open>'p\<close>; \<open>None\<close> is the null pointer.
\<close>

section \<open>\<open>ReliableRecvTemplate\<close>\<close>

type_synonym 'p rel_recv = "'p rel_msg msg_window"

definition recv_dflt :: "'p rel_msg" where
  "recv_dflt = \<lparr>m_packet = None, m_id = 0, m_erased = False\<rparr>"

definition ACK_TO_SENDER :: u32 where "ACK_TO_SENDER = 1"
definition IN_WINDOW :: u32 where "IN_WINDOW = 2"

definition rr_init :: "u32 \<Rightarrow> u32 \<Rightarrow> 'p rel_recv" where
  "rr_init span start_at = mw_init start_at span"

definition rr_receive :: "'p option \<Rightarrow> u32 \<Rightarrow> 'p rel_recv \<Rightarrow> (u32 \<times> 'p rel_recv) result" where
  "rr_receive packet i s =
     (if mw_in_window s i
      then bindR (mw_ref_by_id recv_dflt i s)
             (\<lambda>(k, s'). Inr (ACK_TO_SENDER OR IN_WINDOW,
                             mw_assign k ((mw_q s' ! k)\<lparr>m_id := i, m_packet := packet\<rparr>) s'))
      else Inr (if mw_pre_window s i then ACK_TO_SENDER else 0, s))"

definition rr_ready :: "'p rel_recv \<Rightarrow> bool" where
  "rr_ready s = mw_head_defined s"

definition rr_next_sequenced :: "'p rel_recv \<Rightarrow> 'p rel_msg result" where
  "rr_next_sequenced s = mw_ref_head s"

definition rr_advance :: "'p rel_recv \<Rightarrow> 'p rel_recv result" where
  "rr_advance s = mw_rm_head_nocheck s"

section \<open>\<open>ReliableSendTemplate\<close>\<close>

record 'p send_msg = "'p rel_msg" +
  m_retransmit_at :: u64

record 'p rel_send =
  rs_next :: u32
  rs_window :: "'p send_msg msg_window"

definition send_dflt :: "'p send_msg" where
  "send_dflt = \<lparr>m_packet = None, m_id = 0, m_erased = False, m_retransmit_at = 0\<rparr>"

definition msg_ready_retransmit :: "u64 \<Rightarrow> 'p send_msg \<Rightarrow> bool" where
  "msg_ready_retransmit now m \<longleftrightarrow> msg_defined m \<and> now \<ge> m_retransmit_at m"

definition msg_until_retransmit :: "u64 \<Rightarrow> 'p send_msg \<Rightarrow> u64" where
  "msg_until_retransmit now m =
     (if now < m_retransmit_at m then tm_minus (m_retransmit_at m) now else dur_zero)"

definition msg_reset_retransmit :: "u64 \<Rightarrow> u64 \<Rightarrow> 'p send_msg \<Rightarrow> 'p send_msg" where
  "msg_reset_retransmit now tls_timeout m = m\<lparr>m_retransmit_at := tm_plus now tls_timeout\<rparr>"

definition rs_init :: "u32 \<Rightarrow> u32 \<Rightarrow> 'p rel_send" where
  "rs_init span start_at = \<lparr>rs_next = start_at, rs_window = mw_init start_at span\<rparr>"

definition rs_head_id :: "'p rel_send \<Rightarrow> u32" where
  "rs_head_id s = mw_head (rs_window s)"

definition rs_tail_id :: "'p rel_send \<Rightarrow> u32" where
  "rs_tail_id s = mw_tail (rs_window s)"

text \<open>
  The two loops over the IDs from \<open>head_id()\<close> up to \<open>tail_id()\<close>; each \<open>ref_by_id\<close> may grow the
  deque. The list is the sequence of values of the loop variable.
\<close>

definition rs_ids :: "'p rel_send \<Rightarrow> u32 list" where
  "rs_ids s = map of_nat [unat (rs_head_id s)..<unat (rs_tail_id s)]"

fun rs_until_retransmit_loop ::
  "u64 \<Rightarrow> u32 list \<Rightarrow> u64 \<Rightarrow> 'p send_msg msg_window \<Rightarrow> (u64 \<times> 'p send_msg msg_window) result" where
  "rs_until_retransmit_loop now [] ret w = Inr (ret, w)"
| "rs_until_retransmit_loop now (i # is) ret w =
     bindR (mw_ref_by_id send_dflt i w) (\<lambda>(k, w').
       rs_until_retransmit_loop now is
         (let msg = mw_q w' ! k
          in if msg_defined msg
             then let ut = msg_until_retransmit now msg in if ut < ret then ut else ret
             else ret) w')"

definition rs_until_retransmit :: "u64 \<Rightarrow> 'p rel_send \<Rightarrow> (u64 \<times> 'p rel_send) result" where
  "rs_until_retransmit now s =
     bindR (rs_until_retransmit_loop now (rs_ids s) dur_infinite (rs_window s))
       (\<lambda>(ret, w). Inr (ret, s\<lparr>rs_window := w\<rparr>))"

fun rs_n_unacked_loop ::
  "u32 list \<Rightarrow> u32 \<Rightarrow> 'p send_msg msg_window \<Rightarrow> (u32 \<times> 'p send_msg msg_window) result" where
  "rs_n_unacked_loop [] ret w = Inr (ret, w)"
| "rs_n_unacked_loop (i # is) ret w =
     bindR (mw_ref_by_id send_dflt i w) (\<lambda>(k, w').
       rs_n_unacked_loop is (if msg_defined (mw_q w' ! k) then ret + 1 else ret) w')"

definition rs_n_unacked :: "'p rel_send \<Rightarrow> (u32 \<times> 'p rel_send) result" where
  "rs_n_unacked s =
     bindR (rs_n_unacked_loop (rs_ids s) 0 (rs_window s)) (\<lambda>(ret, w). Inr (ret, s\<lparr>rs_window := w\<rparr>))"

text \<open>\<open>send\<close> hands out a reference to the next message; the caller fills in its packet.\<close>

definition rs_send :: "u64 \<Rightarrow> u64 \<Rightarrow> 'p rel_send \<Rightarrow> (nat \<times> 'p rel_send) result" where
  "rs_send now tls_timeout s =
     bindR (mw_ref_by_id send_dflt (rs_next s) (rs_window s)) (\<lambda>(k, w).
       Inr (k, s\<lparr>rs_next := rs_next s + 1,
                 rs_window := mw_assign k
                   (msg_reset_retransmit now tls_timeout ((mw_q w ! k)\<lparr>m_id := rs_next s\<rparr>)) w\<rparr>))"

definition rs_set_packet :: "nat \<Rightarrow> 'p \<Rightarrow> 'p rel_send \<Rightarrow> 'p rel_send" where
  "rs_set_packet k p s =
     s\<lparr>rs_window := mw_assign k ((mw_q (rs_window s) ! k)\<lparr>m_packet := Some p\<rparr>) (rs_window s)\<rparr>"

definition rs_ready :: "'p rel_send \<Rightarrow> bool" where
  "rs_ready s = mw_in_window (rs_window s) (rs_next s)"

definition rs_ack :: "u32 \<Rightarrow> 'p rel_send \<Rightarrow> 'p rel_send" where
  "rs_ack i s = s\<lparr>rs_window := mw_rm_by_id send_dflt i (rs_window s)\<rparr>"

section \<open>\<open>ReliableAck\<close>\<close>

record rel_ack =
  ra_data :: "u32 list"
  ra_re_acks :: "u32 list"

definition maximum_acks_ack_v1 :: nat where "maximum_acks_ack_v1 = 8"
definition maximum_acks_control_v1 :: nat where "maximum_acks_control_v1 = 4"

definition ra_empty :: "rel_ack \<Rightarrow> bool" where
  "ra_empty a \<longleftrightarrow> ra_data a = []"

definition ra_acks_ready :: "rel_ack \<Rightarrow> bool" where
  "ra_acks_ready a \<longleftrightarrow> ra_data a \<noteq> [] \<or> ra_re_acks a \<noteq> []"

definition ra_push_back :: "u32 \<Rightarrow> rel_ack \<Rightarrow> rel_ack" where
  "ra_push_back i a = a\<lparr>ra_data := ra_data a @ [i]\<rparr>"

definition ra_prepend_id :: "u32 \<Rightarrow> buffer \<Rightarrow> buffer result" where
  "ra_prepend_id i buf = buf_prepend (le_bytes 4 (htonl i)) buf"

definition ra_read_id :: "buffer \<Rightarrow> (u32 \<times> buffer) result" where
  "ra_read_id buf = bindR (buf_read 4 buf) (\<lambda>(net_id, buf'). Inr (ntohl (le_word net_id), buf'))"

text \<open>
  The loops below return the exception, if any, together with the state it leaves behind: the IDs
  read before a short buffer is noticed have already been processed.
\<close>

fun ra_ack_loop :: "nat \<Rightarrow> bool \<Rightarrow> 'p rel_send \<Rightarrow> buffer \<Rightarrow> exn option \<times> 'p rel_send \<times> buffer" where
  "ra_ack_loop 0 live rs buf = (None, rs, buf)"
| "ra_ack_loop (Suc n) live rs buf =
     (case ra_read_id buf of
        Inl e \<Rightarrow> (Some e, rs, buf)
      | Inr (i, buf') \<Rightarrow> ra_ack_loop n live (if live then rs_ack i rs else rs) buf')"

definition ra_ack :: "bool \<Rightarrow> 'p rel_send \<Rightarrow> buffer \<Rightarrow> nat result \<times> 'p rel_send \<times> buffer" where
  "ra_ack live rs buf =
     (case buf_pop_front buf of
        Inl e \<Rightarrow> (Inl e, rs, buf)
      | Inr (len, buf') \<Rightarrow>
          (case ra_ack_loop (unat len) live rs buf' of
             (None, rs', buf'') \<Rightarrow> (Inr (unat len), rs', buf'')
           | (Some e, rs', buf'') \<Rightarrow> (Inl e, rs', buf'')))"

fun ra_skip_loop :: "nat \<Rightarrow> buffer \<Rightarrow> buffer result" where
  "ra_skip_loop 0 buf = Inr buf"
| "ra_skip_loop (Suc n) buf = bindR (ra_read_id buf) (\<lambda>(_, buf'). ra_skip_loop n buf')"

definition ra_ack_skip :: "buffer \<Rightarrow> (nat \<times> buffer) result" where
  "ra_ack_skip buf =
     bindR (buf_pop_front buf) (\<lambda>(len, buf').
     bindR (ra_skip_loop (unat len) buf') (\<lambda>buf''. Inr (unat len, buf'')))"

fun ra_read_loop :: "nat \<Rightarrow> rel_ack \<Rightarrow> buffer \<Rightarrow> exn option \<times> rel_ack \<times> buffer" where
  "ra_read_loop 0 a buf = (None, a, buf)"
| "ra_read_loop (Suc n) a buf =
     (case ra_read_id buf of
        Inl e \<Rightarrow> (Some e, a, buf)
      | Inr (i, buf') \<Rightarrow> ra_read_loop n (ra_push_back i a) buf')"

definition ra_read :: "rel_ack \<Rightarrow> buffer \<Rightarrow> exn option \<times> rel_ack \<times> buffer" where
  "ra_read a buf =
     (case buf_pop_front buf of
        Inl e \<Rightarrow> (Some e, a, buf)
      | Inr (len, buf') \<Rightarrow> ra_read_loop (unat len) a buf')"

definition ra_add_ack_to_reack :: "u32 \<Rightarrow> rel_ack \<Rightarrow> rel_ack" where
  "ra_add_ack_to_reack ack a =
     (let re = ack # remove1 ack (ra_re_acks a)
      in a\<lparr>ra_re_acks := (if length re > maximum_acks_ack_v1 then butlast re else re)\<rparr>)"

text \<open>First loop of \<open>prepend\<close>: fresh acknowledgements; second loop: repeated ones.\<close>

fun ra_prepend_fresh ::
  "nat \<Rightarrow> nat \<Rightarrow> u32 list \<Rightarrow> rel_ack \<Rightarrow> buffer \<Rightarrow> exn option \<times> nat \<times> rel_ack \<times> buffer" where
  "ra_prepend_fresh max_acks acks_added [] a buf = (None, acks_added, a\<lparr>ra_data := []\<rparr>, buf)"
| "ra_prepend_fresh max_acks acks_added (ack # data) a buf =
     (if acks_added < max_acks
      then case ra_prepend_id ack buf of
             Inl e \<Rightarrow> (Some e, acks_added, a\<lparr>ra_data := data\<rparr>, buf)
           | Inr buf' \<Rightarrow>
               ra_prepend_fresh max_acks (Suc acks_added) data (ra_add_ack_to_reack ack a) buf'
      else (None, acks_added, a\<lparr>ra_data := ack # data\<rparr>, buf))"

function ra_prepend_again ::
  "nat \<Rightarrow> nat \<Rightarrow> u32 list \<Rightarrow> buffer \<Rightarrow> exn option \<times> nat \<times> buffer" where
  "ra_prepend_again max_acks acks_added re_acks buf =
     (if acks_added < length re_acks \<and> acks_added < max_acks
      then case ra_prepend_id (re_acks ! acks_added) buf of
             Inl e \<Rightarrow> (Some e, acks_added, buf)
           | Inr buf' \<Rightarrow> ra_prepend_again max_acks (Suc acks_added) re_acks buf'
      else (None, acks_added, buf))"
  by pat_completeness auto
termination
  by (relation "measure (\<lambda>(max_acks, acks_added, re_acks, buf). max_acks - acks_added)") auto

definition ra_prepend :: "bool \<Rightarrow> rel_ack \<Rightarrow> buffer \<Rightarrow> exn option \<times> rel_ack \<times> buffer" where
  "ra_prepend ackv1 a buf =
     (let max_acks = (if ackv1 then maximum_acks_ack_v1 else maximum_acks_control_v1)
      in case ra_prepend_fresh max_acks 0 (ra_data a) a buf of
           (Some e, _, a', buf') \<Rightarrow> (Some e, a', buf')
         | (None, n, a', buf') \<Rightarrow>
             (case ra_prepend_again max_acks n (ra_re_acks a') buf' of
                (Some e, _, buf'') \<Rightarrow> (Some e, a', buf'')
              | (None, n', buf'') \<Rightarrow>
                  (case buf_push_front (of_nat n') buf'' of
                     Inl e \<Rightarrow> (Some e, a', buf'')
                   | Inr buf3 \<Rightarrow> (None, a', buf3))))"

section \<open>Acknowledgements on the wire\<close>

definition ids_wire :: "u32 list \<Rightarrow> byte list" where
  "ids_wire is = concat (map (be_bytes 4) is)"

lemma ids_wire_simps [simp]:
  "ids_wire [] = []" "ids_wire (i # is) = be_bytes 4 i @ ids_wire is"
  "ids_wire (is @ js) = ids_wire is @ ids_wire js"
  by (simp_all add: ids_wire_def)

lemma length_ids_wire [simp]: "length (ids_wire is) = 4 * length is"
  by (induction "is") simp_all

lemma ra_prepend_id_ok:
  assumes "buf_wf buf" and "ra_prepend_id i buf = Inr buf'"
  shows "buf_wf buf' \<and> content buf' = be_bytes 4 i @ content buf \<and> b_capacity buf' = b_capacity buf"
proof -
  have "length (be_bytes 4 i) < sz_max" by (simp add: sz_max_def)
  with buf_prepend_Inr [OF assms(1), of "be_bytes 4 i" buf'] assms(2) show ?thesis
    by (simp add: ra_prepend_id_def)
qed

lemma ra_read_id_ok:
  assumes "buf_wf buf" and "content buf = be_bytes 4 i @ rest"
  shows "\<exists>buf'. ra_read_id buf = Inr (i, buf') \<and> buf_wf buf' \<and> content buf' = rest"
  using bq.rd_ok [OF assms(1), of 4] assms(2) by (auto simp: ra_read_id_def)

lemma ra_read_loop_ok:
  "buf_wf buf \<Longrightarrow> content buf = ids_wire is @ rest \<Longrightarrow>
     \<exists>buf'. ra_read_loop (length is) a buf = (None, a\<lparr>ra_data := ra_data a @ is\<rparr>, buf')
       \<and> buf_wf buf' \<and> content buf' = rest"
proof (induction "is" arbitrary: a buf)
  case Nil
  then show ?case by simp
next
  case (Cons i "is")
  then have "content buf = be_bytes 4 i @ (ids_wire is @ rest)" by simp
  from ra_read_id_ok [OF Cons.prems(1) this] obtain b where
    b: "ra_read_id buf = Inr (i, b)" "buf_wf b" "content b = ids_wire is @ rest" by blast
  from Cons.IH [OF b(2,3), of "ra_push_back i a"] b(1) show ?case by (auto simp: ra_push_back_def)
qed

lemma ra_prepend_fresh_ok:
  assumes "buf_wf buf" and "ra_prepend_fresh mx n data a buf = (None, n', a', buf')" and "n \<le> mx"
  shows "n' = n + min (mx - n) (length data) \<and> ra_data a' = drop (mx - n) data
    \<and> ra_re_acks a' = ra_re_acks (fold ra_add_ack_to_reack (take (mx - n) data) a)
    \<and> buf_wf buf' \<and> content buf' = ids_wire (rev (take (mx - n) data)) @ content buf"
  using assms
proof (induction data arbitrary: n a buf)
  case Nil
  then show ?case by auto
next
  case (Cons ack data)
  show ?case
  proof (cases "n < mx")
    case True
    then obtain b where b: "ra_prepend_id ack buf = Inr b"
      and r: "ra_prepend_fresh mx (Suc n) data (ra_add_ack_to_reack ack a) b = (None, n', a', buf')"
      using Cons.prems(2) by (auto split: sum.splits)
    note p = ra_prepend_id_ok [OF Cons.prems(1) b]
    obtain m where m: "mx - n = Suc m" "mx - Suc n = m" using True by (metis Suc_diff_Suc)
    from Cons.IH [OF _ r] p True m show ?thesis by auto
  next
    case False
    then show ?thesis using Cons.prems by auto
  qed
qed

declare ra_prepend_again.simps [simp del]

lemma ra_prepend_again_ok:
  assumes "buf_wf buf" and "ra_prepend_again mx n re buf = (None, n', buf')" and "n \<le> mx"
  shows "n \<le> n' \<and> n' \<le> mx \<and> n' - n = min (mx - n) (length re - n)
    \<and> buf_wf buf' \<and> content buf' = ids_wire (rev (take (mx - n) (drop n re))) @ content buf"
  using assms
proof (induction mx n re buf rule: ra_prepend_again.induct)
  case (1 mx n re buf)
  show ?case
  proof (cases "n < length re \<and> n < mx")
    case True
    then obtain b where b: "ra_prepend_id (re ! n) buf = Inr b"
      and r: "ra_prepend_again mx (Suc n) re b = (None, n', buf')"
      using "1.prems"(2) by (auto simp: ra_prepend_again.simps [of mx n re buf] split: sum.splits)
    note p = ra_prepend_id_ok [OF "1.prems"(1) b]
    obtain m where m: "mx - n = Suc m" "mx - Suc n = m" using True by (metis Suc_diff_Suc)
    have d: "drop n re = re ! n # drop (Suc n) re" using True by (simp add: Cons_nth_drop_Suc)
    have "Suc n \<le> mx" using True by simp
    note IH = "1.IH" [OF True b conjunct1 [OF p] r this]
    have "n' - n = Suc (n' - Suc n)" "length re - n = Suc (length re - Suc n)"
      using IH True by auto
    then show ?thesis using IH p m by (auto simp: d)
  next
    case False
    then have "n' = n \<and> buf' = buf" using "1.prems"(2)
      by (auto simp: ra_prepend_again.simps [of mx n re buf])
    then show ?thesis using False "1.prems" by auto
  qed
qed

subsection \<open>The queue of repeated acknowledgements\<close>

lemma take_remove1: "x \<notin> set (take n xs) \<Longrightarrow> n \<le> length (remove1 x xs) \<Longrightarrow> take n (remove1 x xs) = take n xs"
proof (induction xs arbitrary: n)
  case Nil
  then show ?case by simp
next
  case (Cons y xs)
  then show ?case by (cases n) auto
qed

lemma reack_step:
  assumes "distinct (ra_re_acks a)" and "length (ra_re_acks a) \<le> 8"
  shows "distinct (ra_re_acks (ra_add_ack_to_reack x a)) \<and> length (ra_re_acks (ra_add_ack_to_reack x a)) \<le> 8
    \<and> set (ra_re_acks (ra_add_ack_to_reack x a)) \<subseteq> insert x (set (ra_re_acks a))"
proof -
  let ?re = "x # remove1 x (ra_re_acks a)"
  have "distinct ?re" "length ?re \<le> 9" "set ?re \<subseteq> insert x (set (ra_re_acks a))"
    using assms by (auto simp: length_remove1 dest: set_remove1_subset [THEN subsetD])
  then show ?thesis
    by (auto simp: ra_add_ack_to_reack_def Let_def maximum_acks_ack_v1_def distinct_butlast
        dest: in_set_butlastD)
qed

lemma reack_fold:
  assumes "distinct (ra_re_acks a)" and "length (ra_re_acks a) \<le> 8" and "distinct xs" and "length xs \<le> 8"
  shows "let re = ra_re_acks (fold ra_add_ack_to_reack xs a)
    in distinct re \<and> length re \<le> 8 \<and> set re \<subseteq> set xs \<union> set (ra_re_acks a)
       \<and> length xs \<le> length re \<and> take (length xs) re = rev xs"
  using assms(3,4)
proof (induction xs rule: rev_induct)
  case Nil
  then show ?case using assms(1,2) by simp
next
  case (snoc x xs)
  define b where "b = fold ra_add_ack_to_reack xs a"
  have IH: "distinct (ra_re_acks b)" "length (ra_re_acks b) \<le> 8"
    "set (ra_re_acks b) \<subseteq> set xs \<union> set (ra_re_acks a)" "length xs \<le> length (ra_re_acks b)"
    "take (length xs) (ra_re_acks b) = rev xs"
    using snoc by (simp_all add: b_def Let_def)
  let ?r = "remove1 x (ra_re_acks b)" and ?c = "ra_re_acks (ra_add_ack_to_reack x b)"
  have nin: "x \<notin> set (take (length xs) (ra_re_acks b))" using IH(5) snoc.prems by simp
  have len: "length xs \<le> length ?r"
  proof (cases "x \<in> set (ra_re_acks b)")
    case True
    then have "length (ra_re_acks b) \<noteq> length xs" using nin by auto
    then show ?thesis using IH(4) by (auto simp: length_remove1)
  next
    case False
    then show ?thesis using IH(4) by (simp add: remove1_idem)
  qed
  have "take (length xs) ?r = rev xs" using take_remove1 [OF nin len] IH(5) by simp
  moreover have "length ?r \<le> 8" using IH(2) by (auto simp: length_remove1)
  ultimately have "length (xs @ [x]) \<le> length ?c \<and> take (length (xs @ [x])) ?c = rev (xs @ [x])"
    using len snoc.prems(2)
    by (auto simp: ra_add_ack_to_reack_def Let_def maximum_acks_ack_v1_def butlast_conv_take take_Suc_Cons min_def)
  with reack_step [OF IH(1,2), of x] IH(3) show ?case
    by (auto simp: b_def [symmetric] Let_def)
qed

lemma ra_prepend_content:
  assumes wf: "buf_wf buf" and ok: "ra_prepend ackv1 a buf = (None, a', buf')"
    and mx: "mx = (if ackv1 then maximum_acks_ack_v1 else maximum_acks_control_v1)"
  shows "\<exists>n. n = min mx (length (ra_data a)) \<and> ra_data a' = drop mx (ra_data a)
    \<and> ra_re_acks a' = ra_re_acks (fold ra_add_ack_to_reack (take mx (ra_data a)) a)
    \<and> buf_wf buf' \<and> content buf' = of_nat (length (take mx (ra_data a) @ take (mx - n) (drop n (ra_re_acks a'))))
        # ids_wire (rev (take mx (ra_data a) @ take (mx - n) (drop n (ra_re_acks a')))) @ content buf"
proof -
  obtain n b where f: "ra_prepend_fresh mx 0 (ra_data a) a buf = (None, n, a', b)"
    and r: "\<exists>n' c. ra_prepend_again mx n (ra_re_acks a') b = (None, n', c) \<and> buf_push_front (of_nat n') c = Inr buf'"
    using ok unfolding ra_prepend_def Let_def mx [symmetric]
    by (fastforce split: prod.splits option.splits sum.splits)
  obtain n' c where g: "ra_prepend_again mx n (ra_re_acks a') b = (None, n', c)"
    and p: "buf_push_front (of_nat n') c = Inr buf'" using r by blast
  note F = ra_prepend_fresh_ok [OF wf f le0, simplified]
  have nmx: "n \<le> mx" using F by simp
  note G = ra_prepend_again_ok [OF _ g nmx]
  have c: "buf_wf c" using F G by blast
  have "b_offset c > 0" using p by (auto simp: buf_push_front_def split: if_splits)
  from buf_push_front_eq [OF c this, of "of_nat n'"] p
  have P: "buf_wf buf' \<and> content buf' = of_nat n' # content c" by auto
  have n': "n' = length (take mx (ra_data a) @ take (mx - n) (drop n (ra_re_acks a')))"
  proof -
    have "buf_wf b" using F by blast
    with G have "n \<le> n'" "n' - n = min (mx - n) (length (ra_re_acks a') - n)" by blast+
    then have "n' = n + min (mx - n) (length (ra_re_acks a') - n)" by linarith
    then show ?thesis using F by (simp add: min.commute)
  qed
  have "content c = ids_wire (rev (take mx (ra_data a) @ take (mx - n) (drop n (ra_re_acks a')))) @ content buf"
    using F G by simp
  with F P n' show ?thesis by (intro exI [of _ n]) simp
qed

section \<open>Properties of the acknowledgements\<close>

text \<open>
  What one side prepends as acknowledgements the other side reads: the packet carries at most
  the protocol's maximum of IDs, no ID twice, all the oldest pending ones and otherwise only
  IDs that were pending or acknowledged recently; reading leaves exactly the payload behind,
  and the acknowledged IDs leave the pending queue. The queue of repeated acknowledgements
  stays duplicate-free and bounded by eight.
\<close>

lemma ra_prepend_read:
  assumes wf: "buf_wf buf" and ok: "ra_prepend ackv1 a buf = (None, a', buf')"
    and d: "distinct (ra_data a)" and re: "distinct (ra_re_acks a)" "length (ra_re_acks a) \<le> 8"
  shows "let mx = if ackv1 then maximum_acks_ack_v1 else maximum_acks_control_v1
    in \<exists>is buf''. ra_read \<lparr>ra_data = [], ra_re_acks = []\<rparr> buf' = (None, \<lparr>ra_data = is, ra_re_acks = []\<rparr>, buf'')
      \<and> content buf'' = content buf \<and> distinct is \<and> length is \<le> mx
      \<and> set (take mx (ra_data a)) \<subseteq> set is \<and> set is \<subseteq> set (ra_data a) \<union> set (ra_re_acks a)
      \<and> ra_data a' = drop mx (ra_data a) \<and> distinct (ra_re_acks a') \<and> length (ra_re_acks a') \<le> 8"
proof -
  define mx where "mx = (if ackv1 then maximum_acks_ack_v1 else maximum_acks_control_v1)"
  have mx8: "mx \<le> 8" by (simp add: mx_def maximum_acks_ack_v1_def maximum_acks_control_v1_def)
  define n where "n = min mx (length (ra_data a))"
  define xs where "xs = take mx (ra_data a)"
  define ys where "ys = take (mx - n) (drop n (ra_re_acks a'))"
  have C: "ra_data a' = drop mx (ra_data a)"
    "ra_re_acks a' = ra_re_acks (fold ra_add_ack_to_reack xs a)" "buf_wf buf'"
    "content buf' = of_nat (length (xs @ ys)) # ids_wire (rev (xs @ ys)) @ content buf"
    using ra_prepend_content [OF wf ok mx_def] unfolding xs_def ys_def n_def by auto
  have xs: "length xs = n" "distinct xs" "set xs \<subseteq> set (ra_data a)" "n \<le> mx"
    using d by (auto simp: xs_def n_def dest: in_set_takeD)
  have R: "distinct (ra_re_acks a')" "length (ra_re_acks a') \<le> 8"
    "set (ra_re_acks a') \<subseteq> set xs \<union> set (ra_re_acks a)" "take n (ra_re_acks a') = rev xs"
    using reack_fold [OF re xs(2)] xs(1,4) mx8 unfolding C(2) by (simp_all add: Let_def)
  have "distinct (take n (ra_re_acks a') @ drop n (ra_re_acks a'))" using R(1) by simp
  then have "set xs \<inter> set ys = {}" "distinct ys"
    unfolding R(4) by (auto simp: ys_def dest: in_set_takeD)
  then have dist: "distinct (rev (xs @ ys))" using xs(2) by auto
  have len: "length (xs @ ys) \<le> mx" using xs by (simp add: ys_def)
  have sub: "set ys \<subseteq> set (ra_re_acks a')" by (auto simp: ys_def dest: in_set_takeD in_set_dropD)
  have "length (xs @ ys) < 2 ^ LENGTH(8)" using len mx8 by simp
  then have lenb: "unat (of_nat (length (xs @ ys)) :: byte) = length (rev (xs @ ys))"
    by (simp only: unat_of_nat length_rev mod_less)
  have size: "b_size buf' \<noteq> 0" using length_content [OF C(3)] C(4) by (metis length_0_conv list.distinct(1))
  let ?b = "buf'\<lparr>b_offset := b_offset buf' + 1, b_size := b_size buf' - 1\<rparr>"
  have pop: "buf_pop_front buf' = Inr (of_nat (length (xs @ ys)), ?b)"
    using buf_pop_front_eq [OF C(3)] size C(4) by simp
  have "buf_wf ?b" "content ?b = ids_wire (rev (xs @ ys)) @ content buf"
    using wf_consume [OF C(3), of 1] size content_consume [of buf' 1] C(4) by simp_all
  from ra_read_loop_ok [OF this, of "\<lparr>ra_data = [], ra_re_acks = []\<rparr>"] obtain buf'' where
    "ra_read \<lparr>ra_data = [], ra_re_acks = []\<rparr> buf' = (None, \<lparr>ra_data = rev (xs @ ys), ra_re_acks = []\<rparr>, buf'')"
    "content buf'' = content buf" using pop lenb by (auto simp: ra_read_def)
  moreover have "set (rev (xs @ ys)) \<subseteq> set (ra_data a) \<union> set (ra_re_acks a)" using xs(3) R(3) sub by auto
  moreover have "set (take mx (ra_data a)) \<subseteq> set (rev (xs @ ys))" by (simp add: xs_def)
  ultimately show ?thesis using dist len C(1) R(1,2) unfolding Let_def mx_def [symmetric]
    by (metis length_rev)
qed

section \<open>Scanning the send window\<close>

text \<open>Both loops only grow the deque: to the slots they are invisible.\<close>

definition same_window :: "'p send_msg msg_window \<Rightarrow> 'p send_msg msg_window \<Rightarrow> bool" where
  "same_window w w' \<longleftrightarrow> mw_wf w' \<and> mw_head w' = mw_head w \<and> mw_span w' = mw_span w
     \<and> mw_slot send_dflt w' = mw_slot send_dflt w"

lemma same_window_step:
  assumes "mw_wf w" and "mw_in_window w i"
  shows "mw_ref_by_id send_dflt i w = Inr (unat (i - mw_head w), mw_grow send_dflt i w)
    \<and> mw_q (mw_grow send_dflt i w) ! unat (i - mw_head w) = mw_slot send_dflt w (unat i)
    \<and> same_window w (mw_grow send_dflt i w)"
  using assms mw_grow_nth [OF assms, of send_dflt] mw_grow_wf [OF assms, of send_dflt]
  by (simp add: mw_ref_by_id_def same_window_def)

lemma same_window_in: "same_window w w' \<Longrightarrow> mw_in_window w' i = mw_in_window w i"
  by (simp add: same_window_def mw_in_window_def)

lemma rs_ids_window:
  assumes "mw_wf (rs_window s)"
  shows "map unat (rs_ids s) = [unat (rs_head_id s)..<unat (rs_head_id s) + unat (mw_span (rs_window s))]"
    and "i \<in> set (rs_ids s) \<Longrightarrow> mw_in_window (rs_window s) i"
proof -
  let ?h = "unat (rs_head_id s)" and ?t = "unat (rs_tail_id s)"
  have t: "?t = ?h + unat (mw_span (rs_window s))"
    using mw_wf_tail [OF assms] by (simp add: rs_tail_id_def rs_head_id_def mw_tail_def)
  have "?t < 2 ^ LENGTH(32)" by (rule unsigned_less)
  then have u: "unat (of_nat k :: u32) = k" if "k < ?t" for k
    using that by (simp only: unat_of_nat mod_less)
  then show "map unat (rs_ids s) = [?h..<?h + unat (mw_span (rs_window s))]"
    unfolding rs_ids_def t [symmetric] by (auto intro: map_idI simp del: of_nat_unat)
  show "mw_in_window (rs_window s) i" if "i \<in> set (rs_ids s)"
    using that u t unfolding mw_in_window_iff [OF assms] by (auto simp: rs_ids_def rs_head_id_def)
qed

lemma rs_n_unacked_loop_ok:
  assumes "mw_wf w" and "\<forall>i\<in>set is. mw_in_window w i"
  shows "\<exists>w'. rs_n_unacked_loop is ret w
      = Inr (ret + of_nat (length (filter (\<lambda>i. msg_defined (mw_slot send_dflt w (unat i))) is)), w') \<and> same_window w w'"
  using assms
proof (induction "is" arbitrary: ret w)
  case Nil
  then show ?case by (simp add: same_window_def)
next
  case (Cons i "is")
  let ?w = "mw_grow send_dflt i w"
  have st: "mw_ref_by_id send_dflt i w = Inr (unat (i - mw_head w), ?w)"
    "mw_q ?w ! unat (i - mw_head w) = mw_slot send_dflt w (unat i)" "same_window w ?w"
    using same_window_step [of w i] Cons.prems by simp_all
  have "mw_wf ?w" "\<forall>i\<in>set is. mw_in_window ?w i" "mw_slot send_dflt ?w = mw_slot send_dflt w"
    using st(3) same_window_in [OF st(3)] Cons.prems by (simp_all add: same_window_def)
  with Cons.IH [of ?w "if msg_defined (mw_slot send_dflt w (unat i)) then ret + 1 else ret"] st show ?case
    by (auto simp: same_window_def add.assoc)
qed

lemma rs_until_retransmit_loop_ok:
  assumes "mw_wf w" and "\<forall>i\<in>set is. mw_in_window w i"
  shows "\<exists>ret' w'. rs_until_retransmit_loop now is ret w = Inr (ret', w') \<and> same_window w w'
    \<and> ret' = fold (\<lambda>m r. if msg_until_retransmit now m < r then msg_until_retransmit now m else r)
               (filter msg_defined (map (\<lambda>i. mw_slot send_dflt w (unat i)) is)) ret"
  using assms
proof (induction "is" arbitrary: ret w)
  case Nil
  then show ?case by (simp add: same_window_def)
next
  case (Cons i "is")
  let ?w = "mw_grow send_dflt i w"
  have st: "mw_ref_by_id send_dflt i w = Inr (unat (i - mw_head w), ?w)"
    "mw_q ?w ! unat (i - mw_head w) = mw_slot send_dflt w (unat i)" "same_window w ?w"
    using same_window_step [of w i] Cons.prems by simp_all
  have "mw_wf ?w" "\<forall>i\<in>set is. mw_in_window ?w i" "mw_slot send_dflt ?w = mw_slot send_dflt w"
    using st(3) same_window_in [OF st(3)] Cons.prems by (simp_all add: same_window_def)
  with Cons.IH [of ?w] st show ?case by (fastforce simp: same_window_def Let_def)
qed

lemma fold_min:
  fixes f :: "'m \<Rightarrow> 'b::linorder"
  shows "(let r' = fold (\<lambda>m r. if f m < r then f m else r) ms r
    in r' \<le> r \<and> (\<forall>m\<in>set ms. r' \<le> f m) \<and> (r' = r \<or> (\<exists>m\<in>set ms. r' = f m)))"
proof (induction ms arbitrary: r)
  case Nil
  then show ?case by simp
next
  case (Cons m ms)
  from Cons.IH [of "if f m < r then f m else r"] show ?case
    by (auto simp: Let_def split: if_splits intro: order_trans)
qed

lemma until_retransmit_zero: "msg_defined m \<Longrightarrow> msg_until_retransmit now m = 0 \<longleftrightarrow> msg_ready_retransmit now m"
  by (auto simp: msg_until_retransmit_def msg_ready_retransmit_def tm_minus_def dur_zero_def dur_infinite_def
      tm_infinite_def not_less)

text \<open>
  The scans of the send window never throw and change no message. The number of unacknowledged
  packets is the number of defined messages in the window; the time until retransmission is the least
  one of the defined messages (infinite when there is none), and zero exactly when a message is due.
\<close>

lemma rs_scan:
  assumes "mw_wf (rs_window s)"
  shows "let W = {i. unat (rs_head_id s) \<le> i \<and> i < unat (rs_head_id s) + unat (mw_span (rs_window s))
                     \<and> msg_defined (mw_slot send_dflt (rs_window s) i)};
             u = (\<lambda>i. msg_until_retransmit now (mw_slot send_dflt (rs_window s) i))
    in \<exists>n ret s1 s2. rs_n_unacked s = Inr (n, s1) \<and> unat n = card W
      \<and> rs_until_retransmit now s = Inr (ret, s2)
      \<and> rs_next s1 = rs_next s \<and> same_window (rs_window s) (rs_window s1)
      \<and> rs_next s2 = rs_next s \<and> same_window (rs_window s) (rs_window s2)
      \<and> (\<forall>i\<in>W. ret \<le> u i) \<and> (if W = {} then ret = dur_infinite else \<exists>i\<in>W. ret = u i)
      \<and> (ret = 0 \<longleftrightarrow> (\<exists>i\<in>W. msg_ready_retransmit now (mw_slot send_dflt (rs_window s) i)))"
proof -
  let ?sl = "mw_slot send_dflt (rs_window s)" and ?h = "unat (rs_head_id s)" and ?sp = "unat (mw_span (rs_window s))"
  define W where "W = {i. ?h \<le> i \<and> i < ?h + ?sp \<and> msg_defined (?sl i)}"
  define u where "u = (\<lambda>i. msg_until_retransmit now (?sl i))"
  note ids = rs_ids_window [OF assms]
  have fin: "finite W" unfolding W_def by (rule finite_subset [of _ "{..<?h + ?sp}"]) auto
  have Wset: "set (filter (\<lambda>i. msg_defined (?sl i)) [?h..<?h + ?sp]) = W" by (auto simp: W_def)
  have msgs: "map (\<lambda>i. ?sl (unat i)) (rs_ids s) = map ?sl [?h..<?h + ?sp]"
    unfolding ids(1) [symmetric] by simp
  have "length (filter (\<lambda>i. msg_defined (?sl (unat i))) (rs_ids s)) = length (filter (\<lambda>i. msg_defined (?sl i)) (map unat (rs_ids s)))"
    by (simp add: filter_map comp_def)
  also have "\<dots> = card W" unfolding ids(1) Wset [symmetric] by (rule distinct_card [symmetric]) simp
  finally have n: "length (filter (\<lambda>i. msg_defined (?sl (unat i))) (rs_ids s)) = card W" .
  have "card W \<le> card {?h..<?h + ?sp}" by (rule card_mono) (auto simp: W_def)
  also have "\<dots> < 2 ^ LENGTH(32)" by (simp add: unsigned_less [of "mw_span (rs_window s)", simplified])
  finally have cw: "unat (of_nat (card W) :: u32) = card W" by (simp only: unat_of_nat mod_less)
  obtain w1 where w1: "rs_n_unacked s = Inr (of_nat (card W), s\<lparr>rs_window := w1\<rparr>)" "same_window (rs_window s) w1"
    using rs_n_unacked_loop_ok [OF assms, of "rs_ids s" 0] ids(2) n by (auto simp: rs_n_unacked_def)
  let ?ms = "filter msg_defined (map ?sl [?h..<?h + ?sp])"
  define ret where "ret = fold (\<lambda>m r. if msg_until_retransmit now m < r then msg_until_retransmit now m else r) ?ms dur_infinite"
  obtain w2 where w2: "rs_until_retransmit now s = Inr (ret, s\<lparr>rs_window := w2\<rparr>)" "same_window (rs_window s) w2"
    using rs_until_retransmit_loop_ok [OF assms, of "rs_ids s" now dur_infinite] ids(2)
    unfolding msgs ret_def by (auto simp: rs_until_retransmit_def)
  have set_ms: "set ?ms = ?sl ` W" by (auto simp: W_def)
  have R: "\<forall>i\<in>W. ret \<le> u i" "ret = dur_infinite \<or> (\<exists>i\<in>W. ret = u i)"
    using fold_min [of "msg_until_retransmit now" ?ms dur_infinite] unfolding ret_def [symmetric] Let_def set_ms u_def by auto
  have inf: "x \<le> dur_infinite" for x :: u64 by (simp add: dur_infinite_def)
  have R2: "if W = {} then ret = dur_infinite else \<exists>i\<in>W. ret = u i"
    using R inf by (metis (no_types, lifting) antisym empty_iff equals0I)
  have "dur_infinite \<noteq> (0 :: u64)" by (simp add: dur_infinite_def)
  then have "ret = 0 \<longleftrightarrow> (\<exists>i\<in>W. u i = 0)" using R R2 by (metis empty_iff word_le_0_iff)
  also have "\<dots> \<longleftrightarrow> (\<exists>i\<in>W. msg_ready_retransmit now (?sl i))"
    by (rule bex_cong [OF refl]) (simp add: u_def W_def until_retransmit_zero)
  finally show ?thesis using w1 w2 cw R(1) R2 unfolding Let_def W_def [symmetric] u_def [symmetric] by auto
qed

end
