(* ===== verification/Reliable_Channel.thy ===== *)
theory Reliable_Channel
  imports Reliable
begin

text \<open>
  Two ends of the reliability layer joined by a network that loses, repeats and reorders packets
  and acknowledgements. The steps are the calls of reliable/relsend.hpp and reliable/relrecv.hpp in
  the order in which ssl/protostack.hpp makes them: a new message is sent only when the send window
  is ready, a received packet is acknowledged when the receive flags say so, the head of the receive
  window is handed up when it is ready, and a message that is due is sent again. The theorems say
  that what is handed up is a prefix of what was sent, that no message is lost, and that every
  reachable state can still deliver everything.
\<close>

section \<open>Slot-level behaviour of the windows\<close>

lemma mw_assign_assign [simp]: "mw_assign k m' (mw_assign k m w) = mw_assign k m' w"
  by (simp add: mw_assign_def)

lemma mw_q_assign [simp]: "k < length (mw_q w) \<Longrightarrow> mw_q (mw_assign k m w) ! k = m"
  by (simp add: mw_assign_def)

lemma mw_grow_index [simp]: "unat (i - mw_head w) < length (mw_q (mw_grow dflt i w))"
  by (simp add: mw_grow_length less_max_iff_disj)

definition rs_send_packet :: "u64 \<Rightarrow> u64 \<Rightarrow> 'p \<Rightarrow> 'p rel_send \<Rightarrow> 'p rel_send result" where
  "rs_send_packet now tls_timeout p s =
     bindR (rs_send now tls_timeout s) (\<lambda>(k, s'). Inr (rs_set_packet k p s'))"

text \<open>One round of the loop of \<open>ProtoStackBase::retransmit\<close>, for the message with ID \<open>i\<close>.\<close>

definition rs_retransmit_msg ::
  "u64 \<Rightarrow> u64 \<Rightarrow> u32 \<Rightarrow> 'p rel_send \<Rightarrow> ((u32 \<times> 'p option) option \<times> 'p rel_send) result" where
  "rs_retransmit_msg now tls_timeout i s =
     bindR (mw_ref_by_id send_dflt i (rs_window s)) (\<lambda>(k, w).
       let m = mw_q w ! k
       in Inr (if msg_ready_retransmit now m
               then (Some (m_id m, m_packet m),
                     s\<lparr>rs_window := mw_assign k (msg_reset_retransmit now tls_timeout m) w\<rparr>)
               else (None, s\<lparr>rs_window := w\<rparr>)))"

lemma rs_send_packet_spec:
  assumes "mw_wf (rs_window s)" and "rs_ready s"
  shows "\<exists>s' r. rs_send_packet now tmo p s = Inr s' \<and> rs_next s' = rs_next s + 1
    \<and> mw_wf (rs_window s') \<and> mw_head (rs_window s') = mw_head (rs_window s)
    \<and> mw_span (rs_window s') = mw_span (rs_window s)
    \<and> (\<forall>j\<ge>unat (mw_head (rs_window s)). mw_slot send_dflt (rs_window s') j =
         (if j = unat (rs_next s)
          then (mw_slot send_dflt (rs_window s) j)\<lparr>m_id := rs_next s, m_retransmit_at := r, m_packet := Some p\<rparr>
          else mw_slot send_dflt (rs_window s) j))"
proof -
  let ?w = "rs_window s" and ?i = "rs_next s"
  have inw: "mw_in_window ?w ?i" using assms(2) by (simp add: rs_ready_def)
  let ?k = "unat (?i - mw_head ?w)" and ?g = "mw_grow send_dflt ?i ?w"
  let ?m = "(mw_slot send_dflt ?w (unat ?i))\<lparr>m_id := ?i, m_retransmit_at := tm_plus now tmo, m_packet := Some p\<rparr>"
  have "rs_send_packet now tmo p s = Inr (s\<lparr>rs_next := ?i + 1, rs_window := mw_assign ?k ?m ?g\<rparr>)"
    using inw mw_grow_nth [OF assms(1) inw, of send_dflt]
    by (simp add: rs_send_packet_def rs_send_def rs_set_packet_def mw_ref_by_id_def msg_reset_retransmit_def)
  then show ?thesis
    using mw_grow_wf [OF assms(1) inw] mw_assign_slot [OF assms(1) inw, of _ send_dflt ?m]
    by (intro exI [of _ "s\<lparr>rs_next := ?i + 1, rs_window := mw_assign ?k ?m ?g\<rparr>"] exI [of _ "tm_plus now tmo"]) simp
qed

lemma rs_ack_spec:
  fixes s :: "'p rel_send" and i :: u32
  assumes wf: "mw_wf (rs_window s)"
    and room: "unat (mw_head (rs_window s)) + 2 * unat (mw_span (rs_window s)) < 2 ^ 32"
  defines "head \<equiv> unat (mw_head (rs_window s))" and "head' \<equiv> unat (mw_head (rs_window (rs_ack i s)))"
    and "sl \<equiv> (\<lambda>j. if j = unat i then msg_erase (mw_slot send_dflt (rs_window s) j) else mw_slot send_dflt (rs_window s) j)"
  shows "rs_next (rs_ack i s) = rs_next s \<and> mw_wf (rs_window (rs_ack i s)) \<and> head \<le> head'
    \<and> mw_span (rs_window (rs_ack i s)) = mw_span (rs_window s)
    \<and> (\<forall>j\<ge>head'. j < head + unat (mw_span (rs_window s)) \<longrightarrow> mw_slot send_dflt (rs_window (rs_ack i s)) j = sl j)
    \<and> (\<forall>j\<ge>head'. head + unat (mw_span (rs_window s)) \<le> j \<longrightarrow>
          mw_slot send_dflt (rs_window (rs_ack i s)) j = mw_slot send_dflt (rs_window s) j)
    \<and> (\<forall>j\<ge>head. j < head' \<longrightarrow> m_erased (sl j))"
proof -
  let ?w = "rs_window s"
  define w1 where "w1 = (if mw_in_window ?w i
      then mw_assign (unat (i - mw_head ?w)) (msg_erase (mw_q (mw_grow send_dflt i ?w) ! unat (i - mw_head ?w)))
             (mw_grow send_dflt i ?w) else ?w)"
  have eq: "rs_window (rs_ack i s) = mw_purge w1"
    by (simp add: rs_ack_def mw_rm_by_id_def w1_def Let_def)
  have w1: "mw_wf w1" "mw_head w1 = mw_head ?w" "mw_span w1 = mw_span ?w"
    using wf mw_grow_wf [OF wf] by (auto simp: w1_def)
  have len: "length (mw_q w1) \<le> unat (mw_span ?w)" using w1 by (simp add: mw_wf_def)
  have sl1: "mw_slot send_dflt w1 j = (if mw_in_window ?w i then sl j else mw_slot send_dflt ?w j)"
    if "head \<le> j" for j
    using that mw_assign_slot [OF wf, of i j send_dflt] mw_grow_nth [OF wf, of i send_dflt]
    by (auto simp: w1_def sl_def head_def)
  have out: "sl j = mw_slot send_dflt ?w j" if "\<not> mw_in_window ?w i" "head \<le> j" "j < head + unat (mw_span ?w)" for j
    using that mw_in_window_iff [OF wf, of i] by (auto simp: sl_def head_def)
  have above: "sl j = mw_slot send_dflt ?w j" if "mw_in_window ?w i" "head + unat (mw_span ?w) \<le> j" for j
    using that mw_in_window_iff [OF wf, of i] by (auto simp: sl_def head_def)
  have "unat (mw_head w1) + length (mw_q w1) + unat (mw_span w1) < 2 ^ 32" using w1 room len by simp
  note P = mw_purge_spec [OF w1(1) this, of send_dflt]
  have P1: "head \<le> head'" "mw_span (mw_purge w1) = mw_span ?w" "mw_wf (mw_purge w1)"
    "\<And>j. head' \<le> j \<Longrightarrow> mw_slot send_dflt (mw_purge w1) j = mw_slot send_dflt w1 j"
    "\<And>j. head \<le> j \<Longrightarrow> j < head' \<Longrightarrow> m_erased (mw_slot send_dflt w1 j)"
    using P w1 unfolding head_def head'_def eq by auto
  have top: "head' \<le> head + unat (mw_span ?w)"
  proof (rule ccontr)
    assume "\<not> head' \<le> head + unat (mw_span ?w)"
    then have "m_erased (mw_slot send_dflt w1 (head + unat (mw_span ?w)))" using P1(5) by simp
    then show False using len w1(2) by (simp add: mw_slot_def head_def send_dflt_def)
  qed
  have er: "m_erased (sl j)" if "head \<le> j" "j < head'" for j
    using P1(5) [OF that] sl1 [OF that(1)] out that top by (cases "mw_in_window ?w i") auto
  have low: "mw_slot send_dflt (mw_purge w1) j = sl j" if "head' \<le> j" "j < head + unat (mw_span ?w)" for j
    using P1(1,4) that sl1 [of j] out [of j] by (cases "mw_in_window ?w i") auto
  have high: "mw_slot send_dflt (mw_purge w1) j = mw_slot send_dflt ?w j"
    if "head' \<le> j" "head + unat (mw_span ?w) \<le> j" for j
    using P1(1,4) that sl1 [of j] above [of j] by (cases "mw_in_window ?w i") auto
  show ?thesis using P1(1-3) er low high unfolding eq by (simp add: rs_ack_def)
qed

lemma rr_receive_spec:
  assumes "mw_wf s"
  shows "\<exists>fl s'. rr_receive (Some p) i s = Inr (fl, s') \<and> mw_wf s' \<and> mw_head s' = mw_head s \<and> mw_span s' = mw_span s
    \<and> (\<forall>j\<ge>unat (mw_head s). mw_slot recv_dflt s' j =
         (if mw_in_window s i \<and> j = unat i
          then (mw_slot recv_dflt s j)\<lparr>m_id := i, m_packet := Some p\<rparr> else mw_slot recv_dflt s j))
    \<and> fl = (if mw_in_window s i then ACK_TO_SENDER OR IN_WINDOW else if mw_pre_window s i then ACK_TO_SENDER else 0)"
proof (cases "mw_in_window s i")
  case True
  let ?k = "unat (i - mw_head s)" and ?g = "mw_grow recv_dflt i s"
  let ?m = "(mw_slot recv_dflt s (unat i))\<lparr>m_id := i, m_packet := Some p\<rparr>"
  have "rr_receive (Some p) i s = Inr (ACK_TO_SENDER OR IN_WINDOW, mw_assign ?k ?m ?g)"
    using True mw_grow_nth [OF assms True, of recv_dflt] by (simp add: rr_receive_def mw_ref_by_id_def)
  then show ?thesis
    using True mw_grow_wf [OF assms True] mw_assign_slot [OF assms True, of _ recv_dflt ?m] by simp
next
  case False
  then show ?thesis using assms by (simp add: rr_receive_def)
qed

lemma rs_retransmit_msg_spec:
  assumes "mw_wf (rs_window s)" and "rs_retransmit_msg now tmo i s = Inr (o', s')"
  shows "rs_next s' = rs_next s \<and> mw_wf (rs_window s') \<and> mw_head (rs_window s') = mw_head (rs_window s)
    \<and> mw_span (rs_window s') = mw_span (rs_window s)
    \<and> (\<forall>j\<ge>unat (mw_head (rs_window s)). \<exists>r. mw_slot send_dflt (rs_window s') j =
         (mw_slot send_dflt (rs_window s) j)\<lparr>m_retransmit_at := r\<rparr>)
    \<and> mw_in_window (rs_window s) i
    \<and> (\<forall>x. o' = Some x \<longrightarrow> (let m = mw_slot send_dflt (rs_window s) (unat i)
                          in x = (m_id m, m_packet m) \<and> msg_defined m))"
proof -
  let ?w = "rs_window s"
  let ?m = "mw_slot send_dflt ?w (unat i)"
  have inw: "mw_in_window ?w i"
    using assms(2) by (auto simp: rs_retransmit_msg_def mw_ref_by_id_def split: if_splits)
  let ?k = "unat (i - mw_head ?w)" and ?g = "mw_grow send_dflt i ?w"
  have o: "o' = (if msg_ready_retransmit now ?m then Some (m_id ?m, m_packet ?m) else None)"
    and s': "s' = s\<lparr>rs_window := (if msg_ready_retransmit now ?m then mw_assign ?k (msg_reset_retransmit now tmo ?m) ?g else ?g)\<rparr>"
    using assms(2) inw mw_grow_nth [OF assms(1) inw, of send_dflt]
    by (auto simp: rs_retransmit_msg_def mw_ref_by_id_def Let_def)
  have id: "\<exists>r. m = m\<lparr>m_retransmit_at := r\<rparr>" for m :: "'a send_msg"
    by (rule exI [of _ "m_retransmit_at m"]) simp
  have "\<exists>r. mw_slot send_dflt (rs_window s') j = (mw_slot send_dflt ?w j)\<lparr>m_retransmit_at := r\<rparr>"
    if "unat (mw_head ?w) \<le> j" for j
    using mw_assign_slot [OF assms(1) inw that, of send_dflt "msg_reset_retransmit now tmo ?m"] id
    unfolding s' by (auto simp: msg_reset_retransmit_def)
  then show ?thesis
    using inw mw_grow_wf [OF assms(1) inw] unfolding s' o
    by (auto simp: Let_def msg_ready_retransmit_def)
qed

section \<open>The channel\<close>

text \<open>
  \<open>c_net\<close> holds the packets that the network may still deliver, \<open>c_acks\<close> the acknowledgements;
  delivering does not remove them (repetition), and they may vanish at any time (loss).
  \<open>c_sent\<close> and \<open>c_delivered\<close> record the messages given to and obtained from the layer.
\<close>

record 'p channel =
  c_send :: "'p rel_send"
  c_recv :: "'p rel_recv"
  c_net :: "(u32 \<times> 'p) set"
  c_acks :: "u32 set"
  c_sent :: "'p list"
  c_delivered :: "'p list"

definition channel_init :: "u32 \<Rightarrow> u32 \<Rightarrow> u32 \<Rightarrow> 'p channel" where
  "channel_init start_at send_span recv_span =
     \<lparr>c_send = rs_init send_span start_at, c_recv = rr_init recv_span start_at,
      c_net = {}, c_acks = {}, c_sent = [], c_delivered = []\<rparr>"

inductive channel_step :: "'p channel \<Rightarrow> 'p channel \<Rightarrow> bool" where
  send: "rs_ready (c_send s) \<Longrightarrow> rs_send_packet now tmo p (c_send s) = Inr snd' \<Longrightarrow>
    channel_step s (s\<lparr>c_send := snd', c_net := insert (rs_next (c_send s), p) (c_net s),
                      c_sent := c_sent s @ [p]\<rparr>)"
| retransmit: "rs_retransmit_msg now tmo i (c_send s) = Inr (Some (j, Some p), snd') \<Longrightarrow>
    channel_step s (s\<lparr>c_send := snd', c_net := insert (j, p) (c_net s)\<rparr>)"
| receive: "(i, p) \<in> c_net s \<Longrightarrow> rr_receive (Some p) i (c_recv s) = Inr (fl, rcv') \<Longrightarrow>
    channel_step s (s\<lparr>c_recv := rcv',
      c_acks := (if fl AND ACK_TO_SENDER \<noteq> 0 then insert i (c_acks s) else c_acks s)\<rparr>)"
| up: "rr_ready (c_recv s) \<Longrightarrow> rr_next_sequenced (c_recv s) = Inr m \<Longrightarrow> m_packet m = Some p \<Longrightarrow>
    rr_advance (c_recv s) = Inr rcv' \<Longrightarrow>
    channel_step s (s\<lparr>c_recv := rcv', c_delivered := c_delivered s @ [p]\<rparr>)"
| ack: "i \<in> c_acks s \<Longrightarrow> channel_step s (s\<lparr>c_send := rs_ack i (c_send s)\<rparr>)"
| lose_packet: "channel_step s (s\<lparr>c_net := c_net s - {x}\<rparr>)"
| lose_ack: "channel_step s (s\<lparr>c_acks := c_acks s - {i}\<rparr>)"

inductive_cases channel_stepE: "channel_step s s'"

abbreviation channel_steps :: "'p channel \<Rightarrow> 'p channel \<Rightarrow> bool" where
  "channel_steps \<equiv> channel_step\<^sup>*\<^sup>*"

section \<open>The invariant\<close>

abbreviation (input) snd_slot :: "'p channel \<Rightarrow> nat \<Rightarrow> 'p send_msg" where
  "snd_slot s \<equiv> mw_slot send_dflt (rs_window (c_send s))"

abbreviation (input) rcv_slot :: "'p channel \<Rightarrow> nat \<Rightarrow> 'p rel_msg" where
  "rcv_slot s \<equiv> mw_slot recv_dflt (c_recv s)"

abbreviation (input) snd_head :: "'p channel \<Rightarrow> nat" where
  "snd_head s \<equiv> unat (mw_head (rs_window (c_send s)))"

definition received :: "nat \<Rightarrow> 'p channel \<Rightarrow> nat \<Rightarrow> bool" where
  "received n0 s i \<longleftrightarrow> i < n0 + length (c_delivered s) \<or> m_packet (rcv_slot s i) \<noteq> None"

text \<open>No ID wraps as long as this holds: 32-bit IDs, of which the session uses one per message.\<close>

definition ids_in_range :: "nat \<Rightarrow> nat \<Rightarrow> nat \<Rightarrow> 'p channel \<Rightarrow> bool" where
  "ids_in_range n0 ss sr s \<longleftrightarrow> n0 + length (c_sent s) + 2 * ss + sr < 2 ^ 32"

definition inv_send :: "nat \<Rightarrow> nat \<Rightarrow> 'p channel \<Rightarrow> bool" where
  "inv_send n0 ss s \<longleftrightarrow> mw_wf (rs_window (c_send s)) \<and> unat (mw_span (rs_window (c_send s))) = ss
    \<and> unat (rs_next (c_send s)) = n0 + length (c_sent s)
    \<and> n0 \<le> snd_head s \<and> snd_head s \<le> n0 + length (c_sent s) \<and> n0 + length (c_sent s) \<le> snd_head s + ss
    \<and> (\<forall>i. n0 \<le> i \<longrightarrow> i < snd_head s \<longrightarrow> received n0 s i)
    \<and> (\<forall>i. snd_head s \<le> i \<longrightarrow> i < n0 + length (c_sent s) \<longrightarrow>
          (m_erased (snd_slot s i) \<and> m_packet (snd_slot s i) = None \<and> received n0 s i)
          \<or> (\<not> m_erased (snd_slot s i) \<and> m_packet (snd_slot s i) = Some (c_sent s ! (i - n0))
              \<and> unat (m_id (snd_slot s i)) = i))
    \<and> (\<forall>i. n0 + length (c_sent s) \<le> i \<longrightarrow> \<not> m_erased (snd_slot s i) \<and> m_packet (snd_slot s i) = None)"

definition inv_recv :: "nat \<Rightarrow> nat \<Rightarrow> 'p channel \<Rightarrow> bool" where
  "inv_recv n0 sr s \<longleftrightarrow> mw_wf (c_recv s) \<and> unat (mw_span (c_recv s)) = sr
    \<and> unat (mw_head (c_recv s)) = n0 + length (c_delivered s)
    \<and> length (c_delivered s) \<le> length (c_sent s)
    \<and> c_delivered s = take (length (c_delivered s)) (c_sent s)
    \<and> (\<forall>i. n0 + length (c_delivered s) \<le> i \<longrightarrow> m_packet (rcv_slot s i) \<noteq> None \<longrightarrow>
          i < n0 + length (c_sent s) \<and> m_packet (rcv_slot s i) = Some (c_sent s ! (i - n0)))"

definition inv_wire :: "nat \<Rightarrow> 'p channel \<Rightarrow> bool" where
  "inv_wire n0 s \<longleftrightarrow>
     (\<forall>i p. (i, p) \<in> c_net s \<longrightarrow>
        n0 \<le> unat i \<and> unat i < n0 + length (c_sent s) \<and> p = c_sent s ! (unat i - n0))
   \<and> (\<forall>i \<in> c_acks s. n0 \<le> unat i \<and> unat i < n0 + length (c_sent s) \<and> received n0 s (unat i))"

definition channel_inv :: "nat \<Rightarrow> nat \<Rightarrow> nat \<Rightarrow> 'p channel \<Rightarrow> bool" where
  "channel_inv n0 ss sr s \<longleftrightarrow> inv_send n0 ss s \<and> inv_recv n0 sr s \<and> inv_wire n0 s"

lemma channel_inv_init:
  assumes "unat a + 2 * unat ss + unat sr < 2 ^ 32"
  shows "channel_inv (unat a) (unat ss) (unat sr) (channel_init a ss sr)"
  using assms by (auto simp: channel_inv_def inv_send_def inv_recv_def inv_wire_def channel_init_def
      rs_init_def rr_init_def mw_init_def mw_wf_def mw_slot_def send_dflt_def recv_dflt_def)

text \<open>Steps that leave the receiver alone keep what has been received.\<close>

lemma received_cong:
  "c_recv s' = c_recv s \<Longrightarrow> c_delivered s' = c_delivered s \<Longrightarrow> received n0 s' = received n0 s"
  by (rule ext) (simp add: received_def)

lemma inv_step_send:
  assumes inv: "channel_inv n0 ss sr s" and rdy: "rs_ready (c_send s)"
    and snd: "rs_send_packet now tmo p (c_send s) = Inr snd'"
    and rng: "n0 + length (c_sent s) + 1 < 2 ^ 32"
  shows "channel_inv n0 ss sr (s\<lparr>c_send := snd', c_net := insert (rs_next (c_send s), p) (c_net s), c_sent := c_sent s @ [p]\<rparr>)"
    (is "channel_inv _ _ _ ?s'")
proof -
  let ?w = "rs_window (c_send s)" and ?N = "n0 + length (c_sent s)"
  have I: "inv_send n0 ss s" "inv_recv n0 sr s" "inv_wire n0 s" using inv by (simp_all add: channel_inv_def)
  have wf: "mw_wf ?w" and nx: "unat (rs_next (c_send s)) = ?N" using I(1) by (simp_all add: inv_send_def)
  obtain r where S: "rs_next snd' = rs_next (c_send s) + 1" "mw_wf (rs_window snd')"
    "mw_head (rs_window snd') = mw_head ?w" "mw_span (rs_window snd') = mw_span ?w"
    "\<And>j. unat (mw_head ?w) \<le> j \<Longrightarrow> mw_slot send_dflt (rs_window snd') j =
       (if j = ?N then (mw_slot send_dflt ?w j)\<lparr>m_id := rs_next (c_send s), m_retransmit_at := r, m_packet := Some p\<rparr>
        else mw_slot send_dflt ?w j)"
    using rs_send_packet_spec [OF wf rdy, of now tmo p] snd nx by auto
  have nx': "unat (rs_next snd') = ?N + 1" using unat_inc_bound(1) [of "rs_next (c_send s)"] nx rng S(1) by simp
  have rc: "received n0 ?s' = received n0 s" by (rule received_cong) simp_all
  have "?N < snd_head s + ss" using rdy mw_in_window_iff [OF wf] nx I(1) by (auto simp: rs_ready_def inv_send_def)
  then have "inv_send n0 ss ?s'"
    using I(1) S nx nx' unfolding inv_send_def rc by (auto simp: nth_append le_Suc_eq less_Suc_eq)
  moreover have "inv_recv n0 sr ?s'" using I(2) unfolding inv_recv_def by (auto simp: nth_append)
  moreover have "inv_wire n0 ?s'" using I(3) nx unfolding inv_wire_def rc by (fastforce simp: nth_append)
  ultimately show ?thesis by (simp add: channel_inv_def)
qed

lemma inv_step_retransmit:
  assumes inv: "channel_inv n0 ss sr s"
    and re: "rs_retransmit_msg now tmo i (c_send s) = Inr (Some (j, Some p), snd')"
  shows "channel_inv n0 ss sr (s\<lparr>c_send := snd', c_net := insert (j, p) (c_net s)\<rparr>)" (is "channel_inv _ _ _ ?s'")
proof -
  let ?w = "rs_window (c_send s)"
  have I: "inv_send n0 ss s" "inv_recv n0 sr s" "inv_wire n0 s" using inv by (simp_all add: channel_inv_def)
  have wf: "mw_wf ?w" using I(1) by (simp add: inv_send_def)
  note R = rs_retransmit_msg_spec [OF wf re]
  have slot: "m_packet (mw_slot send_dflt (rs_window snd') k) = m_packet (mw_slot send_dflt ?w k)
      \<and> m_erased (mw_slot send_dflt (rs_window snd') k) = m_erased (mw_slot send_dflt ?w k)
      \<and> m_id (mw_slot send_dflt (rs_window snd') k) = m_id (mw_slot send_dflt ?w k)" if "snd_head s \<le> k" for k
  proof -
    obtain r where "mw_slot send_dflt (rs_window snd') k = (mw_slot send_dflt ?w k)\<lparr>m_retransmit_at := r\<rparr>"
      using R \<open>snd_head s \<le> k\<close> by blast
    then show ?thesis by simp
  qed
  have rc: "received n0 ?s' = received n0 s" by (rule received_cong) simp_all
  have "inv_send n0 ss ?s'" using I(1) R slot unfolding inv_send_def rc by auto
  moreover have "inv_recv n0 sr ?s'" using I(2) unfolding inv_recv_def by simp
  moreover have "inv_wire n0 ?s'"
  proof -
    have m: "j = m_id (snd_slot s (unat i))" "m_packet (snd_slot s (unat i)) = Some p" "snd_head s \<le> unat i"
      using R mw_in_window_iff [OF wf, of i] by (simp_all add: Let_def)
    have "unat i < n0 + length (c_sent s)" using I(1) m(2) unfolding inv_send_def by (metis linorder_not_le option.distinct(1))
    with I(1) m have "unat j = unat i" "p = c_sent s ! (unat i - n0)" "n0 \<le> unat i"
      unfolding inv_send_def by fastforce+
    with \<open>unat i < _\<close> I(3) show ?thesis unfolding inv_wire_def rc by auto
  qed
  ultimately show ?thesis by (simp add: channel_inv_def)
qed

lemma inv_step_receive:
  assumes inv: "channel_inv n0 ss sr s" and net: "(i, p) \<in> c_net s"
    and rv: "rr_receive (Some p) i (c_recv s) = Inr (fl, rcv')"
  shows "channel_inv n0 ss sr (s\<lparr>c_recv := rcv',
      c_acks := (if fl AND ACK_TO_SENDER \<noteq> 0 then insert i (c_acks s) else c_acks s)\<rparr>)" (is "channel_inv _ _ _ ?s'")
proof -
  have I: "inv_send n0 ss s" "inv_recv n0 sr s" "inv_wire n0 s" using inv by (simp_all add: channel_inv_def)
  have wf: "mw_wf (c_recv s)" and hd: "unat (mw_head (c_recv s)) = n0 + length (c_delivered s)"
    using I(2) by (simp_all add: inv_recv_def)
  have i: "n0 \<le> unat i" "unat i < n0 + length (c_sent s)" "p = c_sent s ! (unat i - n0)"
    using I(3) net by (auto simp: inv_wire_def)
  have R: "mw_wf rcv'" "mw_head rcv' = mw_head (c_recv s)" "mw_span rcv' = mw_span (c_recv s)"
    "\<And>j. n0 + length (c_delivered s) \<le> j \<Longrightarrow> mw_slot recv_dflt rcv' j =
         (if mw_in_window (c_recv s) i \<and> j = unat i
          then (mw_slot recv_dflt (c_recv s) j)\<lparr>m_id := i, m_packet := Some p\<rparr> else mw_slot recv_dflt (c_recv s) j)"
    "fl = (if mw_in_window (c_recv s) i then ACK_TO_SENDER OR IN_WINDOW
           else if mw_pre_window (c_recv s) i then ACK_TO_SENDER else 0)"
    using rr_receive_spec [OF wf, of p i] rv hd by auto
  have mono: "received n0 ?s' k" if "received n0 s k" for k
    using that R(4) [of k] by (cases "n0 + length (c_delivered s) \<le> k") (auto simp: received_def)
  have own: "received n0 ?s' (unat i)" if "fl AND ACK_TO_SENDER \<noteq> 0"
  proof (cases "mw_in_window (c_recv s) i")
    case True
    then show ?thesis using R(4) [of "unat i"] hd by (simp add: received_def mw_in_window_def word_le_nat_alt)
  next
    case False
    then have "mw_pre_window (c_recv s) i" using that R(5) by (auto split: if_splits)
    then show ?thesis using hd by (simp add: received_def mw_pre_window_def word_less_nat_alt)
  qed
  have "inv_send n0 ss ?s'" using I(1) mono unfolding inv_send_def by auto
  moreover have "inv_recv n0 sr ?s'" using I(2) R(1-4) i unfolding inv_recv_def by auto
  moreover have "inv_wire n0 ?s'" using I(3) mono own i(1,2) unfolding inv_wire_def by auto
  ultimately show ?thesis by (simp add: channel_inv_def)
qed

lemma inv_step_up:
  assumes inv: "channel_inv n0 ss sr s" and rng: "ids_in_range n0 ss sr s"
    and nx: "rr_next_sequenced (c_recv s) = Inr m" and m: "m_packet m = Some p"
    and adv: "rr_advance (c_recv s) = Inr rcv'"
  shows "channel_inv n0 ss sr (s\<lparr>c_recv := rcv', c_delivered := c_delivered s @ [p]\<rparr>)" (is "channel_inv _ _ _ ?s'")
proof -
  let ?D = "n0 + length (c_delivered s)"
  have I: "inv_send n0 ss s" "inv_recv n0 sr s" "inv_wire n0 s" using inv by (simp_all add: channel_inv_def)
  have wf: "mw_wf (c_recv s)" and hd: "unat (mw_head (c_recv s)) = ?D" using I(2) by (simp_all add: inv_recv_def)
  have "rcv_slot s ?D = m"
    using nx hd by (auto simp: rr_next_sequenced_def mw_ref_head_def mw_slot_def split: list.splits)
  then have D: "length (c_delivered s) < length (c_sent s)" "p = c_sent s ! length (c_delivered s)"
    using I(2) m unfolding inv_recv_def by (fastforce dest: spec [of _ ?D])+
  have A: "mw_wf rcv'" "unat (mw_head rcv') = ?D + 1" "mw_span rcv' = mw_span (c_recv s)"
    "\<And>j. ?D < j \<Longrightarrow> mw_slot recv_dflt rcv' j = mw_slot recv_dflt (c_recv s) j"
    using mw_rm_head_spec [OF wf, of rcv' recv_dflt] adv hd D rng I(2)
    by (auto simp: rr_advance_def ids_in_range_def inv_recv_def)
  have mono: "received n0 ?s' k" if "received n0 s k" for k
    using that A(4) [of k] by (cases "?D < k") (auto simp: received_def)
  have "inv_send n0 ss ?s'" using I(1) mono unfolding inv_send_def by auto
  moreover have "inv_recv n0 sr ?s'"
  proof -
    have "c_delivered s @ [p] = take (Suc (length (c_delivered s))) (c_sent s)"
      using I(2) D by (metis inv_recv_def take_Suc_conv_app_nth)
    then show ?thesis using I(2) D A unfolding inv_recv_def by auto
  qed
  moreover have "inv_wire n0 ?s'" using I(3) mono unfolding inv_wire_def by auto
  ultimately show ?thesis by (simp add: channel_inv_def)
qed

lemma inv_step_ack:
  assumes inv: "channel_inv n0 ss sr s" and rng: "ids_in_range n0 ss sr s" and i: "i \<in> c_acks s"
  shows "channel_inv n0 ss sr (s\<lparr>c_send := rs_ack i (c_send s)\<rparr>)" (is "channel_inv _ _ _ ?s'")
proof -
  let ?w = "rs_window (c_send s)" and ?N = "n0 + length (c_sent s)"
  have I: "inv_send n0 ss s" "inv_recv n0 sr s" "inv_wire n0 s" using inv by (simp_all add: channel_inv_def)
  have wf: "mw_wf ?w" and sp: "unat (mw_span ?w) = ss" using I(1) by (simp_all add: inv_send_def)
  have ii: "n0 \<le> unat i" "unat i < ?N" "received n0 s (unat i)" using I(3) i by (auto simp: inv_wire_def)
  have room: "unat (mw_head ?w) + 2 * unat (mw_span ?w) < 2 ^ 32"
    using I(1) rng by (auto simp: inv_send_def ids_in_range_def)
  note A = rs_ack_spec [OF wf room, of i]
  have rc: "received n0 ?s' = received n0 s" by (rule received_cong) simp_all
  let ?w' = "rs_window (rs_ack i (c_send s))"
  define sl where "sl j = (if j = unat i then msg_erase (snd_slot s j) else snd_slot s j)" for j
  have A1: "rs_next (rs_ack i (c_send s)) = rs_next (c_send s)" "mw_wf ?w'" "snd_head s \<le> unat (mw_head ?w')"
    "mw_span ?w' = mw_span ?w"
    "\<And>j. unat (mw_head ?w') \<le> j \<Longrightarrow> j < snd_head s + ss \<Longrightarrow> mw_slot send_dflt ?w' j = sl j"
    "\<And>j. unat (mw_head ?w') \<le> j \<Longrightarrow> snd_head s + ss \<le> j \<Longrightarrow> mw_slot send_dflt ?w' j = snd_slot s j"
    "\<And>j. snd_head s \<le> j \<Longrightarrow> j < unat (mw_head ?w') \<Longrightarrow> m_erased (sl j)"
    using A unfolding sl_def sp by auto
  have cases: "m_erased (sl j) \<and> m_packet (sl j) = None \<and> received n0 s j
      \<or> \<not> m_erased (sl j) \<and> m_packet (sl j) = Some (c_sent s ! (j - n0)) \<and> unat (m_id (sl j)) = j"
    if "snd_head s \<le> j" "j < ?N" for j
    using that I(1) ii unfolding inv_send_def by (auto simp: sl_def msg_erase_def)
  have fresh: "\<not> m_erased (snd_slot s j) \<and> m_packet (snd_slot s j) = None" if "?N \<le> j" for j
    using that I(1) unfolding inv_send_def by blast
  have top: "unat (mw_head ?w') \<le> ?N"
    using A1(7) [of ?N] fresh [of ?N] I(1) ii by (fastforce simp: sl_def inv_send_def)
  have low: "received n0 s j" if "n0 \<le> j" "j < unat (mw_head ?w')" for j
    using that I(1) A1(7) [of j] cases [of j] top unfolding inv_send_def by (cases "j < snd_head s") auto
  have slot: "mw_slot send_dflt ?w' j = sl j" if "unat (mw_head ?w') \<le> j" for j
  proof (cases "j < snd_head s + ss")
    case True
    then show ?thesis using A1(5) that by simp
  next
    case False
    then have "j \<noteq> unat i" using ii(2) I(1) by (auto simp: inv_send_def)
    then show ?thesis using False A1(6) that by (simp add: sl_def)
  qed
  have new: "\<not> m_erased (sl j) \<and> m_packet (sl j) = None" if "?N \<le> j" for j
    using fresh [OF that] that ii(2) by (simp add: sl_def)
  have "inv_send n0 ss ?s'"
    using I(1) A1(1-4) top low slot cases new unfolding inv_send_def rc by auto
  moreover have "inv_recv n0 sr ?s'" using I(2) unfolding inv_recv_def by simp
  moreover have "inv_wire n0 ?s'" using I(3) unfolding inv_wire_def rc by simp
  ultimately show ?thesis by (simp add: channel_inv_def)
qed

lemma channel_inv_step:
  assumes "channel_step s s'" and "channel_inv n0 ss sr s" and "ids_in_range n0 ss sr s'"
  shows "channel_inv n0 ss sr s'"
  using assms
proof (cases rule: channel_step.cases)
  case (send now tmo p snd')
  then have "n0 + length (c_sent s) + 1 < 2 ^ 32" using assms(3) by (simp add: ids_in_range_def)
  with send assms(2) show ?thesis by (auto intro: inv_step_send)
next
  case (retransmit now tmo i j p snd')
  with assms(2) show ?thesis by (auto intro: inv_step_retransmit)
next
  case (receive i p fl rcv')
  show ?thesis unfolding receive(1) by (rule inv_step_receive [OF assms(2) receive(2,3)])
next
  case (up m p rcv')
  then have "ids_in_range n0 ss sr s" using assms(3) by (simp add: ids_in_range_def)
  with up assms(2) show ?thesis by (auto intro: inv_step_up)
next
  case (ack i)
  then have "ids_in_range n0 ss sr s" using assms(3) by (simp add: ids_in_range_def)
  with ack assms(2) show ?thesis by (auto intro: inv_step_ack)
next
  case (lose_packet x)
  with assms(2) received_cong [of s' s] show ?thesis
    by (auto simp: channel_inv_def inv_send_def inv_recv_def inv_wire_def)
next
  case (lose_ack i)
  with assms(2) received_cong [of s' s] show ?thesis
    by (auto simp: channel_inv_def inv_send_def inv_recv_def inv_wire_def)
qed

lemma channel_step_sent: "channel_step s s' \<Longrightarrow> length (c_sent s) \<le> length (c_sent s')"
  by (induction rule: channel_step.induct) simp_all

lemma channel_reach_inv:
  assumes "channel_steps (channel_init a ss sr) s" and "ids_in_range (unat a) (unat ss) (unat sr) s"
  shows "channel_inv (unat a) (unat ss) (unat sr) s"
  using assms
proof (induction rule: rtranclp_induct)
  case base
  then show ?case by (intro channel_inv_init) (simp add: ids_in_range_def channel_init_def)
next
  case (step s s')
  have "ids_in_range (unat a) (unat ss) (unat sr) s"
    using channel_step_sent [OF step.hyps(2)] step.prems by (simp add: ids_in_range_def)
  with step channel_inv_step show ?case by blast
qed

section \<open>Properties of the channel\<close>

text \<open>
  C2. In every reachable state, as long as the session has not used up the 32-bit IDs, the messages
  handed up by the receiver are a prefix of the messages given to the sender: no message is altered,
  repeated, reordered or skipped, however the network loses, repeats and reorders packets and
  acknowledgements. Every message that has not been handed up is either stored in the receive window
  or still kept, unaltered, in the send window for retransmission.
\<close>

theorem channel_safe:
  assumes "channel_steps (channel_init start_at send_span recv_span) s"
    and "unat start_at + length (c_sent s) + 2 * unat send_span + unat recv_span < 2 ^ 32"
  shows "c_delivered s = take (length (c_delivered s)) (c_sent s)
    \<and> (\<forall>k. length (c_delivered s) \<le> k \<longrightarrow> k < length (c_sent s) \<longrightarrow>
         m_packet (mw_slot recv_dflt (c_recv s) (unat start_at + k)) = Some (c_sent s ! k)
         \<or> unat (rs_head_id (c_send s)) \<le> unat start_at + k
           \<and> m_packet (mw_slot send_dflt (rs_window (c_send s)) (unat start_at + k)) = Some (c_sent s ! k))"
proof -
  let ?n = "unat start_at"
  have I: "inv_send ?n (unat send_span) s" "inv_recv ?n (unat recv_span) s"
    using channel_reach_inv assms by (auto simp: channel_inv_def ids_in_range_def)
  have "m_packet (rcv_slot s (?n + k)) = Some (c_sent s ! k)
      \<or> snd_head s \<le> ?n + k \<and> m_packet (snd_slot s (?n + k)) = Some (c_sent s ! k)"
    if k: "length (c_delivered s) \<le> k" "k < length (c_sent s)" for k
  proof (cases "received ?n s (?n + k)")
    case True
    then have "m_packet (rcv_slot s (?n + k)) \<noteq> None" using k by (auto simp: received_def)
    then show ?thesis using I(2) k unfolding inv_recv_def by (metis add_diff_cancel_left' add_le_cancel_left)
  next
    case False
    then have "snd_head s \<le> ?n + k" using I(1) unfolding inv_send_def by (meson le_add1 linorder_not_le)
    then show ?thesis using False I(1) k unfolding inv_send_def by (metis add_diff_cancel_left' nat_add_left_cancel_less)
  qed
  then show ?thesis using I(2) unfolding inv_recv_def rs_head_id_def by blast
qed

lemma channel_first_send:
  fixes p :: 'p
  shows "channel_step (channel_init 0 6 8)
     (channel_init 0 6 8 \<lparr>c_send := \<lparr>rs_next = 1, rs_window = \<lparr>mw_head = 0, mw_span = 6,
         mw_q = [\<lparr>m_packet = Some p, m_id = 0, m_erased = False, m_retransmit_at = 7\<rparr>]\<rparr>\<rparr>,
       c_net := {(0, p)}, c_sent := [p]\<rparr>)"
proof -
  let ?s = "channel_init 0 6 8 :: 'p channel"
  let ?snd = "\<lparr>rs_next = 1, rs_window = \<lparr>mw_head = 0, mw_span = 6,
         mw_q = [\<lparr>m_packet = Some p, m_id = 0, m_erased = False, m_retransmit_at = 7\<rparr>]\<rparr>\<rparr>"
  have "rs_ready (c_send ?s)" by (simp add: channel_init_def rs_init_def rs_ready_def mw_init_def mw_in_window_def)
  moreover have "rs_send_packet 3 4 p (c_send ?s) = Inr ?snd"
    by (simp add: channel_init_def rs_init_def rs_send_packet_def rs_send_def mw_ref_by_id_def mw_init_def
        mw_in_window_def mw_grow_def mw_assign_def rs_set_packet_def send_dflt_def msg_reset_retransmit_def
        tm_plus_def tm_is_infinite_def dur_is_infinite_def)
  ultimately have "channel_step ?s (?s\<lparr>c_send := ?snd, c_net := insert (rs_next (c_send ?s), p) (c_net ?s),
      c_sent := c_sent ?s @ [p]\<rparr>)" by (rule channel_step.send)
  then show ?thesis by (simp add: channel_init_def rs_init_def)
qed

theorem channel_safe_witness:
  "\<exists>s. channel_steps (channel_init 0 6 8) s \<and> c_sent s = [True] \<and> c_delivered s = []
    \<and> (m_packet (mw_slot recv_dflt (c_recv s) 0) = Some True
       \<or> m_packet (mw_slot send_dflt (rs_window (c_send s)) 0) = Some True)"
proof -
  note st = r_into_rtranclp [of channel_step, OF channel_first_send [of True]]
  show ?thesis
    by (rule exI, rule conjI, rule st) (use channel_safe [OF st] in \<open>simp add: channel_init_def rs_head_id_def\<close>)
qed

lemma up_enabled:
  assumes inv: "channel_inv n0 ss sr s" and pkt: "m_packet (rcv_slot s (n0 + length (c_delivered s))) = Some p"
  shows "\<exists>s'. channel_step s s' \<and> c_sent s' = c_sent s \<and> c_delivered s' = c_delivered s @ [p]"
proof -
  have "unat (mw_head (c_recv s)) = n0 + length (c_delivered s)" using inv by (simp add: channel_inv_def inv_recv_def)
  then obtain m q where q: "mw_q (c_recv s) = m # q" "m_packet m = Some p"
    using pkt by (auto simp: mw_slot_def recv_dflt_def hd_conv_nth neq_Nil_conv split: if_splits)
  then have "rr_ready (c_recv s)" "rr_next_sequenced (c_recv s) = Inr m"
    "rr_advance (c_recv s) = Inr ((c_recv s)\<lparr>mw_q := q, mw_head := mw_head (c_recv s) + 1\<rparr>)"
    by (simp_all add: rr_ready_def mw_head_defined_def msg_defined_def rr_next_sequenced_def mw_ref_head_def
        rr_advance_def mw_rm_head_nocheck_def)
  note st = channel_step.up [OF this(1,2) q(2) this(3)]
  show ?thesis by (rule exI, rule conjI, rule st) simp
qed

lemma refetch:
  assumes inv: "channel_inv n0 ss sr s" and rng: "ids_in_range n0 ss sr s" and sr: "0 < sr"
    and D: "length (c_delivered s) < length (c_sent s)"
    and pkt: "m_packet (rcv_slot s (n0 + length (c_delivered s))) = None"
  shows "\<exists>s'. channel_steps s s' \<and> c_sent s' = c_sent s \<and> c_delivered s' = c_delivered s
    \<and> m_packet (rcv_slot s' (n0 + length (c_delivered s))) \<noteq> None"
proof -
  let ?d = "n0 + length (c_delivered s)" and ?w = "rs_window (c_send s)"
  have I: "inv_send n0 ss s" "inv_recv n0 sr s" using inv by (simp_all add: channel_inv_def)
  have wf: "mw_wf ?w" "mw_wf (c_recv s)" using I by (simp_all add: inv_send_def inv_recv_def)
  have "?d < 2 ^ LENGTH(32)" using D rng by (simp add: ids_in_range_def)
  then have u: "unat (of_nat ?d :: u32) = ?d" by (simp only: unat_of_nat mod_less)
  have nr: "\<not> received n0 s ?d" using pkt by (simp add: received_def)
  then have hd: "snd_head s \<le> ?d" using I(1) unfolding inv_send_def by (meson le_add1 linorder_not_le)
  with nr D I(1) have m: "m_packet (snd_slot s ?d) = Some (c_sent s ! length (c_delivered s))"
    "unat (m_id (snd_slot s ?d)) = ?d" unfolding inv_send_def by auto
  have inw: "mw_in_window ?w (of_nat ?d)" using hd I(1) D unfolding mw_in_window_iff [OF wf(1)] u
    by (auto simp: inv_send_def)
  let ?p = "c_sent s ! length (c_delivered s)" and ?j = "m_id (snd_slot s ?d)"
  obtain snd' where re: "rs_retransmit_msg (- 1) 0 (of_nat ?d) (c_send s) = Inr (Some (?j, Some ?p), snd')"
    using inw mw_grow_nth [OF wf(1) inw, of send_dflt] m(1) unfolding u
    by (auto simp: rs_retransmit_msg_def mw_ref_by_id_def Let_def msg_ready_retransmit_def msg_defined_def)
  define s1 where "s1 = s\<lparr>c_send := snd', c_net := insert (?j, ?p) (c_net s)\<rparr>"
  have s1: "channel_step s s1" unfolding s1_def by (rule channel_step.retransmit [OF re])
  obtain fl rcv' where rv: "rr_receive (Some ?p) ?j (c_recv s1) = Inr (fl, rcv')"
    and sl: "\<forall>k\<ge>unat (mw_head (c_recv s)). mw_slot recv_dflt rcv' k =
         (if mw_in_window (c_recv s) ?j \<and> k = unat ?j
          then (rcv_slot s k)\<lparr>m_id := ?j, m_packet := Some ?p\<rparr> else rcv_slot s k)"
    using rr_receive_spec [OF wf(2), of ?p ?j] by (auto simp: s1_def)
  have "mw_in_window (c_recv s) ?j" "unat (mw_head (c_recv s)) = ?d"
    using I(2) sr m(2) unfolding mw_in_window_iff [OF wf(2)] by (auto simp: inv_recv_def)
  with sl m(2) have "m_packet (mw_slot recv_dflt rcv' ?d) \<noteq> None" by simp
  moreover have "(?j, ?p) \<in> c_net s1" by (simp add: s1_def)
  note s2 = channel_step.receive [OF this rv]
  note st = rtranclp.rtrancl_into_rtrancl [OF r_into_rtranclp [of channel_step, OF s1] s2]
  ultimately show ?thesis by (intro exI) (rule conjI, rule st, simp add: s1_def)
qed

lemma deliver_next:
  assumes "channel_steps (channel_init a ss sr) s" and "ids_in_range (unat a) (unat ss) (unat sr) s" and "0 < sr"
    and D: "length (c_delivered s) < length (c_sent s)"
  shows "\<exists>s'. channel_steps s s' \<and> c_sent s' = c_sent s \<and> length (c_delivered s') = Suc (length (c_delivered s))"
proof -
  let ?slot = "\<lambda>s. m_packet (rcv_slot s (unat a + length (c_delivered s)))"
  obtain s1 where s1: "channel_steps s s1" "c_sent s1 = c_sent s" "c_delivered s1 = c_delivered s" "?slot s1 \<noteq> None"
  proof (cases "?slot s")
    case None
    have "0 < unat sr" using assms(3) by (simp add: word_less_nat_alt)
    from refetch [OF channel_reach_inv [OF assms(1,2)] assms(2) this D None] that show thesis by metis
  qed (use that in auto)
  have "channel_steps (channel_init a ss sr) s1" using assms(1) s1(1) by simp
  moreover have "ids_in_range (unat a) (unat ss) (unat sr) s1" using assms(2) s1(2) by (simp add: ids_in_range_def)
  ultimately have I: "channel_inv (unat a) (unat ss) (unat sr) s1" by (rule channel_reach_inv)
  from s1(3,4) obtain p where p: "m_packet (rcv_slot s1 (unat a + length (c_delivered s1))) = Some p" by auto
  from up_enabled [OF I p] obtain s2 where
    s2: "channel_step s1 s2" "c_sent s2 = c_sent s1" "c_delivered s2 = c_delivered s1 @ [p]" by (elim exE conjE)
  then show ?thesis using s1 by (intro exI [of _ s2]) auto
qed

text \<open>
  C3. The channel never gets stuck: from every reachable state there is a run, with retransmission and
  delivery only, after which the receiver has handed up exactly the messages that were sent.
\<close>

theorem channel_live:
  assumes "channel_steps (channel_init start_at send_span recv_span) s" and "0 < recv_span"
    and "unat start_at + length (c_sent s) + 2 * unat send_span + unat recv_span < 2 ^ 32"
  shows "\<exists>s'. channel_steps s s' \<and> c_sent s' = c_sent s \<and> c_delivered s' = c_sent s"
  using assms
proof (induction "length (c_sent s) - length (c_delivered s)" arbitrary: s)
  case 0
  have "ids_in_range (unat start_at) (unat send_span) (unat recv_span) s" using "0.prems"(3) by (simp add: ids_in_range_def)
  from channel_reach_inv [OF "0.prems"(1) this]
  have "c_delivered s = take (length (c_delivered s)) (c_sent s)" by (simp add: channel_inv_def inv_recv_def)
  with "0.hyps" have "c_delivered s = c_sent s" by simp
  then show ?case by (intro exI [of _ s]) simp
next
  case (Suc n)
  have "ids_in_range (unat start_at) (unat send_span) (unat recv_span) s" using Suc.prems(3) by (simp add: ids_in_range_def)
  moreover have "length (c_delivered s) < length (c_sent s)" using Suc.hyps(2) by simp
  ultimately obtain s1 where s1: "channel_steps s s1" "c_sent s1 = c_sent s" "length (c_delivered s1) = Suc (length (c_delivered s))"
    using deliver_next [OF Suc.prems(1) _ Suc.prems(2)] by (elim exE conjE meta_impE)
  have "n = length (c_sent s1) - length (c_delivered s1)" using Suc.hyps(2) s1 by simp
  moreover have "channel_steps (channel_init start_at send_span recv_span) s1" using Suc.prems(1) s1(1) by simp
  ultimately obtain s' where "channel_steps s1 s'" "c_sent s' = c_sent s" "c_delivered s' = c_sent s"
    using Suc.hyps(1) [of s1] Suc.prems(2,3) s1(2) by auto
  then show ?case using s1(1) by (meson rtranclp_trans)
qed

theorem channel_live_witness:
  "\<exists>s'. channel_steps (channel_init 0 6 8) s' \<and> c_sent s' = [True] \<and> c_delivered s' = [True]"
proof -
  note st = r_into_rtranclp [of channel_step, OF channel_first_send [of True]]
  from channel_live [OF st] obtain s' where
    "channel_steps (channel_init 0 6 8 \<lparr>c_send := \<lparr>rs_next = 1, rs_window = \<lparr>mw_head = 0, mw_span = 6,
         mw_q = [\<lparr>m_packet = Some True, m_id = 0, m_erased = False, m_retransmit_at = 7\<rparr>]\<rparr>\<rparr>,
       c_net := {(0, True)}, c_sent := [True]\<rparr>) s'" "c_sent s' = [True]" "c_delivered s' = [True]" by auto
  with st show ?thesis by (meson rtranclp_trans)
qed

text \<open>
  The send window trusts its acknowledgements: an acknowledgement for an ID that has not been used
  yet is not ignored. On a new session with the window of ssl/protostack.hpp, acknowledging ID 0 before
  anything was sent moves the window past the next ID, after which \<open>ready\<close> stays false and \<open>send\<close>
  throws; acknowledging ID 1 before two messages are sent makes the acknowledgement of message 0 drop
  message 1 as well, so that it is never retransmitted.
\<close>

lemma ack_before_send:
  fixes p q :: 'p
  shows "(let s = rs_ack 0 (rs_init 6 0 :: 'p rel_send)
          in \<not> rs_ready s \<and> rs_send_packet now tmo p s = Inl message_window_ref_by_id)
    \<and> bindR (rs_send_packet now tmo p (rs_ack 1 (rs_init 6 0))) (rs_send_packet now tmo q)
        = Inr \<lparr>rs_next = 2, rs_window = \<lparr>mw_head = 0, mw_span = 6, mw_q =
            [\<lparr>m_packet = Some p, m_id = 0, m_erased = False, m_retransmit_at = tm_plus now tmo\<rparr>,
             \<lparr>m_packet = Some q, m_id = 1, m_erased = True, m_retransmit_at = tm_plus now tmo\<rparr>]\<rparr>\<rparr>
    \<and> bindR (bindR (rs_send_packet now tmo p (rs_ack 1 (rs_init 6 0))) (rs_send_packet now tmo q)) (\<lambda>s. Inr (rs_ack 0 s))
        = Inr \<lparr>rs_next = 2, rs_window = \<lparr>mw_head = 2, mw_span = 6, mw_q = []\<rparr>\<rparr>"
  by (simp add: Let_def rs_ack_def mw_rm_by_id_def rs_init_def mw_init_def mw_in_window_def mw_grow_def mw_assign_def
      mw_purge_def rs_ready_def rs_send_packet_def rs_send_def mw_ref_by_id_def rs_set_packet_def msg_erase_def
      send_dflt_def msg_reset_retransmit_def)

end
