(* ===== verification/Hex_Str.thy ===== *)
theory Hex_Str
  imports OV_Prelude
begin

text \<open>
  Hexadecimal rendering and parsing of common/hexstr.hpp. A \<open>std::string\<close> is a HOL string, a byte
  vector a list of bytes; the null pointer that the renderers accept is \<open>None\<close>.
\<close>

section \<open>Rendering\<close>

definition render_hex_char :: "int \<Rightarrow> bool \<Rightarrow> char" where
  "render_hex_char c caps =
     (if c < 0 then CHR ''?''
      else if c < 10 then char_of (of_char CHR ''0'' + nat c)
      else if c < 16 then char_of ((of_char (if caps then CHR ''A'' else CHR ''a'') - 10) + nat c)
      else CHR ''?'')"

text \<open>The two characters of a \<open>RenderHexByte\<close>.\<close>

definition RenderHexByte :: "byte \<Rightarrow> bool \<Rightarrow> char \<times> char" where
  "RenderHexByte b caps = (render_hex_char (uint (drop_bit 4 b)) caps, render_hex_char (uint (b AND 0x0F)) caps)"

fun render_hex_loop :: "byte list \<Rightarrow> bool \<Rightarrow> string \<Rightarrow> string" where
  "render_hex_loop [] caps ret = ret"
| "render_hex_loop (d # data) caps ret =
     (let b = RenderHexByte d caps in render_hex_loop data caps (ret @ [fst b] @ [snd b]))"

definition render_hex :: "byte list option \<Rightarrow> bool \<Rightarrow> string" where
  "render_hex data caps = (case data of None \<Rightarrow> ''NULL'' | Some d \<Rightarrow> render_hex_loop d caps [])"

fun render_hex_sep_loop :: "byte list \<Rightarrow> char \<Rightarrow> bool \<Rightarrow> bool \<Rightarrow> string \<Rightarrow> string" where
  "render_hex_sep_loop [] sep caps prsep ret = ret"
| "render_hex_sep_loop (d # data) sep caps prsep ret =
     (let ret1 = (if prsep then ret @ [sep] else ret); b = RenderHexByte d caps
      in render_hex_sep_loop data sep caps True (ret1 @ [fst b] @ [snd b]))"

definition render_hex_sep :: "byte list option \<Rightarrow> char \<Rightarrow> bool \<Rightarrow> string" where
  "render_hex_sep data sep caps =
     (case data of None \<Rightarrow> ''NULL'' | Some d \<Rightarrow> render_hex_sep_loop d sep caps False [])"

text \<open>\<open>render_hex_number\<close> fills a buffer of \<open>sizeof(T)\<close> bytes from its end.\<close>

fun render_hex_number_loop :: "nat \<Rightarrow> 'a::len word \<Rightarrow> byte list \<Rightarrow> byte list" where
  "render_hex_number_loop 0 v buf = buf"
| "render_hex_number_loop (Suc i) v buf = render_hex_number_loop i (drop_bit 8 v) (buf[i := ucast (v AND 0xFF)])"

definition render_hex_number :: "nat \<Rightarrow> 'a::len word \<Rightarrow> bool \<Rightarrow> string" where
  "render_hex_number sizeofT v caps = render_hex (Some (render_hex_number_loop sizeofT v (replicate sizeofT 0))) caps"

section \<open>Parsing\<close>

definition parse_hex_char :: "int \<Rightarrow> int" where
  "parse_hex_char c =
     (if c \<ge> schar CHR ''0'' \<and> c \<le> schar CHR ''9'' then c - schar CHR ''0''
      else if c \<ge> schar CHR ''a'' \<and> c \<le> schar CHR ''f'' then c - schar CHR ''a'' + 10
      else if c \<ge> schar CHR ''A'' \<and> c \<le> schar CHR ''F'' then c - schar CHR ''A'' + 10
      else - 1)"

text \<open>
  \<open>parse_hex\<close> appends to \<open>dest\<close>; the bytes before the first error stay there. The length is
  converted to \<open>int\<close>.
\<close>

fun parse_hex_loop :: "byte list \<Rightarrow> string \<Rightarrow> exn option \<times> byte list" where
  "parse_hex_loop dest (h # l # cs) =
     (let high = parse_hex_char (schar h); low = parse_hex_char (schar l)
      in if high = - 1 \<or> low = - 1 then (Some parse_hex_error, dest)
         else parse_hex_loop (dest @ [word_of_int (high * 16 + low)]) cs)"
| "parse_hex_loop dest [c] = (Some parse_hex_error, dest)"
| "parse_hex_loop dest [] = (None, dest)"

definition parse_hex :: "byte list \<Rightarrow> string \<Rightarrow> exn option \<times> byte list" where
  "parse_hex dest str =
     (let len = sint (of_nat (length str) :: 32 word)
      in if len < 0 then (Some parse_hex_error, dest) else parse_hex_loop dest (take (nat len) str))"

text \<open>\<open>parse_hex_number\<close> reads up to the terminating null character.\<close>

fun parse_hex_number_loop :: "'a::len word \<Rightarrow> string \<Rightarrow> 'a word option" where
  "parse_hex_number_loop ret [] = Some ret"
| "parse_hex_number_loop ret (c # cs) =
     (let hd = parse_hex_char (schar c)
      in if hd \<ge> 0 then parse_hex_number_loop (ret * 16 + word_of_int hd) cs
         else if schar c = 0 then Some ret
         else None)"

definition parse_hex_number :: "string \<Rightarrow> 'a::len word option" where
  "parse_hex_number str =
     (case str of [] \<Rightarrow> None | c # _ \<Rightarrow> if schar c = 0 then None else parse_hex_number_loop 0 str)"

definition parse_hex_number_throw :: "string \<Rightarrow> 'a::len word result" where
  "parse_hex_number_throw str =
     (case parse_hex_number str of None \<Rightarrow> Inl parse_hex_error | Some ret \<Rightarrow> Inr ret)"

section \<open>Digits\<close>

lemma schar_char_of: "n < 128 \<Longrightarrow> schar (char_of n) = int n"
  by (simp add: schar_def Let_def)

lemma schar_digits [simp]:
  "schar CHR ''0'' = 48" "schar CHR ''9'' = 57" "schar CHR ''a'' = 97" "schar CHR ''f'' = 102"
  "schar CHR ''A'' = 65" "schar CHR ''F'' = 70"
  by (simp_all add: schar_def)

lemma parse_render_char:
  assumes "0 \<le> d" and "d < 16"
  shows "parse_hex_char (schar (render_hex_char d caps)) = d"
proof -
  have "schar (render_hex_char d caps) = (if d < 10 then 48 + d else (if caps then 55 else 87) + d)"
    using assms by (simp add: render_hex_char_def schar_char_of)
  then show ?thesis using assms by (simp add: parse_hex_char_def)
qed

lemma parse_hex_char_range: "parse_hex_char c \<noteq> - 1 \<Longrightarrow> 0 \<le> parse_hex_char c \<and> parse_hex_char c < 16"
  by (auto simp: parse_hex_char_def split: if_splits)

lemma uint_high_nibble: "uint (drop_bit 4 b) = uint (b :: byte) div 16"
  by (simp add: drop_bit_eq_div uint_div)

lemma uint_low_nibble: "uint (b AND 0x0F) = uint (b :: byte) mod 16"
  using and_exp_minus_1 [of b 4] by (simp add: take_bit_eq_mod uint_mod)

lemma uint_byte:
  "0 \<le> uint (b :: byte)" "uint (b :: byte) < 256" "0 \<le> uint (b :: byte) div 16" "uint (b :: byte) div 16 < 16"
  using uint_bounded [of b] by (simp_all add: pos_imp_zdiv_nonneg_iff)

lemma render_hex_loop_eq:
  "render_hex_loop data caps ret = ret @ concat (map (\<lambda>b. [fst (RenderHexByte b caps), snd (RenderHexByte b caps)]) data)"
  by (induction data arbitrary: ret) (simp_all add: Let_def)

lemma parse_hex_loop_render:
  "parse_hex_loop dest (concat (map (\<lambda>b. [fst (RenderHexByte b caps), snd (RenderHexByte b caps)]) data)) = (None, dest @ data)"
proof (induction data arbitrary: dest)
  case Nil
  then show ?case by simp
next
  case (Cons b data)
  have "parse_hex_char (schar (fst (RenderHexByte b caps))) = uint (drop_bit 4 b)"
    "parse_hex_char (schar (snd (RenderHexByte b caps))) = uint (b AND 0x0F)"
    using uint_byte [of b] by (auto simp: RenderHexByte_def uint_high_nibble uint_low_nibble intro!: parse_render_char)
  moreover have "0 \<le> uint b div 16" "0 \<le> uint b mod 16" "uint b div 16 * 16 + uint b mod 16 = uint b"
    using uint_byte [of b] by simp_all
  ultimately show ?case using Cons.IH by (simp add: Let_def uint_high_nibble uint_low_nibble)
qed

lemma sint_length: "n < 2 ^ 31 \<Longrightarrow> sint (of_nat n :: 32 word) = int n"
  by (simp add: sint_uint unsigned_of_nat signed_take_bit_int_eq_self take_bit_nat_eq_self)

lemma render_hex_some:
  "render_hex (Some bs) caps = concat (map (\<lambda>b. [fst (RenderHexByte b caps), snd (RenderHexByte b caps)]) bs)"
  by (simp add: render_hex_def render_hex_loop_eq)

lemma length_render_hex [simp]: "length (render_hex (Some bs) caps) = 2 * length bs"
  by (induction bs) (simp_all add: render_hex_some)

section \<open>Properties\<close>

text \<open>
  What \<open>render_hex\<close> prints, in either case, \<open>parse_hex\<close> reads back: the bytes are appended to
  the destination unchanged and no error is raised, for every byte string whose rendering has a length
  that fits an \<open>int\<close>.
\<close>

lemma render_parse_hex:
  assumes "2 * length bs < 2 ^ 31"
  shows "parse_hex dest (render_hex (Some bs) caps) = (None, dest @ bs)"
  using assms sint_length [of "2 * length bs"] parse_hex_loop_render [of dest caps bs]
  by (simp add: parse_hex_def render_hex_some [symmetric])

lemma parse_hex_loop_sound:
  "parse_hex_loop dest s = (None, out) \<Longrightarrow>
     \<exists>bs. out = dest @ bs \<and> length s = 2 * length bs
       \<and> map (\<lambda>c. parse_hex_char (schar c)) s = map (\<lambda>c. parse_hex_char (schar c)) (render_hex (Some bs) caps)"
proof (induction dest s rule: parse_hex_loop.induct)
  case (1 dest h l cs)
  let ?h = "parse_hex_char (schar h)" and ?l = "parse_hex_char (schar l)"
  let ?b = "word_of_int (?h * 16 + ?l) :: byte"
  have hl: "?h \<noteq> - 1" "?l \<noteq> - 1" and r: "parse_hex_loop (dest @ [?b]) cs = (None, out)"
    using "1.prems" by (auto simp: Let_def split: if_splits)
  note rng = parse_hex_char_range [OF hl(1)] parse_hex_char_range [OF hl(2)]
  from "1.IH" [OF refl refl _ r] hl obtain bs where
    bs: "out = (dest @ [?b]) @ bs" "length cs = 2 * length bs"
    "map (\<lambda>c. parse_hex_char (schar c)) cs = map (\<lambda>c. parse_hex_char (schar c)) (render_hex (Some bs) caps)" by auto
  have u: "uint ?b = ?h * 16 + ?l" using rng by (simp only: uint_word_of_int) simp
  have "parse_hex_char (schar (fst (RenderHexByte ?b caps))) = uint ?b div 16"
    "parse_hex_char (schar (snd (RenderHexByte ?b caps))) = uint ?b mod 16"
    using uint_byte [of ?b] by (auto simp: RenderHexByte_def uint_high_nibble uint_low_nibble intro!: parse_render_char)
  then have "parse_hex_char (schar (fst (RenderHexByte ?b caps))) = ?h"
    "parse_hex_char (schar (snd (RenderHexByte ?b caps))) = ?l" using rng unfolding u by simp_all
  with bs show ?case by (intro exI [of _ "?b # bs"]) (simp add: render_hex_some)
qed (auto simp: render_hex_some)

text \<open>
  \<open>parse_hex\<close> accepts only hexadecimal digits in pairs: when it succeeds on a string of fewer than
  \<open>2^31\<close> characters, the string has two characters per byte and agrees with the rendering of the bytes
  it appended up to the case of the letters.
\<close>

lemma parse_hex_sound:
  assumes "parse_hex dest s = (None, out)" and "length s < 2 ^ 31"
  shows "\<exists>bs. out = dest @ bs \<and> length s = 2 * length bs
    \<and> map (\<lambda>c. parse_hex_char (schar c)) s = map (\<lambda>c. parse_hex_char (schar c)) (render_hex (Some bs) caps)"
  using parse_hex_loop_sound [of dest s out caps] assms sint_length [of "length s"] by (simp add: parse_hex_def)

section \<open>Numbers\<close>

lemma be_bytes_Suc: "be_bytes (Suc n) v = be_bytes n (drop_bit 8 v) @ [ucast v]"
proof (rule nth_equalityI)
  fix i assume "i < length (be_bytes (Suc n) v)"
  then have i: "i \<le> n" by simp
  show "be_bytes (Suc n) v ! i = (be_bytes n (drop_bit 8 v) @ [ucast v]) ! i"
  proof (cases "i = n")
    case True
    then show ?thesis by (simp add: be_bytes_def rev_nth nth_append nth_le_bytes)
  next
    case False
    then have "8 * (n - i) = 8 * (n - Suc i) + 8" using i by simp
    then show ?thesis using i False by (simp add: be_bytes_def rev_nth nth_append nth_le_bytes add.commute)
  qed
qed simp

lemma low_byte: "ucast ((v :: 'a::len word) AND 0xFF) = (ucast v :: byte)"
  using and_exp_minus_1 [of v 8] by (intro bit_word_eqI) (auto simp: bit_simps)

lemma render_hex_number_loop_eq:
  "n \<le> length buf \<Longrightarrow> render_hex_number_loop n v buf = be_bytes n v @ drop n buf"
proof (induction n arbitrary: v buf)
  case 0
  then show ?case by (simp add: be_bytes_def le_bytes_def)
next
  case (Suc n)
  then have "drop n (buf[n := x]) = x # drop (Suc n) buf" for x
    by (metis Cons_nth_drop_Suc Suc_le_eq drop_update_cancel length_list_update lessI nth_list_update_eq)
  with Suc show ?case by (simp add: Suc.IH be_bytes_Suc low_byte)
qed

lemma horner_step:
  "take_bit (8 * n) (drop_bit 8 v) * 256 + ucast (ucast v :: byte) = take_bit (8 * Suc n) (v :: 'a::len word)"
proof -
  let ?a = "push_bit 8 (take_bit (8 * n) (drop_bit 8 v))" and ?b = "ucast (ucast v :: byte) :: 'a word"
  have "\<not> bit ?a k \<or> \<not> bit ?b k" for k by (auto simp: bit_simps)
  then have "?a + ?b = ?a OR ?b" by (rule disjunctive_add)
  also have "\<dots> = take_bit (8 * Suc n) v" by (rule bit_word_eqI) (auto simp: bit_simps)
  finally show ?thesis by (simp add: push_bit_eq_mult)
qed

lemma horner_be_bytes: "fold (\<lambda>b r. r * 256 + ucast b) (be_bytes n v) 0 = take_bit (8 * n) (v :: 'a::len word)"
proof (induction n arbitrary: v)
  case 0
  then show ?case by (simp add: be_bytes_def le_bytes_def)
next
  case (Suc n)
  then show ?case using horner_step [of n v] by (simp add: be_bytes_Suc)
qed

lemma parse_hex_number_loop_render:
  "parse_hex_number_loop ret (render_hex (Some bs) caps) = Some (fold (\<lambda>b r. r * 256 + ucast b) bs ret)"
proof (induction bs arbitrary: ret)
  case Nil
  then show ?case by (simp add: render_hex_some)
next
  case (Cons b bs)
  let ?h = "uint b div 16" and ?l = "uint b mod 16"
  have "parse_hex_char (schar (fst (RenderHexByte b caps))) = ?h" "parse_hex_char (schar (snd (RenderHexByte b caps))) = ?l"
    using uint_byte [of b] by (auto simp: RenderHexByte_def uint_high_nibble uint_low_nibble intro!: parse_render_char)
  moreover have "(ret * 16 + word_of_int ?h) * 16 + word_of_int ?l = ret * 256 + ucast b"
  proof -
    have "?h * 16 + ?l = uint b" by simp
    then have "ucast b = (word_of_int (?h * 16 + ?l) :: 'a word)" by (simp only: ucast_eq)
    also have "\<dots> = word_of_int ?h * 16 + word_of_int ?l" by (simp only: wi_hom_syms) simp
    finally show ?thesis by (simp add: algebra_simps)
  qed
  ultimately show ?case using Cons.IH uint_byte [of b] 
    by (simp add: render_hex_some Let_def add.assoc mult.commute [of 256 ret])
qed

text \<open>
  A number rendered by \<open>render_hex_number\<close> with the full width of its type is read back by
  \<open>parse_hex_number\<close> as the same number.
\<close>

lemma render_parse_hex_number:
  fixes v :: "'a::len word"
  assumes "LENGTH('a) \<le> 8 * n"
  shows "parse_hex_number (render_hex_number n v caps) = Some v"
proof -
  have "0 < n" using assms len_gt_0 [where 'a='a] by (cases n) auto
  then obtain b bs where bs: "be_bytes n v = b # bs" by (metis length_be_bytes length_0_conv neq_Nil_conv less_not_refl)
  define c where "c = fst (RenderHexByte b caps)"
  have eq: "render_hex_number n v caps = render_hex (Some (be_bytes n v)) caps"
    by (simp add: render_hex_number_def render_hex_number_loop_eq)
  then obtain cs where cs: "render_hex_number n v caps = c # cs" by (simp add: bs render_hex_some c_def)
  have loop: "parse_hex_number_loop 0 (render_hex_number n v caps) = Some v"
    using assms take_bit_word_eq_self [of "8 * n" v] by (simp add: eq parse_hex_number_loop_render horner_be_bytes)
  have "parse_hex_char (schar c) = uint b div 16"
    using uint_byte [of b] by (auto simp: c_def RenderHexByte_def uint_high_nibble intro!: parse_render_char)
  moreover have "parse_hex_char 0 = - 1" by (simp add: parse_hex_char_def)
  ultimately have "schar c \<noteq> 0" using uint_byte(3) [of b] by auto
  with loop show ?thesis by (simp add: cs parse_hex_number_def)
qed

end
