(* ===== verification/Addr_Hex.thy ===== *)
theory Addr_Hex
  imports Hex_Str
begin

text \<open>
  The hexadecimal form of an address, which addr/ipv4.hpp and addr/ipv6.hpp read and print with the
  same loops over the byte view of their union (4 and 16 bytes, least significant first on a
  little-endian host), and the word scans of common/ffs.hpp.
\<close>

section \<open>\<open>from_hex\<close>\<close>

text \<open>
  \<open>s\<close> is the string, \<open>start\<close> the index of its first digit, \<open>len\<close> the number of digits, \<open>i\<close> the loop
  variable (-1 when the number of digits is odd) and \<open>di\<close> the byte to write next.
\<close>

function from_hex_loop :: "exn \<Rightarrow> string \<Rightarrow> nat \<Rightarrow> nat \<Rightarrow> int \<Rightarrow> nat \<Rightarrow> byte list \<Rightarrow> byte list result" where
  "from_hex_loop err s start len i di bytes =
     (if i < int len
      then let idx = int start + i;
               bh = (if i \<ge> 0 then parse_hex_char (schar (s ! nat idx)) else 0);
               bl = parse_hex_char (schar (s ! nat (idx + 1)))
           in if bh = - 1 \<or> bl = - 1 then Inl err
              else from_hex_loop err s start len (i + 2) (di - 1) (bytes[di := word_of_int (bh * 16 + bl)])
      else Inr bytes)"
  by pat_completeness auto
termination
  by (relation "measure (\<lambda>(err, s, start, len, i, di, bytes). nat (int len - i))") auto

declare from_hex_loop.simps [simp del]

definition addr_from_hex :: "exn \<Rightarrow> nat \<Rightarrow> string \<Rightarrow> byte list result" where
  "addr_from_hex err nbytes s =
     (let len0 = length s;
          len1 = (if len0 > 0 \<and> s ! (len0 - 1) = CHR ''L'' then len0 - 1 else len0);
          pfx = (len1 \<ge> 2 \<and> s ! 0 = CHR ''0'' \<and> s ! 1 = CHR ''x'');
          start = (if pfx then 2 else 0);
          len = (if pfx then len1 - 2 else len1)
      in if len < 1 \<or> len > 2 * nbytes then Inl err
         else from_hex_loop err s start len (if odd len then - 1 else 0) ((len - 1) div 2) (replicate nbytes 0))"

section \<open>\<open>to_hex\<close>\<close>

text \<open>The bytes come most significant first; the last one is printed even if it is zero.\<close>

fun to_hex_loop :: "byte list \<Rightarrow> bool \<Rightarrow> string \<Rightarrow> string" where
  "to_hex_loop [] firstnonzero ret = ret"
| "to_hex_loop (b # bs) firstnonzero ret =
     (if b \<noteq> 0 \<or> firstnonzero \<or> bs = []
      then let bh = drop_bit 4 b;
               ret1 = (if bh \<noteq> 0 \<or> firstnonzero then ret @ [render_hex_char (uint bh) False] else ret)
           in to_hex_loop bs True (ret1 @ [render_hex_char (uint (b AND 0x0F)) False])
      else to_hex_loop bs firstnonzero ret)"

definition addr_to_hex :: "byte list \<Rightarrow> string" where
  "addr_to_hex bytes = to_hex_loop (rev bytes) False []"

section \<open>Bit scans\<close>

text \<open>\<open>__builtin_clz\<close>: the number of zero bits above the highest one.\<close>

definition builtin_clz :: "'a::len word \<Rightarrow> nat" where
  "builtin_clz v = length (takeWhile (\<lambda>i. \<not> bit v (LENGTH('a) - 1 - i)) [0..<LENGTH('a)])"

definition find_last_set :: "'a::len word \<Rightarrow> nat" where
  "find_last_set v = (if v = 0 then 0 else LENGTH('a) - builtin_clz v)"

section \<open>Reading back what was printed\<close>

text \<open>Digits of a byte string, most significant first, and the value of a digit string.\<close>

definition hex_digits :: "byte list \<Rightarrow> int list" where
  "hex_digits bs = concat (map (\<lambda>b. [uint b div 16, uint b mod 16]) bs)"

definition strip_zeros :: "int list \<Rightarrow> int list" where
  "strip_zeros ds = (let ds' = dropWhile (\<lambda>d. d = 0) ds in if ds' = [] then [0] else ds')"

lemma drop_bit4_zero: "drop_bit 4 (b :: byte) = 0 \<longleftrightarrow> uint b div 16 = 0"
  by (metis uint_0_iff uint_high_nibble)

lemma to_hex_loop_true:
  "to_hex_loop bs True ret = ret @ map (\<lambda>d. render_hex_char d False) (hex_digits bs)"
  by (induction bs arbitrary: ret) (simp_all add: hex_digits_def Let_def uint_high_nibble uint_low_nibble)

lemma to_hex_loop_false:
  "bs \<noteq> [] \<Longrightarrow> to_hex_loop bs False ret = ret @ map (\<lambda>d. render_hex_char d False) (strip_zeros (hex_digits bs))"
proof (induction bs)
  case Nil
  then show ?case by simp
next
  case (Cons b bs)
  have z: "b = 0 \<longleftrightarrow> uint b div 16 = 0 \<and> uint b mod 16 = 0"
    using div_mult_mod_eq [of "uint b" 16] by (auto simp: uint_0_iff [symmetric] simp del: uint_0_iff)
  show ?case
  proof (cases "b = 0 \<and> bs \<noteq> []")
    case True
    then show ?thesis using Cons.IH by (simp add: strip_zeros_def hex_digits_def)
  next
    case False
    have bs0: "bs = [] \<Longrightarrow> hex_digits bs = []" by (simp add: hex_digits_def)
    have "hex_digits (b # bs) = [uint b div 16, uint b mod 16] @ hex_digits bs" by (simp add: hex_digits_def)
    then show ?thesis using False z bs0
      by (auto simp: Let_def to_hex_loop_true strip_zeros_def drop_bit4_zero uint_high_nibble uint_low_nibble)
  qed
qed

lemma addr_to_hex_eq:
  "bytes \<noteq> [] \<Longrightarrow> addr_to_hex bytes = map (\<lambda>d. render_hex_char d False) (strip_zeros (hex_digits (rev bytes)))"
  by (simp add: addr_to_hex_def to_hex_loop_false)

fun pair_bytes :: "int list \<Rightarrow> byte list" where
  "pair_bytes (h # l # ds) = word_of_int (h * 16 + l) # pair_bytes ds"
| "pair_bytes _ = []"

definition pad_even :: "int list \<Rightarrow> int list" where
  "pad_even ds = (if odd (length ds) then 0 # ds else ds)"

lemma length_pair_bytes [simp]: "length (pair_bytes ds) = length ds div 2"
  by (induction ds rule: pair_bytes.induct) simp_all

lemma nth_pair_bytes: "2 * j + 1 < length ds \<Longrightarrow> pair_bytes ds ! j = word_of_int (ds ! (2 * j) * 16 + ds ! (2 * j + 1))"
proof (induction ds arbitrary: j rule: pair_bytes.induct)
  case (1 h l ds)
  then show ?case by (cases j) auto
qed simp_all

lemma pair_bytes_append: "even (length xs) \<Longrightarrow> pair_bytes (xs @ ys) = pair_bytes xs @ pair_bytes ys"
  by (induction xs rule: pair_bytes.induct) auto

lemma pair_bytes_hex_digits: "pair_bytes (hex_digits bs) = bs"
proof (induction bs)
  case Nil
  then show ?case by (simp add: hex_digits_def)
next
  case (Cons b bs)
  have "uint b div 16 * 16 + uint b mod 16 = uint b" by simp
  then show ?case using Cons by (simp add: hex_digits_def)
qed

lemma pair_bytes_zeros: "pair_bytes (replicate (2 * q) 0) = replicate q 0"
  by (induction q) simp_all

lemma from_hex_loop_ok:
  fixes s :: string
  defines "ds \<equiv> pad_even (map (\<lambda>c. parse_hex_char (schar c)) s)"
  assumes ok: "\<forall>c\<in>set s. parse_hex_char (schar c) \<noteq> - 1" and j: "2 * j \<le> length ds" and len: "length ds \<le> 2 * length bytes"
    and i: "i = 2 * int j - (if odd (length s) then 1 else 0)" and di: "di = length ds div 2 - 1 - j"
  shows "from_hex_loop err s 0 (length s) i di bytes = Inr (rev (drop j (pair_bytes ds)) @ drop (length ds div 2 - j) bytes)"
  using j len i di
proof (induction "length ds div 2 - j" arbitrary: j i di bytes)
  case 0
  have ev: "even (length ds)" by (simp add: ds_def pad_even_def)
  have "length ds div 2 \<le> j" using "0.hyps" by simp
  then have "2 * j = length ds" using "0.prems"(1) ev by auto
  moreover have "int (length ds) = int (length s) + (if odd (length s) then 1 else 0)" by (simp add: ds_def pad_even_def)
  ultimately have "\<not> i < int (length s)" using "0.prems"(3) by auto
  then show ?case using "0.hyps" \<open>2 * j = length ds\<close> by (simp add: from_hex_loop.simps [of _ _ _ _ i])
next
  case (Suc n)
  have lds: "length ds = length s + (if odd (length s) then 1 else 0)" by (simp add: ds_def pad_even_def)
  have lt: "2 * j + 1 < length ds" using Suc.hyps(2) by linarith
  have il: "i < int (length s)" using lt Suc.prems(3) lds by (auto split: if_splits)
  have nth: "ds ! k = (if odd (length s) then (if k = 0 then 0 else parse_hex_char (schar (s ! (k - 1)))) else parse_hex_char (schar (s ! k)))"
    if "k < length ds" for k
    using that lds by (auto simp: ds_def pad_even_def nth_Cons' nth_map)
  have bh: "(if i \<ge> 0 then parse_hex_char (schar (s ! nat i)) else 0) = ds ! (2 * j)"
  proof (cases "odd (length s) \<and> j = 0")
    case True
    have "0 < length ds" using lt by linarith
    from nth [OF this] True show ?thesis using Suc.prems(3) by simp
  next
    case False
    then have "nat i = (if odd (length s) then 2 * j - 1 else 2 * j)" "i \<ge> 0" using Suc.prems(3) by auto
    then show ?thesis using nth [of "2 * j"] lt False by auto
  qed
  have "nat (i + 1) = (if odd (length s) then 2 * j else 2 * j + 1)" using Suc.prems(3) by auto
  then have bl: "parse_hex_char (schar (s ! nat (i + 1))) = ds ! (2 * j + 1)" using nth [of "2 * j + 1"] lt by auto
  have ne: "ds ! k \<noteq> - 1" if "k < length ds" for k
    using that ok lds unfolding nth [OF that] by (auto split: if_splits)
  let ?b = "word_of_int (ds ! (2 * j) * 16 + ds ! (2 * j + 1)) :: byte"
  have step: "from_hex_loop err s 0 (length s) i di bytes = from_hex_loop err s 0 (length s) (i + 2) (di - 1) (bytes[di := ?b])"
    using il bh bl ne [of "2 * j"] ne [of "2 * j + 1"] lt by (simp add: from_hex_loop.simps [of _ _ _ _ i] Let_def)
  have IH: "from_hex_loop err s 0 (length s) (i + 2) (di - 1) (bytes[di := ?b])
      = Inr (rev (drop (Suc j) (pair_bytes ds)) @ drop (length ds div 2 - Suc j) (bytes[di := ?b]))"
    by (rule Suc.hyps(1)) (use Suc.hyps(2) Suc.prems lt in auto)
  have dlt: "di < length bytes" "length ds div 2 - Suc j = di" "length ds div 2 - j = Suc di"
    using Suc.hyps(2) Suc.prems by auto
  have dr: "drop di (bytes[di := ?b]) = ?b # drop (Suc di) bytes"
    using dlt(1) by (metis Cons_nth_drop_Suc drop_update_cancel length_list_update lessI nth_list_update_eq)
  have "drop j (pair_bytes ds) = ?b # drop (Suc j) (pair_bytes ds)"
    using lt nth_pair_bytes [OF lt] by (metis Cons_nth_drop_Suc Suc.hyps(2) length_pair_bytes zero_less_Suc zero_less_diff)
  then show ?case using step IH dr dlt by simp
qed

lemma addr_from_hex_digits:
  fixes s :: string
  defines "P \<equiv> pair_bytes (pad_even (map (\<lambda>c. parse_hex_char (schar c)) s))"
  assumes ne: "s \<noteq> []" and len: "length s \<le> 2 * nb" and ok: "\<forall>c\<in>set s. parse_hex_char (schar c) \<noteq> - 1"
  shows "addr_from_hex err nb s = Inr (rev P @ replicate (nb - length P) 0)"
proof -
  let ?ds = "pad_even (map (\<lambda>c. parse_hex_char (schar c)) s)"
  have bad: "parse_hex_char (schar CHR ''L'') = - 1" "parse_hex_char (schar CHR ''x'') = - 1" by code_simp+
  have L: "s ! (length s - 1) \<noteq> CHR ''L''" using ok bad ne by (metis diff_less length_greater_0_conv less_one nth_mem)
  have x: "\<not> (length s \<ge> 2 \<and> s ! 0 = CHR ''0'' \<and> s ! 1 = CHR ''x'')"
    using ok bad by (metis Suc_1 Suc_le_lessD One_nat_def nth_mem)
  let ?i = "if odd (length s) then - 1 else 0 :: int"
  have eq: "addr_from_hex err nb s = from_hex_loop err s 0 (length s) ?i ((length s - 1) div 2) (replicate nb 0)"
    using L x ne len unfolding addr_from_hex_def Let_def by auto
  have di: "length ?ds div 2 - 1 - 0 = (length s - 1) div 2" "length ?ds \<le> 2 * length (replicate nb (0 :: byte))"
    using len ne by (auto simp: pad_even_def) presburger+
  have i: "?i = 2 * int 0 - (if odd (length s) then 1 else 0)" by simp
  show ?thesis
    using from_hex_loop_ok [OF ok _ di(2) i di(1) [symmetric], of err] unfolding eq by (simp add: P_def)
qed

lemma hex_digits_range: "d \<in> set (hex_digits bs) \<Longrightarrow> 0 \<le> d \<and> d < 16"
  using uint_byte by (auto simp: hex_digits_def)

lemma length_hex_digits [simp]: "length (hex_digits bs) = 2 * length bs"
  by (induction bs) (simp_all add: hex_digits_def)

lemma strip_zeros_split:
  assumes "ds \<noteq> []"
  shows "\<exists>k. ds = replicate k 0 @ strip_zeros ds"
proof (cases "dropWhile (\<lambda>d. d = 0) ds = []")
  case True
  then have z: "replicate (length ds) 0 = ds" by (simp add: dropWhile_eq_Nil_conv replicate_length_same)
  obtain n where "length ds = Suc n" using assms by (cases ds) auto
  with z have "replicate n 0 @ [0] = ds" by (simp add: replicate_append_same)
  then show ?thesis using True by (intro exI [of _ n]) (simp add: strip_zeros_def)
next
  case False
  have "\<forall>y\<in>set (takeWhile (\<lambda>d. d = 0) ds). y = 0" by (auto dest: set_takeWhileD)
  then have "takeWhile (\<lambda>d. d = 0) ds = replicate (length (takeWhile (\<lambda>d. d = 0) ds)) 0"
    by (rule replicate_length_same [symmetric])
  then show ?thesis using False takeWhile_dropWhile_id [of "\<lambda>d. d = 0" ds] by (metis strip_zeros_def)
qed

lemma addr_from_to_hex:
  assumes "bytes \<noteq> []"
  shows "addr_from_hex err (length bytes) (addr_to_hex bytes) = Inr bytes"
proof -
  define D where "D = hex_digits (rev bytes)"
  define sd where "sd = strip_zeros D"
  have D: "D \<noteq> []" "length D = 2 * length bytes"
    using assms by (simp_all add: D_def flip: length_greater_0_conv)
  obtain k where k: "D = replicate k 0 @ sd" using strip_zeros_split [OF D(1)] by (auto simp: sd_def)
  have rng: "0 \<le> d \<and> d < 16" if "d \<in> set sd" for d using that hex_digits_range [of d "rev bytes"] k D_def by auto
  have sdne: "sd \<noteq> []" by (simp add: sd_def strip_zeros_def Let_def)
  have str: "addr_to_hex bytes = map (\<lambda>d. render_hex_char d False) sd"
    using addr_to_hex_eq [OF assms] by (simp add: sd_def D_def)
  have dig: "map (\<lambda>c. parse_hex_char (schar c)) (addr_to_hex bytes) = sd"
    unfolding str map_map comp_def using rng parse_render_char by (simp add: map_idI)
  have ok: "\<forall>c\<in>set (addr_to_hex bytes). parse_hex_char (schar c) \<noteq> - 1"
    using rng dig by (metis (no_types, lifting) image_eqI list.set_map neg_0_le_iff_le not_one_le_zero)
  have len: "length sd \<le> 2 * length bytes" using k D by (metis le_add2 length_append)
  define q where "q = (if odd (length sd) then k - 1 else k)"
  have ev: "even (k + length sd)" using k D(2) by (metis even_mult_iff even_numeral length_append length_replicate)
  have qe: "even q" using ev k by (auto simp: q_def elim: oddE)
  have Dq: "D = replicate q 0 @ pad_even sd"
  proof (cases "odd (length sd)")
    case True
    then obtain k' where "k = Suc k'" using ev by (cases k) auto
    then show ?thesis using True k by (simp add: q_def pad_even_def replicate_app_Cons_same)
  next
    case False
    then show ?thesis using k by (simp add: q_def pad_even_def)
  qed
  have zq: "pair_bytes (replicate q 0) = replicate (q div 2) 0" using pair_bytes_zeros [of "q div 2"] qe by simp
  have "rev bytes = pair_bytes D" by (simp add: D_def pair_bytes_hex_digits)
  also have "\<dots> = replicate (q div 2) 0 @ pair_bytes (pad_even sd)"
    unfolding Dq using qe zq by (simp add: pair_bytes_append)
  finally have R: "rev bytes = replicate (q div 2) 0 @ pair_bytes (pad_even sd)" .
  then have "bytes = rev (pair_bytes (pad_even sd)) @ replicate (q div 2) 0"
    by (metis rev_append rev_replicate rev_rev_ident)
  moreover have "q div 2 = length bytes - length (pair_bytes (pad_even sd))"
    using R by (metis add_diff_cancel_right' length_append length_replicate length_rev)
  ultimately show ?thesis
    using addr_from_hex_digits [of "addr_to_hex bytes" "length bytes" err] sdne len ok
    unfolding dig by (simp add: str)
qed

end
