(* ===== verification/Addr_Family.thy ===== *)
theory Addr_Family
  imports OV_Prelude
begin

text \<open>
  What the two address classes (addr/ipv4.hpp, addr/ipv6.hpp) promise to the code that works with
  either of them: netmasks, prefix lengths, networks and extents over the numeric value of an address.
  The facts about networks are proved here once and interpreted on both classes.
\<close>

lemma div_eq_iff_bounds: "0 < k \<Longrightarrow> b div k = q \<longleftrightarrow> q * k \<le> b \<and> b < q * k + (k::nat)"
proof -
  assume k: "0 < k"
  have "b div k = q \<longleftrightarrow> q \<le> b div k \<and> b div k < q + 1" by linarith
  then show ?thesis using k by (simp only: less_eq_div_iff_mult_less_eq div_less_iff_less_mult) (simp add: add.commute)
qed

locale addr_family =
  fixes SIZE :: nat
    and val :: "'a \<Rightarrow> nat"
    and netmask :: "nat \<Rightarrow> 'a result"
    and prefix_len :: "'a \<Rightarrow> nat result"
    and network :: "'a \<Rightarrow> nat \<Rightarrow> 'a result"
    and extent :: "'a \<Rightarrow> 'a result"
  assumes val_bound: "val a < 2 ^ SIZE"
    and netmask_ok: "n \<le> SIZE \<Longrightarrow> \<exists>m. netmask n = Inr m \<and> prefix_len m = Inr n"
    and netmask_bad: "SIZE < n \<Longrightarrow> \<exists>e. netmask n = Inl e"
    and prefix_len_sound: "prefix_len m = Inr n \<Longrightarrow> n \<le> SIZE \<and> (\<exists>m'. netmask n = Inr m' \<and> val m' = val m)"
    and network_ok: "n \<le> SIZE \<Longrightarrow> \<exists>r. network a n = Inr r \<and> val r = val a div 2 ^ (SIZE - n) * 2 ^ (SIZE - n)"
    and network_bad: "SIZE < n \<Longrightarrow> \<exists>e. network a n = Inl e"
    and extent_ok: "prefix_len m = Inr n \<Longrightarrow> \<exists>e. extent m = Inr e \<and> val e = 2 ^ (SIZE - n) mod 2 ^ SIZE"
begin

text \<open>An address lies in its network, which is as large as the extent of the netmask.\<close>

lemma network_contains:
  assumes "network a n = Inr r"
  shows "n \<le> SIZE \<and> val r \<le> val a \<and> val a < val r + 2 ^ (SIZE - n) \<and> val r + 2 ^ (SIZE - n) \<le> 2 ^ SIZE"
proof -
  have n: "n \<le> SIZE" using assms network_bad [of n a] by (cases "n \<le> SIZE") auto
  let ?k = "2 ^ (SIZE - n) :: nat"
  have r: "val r = val a div ?k * ?k" using network_ok [OF n, of a] assms by auto
  have b: "val r \<le> val a" "val a < val r + ?k" using div_eq_iff_bounds [of ?k "val a" "val a div ?k"] r by simp_all
  have sz: "2 ^ SIZE = 2 ^ n * ?k" using n by (simp flip: power_add)
  have "val a div ?k < 2 ^ n" using val_bound [of a] unfolding sz by (simp add: less_mult_imp_div_less)
  then have "(val a div ?k + 1) * ?k \<le> 2 ^ n * ?k" by (intro mult_le_mono1) simp
  then have "val r + ?k \<le> 2 ^ SIZE" using r unfolding sz by simp
  with n b show ?thesis by simp
qed

text \<open>Two addresses share a network iff they agree above the host bits.\<close>

lemma network_eq_iff:
  assumes "network a n = Inr r" and "network b n = Inr s"
  shows "val r = val s \<longleftrightarrow> val a div 2 ^ (SIZE - n) = val b div 2 ^ (SIZE - n)"
proof -
  have n: "n \<le> SIZE" using network_contains [OF assms(1)] by simp
  show ?thesis using network_ok [OF n, of a] network_ok [OF n, of b] assms by auto
qed

lemma network_member:
  assumes "network a n = Inr r"
  shows "(\<exists>s. network b n = Inr s \<and> val s = val r) \<longleftrightarrow> val r \<le> val b \<and> val b < val r + 2 ^ (SIZE - n)"
proof -
  have n: "n \<le> SIZE" using network_contains [OF assms] by simp
  let ?k = "2 ^ (SIZE - n) :: nat"
  obtain s where s: "network b n = Inr s" "val s = val b div ?k * ?k" using network_ok [OF n] by blast
  have r: "val r = val a div ?k * ?k" using network_ok [OF n, of a] assms by auto
  have "val s = val r \<longleftrightarrow> val b div ?k = val a div ?k" using s r by auto
  also have "\<dots> \<longleftrightarrow> val a div ?k * ?k \<le> val b \<and> val b < val a div ?k * ?k + ?k"
    by (rule div_eq_iff_bounds) simp
  finally show ?thesis using s r by auto
qed

lemma network_idem:
  assumes "network a n = Inr r"
  shows "\<exists>s. network r n = Inr s \<and> val s = val r"
  unfolding network_member [OF assms] by simp

text \<open>A network of a shorter prefix absorbs one of a longer prefix.\<close>

lemma network_nested:
  assumes "network a n = Inr r" and "m \<le> n"
  shows "\<exists>s t. network r m = Inr s \<and> network a m = Inr t \<and> val s = val t"
proof -
  have n: "n \<le> SIZE" using network_contains [OF assms(1)] by simp
  have r: "val r = val a div 2 ^ (SIZE - n) * 2 ^ (SIZE - n)" using network_ok [OF n, of a] assms by auto
  have "(2::nat) ^ (SIZE - m) = 2 ^ (SIZE - n) * 2 ^ (n - m)" using n assms(2) by (simp flip: power_add)
  then have "val r div 2 ^ (SIZE - m) = val a div 2 ^ (SIZE - m)" by (simp add: r div_mult2_eq)
  then show ?thesis using network_ok [of m r] network_ok [of m a] n assms(2) by fastforce
qed

lemma prefix_len_unique:
  assumes "prefix_len m = Inr n" and "prefix_len m = Inr n'"
  shows "n = n'"
  using assms by simp

end

end
