(* ===== verification/IPv4_Addr.thy ===== *)
theory IPv4_Addr
  imports Addr_Hex Addr_Family
begin

text \<open>
  \<open>IPv4::Addr\<close> of addr/ipv4.hpp. The union holds one 32-bit integer in host order; its byte view is
  \<open>le_bytes 4\<close>. Conversions from and to asio, socket and printable forms, which belong to other
  libraries, are left out; a shift by the width or more and a division by zero, which C++ leaves
  undefined, are \<open>Inl undefined_behaviour\<close>.
\<close>

section \<open>Conversions\<close>

type_synonym ipv4 = u32

definition v4_SIZE :: nat where "v4_SIZE = 32"

definition v4_from_in_addr :: "u32 \<Rightarrow> ipv4" where "v4_from_in_addr s_addr = ntohl s_addr"
definition v4_to_in_addr :: "ipv4 \<Rightarrow> u32" where "v4_to_in_addr a = htonl a"
definition v4_from_uint32 :: "u32 \<Rightarrow> ipv4" where "v4_from_uint32 addr = addr"
definition v4_to_uint32 :: "ipv4 \<Rightarrow> u32" where "v4_to_uint32 a = a"
definition v4_from_uint32_net :: "u32 \<Rightarrow> ipv4" where "v4_from_uint32_net addr = ntohl addr"
definition v4_to_uint32_net :: "ipv4 \<Rightarrow> u32" where "v4_to_uint32_net a = htonl a"
definition v4_to_byte_string :: "ipv4 \<Rightarrow> byte list" where "v4_to_byte_string a = le_bytes 4 (ntohl a)"
definition v4_from_ulong :: "u64 \<Rightarrow> ipv4" where "v4_from_ulong ul = ucast ul"
definition v4_to_ulong :: "ipv4 \<Rightarrow> u64" where "v4_to_ulong a = ucast a"
definition v4_from_long :: "int \<Rightarrow> ipv4" where "v4_from_long l = word_of_int l"
definition v4_to_long :: "ipv4 \<Rightarrow> int" where "v4_to_long a = uint a"
definition v4_from_bytes :: "byte list \<Rightarrow> ipv4" where "v4_from_bytes bytes = le_word (take 4 bytes)"
definition v4_from_bytes_net :: "byte list \<Rightarrow> ipv4" where "v4_from_bytes_net bytes = ntohl (le_word (take 4 bytes))"
definition v4_from_zero :: ipv4 where "v4_from_zero = 0"
definition v4_from_one :: ipv4 where "v4_from_one = 1"
definition v4_from_zero_complement :: ipv4 where "v4_from_zero_complement = NOT 0"

definition v4_from_hex :: "string \<Rightarrow> ipv4 result" where
  "v4_from_hex s = bindR (addr_from_hex (ipv4_exception ''parse hex error'') 4 s) (\<lambda>bytes. Inr (le_word bytes))"

definition v4_to_hex :: "ipv4 \<Rightarrow> string" where
  "v4_to_hex a = addr_to_hex (le_bytes 4 a)"

section \<open>Arithmetic, comparison and tests\<close>

definition v4_and :: "ipv4 \<Rightarrow> ipv4 \<Rightarrow> ipv4" where "v4_and a b = a AND b"
definition v4_or :: "ipv4 \<Rightarrow> ipv4 \<Rightarrow> ipv4" where "v4_or a b = a OR b"
definition v4_add_long :: "ipv4 \<Rightarrow> int \<Rightarrow> ipv4" where "v4_add_long a delta = a + word_of_int delta"
definition v4_add :: "ipv4 \<Rightarrow> ipv4 \<Rightarrow> ipv4" where "v4_add a b = a + b"
definition v4_sub_long :: "ipv4 \<Rightarrow> int \<Rightarrow> ipv4" where "v4_sub_long a delta = v4_add_long a (- delta)"
definition v4_sub :: "ipv4 \<Rightarrow> ipv4 \<Rightarrow> ipv4" where "v4_sub a b = a - b"
definition v4_mult :: "ipv4 \<Rightarrow> ipv4 \<Rightarrow> ipv4" where "v4_mult a b = a * b"

definition v4_div :: "ipv4 \<Rightarrow> ipv4 \<Rightarrow> ipv4 result" where
  "v4_div a b = (if b = 0 then Inl undefined_behaviour else Inr (a div b))"

definition v4_mod :: "ipv4 \<Rightarrow> ipv4 \<Rightarrow> ipv4 result" where
  "v4_mod a b = (if b = 0 then Inl undefined_behaviour else Inr (a mod b))"

definition v4_shl :: "ipv4 \<Rightarrow> nat \<Rightarrow> ipv4 result" where
  "v4_shl a k = (if k \<ge> 32 then Inl undefined_behaviour else Inr (push_bit k a))"

definition v4_shr :: "ipv4 \<Rightarrow> nat \<Rightarrow> ipv4 result" where
  "v4_shr a k = (if k \<ge> 32 then Inl undefined_behaviour else Inr (drop_bit k a))"

definition v4_not :: "ipv4 \<Rightarrow> ipv4" where "v4_not a = NOT a"
definition v4_inc :: "ipv4 \<Rightarrow> ipv4" where "v4_inc a = a + 1"
definition v4_eq :: "ipv4 \<Rightarrow> ipv4 \<Rightarrow> bool" where "v4_eq a b \<longleftrightarrow> a = b"
definition v4_less :: "ipv4 \<Rightarrow> ipv4 \<Rightarrow> bool" where "v4_less a b \<longleftrightarrow> a < b"
definition v4_all_zeros :: "ipv4 \<Rightarrow> bool" where "v4_all_zeros a \<longleftrightarrow> a = 0"
definition v4_all_ones :: "ipv4 \<Rightarrow> bool" where "v4_all_ones a \<longleftrightarrow> NOT a = 0"
definition v4_unspecified :: "ipv4 \<Rightarrow> bool" where "v4_unspecified a \<longleftrightarrow> v4_all_zeros a"
definition v4_is_loopback :: "ipv4 \<Rightarrow> bool" where "v4_is_loopback a \<longleftrightarrow> a AND 0x7F000000 = 0x7F000000"

section \<open>Netmasks\<close>

definition v4_prefix_len_to_netmask_unchecked :: "nat \<Rightarrow> u32" where
  "v4_prefix_len_to_netmask_unchecked prefix_len =
     (if prefix_len \<noteq> 0 then NOT (push_bit (32 - prefix_len) 1 - 1) else 0)"

definition v4_prefix_len_to_netmask :: "nat \<Rightarrow> u32 result" where
  "v4_prefix_len_to_netmask prefix_len =
     (if prefix_len \<le> v4_SIZE then Inr (v4_prefix_len_to_netmask_unchecked prefix_len)
      else Inl (ipv4_exception ''bad prefix len''))"

definition v4_netmask_from_prefix_len :: "nat \<Rightarrow> ipv4 result" where
  "v4_netmask_from_prefix_len prefix_len = v4_prefix_len_to_netmask prefix_len"

definition v4_netmask_from_this_as_extent :: "ipv4 \<Rightarrow> ipv4 result" where
  "v4_netmask_from_this_as_extent a = (let lb = find_last_set (a - 1) in v4_netmask_from_prefix_len (32 - lb))"

text \<open>The bisection of \<open>prefix_len_32\<close>: at most five rounds, \<open>None\<close> is the result -1.\<close>

fun prefix_len_32_loop :: "nat \<Rightarrow> u32 \<Rightarrow> nat \<Rightarrow> nat \<Rightarrow> nat option" where
  "prefix_len_32_loop 0 addr high low = None"
| "prefix_len_32_loop (Suc i) addr high low =
     (let mid = (high + low) div 2; test = v4_prefix_len_to_netmask_unchecked mid
      in if addr = test then Some mid
         else if addr > test then prefix_len_32_loop i addr high mid
         else prefix_len_32_loop i addr mid low)"

definition prefix_len_32 :: "u32 \<Rightarrow> nat option" where
  "prefix_len_32 addr =
     (if addr = NOT 0 then Some 32 else if addr = 0 then Some 0 else prefix_len_32_loop 5 addr 32 1)"

definition v4_prefix_len :: "ipv4 \<Rightarrow> nat result" where
  "v4_prefix_len a =
     (case prefix_len_32 a of Some n \<Rightarrow> Inr n | None \<Rightarrow> Inl (ipv4_exception ''malformed netmask''))"

definition v4_host_len :: "ipv4 \<Rightarrow> nat result" where
  "v4_host_len a = bindR (v4_prefix_len a) (\<lambda>n. Inr (v4_SIZE - n))"

definition v4_extent_from_netmask :: "ipv4 \<Rightarrow> ipv4 result" where
  "v4_extent_from_netmask a =
     bindR (v4_host_len a) (\<lambda>hl.
       if hl < v4_SIZE then Inr (push_bit hl 1)
       else if hl = v4_SIZE then Inr 0
       else Inl (ipv4_exception ''extent overflow''))"

definition v4_network_addr :: "ipv4 \<Rightarrow> nat \<Rightarrow> ipv4 result" where
  "v4_network_addr a prefix_len = bindR (v4_prefix_len_to_netmask prefix_len) (\<lambda>m. Inr (a AND m))"

section \<open>Netmasks as bit patterns\<close>

lemma v4_netmask_eq: "n \<le> 32 \<Longrightarrow> v4_prefix_len_to_netmask_unchecked n = NOT (mask (32 - n))"
  by (auto simp: v4_prefix_len_to_netmask_unchecked_def mask_eq_exp_minus_1 push_bit_eq_mult)

lemma v4_netmask_and: "n \<le> 32 \<Longrightarrow> a AND v4_prefix_len_to_netmask_unchecked n = push_bit (32 - n) (drop_bit (32 - n) a)"
  by (rule bit_word_eqI) (auto simp: v4_netmask_eq bit_simps)

lemma prefix_len_32_netmask: "n \<le> 32 \<Longrightarrow> prefix_len_32 (v4_prefix_len_to_netmask_unchecked n) = Some n"
proof -
  have "\<forall>n\<in>set [0..<33]. prefix_len_32 (v4_prefix_len_to_netmask_unchecked n) = Some n" by code_simp
  then show "n \<le> 32 \<Longrightarrow> ?thesis" by simp
qed

lemma prefix_len_32_loop_sound:
  "prefix_len_32_loop k addr high low = Some n \<Longrightarrow> 1 \<le> low \<Longrightarrow> low \<le> high \<Longrightarrow> high \<le> 32 \<Longrightarrow>
     addr = v4_prefix_len_to_netmask_unchecked n \<and> n \<le> 32"
  by (induction k addr high low rule: prefix_len_32_loop.induct) (fastforce simp: Let_def split: if_splits)+

lemma prefix_len_32_sound:
  assumes "prefix_len_32 addr = Some n"
  shows "addr = v4_prefix_len_to_netmask_unchecked n \<and> n \<le> 32"
proof (cases "addr = NOT 0 \<or> addr = 0")
  case True
  then show ?thesis using assms
    by (auto simp: prefix_len_32_def v4_prefix_len_to_netmask_unchecked_def split: if_splits)
next
  case False
  then show ?thesis using assms prefix_len_32_loop_sound [of 5 addr 32 1 n] by (simp add: prefix_len_32_def)
qed

interpretation v4: addr_family v4_SIZE unat v4_netmask_from_prefix_len v4_prefix_len v4_network_addr v4_extent_from_netmask
proof unfold_locales
  fix a :: ipv4
  show "unat a < 2 ^ v4_SIZE" using unsigned_less [of a, where 'a=nat] by (simp add: v4_SIZE_def)
next
  fix n assume "n \<le> v4_SIZE"
  then show "\<exists>m. v4_netmask_from_prefix_len n = Inr m \<and> v4_prefix_len m = Inr n"
    by (simp add: v4_netmask_from_prefix_len_def v4_prefix_len_to_netmask_def v4_prefix_len_def prefix_len_32_netmask v4_SIZE_def)
next
  fix n assume "v4_SIZE < n"
  then show "\<exists>e. v4_netmask_from_prefix_len n = Inl e"
    by (simp add: v4_netmask_from_prefix_len_def v4_prefix_len_to_netmask_def)
next
  fix m n assume "v4_prefix_len m = Inr n"
  then have "prefix_len_32 m = Some n" by (simp add: v4_prefix_len_def split: option.splits)
  then show "n \<le> v4_SIZE \<and> (\<exists>m'. v4_netmask_from_prefix_len n = Inr m' \<and> unat m' = unat m)"
    using prefix_len_32_sound [of m n] by (simp add: v4_netmask_from_prefix_len_def v4_prefix_len_to_netmask_def v4_SIZE_def)
next
  fix n and a :: ipv4 assume "n \<le> v4_SIZE"
  then show "\<exists>r. v4_network_addr a n = Inr r \<and> unat r = unat a div 2 ^ (v4_SIZE - n) * 2 ^ (v4_SIZE - n)"
    by (simp add: v4_network_addr_def v4_prefix_len_to_netmask_def v4_SIZE_def v4_netmask_and unat_push_drop)
next
  fix n and a :: ipv4 assume "v4_SIZE < n"
  then show "\<exists>e. v4_network_addr a n = Inl e"
    by (simp add: v4_network_addr_def v4_prefix_len_to_netmask_def)
next
  fix m n assume p: "v4_prefix_len m = Inr n"
  then have "n \<le> 32" using prefix_len_32_sound [of m n] by (simp add: v4_prefix_len_def split: option.splits)
  then show "\<exists>e. v4_extent_from_netmask m = Inr e \<and> unat e = 2 ^ (v4_SIZE - n) mod 2 ^ v4_SIZE"
    using p unat_push_one [of "32 - n", where 'a=32] by (auto simp: v4_extent_from_netmask_def v4_host_len_def v4_SIZE_def)
qed

section \<open>Properties\<close>

text \<open>
  Netmasks and prefix lengths correspond: the bisection of \<open>prefix_len_32\<close> finds the prefix length
  of every netmask in its five rounds, and it accepts nothing else: an address that is the netmask of no
  prefix length is reported as malformed.
\<close>

lemma v4_netmask_prefix_len:
  assumes "n \<le> 32"
  shows "(v4_netmask_from_prefix_len n = Inr m \<longleftrightarrow> v4_prefix_len m = Inr n)
    \<and> ((\<exists>k\<le>32. v4_netmask_from_prefix_len k = Inr m) \<or> v4_prefix_len m = Inl (ipv4_exception ''malformed netmask''))"
proof -
  have iff: "v4_netmask_from_prefix_len k = Inr m \<longleftrightarrow> v4_prefix_len m = Inr k" if "k \<le> 32" for k
    using that v4.netmask_ok [of k] v4.prefix_len_sound [of m k] by (auto simp: v4_SIZE_def dest: word_unat_eq_iff [THEN iffD2])
  have "v4_prefix_len m = Inl (ipv4_exception ''malformed netmask'') \<or> (\<exists>k. v4_prefix_len m = Inr k)"
    by (simp add: v4_prefix_len_def split: option.splits)
  then show ?thesis using iff assms v4.prefix_len_sound [of m] by (auto simp: v4_SIZE_def)
qed

lemma find_last_set_pow: "k \<le> 32 \<Longrightarrow> find_last_set (push_bit k 1 - 1 :: u32) = k"
proof -
  have "\<forall>k\<in>set [0..<33]. find_last_set (push_bit k 1 - 1 :: u32) = k" by code_simp
  then show "k \<le> 32 \<Longrightarrow> ?thesis" by simp
qed

text \<open>
  The extent of a netmask is the number of addresses of its networks (zero for the whole address
  space, whose size does not fit), and \<open>netmask_from_this_as_extent\<close> recovers the netmask from it.
\<close>

lemma v4_extent_round_trip:
  assumes "v4_prefix_len m = Inr n"
  shows "\<exists>e. v4_extent_from_netmask m = Inr e \<and> unat e = 2 ^ (32 - n) mod 2 ^ 32
    \<and> v4_netmask_from_this_as_extent e = Inr m"
proof -
  have n: "n \<le> 32" and nm: "v4_netmask_from_prefix_len n = Inr m"
    using v4.prefix_len_sound [OF assms] by (auto simp: v4_SIZE_def word_unat_eq_iff)
  from v4.extent_ok [OF assms] obtain e where
    e: "v4_extent_from_netmask m = Inr e" "unat e = 2 ^ (32 - n) mod 2 ^ 32" by (auto simp: v4_SIZE_def)
  have "unat (push_bit (32 - n) 1 :: u32) = 2 ^ (32 - n) mod 2 ^ 32" using unat_push_one [of "32 - n", where 'a=32] by simp
  with e(2) have "e = push_bit (32 - n) 1" by (metis word_unat_eq_iff)
  then have "v4_netmask_from_this_as_extent e = Inr m"
    using n nm find_last_set_pow [of "32 - n"] by (simp add: v4_netmask_from_this_as_extent_def Let_def)
  with e show ?thesis by blast
qed

text \<open>
  \<open>network_addr\<close> gives the lowest address of the block of \<open>2^(32-n)\<close> addresses around an address:
  the address lies in the block, exactly the addresses of the block have this network, and the network is
  its own network. For a prefix length above 32 it throws.
\<close>

lemma v4_network_block:
  assumes "v4_network_addr a n = Inr r"
  shows "n \<le> 32 \<and> unat r \<le> unat a \<and> unat a < unat r + 2 ^ (32 - n) \<and> v4_network_addr r n = Inr r
    \<and> (v4_network_addr b n = Inr r \<longleftrightarrow> unat r \<le> unat b \<and> unat b < unat r + 2 ^ (32 - n))"
  using v4.network_contains [OF assms] v4.network_idem [OF assms] v4.network_member [OF assms, of b]
  by (auto simp: v4_SIZE_def word_unat_eq_iff)

text \<open>
  Every address survives the trip through its hexadecimal form and through its network-order bytes.
\<close>

lemma v4_hex_round_trip:
  "v4_from_hex (v4_to_hex a) = Inr a \<and> v4_from_bytes_net (v4_to_byte_string a) = a
    \<and> v4_from_uint32_net (v4_to_uint32_net a) = a \<and> v4_to_byte_string a = be_bytes 4 a"
proof -
  have "v4_to_byte_string a = be_bytes 4 a" by (simp add: v4_to_byte_string_def ntohl_def be_bytes_def)
  moreover have "le_bytes 4 a \<noteq> []" by (simp flip: length_greater_0_conv)
  ultimately show ?thesis
    using addr_from_to_hex [of "le_bytes 4 a" "ipv4_exception ''parse hex error''"]
    by (simp add: v4_from_hex_def v4_to_hex_def v4_from_bytes_net_def v4_from_uint32_net_def v4_to_uint32_net_def)
qed

text \<open>
  \<open>is_loopback\<close> holds for the addresses of 127.0.0.0/8 and also for those of 255.0.0.0/8: the test
  masks with 0x7F000000, which leaves out the top bit.
\<close>

lemma v4_is_loopback_iff: "v4_is_loopback a \<longleftrightarrow> unat a div 2 ^ 24 = 127 \<or> unat a div 2 ^ 24 = 255"
proof -
  let ?h = "drop_bit 24 a"
  have "a AND 0x7F000000 = push_bit 24 (take_bit 7 ?h)"
  proof -
    have "a AND push_bit 24 (mask 7) = push_bit 24 (take_bit 7 ?h)" by (rule bit_word_eqI) (auto simp: bit_simps)
    then show ?thesis by (simp add: mask_eq_exp_minus_1)
  qed
  moreover have "(0x7F000000 :: u32) = push_bit 24 127" by simp
  moreover have "push_bit 24 (take_bit 7 ?h) = push_bit 24 127 \<longleftrightarrow> take_bit 7 ?h = 127"
  proof
    assume "push_bit 24 (take_bit 7 ?h) = push_bit 24 (127 :: u32)"
    then have "unat (push_bit 24 (take_bit 7 ?h)) = unat (push_bit 24 (127 :: u32))" by simp
    moreover have "unat (take_bit 7 ?h) < 128" by (simp only: unsigned_take_bit_eq) (simp add: take_bit_eq_mod)
    ultimately show "take_bit 7 ?h = 127" by (simp add: unat_push_bit word_unat_eq_iff del: take_bit_word_def)
  qed simp
  moreover have "take_bit 7 ?h = 127 \<longleftrightarrow> (unat a div 2 ^ 24) mod 128 = 127"
    by (simp only: word_unat_eq_iff unsigned_take_bit_eq unat_drop_bit) (simp add: take_bit_eq_mod)
  moreover have "(unat a div 2 ^ 24) mod 128 = 127 \<longleftrightarrow> unat a div 2 ^ 24 = 127 \<or> unat a div 2 ^ 24 = 255"
  proof -
    define q where "q = unat a div 2 ^ 24"
    have "unat a < 256 * 2 ^ 24" using unsigned_less [of a, where 'a=nat] by simp
    then have "q < 256" unfolding q_def by (rule less_mult_imp_div_less)
    then show ?thesis unfolding q_def [symmetric] by (cases "q < 128") (auto simp: le_mod_geq)
  qed
  ultimately show ?thesis by (simp only: v4_is_loopback_def)
qed

end
