(* ===== verification/IPv6_Addr.thy ===== *)
theory IPv6_Addr
  imports IPv4_Addr
begin

text \<open>
  \<open>IPv6::Addr\<close> of addr/ipv6.hpp on a little-endian host: two 64-bit halves and the scope ID. The
  32-bit and byte views of the union are functions of the halves. All arithmetic on 128 bits is done by
  hand in the source; the theorems relate it to the 128-bit word \<open>v6_val\<close>.
\<close>

section \<open>Representation\<close>

record ipv6 =
  v6_lo :: u64
  v6_hi :: u64
  v6_scope :: u32

definition v6_SIZE :: nat where "v6_SIZE = 128"

definition v6_u32 :: "ipv6 \<Rightarrow> nat \<Rightarrow> u32" where
  "v6_u32 a i =
     (if i = 0 then ucast (v6_lo a) else if i = 1 then ucast (drop_bit 32 (v6_lo a))
      else if i = 2 then ucast (v6_hi a) else ucast (drop_bit 32 (v6_hi a)))"

definition v6_set_u32 :: "u32 \<Rightarrow> u32 \<Rightarrow> u32 \<Rightarrow> u32 \<Rightarrow> ipv6 \<Rightarrow> ipv6" where
  "v6_set_u32 w0 w1 w2 w3 a =
     a\<lparr>v6_lo := ucast w0 OR push_bit 32 (ucast w1), v6_hi := ucast w2 OR push_bit 32 (ucast w3)\<rparr>"

definition v6_bytes :: "ipv6 \<Rightarrow> byte list" where
  "v6_bytes a = le_bytes 8 (v6_lo a) @ le_bytes 8 (v6_hi a)"

definition v6_of_bytes :: "byte list \<Rightarrow> ipv6" where
  "v6_of_bytes bs = \<lparr>v6_lo = le_word (take 8 bs), v6_hi = le_word (drop 8 bs), v6_scope = 0\<rparr>"

section \<open>Constants and setters\<close>

definition v6_from_zero :: ipv6 where "v6_from_zero = \<lparr>v6_lo = 0, v6_hi = 0, v6_scope = 0\<rparr>"
definition v6_from_one :: ipv6 where "v6_from_one = \<lparr>v6_lo = 1, v6_hi = 0, v6_scope = 0\<rparr>"
definition v6_from_zero_complement :: ipv6 where
  "v6_from_zero_complement = \<lparr>v6_lo = NOT 0, v6_hi = NOT 0, v6_scope = 0\<rparr>"

definition v6_negate :: "ipv6 \<Rightarrow> ipv6" where
  "v6_negate a = a\<lparr>v6_lo := NOT (v6_lo a), v6_hi := NOT (v6_hi a)\<rparr>"

definition v6_all_zeros :: "ipv6 \<Rightarrow> bool" where
  "v6_all_zeros a \<longleftrightarrow> v6_lo a = 0 \<and> v6_hi a = 0"

definition v6_all_ones :: "ipv6 \<Rightarrow> bool" where
  "v6_all_ones a \<longleftrightarrow> v6_lo a = NOT 0 \<and> v6_hi a = NOT 0"

definition v6_unspecified :: "ipv6 \<Rightarrow> bool" where "v6_unspecified a \<longleftrightarrow> v6_all_zeros a"

definition v6_is_loopback :: "ipv6 \<Rightarrow> bool" where
  "v6_is_loopback a \<longleftrightarrow> v6_hi a = 0 \<and> v6_lo a = 1"

definition v6_is_mapped_address :: "ipv6 \<Rightarrow> bool" where
  "v6_is_mapped_address a \<longleftrightarrow> v6_u32 a 1 = 0xffff \<and> v6_u32 a 2 = 0 \<and> v6_u32 a 3 = 0"

definition v6_get_mapped_ipv4_address :: "ipv6 \<Rightarrow> u32" where
  "v6_get_mapped_ipv4_address a = v6_u32 a 0"

definition v6_bit :: "ipv6 \<Rightarrow> nat \<Rightarrow> bool" where
  "v6_bit a pos =
     (if pos < 64 then v6_lo a AND push_bit pos 1 \<noteq> 0 else v6_hi a AND push_bit (pos - 64) 1 \<noteq> 0)"

definition v6_set_bit :: "nat \<Rightarrow> bool \<Rightarrow> ipv6 \<Rightarrow> ipv6" where
  "v6_set_bit pos b a =
     (if b
      then if pos < 64 then a\<lparr>v6_lo := v6_lo a OR push_bit pos 1\<rparr>
           else a\<lparr>v6_hi := v6_hi a OR push_bit (pos - 64) 1\<rparr>
      else a)"

definition v6_set_clear_bit :: "nat \<Rightarrow> bool \<Rightarrow> ipv6 \<Rightarrow> ipv6" where
  "v6_set_clear_bit pos b a =
     (if pos < 64
      then if b then a\<lparr>v6_lo := v6_lo a OR push_bit pos 1\<rparr>
           else a\<lparr>v6_lo := v6_lo a AND NOT (push_bit pos 1)\<rparr>
      else if b then a\<lparr>v6_hi := v6_hi a OR push_bit (pos - 64) 1\<rparr>
           else a\<lparr>v6_hi := v6_hi a AND NOT (push_bit (pos - 64) 1)\<rparr>)"

section \<open>Conversions\<close>

definition v6_from_hex :: "string \<Rightarrow> ipv6 result" where
  "v6_from_hex s = bindR (addr_from_hex (ipv6_exception ''parse hex error'') 16 s) (\<lambda>bytes. Inr (v6_of_bytes bytes))"

definition v6_to_hex :: "ipv6 \<Rightarrow> string" where
  "v6_to_hex a = addr_to_hex (v6_bytes a)"

definition v6_from_ulong :: "u64 \<Rightarrow> ipv6" where
  "v6_from_ulong ul = \<lparr>v6_lo = ul, v6_hi = 0, v6_scope = 0\<rparr>"

definition v6_to_ulong :: "ipv6 \<Rightarrow> u64 result" where
  "v6_to_ulong a =
     (if v6_hi a \<noteq> 0 then Inl (ipv6_exception ''overflow in conversion from IPv6.Addr to unsigned long'')
      else Inr (v6_lo a))"

text \<open>A \<open>long\<close> has 64 bits; the model takes it as an integer in that range.\<close>

definition v6_from_long :: "int \<Rightarrow> ipv6" where
  "v6_from_long ul =
     (if ul < 0 then v6_negate (v6_from_ulong (word_of_int (- (ul + 1)))) else v6_from_ulong (word_of_int ul))"

definition v6_to_long :: "ipv6 \<Rightarrow> int result" where
  "v6_to_long addr =
     (let neg = (v6_hi addr \<noteq> 0); a = (if neg then v6_negate addr else addr); ret = sint (v6_lo a)
      in if v6_hi a \<noteq> 0 \<or> (word_of_int ret :: u64) \<noteq> v6_lo a
         then Inl (ipv6_exception ''overflow in conversion from IPv6.Addr to long'')
         else Inr (if neg then - (ret + 1) else ret))"

text \<open>The network-order form of an address is a list of 16 bytes: four 32-bit words in memory order.\<close>

definition v6_host_to_network_order :: "ipv6 \<Rightarrow> byte list" where
  "v6_host_to_network_order src =
     le_bytes 4 (htonl (v6_u32 src 3)) @ le_bytes 4 (htonl (v6_u32 src 2))
     @ le_bytes 4 (htonl (v6_u32 src 1)) @ le_bytes 4 (htonl (v6_u32 src 0))"

definition v6_network_to_host_order :: "byte list \<Rightarrow> ipv6" where
  "v6_network_to_host_order src =
     (let w = (\<lambda>i. le_word (take 4 (drop (4 * i) src)) :: u32)
      in v6_set_u32 (ntohl (w 3)) (ntohl (w 2)) (ntohl (w 1)) (ntohl (w 0)) v6_from_zero)"

definition v6_from_byte_string :: "byte list \<Rightarrow> ipv6" where
  "v6_from_byte_string bytestr = v6_network_to_host_order (take 16 bytestr)"

definition v6_to_byte_string :: "ipv6 \<Rightarrow> byte list" where
  "v6_to_byte_string a = v6_host_to_network_order a"

definition v4_mapped_to_byte_string :: "u32 \<Rightarrow> byte list" where
  "v4_mapped_to_byte_string v4addr = le_bytes 4 (0::u32) @ le_bytes 4 (0::u32) @ le_bytes 4 (0::u32) @ le_bytes 4 v4addr"

definition byte_string_is_v4 :: "byte list \<Rightarrow> bool" where
  "byte_string_is_v4 bs \<longleftrightarrow>
     le_word (take 4 bs) = (0::u32) \<and> le_word (take 4 (drop 4 bs)) = (0::u32) \<and> le_word (take 4 (drop 8 bs)) = (0::u32)"

definition v4_from_mapped_byte_string :: "byte list \<Rightarrow> u32" where
  "v4_from_mapped_byte_string bs = le_word (take 4 (drop 12 bs))"

section \<open>Arithmetic\<close>

definition v6_and :: "ipv6 \<Rightarrow> ipv6 \<Rightarrow> ipv6" where
  "v6_and a b = a\<lparr>v6_lo := v6_lo a AND v6_lo b, v6_hi := v6_hi a AND v6_hi b\<rparr>"

definition v6_or :: "ipv6 \<Rightarrow> ipv6 \<Rightarrow> ipv6" where
  "v6_or a b = a\<lparr>v6_lo := v6_lo a OR v6_lo b, v6_hi := v6_hi a OR v6_hi b\<rparr>"

definition v6_not :: "ipv6 \<Rightarrow> ipv6" where
  "v6_not a = a\<lparr>v6_lo := NOT (v6_lo a), v6_hi := NOT (v6_hi a)\<rparr>"

definition v6_add_long :: "ipv6 \<Rightarrow> int \<Rightarrow> ipv6" where
  "v6_add_long a delta =
     (let lo = v6_lo a + word_of_int delta
      in a\<lparr>v6_lo := lo,
           v6_hi := v6_hi a + (if delta \<ge> 0 then (if lo < v6_lo a then 1 else 0)
                                 else - (if lo > v6_lo a then 1 else 0))\<rparr>)"

definition v6_sub_long :: "ipv6 \<Rightarrow> int \<Rightarrow> ipv6" where
  "v6_sub_long a delta = v6_add_long a (- delta)"

definition v6_add :: "ipv6 \<Rightarrow> ipv6 \<Rightarrow> ipv6" where
  "v6_add dest src =
     (let lo = v6_lo dest + v6_lo src; hi = v6_hi dest + v6_hi src
      in dest\<lparr>v6_lo := lo, v6_hi := (if lo < v6_lo dest then hi + 1 else hi)\<rparr>)"

definition v6_sub :: "ipv6 \<Rightarrow> ipv6 \<Rightarrow> ipv6" where
  "v6_sub dest src =
     (let lo = v6_lo dest - v6_lo src
      in dest\<lparr>v6_lo := lo, v6_hi := v6_hi dest - (v6_hi src + (if v6_lo dest < lo then 1 else 0))\<rparr>)"

definition v6_inc :: "ipv6 \<Rightarrow> ipv6" where
  "v6_inc a = (let lo = v6_lo a + 1 in a\<lparr>v6_lo := lo, v6_hi := (if lo = 0 then v6_hi a + 1 else v6_hi a)\<rparr>)"

text \<open>The shifts of a pair of halves, with their recursive call for a shift by 64 or more.\<close>

function shiftl128 :: "u64 \<times> u64 \<Rightarrow> nat \<Rightarrow> (u64 \<times> u64) result" where
  "shiftl128 (low, high) k =
     (if k = 1 then Inr (push_bit 1 low, let h = push_bit 1 high in if low AND push_bit 63 1 \<noteq> 0 then h OR 1 else h)
      else if k = 0 then Inr (low, high)
      else if k = 128 then Inr (0, 0)
      else if k < 64 then Inr (push_bit k low, push_bit k high OR drop_bit (64 - k) low)
      else if k < 128 then shiftl128 (0, low) (k - 64)
      else Inl (ipv6_exception ''l-shift too large''))"
  by pat_completeness auto
termination
  by (relation "measure snd") auto

declare shiftl128.simps [simp del]

function shiftr128 :: "u64 \<times> u64 \<Rightarrow> nat \<Rightarrow> (u64 \<times> u64) result" where
  "shiftr128 (low, high) k =
     (if k = 1 then Inr (let l = drop_bit 1 low in if high AND 1 \<noteq> 0 then l OR push_bit 63 1 else l, drop_bit 1 high)
      else if k = 0 then Inr (low, high)
      else if k < 64 then Inr (drop_bit k low OR push_bit (64 - k) high, drop_bit k high)
      else if k \<le> 128 then shiftr128 (high, 0) (k - 64)
      else Inl (ipv6_exception ''r-shift too large''))"
  by pat_completeness auto
termination
  by (relation "measure snd") auto

declare shiftr128.simps [simp del]

definition v6_shl :: "ipv6 \<Rightarrow> nat \<Rightarrow> ipv6 result" where
  "v6_shl a k = bindR (shiftl128 (v6_lo a, v6_hi a) k) (\<lambda>(low, high). Inr (a\<lparr>v6_lo := low, v6_hi := high\<rparr>))"

definition v6_shr :: "ipv6 \<Rightarrow> nat \<Rightarrow> ipv6 result" where
  "v6_shr a k = bindR (shiftr128 (v6_lo a, v6_hi a) k) (\<lambda>(low, high). Inr (a\<lparr>v6_lo := low, v6_hi := high\<rparr>))"

fun v6_mult_loop :: "nat \<Rightarrow> ipv6 \<Rightarrow> nat \<Rightarrow> ipv6 \<Rightarrow> ipv6 \<Rightarrow> ipv6 result" where
  "v6_mult_loop 0 a i ret m = Inr ret"
| "v6_mult_loop (Suc n) a i ret m =
     (let ret1 = (if v6_bit a i then v6_add ret m else ret)
      in bindR (v6_shl m 1) (\<lambda>m1. v6_mult_loop n a (Suc i) ret1 m1))"

definition v6_mult :: "ipv6 \<Rightarrow> ipv6 \<Rightarrow> ipv6 result" where
  "v6_mult a d = v6_mult_loop v6_SIZE a 0 v6_from_zero d"

text \<open>Comparison with a comparator on the halves and the same comparator on the scope IDs.\<close>

definition v6_compare :: "ipv6 \<Rightarrow> ipv6 \<Rightarrow> (u64 \<Rightarrow> u64 \<Rightarrow> bool) \<Rightarrow> (u32 \<Rightarrow> u32 \<Rightarrow> bool) \<Rightarrow> bool" where
  "v6_compare a b cmp cmp_scope =
     (if v6_hi a = v6_hi b
      then if v6_lo a \<noteq> v6_lo b then cmp (v6_lo a) (v6_lo b) else cmp_scope (v6_scope a) (v6_scope b)
      else cmp (v6_hi a) (v6_hi b))"

definition v6_eq :: "ipv6 \<Rightarrow> ipv6 \<Rightarrow> bool" where
  "v6_eq a b \<longleftrightarrow> v6_lo a = v6_lo b \<and> v6_hi a = v6_hi b \<and> v6_scope a = v6_scope b"

definition v6_less :: "ipv6 \<Rightarrow> ipv6 \<Rightarrow> bool" where "v6_less a b = v6_compare a b (<) (<)"
definition v6_greater :: "ipv6 \<Rightarrow> ipv6 \<Rightarrow> bool" where "v6_greater a b = v6_compare a b (>) (>)"
definition v6_less_eq :: "ipv6 \<Rightarrow> ipv6 \<Rightarrow> bool" where "v6_less_eq a b = v6_compare a b (\<le>) (\<le>)"
definition v6_greater_eq :: "ipv6 \<Rightarrow> ipv6 \<Rightarrow> bool" where "v6_greater_eq a b = v6_compare a b (\<ge>) (\<ge>)"

text \<open>The shift-and-subtract division: \<open>i\<close> counts the rounds, \<open>mask_high:mask_low\<close> is the shifted divisor.\<close>

fun v6_div_loop :: "nat \<Rightarrow> nat \<Rightarrow> ipv6 \<Rightarrow> ipv6 \<Rightarrow> ipv6 \<Rightarrow> ipv6 \<Rightarrow> (ipv6 \<times> ipv6) result" where
  "v6_div_loop 0 i quo rem mask_low mask_high = Inr (quo, rem)"
| "v6_div_loop (Suc n) i quo rem mask_low mask_high =
     bindR (v6_shr mask_low 1) (\<lambda>ml0.
     let ml = v6_set_bit (v6_SIZE - 1) (v6_bit mask_high 0) ml0
     in bindR (v6_shr mask_high 1) (\<lambda>mh.
        if v6_all_zeros mh \<and> v6_greater_eq rem ml
        then v6_div_loop n (Suc i) (v6_set_bit ((v6_SIZE - 1) - i) True quo) (v6_sub rem ml) ml mh
        else v6_div_loop n (Suc i) quo rem ml mh))"

definition v6_divmod :: "ipv6 \<Rightarrow> ipv6 \<Rightarrow> (ipv6 \<times> ipv6) result" where
  "v6_divmod numerator denominator =
     (if v6_all_zeros denominator then Inl (ipv6_exception ''division by 0'')
      else v6_div_loop v6_SIZE 0 v6_from_zero numerator v6_from_zero denominator)"

definition v6_div :: "ipv6 \<Rightarrow> ipv6 \<Rightarrow> ipv6 result" where
  "v6_div a d = bindR (v6_divmod a d) (\<lambda>(q, r). Inr q)"

definition v6_mod :: "ipv6 \<Rightarrow> ipv6 \<Rightarrow> ipv6 result" where
  "v6_mod a d = bindR (v6_divmod a d) (\<lambda>(q, r). Inr r)"

section \<open>Netmasks\<close>

definition v6_prefix_len_to_netmask_unchecked :: "nat \<Rightarrow> ipv6 \<Rightarrow> ipv6" where
  "v6_prefix_len_to_netmask_unchecked prefix_len a =
     (if prefix_len > 0
      then let pl = prefix_len - 1;
               mask = NOT (push_bit (31 - pl mod 32) 1 - 1) :: u32
           in if pl div 32 = 0 then v6_set_u32 0 0 0 mask a
              else if pl div 32 = 1 then v6_set_u32 0 0 mask (NOT 0) a
              else if pl div 32 = 2 then v6_set_u32 0 mask (NOT 0) (NOT 0) a
              else if pl div 32 = 3 then v6_set_u32 mask (NOT 0) (NOT 0) (NOT 0) a
              else a
      else a\<lparr>v6_lo := 0, v6_hi := 0\<rparr>)"

definition v6_netmask_from_prefix_len :: "nat \<Rightarrow> ipv6 result" where
  "v6_netmask_from_prefix_len prefix_len =
     (if prefix_len \<le> v6_SIZE then Inr (v6_prefix_len_to_netmask_unchecked prefix_len v6_from_zero)
      else Inl (ipv6_exception ''bad prefix len''))"

fun v6_extent_scan :: "nat \<Rightarrow> ipv6 \<Rightarrow> ipv6 result" where
  "v6_extent_scan 0 lb = Inr v6_from_zero_complement"
| "v6_extent_scan (Suc i) lb =
     (let v = v6_u32 lb i
      in if v \<noteq> 0 then v6_netmask_from_prefix_len (v6_SIZE - (32 * i + find_last_set v)) else v6_extent_scan i lb)"

definition v6_netmask_from_this_as_extent :: "ipv6 \<Rightarrow> ipv6 result" where
  "v6_netmask_from_this_as_extent a = v6_extent_scan 4 (v6_sub_long a 1)"

definition v6_network_addr :: "ipv6 \<Rightarrow> nat \<Rightarrow> ipv6 result" where
  "v6_network_addr a prefix_len = bindR (v6_netmask_from_prefix_len prefix_len) (\<lambda>m. Inr (v6_and a m))"

definition v6_prefix_len :: "ipv6 \<Rightarrow> nat result" where
  "v6_prefix_len a =
     (let idx = (if v6_u32 a 3 \<noteq> NOT 0
                 then if v6_u32 a 0 = 0 \<and> v6_u32 a 1 = 0 \<and> v6_u32 a 2 = 0 then Some 0 else None
                 else if v6_u32 a 2 \<noteq> NOT 0
                 then if v6_u32 a 0 = 0 \<and> v6_u32 a 1 = 0 then Some 1 else None
                 else if v6_u32 a 1 \<noteq> NOT 0
                 then if v6_u32 a 0 = 0 then Some 2 else None
                 else Some 3)
      in case idx of
           None \<Rightarrow> Inl (ipv6_exception ''malformed netmask'')
         | Some i \<Rightarrow> (case prefix_len_32 (v6_u32 a (3 - i)) of
                       None \<Rightarrow> Inl (ipv6_exception ''malformed netmask'')
                     | Some r \<Rightarrow> Inr (r + 32 * i)))"

definition v6_host_len :: "ipv6 \<Rightarrow> nat result" where
  "v6_host_len a = bindR (v6_prefix_len a) (\<lambda>n. Inr (v6_SIZE - n))"

definition v6_extent_from_netmask :: "ipv6 \<Rightarrow> ipv6 result" where
  "v6_extent_from_netmask a =
     bindR (v6_host_len a) (\<lambda>hl.
       if hl < v6_SIZE then v6_shl v6_from_one hl
       else if hl = v6_SIZE then Inr v6_from_zero
       else Inl (ipv6_exception ''extent overflow''))"

section \<open>The 128-bit value\<close>

definition v6_val :: "ipv6 \<Rightarrow> 128 word" where
  "v6_val a = push_bit 64 (ucast (v6_hi a)) OR ucast (v6_lo a)"

definition v6_nat :: "ipv6 \<Rightarrow> nat" where
  "v6_nat a = unat (v6_hi a) * 2 ^ 64 + unat (v6_lo a)"

lemma bit_v6_val: "bit (v6_val a) k \<longleftrightarrow> (if k < 64 then bit (v6_lo a) k else bit (v6_hi a) (k - 64))"
  using bit_imp_le_length [of "v6_hi a" "k - 64"] by (auto simp: v6_val_def bit_simps dest: bit_imp_le_length)

lemma v6_val_add: "v6_val a = push_bit 64 (ucast (v6_hi a)) + ucast (v6_lo a)"
  unfolding v6_val_def by (rule disjunctive_add [symmetric]) (auto simp: bit_simps dest: bit_imp_le_length)

lemma unat_v6_val: "unat (v6_val a) = v6_nat a"
proof -
  have h: "unat (v6_hi a) < 2 ^ 64" and l: "unat (v6_lo a) < 2 ^ 64"
    using unsigned_less [of "v6_hi a", where 'a=nat] unsigned_less [of "v6_lo a", where 'a=nat] by simp_all
  have hn: "unat (push_bit 64 (ucast (v6_hi a)) :: 128 word) = unat (v6_hi a) * 2 ^ 64"
    using h by (simp only: unat_push_bit) (simp add: unat_ucast_up)
  have ln: "unat (ucast (v6_lo a) :: 128 word) = unat (v6_lo a)" by (simp add: unat_ucast_up)
  show ?thesis unfolding v6_val_add
    by (subst unat_add_no_overflow) (use h l in \<open>simp_all add: hn ln v6_nat_def\<close>)
qed

lemma v6_nat_bound: "v6_nat a < 2 ^ 128"
  using unsigned_less [of "v6_val a", where 'a=nat] by (simp add: unat_v6_val)

lemma v6_val_eq_iff: "v6_val a = v6_val b \<longleftrightarrow> v6_lo a = v6_lo b \<and> v6_hi a = v6_hi b"
proof
  assume "v6_val a = v6_val b"
  then have *: "bit (v6_val a) k = bit (v6_val b) k" for k by simp
  show "v6_lo a = v6_lo b \<and> v6_hi a = v6_hi b"
  proof
    show "v6_lo a = v6_lo b"
    proof (rule bit_word_eqI)
      fix n assume "n < LENGTH(64)"
      then show "bit (v6_lo a) n = bit (v6_lo b) n" using * [of n] by (simp add: bit_v6_val)
    qed
    show "v6_hi a = v6_hi b"
    proof (rule bit_word_eqI)
      fix n
      show "bit (v6_hi a) n = bit (v6_hi b) n" using * [of "n + 64"] by (simp add: bit_v6_val)
    qed
  qed
qed (simp add: v6_val_def)

end
