(* ===== verification/IPv6_Arith.thy ===== *)
theory IPv6_Arith
  imports IPv6_Addr
begin

text \<open>
  The arithmetic of addr/ipv6.hpp refines arithmetic on 128-bit words: carries and borrows between the
  halves, the shifts, the shift-and-add product, the shift-and-subtract division and the comparisons.
\<close>

section \<open>Halves\<close>

definition hi128 :: "u64 \<Rightarrow> 128 word" where "hi128 x = of_nat (unat x) * 2 ^ 64"
definition lo128 :: "u64 \<Rightarrow> 128 word" where "lo128 x = of_nat (unat x)"

lemma v6_val_split: "v6_val a = hi128 (v6_hi a) + lo128 (v6_lo a)"
proof -
  have "v6_val a = of_nat (unat (v6_val a))" by simp
  also have "\<dots> = of_nat (v6_nat a)" by (simp only: unat_v6_val)
  finally show ?thesis by (simp add: v6_nat_def hi128_def lo128_def)
qed

lemma v6_val_of_nat: "v6_val a = of_nat (v6_nat a)"
  by (simp add: v6_val_split v6_nat_def hi128_def lo128_def)

lemma of_nat_mod_H: "of_nat (n mod 2 ^ 64) * 2 ^ 64 = (of_nat n * 2 ^ 64 :: 128 word)"
proof -
  have "of_nat (n mod 2 ^ 64) * 2 ^ 64 = (of_nat ((n mod 2 ^ 64) * 2 ^ 64) :: 128 word)" by simp
  also have "(n mod 2 ^ 64) * 2 ^ 64 = (n * 2 ^ 64) mod (2 ^ 64 * 2 ^ 64)" by (rule mult_mod_left)
  also have "2 ^ 64 * 2 ^ 64 = (2 ^ LENGTH(128) :: nat)" by simp
  also have "of_nat (n * 2 ^ 64 mod 2 ^ LENGTH(128)) = (of_nat (n * 2 ^ 64) :: 128 word)"
    by (simp only: word_unat_eq_iff unat_of_nat mod_mod_trivial)
  finally show ?thesis by simp
qed

lemma hi128_add: "hi128 (x + y) = hi128 x + hi128 y"
proof -
  have "unat (x + y) = (unat x + unat y) mod 2 ^ 64" by (simp add: unat_word_ariths)
  then have "hi128 (x + y) = of_nat (unat x + unat y) * 2 ^ 64" unfolding hi128_def by (simp only: of_nat_mod_H)
  then show ?thesis by (simp add: hi128_def distrib_right)
qed

lemma hi128_1 [simp]: "hi128 1 = 2 ^ 64" "hi128 0 = 0"
  by (simp_all add: hi128_def)

lemma hi128_diff: "hi128 (x - y) = hi128 x - hi128 y"
  using hi128_add [of "x - y" y] by simp

lemma hi128_minus: "hi128 (- x) = - hi128 x"
  using hi128_diff [of 0 x] by simp

lemma unat_add_carry:
  "unat (x + y :: u64) = (if x + y < x then unat x + unat y - 2 ^ 64 else unat x + unat y)
    \<and> (x + y < x \<longrightarrow> 2 ^ 64 \<le> unat x + unat y)"
proof -
  have u: "unat x < 2 ^ 64" "unat y < 2 ^ 64"
    using unsigned_less [of x, where 'a=nat] unsigned_less [of y, where 'a=nat] by simp_all
  have s: "unat (x + y) = (if unat x + unat y < 2 ^ 64 then unat x + unat y else unat x + unat y - 2 ^ 64)"
    using u by (simp add: unat_word_ariths mod_if)
  then have "x + y < x \<longleftrightarrow> \<not> unat x + unat y < 2 ^ 64" using u by (auto simp: word_less_nat_alt)
  with s show ?thesis by auto
qed

lemma lo128_add: "lo128 (x + y) = lo128 x + lo128 y - (if x + y < x then 2 ^ 64 else 0)"
  using unat_add_carry [of x y] unfolding lo128_def by (auto simp: of_nat_diff simp del: of_nat_unat)

lemma lo128_diff: "lo128 (x - y) = lo128 x - lo128 y + (if x < x - y then 2 ^ 64 else 0)"
proof -
  have "x < x - y \<longleftrightarrow> (x - y) + y < x - y" by simp
  then show ?thesis using lo128_add [of "x - y" y] by (auto split: if_splits simp: algebra_simps)
qed

section \<open>Sums and differences\<close>

lemma v6_val_v6_add: "v6_val (v6_add a b) = v6_val a + v6_val b"
  by (simp add: v6_add_def v6_val_split Let_def hi128_add lo128_add algebra_simps)

lemma v6_val_v6_sub: "v6_val (v6_sub a b) = v6_val a - v6_val b"
  by (simp add: v6_sub_def v6_val_split Let_def hi128_add hi128_diff lo128_diff algebra_simps)

lemma wrap_inc: "(x :: u64) + 1 = 0 \<longleftrightarrow> x + 1 < x"
proof (cases "x + 1 = 0")
  case True
  then have "x = - 1" by (simp add: eq_neg_iff_add_eq_0)
  then show ?thesis by (simp add: word_gt_0)
next
  case False
  then show ?thesis using unat_inc [of x] by (simp add: word_less_nat_alt)
qed

lemma v6_val_v6_inc: "v6_val (v6_inc a) = v6_val a + 1"
proof -
  have "lo128 1 = 1" by (simp add: lo128_def)
  then show ?thesis by (simp add: v6_inc_def v6_val_split Let_def hi128_add lo128_add wrap_inc)
qed

lemma lo128_of_nat: "n < 2 ^ 64 \<Longrightarrow> lo128 (of_nat n) = of_nat n"
  by (simp add: lo128_def unat_of_nat)

lemma v6_val_v6_add_long:
  assumes "- (2 ^ 63) \<le> d" and "d < 2 ^ 63"
  shows "v6_val (v6_add_long a d) = v6_val a + word_of_int d"
proof (cases "0 \<le> d")
  case True
  define n where "n = nat d"
  have d: "d = int n" "n < 2 ^ 64" using True assms by (simp_all add: n_def)
  have "lo128 (word_of_int d) = word_of_int d" using lo128_of_nat [OF d(2)] d(1) by simp
  then show ?thesis using True lo128_add [of "v6_lo a" "word_of_int d"]
    by (auto simp: v6_add_long_def v6_val_split Let_def hi128_add algebra_simps)
next
  case False
  define n where "n = nat (- d)"
  have d: "d = - int n" "n < 2 ^ 64" using False assms by (simp_all add: n_def)
  have "lo128 (of_nat n) = of_nat n" by (rule lo128_of_nat [OF d(2)])
  then show ?thesis using False lo128_diff [of "v6_lo a" "of_nat n"]
    by (auto simp: d(1) v6_add_long_def v6_val_split Let_def hi128_add hi128_minus hi128_diff algebra_simps)
qed

section \<open>Bits and shifts\<close>

lemma and_push_bit_1: "(x :: 'a::len word) AND push_bit n 1 \<noteq> 0 \<longleftrightarrow> bit x n"
proof -
  have "x AND push_bit n 1 \<noteq> 0 \<longleftrightarrow> (\<exists>k. bit (x AND push_bit n 1) k)" by (metis bit_0_eq bit_eqI bot_apply bot_bool_def)
  also have "\<dots> \<longleftrightarrow> bit x n" by (auto simp: bit_simps dest: bit_imp_le_length)
  finally show ?thesis .
qed

lemma and_1: "(x :: 'a::len word) AND 1 \<noteq> 0 \<longleftrightarrow> bit x 0"
  using and_push_bit_1 [of x 0] by simp

lemma v6_bit_val: "pos < 128 \<Longrightarrow> v6_bit a pos = bit (v6_val a) pos"
  by (simp only: v6_bit_def bit_v6_val and_push_bit_1)

definition halves :: "u64 \<times> u64 \<Rightarrow> 128 word" where
  "halves lh = v6_val \<lparr>v6_lo = fst lh, v6_hi = snd lh, v6_scope = 0\<rparr>"

lemma bit_halves: "bit (halves (lo, hi)) k \<longleftrightarrow> (if k < 64 then bit lo k else bit hi (k - 64))"
  by (simp add: halves_def bit_v6_val)

lemma v6_val_halves: "v6_val (a\<lparr>v6_lo := lo, v6_hi := hi\<rparr>) = halves (lo, hi)" "v6_val a = halves (v6_lo a, v6_hi a)"
  by (simp_all add: halves_def v6_val_def)

lemma bit64: "bit (x :: u64) n \<Longrightarrow> n < 64"
  using bit_imp_le_length [of x n] by simp

text \<open>The special cases for a shift by one are instances of the general formula.\<close>

lemma push_out: "LENGTH('a) \<le> k \<Longrightarrow> push_bit k (x :: 'a::len word) = 0"
  by (rule bit_word_eqI) (auto simp: bit_simps)

lemma drop_out: "LENGTH('a) \<le> k \<Longrightarrow> drop_bit k (x :: 'a::len word) = 0"
  by (rule bit_word_eqI) (auto simp: bit_simps dest: bit_imp_le_length)

lemma top_bit:
  assumes "Suc m = 64"
  shows "(if low AND push_bit m 1 \<noteq> 0 then h OR 1 else h) = h OR drop_bit m (low :: u64)"
proof -
  have "drop_bit m low = (if bit low m then 1 else 0)"
  proof (rule bit_word_eqI)
    fix n
    have "bit low (m + n) \<longleftrightarrow> n = 0 \<and> bit low m" using bit64 [of low "m + n"] assms by (cases n) auto
    then show "bit (drop_bit m low) n = bit (if bit low m then 1 else 0 :: u64) n" by (auto simp: bit_simps)
  qed
  then show ?thesis unfolding and_push_bit_1 by simp
qed

lemma low_bit:
  assumes "Suc m = 64"
  shows "(if (high :: u64) AND 1 \<noteq> 0 then l OR push_bit m 1 else l) = l OR push_bit m high"
proof -
  have "push_bit m high = (if bit high 0 then push_bit m 1 else 0)"
  proof (rule bit_word_eqI)
    fix n assume n: "n < LENGTH(64)"
    then have "m \<le> n \<longleftrightarrow> n = m" using assms by auto
    with n show "bit (push_bit m high) n = bit (if bit high 0 then push_bit m 1 else 0 :: u64) n"
      by (auto simp: bit_simps)
  qed
  then show ?thesis unfolding and_1 by simp
qed

lemma shiftl128_lt: "k < 64 \<Longrightarrow> shiftl128 (lo, hi) k = Inr (push_bit k lo, push_bit k hi OR drop_bit (64 - k) lo)"
proof -
  assume k: "k < 64"
  have z: "drop_bit 64 lo = 0" by (rule drop_out) simp
  show ?thesis
  proof (cases "k = 1")
    case True
    have "shiftl128 (lo, hi) 1 = Inr (push_bit 1 lo, let h = push_bit 1 hi in if lo AND push_bit 63 1 \<noteq> 0 then h OR 1 else h)"
      by (subst shiftl128.simps) (simp only: refl if_True)
    also have "\<dots> = Inr (push_bit 1 lo, push_bit 1 hi OR drop_bit 63 lo)"
      unfolding Let_def by (subst top_bit) (rule refl | simp)+
    finally show ?thesis using True by simp
  next
    case False
    then show ?thesis using k z by (simp add: shiftl128.simps)
  qed
qed

lemma halves_shl: "k < 64 \<Longrightarrow> halves (push_bit k lo, push_bit k hi OR drop_bit (64 - k) lo) = push_bit k (halves (lo, hi))"
  by (rule bit_word_eqI) (auto simp: bit_halves bit_simps not_less add.commute dest: bit64)

lemma shiftl128_val:
  "k \<le> 128 \<Longrightarrow> \<exists>r. shiftl128 (lo, hi) k = Inr r \<and> halves r = push_bit k (halves (lo, hi))"
proof -
  assume "k \<le> 128"
  then consider "k < 64" | "64 \<le> k" "k < 128" | "k = 128" by linarith
  then show ?thesis
  proof cases
    case 1
    then show ?thesis using shiftl128_lt [OF 1] halves_shl [OF 1] by simp
  next
    case 2
    then obtain j where j: "k = 64 + j" "j < 64" using le_Suc_ex by force
    have "shiftl128 (lo, hi) k = shiftl128 (0, lo) j" using 2 j by (subst shiftl128.simps) simp
    moreover have "push_bit j (halves (0, lo)) = push_bit k (halves (lo, hi))"
      unfolding j(1) by (rule bit_word_eqI) (auto simp: bit_halves bit_simps not_less add.commute dest: bit64)
    ultimately show ?thesis using shiftl128_lt [OF j(2), of 0 lo] halves_shl [OF j(2), of 0 lo] by simp
  next
    case 3
    have "push_bit k (halves (lo, hi)) = 0" by (rule push_out) (simp add: 3)
    moreover have "halves (0, 0) = 0" by (simp add: halves_def v6_val_def)
    ultimately show ?thesis using 3 by (simp add: shiftl128.simps)
  qed
qed

lemma shiftr128_lt: "k < 64 \<Longrightarrow> shiftr128 (lo, hi) k = Inr (drop_bit k lo OR push_bit (64 - k) hi, drop_bit k hi)"
proof -
  assume k: "k < 64"
  have z: "push_bit 64 hi = 0" by (rule push_out) simp
  show ?thesis
  proof (cases "k = 1")
    case True
    have "shiftr128 (lo, hi) 1 = Inr (let l = drop_bit 1 lo in if hi AND 1 \<noteq> 0 then l OR push_bit 63 1 else l, drop_bit 1 hi)"
      by (subst shiftr128.simps) (simp only: refl if_True)
    also have "\<dots> = Inr (drop_bit 1 lo OR push_bit 63 hi, drop_bit 1 hi)"
      unfolding Let_def by (subst low_bit) (rule refl | simp)+
    finally show ?thesis using True by simp
  next
    case False
    then show ?thesis using k z by (simp add: shiftr128.simps)
  qed
qed

lemma halves_shr: "k < 64 \<Longrightarrow> halves (drop_bit k lo OR push_bit (64 - k) hi, drop_bit k hi) = drop_bit k (halves (lo, hi))"
  by (rule bit_word_eqI) (auto simp: bit_halves bit_simps not_less add.commute dest: bit64)

lemma shiftr128_val:
  "k \<le> 128 \<Longrightarrow> \<exists>r. shiftr128 (lo, hi) k = Inr r \<and> halves r = drop_bit k (halves (lo, hi))"
proof (induction k arbitrary: lo hi rule: less_induct)
  case (less k)
  show ?case
  proof (cases "k < 64")
    case True
    then show ?thesis using shiftr128_lt [OF True] halves_shr [OF True] by simp
  next
    case False
    then obtain j where j: "k = 64 + j" "j \<le> 64" using less.prems le_Suc_ex [of 64 k] by (auto simp: not_less)
    have "shiftr128 (lo, hi) k = shiftr128 (hi, 0) j" using False less.prems j by (subst shiftr128.simps) simp
    moreover have "drop_bit j (halves (hi, 0)) = drop_bit k (halves (lo, hi))"
      unfolding j(1) by (rule bit_word_eqI) (auto simp: bit_halves bit_simps not_less add.commute dest: bit64)
    ultimately show ?thesis using less.IH [of j hi 0] j by simp
  qed
qed

lemma shift_too_large:
  assumes "128 < k"
  shows "shiftl128 lh k = Inl (ipv6_exception ''l-shift too large'')"
    and "shiftr128 lh k = Inl (ipv6_exception ''r-shift too large'')"
  using assms by (cases lh; simp add: shiftl128.simps shiftr128.simps)+

lemma v6_shl_val:
  assumes "k \<le> 128"
  shows "\<exists>r. v6_shl a k = Inr r \<and> v6_val r = push_bit k (v6_val a) \<and> v6_scope r = v6_scope a"
  using shiftl128_val [OF assms, of "v6_lo a" "v6_hi a"] by (auto simp: v6_shl_def v6_val_halves split: prod.splits)

lemma v6_shr_val:
  assumes "k \<le> 128"
  shows "\<exists>r. v6_shr a k = Inr r \<and> v6_val r = drop_bit k (v6_val a) \<and> v6_scope r = v6_scope a"
  using shiftr128_val [OF assms, of "v6_lo a" "v6_hi a"] by (auto simp: v6_shr_def v6_val_halves split: prod.splits)

section \<open>Product\<close>

lemma take_bit_step: "take_bit (Suc i) x = take_bit i x + (if bit x i then 2 ^ i else 0)" for x :: "128 word"
proof -
  have "take_bit (Suc i) x = take_bit i x OR (if bit x i then 2 ^ i else 0)"
    by (rule bit_word_eqI) (auto simp: bit_simps less_Suc_eq)
  also have "\<dots> = take_bit i x + (if bit x i then 2 ^ i else 0)"
    by (rule disjunctive_add [symmetric]) (auto simp: bit_simps)
  finally show ?thesis .
qed

lemma v6_mult_loop_val:
  "i + n = 128 \<Longrightarrow> v6_val ret = v6_val d * take_bit i (v6_val a) \<Longrightarrow> v6_val m = v6_val d * 2 ^ i \<Longrightarrow>
     \<exists>r. v6_mult_loop n a i ret m = Inr r \<and> v6_val r = v6_val d * v6_val a"
proof (induction n arbitrary: i ret m)
  case 0
  then have "take_bit i (v6_val a) = v6_val a" by (intro take_bit_word_eq_self) simp
  with 0 show ?case by simp
next
  case (Suc n)
  let ?ret = "if v6_bit a i then v6_add ret m else ret"
  obtain m1 where m1: "v6_shl m 1 = Inr m1" "v6_val m1 = push_bit 1 (v6_val m)" using v6_shl_val [of 1 m] by auto
  have "v6_bit a i = bit (v6_val a) i" using Suc.prems(1) by (intro v6_bit_val) simp
  then have "v6_val ?ret = v6_val d * take_bit (Suc i) (v6_val a)"
    using Suc.prems(2,3) by (simp add: v6_val_v6_add take_bit_step distrib_left)
  moreover have "v6_val m1 = v6_val d * 2 ^ Suc i" using m1(2) Suc.prems(3) by (simp add: push_bit_eq_mult)
  ultimately show ?case using Suc.IH [of "Suc i" ?ret m1] Suc.prems(1) m1(1) by (simp add: Let_def)
qed

lemma v6_mult_val: "\<exists>r. v6_mult a d = Inr r \<and> v6_val r = v6_val a * v6_val d"
proof -
  have "v6_val v6_from_zero = 0" by (simp add: v6_from_zero_def v6_val_def)
  then show ?thesis using v6_mult_loop_val [of 0 128 v6_from_zero d a d]
    by (simp add: v6_mult_def v6_SIZE_def mult.commute)
qed

section \<open>Comparison\<close>

lemma v6_nat_less_iff: "v6_nat a < v6_nat b \<longleftrightarrow> v6_hi a < v6_hi b \<or> v6_hi a = v6_hi b \<and> v6_lo a < v6_lo b"
proof -
  have l: "unat (v6_lo a) < 2 ^ 64" "unat (v6_lo b) < 2 ^ 64"
    using unsigned_less [of "v6_lo a", where 'a=nat] unsigned_less [of "v6_lo b", where 'a=nat] by simp_all
  consider "unat (v6_hi a) < unat (v6_hi b)" | "unat (v6_hi a) = unat (v6_hi b)" | "unat (v6_hi b) < unat (v6_hi a)" by linarith
  then show ?thesis
  proof cases
    case 1
    then have "(unat (v6_hi a) + 1) * 2 ^ 64 \<le> unat (v6_hi b) * 2 ^ 64" by (intro mult_le_mono1) simp
    then have "v6_nat a < v6_nat b" using l by (simp add: v6_nat_def)
    then show ?thesis using 1 by (simp add: word_less_nat_alt)
  next
    case 2
    then show ?thesis by (simp add: v6_nat_def word_less_nat_alt word_unat_eq_iff)
  next
    case 3
    then have "(unat (v6_hi b) + 1) * 2 ^ 64 \<le> unat (v6_hi a) * 2 ^ 64" by (intro mult_le_mono1) simp
    then have "\<not> v6_nat a < v6_nat b" using l by (simp add: v6_nat_def)
    then show ?thesis using 3 by (auto simp: word_less_nat_alt word_unat_eq_iff)
  qed
qed

lemma v6_nat_eq_iff: "v6_nat a = v6_nat b \<longleftrightarrow> v6_lo a = v6_lo b \<and> v6_hi a = v6_hi b"
  by (metis unat_v6_val v6_val_eq_iff word_unat_eq_iff)

lemma v6_less_iff: "v6_less a b \<longleftrightarrow> v6_nat a < v6_nat b \<or> v6_nat a = v6_nat b \<and> v6_scope a < v6_scope b"
  by (auto simp: v6_less_def v6_compare_def v6_nat_less_iff v6_nat_eq_iff)

lemma v6_greater_eq_iff: "v6_greater_eq a b \<longleftrightarrow> v6_nat b < v6_nat a \<or> v6_nat a = v6_nat b \<and> v6_scope b \<le> v6_scope a"
  by (auto simp: v6_greater_eq_def v6_compare_def v6_nat_less_iff v6_nat_eq_iff)

lemma v6_less_eq_iff: "v6_less_eq a b \<longleftrightarrow> v6_nat a < v6_nat b \<or> v6_nat a = v6_nat b \<and> v6_scope a \<le> v6_scope b"
  by (auto simp: v6_less_eq_def v6_compare_def v6_nat_less_iff v6_nat_eq_iff)

lemma v6_greater_iff: "v6_greater a b \<longleftrightarrow> v6_nat b < v6_nat a \<or> v6_nat a = v6_nat b \<and> v6_scope b < v6_scope a"
  by (auto simp: v6_greater_def v6_compare_def v6_nat_less_iff v6_nat_eq_iff)

section \<open>Division\<close>

lemma v6_nat_shr1: "\<exists>r. v6_shr a 1 = Inr r \<and> v6_nat r = v6_nat a div 2 \<and> v6_scope r = v6_scope a"
proof -
  obtain r where r: "v6_shr a 1 = Inr r" "v6_val r = drop_bit 1 (v6_val a)" "v6_scope r = v6_scope a"
    using v6_shr_val [of 1 a] by auto
  have "v6_nat r = unat (drop_bit 1 (v6_val a))" by (metis r(2) unat_v6_val)
  also have "\<dots> = v6_nat a div 2" by (simp only: unat_drop_bit unat_v6_val power_one_right)
  finally show ?thesis using r by simp
qed

lemma bit_v6_nat: "bit (v6_val a) n \<longleftrightarrow> odd (v6_nat a div 2 ^ n)"
proof -
  have "bit (v6_val a) n \<longleftrightarrow> bit (unat (v6_val a)) n" by (simp add: bit_unsigned_iff)
  then show ?thesis by (simp only: unat_v6_val bit_iff_odd)
qed

lemma v6_nat_set_bit:
  assumes "pos < 128" and "even (v6_nat a div 2 ^ pos)"
  shows "v6_nat (v6_set_bit pos b a) = v6_nat a + (if b then 2 ^ pos else 0)
    \<and> v6_scope (v6_set_bit pos b a) = v6_scope a"
proof (cases b)
  case True
  have nb: "\<not> bit (v6_val a) pos" using assms(2) by (simp add: bit_v6_nat)
  have v: "v6_val (v6_set_bit pos True a) = v6_val a OR push_bit pos 1"
    by (rule bit_word_eqI) (use assms(1) in \<open>auto simp: v6_set_bit_def bit_v6_val bit_simps dest: bit64\<close>)
  also have "\<dots> = v6_val a + push_bit pos 1"
    by (rule disjunctive_add [symmetric]) (use nb in \<open>auto simp: bit_simps\<close>)
  finally have "v6_nat (v6_set_bit pos True a) = unat (v6_val a + push_bit pos 1)" by (simp flip: unat_v6_val)
  also have "\<dots> = v6_nat a + 2 ^ pos"
  proof -
    have p: "unat (push_bit pos 1 :: 128 word) = 2 ^ pos" using assms(1) by (simp add: unat_push_one)
    define q where "q = v6_nat a div 2 ^ pos"
    have "q < 2 ^ (128 - pos)"
      using v6_nat_bound [of a] assms(1) unfolding q_def by (intro less_mult_imp_div_less) (simp flip: power_add)
    moreover have "even (2 ^ (128 - pos) :: nat)" using assms(1) by simp
    moreover have "even q" using assms(2) by (simp add: q_def)
    ultimately have "q + 1 < 2 ^ (128 - pos)" by (metis Suc_eq_plus1 Suc_lessI even_Suc)
    then have "(q + 2) * 2 ^ pos \<le> 2 ^ (128 - pos) * 2 ^ pos" by (intro mult_le_mono1) simp
    also have "\<dots> = 2 ^ 128" using assms(1) by (simp flip: power_add)
    finally have "q * 2 ^ pos + 2 * 2 ^ pos \<le> 2 ^ 128" by (simp add: algebra_simps)
    moreover have "v6_nat a < q * 2 ^ pos + 2 ^ pos" using div_eq_iff_bounds [of "2 ^ pos" "v6_nat a" q] by (simp add: q_def)
    ultimately have "v6_nat a + 2 ^ pos < 2 ^ LENGTH(128)" by simp
    then show ?thesis by (subst unat_add_no_overflow) (simp_all only: unat_v6_val p)
  qed
  finally show ?thesis using True by (simp add: v6_set_bit_def)
qed (simp add: v6_set_bit_def)

lemma v6_nat_sub: "v6_nat b \<le> v6_nat a \<Longrightarrow> v6_nat (v6_sub a b) = v6_nat a - v6_nat b"
  by (simp add: v6_val_v6_sub unat_sub word_le_nat_alt flip: unat_v6_val)

lemma v6_scope_simps [simp]: "v6_scope (v6_sub a b) = v6_scope a" "v6_scope (v6_add a b) = v6_scope a"
  by (simp_all add: v6_sub_def v6_add_def Let_def)

lemma v6_all_zeros_iff: "v6_all_zeros a \<longleftrightarrow> v6_nat a = 0"
  by (auto simp: v6_all_zeros_def v6_nat_def unat_eq_0)

lemma mask_halving:
  fixes h l :: nat
  assumes "l < 2 ^ 128"
  shows "h div 2 * 2 ^ 128 + (l div 2 + (if odd h then 2 ^ 127 else 0)) = (h * 2 ^ 128 + l) div 2"
proof -
  have "h * 2 ^ 128 = 2 * (h * 2 ^ 127)" by simp
  then have "(h * 2 ^ 128 + l) div 2 = h * 2 ^ 127 + l div 2" by simp
  moreover have "h * 2 ^ 127 = h div 2 * 2 ^ 128 + (if odd h then 2 ^ 127 else 0)"
    by (cases "even h") (auto elim!: evenE oddE simp: algebra_simps)
  ultimately show ?thesis by simp
qed

lemma v6_div_loop_val:
  assumes "i + n = 128" and "0 < D" and "v6_nat mh * 2 ^ 128 + v6_nat ml = D * 2 ^ n" and "v6_scope ml = 0"
    and "N = v6_nat q * D + v6_nat r" and "2 ^ n dvd v6_nat q" and "v6_nat r < D * 2 ^ n"
  shows "\<exists>q' r'. v6_div_loop n i q r ml mh = Inr (q', r') \<and> N = v6_nat q' * D + v6_nat r' \<and> v6_nat r' < D"
  using assms
proof (induction n arbitrary: i q r ml mh)
  case 0
  then show ?case by simp
next
  case (Suc n)
  obtain ml0 where ml0: "v6_shr ml 1 = Inr ml0" "v6_nat ml0 = v6_nat ml div 2" "v6_scope ml0 = 0"
    using v6_nat_shr1 [of ml] Suc.prems(4) by auto
  obtain mh' where mh': "v6_shr mh 1 = Inr mh'" "v6_nat mh' = v6_nat mh div 2" using v6_nat_shr1 [of mh] by auto
  define ml' where "ml' = v6_set_bit 127 (v6_bit mh 0) ml0"
  have "v6_nat ml div 2 < 2 ^ 127" using v6_nat_bound [of ml] by simp
  then have "v6_nat ml0 div 2 ^ 127 = 0" using ml0(2) by simp
  then have ml': "v6_nat ml' = v6_nat ml div 2 + (if odd (v6_nat mh) then 2 ^ 127 else 0)" "v6_scope ml' = 0"
    using v6_nat_set_bit [of 127 ml0 "v6_bit mh 0"] ml0 v6_bit_val [of 0 mh] bit_v6_nat [of mh 0]
    by (simp_all add: ml'_def)
  have M: "v6_nat mh' * 2 ^ 128 + v6_nat ml' = D * 2 ^ n"
    using mask_halving [OF v6_nat_bound [of ml], of "v6_nat mh"] Suc.prems(3) unfolding mh'(2) ml'(1) by simp
  have pos: "127 - i = n" using Suc.prems(1) by simp
  show ?case
  proof (cases "v6_all_zeros mh' \<and> v6_greater_eq r ml'")
    case True
    then have z: "v6_nat ml' = D * 2 ^ n" using M by (simp add: v6_all_zeros_iff)
    have ge: "v6_nat ml' \<le> v6_nat r" using True by (auto simp: v6_greater_eq_iff)
    have ev: "even (v6_nat q div 2 ^ n)" using Suc.prems(6) by (auto elim!: dvdE)
    have "n < 128" using Suc.prems(1) by simp
    note Q = v6_nat_set_bit [OF this ev, of True]
    have R: "v6_nat (v6_sub r ml') = v6_nat r - D * 2 ^ n" using v6_nat_sub [OF ge] z by simp
    have "\<exists>q' r'. v6_div_loop n (Suc i) (v6_set_bit n True q) (v6_sub r ml') ml' mh' = Inr (q', r')
        \<and> N = v6_nat q' * D + v6_nat r' \<and> v6_nat r' < D"
    proof (rule Suc.IH)
      show "N = v6_nat (v6_set_bit n True q) * D + v6_nat (v6_sub r ml')"
        using Q R ge z Suc.prems(5) by (simp add: algebra_simps)
      show "2 ^ n dvd v6_nat (v6_set_bit n True q)"
        using Q Suc.prems(6) by (auto intro: dvd_add power_le_dvd [of 2 "Suc n"])
      show "v6_nat (v6_sub r ml') < D * 2 ^ n" using R Suc.prems(7) by simp
    qed (use Suc.prems(1,2) M ml'(2) in simp_all)
    then show ?thesis using True ml0(1) mh'(1) pos by (simp add: v6_SIZE_def ml'_def [symmetric])
  next
    case False
    have "v6_nat r < D * 2 ^ n"
    proof (cases "v6_all_zeros mh'")
      case True
      then have "v6_nat r < v6_nat ml'" using False ml'(2) by (auto simp: v6_greater_eq_iff)
      then show ?thesis using M by simp
    next
      case nz: False
      then have "1 * 2 ^ 128 \<le> v6_nat mh' * 2 ^ 128" by (intro mult_le_mono1) (simp add: v6_all_zeros_iff)
      then show ?thesis using M v6_nat_bound [of r] by simp
    qed
    moreover have "2 ^ n dvd v6_nat q" using Suc.prems(6) by (rule power_le_dvd) simp
    ultimately have "\<exists>q' r'. v6_div_loop n (Suc i) q r ml' mh' = Inr (q', r')
        \<and> N = v6_nat q' * D + v6_nat r' \<and> v6_nat r' < D"
      using Suc.IH [of "Suc i" mh' ml' q r] Suc.prems M ml'(2) by simp
    then show ?thesis using False ml0(1) mh'(1) by (auto simp: v6_SIZE_def ml'_def [symmetric])
  qed
qed

lemma v6_divmod_val:
  assumes "v6_nat d \<noteq> 0"
  shows "\<exists>q r. v6_divmod a d = Inr (q, r) \<and> v6_nat q = v6_nat a div v6_nat d \<and> v6_nat r = v6_nat a mod v6_nat d"
proof -
  have z: "v6_nat v6_from_zero = 0" "v6_scope v6_from_zero = 0" by (simp_all add: v6_from_zero_def v6_nat_def)
  have "v6_nat a < v6_nat d * 2 ^ 128"
    using v6_nat_bound [of a] mult_le_mono1 [of 1 "v6_nat d" "2 ^ 128"] assms by simp
  then obtain q r where qr: "v6_div_loop 128 0 v6_from_zero a v6_from_zero d = Inr (q, r)"
    "v6_nat a = v6_nat q * v6_nat d + v6_nat r" "v6_nat r < v6_nat d"
    using v6_div_loop_val [of 0 128 "v6_nat d" d v6_from_zero "v6_nat a" v6_from_zero a] z assms by auto
  then show ?thesis using assms by (simp add: v6_divmod_def v6_all_zeros_iff v6_SIZE_def)
qed

end
