(* ===== verification/IPv6_Net.thy ===== *)
theory IPv6_Net
  imports IPv6_Arith
begin

text \<open>
  Netmasks, networks and extents of \<open>IPv6::Addr\<close>, assembled from four 32-bit words, as an instance of
  the address-family interface; the round trips through hexadecimal and network-order bytes; and the
  properties of the 128-bit arithmetic.
\<close>

section \<open>The 32-bit view\<close>

lemma ucast_up_bit: "bit (ucast (w :: u32) :: u64) k \<longleftrightarrow> bit w k"
  by (auto simp: bit_simps dest: bit_imp_le_length)

lemma bit32: "bit (x :: u32) n \<Longrightarrow> n < 32"
  using bit_imp_le_length [of x n] by simp

lemma v6_u32_set: "i < 4 \<Longrightarrow> v6_u32 (v6_set_u32 w0 w1 w2 w3 a) i = [w0, w1, w2, w3] ! i"
proof -
  have lo: "ucast (ucast x OR push_bit 32 (ucast y) :: u64) = x" for x y :: u32
    by (rule bit_word_eqI) (auto simp: bit_simps)
  have hi: "ucast (drop_bit 32 (ucast x :: u64) OR drop_bit 32 (push_bit 32 (ucast y))) = y" for x y :: u32
    by (rule bit_word_eqI) (auto simp: bit_simps dest: bit32)
  assume "i < 4"
  then have "i = 0 \<or> i = 1 \<or> i = 2 \<or> i = 3" by auto
  then show ?thesis by (auto simp: v6_u32_def v6_set_u32_def lo hi)
qed

lemma v6_scope_set [simp]: "v6_scope (v6_set_u32 w0 w1 w2 w3 a) = v6_scope a" "v6_scope v6_from_zero = 0"
  by (simp_all add: v6_set_u32_def v6_from_zero_def)

lemma v6_set_u32_view: "v6_set_u32 (v6_u32 a 0) (v6_u32 a 1) (v6_u32 a 2) (v6_u32 a 3) b = b\<lparr>v6_lo := v6_lo a, v6_hi := v6_hi a\<rparr>"
proof -
  have j: "ucast (ucast x :: u32) OR push_bit 32 (ucast (ucast (drop_bit 32 x) :: u32)) = x" for x :: u64
    by (rule bit_word_eqI) (auto simp: bit_simps not_less)
  show ?thesis by (simp add: v6_set_u32_def v6_u32_def j)
qed

lemma bit_v6_val_u32: "k < 128 \<Longrightarrow> bit (v6_val a) k = bit (v6_u32 a (k div 32)) (k mod 32)"
proof -
  assume "k < 128"
  then consider "k < 32" | "32 \<le> k" "k < 64" | "64 \<le> k" "k < 96" | "96 \<le> k" "k < 128" by linarith
  then show ?thesis
  proof cases
    case 1
    then show ?thesis by (simp add: bit_v6_val v6_u32_def bit_simps)
  next
    case 2
    then have "k div 32 = 1" "k mod 32 = k - 32" by (simp_all add: div_eq_iff_bounds le_mod_geq)
    with 2 show ?thesis by (auto simp: bit_v6_val v6_u32_def bit_simps less_diff_conv2)
  next
    case 3
    then have "k div 32 = 2" "k mod 32 = k - 64" by (simp_all add: div_eq_iff_bounds le_mod_geq)
    with 3 show ?thesis by (auto simp: bit_v6_val v6_u32_def bit_simps less_diff_conv2)
  next
    case 4
    then have "k div 32 = 3" "k mod 32 = k - 96" by (simp_all add: div_eq_iff_bounds le_mod_geq)
    with 4 show ?thesis by (auto simp: bit_v6_val v6_u32_def bit_simps less_diff_conv2)
  qed
qed

section \<open>Netmasks\<close>

abbreviation (input) m32 :: "nat \<Rightarrow> u32" where "m32 \<equiv> v4_prefix_len_to_netmask_unchecked"

lemma m32_0 [simp]: "m32 0 = 0" and m32_32 [simp]: "m32 32 = NOT 0"
  by (simp_all add: v4_prefix_len_to_netmask_unchecked_def)

lemma bit_m32: "n \<le> 32 \<Longrightarrow> bit (m32 n) j \<longleftrightarrow> j < 32 \<and> 32 - n \<le> j"
  by (auto simp: v4_netmask_eq bit_simps)

lemma m32_inject: "m \<le> 32 \<Longrightarrow> n \<le> 32 \<Longrightarrow> m32 m = m32 n \<longleftrightarrow> m = n"
  using prefix_len_32_netmask [of m] prefix_len_32_netmask [of n] by (metis option.inject)

lemma v6_netmask_words:
  assumes "n \<le> 128"
  shows "v6_prefix_len_to_netmask_unchecked n v6_from_zero =
    v6_set_u32 (m32 (min 32 (n - 96))) (m32 (min 32 (n - 64))) (m32 (min 32 (n - 32))) (m32 (min 32 n)) v6_from_zero"
proof (cases "n = 0")
  case True
  then show ?thesis by (simp add: v6_prefix_len_to_netmask_unchecked_def v6_set_u32_def v6_from_zero_def)
next
  case False
  define pl where "pl = n - 1"
  have n: "n = Suc pl" "pl < 128" using False assms by (simp_all add: pl_def)
  have mask: "NOT (push_bit (31 - pl mod 32) 1 - 1) = m32 (Suc (pl mod 32))"
    by (simp add: v4_prefix_len_to_netmask_unchecked_def)
  let ?M = "m32 (Suc (pl mod 32))" and ?z = v6_from_zero
  have U: "v6_prefix_len_to_netmask_unchecked n ?z =
      (if pl div 32 = 0 then v6_set_u32 0 0 0 ?M ?z else if pl div 32 = 1 then v6_set_u32 0 0 ?M (NOT 0) ?z
       else if pl div 32 = 2 then v6_set_u32 0 ?M (NOT 0) (NOT 0) ?z
       else if pl div 32 = 3 then v6_set_u32 ?M (NOT 0) (NOT 0) (NOT 0) ?z else ?z)"
    unfolding v6_prefix_len_to_netmask_unchecked_def Let_def pl_def [symmetric] mask using False by simp
  from n(2) consider "pl < 32" | "32 \<le> pl" "pl < 64" | "64 \<le> pl" "pl < 96" | "96 \<le> pl" by linarith
  then show ?thesis
  proof cases
    case 1
    then show ?thesis using n(1) unfolding U by simp
  next
    case 2
    then have "pl div 32 = 1" "Suc (pl mod 32) = n - 32" using n(1) by (simp_all add: div_eq_iff_bounds le_mod_geq Suc_diff_le)
    with 2 show ?thesis using n(1) unfolding U by simp
  next
    case 3
    then have "pl div 32 = 2" "Suc (pl mod 32) = n - 64" using n(1) by (simp_all add: div_eq_iff_bounds le_mod_geq Suc_diff_le)
    with 3 show ?thesis using n(1) unfolding U by simp
  next
    case 4
    then have "pl div 32 = 3" "Suc (pl mod 32) = n - 96" using n by (simp_all add: div_eq_iff_bounds le_mod_geq Suc_diff_le)
    with 4 show ?thesis using n unfolding U by simp
  qed
qed

lemma v6_netmask_view:
  assumes "n \<le> 128"
  defines "m \<equiv> v6_prefix_len_to_netmask_unchecked n v6_from_zero"
  shows "v6_u32 m 0 = m32 (min 32 (n - 96))" "v6_u32 m 1 = m32 (min 32 (n - 64))"
    "v6_u32 m 2 = m32 (min 32 (n - 32))" "v6_u32 m 3 = m32 (min 32 n)" "v6_scope m = 0"
  unfolding m_def v6_netmask_words [OF assms(1)]
  by (simp_all add: v6_u32_set)

lemma v6_netmask_val:
  assumes "n \<le> 128"
  shows "v6_val (v6_prefix_len_to_netmask_unchecked n v6_from_zero) = NOT (mask (128 - n))"
proof (rule bit_word_eqI)
  fix k assume "k < LENGTH(128)"
  then have k: "k < 128" by simp
  then consider "k < 32" | "32 \<le> k" "k < 64" | "64 \<le> k" "k < 96" | "96 \<le> k" "k < 128" by linarith
  then have "bit (v6_u32 (v6_prefix_len_to_netmask_unchecked n v6_from_zero) (k div 32)) (k mod 32) \<longleftrightarrow> 128 - n \<le> k"
  proof cases
    case 1
    then show ?thesis by (auto simp: v6_netmask_view [OF assms, unfolded One_nat_def] bit_m32)
  next
    case 2
    then have "k div 32 = 1" "k mod 32 = k - 32" by (simp_all add: div_eq_iff_bounds le_mod_geq)
    with 2 show ?thesis by (auto simp: v6_netmask_view [OF assms, unfolded One_nat_def] bit_m32)
  next
    case 3
    then have "k div 32 = 2" "k mod 32 = k - 64" by (simp_all add: div_eq_iff_bounds le_mod_geq)
    with 3 show ?thesis by (auto simp: v6_netmask_view [OF assms, unfolded One_nat_def] bit_m32)
  next
    case 4
    then have "k div 32 = 3" "k mod 32 = k - 96" by (simp_all add: div_eq_iff_bounds le_mod_geq)
    with 4 show ?thesis by (auto simp: v6_netmask_view [OF assms, unfolded One_nat_def] bit_m32)
  qed
  then show "bit (v6_val (v6_prefix_len_to_netmask_unchecked n v6_from_zero)) k = bit (NOT (mask (128 - n)) :: 128 word) k"
    using k by (auto simp: bit_v6_val_u32 bit_simps)
qed

lemma v6_prefix_len_netmask:
  assumes "n \<le> 128"
  shows "v6_prefix_len (v6_prefix_len_to_netmask_unchecked n v6_from_zero) = Inr n"
proof -
  note W = v6_netmask_view [OF assms, unfolded One_nat_def]
  have P: "prefix_len_32 (m32 k) = Some k" if "k \<le> 32" for k using prefix_len_32_netmask [OF that] .
  have E: "m32 k = - 1 \<longleftrightarrow> k = 32" "m32 k = 0 \<longleftrightarrow> k = 0" if "k \<le> 32" for k
    using m32_inject [of k 32] m32_inject [of k 0] that by simp_all
  from assms consider "n < 32" | "32 \<le> n" "n < 64" | "64 \<le> n" "n < 96" | "96 \<le> n" by linarith
  then show ?thesis
    by cases (use assms in \<open>auto simp: v6_prefix_len_def W P E Let_def\<close>)
qed

lemma v6_prefix_len_sound:
  assumes "v6_prefix_len m = Inr n"
  shows "n \<le> 128 \<and> v6_prefix_len_to_netmask_unchecked n v6_from_zero = v6_from_zero\<lparr>v6_lo := v6_lo m, v6_hi := v6_hi m\<rparr>"
proof -
  have S: "w = m32 r \<and> r \<le> 32" if "prefix_len_32 w = Some r" for w r using prefix_len_32_sound [OF that] .
  have V: "n \<le> 128 \<and> v6_u32 m 0 = m32 (min 32 (n - 96)) \<and> v6_u32 m 1 = m32 (min 32 (n - 64))
      \<and> v6_u32 m 2 = m32 (min 32 (n - 32)) \<and> v6_u32 m 3 = m32 (min 32 n)"
    using assms unfolding v6_prefix_len_def Let_def by (auto split: if_splits option.splits dest!: S)
  then have n: "n \<le> 128" by simp
  show ?thesis using V v6_netmask_words [OF n] v6_set_u32_view [of m v6_from_zero] by simp
qed

section \<open>The address family\<close>

lemma v6_val_bitwise:
  "v6_val (v6_and a b) = v6_val a AND v6_val b" "v6_val (v6_or a b) = v6_val a OR v6_val b" "v6_val (v6_not a) = NOT (v6_val a)"
  by (rule bit_word_eqI, auto simp: v6_and_def v6_or_def v6_not_def bit_v6_val bit_simps)+

lemma and_not_mask: "(x :: 'a::len word) AND NOT (mask k) = push_bit k (drop_bit k x)"
  by (rule bit_word_eqI) (auto simp: bit_simps)

lemma v6_from_one_val: "v6_val v6_from_one = 1"
  by (simp add: v6_from_one_def v6_val_def)

interpretation v6: addr_family v6_SIZE v6_nat v6_netmask_from_prefix_len v6_prefix_len v6_network_addr v6_extent_from_netmask
proof unfold_locales
  fix a
  show "v6_nat a < 2 ^ v6_SIZE" using v6_nat_bound [of a] by (simp add: v6_SIZE_def)
next
  fix n assume "n \<le> v6_SIZE"
  then show "\<exists>m. v6_netmask_from_prefix_len n = Inr m \<and> v6_prefix_len m = Inr n"
    by (simp add: v6_netmask_from_prefix_len_def v6_prefix_len_netmask v6_SIZE_def)
next
  fix n assume "v6_SIZE < n"
  then show "\<exists>e. v6_netmask_from_prefix_len n = Inl e" by (simp add: v6_netmask_from_prefix_len_def)
next
  fix m n assume "v6_prefix_len m = Inr n"
  from v6_prefix_len_sound [OF this]
  show "n \<le> v6_SIZE \<and> (\<exists>m'. v6_netmask_from_prefix_len n = Inr m' \<and> v6_nat m' = v6_nat m)"
    by (simp add: v6_netmask_from_prefix_len_def v6_SIZE_def v6_nat_def)
next
  fix n a assume n: "n \<le> v6_SIZE"
  let ?m = "v6_prefix_len_to_netmask_unchecked n v6_from_zero"
  have "v6_val (v6_and a ?m) = push_bit (128 - n) (drop_bit (128 - n) (v6_val a))"
    using n by (simp add: v6_val_bitwise v6_netmask_val and_not_mask v6_SIZE_def)
  then have "v6_nat (v6_and a ?m) = v6_nat a div 2 ^ (128 - n) * 2 ^ (128 - n)"
    by (metis unat_push_drop unat_v6_val)
  then show "\<exists>r. v6_network_addr a n = Inr r \<and> v6_nat r = v6_nat a div 2 ^ (v6_SIZE - n) * 2 ^ (v6_SIZE - n)"
    using n by (simp add: v6_network_addr_def v6_netmask_from_prefix_len_def v6_SIZE_def)
next
  fix n a assume "v6_SIZE < n"
  then show "\<exists>e. v6_network_addr a n = Inl e" by (simp add: v6_network_addr_def v6_netmask_from_prefix_len_def)
next
  fix m n assume p: "v6_prefix_len m = Inr n"
  show "\<exists>e. v6_extent_from_netmask m = Inr e \<and> v6_nat e = 2 ^ (v6_SIZE - n) mod 2 ^ v6_SIZE"
  proof (cases "n = 0")
    case True
    then show ?thesis using p by (simp add: v6_extent_from_netmask_def v6_host_len_def v6_SIZE_def v6_nat_def v6_from_zero_def)
  next
    case False
    obtain e where e: "v6_shl v6_from_one (128 - n) = Inr e" "v6_val e = push_bit (128 - n) 1"
      using v6_shl_val [of "128 - n" v6_from_one] by (auto simp: v6_from_one_val)
    have "v6_nat e = 2 ^ (128 - n) mod 2 ^ 128" using unat_push_one [of "128 - n", where 'a=128] e(2) unat_v6_val [of e] by simp
    then show ?thesis using False p e(1) v6_prefix_len_sound [OF p]
      by (simp add: v6_extent_from_netmask_def v6_host_len_def v6_SIZE_def)
  qed
qed

section \<open>Properties\<close>

text \<open>
  Addition, subtraction, increment and the shift-and-add product of IPv6 addresses are those of
  128-bit words (modulo \<open>2^128\<close>), with the carry and borrow passed between the halves; the bitwise
  operators act on all 128 bits. The product never throws.
\<close>

lemma v6_arith:
  "v6_val (v6_add a b) = v6_val a + v6_val b \<and> v6_val (v6_sub a b) = v6_val a - v6_val b
    \<and> v6_val (v6_inc a) = v6_val a + 1 \<and> (\<exists>r. v6_mult a b = Inr r \<and> v6_val r = v6_val a * v6_val b)
    \<and> v6_val (v6_and a b) = v6_val a AND v6_val b \<and> v6_val (v6_or a b) = v6_val a OR v6_val b
    \<and> v6_val (v6_not a) = NOT (v6_val a)"
  by (simp add: v6_val_v6_add v6_val_v6_sub v6_val_v6_inc v6_mult_val v6_val_bitwise)

text \<open>
  Division and remainder of IPv6 addresses are exact: the shift-and-subtract loop gives the quotient
  and the remainder of the 128-bit values for every non-zero divisor, and a zero divisor throws.
\<close>

lemma v6_division:
  "if v6_nat d = 0
   then v6_div a d = Inl (ipv6_exception ''division by 0'') \<and> v6_mod a d = Inl (ipv6_exception ''division by 0'')
   else \<exists>q r. v6_div a d = Inr q \<and> v6_nat q = v6_nat a div v6_nat d \<and> v6_mod a d = Inr r \<and> v6_nat r = v6_nat a mod v6_nat d"
proof (cases "v6_nat d = 0")
  case True
  then show ?thesis by (simp add: v6_div_def v6_mod_def v6_divmod_def v6_all_zeros_iff)
next
  case False
  then show ?thesis using v6_divmod_val [OF False, of a] by (auto simp: v6_div_def v6_mod_def)
qed

text \<open>
  The shifts of IPv6 addresses shift the 128-bit value by any distance up to 128, with zeros coming
  in; a larger distance throws.
\<close>

lemma v6_shifts:
  "if k \<le> 128
   then \<exists>l r. v6_shl a k = Inr l \<and> v6_val l = push_bit k (v6_val a) \<and> v6_shr a k = Inr r \<and> v6_val r = drop_bit k (v6_val a)
   else v6_shl a k = Inl (ipv6_exception ''l-shift too large'') \<and> v6_shr a k = Inl (ipv6_exception ''r-shift too large'')"
  using v6_shl_val [of k a] v6_shr_val [of k a] shift_too_large [of k]
  by (auto simp: v6_shl_def v6_shr_def not_le)

text \<open>
  The comparison operators order addresses by their 128-bit value and then by scope ID: a strict
  total order with its converses, and equal in both senses exactly when \<open>operator==\<close> says so.
\<close>

lemma v6_ordering:
  "(v6_less a b \<longleftrightarrow> v6_nat a < v6_nat b \<or> v6_nat a = v6_nat b \<and> v6_scope a < v6_scope b)
    \<and> (v6_greater a b \<longleftrightarrow> v6_less b a) \<and> (v6_less_eq a b \<longleftrightarrow> \<not> v6_less b a) \<and> (v6_greater_eq a b \<longleftrightarrow> \<not> v6_less a b)
    \<and> (v6_eq a b \<longleftrightarrow> \<not> v6_less a b \<and> \<not> v6_less b a) \<and> (v6_eq a b \<longleftrightarrow> a = b)"
proof -
  have "v6_eq a b \<longleftrightarrow> v6_nat a = v6_nat b \<and> v6_scope a = v6_scope b" by (auto simp: v6_eq_def v6_nat_eq_iff)
  moreover have "v6_eq a b \<longleftrightarrow> a = b" by (cases a; cases b) (auto simp: v6_eq_def)
  ultimately show ?thesis
    by (auto simp: v6_less_iff v6_greater_iff v6_less_eq_iff v6_greater_eq_iff)
qed

lemma v6_nat_mask: "v6_val a = mask h \<Longrightarrow> i < 4 \<Longrightarrow> h \<le> 128 \<Longrightarrow> v6_u32 a i = mask (min 32 (h - 32 * i))"
proof (rule bit_word_eqI)
  fix j assume v: "v6_val a = mask h" and i: "i < 4" and "j < LENGTH(32)"
  then have j: "j < 32" by simp
  have k: "(32 * i + j) div 32 = i" "(32 * i + j) mod 32 = j" "32 * i + j < 128" using i j by auto
  have "bit (v6_u32 a i) j \<longleftrightarrow> bit (v6_val a) (32 * i + j)" using bit_v6_val_u32 [OF k(3), of a] k(1,2) by simp
  also have "\<dots> \<longleftrightarrow> 32 * i + j < h" using v k(3) by (simp add: bit_simps)
  finally show "bit (v6_u32 a i) j \<longleftrightarrow> bit (mask (min 32 (h - 32 * i)) :: u32) j" using j by (auto simp: bit_simps)
qed

lemma v6_extent_scan_mask:
  assumes "v6_val lb = mask h" and "h \<le> 32 * i" and "i \<le> 4"
  shows "v6_extent_scan i lb = v6_netmask_from_prefix_len (128 - h)"
  using assms(2,3)
proof (induction i)
  case 0
  have "v6_prefix_len_to_netmask_unchecked 128 v6_from_zero = v6_from_zero_complement" by code_simp
  then show ?case using 0 by (simp add: v6_netmask_from_prefix_len_def v6_SIZE_def)
next
  case (Suc i)
  have w: "v6_u32 lb i = mask (min 32 (h - 32 * i))" by (rule v6_nat_mask) (use assms(1) Suc.prems in auto)
  show ?case
  proof (cases "h \<le> 32 * i")
    case True
    then show ?thesis using Suc w by simp
  next
    case False
    then have m: "min 32 (h - 32 * i) = h - 32 * i" "h - 32 * i \<le> 32" "h - 32 * i \<noteq> 0" using Suc.prems by auto
    have "mask k = (push_bit k 1 - 1 :: u32)" for k by (simp add: mask_eq_exp_minus_1)
    then have f: "find_last_set (mask (h - 32 * i) :: u32) = h - 32 * i" using find_last_set_pow [OF m(2)] by simp
    then have "mask (h - 32 * i) \<noteq> (0 :: u32)" using m(3) by (auto simp: find_last_set_def)
    then show ?thesis using w m f False by (simp add: Let_def v6_SIZE_def)
  qed
qed

text \<open>
  For IPv6 netmasks too, \<open>netmask_from_prefix_len\<close> and \<open>prefix_len\<close> are inverse to each other, the
  extent of a netmask is the size of its networks and \<open>netmask_from_this_as_extent\<close> gives the netmask back;
  whatever \<open>prefix_len\<close> accepts has the value of that netmask.
\<close>

lemma v6_netmask_round_trip:
  assumes "n \<le> 128"
  shows "\<exists>m e. v6_netmask_from_prefix_len n = Inr m \<and> v6_prefix_len m = Inr n
    \<and> v6_extent_from_netmask m = Inr e \<and> v6_nat e = 2 ^ (128 - n) mod 2 ^ 128
    \<and> v6_netmask_from_this_as_extent e = Inr m
    \<and> (v6_prefix_len m' = Inr n \<longleftrightarrow> v6_nat m' = v6_nat m)"
proof -
  obtain m where m: "v6_netmask_from_prefix_len n = Inr m" "v6_prefix_len m = Inr n"
    using v6.netmask_ok [of n] assms by (auto simp: v6_SIZE_def)
  obtain e where e: "v6_extent_from_netmask m = Inr e" "v6_nat e = 2 ^ (128 - n) mod 2 ^ 128"
    using v6.extent_ok [OF m(2)] by (auto simp: v6_SIZE_def)
  have "v6_val e = push_bit (128 - n) 1"
    using e(2) unat_push_one [of "128 - n", where 'a=128] unat_v6_val [of e] by (simp add: word_unat_eq_iff)
  then have "v6_val (v6_sub_long e 1) = mask (128 - n)"
    using v6_val_v6_add_long [of "- 1" e] by (simp add: v6_sub_long_def mask_eq_exp_minus_1 push_bit_eq_mult)
  then have "v6_netmask_from_this_as_extent e = Inr m"
    using v6_extent_scan_mask [of "v6_sub_long e 1" "128 - n" 4] assms m(1) by (simp add: v6_netmask_from_this_as_extent_def)
  moreover have "v6_prefix_len m' = Inr n \<longleftrightarrow> v6_nat m' = v6_nat m"
  proof
    assume "v6_prefix_len m' = Inr n"
    then show "v6_nat m' = v6_nat m" using v6.prefix_len_sound [of m' n] m(1) by auto
  next
    assume "v6_nat m' = v6_nat m"
    then have "v6_u32 m' = v6_u32 m" by (auto simp: v6_nat_eq_iff v6_u32_def fun_eq_iff)
    then have "v6_prefix_len m' = v6_prefix_len m" unfolding v6_prefix_len_def by simp
    then show "v6_prefix_len m' = Inr n" using m(2) by simp
  qed
  ultimately show ?thesis using m e by blast
qed

text \<open>
  \<open>network_addr\<close> of an IPv6 address gives the lowest address of the block of \<open>2^(128-n)\<close> addresses
  around it: the block contains the address and lies inside the address space, exactly the addresses of the
  block have a network of this value, and a network of a shorter prefix can be taken from it.
\<close>

lemma v6_network_block:
  assumes "v6_network_addr a n = Inr r"
  shows "n \<le> 128 \<and> v6_nat r \<le> v6_nat a \<and> v6_nat a < v6_nat r + 2 ^ (128 - n) \<and> v6_nat r + 2 ^ (128 - n) \<le> 2 ^ 128
    \<and> ((\<exists>s. v6_network_addr b n = Inr s \<and> v6_nat s = v6_nat r) \<longleftrightarrow> v6_nat r \<le> v6_nat b \<and> v6_nat b < v6_nat r + 2 ^ (128 - n))
    \<and> (m \<le> n \<longrightarrow> (\<exists>s t. v6_network_addr r m = Inr s \<and> v6_network_addr a m = Inr t \<and> v6_nat s = v6_nat t))"
  using v6.network_contains [OF assms] v6.network_member [OF assms, of b] v6.network_nested [OF assms, of m]
  by (simp add: v6_SIZE_def)

lemma be_bytes_8: "be_bytes 8 (x :: u64) = be_bytes 4 (ucast (drop_bit 32 x) :: u32) @ be_bytes 4 (ucast x :: u32)"
proof -
  have b: "ucast (drop_bit k (ucast (drop_bit 32 x) :: u32)) = (ucast (drop_bit (k + 32) x) :: byte)" if "k \<le> 24" for k
    using that by (intro bit_word_eqI) (auto simp: bit_simps ac_simps)
  have c: "ucast (drop_bit k (ucast x :: u32)) = (ucast (drop_bit k x) :: byte)" if "k \<le> 24" for k
    using that by (intro bit_word_eqI) (auto simp: bit_simps)
  have u: "[0..<8] = [0, 1, 2, 3, 4, 5, 6, 7 :: nat]" "[0..<4] = [0, 1, 2, 3 :: nat]" by (simp_all add: upt_rec)
  show ?thesis unfolding be_bytes_def le_bytes_def u using b [of 0] b [of 8] b [of 16] b [of 24] c [of 0] c [of 8] c [of 16] c [of 24]
    by simp
qed

lemma v6_to_byte_string_eq: "v6_to_byte_string a = be_bytes 8 (v6_hi a) @ be_bytes 8 (v6_lo a)"
  by (simp add: v6_to_byte_string_def v6_host_to_network_order_def v6_u32_def be_bytes_8)

text \<open>
  Every IPv6 address survives the trip through its hexadecimal form and through its 16 network-order
  bytes, up to the scope ID, which neither form carries; the bytes are the big-endian encoding.
\<close>

lemma v6_hex_round_trip:
  "v6_from_hex (v6_to_hex a) = Inr (a\<lparr>v6_scope := 0\<rparr>)
    \<and> v6_to_byte_string a = be_bytes 8 (v6_hi a) @ be_bytes 8 (v6_lo a)
    \<and> v6_from_byte_string (v6_to_byte_string a) = a\<lparr>v6_scope := 0\<rparr>"
proof -
  have ne: "v6_bytes a \<noteq> []" and len: "length (v6_bytes a) = 16"
    by (simp_all add: v6_bytes_def flip: length_greater_0_conv)
  have hex: "v6_from_hex (v6_to_hex a) = Inr (a\<lparr>v6_scope := 0\<rparr>)"
    using addr_from_to_hex [OF ne, of "ipv6_exception ''parse hex error''"]
    by (simp add: v6_from_hex_def v6_to_hex_def len v6_of_bytes_def) (simp add: v6_bytes_def)
  have w: "take 4 (drop (4 * i) (v6_to_byte_string a)) = be_bytes 4 (v6_u32 a (3 - i))" if "i < 4" for i
  proof -
    have "i = 0 \<or> i = 1 \<or> i = 2 \<or> i = 3" using that by auto
    then show ?thesis by (auto simp: v6_to_byte_string_def v6_host_to_network_order_def)
  qed
  have "length (v6_to_byte_string a) = 16" by (simp add: v6_to_byte_string_eq)
  then have "v6_from_byte_string (v6_to_byte_string a) = v6_from_zero\<lparr>v6_lo := v6_lo a, v6_hi := v6_hi a\<rparr>"
    using w [of 0] w [of 1] w [of 2] w [of 3] v6_set_u32_view [of a v6_from_zero]
    by (simp add: v6_from_byte_string_def v6_network_to_host_order_def Let_def)
  then show ?thesis using hex by (simp add: v6_to_byte_string_eq v6_from_zero_def)
qed

text \<open>
  A \<open>long\<close> converted to an IPv6 address is converted back to itself. The conversion to \<open>long\<close> does
  not notice every overflow, though: \<open>2^63\<close>, which no \<open>long\<close> holds, comes out as \<open>-2^63\<close>.
\<close>

lemma v6_long_round_trip:
  assumes "- (2 ^ 63) \<le> l" and "l < 2 ^ 63"
  shows "v6_to_long (v6_from_long l) = Inr l
    \<and> v6_to_long \<lparr>v6_lo = 0x8000000000000000, v6_hi = 0, v6_scope = 0\<rparr> = Inr (- (2 ^ 63))"
proof -
  have s: "sint (word_of_int k :: u64) = k" if "0 \<le> k" "k < 2 ^ 63" for k
    using that by (simp add: sint_uint uint_word_of_int signed_take_bit_int_eq_self)
  have "sint (0x8000000000000000 :: u64) = - (2 ^ 63)" by code_simp
  then have wrap: "v6_to_long \<lparr>v6_lo = 0x8000000000000000, v6_hi = 0, v6_scope = 0\<rparr> = Inr (- (2 ^ 63))"
    by (simp add: v6_to_long_def Let_def)
  show ?thesis
  proof (cases "l < 0")
    case True
    then show ?thesis using assms s [of "- (l + 1)"] wrap
      by (simp add: v6_from_long_def v6_to_long_def v6_from_ulong_def v6_negate_def Let_def del: of_int_minus of_int_diff)
  next
    case False
    then show ?thesis using assms s [of l] wrap
      by (simp add: v6_from_long_def v6_to_long_def v6_from_ulong_def Let_def)
  qed
qed

end
