(* ===== verification/OV_Base64.thy ===== *)
theory OV_Base64
  imports OV_Prelude
begin

text \<open>
  The \<open>Base64\<close> class of common/base64.hpp: the two tables its constructor builds, encoding with the
  allocation it makes, decoding into a growing or a bounded destination, and \<open>is_base64\<close>. A string is
  the list of its bytes; a \<open>char\<close> is signed, so that a byte of 128 or more never equals the padding
  character and never is a table index.
\<close>

record base64 =
  b64_enc :: "byte list"
  b64_dec :: "byte list"
  b64_equal :: byte

section \<open>Construction of the tables\<close>

fun b64_enc_loop :: "nat \<Rightarrow> byte \<Rightarrow> byte list" where
  "b64_enc_loop 0 j = []"
| "b64_enc_loop (Suc n) j =
     j # b64_enc_loop n (let j1 = j + 1 in if j1 = 91 then 97 else if j1 = 123 then 48 else j1)"

fun b64_dec_loop :: "byte list \<Rightarrow> nat \<Rightarrow> byte list \<Rightarrow> byte list result" where
  "b64_dec_loop [] i dec = Inr dec"
| "b64_dec_loop (c # cs) i dec =
     (if c \<ge> 128 then Inl base64_bad_map else b64_dec_loop cs (Suc i) (dec[unat c := of_nat i]))"

text \<open>\<open>altmap\<close> is a C string: its bytes up to the terminating null.\<close>

definition b64_ctor :: "byte list option \<Rightarrow> base64 result" where
  "b64_ctor altmap =
     (let am = (case altmap of None \<Rightarrow> [43, 47, 61] | Some s \<Rightarrow> takeWhile (\<lambda>c. c \<noteq> 0) s)
      in if length am \<noteq> 3 then Inl base64_bad_map
         else let enc = b64_enc_loop 62 65 @ [am ! 0, am ! 1]
              in bindR (b64_dec_loop enc 0 (replicate 128 0xFF))
                   (\<lambda>dec. Inr \<lparr>b64_enc = enc, b64_dec = dec, b64_equal = am ! 2\<rparr>))"

section \<open>Encoding\<close>

definition b64_encode_size_max :: "nat \<Rightarrow> nat" where
  "b64_encode_size_max decode_size = decode_size * 4 div 3 + 4"

definition b64_decode_size_max :: "nat \<Rightarrow> nat" where
  "b64_decode_size_max encode_size = encode_size"

text \<open>The characters written to the allocated array, before the terminating null.\<close>

function b64_encode_loop :: "base64 \<Rightarrow> byte list \<Rightarrow> nat \<Rightarrow> byte list" where
  "b64_encode_loop t data i =
     (let sz = length data
      in if i < sz
         then let c0 = push_bit 8 (ucast (data ! i)) :: u32;
                  c1 = (if i + 1 < sz then c0 + ucast (data ! (i + 1)) else c0);
                  c2 = push_bit 8 c1;
                  c = (if i + 2 < sz then c2 + ucast (data ! (i + 2)) else c2);
                  p0 = b64_enc t ! unat (drop_bit 18 (c AND 0x00fc0000));
                  p1 = b64_enc t ! unat (drop_bit 12 (c AND 0x0003f000));
                  p2 = b64_enc t ! unat (drop_bit 6 (c AND 0x00000fc0));
                  p3 = b64_enc t ! unat (c AND 0x0000003f);
                  p3' = (if i + 3 > sz then b64_equal t else p3);
                  p2' = (if i + 3 > sz + 1 then b64_equal t else p2)
              in [p0, p1, p2', p3'] @ b64_encode_loop t data (i + 3)
         else [])"
  by pat_completeness auto
termination
  by (relation "measure (\<lambda>(t, data, i). length data - i)") auto

declare b64_encode_loop.simps [simp del]

text \<open>The result is constructed from the null-terminated array.\<close>

definition b64_encode :: "base64 \<Rightarrow> byte list \<Rightarrow> byte list" where
  "b64_encode t data = takeWhile (\<lambda>c. c \<noteq> 0) (b64_encode_loop t data 0)"

section \<open>Decoding\<close>

definition b64_is_base64_char :: "base64 \<Rightarrow> byte \<Rightarrow> bool" where
  "b64_is_base64_char t c \<longleftrightarrow> c < 128 \<and> b64_dec t ! unat c \<noteq> 0xFF"

definition b64_decode_char :: "base64 \<Rightarrow> byte \<Rightarrow> u32 result" where
  "b64_decode_char t c =
     (if c \<ge> 128 then Inl base64_decode_error
      else let v = ucast (b64_dec t ! unat c) in if v = 0xFF then Inl base64_decode_error else Inr v)"

definition b64_is_equal :: "base64 \<Rightarrow> byte \<Rightarrow> bool" where
  "b64_is_equal t c \<longleftrightarrow> c < 128 \<and> c = b64_equal t"

fun b64_token_loop :: "base64 \<Rightarrow> byte list \<Rightarrow> u32 \<Rightarrow> nat \<Rightarrow> (u32 \<times> nat) result" where
  "b64_token_loop t [] val marker = Inr (val, marker)"
| "b64_token_loop t (c # cs) val marker =
     (let val1 = push_bit 6 val
      in if b64_is_equal t c then b64_token_loop t cs val1 (marker + 1)
         else if marker > 0 then Inl base64_decode_error
         else bindR (b64_decode_char t c) (\<lambda>v. b64_token_loop t cs (val1 + v) marker))"

definition b64_token_decode :: "base64 \<Rightarrow> byte list \<Rightarrow> (u32 \<times> nat) result" where
  "b64_token_decode t token =
     (if length token < 4 then Inl base64_decode_error
      else bindR (b64_token_loop t token 0 0)
             (\<lambda>(val, marker). if marker > 2 then Inl base64_decode_error else Inr (val, marker)))"

text \<open>
  A destination: its content and, for the bounded one (\<open>UCharWrap\<close>), its capacity. The loop returns the
  exception, if any, with the content written until then.
\<close>

definition b64_push_back :: "nat option \<Rightarrow> byte \<Rightarrow> byte list \<Rightarrow> byte list result" where
  "b64_push_back cap c dest =
     (case cap of Some n \<Rightarrow> if length dest \<ge> n then Inl base64_decode_out_of_bound_error else Inr (dest @ [c])
      | None \<Rightarrow> Inr (dest @ [c]))"

definition b64_emit :: "nat option \<Rightarrow> u32 \<Rightarrow> nat \<Rightarrow> byte list \<Rightarrow> byte list result" where
  "b64_emit cap val marker dest =
     bindR (b64_push_back cap (ucast (drop_bit 16 val AND 0xff)) dest) (\<lambda>d1.
     bindR (if marker < 2 then b64_push_back cap (ucast (drop_bit 8 val AND 0xff)) d1 else Inr d1) (\<lambda>d2.
     if marker < 1 then b64_push_back cap (ucast (val AND 0xff)) d2 else Inr d2))"

function b64_decode :: "base64 \<Rightarrow> nat option \<Rightarrow> byte list \<Rightarrow> byte list \<Rightarrow> byte list result" where
  "b64_decode t cap dest str =
     (if str = [] then Inr dest
      else bindR (b64_token_decode t (take 4 str)) (\<lambda>(val, marker).
           bindR (b64_emit cap val marker dest) (\<lambda>dest'. b64_decode t cap dest' (drop 4 str))))"
  by pat_completeness auto
termination
  by (relation "measure (\<lambda>(t, cap, dest, str). length str)") auto

declare b64_decode.simps [simp del]

section \<open>\<open>is_base64\<close>\<close>

definition b64_encoded_len :: "nat \<Rightarrow> nat" where
  "b64_encoded_len decoded_len = (let x = decoded_len * 4 mod sz_max div 3 + 3 in x - x mod 4)"

definition b64_num_eq :: "nat \<Rightarrow> nat" where
  "b64_num_eq decoded_len = sz_sub (sz_max - 1) decoded_len mod 3"

definition b64_is_base64 :: "base64 \<Rightarrow> byte list \<Rightarrow> nat \<Rightarrow> bool" where
  "b64_is_base64 t data expected_decoded_length =
     (let sz = length data
      in sz = b64_encoded_len expected_decoded_length
         \<and> (let eq_begin = sz - b64_num_eq expected_decoded_length
            in \<forall>i\<in>set [0..<sz]. let c = data ! i
                 in if i < eq_begin then b64_is_base64_char t c else b64_is_equal t c))"

section \<open>The tables\<close>

text \<open>The decoding table inverts the encoding table, and the padding character is in neither.\<close>

definition b64_ok :: "base64 \<Rightarrow> bool" where
  "b64_ok t \<longleftrightarrow> length (b64_enc t) = 64 \<and> 0 < b64_equal t \<and> b64_equal t < 128
     \<and> (\<forall>i\<in>set [0..<64]. b64_enc t ! i < 128 \<and> b64_enc t ! i \<noteq> 0 \<and> b64_enc t ! i \<noteq> b64_equal t
          \<and> b64_dec t ! unat (b64_enc t ! i) = of_nat i)"

definition ok_result :: "base64 result \<Rightarrow> bool" where
  "ok_result r = (case r of Inr t \<Rightarrow> b64_ok t | Inl e \<Rightarrow> False)"

lemma b64_tables_ok:
  "ok_result (b64_ctor None)" "ok_result (b64_ctor (Some [45, 95, 46]))"
  by code_simp+

section \<open>One group of four characters\<close>

lemma enc_index:
  fixes c :: u32
  shows "unat (drop_bit 18 (c AND 0x00fc0000)) = unat c div 2 ^ 18 mod 64"
    and "unat (drop_bit 12 (c AND 0x0003f000)) = unat c div 2 ^ 12 mod 64"
    and "unat (drop_bit 6 (c AND 0x00000fc0)) = unat c div 2 ^ 6 mod 64"
    and "unat (c AND 0x0000003f) = unat c mod 64"
proof -
  have m: "unat (x AND 0x3f) = unat x mod 64" for x :: u32
    using take_bit_eq_mask [of 6 x] unsigned_take_bit_eq [of 6 x, where 'a = nat]
    by (simp add: mask_eq_exp_minus_1 take_bit_eq_mod)
  have "drop_bit 18 (c AND 0x00fc0000) = drop_bit 18 c AND 0x3f"
    "drop_bit 12 (c AND 0x0003f000) = drop_bit 12 c AND 0x3f"
    "drop_bit 6 (c AND 0x00000fc0) = drop_bit 6 c AND 0x3f"
    by (simp_all only: drop_bit_and) simp_all
  then show "unat (drop_bit 18 (c AND 0x00fc0000)) = unat c div 2 ^ 18 mod 64"
    "unat (drop_bit 12 (c AND 0x0003f000)) = unat c div 2 ^ 12 mod 64"
    "unat (drop_bit 6 (c AND 0x00000fc0)) = unat c div 2 ^ 6 mod 64"
    "unat (c AND 0x0000003f) = unat c mod 64"
    by (simp_all add: m unat_drop_bit)
qed

lemma byte_ucast: "unat (ucast (w :: byte) :: u32) = unat w"
  by (rule unat_ucast_up) simp

lemma byte_less: "unat (w :: byte) < 256"
  using unsigned_less [of w, where 'a = nat] by simp

lemma b64_ok_char:
  assumes "b64_ok t" "i < 64"
  shows "b64_decode_char t (b64_enc t ! i) = Inr (of_nat i)"
    and "\<not> b64_is_equal t (b64_enc t ! i)" and "b64_is_base64_char t (b64_enc t ! i)"
    and "b64_enc t ! i \<noteq> 0" and "b64_is_equal t (b64_equal t)" and "b64_equal t \<noteq> 0"
proof -
  have ok: "b64_enc t ! i < 128" "b64_enc t ! i \<noteq> 0" "b64_enc t ! i \<noteq> b64_equal t"
    "b64_dec t ! unat (b64_enc t ! i) = of_nat i" "0 < b64_equal t" "b64_equal t < 128"
    using assms unfolding b64_ok_def by auto
  have u: "unat (of_nat i :: byte) = i" using assms(2) by (simp add: unat_of_nat)
  have v: "unat (of_nat i :: u32) = i" using assms(2) by (simp add: unat_of_nat)
  have u': "ucast (of_nat i :: byte) = (of_nat i :: u32)"
    using byte_ucast [of "of_nat i"] u v by (metis word_unat_eq_iff)
  have n: "(of_nat i :: byte) \<noteq> 0xFF"
  proof
    assume "(of_nat i :: byte) = 0xFF"
    then have "i = unat (0xFF :: byte)" using u by metis
    then show False using assms(2) by simp
  qed
  have n': "(of_nat i :: u32) \<noteq> 0xFF"
  proof
    assume "(of_nat i :: u32) = 0xFF"
    then have "i = unat (0xFF :: u32)" using v by metis
    then show False using assms(2) by simp
  qed
  show "b64_decode_char t (b64_enc t ! i) = Inr (of_nat i)"
    using ok n' u' by (simp add: b64_decode_char_def)
  show "\<not> b64_is_equal t (b64_enc t ! i)" "b64_is_base64_char t (b64_enc t ! i)"
    "b64_enc t ! i \<noteq> 0" "b64_is_equal t (b64_equal t)" "b64_equal t \<noteq> 0"
    using ok n by (auto simp: b64_is_equal_def b64_is_base64_char_def)
qed

text \<open>Three bytes packed into 24 bits, and their four 6-bit digits.\<close>

lemma b64_pack:
  fixes a b d :: byte
  shows "unat (push_bit 8 (push_bit 8 (ucast a) + ucast b) + ucast d :: u32)
           = unat a * 2 ^ 16 + unat b * 2 ^ 8 + unat d"
proof -
  note l = byte_less [of a] byte_less [of b] byte_less [of d]
  have 1: "unat (push_bit 8 (ucast a) :: u32) = unat a * 256"
    using l(1) by (simp only: unat_push_bit byte_ucast) simp
  have 2: "unat (push_bit 8 (ucast a) + ucast b :: u32) = unat a * 256 + unat b"
    using l by (subst unat_add_no_overflow) (simp_all only: 1 byte_ucast, simp_all)
  have 3: "unat (push_bit 8 (push_bit 8 (ucast a) + ucast b) :: u32) = (unat a * 256 + unat b) * 256"
    using l by (simp only: unat_push_bit 2) simp
  show ?thesis
    using l by (subst unat_add_no_overflow) (simp_all only: 3 byte_ucast, simp_all)
qed

lemma b64_join:
  assumes "i0 < 64" "i1 < 64" "i2 < 64" "i3 < 64"
  shows "unat (push_bit 6 (push_bit 6 (push_bit 6 (of_nat i0) + of_nat i1) + of_nat i2) + of_nat i3 :: u32)
           = ((i0 * 64 + i1) * 64 + i2) * 64 + i3"
proof -
  have n: "unat (of_nat i :: u32) = i" if "i < 64" for i using that by (simp add: unat_of_nat)
  have step: "unat (push_bit 6 x + of_nat i :: u32) = unat x * 64 + i"
    if "i < 64" "unat x < 2 ^ 20" for x :: u32 and i
  proof -
    have p: "unat (push_bit 6 x) = unat x * 64" using that(2) by (simp only: unat_push_bit) simp
    show ?thesis
      using that by (subst unat_add_no_overflow) (simp_all only: p n, simp_all)
  qed
  show ?thesis using assms by (simp add: step n)
qed

lemma b64_split:
  fixes n :: nat
  assumes "n < 2 ^ 24"
  shows "((n div 2 ^ 18 mod 64 * 64 + n div 2 ^ 12 mod 64) * 64 + n div 2 ^ 6 mod 64) * 64 + n mod 64 = n"
proof -
  have "n div 2 ^ 12 = n div 2 ^ 6 div 64" "n div 2 ^ 18 = n div 2 ^ 6 div 64 div 64"
    by (simp_all add: div_mult2_eq [symmetric])
  moreover have "n div 2 ^ 18 mod 64 = n div 2 ^ 18" using assms by simp
  moreover have "x div 64 * 64 + x mod 64 = x" for x :: nat by (rule div_mult_mod_eq)
  ultimately show ?thesis by simp
qed

text \<open>Decoding the group that was encoded from up to three bytes gives them back.\<close>

lemma b64_bytes:
  fixes val :: u32
  assumes "unat val = unat a * 2 ^ 16 + unat b * 2 ^ 8 + unat d"
  shows "ucast (drop_bit 16 val AND 0xff) = (a :: byte)" "ucast (drop_bit 8 val AND 0xff) = (b :: byte)"
    "ucast (val AND 0xff) = (d :: byte)"
proof -
  have m: "unat (ucast (x AND 0xff :: u32) :: byte) = unat x mod 256" for x
    using unat_and_mask [of x 8] by (simp add: unsigned_ucast_eq take_bit_eq_mod)
  have v: "unat val = (unat a * 256 + unat b) * 256 + unat d" using assms by simp
  have e: "(x * 256 + y) mod 256 = y" "(x * 256 + y) div 256 = x" if "y < 256" for x y :: nat
    using that by simp_all
  have "unat val div 2 ^ 16 = unat val div 256 div 256" by (simp add: div_mult2_eq [symmetric])
  moreover have d: "unat val mod 256 = unat d" "unat val div 256 = unat a * 256 + unat b"
    unfolding v using e byte_less by blast+
  ultimately have "unat val div 2 ^ 16 mod 256 = unat a" "unat val div 2 ^ 8 mod 256 = unat b"
    using e [OF byte_less [of b], of "unat a"] byte_less [of a] by simp_all
  note this d(1)
  then show "ucast (drop_bit 16 val AND 0xff) = a" "ucast (drop_bit 8 val AND 0xff) = b" "ucast (val AND 0xff) = d"
    by (simp_all only: word_unat_eq_iff m unat_drop_bit)
qed

lemma b64_token_decode_group:
  assumes ok: "b64_ok t"
    and i: "i0 < 64" "i1 < 64" "i2 < 64" "i3 < 64"
  shows "b64_token_decode t [b64_enc t ! i0, b64_enc t ! i1, b64_enc t ! i2, b64_enc t ! i3]
           = Inr (push_bit 6 (push_bit 6 (push_bit 6 (of_nat i0) + of_nat i1) + of_nat i2) + of_nat i3, 0)"
    and "b64_token_decode t [b64_enc t ! i0, b64_enc t ! i1, b64_enc t ! i2, b64_equal t]
           = Inr (push_bit 6 (push_bit 6 (push_bit 6 (of_nat i0) + of_nat i1) + of_nat i2), 1)"
    and "b64_token_decode t [b64_enc t ! i0, b64_enc t ! i1, b64_equal t, b64_equal t]
           = Inr (push_bit 6 (push_bit 6 (push_bit 6 (of_nat i0) + of_nat i1)), 2)"
  by (simp_all add: b64_token_decode_def bindR_def b64_ok_char [OF ok i(1)] b64_ok_char [OF ok i(2)]
      b64_ok_char [OF ok i(3)] b64_ok_char [OF ok i(4)] del: push_bit_of_nat)

section \<open>The loops\<close>

text \<open>The group of up to three bytes at \<open>i\<close> as a number, and the four characters that encode it.\<close>

definition byte_at :: "byte list \<Rightarrow> nat \<Rightarrow> byte" where
  "byte_at data i = (if i < length data then data ! i else 0)"

definition group_at :: "byte list \<Rightarrow> nat \<Rightarrow> nat" where
  "group_at data i = unat (byte_at data i) * 2 ^ 16 + unat (byte_at data (i + 1)) * 2 ^ 8
     + unat (byte_at data (i + 2))"

abbreviation group_chars :: "base64 \<Rightarrow> byte list \<Rightarrow> nat \<Rightarrow> byte list" where
  "group_chars t data i \<equiv>
    [b64_enc t ! (group_at data i div 2 ^ 18 mod 64), b64_enc t ! (group_at data i div 2 ^ 12 mod 64),
     if i + 1 = length data then b64_equal t else b64_enc t ! (group_at data i div 2 ^ 6 mod 64),
     if i + 2 \<ge> length data then b64_equal t else b64_enc t ! (group_at data i mod 64)]"

lemma b64_encode_loop_step:
  assumes "i < length data"
  shows "b64_encode_loop t data i = group_chars t data i @ b64_encode_loop t data (i + 3)"
proof -
  define c :: u32 where "c = push_bit 8 (push_bit 8 (ucast (byte_at data i)) + ucast (byte_at data (i + 1)))
    + ucast (byte_at data (i + 2))"
  have u: "unat c = group_at data i" by (simp only: c_def b64_pack group_at_def)
  have e: "(if i + 2 < length data
      then push_bit 8 (if i + 1 < length data then push_bit 8 (ucast (data ! i)) + ucast (data ! (i + 1))
             else push_bit 8 (ucast (data ! i))) + ucast (data ! (i + 2))
      else push_bit 8 (if i + 1 < length data then push_bit 8 (ucast (data ! i)) + ucast (data ! (i + 1))
             else push_bit 8 (ucast (data ! i)))) = c"
    using assms by (simp add: c_def byte_at_def)
  have g: "(i + 3 > length data + 1) = (i + 1 = length data)" "(i + 3 > length data) = (i + 2 \<ge> length data)"
    using assms by auto
  show ?thesis
    by (subst b64_encode_loop.simps) (simp only: Let_def assms if_True e g enc_index u)
qed

lemma b64_encode_loop_done: "length data \<le> i \<Longrightarrow> b64_encode_loop t data i = []"
  by (subst b64_encode_loop.simps) simp

lemma b64_decode_step:
  "length g = 4 \<Longrightarrow> b64_decode t cap dest (g @ rest) =
     bindR (b64_token_decode t g) (\<lambda>(val, marker).
     bindR (b64_emit cap val marker dest) (\<lambda>dest'. b64_decode t cap dest' rest))"
  by (subst b64_decode.simps) (cases g; simp)

lemma group_less: "group_at data i < 2 ^ 24"
  using byte_less [of "byte_at data i"] byte_less [of "byte_at data (i + 1)"] byte_less [of "byte_at data (i + 2)"]
  by (simp add: group_at_def)

text \<open>The token that encodes a group has the group as its value, and as many markers as absent bytes.\<close>

lemma b64_token_decode_encoded:
  assumes ok: "b64_ok t" and i: "i < length data"
  shows "\<exists>val. b64_token_decode t (group_chars t data i) = Inr (val, i + 3 - length data)
     \<and> unat val = group_at data i"
proof -
  let ?n = "group_at data i"
  note idx = mod_less_divisor [of 64 "?n div 2 ^ 18"] mod_less_divisor [of 64 "?n div 2 ^ 12"]
    mod_less_divisor [of 64 "?n div 2 ^ 6"] mod_less_divisor [of 64 ?n]
  note dec = b64_token_decode_group [OF ok, of "?n div 2 ^ 18 mod 64" "?n div 2 ^ 12 mod 64"
      "?n div 2 ^ 6 mod 64" "?n mod 64", OF idx [OF zero_less_numeral]]
  note join = b64_join [of "?n div 2 ^ 18 mod 64" "?n div 2 ^ 12 mod 64"
      "?n div 2 ^ 6 mod 64" "?n mod 64", OF idx [OF zero_less_numeral], unfolded b64_split [OF group_less]]
  have z: "?n mod 64 = 0" if "i + 2 \<ge> length data"
    using that by (simp add: group_at_def byte_at_def)
  have z': "?n div 2 ^ 6 mod 64 = 0" if "i + 1 = length data"
    using that by (simp add: group_at_def byte_at_def)
  consider "i + 1 = length data" | "i + 2 = length data" | "i + 2 < length data" using i by linarith
  then show ?thesis
  proof cases
    case 1 then show ?thesis using dec(3) join z z' by simp
  next
    case 2 then show ?thesis using dec(2) join z by simp
  next
    case 3 then show ?thesis using dec(1) join by simp
  qed
qed

lemma b64_emit_group:
  assumes "unat val = group_at data i" "i < length data"
  shows "b64_emit None val (i + 3 - length data) (take i data) = Inr (take (i + 3) data)"
proof -
  note b = b64_bytes [OF assms(1) [unfolded group_at_def]]
  have t: "take (Suc k) data = take k data @ [data ! k]" if "k < length data" for k
    using that by (rule take_Suc_conv_app_nth)
  consider "i + 1 = length data" | "i + 2 = length data" | "i + 2 < length data" using assms(2) by linarith
  then show ?thesis
  proof cases
    case 1 then show ?thesis using t [of i] b by (simp add: b64_emit_def b64_push_back_def byte_at_def)
  next
    case 2 then show ?thesis using t [of i] t [of "Suc i"] b
      by (simp add: b64_emit_def b64_push_back_def byte_at_def)
  next
    case 3 then show ?thesis using t [of i] t [of "Suc i"] t [of "Suc (Suc i)"] b
      by (simp add: b64_emit_def b64_push_back_def byte_at_def numeral_3_eq_3)
  qed
qed

text \<open>Induction over the groups of the data, with the step in the form of the lemmas above.\<close>

lemma b64_groups_induct [case_names finish group]:
  assumes "\<And>i. length data \<le> i \<Longrightarrow> P i" "\<And>i. i < length data \<Longrightarrow> P (i + 3) \<Longrightarrow> P i"
  shows "P (i :: nat)"
proof (induction i rule: measure_induct_rule [of "\<lambda>i. length data - i"])
  case (less i)
  show ?case using assms(1) [of i] assms(2) [of i] less.IH [of "i + 3"] by fastforce
qed

lemma b64_decode_encode_loop:
  assumes ok: "b64_ok t"
  shows "b64_decode t None (take i data) (b64_encode_loop t data i) = Inr data"
proof (induction i rule: b64_groups_induct [of data])
  case (finish i)
  then show ?case by (simp add: b64_encode_loop_done b64_decode.simps)
next
  case (group i)
  obtain val where "b64_token_decode t (group_chars t data i) = Inr (val, i + 3 - length data)"
    "unat val = group_at data i"
    using b64_token_decode_encoded [OF ok group(1)] by blast
  then show ?case
    unfolding b64_encode_loop_step [OF group(1)]
    by (subst b64_decode_step) (simp_all add: b64_emit_group group)
qed

lemma b64_encode_loop_nonzero:
  assumes ok: "b64_ok t"
  shows "0 \<notin> set (b64_encode_loop t data i)"
proof (induction i rule: b64_groups_induct [of data])
  case (finish i)
  then show ?case by (simp add: b64_encode_loop_done)
next
  case (group i)
  have nz: "b64_enc t ! (k mod 64) \<noteq> 0" "b64_equal t \<noteq> 0" for k
    using b64_ok_char [OF ok, of "k mod 64"] by simp_all
  show ?case
    unfolding b64_encode_loop_step [OF group(1)] using group(2) nz by (auto dest: sym)
qed

lemma b64_encode_eq:
  assumes "b64_ok t"
  shows "b64_encode t data = b64_encode_loop t data 0"
proof -
  have "\<forall>c\<in>set (b64_encode_loop t data 0). c \<noteq> 0" using b64_encode_loop_nonzero [OF assms] by metis
  then show ?thesis by (simp add: b64_encode_def takeWhile_eq_all_conv)
qed

lemma b64_encode_loop_length:
  "length (b64_encode_loop t data i) = (length data - i + 2) div 3 * 4"
proof (induction i rule: b64_groups_induct [of data])
  case (finish i)
  then show ?case by (simp add: b64_encode_loop_done)
next
  case (group i)
  have "(length data - i + 2) div 3 = (length data - (i + 3) + 2) div 3 + 1"
  proof (cases "i + 3 \<le> length data")
    case True
    then obtain k where "length data = i + 3 + k" using le_Suc_ex by blast
    then show ?thesis by simp
  next
    case False
    then have "length data - i = 1 \<or> length data - i = 2" using group(1) by linarith
    then show ?thesis using False by auto
  qed
  moreover have "length (b64_encode_loop t data i) = 4 + length (b64_encode_loop t data (i + 3))"
    by (subst b64_encode_loop_step [OF group(1)]) simp
  ultimately show ?case using group(2) by simp
qed

lemma b64_encode_loop_shape:
  assumes ok: "b64_ok t"
  shows "\<exists>ts. b64_encode_loop t data i = ts @ replicate ((3 - (length data - i) mod 3) mod 3) (b64_equal t)
     \<and> (\<forall>c\<in>set ts. b64_is_base64_char t c)"
proof (induction i rule: b64_groups_induct [of data])
  case (finish i)
  then show ?case by (simp add: b64_encode_loop_done)
next
  case (group i)
  let ?enc = "map (\<lambda>k. b64_enc t ! (k mod 64))" and ?n = "group_at data i"
  have ch: "b64_is_base64_char t (b64_enc t ! (k mod 64))" for k
    using b64_ok_char [OF ok, of "k mod 64"] by simp
  consider "i + 1 = length data" | "i + 2 = length data" | "i + 3 \<le> length data" using group(1) by linarith
  then show ?case
  proof cases
    case 1
    then have d: "length data - i = 1" by simp
    show ?thesis
      unfolding b64_encode_loop_step [OF group(1)] using 1 ch
      by (intro exI [of _ "?enc [?n div 2 ^ 18, ?n div 2 ^ 12]"])
        (simp add: d b64_encode_loop_done numeral_2_eq_2)
  next
    case 2
    then have d: "length data - i = 2" by simp
    show ?thesis
      unfolding b64_encode_loop_step [OF group(1)] using 2 ch
      by (intro exI [of _ "?enc [?n div 2 ^ 18, ?n div 2 ^ 12, ?n div 2 ^ 6]"])
        (simp add: d b64_encode_loop_done)
  next
    case 3
    have m: "(length data - i) mod 3 = (length data - (i + 3)) mod 3"
      using 3 mod_add_self2 [of "length data - (i + 3)" 3] by (simp add: Suc_diff_le)
    from group(2) obtain ts where ts: "b64_encode_loop t data (i + 3)
        = ts @ replicate ((3 - (length data - i) mod 3) mod 3) (b64_equal t)" "\<forall>c\<in>set ts. b64_is_base64_char t c"
      unfolding m by blast
    show ?thesis
      unfolding b64_encode_loop_step [OF group(1)] ts(1) using 3 ts(2) ch
      by (intro exI [of _ "?enc [?n div 2 ^ 18, ?n div 2 ^ 12, ?n div 2 ^ 6, ?n] @ ts"]) auto
  qed
qed

section \<open>\<open>is_base64\<close> and the bounded destination\<close>

lemma b64_encoded_len_eq: "n * 4 < sz_max \<Longrightarrow> b64_encoded_len n = (n + 2) div 3 * 4"
proof -
  assume "n * 4 < sz_max"
  then have "b64_encoded_len n = (n * 4 div 3 + 3) div 4 * 4"
    by (simp add: b64_encoded_len_def Let_def minus_mod_eq_div_mult)
  moreover have "(n * 4 div 3 + 3) div 4 = (n + 2) div 3"
  proof -
    have n: "n = n div 3 * 3 + n mod 3" by simp
    have "n mod 3 = 0 \<or> n mod 3 = 1 \<or> n mod 3 = 2" by linarith
    then show ?thesis by (subst (1 2) n) (elim disjE; simp)
  qed
  ultimately show ?thesis by simp
qed

lemma b64_num_eq_eq: "n < sz_max \<Longrightarrow> b64_num_eq n = (3 - n mod 3) mod 3"
proof -
  assume n: "n < sz_max"
  then have b: "b64_num_eq n = (18446744073709551615 - n) mod 3"
    by (simp add: b64_num_eq_def sz_sub_exact) (simp add: sz_max_def)
  have "n \<le> 18446744073709551615" using n unfolding sz_max_def by linarith
  then obtain k where k: "18446744073709551615 = n + k" using le_Suc_ex by blast
  have "(n + k) mod 3 = 0" unfolding k [symmetric] by simp
  then have "(n mod 3 + k mod 3) mod 3 = 0" by (simp add: mod_add_eq)
  moreover have "n mod 3 = 0 \<or> n mod 3 = 1 \<or> n mod 3 = 2" "k mod 3 = 0 \<or> k mod 3 = 1 \<or> k mod 3 = 2"
    by linarith+
  ultimately have "k mod 3 = (3 - n mod 3) mod 3" by (elim disjE) simp_all
  moreover have "18446744073709551615 - n = k" using k by linarith
  ultimately show ?thesis by (simp add: b)
qed

lemma b64_is_base64_shape:
  assumes "data = ts @ replicate (b64_num_eq n) (b64_equal t)" "\<forall>c\<in>set ts. b64_is_base64_char t c"
    "length data = b64_encoded_len n" "b64_equal t < 128"
  shows "b64_is_base64 t data n"
  using assms by (auto simp: b64_is_base64_def Let_def nth_append b64_is_equal_def)

lemma b64_push_back_simps:
  "b64_push_back (Some n) c d = (if length d < n then Inr (d @ [c]) else Inl base64_decode_out_of_bound_error)"
  "b64_push_back None c d = Inr (d @ [c])"
  by (simp_all add: b64_push_back_def)

lemma b64_emit_prefix: "\<exists>x. b64_emit None val marker dest = Inr (dest @ x) \<and> length x \<le> 3"
  by (simp add: b64_emit_def b64_push_back_simps)

lemma b64_emit_bounded:
  assumes "length dest \<le> n" "b64_emit None val marker dest = Inr d"
  shows "b64_emit (Some n) val marker dest
    = (if length d \<le> n then Inr d else Inl base64_decode_out_of_bound_error)"
  using assms by (auto simp: b64_emit_def b64_push_back_simps split: if_splits)

text \<open>One round of the decoding loop, when the call returns.\<close>

lemma b64_decode_round:
  assumes "b64_decode t cap dest str = Inr d" "str \<noteq> []"
  obtains val marker dest' where "b64_token_decode t (take 4 str) = Inr (val, marker)"
    "b64_emit cap val marker dest = Inr dest'" "b64_decode t cap dest' (drop 4 str) = Inr d" "4 \<le> length str"
proof -
  from assms obtain val marker dest' where *: "b64_token_decode t (take 4 str) = Inr (val, marker)"
    "b64_emit cap val marker dest = Inr dest'" "b64_decode t cap dest' (drop 4 str) = Inr d"
    by (subst (asm) b64_decode.simps) (auto simp: bindR_eq_Inr)
  moreover from *(1) have "4 \<le> length str" by (auto simp: b64_token_decode_def split: if_splits)
  ultimately show thesis by (rule that)
qed

lemma b64_decode_grows:
  "b64_decode t None dest str = Inr d \<Longrightarrow>
     length dest \<le> length d \<and> length str mod 4 = 0 \<and> length d \<le> length dest + length str div 4 * 3"
proof (induction str arbitrary: dest rule: measure_induct_rule [of length])
  case (less str)
  show ?case
  proof (cases "str = []")
    case True
    then show ?thesis using less.prems by (simp add: b64_decode.simps)
  next
    case False
    from less.prems False obtain val marker dest' where
      em: "b64_emit None val marker dest = Inr dest'" "b64_decode t None dest' (drop 4 str) = Inr d"
        "4 \<le> length str" by (rule b64_decode_round)
    obtain x where x: "b64_emit None val marker dest = Inr (dest @ x)" "length x \<le> 3"
      using b64_emit_prefix by blast
    obtain k where k: "length str = k + 4" using em(3) le_Suc_ex by (metis add.commute)
    have "(k + 4) div 4 = k div 4 + 1" by simp
    then show ?thesis using less.IH [of "drop 4 str" "dest @ x"] em x k by simp
  qed
qed

lemma b64_decode_bounded_eq:
  "length dest \<le> n \<Longrightarrow> b64_decode t None dest str = Inr d \<Longrightarrow>
     b64_decode t (Some n) dest str = (if length d \<le> n then Inr d else Inl base64_decode_out_of_bound_error)"
proof (induction str arbitrary: dest rule: measure_induct_rule [of length])
  case (less str)
  show ?case
  proof (cases "str = []")
    case True
    then show ?thesis using less.prems by (simp add: b64_decode.simps)
  next
    case False
    from less.prems(2) False obtain val marker dest' where
      r: "b64_token_decode t (take 4 str) = Inr (val, marker)" "b64_emit None val marker dest = Inr dest'"
        "b64_decode t None dest' (drop 4 str) = Inr d" by (rule b64_decode_round)
    have step: "b64_decode t (Some n) dest str
        = bindR (b64_emit (Some n) val marker dest) (\<lambda>d'. b64_decode t (Some n) d' (drop 4 str))"
      using False by (subst b64_decode.simps) (simp add: r(1))
    have "length (drop 4 str) < length str" using False by simp
    from less.IH [OF this _ r(3)] show ?thesis
      using b64_emit_bounded [OF less.prems(1) r(2)] b64_decode_grows [OF r(3)] by (auto simp: step)
  qed
qed

section \<open>Properties\<close>

lemma b64_static:
  assumes "altmap = None \<or> altmap = Some [45, 95, 46]" "b64_ctor altmap = Inr t"
  shows "b64_ok t"
  using assms b64_tables_ok by (auto simp: ok_result_def)

text \<open>
  For the two tables the program builds (the default one and the URL-safe one), decoding what was
  encoded gives the data back; the encoded text and its terminating null fit the array \<open>encode\<close>
  allocates; and \<open>is_base64\<close> recognises it as the encoding of that many bytes.
\<close>

lemma b64_round_trip:
  assumes "altmap = None \<or> altmap = Some [45, 95, 46]" "b64_ctor altmap = Inr t"
    and "length data * 4 < sz_max"
  shows "b64_decode t None [] (b64_encode t data) = Inr data
    \<and> length (b64_encode t data) + 1 \<le> b64_encode_size_max (length data)
    \<and> b64_is_base64 t (b64_encode t data) (length data)"
proof (intro conjI)
  have ok: "b64_ok t" by (rule b64_static [OF assms(1,2)])
  have e: "b64_encode t data = b64_encode_loop t data 0" by (rule b64_encode_eq [OF ok])
  have len: "length (b64_encode t data) = (length data + 2) div 3 * 4"
    using b64_encode_loop_length [of t data 0] by (simp add: e)
  show "b64_decode t None [] (b64_encode t data) = Inr data"
    using b64_decode_encode_loop [OF ok, of 0 data] by (simp add: e)
  show "length (b64_encode t data) + 1 \<le> b64_encode_size_max (length data)"
    unfolding len b64_encode_size_max_def by presburger
  obtain ts where "b64_encode t data = ts @ replicate (b64_num_eq (length data)) (b64_equal t)"
    "\<forall>c\<in>set ts. b64_is_base64_char t c"
    using b64_encode_loop_shape [OF ok, of data 0] assms(3) by (auto simp: e b64_num_eq_eq)
  then show "b64_is_base64 t (b64_encode t data) (length data)"
    by (rule b64_is_base64_shape) (use len assms(3) ok in \<open>simp_all add: b64_encoded_len_eq b64_ok_def\<close>)
qed

text \<open>
  Decoding into a region of \<open>n\<close> bytes never writes past it: on a text that decodes it gives
  the same bytes when they fit and the out-of-bound exception when they do not; and a text that
  decodes is a whole number of groups, its data within \<open>decode_size_max\<close>.
\<close>

lemma b64_decode_bounded:
  assumes "b64_decode t None [] str = Inr d"
  shows "b64_decode t (Some n) [] str = (if length d \<le> n then Inr d else Inl base64_decode_out_of_bound_error)
    \<and> length str mod 4 = 0 \<and> length d \<le> b64_decode_size_max (length str)"
  using b64_decode_grows [OF assms] b64_decode_bounded_eq [OF _ assms, of n]
  by (auto simp: b64_decode_size_max_def)

end
