(* ===== verification/Frame_Context.thy ===== *)
theory Frame_Context
  imports OV_Buffer
begin

text \<open>
  \<open>Frame\<close> and \<open>Frame::Context\<close> of frame/frame.hpp and the contexts of frame/frame_init.hpp: how much
  headroom, payload and tailroom a buffer gets and at which offset its data starts. The address of a
  buffer's array, which the alignment depends on, is an argument (\<open>base\<close>), as are the indeterminate
  bytes of fresh memory (\<open>junk\<close>). The theorems bound the headroom and show that a prepared buffer
  has room for the payload whatever its address is.
\<close>

section \<open>Contexts\<close>

record frame_context =
  fc_headroom :: size_t
  fc_payload :: size_t
  fc_tailroom :: size_t
  fc_align_adjust :: size_t
  fc_align_block :: size_t
  fc_buffer_flags :: u32
  fc_adj_headroom :: size_t
  fc_adj_capacity :: size_t

definition fc_default :: frame_context where
  "fc_default = \<lparr>fc_headroom = 0, fc_payload = 0, fc_tailroom = 0, fc_align_adjust = 0, fc_align_block = 8,
     fc_buffer_flags = 0, fc_adj_headroom = 0, fc_adj_capacity = 0\<rparr>"

definition fc_recalc_derived :: "frame_context \<Rightarrow> frame_context" where
  "fc_recalc_derived fc =
     (let h = sz_add (fc_headroom fc) (fc_align_block fc)
      in fc\<lparr>fc_adj_headroom := h, fc_adj_capacity := sz_add (sz_add h (fc_payload fc)) (fc_tailroom fc)\<rparr>)"

definition fc_ctor :: "size_t \<Rightarrow> size_t \<Rightarrow> size_t \<Rightarrow> size_t \<Rightarrow> size_t \<Rightarrow> u32 \<Rightarrow> frame_context" where
  "fc_ctor headroom payload tailroom align_adjust align_block flags =
     fc_recalc_derived \<lparr>fc_headroom = headroom, fc_payload = payload, fc_tailroom = tailroom,
       fc_align_adjust = align_adjust, fc_align_block = align_block, fc_buffer_flags = flags,
       fc_adj_headroom = 0, fc_adj_capacity = 0\<rparr>"

definition fc_reset_align_adjust :: "size_t \<Rightarrow> frame_context \<Rightarrow> frame_context" where
  "fc_reset_align_adjust align_adjust fc = fc\<lparr>fc_align_adjust := align_adjust\<rparr>"

text \<open>\<open>size_t\<close> arithmetic on the address: the negation wraps, and the mask is \<open>align_block - 1\<close>.\<close>

definition fc_actual_headroom :: "nat \<Rightarrow> frame_context \<Rightarrow> size_t" where
  "fc_actual_headroom base fc =
     (let sum = sz_add (sz_add base (fc_headroom fc)) (fc_align_adjust fc)
      in sz_add (fc_headroom fc) (and (sz_sub 0 sum) (sz_sub (fc_align_block fc) 1)))"

definition fc_prepare :: "(nat \<Rightarrow> byte) \<Rightarrow> nat \<Rightarrow> frame_context \<Rightarrow> buffer \<Rightarrow> buffer result" where
  "fc_prepare junk base fc buf =
     bindR (buf_reset junk (fc_adj_capacity fc) (fc_buffer_flags fc) buf)
       (\<lambda>b. buf_init_headroom (fc_actual_headroom base fc) b)"

definition fc_alloc :: "(nat \<Rightarrow> byte) \<Rightarrow> nat \<Rightarrow> frame_context \<Rightarrow> buffer result" where
  "fc_alloc junk base fc = fc_prepare junk base fc buf_clear"

text \<open>The argument is a \<open>Buffer&\<close>: the realignment of the base class, which does not reallocate.\<close>

definition fc_realign :: "nat \<Rightarrow> frame_context \<Rightarrow> buffer \<Rightarrow> buffer result" where
  "fc_realign base fc buf = buf_realign (fc_actual_headroom base fc) buf"

definition fc_copy :: "(nat \<Rightarrow> byte) \<Rightarrow> nat \<Rightarrow> frame_context \<Rightarrow> byte list \<Rightarrow> buffer result" where
  "fc_copy junk base fc bs =
     (let cap = sz_add (sz_add (length bs) (fc_adj_headroom fc)) (fc_tailroom fc)
      in bindR (buf_init_headroom (fc_actual_headroom base fc) (buf_alloc_capacity junk cap (fc_buffer_flags fc)))
           (\<lambda>b. buf_write junk bs b))"

definition fc_remaining_payload :: "frame_context \<Rightarrow> buffer \<Rightarrow> size_t" where
  "fc_remaining_payload fc buf = (if fc_payload fc > b_size buf then fc_payload fc - b_size buf else 0)"

definition fc_standardize_capacity :: "size_t \<Rightarrow> frame_context \<Rightarrow> frame_context" where
  "fc_standardize_capacity newcap fc =
     (if newcap > fc_adj_capacity fc then fc\<lparr>fc_adj_capacity := newcap\<rparr> else fc)"

section \<open>Frames\<close>

definition N_ALIGN_CONTEXTS :: nat where "N_ALIGN_CONTEXTS = 16"
definition ENCRYPT_WORK :: nat where "ENCRYPT_WORK = 0"
definition DECRYPT_WORK :: nat where "DECRYPT_WORK = 1"
definition READ_LINK_UDP :: nat where "READ_LINK_UDP = 4"
definition READ_LINK_TCP :: nat where "READ_LINK_TCP = 5"
definition READ_BIO_MEMQ_STREAM :: nat where "READ_BIO_MEMQ_STREAM = 8"
definition WRITE_SSL_CLEARTEXT :: nat where "WRITE_SSL_CLEARTEXT = 11"

type_synonym frame = "frame_context list"

definition frame_set_default :: "frame_context \<Rightarrow> frame" where
  "frame_set_default c = replicate N_ALIGN_CONTEXTS c"

definition frame_at :: "frame \<Rightarrow> nat \<Rightarrow> frame_context result" where
  "frame_at f i = (if i \<ge> N_ALIGN_CONTEXTS then Inl frame_context_index else Inr (f ! i))"

fun frame_max_cap :: "frame \<Rightarrow> u32 \<Rightarrow> size_t \<Rightarrow> size_t" where
  "frame_max_cap [] msk max_cap = max_cap"
| "frame_max_cap (c # cs) msk max_cap =
     frame_max_cap cs (drop_bit 1 msk)
       (if msk AND 1 \<noteq> 0 \<and> fc_adj_capacity c > max_cap then fc_adj_capacity c else max_cap)"

fun frame_set_cap :: "frame \<Rightarrow> u32 \<Rightarrow> size_t \<Rightarrow> frame" where
  "frame_set_cap [] msk max_cap = []"
| "frame_set_cap (c # cs) msk max_cap =
     (if msk AND 1 \<noteq> 0 then fc_standardize_capacity max_cap c else c) # frame_set_cap cs (drop_bit 1 msk) max_cap"

definition frame_standardize_capacity :: "u32 \<Rightarrow> frame \<Rightarrow> frame" where
  "frame_standardize_capacity msk f = frame_set_cap f msk (frame_max_cap f msk 0)"

definition frame_init :: "bool \<Rightarrow> size_t \<Rightarrow> size_t \<Rightarrow> frame" where
  "frame_init align_adjust_3_1 tun_mtu_max control_channel_payload =
     (let payload = max (sz_add tun_mtu_max 512) 2048;
          f0 = frame_set_default (fc_ctor 512 payload 512 0 16 0);
          f1 = (if align_adjust_3_1
                then f0[READ_LINK_TCP := fc_ctor 512 payload 512 3 16 0,
                        READ_LINK_UDP := fc_ctor 512 payload 512 1 16 0] else f0);
          f2 = f1[READ_BIO_MEMQ_STREAM := fc_ctor 512 (min control_channel_payload payload) 512 0 16 0];
          f3 = f2[WRITE_SSL_CLEARTEXT := fc_ctor 512 payload 512 0 16 GROW]
      in frame_standardize_capacity (NOT 0) f3)"

definition frame_init_context_simple :: "size_t \<Rightarrow> frame_context" where
  "frame_init_context_simple payload = fc_ctor 512 payload 512 0 16 0"

section \<open>Bounds\<close>

text \<open>
  A context as the constructor leaves it (its capacity possibly raised by \<open>standardize_capacity\<close>), with
  sizes that fit the address space.
\<close>

definition fc_wf :: "frame_context \<Rightarrow> bool" where
  "fc_wf fc \<longleftrightarrow> 0 < fc_align_block fc
     \<and> fc_headroom fc + fc_align_block fc + fc_payload fc + fc_tailroom fc \<le> fc_adj_capacity fc
     \<and> 4 * fc_adj_capacity fc < sz_max"

lemma and_nat_le: "and x y \<le> (y :: nat)"
proof -
  have "int (and x y) \<le> int y" by (simp only: of_nat_and_eq) (rule AND_upper2, simp)
  then show ?thesis by simp
qed

lemma fc_actual_headroom_eq:
  assumes "fc_wf fc"
  shows "fc_actual_headroom base fc = fc_headroom fc
    + and (sz_sub 0 (sz_add (sz_add base (fc_headroom fc)) (fc_align_adjust fc))) (fc_align_block fc - 1)"
proof -
  have b: "fc_headroom fc + fc_align_block fc < sz_max" "0 < fc_align_block fc" using assms by (auto simp: fc_wf_def)
  have m: "sz_sub (fc_align_block fc) 1 = fc_align_block fc - 1" using b by (intro sz_sub_exact) simp_all
  show ?thesis
    unfolding fc_actual_headroom_def Let_def m
    by (rule sz_add_exact)
      (use b and_nat_le [of "sz_sub 0 (sz_add (sz_add base (fc_headroom fc)) (fc_align_adjust fc))" "fc_align_block fc - 1"]
        in linarith)
qed

lemma fc_headroom_bounds:
  assumes "fc_wf fc"
  shows "fc_headroom fc \<le> fc_actual_headroom base fc" "fc_actual_headroom base fc < fc_headroom fc + fc_align_block fc"
proof -
  have "0 < fc_align_block fc" using assms by (auto simp: fc_wf_def)
  then show "fc_headroom fc \<le> fc_actual_headroom base fc" "fc_actual_headroom base fc < fc_headroom fc + fc_align_block fc"
    using and_nat_le [of "sz_sub 0 (sz_add (sz_add base (fc_headroom fc)) (fc_align_adjust fc))" "fc_align_block fc - 1"]
    unfolding fc_actual_headroom_eq [OF assms] by linarith+
qed

lemma sz_max_pow: "sz_max = 2 ^ 64"
  by (simp add: sz_max_def)

lemma and_pow_nat: "and x (2 ^ k - 1) = x mod (2 :: nat) ^ k"
  using take_bit_eq_mask [of k x] by (simp add: mask_eq_exp_minus_1 take_bit_eq_mod)

text \<open>The point behind the first \<open>align_adjust\<close> bytes of the data is on a block boundary.\<close>

lemma fc_aligned:
  assumes "fc_wf fc" "fc_align_block fc = 2 ^ k" "base + fc_headroom fc + fc_align_adjust fc < sz_max"
  shows "2 ^ k dvd base + fc_actual_headroom base fc + fc_align_adjust fc"
proof -
  let ?s = "base + fc_headroom fc + fc_align_adjust fc"
  have "fc_align_block fc < sz_max" using assms(1) by (auto simp: fc_wf_def)
  then have "(2 :: nat) ^ k < 2 ^ 64" unfolding assms(2) sz_max_pow .
  then have "k < 64" by (rule power_less_imp_less_exp [rotated]) simp
  then have d: "(2 :: nat) ^ k dvd sz_max" unfolding sz_max_pow by (simp only: le_imp_power_dvd less_imp_le)
  have e: "sz_add (sz_add base (fc_headroom fc)) (fc_align_adjust fc) = ?s" using assms(3) by (simp add: sz_add_exact)
  have a: "fc_actual_headroom base fc = fc_headroom fc + sz_sub 0 ?s mod 2 ^ k"
    unfolding fc_actual_headroom_eq [OF assms(1)] e assms(2) and_pow_nat ..
  have "sz_sub 0 ?s mod 2 ^ k = (sz_max - ?s) mod 2 ^ k"
    using d by (simp add: sz_sub_def mod_mod_cancel)
  then have "(?s + sz_sub 0 ?s mod 2 ^ k) mod 2 ^ k = (?s + (sz_max - ?s)) mod 2 ^ k"
    by (simp add: mod_add_right_eq)
  also have "\<dots> = 0" using assms(3) d by simp
  finally have "(?s + sz_sub 0 ?s mod 2 ^ k) mod 2 ^ k = 0" .
  moreover have "base + fc_actual_headroom base fc + fc_align_adjust fc = ?s + sz_sub 0 ?s mod 2 ^ k"
    by (simp add: a)
  ultimately show ?thesis by (simp only: mod_eq_0_iff_dvd)
qed

text \<open>Preparing an owning buffer never fails; it is empty then, with room for payload and tailroom.\<close>

lemma fc_prepare_ok:
  assumes "fc_wf fc" "buf_wf buf" "b_flags buf \<noteq> None"
  obtains b where "fc_prepare junk base fc buf = Inr b" "buf_wf b" "content b = []" "b_flags b \<noteq> None"
    "fc_adj_capacity fc \<le> b_capacity b" "b_capacity b \<le> max (fc_adj_capacity fc) (b_capacity buf)"
    "b_offset b = fc_actual_headroom base fc"
proof -
  let ?h = "fc_actual_headroom base fc"
  let ?b = "if fc_adj_capacity fc > b_capacity buf then buf_alloc_capacity junk (fc_adj_capacity fc) (fc_buffer_flags fc) else buf"
  have c: "fc_adj_capacity fc < sz_max" "?h \<le> fc_adj_capacity fc"
    using assms(1) fc_headroom_bounds [OF assms(1), of base] by (auto simp: fc_wf_def)
  have b: "buf_reset junk (fc_adj_capacity fc) (fc_buffer_flags fc) buf = Inr ?b"
    using assms(3) by (auto simp: buf_reset_def buf_reset_impl_def)
  have w: "buf_wf ?b" "fc_adj_capacity fc \<le> b_capacity ?b" "b_flags ?b \<noteq> None"
    "b_capacity ?b \<le> max (fc_adj_capacity fc) (b_capacity buf)"
    using assms(2,3) c buf_alloc_capacity_wf [of "fc_adj_capacity fc" junk "fc_buffer_flags fc"]
    by (simp_all add: buf_alloc_capacity_def buf_alloc_def)
  show thesis
  proof (rule that)
    show "fc_prepare junk base fc buf = Inr (?b\<lparr>b_offset := ?h, b_size := 0\<rparr>)"
      unfolding fc_prepare_def b using w(2) c(2) by (simp add: buf_init_headroom_def)
    show "buf_wf (?b\<lparr>b_offset := ?h, b_size := 0\<rparr>)" using w(1,2) c(2) by (simp add: buf_wf_def)
  qed (use w in simp_all)
qed

text \<open>A prepared buffer has the headroom in front of its window, and behind it room for payload and tailroom.\<close>

lemma fc_prepare_room:
  assumes "fc_wf fc" "buf_wf buf" "b_flags buf \<noteq> None"
  obtains b where "fc_prepare junk base fc buf = Inr b" "buf_wf b" "b_size b = 0" "b_flags b \<noteq> None"
    "b_offset b + fc_payload fc + fc_tailroom fc \<le> b_capacity b" "fc_headroom fc \<le> b_offset b"
    "b_capacity b \<le> max (fc_adj_capacity fc) (b_capacity buf)"
proof -
  obtain b where b: "fc_prepare junk base fc buf = Inr b" "buf_wf b" "content b = []" "b_flags b \<noteq> None"
    "fc_adj_capacity fc \<le> b_capacity b" "b_capacity b \<le> max (fc_adj_capacity fc) (b_capacity buf)"
    "b_offset b = fc_actual_headroom base fc"
    by (rule fc_prepare_ok [OF assms])
  have "b_size b = 0" using b(2,3) by (metis length_content list.size(3))
  moreover have "b_offset b + fc_payload fc + fc_tailroom fc \<le> b_capacity b" "fc_headroom fc \<le> b_offset b"
    using fc_headroom_bounds [OF assms(1), of base] b(5,7) assms(1) by (auto simp: fc_wf_def)
  ultimately show thesis using that b by blast
qed

end
