(* ===== verification/Packet_Stream.thy ===== *)
theory Packet_Stream
  imports Frame_Context
begin

text \<open>
  \<open>PacketStream\<close> and \<open>PacketStreamResidual\<close> of transport/pktstream.hpp, which cut a byte stream into
  packets by a length prefix, and the receive loop of transport/tcplinkcommon.hpp around them.
  \<open>SIZE_TYPE\<close> is given by its width \<open>n\<close> in bytes (2 or 4). Buffers are those of \<open>OV_Buffer\<close>;
  a swap exchanges two of them. The memory an operation may allocate, its address and its
  indeterminate bytes, is an argument. The theorems say that the packets do not depend on how the
  stream was cut into reads.
\<close>

section \<open>Length words\<close>

text \<open>\<open>numeric_cast\<close> throws when the value does not fit.\<close>

definition host_to_network :: "nat \<Rightarrow> size_t \<Rightarrow> byte list result" where
  "host_to_network n v =
     (if v \<ge> 256 ^ n then Inl numeric_out_of_range else Inr (be_bytes n (of_nat v :: u32)))"

definition network_to_host :: "byte list \<Rightarrow> size_t" where
  "network_to_host bs = unat (be_word bs :: u32)"

section \<open>\<open>PacketStream\<close>\<close>

type_synonym mem = "(nat \<Rightarrow> byte) \<times> nat"

record packet_stream =
  ps_declared :: size_t
  ps_buffer :: buffer

definition SIZE_UNDEF :: size_t where "SIZE_UNDEF = sz_max - 1"

definition ps_init :: packet_stream where
  "ps_init = \<lparr>ps_declared = SIZE_UNDEF, ps_buffer = buf_clear\<rparr>"

definition declared_size_defined :: "packet_stream \<Rightarrow> bool" where
  "declared_size_defined ps \<longleftrightarrow> ps_declared ps \<noteq> SIZE_UNDEF"

definition ps_size_defined :: "nat \<Rightarrow> buffer \<Rightarrow> bool" where
  "ps_size_defined n buf \<longleftrightarrow> b_size buf \<ge> n"

definition ps_read_size :: "nat \<Rightarrow> buffer \<Rightarrow> (size_t \<times> buffer) result" where
  "ps_read_size n buf = bindR (buf_read n buf) (\<lambda>(bs, buf'). Inr (network_to_host bs, buf'))"

definition ps_validate_size :: "size_t \<Rightarrow> frame_context \<Rightarrow> unit result" where
  "ps_validate_size sz fc =
     (if sz = 0 \<or> (fc_buffer_flags fc AND GROW = 0 \<and> sz > fc_payload fc)
      then Inl embedded_packet_size_error else Inr ())"

definition ps_extract_size :: "nat \<Rightarrow> frame_context \<Rightarrow> buffer \<Rightarrow> (size_t \<times> buffer) result" where
  "ps_extract_size n fc buf =
     bindR (ps_read_size n buf) (\<lambda>(sz, buf').
     bindR (ps_validate_size sz fc) (\<lambda>_. Inr (sz, buf')))"

text \<open>
  The loop of \<open>put\<close> that collects the length word byte by byte; its result says whether the loop was
  left by the \<open>return\<close>.
\<close>

lemma buf_pop_front_size: "buf_pop_front b = Inr (v, b') \<Longrightarrow> b_size b' < b_size b"
  by (auto simp: buf_pop_front_def buf_at_def bindR_eq_Inr split: if_splits)

function ps_collect :: "nat \<Rightarrow> (nat \<Rightarrow> byte) \<Rightarrow> frame_context \<Rightarrow> buffer \<Rightarrow> packet_stream
    \<Rightarrow> (bool \<times> buffer \<times> packet_stream) result" where
  "ps_collect n junk fc buf ps =
     (if declared_size_defined ps then Inr (False, buf, ps)
      else if buf_empty buf then Inr (True, buf, ps)
      else case buf_pop_front buf of Inl e \<Rightarrow> Inl e | Inr (v, buf1) \<Rightarrow>
        bindR (buf_push_back junk v (ps_buffer ps)) (\<lambda>b1.
          if ps_size_defined n b1
          then bindR (ps_extract_size n fc b1) (\<lambda>(sz, b2).
                 ps_collect n junk fc buf1 (ps\<lparr>ps_declared := sz, ps_buffer := b2\<rparr>))
          else ps_collect n junk fc buf1 (ps\<lparr>ps_buffer := b1\<rparr>)))"
  by pat_completeness auto
termination
  by (relation "measure (\<lambda>(n, junk, fc, buf, ps). b_size buf)") (auto dest: buf_pop_front_size)

declare ps_collect.simps [simp del]

text \<open>The last part of \<open>put\<close>, which fills up the packet.\<close>

definition ps_fill :: "(nat \<Rightarrow> byte) \<Rightarrow> buffer \<Rightarrow> packet_stream \<Rightarrow> (buffer \<times> packet_stream) result" where
  "ps_fill junk buf ps =
     (if b_size (ps_buffer ps) < ps_declared ps then
        let needed = min (ps_declared ps - b_size (ps_buffer ps)) (b_size buf)
        in bindR (buf_read needed buf) (\<lambda>(bs, buf2).
           bindR (buf_write junk bs (ps_buffer ps)) (\<lambda>b. Inr (buf2, ps\<lparr>ps_buffer := b\<rparr>)))
      else Inr (buf, ps))"

definition ps_put :: "nat \<Rightarrow> mem \<Rightarrow> frame_context \<Rightarrow> buffer \<Rightarrow> packet_stream \<Rightarrow> (buffer \<times> packet_stream) result" where
  "ps_put n m fc buf ps =
     (case m of (junk, base) \<Rightarrow>
      if \<not> buf_defined buf then Inr (buf, ps)
      else if \<not> declared_size_defined ps \<and> \<not> buf_defined (ps_buffer ps) then
        if ps_size_defined n buf then
          bindR (ps_extract_size n fc buf) (\<lambda>(declared, buf1).
            let ps1 = ps\<lparr>ps_declared := declared\<rparr>
            in if b_size buf1 = declared then Inr (ps_buffer ps1, ps1\<lparr>ps_buffer := buf1\<rparr>)
               else if b_size buf1 < declared then
                 if sz_add (sz_add (b_offset buf1) declared) (fc_tailroom fc) \<le> b_capacity buf1
                 then Inr (ps_buffer ps1, ps1\<lparr>ps_buffer := buf1\<rparr>)
                 else bindR (fc_realign base fc buf1) (\<lambda>b. Inr (ps_buffer ps1, ps1\<lparr>ps_buffer := b\<rparr>))
               else
                 bindR (fc_prepare junk base fc (ps_buffer ps1)) (\<lambda>b.
                 bindR (buf_read declared buf1) (\<lambda>(bs, buf2).
                 bindR (buf_write junk bs b) (\<lambda>b'. Inr (buf2, ps1\<lparr>ps_buffer := b'\<rparr>)))))
        else bindR (fc_realign base fc buf) (\<lambda>b. Inr (ps_buffer ps, ps\<lparr>ps_buffer := b\<rparr>))
      else
        bindR (ps_collect n junk fc buf ps) (\<lambda>(returned, buf1, ps1).
          if returned then Inr (buf1, ps1) else ps_fill junk buf1 ps1))"

definition ps_ready :: "packet_stream \<Rightarrow> bool" where
  "ps_ready ps \<longleftrightarrow> declared_size_defined ps \<and> b_size (ps_buffer ps) \<ge> ps_declared ps"

text \<open>\<open>get\<close> exchanges the finished packet with the buffer it is passed.\<close>

definition ps_get :: "buffer \<Rightarrow> packet_stream \<Rightarrow> (buffer \<times> packet_stream) result" where
  "ps_get ret ps =
     (if declared_size_defined ps \<and> b_size (ps_buffer ps) = ps_declared ps
      then Inr (ps_buffer ps, ps\<lparr>ps_buffer := buf_reset_content ret, ps_declared := SIZE_UNDEF\<rparr>)
      else Inl packet_not_fully_formed)"

definition ps_prepend_size :: "nat \<Rightarrow> buffer \<Rightarrow> buffer result" where
  "ps_prepend_size n buf = bindR (host_to_network n (b_size buf)) (\<lambda>net_len. buf_prepend net_len buf)"

definition ps_reset :: "packet_stream \<Rightarrow> packet_stream" where
  "ps_reset ps = ps\<lparr>ps_declared := SIZE_UNDEF, ps_buffer := buf_clear\<rparr>"

section \<open>\<open>PacketStreamResidual\<close>\<close>

record packet_stream_residual =
  psr_stream :: packet_stream
  psr_residual :: buffer

text \<open>After the move the passed buffer is empty; \<open>reset_content\<close> leaves it so.\<close>

definition psr_put :: "nat \<Rightarrow> mem \<Rightarrow> frame_context \<Rightarrow> buffer \<Rightarrow> packet_stream_residual
    \<Rightarrow> (buffer \<times> packet_stream_residual) result" where
  "psr_put n m fc buf r =
     (if buf_empty (psr_residual r)
      then bindR (ps_put n m fc buf (psr_stream r)) (\<lambda>(buf1, ps).
             Inr (buf_reset_content buf_clear, r\<lparr>psr_stream := ps, psr_residual := buf1\<rparr>))
      else bindR (buf_append (fst m) buf (psr_residual r)) (\<lambda>res.
           bindR (ps_put n m fc res (psr_stream r)) (\<lambda>(res1, ps).
             Inr (buf_reset_content buf, r\<lparr>psr_stream := ps, psr_residual := res1\<rparr>))))"

definition psr_get :: "nat \<Rightarrow> mem \<Rightarrow> frame_context \<Rightarrow> buffer \<Rightarrow> packet_stream_residual
    \<Rightarrow> (buffer \<times> packet_stream_residual) result" where
  "psr_get n m fc ret r =
     bindR (ps_get ret (psr_stream r)) (\<lambda>(pkt, ps).
       if buf_empty (psr_residual r) then Inr (pkt, r\<lparr>psr_stream := ps\<rparr>)
       else bindR (ps_put n m fc (psr_residual r) ps) (\<lambda>(res, ps1).
              Inr (pkt, r\<lparr>psr_stream := ps1, psr_residual := res\<rparr>)))"

section \<open>The stream as a list of bytes\<close>

text \<open>
  The specification: read a length word, refuse an invalid one, take that many bytes as a packet, and
  go on. The result is the packets, and the incomplete packet that is left or the error.
\<close>

definition valid_size :: "frame_context \<Rightarrow> size_t \<Rightarrow> bool" where
  "valid_size fc sz \<longleftrightarrow> sz \<noteq> 0 \<and> sz \<le> fc_payload fc"

function deframe :: "nat \<Rightarrow> frame_context \<Rightarrow> byte list \<Rightarrow> byte list list \<times> byte list result" where
  "deframe n fc xs =
     (if length xs < n then ([], Inr xs)
      else let d = network_to_host (take n xs)
           in if \<not> valid_size fc d then ([], Inl embedded_packet_size_error)
              else if length xs < n + d then ([], Inr xs)
              else let (pkts, r) = deframe n fc (drop (n + d) xs) in (take d (drop n xs) # pkts, r))"
  by pat_completeness auto
termination
  by (relation "measure (\<lambda>(n, fc, xs). length xs)") (auto simp: valid_size_def)

declare deframe.simps [simp del]

text \<open>The bytes received since the last complete packet.\<close>

definition ps_bytes :: "nat \<Rightarrow> packet_stream \<Rightarrow> byte list" where
  "ps_bytes n ps =
     (if declared_size_defined ps then be_bytes n (of_nat (ps_declared ps) :: u32) @ content (ps_buffer ps)
      else content (ps_buffer ps))"

text \<open>A context for which every packet it admits fits: no \<open>GROW\<close>, and tailroom for the length word.\<close>

definition fc_stream :: "nat \<Rightarrow> frame_context \<Rightarrow> bool" where
  "fc_stream n fc \<longleftrightarrow> fc_wf fc \<and> fc_buffer_flags fc AND GROW = 0 \<and> 0 < n \<and> n \<le> 4 \<and> n \<le> fc_tailroom fc + 1"

definition buf_owned :: "buffer \<Rightarrow> bool" where
  "buf_owned b \<longleftrightarrow> buf_wf b \<and> b_flags b \<noteq> None \<and> 4 * b_capacity b < sz_max"

text \<open>A buffer data was received into, and the stream's own state.\<close>

definition buf_input :: "frame_context \<Rightarrow> buffer \<Rightarrow> bool" where
  "buf_input fc b \<longleftrightarrow> buf_owned b \<and> (b_size b > 0 \<longrightarrow> fc_adj_capacity fc \<le> b_capacity b)"

definition ps_ok :: "nat \<Rightarrow> frame_context \<Rightarrow> packet_stream \<Rightarrow> bool" where
  "ps_ok n fc ps \<longleftrightarrow> buf_owned (ps_buffer ps)
     \<and> (if declared_size_defined ps
        then valid_size fc (ps_declared ps) \<and> ps_declared ps < 256 ^ n \<and> b_size (ps_buffer ps) \<le> ps_declared ps
          \<and> b_offset (ps_buffer ps) + ps_declared ps \<le> b_capacity (ps_buffer ps)
        else b_size (ps_buffer ps) < n
          \<and> (b_size (ps_buffer ps) > 0 \<longrightarrow>
               b_offset (ps_buffer ps) + n + fc_payload fc \<le> b_capacity (ps_buffer ps)))"

lemma network_round_trip:
  assumes "v < 256 ^ n" "n \<le> 4"
  shows "network_to_host (be_bytes n (of_nat v :: u32)) = v"
proof -
  have p: "(256 :: nat) ^ n = 2 ^ (8 * n)" by (simp add: power_mult)
  have "(2 :: nat) ^ (8 * n) \<le> 2 ^ 32" using assms(2) by (intro power_increasing) simp_all
  then have v: "v < 2 ^ 32" using assms(1) p by simp
  have "network_to_host (be_bytes n (of_nat v :: u32)) = unat (take_bit (8 * n) (of_nat v :: u32))"
    by (simp add: network_to_host_def be_word_def be_bytes_def le_word_le_bytes_take)
  also have "\<dots> = v mod 2 ^ (8 * n)"
    using v by (simp only: unsigned_take_bit_eq) (simp add: unat_of_nat take_bit_eq_mod)
  also have "\<dots> = v" using assms(1) p by simp
  finally show ?thesis .
qed

lemma network_bytes:
  assumes "length bs = n" "n \<le> 4"
  shows "be_bytes n (of_nat (network_to_host bs) :: u32) = bs" "network_to_host bs < 256 ^ n" "network_to_host bs \<noteq> SIZE_UNDEF"
proof -
  show b: "be_bytes n (of_nat (network_to_host bs) :: u32) = bs"
    using assms by (simp add: network_to_host_def)
  have "unat (le_word (rev bs) :: u32) < 2 ^ (8 * n)"
  proof -
    have "take_bit (8 * n) (le_word (rev bs) :: u32) = le_word (rev bs)"
      using le_word_le_bytes_take [of n "le_word (rev bs) :: u32"] assms by simp
    then have "unat (le_word (rev bs) :: u32) = take_bit (8 * n) (unat (le_word (rev bs) :: u32))"
      by (metis unsigned_take_bit_eq)
    then show ?thesis by (metis take_bit_nat_less_exp)
  qed
  then show "network_to_host bs < 256 ^ n"
    by (simp add: network_to_host_def be_word_def power_mult)
  have "network_to_host bs < 2 ^ 32" unfolding network_to_host_def
    using unsigned_less [of "be_word bs :: u32", where 'a = nat] by simp
  then show "network_to_host bs \<noteq> SIZE_UNDEF" by (simp add: SIZE_UNDEF_def sz_max_def)
qed

lemma validate_size_eq:
  assumes "fc_stream n fc"
  shows "ps_validate_size sz fc = (if valid_size fc sz then Inr () else Inl embedded_packet_size_error)"
  using assms by (auto simp: ps_validate_size_def valid_size_def fc_stream_def)

lemma extract_size_ok:
  assumes "fc_stream n fc" "buf_wf b" "n \<le> b_size b" "valid_size fc (network_to_host (take n (content b)))"
  obtains b' where "ps_extract_size n fc b = Inr (network_to_host (take n (content b)), b')" "buf_wf b'"
    "content b' = drop n (content b)" "b_size b' = b_size b - n" "b_capacity b' = b_capacity b"
    "b_flags b' = b_flags b" "b_offset b' = b_offset b + n"
  by (rule buf_read_fits [OF assms(2,3)], rule that)
    (simp_all add: ps_extract_size_def ps_read_size_def validate_size_eq [OF assms(1)] assms(4))

lemma extract_size_bad:
  assumes "fc_stream n fc" "buf_wf b" "n \<le> b_size b" "\<not> valid_size fc (network_to_host (take n (content b)))"
  shows "ps_extract_size n fc b = Inl embedded_packet_size_error"
  by (rule buf_read_fits [OF assms(2,3)])
    (simp add: ps_extract_size_def ps_read_size_def validate_size_eq [OF assms(1)] assms(4))

lemma buf_pop_front_fits:
  assumes "buf_wf b" "content b = v # vs"
  obtains b' where "buf_pop_front b = Inr (v, b')" "buf_wf b'" "content b' = vs" "b_capacity b' = b_capacity b"
    "b_flags b' = b_flags b"
proof -
  have s: "0 < b_size b" using length_content [OF assms(1)] assms(2) by simp
  show thesis
    by (rule that [of "b\<lparr>b_offset := b_offset b + 1, b_size := b_size b - 1\<rparr>"])
      (use s assms wf_consume [OF assms(1), of 1] content_consume [of b 1] in \<open>simp_all add: buf_pop_front_eq\<close>)
qed

lemma buf_empty_content: "buf_wf b \<Longrightarrow> buf_empty b \<longleftrightarrow> content b = []"
  by (metis buf_empty_def length_0_conv length_content)

lemma buf_defined_content: "buf_wf b \<Longrightarrow> buf_defined b \<longleftrightarrow> content b \<noteq> []"
  by (metis buf_defined_def length_content length_greater_0_conv)

section \<open>Collecting the length word\<close>

text \<open>What \<open>ps_collect\<close> leaves behind, from the bytes \<open>xs\<close> in its buffer and \<open>ys\<close> in the input.\<close>

definition collected :: "nat \<Rightarrow> frame_context \<Rightarrow> byte list
    \<Rightarrow> (bool \<times> buffer \<times> packet_stream) result \<Rightarrow> bool" where
  "collected n fc zs r =
     (if length zs < n
      then \<exists>buf' ps'. r = Inr (True, buf', ps') \<and> buf_input fc buf' \<and> content buf' = []
             \<and> ps_ok n fc ps' \<and> ps_bytes n ps' = zs \<and> \<not> declared_size_defined ps'
      else if \<not> valid_size fc (network_to_host (take n zs)) then r = Inl embedded_packet_size_error
      else \<exists>buf' ps'. r = Inr (False, buf', ps') \<and> buf_input fc buf'
             \<and> ps_ok n fc ps' \<and> declared_size_defined ps' \<and> content (ps_buffer ps') = []
             \<and> be_bytes n (of_nat (ps_declared ps') :: u32) = take n zs \<and> content buf' = drop n zs)"

lemma buf_inputI:
  assumes "buf_input fc b" "buf_wf b'" "b_capacity b' = b_capacity b" "b_flags b' = b_flags b"
    "b_size b' > 0 \<Longrightarrow> b_size b > 0"
  shows "buf_input fc b'"
  using assms by (auto simp: buf_input_def buf_owned_def)

lemma ps_collect_spec:
  assumes "fc_stream n fc" "ps_ok n fc ps" "\<not> declared_size_defined ps" "b_size (ps_buffer ps) > 0"
    and "buf_input fc buf"
  shows "collected n fc (content (ps_buffer ps) @ content buf) (ps_collect n junk fc buf ps)"
  using assms(2-5)
proof (induction "content buf" arbitrary: buf ps)
  case Nil
  then have "buf_wf buf" "buf_empty buf" by (auto simp: buf_input_def buf_owned_def buf_empty_content)
  moreover have "length (content (ps_buffer ps)) < n" using Nil.prems by (auto simp: ps_ok_def buf_owned_def)
  ultimately show ?case using Nil
    by (subst ps_collect.simps) (simp add: collected_def ps_bytes_def)
next
  case (Cons v vs)
  let ?B = "ps_buffer ps"
  have wf: "buf_wf buf" "buf_wf ?B" using Cons.prems by (auto simp: buf_input_def ps_ok_def buf_owned_def)
  have lenB: "length (content ?B) = b_size ?B" using wf by simp
  have ne: "\<not> buf_empty buf" using wf Cons.hyps(2) by (simp add: buf_empty_content flip: Cons.hyps(2))
  obtain buf1 where p: "buf_pop_front buf = Inr (v, buf1)" "buf_wf buf1" "content buf1 = vs"
    "b_capacity buf1 = b_capacity buf" "b_flags buf1 = b_flags buf"
    using buf_pop_front_fits [OF wf(1) Cons.hyps(2) [symmetric]] .
  have fit: "b_offset ?B + b_size ?B + length [v] \<le> b_capacity ?B"
    using Cons.prems by (simp add: ps_ok_def)
  obtain b1 where b1: "buf_write junk [v] ?B = Inr b1" "buf_wf b1" "content b1 = content ?B @ [v]"
    "b_size b1 = b_size ?B + 1" "b_capacity b1 = b_capacity ?B" "b_flags b1 = b_flags ?B" "b_offset b1 = b_offset ?B"
    using buf_write_fits [OF wf(2) fit, of junk] by auto
  have "b_size buf > 0" using ne by (simp add: buf_empty_def)
  then have in1: "buf_input fc buf1" using buf_inputI [OF Cons.prems(4) p(2,4,5)] by blast
  have step: "ps_collect n junk fc buf ps =
    (if ps_size_defined n b1
     then bindR (ps_extract_size n fc b1) (\<lambda>(sz, b2). ps_collect n junk fc buf1 (ps\<lparr>ps_declared := sz, ps_buffer := b2\<rparr>))
     else ps_collect n junk fc buf1 (ps\<lparr>ps_buffer := b1\<rparr>))"
    using Cons.prems(2) ne by (subst ps_collect.simps) (simp add: p(1) buf_push_back_write b1(1))
  show ?case
  proof (cases "b_size b1 < n")
    case True
    let ?ps = "ps\<lparr>ps_buffer := b1\<rparr>"
    have "ps_ok n fc ?ps" using Cons.prems b1 True by (auto simp: ps_ok_def buf_owned_def declared_size_defined_def)
    with Cons.hyps(1) [of buf1 ?ps] p(3) in1 b1 Cons.prems(2)
    have "collected n fc (content ?B @ v # vs) (ps_collect n junk fc buf1 ?ps)"
      by (simp add: declared_size_defined_def)
    then show ?thesis
      using True unfolding step Cons.hyps(2) [symmetric] by (simp add: ps_size_defined_def)
  next
    case False
    then have sz: "b_size b1 = n" using b1(4) Cons.prems by (simp add: ps_ok_def)
    then have z: "take n (content ?B @ v # vs) = content b1" "drop n (content ?B @ v # vs) = vs"
      "n \<le> length (content ?B @ v # vs)"
      using b1(3,4) lenB by auto
    have tk: "take n (content b1) = content b1" using sz b1(2) by simp
    show ?thesis
    proof (cases "valid_size fc (network_to_host (content b1))")
      case bad: False
      then have "ps_extract_size n fc b1 = Inl embedded_packet_size_error"
        using extract_size_bad [OF assms(1) b1(2)] sz tk by simp
      then show ?thesis using False bad z
        by (simp add: step ps_size_defined_def collected_def flip: Cons.hyps(2))
    next
      case True
      obtain b2 where b2: "ps_extract_size n fc b1 = Inr (network_to_host (content b1), b2)" "buf_wf b2"
        "content b2 = []" "b_size b2 = 0" "b_capacity b2 = b_capacity b1" "b_flags b2 = b_flags b1"
        "b_offset b2 = b_offset b1 + n"
        using extract_size_ok [OF assms(1) b1(2), unfolded tk] sz True b1(2) by auto
      let ?ps = "ps\<lparr>ps_declared := network_to_host (content b1), ps_buffer := b2\<rparr>"
      have n4: "n \<le> 4" using assms(1) by (simp add: fc_stream_def)
      note nb = network_bytes [of "content b1" n, OF _ n4]
      have d: "declared_size_defined ?ps" using nb sz b1(2) by (simp add: declared_size_defined_def)
      then have "ps_collect n junk fc buf1 ?ps = Inr (False, buf1, ?ps)" by (subst ps_collect.simps) simp
      moreover have "ps_ok n fc ?ps"
        using d Cons.prems b1 b2 True nb sz
        by (auto simp: ps_ok_def buf_owned_def valid_size_def declared_size_defined_def)
      ultimately show ?thesis
        using False True z b2 d in1 p nb sz b1(2)
        by (simp add: step ps_size_defined_def collected_def flip: Cons.hyps(2))
    qed
  qed
qed

section \<open>One call of \<open>put\<close>\<close>

definition put_outcome :: "nat \<Rightarrow> frame_context \<Rightarrow> byte list \<Rightarrow> (buffer \<times> packet_stream) result \<Rightarrow> bool" where
  "put_outcome n fc zs r =
     (if n \<le> length zs \<and> \<not> valid_size fc (network_to_host (take n zs)) then r = Inl embedded_packet_size_error
      else \<exists>buf' ps'. r = Inr (buf', ps') \<and> buf_input fc buf' \<and> ps_ok n fc ps'
             \<and> ps_bytes n ps' @ content buf' = zs \<and> (content buf' = [] \<or> ps_ready ps'))"

lemma ps_bytes_declared:
  assumes "fc_stream n fc" "ps_ok n fc ps" "declared_size_defined ps"
  shows "n \<le> length (ps_bytes n ps)" "network_to_host (take n (ps_bytes n ps @ ys)) = ps_declared ps"
    "valid_size fc (ps_declared ps)"
  using assms network_round_trip [of "ps_declared ps" n] by (auto simp: ps_bytes_def ps_ok_def fc_stream_def)

lemma ps_fill_spec:
  assumes fc: "fc_stream n fc" and ps: "ps_ok n fc ps" "declared_size_defined ps" and buf: "buf_input fc buf"
  shows "put_outcome n fc (ps_bytes n ps @ content buf) (ps_fill junk buf ps)"
proof -
  let ?B = "ps_buffer ps"
  have wf: "buf_wf ?B" "buf_wf buf" using ps buf by (auto simp: ps_ok_def buf_input_def buf_owned_def)
  note z = ps_bytes_declared [OF fc ps]
  show ?thesis
  proof (cases "b_size ?B < ps_declared ps")
    case False
    then have "ps_ready ps" using ps by (simp add: ps_ready_def)
    then show ?thesis using False z ps buf by (auto simp: ps_fill_def put_outcome_def)
  next
    case True
    let ?k = "min (ps_declared ps - b_size ?B) (b_size buf)"
    obtain buf2 where r: "buf_read ?k buf = Inr (take ?k (content buf), buf2)" "buf_wf buf2"
      "content buf2 = drop ?k (content buf)" "b_size buf2 = b_size buf - ?k" "b_capacity buf2 = b_capacity buf"
      "b_flags buf2 = b_flags buf"
      by (rule buf_read_fits [OF wf(2), of ?k]) auto
    have len: "length (take ?k (content buf)) = ?k" using wf by simp
    have fit: "b_offset ?B + b_size ?B + length (take ?k (content buf)) \<le> b_capacity ?B"
      using ps True unfolding len by (auto simp: ps_ok_def)
    obtain b where b: "buf_write junk (take ?k (content buf)) ?B = Inr b" "buf_wf b"
      "content b = content ?B @ take ?k (content buf)" "b_size b = b_size ?B + ?k" "b_capacity b = b_capacity ?B"
      "b_flags b = b_flags ?B" "b_offset b = b_offset ?B"
      using buf_write_fits [OF wf(1) fit, of junk] unfolding len by metis
    let ?ps = "ps\<lparr>ps_buffer := b\<rparr>"
    have f: "ps_fill junk buf ps = Inr (buf2, ?ps)" using True r(1) b(1) by (simp add: ps_fill_def Let_def)
    have i: "buf_input fc buf2" using buf_inputI [OF buf r(2,5,6)] r(4) by simp
    have o: "ps_ok n fc ?ps" using ps b True by (auto simp: ps_ok_def buf_owned_def declared_size_defined_def)
    have e: "ps_bytes n ?ps @ content buf2 = ps_bytes n ps @ content buf"
      using ps(2) b(3) r(3) by (simp add: ps_bytes_def declared_size_defined_def)
    have "content buf2 = [] \<or> ps_ready ?ps"
    proof (cases "ps_declared ps - b_size ?B \<le> b_size buf")
      case True
      then show ?thesis using ps(2) b(4) \<open>b_size ?B < ps_declared ps\<close>
        by (simp add: ps_ready_def declared_size_defined_def)
    next
      case False
      then show ?thesis using r(3) wf(2) by simp
    qed
    then show ?thesis using f i o e z by (auto simp: put_outcome_def)
  qed
qed

lemma ps_put_later:
  assumes fc: "fc_stream n fc" and ps: "ps_ok n fc ps" "declared_size_defined ps \<or> b_size (ps_buffer ps) > 0"
    and buf: "buf_input fc buf" "content buf \<noteq> []"
  shows "put_outcome n fc (ps_bytes n ps @ content buf) (ps_put n (junk, base) fc buf ps)"
proof -
  have "buf_defined buf" using buf by (simp add: buf_input_def buf_owned_def buf_defined_content)
  then have put: "ps_put n (junk, base) fc buf ps = bindR (ps_collect n junk fc buf ps)
      (\<lambda>(returned, buf1, ps1). if returned then Inr (buf1, ps1) else ps_fill junk buf1 ps1)"
    using ps(2) by (auto simp: ps_put_def buf_defined_def)
  show ?thesis
  proof (cases "declared_size_defined ps")
    case True
    then have "ps_collect n junk fc buf ps = Inr (False, buf, ps)" by (subst ps_collect.simps) simp
    then show ?thesis using ps_fill_spec [OF fc ps(1) True buf(1)] by (simp add: put)
  next
    case False
    let ?zs = "content (ps_buffer ps) @ content buf"
    have zs: "ps_bytes n ps @ content buf = ?zs" using False by (simp add: ps_bytes_def)
    have c: "collected n fc ?zs (ps_collect n junk fc buf ps)"
      using ps_collect_spec [OF fc ps(1) False] ps(2) False buf(1) by blast
    consider "length ?zs < n" | "n \<le> length ?zs" "\<not> valid_size fc (network_to_host (take n ?zs))"
      | "n \<le> length ?zs" "valid_size fc (network_to_host (take n ?zs))" by linarith
    then show ?thesis
    proof cases
      case 1
      then show ?thesis using c unfolding zs by (auto simp: put collected_def put_outcome_def)
    next
      case 2
      then show ?thesis using c unfolding zs by (auto simp: put collected_def put_outcome_def)
    next
      case 3
      then obtain buf' ps' where r: "ps_collect n junk fc buf ps = Inr (False, buf', ps')" "buf_input fc buf'"
        "ps_ok n fc ps'" "declared_size_defined ps'" "content (ps_buffer ps') = []"
        "be_bytes n (of_nat (ps_declared ps') :: u32) = take n ?zs" "content buf' = drop n ?zs"
        using c unfolding collected_def by auto
      have "ps_bytes n ps' @ content buf' = ?zs"
        using r(4-7) by (simp only: ps_bytes_def if_True append_Nil2 append_take_drop_id)
      then show ?thesis using ps_fill_spec [OF fc r(3,4,2), of junk] r(1) by (simp add: put zs)
    qed
  qed
qed

text \<open>The first bytes of a packet, into an empty stream: the buffer is taken over, or copied from.\<close>

lemma fc_realign_ok:
  assumes "fc_wf fc" "buf_owned b" "fc_adj_capacity fc \<le> b_capacity b" "b_size b \<le> fc_payload fc + fc_tailroom fc"
  obtains b' where "fc_realign base fc b = Inr b'" "buf_owned b'" "content b' = content b"
    "b_size b' = b_size b" "b_capacity b' = b_capacity b" "b_offset b' < fc_headroom fc + fc_align_block fc"
proof -
  let ?h = "fc_actual_headroom base fc"
  have wf: "buf_wf b" using assms(2) by (simp add: buf_owned_def)
  have h: "?h < fc_headroom fc + fc_align_block fc" "?h + b_size b \<le> b_capacity b" "?h < sz_max"
    using fc_headroom_bounds [OF assms(1), of base] assms by (auto simp: fc_wf_def buf_owned_def)
  obtain b' where b': "buf_realign ?h b = Inr b'" using buf_realign_room [OF wf h(2)] by blast
  from buf_realign_Inr [OF wf b' h(3)] have r: "buf_wf b'" "content b' = content b" "b_offset b' = ?h"
    "b_capacity b' = b_capacity b" "b_flags b' = b_flags b" by auto
  have "b_size b' = b_size b" using arg_cong [OF r(2), of length] r(1) wf by simp
  then show thesis using r b' h assms(2) by (intro that [of b']) (simp_all add: fc_realign_def buf_owned_def)
qed

lemma fc_capacity:
  assumes "fc_stream n fc" "fc_adj_capacity fc \<le> c" "o' < fc_headroom fc + fc_align_block fc" "d \<le> fc_payload fc"
  shows "o' + d \<le> c" "o' + n + fc_payload fc \<le> c"
  using assms by (auto simp: fc_stream_def fc_wf_def)

lemma ps_put_fresh:
  assumes fc: "fc_stream n fc" and ps: "ps_ok n fc ps" "\<not> declared_size_defined ps" "b_size (ps_buffer ps) = 0"
    and buf: "buf_input fc buf" "content buf \<noteq> []"
  shows "put_outcome n fc (content buf) (ps_put n (junk, base) fc buf ps)"
proof -
  let ?B = "ps_buffer ps"
  have wf: "buf_wf buf" "fc_wf fc" "buf_owned buf" "n \<le> 4"
    and tail: "n \<le> fc_tailroom fc + 1" and own: "buf_owned ?B"
    using buf fc ps by (auto simp: buf_input_def buf_owned_def fc_stream_def ps_ok_def)
  have len: "b_size buf = length (content buf)" using wf by simp
  have def: "buf_defined buf" using buf wf by (simp add: buf_defined_content)
  have cap: "fc_adj_capacity fc \<le> b_capacity buf" using def buf(1) by (simp add: buf_input_def buf_defined_def)
  have B: "\<not> buf_defined ?B" "content ?B = []" "buf_input fc ?B"
    using ps own by (auto simp: buf_defined_def buf_input_def)
  show ?thesis
  proof (cases "n \<le> length (content buf)")
    case False
    then have small: "b_size buf \<le> fc_payload fc + fc_tailroom fc" "\<not> ps_size_defined n buf"
      using tail len by (auto simp: ps_size_defined_def)
    obtain b where b: "fc_realign base fc buf = Inr b" "buf_owned b" "content b = content buf"
      "b_size b = b_size buf" "b_capacity b = b_capacity buf" "b_offset b < fc_headroom fc + fc_align_block fc"
      using fc_realign_ok [OF wf(2,3) cap small(1)] .
    let ?ps = "ps\<lparr>ps_buffer := b\<rparr>"
    have "ps_put n (junk, base) fc buf ps = Inr (?B, ?ps)"
      using def ps(2) B(1) small(2) b(1) by (simp add: ps_put_def)
    moreover have "ps_ok n fc ?ps"
      using b ps(2) False len fc_capacity(2) [OF fc cap b(6), of 0] by (simp add: ps_ok_def declared_size_defined_def)
    moreover have "ps_bytes n ?ps = content buf" using ps(2) b(3) by (simp add: ps_bytes_def declared_size_defined_def)
    ultimately show ?thesis using False B by (auto simp: put_outcome_def)
  next
    case long: True
    let ?d = "network_to_host (take n (content buf))"
    show ?thesis
    proof (cases "valid_size fc ?d")
      case False
      then have "ps_extract_size n fc buf = Inl embedded_packet_size_error"
        using extract_size_bad [OF fc wf(1)] long len by simp
      then show ?thesis using def ps(2) B(1) long len False
        by (simp add: ps_put_def ps_size_defined_def put_outcome_def)
    next
      case True
      then have dp: "?d \<le> fc_payload fc" by (simp add: valid_size_def)
      obtain buf1 where e: "ps_extract_size n fc buf = Inr (?d, buf1)" "buf_wf buf1" "content buf1 = drop n (content buf)"
        "b_size buf1 = b_size buf - n" "b_capacity buf1 = b_capacity buf" "b_flags buf1 = b_flags buf"
        using extract_size_ok [OF fc wf(1)] long len True by metis
      note nb = network_bytes [of "take n (content buf)" n, OF _ wf(4)]
      have d: "be_bytes n (of_nat ?d :: u32) = take n (content buf)" "?d < 256 ^ n" "?d \<noteq> SIZE_UNDEF"
        using nb long by simp_all
      have own1: "buf_owned buf1" using e wf(3) by (simp add: buf_owned_def)
      have put: "ps_put n (junk, base) fc buf ps =
        (let ps1 = ps\<lparr>ps_declared := ?d\<rparr>
         in if b_size buf1 = ?d then Inr (?B, ps1\<lparr>ps_buffer := buf1\<rparr>)
            else if b_size buf1 < ?d then
              if sz_add (sz_add (b_offset buf1) ?d) (fc_tailroom fc) \<le> b_capacity buf1
              then Inr (?B, ps1\<lparr>ps_buffer := buf1\<rparr>)
              else bindR (fc_realign base fc buf1) (\<lambda>b. Inr (?B, ps1\<lparr>ps_buffer := b\<rparr>))
            else
              bindR (fc_prepare junk base fc ?B) (\<lambda>b.
              bindR (buf_read ?d buf1) (\<lambda>(bs, buf2).
              bindR (buf_write junk bs b) (\<lambda>b'. Inr (buf2, ps1\<lparr>ps_buffer := b'\<rparr>)))))"
        using def ps(2) B(1) long len e(1) by (simp add: ps_put_def ps_size_defined_def Let_def)
      have res: "put_outcome n fc (content buf) (Inr (buf', ps\<lparr>ps_declared := ?d, ps_buffer := b\<rparr>))"
        if "buf_input fc buf'" "buf_owned b" "b_size b \<le> ?d" "b_offset b + ?d \<le> b_capacity b"
          "content b @ content buf' = drop n (content buf)" "content buf' = [] \<or> b_size b = ?d" for buf' b
        using that d True by (auto simp: put_outcome_def ps_ok_def ps_bytes_def declared_size_defined_def ps_ready_def)
      have bnd: "b_offset buf1 + ?d + fc_tailroom fc < sz_max"
        using e(2) own1 wf(2) dp by (auto simp: buf_wf_def buf_owned_def fc_wf_def)
      consider "b_size buf1 = ?d" | "b_size buf1 < ?d" "b_offset buf1 + ?d + fc_tailroom fc \<le> b_capacity buf1"
        | "b_size buf1 < ?d" "b_capacity buf1 < b_offset buf1 + ?d + fc_tailroom fc" | "?d < b_size buf1" by linarith
      then show ?thesis
      proof cases
        case 1
        then show ?thesis using put res [of ?B buf1] B own1 e by (simp add: buf_wf_def)
      next
        case 2
        then show ?thesis using put res [of ?B buf1] B own1 e bnd by (simp add: sz_add_exact)
      next
        case 3
        obtain b where b: "fc_realign base fc buf1 = Inr b" "buf_owned b" "content b = content buf1"
          "b_size b = b_size buf1" "b_capacity b = b_capacity buf1" "b_offset b < fc_headroom fc + fc_align_block fc"
          using fc_realign_ok [OF wf(2) own1, of base] cap e(5) 3(1) dp by auto
        have "b_offset b + ?d \<le> b_capacity b" using fc_capacity(1) [OF fc _ b(6) dp] cap b(5) e(5) by simp
        then show ?thesis using put res [of ?B b] B b e 3 bnd by (simp add: sz_add_exact)
      next
        case 4
        obtain b where b: "fc_prepare junk base fc ?B = Inr b" "buf_wf b" "content b = []" "b_flags b \<noteq> None"
          "fc_adj_capacity fc \<le> b_capacity b" "b_capacity b \<le> max (fc_adj_capacity fc) (b_capacity ?B)"
          "b_offset b = fc_actual_headroom base fc"
          using fc_prepare_ok [OF wf(2), of ?B junk base] own by (auto simp: buf_owned_def)
        have bs: "b_size b = 0" using b(2,3) by (metis length_content list.size(3))
        obtain buf2 where r: "buf_read ?d buf1 = Inr (take ?d (content buf1), buf2)" "buf_wf buf2"
          "content buf2 = drop ?d (content buf1)" "b_capacity buf2 = b_capacity buf1" "b_flags buf2 = b_flags buf1"
          using buf_read_fits [OF e(2), of ?d] 4 by auto
        have tk: "length (take ?d (content buf1)) = ?d" using 4 e(2) by simp
        have o: "b_offset b + ?d \<le> b_capacity b"
          using fc_capacity(1) [OF fc b(5) _ dp] fc_headroom_bounds(2) [OF wf(2)] b(7) by simp
        obtain b' where w: "buf_write junk (take ?d (content buf1)) b = Inr b'" "buf_wf b'"
          "content b' = take ?d (content buf1)" "b_size b' = ?d" "b_capacity b' = b_capacity b"
          "b_flags b' = b_flags b" "b_offset b' = b_offset b"
          using buf_write_fits [OF b(2), of "take ?d (content buf1)" junk] o bs tk b(3) by auto
        have "buf_owned b'" using w(2,5,6) b(4,6) own wf(2) by (auto simp: buf_owned_def fc_wf_def max_def split: if_splits)
        moreover have "buf_input fc buf2" using r(2,4,5) own1 cap e(5) by (simp add: buf_input_def buf_owned_def)
        moreover have "content b' @ content buf2 = drop n (content buf)"
          unfolding r(3) w(3) e(3) by (rule append_take_drop_id)
        ultimately show ?thesis
          using put res [of buf2 b'] 4 b(1) r(1) w o by (simp add: Let_def)
      qed
    qed
  qed
qed

lemma ps_put_spec:
  assumes "fc_stream n fc" "ps_ok n fc ps" "buf_input fc buf" "content buf \<noteq> []"
  shows "put_outcome n fc (ps_bytes n ps @ content buf) (ps_put n (junk, base) fc buf ps)"
proof (cases "declared_size_defined ps \<or> b_size (ps_buffer ps) > 0")
  case True
  then show ?thesis using ps_put_later assms by blast
next
  case False
  then have "ps_bytes n ps = []" by (simp add: ps_bytes_def)
  then show ?thesis using ps_put_fresh assms False by simp
qed

section \<open>Properties of the specification\<close>

lemma deframe_short: "length xs < n \<Longrightarrow> deframe n fc xs = ([], Inr xs)"
  by (subst deframe.simps) simp

lemma deframe_bad:
  "n \<le> length xs \<Longrightarrow> \<not> valid_size fc (network_to_host (take n xs)) \<Longrightarrow> deframe n fc xs = ([], Inl embedded_packet_size_error)"
  by (subst deframe.simps) simp

definition frame_of :: "nat \<Rightarrow> byte list \<Rightarrow> byte list" where
  "frame_of n p = be_bytes n (of_nat (length p) :: u32) @ p"

definition packet_ok :: "nat \<Rightarrow> frame_context \<Rightarrow> byte list \<Rightarrow> bool" where
  "packet_ok n fc p \<longleftrightarrow> valid_size fc (length p) \<and> length p < 256 ^ n"

lemma deframe_frame:
  assumes "packet_ok n fc p" "n \<le> 4"
  shows "deframe n fc (frame_of n p @ xs) = (case deframe n fc xs of (pkts, r) \<Rightarrow> (p # pkts, r))"
proof -
  have d: "network_to_host (be_bytes n (of_nat (length p) :: u32)) = length p"
    using network_round_trip assms by (simp add: packet_ok_def)
  show ?thesis
    using assms(1) by (subst deframe.simps) (simp add: frame_of_def d packet_ok_def Let_def)
qed

lemma deframe_part:
  assumes "packet_ok n fc p" "n \<le> 4" "frame_of n p = xs @ ys" "ys \<noteq> []"
  shows "deframe n fc xs = ([], Inr xs)"
proof (cases "length xs < n")
  case True
  then show ?thesis by (rule deframe_short)
next
  case False
  have "take n (frame_of n p) = take n xs" using False assms(3) by simp
  then have t: "take n xs = be_bytes n (of_nat (length p) :: u32)" by (simp add: frame_of_def)
  have d: "network_to_host (take n xs) = length p"
    using network_round_trip assms(1,2) by (simp add: packet_ok_def t)
  have "length xs < n + length p"
    using arg_cong [OF assms(3), of length] assms(4) by (simp add: frame_of_def)
  then show ?thesis
    using False assms(1) by (subst deframe.simps) (simp add: d packet_ok_def Let_def)
qed

text \<open>Of a prefix of a framed sequence the packets are a prefix, and all of them if it is complete.\<close>

lemma deframe_frames:
  assumes "\<forall>p\<in>set P. packet_ok n fc p" "n \<le> 4" "0 < n" "concat (map (frame_of n) P) = xs @ ys"
  shows "\<exists>Q r. deframe n fc xs = (Q, Inr r) \<and> (\<exists>R. P = Q @ R \<and> concat (map (frame_of n) R) = r @ ys)
    \<and> (ys = [] \<longrightarrow> Q = P \<and> r = [])"
  using assms(1,4)
proof (induction P arbitrary: xs)
  case Nil
  then show ?case using assms(3) deframe_short [of "[]" n fc] by simp
next
  case (Cons p P)
  show ?case
  proof (cases "length (frame_of n p) \<le> length xs")
    case True
    then obtain zs where z: "xs = frame_of n p @ zs" "concat (map (frame_of n) P) = zs @ ys"
      using Cons.prems(2) by (auto simp: append_eq_append_conv_if) (metis append_take_drop_id)+
    obtain Q r where q: "deframe n fc zs = (Q, Inr r)" "\<exists>R. P = Q @ R \<and> concat (map (frame_of n) R) = r @ ys"
      "ys = [] \<longrightarrow> Q = P \<and> r = []"
      using Cons.IH [OF _ z(2)] Cons.prems(1) by auto
    then show ?thesis using Cons.prems(1) assms(2) by (auto simp: z(1) deframe_frame)
  next
    case False
    then obtain zs where z: "frame_of n p = xs @ zs" "zs \<noteq> []"
      using Cons.prems(2) by (auto simp: append_eq_append_conv_if) (metis append_take_drop_id drop_eq_Nil)
    have "deframe n fc xs = ([], Inr xs)" using deframe_part [OF _ assms(2) z] Cons.prems(1) by simp
    moreover have "ys \<noteq> []"
      using Cons.prems(2) z False arg_cong [OF Cons.prems(2), of length] by auto
    ultimately show ?thesis using Cons.prems(2) by auto
  qed
qed

text \<open>More bytes extend the result; an error stays.\<close>

lemma deframe_append:
  "deframe n fc xs = (Q, r) \<Longrightarrow>
     deframe n fc (xs @ ys) = (case r of Inl e \<Rightarrow> (Q, Inl e)
       | Inr rest \<Rightarrow> (case deframe n fc (rest @ ys) of (Q', r') \<Rightarrow> (Q @ Q', r')))"
proof (induction xs arbitrary: Q r rule: measure_induct_rule [of length])
  case (less xs)
  show ?case
  proof (cases "length xs < n")
    case True
    then have "Q = []" "r = Inr xs" using less.prems by (auto simp: deframe_short)
    then show ?thesis by simp
  next
    case False
    let ?d = "network_to_host (take n xs)"
    have t: "take n (xs @ ys) = take n xs" using False by simp
    show ?thesis
    proof (cases "valid_size fc ?d")
      case bad: False
      then have "Q = []" "r = Inl embedded_packet_size_error" using less.prems False by (auto simp: deframe_bad)
      then show ?thesis using bad False t deframe_bad [of n "xs @ ys" fc] by simp
    next
      case ok: True
      show ?thesis
      proof (cases "length xs < n + ?d")
        case True
        then have "Q = []" "r = Inr xs" using less.prems False ok by (subst (asm) deframe.simps, simp)+
        then show ?thesis by simp
      next
        case long: False
        obtain Q1 r1 where q: "deframe n fc (drop (n + ?d) xs) = (Q1, r1)" by fastforce
        have e: "Q = take ?d (drop n xs) # Q1" "r = r1"
          using less.prems False ok long q by (subst (asm) deframe.simps, simp add: Let_def)+
        have dd: "drop (n + ?d) (xs @ ys) = drop (n + ?d) xs @ ys" "take ?d (drop n (xs @ ys)) = take ?d (drop n xs)"
          using long by simp_all
        have "0 < ?d" using ok by (simp add: valid_size_def)
        then have "length (drop (n + ?d) xs) < length xs" using long by simp
        from less.IH [OF this q] show ?thesis
          using False ok long by (subst deframe.simps) (simp add: Let_def t dd e split: sum.splits prod.splits)
      qed
    qed
  qed
qed

end
