(* ===== verification/Tcp_Link.thy ===== *)
theory Tcp_Link
  imports Packet_Stream
begin

text \<open>
  The TCP link of transport/tcplinkcommon.hpp and transport/tcplink.hpp, without a stream mutation hook:
  the send queue with its recycled buffers, partial sends, and the receive path that feeds the packet
  stream and hands packets to the read handler. The socket is a parameter: how many bytes a send took and
  which bytes a receive brought are arguments of the completion handlers. The theorems join two links:
  whatever the socket does with the boundaries, the packets delivered are those sent, in order.
\<close>

section \<open>State\<close>

datatype link_error = TCP_OVERFLOW | TCP_INTERNAL_ERROR | NETWORK_SEND_ERROR | TCP_SIZE_ERROR

record tcp_link =
  l_queue :: "buffer list"
  l_free_list :: "buffer list"
  l_send_queue_max_size :: size_t
  l_free_list_max_size :: size_t
  l_frame_context :: frame_context
  l_pktstream :: packet_stream
  l_raw_mode_read :: bool
  l_raw_mode_write :: bool
  l_halt :: bool
  l_errors :: "link_error list"

definition link_init :: "size_t \<Rightarrow> size_t \<Rightarrow> frame_context \<Rightarrow> tcp_link" where
  "link_init send_queue_max_size free_list_max_size fc =
     \<lparr>l_queue = [], l_free_list = [], l_send_queue_max_size = send_queue_max_size,
      l_free_list_max_size = free_list_max_size, l_frame_context = fc, l_pktstream = ps_init,
      l_raw_mode_read = False, l_raw_mode_write = False, l_halt = False, l_errors = []\<rparr>"

definition link_stop :: "tcp_link \<Rightarrow> tcp_link" where
  "link_stop l = l\<lparr>l_halt := True\<rparr>"

definition link_set_raw_mode :: "bool \<Rightarrow> tcp_link \<Rightarrow> tcp_link" where
  "link_set_raw_mode b l = l\<lparr>l_raw_mode_read := b, l_raw_mode_write := b\<rparr>"

definition link_is_raw_mode :: "tcp_link \<Rightarrow> bool" where
  "link_is_raw_mode l \<longleftrightarrow> l_raw_mode_read l \<and> l_raw_mode_write l"

definition link_reset_align_adjust :: "size_t \<Rightarrow> tcp_link \<Rightarrow> tcp_link" where
  "link_reset_align_adjust align_adjust l =
     l\<lparr>l_frame_context := fc_reset_align_adjust (sz_add align_adjust (if link_is_raw_mode l then 0 else 2)) (l_frame_context l)\<rparr>"

text \<open>Statistics, the error handler of the client and \<open>stop\<close>, in the order of the code.\<close>

definition link_fail :: "link_error \<Rightarrow> tcp_link \<Rightarrow> tcp_link" where
  "link_fail e l = link_stop (l\<lparr>l_errors := l_errors l @ [e]\<rparr>)"

section \<open>Sending\<close>

text \<open>The result says whether the packet was accepted, and what the caller's buffer holds then.\<close>

definition link_send :: "buffer \<Rightarrow> tcp_link \<Rightarrow> (bool \<times> buffer \<times> tcp_link) result" where
  "link_send b l =
     (if l_halt l then Inr (False, b, l)
      else if l_send_queue_max_size l \<noteq> 0 \<and> length (l_queue l) \<ge> l_send_queue_max_size l
      then Inr (False, b, link_fail TCP_OVERFLOW l)
      else let (buf, fl) = (case l_free_list l of [] \<Rightarrow> (buf_clear, []) | x # xs \<Rightarrow> (x, xs))
           in bindR (if l_raw_mode_write l then Inr b else ps_prepend_size 2 b)
                (\<lambda>b'. Inr (True, buf, l\<lparr>l_queue := l_queue l @ [b'], l_free_list := fl\<rparr>)))"

definition link_handle_send :: "bool \<Rightarrow> size_t \<Rightarrow> tcp_link \<Rightarrow> tcp_link result" where
  "link_handle_send error bytes_sent l =
     (if l_halt l then Inr l
      else if error then Inr (link_fail NETWORK_SEND_ERROR l)
      else case l_queue l of
        [] \<Rightarrow> Inl undefined_behaviour
      | b # q \<Rightarrow>
          if bytes_sent = b_size b
          then Inr (l\<lparr>l_queue := q,
                      l_free_list := (if length (l_free_list l) < l_free_list_max_size l
                                      then l_free_list l @ [buf_reset_content b] else l_free_list l)\<rparr>)
          else if bytes_sent < b_size b
          then bindR (buf_advance bytes_sent b) (\<lambda>b'. Inr (l\<lparr>l_queue := b' # q\<rparr>))
          else Inr (link_fail TCP_INTERNAL_ERROR l))"

section \<open>Receiving\<close>

text \<open>
  The loop of \<open>put_pktstream\<close>. \<open>env\<close> gives the memory of each round, \<open>handler\<close> what the read handler leaves
  in the packet buffer; the packets it was given are collected.
\<close>

lemma buf_read_size: "buf_read n b = Inr (bs, b') \<Longrightarrow> b_size b' = b_size b - n \<and> n \<le> b_size b"
  by (auto simp: buf_read_def bindR_eq_Inr split: if_splits)

lemma network_to_host_Nil: "network_to_host [] = 0"
  by (simp add: network_to_host_def be_word_def)

lemma ps_extract_size_less:
  assumes "ps_extract_size n fc b = Inr (sz, b')"
  shows "b_size b' < b_size b"
proof -
  from assms obtain bs where r: "buf_read n b = Inr (bs, b')" and v: "ps_validate_size (network_to_host bs) fc = Inr ()"
    by (auto simp: ps_extract_size_def ps_read_size_def bindR_eq_Inr)
  have "n \<noteq> 0"
  proof
    assume "n = 0"
    then have "bs = []" using r by (auto simp: buf_read_def buf_peek_def bindR_eq_Inr split: if_splits)
    then show False using v by (simp add: ps_validate_size_def network_to_host_Nil)
  qed
  then show ?thesis using buf_read_size [OF r] by simp
qed

lemma ps_collect_declared: "declared_size_defined ps \<Longrightarrow> ps_collect n junk fc buf ps = Inr (False, buf, ps)"
  by (subst ps_collect.simps) simp

lemma ps_collect_le: "ps_collect n junk fc buf ps = Inr (ret, buf', ps') \<Longrightarrow> b_size buf' \<le> b_size buf"
proof (induction buf arbitrary: ps rule: measure_induct_rule [of b_size])
  case (less buf)
  show ?case
  proof (cases "declared_size_defined ps \<or> buf_empty buf")
    case True
    then show ?thesis using less.prems by (subst (asm) ps_collect.simps) (auto split: if_splits)
  next
    case False
    with less.prems obtain v buf1 ps1 where "buf_pop_front buf = Inr (v, buf1)"
      "ps_collect n junk fc buf1 ps1 = Inr (ret, buf', ps')"
      by (subst (asm) ps_collect.simps) (auto simp: bindR_eq_Inr split: if_splits sum.splits prod.splits)
    then show ?thesis using less.IH [of buf1 ps1] buf_pop_front_size [of buf v buf1] by simp
  qed
qed

lemma ps_collect_less:
  assumes "ps_collect n junk fc buf ps = Inr (ret, buf', ps')" "\<not> declared_size_defined ps" "buf_defined buf"
  shows "b_size buf' < b_size buf"
proof -
  from assms obtain v buf1 ps1 where "buf_pop_front buf = Inr (v, buf1)"
    "ps_collect n junk fc buf1 ps1 = Inr (ret, buf', ps')"
    by (subst (asm) ps_collect.simps)
      (auto simp: bindR_eq_Inr buf_empty_def buf_defined_def split: if_splits sum.splits prod.splits)
  then show ?thesis using ps_collect_le [of n junk fc buf1] buf_pop_front_size [of buf v buf1] by fastforce
qed

lemma ps_fill_size:
  assumes "ps_fill junk buf ps = Inr (buf', ps')"
  shows "b_size buf' \<le> b_size buf"
    and "b_size (ps_buffer ps) < ps_declared ps \<Longrightarrow> buf_defined buf \<Longrightarrow> b_size buf' < b_size buf"
proof -
  let ?k = "min (ps_declared ps - b_size (ps_buffer ps)) (b_size buf)"
  have r: "b_size buf' = b_size buf - ?k" if "b_size (ps_buffer ps) < ps_declared ps"
    using assms that by (auto simp: ps_fill_def Let_def bindR_eq_Inr dest!: buf_read_size)
  show "b_size buf' \<le> b_size buf"
    using assms r by (cases "b_size (ps_buffer ps) < ps_declared ps") (auto simp: ps_fill_def)
  show "b_size (ps_buffer ps) < ps_declared ps \<Longrightarrow> buf_defined buf \<Longrightarrow> b_size buf' < b_size buf"
    using r by (simp add: buf_defined_def)
qed

text \<open>Every call consumes input, unless a finished packet was not fetched.\<close>

lemma ps_put_consumes:
  assumes put: "ps_put n m fc buf ps = Inr (buf', ps')" and buf: "buf_defined buf" and nr: "\<not> ps_ready ps"
  shows "b_size buf' < b_size buf"
proof (cases "declared_size_defined ps \<or> buf_defined (ps_buffer ps)")
  case False
  obtain junk base where m: "m = (junk, base)" by (cases m)
  from put buf False consider "buf' = ps_buffer ps"
    | sz buf1 bs where "ps_extract_size n fc buf = Inr (sz, buf1)" "buf_read sz buf1 = Inr (bs, buf')"
    by (auto simp: m ps_put_def Let_def bindR_eq_Inr split: if_splits)
  then show ?thesis
  proof cases
    case 1
    then show ?thesis using buf False by (simp add: buf_defined_def)
  next
    case 2
    then show ?thesis using ps_extract_size_less [OF 2(1)] buf_read_size [OF 2(2)] by simp
  qed
next
  case True
  obtain junk base where m: "m = (junk, base)" by (cases m)
  from put buf True obtain ret buf1 ps1 where c: "ps_collect n junk fc buf ps = Inr (ret, buf1, ps1)"
    "(if ret then Inr (buf1, ps1) else ps_fill junk buf1 ps1) = Inr (buf', ps')"
    by (auto simp: m ps_put_def bindR_eq_Inr split: if_splits)
  show ?thesis
  proof (cases "declared_size_defined ps")
    case False
    then have "b_size buf1 < b_size buf" using ps_collect_less [OF c(1)] buf by simp
    moreover have "b_size buf' \<le> b_size buf1" using c(2) ps_fill_size(1) [of junk buf1 ps1] by (auto split: if_splits)
    ultimately show ?thesis by simp
  next
    case decl: True
    then have "ret = False" "buf1 = buf" "ps1 = ps" using c(1) ps_collect_declared [OF decl] by simp_all
    then show ?thesis using c(2) ps_fill_size(2) [of junk buf ps buf' ps'] nr decl buf by (simp add: ps_ready_def)
  qed
qed

lemma ps_put_le:
  assumes put: "ps_put n m fc buf ps = Inr (buf', ps')"
  shows "b_size buf' \<le> b_size buf"
proof (cases "buf_defined buf \<and> ps_ready ps")
  case True
  obtain junk base where m: "m = (junk, base)" by (cases m)
  have "declared_size_defined ps" using True by (simp add: ps_ready_def)
  then have "ps_fill junk buf ps = Inr (buf', ps')"
    using put True by (simp add: m ps_put_def ps_collect_declared)
  then show ?thesis by (rule ps_fill_size)
next
  case False
  then show ?thesis using put ps_put_consumes [OF put] by (cases "buf_defined buf") (auto simp: ps_put_def split: prod.splits)
qed

text \<open>
  The results are the packets the handler was given and, unless an exception ended the loop, the value
  of \<open>requeue\<close> and the state that is left.
\<close>

function link_put_loop :: "(nat \<Rightarrow> mem) \<Rightarrow> (nat \<Rightarrow> buffer \<Rightarrow> bool \<times> buffer) \<Rightarrow> frame_context \<Rightarrow> nat \<Rightarrow> bool
    \<Rightarrow> buffer \<Rightarrow> buffer \<Rightarrow> packet_stream \<Rightarrow> buffer list \<times> (bool \<times> buffer \<times> buffer \<times> packet_stream) result" where
  "link_put_loop env handler fc k requeue buf pkt ps =
     (if b_size buf = 0 then ([], Inr (requeue, buf, pkt, ps))
      else case ps_put 2 (env k) fc buf ps of
        Inl e \<Rightarrow> ([], Inl e)
      | Inr (buf1, ps1) \<Rightarrow>
          if ps_ready ps1
          then case ps_get pkt ps1 of
                 Inl e \<Rightarrow> ([], Inl e)
               | Inr (pkt1, ps2) \<Rightarrow>
                   let (requeue1, pkt2) = handler k pkt1;
                       (out, r) = link_put_loop env handler fc (Suc k) requeue1 buf1 pkt2 ps2
                   in (pkt1 # out, r)
          else link_put_loop env handler fc (Suc k) requeue buf1 pkt ps1)"
  by pat_completeness auto
termination
proof (relation "measure (\<lambda>(env, handler, fc, k, requeue, buf, pkt, ps). 2 * b_size buf + (if ps_ready ps then 1 else 0))")
  fix env :: "nat \<Rightarrow> mem" and handler :: "nat \<Rightarrow> buffer \<Rightarrow> bool \<times> buffer" and fc k requeue buf pkt ps y buf1 ps1 y' pkt1 ps2 z requeue1 pkt2
  assume a: "b_size buf \<noteq> 0" "ps_put 2 (env k) fc buf ps = Inr y" "(buf1, ps1) = y" "ps_ready ps1"
    "ps_get pkt ps1 = Inr y'" "(pkt1, ps2) = y'" "z = handler k pkt1" "(requeue1, pkt2) = z"
  then have p: "ps_put 2 (env k) fc buf ps = Inr (buf1, ps1)" by simp
  have "\<not> ps_ready ps2" using a(5,6) by (auto simp: ps_get_def ps_ready_def declared_size_defined_def split: if_splits)
  then show "((env, handler, fc, Suc k, requeue1, buf1, pkt2, ps2), (env, handler, fc, k, requeue, buf, pkt, ps))
      \<in> measure (\<lambda>(env, handler, fc, k, requeue, buf, pkt, ps). 2 * b_size buf + (if ps_ready ps then 1 else 0))"
    using ps_put_le [OF p] ps_put_consumes [OF p] a(1) by (auto simp: buf_defined_def)
next
  fix env :: "nat \<Rightarrow> mem" and handler :: "nat \<Rightarrow> buffer \<Rightarrow> bool \<times> buffer" and fc k requeue buf pkt ps y buf1 ps1
  assume a: "b_size buf \<noteq> 0" "ps_put 2 (env k) fc buf ps = Inr y" "(buf1, ps1) = y" "\<not> ps_ready ps1"
  then have p: "ps_put 2 (env k) fc buf ps = Inr (buf1, ps1)" by simp
  show "((env, handler, fc, Suc k, requeue, buf1, pkt, ps1), (env, handler, fc, k, requeue, buf, pkt, ps))
      \<in> measure (\<lambda>(env, handler, fc, k, requeue, buf, pkt, ps). 2 * b_size buf + (if ps_ready ps then 1 else 0))"
    using ps_put_le [OF p] ps_put_consumes [OF p] a(1,4) by (auto simp: buf_defined_def)
qed auto

declare link_put_loop.simps [simp del]

definition buf_allocated :: "buffer \<Rightarrow> bool" where
  "buf_allocated b \<longleftrightarrow> b_data b \<noteq> []"

text \<open>\<open>process_recv_buffer\<close> with \<open>put_pktstream\<close>; in raw mode the handler is given the buffer as it is.\<close>

definition link_process_recv_buffer :: "(nat \<Rightarrow> mem) \<Rightarrow> (nat \<Rightarrow> buffer \<Rightarrow> bool \<times> buffer) \<Rightarrow> buffer \<Rightarrow> tcp_link
    \<Rightarrow> buffer list \<times> bool \<times> buffer \<times> tcp_link" where
  "link_process_recv_buffer env handler buf l =
     (if l_raw_mode_read l
      then let (requeue, buf1) = handler 0 buf in ([buf], requeue, buf1, l)
      else case link_put_loop env handler (l_frame_context l) 0 True buf buf_clear (l_pktstream l) of
        (out, Inl e) \<Rightarrow> (out, False, buf, link_fail TCP_SIZE_ERROR l)
      | (out, Inr (requeue, buf1, pkt, ps)) \<Rightarrow>
          (out, requeue, if \<not> buf_allocated buf1 \<and> buf_allocated pkt then pkt else buf1, l\<lparr>l_pktstream := ps\<rparr>))"

text \<open>
  One receive: \<open>queue_recv\<close> prepares the recycled buffer, the socket stores the bytes it received,
  \<open>recv_buffer\<close> sets the size.
\<close>

definition link_recv :: "mem \<Rightarrow> (nat \<Rightarrow> mem) \<Rightarrow> (nat \<Rightarrow> buffer \<Rightarrow> bool \<times> buffer) \<Rightarrow> byte list \<Rightarrow> buffer \<Rightarrow> tcp_link
    \<Rightarrow> (buffer list \<times> bool \<times> buffer \<times> tcp_link) result" where
  "link_recv m env handler chunk pbuf l =
     (if l_halt l then Inr ([], False, pbuf, l)
      else bindR (fc_prepare (fst m) (snd m) (l_frame_context l) pbuf) (\<lambda>b.
           bindR (buf_poke (b_offset b) chunk b) (\<lambda>b1.
           bindR (buf_set_size (length chunk) b1) (\<lambda>b2.
             Inr (link_process_recv_buffer env handler b2 l)))))"

section \<open>The receive loop implements the specification\<close>

lemma ps_ready_frame:
  assumes "fc_stream n fc" "ps_ok n fc ps" "ps_ready ps"
  shows "ps_bytes n ps = frame_of n (content (ps_buffer ps))" "packet_ok n fc (content (ps_buffer ps))"
    "b_size (ps_buffer ps) = ps_declared ps"
  using assms by (auto simp: ps_bytes_def ps_ready_def ps_ok_def frame_of_def packet_ok_def buf_owned_def)

lemma deframe_incomplete:
  assumes "fc_stream n fc" "ps_ok n fc ps" "\<not> ps_ready ps"
  shows "deframe n fc (ps_bytes n ps) = ([], Inr (ps_bytes n ps))"
proof (cases "declared_size_defined ps")
  case False
  then show ?thesis using assms by (intro deframe_short) (auto simp: ps_bytes_def ps_ok_def buf_owned_def)
next
  case True
  note d = ps_bytes_declared(1,3) [OF assms(1,2) True] ps_bytes_declared(2) [OF assms(1,2) True, of "[]"]
  have "length (ps_bytes n ps) < n + ps_declared ps"
    using assms True by (auto simp: ps_bytes_def ps_ready_def ps_ok_def buf_owned_def)
  then show ?thesis using d by (subst deframe.simps) (simp add: Let_def)
qed

lemma buf_owned_reset: "buf_owned b \<Longrightarrow> buf_owned (buf_reset_content b)"
  by (simp add: buf_owned_def buf_wf_def buf_reset_content_def)

text \<open>Fetching a finished packet leaves an empty stream.\<close>

lemma ps_get_ok:
  assumes "fc_stream n fc" "ps_ok n fc ps" "ps_ready ps" "buf_owned ret"
  shows "\<exists>ps'. ps_get ret ps = Inr (ps_buffer ps, ps') \<and> ps_ok n fc ps' \<and> \<not> ps_ready ps' \<and> ps_bytes n ps' = []"
proof -
  have "b_size (ps_buffer ps) = ps_declared ps" "declared_size_defined ps"
    using ps_ready_frame [OF assms(1-3)] assms(3) by (simp_all add: ps_ready_def)
  then show ?thesis
    using assms(1,4) buf_owned_reset [OF assms(4)]
    by (simp add: ps_get_def ps_ok_def ps_ready_def ps_bytes_def declared_size_defined_def fc_stream_def)
      (simp add: buf_reset_content_def content_def)
qed

definition loop_outcome :: "frame_context \<Rightarrow> byte list \<Rightarrow> buffer list \<times> (bool \<times> buffer \<times> buffer \<times> packet_stream) result \<Rightarrow> bool" where
  "loop_outcome fc zs res \<longleftrightarrow> map content (fst res) = fst (deframe 2 fc zs)
     \<and> (case snd (deframe 2 fc zs) of Inl e \<Rightarrow> snd res = Inl e
        | Inr rest \<Rightarrow> \<exists>rq buf' pkt' ps'. snd res = Inr (rq, buf', pkt', ps') \<and> buf_owned buf' \<and> b_size buf' = 0
            \<and> buf_owned pkt' \<and> ps_ok 2 fc ps' \<and> \<not> ps_ready ps' \<and> ps_bytes 2 ps' = rest)"

lemma link_put_loop_spec:
  assumes fc: "fc_stream 2 fc" and handler: "\<And>k b. buf_owned b \<Longrightarrow> buf_owned (snd (handler k b))"
    and "ps_ok 2 fc ps" "\<not> ps_ready ps" "buf_input fc buf" "buf_owned pkt"
  shows "loop_outcome fc (ps_bytes 2 ps @ content buf) (link_put_loop env handler fc k rq buf pkt ps)"
  using assms(3-6)
proof (induction buf arbitrary: k rq pkt ps rule: measure_induct_rule [of b_size])
  case (less buf)
  let ?zs = "ps_bytes 2 ps @ content buf"
  have wf: "buf_wf buf" using less.prems(3) by (simp add: buf_input_def buf_owned_def)
  show ?case
  proof (cases "b_size buf = 0")
    case True
    then show ?thesis
      using less.prems deframe_incomplete [OF fc less.prems(1,2)]
      by (subst link_put_loop.simps) (simp add: loop_outcome_def buf_input_def)
  next
    case False
    then have ne: "content buf \<noteq> []" "buf_defined buf" using wf by (auto simp: buf_defined_def simp flip: length_content)
    obtain junk base where m: "env k = (junk, base)" by (cases "env k")
    have out: "put_outcome 2 fc ?zs (ps_put 2 (env k) fc buf ps)"
      unfolding m by (rule ps_put_spec [OF fc less.prems(1,3) ne(1)])
    show ?thesis
    proof (cases "2 \<le> length ?zs \<and> \<not> valid_size fc (network_to_host (take 2 ?zs))")
      case True
      then have "ps_put 2 (env k) fc buf ps = Inl embedded_packet_size_error" using out by (simp add: put_outcome_def)
      then show ?thesis using False deframe_bad [of 2 ?zs fc] True
        by (subst link_put_loop.simps) (simp add: loop_outcome_def)
    next
      case ok: False
      then obtain buf' ps' where p: "ps_put 2 (env k) fc buf ps = Inr (buf', ps')" "buf_input fc buf'" "ps_ok 2 fc ps'"
        "ps_bytes 2 ps' @ content buf' = ?zs" "content buf' = [] \<or> ps_ready ps'"
        using out unfolding put_outcome_def by auto
      have less': "b_size buf' < b_size buf" using ps_put_consumes [OF p(1) ne(2) less.prems(2)] .
      show ?thesis
      proof (cases "ps_ready ps'")
        case not_ready: False
        have "loop_outcome fc ?zs (link_put_loop env handler fc (Suc k) rq buf' pkt ps')"
          using less.IH [OF less' p(3) not_ready p(2) less.prems(4)] unfolding p(4) .
        then show ?thesis using False p(1) not_ready by (subst link_put_loop.simps) simp
      next
        case ready: True
        let ?p = "content (ps_buffer ps')"
        obtain ps2 where g: "ps_get pkt ps' = Inr (ps_buffer ps', ps2)" "ps_ok 2 fc ps2" "\<not> ps_ready ps2" "ps_bytes 2 ps2 = []"
          using ps_get_ok [OF fc p(3) ready less.prems(4)] by blast
        obtain rq2 pkt2 where h: "handler k (ps_buffer ps') = (rq2, pkt2)" by (cases "handler k (ps_buffer ps')")
        have "buf_owned pkt2" using handler [of "ps_buffer ps'" k] p(3) h by (simp add: ps_ok_def)
        then have IH: "loop_outcome fc (content buf') (link_put_loop env handler fc (Suc k) rq2 buf' pkt2 ps2)"
          using less.IH [OF less' g(2,3) p(2)] g(4) by simp
        note f = ps_ready_frame [OF fc p(3) ready]
        have d: "deframe 2 fc ?zs = (case deframe 2 fc (content buf') of (pkts, r) \<Rightarrow> (?p # pkts, r))"
          unfolding p(4) [symmetric] f(1) by (rule deframe_frame [OF f(2)]) simp
        obtain out r where l: "link_put_loop env handler fc (Suc k) rq2 buf' pkt2 ps2 = (out, r)" by fastforce
        obtain Q q where dd: "deframe 2 fc (content buf') = (Q, q)" by fastforce
        have "link_put_loop env handler fc k rq buf pkt ps = (ps_buffer ps' # out, r)"
          using False p(1) ready g(1) h l by (subst link_put_loop.simps) simp
        then show ?thesis using IH unfolding loop_outcome_def d l dd by (simp split: sum.splits)
      qed
    qed
  qed
qed

text \<open>A link that receives packets: not halted, not raw, its stream between two packets or inside one.\<close>

definition link_ok :: "tcp_link \<Rightarrow> bool" where
  "link_ok l \<longleftrightarrow> \<not> l_halt l \<and> \<not> l_raw_mode_read l \<and> fc_stream 2 (l_frame_context l)
     \<and> ps_ok 2 (l_frame_context l) (l_pktstream l) \<and> \<not> ps_ready (l_pktstream l)"

lemma buf_owned_clear: "buf_owned buf_clear"
  by (simp add: buf_owned_def buf_clear_def buf_wf_def)

lemma link_recv_buffer:
  assumes "fc_wf fc" "buf_owned pbuf" "length chunk \<le> fc_payload fc"
  shows "\<exists>b b1 b2. fc_prepare junk base fc pbuf = Inr b \<and> buf_poke (b_offset b) chunk b = Inr b1
    \<and> buf_set_size (length chunk) b1 = Inr b2 \<and> buf_input fc b2 \<and> content b2 = chunk"
proof -
  obtain b where b: "fc_prepare junk base fc pbuf = Inr b" "buf_wf b" "content b = []" "b_flags b \<noteq> None"
    "fc_adj_capacity fc \<le> b_capacity b" "b_capacity b \<le> max (fc_adj_capacity fc) (b_capacity pbuf)"
    "b_offset b = fc_actual_headroom base fc"
    using fc_prepare_ok [OF assms(1), of pbuf junk base] assms(2) by (auto simp: buf_owned_def)
  have fit: "b_offset b + length chunk \<le> b_capacity b"
    using fc_headroom_bounds(2) [OF assms(1), of base] b(5,7) assms(1,3) by (auto simp: fc_wf_def)
  let ?b1 = "b\<lparr>b_data := overwrite (b_offset b) chunk (b_data b)\<rparr>"
  have p: "buf_poke (b_offset b) chunk b = Inr ?b1" using fit b(2) by (simp add: buf_poke_def buf_wf_def)
  have w: "buf_wf ?b1" using b(2) fit by (simp add: buf_wf_def)
  let ?b2 = "?b1\<lparr>b_size := length chunk\<rparr>"
  have s: "buf_set_size (length chunk) ?b1 = Inr ?b2" using w fit by (simp add: buf_set_size_def buf_max_size_exact)
  have "content ?b2 = chunk" using b(2) fit by (simp add: content_def overwrite_def buf_wf_def)
  moreover have "buf_input fc ?b2"
    using b w fit assms(1,2) by (auto simp: buf_input_def buf_owned_def buf_wf_def fc_wf_def)
  ultimately show ?thesis using b(1) p s by blast
qed

lemma link_recv_spec:
  assumes l: "link_ok l" and b: "buf_owned pbuf" "length chunk \<le> fc_payload (l_frame_context l)"
    and h: "\<And>k b. buf_owned b \<Longrightarrow> buf_owned (snd (handler k b))"
    and d: "deframe 2 (l_frame_context l) (ps_bytes 2 (l_pktstream l) @ chunk) = (Q, r)"
  shows "\<exists>out rq pb l'. link_recv m env handler chunk pbuf l = Inr (out, rq, pb, l') \<and> map content out = Q
    \<and> (case r of Inl e \<Rightarrow> l' = link_fail TCP_SIZE_ERROR l \<and> \<not> rq
       | Inr rest \<Rightarrow> link_ok l' \<and> l_frame_context l' = l_frame_context l \<and> ps_bytes 2 (l_pktstream l') = rest)"
proof -
  let ?fc = "l_frame_context l" and ?ps = "l_pktstream l"
  have fc: "fc_stream 2 ?fc" "fc_wf ?fc" and ps: "ps_ok 2 ?fc ?ps" "\<not> ps_ready ?ps" and nh: "\<not> l_halt l" "\<not> l_raw_mode_read l"
    using l by (auto simp: link_ok_def fc_stream_def)
  obtain b0 b1 b2 where r: "fc_prepare (fst m) (snd m) ?fc pbuf = Inr b0" "buf_poke (b_offset b0) chunk b0 = Inr b1"
    "buf_set_size (length chunk) b1 = Inr b2" "buf_input ?fc b2" "content b2 = chunk"
    using link_recv_buffer [OF fc(2) b] by blast
  obtain out res where lp: "link_put_loop env handler ?fc 0 True b2 buf_clear ?ps = (out, res)" by fastforce
  have "loop_outcome ?fc (ps_bytes 2 ?ps @ chunk) (out, res)"
    using link_put_loop_spec [where handler = handler and env = env and k = 0 and rq = True, OF fc(1) h ps r(4) buf_owned_clear] unfolding r(5) lp .
  then have o: "map content out = Q" "case r of Inl e \<Rightarrow> res = Inl e
      | Inr rest \<Rightarrow> \<exists>rq buf' pkt' ps'. res = Inr (rq, buf', pkt', ps') \<and> buf_owned buf' \<and> b_size buf' = 0
          \<and> buf_owned pkt' \<and> ps_ok 2 ?fc ps' \<and> \<not> ps_ready ps' \<and> ps_bytes 2 ps' = rest"
    unfolding loop_outcome_def d by (simp_all split: sum.splits)
  have rec: "link_recv m env handler chunk pbuf l = Inr (link_process_recv_buffer env handler b2 l)"
    using nh r by (simp add: link_recv_def)
  show ?thesis
  proof (cases r)
    case (Inl e)
    then show ?thesis using o nh rec lp by (auto simp: link_process_recv_buffer_def)
  next
    case (Inr rest)
    then obtain rq buf' pkt' ps' where "res = Inr (rq, buf', pkt', ps')" "ps_ok 2 ?fc ps'" "\<not> ps_ready ps'"
      "ps_bytes 2 ps' = rest" using o(2) by auto
    then show ?thesis using o(1) nh rec lp Inr fc(1) by (simp add: link_process_recv_buffer_def link_ok_def)
  qed
qed

text \<open>
  Any number of receives. A round is the memory, the handler, the buffer \<open>queue_recv\<close> prepares, and the
  bytes the socket brought; the packets of all rounds are concatenated.
\<close>

type_synonym recv_round = "mem \<times> (nat \<Rightarrow> mem) \<times> (nat \<Rightarrow> buffer \<Rightarrow> bool \<times> buffer) \<times> buffer \<times> byte list"

fun link_recv_run :: "recv_round list \<Rightarrow> tcp_link \<Rightarrow> (buffer list \<times> tcp_link) result" where
  "link_recv_run [] l = Inr ([], l)"
| "link_recv_run ((m, env, handler, pbuf, chunk) # rs) l =
     bindR (link_recv m env handler chunk pbuf l) (\<lambda>(out, rq, pb, l1).
     bindR (link_recv_run rs l1) (\<lambda>(out2, l2). Inr (out @ out2, l2)))"

definition round_ok :: "frame_context \<Rightarrow> recv_round \<Rightarrow> bool" where
  "round_ok fc r = (case r of (m, env, handler, pbuf, chunk) \<Rightarrow>
     buf_owned pbuf \<and> length chunk \<le> fc_payload fc \<and> (\<forall>k b. buf_owned b \<longrightarrow> buf_owned (snd (handler k b))))"

abbreviation round_chunk :: "recv_round \<Rightarrow> byte list" where
  "round_chunk r \<equiv> snd (snd (snd (snd r)))"

lemma link_recv_run_spec:
  assumes "link_ok l" "\<forall>r\<in>set rs. round_ok (l_frame_context l) r"
    and "deframe 2 (l_frame_context l) (ps_bytes 2 (l_pktstream l) @ concat (map round_chunk rs)) = (Q, Inr rest)"
  shows "\<exists>out l'. link_recv_run rs l = Inr (out, l') \<and> map content out = Q \<and> link_ok l'
    \<and> ps_bytes 2 (l_pktstream l') = rest"
  using assms
proof (induction rs arbitrary: l Q)
  case Nil
  then show ?case using deframe_incomplete [of 2 "l_frame_context l" "l_pktstream l"] by (simp add: link_ok_def)
next
  case (Cons rd rs)
  obtain m env handler pbuf chunk where rd: "rd = (m, env, handler, pbuf, chunk)" by (cases rd)
  let ?fc = "l_frame_context l" and ?xs = "ps_bytes 2 (l_pktstream l) @ chunk"
  obtain Q1 r1 where d1: "deframe 2 ?fc ?xs = (Q1, r1)" by fastforce
  have all: "deframe 2 ?fc (?xs @ concat (map round_chunk rs)) = (Q, Inr rest)" using Cons.prems(3) rd by simp
  with deframe_append [OF d1, of "concat (map round_chunk rs)"]
  obtain rest1 Q2 where r1: "r1 = Inr rest1" "deframe 2 ?fc (rest1 @ concat (map round_chunk rs)) = (Q2, Inr rest)" "Q = Q1 @ Q2"
    by (auto split: sum.splits prod.splits)
  have ok: "buf_owned pbuf" "length chunk \<le> fc_payload ?fc" "\<And>k b. buf_owned b \<Longrightarrow> buf_owned (snd (handler k b))"
    using Cons.prems(2) by (auto simp: rd round_ok_def)
  obtain out rq pb l1 where l1: "link_recv m env handler chunk pbuf l = Inr (out, rq, pb, l1)" "map content out = Q1"
    "link_ok l1" "l_frame_context l1 = ?fc" "ps_bytes 2 (l_pktstream l1) = rest1"
    using link_recv_spec [where handler = handler and m = m and env = env, OF Cons.prems(1) ok d1] r1(1) by auto
  obtain out2 l2 where "link_recv_run rs l1 = Inr (out2, l2)" "map content out2 = Q2" "link_ok l2"
    "ps_bytes 2 (l_pktstream l2) = rest"
    using Cons.IH [of l1 Q2] l1 Cons.prems(2) r1(2) by auto
  then show ?case using l1 r1(3) by (simp add: rd)
qed

section \<open>The sending side\<close>

text \<open>
  The sending link with the packets it accepted and the bytes the socket has taken so far. The socket takes
  any number of bytes of the buffer it was given, or fails.
\<close>

inductive tx_step :: "tcp_link \<times> byte list list \<times> byte list \<Rightarrow> tcp_link \<times> byte list list \<times> byte list \<Rightarrow> bool" where
  send: "buf_wf b \<Longrightarrow> link_send b l = Inr (True, b', l') \<Longrightarrow> tx_step (l, P, W) (l', P @ [content b], W)"
| refuse: "link_send b l = Inr (False, b', l') \<Longrightarrow> tx_step (l, P, W) (l', P, W)"
| sent: "\<not> l_halt l \<Longrightarrow> l_queue l = b # q \<Longrightarrow> n \<le> b_size b \<Longrightarrow> link_handle_send False n l = Inr l' \<Longrightarrow>
    tx_step (l, P, W) (l', P, W @ take n (content b))"
| fail: "link_handle_send True n l = Inr l' \<Longrightarrow> tx_step (l, P, W) (l', P, W)"

inductive_cases tx_stepE: "tx_step s s'"

definition tx_inv :: "tcp_link \<times> byte list list \<times> byte list \<Rightarrow> bool" where
  "tx_inv s = (case s of (l, P, W) \<Rightarrow> \<not> l_raw_mode_write l \<and> (\<forall>b\<in>set (l_queue l). buf_wf b)
     \<and> (\<forall>p\<in>set P. length p < 256 ^ 2) \<and> W @ concat (map content (l_queue l)) = concat (map (frame_of 2) P))"

lemma ps_prepend_size_Inr:
  assumes "buf_wf b" "ps_prepend_size n b = Inr b'" "n \<le> 4"
  shows "buf_wf b' \<and> content b' = frame_of n (content b) \<and> length (content b) < 256 ^ n"
proof -
  from assms(2) obtain bs where h: "host_to_network n (b_size b) = Inr bs" "buf_prepend bs b = Inr b'"
    by (auto simp: ps_prepend_size_def bindR_eq_Inr)
  then have bs: "bs = be_bytes n (of_nat (b_size b) :: u32)" "b_size b < 256 ^ n"
    by (auto simp: host_to_network_def split: if_splits)
  have "length bs < sz_max" using assms(3) by (simp add: bs(1) sz_max_def)
  then show ?thesis using bq.pre_ok [OF assms(1) _ h(2)] assms(1) bs by (simp add: frame_of_def)
qed

lemma link_send_Inr:
  assumes "link_send b l = Inr (True, b', l')" "\<not> l_raw_mode_write l"
  obtains c where "ps_prepend_size 2 b = Inr c" "l_queue l' = l_queue l @ [c]" "\<not> l_raw_mode_write l'"
  using assms by (auto simp: link_send_def bindR_eq_Inr split: if_splits list.splits)

lemma link_send_refused: "link_send b l = Inr (False, b', l') \<Longrightarrow> l_queue l' = l_queue l \<and> l_raw_mode_write l' = l_raw_mode_write l"
  by (auto simp: link_send_def bindR_eq_Inr link_fail_def link_stop_def split: if_splits list.splits)

lemma link_handle_send_Inr:
  assumes "link_handle_send False n l = Inr l'" "\<not> l_halt l" "l_queue l = b # q" "n \<le> b_size b"
  shows "l_raw_mode_write l' = l_raw_mode_write l
    \<and> (if n = b_size b then l_queue l' = q
       else l_queue l' = (b\<lparr>b_offset := b_offset b + n, b_size := b_size b - n\<rparr>) # q)"
  using assms by (auto simp: link_handle_send_def buf_advance_def split: if_splits)

lemma tx_step_inv:
  assumes "tx_step s s'" "tx_inv s"
  shows "tx_inv s'"
  using assms(1)
proof (cases rule: tx_step.cases)
  case (send b l b' l' P W)
  obtain c where c: "ps_prepend_size 2 b = Inr c" "l_queue l' = l_queue l @ [c]" "\<not> l_raw_mode_write l'"
    using link_send_Inr [OF send(4)] assms(2) by (auto simp: send tx_inv_def)
  with ps_prepend_size_Inr [OF send(3) c(1)] assms(2) show ?thesis by (auto simp: send tx_inv_def)
next
  case (refuse b l b' l' P W)
  then show ?thesis using assms(2) link_send_refused [OF refuse(3)] by (simp add: tx_inv_def)
next
  case (sent l b q n l' P W)
  have wf: "buf_wf b" using assms(2) sent by (simp add: tx_inv_def)
  note r = link_handle_send_Inr [OF sent(6,3,4,5)]
  show ?thesis
  proof (cases "n = b_size b")
    case True
    then have "take n (content b) = content b" using wf by simp
    then show ?thesis using r True assms(2) by (simp add: sent tx_inv_def)
  next
    case False
    let ?b = "b\<lparr>b_offset := b_offset b + n, b_size := b_size b - n\<rparr>"
    have "buf_wf ?b" "take n (content b) @ content ?b = content b"
      using wf_consume [OF wf sent(5)] by (simp_all add: content_consume)
    moreover have "l_queue l' = ?b # q" "l_raw_mode_write l' = l_raw_mode_write l" using r False by simp_all
    moreover have "W @ take n (content b) @ content ?b @ concat (map content q) = concat (map (frame_of 2) P)"
      using assms(2) calculation(2) by (simp add: sent tx_inv_def flip: append_assoc)
    ultimately show ?thesis using assms(2) by (simp add: sent tx_inv_def)
  qed
next
  case (fail n l l' P W)
  have "l_queue l' = l_queue l" "l_raw_mode_write l' = l_raw_mode_write l"
    using fail(3) by (auto simp: link_handle_send_def link_fail_def link_stop_def split: if_splits)
  then show ?thesis using assms(2) by (simp add: fail tx_inv_def)
qed

abbreviation tx_steps :: "tcp_link \<times> byte list list \<times> byte list \<Rightarrow> tcp_link \<times> byte list list \<times> byte list \<Rightarrow> bool" where
  "tx_steps \<equiv> tx_step\<^sup>*\<^sup>*"

lemma tx_steps_inv: "tx_steps s s' \<Longrightarrow> tx_inv s \<Longrightarrow> tx_inv s'"
  by (induction rule: rtranclp_induct) (auto intro: tx_step_inv)

lemma link_init_ok: "fc_stream 2 fc \<Longrightarrow> link_ok (link_init qmax fmax fc)"
  by (simp add: link_ok_def link_init_def ps_init_def ps_ok_def declared_size_defined_def ps_ready_def buf_owned_clear fc_stream_def)
    (simp add: buf_clear_def)

text \<open>
  C4. Two TCP links, end to end. Whatever part of its buffers the sending socket takes in each send, and
  however the bytes arrive at the other end, cut into reads of any size up to the payload and into whatever
  memory: the receiving link does not fail, the packets it hands to its read handler are the packets the
  sender accepted, in order and unchanged, up to those not yet completely transmitted; when the send queue
  has drained they are all of them.
\<close>

theorem tcp_end_to_end:
  assumes "tx_steps (link_init qmax fmax sender_fc, [], []) (l, P, W)"
    and "fc_stream 2 fc" "\<forall>p\<in>set P. p \<noteq> [] \<and> length p \<le> fc_payload fc"
    and "\<forall>r\<in>set rounds. round_ok fc r" "concat (map round_chunk rounds) = W"
  shows "\<exists>out l' R. link_recv_run rounds (link_init qmax' fmax' fc) = Inr (out, l') \<and> \<not> l_halt l'
    \<and> P = map content out @ R \<and> (l_queue l = [] \<longrightarrow> R = [])"
proof -
  let ?r = "link_init qmax' fmax' fc"
  have "tx_inv (link_init qmax fmax sender_fc, [], [])" by (simp add: tx_inv_def link_init_def)
  then have inv: "tx_inv (l, P, W)" using tx_steps_inv [OF assms(1)] by blast
  have ok: "\<forall>p\<in>set P. packet_ok 2 fc p" using inv assms(3) by (auto simp: tx_inv_def packet_ok_def valid_size_def)
  have W: "concat (map (frame_of 2) P) = W @ concat (map content (l_queue l))" using inv by (simp add: tx_inv_def)
  obtain Q r where q: "deframe 2 fc W = (Q, Inr r)" "\<exists>R. P = Q @ R \<and> concat (map (frame_of 2) R) = r @ concat (map content (l_queue l))"
    "concat (map content (l_queue l)) = [] \<longrightarrow> Q = P \<and> r = []"
    using deframe_frames [OF ok _ _ W] by auto
  have fc: "l_frame_context ?r = fc" "ps_bytes 2 (l_pktstream ?r) = []"
    by (simp_all add: link_init_def ps_init_def ps_bytes_def declared_size_defined_def buf_clear_def content_def)
  obtain out l' where "link_recv_run rounds ?r = Inr (out, l')" "map content out = Q" "link_ok l'"
    using link_recv_run_spec [OF link_init_ok [OF assms(2)], of rounds qmax' fmax' Q r] assms(4,5) q(1) fc by auto
  then show ?thesis using q(2,3) by (auto simp: link_ok_def)
qed

text \<open>A packet in a buffer with headroom, sent in two parts and received in three.\<close>

definition ex_fc :: frame_context where "ex_fc = fc_ctor 8 64 8 0 8 0"

definition ex_packet :: buffer where
  "ex_packet = \<lparr>b_data = [0, 0, 0, 0, 1, 2, 3], b_offset = 4, b_size = 3, b_capacity = 7, b_flags = Some 0\<rparr>"

definition ex_queued :: buffer where
  "ex_queued = \<lparr>b_data = [0, 0, 0, 3, 1, 2, 3], b_offset = 2, b_size = 5, b_capacity = 7, b_flags = Some 0\<rparr>"

definition ex_link :: "buffer list \<Rightarrow> buffer list \<Rightarrow> tcp_link" where
  "ex_link q free = (link_init 0 8 ex_fc)\<lparr>l_queue := q, l_free_list := free\<rparr>"

definition ex_round :: "byte list \<Rightarrow> recv_round" where
  "ex_round chunk = ((\<lambda>_. 170, 0), \<lambda>_. (\<lambda>_. 170, 3), \<lambda>k b. (True, buf_clear), buf_clear, chunk)"

lemma ex_fc_eq: "ex_fc = \<lparr>fc_headroom = 8, fc_payload = 64, fc_tailroom = 8, fc_align_adjust = 0, fc_align_block = 8,
     fc_buffer_flags = 0, fc_adj_headroom = 16, fc_adj_capacity = 88\<rparr>"
  by (simp add: ex_fc_def fc_ctor_def fc_recalc_derived_def sz_add_def sz_max_def)

lemma ex_fc_stream: "fc_stream 2 ex_fc"
  by (simp add: ex_fc_eq fc_stream_def fc_wf_def sz_max_def)

lemma be_bytes_2: "be_bytes 2 (w :: u32) = [ucast (drop_bit 8 w), ucast w]"
  by (simp add: be_bytes_def le_bytes_def numeral_2_eq_2)

lemma ex_tx_steps:
  "\<exists>l. tx_steps (link_init 0 8 ex_fc, [], []) (l, [[1, 2, 3]], [0, 3, 1, 2, 3]) \<and> l_queue l = []"
proof -
  let ?half = "ex_queued\<lparr>b_offset := 4, b_size := 3\<rparr>"
  have c: "content ex_packet = [1, 2, 3]" "content ex_queued = [0, 3, 1, 2, 3]" "content ?half = [1, 2, 3]"
    by (simp_all add: content_def ex_packet_def ex_queued_def)
  have "link_send ex_packet (ex_link [] []) = Inr (True, buf_clear, ex_link [ex_queued] [])"
    by (simp add: link_send_def ex_link_def link_init_def ps_prepend_size_def host_to_network_def be_bytes_2
        buf_prepend_def buf_poke_def overwrite_def ex_packet_def ex_queued_def)
  moreover have "buf_wf ex_packet" by (simp add: ex_packet_def buf_wf_def sz_max_def)
  ultimately have 1: "tx_step (ex_link [] [], [], []) (ex_link [ex_queued] [], [[1, 2, 3]], [])"
    using tx_step.send [of ex_packet "ex_link [] []" buf_clear "ex_link [ex_queued] []" "[]" "[]"] by (simp add: c)
  have "link_handle_send False 2 (ex_link [ex_queued] []) = Inr (ex_link [?half] [])"
    by (simp add: link_handle_send_def ex_link_def link_init_def buf_advance_def ex_queued_def)
  from tx_step.sent [OF _ _ _ this, of ex_queued "[]" "[[1, 2, 3]]" "[]"]
  have 2: "tx_step (ex_link [ex_queued] [], [[1, 2, 3]], []) (ex_link [?half] [], [[1, 2, 3]], [0, 3])"
    by (simp add: c ex_link_def link_init_def) (simp add: ex_queued_def)
  have "link_handle_send False 3 (ex_link [?half] []) = Inr (ex_link [] [buf_reset_content ?half])"
    by (simp add: link_handle_send_def ex_link_def link_init_def)
  from tx_step.sent [OF _ _ _ this, of ?half "[]" "[[1, 2, 3]]" "[0, 3]"]
  have 3: "tx_step (ex_link [?half] [], [[1, 2, 3]], [0, 3]) (ex_link [] [buf_reset_content ?half], [[1, 2, 3]], [0, 3, 1, 2, 3])"
    by (simp add: c ex_link_def link_init_def)
  have "ex_link [] [] = link_init 0 8 ex_fc" by (simp add: ex_link_def link_init_def)
  then have "tx_steps (link_init 0 8 ex_fc, [], []) (ex_link [] [buf_reset_content ?half], [[1, 2, 3]], [0, 3, 1, 2, 3])"
    using 1 2 3 by (simp add: converse_rtranclp_into_rtranclp r_into_rtranclp)
  then show ?thesis by (auto simp: ex_link_def)
qed

theorem tcp_end_to_end_witness:
  "\<exists>out l'. link_recv_run (map ex_round [[0], [3, 1], [2, 3]]) (link_init 0 8 ex_fc) = Inr (out, l')
     \<and> map content out = [[1, 2, 3]]"
proof -
  have r: "\<forall>r\<in>set (map ex_round [[0], [3, 1], [2, 3]]). round_ok ex_fc r"
    by (simp add: ex_round_def round_ok_def buf_owned_clear ex_fc_eq)
  obtain l where l: "tx_steps (link_init 0 8 ex_fc, [], []) (l, [[1, 2, 3]], [0, 3, 1, 2, 3])" "l_queue l = []"
    using ex_tx_steps by blast
  from tcp_end_to_end [OF l(1) ex_fc_stream _ r, of 0 8] l(2) show ?thesis
    by (auto simp: ex_round_def ex_fc_eq)
qed

text \<open>A halted link receives nothing.\<close>

lemma link_recv_halted: "l_halt l \<Longrightarrow> link_recv m env handler chunk pbuf l = Inr ([], False, pbuf, l)"
  by (simp add: link_recv_def)

text \<open>
  A length word that is zero or larger than the payload stops the link: the packets before it are
  delivered, the error handler is told \<open>TCP_SIZE_ERROR\<close> and nothing is received any more.
\<close>

lemma tcp_bad_length:
  assumes "link_ok l" "ps_bytes 2 (l_pktstream l) = []" "fc = l_frame_context l"
    and "\<forall>p\<in>set P. p \<noteq> [] \<and> length p \<le> fc_payload fc \<and> length p < 256 ^ 2"
    and "length w = 2" "\<not> valid_size fc (network_to_host w)"
    and "buf_owned pbuf" "\<forall>k b. buf_owned b \<longrightarrow> buf_owned (snd (handler k b))"
    and "length (concat (map (frame_of 2) P) @ w @ rest) \<le> fc_payload fc"
  shows "\<exists>out pb l'. link_recv m env handler (concat (map (frame_of 2) P) @ w @ rest) pbuf l = Inr (out, False, pb, l')
    \<and> map content out = P \<and> l_errors l' = l_errors l @ [TCP_SIZE_ERROR]
    \<and> link_recv m' env' handler' chunk' pb l' = Inr ([], False, pb, l')"
proof -
  have ok: "\<forall>p\<in>set P. packet_ok 2 fc p" using assms(4) by (auto simp: packet_ok_def valid_size_def)
  have d: "deframe 2 fc (concat (map (frame_of 2) P) @ w @ rest) = (P, Inl embedded_packet_size_error)"
    using ok by (induction P) (use assms(5,6) in \<open>auto simp: deframe_bad deframe_frame\<close>)
  have "\<And>k b. buf_owned b \<Longrightarrow> buf_owned (snd (handler k b))" using assms(8) by blast
  from link_recv_spec [where handler = handler and m = m and env = env, OF assms(1,7) _ this,
      of "concat (map (frame_of 2) P) @ w @ rest" P "Inl embedded_packet_size_error"]
  obtain out rq pb l' where "link_recv m env handler (concat (map (frame_of 2) P) @ w @ rest) pbuf l = Inr (out, rq, pb, l')"
    "map content out = P" "l' = link_fail TCP_SIZE_ERROR l" "\<not> rq"
    using d assms(2,3,9) by auto
  moreover have "l_halt (link_fail TCP_SIZE_ERROR l)" "l_errors (link_fail TCP_SIZE_ERROR l) = l_errors l @ [TCP_SIZE_ERROR]"
    by (simp_all add: link_fail_def link_stop_def)
  ultimately show ?thesis using link_recv_halted by fastforce
qed

end
