(* ===== verification/Proto_Op.thy ===== *)
theory Proto_Op
  imports OV_Buffer
begin

text \<open>
  The first bytes of every packet (ssl/proto.hpp): opcode and key ID in one byte, the 4-byte header of
  \<open>DATA_V2\<close> with the peer ID, and \<open>PacketType\<close>, the classification of a received packet against
  the key IDs in use. \<open>unsigned int\<close> is a 32-bit word, the \<open>int\<close> peer ID its two's complement.
\<close>

section \<open>Opcodes\<close>

definition INVALID_OPCODE :: u32 where "INVALID_OPCODE = 0"
definition CONTROL_SOFT_RESET_V1 :: u32 where "CONTROL_SOFT_RESET_V1 = 3"
definition CONTROL_V1 :: u32 where "CONTROL_V1 = 4"
definition ACK_V1 :: u32 where "ACK_V1 = 5"
definition DATA_V1 :: u32 where "DATA_V1 = 6"
definition CONTROL_HARD_RESET_CLIENT_V2 :: u32 where "CONTROL_HARD_RESET_CLIENT_V2 = 7"
definition CONTROL_HARD_RESET_SERVER_V2 :: u32 where "CONTROL_HARD_RESET_SERVER_V2 = 8"
definition DATA_V2 :: u32 where "DATA_V2 = 9"
definition CONTROL_HARD_RESET_CLIENT_V3 :: u32 where "CONTROL_HARD_RESET_CLIENT_V3 = 10"
definition CONTROL_WKC_V1 :: u32 where "CONTROL_WKC_V1 = 11"
definition OP_PEER_ID_UNDEF :: u32 where "OP_PEER_ID_UNDEF = 0x00FFFFFF"
definition OP_SIZE_V2 :: nat where "OP_SIZE_V2 = 4"

lemmas opcode_defs = INVALID_OPCODE_def CONTROL_SOFT_RESET_V1_def CONTROL_V1_def ACK_V1_def DATA_V1_def
  CONTROL_HARD_RESET_CLIENT_V2_def CONTROL_HARD_RESET_SERVER_V2_def DATA_V2_def
  CONTROL_HARD_RESET_CLIENT_V3_def CONTROL_WKC_V1_def

definition opcode_extract :: "u32 \<Rightarrow> u32" where
  "opcode_extract op = drop_bit 3 op"

definition key_id_extract :: "u32 \<Rightarrow> u32" where
  "key_id_extract op = op AND 7"

definition op_head_size :: "u32 \<Rightarrow> nat" where
  "op_head_size op = (if opcode_extract op = DATA_V2 then OP_SIZE_V2 else 1)"

definition op_compose :: "u32 \<Rightarrow> u32 \<Rightarrow> byte" where
  "op_compose opcode key_id = ucast (push_bit 3 opcode OR key_id)"

definition op32_compose :: "u32 \<Rightarrow> u32 \<Rightarrow> u32 \<Rightarrow> u32" where
  "op32_compose opcode key_id op_peer_id =
     push_bit 24 (ucast (op_compose opcode key_id)) OR (op_peer_id AND 0x00FFFFFF)"

section \<open>Classification of packets\<close>

definition PT_DEFINED :: u32 where "PT_DEFINED = 1"
definition PT_CONTROL :: u32 where "PT_CONTROL = 2"
definition PT_SECONDARY :: u32 where "PT_SECONDARY = 4"
definition PT_SOFT_RESET :: u32 where "PT_SOFT_RESET = 8"

lemmas pt_defs = PT_DEFINED_def PT_CONTROL_def PT_SECONDARY_def PT_SOFT_RESET_def

record packet_type =
  pt_flags :: u32
  pt_opcode :: u32
  pt_peer_id :: int

definition pt_is_defined :: "packet_type \<Rightarrow> bool" where
  "pt_is_defined t \<longleftrightarrow> pt_flags t AND PT_DEFINED \<noteq> 0"

definition pt_is_control :: "packet_type \<Rightarrow> bool" where
  "pt_is_control t \<longleftrightarrow> pt_flags t AND (PT_CONTROL OR PT_DEFINED) = PT_CONTROL OR PT_DEFINED"

definition pt_is_data :: "packet_type \<Rightarrow> bool" where
  "pt_is_data t \<longleftrightarrow> pt_flags t AND (PT_CONTROL OR PT_DEFINED) = PT_DEFINED"

definition pt_is_soft_reset :: "packet_type \<Rightarrow> bool" where
  "pt_is_soft_reset t \<longleftrightarrow>
     pt_flags t AND (PT_CONTROL OR PT_DEFINED OR PT_SECONDARY OR PT_SOFT_RESET)
       = PT_CONTROL OR PT_DEFINED OR PT_SECONDARY OR PT_SOFT_RESET"

text \<open>The part of the \<open>ProtoContext\<close> the classification looks at.\<close>

record key_ids =
  ki_server :: bool
  ki_primary :: "u32 option"
  ki_secondary :: "u32 option"
  ki_upcoming :: u32

text \<open>
  The opcode switch: \<open>None\<close> for the early returns, else the flags, the opcode and the peer ID so far.
  The peer ID is read only when four bytes are there.
\<close>

definition pt_examine_opcode :: "bool \<Rightarrow> byte list \<Rightarrow> u32 \<Rightarrow> packet_type option" where
  "pt_examine_opcode server bs opc =
     (if opc \<in> {CONTROL_SOFT_RESET_V1, CONTROL_V1, ACK_V1}
      then Some \<lparr>pt_flags = PT_CONTROL, pt_opcode = opc, pt_peer_id = - 1\<rparr>
      else if opc = DATA_V2
      then if length bs < 4 then None
           else let opi = ntohl (le_word (take 4 bs)) AND 0x00FFFFFF
                in Some \<lparr>pt_flags = 0, pt_opcode = opc,
                         pt_peer_id = (if opi \<noteq> OP_PEER_ID_UNDEF then uint opi else - 1)\<rparr>
      else if opc = DATA_V1 then Some \<lparr>pt_flags = 0, pt_opcode = opc, pt_peer_id = - 1\<rparr>
      else if opc \<in> {CONTROL_HARD_RESET_CLIENT_V2, CONTROL_HARD_RESET_CLIENT_V3}
      then if \<not> server then None else Some \<lparr>pt_flags = PT_CONTROL, pt_opcode = opc, pt_peer_id = - 1\<rparr>
      else if opc \<in> {CONTROL_HARD_RESET_SERVER_V2, CONTROL_WKC_V1}
      then if server then None else Some \<lparr>pt_flags = PT_CONTROL, pt_opcode = opc, pt_peer_id = - 1\<rparr>
      else None)"

definition pt_examine_key_id :: "key_ids \<Rightarrow> u32 \<Rightarrow> packet_type \<Rightarrow> packet_type" where
  "pt_examine_key_id ids kid t =
     (if ki_primary ids = Some kid then t\<lparr>pt_flags := pt_flags t OR PT_DEFINED\<rparr>
      else if ki_secondary ids = Some kid then t\<lparr>pt_flags := pt_flags t OR (PT_DEFINED OR PT_SECONDARY)\<rparr>
      else if pt_opcode t = CONTROL_SOFT_RESET_V1 \<and> kid = ki_upcoming ids
      then t\<lparr>pt_flags := pt_flags t OR (PT_DEFINED OR PT_SECONDARY OR PT_SOFT_RESET)\<rparr>
      else t)"

definition packet_type_of :: "key_ids \<Rightarrow> byte list \<Rightarrow> packet_type" where
  "packet_type_of ids bs =
     (let undef = \<lparr>pt_flags = 0, pt_opcode = INVALID_OPCODE, pt_peer_id = - 1\<rparr>
      in case bs of
           [] \<Rightarrow> undef
         | b # _ \<Rightarrow>
             let op = ucast b
             in case pt_examine_opcode (ki_server ids) bs (opcode_extract op) of
                  None \<Rightarrow> undef
                | Some t \<Rightarrow> pt_examine_key_id ids (key_id_extract op) t)"

section \<open>\<open>PsidCookieHelper\<close>\<close>

definition is_clients_initial_reset :: "u32 \<Rightarrow> bool" where
  "is_clients_initial_reset op_field \<longleftrightarrow>
     key_id_extract op_field = 0 \<and> opcode_extract op_field = CONTROL_HARD_RESET_CLIENT_V2"

definition is_clients_server_reset_ack :: "u32 \<Rightarrow> bool" where
  "is_clients_server_reset_ack op_field \<longleftrightarrow>
     key_id_extract op_field = 0 \<and> (opcode_extract op_field = CONTROL_V1 \<or> opcode_extract op_field = ACK_V1)"

definition get_server_hard_reset_opfield :: byte where
  "get_server_hard_reset_opfield = op_compose CONTROL_HARD_RESET_SERVER_V2 0"

section \<open>Keepalive message\<close>

definition keepalive_message :: "byte list" where
  "keepalive_message = [0x2a, 0x18, 0x7b, 0xf3, 0x64, 0x1e, 0xb4, 0xcb, 0x07, 0xed, 0x2d, 0x0a, 0x98, 0x1f, 0xc7, 0x48]"

definition explicit_exit_notify_message :: "byte list" where
  "explicit_exit_notify_message =
     [0x28, 0x7f, 0x34, 0x6b, 0xd4, 0xef, 0x7a, 0x81, 0x2d, 0x56, 0xb8, 0xd3, 0xaf, 0xc5, 0x45, 0x9c, 6]"

definition is_keepalive :: "buffer \<Rightarrow> bool" where
  "is_keepalive b \<longleftrightarrow>
     16 \<le> b_size b \<and> buf_at b 0 = Inr 0x2a \<and> take 16 (content b) = keepalive_message"

section \<open>Headers composed and taken apart\<close>

text \<open>An opcode fits five bits and a key ID three.\<close>

lemma bit_bound: "unat (x :: 'a::len word) < 2 ^ k \<Longrightarrow> bit x n \<Longrightarrow> n < k"
proof -
  assume x: "unat x < 2 ^ k" and b: "bit x n"
  have "bit (unat x) n" using b by (simp add: bit_unsigned_iff)
  then have "2 ^ n \<le> unat x" by (metis bit_imp_possible_bit bit_iff_odd div_less even_zero linorder_not_le)
  with x have "(2 :: nat) ^ n < 2 ^ k" by linarith
  then show "n < k" by simp
qed

lemma ucast_op_compose:
  assumes "unat opcode < 32" and "unat kid < 8"
  shows "ucast (op_compose opcode kid) = (push_bit 3 opcode OR kid :: u32)"
proof (rule bit_word_eqI)
  fix n assume "n < LENGTH(32)"
  have "n < 8" if "bit (push_bit 3 opcode OR kid) n"
    using that assms bit_bound [of opcode 5] bit_bound [of kid 3 n] by (force simp: bit_simps)
  then show "bit (ucast (op_compose opcode kid) :: u32) n \<longleftrightarrow> bit (push_bit 3 opcode OR kid) n"
    unfolding op_compose_def bit_ucast_iff by (auto dest: bit_imp_le_length)
qed

lemma opcode_extract_compose [simp]:
  assumes "unat opcode < 32" and "unat kid < 8"
  shows "opcode_extract (ucast (op_compose opcode kid)) = opcode"
  unfolding opcode_extract_def ucast_op_compose [OF assms]
  using assms bit_bound [of kid 3] bit_bound [of opcode 5]
  by (intro bit_word_eqI) (force simp: bit_simps)

lemma mask_words: "(7 :: u32) = mask 3" "(0x00FFFFFF :: u32) = mask 24"
  by (simp_all add: mask_eq_exp_minus_1)

lemma key_id_extract_compose [simp]:
  assumes "unat opcode < 32" and "unat kid < 8"
  shows "key_id_extract (ucast (op_compose opcode kid)) = kid"
  unfolding key_id_extract_def ucast_op_compose [OF assms] mask_words
  using assms bit_bound [of kid 3] by (intro bit_word_eqI) (force simp: bit_simps)

lemma op32_bytes:
  "hd (be_bytes 4 (op32_compose opcode kid p)) = op_compose opcode kid"
  "op32_compose opcode kid p AND 0x00FFFFFF = p AND 0x00FFFFFF"
proof -
  have "ucast (drop_bit 24 (op32_compose opcode kid p)) = op_compose opcode kid"
    unfolding op32_compose_def mask_words by (rule bit_word_eqI) (auto simp: bit_simps)
  then show "hd (be_bytes 4 (op32_compose opcode kid p)) = op_compose opcode kid"
    by (simp add: be_bytes_def le_bytes_def upt_rec)
  show "op32_compose opcode kid p AND 0x00FFFFFF = p AND 0x00FFFFFF"
    unfolding op32_compose_def mask_words by (rule bit_word_eqI) (auto simp: bit_simps)
qed

lemma op_const_bounds [simp]:
  "unat CONTROL_SOFT_RESET_V1 < 32" "unat CONTROL_V1 < 32" "unat ACK_V1 < 32" "unat DATA_V1 < 32" "unat DATA_V2 < 32"
  "unat CONTROL_HARD_RESET_CLIENT_V2 < 32" "unat CONTROL_HARD_RESET_SERVER_V2 < 32" "unat CONTROL_HARD_RESET_CLIENT_V3 < 32"
  "unat CONTROL_WKC_V1 < 32"
  by (simp_all add: opcode_defs)

lemma be_bytes4_Cons: "\<exists>b1 b2 b3. be_bytes 4 w = hd (be_bytes 4 w) # [b1, b2, b3]"
  by (simp add: be_bytes_def le_bytes_def upt_rec)

text \<open>A received packet that starts with a composed header is classified by that header.\<close>

lemma packet_type_data_v2:
  assumes "unat kid < 8"
  shows "packet_type_of ids (be_bytes 4 (op32_compose DATA_V2 kid p) @ bs) =
    pt_examine_key_id ids kid \<lparr>pt_flags = 0, pt_opcode = DATA_V2,
      pt_peer_id = (if p AND 0x00FFFFFF \<noteq> OP_PEER_ID_UNDEF then uint (p AND 0x00FFFFFF) else - 1)\<rparr>"
proof -
  define w where "w = op32_compose DATA_V2 kid p"
  obtain b1 b2 b3 where b: "be_bytes 4 w = op_compose DATA_V2 kid # [b1, b2, b3]"
    using be_bytes4_Cons [of w] op32_bytes(1) [of DATA_V2 kid p] unfolding w_def by metis
  have n: "ntohl (le_word (op_compose DATA_V2 kid # [b1, b2, b3])) = w"
    unfolding b [symmetric] by (simp add: be_word_be_bytes)
  show ?thesis
    unfolding w_def [symmetric] b using n assms op32_bytes(2) [of DATA_V2 kid p]
    by (simp add: packet_type_of_def pt_examine_opcode_def opcode_defs w_def del: le_word.simps)
qed

lemma packet_type_control:
  assumes "unat kid < 8" and "opc \<in> {CONTROL_SOFT_RESET_V1, CONTROL_V1, ACK_V1}"
  shows "packet_type_of ids (op_compose opc kid # bs) =
    pt_examine_key_id ids kid \<lparr>pt_flags = PT_CONTROL, pt_opcode = opc, pt_peer_id = - 1\<rparr>"
proof -
  have "unat opc < 32" using assms(2) by auto
  then show ?thesis using assms by (simp add: packet_type_of_def pt_examine_opcode_def)
qed

end
