(* ===== verification/Data_Limit.thy ===== *)
theory Data_Limit
  imports OV_Prelude
begin

text \<open>
  The per-key data limit of ssl/datalimit.hpp: one component per direction counts bytes and moves from
  \<open>None\<close> over \<open>Green\<close> to \<open>Red\<close>; \<open>elgible\<close> filters the transitions so that a renegotiation is asked
  for (\<open>Red\<close>) only when the peer is known to transmit on the key. Shown: what is reported over a whole
  history of calls, and that the filter neither loses nor repeats the renegotiation request.
\<close>

datatype dl_mode = Encrypt | Decrypt
datatype dl_state = DL_None | DL_Green | DL_Red

section \<open>The order of the states\<close>

text \<open>The states are compared as the integers of the enumeration.\<close>

fun dl_int :: "dl_state \<Rightarrow> nat" where
  "dl_int DL_None = 0"
| "dl_int DL_Green = 1"
| "dl_int DL_Red = 2"

lemma dl_int_inject: "dl_int a = dl_int b \<longleftrightarrow> a = b"
  by (cases a; cases b) simp_all

instantiation dl_state :: linorder
begin

definition less_eq_dl_state :: "dl_state \<Rightarrow> dl_state \<Rightarrow> bool" where
  "a \<le> b \<longleftrightarrow> dl_int a \<le> dl_int b"

definition less_dl_state :: "dl_state \<Rightarrow> dl_state \<Rightarrow> bool" where
  "a < b \<longleftrightarrow> dl_int a < dl_int b"

instance
  by standard (auto simp: less_eq_dl_state_def less_dl_state_def dl_int_inject)

end

lemma dl_order [simp]:
  "DL_None < s \<longleftrightarrow> s \<noteq> DL_None" "DL_None \<le> s" "DL_Red < s \<longleftrightarrow> False" "s < DL_None \<longleftrightarrow> False"
  "DL_Green < s \<longleftrightarrow> s = DL_Red" "DL_Green \<le> s \<longleftrightarrow> s \<noteq> DL_None"
  by (cases s; simp add: less_dl_state_def less_eq_dl_state_def)+

section \<open>One direction\<close>

record dl_component =
  red_limit :: u32
  dl_bytes :: u32
  dl_state_of :: dl_state

definition dlc_init :: "u32 \<Rightarrow> dl_component" where
  "dlc_init limit = \<lparr>red_limit = limit, dl_bytes = 0, dl_state_of = DL_None\<rparr>"

definition dlc_transition :: "dl_component \<Rightarrow> dl_state \<Rightarrow> dl_state" where
  "dlc_transition c s =
     (case s of
        DL_None \<Rightarrow> if dl_bytes c \<noteq> 0 then DL_Green else DL_None
      | DL_Green \<Rightarrow> if red_limit c \<noteq> 0 \<and> dl_bytes c \<ge> red_limit c then DL_Red else DL_None
      | DL_Red \<Rightarrow> DL_None)"

definition dlc_update_state :: "dl_state \<Rightarrow> dl_component \<Rightarrow> dl_state \<times> dl_component" where
  "dlc_update_state newstate c =
     (if newstate > dl_state_of c then (newstate, c\<lparr>dl_state_of := newstate\<rparr>) else (DL_None, c))"

definition dlc_add :: "u32 \<Rightarrow> dl_component \<Rightarrow> dl_state \<times> dl_component" where
  "dlc_add n c =
     (let c' = c\<lparr>dl_bytes := dl_bytes c + n\<rparr> in dlc_update_state (dlc_transition c' (dl_state_of c')) c')"

section \<open>Both directions\<close>

record data_limit =
  dl_encrypt :: dl_component
  dl_decrypt :: dl_component
  dl_flags :: u32

definition dl_init :: "u32 \<Rightarrow> u32 \<Rightarrow> data_limit" where
  "dl_init encrypt_red_limit decrypt_red_limit =
     \<lparr>dl_encrypt = dlc_init encrypt_red_limit, dl_decrypt = dlc_init decrypt_red_limit, dl_flags = 0\<rparr>"

definition EG :: u32 where "EG = 1"
definition ER :: u32 where "ER = 2"
definition DG :: u32 where "DG = 4"
definition DR :: u32 where "DR = 8"

definition dl_mode_int :: "dl_mode \<Rightarrow> nat" where
  "dl_mode_int m = (case m of Encrypt \<Rightarrow> 0 | Decrypt \<Rightarrow> 1)"

definition dl_elgible :: "dl_mode \<Rightarrow> dl_state \<Rightarrow> data_limit \<Rightarrow> dl_state \<times> data_limit" where
  "dl_elgible mode state d =
     (if state > DL_None
      then let msk = push_bit ((dl_int state - 1) + 2 * dl_mode_int mode) (1 :: u32)
           in if dl_flags d AND msk = 0
              then let d' = d\<lparr>dl_flags := dl_flags d OR msk\<rparr>
                   in if msk AND (ER OR DG) \<noteq> 0 \<and> dl_flags d' AND (ER OR DG) = ER OR DG then (DL_Red, d')
                      else if msk AND ER \<noteq> 0 then (DL_None, d')
                      else (state, d')
              else (DL_None, d)
      else (DL_None, d))"

definition dl_component_of :: "dl_mode \<Rightarrow> data_limit \<Rightarrow> dl_component" where
  "dl_component_of m d = (case m of Encrypt \<Rightarrow> dl_encrypt d | Decrypt \<Rightarrow> dl_decrypt d)"

definition dl_set_component :: "dl_mode \<Rightarrow> dl_component \<Rightarrow> data_limit \<Rightarrow> data_limit" where
  "dl_set_component m c d = (case m of Encrypt \<Rightarrow> d\<lparr>dl_encrypt := c\<rparr> | Decrypt \<Rightarrow> d\<lparr>dl_decrypt := c\<rparr>)"

definition dl_update_state :: "dl_mode \<Rightarrow> dl_state \<Rightarrow> data_limit \<Rightarrow> dl_state \<times> data_limit" where
  "dl_update_state mode newstate d =
     (let (s, c) = dlc_update_state newstate (dl_component_of mode d)
      in dl_elgible mode s (dl_set_component mode c d))"

definition dl_add :: "dl_mode \<Rightarrow> u32 \<Rightarrow> data_limit \<Rightarrow> dl_state \<times> data_limit" where
  "dl_add mode n d =
     (let (s, c) = dlc_add n (dl_component_of mode d) in dl_elgible mode s (dl_set_component mode c d))"

definition dl_is_decrypt_green :: "data_limit \<Rightarrow> bool" where
  "dl_is_decrypt_green d \<longleftrightarrow> dl_state_of (dl_decrypt d) \<ge> DL_Green"

section \<open>Histories of calls\<close>

datatype dl_call = DL_Add dl_mode u32 | DL_Update dl_mode dl_state

fun dl_call_mode :: "dl_call \<Rightarrow> dl_mode" where
  "dl_call_mode (DL_Add m n) = m"
| "dl_call_mode (DL_Update m s) = m"

fun dl_do :: "dl_call \<Rightarrow> data_limit \<Rightarrow> dl_state \<times> data_limit" where
  "dl_do (DL_Add m n) d = dl_add m n d"
| "dl_do (DL_Update m s) d = dl_update_state m s d"

text \<open>The calls with their reports, oldest first, and the state after them.\<close>

fun dl_run :: "dl_call list \<Rightarrow> data_limit \<Rightarrow> (dl_mode \<times> dl_state) list \<times> data_limit" where
  "dl_run [] d = ([], d)"
| "dl_run (k # ks) d =
     (let (s, d1) = dl_do k d; (rs, d2) = dl_run ks d1 in ((dl_call_mode k, s) # rs, d2))"


section \<open>What the flags record\<close>

definition dl_has :: "u32 \<Rightarrow> data_limit \<Rightarrow> bool" where
  "dl_has b d \<longleftrightarrow> dl_flags d AND b \<noteq> 0"

abbreviation "enc_state d \<equiv> dl_state_of (dl_encrypt d)"
abbreviation "dec_state d \<equiv> dl_state_of (dl_decrypt d)"

definition dl_inv :: "data_limit \<Rightarrow> bool" where
  "dl_inv d \<longleftrightarrow>
     (dl_has ER d \<longleftrightarrow> enc_state d = DL_Red) \<and> (dl_has DR d \<longleftrightarrow> dec_state d = DL_Red)
     \<and> (dl_has EG d \<longrightarrow> enc_state d \<noteq> DL_None) \<and> (dl_has DG d \<longrightarrow> dec_state d \<noteq> DL_None)
     \<and> (enc_state d = DL_Green \<longrightarrow> dl_has EG d) \<and> (dec_state d = DL_Green \<longrightarrow> dl_has DG d)"

text \<open>The renegotiation requests a state accounts for.\<close>

definition dl_requests :: "data_limit \<Rightarrow> nat" where
  "dl_requests d =
     (if enc_state d = DL_Red \<and> dl_has DG d then 1 else 0) + (if dec_state d = DL_Red then 1 else 0)"

definition dl_goto :: "dl_mode \<Rightarrow> dl_state \<Rightarrow> data_limit \<Rightarrow> data_limit \<Rightarrow> bool" where
  "dl_goto m s d d' \<longleftrightarrow> dl_flags d' = dl_flags d
     \<and> (case m of Encrypt \<Rightarrow> enc_state d' = s \<and> dec_state d' = dec_state d
                | Decrypt \<Rightarrow> dec_state d' = s \<and> enc_state d' = enc_state d)"

lemmas flag_defs = EG_def ER_def DG_def DR_def

lemma bits4 [simp]:
  "(x OR 1 :: u32) AND 2 = x AND 2" "(x OR 1 :: u32) AND 4 = x AND 4" "(x OR 1 :: u32) AND 8 = x AND 8"
  "(x OR 2 :: u32) AND 1 = x AND 1" "(x OR 2 :: u32) AND 4 = x AND 4" "(x OR 2 :: u32) AND 8 = x AND 8"
  "(x OR 4 :: u32) AND 1 = x AND 1" "(x OR 4 :: u32) AND 2 = x AND 2" "(x OR 4 :: u32) AND 8 = x AND 8"
  "(x OR 8 :: u32) AND 1 = x AND 1" "(x OR 8 :: u32) AND 2 = x AND 2" "(x OR 8 :: u32) AND 4 = x AND 4"
  "(x OR 1 :: u32) AND 1 = 1" "(x OR 2 :: u32) AND 2 = 2" "(x OR 4 :: u32) AND 4 = 4" "(x OR 8 :: u32) AND 8 = 8"
  by (simp_all add: word_ao_dist bit.conj_disj_distrib2)

lemma and_exp_cases: "(x :: 'a::len word) AND 2 ^ n = (if bit x n then 2 ^ n else 0)"
  by (rule bit_word_eqI) (auto simp: bit_simps)

lemma bits_6: "(x :: u32) AND 6 = 6 \<longleftrightarrow> x AND 2 \<noteq> 0 \<and> x AND 4 \<noteq> 0"
proof -
  have e: "x AND 6 = (x AND 2) OR (x AND 4)"
    by (simp flip: bit.conj_disj_distrib)
  have "x AND 2 = 2 ^ 1 \<or> x AND 2 = 0" "x AND 4 = 2 ^ 2 \<or> x AND 4 = 0"
    using and_exp_cases [of x 1] and_exp_cases [of x 2] by (simp_all split: if_splits)
  then show ?thesis unfolding e by auto
qed

section \<open>One call\<close>

definition dl_mark :: "u32 \<Rightarrow> data_limit \<Rightarrow> data_limit" where
  "dl_mark b d = d\<lparr>dl_flags := dl_flags d OR b\<rparr>"

lemma dl_has_mark [simp]:
  "dl_has EG (dl_mark EG d)" "dl_has ER (dl_mark EG d) = dl_has ER d" "dl_has DG (dl_mark EG d) = dl_has DG d" "dl_has DR (dl_mark EG d) = dl_has DR d"
  "dl_has EG (dl_mark ER d) = dl_has EG d" "dl_has ER (dl_mark ER d)" "dl_has DG (dl_mark ER d) = dl_has DG d" "dl_has DR (dl_mark ER d) = dl_has DR d"
  "dl_has EG (dl_mark DG d) = dl_has EG d" "dl_has ER (dl_mark DG d) = dl_has ER d" "dl_has DG (dl_mark DG d)" "dl_has DR (dl_mark DG d) = dl_has DR d"
  "dl_has EG (dl_mark DR d) = dl_has EG d" "dl_has ER (dl_mark DR d) = dl_has ER d" "dl_has DG (dl_mark DR d) = dl_has DG d" "dl_has DR (dl_mark DR d)"
  "dl_encrypt (dl_mark b d) = dl_encrypt d" "dl_decrypt (dl_mark b d) = dl_decrypt d"
  by (simp_all add: dl_has_def dl_mark_def flag_defs)

lemma dl_elgible_eqs:
  "dl_elgible m DL_None d = (DL_None, d)"
  "dl_elgible Encrypt DL_Green d = (if dl_has EG d then (DL_None, d) else (DL_Green, dl_mark EG d))"
  "dl_elgible Encrypt DL_Red d =
     (if dl_has ER d then (DL_None, d) else (if dl_has DG d then DL_Red else DL_None, dl_mark ER d))"
  "dl_elgible Decrypt DL_Green d =
     (if dl_has DG d then (DL_None, d) else (if dl_has ER d then DL_Red else DL_Green, dl_mark DG d))"
  "dl_elgible Decrypt DL_Red d = (if dl_has DR d then (DL_None, d) else (DL_Red, dl_mark DR d))"
  by (simp_all add: dl_elgible_def dl_has_def dl_mark_def flag_defs dl_mode_int_def Let_def bits_6 push_bit_eq_mult)

lemma dl_has_goto: "dl_goto m s d d' \<Longrightarrow> dl_has b d' = dl_has b d"
  by (simp add: dl_goto_def dl_has_def)

lemma dl_elgible_step:
  assumes i: "dl_inv d" and g: "dl_goto m s d d'" and s: "s > dl_state_of (dl_component_of m d)"
    and r: "dl_elgible m s d' = (r, d'')"
  shows "dl_inv d'' \<and> dl_requests d'' = dl_requests d + (if r = DL_Red then 1 else 0)
    \<and> (dl_has DG d'' \<longleftrightarrow> dl_has DG d \<or> (m = Decrypt \<and> s = DL_Green))"
proof (cases m)
  case Encrypt
  have e: "dec_state d' = dec_state d" "enc_state d' = s" using g by (simp_all add: Encrypt dl_goto_def)
  show ?thesis
    using i s r unfolding Encrypt
    by (cases s; cases "enc_state d"; cases "dec_state d")
      (auto simp: dl_inv_def dl_has_goto [OF g] dl_elgible_eqs dl_requests_def dl_component_of_def e split: if_splits)
next
  case Decrypt
  have e: "dec_state d' = s" "enc_state d' = enc_state d" using g by (simp_all add: Decrypt dl_goto_def)
  show ?thesis
    using i s r unfolding Decrypt
    by (cases s; cases "enc_state d"; cases "dec_state d")
      (auto simp: dl_inv_def dl_has_goto [OF g] dl_elgible_eqs dl_requests_def dl_component_of_def e split: if_splits)
qed

text \<open>A call moves its component up, or changes no state and reports nothing.\<close>

lemma dl_do_cases:
  assumes "dl_do k d = (r, d'')"
  obtains (up) s d' where "dl_goto (dl_call_mode k) s d d'" "s > dl_state_of (dl_component_of (dl_call_mode k) d)"
      "dl_elgible (dl_call_mode k) s d' = (r, d'')"
      "\<And>m s'. k = DL_Update m s' \<Longrightarrow> s = s'"
      "\<And>m n. k = DL_Add m n \<Longrightarrow> s = DL_Green \<or> dl_state_of (dl_component_of m d) = DL_Green"
  | (stay) "r = DL_None" "dl_flags d'' = dl_flags d" "enc_state d'' = enc_state d" "dec_state d'' = dec_state d"
proof (cases k)
  case (DL_Add m n)
  show ?thesis
  proof (cases "fst (dlc_add n (dl_component_of m d)) = DL_None")
    case True
    then show ?thesis using assms DL_Add
      by (intro stay) (cases m; auto simp: dl_add_def dlc_add_def dlc_update_state_def dl_elgible_eqs dl_component_of_def
        dl_set_component_def Let_def split: if_splits prod.splits)+
  next
    case False
    show ?thesis
      by (rule up [of "fst (dlc_add n (dl_component_of m d))" "dl_set_component m (snd (dlc_add n (dl_component_of m d))) d"])
        (use False assms DL_Add in \<open>cases m; auto simp: dl_add_def dlc_add_def dlc_update_state_def dlc_transition_def dl_component_of_def
        dl_set_component_def dl_goto_def Let_def split: if_splits prod.splits dl_state.splits\<close>)+
  qed
next
  case (DL_Update m s)
  show ?thesis
  proof (cases "s > dl_state_of (dl_component_of m d)")
    case False
    then show ?thesis using assms DL_Update
      by (intro stay) (cases m; auto simp: dl_update_state_def dlc_update_state_def dl_elgible_eqs dl_component_of_def
        dl_set_component_def)+
  next
    case True
    show ?thesis
      by (rule up [of s "dl_set_component m ((dl_component_of m d)\<lparr>dl_state_of := s\<rparr>) d"])
        (use True assms DL_Update in \<open>cases m; auto simp: dl_update_state_def dlc_update_state_def dl_component_of_def
        dl_set_component_def dl_goto_def\<close>)+
  qed
qed

lemma dl_do_step:
  assumes i: "dl_inv d" and r: "dl_do k d = (r, d')"
  shows "dl_inv d' \<and> dl_requests d' = dl_requests d + (if r = DL_Red then 1 else 0)
    \<and> (k \<noteq> DL_Update Decrypt DL_Red \<longrightarrow> (dl_has DG d \<longleftrightarrow> dec_state d \<noteq> DL_None) \<longrightarrow>
         (dl_has DG d' \<longleftrightarrow> dec_state d' \<noteq> DL_None))"
  using r
proof (cases rule: dl_do_cases)
  case (up s d1)
  note e = dl_elgible_step [OF i up(1-3)]
  have "dl_has DG d' \<longleftrightarrow> dec_state d' \<noteq> DL_None"
    if "k \<noteq> DL_Update Decrypt DL_Red" "dl_has DG d \<longleftrightarrow> dec_state d \<noteq> DL_None"
  proof -
    have d: "dec_state d' = dec_state d1" using up(3)
      by (cases "dl_call_mode k"; cases s) (auto simp: dl_elgible_eqs split: if_splits)
    show ?thesis using e d that up(1,2,4,5)
      by (cases k; cases "dl_call_mode k"; cases s) (auto simp: dl_goto_def dl_component_of_def)
  qed
  then show ?thesis using e by blast
next
  case stay
  then show ?thesis using i by (simp add: dl_inv_def dl_requests_def dl_has_def)
qed

section \<open>Whole histories\<close>

lemma dl_run_requests:
  "dl_inv d \<Longrightarrow> dl_run ks d = (rs, d') \<Longrightarrow>
   dl_inv d' \<and> dl_requests d' = dl_requests d + length (filter (\<lambda>(m, s). s = DL_Red) rs)
   \<and> (DL_Update Decrypt DL_Red \<notin> set ks \<longrightarrow> (dl_has DG d \<longleftrightarrow> dec_state d \<noteq> DL_None) \<longrightarrow>
         (dl_has DG d' \<longleftrightarrow> dec_state d' \<noteq> DL_None))"
proof (induction ks arbitrary: d rs)
  case (Cons k ks)
  obtain s d1 where 1: "dl_do k d = (s, d1)" by fastforce
  obtain rs1 where 2: "dl_run ks d1 = (rs1, d')" "rs = (dl_call_mode k, s) # rs1"
    using Cons.prems(2) 1 by (auto split: prod.splits)
  show ?case using dl_do_step [OF Cons.prems(1) 1] Cons.IH [OF _ 2(1)] by (auto simp: 2(2))
qed auto



end
