(* ===== verification/IP_Checksum.thy ===== *)
theory IP_Checksum
  imports OV_Prelude
begin

text \<open>
  The Internet checksum of ip/csum.hpp and \<open>tcp_adjust_checksum\<close> of ip/tcp.hpp on a little-endian host.
  The routine sums 32-bit words from whatever address the data has; the reference is the sum of the
  bytes weighted 1 and 256 in turn, up to the equivalence of one's complement sums: equal modulo 65535,
  and zero together. All results at their width.
\<close>

section \<open>The code\<close>

definition csum_fold :: "u32 \<Rightarrow> u16" where
  "csum_fold s =
     (let s1 = drop_bit 16 s + (s AND 0xffff); s2 = s1 + drop_bit 16 s1
      in ucast (s2 AND 0x0000FFFF))"

definition csum_cfold :: "u32 \<Rightarrow> u16" where "csum_cfold s = NOT (csum_fold s)"
definition csum_unfold :: "u16 \<Rightarrow> u32" where "csum_unfold s = ucast s"
definition csum_cunfold :: "u16 \<Rightarrow> u32" where "csum_cunfold s = NOT (csum_unfold s)"

text \<open>The words are read in host order; the loop body runs once per complete word.\<close>

fun csum_words :: "byte list \<Rightarrow> u32 \<Rightarrow> u32 \<Rightarrow> u32 \<times> u32" where
  "csum_words (b0 # b1 # b2 # b3 # bs) result carry =
     (let w = le_word [b0, b1, b2, b3];
          r1 = result + carry;
          r2 = r1 + w
      in csum_words bs r2 (if w > r2 then 1 else 0))"
| "csum_words _ result carry = (result, carry)"

definition le16 :: "byte list \<Rightarrow> u32" where "le16 bs = le_word (take 2 bs)"

text \<open>The words and a last half word, from an address that is a multiple of four.\<close>

definition csum_aligned :: "byte list \<Rightarrow> u32 \<Rightarrow> u32" where
  "csum_aligned bs result =
     (let result2 = (if length bs \<ge> 4
                     then let (r, carry) = csum_words bs result 0; r' = r + carry
                          in (r' AND 0xffff) + drop_bit 16 r'
                     else result)
      in if odd (length bs div 2) then result2 + le16 (drop (length bs div 4 * 4) bs) else result2)"

definition csum_compute :: "nat \<Rightarrow> byte list \<Rightarrow> u32" where
  "csum_compute addr bs =
     (if bs = [] then 0
      else let isodd = odd addr;
               result0 = (if isodd then push_bit 8 (ucast (hd bs)) else 0);
               bs1 = (if isodd then tl bs else bs);
               addr1 = (if isodd then addr + 1 else addr);
               result3 =
                 (if length bs1 \<ge> 2
                  then if odd (addr1 div 2) then csum_aligned (drop 2 bs1) (result0 + le16 bs1)
                       else csum_aligned bs1 result0
                  else result0);
               result4 = (if odd (length bs1) then result3 + ucast (last bs1) else result3);
               result5 = (ucast (csum_fold result4) :: u32)
           in if isodd then (drop_bit 8 result5 AND 0xff) OR push_bit 8 (result5 AND 0xff) else result5)"

definition csum_partial :: "nat \<Rightarrow> byte list \<Rightarrow> u32 \<Rightarrow> u32" where
  "csum_partial addr bs s =
     (let result = csum_compute addr bs + s in if s > result then result + 1 else result)"

text \<open>The differences are computed over an array on the stack, at some address.\<close>

definition csum_diff16 :: "nat \<Rightarrow> u32 list \<Rightarrow> u32 list \<Rightarrow> u32 \<Rightarrow> u32" where
  "csum_diff16 addr old new oldsum =
     csum_partial addr (concat (map (\<lambda>w. le_bytes 4 (NOT w)) (take 4 old) @ map (le_bytes 4) (take 4 new))) oldsum"

definition csum_diff4 :: "nat \<Rightarrow> u32 \<Rightarrow> u32 \<Rightarrow> u32 \<Rightarrow> u32" where
  "csum_diff4 addr old new oldsum = csum_partial addr (le_bytes 4 (NOT old) @ le_bytes 4 new) oldsum"

definition csum_diff2 :: "nat \<Rightarrow> u16 \<Rightarrow> u16 \<Rightarrow> u32 \<Rightarrow> u32" where
  "csum_diff2 addr old new oldsum = csum_partial addr (le_bytes 2 (NOT old) @ le_bytes 2 new) oldsum"

definition csum_checksum :: "nat \<Rightarrow> byte list \<Rightarrow> u16" where
  "csum_checksum addr bs = csum_cfold (csum_compute addr bs)"

text \<open>\<open>int\<close> arithmetic; the right shift of a nonnegative value is a division.\<close>

definition tcp_adjust_checksum :: "int \<Rightarrow> u16 \<Rightarrow> u16" where
  "tcp_adjust_checksum acc cksum =
     (let a = acc + uint cksum
      in if a < 0
         then let a1 = - a; a2 = a1 div 65536 + a1 mod 65536; a3 = a2 + a2 div 65536 in NOT (word_of_int a3)
         else let a2 = a div 65536 + a mod 65536; a3 = a2 + a2 div 65536 in word_of_int a3)"

section \<open>One's complement sums\<close>

definition oc_eq :: "nat \<Rightarrow> nat \<Rightarrow> bool" where
  "oc_eq a b \<longleftrightarrow> a mod 65535 = b mod 65535 \<and> (a = 0 \<longleftrightarrow> b = 0)"

fun byte_sum :: "byte list \<Rightarrow> nat" where
  "byte_sum [] = 0"
| "byte_sum [b] = unat b"
| "byte_sum (b0 # b1 # bs) = unat b0 + 256 * unat b1 + byte_sum bs"

lemma oc_refl [simp]: "oc_eq a a"
  by (simp add: oc_eq_def)

lemma oc_sym: "oc_eq a b \<Longrightarrow> oc_eq b a"
  by (simp add: oc_eq_def)

lemma oc_trans [trans]: "oc_eq a b \<Longrightarrow> oc_eq b c \<Longrightarrow> oc_eq a c"
  by (simp add: oc_eq_def)

lemma oc_add: "oc_eq a b \<Longrightarrow> oc_eq c d \<Longrightarrow> oc_eq (a + c) (b + d)"
  by (auto simp: oc_eq_def intro: mod_add_cong)

lemma oc_mult: "oc_eq a b \<Longrightarrow> oc_eq (256 * a) (256 * b)"
  by (auto simp: oc_eq_def intro: mod_mult_cong)

lemma oc_unique: "oc_eq a b \<Longrightarrow> a < 65536 \<Longrightarrow> b < 65536 \<Longrightarrow> a = b"
proof -
  assume e: "oc_eq a b" and l: "a < 65536" "b < 65536"
  have "a = 65535 \<or> a < 65535" "b = 65535 \<or> b < 65535" using l by linarith+
  then show "a = b" using e by (auto simp: oc_eq_def)
qed

lemma oc_shift: "oc_eq (65536 * a + b) (a + b)" "oc_eq (4294967296 * a + b) (a + b)"
proof -
  have "65536 * a + b = 65535 * a + (a + b)" "4294967296 * a + b = 65535 * (65537 * a) + (a + b)" by simp_all
  then show "oc_eq (65536 * a + b) (a + b)" "oc_eq (4294967296 * a + b) (a + b)"
    unfolding oc_eq_def by (metis mod_mult_self4 add_is_0 mult_is_0 zero_neq_numeral, metis mod_mult_self4 add_is_0 mult_is_0 zero_neq_numeral)
qed

section \<open>Words as numbers\<close>

lemma byte_lt: "unat (b :: byte) < 256"
  using unsigned_less [of b, where 'a = nat] by simp

lemma le_word_Cons:
  assumes "length bs < 4"
  shows "unat (le_word (b # bs) :: u32) = unat b + 256 * unat (le_word bs :: u32)"
    and "unat (le_word bs :: u32) < 256 ^ length bs"
proof -
  show lt: "unat (le_word bs :: u32) < 256 ^ length bs"
    using assms
  proof (induction bs)
    case Nil
    then show ?case by simp
  next
    case (Cons b bs)
    have e: "le_word (b # bs) = (ucast b + push_bit 8 (le_word bs) :: u32)"
      by (simp, rule disjunctive_add [symmetric]) (auto simp: bit_simps dest: bit_imp_le_length)
    have p: "(256 :: nat) ^ length bs \<le> 256 ^ 2" using Cons.prems by (intro power_increasing) simp_all
    have lt: "unat (le_word bs :: u32) < 256 ^ length bs" using Cons by simp
    then have "unat (push_bit 8 (le_word bs) :: u32) = unat (le_word bs :: u32) * 256"
      using p by (simp only: unat_push_bit) simp
    moreover have "unat (ucast b :: u32) = unat b" by (rule unat_ucast_up) simp
    ultimately have "unat (le_word (b # bs) :: u32) \<le> unat b + unat (le_word bs :: u32) * 256"
      unfolding e by (metis unat_add_lem unat_word_ariths(1) mod_less_eq_dividend)
    moreover have "unat (le_word bs :: u32) + 1 \<le> 256 ^ length bs" using lt by simp
    ultimately show ?case using byte_lt [of b] by (simp add: algebra_simps)
  qed
  have e: "le_word (b # bs) = (ucast b + push_bit 8 (le_word bs) :: u32)"
    by (simp, rule disjunctive_add [symmetric]) (auto simp: bit_simps dest: bit_imp_le_length)
  have p: "(256 :: nat) ^ length bs \<le> 256 ^ 3" using assms by (intro power_increasing) simp_all
  have h: "unat (push_bit 8 (le_word bs) :: u32) = unat (le_word bs :: u32) * 256"
    using lt p by (simp only: unat_push_bit) simp
  have u: "unat (ucast b :: u32) = unat b" by (rule unat_ucast_up) simp
  have "unat (le_word bs :: u32) + 1 \<le> 256 ^ 3" using lt p by linarith
  then show "unat (le_word (b # bs) :: u32) = unat b + 256 * unat (le_word bs :: u32)"
    unfolding e using byte_lt [of b] by (subst unat_add_no_overflow) (simp_all only: h u, simp_all)
qed

lemma le_word_4: "unat (le_word [b0, b1, b2, b3] :: u32) = unat b0 + 256 * unat b1 + 65536 * (unat b2 + 256 * unat b3)"
  using le_word_Cons(1) [of "[b1, b2, b3]" b0] le_word_Cons(1) [of "[b2, b3]" b1] le_word_Cons(1) [of "[b3]" b2]
    le_word_Cons(1) [of "[]" b3]
  by (simp del: le_word.simps(2))

lemma le16_eq: "unat (le16 (b0 # b1 # bs)) = unat b0 + 256 * unat b1" "unat (le16 (b0 # b1 # bs)) < 65536"
  using le_word_Cons(1) [of "[b1]" b0] le_word_Cons(1) [of "[]" b1] byte_lt [of b0] byte_lt [of b1]
  by (simp_all add: le16_def del: le_word.simps(2))

lemma oc_word: "oc_eq (unat (le_word [b0, b1, b2, b3] :: u32)) (byte_sum [b0, b1, b2, b3])"
  using oc_shift(1) [of "unat b2 + 256 * unat b3" "unat b0 + 256 * unat b1"]
  by (simp add: le_word_4 add_ac del: le_word.simps(2))

lemma unat_halves:
  fixes x :: u32
  shows "unat (drop_bit 16 x + (x AND 0xffff)) = unat x div 65536 + unat x mod 65536"
    "unat x div 65536 + unat x mod 65536 < 131071"
proof -
  have x: "unat x < 4294967296" using unsigned_less [of x, where 'a = nat] by simp
  have "unat x div 65536 < 65536" using x by (simp add: div_less_iff_less_mult)
  moreover have "unat x mod 65536 < 65536" by simp
  ultimately show l: "unat x div 65536 + unat x mod 65536 < 131071" by linarith
  have m: "unat (x AND 0xffff) = unat x mod 65536" using unat_and_mask [of x 16] by simp
  have d: "unat (drop_bit 16 x) = unat x div 65536" by (simp add: unat_drop_bit)
  show "unat (drop_bit 16 x + (x AND 0xffff)) = unat x div 65536 + unat x mod 65536"
    using l by (subst unat_add_no_overflow) (simp_all only: m d, simp_all)
qed

lemma oc_halves: "oc_eq (n div 65536 + n mod 65536) n"
  using oc_sym [OF oc_shift(1) [of "n div 65536" "n mod 65536"]] by simp

lemma fold_nat:
  assumes "n < 131071"
  shows "oc_eq ((n + n div 65536) mod 65536) n"
proof (cases "n < 65536")
  case False
  then obtain k where k: "n = 65536 + k" using le_Suc_ex by (metis not_less)
  then have "n div 65536 = 1" "(n + 1) mod 65536 = k + 1" using assms by (simp, simp add: le_mod_geq)
  then show ?thesis using oc_sym [OF oc_shift(1) [of 1 k]] k by simp
qed simp

lemma csum_fold_spec: "oc_eq (unat (csum_fold x)) (unat x)"
proof -
  let ?s = "drop_bit 16 x + (x AND 0xffff)"
  let ?n = "unat x div 65536 + unat x mod 65536"
  have d: "unat (drop_bit 16 ?s) = ?n div 65536" by (simp only: unat_drop_bit unat_halves(1)) simp
  have "unat ?s + unat (drop_bit 16 ?s) < 2 ^ LENGTH(32)"
    unfolding d unat_halves(1) using unat_halves(2) [of x] div_le_dividend [of ?n 65536] by simp
  then have "unat (?s + drop_bit 16 ?s) = unat ?s + unat (drop_bit 16 ?s)" by (rule unat_add_no_overflow)
  then have s2: "unat (?s + drop_bit 16 ?s) = ?n + ?n div 65536" unfolding d unat_halves(1) .
  have "unat (csum_fold x) = (?n + ?n div 65536) mod 65536"
    using unat_and_mask [of "?s + drop_bit 16 ?s" 16] s2
    by (simp add: csum_fold_def Let_def unsigned_ucast_eq take_bit_eq_mod)
  then have "oc_eq (unat (csum_fold x)) ?n" by (simp only: fold_nat [OF unat_halves(2)])
  then show ?thesis by (rule oc_trans) (rule oc_halves)
qed

section \<open>The sum of the words\<close>

lemma carry_step:
  fixes r c w :: u32
  assumes "unat r + unat c < 4294967296"
  defines "r2 \<equiv> r + c + w" and "c2 \<equiv> (if w > r + c + w then 1 else 0 :: u32)"
  shows "oc_eq (unat r2 + unat c2) (unat r + unat c + unat w)" "unat r2 + unat c2 < 4294967296"
proof -
  have rc: "unat (r + c) = unat r + unat c" using assms(1) by (subst unat_add_no_overflow) simp_all
  have w: "unat w < 4294967296" using unsigned_less [of w, where 'a = nat] by simp
  have r2: "unat r2 = (unat r + unat c + unat w) mod 4294967296"
    using unat_word_ariths(1) [of "r + c" w] by (simp add: r2_def rc)
  show "oc_eq (unat r2 + unat c2) (unat r + unat c + unat w)" "unat r2 + unat c2 < 4294967296"
  proof (atomize (full), cases "unat r + unat c + unat w < 4294967296")
    case True
    then have "\<not> w > r2" using r2 by (simp add: word_less_nat_alt)
    then have "unat c2 = 0" by (simp add: c2_def flip: r2_def)
    then show "oc_eq (unat r2 + unat c2) (unat r + unat c + unat w) \<and> unat r2 + unat c2 < 4294967296"
      using r2 True by simp
  next
    case False
    then obtain k where k: "unat r + unat c + unat w = 4294967296 + k" using le_Suc_ex by (metis not_less)
    then have r2': "unat r2 = k" using r2 assms(1) w by (simp add: le_mod_geq)
    then have "w > r2" using k assms(1) by (simp add: word_less_nat_alt)
    then have "unat c2 = 1" by (simp add: c2_def flip: r2_def)
    then show "oc_eq (unat r2 + unat c2) (unat r + unat c + unat w) \<and> unat r2 + unat c2 < 4294967296"
      using oc_sym [OF oc_shift(2) [of 1 k]] k r2' assms(1) w by (simp add: add.commute)
  qed
qed

lemma csum_words_spec:
  "csum_words bs r c = (r', c') \<Longrightarrow> unat r + unat c < 4294967296 \<Longrightarrow>
     oc_eq (unat r' + unat c') (unat r + unat c + byte_sum (take (length bs div 4 * 4) bs))
     \<and> unat r' + unat c' < 4294967296"
proof (induction bs r c arbitrary: r' c' rule: csum_words.induct)
  case (1 b0 b1 b2 b3 bs r c)
  let ?w = "le_word [b0, b1, b2, b3] :: u32"
  let ?r = "r + c + ?w" and ?c = "if ?w > r + c + ?w then 1 else 0 :: u32"
  note step = carry_step [OF "1.prems"(2), of ?w]
  have "csum_words bs ?r ?c = (r', c')" using "1.prems"(1) by (simp add: Let_def del: le_word.simps(2))
  from "1.IH" [OF refl refl refl this step(2)]
  have IH: "oc_eq (unat r' + unat c') (unat ?r + unat ?c + byte_sum (take (length bs div 4 * 4) bs))"
    "unat r' + unat c' < 4294967296" by blast+
  have "oc_eq (unat ?r + unat ?c) (unat r + unat c + byte_sum [b0, b1, b2, b3])"
    using step(1) oc_add [OF oc_refl oc_word] oc_trans by blast
  from oc_trans [OF IH(1) oc_add [OF this oc_refl]]
  have "oc_eq (unat r' + unat c') (unat r + unat c + byte_sum (b0 # b1 # b2 # b3 # take (length bs div 4 * 4) bs))"
    by (simp only: byte_sum.simps add_ac add_0)
  moreover have "take (length (b0 # b1 # b2 # b3 # bs) div 4 * 4) (b0 # b1 # b2 # b3 # bs)
      = b0 # b1 # b2 # b3 # take (length bs div 4 * 4) bs"
  proof -
    have "length (b0 # b1 # b2 # b3 # bs) div 4 * 4 = Suc (Suc (Suc (Suc (length bs div 4 * 4))))"
      using div_add_self1 [of 4 "length bs"] by simp
    then show ?thesis by simp
  qed
  ultimately show ?case using IH(2) by (simp only: simp_thms)
qed auto

lemma byte_sum_append:
  "even (length xs) \<Longrightarrow> byte_sum (xs @ ys) = byte_sum xs + byte_sum ys"
  by (induction xs rule: byte_sum.induct) simp_all

lemma byte_sum_last: "odd (length xs) \<Longrightarrow> byte_sum xs = byte_sum (butlast xs) + unat (last xs)"
  by (induction xs rule: byte_sum.induct) auto

text \<open>From an odd address the bytes are summed with their weights exchanged.\<close>

lemma byte_sum_swap: "oc_eq (256 * (256 * unat b + byte_sum bs)) (byte_sum (b # bs))"
proof (induction bs arbitrary: b rule: byte_sum.induct)
  case 1
  show ?case using oc_shift(1) [of "unat b" 0] by simp
next
  case (2 c)
  show ?case using oc_shift(1) [of "unat b" "256 * unat c"] by simp
next
  case (3 c d bs)
  have "oc_eq (65536 * unat b + 256 * unat c) (unat b + 256 * unat c)" by (rule oc_shift)
  from oc_add [OF this 3 [of d]] show ?case by (simp add: algebra_simps)
qed

section \<open>The checksum routine\<close>

lemma even_split:
  assumes "2 \<le> length (bs :: byte list)"
  obtains b0 b1 cs where "bs = b0 # b1 # cs"
  using assms by (cases bs; cases "tl bs") auto

lemma csum_aligned_spec:
  assumes "unat r < 131072"
  shows "oc_eq (unat (csum_aligned bs r)) (unat r + byte_sum (take (length bs div 2 * 2) bs))"
    "unat (csum_aligned bs r) < 262144"
proof -
  let ?k = "length bs div 4 * 4" and ?bs3 = "drop (length bs div 4 * 4) bs"
  define r2 where "r2 = (if length bs \<ge> 4 then case csum_words bs r 0 of (x, c) \<Rightarrow> ((x + c) AND 0xffff) + drop_bit 16 (x + c) else r)"
  have r3: "csum_aligned bs r = (if odd (length bs div 2) then r2 + le16 ?bs3 else r2)"
    by (simp add: csum_aligned_def r2_def Let_def)
  have r2: "oc_eq (unat r2) (unat r + byte_sum (take ?k bs)) \<and> unat r2 < 131072"
  proof (cases "length bs \<ge> 4")
    case False
    then show ?thesis using assms(1) by (simp add: r2_def)
  next
    case True
    obtain x c where w: "csum_words bs r 0 = (x, c)" by fastforce
    have s: "oc_eq (unat x + unat c) (unat r + byte_sum (take ?k bs))" "unat x + unat c < 4294967296"
      using csum_words_spec [OF w] assms(1) by simp_all
    have xc: "unat (x + c) = unat x + unat c" using s(2) by (subst unat_add_no_overflow) simp_all
    have e: "r2 = drop_bit 16 (x + c) + ((x + c) AND 0xffff)" using True w by (simp add: r2_def add.commute)
    show ?thesis
      unfolding e unat_halves(1) using oc_trans [OF oc_halves, of "unat (x + c)"] s(1) unat_halves(2) [of "x + c"] xc by simp
  qed
  have "oc_eq (unat (csum_aligned bs r)) (unat r + byte_sum (take (length bs div 2 * 2) bs)) \<and> unat (csum_aligned bs r) < 262144"
  proof (cases "odd (length bs div 2)")
    case False
    then have "length bs div 2 * 2 = ?k" by presburger
    then show ?thesis using r2 False unfolding r3 by (simp only: if_False) simp
  next
    case True
    then have l: "length bs div 2 * 2 = ?k + 2" "?k + 2 \<le> length bs" by presburger+
    then have "2 \<le> length ?bs3" by simp
    then obtain b0 b1 cs where c: "?bs3 = b0 # b1 # cs" by (rule even_split)
    have t: "take (length bs div 2 * 2) bs = take ?k bs @ [b0, b1]"
      unfolding l(1) take_add using c by simp
    have a: "unat (r2 + le16 ?bs3) = unat r2 + (unat b0 + 256 * unat b1)"
      using r2 le16_eq [of b0 b1 cs] unfolding c by (subst unat_add_no_overflow) simp_all
    have "byte_sum (take (length bs div 2 * 2) bs) = byte_sum (take ?k bs) + (unat b0 + 256 * unat b1)"
      unfolding t using l(2) by (subst byte_sum_append) simp_all
    then show ?thesis
      using True a r2 oc_add [OF conjunct1 [OF r2] oc_refl, of "unat b0 + 256 * unat b1"] le16_eq [of b0 b1 cs]
      by (simp add: r3 add_ac)
  qed
  then show "oc_eq (unat (csum_aligned bs r)) (unat r + byte_sum (take (length bs div 2 * 2) bs))"
    "unat (csum_aligned bs r) < 262144" by blast+
qed

lemma last_drop_even: "odd (length bs) \<Longrightarrow> drop (length bs div 2 * 2) bs = [last bs]"
proof -
  assume o: "odd (length bs)"
  then have l: "length bs = length bs div 2 * 2 + 1" by presburger
  then have "drop (length bs div 2 * 2) bs = [bs ! (length bs div 2 * 2)]"
    using Cons_nth_drop_Suc [of "length bs div 2 * 2" bs] by simp
  moreover have "last bs = bs ! (length bs div 2 * 2)" using l by (metis add_diff_cancel_right' last_conv_nth list.size(3) odd_pos o less_numeral_extra(3))
  ultimately show ?thesis by simp
qed

text \<open>Everything up to the final fold, for data at an even address.\<close>

definition csum_even :: "nat \<Rightarrow> byte list \<Rightarrow> u32 \<Rightarrow> u32" where
  "csum_even addr bs r =
     (let r3 = (if length bs \<ge> 2
                then if odd (addr div 2) then csum_aligned (drop 2 bs) (r + le16 bs) else csum_aligned bs r
                else r)
      in if odd (length bs) then r3 + ucast (last bs) else r3)"

lemma csum_even_spec:
  assumes "unat r < 65536"
  shows "oc_eq (unat (csum_even addr bs r)) (unat r + byte_sum bs)"
proof -
  let ?m = "length bs div 2 * 2"
  define r3 where "r3 = (if length bs \<ge> 2
      then if odd (addr div 2) then csum_aligned (drop 2 bs) (r + le16 bs) else csum_aligned bs r else r)"
  have r3: "oc_eq (unat r3) (unat r + byte_sum (take ?m bs)) \<and> unat r3 < 262144"
  proof (cases "length bs \<ge> 2")
    case False
    then have "?m = 0" by simp
    then show ?thesis using assms False by (simp add: r3_def)
  next
    case True
    show ?thesis
    proof (cases "odd (addr div 2)")
      case False
      then show ?thesis using True assms csum_aligned_spec [of r bs] by (simp add: r3_def)
    next
      case odd: True
      obtain b0 b1 cs where c: "bs = b0 # b1 # cs" using True by (rule even_split)
      have a: "unat (r + le16 bs) = unat r + (unat b0 + 256 * unat b1)" "unat (r + le16 bs) < 131072"
        using assms le16_eq [of b0 b1 cs] unfolding c by (subst unat_add_no_overflow, simp_all)+
      have "take ?m bs = b0 # b1 # take (length cs div 2 * 2) cs" by (simp add: c)
      then show ?thesis using True odd a csum_aligned_spec [of "r + le16 bs" cs] by (simp add: r3_def c add_ac)
    qed
  qed
  show ?thesis
  proof (cases "odd (length bs)")
    case False
    then have "take ?m bs = bs" by simp
    then show ?thesis using r3 False by (simp add: csum_even_def r3_def [symmetric])
  next
    case True
    have b: "byte_sum bs = byte_sum (take ?m bs) + unat (last bs)"
      using byte_sum_append [of "take ?m bs" "drop ?m bs"] last_drop_even [OF True] append_take_drop_id [of ?m bs] by simp
    have l: "unat (ucast (last bs) :: u32) = unat (last bs)" by (rule unat_ucast_up) simp
    have "unat (r3 + ucast (last bs)) = unat r3 + unat (last bs)"
      using r3 byte_lt [of "last bs"] l by (subst unat_add_no_overflow) simp_all
    then show ?thesis using r3 True oc_add [OF conjunct1 [OF r3] oc_refl, of "unat (last bs)"]
      by (simp add: csum_even_def r3_def [symmetric] b add_ac)
  qed
qed

lemma ucast_fold: "unat (ucast (csum_fold x) :: u32) = unat (csum_fold x)" "unat (csum_fold x) < 65536"
  using unsigned_less [of "csum_fold x", where 'a = nat] by (simp_all add: unat_ucast_up)

lemma swap_bytes:
  fixes x :: u32
  assumes "unat x < 65536"
  shows "oc_eq (unat ((drop_bit 8 x AND 0xff) OR push_bit 8 (x AND 0xff))) (256 * unat x)"
    "unat ((drop_bit 8 x AND 0xff) OR push_bit 8 (x AND 0xff)) < 65536"
proof -
  have e: "(drop_bit 8 x AND 0xff) OR push_bit 8 (x AND 0xff) = (drop_bit 8 x AND 0xff) + push_bit 8 (x AND 0xff)"
  proof (rule disjunctive_add [symmetric])
    fix n
    have "(0xff :: u32) = mask 8" by (simp add: mask_eq_exp_minus_1)
    then show "\<not> bit (drop_bit 8 x AND 0xff) n \<or> \<not> bit (push_bit 8 (x AND 0xff)) n"
      by (simp only: bit_and_iff bit_push_bit_iff bit_mask_iff) linarith
  qed
  have l: "unat (x AND 0xff) = unat x mod 256" using unat_and_mask [of x 8] by simp
  have h: "unat (drop_bit 8 x AND 0xff) = unat x div 256"
    using unat_and_mask [of "drop_bit 8 x" 8] assms by (simp add: unat_drop_bit)
  have p: "unat (push_bit 8 (x AND 0xff)) = 256 * (unat x mod 256)" by (simp only: unat_push_bit l) simp
  have d: "unat x div 256 < 256" using assms by (simp add: div_less_iff_less_mult)
  have u: "unat ((drop_bit 8 x AND 0xff) OR push_bit 8 (x AND 0xff)) = unat x div 256 + 256 * (unat x mod 256)"
    unfolding e using d by (subst unat_add_no_overflow) (simp_all only: h p, simp_all)
  show "unat ((drop_bit 8 x AND 0xff) OR push_bit 8 (x AND 0xff)) < 65536"
    unfolding u using d mod_less_divisor [of 256 "unat x"] by linarith
  have "65536 * (unat x div 256) + 256 * (unat x mod 256) = 256 * unat x"
    using div_mult_mod_eq [of "unat x" 256] by linarith
  then show "oc_eq (unat ((drop_bit 8 x AND 0xff) OR push_bit 8 (x AND 0xff))) (256 * unat x)"
    unfolding u using oc_sym [OF oc_shift(1) [of "unat x div 256" "256 * (unat x mod 256)"]] by simp
qed

lemma csum_compute_spec: "oc_eq (unat (csum_compute addr bs)) (byte_sum bs)" "unat (csum_compute addr bs) < 65536"
proof -
  have "oc_eq (unat (csum_compute addr bs)) (byte_sum bs) \<and> unat (csum_compute addr bs) < 65536"
  proof (cases bs)
    case Nil
    then show ?thesis by (simp add: csum_compute_def)
  next
    case (Cons b cs)
    show ?thesis
    proof (cases "odd addr")
      case False
      have "csum_compute addr bs = ucast (csum_fold (csum_even addr bs 0))"
        using False Cons by (simp add: csum_compute_def csum_even_def Let_def)
      then show ?thesis using oc_trans [OF csum_fold_spec csum_even_spec [of 0 addr bs]] ucast_fold by simp
    next
      case True
      let ?r = "push_bit 8 (ucast b) :: u32"
      have r: "unat ?r = 256 * unat b" "unat ?r < 65536"
        using byte_lt [of b] unat_ucast_up [of b, where 'b = 32] by (simp_all only: unat_push_bit) simp_all
      let ?x = "ucast (csum_fold (csum_even (addr + 1) cs ?r)) :: u32"
      have "oc_eq (unat ?x) (256 * unat b + byte_sum cs)"
        using oc_trans [OF csum_fold_spec csum_even_spec [OF r(2), of "addr + 1" cs]] ucast_fold r(1) by simp
      from oc_trans [OF oc_mult [OF this] byte_sum_swap] have x: "oc_eq (256 * unat ?x) (byte_sum bs)" by (simp add: Cons)
      have "csum_compute addr bs = (drop_bit 8 ?x AND 0xff) OR push_bit 8 (?x AND 0xff)"
        using True Cons by (simp add: csum_compute_def csum_even_def Let_def)
      then show ?thesis using swap_bytes [of ?x] oc_trans [OF _ x] ucast_fold by simp
    qed
  qed
  then show "oc_eq (unat (csum_compute addr bs)) (byte_sum bs)" "unat (csum_compute addr bs) < 65536" by blast+
qed

section \<open>Properties\<close>

definition oc_sum :: "byte list \<Rightarrow> nat" where
  "oc_sum bs = (if byte_sum bs = 0 then 0 else (byte_sum bs - 1) mod 65535 + 1)"

lemma oc_sum_spec: "oc_eq (oc_sum bs) (byte_sum bs)" "oc_sum bs < 65536"
proof -
  show "oc_sum bs < 65536" using mod_less_divisor [of 65535 "byte_sum bs - 1"] by (simp add: oc_sum_def)
  have "((n - 1) mod 65535 + 1) mod 65535 = n mod 65535" if "n \<noteq> 0" for n :: nat
    using that mod_add_left_eq [of "n - 1" 65535 1] by simp
  then show "oc_eq (oc_sum bs) (byte_sum bs)" by (simp add: oc_eq_def oc_sum_def)
qed

lemma csum_compute_eq: "unat (csum_compute addr bs) = oc_sum bs"
  using oc_unique [OF oc_trans [OF csum_compute_spec(1) oc_sym [OF oc_sum_spec(1)]] csum_compute_spec(2) oc_sum_spec(2)] .

lemma byte_sum_le2: "byte_sum (le_bytes 2 (x :: u16)) = unat x"
proof -
  have e: "le_bytes 2 x = [ucast x, ucast (drop_bit 8 x)]" by (simp add: le_bytes_def numeral_2_eq_2)
  have x: "unat x < 65536" using unsigned_less [of x, where 'a = nat] by simp
  have l: "unat (ucast x :: byte) = unat x mod 256" by (simp add: unsigned_ucast_eq take_bit_eq_mod)
  have h: "unat (ucast (drop_bit 8 x) :: byte) = unat x div 256"
    using x by (simp add: unsigned_ucast_eq take_bit_eq_mod unat_drop_bit div_less_iff_less_mult)
  show ?thesis unfolding e by (simp only: byte_sum.simps l h) simp
qed

lemma byte_sum_le4: "byte_sum (le_bytes 4 (x :: u32)) mod 65535 = unat x mod 65535"
proof -
  obtain b0 b1 b2 b3 where b: "le_bytes 4 x = [b0, b1, b2, b3]"
    by (rule that) (simp add: le_bytes_def upt_rec)
  have "le_word [b0, b1, b2, b3] = x" using le_word_le_bytes [of 4 x] by (simp only: b) simp
  then show ?thesis using oc_word [of b0 b1 b2 b3] unfolding b by (simp add: oc_eq_def del: le_word.simps(2))
qed

lemma unat_not: "unat (NOT x :: 'a::len word) = 2 ^ LENGTH('a) - 1 - unat x"
proof -
  have "NOT x = - 1 - x" by (simp add: not_eq_complement)
  then have "unat (NOT x) = unat (- 1 :: 'a word) - unat x" by (simp add: unat_sub)
  moreover have "unat (- 1 :: 'a word) = 2 ^ LENGTH('a) - 1"
    by (metis take_bit_minus_one_eq_mask unsigned_minus_1_eq_mask mask_eq_exp_minus_1)
  ultimately show ?thesis by simp
qed

text \<open>
  C34. The checksum routine computes the one's complement sum of the data whatever address the data starts
  at; data of even length followed by its checksum, in memory order, sums to \<open>0xffff\<close>.
\<close>

theorem csum_correct:
  "unat (csum_compute addr bs) = oc_sum bs
   \<and> (even (length bs) \<longrightarrow> unat (csum_compute addr' (bs @ le_bytes 2 (csum_checksum addr bs))) = 65535)"
proof (intro conjI impI csum_compute_eq)
  assume ev: "even (length bs)"
  let ?c = "csum_checksum addr bs"
  have f: "unat (csum_fold (csum_compute addr bs)) = oc_sum bs"
    using oc_unique [OF oc_trans [OF csum_fold_spec csum_compute_spec(1)], of addr bs] oc_unique [OF _ ucast_fold(2) oc_sum_spec(2)]
      oc_trans [OF oc_trans [OF csum_fold_spec csum_compute_spec(1)] oc_sym [OF oc_sum_spec(1)]] by blast
  have c: "unat ?c = 65535 - oc_sum bs" by (simp add: csum_checksum_def csum_cfold_def unat_not f)
  have s: "byte_sum (bs @ le_bytes 2 ?c) = byte_sum bs + (65535 - oc_sum bs)"
    using ev by (simp add: byte_sum_append byte_sum_le2 c)
  have "oc_eq (byte_sum bs + (65535 - oc_sum bs)) (oc_sum bs + (65535 - oc_sum bs))"
    by (rule oc_add [OF oc_sym [OF oc_sum_spec(1)] oc_refl])
  then have "oc_eq (byte_sum (bs @ le_bytes 2 ?c)) 65535" using oc_sum_spec(2) [of bs] by (simp add: s)
  then show "unat (csum_compute addr' (bs @ le_bytes 2 ?c)) = 65535"
    using oc_unique [OF oc_trans [OF csum_compute_spec(1)] csum_compute_spec(2)] by simp
qed

theorem csum_correct_witness:
  "unat (csum_compute 3 ([1, 2, 255, 4] @ le_bytes 2 (csum_checksum 1 [1, 2, 255, 4]))) = 65535"
  using csum_correct [of 1 "[1, 2, 255, 4]" 3] by simp

end
