(* ===== verification/MSS_Fix.thy ===== *)
theory MSS_Fix
  imports IP_Checksum
begin

text \<open>
  The MSS clamp of transport/mssfix.hpp on the header layouts of ip/ipcommon.hpp, ip/ip4.hpp, ip/ip6.hpp and
  ip/tcp.hpp. A packet is the list of the bytes of its buffer; header fields are read and written at
  their offsets in memory order, and an access outside of the buffer's data is \<open>undefined_behaviour\<close>.
  Shown: the clamp never makes such an access, writes nothing but the TCP checksum and the values
  of MSS options, leaves every MSS option at or below the limit (a second run changes nothing), and keeps
  the one's complement sum of the packet when the option values are 16-bit aligned.
\<close>

section \<open>Access to packet bytes\<close>

definition pkt_get :: "byte list \<Rightarrow> nat \<Rightarrow> byte result" where
  "pkt_get p i = (if i < length p then Inr (p ! i) else Inl undefined_behaviour)"

definition pkt_set :: "byte list \<Rightarrow> nat \<Rightarrow> byte \<Rightarrow> byte list result" where
  "pkt_set p i b = (if i < length p then Inr (p[i := b]) else Inl undefined_behaviour)"

text \<open>A \<open>uint16_t\<close> member of a packed header, in the byte order of the host, and \<open>ntohs\<close> of it.\<close>

definition pkt_get16 :: "byte list \<Rightarrow> nat \<Rightarrow> u16 result" where
  "pkt_get16 p i = (if i + 1 < length p then Inr (le_word [p ! i, p ! (i + 1)]) else Inl undefined_behaviour)"

definition pkt_set16 :: "byte list \<Rightarrow> nat \<Rightarrow> u16 \<Rightarrow> byte list result" where
  "pkt_set16 p i w =
     (if i + 1 < length p then Inr (p[i := ucast w, i + 1 := ucast (drop_bit 8 w)]) else Inl undefined_behaviour)"

definition htons :: "u16 \<Rightarrow> u16" where
  "htons w = push_bit 8 w OR drop_bit 8 w"

definition ntohs :: "u16 \<Rightarrow> u16" where
  "ntohs w = push_bit 8 w OR drop_bit 8 w"

section \<open>The headers\<close>

definition ip_version :: "byte \<Rightarrow> nat" where
  "ip_version b = unat (drop_bit 4 b AND 0x0F)"

definition ipv4_length :: "byte \<Rightarrow> nat" where
  "ipv4_length version_len = unat (version_len AND 0x0F) * 4"

definition tcp_length :: "byte \<Rightarrow> nat" where
  "tcp_length doff_res = unat (drop_bit 2 (doff_res AND 0xF0))"

text \<open>Sizes and member offsets of \<open>IPv4Header\<close>, \<open>IPv6Header\<close> and \<open>TCPHeader\<close>.\<close>

abbreviation (input) "sizeof_IPv4Header \<equiv> 20 :: nat"
abbreviation (input) "sizeof_IPv6Header \<equiv> 40 :: nat"
abbreviation (input) "sizeof_TCPHeader \<equiv> 20 :: nat"
abbreviation (input) "off_tot_len \<equiv> 2 :: nat"
abbreviation (input) "off_frag_off \<equiv> 6 :: nat"
abbreviation (input) "off_protocol \<equiv> 9 :: nat"
abbreviation (input) "off_payload_len \<equiv> 4 :: nat"
abbreviation (input) "off_nexthdr \<equiv> 6 :: nat"
abbreviation (input) "off_doff_res \<equiv> 12 :: nat"
abbreviation (input) "off_flags \<equiv> 13 :: nat"
abbreviation (input) "off_check \<equiv> 16 :: nat"
abbreviation (input) "IPPROTO_TCP \<equiv> 6 :: byte"
abbreviation (input) "OPT_EOL \<equiv> 0 :: byte"
abbreviation (input) "OPT_NOP \<equiv> 1 :: byte"
abbreviation (input) "OPT_MAXSEG \<equiv> 2 :: byte"
abbreviation (input) "OPTLEN_MAXSEG \<equiv> 4 :: nat"

section \<open>The clamp\<close>

text \<open>The replacement of the value of one MSS option (the body under \<open>mssval > max_mss\<close>).\<close>

definition mss_update :: "byte list \<Rightarrow> nat \<Rightarrow> u16 \<Rightarrow> nat \<Rightarrow> u16 \<Rightarrow> byte list result" where
  "mss_update p tcphdr max_mss opt mssval =
     bindR (pkt_set p (opt + 2) (ucast (drop_bit 8 max_mss AND 0xff))) (\<lambda>p1.
     bindR (pkt_set p1 (opt + 3) (ucast (max_mss AND 0xff))) (\<lambda>p2.
     bindR (pkt_get16 p2 (tcphdr + off_check)) (\<lambda>check.
       pkt_set16 p2 (tcphdr + off_check)
         (tcp_adjust_checksum (uint (htons mssval) - uint (htons max_mss)) check))))"

text \<open>One option of kind MAXSEG and length 4; \<open>None\<close> is the \<open>break\<close> after an unsafe conversion.\<close>

definition mss_option :: "byte list \<Rightarrow> nat \<Rightarrow> u16 \<Rightarrow> nat \<Rightarrow> byte list option result" where
  "mss_option p tcphdr max_mss opt =
     bindR (pkt_get p (opt + 2)) (\<lambda>b2.
     bindR (pkt_get p (opt + 3)) (\<lambda>b3.
       let mssRaw = uint b2 * 256 + uint b3
       in if 0 \<le> mssRaw \<and> mssRaw \<le> 65535
          then let mssval = (word_of_int mssRaw :: u16)
               in if mssval > max_mss then bindR (mss_update p tcphdr max_mss opt mssval) (\<lambda>p'. Inr (Some p'))
                  else Inr (Some p)
          else Inr None))"

text \<open>The walk over the options: \<open>olen\<close> bytes are left, the next option is at \<open>opt\<close>.\<close>

function mss_opt_loop :: "nat \<Rightarrow> u16 \<Rightarrow> byte list \<Rightarrow> nat \<Rightarrow> nat \<Rightarrow> byte list result" where
  "mss_opt_loop tcphdr max_mss p olen opt =
     (if olen \<le> 1 then Inr p
      else case pkt_get p opt of
        Inl e \<Rightarrow> Inl e
      | Inr k \<Rightarrow>
          if k = OPT_EOL then Inr p
          else if k = OPT_NOP then mss_opt_loop tcphdr max_mss p (olen - 1) (opt + 1)
          else case pkt_get p (opt + 1) of
            Inl e \<Rightarrow> Inl e
          | Inr l \<Rightarrow>
              if unat l = 0 \<or> unat l > olen then Inr p
              else if k = OPT_MAXSEG \<and> unat l = OPTLEN_MAXSEG
              then case mss_option p tcphdr max_mss opt of
                  Inl e \<Rightarrow> Inl e
                | Inr None \<Rightarrow> Inr p
                | Inr (Some p') \<Rightarrow> mss_opt_loop tcphdr max_mss p' (olen - unat l) (opt + unat l)
              else mss_opt_loop tcphdr max_mss p (olen - unat l) (opt + unat l))"
  by pat_completeness auto
termination
  by (relation "measure (\<lambda>(_, _, _, olen, _). olen)") auto

definition do_mssfix :: "byte list \<Rightarrow> nat \<Rightarrow> u16 \<Rightarrow> nat \<Rightarrow> byte list result" where
  "do_mssfix p tcphdr max_mss ip_payload_len =
     bindR (pkt_get p (tcphdr + off_flags)) (\<lambda>flags.
     if flags AND 2 = 0 then Inr p
     else bindR (pkt_get p (tcphdr + off_doff_res)) (\<lambda>doff_res.
       let tcphlen = tcp_length doff_res
       in if tcphlen \<le> sizeof_TCPHeader \<or> tcphlen > ip_payload_len then Inr p
          else mss_opt_loop tcphdr max_mss p (tcphlen - sizeof_TCPHeader) (tcphdr + sizeof_TCPHeader)))"

definition mssfix_v4 :: "byte list \<Rightarrow> u16 \<Rightarrow> byte list result" where
  "mssfix_v4 p mss_fix =
     (if length p \<le> sizeof_IPv4Header then Inr p
      else
       bindR (pkt_get p 0) (\<lambda>version_len.
       bindR (pkt_get p off_protocol) (\<lambda>protocol.
       bindR (pkt_get16 p off_tot_len) (\<lambda>tot_len.
       bindR (pkt_get16 p off_frag_off) (\<lambda>frag_off.
         let ipv4hlen = ipv4_length version_len
         in if protocol = IPPROTO_TCP \<and> unat (ntohs tot_len) = length p
               \<and> ntohs frag_off AND 0x1fff = 0 \<and> ipv4hlen \<le> length p
               \<and> length p - ipv4hlen \<ge> sizeof_TCPHeader
            then do_mssfix p ipv4hlen mss_fix (length p - ipv4hlen)
            else Inr p)))))"

definition mssfix_v6 :: "byte list \<Rightarrow> u16 \<Rightarrow> byte list result" where
  "mssfix_v6 p mss_fix =
     (if length p \<le> sizeof_IPv6Header then Inr p
      else
       bindR (pkt_get16 p off_payload_len) (\<lambda>payload_len.
       if length p \<noteq> unat (ntohs payload_len) + sizeof_IPv6Header then Inr p
       else bindR (pkt_get p off_nexthdr) (\<lambda>nexthdr.
         if nexthdr \<noteq> IPPROTO_TCP then Inr p
         else if length p - sizeof_IPv6Header \<ge> sizeof_TCPHeader
         then do_mssfix p sizeof_IPv6Header (mss_fix - 20) (length p - sizeof_IPv6Header)
         else Inr p)))"

definition mssfix :: "byte list \<Rightarrow> u16 \<Rightarrow> byte list result" where
  "mssfix p mss_fix =
     (if p = [] then Inr p
      else bindR (pkt_get p 0) (\<lambda>b.
        if ip_version b = 4 then mssfix_v4 p mss_fix
        else if ip_version b = 6 then mssfix_v6 p mss_fix
        else Inr p))"

section \<open>The update of a checksum\<close>

lemma tcp_adjust_checksum_spec:
  assumes "- 65535 \<le> acc" and "acc \<le> 65535"
  shows "uint (tcp_adjust_checksum acc c) mod 65535 = (acc + uint c) mod 65535"
proof -
  define a where "a = acc + uint c"
  have c: "0 \<le> uint c" "uint c \<le> 65535" using uint_range_size [of c] by (simp_all add: word_size)
  show ?thesis
  proof (cases "a < 0")
    case True
    have r: "1 \<le> - a" "- a \<le> 65535" using True assms(1) c(1) unfolding a_def by linarith+
    have "tcp_adjust_checksum acc c = NOT (word_of_int (- a))"
      using True r by (simp add: tcp_adjust_checksum_def a_def [symmetric] Let_def)
    also have "\<dots> = word_of_int (a - 1)" by (simp add: not_eq_complement)
    finally have "uint (tcp_adjust_checksum acc c) = (a - 1) mod 65536"
      by (simp add: uint_word_of_int del: of_int_diff)
    also have "\<dots> = (a - 1 + 65536) mod 65536" by (simp only: mod_add_self2)
    also have "\<dots> = a + 65535" using r by (subst mod_pos_pos_trivial) simp_all
    finally show ?thesis by (simp add: a_def)
  next
    case False
    define a2 where "a2 = a div 65536 + a mod 65536"
    have q: "0 \<le> a" "a \<le> 131070" using False assms(2) c(2) by (simp_all add: a_def)
    have b: "0 \<le> a2" "a2 \<le> 65535" and e: "a = a2 + 65535 * (a div 65536)"
    proof -
      have d: "a = 65536 * (a div 65536) + a mod 65536" by simp
      have m: "0 \<le> a mod 65536" "a mod 65536 < 65536" by simp_all
      have n: "0 \<le> a div 65536" "a div 65536 \<le> 1" using d q m by linarith+
      show "0 \<le> a2" "a2 \<le> 65535" "a = a2 + 65535 * (a div 65536)"
        using d m n q(2) unfolding a2_def by linarith+
    qed
    have "tcp_adjust_checksum acc c = word_of_int a2"
      using False b by (simp add: tcp_adjust_checksum_def a_def [symmetric] a2_def [symmetric] Let_def)
    then have "uint (tcp_adjust_checksum acc c) = a2" using b by (simp add: uint_word_of_int)
    then show ?thesis unfolding a_def [symmetric] by (subst e) simp
  qed
qed

lemma byte_sum_update:
  assumes "even i" and "i + 1 < length p"
  shows "int (byte_sum (p[i := a, i + 1 := b])) =
    int (byte_sum p) + (uint a + 256 * uint b) - (uint (p ! i) + 256 * uint (p ! (i + 1)))"
  using assms
proof (induction p arbitrary: i rule: byte_sum.induct)
  case (3 b0 b1 bs)
  show ?case
  proof (cases i)
    case 0
    then show ?thesis by simp
  next
    case (Suc j)
    then obtain k where k: "i = Suc (Suc k)" "even k" using 3(2) by (cases j) auto
    have "int (byte_sum (bs[k := a, k + 1 := b])) =
        int (byte_sum bs) + (uint a + 256 * uint b) - (uint (bs ! k) + 256 * uint (bs ! (k + 1)))"
      using 3(3) k by (intro 3(1)) auto
    then show ?thesis using k(1) by simp
  qed
qed simp_all

lemma unat_le_word2: "unat (le_word [a, b] :: u16) = unat a + 256 * unat b"
  using byte_sum_le2 [of "le_word [a, b]"] by (simp del: le_word.simps)

lemma uint_le_word2: "uint (le_word [a, b] :: u16) = uint a + 256 * uint b"
proof -
  have "int (unat (le_word [a, b] :: u16)) = int (unat a + 256 * unat b)" by (simp only: unat_le_word2)
  then show ?thesis by (simp del: le_word.simps)
qed

lemma htons_le_word: "htons w = le_word [ucast (drop_bit 8 w), ucast w]"
  unfolding htons_def by (rule bit_word_eqI) (auto simp: bit_simps dest: bit_imp_le_length)

lemma uint_htons: "uint (htons w) = uint (ucast (drop_bit 8 w) :: byte) + 256 * uint (ucast w :: byte)"
  by (simp only: htons_le_word uint_le_word2)

section \<open>One option\<close>

text \<open>The value of the MSS option at \<open>opt\<close>, and the clamp of that option as one function on packets.\<close>

definition mss_at :: "byte list \<Rightarrow> nat \<Rightarrow> u16" where
  "mss_at p opt = le_word [p ! (opt + 3), p ! (opt + 2)]"

definition mss_check :: "byte list \<Rightarrow> nat \<Rightarrow> u16 \<Rightarrow> nat \<Rightarrow> u16" where
  "mss_check p tcphdr m opt =
     tcp_adjust_checksum (uint (htons (mss_at p opt)) - uint (htons m))
       (le_word [p ! (tcphdr + 16), p ! (tcphdr + 17)])"

definition mss_clamp :: "nat \<Rightarrow> u16 \<Rightarrow> byte list \<Rightarrow> nat \<Rightarrow> byte list" where
  "mss_clamp tcphdr m p opt =
     (if mss_at p opt > m
      then p[opt + 2 := ucast (drop_bit 8 m), opt + 3 := ucast m,
             tcphdr + 16 := ucast (mss_check p tcphdr m opt),
             tcphdr + 17 := ucast (drop_bit 8 (mss_check p tcphdr m opt))]
      else p)"

lemma length_mss_clamp [simp]: "length (mss_clamp tcphdr m p opt) = length p"
  by (simp add: mss_clamp_def)

lemma byte_masks:
  "ucast (drop_bit 8 w AND 0xff :: u16) = (ucast (drop_bit 8 w) :: byte)"
  "ucast (w AND 0xff :: u16) = (ucast w :: byte)"
proof -
  have m: "(0xff :: u16) = mask 8" by (simp add: mask_eq_exp_minus_1)
  show "ucast (drop_bit 8 w AND 0xff :: u16) = (ucast (drop_bit 8 w) :: byte)"
    "ucast (w AND 0xff :: u16) = (ucast w :: byte)"
    unfolding m by (rule bit_word_eqI, auto simp: bit_simps dest: bit_imp_le_length)+
qed

lemma mss_raw: "word_of_int (uint a * 256 + uint b) = (le_word [b, a] :: u16)"
proof -
  have "uint a * 256 + uint b = uint (le_word [b, a] :: u16)" by (simp only: uint_le_word2 mult.commute add.commute)
  then show ?thesis by (simp only: word_of_int_uint)
qed

lemma mss_raw': "ucast a * 256 + ucast b = (le_word [b, a] :: u16)"
  using mss_raw [of a b] by (simp del: le_word.simps)

lemma mss_option_clamp:
  assumes "opt + 3 < length p" and "tcphdr + 18 \<le> opt"
  shows "mss_option p tcphdr m opt = Inr (Some (mss_clamp tcphdr m p opt))"
proof -
  have r: "0 \<le> uint b2 * 256 + uint b3" "uint b2 * 256 + uint b3 \<le> 65535" for b2 b3 :: byte
    using uint_range_size [of b2] uint_range_size [of b3] by (simp_all add: word_size)
  show ?thesis
    using assms
    by (simp add: mss_option_def mss_update_def mss_clamp_def mss_check_def pkt_get_def pkt_set_def pkt_get16_def
      pkt_set16_def r mss_raw mss_raw' byte_masks mss_at_def Let_def numeral_2_eq_2 add.commute [of 17 tcphdr] del: le_word.simps)
qed

lemma mss_clamp_frame:
  "i \<notin> {opt + 2, opt + 3, tcphdr + 16, tcphdr + 17} \<Longrightarrow> mss_clamp tcphdr m p opt ! i = p ! i"
  by (simp add: mss_clamp_def)

lemma le_word2_ucast: "le_word [ucast w, ucast (drop_bit 8 w)] = (w :: u16)"
  by (rule bit_word_eqI) (auto simp: bit_simps dest: bit_imp_le_length)

lemma mss_clamp_value:
  assumes "opt + 3 < length p" and "tcphdr + 18 \<le> opt"
  shows "mss_at (mss_clamp tcphdr m p opt) opt = min (mss_at p opt) m"
proof (cases "mss_at p opt > m")
  case True
  then have "mss_at (mss_clamp tcphdr m p opt) opt = le_word [ucast m, ucast (drop_bit 8 m)]"
    using assms by (simp add: mss_clamp_def mss_at_def del: le_word.simps)
  then show ?thesis using True by (simp only: le_word2_ucast min_def) auto
qed (auto simp: mss_clamp_def min_def)

lemma mss_clamp_sum_int:
  assumes o: "opt + 3 < length p" "tcphdr + 18 \<le> opt" and ev: "even opt" "even tcphdr"
  shows "int (byte_sum (mss_clamp tcphdr m p opt)) mod 65535 = int (byte_sum p) mod 65535"
proof (cases "mss_at p opt > m")
  case True
  define p1 where "p1 = p[opt + 2 := ucast (drop_bit 8 m), opt + 3 := ucast m]"
  define c where "c = (le_word [p ! (tcphdr + 16), p ! (tcphdr + 17)] :: u16)"
  define c' where "c' = mss_check p tcphdr m opt"
  have p1: "int (byte_sum p1) = int (byte_sum p) + uint (htons m) - uint (htons (mss_at p opt))"
  proof -
    have "int (byte_sum p1) = int (byte_sum p)
        + (uint (ucast (drop_bit 8 m) :: byte) + 256 * uint (ucast m :: byte))
        - (uint (p ! (opt + 2)) + 256 * uint (p ! (opt + 3)))"
      using byte_sum_update [of "opt + 2" p "ucast (drop_bit 8 m)" "ucast m"] o ev
      by (simp add: p1_def numeral_3_eq_3)
    moreover have "htons (mss_at p opt) = le_word [p ! (opt + 2), p ! (opt + 3)]"
      unfolding mss_at_def htons_def by (rule bit_word_eqI) (auto simp: bit_simps dest: bit_imp_le_length)
    ultimately show ?thesis by (simp add: uint_htons uint_le_word2 del: le_word.simps)
  qed
  have "mss_clamp tcphdr m p opt = p1[tcphdr + 16 := ucast c', tcphdr + 16 + 1 := ucast (drop_bit 8 c')]"
    using True by (simp add: mss_clamp_def p1_def c'_def add.commute [of 17 tcphdr])
  moreover have "p1 ! (tcphdr + 16) = p ! (tcphdr + 16)" "p1 ! (tcphdr + 16 + 1) = p ! (tcphdr + 17)"
    using o(2) by (simp_all add: p1_def add.commute [of 17 tcphdr])
  moreover have "uint (ucast c' :: byte) + 256 * uint (ucast (drop_bit 8 c') :: byte) = uint c'"
    using uint_le_word2 [of "ucast c'" "ucast (drop_bit 8 c')"] by (simp only: le_word2_ucast)
  ultimately have "int (byte_sum (mss_clamp tcphdr m p opt)) = int (byte_sum p1) + uint c' - uint c"
    using byte_sum_update [of "tcphdr + 16" p1 "ucast c'" "ucast (drop_bit 8 c')"] o ev
    by (simp add: p1_def c_def uint_le_word2 del: le_word.simps)
  also have "\<dots> = int (byte_sum p) - (uint (htons (mss_at p opt)) - uint (htons m) + uint c) + uint c'"
    by (simp add: p1)
  also have "\<dots> mod 65535 = int (byte_sum p) mod 65535"
  proof -
    have u: "0 \<le> uint w" "uint w \<le> 65535" for w :: u16 using uint_range_size [of w] by (simp_all add: word_size)
    have "uint c' mod 65535 = (uint (htons (mss_at p opt)) - uint (htons m) + uint c) mod 65535"
      unfolding c'_def mss_check_def c_def by (rule tcp_adjust_checksum_spec) (smt (verit) u)+
    then show ?thesis by (metis mod_diff_right_eq diff_add_cancel mod_add_right_eq)
  qed
  finally show ?thesis .
qed (simp add: mss_clamp_def)

lemma mss_clamp_sum:
  "opt + 3 < length p \<Longrightarrow> tcphdr + 18 \<le> opt \<Longrightarrow> even opt \<Longrightarrow> even tcphdr \<Longrightarrow>
   byte_sum (mss_clamp tcphdr m p opt) mod 65535 = byte_sum p mod 65535"
proof -
  assume "opt + 3 < length p" "tcphdr + 18 \<le> opt" "even opt" "even tcphdr"
  note mss_clamp_sum_int [OF this, of m]
  then have "int (byte_sum (mss_clamp tcphdr m p opt) mod 65535) = int (byte_sum p mod 65535)"
    by (simp only: of_nat_mod of_nat_numeral)
  then show ?thesis by (simp only: of_nat_eq_iff)
qed

section \<open>The walk over the options\<close>

text \<open>The offsets at which the option walk meets an MSS option.\<close>

function mss_positions :: "byte list \<Rightarrow> nat \<Rightarrow> nat \<Rightarrow> nat list" where
  "mss_positions p olen opt =
     (if olen \<le> 1 \<or> p ! opt = 0 then []
      else if p ! opt = 1 then mss_positions p (olen - 1) (opt + 1)
      else let l = unat (p ! (opt + 1))
           in if l = 0 \<or> l > olen then []
              else (if p ! opt = 2 \<and> l = 4 then [opt] else []) @ mss_positions p (olen - l) (opt + l))"
  by pat_completeness auto
termination
  by (relation "measure (\<lambda>(_, olen, _). olen)") auto

declare mss_opt_loop.simps [simp del] mss_positions.simps [simp del]

text \<open>The facts one walk establishes, from the offset \<open>opt\<close> on.\<close>

definition mss_walk :: "nat \<Rightarrow> u16 \<Rightarrow> byte list \<Rightarrow> byte list \<Rightarrow> nat list \<Rightarrow> bool" where
  "mss_walk tcphdr m p p' os \<longleftrightarrow>
     length p' = length p
     \<and> (\<forall>opt\<in>set os. mss_at p' opt = min (mss_at p opt) m)
     \<and> (\<forall>i. i \<notin> {tcphdr + 16, tcphdr + 17} \<union> (\<Union>opt\<in>set os. {opt + 2, opt + 3}) \<longrightarrow> p' ! i = p ! i)
     \<and> (even tcphdr \<and> (\<forall>opt\<in>set os. even opt) \<longrightarrow>
          byte_sum p' mod 65535 = byte_sum p mod 65535)"

lemma mss_positions_range: "o' \<in> set (mss_positions p olen opt) \<Longrightarrow> opt \<le> o' \<and> o' + 4 \<le> opt + olen"
proof (induction p olen opt rule: mss_positions.induct)
  case (1 p olen opt)
  then show ?case by (subst (asm) (3) mss_positions.simps) (fastforce simp: Let_def split: if_splits)
qed

lemma mss_positions_cong:
  "(\<And>i. opt \<le> i \<Longrightarrow> p' ! i = p ! i) \<Longrightarrow> mss_positions p' olen opt = mss_positions p olen opt"
proof (induction p olen opt rule: mss_positions.induct)
  case (1 p olen opt)
  have h: "p' ! opt = p ! opt" "p' ! (opt + 1) = p ! (opt + 1)" using 1(3) by simp_all
  show ?case
    by (subst (1 2) mss_positions.simps) (use 1 in \<open>simp add: h Let_def\<close>)
qed

lemma mss_walk_refl: "mss_walk tcphdr m p p []"
  by (simp add: mss_walk_def)

lemma mss_walk_step:
  assumes o: "opt + 3 < length p" "tcphdr + 18 \<le> opt"
    and w: "mss_walk tcphdr m (mss_clamp tcphdr m p opt) p' os" and os: "\<forall>o'\<in>set os. opt + 4 \<le> o'"
  shows "mss_walk tcphdr m p p' (opt # os)"
proof -
  let ?q = "mss_clamp tcphdr m p opt"
  have at: "mss_at ?q o' = mss_at p o'" if "o' \<in> set os" for o'
    using that os o by (auto simp: mss_at_def mss_clamp_frame simp del: le_word.simps)
  have fr: "p' ! i = ?q ! i" if "tcphdr + 18 \<le> i" "i < opt + 4" for i
  proof -
    have "i \<notin> {tcphdr + 16, tcphdr + 17} \<union> (\<Union>o'\<in>set os. {o' + 2, o' + 3})" using os that by fastforce
    then show ?thesis using w unfolding mss_walk_def by blast
  qed
  have "mss_at p' opt = mss_at ?q opt" using fr o by (simp add: mss_at_def del: le_word.simps)
  then have v: "mss_at p' opt = min (mss_at p opt) m" by (simp only: mss_clamp_value [OF o])
  have f: "p' ! i = p ! i" if "i \<notin> {tcphdr + 16, tcphdr + 17} \<union> (\<Union>o'\<in>set (opt # os). {o' + 2, o' + 3})" for i
    using w that mss_clamp_frame [of i opt tcphdr m p] unfolding mss_walk_def by simp
  have s: "byte_sum p' mod 65535 = byte_sum p mod 65535"
    if "even tcphdr" "\<forall>o'\<in>set (opt # os). even o'"
    using w that mss_clamp_sum [OF o] unfolding mss_walk_def by simp
  show ?thesis using w v f s at unfolding mss_walk_def by simp
qed

lemma mss_opt_loop_walk:
  assumes "opt + olen \<le> length p" and "tcphdr + 18 \<le> opt"
  shows "\<exists>p'. mss_opt_loop tcphdr m p olen opt = Inr p' \<and> mss_walk tcphdr m p p' (mss_positions p olen opt)"
  using assms
proof (induction tcphdr m p olen opt rule: mss_opt_loop.induct)
  case (1 tcphdr m p olen opt)
  show ?case
  proof (cases "olen \<le> 1")
    case True
    then show ?thesis by (simp add: mss_opt_loop.simps mss_positions.simps mss_walk_refl)
  next
    case False
    have g: "pkt_get p opt = Inr (p ! opt)" "pkt_get p (opt + 1) = Inr (p ! (opt + 1))"
      using False 1(4) by (simp_all add: pkt_get_def)
    define l where "l = unat (p ! (opt + 1))"
    have l: "unat (p ! Suc opt) = l" by (simp add: l_def)
    note s = mss_opt_loop.simps [of tcphdr m p olen opt] mss_positions.simps [of p olen opt]
    consider (eol) "p ! opt = 0" | (nop) "p ! opt = 1"
      | (bad) "p ! opt \<notin> {0, 1}" "l = 0 \<or> l > olen"
      | (mss) "p ! opt = 2" "l = 4" "l \<le> olen"
      | (skip) "p ! opt \<notin> {0, 1}" "\<not> (p ! opt = 2 \<and> l = 4)" "0 < l" "l \<le> olen"
      by fastforce
    then show ?thesis
    proof cases
      case eol
      then show ?thesis using False g by (simp add: s mss_walk_refl)
    next
      case nop
      then show ?thesis using False g 1(1) [of "p ! opt"] 1(4,5) by (simp add: s)
    next
      case bad
      then show ?thesis using False g by (auto simp: s mss_walk_refl l simp del: unat_eq_0)
    next
      case mss
      let ?q = "mss_clamp tcphdr m p opt"
      have o: "opt + 3 < length p" using mss 1(4) by simp
      have r: "\<exists>p'. mss_opt_loop tcphdr m ?q (olen - l) (opt + l) = Inr p'
          \<and> mss_walk tcphdr m ?q p' (mss_positions ?q (olen - l) (opt + l))"
        using 1(2) [of "p ! opt" "p ! (opt + 1)" "Some ?q" ?q] mss False g 1(4,5) mss_option_clamp [OF o 1(5)]
        by (simp add: l_def)
      have pos: "mss_positions ?q (olen - l) (opt + l) = mss_positions p (olen - l) (opt + l)"
        using mss(2) 1(5) by (intro mss_positions_cong mss_clamp_frame) auto
      have lo: "\<forall>o'\<in>set (mss_positions p (olen - l) (opt + l)). opt + 4 \<le> o'"
        using mss_positions_range mss(2) by fastforce
      have e: "mss_opt_loop tcphdr m p olen opt = mss_opt_loop tcphdr m ?q (olen - l) (opt + l)"
          "mss_positions p olen opt = opt # mss_positions p (olen - l) (opt + l)"
        using False mss g mss_option_clamp [OF o 1(5)] by (simp_all add: s l Let_def)
      show ?thesis using r mss_walk_step [OF o 1(5) _ lo] unfolding e pos by blast
    next
      case skip
      have e: "mss_opt_loop tcphdr m p olen opt = mss_opt_loop tcphdr m p (olen - l) (opt + l)"
          "mss_positions p olen opt = mss_positions p (olen - l) (opt + l)"
        using False skip g by (auto simp: s l Let_def simp del: unat_eq_0)
      show ?thesis
        using 1(3) [of "p ! opt" "p ! (opt + 1)"] skip False g 1(4,5) by (auto simp: e l_def simp del: unat_eq_0)
    qed
  qed
qed

section \<open>The clamp on whole packets\<close>

text \<open>
  What the clamp is about: a TCP segment with SYN set and a header within the payload, in an unfragmented IPv4
  packet or directly in an IPv6 packet whose length field is exact; with the offset of the
  TCP header, the limit that applies and the offsets of the MSS options.
\<close>

definition tcp_syn :: "byte list \<Rightarrow> nat \<Rightarrow> u16 \<Rightarrow> (nat \<times> u16 \<times> nat list) option" where
  "tcp_syn p t m =
     (let hlen = tcp_length (p ! (t + 12))
      in if p ! (t + 13) AND 2 \<noteq> 0 \<and> 20 < hlen \<and> hlen \<le> length p - t
         then Some (t, m, mss_positions p (hlen - 20) (t + 20)) else None)"

definition mss_target :: "byte list \<Rightarrow> u16 \<Rightarrow> (nat \<times> u16 \<times> nat list) option" where
  "mss_target p m =
     (if p = [] then None
      else if ip_version (p ! 0) = 4
      then if 20 < length p \<and> p ! 9 = 6 \<and> unat (ntohs (le_word [p ! 2, p ! 3])) = length p
              \<and> ntohs (le_word [p ! 6, p ! 7]) AND 0x1fff = 0 \<and> ipv4_length (p ! 0) + 20 \<le> length p
           then tcp_syn p (ipv4_length (p ! 0)) m else None
      else if ip_version (p ! 0) = 6
      then if 60 \<le> length p \<and> length p = unat (ntohs (le_word [p ! 4, p ! 5])) + 40 \<and> p ! 6 = 6
           then tcp_syn p 40 (m - 20) else None
      else None)"

definition mss_result :: "byte list \<Rightarrow> (nat \<times> u16 \<times> nat list) option \<Rightarrow> byte list \<Rightarrow> bool" where
  "mss_result p target p' = (case target of None \<Rightarrow> p' = p | Some (t, m, os) \<Rightarrow> mss_walk t m p p' os)"

lemma do_mssfix_result:
  assumes "t + 20 \<le> length p"
  shows "\<exists>p'. do_mssfix p t m (length p - t) = Inr p' \<and> mss_result p (tcp_syn p t m) p'"
  using assms mss_opt_loop_walk [of "t + 20" "tcp_length (p ! (t + 12)) - 20" p t m]
  by (auto simp: do_mssfix_def tcp_syn_def mss_result_def pkt_get_def Let_def not_le)

lemma mssfix_result: "\<exists>p'. mssfix p m = Inr p' \<and> mss_result p (mss_target p m) p'"
proof -
  have n: "mss_result p None p" by (simp add: mss_result_def)
  have v4: "\<exists>p'. mssfix_v4 p m = Inr p' \<and> mss_result p (mss_target p m) p'" if "p \<noteq> []" "ip_version (p ! 0) = 4"
  proof (cases "20 < length p")
    case True
    define c where "c \<longleftrightarrow> p ! 9 = 6 \<and> unat (ntohs (le_word [p ! 2, p ! 3])) = length p
              \<and> ntohs (le_word [p ! 6, p ! 7]) AND 0x1fff = 0 \<and> ipv4_length (p ! 0) + 20 \<le> length p"
    have "mss_target p m = (if c then tcp_syn p (ipv4_length (p ! 0)) m else None)"
      using that True by (simp add: mss_target_def c_def del: le_word.simps)
    moreover have "mssfix_v4 p m =
        (if c then do_mssfix p (ipv4_length (p ! 0)) m (length p - ipv4_length (p ! 0)) else Inr p)"
      using True by (auto simp: mssfix_v4_def c_def pkt_get_def pkt_get16_def numeral_eq_Suc Let_def simp del: le_word.simps)
    ultimately show ?thesis using do_mssfix_result n by (simp add: c_def del: le_word.simps)
  qed (use that n in \<open>simp add: mssfix_v4_def mss_target_def\<close>)
  have v6: "\<exists>p'. mssfix_v6 p m = Inr p' \<and> mss_result p (mss_target p m) p'" if "p \<noteq> []" "ip_version (p ! 0) = 6"
  proof (cases "40 < length p")
    case True
    define c where "c \<longleftrightarrow> 60 \<le> length p \<and> length p = unat (ntohs (le_word [p ! 4, p ! 5])) + 40 \<and> p ! 6 = 6"
    have "mss_target p m = (if c then tcp_syn p 40 (m - 20) else None)"
      using that by (simp add: mss_target_def c_def del: le_word.simps)
    moreover have "mssfix_v6 p m = (if c then do_mssfix p 40 (m - 20) (length p - 40) else Inr p)"
      using True by (auto simp: mssfix_v6_def c_def pkt_get_def pkt_get16_def simp del: le_word.simps)
    moreover have "40 + 20 \<le> length p" if c using that by (simp add: c_def)
    ultimately show ?thesis using do_mssfix_result [of 40 p "m - 20"] n by (cases c) simp_all
  qed (use that n in \<open>simp add: mssfix_v6_def mss_target_def\<close>)
  show ?thesis
    using v4 v6 n by (cases "p = []") (auto simp: mssfix_def pkt_get_def mss_target_def)
qed

text \<open>
  The clamp never accesses a byte outside of the packet. A packet that is not a TCP SYN of the supported
  forms is left as it is; otherwise every MSS option ends up with the smaller of its value and the
  limit, and no byte but those values and the TCP checksum changes.
\<close>

lemma mssfix_clamps:
  "\<exists>p'. mssfix p m = Inr p' \<and> length p' = length p
     \<and> (case mss_target p m of
          None \<Rightarrow> p' = p
        | Some (t, limit, os) \<Rightarrow>
            (\<forall>opt\<in>set os. mss_at p' opt = min (mss_at p opt) limit)
            \<and> (\<forall>i. i \<notin> {t + 16, t + 17} \<union> (\<Union>opt\<in>set os. {opt + 2, opt + 3}) \<longrightarrow> p' ! i = p ! i))"
proof -
  obtain p' where r: "mssfix p m = Inr p'" "mss_result p (mss_target p m) p'" using mssfix_result by blast
  show ?thesis
  proof (cases "mss_target p m")
    case None
    then show ?thesis using r by (simp add: mss_result_def)
  next
    case (Some target)
    obtain t limit os where t: "target = (t, limit, os)" by (cases target)
    have w: "mss_walk t limit p p' os" using r(2) by (simp add: mss_result_def Some t)
    show ?thesis unfolding Some t using r(1) w unfolding mss_walk_def by (intro exI [of _ p']) simp
  qed
qed

text \<open>A SYN segment over IPv4 with the options given (padded to a multiple of four bytes).\<close>

definition syn_packet :: "byte list \<Rightarrow> byte list" where
  "syn_packet opts =
     [0x45, 0, 0, of_nat (40 + length opts), 0, 0, 0, 0, 64, 6, 0, 0, 10, 0, 0, 1, 10, 0, 0, 2]
     @ [0, 80, 0, 81, 0, 0, 0, 0, 0, 0, 0, 0, of_nat (4 * (20 + length opts)), 2, 0, 0, 0x12, 0x34, 0, 0] @ opts"

text \<open>
  C33. When the options are at even offsets (the TCP header always is), the clamp keeps the one's complement
  sum of the packet, so a segment with a correct checksum keeps a correct checksum.
\<close>

theorem mssfix_checksum:
  assumes "mss_target p m = Some (t, limit, os)" and "\<forall>opt\<in>set os. even opt"
  shows "\<exists>p'. mssfix p m = Inr p' \<and> byte_sum p' mod 65535 = byte_sum p mod 65535"
proof -
  have "even t" using assms(1)
    by (auto simp: mss_target_def tcp_syn_def ipv4_length_def Let_def simp del: le_word.simps split: if_splits)
  then show ?thesis
    using mssfix_result [of p m] assms
    by (auto simp: mss_result_def mss_walk_def)
qed

theorem mssfix_checksum_witness:
  "\<exists>p'. mssfix (syn_packet [2, 4, 5, 0xb4]) 1000 = Inr p'
     \<and> byte_sum p' mod 65535 = byte_sum (syn_packet [2, 4, 5, 0xb4]) mod 65535"
proof -
  have t: "mss_target (syn_packet [2, 4, 5, 0xb4]) 1000 = Some (20, 1000, [40])" by code_simp
  show ?thesis using mssfix_checksum [OF t] by simp
qed

text \<open>
  An MSS option at an odd offset, as after a single NOP, breaks this: the checksum is adjusted as if the
  value were aligned, and the sum of the packet changes.
\<close>

lemma mssfix_unaligned:
  "\<exists>p'. mssfix (syn_packet [1, 2, 4, 5, 0xb4, 0, 0, 0]) 1000 = Inr p'
     \<and> byte_sum p' mod 65535 \<noteq> byte_sum (syn_packet [1, 2, 4, 5, 0xb4, 0, 0, 0]) mod 65535"
proof -
  have "mssfix (syn_packet [1, 2, 4, 5, 0xb4, 0, 0, 0]) 1000 = Inr
      [69, 0, 0, 48, 0, 0, 0, 0, 64, 6, 0, 0, 10, 0, 0, 1, 10, 0, 0, 2, 0, 80, 0, 81, 0, 0, 0, 0, 0, 0, 0, 0,
       112, 2, 0, 0, 20, 0, 0, 0, 1, 2, 4, 3, 232, 0, 0, 0]"
    by code_simp
  then show ?thesis by (simp add: syn_packet_def)
qed

end
