(* ===== verification/Key_Context.thy ===== *)
theory Key_Context
  imports Proto_Op Data_Limit MSS_Fix OV_Time
begin

text \<open>
  \<open>KeyContext\<close> of ssl/proto.hpp, one TLS session with its data channel keys: its timed events, the
  per-key data limit, the negotiation start and the data channel path (\<open>encrypt\<close> / \<open>decrypt\<close>). The
  cipher (\<open>CryptoDCInstance\<close>) and the compressor are interfaces; they are arguments of the definitions that
  call them (\<open>dc_api\<close>). The clock is an argument. Exceptions keep the state changes made before they are
  thrown: the data channel operations return their outcome beside the buffer and the context. The
  shared error counters are kept as the list of errors a context has reported.
\<close>

type_synonym time64 = "64 word"

section \<open>Data\<close>

datatype kev =
    KEV_NONE
  | KEV_ACTIVE
  | KEV_NEGOTIATE
  | KEV_BECOME_PRIMARY
  | KEV_PRIMARY_PENDING
  | KEV_RENEGOTIATE
  | KEV_RENEGOTIATE_FORCE
  | KEV_RENEGOTIATE_QUEUE
  | KEV_EXPIRE

datatype err =
    ERR_SUCCESS
  | DECRYPT_ERROR
  | HMAC_ERROR
  | REPLAY_ERROR
  | BUFFER_ERROR
  | CC_ERROR
  | PRIMARY_EXPIRE
  | HANDSHAKE_TIMEOUT
  | KEEPALIVE_TIMEOUT
  | KEV_NEGOTIATE_ERROR
  | KEV_PENDING_ERROR
  | N_KEV_EXPIRE
  | N_KEY_LIMIT_RENEG
  | TLS_CRYPT_META_FAIL

datatype rekey_type =
    ACTIVATE_PRIMARY
  | ACTIVATE_PRIMARY_MOVE
  | NEW_SECONDARY
  | PRIMARY_SECONDARY_SWAP
  | DEACTIVATE_SECONDARY
  | DEACTIVATE_ALL

text \<open>The states are the integers of the enumeration; the code compares and increments them.\<close>

definition STATE_UNDEF :: int where "STATE_UNDEF = - 1"
definition C_WAIT_RESET_ACK :: int where "C_WAIT_RESET_ACK = 0"
definition C_WAIT_AUTH_ACK :: int where "C_WAIT_AUTH_ACK = 1"
definition S_WAIT_RESET_ACK :: int where "S_WAIT_RESET_ACK = 2"
definition S_WAIT_AUTH_ACK :: int where "S_WAIT_AUTH_ACK = 3"
definition LAST_ACK_STATE :: int where "LAST_ACK_STATE = 3"
definition C_INITIAL :: int where "C_INITIAL = 4"
definition C_WAIT_RESET :: int where "C_WAIT_RESET = 5"
definition C_WAIT_AUTH :: int where "C_WAIT_AUTH = 6"
definition S_INITIAL :: int where "S_INITIAL = 7"
definition S_WAIT_RESET :: int where "S_WAIT_RESET = 8"
definition S_WAIT_AUTH :: int where "S_WAIT_AUTH = 9"
definition ACTIVE :: int where "ACTIVE = 10"

lemmas kc_state_defs = STATE_UNDEF_def C_WAIT_RESET_ACK_def C_WAIT_AUTH_ACK_def S_WAIT_RESET_ACK_def S_WAIT_AUTH_ACK_def
  LAST_ACK_STATE_def C_INITIAL_def C_WAIT_RESET_def C_WAIT_AUTH_def S_INITIAL_def S_WAIT_RESET_def S_WAIT_AUTH_def ACTIVE_def

text \<open>The part of \<open>ProtoConfig\<close> the modelled code reads.\<close>

record proto_config =
  cfg_server :: bool
  cfg_tcp :: bool
  handshake_window :: time64
  become_primary :: time64
  renegotiate_after :: time64
  expire_after :: time64
  keepalive_ping :: time64
  keepalive_timeout :: time64
  keepalive_timeout_early :: time64
  enable_op32 :: bool
  remote_peer_id :: u32
  mss_fix :: u32

record 'c key_context =
  kc_state :: int
  key_id :: u32
  crypto_defined :: bool
  kc_remote_peer_id :: u32
  kc_enable_op32 :: bool
  kc_dirty :: bool
  key_limit_renegotiation_fired :: bool
  construct_time :: time64
  reached_active_time :: time64
  next_event_time :: time64
  current_event :: kev
  next_event :: kev
  kc_crypto :: "'c option"
  data_channel_key :: "rekey_type option option"
  kc_data_limit :: "data_limit option"
  kc_compress :: bool
  kc_invalidated :: bool
  kc_reason :: err
  raw_write_queue :: "u32 list"
  kc_errors :: "err list"

text \<open>The interfaces of the cipher and of the compressor.\<close>

record 'c dc_api =
  dc_encrypt :: "byte list option \<Rightarrow> buffer \<Rightarrow> 'c \<Rightarrow> bool result \<times> buffer \<times> 'c"
  dc_decrypt :: "time64 \<Rightarrow> byte list option \<Rightarrow> buffer \<Rightarrow> 'c \<Rightarrow> err result \<times> buffer \<times> 'c"
  dc_rekey :: "rekey_type \<Rightarrow> 'c \<Rightarrow> 'c"
  comp_compress :: "bool \<Rightarrow> buffer \<Rightarrow> unit result \<times> buffer"
  comp_decompress :: "buffer \<Rightarrow> unit result \<times> buffer"

section \<open>Events\<close>

definition kc_error :: "err \<Rightarrow> 'c key_context \<Rightarrow> 'c key_context" where
  "kc_error e kc = kc\<lparr>kc_errors := kc_errors kc @ [e]\<rparr>"

definition kc_set_state :: "int \<Rightarrow> 'c key_context \<Rightarrow> 'c key_context" where
  "kc_set_state s kc = kc\<lparr>kc_state := s\<rparr>"

definition kc_set_current_event :: "kev \<Rightarrow> 'c key_context \<Rightarrow> 'c key_context" where
  "kc_set_current_event current kc = kc\<lparr>current_event := current\<rparr>"

definition kc_set_event :: "kev \<Rightarrow> kev \<Rightarrow> time64 \<Rightarrow> 'c key_context \<Rightarrow> 'c key_context" where
  "kc_set_event current nxt t kc = kc\<lparr>current_event := current, next_event := nxt, next_event_time := t\<rparr>"

definition kc_invalidate_callback :: "'c key_context \<Rightarrow> 'c key_context" where
  "kc_invalidate_callback kc =
     kc\<lparr>reached_active_time := tm_zero, next_event := KEV_NONE, next_event_time := tm_infinite\<rparr>"

text \<open>\<open>ProtoStackBase::invalidate\<close>.\<close>

definition kc_invalidate :: "err \<Rightarrow> 'c key_context \<Rightarrow> 'c key_context" where
  "kc_invalidate reason kc =
     (if kc_invalidated kc then kc
      else kc_invalidate_callback (kc\<lparr>kc_invalidated := True, kc_reason := reason\<rparr>))"

definition kc_construct :: "proto_config \<Rightarrow> time64 \<Rightarrow> u32 \<Rightarrow> bool \<Rightarrow> 'c key_context" where
  "kc_construct cfg now kid initiator =
     kc_set_event KEV_NONE KEV_NEGOTIATE (tm_plus now (handshake_window cfg))
       \<lparr>kc_state = (if cfg_server cfg then S_INITIAL else C_INITIAL) + (if initiator then 0 else 1),
        key_id = kid, crypto_defined = False, kc_remote_peer_id = remote_peer_id cfg,
        kc_enable_op32 = enable_op32 cfg, kc_dirty = False, key_limit_renegotiation_fired = False,
        construct_time = now, reached_active_time = tm_zero, next_event_time = tm_zero,
        current_event = KEV_NONE, next_event = KEV_NONE, kc_crypto = None, data_channel_key = None,
        kc_data_limit = None, kc_compress = False, kc_invalidated = False, kc_reason = ERR_SUCCESS,
        raw_write_queue = [], kc_errors = []\<rparr>"

definition kc_initial_op :: "proto_config \<Rightarrow> bool \<Rightarrow> bool \<Rightarrow> 'c key_context \<Rightarrow> u32" where
  "kc_initial_op cfg sender tls_crypt_v2 kc =
     (if key_id kc \<noteq> 0 then CONTROL_SOFT_RESET_V1
      else if cfg_server cfg = sender then CONTROL_HARD_RESET_SERVER_V2
      else if \<not> tls_crypt_v2 then CONTROL_HARD_RESET_CLIENT_V2
      else CONTROL_HARD_RESET_CLIENT_V3)"

text \<open>\<open>raw_send\<close> of a packet without content.\<close>

definition kc_raw_send :: "u32 \<Rightarrow> 'c key_context \<Rightarrow> 'c key_context" where
  "kc_raw_send opcode kc =
     (if kc_invalidated kc then kc else kc\<lparr>raw_write_queue := raw_write_queue kc @ [opcode]\<rparr>)"

definition kc_send_reset :: "proto_config \<Rightarrow> bool \<Rightarrow> 'c key_context \<Rightarrow> 'c key_context" where
  "kc_send_reset cfg tls_crypt_v2 kc = kc_raw_send (kc_initial_op cfg True tls_crypt_v2 kc) kc"

definition kc_start :: "proto_config \<Rightarrow> bool \<Rightarrow> bool \<Rightarrow> 'c key_context \<Rightarrow> 'c key_context" where
  "kc_start cfg tls_crypt_v2 cookie_defined kc =
     (let kc1 = if cookie_defined then (kc_set_state S_WAIT_RESET_ACK kc)\<lparr>kc_dirty := True\<rparr> else kc
      in if kc_state kc1 = C_INITIAL \<or> kc_state kc1 = S_INITIAL
         then (let kc2 = kc_send_reset cfg tls_crypt_v2 kc1 in (kc_set_state (kc_state kc2 + 1) kc2)\<lparr>kc_dirty := True\<rparr>)
         else kc1)"

definition kc_rekey :: "'c dc_api \<Rightarrow> rekey_type \<Rightarrow> 'c key_context \<Rightarrow> 'c key_context" where
  "kc_rekey api ty kc =
     (case kc_crypto kc of
        Some c \<Rightarrow> kc\<lparr>kc_crypto := Some (dc_rekey api ty c)\<rparr>
      | None \<Rightarrow> if data_channel_key kc \<noteq> None then kc\<lparr>data_channel_key := Some (Some ty)\<rparr> else kc)"

definition kc_data_limit_expire :: "proto_config \<Rightarrow> time64 \<Rightarrow> time64" where
  "kc_data_limit_expire cfg now = tm_plus now (dur_times (handshake_window cfg) 2)"

definition kc_prepare_expire :: "proto_config \<Rightarrow> time64 \<Rightarrow> kev \<Rightarrow> 'c key_context \<Rightarrow> 'c key_context" where
  "kc_prepare_expire cfg now current_ev kc =
     kc_set_event current_ev KEV_EXPIRE
       (if key_limit_renegotiation_fired kc then kc_data_limit_expire cfg now
        else tm_plus (construct_time kc) (expire_after cfg)) kc"

definition kc_set_next_event_if_unspecified :: "proto_config \<Rightarrow> time64 \<Rightarrow> 'c key_context \<Rightarrow> 'c key_context" where
  "kc_set_next_event_if_unspecified cfg now kc =
     (if next_event kc = KEV_NONE \<and> \<not> kc_invalidated kc then kc_prepare_expire cfg now KEV_NONE kc else kc)"

definition kc_key_limit_reneg :: "proto_config \<Rightarrow> kev \<Rightarrow> time64 \<Rightarrow> 'c key_context \<Rightarrow> 'c key_context" where
  "kc_key_limit_reneg cfg ev t kc =
     (if tm_defined t then kc_set_event KEV_NONE ev (tm_plus t (dur_seconds (if cfg_server cfg then 2 else 1))) kc
      else kc)"

definition kc_become_primary_time :: "'c key_context \<Rightarrow> time64" where
  "kc_become_primary_time kc = (if next_event kc = KEV_BECOME_PRIMARY then next_event_time kc else tm_zero)"

definition kc_schedule_key_limit_renegotiation :: "proto_config \<Rightarrow> time64 \<Rightarrow> 'c key_context \<Rightarrow> 'c key_context" where
  "kc_schedule_key_limit_renegotiation cfg now kc =
     (if \<not> key_limit_renegotiation_fired kc \<and> kc_state kc \<ge> ACTIVE \<and> \<not> kc_invalidated kc
      then let kc1 = kc_error N_KEY_LIMIT_RENEG (kc\<lparr>key_limit_renegotiation_fired := True\<rparr>)
           in if next_event kc1 = KEV_BECOME_PRIMARY then kc_set_current_event KEV_RENEGOTIATE_QUEUE kc1
              else kc_key_limit_reneg cfg KEV_RENEGOTIATE now kc1
      else kc)"

definition kc_is_decrypt_green :: "'c key_context \<Rightarrow> bool" where
  "kc_is_decrypt_green kc \<longleftrightarrow> (case kc_data_limit kc of Some d \<Rightarrow> dl_is_decrypt_green d | None \<Rightarrow> False)"

definition kc_data_limit_event :: "proto_config \<Rightarrow> time64 \<Rightarrow> dl_state \<Rightarrow> 'c key_context \<Rightarrow> 'c key_context" where
  "kc_data_limit_event cfg now s kc =
     (let kc1 = if s = DL_Red then kc_schedule_key_limit_renegotiation cfg now kc else kc
      in if next_event kc1 = KEV_PRIMARY_PENDING \<and> kc_is_decrypt_green kc1
         then kc_set_event KEV_NONE KEV_BECOME_PRIMARY (tm_plus now (dur_seconds 1)) kc1
         else kc1)"

text \<open>\<open>is_safe_conversion<unsigned int>\<close> of a \<open>size_t\<close>.\<close>

definition is_safe_conversion_u32 :: "size_t \<Rightarrow> bool" where
  "is_safe_conversion_u32 n \<longleftrightarrow> n \<le> 4294967295"

text \<open>\<open>data_limit_add\<close>, called only when there is a data limit.\<close>

definition kc_data_limit_add :: "proto_config \<Rightarrow> time64 \<Rightarrow> dl_mode \<Rightarrow> size_t \<Rightarrow> data_limit \<Rightarrow> 'c key_context
    \<Rightarrow> bool \<times> 'c key_context" where
  "kc_data_limit_add cfg now mode n d kc =
     (if is_safe_conversion_u32 n then (False, kc)
      else let (s, d') = dl_add mode (of_nat n) d; kc1 = kc\<lparr>kc_data_limit := Some d'\<rparr>
           in (True, if s > DL_None then kc_data_limit_event cfg now s kc1 else kc1))"

definition kc_data_limit_notify :: "proto_config \<Rightarrow> time64 \<Rightarrow> dl_mode \<Rightarrow> dl_state \<Rightarrow> 'c key_context \<Rightarrow> 'c key_context" where
  "kc_data_limit_notify cfg now cdl_mode cdl_status kc =
     (case kc_data_limit kc of
        None \<Rightarrow> kc
      | Some d \<Rightarrow> let (s, d') = dl_update_state cdl_mode cdl_status d
                  in kc_data_limit_event cfg now s (kc\<lparr>kc_data_limit := Some d'\<rparr>))"

definition kc_data_limit_defer :: "proto_config \<Rightarrow> 'c key_context \<Rightarrow> bool" where
  "kc_data_limit_defer cfg kc \<longleftrightarrow>
     \<not> cfg_server cfg \<and> kc_data_limit kc \<noteq> None \<and> key_id kc \<noteq> 0 \<and> \<not> kc_is_decrypt_green kc"

definition kc_active_event :: "proto_config \<Rightarrow> 'c key_context \<Rightarrow> 'c key_context" where
  "kc_active_event cfg kc =
     kc_set_event KEV_ACTIVE KEV_BECOME_PRIMARY (tm_plus (reached_active_time kc) (become_primary cfg)) kc"

definition kc_kev_error :: "kev \<Rightarrow> err \<Rightarrow> 'c key_context \<Rightarrow> 'c key_context" where
  "kc_kev_error ev reason kc = kc_set_current_event ev (kc_invalidate reason (kc_error reason kc))"

definition kc_process_next_event :: "proto_config \<Rightarrow> time64 \<Rightarrow> 'c key_context \<Rightarrow> 'c key_context" where
  "kc_process_next_event cfg now kc =
     (if now \<ge> next_event_time kc
      then (case next_event kc of
              KEV_BECOME_PRIMARY \<Rightarrow>
                if kc_data_limit_defer cfg kc
                then kc_set_event KEV_NONE KEV_PRIMARY_PENDING (kc_data_limit_expire cfg now) kc
                else kc_set_event KEV_BECOME_PRIMARY KEV_RENEGOTIATE
                       (tm_plus (construct_time kc) (renegotiate_after cfg)) kc
            | KEV_RENEGOTIATE \<Rightarrow> kc_prepare_expire cfg now KEV_RENEGOTIATE kc
            | KEV_RENEGOTIATE_FORCE \<Rightarrow> kc_prepare_expire cfg now KEV_RENEGOTIATE_FORCE kc
            | KEV_NEGOTIATE \<Rightarrow> kc_kev_error KEV_NEGOTIATE KEV_NEGOTIATE_ERROR kc
            | KEV_PRIMARY_PENDING \<Rightarrow> kc_kev_error KEV_PRIMARY_PENDING KEV_PENDING_ERROR kc
            | KEV_EXPIRE \<Rightarrow> kc_kev_error KEV_EXPIRE N_KEV_EXPIRE kc
            | _ \<Rightarrow> kc)
      else kc)"

definition kc_event_pending :: "proto_config \<Rightarrow> time64 \<Rightarrow> 'c key_context \<Rightarrow> bool \<times> 'c key_context" where
  "kc_event_pending cfg now kc =
     (let kc1 = if current_event kc = KEV_NONE \<and> now \<ge> next_event_time kc then kc_process_next_event cfg now kc else kc
      in (current_event kc1 \<noteq> KEV_NONE, kc1))"

definition kc_reset_event :: "'c key_context \<Rightarrow> 'c key_context" where
  "kc_reset_event kc = kc\<lparr>current_event := KEV_NONE\<rparr>"

section \<open>Data channel\<close>

text \<open>The MSS clamp in the buffer's storage.\<close>

definition buf_mssfix :: "u16 \<Rightarrow> buffer \<Rightarrow> buffer result" where
  "buf_mssfix m b = bindR (mssfix (content b) m) (\<lambda>bs. buf_poke (b_offset b) bs b)"

text \<open>The steps of \<open>do_encrypt\<close> after the data limit: encrypt, then prepend the header.\<close>

definition kc_encrypt_packet :: "'c dc_api \<Rightarrow> buffer \<Rightarrow> 'c \<Rightarrow> 'c key_context \<Rightarrow> bool result \<times> buffer \<times> 'c key_context" where
  "kc_encrypt_packet api b c kc =
     (if kc_enable_op32 kc
      then let op32 = be_bytes 4 (op32_compose DATA_V2 (key_id kc) (kc_remote_peer_id kc));
               (r, b1, c1) = dc_encrypt api (Some op32) b c; kc1 = kc\<lparr>kc_crypto := Some c1\<rparr>
           in (case r of
                 Inl e \<Rightarrow> (Inl e, b1, kc1)
               | Inr w \<Rightarrow> (case buf_prepend op32 b1 of Inl e \<Rightarrow> (Inl e, b1, kc1) | Inr b2 \<Rightarrow> (Inr w, b2, kc1)))
      else let (r, b1, c1) = dc_encrypt api None b c; kc1 = kc\<lparr>kc_crypto := Some c1\<rparr>
           in (case r of
                 Inl e \<Rightarrow> (Inl e, b1, kc1)
               | Inr w \<Rightarrow> (case buf_push_front (op_compose DATA_V1 (key_id kc)) b1 of
                             Inl e \<Rightarrow> (Inl e, b1, kc1)
                           | Inr b2 \<Rightarrow> (Inr w, b2, kc1))))"

definition kc_do_encrypt :: "'c dc_api \<Rightarrow> proto_config \<Rightarrow> time64 \<Rightarrow> bool \<Rightarrow> buffer \<Rightarrow> 'c \<Rightarrow> 'c key_context
    \<Rightarrow> bool result \<times> buffer \<times> 'c key_context" where
  "kc_do_encrypt api cfg now hint b c kc =
     (if \<not> mss_fix cfg \<le> 65535 then (Inr False, b, kc)
      else case (if mss_fix cfg > 0 then buf_mssfix (ucast (mss_fix cfg)) b else Inr b) of
        Inl e \<Rightarrow> (Inl e, b, kc)
      | Inr b1 \<Rightarrow>
          (case (if kc_compress kc then comp_compress api hint b1 else (Inr (), b1)) of
             (Inl e, b2) \<Rightarrow> (Inl e, b2, kc)
           | (Inr u, b2) \<Rightarrow>
               (case (case kc_data_limit kc of
                        None \<Rightarrow> (True, kc)
                      | Some d \<Rightarrow> kc_data_limit_add cfg now Encrypt (b_size b2) d kc) of
                  (False, kc1) \<Rightarrow> (Inr False, b2, kc1)
                | (True, kc1) \<Rightarrow> kc_encrypt_packet api b2 c kc1)))"

definition kc_encrypt :: "'c dc_api \<Rightarrow> proto_config \<Rightarrow> time64 \<Rightarrow> buffer \<Rightarrow> 'c key_context
    \<Rightarrow> unit result \<times> buffer \<times> 'c key_context" where
  "kc_encrypt api cfg now b kc =
     (case kc_crypto kc of
        Some c \<Rightarrow>
          if kc_state kc \<ge> ACTIVE \<and> crypto_defined kc \<and> \<not> kc_invalidated kc
          then (case kc_do_encrypt api cfg now True b c kc of
                  (Inl e, b1, kc1) \<Rightarrow> (Inl e, b1, kc1)
                | (Inr pid_wrap, b1, kc1) \<Rightarrow>
                    (Inr (), b1, if pid_wrap then kc_schedule_key_limit_renegotiation cfg now kc1 else kc1))
          else (Inr (), buf_reset_size b, kc)
      | None \<Rightarrow> (Inr (), buf_reset_size b, kc))"

text \<open>The body of \<open>decrypt\<close> under its \<open>try\<close>: outcome, buffer and context at the throw or the end.\<close>

definition kc_decrypt_finish :: "'c dc_api \<Rightarrow> proto_config \<Rightarrow> buffer \<Rightarrow> 'c key_context \<Rightarrow> unit result \<times> buffer \<times> 'c key_context" where
  "kc_decrypt_finish api cfg b kc =
     (case (if kc_compress kc then comp_decompress api b else (Inr (), b)) of
        (Inl e, b1) \<Rightarrow> (Inl e, b1, kc)
      | (Inr u, b1) \<Rightarrow>
          if mss_fix cfg > 0
          then if mss_fix cfg \<le> 65535
               then (case buf_mssfix (ucast (mss_fix cfg)) b1 of Inl e \<Rightarrow> (Inl e, b1, kc) | Inr b2 \<Rightarrow> (Inr (), b2, kc))
               else (Inl numeric_out_of_range, b1, kc)
          else (Inr (), b1, kc))"

definition kc_decrypt_body :: "'c dc_api \<Rightarrow> proto_config \<Rightarrow> time64 \<Rightarrow> buffer \<Rightarrow> 'c \<Rightarrow> 'c key_context
    \<Rightarrow> unit result \<times> buffer \<times> 'c key_context" where
  "kc_decrypt_body api cfg now b c kc =
     (case buf_at b 0 of
        Inl e \<Rightarrow> (Inl e, b, kc)
      | Inr op \<Rightarrow>
          let head_size = op_head_size (ucast op);
              op32 = (if head_size = OP_SIZE_V2 then Some (take 4 (content b)) else None)
          in case buf_advance head_size b of
               Inl e \<Rightarrow> (Inl e, b, kc)
             | Inr b1 \<Rightarrow>
                 let (r, b2, c1) = dc_decrypt api now op32 b1 c; kc1 = kc\<lparr>kc_crypto := Some c1\<rparr>
                 in case r of
                      Inl e \<Rightarrow> (Inl e, b2, kc1)
                    | Inr er \<Rightarrow>
                        let kc2 = if er \<noteq> ERR_SUCCESS then kc_error er kc1 else kc1;
                            kc3 = if cfg_tcp cfg \<and> (er = DECRYPT_ERROR \<or> er = HMAC_ERROR) then kc_invalidate er kc2 else kc2
                        in (case (case kc_data_limit kc3 of
                                    None \<Rightarrow> (True, kc3)
                                  | Some d \<Rightarrow> kc_data_limit_add cfg now Decrypt (b_size b2) d kc3) of
                              (False, kc4) \<Rightarrow> (Inl (option_error ''Unable to add data limit''), b2, kc4)
                            | (True, kc4) \<Rightarrow> kc_decrypt_finish api cfg b2 kc4))"

definition kc_decrypt :: "'c dc_api \<Rightarrow> proto_config \<Rightarrow> time64 \<Rightarrow> buffer \<Rightarrow> 'c key_context \<Rightarrow> buffer \<times> 'c key_context" where
  "kc_decrypt api cfg now b kc =
     (case kc_crypto kc of
        Some c \<Rightarrow>
          if kc_state kc \<ge> ACTIVE \<and> crypto_defined kc \<and> \<not> kc_invalidated kc
          then (case kc_decrypt_body api cfg now b c kc of
                  (Inr u, b1, kc1) \<Rightarrow> (b1, kc1)
                | (Inl e, b1, kc1) \<Rightarrow>
                    (buf_reset_size b1,
                     let kc2 = kc_error BUFFER_ERROR kc1 in if cfg_tcp cfg then kc_invalidate BUFFER_ERROR kc2 else kc2))
          else (buf_reset_size b, kc)
      | None \<Rightarrow> (buf_reset_size b, kc))"

section \<open>What leaves the data channel, and what arrives\<close>

definition kc_keyed :: "'c key_context \<Rightarrow> 'c \<Rightarrow> bool" where
  "kc_keyed kc c \<longleftrightarrow> kc_crypto kc = Some c \<and> kc_state kc \<ge> ACTIVE \<and> crypto_defined kc \<and> \<not> kc_invalidated kc"

definition kc_header :: "'c key_context \<Rightarrow> byte list" where
  "kc_header kc =
     (if kc_enable_op32 kc then be_bytes 4 (op32_compose DATA_V2 (key_id kc) (kc_remote_peer_id kc))
      else [op_compose DATA_V1 (key_id kc)])"

definition kc_ad :: "'c key_context \<Rightarrow> byte list option" where
  "kc_ad kc = (if kc_enable_op32 kc then Some (kc_header kc) else None)"

text \<open>
  What is assumed of the cipher: what the sender's state encrypts under some additional data, the receiver's
  state decrypts to the same bytes under the same additional data.
\<close>

definition dc_inverse :: "'c dc_api \<Rightarrow> 'c \<Rightarrow> 'c \<Rightarrow> bool" where
  "dc_inverse api c c' \<longleftrightarrow>
     (\<forall>ad b w b1 c1. buf_wf b \<longrightarrow> dc_encrypt api ad b c = (Inr w, b1, c1) \<longrightarrow>
        buf_wf b1 \<and> (\<forall>t b2. buf_wf b2 \<and> content b2 = content b1 \<longrightarrow>
           (\<exists>b3 c3. dc_decrypt api t ad b2 c' = (Inr ERR_SUCCESS, b3, c3) \<and> content b3 = content b)))"

lemma kc_encrypt_packet_output:
  assumes "kc_encrypt_packet api b c kc = (Inr w, b', kc')"
  shows "\<exists>b1 c1. dc_encrypt api (kc_ad kc) b c = (Inr w, b1, c1) \<and> (buf_wf b1 \<longrightarrow> buf_wf b' \<and> content b' = kc_header kc @ content b1)"
proof (cases "kc_enable_op32 kc")
  case True
  have "buf_wf x \<longrightarrow> buf_wf b' \<and> content b' = be_bytes 4 v @ content x" if "buf_prepend (be_bytes 4 v) x = Inr b'" for v :: u32 and x
    using that buf_prepend_Inr [of x "be_bytes 4 v" b'] by (auto simp: sz_max_def)
  with True show ?thesis using assms
    by (auto simp: kc_encrypt_packet_def kc_ad_def kc_header_def Let_def split: prod.splits sum.splits)
next
  case False
  have "buf_wf x \<longrightarrow> buf_wf b' \<and> content b' = v # content x" if "buf_push_front v x = Inr b'" for v x
    using that buf_push_front_eq [of x v] by (cases "b_offset x = 0") (auto simp: buf_push_front_def)
  with False show ?thesis using assms
    by (auto simp: kc_encrypt_packet_def kc_ad_def kc_header_def Let_def split: prod.splits sum.splits)
qed

lemma kc_encrypt_output:
  assumes k: "kc_keyed kc c" and n: "kc_data_limit kc = None" "\<not> kc_compress kc" "mss_fix cfg = 0"
    and r: "kc_encrypt api cfg now b kc = (Inr (), b', kc')"
  shows "\<exists>w b1 c1. dc_encrypt api (kc_ad kc) b c = (Inr w, b1, c1)
    \<and> (buf_wf b1 \<longrightarrow> buf_wf b' \<and> content b' = kc_header kc @ content b1)"
proof -
  have "kc_encrypt api cfg now b kc =
      (case kc_encrypt_packet api b c kc of
         (Inl e, b1, kc1) \<Rightarrow> (Inl e, b1, kc1)
       | (Inr pid_wrap, b1, kc1) \<Rightarrow>
           (Inr (), b1, if pid_wrap then kc_schedule_key_limit_renegotiation cfg now kc1 else kc1))"
    using k n by (simp add: kc_encrypt_def kc_do_encrypt_def kc_keyed_def)
  then obtain w kc1 where "kc_encrypt_packet api b c kc = (Inr w, b', kc1)"
    using r by (auto split: prod.splits sum.splits)
  then show ?thesis using kc_encrypt_packet_output [of api b c kc w] by blast
qed

lemma kc_header_facts:
  assumes "unat (key_id kc) < 8"
  shows "kc_header kc \<noteq> []" "length (kc_header kc) = op_head_size (ucast (hd (kc_header kc)))"
    "op_head_size (ucast (hd (kc_header kc))) = OP_SIZE_V2 \<longleftrightarrow> kc_enable_op32 kc"
  using assms
  by (auto simp: kc_header_def op32_bytes op_head_size_def OP_SIZE_V2_def opcode_defs simp flip: length_greater_0_conv)

lemma kc_decrypt_input:
  assumes k: "kc_keyed kc c" and n: "kc_data_limit kc = None" "\<not> kc_compress kc" "mss_fix cfg = 0"
    and h: "unat (key_id ks) < 8" and b: "buf_wf b" "content b = kc_header ks @ bs"
    and d: "\<And>b1. buf_wf b1 \<Longrightarrow> content b1 = bs \<Longrightarrow>
      \<exists>b3 c3. dc_decrypt api now (kc_ad ks) b1 c = (Inr ERR_SUCCESS, b3, c3) \<and> content b3 = out"
  shows "content (fst (kc_decrypt api cfg now b kc)) = out"
proof -
  note hf = kc_header_facts [OF h]
  let ?n = "length (kc_header ks)"
  have sz: "b_size b = ?n + length bs" using b length_content [OF b(1)] by simp
  have at: "buf_at b 0 = Inr (hd (kc_header ks))"
    using hf(1) b sz by (simp add: buf_at_eq nth_append hd_conv_nth)
  define bb where "bb = b\<lparr>b_offset := b_offset b + ?n, b_size := b_size b - ?n\<rparr>"
  have adv: "buf_advance ?n b = Inr bb" using sz by (simp add: buf_advance_def bb_def)
  have bb: "buf_wf bb" "content bb = bs"
    unfolding bb_def content_consume using wf_consume [OF b(1), of ?n] b(2) sz by simp_all
  have ad: "(if ?n = OP_SIZE_V2 then Some (take 4 (content b)) else None) = kc_ad ks"
    using hf b(2) by (auto simp: kc_ad_def OP_SIZE_V2_def)
  obtain b3 c3 where 3: "dc_decrypt api now (kc_ad ks) bb c = (Inr ERR_SUCCESS, b3, c3)" "content b3 = out"
    using d [OF bb] by blast
  have "kc_decrypt_body api cfg now b c kc = (Inr (), b3, kc\<lparr>kc_crypto := Some c3\<rparr>)"
    unfolding kc_decrypt_body_def at using adv ad 3 n
    by (simp add: hf(2) [symmetric] kc_decrypt_finish_def Let_def)
  then show ?thesis using k 3(2) by (simp add: kc_decrypt_def kc_keyed_def)
qed

text \<open>
  A data packet encrypted on one end's key and decrypted on the other end's comes back as it was, for the
  one-byte and the four-byte header, when the cipher inverts itself and no data limit is configured; and
  the receiver classifies it as a data packet of that key.
\<close>

lemma kc_data_round_trip:
  assumes "kc_keyed ks c" "kc_data_limit ks = None" "\<not> kc_compress ks" "mss_fix cfg = 0"
    and "kc_keyed kr c'" "kc_data_limit kr = None" "\<not> kc_compress kr" "mss_fix cfg' = 0"
    and "dc_inverse api c c'" and "buf_wf b" and "unat (key_id ks) < 8"
    and "kc_encrypt api cfg now b ks = (Inr (), b', ks')"
  shows "content (fst (kc_decrypt api cfg' now' b' kr)) = content b
     \<and> (ki_primary ids = Some (key_id ks) \<longrightarrow> pt_is_data (packet_type_of ids (content b')))"
proof -
  obtain w b1 c1 where e: "dc_encrypt api (kc_ad ks) b c = (Inr w, b1, c1)"
    and o: "buf_wf b1 \<longrightarrow> buf_wf b' \<and> content b' = kc_header ks @ content b1"
    using kc_encrypt_output [OF assms(1-4,12)] by blast
  have wf: "buf_wf b1" using assms(9,10) e unfolding dc_inverse_def by blast
  have "content (fst (kc_decrypt api cfg' now' b' kr)) = content b"
    by (rule kc_decrypt_input [OF assms(5-8,11), of _ "content b1"])
      (use o wf assms(9,10) e in \<open>auto simp: dc_inverse_def\<close>)
  moreover have "pt_is_data (packet_type_of ids (content b'))" if "ki_primary ids = Some (key_id ks)"
  proof (cases "kc_enable_op32 ks")
    case True
    then have "content b' = be_bytes 4 (op32_compose DATA_V2 (key_id ks) (kc_remote_peer_id ks)) @ content b1"
      using o wf by (simp add: kc_header_def)
    then show ?thesis
      using that by (simp add: packet_type_data_v2 [OF assms(11)] pt_examine_key_id_def pt_is_data_def pt_defs)
  next
    case False
    then have "content b' = op_compose DATA_V1 (key_id ks) # content b1" using o wf by (simp add: kc_header_def)
    then show ?thesis
      using that assms(11)
      by (simp add: packet_type_of_def pt_examine_opcode_def pt_examine_key_id_def pt_is_data_def pt_defs opcode_defs)
  qed
  ultimately show ?thesis by blast
qed

text \<open>A toy cipher, to have one: exclusive or with a constant.\<close>

definition xor_api :: "unit dc_api" where
  "xor_api = \<lparr>dc_encrypt = (\<lambda>ad b c. (Inr False, b\<lparr>b_data := map (\<lambda>x. x XOR 0x5a) (b_data b)\<rparr>, c)),
     dc_decrypt = (\<lambda>t ad b c. (Inr ERR_SUCCESS, b\<lparr>b_data := map (\<lambda>x. x XOR 0x5a) (b_data b)\<rparr>, c)),
     dc_rekey = (\<lambda>ty c. c), comp_compress = (\<lambda>h b. (Inr (), b)), comp_decompress = (\<lambda>b. (Inr (), b))\<rparr>"

lemma xor_inverse: "dc_inverse xor_api () ()"
  by (auto simp: dc_inverse_def xor_api_def content_def buf_wf_def take_map drop_map comp_def xor.assoc)


definition ex_cfg :: proto_config where
  "ex_cfg = \<lparr>cfg_server = False, cfg_tcp = False, handshake_window = 61440, become_primary = 61440,
      renegotiate_after = 3686400, expire_after = 7372800, keepalive_ping = 8192, keepalive_timeout = 40960,
      keepalive_timeout_early = 40960, enable_op32 = True, remote_peer_id = 7, mss_fix = 0\<rparr>"

definition ex_key :: "bool \<Rightarrow> unit key_context" where
  "ex_key op32 = (kc_construct (ex_cfg\<lparr>enable_op32 := op32\<rparr>) 5 2 True)
     \<lparr>kc_state := ACTIVE, kc_crypto := Some (), crypto_defined := True\<rparr>"

definition ex_buf :: buffer where
  "ex_buf = \<lparr>b_data = [0, 0, 0, 0, 1, 2, 3], b_offset = 4, b_size = 3, b_capacity = 7, b_flags = None\<rparr>"

lemma ex_buf_facts: "buf_wf ex_buf" "content ex_buf = [1, 2, 3]" "mss_fix ex_cfg = 0"
  by (simp_all add: ex_buf_def buf_wf_def content_def sz_max_def ex_cfg_def)

lemma ex_key_facts: "kc_keyed (ex_key op32) ()" "kc_data_limit (ex_key op32) = None" "\<not> kc_compress (ex_key op32)"
  "key_id (ex_key op32) = 2" "kc_enable_op32 (ex_key op32) = op32"
  by (simp_all add: ex_key_def kc_keyed_def kc_construct_def kc_set_event_def)

lemma kc_decrypt_body_limit:
  assumes d: "kc_data_limit kc = Some d"
    and api: "\<And>ad b'. b_size b' \<le> b_size b \<Longrightarrow> b_size (fst (snd (dc_decrypt api now ad b' c))) \<le> 4294967295"
  shows "\<exists>e b1 kc1. kc_decrypt_body api cfg now b c kc = (Inl e, b1, kc1)"
proof (cases "buf_at b 0")
  case (Inr op)
  let ?n = "op_head_size (ucast op)"
  show ?thesis
  proof (cases "buf_advance ?n b")
    case Inl
    then show ?thesis by (simp add: kc_decrypt_body_def Inr Let_def)
  next
    case adv: (Inr b1)
    define ad where "ad = (if ?n = OP_SIZE_V2 then Some (take 4 (content b)) else None)"
    obtain r b2 c1 where r: "dc_decrypt api now ad b1 c = (r, b2, c1)" by (metis prod_cases3)
    have "b_size b1 \<le> b_size b" using adv by (auto simp: buf_advance_def split: if_splits)
    then have "is_safe_conversion_u32 (b_size b2)" using api [of b1 ad] r by (simp add: is_safe_conversion_u32_def)
    moreover have "kc_data_limit (kc_error er k) = kc_data_limit k" "kc_data_limit (kc_invalidate er k) = kc_data_limit k" for er and k :: "'a key_context"
      by (simp_all add: kc_error_def kc_invalidate_def kc_invalidate_callback_def)
    ultimately show ?thesis
      using d by (cases r) (simp_all add: kc_decrypt_body_def Inr adv ad_def [symmetric] r kc_data_limit_add_def Let_def)
  qed
qed (simp add: kc_decrypt_body_def)

text \<open>
  C28. With a data limit configured (any cipher of 64-bit blocks), \<open>data_limit_add\<close> refuses every packet whose
  size fits 32 bits. \<open>encrypt\<close> then returns with the packet as it was, neither encrypted nor given a
  header, whatever the cipher; and \<open>decrypt\<close> drops every packet, on TCP with the session.
\<close>

theorem kc_data_limit_plaintext:
  assumes "kc_keyed kc c" "kc_data_limit kc = Some d" "\<not> kc_compress kc" "mss_fix cfg = 0" "b_size b \<le> 4294967295"
    and "\<And>ad b'. b_size b' \<le> b_size b \<Longrightarrow> b_size (fst (snd (dc_decrypt api now ad b' c))) \<le> 4294967295"
  shows "kc_encrypt api cfg now b kc = (Inr (), b, kc)
    \<and> content (fst (kc_decrypt api cfg now b kc)) = []
    \<and> (cfg_tcp cfg \<longrightarrow> kc_invalidated (snd (kc_decrypt api cfg now b kc)))"
proof -
  have "kc_encrypt api cfg now b kc = (Inr (), b, kc)"
    using assms(1-5) by (simp add: kc_encrypt_def kc_keyed_def kc_do_encrypt_def kc_data_limit_add_def is_safe_conversion_u32_def)
  moreover obtain e b1 kc1 where x: "kc_decrypt_body api cfg now b c kc = (Inl e, b1, kc1)"
    using kc_decrypt_body_limit [of kc d b api now c cfg, OF assms(2,6)] by blast
  ultimately show ?thesis
    using assms(1) by (simp add: kc_decrypt_def kc_keyed_def buf_reset_size_def kc_invalidate_def kc_invalidate_callback_def Let_def)
qed

theorem kc_data_limit_plaintext_witness:
  "kc_encrypt xor_api ex_cfg 9 ex_buf ((ex_key True)\<lparr>kc_data_limit := Some (dl_init 48000000 48000000)\<rparr>)
     = (Inr (), ex_buf, (ex_key True)\<lparr>kc_data_limit := Some (dl_init 48000000 48000000)\<rparr>)"
proof -
  let ?k = "(ex_key True)\<lparr>kc_data_limit := Some (dl_init 48000000 48000000)\<rparr>"
  have "kc_keyed ?k ()" "\<not> kc_compress ?k" using ex_key_facts(1,3) [of True] by (simp_all add: kc_keyed_def)
  then show ?thesis
    using kc_data_limit_plaintext [of ?k "()" "dl_init 48000000 48000000" ex_cfg ex_buf xor_api 9] ex_buf_facts(3)
    by (simp add: ex_buf_def xor_api_def)
qed

end
