(* ===== verification/Split_Lines.thy ===== *)
theory Split_Lines
  imports OV_Prelude
begin

text \<open>
  The line reader of common/splitlines.hpp with the trimming functions of common/string.hpp it uses. The
  reader's state is its record; reading to the end with \<open>trim = false\<close> partitions the text, and
  the lines of a text that was joined from lines are those lines.
\<close>

section \<open>Trimming\<close>

abbreviation (input) LF :: char where "LF \<equiv> CHR 0x0A"
abbreviation (input) CR :: char where "CR \<equiv> CHR 0x0D"

definition ends_with_crlf :: "string \<Rightarrow> bool" where
  "ends_with_crlf str \<longleftrightarrow> (if length str > 0 then last str = LF \<or> last str = CR else False)"

function trim_crlf :: "string \<Rightarrow> string" where
  "trim_crlf str = (if ends_with_crlf str then trim_crlf (butlast str) else str)"
  by pat_completeness auto
termination
  by (relation "measure length") (auto simp: ends_with_crlf_def split: if_splits)

declare trim_crlf.simps [simp del]

section \<open>The reader\<close>

record split_lines =
  sl_data :: string
  sl_max_line_len :: size_t
  sl_index :: size_t
  sl_line :: string
  sl_line_valid :: bool
  sl_overflow :: bool

definition sl_ctor :: "string \<Rightarrow> size_t \<Rightarrow> split_lines" where
  "sl_ctor str max_line_len_arg =
     \<lparr>sl_data = str, sl_max_line_len = max_line_len_arg, sl_index = 0, sl_line = [],
      sl_line_valid = False, sl_overflow = False\<rparr>"

text \<open>The loop of \<open>operator()\<close>; the state when it is left and the value returned.\<close>

function sl_loop :: "bool \<Rightarrow> size_t \<Rightarrow> split_lines \<Rightarrow> bool \<times> split_lines" where
  "sl_loop trim overflow_index s =
     (if sl_index s < length (sl_data s)
      then if sl_max_line_len s \<noteq> 0 \<and> sl_index s \<ge> overflow_index then (True, s\<lparr>sl_overflow := True\<rparr>)
           else let c = sl_data s ! sl_index s;
                    s1 = s\<lparr>sl_index := sl_index s + 1, sl_line := sl_line s @ [c]\<rparr>
                in if c = LF \<or> sl_index s1 \<ge> length (sl_data s1)
                   then (True, if trim then s1\<lparr>sl_line := trim_crlf (sl_line s1)\<rparr> else s1)
                   else sl_loop trim overflow_index s1
      else (False, s\<lparr>sl_line_valid := False\<rparr>))"
  by pat_completeness auto
termination
  by (relation "measure (\<lambda>(_, _, s). length (sl_data s) - sl_index s)") auto

declare sl_loop.simps [simp del]

definition sl_next_line :: "bool \<Rightarrow> split_lines \<Rightarrow> bool \<times> split_lines" where
  "sl_next_line trim s =
     sl_loop trim (sz_add (sl_index s) (sl_max_line_len s))
       (s\<lparr>sl_line := [], sl_overflow := False, sl_line_valid := True\<rparr>)"

definition sl_validate :: "split_lines \<Rightarrow> unit result" where
  "sl_validate s =
     (if \<not> sl_line_valid s then Inl moved_error
      else if sl_overflow s then Inl (overflow_error (sl_line s)) else Inr ())"

definition sl_line_ref :: "split_lines \<Rightarrow> string result" where
  "sl_line_ref s = bindR (sl_validate s) (\<lambda>_. Inr (sl_line s))"

text \<open>Moving a \<open>std::string\<close> out leaves an unspecified line, which \<open>line_valid\<close> guards.\<close>

definition sl_line_move :: "split_lines \<Rightarrow> (string \<times> split_lines) result" where
  "sl_line_move s = bindR (sl_validate s) (\<lambda>_. Inr (sl_line s, s\<lparr>sl_line_valid := False, sl_line := []\<rparr>))"

datatype sl_status = S_OKAY | S_EOF | S_ERROR

definition sl_next :: "bool \<Rightarrow> split_lines \<Rightarrow> sl_status \<times> string \<times> split_lines" where
  "sl_next trim s =
     (case sl_next_line trim s of
        (False, s1) \<Rightarrow> (S_EOF, [], s1)
      | (True, s1) \<Rightarrow> if sl_overflow s1 then (S_ERROR, [], s1)
                      else (S_OKAY, sl_line s1, s1\<lparr>sl_line_valid := False, sl_line := []\<rparr>))"

section \<open>Reading a whole text\<close>

text \<open>The lines a client of the unlimited reader sees, as \<open>while (in(trim)) ... in.line_ref()\<close>.\<close>

function sl_read_all :: "bool \<Rightarrow> split_lines \<Rightarrow> string list" where
  "sl_read_all trim s =
     (case sl_next_line trim s of
        (False, s1) \<Rightarrow> []
      | (True, s1) \<Rightarrow> if sl_index s1 > sl_index s \<and> length (sl_data s1) = length (sl_data s)
                         \<and> sl_index s < length (sl_data s)
                      then sl_line s1 # sl_read_all trim s1 else [])"
  by pat_completeness auto
termination
  by (relation "measure (\<lambda>(_, s). length (sl_data s) - sl_index s)") auto

declare sl_read_all.simps [simp del]

text \<open>The reference: a text cut behind each line feed.\<close>

fun cut_lines :: "string \<Rightarrow> string \<Rightarrow> string list" where
  "cut_lines acc [] = (if acc = [] then [] else [acc])"
| "cut_lines acc (c # cs) = (if c = LF then (acc @ [c]) # cut_lines [] cs else cut_lines (acc @ [c]) cs)"

lemma concat_cut_lines: "concat (cut_lines acc cs) = acc @ cs"
  by (induction acc cs rule: cut_lines.induct) auto

lemma sl_loop_cut:
  assumes "sl_max_line_len s = 0" and "sl_index s < length (sl_data s)"
  shows "\<exists>l s1. sl_loop trim ov s = (True, s1)
     \<and> sl_line s1 = (if trim then trim_crlf l else l)
     \<and> sl_data s1 = sl_data s \<and> sl_max_line_len s1 = 0 \<and> sl_index s < sl_index s1 \<and> sl_index s1 \<le> length (sl_data s)
     \<and> sl_overflow s1 = sl_overflow s \<and> sl_line_valid s1 = sl_line_valid s
     \<and> cut_lines (sl_line s) (drop (sl_index s) (sl_data s)) = l # cut_lines [] (drop (sl_index s1) (sl_data s))"
  using assms
proof (induction trim ov s rule: sl_loop.induct)
  case (1 trim ov s)
  define c where "c = sl_data s ! sl_index s"
  define s1 where "s1 = s\<lparr>sl_index := sl_index s + 1, sl_line := sl_line s @ [c]\<rparr>"
  have d: "drop (sl_index s) (sl_data s) = c # drop (sl_index s + 1) (sl_data s)"
    using 1(3) by (simp add: c_def Cons_nth_drop_Suc)
  show ?case
  proof (cases "c = LF \<or> sl_index s1 \<ge> length (sl_data s1)")
    case True
    have "sl_loop trim ov s = (True, if trim then s1\<lparr>sl_line := trim_crlf (sl_line s1)\<rparr> else s1)"
      using 1(2,3) True by (subst sl_loop.simps) (simp add: Let_def c_def s1_def)
    moreover have "cut_lines (sl_line s) (drop (sl_index s) (sl_data s)) =
        (sl_line s @ [c]) # cut_lines [] (drop (sl_index s + 1) (sl_data s))"
      using True 1(3) unfolding d by (auto simp: s1_def)
    ultimately show ?thesis using 1(2,3) by (intro exI [of _ "sl_line s @ [c]"]) (auto simp: s1_def)
  next
    case False
    have e: "sl_loop trim ov s = sl_loop trim ov s1"
      using 1(2,3) False by (subst sl_loop.simps) (simp add: Let_def c_def s1_def)
    have "cut_lines (sl_line s) (drop (sl_index s) (sl_data s)) = cut_lines (sl_line s1) (drop (sl_index s1) (sl_data s1))"
      using False unfolding d by (simp add: s1_def)
    moreover note 1(1) [OF 1(3) _ c_def s1_def False]
    ultimately show ?thesis unfolding e using False 1(2) by (fastforce simp: s1_def)
  qed
qed

lemma sl_read_all_cut:
  assumes "sl_max_line_len s = 0"
  shows "sl_read_all trim s = map (\<lambda>l. if trim then trim_crlf l else l) (cut_lines [] (drop (sl_index s) (sl_data s)))"
  using assms
proof (induction trim s rule: sl_read_all.induct)
  case (1 trim s)
  let ?s0 = "s\<lparr>sl_line := [], sl_overflow := False, sl_line_valid := True\<rparr>"
  show ?case
  proof (cases "sl_index s < length (sl_data s)")
    case True
    then obtain l s1 where n: "sl_next_line trim s = (True, s1)" "sl_line s1 = (if trim then trim_crlf l else l)"
        "sl_data s1 = sl_data s" "sl_max_line_len s1 = 0" "sl_index s < sl_index s1"
        "cut_lines [] (drop (sl_index s) (sl_data s)) = l # cut_lines [] (drop (sl_index s1) (sl_data s))"
      using sl_loop_cut [of ?s0 trim "sz_add (sl_index s) (sl_max_line_len s)"] 1(2) by (auto simp: sl_next_line_def)
    have "sl_read_all trim s = sl_line s1 # sl_read_all trim s1"
      using n True by (subst sl_read_all.simps) simp
    moreover have "sl_read_all trim s1 =
        map (\<lambda>l. if trim then trim_crlf l else l) (cut_lines [] (drop (sl_index s1) (sl_data s1)))"
      using 1(1) [OF n(1) [symmetric] refl] n True by simp
    ultimately show ?thesis using n by simp
  next
    case False
    then have "sl_next_line trim s = (False, ?s0\<lparr>sl_line_valid := False\<rparr>)"
      unfolding sl_next_line_def by (subst sl_loop.simps) simp
    then show ?thesis using False by (subst sl_read_all.simps) simp
  qed
qed

lemma cut_lines_joined:
  "\<forall>l\<in>set ls. LF \<notin> set l \<Longrightarrow> cut_lines [] (concat (map (\<lambda>l. l @ [LF]) ls)) = map (\<lambda>l. l @ [LF]) ls"
proof (induction ls)
  case (Cons l ls)
  have "cut_lines acc (l @ LF # xs) = (acc @ l @ [LF]) # cut_lines [] xs" for acc xs
    using Cons.prems by (induction l arbitrary: acc) auto
  then show ?case using Cons by simp
qed simp

lemma trim_crlf_LF: "\<not> ends_with_crlf l \<Longrightarrow> trim_crlf (l @ [LF]) = l"
  by (subst trim_crlf.simps) (simp add: ends_with_crlf_def trim_crlf.simps split: if_splits)

text \<open>
  Reading without trimming loses nothing and cuts behind line feeds only; reading a text joined from lines
  with trimming gives the lines back.
\<close>

lemma sl_read_all_text:
  "concat (sl_read_all False (sl_ctor str 0)) = str"
  "\<forall>l\<in>set ls. LF \<notin> set l \<and> \<not> ends_with_crlf l \<Longrightarrow>
     sl_read_all True (sl_ctor (concat (map (\<lambda>l. l @ [LF]) ls)) 0) = ls"
  by (simp_all add: sl_read_all_cut sl_ctor_def concat_cut_lines cut_lines_joined trim_crlf_LF map_idI)

end
