(* ===== verification/Static_Key.thy ===== *)
theory Static_Key
  imports Hex_Str Split_Lines
begin

text \<open>
  The 256-byte static keys of crypto/static_key.hpp: the text form, exclusive or, and the slices the
  data and control channels take. Shown: parsing the rendered form gives the key back, and the slice one
  side encrypts with is the slice the other side decrypts with.
\<close>

definition KEY_SIZE :: nat where "KEY_SIZE = 256"

definition KEY_CIPHER :: nat where "KEY_CIPHER = 0"
definition KEY_HMAC :: nat where "KEY_HMAC = 1"
definition KEY_ENCRYPT :: nat where "KEY_ENCRYPT = 0"
definition KEY_DECRYPT :: nat where "KEY_DECRYPT = 2"
definition KEY_NORMAL :: nat where "KEY_NORMAL = 0"
definition KEY_INVERSE :: nat where "KEY_INVERSE = 4"

definition static_key_head :: string where "static_key_head = ''-----BEGIN OpenVPN Static key V1-----''"
definition static_key_foot :: string where "static_key_foot = ''-----END OpenVPN Static key V1-----''"

text \<open>
  \<open>XOR\<close>: the assertion on both keys, then the loop over this key's bytes; reading past the other
  key's end throws with the bytes before already changed.
\<close>

fun sk_xor_loop :: "byte list \<Rightarrow> byte list \<Rightarrow> exn option \<times> byte list" where
  "sk_xor_loop [] ys = (None, [])"
| "sk_xor_loop (x # xs) [] = (Some (BufferException buffer_const_index), x # xs)"
| "sk_xor_loop (x # xs) (y # ys) = (let (e, r) = sk_xor_loop xs ys in (e, (x XOR y) # r))"

definition sk_XOR :: "byte list \<Rightarrow> byte list \<Rightarrow> exn option \<times> byte list" where
  "sk_XOR key other = (if key = [] \<or> other = [] then (Some undefined_behaviour, key) else sk_xor_loop key other)"

definition sk_slice :: "byte list \<Rightarrow> nat \<Rightarrow> byte list result" where
  "sk_slice key key_specifier =
     (if length key \<noteq> KEY_SIZE then Inl static_key_bad_size
      else let idx = [0, 1, 2, 3, 2, 3, 0, 1] ! (key_specifier mod 8) * 64
           in Inr (take (KEY_SIZE div 4) (drop idx key)))"

text \<open>
  One line of the body into the buffer of \<open>KEY_SIZE\<close> bytes; \<open>parse_hex\<close> pushes byte by byte, so a
  full buffer is reported before an error further on in the line.
\<close>

definition sk_parse_line :: "byte list \<Rightarrow> string \<Rightarrow> byte list result" where
  "sk_parse_line dat line =
     (let (e, dat') = parse_hex dat line
      in if length dat' > KEY_SIZE then Inl (BufferException buffer_full)
         else case e of Some x \<Rightarrow> Inl x | None \<Rightarrow> Inr dat')"

fun sk_parse_loop :: "string list \<Rightarrow> bool \<Rightarrow> byte list \<Rightarrow> (bool \<times> byte list) result" where
  "sk_parse_loop [] in_body dat = Inr (in_body, dat)"
| "sk_parse_loop (line # ls) in_body dat =
     (if line = static_key_head then sk_parse_loop ls True dat
      else if line = static_key_foot then sk_parse_loop ls False dat
      else if in_body
      then (case sk_parse_line dat line of Inl e \<Rightarrow> Inl e | Inr dat' \<Rightarrow> sk_parse_loop ls in_body dat')
      else sk_parse_loop ls in_body dat)"

definition sk_parse :: "string \<Rightarrow> byte list result" where
  "sk_parse key_text =
     bindR (sk_parse_loop (sl_read_all True (sl_ctor key_text 0)) False []) (\<lambda>(in_body, dat).
       if in_body \<or> length dat \<noteq> KEY_SIZE then Inl static_key_parse_error else Inr dat)"

fun sk_render_rows :: "nat \<Rightarrow> byte list \<Rightarrow> string list" where
  "sk_render_rows 0 dat = []"
| "sk_render_rows (Suc n) dat = render_hex (Some (take 16 dat)) False # sk_render_rows n (drop 16 dat)"

definition sk_render :: "byte list \<Rightarrow> string result" where
  "sk_render key =
     (if length key \<noteq> KEY_SIZE then Inl static_key_bad_size
      else Inr (concat (map (\<lambda>l. l @ [LF]) ([static_key_head] @ sk_render_rows 16 key @ [static_key_foot]))))"

section \<open>Exclusive or and slices\<close>

lemma sk_xor_loop_eq: "length ys \<ge> length xs \<Longrightarrow> sk_xor_loop xs ys = (None, map2 (XOR) xs ys)"
  by (induction xs ys rule: sk_xor_loop.induct) auto

lemma sk_slices:
  assumes "length key = KEY_SIZE" and "use = KEY_CIPHER \<or> use = KEY_HMAC"
  shows "sk_slice key (use + KEY_ENCRYPT + KEY_NORMAL) = sk_slice key (use + KEY_DECRYPT + KEY_INVERSE)"
    "sk_slice key (use + KEY_DECRYPT + KEY_NORMAL) = sk_slice key (use + KEY_ENCRYPT + KEY_INVERSE)"
    "\<exists>k1 k2 k3 k4. key = k1 @ k2 @ k3 @ k4 \<and> sk_slice key (KEY_CIPHER + KEY_ENCRYPT + KEY_NORMAL) = Inr k1
       \<and> sk_slice key (KEY_HMAC + KEY_ENCRYPT + KEY_NORMAL) = Inr k2
       \<and> sk_slice key (KEY_CIPHER + KEY_DECRYPT + KEY_NORMAL) = Inr k3
       \<and> sk_slice key (KEY_HMAC + KEY_DECRYPT + KEY_NORMAL) = Inr k4"
proof -
  show "sk_slice key (use + KEY_ENCRYPT + KEY_NORMAL) = sk_slice key (use + KEY_DECRYPT + KEY_INVERSE)"
    "sk_slice key (use + KEY_DECRYPT + KEY_NORMAL) = sk_slice key (use + KEY_ENCRYPT + KEY_INVERSE)"
    using assms by (auto simp: sk_slice_def KEY_CIPHER_def KEY_HMAC_def KEY_ENCRYPT_def KEY_DECRYPT_def KEY_NORMAL_def KEY_INVERSE_def)
  have "key = take 64 key @ take 64 (drop 64 key) @ take 64 (drop 128 key) @ take 64 (drop 192 key)"
  proof -
    have d: "drop n key = take 64 (drop n key) @ drop (n + 64) key" for n
      by (metis append_take_drop_id drop_drop add.commute)
    have "drop 256 key = []" using assms(1) by (simp add: KEY_SIZE_def)
    then show ?thesis using d [of 0] d [of 64] d [of 128] d [of 192] by simp
  qed
  then show "\<exists>k1 k2 k3 k4. key = k1 @ k2 @ k3 @ k4 \<and> sk_slice key (KEY_CIPHER + KEY_ENCRYPT + KEY_NORMAL) = Inr k1
       \<and> sk_slice key (KEY_HMAC + KEY_ENCRYPT + KEY_NORMAL) = Inr k2
       \<and> sk_slice key (KEY_CIPHER + KEY_DECRYPT + KEY_NORMAL) = Inr k3
       \<and> sk_slice key (KEY_HMAC + KEY_DECRYPT + KEY_NORMAL) = Inr k4"
    using assms(1)
    by (intro exI [of _ "take 64 key"] exI [of _ "take 64 (drop 64 key)"] exI [of _ "take 64 (drop 128 key)"] exI [of _ "take 64 (drop 192 key)"])
      (simp add: sk_slice_def KEY_CIPHER_def KEY_HMAC_def KEY_ENCRYPT_def KEY_DECRYPT_def KEY_NORMAL_def KEY_INVERSE_def KEY_SIZE_def)
qed


section \<open>The text form\<close>

lemma render_hex_char_plain: "0 \<le> d \<Longrightarrow> d < 16 \<Longrightarrow> render_hex_char d caps \<noteq> LF \<and> render_hex_char d caps \<noteq> CR"
proof -
  assume "0 \<le> d" "d < 16"
  then have "schar (render_hex_char d caps) \<noteq> 10 \<and> schar (render_hex_char d caps) \<noteq> 13"
    by (auto simp: render_hex_char_def schar_char_of)
  moreover have "schar LF = 10" "schar CR = 13" by (simp_all add: schar_def)
  ultimately show ?thesis by metis
qed

lemma render_hex_plain: "c \<in> set (render_hex (Some bs) caps) \<Longrightarrow> c \<noteq> LF \<and> c \<noteq> CR"
proof -
  assume "c \<in> set (render_hex (Some bs) caps)"
  then obtain b where "c = render_hex_char (uint (b :: byte) div 16) caps \<or> c = render_hex_char (uint b mod 16) caps"
    by (auto simp: render_hex_some RenderHexByte_def uint_high_nibble uint_low_nibble)
  then show ?thesis
    using render_hex_char_plain [of "uint b div 16" caps] render_hex_char_plain [of "uint b mod 16" caps] uint_byte [of b] by auto
qed

lemma sk_rows:
  assumes "length dat = 16 * n"
  shows "\<forall>r\<in>set (sk_render_rows n dat). length r = 32 \<and> LF \<notin> set r \<and> \<not> ends_with_crlf r"
  using assms
proof (induction n arbitrary: dat)
  case (Suc n)
  let ?r = "render_hex (Some (take 16 dat)) False"
  have "LF \<notin> set ?r" "CR \<notin> set ?r" using render_hex_plain by blast+
  moreover have "\<not> ends_with_crlf ?r"
  proof -
    have "?r \<noteq> []" using Suc.prems by (simp flip: length_greater_0_conv)
    then have "last ?r \<in> set ?r" by (rule last_in_set)
    then show ?thesis using calculation by (metis ends_with_crlf_def)
  qed
  ultimately show ?case using Suc.prems Suc.IH [of "drop 16 dat"] by simp
qed simp

lemma sk_parse_loop_rows:
  assumes "length dat = 16 * n" and "length acc + length dat \<le> KEY_SIZE"
  shows "sk_parse_loop (sk_render_rows n dat @ [static_key_foot]) True acc = Inr (False, acc @ dat)"
  using assms
proof (induction n arbitrary: dat acc)
  case 0
  then show ?case by (simp add: static_key_head_def static_key_foot_def)
next
  case (Suc n)
  let ?r = "render_hex (Some (take 16 dat)) False"
  have l: "length ?r = 32" using Suc.prems by simp
  have h: "?r \<noteq> static_key_head" "?r \<noteq> static_key_foot"
    using l by (auto simp: static_key_head_def static_key_foot_def dest!: arg_cong [where f = length])
  have "sk_parse_line acc ?r = Inr (acc @ take 16 dat)"
    using render_parse_hex [of "take 16 dat" acc False] Suc.prems by (simp add: sk_parse_line_def)
  moreover have "sk_parse_loop (sk_render_rows n (drop 16 dat) @ [static_key_foot]) True (acc @ take 16 dat) = Inr (False, acc @ dat)"
    using Suc.IH [of "drop 16 dat" "acc @ take 16 dat"] Suc.prems by simp
  ultimately show ?case using h by simp
qed

text \<open>
  A static key written as text is read back as the same key, and a key agreed on by both ends is sliced
  consistently: the slice one end encrypts with is the one the other end decrypts with, in each direction.
\<close>

lemma static_key_agreement:
  assumes "length key = KEY_SIZE"
  shows "(\<exists>t. sk_render key = Inr t \<and> sk_parse t = Inr key)
    \<and> sk_slice key (KEY_CIPHER + KEY_ENCRYPT + KEY_NORMAL) = sk_slice key (KEY_CIPHER + KEY_DECRYPT + KEY_INVERSE)
    \<and> sk_slice key (KEY_CIPHER + KEY_DECRYPT + KEY_NORMAL) = sk_slice key (KEY_CIPHER + KEY_ENCRYPT + KEY_INVERSE)
    \<and> sk_slice key (KEY_HMAC + KEY_ENCRYPT + KEY_NORMAL) = sk_slice key (KEY_HMAC + KEY_DECRYPT + KEY_INVERSE)
    \<and> sk_slice key (KEY_HMAC + KEY_DECRYPT + KEY_NORMAL) = sk_slice key (KEY_HMAC + KEY_ENCRYPT + KEY_INVERSE)"
proof -
  let ?ls = "[static_key_head] @ sk_render_rows 16 key @ [static_key_foot]"
  have plain: "\<forall>l\<in>set ?ls. LF \<notin> set l \<and> \<not> ends_with_crlf l"
    using sk_rows [of key 16] assms
    by (auto simp: KEY_SIZE_def static_key_head_def static_key_foot_def ends_with_crlf_def)
  have "sk_parse_loop ?ls False [] = Inr (False, key)"
    using sk_parse_loop_rows [of key 16 "[]"] assms by (simp add: KEY_SIZE_def)
  then have "sk_parse (concat (map (\<lambda>l. l @ [LF]) ?ls)) = Inr key"
    unfolding sk_parse_def sl_read_all_text(2) [OF plain] using assms by simp
  then show ?thesis using assms sk_slices [OF assms] by (simp add: sk_render_def)
qed

end
