(* ===== verification/Proto_Context.thy ===== *)
theory Proto_Context
  imports Key_Context Packet_Id_Control Static_Key
begin

text \<open>
  \<open>ProtoContext\<close> of ssl/proto.hpp: the primary and the secondary key, the allocation of key IDs, the processing
  of key events (activation, promotion, renegotiation, expiry), the choice of the key for a packet and the
  keepalive timers. Exporting key material from the TLS session is an argument (\<open>export\<close>); it may fail, and
  then the exception leaves the handlers. Shown: which keys can be primary, which IDs keys get, and
  when two live keys can have the same ID.
\<close>

datatype tls_wrap_mode = TLS_PLAIN | TLS_AUTH | TLS_CRYPT | TLS_CRYPT_V2

text \<open>The static configuration of the control channel wrapping.\<close>

record tls_config =
  tc_key :: "byte list"
  tc_dynamic :: bool
  tc_wraps :: bool

record 'c proto_context =
  pc_cfg :: proto_config
  pc_tls :: tls_config
  primary :: "'c key_context option"
  secondary :: "'c key_context option"
  upcoming_key_id :: u32
  n_key_ids :: u32
  pc_wrap_mode :: tls_wrap_mode
  ta_pid_send :: pid_control_send
  ta_pid_recv :: pid_control_recv
  tls_crypt_send_keys :: "byte list \<times> byte list"
  tls_crypt_recv_keys :: "byte list \<times> byte list"
  keepalive_xmit :: time64
  keepalive_expire :: time64
  pc_errors :: "err list"
  pc_active_calls :: "bool list"

section \<open>Key allocation\<close>

definition pc_next_key_id :: "'c proto_context \<Rightarrow> u32 \<times> 'c proto_context" where
  "pc_next_key_id pc =
     (let up = (upcoming_key_id pc + 1) AND 7
      in (upcoming_key_id pc,
          pc\<lparr>n_key_ids := n_key_ids pc + 1, upcoming_key_id := (if up = 0 then 1 else up)\<rparr>))"

definition pc_new_secondary_key :: "time64 \<Rightarrow> bool \<Rightarrow> 'c proto_context \<Rightarrow> 'c proto_context" where
  "pc_new_secondary_key now initiator pc =
     (let (kid, pc1) = pc_next_key_id pc in pc1\<lparr>secondary := Some (kc_construct (pc_cfg pc1) now kid initiator)\<rparr>)"

definition pc_reset_tls_crypt :: "byte list \<Rightarrow> 'c proto_context \<Rightarrow> 'c proto_context result" where
  "pc_reset_tls_crypt key pc =
     (let key_dir = if cfg_server (pc_cfg pc) then KEY_NORMAL else KEY_INVERSE
      in bindR (sk_slice key (KEY_HMAC + KEY_ENCRYPT + key_dir)) (\<lambda>hs.
         bindR (sk_slice key (KEY_CIPHER + KEY_ENCRYPT + key_dir)) (\<lambda>cs.
         bindR (sk_slice key (KEY_HMAC + KEY_DECRYPT + key_dir)) (\<lambda>hr.
         bindR (sk_slice key (KEY_CIPHER + KEY_DECRYPT + key_dir)) (\<lambda>cr.
           Inr (pc\<lparr>tls_crypt_send_keys := (hs, cs), tls_crypt_recv_keys := (hr, cr)\<rparr>))))))"

definition pc_set_dynamic_tls_crypt :: "('c key_context \<Rightarrow> string \<Rightarrow> byte list option) \<Rightarrow> nat \<Rightarrow> 'c key_context
    \<Rightarrow> 'c proto_context \<Rightarrow> 'c proto_context result" where
  "pc_set_dynamic_tls_crypt export order key_ctx pc =
     (case export key_ctx ''EXPORTER-OpenVPN-dynamic-tls-crypt'' of
        None \<Rightarrow> Inl key_expansion_error
      | Some k \<Rightarrow>
          bindR (if tc_wraps (pc_tls pc)
                 then (case sk_XOR k (tc_key (pc_tls pc)) of (Some e, _) \<Rightarrow> Inl e | (None, k') \<Rightarrow> Inr k')
                 else Inr k) (\<lambda>dyn_key.
            pc_reset_tls_crypt dyn_key
              (pc\<lparr>pc_wrap_mode := TLS_CRYPT, ta_pid_send := pcs_init 0, ta_pid_recv := pcr_init order\<rparr>)))"

definition pc_dynamic_at_first_rekey :: "('c key_context \<Rightarrow> string \<Rightarrow> byte list option) \<Rightarrow> nat
    \<Rightarrow> 'c proto_context \<Rightarrow> 'c proto_context result" where
  "pc_dynamic_at_first_rekey export order pc =
     (case primary pc of
        Some p \<Rightarrow> if tc_dynamic (pc_tls pc) \<and> key_id p = 0 then pc_set_dynamic_tls_crypt export order p pc else Inr pc
      | None \<Rightarrow> Inr pc)"

definition pc_renegotiate :: "('c key_context \<Rightarrow> string \<Rightarrow> byte list option) \<Rightarrow> nat \<Rightarrow> time64
    \<Rightarrow> 'c proto_context \<Rightarrow> 'c proto_context result" where
  "pc_renegotiate export order now pc =
     bindR (pc_dynamic_at_first_rekey export order pc) (\<lambda>pc1.
       let pc2 = pc_new_secondary_key now True pc1
       in Inr (pc2\<lparr>secondary := map_option (kc_start (pc_cfg pc2) (pc_wrap_mode pc2 = TLS_CRYPT_V2) False) (secondary pc2)\<rparr>))"

text \<open>A soft reset from the peer; \<open>valid\<close> is the outcome of \<open>KeyContext::validate\<close> on the packet.\<close>

definition pc_renegotiate_request :: "('c key_context \<Rightarrow> string \<Rightarrow> byte list option) \<Rightarrow> nat \<Rightarrow> time64 \<Rightarrow> bool
    \<Rightarrow> 'c proto_context \<Rightarrow> (bool \<times> 'c proto_context) result" where
  "pc_renegotiate_request export order now valid pc =
     bindR (pc_dynamic_at_first_rekey export order pc) (\<lambda>pc1.
       if valid then Inr (True, pc_new_secondary_key now False pc1) else Inr (False, pc1))"

section \<open>Events\<close>

definition pc_promote_secondary_to_primary :: "'c dc_api \<Rightarrow> time64 \<Rightarrow> 'c proto_context \<Rightarrow> 'c proto_context" where
  "pc_promote_secondary_to_primary api now pc =
     pc\<lparr>primary := map_option (kc_rekey api PRIMARY_SECONDARY_SWAP) (secondary pc),
        secondary := map_option (kc_prepare_expire (pc_cfg pc) now KEV_NONE) (primary pc)\<rparr>"

definition pc_disconnect :: "err \<Rightarrow> 'c proto_context \<Rightarrow> 'c proto_context" where
  "pc_disconnect reason pc =
     pc\<lparr>primary := map_option (kc_invalidate reason) (primary pc),
        secondary := map_option (kc_invalidate reason) (secondary pc)\<rparr>"

definition pc_error :: "err \<Rightarrow> 'c proto_context \<Rightarrow> 'c proto_context" where
  "pc_error e pc = pc\<lparr>pc_errors := pc_errors pc @ [e]\<rparr>"

definition pc_active_callback :: "bool \<Rightarrow> 'c proto_context \<Rightarrow> 'c proto_context" where
  "pc_active_callback prim pc = pc\<lparr>pc_active_calls := pc_active_calls pc @ [prim]\<rparr>"

definition pc_primary_event :: "'c dc_api \<Rightarrow> ('c key_context \<Rightarrow> string \<Rightarrow> byte list option) \<Rightarrow> nat \<Rightarrow> time64 \<Rightarrow> kev
    \<Rightarrow> 'c proto_context \<Rightarrow> 'c proto_context result" where
  "pc_primary_event api export order now ev pc =
     (case ev of
        KEV_ACTIVE \<Rightarrow>
          Inr (pc_active_callback True (pc\<lparr>primary := map_option (kc_rekey api ACTIVATE_PRIMARY) (primary pc)\<rparr>))
      | KEV_RENEGOTIATE \<Rightarrow> pc_renegotiate export order now pc
      | KEV_RENEGOTIATE_FORCE \<Rightarrow> pc_renegotiate export order now pc
      | KEV_EXPIRE \<Rightarrow>
          (case secondary pc of
             Some s \<Rightarrow> if \<not> kc_invalidated s then Inr (pc_promote_secondary_to_primary api now pc)
                       else Inr (pc_disconnect PRIMARY_EXPIRE (pc_error PRIMARY_EXPIRE pc))
           | None \<Rightarrow> Inr (pc_disconnect PRIMARY_EXPIRE (pc_error PRIMARY_EXPIRE pc)))
      | KEV_NEGOTIATE \<Rightarrow> Inr (pc_disconnect HANDSHAKE_TIMEOUT (pc_error HANDSHAKE_TIMEOUT pc))
      | _ \<Rightarrow> Inr pc)"

text \<open>\<open>process_primary_event\<close> for a primary \<open>p\<close> (already stored) with an event pending.\<close>

definition pc_process_primary_event :: "'c dc_api \<Rightarrow> ('c key_context \<Rightarrow> string \<Rightarrow> byte list option) \<Rightarrow> nat \<Rightarrow> time64
    \<Rightarrow> 'c key_context \<Rightarrow> 'c proto_context \<Rightarrow> 'c proto_context result" where
  "pc_process_primary_event api export order now p pc =
     bindR (if current_event p \<noteq> KEV_NONE
            then pc_primary_event api export order now (current_event p) (pc\<lparr>primary := Some (kc_reset_event p)\<rparr>)
            else Inr pc)
       (\<lambda>pc1. Inr (pc1\<lparr>primary := map_option (kc_set_next_event_if_unspecified (pc_cfg pc1) now) (primary pc1)\<rparr>))"

definition pc_secondary_event :: "'c dc_api \<Rightarrow> ('c key_context \<Rightarrow> string \<Rightarrow> byte list option) \<Rightarrow> nat \<Rightarrow> time64 \<Rightarrow> kev
    \<Rightarrow> 'c key_context \<Rightarrow> 'c proto_context \<Rightarrow> 'c proto_context result" where
  "pc_secondary_event api export order now ev s pc =
     (case ev of
        KEV_ACTIVE \<Rightarrow>
          Inr (pc_active_callback False
                 (pc\<lparr>secondary := Some (kc_rekey api NEW_SECONDARY s),
                     primary := map_option (kc_prepare_expire (pc_cfg pc) now KEV_NONE) (primary pc)\<rparr>))
      | KEV_BECOME_PRIMARY \<Rightarrow>
          if \<not> kc_invalidated s then Inr (pc_promote_secondary_to_primary api now pc) else Inr pc
      | KEV_EXPIRE \<Rightarrow> Inr (pc\<lparr>secondary := None\<rparr>)
      | KEV_RENEGOTIATE_QUEUE \<Rightarrow>
          Inr (pc\<lparr>primary := map_option (kc_key_limit_reneg (pc_cfg pc) KEV_RENEGOTIATE_FORCE (kc_become_primary_time s)) (primary pc)\<rparr>)
      | KEV_NEGOTIATE \<Rightarrow> pc_renegotiate export order now (pc_error HANDSHAKE_TIMEOUT pc)
      | KEV_PRIMARY_PENDING \<Rightarrow> pc_renegotiate export order now pc
      | KEV_RENEGOTIATE_FORCE \<Rightarrow> pc_renegotiate export order now pc
      | _ \<Rightarrow> Inr pc)"

definition pc_process_secondary_event :: "'c dc_api \<Rightarrow> ('c key_context \<Rightarrow> string \<Rightarrow> byte list option) \<Rightarrow> nat \<Rightarrow> time64
    \<Rightarrow> 'c key_context \<Rightarrow> 'c proto_context \<Rightarrow> 'c proto_context result" where
  "pc_process_secondary_event api export order now s pc =
     bindR (if current_event s \<noteq> KEV_NONE
            then pc_secondary_event api export order now (current_event s) (kc_reset_event s) (pc\<lparr>secondary := Some (kc_reset_event s)\<rparr>)
            else Inr pc)
       (\<lambda>pc1. Inr (pc1\<lparr>secondary := map_option (kc_set_next_event_if_unspecified (pc_cfg pc1) now) (secondary pc1)\<rparr>))"

text \<open>The two halves of \<open>process_events\<close>, one per key; the flag is \<open>did_work\<close>.\<close>

definition pc_try_primary :: "'c dc_api \<Rightarrow> ('c key_context \<Rightarrow> string \<Rightarrow> byte list option) \<Rightarrow> nat \<Rightarrow> time64
    \<Rightarrow> 'c proto_context \<Rightarrow> (bool \<times> 'c proto_context) result" where
  "pc_try_primary api export order now pc =
     (case primary pc of
        None \<Rightarrow> Inr (False, pc)
      | Some p \<Rightarrow>
          (case kc_event_pending (pc_cfg pc) now p of
             (True, p1) \<Rightarrow> bindR (pc_process_primary_event api export order now p1 (pc\<lparr>primary := Some p1\<rparr>)) (\<lambda>pc2. Inr (True, pc2))
           | (False, p1) \<Rightarrow> Inr (False, pc\<lparr>primary := Some p1\<rparr>)))"

definition pc_try_secondary :: "'c dc_api \<Rightarrow> ('c key_context \<Rightarrow> string \<Rightarrow> byte list option) \<Rightarrow> nat \<Rightarrow> time64
    \<Rightarrow> bool \<Rightarrow> 'c proto_context \<Rightarrow> (bool \<times> 'c proto_context) result" where
  "pc_try_secondary api export order now did_work pc =
     (case secondary pc of
        None \<Rightarrow> Inr (did_work, pc)
      | Some s \<Rightarrow>
          (case kc_event_pending (pc_cfg pc) now s of
             (True, s1) \<Rightarrow> bindR (pc_process_secondary_event api export order now s1 (pc\<lparr>secondary := Some s1\<rparr>)) (\<lambda>pc2. Inr (True, pc2))
           | (False, s1) \<Rightarrow> Inr (did_work, pc\<lparr>secondary := Some s1\<rparr>)))"

definition pc_process_events :: "'c dc_api \<Rightarrow> ('c key_context \<Rightarrow> string \<Rightarrow> byte list option) \<Rightarrow> nat \<Rightarrow> time64
    \<Rightarrow> 'c proto_context \<Rightarrow> (bool \<times> 'c proto_context) result" where
  "pc_process_events api export order now pc =
     bindR (pc_try_primary api export order now pc) (\<lambda>(w, pc1). pc_try_secondary api export order now w pc1)"

section \<open>Keepalive and data limits\<close>

definition pc_data_channel_ready :: "'c proto_context \<Rightarrow> bool" where
  "pc_data_channel_ready pc \<longleftrightarrow> (case primary pc of Some p \<Rightarrow> kc_state p \<ge> ACTIVE | None \<Rightarrow> False)"

definition pc_invalidated :: "'c proto_context \<Rightarrow> bool" where
  "pc_invalidated pc \<longleftrightarrow> (case primary pc of Some p \<Rightarrow> kc_invalidated p | None \<Rightarrow> False)"

definition pc_update_last_sent :: "time64 \<Rightarrow> 'c proto_context \<Rightarrow> 'c proto_context" where
  "pc_update_last_sent now pc = pc\<lparr>keepalive_xmit := tm_plus now (keepalive_ping (pc_cfg pc))\<rparr>"

definition pc_update_last_received :: "time64 \<Rightarrow> 'c proto_context \<Rightarrow> 'c proto_context" where
  "pc_update_last_received now pc =
     pc\<lparr>keepalive_expire := tm_plus now (if pc_data_channel_ready pc then keepalive_timeout (pc_cfg pc)
                                        else keepalive_timeout_early (pc_cfg pc))\<rparr>"

definition pc_keepalive_parms_modified :: "time64 \<Rightarrow> 'c proto_context \<Rightarrow> 'c proto_context" where
  "pc_keepalive_parms_modified now pc =
     (let pc1 = pc_update_last_received now pc; kx = tm_plus now (keepalive_ping (pc_cfg pc1))
      in if kx < keepalive_xmit pc1 then pc1\<lparr>keepalive_xmit := kx\<rparr> else pc1)"

definition pc_data_limit_notify :: "time64 \<Rightarrow> u32 \<Rightarrow> dl_mode \<Rightarrow> dl_state \<Rightarrow> 'c proto_context \<Rightarrow> 'c proto_context" where
  "pc_data_limit_notify now kid cdl_mode cdl_status pc =
     (case primary pc of
        Some p \<Rightarrow> if kid = key_id p then pc\<lparr>primary := Some (kc_data_limit_notify (pc_cfg pc) now cdl_mode cdl_status p)\<rparr>
                  else (case secondary pc of
                          Some s \<Rightarrow> if kid = key_id s then pc\<lparr>secondary := Some (kc_data_limit_notify (pc_cfg pc) now cdl_mode cdl_status s)\<rparr> else pc
                        | None \<Rightarrow> pc)
      | None \<Rightarrow> (case secondary pc of
                   Some s \<Rightarrow> if kid = key_id s then pc\<lparr>secondary := Some (kc_data_limit_notify (pc_cfg pc) now cdl_mode cdl_status s)\<rparr> else pc
                 | None \<Rightarrow> pc))"

section \<open>Choice of the key\<close>

definition pc_key_ids :: "'c proto_context \<Rightarrow> key_ids" where
  "pc_key_ids pc =
     \<lparr>ki_server = cfg_server (pc_cfg pc), ki_primary = map_option key_id (primary pc),
      ki_secondary = map_option key_id (secondary pc), ki_upcoming = upcoming_key_id pc\<rparr>"

datatype which_key = Primary_Key | Secondary_Key

definition pc_select_key_context :: "packet_type \<Rightarrow> bool \<Rightarrow> 'c proto_context \<Rightarrow> which_key result" where
  "pc_select_key_context ty control pc =
     (let flags = pt_flags ty AND (PT_DEFINED OR PT_SECONDARY OR PT_CONTROL)
      in if \<not> control
         then if flags = PT_DEFINED \<and> primary pc \<noteq> None then Inr Primary_Key
              else if flags = PT_DEFINED OR PT_SECONDARY \<and> secondary pc \<noteq> None then Inr Secondary_Key
              else Inl select_key_context_error
         else if flags = PT_DEFINED OR PT_CONTROL \<and> primary pc \<noteq> None then Inr Primary_Key
              else if flags = PT_DEFINED OR PT_SECONDARY OR PT_CONTROL \<and> secondary pc \<noteq> None then Inr Secondary_Key
              else Inl select_key_context_error)"

definition pc_data_encrypt :: "'c dc_api \<Rightarrow> time64 \<Rightarrow> buffer \<Rightarrow> 'c proto_context \<Rightarrow> unit result \<times> buffer \<times> 'c proto_context" where
  "pc_data_encrypt api now b pc =
     (case primary pc of
        None \<Rightarrow> (Inl (proto_error ''data_encrypt: no primary key''), b, pc)
      | Some p \<Rightarrow> let (r, b1, p1) = kc_encrypt api (pc_cfg pc) now b p in (r, b1, pc\<lparr>primary := Some p1\<rparr>))"

definition pc_data_decrypt :: "'c dc_api \<Rightarrow> time64 \<Rightarrow> packet_type \<Rightarrow> buffer \<Rightarrow> 'c proto_context
    \<Rightarrow> bool result \<times> buffer \<times> 'c proto_context" where
  "pc_data_decrypt api now ty b pc =
     (case pc_select_key_context ty False pc of
        Inl e \<Rightarrow> (Inl e, b, pc)
      | Inr w \<Rightarrow>
          let (b1, pc1) =
                (case w of
                   Primary_Key \<Rightarrow> (case primary pc of Some k \<Rightarrow> let (b1, k1) = kc_decrypt api (pc_cfg pc) now b k in (b1, pc\<lparr>primary := Some k1\<rparr>) | None \<Rightarrow> (b, pc))
                 | Secondary_Key \<Rightarrow> (case secondary pc of Some k \<Rightarrow> let (b1, k1) = kc_decrypt api (pc_cfg pc) now b k in (b1, pc\<lparr>secondary := Some k1\<rparr>) | None \<Rightarrow> (b, pc)));
              pc2 = (if b_size b1 > 0 then pc_update_last_received now pc1 else pc1)
          in (Inr (b_size b1 > 0), if is_keepalive b1 then buf_reset_size b1 else b1, pc2))"

section \<open>Reset and start\<close>

text \<open>\<open>reset\<close>: the first key gets ID 0; the TLS wrapping objects are those of the configuration.\<close>

definition pc_reset_keys :: "time64 \<Rightarrow> 'c proto_context \<Rightarrow> 'c proto_context" where
  "pc_reset_keys now pc =
     (let pc1 = pc\<lparr>primary := None, secondary := None, upcoming_key_id := 0\<rparr>;
          (kid, pc2) = pc_next_key_id pc1;
          pc3 = pc2\<lparr>primary := Some (kc_construct (pc_cfg pc2) now kid (\<not> cfg_server (pc_cfg pc2))), keepalive_expire := tm_infinite\<rparr>
      in pc_update_last_sent now pc3)"

definition pc_start :: "time64 \<Rightarrow> bool \<Rightarrow> 'c proto_context \<Rightarrow> 'c proto_context result" where
  "pc_start now cookie pc =
     (case primary pc of
        None \<Rightarrow> Inl (proto_error ''start: no primary key'')
      | Some p \<Rightarrow> Inr (pc_update_last_received now
                    (pc\<lparr>primary := Some (kc_start (pc_cfg pc) (pc_wrap_mode pc = TLS_CRYPT_V2) cookie p)\<rparr>)))"

section \<open>Key IDs\<close>

text \<open>The ID of the key allocated after \<open>n\<close> others.\<close>

definition kid_of :: "nat \<Rightarrow> nat" where
  "kid_of n = (if n = 0 then 0 else (n - 1) mod 7 + 1)"

lemma kid_of_less: "kid_of n < 8"
  by (simp add: kid_of_def)

lemma kid_of_Suc: "kid_of (Suc n) = (if (kid_of n + 1) mod 8 = 0 then 1 else (kid_of n + 1) mod 8)"
proof (cases n)
  case (Suc m)
  have "m mod 7 < 7" by simp
  then show ?thesis unfolding kid_of_def Suc by (simp add: mod_Suc)
qed (simp add: kid_of_def)

lemma next_id_and_7:
  assumes "k < 8"
  shows "((of_nat k + 1) AND 7 :: u32) = of_nat ((k + 1) mod 8)" "(of_nat ((k + 1) mod 8) :: u32) = 0 \<longleftrightarrow> (k + 1) mod 8 = 0"
proof -
  have "k = 0 \<or> k = 1 \<or> k = 2 \<or> k = 3 \<or> k = 4 \<or> k = 5 \<or> k = 6 \<or> k = 7" using assms by linarith
  then show "((of_nat k + 1) AND 7 :: u32) = of_nat ((k + 1) mod 8)" "(of_nat ((k + 1) mod 8) :: u32) = 0 \<longleftrightarrow> (k + 1) mod 8 = 0"
    by (elim disjE; simp)+
qed

lemma pc_next_key_id_kid:
  assumes "upcoming_key_id pc = of_nat (kid_of n)"
  shows "fst (pc_next_key_id pc) = of_nat (kid_of n)"
    "upcoming_key_id (snd (pc_next_key_id pc)) = of_nat (kid_of (Suc n))"
    "primary (snd (pc_next_key_id pc)) = primary pc" "pc_cfg (snd (pc_next_key_id pc)) = pc_cfg pc"
proof -
  show "upcoming_key_id (snd (pc_next_key_id pc)) = of_nat (kid_of (Suc n))"
    using next_id_and_7 [OF kid_of_less, of n] by (auto simp: pc_next_key_id_def Let_def kid_of_Suc assms)
qed (simp_all add: pc_next_key_id_def Let_def assms)


lemma pc_new_secondary_kid:
  assumes "upcoming_key_id pc = of_nat (kid_of n)"
  shows "upcoming_key_id (pc_new_secondary_key now i pc) = of_nat (kid_of (Suc n))"
    "primary (pc_new_secondary_key now i pc) = primary pc"
    "\<exists>s. secondary (pc_new_secondary_key now i pc) = Some s \<and> key_id s = of_nat (kid_of n)"
  using pc_next_key_id_kid [OF assms]
  by (auto simp: pc_new_secondary_key_def kc_construct_def kc_set_event_def split: prod.splits)

lemma pc_new_secondaries_kid:
  assumes "upcoming_key_id pc = of_nat (kid_of n)" and "ts \<noteq> []"
  shows "primary (fold (\<lambda>t. pc_new_secondary_key t i) ts pc) = primary pc
    \<and> (\<exists>s. secondary (fold (\<lambda>t. pc_new_secondary_key t i) ts pc) = Some s \<and> key_id s = of_nat (kid_of (n + length ts - 1)))"
  using assms
proof (induction ts arbitrary: pc n)
  case (Cons t ts)
  note k = pc_new_secondary_kid [OF Cons.prems(1), of t i]
  show ?case
  proof (cases "ts = []")
    case True
    then show ?thesis using k by simp
  next
    case False
    then show ?thesis using Cons.IH [OF k(1)] k(2) by (simp add: Suc_diff_Suc)
  qed
qed simp

lemma kid_word_eq: "(of_nat (kid_of a) :: u32) = of_nat (kid_of b) \<longleftrightarrow> kid_of a = kid_of b"
  using kid_of_less [of a] kid_of_less [of b] by (simp add: word_of_nat_eq_iff take_bit_nat_eq_self)

lemma unat_kid [simp]: "unat (of_nat (kid_of n) :: u32) < 8"
  using kid_of_less [of n] by (simp add: unsigned_of_nat take_bit_nat_eq_self)

lemma kid_of_add: "0 < m \<Longrightarrow> kid_of (n + m) = kid_of n \<longleftrightarrow> n \<noteq> 0 \<and> m mod 7 = 0"
proof (cases n)
  case (Suc k)
  have "(k + m) mod 7 = k mod 7 \<longleftrightarrow> m mod 7 = 0" for k m :: nat
    using mod_eq_dvd_iff_nat [of k "k + m" 7] by (simp add: mod_eq_0_iff_dvd)
  then show ?thesis by (simp add: kid_of_def Suc)
qed (simp add: kid_of_def)

text \<open>
  C31. Keys created while the primary stays in place have the IDs that follow the primary's cyclically, 0
  being left out. The new key is told apart from the primary exactly when fewer than seven, or not a
  multiple of seven, keys were created since (or the primary is the first key): its control packets
  are then given to the secondary key, and otherwise to the primary.
\<close>

theorem pc_key_id_cycle:
  assumes "primary pc = Some p" "key_id p = of_nat (kid_of n)" "upcoming_key_id pc = of_nat (kid_of (Suc n))" "ts \<noteq> []"
    and pc': "pc' = fold (\<lambda>t. pc_new_secondary_key t i) ts pc"
  shows "\<exists>s. secondary pc' = Some s \<and> key_id s = of_nat (kid_of (n + length ts))
    \<and> pc_select_key_context (packet_type_of (pc_key_ids pc') (op_compose CONTROL_V1 (key_id s) # bs)) True pc'
        = Inr (if n \<noteq> 0 \<and> length ts mod 7 = 0 then Primary_Key else Secondary_Key)"
proof -
  obtain s where s: "primary pc' = Some p" "secondary pc' = Some s" "key_id s = of_nat (kid_of (n + length ts))"
    using pc_new_secondaries_kid [OF assms(3,4), of i] assms(1) by (auto simp: pc')
  have e: "key_id p = key_id s \<longleftrightarrow> n \<noteq> 0 \<and> length ts mod 7 = 0"
    using kid_of_add [of "length ts" n] assms(4) by (auto simp: s(3) assms(2) kid_word_eq)
  have "packet_type_of (pc_key_ids pc') (op_compose CONTROL_V1 (key_id s) # bs) =
      pt_examine_key_id (pc_key_ids pc') (key_id s) \<lparr>pt_flags = PT_CONTROL, pt_opcode = CONTROL_V1, pt_peer_id = - 1\<rparr>"
    by (rule packet_type_control) (simp_all add: s(3))
  then show ?thesis
    using s e by (auto simp: pc_select_key_context_def pc_key_ids_def pt_examine_key_id_def pt_defs Let_def)
qed

definition ex_pc :: "unit proto_context" where
  "ex_pc = \<lparr>pc_cfg = ex_cfg, pc_tls = \<lparr>tc_key = [], tc_dynamic = False, tc_wraps = False\<rparr>,
     primary = Some ((ex_key True)\<lparr>key_id := 1\<rparr>), secondary = None, upcoming_key_id = 2, n_key_ids = 2,
     pc_wrap_mode = TLS_PLAIN, ta_pid_send = pcs_init 0, ta_pid_recv = pcr_init 6,
     tls_crypt_send_keys = ([], []), tls_crypt_recv_keys = ([], []), keepalive_xmit = 0, keepalive_expire = 0,
     pc_errors = [], pc_active_calls = []\<rparr>"

theorem pc_key_id_cycle_witness:
  "\<exists>s. secondary (fold (\<lambda>t. pc_new_secondary_key t True) (replicate 7 100) ex_pc) = Some s \<and> key_id s = 1"
proof -
  have k: "kid_of 1 = 1" "kid_of (Suc 1) = 2" "kid_of (1 + 7) = 1" by (simp_all add: kid_of_def)
  have "primary ex_pc = Some ((ex_key True)\<lparr>key_id := 1\<rparr>)" "key_id ((ex_key True)\<lparr>key_id := 1\<rparr>) = of_nat (kid_of 1)"
    "upcoming_key_id ex_pc = of_nat (kid_of (Suc 1))" "replicate 7 (100 :: time64) \<noteq> []"
    unfolding k by (simp_all add: ex_pc_def)
  from pc_key_id_cycle [OF this refl, of True "[]"] obtain s where
    "secondary (fold (\<lambda>t. pc_new_secondary_key t True) (replicate 7 100) ex_pc) = Some s"
    "key_id s = of_nat (kid_of (1 + 7))" unfolding length_replicate by blast
  then show ?thesis unfolding k by simp
qed

end
