(* ===== verification/Key_Rotation.thy ===== *)
theory Key_Rotation
  imports Proto_Context
begin

text \<open>
  The life of the keys of a \<open>ProtoContext\<close> as a step relation: processing of events at any time, soft resets
  of the peer, keys becoming active, data packets, notified data limits, disconnects. The invariant: there is
  always a primary key; every key that is not invalidated has a deadline; only a key that finished its
  negotiation is due to become primary; key IDs fit their three bits.
\<close>

section \<open>Going active\<close>

text \<open>The end of \<open>active()\<close> and the state change after it in \<open>post_ack_action\<close>.\<close>

definition kc_go_active :: "proto_config \<Rightarrow> time64 \<Rightarrow> 'c key_context \<Rightarrow> 'c key_context" where
  "kc_go_active cfg now kc = kc_set_state ACTIVE (kc_active_event cfg (kc\<lparr>reached_active_time := now\<rparr>))"

text \<open>
  The states a negotiation passes before that: \<open>raw_recv\<close> of the peer's reset, \<open>app_recv\<close> of its
  authentication message and \<open>post_ack_action\<close>.
\<close>

definition kc_next_state :: "int \<Rightarrow> int option" where
  "kc_next_state s =
     (if s = C_WAIT_RESET then Some C_WAIT_RESET_ACK
      else if s = C_WAIT_RESET_ACK then Some C_WAIT_AUTH
      else if s = C_WAIT_AUTH then Some C_WAIT_AUTH_ACK
      else if s = S_WAIT_RESET then Some S_WAIT_RESET_ACK
      else if s = S_WAIT_RESET_ACK then Some S_WAIT_AUTH
      else if s = S_WAIT_AUTH then Some S_WAIT_AUTH_ACK
      else None)"

section \<open>Steps\<close>

inductive pc_step :: "'c dc_api \<Rightarrow> ('c key_context \<Rightarrow> string \<Rightarrow> byte list option) \<Rightarrow> nat \<Rightarrow> 'c proto_context \<Rightarrow> 'c proto_context \<Rightarrow> bool"
  for api export order where
  events: "pc_process_events api export order now pc = Inr (w, pc') \<Longrightarrow> pc_step api export order pc pc'"
| request: "pc_renegotiate_request export order now valid pc = Inr (r, pc') \<Longrightarrow> pc_step api export order pc pc'"
| negotiate_primary: "primary pc = Some k \<Longrightarrow> kc_next_state (kc_state k) = Some st \<Longrightarrow>
    pc_step api export order pc (pc\<lparr>primary := Some (kc_set_state st k)\<rparr>)"
| negotiate_secondary: "secondary pc = Some k \<Longrightarrow> kc_next_state (kc_state k) = Some st \<Longrightarrow>
    pc_step api export order pc (pc\<lparr>secondary := Some (kc_set_state st k)\<rparr>)"
| active_primary: "primary pc = Some k \<Longrightarrow> kc_state k \<in> {C_WAIT_AUTH_ACK, S_WAIT_AUTH_ACK} \<Longrightarrow>
    pc_step api export order pc (pc\<lparr>primary := Some (kc_go_active (pc_cfg pc) now k)\<rparr>)"
| active_secondary: "secondary pc = Some k \<Longrightarrow> kc_state k \<in> {C_WAIT_AUTH_ACK, S_WAIT_AUTH_ACK} \<Longrightarrow>
    pc_step api export order pc (pc\<lparr>secondary := Some (kc_go_active (pc_cfg pc) now k)\<rparr>)"
| encrypt: "pc_data_encrypt api now b pc = (r, b', pc') \<Longrightarrow> pc_step api export order pc pc'"
| decrypt: "pc_data_decrypt api now ty b pc = (r, b', pc') \<Longrightarrow> pc_step api export order pc pc'"
| limit: "pc_step api export order pc (pc_data_limit_notify now kid m s pc)"
| disconnect: "pc_step api export order pc (pc_disconnect reason pc)"

definition pc_reachable :: "'c dc_api \<Rightarrow> ('c key_context \<Rightarrow> string \<Rightarrow> byte list option) \<Rightarrow> nat \<Rightarrow> 'c proto_context \<Rightarrow> bool" where
  "pc_reachable api export order pc \<longleftrightarrow>
     (\<exists>pc0 now cookie pc1. pc_start now cookie (pc_reset_keys now pc0) = Inr pc1 \<and> (pc_step api export order)\<^sup>*\<^sup>* pc1 pc)"

section \<open>The invariant of one key\<close>

definition kc_inv :: "'c key_context \<Rightarrow> bool" where
  "kc_inv k \<longleftrightarrow>
     unat (key_id k) < 8
     \<and> (\<not> kc_invalidated k \<longrightarrow> next_event k \<notin> {KEV_NONE, KEV_ACTIVE, KEV_RENEGOTIATE_QUEUE})
     \<and> ({next_event k, current_event k} \<inter> {KEV_BECOME_PRIMARY, KEV_PRIMARY_PENDING} \<noteq> {} \<longrightarrow> kc_state k \<ge> ACTIVE)"

named_theorems kc_pres \<open>operations that preserve the invariant of a key\<close>

lemma kc_inv_construct [kc_pres]: "unat kid < 8 \<Longrightarrow> kc_inv (kc_construct cfg now kid i)"
  by (simp add: kc_inv_def kc_construct_def kc_set_event_def)

lemma kc_inv_start:
  "unat kid < 8 \<Longrightarrow> kc_inv (kc_start cfg v cookie (kc_construct cfg now kid i))"
  by (simp add: kc_inv_def kc_construct_def kc_set_event_def kc_start_def kc_send_reset_def kc_raw_send_def kc_set_state_def Let_def)

lemma kc_inv_rekey [kc_pres]: "kc_inv k \<Longrightarrow> kc_inv (kc_rekey api ty k)"
  by (simp add: kc_inv_def kc_rekey_def split: option.splits)

lemma kc_inv_prepare_expire [kc_pres]:
  "kc_inv k \<Longrightarrow> ev \<notin> {KEV_BECOME_PRIMARY, KEV_PRIMARY_PENDING} \<Longrightarrow> kc_inv (kc_prepare_expire cfg now ev k)"
  by (simp add: kc_inv_def kc_prepare_expire_def kc_set_event_def)

lemma kc_inv_next_event [kc_pres]: "kc_inv k \<Longrightarrow> kc_inv (kc_set_next_event_if_unspecified cfg now k)"
  by (simp add: kc_set_next_event_if_unspecified_def kc_inv_prepare_expire)

lemma kc_inv_key_limit_reneg [kc_pres]:
  "kc_inv k \<Longrightarrow> ev \<in> {KEV_RENEGOTIATE, KEV_RENEGOTIATE_FORCE} \<Longrightarrow> kc_inv (kc_key_limit_reneg cfg ev t k)"
  by (auto simp: kc_inv_def kc_key_limit_reneg_def kc_set_event_def)

lemma kc_inv_invalidate [kc_pres]: "kc_inv k \<Longrightarrow> kc_inv (kc_invalidate e k)"
  by (auto simp: kc_inv_def kc_invalidate_def kc_invalidate_callback_def)

lemma kc_inv_error [kc_pres]: "kc_inv k \<Longrightarrow> kc_inv (kc_error e k)"
  by (simp add: kc_inv_def kc_error_def)

lemma kc_inv_crypto [kc_pres]: "kc_inv k \<Longrightarrow> kc_inv (k\<lparr>kc_crypto := c\<rparr>)"
  by (simp add: kc_inv_def)

lemma kc_inv_limit [kc_pres]: "kc_inv k \<Longrightarrow> kc_inv (k\<lparr>kc_data_limit := d\<rparr>)"
  by (simp add: kc_inv_def)

lemma kc_inv_reset_event [kc_pres]: "kc_inv k \<Longrightarrow> kc_inv (kc_reset_event k)"
  by (auto simp: kc_inv_def kc_reset_event_def)

lemma kc_inv_schedule [kc_pres]: "kc_inv k \<Longrightarrow> kc_inv (kc_schedule_key_limit_renegotiation cfg now k)"
proof -
  assume "kc_inv k"
  then have "kc_inv (kc_error N_KEY_LIMIT_RENEG (k\<lparr>key_limit_renegotiation_fired := True\<rparr>))"
    by (simp add: kc_inv_def kc_error_def)
  with \<open>kc_inv k\<close> show ?thesis
    unfolding kc_schedule_key_limit_renegotiation_def Let_def
    by (auto intro!: kc_inv_key_limit_reneg) (auto simp: kc_inv_def kc_set_current_event_def kc_error_def)
qed

lemma kc_inv_data_limit_event [kc_pres]:
  assumes "kc_inv k" shows "kc_inv (kc_data_limit_event cfg now s k)"
proof -
  define k1 where "k1 = (if s = DL_Red then kc_schedule_key_limit_renegotiation cfg now k else k)"
  have "kc_inv k1" using assms by (simp add: k1_def kc_inv_schedule)
  then show ?thesis
    unfolding kc_data_limit_event_def k1_def [symmetric] Let_def by (auto simp: kc_inv_def kc_set_event_def)
qed

lemma kc_inv_limit_add [kc_pres]: "kc_inv k \<Longrightarrow> kc_inv (snd (kc_data_limit_add cfg now m n d k))"
  by (simp add: kc_data_limit_add_def Let_def kc_inv_data_limit_event kc_inv_limit split: prod.splits)

lemma kc_inv_limit_notify [kc_pres]: "kc_inv k \<Longrightarrow> kc_inv (kc_data_limit_notify cfg now m s k)"
  by (simp add: kc_data_limit_notify_def Let_def kc_inv_data_limit_event kc_inv_limit split: prod.splits option.splits)

lemma kc_inv_process_next_event [kc_pres]:
  assumes "kc_inv k" shows "kc_inv (kc_process_next_event cfg now k)"
proof (cases "now \<ge> next_event_time k")
  case True
  have e: "kc_inv (kc_kev_error ev er k)" if "ev \<in> {KEV_NEGOTIATE, KEV_EXPIRE} \<or> kc_state k \<ge> ACTIVE" for ev er
    using that assms by (auto simp: kc_kev_error_def kc_inv_def kc_set_current_event_def kc_invalidate_def
      kc_invalidate_callback_def kc_error_def)
  show ?thesis
  proof (cases "next_event k")
    case KEV_PRIMARY_PENDING
    then have "kc_state k \<ge> ACTIVE" using assms by (simp add: kc_inv_def)
    then show ?thesis using True KEV_PRIMARY_PENDING e by (simp add: kc_process_next_event_def)
  next
    case KEV_BECOME_PRIMARY
    then show ?thesis using True assms by (simp add: kc_process_next_event_def kc_inv_def kc_set_event_def)
  qed (use True e assms in \<open>simp_all add: kc_process_next_event_def kc_inv_prepare_expire\<close>)
qed (simp add: kc_process_next_event_def assms)

lemma kc_inv_event_pending [kc_pres]: "kc_inv k \<Longrightarrow> kc_inv (snd (kc_event_pending cfg now k))"
  by (simp add: kc_event_pending_def Let_def kc_inv_process_next_event)

lemma kc_inv_go_active [kc_pres]: "kc_inv k \<Longrightarrow> kc_inv (kc_go_active cfg now k)"
  by (simp add: kc_inv_def kc_go_active_def kc_set_state_def kc_active_event_def kc_set_event_def)

lemma kc_inv_negotiate [kc_pres]: "kc_inv k \<Longrightarrow> kc_next_state (kc_state k) = Some st \<Longrightarrow> kc_inv (kc_set_state st k)"
proof -
  assume k: "kc_inv k" and st: "kc_next_state (kc_state k) = Some st"
  have "\<not> kc_state k \<ge> ACTIVE" using st by (auto simp: kc_next_state_def kc_state_defs split: if_splits)
  with k show ?thesis by (auto simp: kc_inv_def kc_set_state_def)
qed

section \<open>Data packets\<close>

lemma kc_inv_encrypt_packet: "kc_inv k \<Longrightarrow> kc_inv (snd (snd (kc_encrypt_packet api b c k)))"
  by (auto simp: kc_encrypt_packet_def Let_def kc_inv_crypto split: prod.splits sum.splits)

lemma kc_inv_do_encrypt: "kc_inv k \<Longrightarrow> kc_inv (snd (snd (kc_do_encrypt api cfg now h b c k)))"
proof -
  assume k: "kc_inv k"
  have "kc_inv kc1" if "kc_data_limit_add cfg now Encrypt n d k = (x, kc1)" for n d x kc1
    using kc_inv_limit_add [OF k, of cfg now Encrypt n d] that by simp
  then show ?thesis
    using k by (simp add: kc_do_encrypt_def kc_inv_encrypt_packet split: sum.splits prod.splits option.splits bool.splits)
qed

lemma kc_inv_encrypt [kc_pres]: "kc_inv k \<Longrightarrow> kc_inv (snd (snd (kc_encrypt api cfg now b k)))"
proof -
  assume k: "kc_inv k"
  have "kc_inv kc1" if "kc_do_encrypt api cfg now True b c k = (x, y, kc1)" for c x y kc1
    using kc_inv_do_encrypt [OF k, of api cfg now True b c] that by simp
  then show ?thesis
    using k by (simp add: kc_encrypt_def kc_inv_schedule split: sum.splits prod.splits option.splits)
qed

lemma kc_inv_decrypt_body: "kc_inv k \<Longrightarrow> kc_inv (snd (snd (kc_decrypt_body api cfg now b c k)))"
proof -
  assume k: "kc_inv k"
  have f: "snd (snd (kc_decrypt_finish api cfg b' k')) = k'" for b' and k' :: "'a key_context"
    by (simp add: kc_decrypt_finish_def split: prod.splits sum.splits)
  have l: "kc_inv kc1" if "kc_data_limit_add cfg now Decrypt n d k' = (x, kc1)" "kc_inv k'" for n d x kc1 and k' :: "'a key_context"
    using kc_inv_limit_add [OF that(2), of cfg now Decrypt n d] that(1) by simp
  show ?thesis
  proof (cases "buf_at b 0")
    case (Inr op)
    show ?thesis
    proof (cases "buf_advance (op_head_size (ucast op)) b")
      case adv: (Inr b1)
      define ad where "ad = (if op_head_size (ucast op) = OP_SIZE_V2 then Some (take 4 (content b)) else None)"
      obtain r b2 c1 where r: "dc_decrypt api now ad b1 c = (r, b2, c1)" by (metis prod_cases3)
      define k3 where "k3 er = (let k1 = k\<lparr>kc_crypto := Some c1\<rparr>; k2 = if er \<noteq> ERR_SUCCESS then kc_error er k1 else k1
        in if cfg_tcp cfg \<and> (er = DECRYPT_ERROR \<or> er = HMAC_ERROR) then kc_invalidate er k2 else k2)" for er
      have k3: "kc_inv (k3 er)" for er using k by (simp add: k3_def Let_def kc_inv_crypto kc_inv_invalidate kc_inv_error)
      have e: "kc_decrypt_body api cfg now b c k =
          (case r of Inl e \<Rightarrow> (Inl e, b2, k\<lparr>kc_crypto := Some c1\<rparr>)
           | Inr er \<Rightarrow> (case (case kc_data_limit (k3 er) of None \<Rightarrow> (True, k3 er)
                               | Some d \<Rightarrow> kc_data_limit_add cfg now Decrypt (b_size b2) d (k3 er)) of
                         (False, k4) \<Rightarrow> (Inl (option_error ''Unable to add data limit''), b2, k4)
                       | (True, k4) \<Rightarrow> kc_decrypt_finish api cfg b2 k4))"
        unfolding kc_decrypt_body_def Let_def k3_def by (simp only: Inr adv ad_def [symmetric] r sum.case prod.case)
      show ?thesis
      proof (cases r)
        case (Inr er)
        show ?thesis
        proof (cases "kc_data_limit (k3 er)")
          case None
          then show ?thesis unfolding e using Inr k3 by (simp add: f)
        next
          case (Some d)
          obtain x k4 where a: "kc_data_limit_add cfg now Decrypt (b_size b2) d (k3 er) = (x, k4)" by fastforce
          show ?thesis unfolding e using Inr Some a l [OF a k3] by (cases x) (simp_all add: f)
        qed
      qed (simp add: e k kc_inv_crypto)
    qed (simp add: kc_decrypt_body_def Inr k Let_def)
  qed (simp add: kc_decrypt_body_def k)
qed

lemma kc_inv_decrypt [kc_pres]: "kc_inv k \<Longrightarrow> kc_inv (snd (kc_decrypt api cfg now b k))"
proof -
  assume k: "kc_inv k"
  have "kc_inv kc1" if "kc_decrypt_body api cfg now b c k = (x, y, kc1)" for c x y kc1
    using kc_inv_decrypt_body [OF k, of api cfg now b c] that by simp
  then show ?thesis
    using k by (auto simp: kc_decrypt_def Let_def split: sum.splits prod.splits option.splits intro!: kc_inv_error kc_inv_invalidate)
qed

section \<open>The invariant of both keys\<close>

definition pc_inv :: "'c proto_context \<Rightarrow> bool" where
  "pc_inv pc \<longleftrightarrow>
     primary pc \<noteq> None \<and> (\<forall>k. primary pc = Some k \<or> secondary pc = Some k \<longrightarrow> kc_inv k)
     \<and> upcoming_key_id pc \<noteq> 0 \<and> unat (upcoming_key_id pc) < 8"

lemma pc_invI:
  "primary pc = Some p \<Longrightarrow> kc_inv p \<Longrightarrow> (\<And>s. secondary pc = Some s \<Longrightarrow> kc_inv s) \<Longrightarrow>
   upcoming_key_id pc \<noteq> 0 \<Longrightarrow> unat (upcoming_key_id pc) < 8 \<Longrightarrow> pc_inv pc"
  by (auto simp: pc_inv_def)

lemma pc_invE:
  assumes "pc_inv pc"
  obtains p where "primary pc = Some p" "kc_inv p" "\<And>s. secondary pc = Some s \<Longrightarrow> kc_inv s"
    "upcoming_key_id pc \<noteq> 0" "unat (upcoming_key_id pc) < 8"
  using assms by (auto simp: pc_inv_def)

lemma upcoming_cycle:
  assumes "unat (u :: u32) < 8"
  shows "unat (if (u + 1) AND 7 = 0 then 1 else (u + 1) AND 7) < 8" "(if (u + 1) AND 7 = 0 then 1 else (u + 1) AND 7) \<noteq> 0"
proof -
  have u: "u = of_nat (unat u)" by simp
  have "unat (of_nat ((unat u + 1) mod 8) :: u32) < 8" by (simp add: unsigned_of_nat take_bit_nat_eq_self)
  then show "unat (if (u + 1) AND 7 = 0 then 1 else (u + 1) AND 7) < 8" "(if (u + 1) AND 7 = 0 then 1 else (u + 1) AND 7) \<noteq> 0"
    using next_id_and_7(1) [OF assms] by simp_all
qed

lemma pc_new_secondary_inv:
  assumes "pc_inv pc"
  shows "pc_inv (pc_new_secondary_key now i pc)"
    "secondary (pc_new_secondary_key now i pc) = Some (kc_construct (pc_cfg pc) now (upcoming_key_id pc) i)"
  using assms upcoming_cycle [of "upcoming_key_id pc"]
  by (auto simp: pc_inv_def pc_new_secondary_key_def pc_next_key_id_def Let_def kc_inv_construct)

lemma pc_dynamic_inv:
  assumes "pc_inv pc" and "pc_dynamic_at_first_rekey export order pc = Inr pc'"
  shows "pc_inv pc' \<and> primary pc' = primary pc \<and> secondary pc' = secondary pc \<and> upcoming_key_id pc' = upcoming_key_id pc \<and> pc_cfg pc' = pc_cfg pc"
  using assms
  by (auto simp: pc_dynamic_at_first_rekey_def pc_set_dynamic_tls_crypt_def pc_reset_tls_crypt_def bindR_eq_Inr pc_inv_def Let_def
    split: option.splits if_splits)

lemma pc_renegotiate_inv:
  assumes "pc_inv pc" and "pc_renegotiate export order now pc = Inr pc'"
  shows "pc_inv pc'"
proof -
  obtain pc1 where d: "pc_dynamic_at_first_rekey export order pc = Inr pc1"
    and pc': "pc' = (let pc2 = pc_new_secondary_key now True pc1
       in pc2\<lparr>secondary := map_option (kc_start (pc_cfg pc2) (pc_wrap_mode pc2 = TLS_CRYPT_V2) False) (secondary pc2)\<rparr>)"
    using assms(2) by (auto simp: pc_renegotiate_def bindR_eq_Inr Let_def)
  have i1: "pc_inv pc1" using pc_dynamic_inv [OF assms(1) d] by blast
  note n = pc_new_secondary_inv [OF i1, of now True]
  have cfg: "pc_cfg (pc_new_secondary_key now True pc1) = pc_cfg pc1"
    by (simp add: pc_new_secondary_key_def pc_next_key_id_def Let_def)
  have "unat (upcoming_key_id pc1) < 8" using i1 by (simp add: pc_inv_def)
  then show ?thesis using n(1) by (auto simp: pc' Let_def n(2) cfg pc_inv_def kc_inv_start)
qed

lemma pc_disconnect_inv: "pc_inv pc \<Longrightarrow> pc_inv (pc_disconnect r pc)"
  by (auto simp: pc_inv_def pc_disconnect_def kc_inv_invalidate)

lemma pc_error_inv: "pc_inv pc \<Longrightarrow> pc_inv (pc_error e pc)"
  by (simp add: pc_inv_def pc_error_def)

lemma pc_promote_inv: "pc_inv pc \<Longrightarrow> secondary pc \<noteq> None \<Longrightarrow> pc_inv (pc_promote_secondary_to_primary api now pc)"
  by (auto simp: pc_inv_def pc_promote_secondary_to_primary_def kc_inv_rekey kc_inv_prepare_expire)

lemma pc_primary_event_inv:
  assumes i: "pc_inv pc" and r: "pc_primary_event api export order now ev pc = Inr pc'"
  shows "pc_inv pc'"
proof (cases ev)
  case KEV_EXPIRE
  then show ?thesis using i r
    by (auto simp: pc_primary_event_def split: option.splits if_splits
      intro!: pc_promote_inv pc_disconnect_inv pc_error_inv)
next
  case KEV_ACTIVE
  then show ?thesis using i r by (auto simp: pc_primary_event_def pc_active_callback_def pc_inv_def kc_inv_rekey)
qed (use i r in \<open>auto simp: pc_primary_event_def intro: pc_renegotiate_inv pc_disconnect_inv pc_error_inv\<close>)

lemma pc_secondary_event_inv:
  assumes i: "pc_inv pc" and s: "secondary pc = Some s" and r: "pc_secondary_event api export order now ev s pc = Inr pc'"
  shows "pc_inv pc'"
proof (cases ev)
  case KEV_ACTIVE
  then show ?thesis using i r s
    by (auto simp: pc_secondary_event_def pc_active_callback_def pc_inv_def kc_inv_rekey kc_inv_prepare_expire)
next
  case KEV_BECOME_PRIMARY
  then show ?thesis using i r s by (auto simp: pc_secondary_event_def intro: pc_promote_inv split: if_splits)
next
  case KEV_RENEGOTIATE_QUEUE
  then show ?thesis using i r by (auto simp: pc_secondary_event_def pc_inv_def kc_inv_key_limit_reneg)
next
  case KEV_EXPIRE
  then show ?thesis using i r by (auto simp: pc_secondary_event_def pc_inv_def)
qed (use i r in \<open>auto simp: pc_secondary_event_def intro: pc_renegotiate_inv pc_error_inv\<close>)

lemma pc_process_primary_event_inv:
  assumes "pc_inv pc" and "primary pc = Some p" and "pc_process_primary_event api export order now p pc = Inr pc'"
  shows "pc_inv pc'"
proof -
  have i: "pc_inv (pc\<lparr>primary := Some (kc_reset_event p)\<rparr>)"
    using assms(1,2) by (auto simp: pc_inv_def kc_inv_reset_event)
  obtain pc1 where 1: "(if current_event p \<noteq> KEV_NONE then pc_primary_event api export order now (current_event p) (pc\<lparr>primary := Some (kc_reset_event p)\<rparr>) else Inr pc) = Inr pc1"
    and 2: "pc' = pc1\<lparr>primary := map_option (kc_set_next_event_if_unspecified (pc_cfg pc1) now) (primary pc1)\<rparr>"
    using assms(3) by (auto simp: pc_process_primary_event_def bindR_eq_Inr)
  have "pc_inv pc1"
  proof (cases "current_event p = KEV_NONE")
    case False
    then show ?thesis using 1 pc_primary_event_inv [OF i] by simp
  qed (use 1 assms(1) in simp)
  with 2 show ?thesis by (auto simp: pc_inv_def kc_inv_next_event)
qed

lemma pc_process_secondary_event_inv:
  assumes "pc_inv pc" and "secondary pc = Some s" and "pc_process_secondary_event api export order now s pc = Inr pc'"
  shows "pc_inv pc'"
proof -
  have i: "pc_inv (pc\<lparr>secondary := Some (kc_reset_event s)\<rparr>)"
    using assms(1,2) by (auto simp: pc_inv_def kc_inv_reset_event)
  obtain pc1 where 1: "(if current_event s \<noteq> KEV_NONE then pc_secondary_event api export order now (current_event s) (kc_reset_event s) (pc\<lparr>secondary := Some (kc_reset_event s)\<rparr>) else Inr pc) = Inr pc1"
    and 2: "pc' = pc1\<lparr>secondary := map_option (kc_set_next_event_if_unspecified (pc_cfg pc1) now) (secondary pc1)\<rparr>"
    using assms(3) by (auto simp: pc_process_secondary_event_def bindR_eq_Inr)
  have "pc_inv pc1"
  proof (cases "current_event s = KEV_NONE")
    case False
    then show ?thesis using 1 pc_secondary_event_inv [OF i, of "kc_reset_event s"] by simp
  qed (use 1 assms(1) in simp)
  with 2 show ?thesis by (auto simp: pc_inv_def kc_inv_next_event)
qed


lemma pc_try_primary_inv:
  assumes i: "pc_inv pc" and r: "pc_try_primary api export order now pc = Inr (w, pc')"
  shows "pc_inv pc'"
proof -
  obtain p where p: "primary pc = Some p" using i by (auto simp: pc_inv_def)
  obtain x p1 where x: "kc_event_pending (pc_cfg pc) now p = (x, p1)" by fastforce
  have "kc_inv p1" using i p x kc_inv_event_pending [of p "pc_cfg pc" now] by (auto simp: pc_inv_def)
  then have i1: "pc_inv (pc\<lparr>primary := Some p1\<rparr>)" using i by (auto simp: pc_inv_def)
  show ?thesis
  proof (cases x)
    case True
    then show ?thesis using r pc_process_primary_event_inv [OF i1] by (auto simp: pc_try_primary_def p x bindR_eq_Inr)
  next
    case False
    then show ?thesis using r i1 by (auto simp: pc_try_primary_def p x)
  qed
qed

lemma pc_try_secondary_inv:
  assumes i: "pc_inv pc" and r: "pc_try_secondary api export order now w pc = Inr (w', pc')"
  shows "pc_inv pc'"
proof (cases "secondary pc")
  case None
  then show ?thesis using i r by (simp add: pc_try_secondary_def)
next
  case (Some s)
  obtain x s1 where x: "kc_event_pending (pc_cfg pc) now s = (x, s1)" by fastforce
  have "kc_inv s1" using i Some x kc_inv_event_pending [of s "pc_cfg pc" now] by (auto simp: pc_inv_def)
  then have i1: "pc_inv (pc\<lparr>secondary := Some s1\<rparr>)" using i by (auto simp: pc_inv_def)
  show ?thesis
  proof (cases x)
    case True
    then show ?thesis using r pc_process_secondary_event_inv [OF i1] by (auto simp: pc_try_secondary_def Some x bindR_eq_Inr)
  next
    case False
    then show ?thesis using r i1 by (auto simp: pc_try_secondary_def Some x)
  qed
qed

lemma pc_process_events_inv:
  "pc_inv pc \<Longrightarrow> pc_process_events api export order now pc = Inr (w, pc') \<Longrightarrow> pc_inv pc'"
  by (auto simp: pc_process_events_def bindR_eq_Inr dest: pc_try_primary_inv pc_try_secondary_inv)

lemma pc_inv_primary: "pc_inv pc \<Longrightarrow> kc_inv k \<Longrightarrow> pc_inv (pc\<lparr>primary := Some k\<rparr>)"
  and pc_inv_secondary: "pc_inv pc \<Longrightarrow> kc_inv k \<Longrightarrow> pc_inv (pc\<lparr>secondary := Some k\<rparr>)"
  and pc_inv_received: "pc_inv pc \<Longrightarrow> pc_inv (pc_update_last_received now pc)"
  by (auto simp: pc_inv_def pc_update_last_received_def)

lemma pc_inv_keys: "pc_inv pc \<Longrightarrow> primary pc = Some k \<Longrightarrow> kc_inv k" "pc_inv pc \<Longrightarrow> secondary pc = Some k \<Longrightarrow> kc_inv k"
  by (auto simp: pc_inv_def)

lemma pc_data_encrypt_inv:
  assumes "pc_inv pc" and "pc_data_encrypt api now b pc = (r, b', pc')"
  shows "pc_inv pc'"
proof -
  obtain p where p: "primary pc = Some p" using assms(1) by (auto simp: pc_inv_def)
  then show ?thesis
    using assms kc_inv_encrypt [OF pc_inv_keys(1) [OF assms(1) p], of api "pc_cfg pc" now b]
    by (auto simp: pc_data_encrypt_def p Let_def split: prod.splits intro!: pc_inv_primary)
qed

lemma pc_data_decrypt_inv:
  assumes i: "pc_inv pc" and r: "pc_data_decrypt api now ty b pc = (r, b', pc')"
  shows "pc_inv pc'"
proof -
  have d: "kc_inv k'" if "kc_decrypt api (pc_cfg pc) now b k = (x, k')" "primary pc = Some k \<or> secondary pc = Some k" for k x k'
    using kc_inv_decrypt [of k api "pc_cfg pc" now b] that i by (auto simp: pc_inv_def)
  show ?thesis
    using r i
    by (auto simp: pc_data_decrypt_def Let_def split: sum.splits which_key.splits option.splits prod.splits
      intro!: pc_inv_received pc_inv_primary pc_inv_secondary elim: d)
qed

lemma pc_step_inv: "pc_step api export order pc pc' \<Longrightarrow> pc_inv pc \<Longrightarrow> pc_inv pc'"
proof (induction rule: pc_step.induct)
  case (request now valid pc r pc')
  then show ?case
    using pc_dynamic_inv by (fastforce simp: pc_renegotiate_request_def bindR_eq_Inr split: if_splits intro: pc_new_secondary_inv(1))
next
  case (limit pc now kid m s)
  then show ?case
    by (auto simp: pc_data_limit_notify_def split: option.splits intro!: pc_inv_primary pc_inv_secondary kc_inv_limit_notify intro: pc_inv_keys)
qed (auto intro: pc_process_events_inv pc_data_encrypt_inv pc_data_decrypt_inv pc_disconnect_inv
       pc_inv_primary pc_inv_secondary kc_inv_go_active kc_inv_negotiate pc_inv_keys)

lemma pc_start_inv: "pc_start now cookie (pc_reset_keys now pc0) = Inr pc1 \<Longrightarrow> pc_inv pc1"
  by (auto simp: pc_start_def pc_reset_keys_def pc_next_key_id_def pc_update_last_sent_def Let_def
    intro!: pc_inv_received) (simp add: pc_inv_def kc_inv_start)

lemma pc_reachable_inv:
  assumes "pc_reachable api export order pc"
  shows "pc_inv pc"
proof -
  obtain pc0 now cookie pc1 where s: "pc_start now cookie (pc_reset_keys now pc0) = Inr pc1"
    and r: "(pc_step api export order)\<^sup>*\<^sup>* pc1 pc" using assms by (auto simp: pc_reachable_def)
  show ?thesis using r by (induction rule: rtranclp_induct) (use pc_start_inv [OF s] pc_step_inv in blast)+
qed


section \<open>What the invariant gives\<close>


definition ex_reset :: "unit proto_context" where
  "ex_reset = (case pc_start 100 False (pc_reset_keys 100 ex_pc) of Inr pc \<Rightarrow> pc | Inl e \<Rightarrow> ex_pc)"

lemma ex_reset_start: "pc_start 100 False (pc_reset_keys 100 ex_pc) = Inr ex_reset"
  by (simp add: ex_reset_def pc_start_def pc_reset_keys_def pc_next_key_id_def pc_update_last_sent_def Let_def)

lemma ex_reset_reachable: "pc_reachable xor_api (\<lambda>k l. None) 6 ex_reset"
  unfolding pc_reachable_def using ex_reset_start by blast


text \<open>
  C30. A secondary key that becomes primary by its own event has finished its negotiation. It keeps its
  identity, and the old primary is kept as the secondary key with its expiry as the next event, so packets
  still under way on it can be decrypted.
\<close>

theorem promotion_of_active_key:
  assumes "pc_reachable api export order pc" and "secondary pc = Some s" and "primary pc = Some p"
    and "kc_event_pending (pc_cfg pc) now s = (True, s1)" and "current_event s1 = KEV_BECOME_PRIMARY" and "\<not> kc_invalidated s1"
  shows "\<exists>pc' p' s'. pc_process_secondary_event api export order now s1 (pc\<lparr>secondary := Some s1\<rparr>) = Inr pc'
    \<and> primary pc' = Some p' \<and> kc_state p' \<ge> ACTIVE \<and> key_id p' = key_id s1 \<and> construct_time p' = construct_time s1
    \<and> secondary pc' = Some s' \<and> key_id s' = key_id p \<and> kc_crypto s' = kc_crypto p \<and> next_event s' = KEV_EXPIRE"
proof -
  have "pc_inv pc" by (rule pc_reachable_inv [OF assms(1)])
  then have "kc_inv s" using assms(2) by (auto simp: pc_inv_def)
  then have "kc_inv s1" using kc_inv_event_pending [of s "pc_cfg pc" now] assms(4) by simp
  then have "kc_state s1 \<ge> ACTIVE" using assms(5) by (simp add: kc_inv_def)
  then show ?thesis
    using assms(3,5,6)
    by (simp add: pc_process_secondary_event_def pc_secondary_event_def pc_promote_secondary_to_primary_def kc_reset_event_def
      kc_rekey_def kc_prepare_expire_def kc_set_event_def kc_set_next_event_if_unspecified_def split: option.splits)
qed

text \<open>A run: the peer asks for a new key, which is negotiated, goes active and is announced.\<close>

definition ex_new :: "int \<Rightarrow> unit key_context" where
  "ex_new st = (kc_construct ex_cfg 200 1 False)\<lparr>kc_state := st\<rparr>"

definition ex_with :: "unit key_context \<Rightarrow> unit proto_context" where
  "ex_with k = (pc_new_secondary_key 200 False ex_reset)\<lparr>secondary := Some k\<rparr>"

abbreviation "ex_step \<equiv> pc_step xor_api (\<lambda>k l. None) 6"

lemma ex_reset_fields: "pc_tls ex_reset = pc_tls ex_pc" "pc_cfg ex_reset = ex_cfg" "upcoming_key_id ex_reset = 1"
  "primary ex_reset = Some (kc_start ex_cfg False False (kc_construct ex_cfg 100 0 True))" "tc_dynamic (pc_tls ex_pc) = False"
  by (simp_all add: ex_reset_def pc_start_def pc_reset_keys_def pc_next_key_id_def pc_update_last_sent_def
    pc_update_last_received_def Let_def ex_pc_def ex_cfg_def)

lemma ex_run:
  "ex_step ex_reset (ex_with (ex_new C_WAIT_RESET))"
  "ex_step (ex_with (ex_new C_WAIT_RESET)) (ex_with (ex_new C_WAIT_RESET_ACK))"
  "ex_step (ex_with (ex_new C_WAIT_RESET_ACK)) (ex_with (ex_new C_WAIT_AUTH))"
  "ex_step (ex_with (ex_new C_WAIT_AUTH)) (ex_with (ex_new C_WAIT_AUTH_ACK))"
  "ex_step (ex_with (ex_new C_WAIT_AUTH_ACK)) (ex_with (kc_go_active ex_cfg 300 (ex_new C_WAIT_AUTH_ACK)))"
proof -
  have c: "pc_cfg (ex_with k) = ex_cfg" "secondary (ex_with k) = Some k" "(ex_with k)\<lparr>secondary := Some k'\<rparr> = ex_with k'" for k k'
    by (simp_all add: ex_with_def pc_new_secondary_key_def pc_next_key_id_def Let_def ex_reset_fields)
  have n: "kc_state (ex_new st) = st" "kc_set_state st' (ex_new st) = ex_new st'" for st st'
    by (simp_all add: ex_new_def kc_set_state_def)
  have "pc_new_secondary_key 200 False ex_reset = ex_with (ex_new C_WAIT_RESET)"
    by (simp add: ex_with_def ex_new_def pc_new_secondary_key_def pc_next_key_id_def Let_def ex_reset_fields kc_construct_def
      kc_set_event_def kc_state_defs) (simp add: ex_cfg_def)
  then have "pc_renegotiate_request (\<lambda>k l. None) 6 200 True ex_reset = Inr (True, ex_with (ex_new C_WAIT_RESET))"
    by (simp add: pc_renegotiate_request_def pc_dynamic_at_first_rekey_def ex_reset_fields)
  then show "ex_step ex_reset (ex_with (ex_new C_WAIT_RESET))" by (rule pc_step.request)
  have g: "ex_step (ex_with (ex_new st)) (ex_with (ex_new st'))" if "kc_next_state st = Some st'" for st st'
    using pc_step.negotiate_secondary [where pc = "ex_with (ex_new st)" and k = "ex_new st"] that by (simp add: c n)
  show "ex_step (ex_with (ex_new C_WAIT_RESET)) (ex_with (ex_new C_WAIT_RESET_ACK))"
    "ex_step (ex_with (ex_new C_WAIT_RESET_ACK)) (ex_with (ex_new C_WAIT_AUTH))"
    "ex_step (ex_with (ex_new C_WAIT_AUTH)) (ex_with (ex_new C_WAIT_AUTH_ACK))"
    by (rule g; simp add: kc_next_state_def kc_state_defs)+
  show "ex_step (ex_with (ex_new C_WAIT_AUTH_ACK)) (ex_with (kc_go_active ex_cfg 300 (ex_new C_WAIT_AUTH_ACK)))"
    using pc_step.active_secondary [where pc = "ex_with (ex_new C_WAIT_AUTH_ACK)" and k = "ex_new C_WAIT_AUTH_ACK" and now = 300]
    by (simp add: c n)
qed

definition ex_active :: "unit key_context" where
  "ex_active = kc_reset_event (kc_go_active ex_cfg 300 (ex_new C_WAIT_AUTH_ACK))"

definition ex_announced :: "unit proto_context" where
  "ex_announced = (ex_with ex_active)\<lparr>primary := map_option (kc_prepare_expire ex_cfg 400 KEV_NONE) (primary ex_reset), pc_active_calls := [False]\<rparr>"

lemma ex_with_fields: "primary (ex_with k) = primary ex_reset" "secondary (ex_with k) = Some k" "pc_cfg (ex_with k) = ex_cfg"
  "(ex_with k)\<lparr>secondary := Some k'\<rparr> = ex_with k'" "pc_active_calls (ex_with k) = []"
  by (simp_all add: ex_with_def pc_new_secondary_key_def pc_next_key_id_def Let_def ex_reset_fields)
    (simp add: ex_reset_def pc_start_def pc_reset_keys_def pc_next_key_id_def pc_update_last_sent_def pc_update_last_received_def
      Let_def ex_pc_def)

lemma ex_announce: "ex_step (ex_with (kc_go_active ex_cfg 300 (ex_new C_WAIT_AUTH_ACK))) ex_announced"
proof (rule pc_step.events [where now = 400 and w = True])
  let ?k = "kc_go_active ex_cfg 300 (ex_new C_WAIT_AUTH_ACK)"
  obtain p0 where p0: "primary ex_reset = Some p0" "current_event p0 = KEV_NONE" "next_event_time p0 = 61540"
    by (simp add: ex_reset_fields kc_start_def kc_construct_def kc_set_event_def kc_send_reset_def kc_raw_send_def kc_set_state_def
      Let_def ex_cfg_def tm_plus_def tm_is_infinite_def dur_is_infinite_def)
  have 1: "pc_try_primary xor_api (\<lambda>k l. None) 6 400 (ex_with ?k) = Inr (False, ex_with ?k)"
    using p0 by (simp add: pc_try_primary_def ex_with_fields kc_event_pending_def)
  have k: "current_event ?k = KEV_ACTIVE" "next_event ?k \<noteq> KEV_NONE" "kc_crypto ?k = None" "data_channel_key ?k = None"
    by (simp_all add: kc_go_active_def kc_set_state_def kc_active_event_def kc_set_event_def ex_new_def kc_construct_def)
  then have 2: "kc_event_pending ex_cfg 400 ?k = (True, ?k)" by (simp add: kc_event_pending_def)
  have 3: "next_event ex_active \<noteq> KEV_NONE" "kc_rekey api ty ex_active = ex_active" for api ty
    using k(2-4) by (simp_all add: ex_active_def kc_reset_event_def kc_rekey_def)
  have "pc_process_secondary_event xor_api (\<lambda>k l. None) 6 400 ?k (ex_with ?k) = Inr ex_announced"
    using k(1) 3 by (simp add: pc_process_secondary_event_def pc_secondary_event_def ex_active_def [symmetric] ex_with_fields
      pc_active_callback_def kc_set_next_event_if_unspecified_def ex_announced_def)
  then show "pc_process_events xor_api (\<lambda>k l. None) 6 400 (ex_with ?k) = Inr (True, ex_announced)"
    by (simp add: pc_process_events_def 1 pc_try_secondary_def ex_with_fields 2)
qed

lemma ex_announced_reachable: "pc_reachable xor_api (\<lambda>k l. None) 6 ex_announced"
proof -
  have "ex_step\<^sup>*\<^sup>* ex_reset ex_announced"
    using ex_run ex_announce by (meson converse_rtranclp_into_rtranclp rtranclp.rtrancl_refl)
  then show ?thesis unfolding pc_reachable_def using ex_reset_start by blast
qed

theorem promotion_of_active_key_witness:
  "\<exists>s1 pc' p'. kc_event_pending ex_cfg 70000 ex_active = (True, s1)
     \<and> pc_process_secondary_event xor_api (\<lambda>k l. None) 6 70000 s1 (ex_announced\<lparr>secondary := Some s1\<rparr>) = Inr pc'
     \<and> primary pc' = Some p' \<and> key_id p' = 1 \<and> kc_state p' \<ge> ACTIVE"
proof -
  obtain p where p: "primary ex_announced = Some p"
    by (simp add: ex_announced_def ex_reset_fields)
  define s1 where "s1 = kc_process_next_event ex_cfg 70000 ex_active"
  have c: "pc_cfg ex_announced = ex_cfg" "secondary ex_announced = Some ex_active"
    by (simp_all add: ex_announced_def ex_with_fields)
  have s1: "kc_event_pending ex_cfg 70000 ex_active = (True, s1)" "current_event s1 = KEV_BECOME_PRIMARY" "\<not> kc_invalidated s1" "key_id s1 = 1"
    by (simp_all add: s1_def kc_event_pending_def kc_process_next_event_def ex_active_def kc_reset_event_def kc_go_active_def kc_set_state_def
      kc_active_event_def kc_set_event_def ex_new_def kc_construct_def kc_data_limit_defer_def ex_cfg_def tm_plus_def tm_is_infinite_def
      dur_is_infinite_def)
  show ?thesis
    using promotion_of_active_key [OF ex_announced_reachable c(2) p _ s1(2,3), of 70000] s1 by (auto simp: c(1))
qed

end
