(* ===== verification/Control_Crypto.thy ===== *)
theory Control_Crypto
  imports Frame_Context Hex_Str
begin

text \<open>
  What protects control packets: session IDs (ssl/psid.hpp), the HMAC of tls-auth (crypto/ovpnhmac.hpp) and
  the HMAC and cipher of tls-crypt (crypto/tls_crypt.hpp). The digest and the cipher of the crypto library
  are parameters: a digest is a function of the key and of all the bytes given to \<open>update\<close>, with a fixed
  output size; a cipher maps key, initialisation vector and input to the output of \<open>update\<close> and of \<open>final\<close>,
  either of which may fail. Data is addressed by its index in the array of a buffer, as the code does with
  pointers, so an access outside of the array shows.
\<close>

section \<open>\<open>ProtoSessionID\<close>\<close>

definition PSID_SIZE :: nat where "PSID_SIZE = 8"

record psid =
  ps_defined :: bool
  ps_id :: "byte list"

definition psid_reset :: psid where
  "psid_reset = \<lparr>ps_defined = False, ps_id = replicate PSID_SIZE 0\<rparr>"

definition psid_read :: "buffer \<Rightarrow> (psid \<times> buffer) result" where
  "psid_read buf = bindR (buf_read PSID_SIZE buf) (\<lambda>(i, buf'). Inr (\<lparr>ps_defined = True, ps_id = i\<rparr>, buf'))"

definition psid_randomize :: "(nat \<Rightarrow> byte) \<Rightarrow> psid" where
  "psid_randomize rng = \<lparr>ps_defined = True, ps_id = map rng [0..<PSID_SIZE]\<rparr>"

definition psid_write :: "(nat \<Rightarrow> byte) \<Rightarrow> psid \<Rightarrow> buffer \<Rightarrow> buffer result" where
  "psid_write junk p buf = buf_write junk (ps_id p) buf"

definition psid_prepend :: "psid \<Rightarrow> buffer \<Rightarrow> buffer result" where
  "psid_prepend p buf = buf_prepend (ps_id p) buf"

definition psid_match :: "psid \<Rightarrow> psid \<Rightarrow> bool" where
  "psid_match p other \<longleftrightarrow> ps_defined p \<and> ps_defined other \<and> ps_id p = ps_id other"

definition psid_str :: "psid \<Rightarrow> string" where
  "psid_str p = render_hex (Some (ps_id p)) False"

section \<open>\<open>OvpnHMAC\<close>\<close>

record digest =
  dg_hmac :: "byte list \<Rightarrow> byte list \<Rightarrow> byte list"
  dg_size :: size_t

text \<open>\<open>ovpn_hmac_pre\<close> with the digest it leads to; the packet ID comes first in the order of the HMAC.\<close>

definition ovpn_hmac_pre :: "digest \<Rightarrow> byte list \<Rightarrow> nat \<Rightarrow> size_t \<Rightarrow> size_t \<Rightarrow> size_t \<Rightarrow> size_t \<Rightarrow> buffer
    \<Rightarrow> byte list option result" where
  "ovpn_hmac_pre dg key dat data_size l1 l2 l3 b =
     (let lsum = sz_add (sz_add l1 l2) l3
      in if lsum > data_size \<or> l2 \<noteq> dg_size dg then Inr None
         else bindR (buf_peek (dat + l1 + l2) l3 b) (\<lambda>p1.
              bindR (buf_peek dat l1 b) (\<lambda>p2.
              bindR (buf_peek (dat + lsum) (sz_sub data_size lsum) b) (\<lambda>p3.
                Inr (Some (dg_hmac dg key (p1 @ p2 @ p3)))))))"

definition ovpn_hmac_gen :: "digest \<Rightarrow> byte list \<Rightarrow> nat \<Rightarrow> size_t \<Rightarrow> size_t \<Rightarrow> size_t \<Rightarrow> size_t \<Rightarrow> buffer
    \<Rightarrow> buffer result" where
  "ovpn_hmac_gen dg key dat data_size l1 l2 l3 b =
     bindR (ovpn_hmac_pre dg key dat data_size l1 l2 l3 b)
       (\<lambda>t. case t of Some tag \<Rightarrow> buf_poke (dat + l1) tag b | None \<Rightarrow> Inl ovpn_hmac_context_bad_sizing)"

definition ovpn_hmac_cmp :: "digest \<Rightarrow> byte list \<Rightarrow> nat \<Rightarrow> size_t \<Rightarrow> size_t \<Rightarrow> size_t \<Rightarrow> size_t \<Rightarrow> buffer
    \<Rightarrow> bool result" where
  "ovpn_hmac_cmp dg key dat data_size l1 l2 l3 b =
     bindR (ovpn_hmac_pre dg key dat data_size l1 l2 l3 b)
       (\<lambda>t. case t of
              Some tag \<Rightarrow> bindR (buf_peek (dat + l1) l2 b) (\<lambda>bs. Inr (bs = take l2 tag))
            | None \<Rightarrow> Inr False)"

section \<open>\<open>TLSCrypt\<close>\<close>

datatype cipher_mode = MODE_UNDEF | CIPHER_ENCRYPT | CIPHER_DECRYPT

record cipher =
  ci_iv_size :: size_t
  ci_update :: "cipher_mode \<Rightarrow> byte list \<Rightarrow> byte list \<Rightarrow> byte list \<Rightarrow> byte list option"
  ci_final :: "cipher_mode \<Rightarrow> byte list \<Rightarrow> byte list \<Rightarrow> byte list \<Rightarrow> byte list option"

definition tc_hmac_pre :: "digest \<Rightarrow> byte list \<Rightarrow> nat \<Rightarrow> size_t \<Rightarrow> byte list \<Rightarrow> buffer \<Rightarrow> byte list result" where
  "tc_hmac_pre dg key header header_len payload b =
     bindR (buf_peek header header_len b) (\<lambda>h. Inr (dg_hmac dg key (h @ payload)))"

definition tc_hmac_gen :: "digest \<Rightarrow> byte list \<Rightarrow> nat \<Rightarrow> size_t \<Rightarrow> byte list \<Rightarrow> buffer \<Rightarrow> buffer result" where
  "tc_hmac_gen dg key header header_len payload b =
     bindR (tc_hmac_pre dg key header header_len payload b) (\<lambda>tag. buf_poke (header + header_len) tag b)"

definition tc_hmac_cmp :: "digest \<Rightarrow> byte list \<Rightarrow> nat \<Rightarrow> size_t \<Rightarrow> byte list \<Rightarrow> buffer \<Rightarrow> bool result" where
  "tc_hmac_cmp dg key header header_len payload b =
     bindR (tc_hmac_pre dg key header header_len payload b) (\<lambda>tag.
     bindR (buf_peek (header + header_len) (dg_size dg) b) (\<lambda>bs. Inr (bs = take (dg_size dg) tag)))"

text \<open>
  \<open>encrypt_decrypt\<close>: the library reads an initialisation vector of its own size at \<open>iv\<close> and writes its
  output at \<open>out\<close> in the array of \<open>b\<close>, whatever the size left there. The result is the number of bytes
  written, 0 for a failure.
\<close>

definition tc_crypt :: "cipher \<Rightarrow> byte list \<Rightarrow> cipher_mode \<Rightarrow> byte list result \<Rightarrow> nat \<Rightarrow> byte list \<Rightarrow> buffer
    \<Rightarrow> (size_t \<times> buffer) result" where
  "tc_crypt ci key md ivr out inp b =
     bindR ivr (\<lambda>iv.
       case ci_update ci md key iv inp of
         None \<Rightarrow> Inr (0, b)
       | Some o1 \<Rightarrow>
           bindR (buf_poke out o1 b) (\<lambda>b1.
             case ci_final ci md key iv inp of
               None \<Rightarrow> Inr (0, b1)
             | Some o2 \<Rightarrow> bindR (buf_poke (out + length o1) o2 b1) (\<lambda>b2. Inr (length o1 + length o2, b2))))"

definition tc_encrypt :: "cipher \<Rightarrow> byte list \<Rightarrow> cipher_mode \<Rightarrow> byte list result \<Rightarrow> nat \<Rightarrow> byte list \<Rightarrow> buffer
    \<Rightarrow> (size_t \<times> buffer) result" where
  "tc_encrypt ci key md ivr out inp b =
     (if md \<noteq> CIPHER_ENCRYPT then Inl ovpn_tls_crypt_wrong_mode else tc_crypt ci key md ivr out inp b)"

definition tc_decrypt :: "cipher \<Rightarrow> byte list \<Rightarrow> cipher_mode \<Rightarrow> byte list result \<Rightarrow> nat \<Rightarrow> byte list \<Rightarrow> buffer
    \<Rightarrow> (size_t \<times> buffer) result" where
  "tc_decrypt ci key md ivr out inp b =
     (if md \<noteq> CIPHER_DECRYPT then Inl ovpn_tls_crypt_wrong_mode else tc_crypt ci key md ivr out inp b)"

text \<open>\<open>TLSCryptContext::hmac_offset\<close>: opcode, session ID and packet ID.\<close>

definition hmac_offset :: nat where "hmac_offset = 1 + PSID_SIZE + 8"

section \<open>Tags\<close>

text \<open>A packet in the order of tls-auth: header, HMAC, packet ID, payload.\<close>

lemma ovpn_hmac_pre_eq:
  assumes "buf_wf b" "content b = h @ tag @ pid @ rest" "length tag = dg_size dg"
  shows "ovpn_hmac_pre dg key (b_offset b) (b_size b) (length h) (length tag) (length pid) b
    = Inr (Some (dg_hmac dg key (pid @ h @ rest)))"
proof -
  have n: "b_size b = length h + length tag + length pid + length rest" using assms(1,2) by (simp flip: length_content)
  have m: "b_size b < sz_max" using assms(1) by (auto simp: buf_wf_def)
  have s: "sz_add (sz_add (length h) (length tag)) (length pid) = length h + length tag + length pid"
    "sz_sub (b_size b) (length h + length tag + length pid) = length rest"
    using n m by (simp_all add: sz_add_exact sz_sub_exact)
  note p = buf_peek_window [OF assms(1)]
  have "buf_peek (b_offset b + length h + length tag) (length pid) b = Inr pid"
    using p [of "length h + length tag" "length pid"] n assms(2) by (simp add: add.assoc)
  moreover have "buf_peek (b_offset b) (length h) b = Inr h" using p [of 0 "length h"] n assms(2) by simp
  moreover have "buf_peek (b_offset b + (length h + length tag + length pid)) (length rest) b = Inr rest"
    using p [of "length h + length tag + length pid" "length rest"] n assms(2) by (simp add: add.assoc)
  ultimately show ?thesis using assms(3) n unfolding ovpn_hmac_pre_def Let_def s by simp
qed

lemma ovpn_hmac_cmp_eq:
  assumes "buf_wf b" "content b = h @ tag @ pid @ rest" "length tag = dg_size dg"
  shows "ovpn_hmac_cmp dg key (b_offset b) (b_size b) (length h) (length tag) (length pid) b
    = Inr (tag = take (length tag) (dg_hmac dg key (pid @ h @ rest)))"
proof -
  have "buf_peek (b_offset b + length h) (length tag) b = Inr tag"
    using buf_peek_window [OF assms(1), of "length h" "length tag"] assms(1,2) by (simp flip: length_content)
  then show ?thesis by (simp add: ovpn_hmac_cmp_def ovpn_hmac_pre_eq [OF assms])
qed

definition digest_ok :: "digest \<Rightarrow> bool" where
  "digest_ok dg \<longleftrightarrow> (\<forall>key m. length (dg_hmac dg key m) = dg_size dg) \<and> dg_size dg \<le> 64"

lemma ovpn_hmac_gen_eq:
  assumes "buf_wf b" "content b = h @ tag @ pid @ rest" "length tag = dg_size dg" "digest_ok dg"
  obtains b' where "ovpn_hmac_gen dg key (b_offset b) (b_size b) (length h) (length tag) (length pid) b = Inr b'"
    "buf_wf b'" "content b' = h @ dg_hmac dg key (pid @ h @ rest) @ pid @ rest"
proof -
  let ?t = "dg_hmac dg key (pid @ h @ rest)"
  have l: "length ?t = length tag" using assms(3,4) by (simp add: digest_ok_def)
  have n: "length h + length ?t \<le> b_size b" using assms(1,2) l by (simp flip: length_content)
  obtain b' where "buf_poke (b_offset b + length h) ?t b = Inr b'" "buf_wf b'" "content b' = overwrite (length h) ?t (content b)"
    using buf_poke_window [OF assms(1) n] by blast
  then show thesis
    using that [of b'] by (simp add: ovpn_hmac_gen_def ovpn_hmac_pre_eq [OF assms(1-3)] assms(2) overwrite_mid l)
qed

text \<open>A packet in the order of tls-crypt: header with packet ID, HMAC, encrypted payload.\<close>

lemma tc_hmac_cmp_eq:
  assumes "buf_wf b" "content b = h @ tag @ rest" "length tag = dg_size dg"
  shows "tc_hmac_cmp dg key (b_offset b) (length h) payload b = Inr (tag = take (dg_size dg) (dg_hmac dg key (h @ payload)))"
proof -
  have "buf_peek (b_offset b) (length h) b = Inr h"
    using buf_peek_window [OF assms(1), of 0 "length h"] assms(1,2) by (simp flip: length_content)
  moreover have "buf_peek (b_offset b + length h) (dg_size dg) b = Inr tag"
    using buf_peek_window [OF assms(1), of "length h" "length tag"] assms by (simp flip: length_content)
  ultimately show ?thesis by (simp add: tc_hmac_cmp_def tc_hmac_pre_def)
qed

lemma tc_hmac_gen_eq:
  assumes "buf_wf b" "content b = h @ tag @ rest" "length tag = dg_size dg" "digest_ok dg"
  obtains b' where "tc_hmac_gen dg key (b_offset b) (length h) payload b = Inr b'" "buf_wf b'"
    "content b' = h @ dg_hmac dg key (h @ payload) @ rest" "b_offset b' = b_offset b" "b_size b' = b_size b"
    "b_capacity b' = b_capacity b" "b_flags b' = b_flags b"
proof -
  let ?t = "dg_hmac dg key (h @ payload)"
  have l: "length ?t = length tag" using assms(3,4) by (simp add: digest_ok_def)
  have n: "length h + length ?t \<le> b_size b" using assms(1,2) l by (simp flip: length_content)
  have "buf_peek (b_offset b) (length h) b = Inr h"
    using buf_peek_window [OF assms(1), of 0 "length h"] assms(1,2) by (simp flip: length_content)
  then have g: "tc_hmac_gen dg key (b_offset b) (length h) payload b = buf_poke (b_offset b + length h) ?t b"
    by (simp add: tc_hmac_gen_def tc_hmac_pre_def)
  obtain b' where "buf_poke (b_offset b + length h) ?t b = Inr b'" "buf_wf b'" "content b' = overwrite (length h) ?t (content b)"
    "b_offset b' = b_offset b" "b_size b' = b_size b" "b_capacity b' = b_capacity b" "b_flags b' = b_flags b"
    using buf_poke_window [OF assms(1) n] by metis
  then show thesis using that [of b'] by (simp add: g assms(2) overwrite_mid l)
qed

text \<open>A cipher that works on a stream: as much output as input, and nothing at the end.\<close>

definition cipher_ok :: "cipher \<Rightarrow> bool" where
  "cipher_ok ci \<longleftrightarrow> (\<forall>md key iv inp out. ci_update ci md key iv inp = Some out \<longrightarrow> length out = length inp)
     \<and> (\<forall>md key iv inp. ci_final ci md key iv inp = Some [])"

text \<open>The cipher's output goes to the free space behind the window.\<close>

lemma tc_crypt_eq:
  assumes "cipher_ok ci" "b_offset b \<le> out" "out + length inp \<le> length (b_data b)"
  shows "tc_crypt ci key md (Inr iv) out inp b = (case ci_update ci md key iv inp of
      None \<Rightarrow> Inr (0, b) | Some o1 \<Rightarrow> Inr (length inp, b\<lparr>b_data := overwrite out o1 (b_data b)\<rparr>))"
proof (cases "ci_update ci md key iv inp")
  case (Some o1)
  then have l: "length o1 = length inp" "ci_final ci md key iv inp = Some []" using assms(1) by (auto simp: cipher_ok_def)
  have "overwrite k [] xs = xs" for k and xs :: "byte list" by (simp add: overwrite_def)
  then show ?thesis using Some l assms(3) by (simp add: tc_crypt_def buf_poke_def)
qed (simp add: tc_crypt_def)

end
