(* ===== verification/Control_Wrap.thy ===== *)
theory Control_Wrap
  imports Control_Crypto Proto_Context Reliable
begin

text \<open>
  The wrapping of control packets by \<open>KeyContext\<close> of ssl/proto.hpp: \<open>encapsulate\<close> and \<open>generate_ack\<close> put
  the message ID, the acknowledgements, the session IDs and, with tls-auth or tls-crypt, packet ID, HMAC and
  encryption around a message; \<open>decapsulate\<close> takes them off, checks them and files the message with the
  reliability layer; \<open>validate\<close> checks a packet without filing it. A handler returns its result or the
  exception it throws together with the state it leaves behind.
\<close>

section \<open>State\<close>

text \<open>\<open>ProtoContext::Packet\<close>.\<close>

record control_packet =
  cp_opcode :: u32
  cp_buf :: buffer

text \<open>
  A key context with the protocol context it belongs to: the reliability layer and the work buffer of the
  former, the session IDs, the size of the HMAC, the tls-auth keys (to send, to receive) and the wrapped client
  key and the tls-crypt-v2 server keys of the latter.
\<close>

record 'c control =
  ct_key :: "'c key_context"
  ct_proto :: "'c proto_context"
  rel_send :: "control_packet rel_send"
  rel_recv :: "control_packet rel_recv"
  xmit_acks :: rel_ack
  resend_wkc :: bool
  ct_work :: buffer
  psid_self :: psid
  psid_peer :: psid
  hmac_size :: size_t
  ta_hmac_keys :: "byte list \<times> byte list"
  ct_wkc :: buffer
  tls_crypt_server_keys :: "byte list \<times> byte list"

text \<open>
  The environment of a call: the crypto library, the current time with the second the clock started at,
  the frame, the address of the work buffer's array and the content of fresh memory; for tls-crypt-v2 the
  configured server key directory, reading a file, the PEM decoder and the check of the client's metadata.
\<close>

record wrap_env =
  we_ta :: digest
  we_tc :: digest
  we_cipher :: cipher
  we_now :: time64
  we_epoch :: int
  we_frame :: frame
  we_addr :: nat
  we_junk :: "nat \<Rightarrow> byte"
  we_serverkey_id :: bool
  we_serverkey_dir :: string
  we_read_text :: "string \<Rightarrow> string result"
  we_pem_decode :: "string \<Rightarrow> string \<Rightarrow> byte list option"
  we_metadata_verify :: "int \<Rightarrow> byte list \<Rightarrow> bool"


definition we_seconds :: "wrap_env \<Rightarrow> int" where
  "we_seconds env = tm_seconds_since_epoch (we_epoch env) (we_now env)"

definition ct_prepare_work :: "wrap_env \<Rightarrow> nat \<Rightarrow> buffer \<Rightarrow> buffer result" where
  "ct_prepare_work env i work =
     bindR (frame_at (we_frame env) i) (\<lambda>fc. fc_prepare (we_junk env) (we_addr env) fc work)"

text \<open>\<open>proto.stats->error\<close>, followed on TCP by the invalidation of the session.\<close>

definition ct_error :: "err \<Rightarrow> 'c control \<Rightarrow> 'c control" where
  "ct_error e c = c\<lparr>ct_key := kc_error e (ct_key c)\<rparr>"

definition ct_fail :: "err \<Rightarrow> 'c control \<Rightarrow> 'c control" where
  "ct_fail e c =
     (let c1 = ct_error e c
      in if cfg_tcp (pc_cfg (ct_proto c)) then c1\<lparr>ct_key := kc_invalidate e (ct_key c1)\<rparr> else c1)"

section \<open>Sending\<close>

definition prepend_dest_psid_and_acks :: "u32 \<Rightarrow> buffer \<Rightarrow> 'c control \<Rightarrow> buffer result \<times> 'c control" where
  "prepend_dest_psid_and_acks opcode buf c =
     (let (r, c1) =
        (if ra_acks_ready (xmit_acks c)
         then if ps_defined (psid_peer c) then (psid_prepend (psid_peer c) buf, c)
              else (Inl (proto_error ''peer_psid_undef''), ct_error CC_ERROR c)
         else (Inr buf, c))
      in case r of
           Inl e \<Rightarrow> (Inl e, c1)
         | Inr buf1 \<Rightarrow>
             (case ra_prepend (opcode = ACK_V1) (xmit_acks c1) buf1 of
                (Some e, a, _) \<Rightarrow> (Inl e, c1\<lparr>xmit_acks := a\<rparr>)
              | (None, a, buf2) \<Rightarrow> (Inr buf2, c1\<lparr>xmit_acks := a\<rparr>)))"

definition gen_head_tls_auth :: "wrap_env \<Rightarrow> u32 \<Rightarrow> buffer \<Rightarrow> 'c control \<Rightarrow> buffer result \<times> 'c control" where
  "gen_head_tls_auth env opcode buf c =
     (let (r, ps) = pcs_write_next (we_junk env) True (we_seconds env) (ta_pid_send (ct_proto c)) buf;
          c1 = c\<lparr>ct_proto := (ct_proto c)\<lparr>ta_pid_send := ps\<rparr>\<rparr>
      in (bindR r (\<lambda>b1.
          bindR (buf_prepend_alloc (hmac_size c) b1) (\<lambda>b2.
          bindR (psid_prepend (psid_self c) b2) (\<lambda>b3.
          bindR (buf_push_front (op_compose opcode (key_id (ct_key c))) b3) (\<lambda>b4.
            ovpn_hmac_gen (we_ta env) (fst (ta_hmac_keys c)) (b_offset b4) (b_size b4)
              (1 + PSID_SIZE) (hmac_size c) pc_idsize b4)))), c1))"

text \<open>\<open>ProtoContext::tls_crypt_append_wkc\<close>\<close>

definition tls_crypt_append_wkc :: "wrap_env \<Rightarrow> buffer \<Rightarrow> 'c control \<Rightarrow> buffer result" where
  "tls_crypt_append_wkc env dst c =
     (if \<not> buf_defined (ct_wkc c) then Inl (proto_error ''Client Key Wrapper undefined'')
      else buf_append (we_junk env) (ct_wkc c) dst)"

text \<open>
  \<open>gen_head_tls_crypt\<close>: the header is built in the work buffer, the payload is encrypted behind it, and the
  two buffers change places. A cipher that gives no output empties the packet. The work buffer is prepared
  anew by every use, so what an exception leaves in it is not kept.
\<close>

definition tls_crypt_space :: "wrap_env \<Rightarrow> 'c control \<Rightarrow> buffer result" where
  "tls_crypt_space env c =
     bindR (ct_prepare_work env ENCRYPT_WORK (ct_work c)) (\<lambda>w0. buf_prepend_alloc (hmac_size c) w0)"

definition tls_crypt_header :: "u32 \<Rightarrow> buffer result \<Rightarrow> 'c control \<Rightarrow> buffer result" where
  "tls_crypt_header opcode r c =
     bindR r (\<lambda>w2.
     bindR (psid_prepend (psid_self c) w2) (\<lambda>w3.
       buf_push_front (op_compose opcode (key_id (ct_key c))) w3))"

definition tls_crypt_payload :: "wrap_env \<Rightarrow> u32 \<Rightarrow> buffer \<Rightarrow> buffer \<Rightarrow> 'c control \<Rightarrow> (buffer \<times> buffer) result" where
  "tls_crypt_payload env opcode buf w4 c =
     bindR (tc_hmac_gen (we_tc env) (fst (tls_crypt_send_keys (ct_proto c))) (b_offset w4) hmac_offset (content buf) w4) (\<lambda>w5.
     let data_offset = hmac_offset + hmac_size c
     in bindR (tc_encrypt (we_cipher env) (snd (tls_crypt_send_keys (ct_proto c))) CIPHER_ENCRYPT
                 (buf_peek (b_offset w5 + hmac_offset) (ci_iv_size (we_cipher env)) w5)
                 (b_offset w5 + data_offset) (content buf) w5) (\<lambda>(encrypt_bytes, w6).
        if encrypt_bytes = 0 then Inr (buf_reset_size buf, w6)
        else bindR (buf_inc_size encrypt_bytes w6) (\<lambda>w7.
             bindR (if (opcode = CONTROL_HARD_RESET_CLIENT_V3 \<or> opcode = CONTROL_WKC_V1)
                       \<and> pc_wrap_mode (ct_proto c) = TLS_CRYPT_V2
                    then tls_crypt_append_wkc env w7 c else Inr w7) (\<lambda>w8. Inr (w8, buf)))))"

definition gen_head_tls_crypt :: "wrap_env \<Rightarrow> u32 \<Rightarrow> buffer \<Rightarrow> 'c control \<Rightarrow> buffer result \<times> 'c control" where
  "gen_head_tls_crypt env opcode buf c =
     (case tls_crypt_space env c of
        Inl e \<Rightarrow> (Inl e, c)
      | Inr w1 \<Rightarrow>
          (let (r, ps) = pcs_write_next (we_junk env) True (we_seconds env) (ta_pid_send (ct_proto c)) w1;
               c1 = c\<lparr>ct_proto := (ct_proto c)\<lparr>ta_pid_send := ps\<rparr>\<rparr>
           in case bindR (tls_crypt_header opcode r c) (\<lambda>w4. tls_crypt_payload env opcode buf w4 c) of
                Inl e \<Rightarrow> (Inl e, c1)
              | Inr (buf', work') \<Rightarrow> (Inr buf', c1\<lparr>ct_work := work'\<rparr>)))"

definition gen_head_tls_plain :: "u32 \<Rightarrow> buffer \<Rightarrow> 'c control \<Rightarrow> buffer result" where
  "gen_head_tls_plain opcode buf c =
     bindR (psid_prepend (psid_self c) buf) (\<lambda>b. buf_push_front (op_compose opcode (key_id (ct_key c))) b)"

definition gen_head :: "wrap_env \<Rightarrow> u32 \<Rightarrow> buffer \<Rightarrow> 'c control \<Rightarrow> buffer result \<times> 'c control" where
  "gen_head env opcode buf c =
     (case pc_wrap_mode (ct_proto c) of
        TLS_AUTH \<Rightarrow> gen_head_tls_auth env opcode buf c
      | TLS_CRYPT \<Rightarrow> gen_head_tls_crypt env opcode buf c
      | TLS_CRYPT_V2 \<Rightarrow> gen_head_tls_crypt env opcode buf c
      | TLS_PLAIN \<Rightarrow> (gen_head_tls_plain opcode buf c, c))"

definition encapsulate :: "wrap_env \<Rightarrow> u32 \<Rightarrow> control_packet \<Rightarrow> 'c control \<Rightarrow> control_packet result \<times> 'c control" where
  "encapsulate env i pkt c =
     (case ra_prepend_id i (cp_buf pkt) of
        Inl e \<Rightarrow> (Inl e, c)
      | Inr b1 \<Rightarrow>
          (case prepend_dest_psid_and_acks (cp_opcode pkt) b1 c of
             (Inl e, c1) \<Rightarrow> (Inl e, c1)
           | (Inr b2, c1) \<Rightarrow>
               (let opcode = (if i = 1 \<and> resend_wkc c1 then CONTROL_WKC_V1 else cp_opcode pkt);
                    (r, c2) = gen_head env opcode b2 c1
                in (bindR r (\<lambda>b3. Inr (pkt\<lparr>cp_buf := b3\<rparr>)), c2))))"

definition generate_ack :: "wrap_env \<Rightarrow> control_packet \<Rightarrow> 'c control \<Rightarrow> control_packet result \<times> 'c control" where
  "generate_ack env pkt c =
     (case prepend_dest_psid_and_acks (cp_opcode pkt) (cp_buf pkt) c of
        (Inl e, c1) \<Rightarrow> (Inl e, c1)
      | (Inr b2, c1) \<Rightarrow>
          (let (r, c2) = gen_head env ACK_V1 b2 c1 in (bindR r (\<lambda>b3. Inr (pkt\<lparr>cp_buf := b3\<rparr>)), c2)))"

section \<open>Receiving\<close>

text \<open>The op byte is skipped, the source session ID is read.\<close>

definition read_op_psid :: "buffer \<Rightarrow> (psid \<times> buffer) result" where
  "read_op_psid recv = bindR (buf_advance 1 recv) (\<lambda>b1. psid_read b1)"

definition verify_src_psid :: "psid \<Rightarrow> 'c control \<Rightarrow> bool \<times> 'c control" where
  "verify_src_psid src_psid c =
     (if ps_defined (psid_peer c)
      then if \<not> psid_match (psid_peer c) src_psid then (False, ct_fail CC_ERROR c) else (True, c)
      else (True, c\<lparr>psid_peer := src_psid\<rparr>))"

definition verify_dest_psid :: "buffer \<Rightarrow> 'c control \<Rightarrow> (bool \<times> buffer) result \<times> 'c control" where
  "verify_dest_psid buf c =
     (case psid_read buf of
        Inl e \<Rightarrow> (Inl e, c)
      | Inr (dest_psid, buf') \<Rightarrow>
          if \<not> psid_match (psid_self c) dest_psid then (Inr (False, buf'), ct_fail CC_ERROR c) else (Inr (True, buf'), c))"

definition ct_update_last_received :: "time64 \<Rightarrow> 'c control \<Rightarrow> 'c control" where
  "ct_update_last_received now c = c\<lparr>ct_proto := pc_update_last_received now (ct_proto c)\<rparr>"

text \<open>\<open>proto.ta_pid_recv.test_add\<close>\<close>

definition ct_test_add :: "packet_id_control \<Rightarrow> int \<Rightarrow> bool \<Rightarrow> 'c control \<Rightarrow> bool result \<times> 'c control" where
  "ct_test_add pid t md c =
     (case pcr_test_add PacketIDControlReceive_order PacketIDControlReceive_expire pid t md (ta_pid_recv (ct_proto c)) of
        Inl e \<Rightarrow> (Inl e, c)
      | Inr (ok, pr) \<Rightarrow> (Inr ok, c\<lparr>ct_proto := (ct_proto c)\<lparr>ta_pid_recv := pr\<rparr>\<rparr>))"

text \<open>
  Acknowledgements and destination session ID, the part \<open>decapsulate_post_process\<close> and
  \<open>decapsulate_tls_plain\<close> have in common: \<open>None\<close> when the packet is not for this session.
\<close>

definition ct_process_acks :: "bool \<Rightarrow> buffer \<Rightarrow> 'c control \<Rightarrow> buffer option result \<times> 'c control" where
  "ct_process_acks live recv c =
     (let (r, rs, recv1) = ra_ack live (rel_send c) recv; c1 = c\<lparr>rel_send := rs\<rparr>
      in case r of
           Inl e \<Rightarrow> (Inl e, c1)
         | Inr n \<Rightarrow>
             if n \<noteq> 0
             then (case verify_dest_psid recv1 c1 of
                     (Inl e, c2) \<Rightarrow> (Inl e, c2)
                   | (Inr (ok, recv2), c2) \<Rightarrow> (Inr (if ok then Some recv2 else None), c2))
             else (Inr (Some recv1), c1))"

text \<open>\<open>rel_recv.receive\<close> with the acknowledgement; the result is whether the message was in the window.\<close>

definition ct_receive :: "u32 \<Rightarrow> buffer \<Rightarrow> u32 \<Rightarrow> 'c control \<Rightarrow> bool result \<times> 'c control" where
  "ct_receive opcode recv i c =
     (case rr_receive (Some \<lparr>cp_opcode = opcode, cp_buf = recv\<rparr>) i (rel_recv c) of
        Inl e \<Rightarrow> (Inl e, c)
      | Inr (rflags, rr) \<Rightarrow>
          (let c1 = c\<lparr>rel_recv := rr\<rparr>;
               c2 = (if rflags AND ACK_TO_SENDER \<noteq> 0 then c1\<lparr>xmit_acks := ra_push_back i (xmit_acks c1)\<rparr> else c1)
           in (Inr (rflags AND IN_WINDOW \<noteq> 0), c2)))"

text \<open>A control message with a good packet ID, and the last step of remembering that ID.\<close>

definition ct_remember :: "packet_id_control \<Rightarrow> int \<Rightarrow> bool \<Rightarrow> 'c control \<Rightarrow> bool result \<times> 'c control" where
  "ct_remember pid t ret c = (case ct_test_add pid t True c of (Inl e, c1) \<Rightarrow> (Inl e, c1) | (Inr _, c1) \<Rightarrow> (Inr ret, c1))"

definition ct_file :: "u32 \<Rightarrow> packet_id_control \<Rightarrow> int \<Rightarrow> bool \<Rightarrow> buffer \<Rightarrow> 'c control \<Rightarrow> bool result \<times> 'c control" where
  "ct_file opcode pid t pid_ok recv c =
     (if opcode \<noteq> ACK_V1
      then (case ra_read_id recv of
              Inl e \<Rightarrow> (Inl e, c)
            | Inr (i, recv1) \<Rightarrow>
                if pid_ok
                then (case ct_receive opcode recv1 i c of
                        (Inl e, c1) \<Rightarrow> (Inl e, c1)
                      | (Inr inw, c1) \<Rightarrow> if inw then ct_remember pid t True c1 else (Inr False, c1))
                else let c1 = ct_error REPLAY_ERROR c
                     in (Inr False, if pc_is_valid pid then c1\<lparr>xmit_acks := ra_push_back i (xmit_acks c1)\<rparr> else c1))
      else if pid_ok then ct_remember pid t False c
      else (Inr False, ct_error REPLAY_ERROR c))"

definition decapsulate_post_process :: "wrap_env \<Rightarrow> u32 \<Rightarrow> psid \<Rightarrow> packet_id_control \<Rightarrow> buffer \<Rightarrow> 'c control
    \<Rightarrow> bool result \<times> 'c control" where
  "decapsulate_post_process env opcode src_psid pid recv c =
     (let (src_ok, c1) = verify_src_psid src_psid (ct_update_last_received (we_now env) c)
      in if \<not> src_ok then (Inr False, c1)
         else let t = we_seconds env
              in case ct_test_add pid t False c1 of
                   (Inl e, c2) \<Rightarrow> (Inl e, c2)
                 | (Inr pid_ok, c2) \<Rightarrow>
                     (case ct_process_acks pid_ok recv c2 of
                        (Inl e, c3) \<Rightarrow> (Inl e, c3)
                      | (Inr None, c3) \<Rightarrow> (Inr False, c3)
                      | (Inr (Some recv1), c3) \<Rightarrow> ct_file opcode pid t pid_ok recv1 c3))"

definition decapsulate_tls_auth :: "wrap_env \<Rightarrow> control_packet \<Rightarrow> 'c control \<Rightarrow> bool result \<times> 'c control" where
  "decapsulate_tls_auth env pkt c =
     (let orig = cp_buf pkt
      in case bindR (read_op_psid orig) (\<lambda>(src_psid, b2).
              bindR (buf_advance (hmac_size c) b2) (\<lambda>b3.
              bindR (ovpn_hmac_cmp (we_ta env) (snd (ta_hmac_keys c)) (b_offset orig) (b_size orig)
                       (1 + PSID_SIZE) (hmac_size c) pc_idsize orig) (\<lambda>ok. Inr (src_psid, b3, ok)))) of
           Inl e \<Rightarrow> (Inl e, c)
         | Inr (src_psid, b3, ok) \<Rightarrow>
             if \<not> ok then (Inr False, ct_fail HMAC_ERROR c)
             else (case pcr_read_next (ta_pid_recv (ct_proto c)) b3 of
                     Inl e \<Rightarrow> (Inl e, c)
                   | Inr (pid, b4) \<Rightarrow> decapsulate_post_process env (cp_opcode pkt) src_psid pid b4 c))"

text \<open>
  The front part of a tls-crypt packet: source session ID, packet ID and the encrypted payload, \<open>None\<close> when
  the packet is too short for header and HMAC (which the earlier reads have refused already).
\<close>

definition tls_crypt_open_head :: "'c control \<Rightarrow> buffer \<Rightarrow> (psid \<times> packet_id_control \<times> buffer) option result" where
  "tls_crypt_open_head c orig =
     bindR (read_op_psid orig) (\<lambda>(src_psid, b2).
     bindR (pcr_read_next (ta_pid_recv (ct_proto c)) b2) (\<lambda>(pid, b3).
     bindR (buf_advance (hmac_size c) b3) (\<lambda>b4.
       Inr (if b_size orig < hmac_offset + hmac_size c then None else Some (src_psid, pid, b4)))))"

text \<open>Decryption into a prepared work buffer.\<close>

definition tls_crypt_decrypt :: "wrap_env \<Rightarrow> 'c control \<Rightarrow> buffer \<Rightarrow> buffer \<Rightarrow> buffer \<Rightarrow> (size_t \<times> buffer) result" where
  "tls_crypt_decrypt env c orig recv work =
     tc_decrypt (we_cipher env) (snd (tls_crypt_recv_keys (ct_proto c))) CIPHER_DECRYPT
       (buf_peek (b_offset orig + hmac_offset) (ci_iv_size (we_cipher env)) orig)
       (b_offset work) (content recv) work"

definition decapsulate_tls_crypt :: "wrap_env \<Rightarrow> control_packet \<Rightarrow> 'c control \<Rightarrow> bool result \<times> 'c control" where
  "decapsulate_tls_crypt env pkt c =
     (let orig = cp_buf pkt
      in case tls_crypt_open_head c orig of
           Inl e \<Rightarrow> (Inl e, c)
         | Inr None \<Rightarrow> (Inr False, c)
         | Inr (Some (src_psid, pid, recv)) \<Rightarrow>
             (case bindR (ct_prepare_work env DECRYPT_WORK (ct_work c)) (\<lambda>w0. tls_crypt_decrypt env c orig recv w0) of
                Inl e \<Rightarrow> (Inl e, c)
              | Inr (decrypt_bytes, w1) \<Rightarrow>
                  if decrypt_bytes = 0 then (Inr False, ct_fail DECRYPT_ERROR (c\<lparr>ct_work := w1\<rparr>))
                  else (case bindR (buf_inc_size decrypt_bytes w1) (\<lambda>w2.
                              bindR (tc_hmac_cmp (we_tc env) (fst (tls_crypt_recv_keys (ct_proto c))) (b_offset orig)
                                       hmac_offset (content w2) orig) (\<lambda>ok. Inr (w2, ok))) of
                          Inl e \<Rightarrow> (Inl e, c\<lparr>ct_work := w1\<rparr>)
                        | Inr (w2, ok) \<Rightarrow>
                            if \<not> ok then (Inr False, ct_fail HMAC_ERROR (c\<lparr>ct_work := w2\<rparr>))
                            else decapsulate_post_process env (cp_opcode pkt) src_psid pid w2 (c\<lparr>ct_work := recv\<rparr>))))"

definition decapsulate_tls_plain :: "wrap_env \<Rightarrow> control_packet \<Rightarrow> 'c control \<Rightarrow> bool result \<times> 'c control" where
  "decapsulate_tls_plain env pkt c =
     (let c0 = ct_update_last_received (we_now env) c
      in case read_op_psid (cp_buf pkt) of
           Inl e \<Rightarrow> (Inl e, c0)
         | Inr (src_psid, recv) \<Rightarrow>
             (let (src_ok, c1) = verify_src_psid src_psid c0
              in if \<not> src_ok then (Inr False, c1)
                 else (case ct_process_acks True recv c1 of
                         (Inl e, c2) \<Rightarrow> (Inl e, c2)
                       | (Inr None, c2) \<Rightarrow> (Inr False, c2)
                       | (Inr (Some recv1), c2) \<Rightarrow>
                           if cp_opcode pkt \<noteq> ACK_V1
                           then (case ra_read_id recv1 of
                                   Inl e \<Rightarrow> (Inl e, c2)
                                 | Inr (i, recv2) \<Rightarrow> ct_receive (cp_opcode pkt) recv2 i c2)
                           else (Inr False, c2))))"

end
