(* ===== verification/Tls_Crypt_V2.thy ===== *)
theory Tls_Crypt_V2
  imports Control_Wrap
begin

text \<open>
  tls-crypt-v2 and the entry points for received control packets: the key files of crypto/tls_crypt_v2.hpp, the
  unwrapping of the client key a client sends with its first packet (\<open>unwrap_tls_crypt_wkc\<close> of ssl/proto.hpp),
  \<open>KeyContext::decapsulate\<close> and the side-effect-free check \<open>KeyContext::validate\<close>.
\<close>

section \<open>Key files\<close>

definition tls_crypt_v2_server_key_name :: string where
  "tls_crypt_v2_server_key_name = ''OpenVPN tls-crypt-v2 server key''"

definition tls_crypt_v2_client_key_name :: string where
  "tls_crypt_v2_client_key_name = ''OpenVPN tls-crypt-v2 client key''"

definition v2_server_key_parse :: "(string \<Rightarrow> string \<Rightarrow> byte list option) \<Rightarrow> string \<Rightarrow> byte list result" where
  "v2_server_key_parse pem_decode key_text =
     (case pem_decode tls_crypt_v2_server_key_name key_text of
        None \<Rightarrow> Inl tls_crypt_v2_server_key_parse_error
      | Some key \<Rightarrow> if length key \<noteq> 128 then Inl tls_crypt_v2_server_key_bad_size else Inr key)"

text \<open>The static key has 256 bytes, of which the server key fills the first half.\<close>

definition v2_server_key_extract :: "(nat \<Rightarrow> byte) \<Rightarrow> byte list \<Rightarrow> byte list" where
  "v2_server_key_extract junk key = key @ map junk [128..<KEY_SIZE]"

text \<open>A client key file holds the key and the wrapped key to send to the server.\<close>

definition v2_client_key_parse :: "(string \<Rightarrow> string \<Rightarrow> byte list option) \<Rightarrow> size_t \<Rightarrow> string \<Rightarrow> (byte list \<times> byte list) result" where
  "v2_client_key_parse pem_decode tag_size key_text =
     (case pem_decode tls_crypt_v2_client_key_name key_text of
        None \<Rightarrow> Inl tls_crypt_v2_client_key_parse_error
      | Some dat \<Rightarrow>
          if length dat < tag_size + KEY_SIZE then Inl tls_crypt_v2_client_key_bad_size
          else Inr (take KEY_SIZE dat, drop KEY_SIZE dat))"

section \<open>The wrapped client key\<close>

text \<open>
  Position and size of the wrapped key in the packet, its length field and the server key ID. The
  \<open>size_t\<close> subtractions wrap as in the code.
\<close>

definition wkc_frame_size :: "wrap_env \<Rightarrow> size_t" where
  "wkc_frame_size env = 1 + PSID_SIZE + pc_idsize + dg_size (we_tc env) + 1 + 4"

definition wkc_raw_size :: "wrap_env \<Rightarrow> buffer \<Rightarrow> size_t" where
  "wkc_raw_size env recv = sz_sub (sz_sub (b_size recv) (wkc_frame_size env)) 2"

definition wkc_len_field :: "wrap_env \<Rightarrow> buffer \<Rightarrow> u16 result" where
  "wkc_len_field env recv =
     bindR (buf_peek (b_offset recv + wkc_frame_size env + wkc_raw_size env recv) 2 recv)
       (\<lambda>bs. Inr (ntohs (le_word bs)))"

definition wkc_key_id :: "wrap_env \<Rightarrow> buffer \<Rightarrow> u32 result" where
  "wkc_key_id env recv =
     (if we_serverkey_id env
      then bindR (buf_peek (b_offset recv + wkc_frame_size env + wkc_raw_size env recv - 4) 4 recv)
             (\<lambda>bs. Inr (ntohl (le_word bs)))
      else Inr 0)"

definition wkc_server_key_path :: "wrap_env \<Rightarrow> u32 \<Rightarrow> string" where
  "wkc_server_key_path env k_id =
     (let fn = render_hex (Some (be_bytes 4 k_id)) True @ ''.key''
      in we_serverkey_dir env @ ''/'' @ take 2 fn @ ''/'' @ fn)"

text \<open>Loading the server key with the ID the client names.\<close>

definition wkc_load_server_key :: "wrap_env \<Rightarrow> u32 \<Rightarrow> 'c control \<Rightarrow> 'c control result" where
  "wkc_load_server_key env k_id c =
     bindR (we_read_text env (wkc_server_key_path env k_id)) (\<lambda>text.
     bindR (v2_server_key_parse (we_pem_decode env) text) (\<lambda>sk.
     let tls_key = v2_server_key_extract (we_junk env) sk
     in bindR (sk_slice tls_key KEY_HMAC) (\<lambda>hk.
        bindR (sk_slice tls_key KEY_CIPHER) (\<lambda>ck.
          Inr (c\<lparr>ct_proto := (ct_proto c)\<lparr>pc_tls := (pc_tls (ct_proto c))\<lparr>tc_key := tls_key\<rparr>\<rparr>,
                tls_crypt_server_keys := (hk, ck)\<rparr>)))))"

text \<open>
  The plaintext the tag is computed over: length, key ID and what the cipher gives. The length of the
  cipher's input is the size of the wrapped key less tag and key ID.
\<close>

definition wkc_plaintext :: "wrap_env \<Rightarrow> buffer \<Rightarrow> u16 \<Rightarrow> u32 \<Rightarrow> 'c control \<Rightarrow> buffer result \<times> 'c control" where
  "wkc_plaintext env recv wkc_len k_id c =
     (let wkc_raw = b_offset recv + wkc_frame_size env; hs = dg_size (we_tc env);
          sid = (if we_serverkey_id env then 4 else 0)
      in case bindR (buf_write (we_junk env) (le_bytes 2 (htons wkc_len))
                      (buf_alloc_capacity (we_junk env) (unat wkc_len) CONSTRUCT_ZERO)) (\<lambda>p1.
              bindR (if we_serverkey_id env then wkc_load_server_key env k_id c else Inr c) (\<lambda>c1. Inr (p1, c1))) of
           Inl e \<Rightarrow> (Inl e, c)
         | Inr (p1, c1) \<Rightarrow>
             (bindR (if we_serverkey_id env then buf_write (we_junk env) (le_bytes 4 (htonl k_id)) p1 else Inr p1) (\<lambda>p2.
              bindR (buf_peek (wkc_raw + hs) (sz_sub (sz_sub (wkc_raw_size env recv) hs) sid) recv) (\<lambda>inp.
              bindR (tc_decrypt (we_cipher env) (snd (tls_crypt_server_keys c1)) CIPHER_DECRYPT
                       (buf_peek wkc_raw (ci_iv_size (we_cipher env)) recv)
                       (b_offset p2 + 2 + sid) inp p2) (\<lambda>(decrypt_bytes, p3).
                buf_inc_size decrypt_bytes p3))), c1))"

text \<open>The rest once the tag is verified: the client key goes into use, the metadata is checked.\<close>

definition wkc_accept :: "wrap_env \<Rightarrow> buffer \<Rightarrow> buffer \<Rightarrow> 'c control \<Rightarrow> (bool \<times> buffer) result \<times> 'c control" where
  "wkc_accept env recv p4 c =
     (case bindR (buf_advance 2 p4) (\<lambda>p5.
           bindR (if we_serverkey_id env then buf_advance 4 p5 else Inr p5) (\<lambda>p6.
           bindR (buf_read KEY_SIZE p6) (\<lambda>(client_key, p7).
           bindR (pc_reset_tls_crypt client_key (ct_proto c)) (\<lambda>pc.
           bindR (if b_size p7 \<noteq> 0 then bindR (buf_pop_front p7) (\<lambda>(ty, p8). Inr (uint ty, p8)) else Inr (- 1, p7))
             (\<lambda>(ty, p8). Inr (pc, ty, p8)))))) of
        Inl e \<Rightarrow> (Inl e, c)
      | Inr (pc, ty, p8) \<Rightarrow>
          (let c1 = c\<lparr>ct_proto := pc\<rparr>
           in if \<not> we_metadata_verify env ty (content p8) then (Inr (False, recv), ct_error TLS_CRYPT_META_FAIL c1)
              else (bindR (buf_set_size (wkc_frame_size env) recv) (\<lambda>recv1. Inr (True, recv1)), c1)))"

definition unwrap_tls_crypt_wkc :: "wrap_env \<Rightarrow> buffer \<Rightarrow> 'c control \<Rightarrow> (bool \<times> buffer) result \<times> 'c control" where
  "unwrap_tls_crypt_wkc env recv c =
     (if b_size recv < wkc_frame_size env + dg_size (we_tc env) then (Inr (False, recv), c)
      else case bindR (wkc_len_field env recv) (\<lambda>wl. bindR (wkc_key_id env recv) (\<lambda>k. Inr (wl, k))) of
             Inl e \<Rightarrow> (Inl e, c)
           | Inr (wkc_len, k_id) \<Rightarrow>
               if sz_sub (unat wkc_len) 2 \<noteq> wkc_raw_size env recv then (Inr (False, recv), c)
               else (case wkc_plaintext env recv wkc_len k_id c of
                       (Inl e, c1) \<Rightarrow> (Inl e, c1)
                     | (Inr p4, c1) \<Rightarrow>
                         if b_size p4 < KEY_SIZE then (Inr (False, recv), ct_fail DECRYPT_ERROR c1)
                         else (case tc_hmac_cmp (we_tc env) (fst (tls_crypt_server_keys c1))
                                      (b_offset recv + wkc_frame_size env) 0 (content p4) recv of
                                 Inl e \<Rightarrow> (Inl e, c1)
                               | Inr ok \<Rightarrow>
                                   if \<not> ok then (Inr (False, recv), ct_fail HMAC_ERROR c1)
                                   else wkc_accept env recv p4 c1)))"

section \<open>Entry points\<close>

definition decapsulate_mode :: "wrap_env \<Rightarrow> control_packet \<Rightarrow> 'c control \<Rightarrow> bool result \<times> 'c control" where
  "decapsulate_mode env pkt c =
     (case pc_wrap_mode (ct_proto c) of
        TLS_AUTH \<Rightarrow> decapsulate_tls_auth env pkt c
      | TLS_CRYPT_V2 \<Rightarrow>
          if cp_opcode pkt = CONTROL_HARD_RESET_CLIENT_V3
          then (case unwrap_tls_crypt_wkc env (cp_buf pkt) c of
                  (Inl e, c1) \<Rightarrow> (Inl e, c1)
                | (Inr (ok, recv), c1) \<Rightarrow>
                    if ok then decapsulate_tls_crypt env (pkt\<lparr>cp_buf := recv\<rparr>) c1 else (Inr False, c1))
          else decapsulate_tls_crypt env pkt c
      | TLS_CRYPT \<Rightarrow> decapsulate_tls_crypt env pkt c
      | TLS_PLAIN \<Rightarrow> decapsulate_tls_plain env pkt c)"

definition decapsulate :: "wrap_env \<Rightarrow> control_packet \<Rightarrow> 'c control \<Rightarrow> bool result \<times> 'c control" where
  "decapsulate env pkt c =
     (case decapsulate_mode env pkt c of
        (Inl (BufferException st), c1) \<Rightarrow> (Inr False, ct_fail BUFFER_ERROR c1)
      | r \<Rightarrow> r)"

text \<open>\<open>validate\<close>: whether a packet belongs to the session, on a view of the packet.\<close>

definition validate_dest_psid :: "buffer \<Rightarrow> 'c control \<Rightarrow> bool result" where
  "validate_dest_psid recv c =
     bindR (ra_ack_skip recv) (\<lambda>(n, b1).
       if n \<noteq> 0 then bindR (psid_read b1) (\<lambda>(dest_psid, _). Inr (psid_match (psid_self c) dest_psid)) else Inr True)"

text \<open>The last checks of \<open>validate_tls_auth\<close> and \<open>validate_tls_crypt\<close>: packet ID, then destination.\<close>

definition validate_pid :: "wrap_env \<Rightarrow> packet_id_control \<Rightarrow> buffer \<Rightarrow> 'c control \<Rightarrow> bool result \<times> 'c control" where
  "validate_pid env pid recv c =
     (case ct_test_add pid (we_seconds env) False c of
        (Inl e, c1) \<Rightarrow> (Inl e, c1)
      | (Inr pid_ok, c1) \<Rightarrow> (bindR (validate_dest_psid recv c1) (\<lambda>ok. Inr (if \<not> ok then False else pid_ok)), c1))"

definition validate_tls_auth :: "wrap_env \<Rightarrow> buffer \<Rightarrow> 'c control \<Rightarrow> bool result \<times> 'c control" where
  "validate_tls_auth env orig c =
     (case bindR (read_op_psid orig) (\<lambda>(src_psid, b2).
           bindR (buf_advance (hmac_size c) b2) (\<lambda>b3.
           bindR (ovpn_hmac_cmp (we_ta env) (snd (ta_hmac_keys c)) (b_offset orig) (b_size orig)
                    (1 + PSID_SIZE) (hmac_size c) pc_idsize orig) (\<lambda>ok. Inr (src_psid, b3, ok)))) of
        Inl e \<Rightarrow> (Inl e, c)
      | Inr (src_psid, b3, ok) \<Rightarrow>
          if \<not> ok then (Inr False, c)
          else if \<not> psid_match (psid_peer c) src_psid then (Inr False, c)
          else (case pcr_read_next (ta_pid_recv (ct_proto c)) b3 of
                  Inl e \<Rightarrow> (Inl e, c)
                | Inr (pid, b4) \<Rightarrow> validate_pid env pid b4 c))"

definition validate_tls_crypt :: "wrap_env \<Rightarrow> buffer \<Rightarrow> 'c control \<Rightarrow> bool result \<times> 'c control" where
  "validate_tls_crypt env orig c =
     (case tls_crypt_open_head c orig of
        Inl e \<Rightarrow> (Inl e, c)
      | Inr None \<Rightarrow> (Inr False, c)
      | Inr (Some (src_psid, pid, recv)) \<Rightarrow>
          (case bindR (ct_prepare_work env DECRYPT_WORK buf_clear) (\<lambda>w0. tls_crypt_decrypt env c orig recv w0) of
             Inl e \<Rightarrow> (Inl e, c)
           | Inr (decrypt_bytes, w1) \<Rightarrow>
               if decrypt_bytes = 0 then (Inr False, c)
               else (case bindR (buf_inc_size decrypt_bytes w1) (\<lambda>w2.
                           bindR (tc_hmac_cmp (we_tc env) (fst (tls_crypt_recv_keys (ct_proto c))) (b_offset orig)
                                    hmac_offset (content w2) orig) (\<lambda>ok. Inr (w2, ok))) of
                       Inl e \<Rightarrow> (Inl e, c)
                     | Inr (w2, ok) \<Rightarrow>
                         if \<not> ok then (Inr False, c)
                         else if ps_defined (psid_peer c)
                         then if \<not> psid_match (psid_peer c) src_psid then (Inr False, c)
                              else validate_pid env pid w2 c
                         else validate_pid env pid w2 (c\<lparr>psid_peer := src_psid\<rparr>))))"

definition validate_tls_plain :: "buffer \<Rightarrow> 'c control \<Rightarrow> bool result" where
  "validate_tls_plain orig c =
     bindR (read_op_psid orig) (\<lambda>(src_psid, b2).
       if \<not> psid_match (psid_peer c) src_psid then Inr False else validate_dest_psid b2 c)"

definition validate_mode :: "wrap_env \<Rightarrow> buffer \<Rightarrow> 'c control \<Rightarrow> bool result \<times> 'c control" where
  "validate_mode env net_buf c =
     (case pc_wrap_mode (ct_proto c) of
        TLS_AUTH \<Rightarrow> validate_tls_auth env net_buf c
      | TLS_CRYPT_V2 \<Rightarrow>
          (case buf_at net_buf 0 of
             Inl e \<Rightarrow> (Inl e, c)
           | Inr op \<Rightarrow> if opcode_extract (ucast op) = CONTROL_HARD_RESET_CLIENT_V3 then (Inr True, c)
                       else validate_tls_crypt env net_buf c)
      | TLS_CRYPT \<Rightarrow> validate_tls_crypt env net_buf c
      | TLS_PLAIN \<Rightarrow> (validate_tls_plain net_buf c, c))"

definition kc_validate :: "wrap_env \<Rightarrow> buffer \<Rightarrow> 'c control \<Rightarrow> bool result \<times> 'c control" where
  "kc_validate env net_buf c =
     (case validate_mode env net_buf c of
        (Inl (BufferException st), c1) \<Rightarrow> (Inr False, c1)
      | r \<Rightarrow> r)"

end
