(* ===== verification/Control_Safe.thy ===== *)
theory Control_Safe
  imports Tls_Crypt_V2
begin

text \<open>
  What \<open>decapsulate\<close> guarantees against an arbitrary network: it returns for every packet, a packet without a
  valid HMAC changes nothing but the error counters (and the validity of a TCP session), and no packet ID is
  accepted twice.
\<close>

section \<open>Reading from the front\<close>

definition buf_skip :: "nat \<Rightarrow> buffer \<Rightarrow> buffer" where
  "buf_skip n b = b\<lparr>b_offset := b_offset b + n, b_size := b_size b - n\<rparr>"

lemma buf_skip_simps [simp]:
  "content (buf_skip n b) = drop n (content b)" "b_size (buf_skip n b) = b_size b - n"
  "buf_skip m (buf_skip n b) = buf_skip (n + m) b" "b_flags (buf_skip n b) = b_flags b" "b_capacity (buf_skip n b) = b_capacity b"
  by (simp_all add: buf_skip_def content_consume)

lemma buf_skip_wf [simp, intro]: "buf_wf b \<Longrightarrow> n \<le> b_size b \<Longrightarrow> buf_wf (buf_skip n b)"
  by (simp add: buf_skip_def wf_consume)

lemma buf_advance_eq:
  "buf_advance n b = (if n \<le> b_size b then Inr (buf_skip n b) else Inl (BufferException buffer_overflow))"
  by (simp add: buf_advance_def buf_skip_def)

lemma buf_read_skip:
  "buf_wf b \<Longrightarrow> buf_read n b =
     (if n \<le> b_size b then Inr (take n (content b), buf_skip n b) else Inl (BufferException buffer_underflow))"
  by (simp add: buf_read_eq buf_skip_def)

lemma buf_pop_front_skip:
  "buf_wf b \<Longrightarrow> buf_pop_front b =
     (if b_size b = 0 then Inl (BufferException buffer_const_index) else Inr (hd (content b), buf_skip 1 b))"
  by (simp add: buf_pop_front_eq buf_skip_def)

lemma psid_read_eq:
  "buf_wf b \<Longrightarrow> psid_read b = (if 8 \<le> b_size b then Inr (\<lparr>ps_defined = True, ps_id = take 8 (content b)\<rparr>, buf_skip 8 b)
    else Inl (BufferException buffer_underflow))"
  by (simp add: psid_read_def PSID_SIZE_def buf_read_skip)

lemma ra_read_id_eq:
  "buf_wf b \<Longrightarrow> ra_read_id b = (if 4 \<le> b_size b then Inr (ntohl (le_word (take 4 (content b))), buf_skip 4 b)
    else Inl (BufferException buffer_underflow))"
  by (simp add: ra_read_id_def buf_read_skip)

definition wire_pid :: "byte list \<Rightarrow> packet_id_control" where
  "wire_pid bs = \<lparr>pc_id = ntohl (le_word (take 4 bs)), pc_time = uint (ntohl (le_word (take 4 (drop 4 bs))) :: u32)\<rparr>"

definition wire_psid :: "byte list \<Rightarrow> psid" where
  "wire_psid bs = \<lparr>ps_defined = True, ps_id = take 8 (drop 1 bs)\<rparr>"

lemma read_op_psid_eq:
  "buf_wf b \<Longrightarrow> read_op_psid b = (if 9 \<le> b_size b then Inr (wire_psid (content b), buf_skip 9 b)
     else Inl (BufferException (if b_size b = 0 then buffer_overflow else buffer_underflow)))"
  by (auto simp: read_op_psid_def buf_advance_eq psid_read_eq wire_psid_def)

lemma pcr_read_next_eq:
  assumes "buf_wf b" "pcr_initialized s"
  shows "pcr_read_next s b = (if 8 \<le> b_size b then Inr (wire_pid (content b), buf_skip 8 b)
    else Inl (BufferException buffer_underflow))"
  using assms by (auto simp: pcr_read_next_def pc_read_def buf_read_skip wire_pid_def)

lemma split_three: "take a xs @ take n (drop a xs) @ drop (n + a) xs = xs"
  by (metis append_take_drop_id drop_drop)

lemma split_four: "take a xs @ take n (drop a xs) @ take m (drop (n + a) xs) @ drop (m + (n + a)) xs = xs"
  using split_three [of a xs n] split_three [of "n + a" xs m] by (metis append_take_drop_id drop_drop)

section \<open>Well-formed environments and states\<close>

definition env_ok :: "wrap_env \<Rightarrow> bool" where
  "env_ok env \<longleftrightarrow> digest_ok (we_ta env) \<and> digest_ok (we_tc env) \<and> cipher_ok (we_cipher env)
     \<and> ci_iv_size (we_cipher env) \<le> dg_size (we_tc env)
     \<and> length (we_frame env) = N_ALIGN_CONTEXTS \<and> (\<forall>fc\<in>set (we_frame env). fc_wf fc)"

definition ct_ok :: "wrap_env \<Rightarrow> 'c control \<Rightarrow> bool" where
  "ct_ok env c \<longleftrightarrow> pcr_initialized (ta_pid_recv (ct_proto c)) \<and> buf_wf (ct_work c) \<and> b_flags (ct_work c) \<noteq> None
     \<and> (case pc_wrap_mode (ct_proto c) of
          TLS_PLAIN \<Rightarrow> True
        | TLS_AUTH \<Rightarrow> hmac_size c = dg_size (we_ta env)
        | _ \<Rightarrow> hmac_size c = dg_size (we_tc env))"

section \<open>tls-auth\<close>

text \<open>A packet whose HMAC is right for the key of the receiver.\<close>

definition ta_authentic :: "wrap_env \<Rightarrow> 'c control \<Rightarrow> byte list \<Rightarrow> bool" where
  "ta_authentic env c bs \<longleftrightarrow> 17 + hmac_size c \<le> length bs
     \<and> take (hmac_size c) (drop 9 bs)
       = dg_hmac (we_ta env) (snd (ta_hmac_keys c)) (take 8 (drop (9 + hmac_size c) bs) @ take 9 bs @ drop (17 + hmac_size c) bs)"

lemma ta_cmp:
  assumes "buf_wf b" "digest_ok (we_ta env)" "hmac_size c = dg_size (we_ta env)" "9 + hmac_size c \<le> b_size b"
  shows "ovpn_hmac_cmp (we_ta env) (snd (ta_hmac_keys c)) (b_offset b) (b_size b) (1 + PSID_SIZE) (hmac_size c) pc_idsize b
    = Inr (ta_authentic env c (content b))"
proof -
  let ?n = "hmac_size c" and ?bs = "content b"
  have n: "length ?bs = b_size b" using assms(1) by simp
  have d: "length (dg_hmac (we_ta env) k m) = ?n" for k m using assms(2,3) by (simp add: digest_ok_def)
  have s: "sz_add (sz_add 9 ?n) 8 = 17 + ?n" using assms(2,3) by (simp add: digest_ok_def sz_add_def sz_max_def)
  show ?thesis
  proof (cases "17 + ?n \<le> b_size b")
    case True
    have "?bs = take 9 ?bs @ take ?n (drop 9 ?bs) @ take 8 (drop (9 + ?n) ?bs) @ drop (17 + ?n) ?bs"
      using split_four [of 9 ?bs ?n 8] by (simp add: add.commute)
    from ovpn_hmac_cmp_eq [OF assms(1) this, of "we_ta env" "snd (ta_hmac_keys c)"] True n assms(3)
    show ?thesis by (simp add: PSID_SIZE_def pc_idsize_def ta_authentic_def d)
  qed (simp add: ovpn_hmac_cmp_def ovpn_hmac_pre_def PSID_SIZE_def pc_idsize_def s ta_authentic_def n)
qed

lemma decapsulate_tls_auth_cases:
  assumes "buf_wf (cp_buf pkt)" "digest_ok (we_ta env)" "hmac_size c = dg_size (we_ta env)" "pcr_initialized (ta_pid_recv (ct_proto c))"
  obtains (short) st where "decapsulate_tls_auth env pkt c = (Inl (BufferException st), c)"
      "\<not> ta_authentic env c (content (cp_buf pkt))"
  | (forged) "decapsulate_tls_auth env pkt c = (Inr False, ct_fail HMAC_ERROR c)"
      "\<not> ta_authentic env c (content (cp_buf pkt))"
  | (good) recv where "ta_authentic env c (content (cp_buf pkt))" "buf_wf recv"
      "content recv = drop (17 + hmac_size c) (content (cp_buf pkt))"
      "decapsulate_tls_auth env pkt c = decapsulate_post_process env (cp_opcode pkt) (wire_psid (content (cp_buf pkt)))
         (wire_pid (drop (9 + hmac_size c) (content (cp_buf pkt)))) recv c"
proof -
  let ?b = "cp_buf pkt" and ?n = "hmac_size c"
  have bs: "length (content ?b) = b_size ?b" using assms(1) by simp
  have ns: "\<not> ta_authentic env c (content ?b)" if "b_size ?b < 9 + ?n" using that bs by (simp add: ta_authentic_def)
  show thesis
  proof (cases "9 + ?n \<le> b_size ?b")
    case False
    then have "\<exists>st. decapsulate_tls_auth env pkt c = (Inl (BufferException st), c)"
      by (auto simp: decapsulate_tls_auth_def Let_def read_op_psid_eq [OF assms(1)] buf_advance_eq)
    then show thesis using short ns False by auto
  next
    case True
    let ?r = "buf_skip ?n (buf_skip 9 ?b)"
    have r: "buf_wf ?r" "content ?r = drop (9 + ?n) (content ?b)"
      using True assms(1) by auto
    have le: "?n \<le> b_size ?b - 9" using True by simp
    have e: "decapsulate_tls_auth env pkt c = (if \<not> ta_authentic env c (content ?b) then (Inr False, ct_fail HMAC_ERROR c)
        else case pcr_read_next (ta_pid_recv (ct_proto c)) ?r of Inl e \<Rightarrow> (Inl e, c)
          | Inr (pid, b4) \<Rightarrow> decapsulate_post_process env (cp_opcode pkt) (wire_psid (content ?b)) pid b4 c)"
      using True le ta_cmp [OF assms(1-3) True]
      by (simp add: decapsulate_tls_auth_def Let_def read_op_psid_eq [OF assms(1)] buf_advance_eq)
    show thesis
    proof (cases "ta_authentic env c (content ?b)")
      case False
      then show thesis using forged e by simp
    next
      case auth: True
      then have "8 \<le> b_size ?r" using bs by (auto simp: ta_authentic_def)
      then have "pcr_read_next (ta_pid_recv (ct_proto c)) ?r = Inr (wire_pid (drop (9 + ?n) (content ?b)), buf_skip 8 ?r)"
        "buf_wf (buf_skip 8 ?r)" using pcr_read_next_eq [OF r(1) assms(4)] buf_skip_wf [OF r(1), of 8] by auto
      then show thesis using good [OF auth, of "buf_skip 8 ?r"] e auth by (simp add: add.commute)
    qed
  qed
qed

section \<open>tls-crypt\<close>

definition tc_authentic :: "wrap_env \<Rightarrow> 'c control \<Rightarrow> byte list \<Rightarrow> byte list \<Rightarrow> bool" where
  "tc_authentic env c bs pt \<longleftrightarrow> 17 + hmac_size c < length bs
     \<and> ci_update (we_cipher env) CIPHER_DECRYPT (snd (tls_crypt_recv_keys (ct_proto c)))
         (take (ci_iv_size (we_cipher env)) (drop 17 bs)) (drop (17 + hmac_size c) bs) = Some pt
     \<and> take (hmac_size c) (drop 17 bs) = dg_hmac (we_tc env) (fst (tls_crypt_recv_keys (ct_proto c))) (take 17 bs @ pt)"

text \<open>A prepared work buffer takes a payload of the size its frame context allows.\<close>

lemma ct_prepare_work_ok:
  assumes "env_ok env" "buf_wf w" "b_flags w \<noteq> None" "i < N_ALIGN_CONTEXTS"
  obtains w' where "ct_prepare_work env i w = Inr w'" "buf_wf w'" "b_size w' = 0" "b_flags w' \<noteq> None"
    "b_offset w' + fc_payload (we_frame env ! i) + fc_tailroom (we_frame env ! i) \<le> b_capacity w'"
    "fc_headroom (we_frame env ! i) \<le> b_offset w'"
proof -
  have fc: "fc_wf (we_frame env ! i)" using assms(1,4) by (auto simp: env_ok_def)
  show thesis
    by (rule fc_prepare_room [OF fc assms(2,3), of "we_junk env" "we_addr env"])
       (use that assms(4) in \<open>auto simp: ct_prepare_work_def frame_at_def\<close>)
qed

lemma buf_fill_work:
  assumes "buf_wf w" "b_size w = 0" "b_offset w + length bs \<le> b_capacity w"
  obtains w' where "buf_inc_size (length bs) (w\<lparr>b_data := overwrite (b_offset w) bs (b_data w)\<rparr>) = Inr w'"
    "buf_wf w'" "content w' = bs" "b_flags w' = b_flags w"
proof (rule that)
  let ?w = "w\<lparr>b_data := overwrite (b_offset w) bs (b_data w)\<rparr>"
  have l: "length bs < sz_max" "b_offset w \<le> length (b_data w)" using assms by (auto simp: buf_wf_def)
  have wf: "buf_wf ?w" using assms by (auto simp: buf_wf_def)
  show "buf_inc_size (length bs) ?w = Inr (?w\<lparr>b_size := length bs\<rparr>)"
    using assms l buf_max_size_exact [OF wf] by (auto simp: buf_inc_size_def buf_set_size_def sz_add_exact)
  show "buf_wf (?w\<lparr>b_size := length bs\<rparr>)" using assms by (auto simp: buf_wf_def)
  show "content (?w\<lparr>b_size := length bs\<rparr>) = bs" using l by (simp add: content_def)
qed simp

lemma tls_crypt_open_head_eq:
  assumes "buf_wf b" "pcr_initialized (ta_pid_recv (ct_proto c))"
  obtains (short) st where "b_size b < 17 + hmac_size c" "tls_crypt_open_head c b = Inl (BufferException st)"
  | (ok) "17 + hmac_size c \<le> b_size b" "tls_crypt_open_head c b
      = Inr (Some (wire_psid (content b), wire_pid (drop 9 (content b)), buf_skip (17 + hmac_size c) b))"
proof (cases "17 \<le> b_size b")
  case True
  then have w: "buf_wf (buf_skip 9 b)" "8 \<le> b_size b - 9" using assms(1) by auto
  show thesis
    using ok short True w by (cases "hmac_size c \<le> b_size b - 17")
      (auto simp: tls_crypt_open_head_def read_op_psid_eq [OF assms(1)] pcr_read_next_eq [OF _ assms(2)] buf_advance_eq
        hmac_offset_def PSID_SIZE_def)
next
  case False
  have "buf_wf (buf_skip 9 b)" if "9 \<le> b_size b" using assms(1) that by auto
  then have "\<exists>st. tls_crypt_open_head c b = Inl (BufferException st)" using False
    by (auto simp: tls_crypt_open_head_def read_op_psid_eq [OF assms(1)] pcr_read_next_eq [OF _ assms(2)])
  then show thesis using short False by auto
qed

lemma decapsulate_tls_crypt_cases:
  assumes env: "env_ok env" and b: "buf_wf (cp_buf pkt)" and h: "hmac_size c = dg_size (we_tc env)"
    and p: "pcr_initialized (ta_pid_recv (ct_proto c))" and w: "buf_wf (ct_work c)" "b_flags (ct_work c) \<noteq> None"
    and fits: "b_size (cp_buf pkt) \<le> fc_payload (we_frame env ! DECRYPT_WORK)"
  obtains (short) st where "decapsulate_tls_crypt env pkt c = (Inl (BufferException st), c)"
      "\<forall>pt. \<not> tc_authentic env c (content (cp_buf pkt)) pt"
  | (forged) e w' where "decapsulate_tls_crypt env pkt c = (Inr False, ct_fail e (c\<lparr>ct_work := w'\<rparr>))"
      "\<forall>pt. \<not> tc_authentic env c (content (cp_buf pkt)) pt" "buf_wf w'" "b_flags w' \<noteq> None"
  | (good) recv pt where "tc_authentic env c (content (cp_buf pkt)) pt" "buf_wf recv" "content recv = pt"
      "decapsulate_tls_crypt env pkt c = decapsulate_post_process env (cp_opcode pkt) (wire_psid (content (cp_buf pkt)))
         (wire_pid (drop 9 (content (cp_buf pkt)))) recv (c\<lparr>ct_work := buf_skip (17 + hmac_size c) (cp_buf pkt)\<rparr>)"
proof (rule tls_crypt_open_head_eq [OF b p])
  fix st assume "b_size (cp_buf pkt) < 17 + hmac_size c" "tls_crypt_open_head c (cp_buf pkt) = Inl (BufferException st)"
  then show thesis using short b by (simp add: decapsulate_tls_crypt_def tc_authentic_def)
next
  let ?b = "cp_buf pkt" and ?n = "hmac_size c" and ?ci = "we_cipher env"
  let ?in = "drop (17 + ?n) (content ?b)" and ?iv = "take (ci_iv_size ?ci) (drop 17 (content ?b))"
  let ?key = "snd (tls_crypt_recv_keys (ct_proto c))"
  assume le: "17 + ?n \<le> b_size ?b" and hd: "tls_crypt_open_head c ?b
      = Inr (Some (wire_psid (content ?b), wire_pid (drop 9 (content ?b)), buf_skip (17 + ?n) ?b))"
  have lb: "length (content ?b) = b_size ?b" using b by simp
  obtain w0 where w0: "ct_prepare_work env DECRYPT_WORK (ct_work c) = Inr w0" "buf_wf w0" "b_size w0 = 0" "b_flags w0 \<noteq> None"
    "b_offset w0 + fc_payload (we_frame env ! DECRYPT_WORK) \<le> b_capacity w0"
    by (rule ct_prepare_work_ok [OF env w, of DECRYPT_WORK]) (auto simp: DECRYPT_WORK_def N_ALIGN_CONTEXTS_def)
  have room: "b_offset w0 + length ?in \<le> b_capacity w0" using w0(5) fits lb by simp
  have iv: "buf_peek (b_offset ?b + hmac_offset) (ci_iv_size ?ci) ?b = Inr ?iv"
    using buf_peek_window [OF b, of 17 "ci_iv_size ?ci"] env le h by (simp add: env_ok_def hmac_offset_def PSID_SIZE_def)
  have dec: "tls_crypt_decrypt env c ?b (buf_skip (17 + ?n) ?b) w0 = (case ci_update ?ci CIPHER_DECRYPT ?key ?iv ?in of
      None \<Rightarrow> Inr (0, w0) | Some o1 \<Rightarrow> Inr (length ?in, w0\<lparr>b_data := overwrite (b_offset w0) o1 (b_data w0)\<rparr>))"
    using tc_crypt_eq [of ?ci w0 "b_offset w0" ?in ?key CIPHER_DECRYPT ?iv] room w0(2) env
    by (auto simp: tls_crypt_decrypt_def tc_decrypt_def iv buf_wf_def env_ok_def)
  note d = decapsulate_tls_crypt_def Let_def hd w0(1) dec
  show thesis
  proof (cases "ci_update ?ci CIPHER_DECRYPT ?key ?iv ?in")
    case None
    then have "decapsulate_tls_crypt env pkt c = (Inr False, ct_fail DECRYPT_ERROR (c\<lparr>ct_work := w0\<rparr>))" by (simp add: d)
    then show thesis using forged None w0 by (auto simp: tc_authentic_def)
  next
    case (Some pt)
    have lp: "length pt = length ?in" using Some env by (auto simp: env_ok_def cipher_ok_def)
    let ?w1 = "w0\<lparr>b_data := overwrite (b_offset w0) pt (b_data w0)\<rparr>"
    have w1: "buf_wf ?w1" using w0(2) room lp by (auto simp: buf_wf_def)
    show thesis
    proof (cases "?in = []")
      case True
      then have "decapsulate_tls_crypt env pkt c = (Inr False, ct_fail DECRYPT_ERROR (c\<lparr>ct_work := ?w1\<rparr>))"
        using Some by (simp add: d)
      then show thesis using forged True w1 w0(4) le lb by (auto simp: tc_authentic_def)
    next
      case False
      obtain w2 where w2: "buf_inc_size (length ?in) ?w1 = Inr w2" "buf_wf w2" "content w2 = pt" "b_flags w2 = b_flags w0"
        using buf_fill_work [OF w0(2,3), of pt] room lp by auto
      have "content ?b = take 17 (content ?b) @ take ?n (drop 17 (content ?b)) @ ?in"
        using split_three [of 17 "content ?b" ?n] by (simp add: add.commute)
      from tc_hmac_cmp_eq [OF b this, of "we_tc env"] le lb h
      have cmp: "tc_hmac_cmp (we_tc env) (fst (tls_crypt_recv_keys (ct_proto c))) (b_offset ?b) hmac_offset pt ?b
          = Inr (tc_authentic env c (content ?b) pt)" using False Some env
        by (auto simp: hmac_offset_def PSID_SIZE_def tc_authentic_def env_ok_def digest_ok_def)
      have "tc_authentic env c (content ?b) pt' \<longleftrightarrow> pt' = pt \<and> tc_authentic env c (content ?b) pt" for pt'
        using Some by (auto simp: tc_authentic_def)
      then show thesis
        using forged good Some w2 w0(4) cmp False by (cases "tc_authentic env c (content ?b) pt") (auto simp: d)
    qed
  qed
qed

section \<open>Processing an authentic packet\<close>

text \<open>What \<open>decapsulate\<close> never changes, and states that agree on it and on the replay filter.\<close>

definition ct_fixed where
  "ct_fixed c = (ct_work c, hmac_size c, ta_hmac_keys c, psid_self c, pc_wrap_mode (ct_proto c),
     tls_crypt_recv_keys (ct_proto c), tls_crypt_send_keys (ct_proto c), pc_cfg (ct_proto c))"

definition ct_calm :: "'c control \<Rightarrow> 'c control \<Rightarrow> bool" where
  "ct_calm c c' \<longleftrightarrow> ct_fixed c' = ct_fixed c \<and> ta_pid_recv (ct_proto c') = ta_pid_recv (ct_proto c)"

lemma ct_calm_refl [simp]: "ct_calm c c"
  by (simp add: ct_calm_def)

lemma ct_calm_trans [trans]: "ct_calm a b \<Longrightarrow> ct_calm b c \<Longrightarrow> ct_calm a c"
  by (simp add: ct_calm_def)

lemmas ct_calm_defs = ct_calm_def ct_fixed_def

lemma ct_error_calm [simp]: "ct_calm c (ct_error e c)" "ct_calm c (ct_fail e c)"
  by (simp_all add: ct_error_def ct_fail_def Let_def ct_calm_defs)

lemma ct_update_calm [simp]:
  "ct_calm c (c\<lparr>rel_send := rs\<rparr>)" "ct_calm c (c\<lparr>rel_recv := rr\<rparr>)" "ct_calm c (c\<lparr>xmit_acks := xa\<rparr>)" "ct_calm c (c\<lparr>psid_peer := ps\<rparr>)"
  "ct_calm c (ct_update_last_received now c)"
  by (simp_all add: ct_calm_defs ct_update_last_received_def pc_update_last_received_def)

lemma verify_src_psid_calm: "verify_src_psid src c = (ok, c') \<Longrightarrow> ct_calm c c'"
  by (auto simp: verify_src_psid_def split: if_splits)

lemma ra_ack_loop_outcome:
  "buf_wf buf \<Longrightarrow> ra_ack_loop n live rs buf = (eo, rs', buf') \<Longrightarrow> buf_wf buf' \<and> (\<forall>e. eo = Some e \<longrightarrow> (\<exists>st. e = BufferException st))"
proof (induction n arbitrary: rs buf)
  case (Suc n)
  then show ?case by (cases "4 \<le> b_size buf") (auto simp: ra_read_id_eq)
qed auto

lemma ra_ack_outcome:
  assumes "buf_wf buf" "ra_ack live rs buf = (r, rs', buf')"
  shows "buf_wf buf' \<and> (\<forall>e. r = Inl e \<longrightarrow> (\<exists>st. e = BufferException st))"
proof (cases "b_size buf = 0")
  case False
  then have w: "buf_wf (buf_skip (Suc 0) buf)" using assms(1) by auto
  obtain eo rs1 b1 where l: "ra_ack_loop (unat (hd (content buf))) live rs (buf_skip (Suc 0) buf) = (eo, rs1, b1)" by (metis prod_cases3)
  show ?thesis
    using ra_ack_loop_outcome [OF w l] assms(2) False by (auto simp: ra_ack_def buf_pop_front_skip [OF assms(1)] l split: option.splits)
qed (use assms in \<open>auto simp: ra_ack_def buf_pop_front_skip\<close>)

lemma verify_dest_psid_outcome:
  assumes "buf_wf buf" "verify_dest_psid buf c = (r, c')"
  shows "ct_calm c c' \<and> (\<forall>e. r = Inl e \<longrightarrow> (\<exists>st. e = BufferException st)) \<and> (\<forall>ok buf1. r = Inr (ok, buf1) \<longrightarrow> buf_wf buf1)"
  using assms by (auto simp: verify_dest_psid_def psid_read_eq split: if_splits)

lemma ct_process_acks_outcome:
  assumes "buf_wf recv" "ct_process_acks live recv c = (r, c')"
  shows "ct_calm c c' \<and> (\<forall>e. r = Inl e \<longrightarrow> (\<exists>st. e = BufferException st)) \<and> (\<forall>recv1. r = Inr (Some recv1) \<longrightarrow> buf_wf recv1)"
proof -
  obtain a rs recv1 where a: "ra_ack live (rel_send c) recv = (a, rs, recv1)" by (metis prod_cases3)
  note o = ra_ack_outcome [OF assms(1) a]
  let ?c = "c\<lparr>rel_send := rs\<rparr>"
  show ?thesis
  proof (cases "\<exists>n. a = Inr n \<and> n \<noteq> 0")
    case True
    obtain v c2 where v: "verify_dest_psid recv1 ?c = (v, c2)" by fastforce
    have "ct_calm c c2" using ct_calm_trans [of c ?c c2] verify_dest_psid_outcome [OF _ v] o by simp
    then show ?thesis
      using True verify_dest_psid_outcome [OF _ v] o assms(2) by (cases v) (auto simp: ct_process_acks_def a v split: if_splits)
  qed (use o assms(2) in \<open>auto simp: ct_process_acks_def a Let_def split: sum.splits\<close>)
qed

lemma ct_receive_outcome: "\<exists>inw c'. ct_receive opcode recv i c = (Inr inw, c') \<and> ct_calm c c'"
  by (auto simp: ct_receive_def rr_receive_def mw_ref_by_id_def Let_def ct_calm_defs)

section \<open>The replay filter inside\<close>

abbreviation (input) pid_key :: "packet_id_control \<Rightarrow> int \<times> nat" where
  "pid_key pid \<equiv> (pc_time pid, unat (pc_id pid))"

text \<open>The filter is in order and knows the packet IDs of \<open>K\<close> as used.\<close>

definition ct_known :: "'c control \<Rightarrow> (int \<times> nat) set \<Rightarrow> bool" where
  "ct_known c K \<longleftrightarrow> (\<exists>t. pcr_rel PacketIDControlReceive_order (ta_pid_recv (ct_proto c)) t \<and> keys_known t K)"

lemma ct_known_calm: "ct_calm c c' \<Longrightarrow> ct_known c' K = ct_known c K"
  by (simp add: ct_known_def ct_calm_def)

lemma ct_known_mono: "ct_known c K \<Longrightarrow> K' \<subseteq> K \<Longrightarrow> ct_known c K'"
  unfolding ct_known_def keys_known_def by (meson subsetD)

lemma ct_known_initialized: "ct_known c K \<Longrightarrow> pcr_initialized (ta_pid_recv (ct_proto c))"
  by (auto simp: ct_known_def pcr_rel_def)

text \<open>A test that succeeds without recording succeeds again, at the same time, when it records.\<close>

lemma spec_step_again:
  "spec_step W xp t (time, pid, now, False) = (SUCCESS, t1) \<Longrightarrow> 0 < xp \<Longrightarrow> 0 < pid \<Longrightarrow>
     fst (spec_step W xp t1 (time, pid, now, True)) = SUCCESS"
  by (auto simp: spec_defs split: if_splits)

lemma pcr_rel_errors: "pcr_rel order (s\<lparr>pcr_errors := es\<rparr>) t = pcr_rel order s t"
  by (simp add: pcr_rel_def)

lemma ct_test_add_known:
  fixes c :: "'c control"
  assumes "ct_known c K"
  shows "\<exists>ok pr. ct_test_add pid t md c = (Inr ok, c\<lparr>ct_proto := (ct_proto c)\<lparr>ta_pid_recv := pr\<rparr>\<rparr>)
    \<and> ct_known (c\<lparr>ct_proto := (ct_proto c)\<lparr>ta_pid_recv := pr\<rparr>\<rparr>) (if ok \<and> md then insert (pid_key pid) K else K)
    \<and> (ok \<and> md \<longrightarrow> pid_key pid \<notin> K)
    \<and> (ok \<and> \<not> md \<longrightarrow> (\<forall>c1 :: 'c control. ta_pid_recv (ct_proto c1) = pr \<longrightarrow> fst (ct_test_add pid t True c1) = Inr True))"
proof -
  let ?o = PacketIDControlReceive_order and ?x = PacketIDControlReceive_expire
  let ?s = "ta_pid_recv (ct_proto c)"
  obtain sp where sp: "pcr_rel ?o ?s sp" "keys_known sp K" using assms by (auto simp: ct_known_def)
  obtain e s' t' where s: "pcr_do_test_add ?o ?x pid t md ?s = Inr (e, s')"
    and st: "spec_step (2 ^ (?o + 3)) ?x sp (pc_time pid, unat (pc_id pid), t, md) = (e, t')" and r: "pcr_rel ?o s' t'"
    using pcr_do_test_add_refines [OF sp(1)] by blast
  let ?pr = "if e \<noteq> SUCCESS then s'\<lparr>pcr_errors := pcr_errors s' @ [e]\<rparr> else s'"
  have pr: "pcr_rel ?o ?pr t'" using r by (simp add: pcr_rel_errors)
  have acc: "\<forall>a\<in>s_accepted sp. a \<le> s_high sp" by (rule pcr.high [OF sp(1)])
  have k: "if e = SUCCESS \<and> md then pid_key pid \<notin> K \<and> keys_known t' (insert (pid_key pid) K) else keys_known t' K"
    using spec_step_fresh [OF st sp(2) acc] .
  show ?thesis
  proof (intro exI [of _ "e = SUCCESS"] exI [of _ ?pr] conjI impI allI)
    show "ct_test_add pid t md c = (Inr (e = SUCCESS), c\<lparr>ct_proto := (ct_proto c)\<lparr>ta_pid_recv := ?pr\<rparr>\<rparr>)"
      by (simp add: ct_test_add_def pcr_test_add_def s)
    show "ct_known (c\<lparr>ct_proto := (ct_proto c)\<lparr>ta_pid_recv := ?pr\<rparr>\<rparr>) (if e = SUCCESS \<and> md then insert (pid_key pid) K else K)"
      using k pr by (auto simp: ct_known_def)
    show "pid_key pid \<notin> K" if "e = SUCCESS \<and> md" using k that by simp
    fix c1 :: "'c control" assume a': "e = SUCCESS \<and> \<not> md" "ta_pid_recv (ct_proto c1) = ?pr"
    note a = a'(1) [THEN conjunct1] a'(1) [THEN conjunct2] a'(2)
    obtain e2 s2 t2 where s2: "pcr_do_test_add ?o ?x pid t True ?pr = Inr (e2, s2)"
      "spec_step (2 ^ (?o + 3)) ?x t' (pc_time pid, unat (pc_id pid), t, True) = (e2, t2)"
      using pcr_do_test_add_refines [OF pr] by blast
    have "0 < unat (pc_id pid)" using st a(1) by (cases "unat (pc_id pid) = 0") (simp_all add: Let_def)
    then have "e2 = SUCCESS"
      using spec_step_again [of "2 ^ (?o + 3)" ?x sp "pc_time pid" "unat (pc_id pid)" t t'] st a(1,2) s2(2)
      by (simp del: spec_step.simps add: PacketIDControlReceive_expire_def)
    then show "fst (ct_test_add pid t True c1) = Inr True"
      using s2(1) a(3) by (simp add: ct_test_add_def pcr_test_add_def)
  qed
qed

text \<open>The outcome of a handler for a packet with ID \<open>key\<close>: what it files under that ID is new.\<close>

definition pid_outcome :: "(int \<times> nat) set \<Rightarrow> int \<times> nat \<Rightarrow> 'c control \<Rightarrow> bool result \<times> 'c control \<Rightarrow> bool" where
  "pid_outcome K key c out = (case out of (r, c') \<Rightarrow> ct_fixed c' = ct_fixed c
     \<and> (\<exists>K'. ct_known c' K' \<and> K \<subseteq> K' \<and> (case r of Inl e \<Rightarrow> \<exists>st. e = BufferException st | Inr b \<Rightarrow> b \<longrightarrow> key \<notin> K \<and> key \<in> K')))"

lemma pid_outcome_calm:
  assumes "ct_known c K" "ct_calm c c'" "case r of Inl e \<Rightarrow> \<exists>st. e = BufferException st | Inr b \<Rightarrow> \<not> b"
  shows "pid_outcome K key c (r, c')"
  using assms ct_known_calm [OF assms(2)] by (auto simp: pid_outcome_def ct_calm_def split: sum.splits)

lemma pid_outcome_after: "ct_fixed c1 = ct_fixed c \<Longrightarrow> pid_outcome K key c1 out = pid_outcome K key c out"
  by (simp add: pid_outcome_def split: prod.splits)

lemma ct_remember_outcome:
  assumes "ct_known c K" "fst (ct_test_add pid t True c) = Inr True"
  shows "pid_outcome K (pid_key pid) c (ct_remember pid t ret c)"
proof -
  obtain ok pr where a: "ct_test_add pid t True c = (Inr ok, c\<lparr>ct_proto := (ct_proto c)\<lparr>ta_pid_recv := pr\<rparr>\<rparr>)"
    "ct_known (c\<lparr>ct_proto := (ct_proto c)\<lparr>ta_pid_recv := pr\<rparr>\<rparr>) (if ok \<and> True then insert (pid_key pid) K else K)"
    "ok \<and> True \<longrightarrow> pid_key pid \<notin> K"
    using ct_test_add_known [OF assms(1), of pid t True] by blast
  have ok using assms(2) a(1) by simp
  then show ?thesis
    using a by (auto simp: ct_remember_def pid_outcome_def ct_fixed_def intro!: exI [of _ "insert (pid_key pid) K"])
qed

lemma ct_file_outcome:
  fixes c :: "'c control"
  assumes k: "ct_known c K" and w: "buf_wf recv"
    and again: "\<And>c1 :: 'c control. pid_ok \<Longrightarrow> ta_pid_recv (ct_proto c1) = ta_pid_recv (ct_proto c) \<Longrightarrow> fst (ct_test_add pid t True c1) = Inr True"
  shows "pid_outcome K (pid_key pid) c (ct_file opcode pid t pid_ok recv c)"
proof (cases "opcode = ACK_V1")
  case True
  then show ?thesis
    using ct_remember_outcome [OF k] again [of c] pid_outcome_calm [OF k] by (auto simp: ct_file_def)
next
  case op: False
  let ?i = "ntohl (le_word (take 4 (content recv))) :: u32"
  have c: "ct_calm c ((ct_error REPLAY_ERROR c)\<lparr>xmit_acks := xa\<rparr>)" for xa
    using ct_calm_trans [OF ct_error_calm(1) ct_update_calm(3)] by blast
  obtain inw c1 where r: "ct_receive opcode (buf_skip 4 recv) ?i c = (Inr inw, c1)" "ct_calm c c1"
    using ct_receive_outcome by blast
  show ?thesis
  proof (cases "4 \<le> b_size recv \<and> pid_ok \<and> inw")
    case True
    have "ct_known c1 K" using k ct_known_calm [OF r(2)] by simp
    then have "pid_outcome K (pid_key pid) c1 (ct_remember pid t True c1)"
      using ct_remember_outcome again [of c1] True r(2) by (auto simp: ct_calm_def)
    then show ?thesis
      using op True r pid_outcome_after [of c1 c] by (simp add: ct_file_def ra_read_id_eq [OF w] ct_calm_def)
  next
    case False
    then show ?thesis
      using op r pid_outcome_calm [OF k] c by (auto simp: ct_file_def ra_read_id_eq [OF w] Let_def)
  qed
qed

lemma decapsulate_post_process_outcome:
  fixes c :: "'c control"
  assumes k: "ct_known c K" and w: "buf_wf recv"
  shows "pid_outcome K (pid_key pid) c (decapsulate_post_process env opcode src pid recv c)"
proof -
  let ?c0 = "ct_update_last_received (we_now env) c"
  obtain ok c1 where v: "verify_src_psid src ?c0 = (ok, c1)" by fastforce
  have c1: "ct_calm c c1" using ct_calm_trans [OF ct_update_calm(5) verify_src_psid_calm [OF v]] .
  have k1: "ct_known c1 K" using k ct_known_calm [OF c1] by simp
  obtain pok pr where t: "ct_test_add pid (we_seconds env) False c1 = (Inr pok, c1\<lparr>ct_proto := (ct_proto c1)\<lparr>ta_pid_recv := pr\<rparr>\<rparr>)"
    "ct_known (c1\<lparr>ct_proto := (ct_proto c1)\<lparr>ta_pid_recv := pr\<rparr>\<rparr>) (if pok \<and> False then insert (pid_key pid) K else K)"
    and again: "\<forall>c2 :: 'c control. pok \<and> ta_pid_recv (ct_proto c2) = pr \<longrightarrow> fst (ct_test_add pid (we_seconds env) True c2) = Inr True"
    using ct_test_add_known [OF k1, of pid "we_seconds env" False] by blast
  let ?c2 = "c1\<lparr>ct_proto := (ct_proto c1)\<lparr>ta_pid_recv := pr\<rparr>\<rparr>"
  have k2: "ct_known ?c2 K" and f2: "ct_fixed ?c2 = ct_fixed c" using t(2) c1 by (simp_all add: ct_calm_defs)
  obtain a c3 where a: "ct_process_acks pok recv ?c2 = (a, c3)" by fastforce
  note ao = ct_process_acks_outcome [OF w a]
  have k3: "ct_known c3 K" and f3: "ct_fixed c3 = ct_fixed c" using ao k2 f2 ct_known_calm [of ?c2 c3] by (simp_all add: ct_calm_def)
  have pr: "ta_pid_recv (ct_proto c3) = pr" using ao by (simp add: ct_calm_def)
  show ?thesis
  proof (cases "ok \<and> (\<exists>recv1. a = Inr (Some recv1))")
    case True
    then obtain recv1 where "a = Inr (Some recv1)" by blast
    then show ?thesis
      using True ct_file_outcome [OF k3, of recv1 pok pid "we_seconds env" opcode] ao again pr f3 pid_outcome_after [of c3 c]
      by (simp add: decapsulate_post_process_def v t(1) a)
  next
    case False
    then consider "\<not> ok" | "ok" "a = Inr None" | e where "ok" "a = Inl e" by (cases a) auto
    then show ?thesis
    proof cases
      case 1
      then show ?thesis using pid_outcome_calm [OF k c1] by (simp add: decapsulate_post_process_def v)
    qed (use k3 f3 ao in \<open>auto simp: decapsulate_post_process_def v t(1) a pid_outcome_def\<close>)
  qed
qed

section \<open>One packet\<close>

text \<open>What only an authentic packet may change: reliability layer, session, replay filter, keepalive timer.\<close>

definition ct_core where
  "ct_core c = (rel_send c, rel_recv c, xmit_acks c, psid_peer c, ta_pid_recv (ct_proto c), keepalive_expire (ct_proto c))"

definition ct_authentic :: "wrap_env \<Rightarrow> 'c control \<Rightarrow> byte list \<Rightarrow> bool" where
  "ct_authentic env c bs = (case pc_wrap_mode (ct_proto c) of
     TLS_PLAIN \<Rightarrow> True | TLS_AUTH \<Rightarrow> ta_authentic env c bs | _ \<Rightarrow> \<exists>pt. tc_authentic env c bs pt)"

definition wrapped_pid :: "'c control \<Rightarrow> byte list \<Rightarrow> packet_id_control" where
  "wrapped_pid c bs = wire_pid (drop (if pc_wrap_mode (ct_proto c) = TLS_AUTH then 9 + hmac_size c else 9) bs)"

text \<open>
  A packet as the transport hands it over: an owning buffer, no larger than the payload of the frame, and not
  the first packet of a tls-crypt-v2 client.
\<close>

definition packet_fits :: "wrap_env \<Rightarrow> control_packet \<Rightarrow> bool" where
  "packet_fits env pkt \<longleftrightarrow> buf_wf (cp_buf pkt) \<and> b_flags (cp_buf pkt) \<noteq> None
     \<and> b_size (cp_buf pkt) \<le> fc_payload (we_frame env ! DECRYPT_WORK) \<and> cp_opcode pkt \<noteq> CONTROL_HARD_RESET_CLIENT_V3"

lemma ct_core_fail [simp]: "ct_core (ct_fail e c) = ct_core c" "ct_core (c\<lparr>ct_work := w\<rparr>) = ct_core c"
  by (simp_all add: ct_core_def ct_fail_def ct_error_def Let_def)

lemma ct_ok_fixed: "ct_fixed c' = ct_fixed c \<Longrightarrow> pcr_initialized (ta_pid_recv (ct_proto c')) \<Longrightarrow> ct_ok env c \<Longrightarrow> ct_ok env c'"
  by (simp add: ct_ok_def ct_fixed_def split: tls_wrap_mode.splits)

lemma ct_ok_work: "ct_ok env c \<Longrightarrow> buf_wf w \<Longrightarrow> b_flags w \<noteq> None \<Longrightarrow> ct_ok env (c\<lparr>ct_work := w\<rparr>)"
  by (simp add: ct_ok_def split: tls_wrap_mode.splits)

text \<open>The three ways a packet can go, common to both forms of protection.\<close>

lemma decapsulate_mode_outcome:
  assumes env: "env_ok env" and ok: "ct_ok env c" and k: "ct_known c K" and fits: "packet_fits env pkt"
    and mode: "pc_wrap_mode (ct_proto c) \<noteq> TLS_PLAIN"
  shows "\<exists>w. buf_wf w \<and> b_flags w \<noteq> None
    \<and> pid_outcome K (pid_key (wrapped_pid c (content (cp_buf pkt)))) (c\<lparr>ct_work := w\<rparr>) (decapsulate_mode env pkt c)
    \<and> (\<not> ct_authentic env c (content (cp_buf pkt)) \<longrightarrow>
         fst (decapsulate_mode env pkt c) \<noteq> Inr True \<and> ct_core (snd (decapsulate_mode env pkt c)) = ct_core c)"
proof -
  have b: "buf_wf (cp_buf pkt)" "b_flags (cp_buf pkt) \<noteq> None" "b_size (cp_buf pkt) \<le> fc_payload (we_frame env ! DECRYPT_WORK)"
    using fits by (auto simp: packet_fits_def)
  have p: "pcr_initialized (ta_pid_recv (ct_proto c))" by (rule ct_known_initialized [OF k])
  have w: "buf_wf (ct_work c)" "b_flags (ct_work c) \<noteq> None" using ok by (simp_all add: ct_ok_def)
  have kw: "ct_known (c\<lparr>ct_work := w\<rparr>) K" for w using k by (simp add: ct_known_def)
  have calm: "pid_outcome K key (c\<lparr>ct_work := w\<rparr>) (Inl (BufferException st), c\<lparr>ct_work := w\<rparr>)"
    "pid_outcome K key (c\<lparr>ct_work := w\<rparr>) (Inr False, ct_fail e (c\<lparr>ct_work := w\<rparr>))" for key w st e
    by (rule pid_outcome_calm [OF kw], simp_all)+
  have cw: "c\<lparr>ct_work := ct_work c\<rparr> = c" by simp
  show ?thesis
  proof (cases "pc_wrap_mode (ct_proto c) = TLS_AUTH")
    case True
    then have h: "hmac_size c = dg_size (we_ta env)" and d: "digest_ok (we_ta env)" using ok env by (simp_all add: ct_ok_def env_ok_def)
    have m: "decapsulate_mode env pkt c = decapsulate_tls_auth env pkt c" using True by (simp add: decapsulate_mode_def)
    show ?thesis
      by (rule decapsulate_tls_auth_cases [OF b(1) d h p])
        (use calm [of _ "ct_work c"] decapsulate_post_process_outcome [OF k] w True in
          \<open>auto simp: m cw ct_authentic_def wrapped_pid_def intro!: exI [of _ "ct_work c"]\<close>)
  next
    case False
    then have h: "hmac_size c = dg_size (we_tc env)" using ok mode by (cases "pc_wrap_mode (ct_proto c)") (simp_all add: ct_ok_def)
    have m: "decapsulate_mode env pkt c = decapsulate_tls_crypt env pkt c"
      using False mode fits by (cases "pc_wrap_mode (ct_proto c)") (simp_all add: decapsulate_mode_def packet_fits_def)
    have a: "ct_authentic env c bs = (\<exists>pt. tc_authentic env c bs pt)" for bs
      using False mode by (cases "pc_wrap_mode (ct_proto c)") (simp_all add: ct_authentic_def)
    show ?thesis
    proof (rule decapsulate_tls_crypt_cases [OF env b(1) h p w b(3)])
      fix st assume "decapsulate_tls_crypt env pkt c = (Inl (BufferException st), c)"
      then show ?thesis using calm(1) [of _ "ct_work c" st] w by (auto simp: m cw intro!: exI [of _ "ct_work c"])
    next
      fix e w' assume "decapsulate_tls_crypt env pkt c = (Inr False, ct_fail e (c\<lparr>ct_work := w'\<rparr>))" "buf_wf w'" "b_flags w' \<noteq> None"
      then show ?thesis using calm(2) [of _ w' e] by (auto simp: m intro!: exI [of _ w'])
    next
      let ?w = "buf_skip (17 + hmac_size c) (cp_buf pkt)"
      fix recv pt assume g: "tc_authentic env c (content (cp_buf pkt)) pt" "buf_wf recv"
        "decapsulate_tls_crypt env pkt c = decapsulate_post_process env (cp_opcode pkt) (wire_psid (content (cp_buf pkt)))
           (wire_pid (drop 9 (content (cp_buf pkt)))) recv (c\<lparr>ct_work := ?w\<rparr>)"
      have "buf_wf ?w" using g(1) b(1) by (auto simp: tc_authentic_def)
      then show ?thesis
        using g b(2) False decapsulate_post_process_outcome [OF kw [of ?w] g(2)]
        by (fastforce simp: m a wrapped_pid_def intro!: exI [of _ ?w])
    qed
  qed
qed

lemma decapsulate_outcome:
  assumes "env_ok env" "ct_ok env c" "ct_known c K" "packet_fits env pkt" "pc_wrap_mode (ct_proto c) \<noteq> TLS_PLAIN"
  shows "\<exists>r c'. decapsulate env pkt c = (Inr r, c') \<and> ct_ok env c' \<and> pc_wrap_mode (ct_proto c') = pc_wrap_mode (ct_proto c)
    \<and> (\<exists>K'. ct_known c' K' \<and> K \<subseteq> K' \<and> (r \<longrightarrow> pid_key (wrapped_pid c (content (cp_buf pkt))) \<in> K' - K))
    \<and> (\<not> ct_authentic env c (content (cp_buf pkt)) \<longrightarrow> \<not> r \<and> ct_core c' = ct_core c)"
proof -
  let ?key = "pid_key (wrapped_pid c (content (cp_buf pkt)))"
  obtain r c1 where m: "decapsulate_mode env pkt c = (r, c1)" by fastforce
  obtain w K' where w: "buf_wf w" "b_flags w \<noteq> None" and f: "ct_fixed c1 = ct_fixed (c\<lparr>ct_work := w\<rparr>)" and k: "ct_known c1 K'" "K \<subseteq> K'"
    and r: "case r of Inl e \<Rightarrow> \<exists>st. e = BufferException st | Inr b \<Rightarrow> b \<longrightarrow> ?key \<notin> K \<and> ?key \<in> K'"
    and a: "\<not> ct_authentic env c (content (cp_buf pkt)) \<Longrightarrow> r \<noteq> Inr True \<and> ct_core c1 = ct_core c"
    using decapsulate_mode_outcome [OF assms] by (auto simp: m pid_outcome_def)
  have ok: "ct_ok env c1"
    by (rule ct_ok_fixed [OF f ct_known_initialized [OF k(1)] ct_ok_work [OF assms(2) w]])
  have md: "pc_wrap_mode (ct_proto c1) = pc_wrap_mode (ct_proto c)" using f by (simp add: ct_fixed_def)
  show ?thesis
  proof (cases r)
    case (Inl e)
    then obtain st where e: "e = BufferException st" using r by auto
    let ?c = "ct_fail BUFFER_ERROR c1"
    have calm: "ct_calm c1 ?c" by simp
    have k': "ct_known ?c K'" using k(1) ct_known_calm [OF calm] by simp
    have "ct_ok env ?c" using ct_ok_fixed [OF _ ct_known_initialized [OF k'] ok] calm by (simp add: ct_calm_def)
    moreover have "pc_wrap_mode (ct_proto ?c) = pc_wrap_mode (ct_proto c)" using calm md by (simp add: ct_calm_defs)
    ultimately show ?thesis using k' k(2) a Inl by (auto simp: decapsulate_def m e)
  next
    case (Inr b)
    then show ?thesis using ok md k r a by (auto simp: decapsulate_def m)
  qed
qed

section \<open>Runs\<close>

text \<open>The packet IDs of the control packets a receiver files, over a run of packets that arrive at given times.\<close>

definition decap_step :: "wrap_env \<Rightarrow> 'c control \<Rightarrow> time64 \<times> control_packet \<Rightarrow> bool \<times> 'c control" where
  "decap_step env c x = (case x of (t, pkt) \<Rightarrow> let (r, c') = decapsulate (env\<lparr>we_now := t\<rparr>) pkt c in (r = Inr True, c'))"

definition decap_key :: "'c control \<Rightarrow> time64 \<times> control_packet \<Rightarrow> int \<times> nat" where
  "decap_key c x = pid_key (wrapped_pid c (content (cp_buf (snd x))))"

definition ct_ready :: "wrap_env \<Rightarrow> 'c control \<Rightarrow> (int \<times> nat) set \<Rightarrow> bool" where
  "ct_ready env c K \<longleftrightarrow> env_ok env \<and> ct_ok env c \<and> ct_known c K \<and> pc_wrap_mode (ct_proto c) \<noteq> TLS_PLAIN"

lemma env_time [simp]: "env_ok (env\<lparr>we_now := t\<rparr>) = env_ok env" "ct_ok (env\<lparr>we_now := t\<rparr>) c = ct_ok env c"
  "packet_fits (env\<lparr>we_now := t\<rparr>) pkt = packet_fits env pkt"
  by (simp_all add: env_ok_def ct_ok_def packet_fits_def split: tls_wrap_mode.splits)

interpretation decap: fresh_steps "decap_step env" decap_key "ct_ready env" "\<lambda>x. packet_fits env (snd x)" for env
proof
  fix c :: "'a control" and K x r c'
  assume a: "ct_ready env c K" "packet_fits env (snd x)" "decap_step env c x = (r, c')"
  obtain t pkt where x: "x = (t, pkt)" by fastforce
  obtain b c1 where d: "decapsulate (env\<lparr>we_now := t\<rparr>) pkt c = (Inr b, c1)" "ct_ok env c1" "pc_wrap_mode (ct_proto c1) = pc_wrap_mode (ct_proto c)"
    "\<exists>K'. ct_known c1 K' \<and> K \<subseteq> K' \<and> (b \<longrightarrow> pid_key (wrapped_pid c (content (cp_buf pkt))) \<in> K' - K)"
    using decapsulate_outcome [of "env\<lparr>we_now := t\<rparr>" c K pkt] a by (auto simp: ct_ready_def x)
  then show "\<exists>K'. ct_ready env c' K' \<and> K \<subseteq> K' \<and> (r \<longrightarrow> decap_key c x \<in> K' - K)"
    using a(1,3) by (auto simp: ct_ready_def decap_step_def decap_key_def x)
qed

text \<open>Without wrapping every packet is processed, and nothing of the session's set-up changes.\<close>

lemma decapsulate_tls_plain_calm:
  assumes "buf_wf (cp_buf pkt)" "decapsulate_tls_plain env pkt c = (r, c')"
  shows "ct_calm c c' \<and> (\<forall>e. r = Inl e \<longrightarrow> (\<exists>st. e = BufferException st))"
proof (cases "9 \<le> b_size (cp_buf pkt)")
  case False
  then show ?thesis using assms by (auto simp: decapsulate_tls_plain_def read_op_psid_eq Let_def)
next
  case True
  let ?c0 = "ct_update_last_received (we_now env) c" and ?b = "buf_skip 9 (cp_buf pkt)"
  have w: "buf_wf ?b" using True assms(1) by auto
  obtain ok c1 where v: "verify_src_psid (wire_psid (content (cp_buf pkt))) ?c0 = (ok, c1)" by fastforce
  have c1: "ct_calm c c1" using ct_calm_trans [OF ct_update_calm(5) verify_src_psid_calm [OF v]] .
  obtain a c2 where a: "ct_process_acks True ?b c1 = (a, c2)" by fastforce
  note o = ct_process_acks_outcome [OF w a]
  have c2: "ct_calm c c2" using ct_calm_trans [OF c1] o by blast
  have d: "decapsulate_tls_plain env pkt c = (if \<not> ok then (Inr False, c1) else case a of Inl e \<Rightarrow> (Inl e, c2)
      | Inr None \<Rightarrow> (Inr False, c2)
      | Inr (Some recv1) \<Rightarrow> if cp_opcode pkt \<noteq> ACK_V1 then (case ra_read_id recv1 of Inl e \<Rightarrow> (Inl e, c2)
          | Inr (i, recv2) \<Rightarrow> ct_receive (cp_opcode pkt) recv2 i c2) else (Inr False, c2))"
    using True by (cases a) (auto simp: decapsulate_tls_plain_def read_op_psid_eq [OF assms(1)] v a Let_def split: option.splits)
  show ?thesis
  proof (cases "ok \<and> (\<exists>recv1. a = Inr (Some recv1) \<and> cp_opcode pkt \<noteq> ACK_V1 \<and> 4 \<le> b_size recv1)")
    case True
    then obtain recv1 where r: "a = Inr (Some recv1)" "4 \<le> b_size recv1" by blast
    obtain inw c3 where "ct_receive (cp_opcode pkt) (buf_skip 4 recv1) (ntohl (le_word (take 4 (content recv1)))) c2 = (Inr inw, c3)" "ct_calm c2 c3"
      using ct_receive_outcome by blast
    then show ?thesis using d assms(2) True r o ct_calm_trans [OF c2] by (auto simp: ra_read_id_eq)
  next
    case False
    then show ?thesis
      using d assms(2) o c1 c2 by (auto simp: ra_read_id_eq split: if_splits sum.splits option.splits)
  qed
qed

section \<open>Properties\<close>

text \<open>A concrete environment and state for the examples.\<close>

definition ex_digest :: digest where
  "ex_digest = \<lparr>dg_hmac = (\<lambda>k m. [of_nat (length m), fold (+) m (fold (+) k 0)]), dg_size = 2\<rparr>"

definition ex_cipher :: cipher where
  "ex_cipher = \<lparr>ci_iv_size = 2, ci_update = (\<lambda>md key iv inp. Some (map (\<lambda>x. x XOR hd iv) inp)), ci_final = (\<lambda>md key iv inp. Some [])\<rparr>"

definition ex_env :: wrap_env where
  "ex_env = \<lparr>we_ta = ex_digest, we_tc = ex_digest, we_cipher = ex_cipher, we_now = 4096, we_epoch = 1000,
     we_frame = replicate 16 (fc_ctor 128 512 64 0 16 0), we_addr = 0, we_junk = (\<lambda>_. 0), we_serverkey_id = False,
     we_serverkey_dir = [], we_read_text = (\<lambda>_. Inl (open_file_error [])), we_pem_decode = (\<lambda>_ _. None), we_metadata_verify = (\<lambda>_ _. True)\<rparr>"

definition ex_psid :: "byte \<Rightarrow> psid" where
  "ex_psid x = \<lparr>ps_defined = True, ps_id = replicate 8 x\<rparr>"

definition ex_ct :: "tls_wrap_mode \<Rightarrow> psid \<Rightarrow> unit control" where
  "ex_ct md self = \<lparr>ct_key = ex_key True, ct_proto = ex_pc\<lparr>pc_wrap_mode := md, ta_pid_recv := pcr_init PacketIDControlReceive_order\<rparr>,
     rel_send = rs_init 4 0, rel_recv = rr_init 8 0, xmit_acks = \<lparr>ra_data = [], ra_re_acks = []\<rparr>, resend_wkc = False,
     ct_work = buf_clear, psid_self = self, psid_peer = psid_reset, hmac_size = 2, ta_hmac_keys = ([7], [7]), ct_wkc = buf_clear,
     tls_crypt_server_keys = ([], [])\<rparr>"

lemma ex_env_ok: "env_ok ex_env"
proof -
  have "fc_wf (fc_ctor 128 512 64 0 16 0)"
    by (simp add: fc_wf_def fc_ctor_def fc_recalc_derived_def sz_add_def sz_max_def)
  then show ?thesis
    by (simp add: env_ok_def ex_env_def ex_digest_def ex_cipher_def digest_ok_def cipher_ok_def N_ALIGN_CONTEXTS_def)
qed

lemma ex_ct_ok: "ct_ok ex_env (ex_ct md self)"
  by (simp add: ct_ok_def ex_ct_def ex_env_def ex_digest_def pcr_init_def buf_wf_def buf_clear_def sz_max_def split: tls_wrap_mode.splits)

lemma ct_known_init: "ta_pid_recv (ct_proto c) = pcr_init PacketIDControlReceive_order \<Longrightarrow> ct_known c {}"
  using pcr_rel_init [of PacketIDControlReceive_order]
  by (auto simp: ct_known_def keys_known_def PacketIDControlReceive_order_def)

lemma ex_ct_known: "ct_known (ex_ct md self) {}"
  by (rule ct_known_init) (simp add: ex_ct_def)

lemma buf_alloc_data_ok:
  "length bs < sz_max \<Longrightarrow> buf_wf (buf_alloc_data junk bs fl) \<and> content (buf_alloc_data junk bs fl) = bs
     \<and> b_flags (buf_alloc_data junk bs fl) = Some fl \<and> b_size (buf_alloc_data junk bs fl) = length bs"
  by (simp add: buf_alloc_data_def buf_alloc_def buf_wf_def content_def overwrite_def Let_def)

definition ex_junk_packet :: control_packet where
  "ex_junk_packet = \<lparr>cp_opcode = CONTROL_V1, cp_buf = buf_alloc_data (\<lambda>_. 0) (replicate 40 3) 0\<rparr>"

lemma ex_junk_facts: "content (cp_buf ex_junk_packet) = replicate 40 3" "packet_fits ex_env ex_junk_packet"
  using buf_alloc_data_ok [of "replicate 40 3" "\<lambda>_. 0" 0]
  by (simp_all add: packet_fits_def ex_junk_packet_def sz_max_def ex_env_def DECRYPT_WORK_def
    fc_ctor_def fc_recalc_derived_def CONTROL_V1_def CONTROL_HARD_RESET_CLIENT_V3_def Let_def)





text \<open>
  C6. Over any sequence of packets, the control packets a receiver files under tls-auth or tls-crypt have
  pairwise distinct packet IDs: a packet an attacker records and sends again is never processed again.
\<close>

theorem control_no_replay:
  assumes "env_ok env" "ct_ok env c" "pc_wrap_mode (ct_proto c) \<noteq> TLS_PLAIN"
    and "ta_pid_recv (ct_proto c) = pcr_init PacketIDControlReceive_order" and "\<forall>x\<in>set xs. packet_fits env (snd x)"
  shows "distinct (accepted_keys (decap_step env) decap_key c xs)"
proof -
  have "ct_ready env c {}" using assms(1-3) ct_known_init [OF assms(4)] by (simp add: ct_ready_def)
  then show ?thesis using decap.run_distinct assms(5) by blast
qed

theorem control_no_replay_witness:
  "distinct (accepted_keys (decap_step ex_env) decap_key (ex_ct TLS_AUTH (ex_psid 1)) [(1, ex_junk_packet), (2, ex_junk_packet)])"
  by (rule control_no_replay [OF ex_env_ok ex_ct_ok]) (simp_all add: ex_ct_def ex_junk_facts(2))

section \<open>The wrapped client key\<close>

lemma ntohs_be_bytes: "ntohs (le_word (be_bytes 2 (w :: u16))) = w"
proof -
  have "be_bytes 2 w = [ucast (drop_bit 8 w), ucast w]" by (simp add: be_bytes_def le_bytes_def numeral_2_eq_2)
  moreover have "ntohs (htons w) = w"
    by (rule bit_word_eqI) (auto simp: ntohs_def htons_def bit_simps)
  ultimately show ?thesis by (simp only: htons_le_word)
qed

text \<open>
  C9. The first packet of a tls-crypt-v2 client is checked to have room for the tag of the wrapped key, but not for
  its length field as well. A packet that ends right behind the place of the tag, with the length such a
  wrapped key would have, makes the length of the cipher's input wrap around to \<open>2^64 - 2\<close>: before anything
  is authenticated, the server reads outside of the packet's memory.
\<close>

theorem wkc_length_underflow:
  assumes "pc_wrap_mode (ct_proto c) = TLS_CRYPT_V2" "cp_opcode pkt = CONTROL_HARD_RESET_CLIENT_V3" "buf_wf (cp_buf pkt)"
    and "b_size (cp_buf pkt) = wkc_frame_size env + dg_size (we_tc env)" "2 \<le> dg_size (we_tc env)" "dg_size (we_tc env) \<le> 64"
    and "\<not> we_serverkey_id env"
    and "drop (b_size (cp_buf pkt) - 2) (content (cp_buf pkt)) = be_bytes 2 (of_nat (dg_size (we_tc env)) :: u16)"
  shows "decapsulate env pkt c = (Inl undefined_behaviour, c)"
proof -
  let ?b = "cp_buf pkt" and ?h = "dg_size (we_tc env)" and ?f = "wkc_frame_size env"
  have n: "b_size ?b < sz_max" "length (content ?b) = b_size ?b" "length (b_data ?b) < sz_max" using assms(3) by (auto simp: buf_wf_def)
  have raw: "wkc_raw_size env ?b = ?h - 2" using assms(4,5) n by (simp add: wkc_raw_size_def sz_sub_exact)
  have "buf_peek (b_offset ?b + (?f + (?h - 2))) 2 ?b = Inr (be_bytes 2 (of_nat ?h :: u16))"
    using buf_peek_window [OF assms(3), of "?f + (?h - 2)" 2] assms(4,5,8) n by simp
  then have len: "wkc_len_field env ?b = Inr (of_nat ?h)" by (simp add: wkc_len_field_def raw add.assoc ntohs_be_bytes)
  have u: "unat (of_nat ?h :: u16) = ?h" using assms(6) by (simp add: unat_of_nat)
  have eq: "sz_sub ?h 2 = ?h - 2" using assms(5,6) by (simp add: sz_sub_exact sz_max_def)
  have w: "buf_wf (buf_alloc_capacity j ?h fl)" for j fl using buf_alloc_capacity_wf [of ?h j fl] assms(6) by (simp add: sz_max_def)
  have "b_offset (buf_alloc_capacity j ?h CONSTRUCT_ZERO) + b_size (buf_alloc_capacity j ?h CONSTRUCT_ZERO)
      + length (le_bytes 2 (htons (of_nat ?h))) \<le> b_capacity (buf_alloc_capacity j ?h CONSTRUCT_ZERO)" for j
    using assms(5) by (simp add: buf_alloc_capacity_def buf_alloc_def CONSTRUCT_ZERO_def ARRAY_def)
  then obtain p1 where p1: "buf_write (we_junk env) (le_bytes 2 (htons (of_nat ?h))) (buf_alloc_capacity (we_junk env) ?h CONSTRUCT_ZERO) = Inr p1"
    using buf_write_room [OF w] by blast
  have "sz_sub (sz_sub (?h - 2) ?h) 0 = sz_max - 2" using assms(5,6) by (simp add: sz_sub_def sz_max_def)
  then have "buf_peek (b_offset ?b + ?f + ?h) (sz_sub (sz_sub (wkc_raw_size env ?b) ?h) 0) ?b = Inl undefined_behaviour"
    using n(3) assms(5) by (simp add: raw buf_peek_def)
  then have "wkc_plaintext env ?b (of_nat ?h) 0 c = (Inl undefined_behaviour, c)"
    using assms(7) by (simp add: wkc_plaintext_def u p1)
  then have "unwrap_tls_crypt_wkc env ?b c = (Inl undefined_behaviour, c)"
    using assms(4,7) by (simp add: unwrap_tls_crypt_wkc_def len wkc_key_id_def raw u eq)
  then show ?thesis using assms(1,2) by (simp add: decapsulate_def decapsulate_mode_def)
qed

definition ex_v3_packet :: control_packet where
  "ex_v3_packet = \<lparr>cp_opcode = CONTROL_HARD_RESET_CLIENT_V3, cp_buf = buf_alloc_data (\<lambda>_. 0) (replicate 24 1 @ [0, 2]) 0\<rparr>"

theorem wkc_length_underflow_witness:
  "decapsulate ex_env ex_v3_packet (ex_ct TLS_CRYPT_V2 (ex_psid 1)) = (Inl undefined_behaviour, ex_ct TLS_CRYPT_V2 (ex_psid 1))"
proof -
  have b: "be_bytes 2 (2 :: u16) = [0, 2]" by code_simp
  have d: "dg_size (we_tc ex_env) = 2" "wkc_frame_size ex_env = 24" "\<not> we_serverkey_id ex_env"
    by (simp_all add: ex_env_def ex_digest_def wkc_frame_size_def PSID_SIZE_def pc_idsize_def)
  show ?thesis
    by (rule wkc_length_underflow)
      (use buf_alloc_data_ok [of "replicate 24 1 @ [0, 2]" "\<lambda>_. 0" 0] in
        \<open>simp_all add: ex_v3_packet_def ex_ct_def d b sz_max_def\<close>)
qed

end
