(* ===== verification/Control_Channel.thy ===== *)
theory Control_Channel
  imports Control_Safe Reliable_Channel
begin

text \<open>
  The two ends of the control channel together: what \<open>encapsulate\<close> sends, \<open>decapsulate\<close> of the other end takes
  apart again, in each wrapping mode.
\<close>

section \<open>What is put in front\<close>

lemma buf_push_front_Inr:
  assumes "buf_wf b" "buf_push_front v b = Inr b'"
  shows "buf_wf b' \<and> content b' = v # content b \<and> b_capacity b' = b_capacity b"
proof -
  have "b_offset b > 0" using assms(2) by (auto simp: buf_push_front_def split: if_splits)
  from buf_push_front_eq [OF assms(1) this, of v] assms(2) show ?thesis by auto
qed

lemma psid_prepend_Inr:
  assumes "buf_wf b" "psid_prepend p b = Inr b'" "length (ps_id p) = 8"
  shows "buf_wf b' \<and> content b' = ps_id p @ content b"
  using buf_prepend_Inr [OF assms(1), of "ps_id p" b'] assms(2,3) by (simp add: psid_prepend_def sz_max_def)

lemma pc_write_Inr:
  assumes "buf_wf b" "pc_write junk p True b = Inr b'"
  shows "buf_wf b' \<and> content b' = be_bytes 4 (pc_id p) @ be_bytes 4 (word_of_int (pc_time p) :: u32) @ content b"
proof -
  have len: "length (be_bytes 4 (w :: u32)) < sz_max" for w by (simp add: sz_max_def)
  obtain b1 where b1: "buf_prepend (be_bytes 4 (word_of_int (pc_time p) :: u32)) b = Inr b1"
    and b': "buf_prepend (be_bytes 4 (pc_id p)) b1 = Inr b'"
    using assms(2) by (auto simp: pc_write_def bindR_eq_Inr)
  show ?thesis using bq.pre_ok [OF assms(1) len b1] bq.pre_ok [OF _ len b'] by simp
qed

lemma wire_pid_written:
  "wire_pid (be_bytes 4 (pc_id p) @ be_bytes 4 (word_of_int (pc_time p) :: u32) @ rest) = \<lparr>pc_id = pc_id p, pc_time = pc_time p mod 2 ^ 32\<rparr>"
  by (simp add: wire_pid_def uint_word_of_int)

text \<open>The acknowledgements a packet carries, newest first.\<close>

definition acks_of :: "bool \<Rightarrow> rel_ack \<Rightarrow> u32 list" where
  "acks_of ackv1 a =
     (let mx = (if ackv1 then maximum_acks_ack_v1 else maximum_acks_control_v1); n = min mx (length (ra_data a));
          re = ra_re_acks (fold ra_add_ack_to_reack (take mx (ra_data a)) a)
      in rev (take mx (ra_data a) @ take (mx - n) (drop n re)))"

lemma acks_of_facts:
  "length (acks_of v a) \<le> 8" "acks_of v a = [] \<longleftrightarrow> \<not> ra_acks_ready a"
  "set (take 4 (ra_data a)) \<subseteq> set (acks_of v a)"
proof -
  have mx: "maximum_acks_control_v1 = 4" "maximum_acks_ack_v1 = 8" by (simp_all add: maximum_acks_control_v1_def maximum_acks_ack_v1_def)
  show "length (acks_of v a) \<le> 8" by (auto simp: acks_of_def Let_def mx)
  show "acks_of v a = [] \<longleftrightarrow> \<not> ra_acks_ready a" by (auto simp: acks_of_def Let_def mx ra_acks_ready_def)
  have "set (take 4 xs) \<subseteq> set (take 8 xs)" for xs :: "u32 list" by (rule set_take_subset_set_take) simp
  then show "set (take 4 (ra_data a)) \<subseteq> set (acks_of v a)" by (auto simp: acks_of_def Let_def mx)
qed

lemma prepend_dest_psid_and_acks_content:
  assumes "buf_wf buf" "prepend_dest_psid_and_acks opcode buf c = (Inr b, c')" "length (ps_id (psid_peer c)) = 8"
  shows "\<exists>a acks. acks = acks_of (opcode = ACK_V1) (xmit_acks c) \<and> buf_wf b \<and> c' = c\<lparr>xmit_acks := a\<rparr>
    \<and> content b = of_nat (length acks) # ids_wire acks @ (if acks = [] then [] else ps_id (psid_peer c)) @ content buf
    \<and> (acks \<noteq> [] \<longrightarrow> ps_defined (psid_peer c))"
proof -
  let ?acks = "acks_of (opcode = ACK_V1) (xmit_acks c)"
  obtain b1 where b1: "(if ra_acks_ready (xmit_acks c) then psid_prepend (psid_peer c) buf else Inr buf) = Inr b1"
    and d: "ra_acks_ready (xmit_acks c) \<longrightarrow> ps_defined (psid_peer c)"
    and r: "case ra_prepend (opcode = ACK_V1) (xmit_acks c) b1 of (Some e, a, _) \<Rightarrow> False | (None, a, b2) \<Rightarrow> b = b2 \<and> c' = c\<lparr>xmit_acks := a\<rparr>"
    using assms(2) by (auto simp: prepend_dest_psid_and_acks_def Let_def split: if_splits sum.splits prod.splits option.splits)
  have w: "buf_wf b1" "content b1 = (if ?acks = [] then [] else ps_id (psid_peer c)) @ content buf"
    using b1 psid_prepend_Inr [OF assms(1) _ assms(3)] assms(1) by (auto simp: acks_of_facts(2) split: if_splits)
  obtain a where a: "ra_prepend (opcode = ACK_V1) (xmit_acks c) b1 = (None, a, b)" "c' = c\<lparr>xmit_acks := a\<rparr>"
    using r by (auto split: prod.splits option.splits)
  from ra_prepend_content [OF w(1) a(1) refl] have "buf_wf b \<and> content b = of_nat (length ?acks) # ids_wire ?acks @ content b1"
    by (auto simp: acks_of_def Let_def)
  then show ?thesis using w(2) a(2) d by (auto simp: acks_of_facts(2))
qed

section \<open>What a packet looks like on the wire\<close>

definition wire_head :: "u32 \<Rightarrow> 'c control \<Rightarrow> byte list" where
  "wire_head opcode c = op_compose opcode (key_id (ct_key c)) # ps_id (psid_self c)"

definition pid_bytes :: "packet_id_control \<Rightarrow> byte list" where
  "pid_bytes p = be_bytes 4 (pc_id p) @ be_bytes 4 (word_of_int (pc_time p) :: u32)"

lemma length_pid_bytes [simp]: "length (pid_bytes p) = 8"
  by (simp add: pid_bytes_def)

lemma wire_pid_bytes: "wire_pid (pid_bytes p @ rest) = \<lparr>pc_id = pc_id p, pc_time = pc_time p mod 2 ^ 32\<rparr>"
  using wire_pid_written [of p rest] by (simp add: pid_bytes_def)

lemma pcs_write_next_Inr:
  assumes "buf_wf b" "pcs_write_next junk True now s b = (Inr b', s')"
  shows "buf_wf b' \<and> content b' = pid_bytes (fst (pcs_next now s)) @ content b \<and> s' = snd (pcs_next now s)"
  using assms pc_write_Inr [OF assms(1), of junk "fst (pcs_next now s)" b']
  by (auto simp: pcs_write_next_def pid_bytes_def split: prod.splits)

text \<open>The wrapping of a body, for the keys of the sender: plain, tls-auth, tls-crypt.\<close>

definition sent_pid :: "wrap_env \<Rightarrow> 'c control \<Rightarrow> packet_id_control" where
  "sent_pid env c = fst (pcs_next (we_seconds env) (ta_pid_send (ct_proto c)))"

definition wrapped :: "wrap_env \<Rightarrow> 'c control \<Rightarrow> byte list \<Rightarrow> byte list \<Rightarrow> byte list \<Rightarrow> bool" where
  "wrapped env c h body bs =
     (let pid = pid_bytes (sent_pid env c); (hk, ck) = tls_crypt_send_keys (ct_proto c)
      in case pc_wrap_mode (ct_proto c) of
           TLS_PLAIN \<Rightarrow> bs = h @ body
         | TLS_AUTH \<Rightarrow> bs = h @ dg_hmac (we_ta env) (fst (ta_hmac_keys c)) (pid @ h @ body) @ pid @ body
         | _ \<Rightarrow> (let tag = dg_hmac (we_tc env) hk (h @ pid @ body)
                 in \<exists>ct. ci_update (we_cipher env) CIPHER_ENCRYPT ck (take (ci_iv_size (we_cipher env)) tag) body = Some ct
                         \<and> bs = h @ pid @ tag @ ct))"

lemma gen_head_tls_plain_content:
  assumes "buf_wf b" "length (ps_id (psid_self c)) = 8" "gen_head_tls_plain opcode b c = Inr b'"
  shows "buf_wf b' \<and> content b' = wire_head opcode c @ content b"
proof -
  obtain b1 where b1: "psid_prepend (psid_self c) b = Inr b1" and b': "buf_push_front (op_compose opcode (key_id (ct_key c))) b1 = Inr b'"
    using assms(3) by (auto simp: gen_head_tls_plain_def bindR_eq_Inr)
  note 1 = psid_prepend_Inr [OF assms(1) b1 assms(2)]
  show ?thesis using buf_push_front_Inr [OF _ b'] 1 by (simp add: wire_head_def)
qed

lemma gen_head_tls_auth_content:
  assumes "buf_wf b" "length (ps_id (psid_self c)) = 8" "hmac_size c = dg_size (we_ta env)" "digest_ok (we_ta env)"
    and "gen_head_tls_auth env opcode b c = (Inr b', c')"
  shows "buf_wf b' \<and> content b' = wire_head opcode c @ dg_hmac (we_ta env) (fst (ta_hmac_keys c))
      (pid_bytes (sent_pid env c) @ wire_head opcode c @ content b) @ pid_bytes (sent_pid env c) @ content b"
proof -
  let ?h = "wire_head opcode c" and ?p = "pid_bytes (sent_pid env c)"
  obtain b1 s' where b1: "pcs_write_next (we_junk env) True (we_seconds env) (ta_pid_send (ct_proto c)) b = (Inr b1, s')"
    using assms(5) by (auto simp: gen_head_tls_auth_def bindR_eq_Inr split: prod.splits)
  then obtain b2 b3 b4 where b2: "buf_prepend_alloc (hmac_size c) b1 = Inr b2" and b3: "psid_prepend (psid_self c) b2 = Inr b3"
    and b4: "buf_push_front (op_compose opcode (key_id (ct_key c))) b3 = Inr b4"
    and b': "ovpn_hmac_gen (we_ta env) (fst (ta_hmac_keys c)) (b_offset b4) (b_size b4) (1 + PSID_SIZE) (hmac_size c) pc_idsize b4 = Inr b'"
    using assms(5) by (auto simp: gen_head_tls_auth_def bindR_eq_Inr)
  have m: "hmac_size c < sz_max" using assms(3,4) by (simp add: digest_ok_def sz_max_def)
  have 1: "buf_wf b1" "content b1 = ?p @ content b" using pcs_write_next_Inr [OF assms(1) b1] by (simp_all add: sent_pid_def)
  obtain xs where 2: "buf_wf b2" "length xs = hmac_size c" "content b2 = xs @ content b1" by (rule buf_prepend_alloc_Inr [OF 1(1) b2 m])
  note 3 = psid_prepend_Inr [OF 2(1) b3 assms(2)]
  have 4: "buf_wf b4" "content b4 = ?h @ xs @ ?p @ content b" using buf_push_front_Inr [OF _ b4] 3 2 1 by (simp_all add: wire_head_def)
  have l: "length ?h = 1 + PSID_SIZE" "length ?p = pc_idsize" using assms(2) by (simp_all add: wire_head_def PSID_SIZE_def pc_idsize_def)
  obtain b'' where "ovpn_hmac_gen (we_ta env) (fst (ta_hmac_keys c)) (b_offset b4) (b_size b4) (length ?h) (length xs) (length ?p) b4 = Inr b''"
    "buf_wf b''" "content b'' = ?h @ dg_hmac (we_ta env) (fst (ta_hmac_keys c)) (?p @ ?h @ content b) @ ?p @ content b"
    using ovpn_hmac_gen_eq [OF 4 _ assms(4), of "fst (ta_hmac_keys c)"] 2(2) assms(3) by auto
  then show ?thesis using b' by (simp add: l 2(2) pc_idsize_def)
qed

text \<open>Output behind the window becomes part of it.\<close>

lemma buf_extend:
  assumes "buf_wf b" "buf_poke (b_offset b + b_size b) bs b = Inr b1" "buf_inc_size (length bs) b1 = Inr b2"
  shows "buf_wf b2 \<and> content b2 = content b @ bs"
proof -
  have r: "b_offset b + b_size b + length bs \<le> length (b_data b)" and b1: "b1 = b\<lparr>b_data := overwrite (b_offset b + b_size b) bs (b_data b)\<rparr>"
    using assms(2) by (auto simp: buf_poke_def split: if_splits)
  have w1: "buf_wf b1" using assms(1) r by (auto simp: b1 buf_wf_def)
  have n: "b_size b + length bs < sz_max" using assms(1) r by (auto simp: buf_wf_def)
  have b2: "b2 = b1\<lparr>b_size := b_size b + length bs\<rparr>"
    using assms(3) n by (auto simp: buf_inc_size_def buf_set_size_def sz_add_exact b1 split: if_splits)
  have "buf_wf b2" using w1 r n by (auto simp: b2 b1 buf_wf_def)
  moreover have "content b2 = content b @ bs"
    using r assms(1) by (auto simp: b2 b1 content_def overwrite_def drop_take buf_wf_def min_absorb1 min_absorb2)
  ultimately show ?thesis by simp
qed

lemma tc_encrypt_extend:
  assumes "cipher_ok ci" "buf_wf w" "0 < n" "tc_encrypt ci key CIPHER_ENCRYPT (Inr iv) (b_offset w + b_size w) inp w = Inr (n, w1)"
    and "buf_inc_size n w1 = Inr w2"
  shows "\<exists>ct. ci_update ci CIPHER_ENCRYPT key iv inp = Some ct \<and> buf_wf w2 \<and> content w2 = content w @ ct"
proof -
  obtain ct where ct: "ci_update ci CIPHER_ENCRYPT key iv inp = Some ct" "ci_final ci CIPHER_ENCRYPT key iv inp = Some []"
    using assms(1,3,4) by (auto simp: tc_encrypt_def tc_crypt_def cipher_ok_def split: option.splits)
  have e: "overwrite k [] xs = xs" for k and xs :: "byte list" by (simp add: overwrite_def)
  obtain w0 where w0: "buf_poke (b_offset w + b_size w) ct w = Inr w0" "w1 = w0" "n = length ct"
    using assms(4) ct by (auto simp: tc_encrypt_def tc_crypt_def bindR_eq_Inr buf_poke_def e split: if_splits)
  show ?thesis using buf_extend [OF assms(2) w0(1), of w2] assms(5) w0 ct by simp
qed

lemma tls_crypt_space_content:
  assumes "env_ok env" "buf_wf (ct_work c)" "b_flags (ct_work c) \<noteq> None" "hmac_size c = dg_size (we_tc env)" "tls_crypt_space env c = Inr w"
  shows "buf_wf w \<and> length (content w) = hmac_size c"
proof -
  obtain w0 where w0: "ct_prepare_work env ENCRYPT_WORK (ct_work c) = Inr w0" "buf_wf w0" "b_size w0 = 0"
    by (rule ct_prepare_work_ok [OF assms(1-3), of ENCRYPT_WORK]) (auto simp: ENCRYPT_WORK_def N_ALIGN_CONTEXTS_def)
  have m: "hmac_size c < sz_max" using assms(1,4) by (simp add: env_ok_def digest_ok_def sz_max_def)
  have a: "buf_prepend_alloc (hmac_size c) w0 = Inr w" using assms(5) w0(1) by (simp add: tls_crypt_space_def)
  obtain xs where "buf_wf w" "length xs = hmac_size c" "content w = xs @ content w0" by (rule buf_prepend_alloc_Inr [OF w0(2) a m])
  then show ?thesis using w0 by simp
qed

lemma gen_head_tls_crypt_content:
  assumes env: "env_ok env" and b: "buf_wf b" "content b \<noteq> []" and ps: "length (ps_id (psid_self c)) = 8"
    and w: "buf_wf (ct_work c)" "b_flags (ct_work c) \<noteq> None" "hmac_size c = dg_size (we_tc env)"
    and op: "opcode \<noteq> CONTROL_HARD_RESET_CLIENT_V3" "opcode \<noteq> CONTROL_WKC_V1"
    and enc: "\<And>iv. ci_update (we_cipher env) CIPHER_ENCRYPT (snd (tls_crypt_send_keys (ct_proto c))) iv (content b) \<noteq> None"
    and g: "gen_head_tls_crypt env opcode b c = (Inr b', c')"
  shows "\<exists>ct tag. tag = dg_hmac (we_tc env) (fst (tls_crypt_send_keys (ct_proto c))) (wire_head opcode c @ pid_bytes (sent_pid env c) @ content b)
    \<and> ci_update (we_cipher env) CIPHER_ENCRYPT (snd (tls_crypt_send_keys (ct_proto c))) (take (ci_iv_size (we_cipher env)) tag) (content b) = Some ct
    \<and> buf_wf b' \<and> content b' = wire_head opcode c @ pid_bytes (sent_pid env c) @ tag @ ct"
proof -
  let ?h = "wire_head opcode c @ pid_bytes (sent_pid env c)" and ?ci = "we_cipher env" and ?n = "dg_size (we_tc env)"
  let ?hk = "fst (tls_crypt_send_keys (ct_proto c))" and ?ck = "snd (tls_crypt_send_keys (ct_proto c))"
  let ?tag = "dg_hmac (we_tc env) ?hk (?h @ content b)"
  have dg: "digest_ok (we_tc env)" "cipher_ok ?ci" "ci_iv_size ?ci \<le> ?n" using env by (simp_all add: env_ok_def)
  obtain w1 where w1: "tls_crypt_space env c = Inr w1" using g by (auto simp: gen_head_tls_crypt_def split: sum.splits)
  obtain r s' where w2: "pcs_write_next (we_junk env) True (we_seconds env) (ta_pid_send (ct_proto c)) w1 = (r, s')" by fastforce
  obtain w4 wk where w4: "tls_crypt_header opcode r c = Inr w4" and pl: "tls_crypt_payload env opcode b w4 c = Inr (b', wk)"
    using g w1 w2 by (auto simp: gen_head_tls_crypt_def bindR_eq_Inr Let_def split: sum.splits prod.splits)
  then obtain w2' w3 where r: "r = Inr w2'" and w3: "psid_prepend (psid_self c) w2' = Inr w3"
    and p: "buf_push_front (op_compose opcode (key_id (ct_key c))) w3 = Inr w4"
    by (auto simp: tls_crypt_header_def bindR_eq_Inr)
  note 1 = tls_crypt_space_content [OF env w w1]
  note 2 = pcs_write_next_Inr [OF conjunct1 [OF 1] w2 [unfolded r]]
  note 3 = psid_prepend_Inr [OF conjunct1 [OF 2] w3 ps]
  have 4: "buf_wf w4" "content w4 = ?h @ content w1 @ []"
    using buf_push_front_Inr [OF conjunct1 [OF 3] p] 3 2 by (simp_all add: wire_head_def sent_pid_def)
  have l: "length ?h = hmac_offset" using ps by (simp add: wire_head_def hmac_offset_def PSID_SIZE_def)
  obtain w5 where w5: "tc_hmac_gen (we_tc env) ?hk (b_offset w4) hmac_offset (content b) w4 = Inr w5" "buf_wf w5" "content w5 = ?h @ ?tag"
    "b_offset w5 = b_offset w4"
    using tc_hmac_gen_eq [OF 4 _ dg(1), of ?hk "content b"] 1 w(3) l by auto
  have tl: "length ?tag = ?n" using dg(1) by (simp add: digest_ok_def)
  have sz: "b_size w5 = hmac_offset + ?n" using w5(2,3) tl l by (metis length_append length_content)
  have iv: "buf_peek (b_offset w5 + hmac_offset) (ci_iv_size ?ci) w5 = Inr (take (ci_iv_size ?ci) ?tag)"
    using buf_peek_window [OF w5(2), of hmac_offset "ci_iv_size ?ci"] sz dg(3) w5(3) l by simp
  obtain n w6 where e: "tc_encrypt ?ci ?ck CIPHER_ENCRYPT (Inr (take (ci_iv_size ?ci) ?tag)) (b_offset w5 + b_size w5) (content b) w5 = Inr (n, w6)"
    and n: "if n = 0 then b' = buf_reset_size b else \<exists>w7. buf_inc_size n w6 = Inr w7 \<and> b' = w7"
    using pl w5(1,4) iv sz w(3) op by (auto simp: tls_crypt_payload_def bindR_eq_Inr add.assoc split: if_splits)
  have "n \<noteq> 0"
  proof -
    obtain ct where "ci_update ?ci CIPHER_ENCRYPT ?ck (take (ci_iv_size ?ci) ?tag) (content b) = Some ct" using enc by auto
    moreover from this have "length ct = length (content b)" using dg(2) unfolding cipher_ok_def by blast
    ultimately show ?thesis using e dg(2) b(2) by (auto simp: tc_encrypt_def tc_crypt_def cipher_ok_def bindR_eq_Inr)
  qed
  then show ?thesis using tc_encrypt_extend [OF dg(2) w5(2) _ e, of b'] n w5(3) by auto
qed

section \<open>The sender\<close>

text \<open>What a sender needs besides a valid environment: session ID and a cipher that does not fail.\<close>

definition send_ready :: "wrap_env \<Rightarrow> 'c control \<Rightarrow> bool" where
  "send_ready env c \<longleftrightarrow> env_ok env \<and> ct_ok env c \<and> length (ps_id (psid_self c)) = 8 \<and> length (ps_id (psid_peer c)) = 8
     \<and> (\<forall>key iv x. ci_update (we_cipher env) CIPHER_ENCRYPT key iv x \<noteq> None)"

definition control_body :: "u32 \<Rightarrow> u32 \<Rightarrow> byte list \<Rightarrow> 'c control \<Rightarrow> byte list" where
  "control_body opcode i payload c =
     (let acks = acks_of (opcode = ACK_V1) (xmit_acks c)
      in of_nat (length acks) # ids_wire acks @ (if acks = [] then [] else ps_id (psid_peer c)) @ be_bytes 4 i @ payload)"

lemma gen_head_wrapped:
  assumes "send_ready env c" "buf_wf b" "content b \<noteq> []" "gen_head env opcode b c = (Inr b', c')"
    and "opcode \<noteq> CONTROL_HARD_RESET_CLIENT_V3" "opcode \<noteq> CONTROL_WKC_V1"
  shows "buf_wf b' \<and> wrapped env c (wire_head opcode c) (content b) (content b')"
proof -
  have ok: "env_ok env" "digest_ok (we_ta env)" "length (ps_id (psid_self c)) = 8" "buf_wf (ct_work c)" "b_flags (ct_work c) \<noteq> None"
    "\<And>key iv x. ci_update (we_cipher env) CIPHER_ENCRYPT key iv x \<noteq> None"
    using assms(1) by (auto simp: send_ready_def env_ok_def ct_ok_def)
  have hs: "pc_wrap_mode (ct_proto c) = TLS_AUTH \<Longrightarrow> hmac_size c = dg_size (we_ta env)"
    "pc_wrap_mode (ct_proto c) = TLS_CRYPT \<or> pc_wrap_mode (ct_proto c) = TLS_CRYPT_V2 \<Longrightarrow> hmac_size c = dg_size (we_tc env)"
    using assms(1) by (auto simp: send_ready_def ct_ok_def)
  note tc = gen_head_tls_crypt_content [OF ok(1) assms(2,3) ok(3-5) hs(2) assms(5,6) ok(6)]
  show ?thesis
    using assms(4) gen_head_tls_plain_content [OF assms(2) ok(3)] gen_head_tls_auth_content [OF assms(2) ok(3) hs(1) ok(2)] tc
    by (cases "pc_wrap_mode (ct_proto c)") (fastforce simp: gen_head_def wrapped_def Let_def split: prod.splits)+
qed

lemma wrapped_xmit: "wrapped env (c\<lparr>xmit_acks := a\<rparr>) = wrapped env c" "wire_head opcode (c\<lparr>xmit_acks := a\<rparr>) = wire_head opcode c"
  "send_ready env (c\<lparr>xmit_acks := a\<rparr>) = send_ready env c"
  by (simp_all add: wrapped_def wire_head_def send_ready_def sent_pid_def ct_ok_def fun_eq_iff Let_def split: tls_wrap_mode.splits prod.splits)

lemma encapsulate_wrapped:
  assumes "send_ready env c" "buf_wf (cp_buf pkt)" "encapsulate env i pkt c = (Inr pkt', c')"
    and "cp_opcode pkt \<noteq> CONTROL_HARD_RESET_CLIENT_V3" "cp_opcode pkt \<noteq> CONTROL_WKC_V1" "\<not> (i = 1 \<and> resend_wkc c)"
  shows "\<exists>b. pkt' = pkt\<lparr>cp_buf := b\<rparr> \<and> buf_wf b
    \<and> wrapped env c (wire_head (cp_opcode pkt) c) (control_body (cp_opcode pkt) i (content (cp_buf pkt)) c) (content b)
    \<and> (ra_acks_ready (xmit_acks c) \<longrightarrow> ps_defined (psid_peer c))"
proof -
  obtain b1 where b1: "ra_prepend_id i (cp_buf pkt) = Inr b1" using assms(3) by (auto simp: encapsulate_def split: sum.splits)
  obtain b2 c1 where b2: "prepend_dest_psid_and_acks (cp_opcode pkt) b1 c = (Inr b2, c1)"
    using assms(3) b1 by (auto simp: encapsulate_def split: sum.splits prod.splits)
  note 1 = ra_prepend_id_ok [OF assms(2) b1]
  obtain a acks where 2: "acks = acks_of (cp_opcode pkt = ACK_V1) (xmit_acks c)" "buf_wf b2" "c1 = c\<lparr>xmit_acks := a\<rparr>"
    "content b2 = of_nat (length acks) # ids_wire acks @ (if acks = [] then [] else ps_id (psid_peer c)) @ content b1"
    "acks \<noteq> [] \<longrightarrow> ps_defined (psid_peer c)"
    using prepend_dest_psid_and_acks_content [OF _ b2] 1 assms(1) by (auto simp: send_ready_def)
  obtain b3 where b3: "gen_head env (cp_opcode pkt) b2 c1 = (Inr b3, c')" "pkt' = pkt\<lparr>cp_buf := b3\<rparr>"
    using assms(3,6) b1 b2 2(3) by (auto simp: encapsulate_def bindR_eq_Inr Let_def split: prod.splits)
  have body: "content b2 = control_body (cp_opcode pkt) i (content (cp_buf pkt)) c" "content b2 \<noteq> []"
    using 1 2 by (simp_all add: control_body_def Let_def)
  have "buf_wf b3 \<and> wrapped env c (wire_head (cp_opcode pkt) c) (content b2) (content b3)"
    using gen_head_wrapped [OF _ 2(2) body(2) b3(1) assms(4,5)] assms(1) 2(3) by (simp add: wrapped_xmit)
  then show ?thesis using 2(1,5) b3(2) body(1) by (auto simp: acks_of_facts(2))
qed

section \<open>The receiver\<close>

lemma ra_ack_loop_ok:
  "buf_wf buf \<Longrightarrow> content buf = ids_wire is @ rest \<Longrightarrow>
     \<exists>buf'. ra_ack_loop (length is) True rs buf = (None, fold rs_ack is rs, buf') \<and> buf_wf buf' \<and> content buf' = rest"
proof (induction "is" arbitrary: rs buf)
  case (Cons i "is")
  then have "content buf = be_bytes 4 i @ (ids_wire is @ rest)" by simp
  from ra_read_id_ok [OF Cons.prems(1) this] obtain b where
    b: "ra_read_id buf = Inr (i, b)" "buf_wf b" "content b = ids_wire is @ rest" by blast
  from Cons.IH [OF b(2,3), of "rs_ack i rs"] b(1) show ?case by auto
qed simp

lemma ct_process_acks_ok:
  assumes "buf_wf recv" "content recv = of_nat (length acks) # ids_wire acks @ (if acks = [] then [] else ps_id p) @ rest"
    and "length acks \<le> 8" "length (ps_id p) = 8" "acks \<noteq> [] \<longrightarrow> psid_match (psid_self c) p \<and> ps_defined p"
  shows "\<exists>recv1. ct_process_acks True recv c = (Inr (Some recv1), c\<lparr>rel_send := fold rs_ack acks (rel_send c)\<rparr>)
    \<and> buf_wf recv1 \<and> content recv1 = rest"
proof -
  have u: "unat (of_nat (length acks) :: byte) = length acks" using assms(3) by (simp add: unat_of_nat)
  have n0: "b_size recv \<noteq> 0" using assms(1,2) by (metis length_content list.size(3) list.distinct(1) length_0_conv)
  have w: "buf_wf (buf_skip 1 recv)" using assms(1) n0 by auto
  have "content (buf_skip 1 recv) = ids_wire acks @ ((if acks = [] then [] else ps_id p) @ rest)" using assms(2) by simp
  from ra_ack_loop_ok [OF w this, of "rel_send c"] obtain b where
    b: "ra_ack_loop (length acks) True (rel_send c) (buf_skip 1 recv) = (None, fold rs_ack acks (rel_send c), b)"
    "buf_wf b" "content b = (if acks = [] then [] else ps_id p) @ rest" by blast
  have a: "ra_ack True (rel_send c) recv = (Inr (length acks), fold rs_ack acks (rel_send c), b)"
    using b(1) u n0 assms(2) by (simp add: ra_ack_def buf_pop_front_skip [OF assms(1)])
  show ?thesis
  proof (cases "acks = []")
    case False
    have "8 \<le> b_size b" using b(2,3) False assms(4) by (simp flip: length_content)
    then have r: "psid_read b = Inr (\<lparr>ps_defined = True, ps_id = ps_id p\<rparr>, buf_skip 8 b)"
      using b(3) False assms(4) by (simp add: psid_read_eq [OF b(2)])
    then show ?thesis
      using False a b(2,3) assms(4,5) \<open>8 \<le> b_size b\<close>
      by (auto simp: ct_process_acks_def verify_dest_psid_def psid_match_def)
  qed (use a b in \<open>auto simp: ct_process_acks_def\<close>)
qed

text \<open>The other end has filed the message, will acknowledge it, and has taken the acknowledgements.\<close>

definition delivered :: "u32 \<Rightarrow> u32 \<Rightarrow> byte list \<Rightarrow> u32 list \<Rightarrow> 'c control \<Rightarrow> 'c control \<Rightarrow> bool" where
  "delivered opcode i payload acks c c' \<longleftrightarrow>
     (\<exists>b. m_packet (mw_slot recv_dflt (rel_recv c') (unat i)) = Some \<lparr>cp_opcode = opcode, cp_buf = b\<rparr> \<and> content b = payload)
     \<and> (\<forall>j\<ge>unat (mw_head (rel_recv c)). j \<noteq> unat i \<longrightarrow> mw_slot recv_dflt (rel_recv c') j = mw_slot recv_dflt (rel_recv c) j)
     \<and> mw_head (rel_recv c') = mw_head (rel_recv c)
     \<and> xmit_acks c' = ra_push_back i (xmit_acks c) \<and> rel_send c' = fold rs_ack acks (rel_send c)"

lemma ct_receive_ok:
  assumes "mw_wf (rel_recv c)" "mw_in_window (rel_recv c) i"
  shows "\<exists>rr. ct_receive opcode recv i c = (Inr True, c\<lparr>rel_recv := rr, xmit_acks := ra_push_back i (xmit_acks c)\<rparr>)
    \<and> m_packet (mw_slot recv_dflt rr (unat i)) = Some \<lparr>cp_opcode = opcode, cp_buf = recv\<rparr> \<and> mw_head rr = mw_head (rel_recv c)
    \<and> (\<forall>j\<ge>unat (mw_head (rel_recv c)). j \<noteq> unat i \<longrightarrow> mw_slot recv_dflt rr j = mw_slot recv_dflt (rel_recv c) j)"
proof -
  obtain fl s' where r: "rr_receive (Some \<lparr>cp_opcode = opcode, cp_buf = recv\<rparr>) i (rel_recv c) = Inr (fl, s')" "mw_head s' = mw_head (rel_recv c)"
    "\<forall>j\<ge>unat (mw_head (rel_recv c)). mw_slot recv_dflt s' j = (if j = unat i
        then (mw_slot recv_dflt (rel_recv c) j)\<lparr>m_id := i, m_packet := Some \<lparr>cp_opcode = opcode, cp_buf = recv\<rparr>\<rparr> else mw_slot recv_dflt (rel_recv c) j)"
    "fl = ACK_TO_SENDER OR IN_WINDOW"
    using rr_receive_spec [OF assms(1), of "\<lparr>cp_opcode = opcode, cp_buf = recv\<rparr>" i] assms(2) by auto
  have "unat (mw_head (rel_recv c)) \<le> unat i" using mw_in_window_iff [OF assms(1)] assms(2) by simp
  then show ?thesis using r by (auto simp: ct_receive_def ACK_TO_SENDER_def IN_WINDOW_def)
qed

lemma verify_src_psid_ok:
  assumes "ps_defined src" "ps_defined (psid_peer c) \<longrightarrow> ps_id (psid_peer c) = ps_id src"
  shows "\<exists>p. verify_src_psid src c = (True, c\<lparr>psid_peer := p\<rparr>)"
proof (cases "ps_defined (psid_peer c)")
  case True
  then have "verify_src_psid src c = (True, c\<lparr>psid_peer := psid_peer c\<rparr>)" using assms by (simp add: verify_src_psid_def psid_match_def)
  then show ?thesis by blast
qed (auto simp: verify_src_psid_def)

lemma ct_test_add_fst: "ta_pid_recv (ct_proto c) = ta_pid_recv (ct_proto d) \<Longrightarrow> fst (ct_test_add pid t md c) = fst (ct_test_add pid t md d)"
  by (simp add: ct_test_add_def split: sum.splits prod.splits)

lemma decapsulate_post_process_ok:
  fixes c :: "'c control"
  assumes k: "ct_known c K" and src: "ps_defined src" "ps_defined (psid_peer c) \<longrightarrow> ps_id (psid_peer c) = ps_id src"
    and fresh: "fst (ct_test_add pid (we_seconds env) False c) = Inr True"
    and recv: "buf_wf recv" "content recv = of_nat (length acks) # ids_wire acks @ (if acks = [] then [] else ps_id p) @ be_bytes 4 i @ payload"
    and acks: "length acks \<le> 8" "length (ps_id p) = 8" "acks \<noteq> [] \<longrightarrow> psid_match (psid_self c) p \<and> ps_defined p"
    and win: "mw_wf (rel_recv c)" "mw_in_window (rel_recv c) i" and op: "opcode \<noteq> ACK_V1"
  shows "\<exists>c'. decapsulate_post_process env opcode src pid recv c = (Inr True, c') \<and> delivered opcode i payload acks c c'"
proof -
  let ?c0 = "ct_update_last_received (we_now env) c" and ?t = "we_seconds env"
  obtain q where v: "verify_src_psid src ?c0 = (True, ?c0\<lparr>psid_peer := q\<rparr>)"
    using verify_src_psid_ok [OF src(1), of ?c0] src(2) by (auto simp: ct_update_last_received_def)
  let ?c1 = "?c0\<lparr>psid_peer := q\<rparr>"
  have pr: "ta_pid_recv (ct_proto ?c1) = ta_pid_recv (ct_proto c)"
    by (simp add: ct_update_last_received_def pc_update_last_received_def)
  have k1: "ct_known ?c1 K" using k pr by (simp add: ct_known_def)
  obtain ok r where t: "ct_test_add pid ?t False ?c1 = (Inr ok, ?c1\<lparr>ct_proto := (ct_proto ?c1)\<lparr>ta_pid_recv := r\<rparr>\<rparr>)"
    and again: "\<And>c2 :: 'c control. ok \<Longrightarrow> ta_pid_recv (ct_proto c2) = r \<Longrightarrow> fst (ct_test_add pid ?t True c2) = Inr True"
    using ct_test_add_known [OF k1, of pid ?t False] by blast
  have ok: ok using ct_test_add_fst [OF pr, of pid ?t False] fresh t by simp
  let ?c2 = "?c1\<lparr>ct_proto := (ct_proto ?c1)\<lparr>ta_pid_recv := r\<rparr>\<rparr>"
  have f2: "psid_self ?c2 = psid_self c" "rel_send ?c2 = rel_send c" "rel_recv ?c2 = rel_recv c" "xmit_acks ?c2 = xmit_acks c"
    by (simp_all add: ct_update_last_received_def)
  obtain recv1 where a: "ct_process_acks True recv ?c2 = (Inr (Some recv1), ?c2\<lparr>rel_send := fold rs_ack acks (rel_send c)\<rparr>)"
    "buf_wf recv1" "content recv1 = be_bytes 4 i @ payload"
    using ct_process_acks_ok [OF recv acks(1,2), of ?c2] acks(3) f2 by auto
  let ?c3 = "?c2\<lparr>rel_send := fold rs_ack acks (rel_send c)\<rparr>"
  obtain recv2 where i: "ra_read_id recv1 = Inr (i, recv2)" "buf_wf recv2" "content recv2 = payload"
    using ra_read_id_ok [OF a(2,3)] by blast
  have f3: "rel_recv ?c3 = rel_recv c" "xmit_acks ?c3 = xmit_acks c" "ta_pid_recv (ct_proto ?c3) = r" using f2 by simp_all
  obtain rr where rr: "ct_receive opcode recv2 i ?c3 = (Inr True, ?c3\<lparr>rel_recv := rr, xmit_acks := ra_push_back i (xmit_acks c)\<rparr>)"
    "m_packet (mw_slot recv_dflt rr (unat i)) = Some \<lparr>cp_opcode = opcode, cp_buf = recv2\<rparr>" "mw_head rr = mw_head (rel_recv c)"
    "\<forall>j\<ge>unat (mw_head (rel_recv c)). j \<noteq> unat i \<longrightarrow> mw_slot recv_dflt rr j = mw_slot recv_dflt (rel_recv c) j"
    using ct_receive_ok [of ?c3 i opcode recv2] win unfolding f3 by blast
  let ?c4 = "?c3\<lparr>rel_recv := rr, xmit_acks := ra_push_back i (xmit_acks c)\<rparr>"
  have "fst (ct_test_add pid ?t True ?c4) = Inr True" using again [OF ok] f3(3) by simp
  then obtain r' where rem: "ct_remember pid ?t True ?c4 = (Inr True, ?c4\<lparr>ct_proto := (ct_proto ?c4)\<lparr>ta_pid_recv := r'\<rparr>\<rparr>)"
    by (auto simp: ct_remember_def ct_test_add_def split: sum.splits prod.splits)
  have "ct_file opcode pid ?t ok recv1 ?c3 = (Inr True, ?c4\<lparr>ct_proto := (ct_proto ?c4)\<lparr>ta_pid_recv := r'\<rparr>\<rparr>)"
    using op i(1) ok rr(1) rem by (simp add: ct_file_def)
  then have "decapsulate_post_process env opcode src pid recv c = (Inr True, ?c4\<lparr>ct_proto := (ct_proto ?c4)\<lparr>ta_pid_recv := r'\<rparr>\<rparr>)"
    using v t ok a(1) by (simp add: decapsulate_post_process_def)
  then show ?thesis using rr(2-4) i(3) f2 by (auto simp: delivered_def)
qed

section \<open>Both ends\<close>

text \<open>
  Two ends of a session: the same algorithms and wrapping mode, the keys of the directions crossed, the session
  IDs known to each other (or not yet learned), and decryption the inverse of encryption.
\<close>

definition peers :: "wrap_env \<Rightarrow> wrap_env \<Rightarrow> 'c control \<Rightarrow> 'd control \<Rightarrow> bool" where
  "peers es er a b \<longleftrightarrow> we_ta es = we_ta er \<and> we_tc es = we_tc er \<and> we_cipher es = we_cipher er
     \<and> pc_wrap_mode (ct_proto a) = pc_wrap_mode (ct_proto b)
     \<and> snd (ta_hmac_keys b) = fst (ta_hmac_keys a) \<and> tls_crypt_recv_keys (ct_proto b) = tls_crypt_send_keys (ct_proto a)
     \<and> (ps_defined (psid_peer b) \<longrightarrow> ps_id (psid_peer b) = ps_id (psid_self a))
     \<and> (ps_defined (psid_peer a) \<longrightarrow> psid_match (psid_self b) (psid_peer a))
     \<and> (\<forall>key iv x y. ci_update (we_cipher es) CIPHER_ENCRYPT key iv x = Some y \<longrightarrow> ci_update (we_cipher er) CIPHER_DECRYPT key iv y = Some x)"

text \<open>The packet ID as it arrives: the time has 32 bits on the wire.\<close>

definition arriving_pid :: "wrap_env \<Rightarrow> 'c control \<Rightarrow> packet_id_control" where
  "arriving_pid env c = \<lparr>pc_id = pc_id (sent_pid env c), pc_time = pc_time (sent_pid env c) mod 2 ^ 32\<rparr>"

lemma wire_psid_head: "length (ps_id (psid_self a)) = 8 \<Longrightarrow> wire_psid (wire_head opcode a @ rest) = \<lparr>ps_defined = True, ps_id = ps_id (psid_self a)\<rparr>"
  by (simp add: wire_psid_def wire_head_def)

lemma authentic_tls_auth:
  assumes "send_ready es a" "peers es er a b" "ct_ok er b" "pc_wrap_mode (ct_proto b) = TLS_AUTH" "wrapped es a (wire_head opcode a) body bs"
  shows "ta_authentic er b bs" "wire_psid bs = \<lparr>ps_defined = True, ps_id = ps_id (psid_self a)\<rparr>"
    "wire_pid (drop (9 + hmac_size b) bs) = arriving_pid es a" "drop (17 + hmac_size b) bs = body"
proof -
  let ?h = "wire_head opcode a" and ?p = "pid_bytes (sent_pid es a)"
  let ?t = "dg_hmac (we_ta es) (fst (ta_hmac_keys a)) (?p @ ?h @ body)"
  have bs: "bs = ?h @ ?t @ ?p @ body" using assms(2,4,5) by (simp add: wrapped_def peers_def Let_def split: prod.splits)
  have hs: "hmac_size b = dg_size (we_ta er)" using assms(3,4) by (simp add: ct_ok_def)
  have l: "length ?t = hmac_size b" "length ?h = 9" "length (ps_id (psid_self a)) = 8"
    using assms(1,2) hs by (simp_all add: send_ready_def env_ok_def digest_ok_def peers_def wire_head_def)
  show "wire_psid bs = \<lparr>ps_defined = True, ps_id = ps_id (psid_self a)\<rparr>" using wire_psid_head [OF l(3)] by (simp add: bs)
  show "ta_authentic er b bs" using assms(2) l by (simp add: bs ta_authentic_def peers_def)
  show "wire_pid (drop (9 + hmac_size b) bs) = arriving_pid es a" using l by (simp add: bs wire_pid_bytes arriving_pid_def)
  show "drop (17 + hmac_size b) bs = body" using l by (simp add: bs)
qed

lemma authentic_tls_crypt:
  assumes "send_ready es a" "peers es er a b" "ct_ok er b" "pc_wrap_mode (ct_proto b) = TLS_CRYPT \<or> pc_wrap_mode (ct_proto b) = TLS_CRYPT_V2"
    and "wrapped es a (wire_head opcode a) body bs" "body \<noteq> []"
  shows "tc_authentic er b bs body" "wire_psid bs = \<lparr>ps_defined = True, ps_id = ps_id (psid_self a)\<rparr>"
    "wire_pid (drop 9 bs) = arriving_pid es a"
proof -
  let ?h = "wire_head opcode a" and ?p = "pid_bytes (sent_pid es a)" and ?ci = "we_cipher es"
  let ?hk = "fst (tls_crypt_send_keys (ct_proto a))" and ?ck = "snd (tls_crypt_send_keys (ct_proto a))"
  let ?t = "dg_hmac (we_tc es) ?hk (?h @ ?p @ body)"
  obtain ct where ct: "ci_update ?ci CIPHER_ENCRYPT ?ck (take (ci_iv_size ?ci) ?t) body = Some ct" and bs: "bs = ?h @ ?p @ ?t @ ct"
    using assms(2,4,5) by (auto simp: wrapped_def peers_def Let_def split: prod.splits)
  have hs: "hmac_size b = dg_size (we_tc er)" using assms(3,4) by (auto simp: ct_ok_def)
  have l: "length ?t = hmac_size b" "length ?h = 9" "length (ps_id (psid_self a)) = 8" "ci_iv_size ?ci \<le> hmac_size b"
    using assms(1,2) hs by (simp_all add: send_ready_def env_ok_def digest_ok_def peers_def wire_head_def)
  have "length ct = length body" using ct assms(1) unfolding send_ready_def env_ok_def cipher_ok_def by blast
  moreover have "ci_update (we_cipher er) CIPHER_DECRYPT ?ck (take (ci_iv_size ?ci) ?t) ct = Some body" using ct assms(2) by (simp add: peers_def)
  ultimately show "tc_authentic er b bs body"
    using assms(2,6) l by (simp add: bs tc_authentic_def peers_def)
  show "wire_psid bs = \<lparr>ps_defined = True, ps_id = ps_id (psid_self a)\<rparr>" using wire_psid_head [OF l(3)] by (simp add: bs)
  show "wire_pid (drop 9 bs) = arriving_pid es a" using l by (simp add: bs wire_pid_bytes arriving_pid_def)
qed

lemma decapsulate_tls_plain_ok:
  fixes c :: "'c control"
  assumes b: "buf_wf (cp_buf pkt)" "content (cp_buf pkt) = wire_head opcode a @ body" "length (ps_id (psid_self a)) = 8"
    and src: "ps_defined (psid_peer c) \<longrightarrow> ps_id (psid_peer c) = ps_id (psid_self a)"
    and body: "body = of_nat (length acks) # ids_wire acks @ (if acks = [] then [] else ps_id p) @ be_bytes 4 i @ payload"
    and acks: "length acks \<le> 8" "length (ps_id p) = 8" "acks \<noteq> [] \<longrightarrow> psid_match (psid_self c) p \<and> ps_defined p"
    and win: "mw_wf (rel_recv c)" "mw_in_window (rel_recv c) i" and op: "cp_opcode pkt \<noteq> ACK_V1"
  shows "\<exists>c'. decapsulate_tls_plain env pkt c = (Inr True, c') \<and> delivered (cp_opcode pkt) i payload acks c c'"
proof -
  let ?c0 = "ct_update_last_received (we_now env) c" and ?src = "\<lparr>ps_defined = True, ps_id = ps_id (psid_self a)\<rparr>"
  have n: "9 \<le> b_size (cp_buf pkt)" using b by (simp add: wire_head_def flip: length_content)
  have r: "read_op_psid (cp_buf pkt) = Inr (?src, buf_skip 9 (cp_buf pkt))"
    using n b(2) wire_psid_head [OF b(3)] by (simp add: read_op_psid_eq [OF b(1)])
  obtain q where v: "verify_src_psid ?src ?c0 = (True, ?c0\<lparr>psid_peer := q\<rparr>)"
    using verify_src_psid_ok [of ?src ?c0] src by (auto simp: ct_update_last_received_def)
  let ?c1 = "?c0\<lparr>psid_peer := q\<rparr>"
  have f: "psid_self ?c1 = psid_self c" "rel_send ?c1 = rel_send c" "rel_recv ?c1 = rel_recv c" "xmit_acks ?c1 = xmit_acks c"
    by (simp_all add: ct_update_last_received_def)
  have w: "buf_wf (buf_skip 9 (cp_buf pkt))" "content (buf_skip 9 (cp_buf pkt)) = body" using b n by (auto simp: wire_head_def)
  obtain recv1 where k: "ct_process_acks True (buf_skip 9 (cp_buf pkt)) ?c1 = (Inr (Some recv1), ?c1\<lparr>rel_send := fold rs_ack acks (rel_send c)\<rparr>)"
    "buf_wf recv1" "content recv1 = be_bytes 4 i @ payload"
    using ct_process_acks_ok [OF w(1) w(2) [unfolded body] acks(1,2), of ?c1] acks(3) f by auto
  let ?c2 = "?c1\<lparr>rel_send := fold rs_ack acks (rel_send c)\<rparr>"
  obtain recv2 where i: "ra_read_id recv1 = Inr (i, recv2)" "content recv2 = payload" using ra_read_id_ok [OF k(2,3)] by blast
  have f2: "rel_recv ?c2 = rel_recv c" "xmit_acks ?c2 = xmit_acks c" using f by simp_all
  show ?thesis
    using ct_receive_ok [of ?c2 i "cp_opcode pkt" recv2] win i op unfolding f2 delivered_def
    by (auto simp: decapsulate_tls_plain_def r v k(1))
qed

text \<open>What arrives as the wrapping of a body is unwrapped and processed, in each mode.\<close>

lemma decapsulate_wrapped:
  fixes a :: "'c control" and b :: "'d control"
  assumes a: "send_ready es a" and p: "peers es er a b" and r: "env_ok er" "ct_ok er b" "ct_known b K" "packet_fits er pkt"
    and acks: "acks = acks_of (cp_opcode pkt = ACK_V1) (xmit_acks a)" "acks \<noteq> [] \<longrightarrow> ps_defined (psid_peer a)"
    and w: "wrapped es a (wire_head (cp_opcode pkt) a) (control_body (cp_opcode pkt) i payload a) (content (cp_buf pkt))"
    and fresh: "pc_wrap_mode (ct_proto b) = TLS_PLAIN \<or> fst (ct_test_add (arriving_pid es a) (we_seconds er) False b) = Inr True"
    and win: "mw_wf (rel_recv b)" "mw_in_window (rel_recv b) i" and op: "cp_opcode pkt \<noteq> ACK_V1"
  shows "\<exists>b'. decapsulate er pkt b = (Inr True, b') \<and> delivered (cp_opcode pkt) i payload acks b b'"
proof -
  let ?body = "control_body (cp_opcode pkt) i payload a" and ?bs = "content (cp_buf pkt)"
  let ?src = "\<lparr>ps_defined = True, ps_id = ps_id (psid_self a)\<rparr>" and ?op = "cp_opcode pkt"
  have ps: "length (ps_id (psid_self a)) = 8" "length (ps_id (psid_peer a)) = 8" "?body \<noteq> []"
    using a by (simp_all add: send_ready_def control_body_def Let_def)
  have al: "length acks \<le> 8" "acks \<noteq> [] \<longrightarrow> psid_match (psid_self b) (psid_peer a) \<and> ps_defined (psid_peer a)"
    using acks_of_facts(1) acks p by (auto simp: peers_def)
  have src: "ps_defined (psid_peer b) \<longrightarrow> ps_id (psid_peer b) = ps_id ?src" using p by (simp add: peers_def)
  have body: "?body = of_nat (length acks) # ids_wire acks @ (if acks = [] then [] else ps_id (psid_peer a)) @ be_bytes 4 i @ payload"
    by (simp add: control_body_def Let_def acks(1))
  have bt: "digest_ok (we_ta er)" "pcr_initialized (ta_pid_recv (ct_proto b))" "buf_wf (ct_work b)" "b_flags (ct_work b) \<noteq> None"
    and buf: "buf_wf (cp_buf pkt)" "b_size (cp_buf pkt) \<le> fc_payload (we_frame er ! DECRYPT_WORK)" "?op \<noteq> CONTROL_HARD_RESET_CLIENT_V3"
    using r by (simp_all add: env_ok_def ct_ok_def packet_fits_def)
  have post: "\<exists>c'. decapsulate_post_process er ?op ?src (arriving_pid es a) recv (b\<lparr>ct_work := wk\<rparr>) = (Inr True, c')
      \<and> delivered ?op i payload acks (b\<lparr>ct_work := wk\<rparr>) c'"
    if "pc_wrap_mode (ct_proto b) \<noteq> TLS_PLAIN" "buf_wf recv" "content recv = ?body" for recv wk
    by (rule decapsulate_post_process_ok [where K = K and p = "psid_peer a"])
       (use that r(3) src fresh al ps(2) win op body ct_test_add_fst [of "b\<lparr>ct_work := wk\<rparr>" b] in \<open>simp_all add: ct_known_def\<close>)
  have crypt: "\<exists>b'. decapsulate_tls_crypt er pkt b = (Inr True, b') \<and> delivered ?op i payload acks b b'"
    if m: "pc_wrap_mode (ct_proto b) = TLS_CRYPT \<or> pc_wrap_mode (ct_proto b) = TLS_CRYPT_V2"
  proof -
    have hs: "hmac_size b = dg_size (we_tc er)" using r(2) m by (auto simp: ct_ok_def)
    note au = authentic_tls_crypt [OF a p r(2) m w ps(3)]
    have u: "pt = ?body" if "tc_authentic er b ?bs pt" for pt using that au(1) by (auto simp: tc_authentic_def)
    obtain recv wk where "buf_wf recv" "content recv = ?body" "decapsulate_tls_crypt er pkt b
        = decapsulate_post_process er ?op ?src (arriving_pid es a) recv (b\<lparr>ct_work := wk\<rparr>)"
      by (rule decapsulate_tls_crypt_cases [OF r(1) buf(1) hs bt(2-4) buf(2)]) (use au u in auto)
    then show ?thesis using post [of recv wk] m by (auto simp: delivered_def)
  qed
  have "\<exists>b'. decapsulate_mode er pkt b = (Inr True, b') \<and> delivered ?op i payload acks b b'"
  proof (cases "pc_wrap_mode (ct_proto b)")
    case TLS_PLAIN
    then have "?bs = wire_head ?op a @ ?body" using w p by (simp add: wrapped_def peers_def Let_def split: prod.splits)
    then show ?thesis
      using decapsulate_tls_plain_ok [OF buf(1) _ ps(1) _ body al(1) ps(2) al(2) win op] src TLS_PLAIN by (simp add: decapsulate_mode_def)
  next
    case TLS_AUTH
    then have hs: "hmac_size b = dg_size (we_ta er)" using r(2) by (simp add: ct_ok_def)
    note au = authentic_tls_auth [OF a p r(2) TLS_AUTH w]
    obtain recv where "buf_wf recv" "content recv = ?body" "decapsulate_tls_auth er pkt b
        = decapsulate_post_process er ?op ?src (arriving_pid es a) recv b"
      by (rule decapsulate_tls_auth_cases [OF buf(1) bt(1) hs bt(2)]) (use au in auto)
    then show ?thesis using post [of recv "ct_work b"] TLS_AUTH by (simp add: decapsulate_mode_def)
  qed (use crypt buf(3) in \<open>simp_all add: decapsulate_mode_def\<close>)
  then show ?thesis by (auto simp: decapsulate_def)
qed

text \<open>
  C5. A control packet survives the wrapping. What \<open>encapsulate\<close> makes of a packet (in each mode: plain, tls-auth,
  tls-crypt, and tls-crypt-v2 after its first packet), the \<open>decapsulate\<close> of the other end files under the same message
  ID, with the same opcode and contents, nothing else in the window changed; it queues the acknowledgement, and
  applies the acknowledgements the packet carries, the first four the sender had waiting among them.
\<close>

theorem control_round_trip:
  fixes a :: "'c control" and b :: "'d control"
  assumes s: "send_ready es a" "buf_wf (cp_buf pkt)" "encapsulate es i pkt a = (Inr sent, a')"
    and op: "cp_opcode pkt \<notin> {ACK_V1, CONTROL_HARD_RESET_CLIENT_V3, CONTROL_WKC_V1}" "\<not> (i = 1 \<and> resend_wkc a)"
    and p: "peers es er a b"
    and r: "env_ok er" "ct_ok er b" "ct_known b K" "packet_fits er pkt'" "cp_opcode pkt' = cp_opcode sent"
      "content (cp_buf pkt') = content (cp_buf sent)"
    and fresh: "pc_wrap_mode (ct_proto b) = TLS_PLAIN \<or> fst (ct_test_add (arriving_pid es a) (we_seconds er) False b) = Inr True"
    and win: "mw_wf (rel_recv b)" "mw_in_window (rel_recv b) i"
  shows "\<exists>b' acks. decapsulate er pkt' b = (Inr True, b') \<and> set (take 4 (ra_data (xmit_acks a))) \<subseteq> set acks
    \<and> delivered (cp_opcode pkt) i (content (cp_buf pkt)) acks b b'"
proof -
  let ?acks = "acks_of (cp_opcode pkt = ACK_V1) (xmit_acks a)"
  have ops: "cp_opcode pkt \<noteq> CONTROL_HARD_RESET_CLIENT_V3" "cp_opcode pkt \<noteq> CONTROL_WKC_V1" "cp_opcode pkt \<noteq> ACK_V1" using op(1) by auto
  have w: "wrapped es a (wire_head (cp_opcode pkt) a) (control_body (cp_opcode pkt) i (content (cp_buf pkt)) a) (content (cp_buf pkt'))"
    "?acks \<noteq> [] \<longrightarrow> ps_defined (psid_peer a)" "cp_opcode pkt' = cp_opcode pkt"
    using encapsulate_wrapped [OF s ops(1,2) op(2)] r(5,6) by (auto simp: acks_of_facts(2))
  show ?thesis
    using decapsulate_wrapped [OF s(1) p r(1-4) refl, where i = i] w ops(3) fresh win acks_of_facts(3) by metis
qed

text \<open>An example: a client with one acknowledgement to send, in tls-auth.\<close>

definition ex_sender :: "unit control" where
  "ex_sender = (ex_ct TLS_AUTH (ex_psid 1))\<lparr>psid_peer := ex_psid 2, xmit_acks := \<lparr>ra_data = [9], ra_re_acks = []\<rparr>\<rparr>"

definition ex_control :: control_packet where
  "ex_control = \<lparr>cp_opcode = CONTROL_V1, cp_buf = \<lparr>b_data = replicate 64 0 @ [5, 6], b_offset = 64, b_size = 2, b_capacity = 66, b_flags = Some 0\<rparr>\<rparr>"

definition buf_put_front :: "byte list \<Rightarrow> buffer \<Rightarrow> buffer" where
  "buf_put_front bs b = b\<lparr>b_offset := b_offset b - length bs, b_size := b_size b + length bs, b_data := overwrite (b_offset b - length bs) bs (b_data b)\<rparr>"

lemma buf_put_front_fields [simp]:
  "b_offset (buf_put_front bs b) = b_offset b - length bs" "b_size (buf_put_front bs b) = b_size b + length bs"
  "b_capacity (buf_put_front bs b) = b_capacity b" "b_flags (buf_put_front bs b) = b_flags b"
  by (simp_all add: buf_put_front_def)

lemma buf_put_front_ops:
  assumes "buf_wf b"
  shows "length bs \<le> b_offset b \<Longrightarrow> buf_prepend bs b = Inr (buf_put_front bs b)"
    "0 < b_offset b \<Longrightarrow> buf_push_front v b = Inr (buf_put_front [v] b)"
    "length bs \<le> b_offset b \<Longrightarrow> buf_wf (buf_put_front bs b)"
    "length bs \<le> b_offset b \<Longrightarrow> content (buf_put_front bs b) = bs @ content b"
  using assms poke_front [OF assms, of bs] by (auto simp: buf_prepend_def buf_push_front_def buf_poke_def buf_put_front_def buf_wf_def Let_def)

lemma ex_sender_sends: "\<exists>sent a'. encapsulate ex_env 3 ex_control ex_sender = (Inr sent, a')"
proof -
  let ?b0 = "cp_buf ex_control"
  have w0: "buf_wf ?b0" "b_offset ?b0 = 64" by (simp_all add: ex_control_def buf_wf_def sz_max_def)
  let ?b1 = "buf_put_front (be_bytes 4 (3 :: u32)) ?b0"
  have b1: "ra_prepend_id 3 ?b0 = Inr ?b1" using w0 buf_put_front_ops(1) [OF w0(1)] by (simp add: ra_prepend_id_def)
  let ?b2 = "buf_put_front [1] (buf_put_front (be_bytes 4 (9 :: u32)) (buf_put_front (replicate 8 2) ?b1))"
  let ?c = "ex_sender\<lparr>xmit_acks := \<lparr>ra_data = [], ra_re_acks = [9]\<rparr>\<rparr>" and ?pid = "sent_pid ex_env ex_sender"
  have b2: "prepend_dest_psid_and_acks CONTROL_V1 ?b1 ex_sender = (Inr ?b2, ?c)"
    using w0 by (simp add: buf_put_front_ops prepend_dest_psid_and_acks_def ex_sender_def ra_acks_ready_def ex_psid_def psid_prepend_def
      ra_prepend_def ra_prepend_id_def ra_prepend_again.simps maximum_acks_control_v1_def maximum_acks_ack_v1_def CONTROL_V1_def ACK_V1_def
      ra_add_ack_to_reack_def Let_def)
  let ?b3 = "buf_put_front (be_bytes 4 (pc_id ?pid)) (buf_put_front (be_bytes 4 (word_of_int (pc_time ?pid) :: u32)) ?b2)"
  have w3: "buf_wf ?b3" "b_offset ?b3 = 39" using w0 by (simp_all add: buf_put_front_ops)
  obtain ps where p: "pcs_write_next (we_junk ex_env) True (we_seconds ex_env) (ta_pid_send (ct_proto ?c)) ?b2 = (Inr ?b3, ps)"
    using w0 by (auto simp: pcs_write_next_def sent_pid_def pc_write_def buf_put_front_ops case_prod_beta)
  have hs: "hmac_size ?c = 2" by (simp add: ex_sender_def ex_ct_def)
  let ?b4 = "?b3\<lparr>b_offset := 37, b_size := b_size ?b3 + 2\<rparr>"
  have al: "buf_prepend_alloc 2 ?b3 = Inr ?b4" using w3(2) by (simp add: buf_prepend_alloc_def)
  obtain xs where w4: "buf_wf ?b4" "length xs = 2" "content ?b4 = xs @ content ?b3"
    by (rule buf_prepend_alloc_Inr [OF w3(1) al]) (auto simp: sz_max_def)
  let ?b6 = "buf_put_front [op_compose CONTROL_V1 (key_id (ct_key ?c))] (buf_put_front (replicate 8 1) ?b4)"
  have w6: "buf_wf ?b6" using w4(1) by (simp add: buf_put_front_ops)
  have "content ?b6 = (op_compose CONTROL_V1 (key_id (ct_key ?c)) # replicate 8 1) @ xs @ pid_bytes ?pid @ content ?b2"
    using w0 w4 by (simp add: buf_put_front_ops pid_bytes_def)
  from ovpn_hmac_gen_eq [OF w6 this, of ex_digest "fst (ta_hmac_keys ?c)"] w4(2)
  obtain b7 where "ovpn_hmac_gen ex_digest (fst (ta_hmac_keys ?c)) (b_offset ?b6) (b_size ?b6) 9 2 8 ?b6 = Inr b7"
    by (auto simp: ex_digest_def digest_ok_def)
  moreover have "psid_prepend (psid_self ?c) ?b4 = Inr (buf_put_front (replicate 8 1) ?b4)"
    using w4(1) by (simp add: psid_prepend_def ex_sender_def ex_ct_def ex_psid_def buf_put_front_ops)
  ultimately have "gen_head_tls_auth ex_env CONTROL_V1 ?b2 ?c = (Inr b7, ?c\<lparr>ct_proto := (ct_proto ?c)\<lparr>ta_pid_send := ps\<rparr>\<rparr>)"
    using p al w4(1) by (simp add: gen_head_tls_auth_def hs buf_put_front_ops PSID_SIZE_def pc_idsize_def ex_env_def)
  moreover have "cp_opcode ex_control = CONTROL_V1" "pc_wrap_mode (ct_proto ?c) = TLS_AUTH" by (simp_all add: ex_control_def ex_sender_def ex_ct_def)
  ultimately show ?thesis by (simp add: encapsulate_def b1 b2 gen_head_def)
qed

lemma ex_fresh: "fst (ct_test_add (arriving_pid ex_env ex_sender) (we_seconds ex_env) False (ex_ct TLS_AUTH (ex_psid 2))) = Inr True"
proof -
  let ?p = "arriving_pid ex_env ex_sender" and ?o = PacketIDControlReceive_order and ?x = PacketIDControlReceive_expire
  have p: "?p = \<lparr>pc_id = 1, pc_time = 1004\<rparr>"
    by (simp add: arriving_pid_def sent_pid_def ex_sender_def ex_ct_def ex_pc_def pcs_init_def pcs_next_def we_seconds_def ex_env_def tm_seconds_since_epoch_def Let_def)
  have o: "?o + 3 < 32" by (simp add: PacketIDControlReceive_order_def)
  obtain e s' t' where "pcr_do_test_add ?o ?x ?p (we_seconds ex_env) False (pcr_init ?o) = Inr (e, s')"
    "spec_step (2 ^ (?o + 3)) ?x spec_init (pc_time ?p, unat (pc_id ?p), we_seconds ex_env, False) = (e, t')"
    using pcr_do_test_add_refines [OF pcr_rel_init [OF o], of ?x ?p "we_seconds ex_env" False] by blast
  then show ?thesis by (auto simp: p spec_init_def spec_defs ct_test_add_def ex_ct_def pcr_test_add_def split: if_splits)
qed

theorem control_round_trip_witness:
  "\<exists>sent a' pkt' b' acks. encapsulate ex_env 3 ex_control ex_sender = (Inr sent, a') \<and> content (cp_buf pkt') = content (cp_buf sent)
     \<and> decapsulate ex_env pkt' (ex_ct TLS_AUTH (ex_psid 2)) = (Inr True, b') \<and> 9 \<in> set acks
     \<and> delivered CONTROL_V1 3 [5, 6] acks (ex_ct TLS_AUTH (ex_psid 2)) b'"
proof -
  let ?b = "ex_ct TLS_AUTH (ex_psid 2)"
  obtain sent a' where e: "encapsulate ex_env 3 ex_control ex_sender = (Inr sent, a')" using ex_sender_sends by blast
  have pk: "buf_wf (cp_buf ex_control)" "content (cp_buf ex_control) = [5, 6]" "cp_opcode ex_control = CONTROL_V1"
    by (simp_all add: ex_control_def buf_wf_def content_def sz_max_def)
  have ops: "CONTROL_V1 \<notin> {ACK_V1, CONTROL_HARD_RESET_CLIENT_V3, CONTROL_WKC_V1}"
    by (simp add: CONTROL_V1_def ACK_V1_def CONTROL_HARD_RESET_CLIENT_V3_def CONTROL_WKC_V1_def)
  have rd: "send_ready ex_env ex_sender" using ex_env_ok ex_ct_ok [of TLS_AUTH "ex_psid 1"]
    by (simp add: send_ready_def ct_ok_def ex_sender_def ex_ct_def ex_psid_def ex_env_def ex_cipher_def)
  have pe: "peers ex_env ex_env ex_sender ?b"
    by (auto simp: peers_def ex_sender_def ex_ct_def ex_psid_def psid_reset_def psid_match_def ex_env_def ex_cipher_def xor.assoc ex_pc_def comp_def)
  obtain b where b: "sent = ex_control\<lparr>cp_buf := b\<rparr>" "wrapped ex_env ex_sender (wire_head CONTROL_V1 ex_sender) (control_body CONTROL_V1 3 [5, 6] ex_sender) (content b)"
    using encapsulate_wrapped [OF rd pk(1) e] ops unfolding pk by auto
  have "length (content b) \<le> 66" using b(2) acks_of_facts(1) [of "CONTROL_V1 = ACK_V1" "xmit_acks ex_sender"]
    by (auto simp: wrapped_def control_body_def wire_head_def ex_sender_def ex_ct_def ex_psid_def ex_env_def ex_digest_def Let_def split: prod.splits)
  let ?pkt = "\<lparr>cp_opcode = CONTROL_V1, cp_buf = buf_alloc_data (\<lambda>_. 0) (content b) 0\<rparr>"
  have f: "packet_fits ex_env ?pkt" "content (cp_buf ?pkt) = content (cp_buf sent)" "cp_opcode ?pkt = cp_opcode sent"
    using buf_alloc_data_ok [of "content b" "\<lambda>_. 0" 0] \<open>length (content b) \<le> 66\<close> ops
    by (simp_all add: packet_fits_def sz_max_def ex_env_def DECRYPT_WORK_def fc_ctor_def fc_recalc_derived_def Let_def b(1) pk(3))
  have w: "mw_wf (rel_recv ?b)" "mw_in_window (rel_recv ?b) 3" by (simp_all add: ex_ct_def rr_init_def mw_init_def mw_wf_def mw_in_window_def)
  obtain b' acks where "decapsulate ex_env ?pkt ?b = (Inr True, b') \<and> set (take 4 (ra_data (xmit_acks ex_sender))) \<subseteq> set acks
      \<and> delivered CONTROL_V1 3 [5, 6] acks ?b b'"
    using control_round_trip [OF rd pk(1) e _ _ pe ex_env_ok ex_ct_ok ex_ct_known f(1,3,2) _ w] ops ex_fresh by (auto simp: pk)
  moreover have "ra_data (xmit_acks ex_sender) = [9]" by (simp add: ex_sender_def)
  ultimately show ?thesis using e f(2) by (intro exI [of _ sent] exI [of _ a'] exI [of _ ?pkt] exI [of _ b'] exI [of _ acks]) simp
qed

end
