(* ===== verification/Lzo_Asym.thy ===== *)
theory Lzo_Asym
  imports OV_Prelude
begin

text \<open>
  The decompressor of \<^verbatim>\<open>compress/lzoasym_impl.hpp\<close>, which unpacks what a peer sends: the labels of
  \<open>lzo1x_decompress_safe\<close> as the states of a machine, pointers as offsets into the input and the output
  array. A read or write outside of the arrays is \<open>undefined_behaviour\<close>.
\<close>

section \<open>Return values and constants\<close>

datatype lzo_code =
    LZOASYM_E_OK
  | LZOASYM_E_EOF_NOT_FOUND
  | LZOASYM_E_INPUT_NOT_CONSUMED
  | LZOASYM_E_INPUT_OVERFLOW
  | LZOASYM_E_OUTPUT_OVERFLOW
  | LZOASYM_E_MATCH_OVERFLOW
  | LZOASYM_E_ASSERT_FAILED
  | LZOASYM_E_INPUT_TOO_LARGE

definition LZOASYM_M2_MAX_OFFSET :: nat where "LZOASYM_M2_MAX_OFFSET = 0x0800"

text \<open>Conversion to a 32-bit \<open>int\<close>.\<close>

definition c_int :: "int \<Rightarrow> int" where
  "c_int i = signed_take_bit 31 i"

section \<open>The copy with overlap\<close>

text \<open>
  \<open>incremental_copy\<close> in an array: the pattern between \<open>src\<close> and \<open>dest\<close> is copied behind itself, twice as much
  in each round. \<open>memcpy\<close> is undefined outside of the array and for areas that overlap. With a distance
  of 0 the loop changes nothing and does not end: \<open>None\<close>.
\<close>

function incremental_copy_loop :: "byte list \<Rightarrow> nat \<Rightarrow> nat \<Rightarrow> nat \<Rightarrow> int \<Rightarrow> byte list option result" where
  "incremental_copy_loop out dest src copylen len =
     (if len > 0
      then if copylen = 0 then Inr None
           else let n = min (nat len) copylen
                in if dest + n \<le> length out \<and> src + n \<le> dest
                   then incremental_copy_loop (overwrite dest (take n (drop src out)) out) (dest + copylen) src (copylen * 2) (len - int copylen)
                   else Inl undefined_behaviour
      else Inr (Some out))"
  by pat_completeness auto
termination
  by (relation "measure (\<lambda>(_, _, _, _, len). nat len)") auto

declare incremental_copy_loop.simps [simp del]

definition incremental_copy :: "byte list \<Rightarrow> nat \<Rightarrow> nat \<Rightarrow> nat \<Rightarrow> byte list option result" where
  "incremental_copy out dest src len = incremental_copy_loop out dest src (dest - src) (int len)"

text \<open>The slow version the comment of the source gives: byte by byte.\<close>

fun bytewise_copy :: "byte list \<Rightarrow> nat \<Rightarrow> nat \<Rightarrow> nat \<Rightarrow> byte list" where
  "bytewise_copy out dest src 0 = out"
| "bytewise_copy out dest src (Suc len) = bytewise_copy (out[dest := out ! src]) (Suc dest) (Suc src) len"

section \<open>The machine\<close>

record lzo =
  lz_ip :: nat
  lz_op :: nat
  lz_out :: "byte list"

datatype lzo_label =
    Lz_loop
  | Lz_initial_literal
  | Lz_match nat
  | Lz_match_complete
  | Lz_match_continue nat

datatype lzo_next =
    Lz_goto lzo_label lzo
  | Lz_return lzo_code nat lzo
  | Lz_spin

text \<open>The exits: all but the last two report the output written so far.\<close>

definition lz_fail :: "lzo_code \<Rightarrow> lzo \<Rightarrow> lzo_next result" where
  "lz_fail c s = Inr (Lz_return c (lz_op s) s)"

definition lz_assert_fail :: "lzo \<Rightarrow> lzo_next result" where
  "lz_assert_fail s = Inr (Lz_return LZOASYM_E_ASSERT_FAILED 0 s)"

definition lz_input_short :: "nat \<Rightarrow> nat \<Rightarrow> nat \<Rightarrow> bool" where
  "lz_input_short n ip x \<longleftrightarrow> c_int (int n - int ip) < c_int (int x)"

definition lz_output_short :: "nat \<Rightarrow> nat \<Rightarrow> nat \<Rightarrow> bool" where
  "lz_output_short cap op x \<longleftrightarrow> c_int (int cap - int op) < c_int (int x)"

definition lz_match_bad :: "int \<Rightarrow> lzo \<Rightarrow> bool" where
  "lz_match_bad m s \<longleftrightarrow> m < 0 \<or> m \<ge> int (lz_op s)"

definition lz_more :: "nat \<Rightarrow> nat \<Rightarrow> lzo \<Rightarrow> bool" where
  "lz_more n cap s \<longleftrightarrow> lz_ip s < n \<and> lz_op s \<le> cap"

text \<open>\<open>*input_ptr++\<close>\<close>

definition lz_get :: "byte list \<Rightarrow> lzo \<Rightarrow> (nat \<times> lzo) result" where
  "lz_get mem s = (if lz_ip s < length mem then Inr (unat (mem ! lz_ip s), s\<lparr>lz_ip := lz_ip s + 1\<rparr>) else Inl undefined_behaviour)"

text \<open>\<open>get_u16\<close> and the step over it\<close>

definition lz_get_u16 :: "byte list \<Rightarrow> lzo \<Rightarrow> (nat \<times> lzo) result" where
  "lz_get_u16 mem s = bindR (lz_get mem s) (\<lambda>(a, s1). bindR (lz_get mem s1) (\<lambda>(b, s2). Inr (a OR push_bit 8 b, s2)))"

text \<open>\<open>*output_ptr++ = *input_ptr++\<close> and \<open>*output_ptr++ = *match_ptr++\<close>\<close>

definition lz_put :: "byte \<Rightarrow> lzo \<Rightarrow> lzo result" where
  "lz_put v s = (if lz_op s < length (lz_out s) then Inr (s\<lparr>lz_out := (lz_out s)[lz_op s := v], lz_op := lz_op s + 1\<rparr>) else Inl undefined_behaviour)"

definition lz_copy_byte :: "byte list \<Rightarrow> lzo \<Rightarrow> lzo result" where
  "lz_copy_byte mem s = bindR (lz_get mem s) (\<lambda>(v, s1). lz_put (of_nat v) s1)"

fun lz_copy_bytes :: "byte list \<Rightarrow> nat \<Rightarrow> lzo \<Rightarrow> lzo result" where
  "lz_copy_bytes mem 0 s = Inr s"
| "lz_copy_bytes mem (Suc k) s = bindR (lz_copy_byte mem s) (\<lambda>s1. lz_copy_bytes mem k s1)"

fun lz_copy_match :: "nat \<Rightarrow> nat \<Rightarrow> lzo \<Rightarrow> lzo result" where
  "lz_copy_match m 0 s = Inr s"
| "lz_copy_match m (Suc k) s = (if m < length (lz_out s) then bindR (lz_put (lz_out s ! m) s) (\<lambda>s1. lz_copy_match (m + 1) k s1) else Inl undefined_behaviour)"

text \<open>\<open>memcpy\<close> of literal data\<close>

definition lz_memcpy :: "byte list \<Rightarrow> nat \<Rightarrow> lzo \<Rightarrow> lzo result" where
  "lz_memcpy mem len s =
     (if lz_ip s + len \<le> length mem \<and> lz_op s + len \<le> length (lz_out s)
      then Inr (s\<lparr>lz_out := overwrite (lz_op s) (take len (drop (lz_ip s) mem)) (lz_out s), lz_ip := lz_ip s + len, lz_op := lz_op s + len\<rparr>)
      else Inl undefined_behaviour)"

text \<open>A length that continues in the next bytes: \<open>None\<close> when the input ends before it does.\<close>

function lz_extend :: "byte list \<Rightarrow> nat \<Rightarrow> nat \<Rightarrow> nat \<Rightarrow> lzo \<Rightarrow> (nat \<times> lzo) option result" where
  "lz_extend mem n base z s =
     (if lz_input_short n (lz_ip s) 1 then Inr None
      else if lz_ip s \<ge> length mem then Inl undefined_behaviour
      else if mem ! lz_ip s = 0 then lz_extend mem n base (z + 255) (s\<lparr>lz_ip := lz_ip s + 1\<rparr>)
      else Inr (Some (z + (base + unat (mem ! lz_ip s)), s\<lparr>lz_ip := lz_ip s + 1\<rparr>)))"
  by pat_completeness auto
termination
  by (relation "measure (\<lambda>(mem, _, _, _, s). length mem - lz_ip s)") auto

declare lz_extend.simps [simp del]

definition lz_length :: "byte list \<Rightarrow> nat \<Rightarrow> nat \<Rightarrow> nat \<Rightarrow> lzo \<Rightarrow> (nat \<times> lzo) option result" where
  "lz_length mem n base z s = (if z = 0 then lz_extend mem n base z s else Inr (Some (z, s)))"

section \<open>The parts of the loop\<close>

text \<open>The literal run and the label \<open>initial_literal\<close>.\<close>

definition lz_literal :: "byte list \<Rightarrow> nat \<Rightarrow> nat \<Rightarrow> nat \<Rightarrow> lzo \<Rightarrow> lzo_next result" where
  "lz_literal mem n cap z s =
     (if \<not> z > 0 then lz_assert_fail s
      else let len = z + 3
           in if lz_output_short cap (lz_op s) len then lz_fail LZOASYM_E_OUTPUT_OVERFLOW s
              else if lz_input_short n (lz_ip s) (len + 1) then lz_fail LZOASYM_E_INPUT_OVERFLOW s
              else bindR (lz_memcpy mem len s) (\<lambda>s1. Inr (Lz_goto Lz_initial_literal s1)))"

definition lz_loop :: "byte list \<Rightarrow> nat \<Rightarrow> nat \<Rightarrow> lzo \<Rightarrow> lzo_next result" where
  "lz_loop mem n cap s =
     (if \<not> lz_more n cap s then lz_fail LZOASYM_E_EOF_NOT_FOUND s
      else bindR (lz_get mem s) (\<lambda>(z, s1).
           if z < 16
           then bindR (lz_length mem n 15 z s1) (\<lambda>r.
                case r of
                  None \<Rightarrow> lz_fail LZOASYM_E_INPUT_OVERFLOW s1
                | Some (z', s2) \<Rightarrow> lz_literal mem n cap z' s2)
           else Inr (Lz_goto (Lz_match z) s1)))"

text \<open>A match of two or three bytes, copied one by one.\<close>

definition lz_short_match :: "nat \<Rightarrow> int \<Rightarrow> nat \<Rightarrow> lzo \<Rightarrow> lzo_next result" where
  "lz_short_match cap m k s =
     (if lz_match_bad m s then lz_fail LZOASYM_E_MATCH_OVERFLOW s
      else if lz_output_short cap (lz_op s) k then lz_fail LZOASYM_E_OUTPUT_OVERFLOW s
      else bindR (lz_copy_match (nat m) k s) (\<lambda>s1. Inr (Lz_goto Lz_match_complete s1)))"

definition lz_initial_literal :: "byte list \<Rightarrow> nat \<Rightarrow> nat \<Rightarrow> lzo \<Rightarrow> lzo_next result" where
  "lz_initial_literal mem n cap s =
     bindR (lz_get mem s) (\<lambda>(z, s1).
       if z < 16
       then bindR (lz_get mem s1) (\<lambda>(b, s2).
              lz_short_match cap (int (lz_op s) - int (1 + LZOASYM_M2_MAX_OFFSET) - int (drop_bit 2 z) - int (push_bit 2 b)) 3 s2)
       else Inr (Lz_goto (Lz_match z) s1))"

text \<open>Copying a match of any length.\<close>

definition lz_long_match :: "nat \<Rightarrow> int \<Rightarrow> nat \<Rightarrow> lzo \<Rightarrow> lzo_next result" where
  "lz_long_match cap m z s =
     (if lz_match_bad m s then lz_fail LZOASYM_E_MATCH_OVERFLOW s
      else if \<not> z > 0 then lz_assert_fail s
      else if lz_output_short cap (lz_op s) (z + 3 - 1) then lz_fail LZOASYM_E_OUTPUT_OVERFLOW s
      else bindR (incremental_copy (lz_out s) (lz_op s) (nat m) (z + 2)) (\<lambda>r.
           case r of
             None \<Rightarrow> Inr Lz_spin
           | Some out \<Rightarrow> Inr (Lz_goto Lz_match_complete (s\<lparr>lz_out := out, lz_op := lz_op s + (z + 2)\<rparr>))))"

text \<open>The end marker: a match of type M4 with distance 0.\<close>

definition lz_success :: "nat \<Rightarrow> nat \<Rightarrow> lzo \<Rightarrow> lzo_next result" where
  "lz_success n z s =
     (if z \<noteq> 1 then lz_assert_fail s
      else lz_fail (if lz_ip s = n then LZOASYM_E_OK
                    else if lz_ip s < n then LZOASYM_E_INPUT_NOT_CONSUMED else LZOASYM_E_INPUT_OVERFLOW) s)"

definition lz_match :: "byte list \<Rightarrow> nat \<Rightarrow> nat \<Rightarrow> nat \<Rightarrow> lzo \<Rightarrow> lzo_next result" where
  "lz_match mem n cap z s =
     (if z \<ge> 64
      then bindR (lz_get mem s) (\<lambda>(b, s1).
             lz_long_match cap (int (lz_op s) - 1 - int (drop_bit 2 z AND 7) - int (push_bit 3 b)) (drop_bit 5 z - 1) s1)
      else if z \<ge> 32
      then bindR (lz_length mem n 31 (z AND 31) s) (\<lambda>r.
           case r of
             None \<Rightarrow> lz_fail LZOASYM_E_INPUT_OVERFLOW s
           | Some (z', s1) \<Rightarrow>
               bindR (lz_get_u16 mem s1) (\<lambda>(d, s2). lz_long_match cap (int (lz_op s) - 1 - int (drop_bit 2 d)) z' s2))
      else if z \<ge> 16
      then bindR (lz_length mem n 7 (z AND 7) s) (\<lambda>r.
           case r of
             None \<Rightarrow> lz_fail LZOASYM_E_INPUT_OVERFLOW s
           | Some (z', s1) \<Rightarrow>
               bindR (lz_get_u16 mem s1) (\<lambda>(d, s2).
                 let m = int (lz_op s) - int (push_bit 11 (z AND 8)) - int (drop_bit 2 d)
                 in if m = int (lz_op s) then lz_success n z' s2
                    else lz_long_match cap (m - 0x4000) z' s2))
      else bindR (lz_get mem s) (\<lambda>(b, s1).
             lz_short_match cap (int (lz_op s) - 1 - int (drop_bit 2 z) - int (push_bit 2 b)) 2 s1))"

definition lz_match_complete :: "byte list \<Rightarrow> lzo \<Rightarrow> lzo_next result" where
  "lz_match_complete mem s =
     (if 2 \<le> lz_ip s \<and> lz_ip s - 2 < length mem
      then let z = unat (mem ! (lz_ip s - 2)) AND 3
           in Inr (Lz_goto (if z = 0 then Lz_loop else Lz_match_continue z) s)
      else Inl undefined_behaviour)"

definition lz_match_continue :: "byte list \<Rightarrow> nat \<Rightarrow> nat \<Rightarrow> nat \<Rightarrow> lzo \<Rightarrow> lzo_next result" where
  "lz_match_continue mem n cap z s =
     (if \<not> z > 0 \<or> \<not> z < 4 then lz_assert_fail s
      else if lz_output_short cap (lz_op s) z then lz_fail LZOASYM_E_OUTPUT_OVERFLOW s
      else if lz_input_short n (lz_ip s) (z + 1) then lz_fail LZOASYM_E_INPUT_OVERFLOW s
      else bindR (lz_copy_byte mem s) (\<lambda>s1.
           bindR (if z > 1 then lz_copy_byte mem s1 else Inr s1) (\<lambda>s2.
           bindR (if z > 2 then lz_copy_byte mem s2 else Inr s2) (\<lambda>s3.
           bindR (lz_get mem s3) (\<lambda>(z', s4).
             Inr (Lz_goto (if lz_more n cap s4 then Lz_match z' else Lz_loop) s4))))))"

fun lz_step :: "byte list \<Rightarrow> nat \<Rightarrow> nat \<Rightarrow> lzo_label \<Rightarrow> lzo \<Rightarrow> lzo_next result" where
  "lz_step mem n cap Lz_loop s = lz_loop mem n cap s"
| "lz_step mem n cap Lz_initial_literal s = lz_initial_literal mem n cap s"
| "lz_step mem n cap (Lz_match z) s = lz_match mem n cap z s"
| "lz_step mem n cap Lz_match_complete s = lz_match_complete mem s"
| "lz_step mem n cap (Lz_match_continue z) s = lz_match_continue mem n cap z s"

section \<open>The function\<close>

text \<open>
  \<open>lz_run\<close> takes steps until a \<open>return\<close>; \<open>None\<close> is a run that does not return. \<open>mem\<close> is the memory from the input
  pointer on, \<open>out\<close> the output array, of which the first \<open>cap\<close> bytes may be used.
\<close>

fun lz_run :: "byte list \<Rightarrow> nat \<Rightarrow> nat \<Rightarrow> nat \<Rightarrow> lzo_next result \<Rightarrow> (lzo_code \<times> nat \<times> byte list) result option" where
  "lz_run mem n cap fuel (Inl e) = Some (Inl e)"
| "lz_run mem n cap fuel (Inr (Lz_return c len s)) = Some (Inr (c, len, lz_out s))"
| "lz_run mem n cap fuel (Inr Lz_spin) = None"
| "lz_run mem n cap 0 (Inr (Lz_goto l s)) = None"
| "lz_run mem n cap (Suc fuel) (Inr (Lz_goto l s)) = lz_run mem n cap fuel (lz_step mem n cap l s)"

definition lz_start :: "byte list \<Rightarrow> nat \<Rightarrow> nat \<Rightarrow> byte list \<Rightarrow> lzo_next result" where
  "lz_start mem n cap out =
     (let s = \<lparr>lz_ip = 0, lz_op = 0, lz_out = out\<rparr>
      in if n > 65536 then Inr (Lz_return LZOASYM_E_INPUT_TOO_LARGE 0 s)
         else bindR (lz_get mem s) (\<lambda>(b, s1).
              if b \<le> 17 then Inr (Lz_goto Lz_loop s)
              else let z = b - 17
                   in if z < 4 then Inr (Lz_goto (Lz_match_continue z) s1)
                      else if \<not> z > 0 then lz_assert_fail s1
                      else if lz_output_short cap (lz_op s1) z then lz_fail LZOASYM_E_OUTPUT_OVERFLOW s1
                      else if lz_input_short n (lz_ip s1) (z + 1) then lz_fail LZOASYM_E_INPUT_OVERFLOW s1
                      else bindR (lz_copy_bytes mem z s1) (\<lambda>s2. Inr (Lz_goto Lz_initial_literal s2))))"

definition lzo1x_decompress_safe :: "byte list \<Rightarrow> nat \<Rightarrow> byte list \<Rightarrow> nat \<Rightarrow> (lzo_code \<times> nat \<times> byte list) result option" where
  "lzo1x_decompress_safe mem n out cap = lz_run mem n cap (2 * length mem + 2) (lz_start mem n cap out)"

section \<open>Every run returns\<close>

lemma incremental_copy_loop_ends: "0 < copylen \<Longrightarrow> incremental_copy_loop out dest src copylen len \<noteq> Inr None"
proof (induction out dest src copylen len rule: incremental_copy_loop.induct)
  case (1 out dest src copylen len)
  then show ?case by (subst incremental_copy_loop.simps) (auto simp: Let_def)
qed

lemma lz_get_Inr: "lz_get mem s = Inr (z, s') \<longleftrightarrow> lz_ip s < length mem \<and> z = unat (mem ! lz_ip s) \<and> s' = s\<lparr>lz_ip := lz_ip s + 1\<rparr>"
  by (auto simp: lz_get_def)

lemma lz_put_Inr: "lz_put v s = Inr s' \<longleftrightarrow> lz_op s < length (lz_out s) \<and> s' = s\<lparr>lz_out := (lz_out s)[lz_op s := v], lz_op := lz_op s + 1\<rparr>"
  by (auto simp: lz_put_def)

lemma lz_extend_Inr:
  "lz_extend mem n base z s = Inr (Some (z', s')) \<Longrightarrow>
     \<exists>k. s' = s\<lparr>lz_ip := k\<rparr> \<and> lz_ip s < k \<and> k \<le> length mem \<and> z' \<le> z + base + 255 * (k - lz_ip s) \<and> \<not> lz_input_short n (k - 1) 1"
proof (induction mem n base z s rule: lz_extend.induct)
  case (1 mem n base z s)
  show ?case
  proof (cases "mem ! lz_ip s = 0")
    case True
    have "lz_extend mem n base (z + 255) (s\<lparr>lz_ip := lz_ip s + 1\<rparr>) = Inr (Some (z', s'))" "\<not> lz_input_short n (lz_ip s) 1" "\<not> lz_ip s \<ge> length mem"
      using "1.prems" True by (subst (asm) lz_extend.simps; auto split: if_splits)+
    from "1.IH" [OF this(2,3) True this(1)] show ?thesis by (auto simp: algebra_simps Suc_le_eq)
  next
    case False
    have "unat (mem ! lz_ip s) \<le> 255" using unsigned_less [of "mem ! lz_ip s", where 'a = nat] by simp
    then show ?thesis using "1.prems" False by (subst (asm) lz_extend.simps) (auto split: if_splits)
  qed
qed

lemma lz_length_Inr:
  assumes "lz_length mem n base z s = Inr (Some (z', s'))"
  shows "\<exists>k. s' = s\<lparr>lz_ip := k\<rparr> \<and> lz_ip s \<le> k \<and> (lz_ip s < k \<longrightarrow> k \<le> length mem \<and> \<not> lz_input_short n (k - 1) 1)
    \<and> z' \<le> z + base + 255 * (k - lz_ip s)"
proof (cases "z = 0")
  case True
  then show ?thesis using assms lz_extend_Inr [of mem n base z s z' s'] by (auto simp: lz_length_def)
next
  case False
  then show ?thesis using assms by (auto simp: lz_length_def intro!: exI [of _ "lz_ip s"])
qed

text \<open>Progress: a step reads input, or leaves \<open>match_complete\<close>.\<close>

definition lz_measure :: "byte list \<Rightarrow> lzo_label \<Rightarrow> lzo \<Rightarrow> nat" where
  "lz_measure mem l s = 2 * (length mem - lz_ip s) + (if l = Lz_match_complete then 1 else 0)"

lemma lz_copy_byte_Inr:
  "lz_copy_byte mem s = Inr s' \<Longrightarrow> lz_ip s < length mem \<and> lz_op s < length (lz_out s)
     \<and> s' = s\<lparr>lz_ip := lz_ip s + 1, lz_out := (lz_out s)[lz_op s := mem ! lz_ip s], lz_op := lz_op s + 1\<rparr>"
  by (auto simp: lz_copy_byte_def bindR_eq_Inr lz_get_Inr lz_put_Inr)

text \<open>Byte by byte or at once: input and output are different arrays.\<close>

lemma lz_copy_bytes_memcpy:
  "0 < k \<or> lz_ip s \<le> length mem \<and> lz_op s \<le> length (lz_out s) \<Longrightarrow> lz_copy_bytes mem k s = lz_memcpy mem k s"
proof (induction k arbitrary: s)
  case 0
  then show ?case by (simp add: lz_memcpy_def overwrite_def)
next
  case (Suc k)
  let ?s = "s\<lparr>lz_ip := Suc (lz_ip s), lz_out := (lz_out s)[lz_op s := mem ! lz_ip s], lz_op := Suc (lz_op s)\<rparr>"
  show ?case
  proof (cases "lz_ip s < length mem \<and> lz_op s < length (lz_out s)")
    case True
    have c: "lz_copy_byte mem s = Inr ?s" using True by (simp add: lz_copy_byte_def lz_get_def lz_put_def)
    have "lz_copy_bytes mem k ?s = lz_memcpy mem k ?s" using True by (intro Suc.IH) auto
    moreover have "overwrite (Suc (lz_op s)) (take k (drop (Suc (lz_ip s)) mem)) ((lz_out s)[lz_op s := mem ! lz_ip s])
        = overwrite (lz_op s) (take (Suc k) (drop (lz_ip s) mem)) (lz_out s)" if "lz_op s + Suc k \<le> length (lz_out s)" "lz_ip s + Suc k \<le> length mem"
    proof -
      have "take (Suc k) (drop (lz_ip s) mem) = mem ! lz_ip s # take k (drop (Suc (lz_ip s)) mem)"
        using True by (simp add: Cons_nth_drop_Suc [symmetric])
      then show ?thesis using True that by (simp add: overwrite_def upd_conv_take_nth_drop take_Suc_conv_app_nth add.commute)
    qed
    ultimately show ?thesis using c True by (auto simp: lz_memcpy_def)
  next
    case False
    then show ?thesis by (auto simp: lz_memcpy_def lz_copy_byte_def lz_get_def lz_put_def)
  qed
qed

lemma lz_match_continue_eq:
  "lz_match_continue mem n cap z s =
     (if \<not> z > 0 \<or> \<not> z < 4 then lz_assert_fail s
      else if lz_output_short cap (lz_op s) z then lz_fail LZOASYM_E_OUTPUT_OVERFLOW s
      else if lz_input_short n (lz_ip s) (z + 1) then lz_fail LZOASYM_E_INPUT_OVERFLOW s
      else bindR (lz_memcpy mem z s) (\<lambda>s3. bindR (lz_get mem s3) (\<lambda>(z', s4).
             Inr (Lz_goto (if lz_more n cap s4 then Lz_match z' else Lz_loop) s4))))"
proof (cases "0 < z \<and> z < 4")
  case True
  then consider "z = 1" | "z = 2" | "z = 3" by linarith
  then have "bindR (lz_copy_byte mem s) (\<lambda>s1. bindR (if z > 1 then lz_copy_byte mem s1 else Inr s1) (\<lambda>s2.
     bindR (if z > 2 then lz_copy_byte mem s2 else Inr s2) f)) = bindR (lz_copy_bytes mem z s) f" for f :: "lzo \<Rightarrow> lzo_next result"
    by cases (auto simp: numeral_eq_Suc bindR_def split: sum.splits)
  then show ?thesis using lz_copy_bytes_memcpy [of z s mem] True unfolding lz_match_continue_def by simp
qed (simp add: lz_match_continue_def)

lemma lz_memcpy_Inr:
  "lz_memcpy mem k s = Inr s' \<longleftrightarrow> lz_ip s + k \<le> length mem \<and> lz_op s + k \<le> length (lz_out s)
     \<and> s' = s\<lparr>lz_out := overwrite (lz_op s) (take k (drop (lz_ip s) mem)) (lz_out s), lz_ip := lz_ip s + k, lz_op := lz_op s + k\<rparr>"
  by (auto simp: lz_memcpy_def)

lemma lz_copy_match_ip: "lz_copy_match m k s = Inr s' \<Longrightarrow> lz_ip s' = lz_ip s"
  by (induction m k s rule: lz_copy_match.induct) (auto simp: bindR_eq_Inr lz_put_Inr split: if_splits)

lemma lz_short_match_next:
  "lz_short_match cap m k s = Inr r \<Longrightarrow> (\<exists>s'. r = Lz_goto Lz_match_complete s' \<and> lz_ip s' = lz_ip s) \<or> (\<exists>c. r = Lz_return c (lz_op s) s)"
  by (auto simp: lz_short_match_def lz_fail_def bindR_eq_Inr dest: lz_copy_match_ip split: if_splits)

lemma lz_long_match_next:
  assumes "lz_long_match cap m z s = Inr r"
  shows "(\<exists>s'. r = Lz_goto Lz_match_complete s' \<and> lz_ip s' = lz_ip s) \<or> (\<exists>c len. r = Lz_return c len s)"
proof (cases "lz_match_bad m s")
  case False
  then have "incremental_copy (lz_out s) (lz_op s) (nat m) (z + 2) \<noteq> Inr None"
    using incremental_copy_loop_ends [of "lz_op s - nat m"] by (auto simp: lz_match_bad_def incremental_copy_def)
  then show ?thesis using assms False
    by (auto simp: lz_long_match_def lz_fail_def lz_assert_fail_def bindR_eq_Inr split: if_splits option.splits)
qed (use assms in \<open>auto simp: lz_long_match_def lz_fail_def\<close>)

lemma lz_get_u16_Inr: "lz_get_u16 mem s = Inr (d, s') \<Longrightarrow> lz_ip s + 1 < length mem \<and> s' = s\<lparr>lz_ip := lz_ip s + 2\<rparr>"
  by (auto simp: lz_get_u16_def bindR_eq_Inr lz_get_Inr)

text \<open>The outcome of a match: \<open>match_complete\<close> with input read, or a return.\<close>

abbreviation lz_read_on :: "byte list \<Rightarrow> lzo \<Rightarrow> lzo_next \<Rightarrow> bool" where
  "lz_read_on mem s r \<equiv> (\<exists>s'. r = Lz_goto Lz_match_complete s' \<and> lz_ip s < lz_ip s' \<and> lz_ip s < length mem) \<or> (\<exists>c len s'. r = Lz_return c len s')"

lemma lz_long_distance:
  assumes "bindR (lz_length mem n base z s) (\<lambda>r. case r of None \<Rightarrow> lz_fail c s
      | Some (z', s1) \<Rightarrow> bindR (lz_get_u16 mem s1) (\<lambda>(d, s2). f z' d s2)) = Inr r"
    and "\<And>z' d s2 r. f z' d s2 = Inr r \<Longrightarrow> (\<exists>s'. r = Lz_goto Lz_match_complete s' \<and> lz_ip s' = lz_ip s2) \<or> (\<exists>c len s'. r = Lz_return c len s')"
  shows "lz_read_on mem s r"
proof -
  consider "lz_fail c s = Inr r" | z' s1 d s2 where "lz_length mem n base z s = Inr (Some (z', s1))" "lz_get_u16 mem s1 = Inr (d, s2)" "f z' d s2 = Inr r"
    using assms(1) by (auto simp: bindR_eq_Inr split: option.splits)
  then show ?thesis
  proof cases
    case 2
    then show ?thesis using lz_length_Inr [OF 2(1)] lz_get_u16_Inr [OF 2(2)] assms(2) [OF 2(3)] by auto
  qed (auto simp: lz_fail_def)
qed

lemma lz_match_next:
  assumes "lz_match mem n cap z s = Inr r"
  shows "lz_read_on mem s r"
proof -
  have short: "lz_read_on mem s r" if "bindR (lz_get mem s) (\<lambda>(b, s1). f b s1) = Inr r"
    and "\<And>b s1. f b s1 = Inr r \<Longrightarrow> (\<exists>s'. r = Lz_goto Lz_match_complete s' \<and> lz_ip s' = lz_ip s1) \<or> (\<exists>c len s'. r = Lz_return c len s')" for f
    using that by (fastforce simp: bindR_eq_Inr lz_get_Inr)
  consider "z \<ge> 64" | "32 \<le> z" "z < 64" | "16 \<le> z" "z < 32" | "z < 16" by linarith
  then show ?thesis
  proof cases
    case 1
    then show ?thesis using assms by (intro short) (auto simp: lz_match_def dest: lz_long_match_next)
  next
    case 2
    show ?thesis
      by (rule lz_long_distance [OF assms [unfolded lz_match_def if_not_P [OF 2(2) [unfolded not_le [symmetric]]] if_P [OF 2(1)]]])
         (auto dest: lz_long_match_next)
  next
    case 3
    then have "\<not> z \<ge> 64" "\<not> z \<ge> 32" by simp_all
    note d = assms [unfolded lz_match_def if_not_P [OF this(1)] if_not_P [OF this(2)] if_P [OF 3(1)]]
    show ?thesis
      by (rule lz_long_distance [OF d])
         (auto simp: Let_def lz_success_def lz_assert_fail_def lz_fail_def split: if_splits dest: lz_long_match_next)
  next
    case 4
    then show ?thesis using assms by (intro short) (auto simp: lz_match_def dest: lz_short_match_next)
  qed
qed

lemma lz_loop_next:
  assumes "lz_loop mem n cap s = Inr r"
  shows "(\<exists>l' s'. r = Lz_goto l' s' \<and> l' \<noteq> Lz_match_complete \<and> lz_ip s < lz_ip s' \<and> lz_ip s < length mem) \<or> (\<exists>c len s'. r = Lz_return c len s')"
proof -
  have lit: "(\<exists>s'. r = Lz_goto Lz_initial_literal s' \<and> lz_ip s' \<ge> lz_ip s2) \<or> (\<exists>c len s'. r = Lz_return c len s')"
    if "lz_literal mem n cap z' s2 = Inr r" for z' s2
    using that by (auto simp: lz_literal_def lz_fail_def lz_assert_fail_def lz_memcpy_def Let_def split: if_splits)
  consider "\<not> lz_more n cap s" | "lz_more n cap s" "lz_ip s < length mem"
    using assms by (auto simp: lz_loop_def lz_get_def split: if_splits)
  then show ?thesis
  proof cases
    case 2
    let ?z = "unat (mem ! lz_ip s)" and ?s = "s\<lparr>lz_ip := Suc (lz_ip s)\<rparr>"
    show ?thesis
    proof (cases "?z < 16")
      case True
      then obtain q where q: "lz_length mem n 15 ?z ?s = Inr q"
        "(case q of None \<Rightarrow> lz_fail LZOASYM_E_INPUT_OVERFLOW ?s | Some (z', s2) \<Rightarrow> lz_literal mem n cap z' s2) = Inr r"
        using assms 2 unfolding lz_loop_def lz_get_def Suc_eq_plus1 [symmetric] by (auto simp: bindR_eq_Inr)
      show ?thesis
      proof (cases q)
        case (Some p)
        obtain z' s2 where p: "p = (z', s2)" by fastforce
        show ?thesis using lz_length_Inr [of mem n 15 ?z ?s z' s2] lit [of z' s2] q 2(2) unfolding Some p by fastforce
      qed (use q in \<open>auto simp: lz_fail_def\<close>)
    qed (use assms 2 in \<open>auto simp: lz_loop_def lz_get_def\<close>)
  qed (use assms in \<open>auto simp: lz_loop_def lz_fail_def\<close>)
qed

lemma lz_step_next:
  assumes "lz_step mem n cap l s = Inr r"
  shows "(\<exists>l' s'. r = Lz_goto l' s' \<and> lz_measure mem l' s' < lz_measure mem l s) \<or> (\<exists>c len s'. r = Lz_return c len s')"
proof (cases l)
  case Lz_loop
  then show ?thesis using assms lz_loop_next [of mem n cap s r] by (auto simp: lz_measure_def)
next
  case Lz_initial_literal
  then obtain z s1 where g: "lz_get mem s = Inr (z, s1)" using assms by (auto simp: lz_initial_literal_def bindR_eq_Inr)
  show ?thesis
  proof (cases "z < 16")
    case True
    then obtain b s2 m where "lz_get mem s1 = Inr (b, s2)" "lz_short_match cap m 3 s2 = Inr r"
      using assms Lz_initial_literal g by (auto simp: lz_initial_literal_def bindR_eq_Inr)
    then show ?thesis using lz_short_match_next [of cap m 3 s2 r] g Lz_initial_literal by (auto simp: lz_get_Inr lz_measure_def)
  qed (use assms Lz_initial_literal g in \<open>auto simp: lz_initial_literal_def lz_get_Inr lz_measure_def\<close>)
next
  case (Lz_match z)
  then show ?thesis using assms lz_match_next [of mem n cap z s r] by (auto simp: lz_measure_def)
next
  case Lz_match_complete
  then show ?thesis using assms by (auto simp: lz_match_complete_def Let_def lz_measure_def split: if_splits)
next
  case (Lz_match_continue z)
  show ?thesis
  proof (cases "\<exists>c len s'. r = Lz_return c len s'")
    case False
    then obtain s3 z' s4 where "lz_memcpy mem z s = Inr s3" "lz_get mem s3 = Inr (z', s4)"
      "r = Lz_goto (if lz_more n cap s4 then Lz_match z' else Lz_loop) s4"
      using assms Lz_match_continue by (auto simp: lz_match_continue_eq bindR_eq_Inr lz_fail_def lz_assert_fail_def split: if_splits)
    then show ?thesis using Lz_match_continue by (auto simp: lz_measure_def lz_get_Inr lz_memcpy_Inr)
  qed simp
qed

lemma lz_run_returns:
  assumes "\<And>l s. r = Inr (Lz_goto l s) \<Longrightarrow> lz_measure mem l s < fuel" "r \<noteq> Inr Lz_spin"
  shows "\<exists>q. \<forall>k. lz_run mem n cap (fuel + k) r = Some q"
  using assms
proof (induction fuel arbitrary: r)
  case 0
  consider (e) e where "r = Inl e" | (g) l s where "r = Inr (Lz_goto l s)" | (x) c len s where "r = Inr (Lz_return c len s)"
    using "0.prems"(2) by (metis lzo_next.exhaust sum.exhaust)
  then show ?case using "0.prems"(1) by cases auto
next
  case (Suc fuel)
  consider (e) e where "r = Inl e" | (g) l s where "r = Inr (Lz_goto l s)" | (x) c len s where "r = Inr (Lz_return c len s)"
    using Suc.prems(2) by (metis lzo_next.exhaust sum.exhaust)
  then show ?case
  proof cases
    case g
    let ?q = "lz_step mem n cap l s"
    have "lz_measure mem l' s' < fuel" if "?q = Inr (Lz_goto l' s')" for l' s'
      using lz_step_next [OF that] Suc.prems(1) [OF g] by auto
    moreover have "?q \<noteq> Inr Lz_spin" using lz_step_next [of mem n cap l s Lz_spin] by auto
    ultimately show ?thesis using Suc.IH [of ?q] g by simp
  qed auto
qed

section \<open>The copy with overlap is the copy byte by byte\<close>

lemma bytewise_copy_snoc:
  "bytewise_copy out dest src (Suc len) = (bytewise_copy out dest src len)[dest + len := bytewise_copy out dest src len ! (src + len)]"
  by (induction len arbitrary: out dest src) simp_all

lemma length_bytewise_copy [simp]: "length (bytewise_copy out dest src len) = length out"
  by (induction len arbitrary: out dest src) simp_all

lemma bytewise_copy_nth:
  "src < dest \<Longrightarrow> dest + len \<le> length out \<Longrightarrow> j < length out \<Longrightarrow> bytewise_copy out dest src len ! j
     = (if dest \<le> j \<and> j < dest + len then out ! (src + (j - src) mod (dest - src)) else out ! j)"
proof (induction len arbitrary: j)
  case (Suc len)
  have IH: "bytewise_copy out dest src len ! i
     = (if dest \<le> i \<and> i < dest + len then out ! (src + (i - src) mod (dest - src)) else out ! i)" if "i < length out" for i
    using Suc that by simp
  have "(dest + len - src) mod (dest - src) = len mod (dest - src)"
    using Suc.prems(1) mod_add_self1 [of "dest - src" len] by (simp add: add.commute)
  then have "bytewise_copy out dest src len ! (src + len) = out ! (src + (dest + len - src) mod (dest - src))"
    using IH [of "src + len"] Suc.prems by (cases "src + len < dest") (auto simp: mod_less)
  then show ?case using IH [of j] Suc.prems unfolding bytewise_copy_snoc by (auto simp: nth_list_update)
qed auto

lemma overwrite_nth:
  "i + length bs \<le> length xs \<Longrightarrow> j < length xs \<Longrightarrow> overwrite i bs xs ! j = (if i \<le> j \<and> j < i + length bs then bs ! (j - i) else xs ! j)"
  by (auto simp: overwrite_def nth_append min_def)

lemma incremental_copy_loop_nth:
  "0 < copylen \<Longrightarrow> dest = src + copylen \<Longrightarrow> dest + nat len \<le> length out \<Longrightarrow>
     \<exists>out'. incremental_copy_loop out dest src copylen len = Inr (Some out') \<and> length out' = length out
       \<and> (\<forall>j<length out. out' ! j = (if dest \<le> j \<and> j < dest + nat len then out ! (src + (j - src) mod copylen) else out ! j))"
proof (induction out dest src copylen len rule: incremental_copy_loop.induct)
  case (1 out dest src copylen len)
  show ?case
  proof (cases "len > 0")
    case True
    let ?n = "min (nat len) copylen"
    let ?out = "overwrite dest (take ?n (drop src out)) out"
    have n: "dest + ?n \<le> length out" "src + ?n \<le> dest" "length (take ?n (drop src out)) = ?n" using "1.prems" by auto
    have o1: "?out ! j = (if dest \<le> j \<and> j < dest + ?n then out ! (src + (j - dest)) else out ! j)" if "j < length out" for j
    proof -
      have "take ?n (drop src out) ! (j - dest) = out ! (src + (j - dest))" if "dest \<le> j" "j < dest + ?n"
        using that n by (subst nth_take) (auto simp: nth_drop)
      then show ?thesis using overwrite_nth [of dest "take ?n (drop src out)" out j] that n by simp
    qed
    have step: "incremental_copy_loop out dest src copylen len = incremental_copy_loop ?out (dest + copylen) src (copylen * 2) (len - int copylen)"
      using True "1.prems"(1) n by (subst incremental_copy_loop.simps) (auto simp: Let_def)
    show ?thesis
    proof (cases "nat len \<le> copylen")
      case le: True
      then have "incremental_copy_loop out dest src copylen len = Inr (Some ?out)" unfolding step by (subst incremental_copy_loop.simps) auto
      moreover have "(j - src) mod copylen = j - dest" if "dest \<le> j" "j < dest + nat len" for j
        using that le "1.prems"(2) by (simp add: mod_if)
      ultimately show ?thesis using o1 n le by auto
    next
      case gt: False
      then have "dest + copylen + nat (len - int copylen) \<le> length ?out" using "1.prems" n by auto
      from "1.IH" [OF True _ refl _ _ _ this] "1.prems" n obtain out' where
        r: "incremental_copy_loop ?out (dest + copylen) src (copylen * 2) (len - int copylen) = Inr (Some out')" "length out' = length ?out"
        "\<And>j. j < length ?out \<Longrightarrow> out' ! j = (if dest + copylen \<le> j \<and> j < dest + copylen + nat (len - int copylen)
            then ?out ! (src + (j - src) mod (copylen * 2)) else ?out ! j)"
        by auto
      have "out' ! j = (if dest \<le> j \<and> j < dest + nat len then out ! (src + (j - src) mod copylen) else out ! j)" if j: "j < length out" for j
      proof (cases "dest + copylen \<le> j \<and> j < dest + nat len")
        case True
        let ?q = "(j - src) mod (copylen * 2)"
        have lt: "?q < copylen * 2" using "1.prems"(1) by simp
        have "(j - src) mod copylen = ?q mod copylen" using mod_mod_cancel [of copylen "copylen * 2" "j - src"] by simp
        also have "\<dots> = (if ?q < copylen then ?q else ?q - copylen)" using lt by (simp add: mod_if [of ?q copylen])
        finally have q: "(j - src) mod copylen = (if ?q < copylen then ?q else ?q - copylen)" .
        have "out' ! j = ?out ! (src + ?q)" using r(3) [of j] True j n gt by auto
        also have "\<dots> = out ! (src + (j - src) mod copylen)" using o1 [of "src + ?q"] q lt gt "1.prems" by (auto simp: min_def)
        finally show ?thesis using True "1.prems"(2) by simp
      next
        case False
        have "(j - src) mod copylen = j - dest" if "dest \<le> j" "j < dest + copylen" using that "1.prems"(2) by (simp add: mod_if)
        then show ?thesis using r(3) [of j] o1 [of j] False j n gt by (auto simp: min_def)
      qed
      then show ?thesis using r(1,2) step n by auto
    qed
  qed (use "1.prems" in \<open>subst incremental_copy_loop.simps, auto\<close>)
qed

lemma incremental_copy_eq:
  assumes "src < dest" "dest + len \<le> length out"
  shows "incremental_copy out dest src len = Inr (Some (bytewise_copy out dest src len))"
proof -
  obtain out' where "incremental_copy out dest src len = Inr (Some out')" "length out' = length out"
    "\<forall>j<length out. out' ! j = (if dest \<le> j \<and> j < dest + len then out ! (src + (j - src) mod (dest - src)) else out ! j)"
    using incremental_copy_loop_nth [of "dest - src" dest src "int len" out] assms by (auto simp: incremental_copy_def)
  then show ?thesis using bytewise_copy_nth [OF assms] by (auto intro!: nth_equalityI)
qed

section \<open>Safety\<close>

text \<open>The sizes: an input the function takes, with two bytes of memory behind it, and an output area of less than 2 GB.\<close>

definition lz_sizes :: "byte list \<Rightarrow> nat \<Rightarrow> nat \<Rightarrow> byte list \<Rightarrow> bool" where
  "lz_sizes mem n cap out \<longleftrightarrow> n \<le> 65536 \<and> n + 2 \<le> length mem \<and> cap \<le> length out \<and> cap < 2 ^ 31"

text \<open>Nothing behind the output area is written.\<close>

definition lz_frame :: "nat \<Rightarrow> byte list \<Rightarrow> lzo \<Rightarrow> bool" where
  "lz_frame cap out s \<longleftrightarrow> lz_op s \<le> cap \<and> length (lz_out s) = length out \<and> drop cap (lz_out s) = drop cap out"

fun lz_inv :: "nat \<Rightarrow> nat \<Rightarrow> byte list \<Rightarrow> lzo_label \<Rightarrow> lzo \<Rightarrow> bool" where
  "lz_inv n cap out Lz_loop s \<longleftrightarrow> lz_frame cap out s \<and> lz_ip s \<le> n + 2"
| "lz_inv n cap out Lz_initial_literal s \<longleftrightarrow> lz_frame cap out s \<and> lz_ip s < n"
| "lz_inv n cap out (Lz_match z) s \<longleftrightarrow> lz_frame cap out s \<and> 1 \<le> lz_ip s \<and> lz_ip s \<le> n \<and> z \<le> 255"
| "lz_inv n cap out Lz_match_complete s \<longleftrightarrow> lz_frame cap out s \<and> 2 \<le> lz_ip s \<and> lz_ip s \<le> n + 2"
| "lz_inv n cap out (Lz_match_continue z) s \<longleftrightarrow> lz_frame cap out s \<and> lz_ip s \<le> n + 2"

fun lz_good :: "nat \<Rightarrow> nat \<Rightarrow> byte list \<Rightarrow> lzo_next result \<Rightarrow> bool" where
  "lz_good n cap out (Inl e) = False"
| "lz_good n cap out (Inr (Lz_goto l s)) = lz_inv n cap out l s"
| "lz_good n cap out (Inr (Lz_return c len s)) = (lz_frame cap out s \<and> len \<le> cap)"
| "lz_good n cap out (Inr Lz_spin) = False"

lemma c_int_id: "- (2 ^ 31) \<le> i \<Longrightarrow> i < 2 ^ 31 \<Longrightarrow> c_int i = i"
  by (simp add: c_int_def signed_take_bit_int_eq_self)

lemma lz_input_short_iff: "lz_sizes mem n cap out \<Longrightarrow> ip \<le> n + 2 \<Longrightarrow> x < 2 ^ 31 \<Longrightarrow> lz_input_short n ip x \<longleftrightarrow> n < ip + x"
  by (auto simp: lz_input_short_def lz_sizes_def c_int_id)

lemma lz_output_short_iff: "lz_sizes mem n cap out \<Longrightarrow> op \<le> cap \<Longrightarrow> x < 2 ^ 31 \<Longrightarrow> lz_output_short cap op x \<longleftrightarrow> cap < op + x"
  by (auto simp: lz_output_short_def lz_sizes_def c_int_id)

lemma lz_fail_good [simp]: "lz_frame cap out s \<Longrightarrow> lz_good n cap out (lz_fail c s)" "lz_frame cap out s \<Longrightarrow> lz_good n cap out (lz_assert_fail s)"
  by (simp_all add: lz_fail_def lz_assert_fail_def lz_frame_def)

lemma lz_frame_ip [simp]: "lz_frame cap out (s\<lparr>lz_ip := k\<rparr>) = lz_frame cap out s"
  by (simp add: lz_frame_def)

lemma lz_get_safe: "lz_sizes mem n cap out \<Longrightarrow> lz_ip s < n + 2 \<Longrightarrow> lz_get mem s = Inr (unat (mem ! lz_ip s), s\<lparr>lz_ip := lz_ip s + 1\<rparr>)"
  by (simp add: lz_get_def lz_sizes_def)

lemma lz_extend_safe:
  "lz_sizes mem n cap out \<Longrightarrow> lz_ip s \<le> n \<Longrightarrow> lz_extend mem n base z s = Inr None
     \<or> (\<exists>z' k. lz_extend mem n base z s = Inr (Some (z', s\<lparr>lz_ip := k\<rparr>)) \<and> lz_ip s \<le> k \<and> k \<le> n)"
proof (induction mem n base z s rule: lz_extend.induct)
  case (1 mem n base z s)
  show ?case
  proof (cases "lz_input_short n (lz_ip s) 1")
    case False
    then have lt: "lz_ip s < n" using lz_input_short_iff [OF "1.prems"(1), of "lz_ip s" 1] "1.prems"(2) by simp
    have len: "\<not> length mem \<le> lz_ip s" using "1.prems" by (simp add: lz_sizes_def)
    show ?thesis
    proof (cases "mem ! lz_ip s = 0")
      case True
      let ?s = "s\<lparr>lz_ip := lz_ip s + 1\<rparr>"
      have e: "lz_extend mem n base z s = lz_extend mem n base (z + 255) ?s" using False len True by (subst lz_extend.simps) simp
      show ?thesis using "1.IH" [OF False len True "1.prems"(1)] lt unfolding e by (auto dest: Suc_leD)
    next
      case nz: False
      have "lz_extend mem n base z s = Inr (Some (z + (base + unat (mem ! lz_ip s)), s\<lparr>lz_ip := Suc (lz_ip s)\<rparr>))"
        using False len nz by (subst lz_extend.simps) simp
      then show ?thesis using lt by fastforce
    qed
  qed (subst lz_extend.simps, simp)
qed

lemma lz_length_safe:
  assumes "lz_sizes mem n cap out" "lz_ip s \<le> n"
  shows "lz_length mem n base z s = Inr None
    \<or> (\<exists>z' k. lz_length mem n base z s = Inr (Some (z', s\<lparr>lz_ip := k\<rparr>)) \<and> lz_ip s \<le> k \<and> k \<le> n \<and> z' \<le> z + base + 255 * 65536)"
proof -
  have "lz_length mem n base z s = Inr None \<or> (\<exists>z' k. lz_length mem n base z s = Inr (Some (z', s\<lparr>lz_ip := k\<rparr>)) \<and> lz_ip s \<le> k \<and> k \<le> n)"
    using lz_extend_safe [OF assms, of base z] assms(2) by (auto simp: lz_length_def intro: exI [of _ "lz_ip s"])
  moreover have "z' \<le> z + base + 255 * 65536" if l: "lz_length mem n base z s = Inr (Some (z', s\<lparr>lz_ip := k\<rparr>))" and k: "k \<le> n" for z' k
  proof -
    have "z' \<le> z + base + 255 * (k - lz_ip s)" using lz_length_Inr [OF l] by (auto dest: arg_cong [where f = lz_ip])
    then show ?thesis using k assms(1) by (auto simp: lz_sizes_def)
  qed
  ultimately show ?thesis by blast
qed

lemma lz_frame_overwrite:
  "lz_frame cap out s \<Longrightarrow> lz_op s + length bs \<le> cap \<Longrightarrow> cap \<le> length out \<Longrightarrow>
     lz_frame cap out (s\<lparr>lz_out := overwrite (lz_op s) bs (lz_out s), lz_ip := k, lz_op := lz_op s + length bs\<rparr>)"
  by (auto simp: lz_frame_def overwrite_def drop_append)

lemma lz_memcpy_safe:
  assumes "lz_sizes mem n cap out" "lz_frame cap out s" "lz_ip s + k \<le> n" "lz_op s + k \<le> cap"
  shows "\<exists>s'. lz_memcpy mem k s = Inr s' \<and> lz_frame cap out s' \<and> lz_ip s' = lz_ip s + k"
proof -
  have l: "length (take k (drop (lz_ip s) mem)) = k" using assms(1,3) by (auto simp: lz_sizes_def)
  show ?thesis using assms lz_frame_overwrite [OF assms(2), of "take k (drop (lz_ip s) mem)" "lz_ip s + k"]
    unfolding l by (auto simp: lz_memcpy_def lz_sizes_def lz_frame_def)
qed

lemma lz_copy_match_safe:
  "lz_frame cap out s \<Longrightarrow> cap \<le> length out \<Longrightarrow> m < lz_op s \<Longrightarrow> lz_op s + k \<le> cap \<Longrightarrow>
     \<exists>s'. lz_copy_match m k s = Inr s' \<and> lz_frame cap out s' \<and> lz_ip s' = lz_ip s"
proof (induction m k s rule: lz_copy_match.induct)
  case (2 m k s)
  let ?s = "s\<lparr>lz_out := (lz_out s)[lz_op s := lz_out s ! m], lz_op := lz_op s + 1\<rparr>"
  have p: "m < length (lz_out s)" "lz_put (lz_out s ! m) s = Inr ?s" using "2.prems" by (auto simp: lz_put_def lz_frame_def)
  have "lz_frame cap out ?s" using "2.prems" by (auto simp: lz_frame_def)
  then show ?case using "2.IH" [OF p(1), of ?s] "2.prems" p by auto
qed simp

lemma lz_short_match_safe:
  assumes "lz_sizes mem n cap out" "lz_frame cap out s" "2 \<le> lz_ip s" "lz_ip s \<le> n + 2" "k < 2 ^ 31"
  shows "lz_good n cap out (lz_short_match cap m k s)"
proof (cases "lz_match_bad m s \<or> lz_output_short cap (lz_op s) k")
  case False
  then have "nat m < lz_op s" "lz_op s + k \<le> cap"
    using lz_output_short_iff [OF assms(1), of "lz_op s" k] assms(2,5) by (auto simp: lz_match_bad_def lz_frame_def)
  with lz_copy_match_safe [OF assms(2)] assms(1) obtain s' where
    "lz_copy_match (nat m) k s = Inr s'" "lz_frame cap out s'" "lz_ip s' = lz_ip s" by (auto simp: lz_sizes_def)
  then show ?thesis using False assms(3,4) by (simp add: lz_short_match_def)
qed (use assms(2) in \<open>auto simp: lz_short_match_def\<close>)

lemma lz_long_match_safe:
  assumes "lz_sizes mem n cap out" "lz_frame cap out s" "2 \<le> lz_ip s" "lz_ip s \<le> n + 2" "z + 2 < 2 ^ 31"
  shows "lz_good n cap out (lz_long_match cap m z s)"
proof (cases "lz_match_bad m s \<or> z = 0 \<or> lz_output_short cap (lz_op s) (z + 2)")
  case False
  then have m: "nat m < lz_op s" "lz_op s + (z + 2) \<le> cap"
    using lz_output_short_iff [OF assms(1), of "lz_op s" "z + 2"] assms(2,5) by (auto simp: lz_match_bad_def lz_frame_def)
  let ?o = "bytewise_copy (lz_out s) (lz_op s) (nat m) (z + 2)"
  have l: "lz_op s + (z + 2) \<le> length (lz_out s)" using m assms(1,2) by (auto simp: lz_sizes_def lz_frame_def)
  have "drop cap ?o = drop cap (lz_out s)"
    using bytewise_copy_nth [OF m(1) l] m by (intro nth_equalityI) auto
  then have "lz_frame cap out (s\<lparr>lz_out := ?o, lz_op := lz_op s + (z + 2)\<rparr>)" using assms(2) m(2) by (simp add: lz_frame_def)
  then show ?thesis using False assms(3,4) incremental_copy_eq [OF m(1) l] by (simp add: lz_long_match_def)
qed (use assms(2) in \<open>auto simp: lz_long_match_def\<close>)

lemma lz_get_u16_safe:
  "lz_sizes mem n cap out \<Longrightarrow> lz_ip s \<le> n \<Longrightarrow> \<exists>d. lz_get_u16 mem s = Inr (d, s\<lparr>lz_ip := lz_ip s + 2\<rparr>)"
  by (simp add: lz_get_u16_def lz_get_def lz_sizes_def)

lemma lz_nat_and_le: "(x::nat) AND y \<le> y"
  using AND_upper2 [of "int y" "int x"] by (simp add: and_nat_def nat_le_iff)

text \<open>A match with a distance of two bytes behind a length of any size.\<close>

lemma lz_distance_safe:
  assumes sz: "lz_sizes mem n cap out" and s: "lz_frame cap out s" "1 \<le> lz_ip s" "lz_ip s \<le> n" and zb: "z + base \<le> 600"
    and f: "\<And>z' d s2. lz_frame cap out s2 \<Longrightarrow> 2 \<le> lz_ip s2 \<Longrightarrow> lz_ip s2 \<le> n + 2 \<Longrightarrow> z' + 2 < 2 ^ 31 \<Longrightarrow> lz_good n cap out (f z' d s2)"
  shows "lz_good n cap out (bindR (lz_length mem n base z s) (\<lambda>r. case r of None \<Rightarrow> lz_fail c s
      | Some (z', s1) \<Rightarrow> bindR (lz_get_u16 mem s1) (\<lambda>(d, s2). f z' d s2)))"
proof -
  consider "lz_length mem n base z s = Inr None"
    | z' k where "lz_length mem n base z s = Inr (Some (z', s\<lparr>lz_ip := k\<rparr>))" "lz_ip s \<le> k" "k \<le> n" "z' \<le> z + base + 255 * 65536"
    using lz_length_safe [OF sz s(3), of base z] by blast
  then show ?thesis
  proof cases
    case 2
    obtain d where "lz_get_u16 mem (s\<lparr>lz_ip := k\<rparr>) = Inr (d, s\<lparr>lz_ip := k + 2\<rparr>)" using lz_get_u16_safe [OF sz, of "s\<lparr>lz_ip := k\<rparr>"] 2(3) by auto
    then show ?thesis using 2 f [of "s\<lparr>lz_ip := k + 2\<rparr>" z' d] s(1,2) zb by simp
  qed (use s(1) in simp)
qed

lemma lz_match_safe:
  assumes sz: "lz_sizes mem n cap out" and inv: "lz_inv n cap out (Lz_match z) s"
  shows "lz_good n cap out (lz_match mem n cap z s)"
proof -
  have s: "lz_frame cap out s" "1 \<le> lz_ip s" "lz_ip s \<le> n" "z \<le> 255" using inv by simp_all
  have g: "lz_get mem s = Inr (unat (mem ! lz_ip s), s\<lparr>lz_ip := lz_ip s + 1\<rparr>)" using lz_get_safe [OF sz] s(3) by simp
  let ?s = "s\<lparr>lz_ip := lz_ip s + 1\<rparr>"
  have s': "lz_frame cap out ?s" "2 \<le> lz_ip ?s" "lz_ip ?s \<le> n + 2" using s by auto
  consider "z \<ge> 64" | "32 \<le> z" "z < 64" | "16 \<le> z" "z < 32" | "z < 16" by linarith
  then show ?thesis
  proof cases
    case 1
    have "drop_bit 5 z - 1 + 2 < 2 ^ 31" using s(4) by (simp add: drop_bit_eq_div)
    then show ?thesis using 1 lz_long_match_safe [OF sz s'] by (simp add: lz_match_def g)
  next
    case 2
    show ?thesis unfolding lz_match_def using 2 lz_nat_and_le [of z 31]
      by (auto intro!: lz_distance_safe [OF sz s(1-3)] lz_long_match_safe [OF sz])
  next
    case 3
    show ?thesis unfolding lz_match_def using 3 lz_nat_and_le [of z 7]
      by (auto simp: Let_def lz_success_def intro!: lz_distance_safe [OF sz s(1-3)] lz_long_match_safe [OF sz])
  next
    case 4
    then show ?thesis using lz_short_match_safe [OF sz s'] by (simp add: lz_match_def g)
  qed
qed

lemma lz_loop_safe:
  assumes sz: "lz_sizes mem n cap out" and inv: "lz_inv n cap out Lz_loop s"
  shows "lz_good n cap out (lz_loop mem n cap s)"
proof (cases "lz_more n cap s")
  case True
  have s: "lz_frame cap out s" "lz_ip s < n" using inv True by (simp_all add: lz_more_def)
  let ?z = "unat (mem ! lz_ip s)" and ?s = "s\<lparr>lz_ip := lz_ip s + 1\<rparr>"
  have g: "lz_get mem s = Inr (?z, ?s)" using lz_get_safe [OF sz] s(2) by simp
  have z: "?z \<le> 255" using unsigned_less [of "mem ! lz_ip s", where 'a = nat] by simp
  have lit: "lz_good n cap out (lz_literal mem n cap z' s2)" if h: "lz_frame cap out s2" "lz_ip s2 \<le> n" "z' \<le> 300 + 255 * 65536" for z' s2
  proof (cases "z' = 0 \<or> lz_output_short cap (lz_op s2) (z' + 3) \<or> lz_input_short n (lz_ip s2) (z' + 4)")
    case False
    then have r: "lz_op s2 + (z' + 3) \<le> cap" "lz_ip s2 + (z' + 4) \<le> n"
      using lz_output_short_iff [OF sz, of "lz_op s2" "z' + 3"] lz_input_short_iff [OF sz, of "lz_ip s2" "z' + 4"] h by (auto simp: lz_frame_def)
    obtain s3 where "lz_memcpy mem (z' + 3) s2 = Inr s3" "lz_frame cap out s3" "lz_ip s3 = lz_ip s2 + (z' + 3)"
      using lz_memcpy_safe [OF sz h(1), of "z' + 3"] r by auto
    then show ?thesis using False r(2) by (auto simp: lz_literal_def Let_def add.commute)
  qed (use h in \<open>auto simp: lz_literal_def Let_def add.commute\<close>)
  show ?thesis
  proof (cases "?z < 16")
    case small: True
    have "lz_length mem n 15 ?z ?s = Inr None \<or> (\<exists>z' k. lz_length mem n 15 ?z ?s = Inr (Some (z', ?s\<lparr>lz_ip := k\<rparr>)) \<and> k \<le> n \<and> z' \<le> 300 + 255 * 65536)"
      using lz_length_safe [OF sz, of ?s 15 ?z] s(2) small by fastforce
    then show ?thesis using True small s(1) lit by (auto simp: lz_loop_def g)
  qed (use True s z in \<open>auto simp: lz_loop_def g\<close>)
qed (use inv in \<open>simp add: lz_loop_def\<close>)

lemma lz_step_safe:
  assumes sz: "lz_sizes mem n cap out" and inv: "lz_inv n cap out l s"
  shows "lz_good n cap out (lz_step mem n cap l s)"
proof (cases l)
  case Lz_initial_literal
  have s: "lz_frame cap out s" "lz_ip s < n" using inv Lz_initial_literal by simp_all
  let ?z = "unat (mem ! lz_ip s)" and ?s = "s\<lparr>lz_ip := lz_ip s + 1\<rparr>"
  have z: "?z \<le> 255" using unsigned_less [of "mem ! lz_ip s", where 'a = nat] by simp
  have g: "lz_get mem s = Inr (?z, ?s)" "lz_get mem ?s = Inr (unat (mem ! (lz_ip s + 1)), s\<lparr>lz_ip := lz_ip s + 2\<rparr>)"
    using lz_get_safe [OF sz] s(2) by simp_all
  have "lz_good n cap out (lz_short_match cap m 3 (s\<lparr>lz_ip := lz_ip s + 2\<rparr>))" for m
    using lz_short_match_safe [OF sz, of "s\<lparr>lz_ip := lz_ip s + 2\<rparr>"] s by simp
  then show ?thesis using Lz_initial_literal s z g by (simp add: lz_initial_literal_def)
next
  case (Lz_match_continue z)
  have s: "lz_frame cap out s" "lz_ip s \<le> n + 2" using inv Lz_match_continue by simp_all
  show ?thesis
  proof (cases "\<not> 0 < z \<or> \<not> z < 4 \<or> lz_output_short cap (lz_op s) z \<or> lz_input_short n (lz_ip s) (z + 1)")
    case False
    then have r: "lz_op s + z \<le> cap" "lz_ip s + (z + 1) \<le> n"
      using lz_output_short_iff [OF sz, of "lz_op s" z] lz_input_short_iff [OF sz, of "lz_ip s" "z + 1"] s by (auto simp: lz_frame_def)
    obtain s3 where s3: "lz_memcpy mem z s = Inr s3" "lz_frame cap out s3" "lz_ip s3 = lz_ip s + z"
      using lz_memcpy_safe [OF sz s(1), of z] r by auto
    have "lz_get mem s3 = Inr (unat (mem ! lz_ip s3), s3\<lparr>lz_ip := lz_ip s3 + 1\<rparr>)" using lz_get_safe [OF sz] s3(3) r by simp
    moreover have "unat (mem ! lz_ip s3) \<le> 255" using unsigned_less [of "mem ! lz_ip s3", where 'a = nat] by simp
    ultimately show ?thesis using Lz_match_continue False s3 r by (simp add: lz_match_continue_eq lz_more_def)
  qed (use Lz_match_continue s in \<open>auto simp: lz_match_continue_eq\<close>)
next
  case Lz_match_complete
  then show ?thesis using inv sz by (auto simp: lz_match_complete_def Let_def lz_sizes_def)
qed (use inv lz_loop_safe [OF sz] lz_match_safe [OF sz] in auto)

lemma lz_next_cases:
  obtains (raised) e where "r = Inl e" | (goto) l s where "r = Inr (Lz_goto l s)"
  | (returned) c len s where "r = Inr (Lz_return c len s)" | (spin) "r = Inr Lz_spin"
  by (metis lzo_next.exhaust sum.exhaust)

lemma lz_run_safe: "lz_sizes mem n cap out \<Longrightarrow> lz_good n cap out r \<Longrightarrow> lz_run mem n cap fuel r = Some q \<Longrightarrow>
    \<exists>c len s. q = Inr (c, len, lz_out s) \<and> lz_frame cap out s \<and> len \<le> cap"
proof (induction fuel arbitrary: r)
  case 0
  then show ?case by (cases rule: lz_next_cases [of r]) auto
next
  case (Suc fuel)
  then show ?case
  proof (cases rule: lz_next_cases [of r])
    case (goto l s)
    show ?thesis using Suc.IH [OF Suc.prems(1), of "lz_step mem n cap l s"] lz_step_safe [OF Suc.prems(1), of l s] Suc.prems(2,3) goto by simp
  qed auto
qed

lemma lz_start_safe:
  assumes sz: "lz_sizes mem n cap out"
  shows "lz_good n cap out (lz_start mem n cap out)"
proof -
  let ?s = "\<lparr>lz_ip = 0, lz_op = 0, lz_out = out\<rparr>" and ?s1 = "\<lparr>lz_ip = 1, lz_op = 0, lz_out = out\<rparr>"
  let ?b = "unat (mem ! 0)"
  have g: "lz_get mem ?s = Inr (?b, ?s1)" and f: "lz_frame cap out ?s" "lz_frame cap out ?s1"
    using sz by (auto simp: lz_get_def lz_sizes_def lz_frame_def)
  have b: "?b \<le> 255" using unsigned_less [of "mem ! 0", where 'a = nat] by simp
  have n: "\<not> n > 65536" using sz by (simp add: lz_sizes_def)
  show ?thesis
  proof (cases "?b - 17 < 4 \<or> lz_output_short cap 0 (?b - 17) \<or> lz_input_short n 1 (?b - 17 + 1)")
    case False
    have "?b - 17 < 2 ^ 31" "?b - 17 + 1 < 2 ^ 31" "0 \<le> cap" "1 \<le> n + 2" using b by auto
    then have "\<not> cap < 0 + (?b - 17)" "\<not> n < 1 + (?b - 17 + 1)"
      using False lz_output_short_iff [OF sz, of 0 "?b - 17"] lz_input_short_iff [OF sz, of 1 "?b - 17 + 1"] by blast+
    then have r: "0 < ?b - 17" "?b - 17 \<le> cap" "1 + (?b - 17) < n" using False by linarith+
    obtain s2 where "lz_memcpy mem (?b - 17) ?s1 = Inr s2" "lz_frame cap out s2" "lz_ip s2 = 1 + (?b - 17)"
      using lz_memcpy_safe [OF sz f(2), of "?b - 17"] r by auto
    then show ?thesis using False r n lz_copy_bytes_memcpy [of "?b - 17" ?s1 mem] by (simp add: lz_start_def Let_def g)
  qed (use n f in \<open>auto simp: lz_start_def Let_def g\<close>)
qed

lemma lz_start_measure:
  "lz_start mem n cap out = Inr (Lz_goto l s) \<Longrightarrow> lz_measure mem l s < 2 * length mem + 2" "lz_start mem n cap out \<noteq> Inr Lz_spin"
  by (auto simp: lz_start_def Let_def lz_measure_def lz_fail_def lz_assert_fail_def bindR_eq_Inr split: if_splits)

lemma lzo_decompress_total:
  assumes "n + 2 \<le> length mem" "cap \<le> length out" "cap < 2 ^ 31"
  shows "\<exists>c len out'. lzo1x_decompress_safe mem n out cap = Some (Inr (c, len, out')) \<and> len \<le> cap
    \<and> length out' = length out \<and> drop cap out' = drop cap out"
proof (cases "n \<le> 65536")
  case True
  with assms have sz: "lz_sizes mem n cap out" by (simp add: lz_sizes_def)
  obtain q where q: "lzo1x_decompress_safe mem n out cap = Some q"
    using lz_run_returns [of "lz_start mem n cap out" mem "2 * length mem + 2" n cap] lz_start_measure [of mem n cap out]
    unfolding lzo1x_decompress_safe_def by (metis add_0_right)
  then show ?thesis using lz_run_safe [OF sz lz_start_safe [OF sz]] by (fastforce simp: lzo1x_decompress_safe_def lz_frame_def)
qed (simp add: lzo1x_decompress_safe_def lz_start_def)

text \<open>
  What a compressor emits for a short packet without repetitions: the length, the bytes, the end marker. It is
  unpacked to these bytes.
\<close>

lemma lzo_literal_stream:
  assumes "4 \<le> length data" "length data \<le> 238" "length data \<le> cap" "cap \<le> length out" "cap < 2 ^ 31"
  shows "lzo1x_decompress_safe (of_nat (17 + length data) # data @ [17, 0, 0]) (length data + 4) out cap
    = Some (Inr (LZOASYM_E_OK, length data, overwrite 0 data out))"
proof -
  let ?d = "length data" and ?mem = "of_nat (17 + length data) # data @ [17, 0, 0] :: byte list"
  let ?s = "\<lambda>ip. \<lparr>lz_ip = ip, lz_op = ?d, lz_out = overwrite 0 data out\<rparr>"
  have u: "unat (of_nat (17 + ?d) :: byte) = 17 + ?d" using assms(2) by (simp add: unat_of_nat del: of_nat_add)
  have ne: "data \<noteq> []" using assms(1) by auto
  have ci: "c_int (int x) = int x" if "x < 2 ^ 31" for x using c_int_id [of "int x"] that by simp
  have sh: "\<not> lz_output_short cap 0 ?d" "\<not> lz_input_short (?d + 4) 1 (?d + 1)"
    using assms ci [of cap] ci [of ?d] ci [of "?d + 1"] ci [of "3 + ?d"] by (simp_all add: lz_output_short_def lz_input_short_def)
  have cp: "lz_copy_bytes ?mem ?d \<lparr>lz_ip = 1, lz_op = 0, lz_out = out\<rparr> = Inr (?s (?d + 1))"
    using lz_copy_bytes_memcpy [of ?d "\<lparr>lz_ip = 1, lz_op = 0, lz_out = out\<rparr>" ?mem] assms by (simp add: lz_memcpy_def)
  have 0: "lz_start ?mem (?d + 4) cap out = Inr (Lz_goto Lz_initial_literal (?s (?d + 1)))"
    using u assms ne sh cp by (simp add: lz_start_def lz_get_def Let_def)
  have m: "?mem ! (?d + 1) = 17" "?mem ! (?d + 2) = 0" "?mem ! (?d + 3) = 0" by (simp_all add: nth_append)
  have 1: "lz_step ?mem (?d + 4) cap Lz_initial_literal (?s (?d + 1)) = Inr (Lz_goto (Lz_match 17) (?s (?d + 2)))"
    using m by (simp add: lz_initial_literal_def lz_get_def)
  have g: "lz_get_u16 ?mem (?s (?d + 2)) = Inr (0, ?s (?d + 4))" using m by (simp add: lz_get_u16_def lz_get_def)
  have 2: "lz_step ?mem (?d + 4) cap (Lz_match 17) (?s (?d + 2)) = Inr (Lz_return LZOASYM_E_OK ?d (?s (?d + 4)))"
    using g by (simp add: lz_match_def lz_length_def Let_def lz_success_def lz_fail_def)
  have "2 * length ?mem + 2 = Suc (Suc (2 * length ?mem))" by simp
  then show ?thesis unfolding lzo1x_decompress_safe_def 0 by (simp only: lz_run.simps 1 2) simp
qed

section \<open>Properties\<close>

text \<open>
  C38. The decompressor returns for every input and every memory around it: \<open>2 * length mem + 2\<close> steps are enough to get
  to a \<open>return\<close> (or to an access outside of the arrays), and with more steps the result is the same. No copy spins.
\<close>

theorem lzo_terminates:
  "\<exists>q. lzo1x_decompress_safe mem n out cap = Some q \<and> (\<forall>k. lz_run mem n cap (2 * length mem + 2 + k) (lz_start mem n cap out) = Some q)"
proof -
  obtain q where "\<forall>k. lz_run mem n cap (2 * length mem + 2 + k) (lz_start mem n cap out) = Some q"
    using lz_run_returns [of "lz_start mem n cap out" mem "2 * length mem + 2"] lz_start_measure [of mem n cap out] by blast
  then show ?thesis unfolding lzo1x_decompress_safe_def by (metis add_0_right)
qed

text \<open>
  C36. The decompressor is safe on every input, provided two bytes of memory follow the input: it returns a code,
  every read is inside of the arrays, it reports at most the given output length and writes nothing behind it.
\<close>

theorem lzo_safe:
  assumes "n + 2 \<le> length mem" "cap \<le> length out" "cap < 2 ^ 31"
  shows "\<exists>c len out'. lzo1x_decompress_safe mem n out cap = Some (Inr (c, len, out')) \<and> len \<le> cap
    \<and> length out' = length out \<and> drop cap out' = drop cap out"
  by (rule lzo_decompress_total [OF assms])

theorem lzo_safe_witness:
  "\<exists>c len out'. lzo1x_decompress_safe (replicate 10 32 @ [0, 0]) 10 (replicate 16 0) 16 = Some (Inr (c, len, out')) \<and> len \<le> 16
    \<and> length out' = length (replicate 16 (0 :: byte)) \<and> drop 16 out' = drop 16 (replicate 16 0)"
  by (rule lzo_safe) simp_all

text \<open>
  The two bytes are needed: the packet of the single byte 17, and the empty packet, make the decompressor
  read behind an input that ends with its memory, although it is named safe and checks its input elsewhere.
\<close>

lemma lzo_overread:
  "lzo1x_decompress_safe [17] 1 out cap = Some (Inl undefined_behaviour) \<and> lzo1x_decompress_safe [] 0 out cap = Some (Inl undefined_behaviour)"
proof
  let ?s = "\<lparr>lz_ip = 0, lz_op = 0, lz_out = out\<rparr>" and ?s1 = "\<lparr>lz_ip = 1, lz_op = 0, lz_out = out\<rparr>"
  have 0: "lz_start [17] 1 cap out = Inr (Lz_goto Lz_loop ?s)" by (simp add: lz_start_def lz_get_def)
  have 1: "lz_step [17] 1 cap Lz_loop ?s = Inr (Lz_goto (Lz_match 17) ?s1)" by (simp add: lz_loop_def lz_more_def lz_get_def)
  have 2: "lz_step [17] 1 cap (Lz_match 17) ?s1 = Inl undefined_behaviour" by (simp add: lz_match_def lz_length_def lz_get_u16_def lz_get_def)
  have "2 * length [17 :: byte] + 2 = Suc (Suc (Suc (Suc 0)))" by simp
  then show "lzo1x_decompress_safe [17] 1 out cap = Some (Inl undefined_behaviour)"
    unfolding lzo1x_decompress_safe_def 0 by (simp only: lz_run.simps 1 2)
qed (simp add: lzo1x_decompress_safe_def lz_start_def lz_get_def)

text \<open>
  \<open>incremental_copy\<close>, which copies blocks of doubling size, does what the slow version in its comment does: with
  the source before the destination it copies byte by byte, so that a copy that overlaps repeats the pattern.
  No block overlaps its source, and the loop ends.
\<close>

lemma incremental_copy_bytewise:
  assumes "src < dest" "dest + len \<le> length out"
  shows "incremental_copy out dest src len = Inr (Some (bytewise_copy out dest src len))"
  by (rule incremental_copy_eq [OF assms])

end
