(* ===== verification/Compress.thy ===== *)
theory Compress
  imports Lzo_Asym Frame_Context
begin

text \<open>
  Compression of data packets (\<^verbatim>\<open>compress/*.hpp\<close>): the framing with an op byte in front (version 1, with or
  without the swap of the first byte to the end) and with an escape (version 2), the compressors, and
  \<open>CompressContext\<close>. The LZ4 and Snappy libraries are functions of the environment; LZO is the decompressor
  of \<open>Lzo_Asym\<close>, as \<^verbatim>\<open>compress/lzoselect.hpp\<close> has it without the LZO library (and without \<open>NO_LZO\<close>).
\<close>

section \<open>\<open>Compress\<close>\<close>

definition NO_COMPRESS :: byte where "NO_COMPRESS = 0xFA"
definition NO_COMPRESS_SWAP :: byte where "NO_COMPRESS_SWAP = 0xFB"
definition COMPRESS_V2_ESCAPE :: byte where "COMPRESS_V2_ESCAPE = 0x50"
definition OVPN_COMPv2_NONE :: byte where "OVPN_COMPv2_NONE = 0"
definition OVPN_COMPv2_LZ4 :: byte where "OVPN_COMPv2_LZ4 = 1"
definition LZO_COMPRESS :: byte where "LZO_COMPRESS = 0x66"
definition LZO_COMPRESS_SWAP :: byte where "LZO_COMPRESS_SWAP = 0x67"
definition SNAPPY_COMPRESS :: byte where "SNAPPY_COMPRESS = 0x68"
definition LZ4_COMPRESS :: byte where "LZ4_COMPRESS = 0x69"

definition COMPRESS_WORK :: nat where "COMPRESS_WORK = 2"
definition DECOMPRESS_WORK :: nat where "DECOMPRESS_WORK = 3"

text \<open>
  What the compressors use: the frame with the address and fill of fresh buffers, and the two libraries. LZ4
  takes input and size of the output area and gives the output, nothing for an error; Snappy has a function for the
  worst case, one for the size an input unpacks to, and one for the unpacking, each of which may refuse.
\<close>

record comp_env =
  ce_frame :: frame
  ce_addr :: nat
  ce_junk :: "nat \<Rightarrow> byte"
  ce_lz4_compress :: "byte list \<Rightarrow> int \<Rightarrow> byte list option"
  ce_lz4_decompress :: "byte list \<Rightarrow> int \<Rightarrow> byte list option"
  ce_snappy_max :: "nat \<Rightarrow> nat"
  ce_snappy_compress :: "byte list \<Rightarrow> byte list"
  ce_snappy_length :: "byte list \<Rightarrow> nat option"
  ce_snappy_uncompress :: "byte list \<Rightarrow> byte list option"

text \<open>The state of a compressor: its work buffer, and the count of \<open>COMPRESS_ERROR\<close>.\<close>

record comp =
  cm_work :: buffer
  cm_errors :: nat

definition comp_error :: "buffer \<Rightarrow> comp \<Rightarrow> buffer \<times> comp" where
  "comp_error buf c = (buf_reset_size buf, c\<lparr>cm_errors := cm_errors c + 1\<rparr>)"

text \<open>\<open>frame->prepare\<close> with the payload size it returns.\<close>

definition comp_prepare :: "comp_env \<Rightarrow> nat \<Rightarrow> buffer \<Rightarrow> (nat \<times> buffer) result" where
  "comp_prepare env i work =
     bindR (frame_at (ce_frame env) i) (\<lambda>fc.
     bindR (fc_prepare (ce_junk env) (ce_addr env) fc work) (\<lambda>w. Inr (fc_payload fc, w)))"

text \<open>\<open>buf[i] = v\<close>\<close>

definition buf_set_at :: "size_t \<Rightarrow> byte \<Rightarrow> buffer \<Rightarrow> buffer result" where
  "buf_set_at i v b =
     (if i \<ge> b_size b then Inl (BufferException buffer_const_index) else buf_poke (b_offset b + i) [v] b)"

definition do_swap :: "(nat \<Rightarrow> byte) \<Rightarrow> byte \<Rightarrow> buffer \<Rightarrow> buffer result" where
  "do_swap junk op buf =
     (if b_size buf \<noteq> 0
      then bindR (buf_at buf 0) (\<lambda>v.
           bindR (buf_push_back junk v buf) (\<lambda>b. buf_set_at 0 op b))
      else buf_push_back junk op buf)"

definition do_unswap :: "buffer \<Rightarrow> buffer result" where
  "do_unswap buf =
     (if b_size buf \<ge> 2 then bindR (buf_pop_back buf) (\<lambda>(first, b). buf_push_front first b) else Inr buf)"

definition v2_push :: "byte \<Rightarrow> buffer \<Rightarrow> buffer result" where
  "v2_push v buf =
     bindR (buf_at buf 0) (\<lambda>uc.
       if v = 0 \<and> uc \<noteq> COMPRESS_V2_ESCAPE then Inr buf
       else bindR (buf_prepend_alloc 2 buf) (\<lambda>b. buf_poke (b_offset b) [COMPRESS_V2_ESCAPE, v] b))"

definition v2_pull :: "buffer \<Rightarrow> (byte \<times> buffer) result" where
  "v2_pull buf =
     bindR (buf_at buf 0) (\<lambda>uc.
       if uc \<noteq> COMPRESS_V2_ESCAPE then Inr (0, buf)
       else bindR (buf_at buf 1) (\<lambda>v. bindR (buf_advance 2 buf) (\<lambda>b. Inr (v, b))))"

section \<open>Library calls\<close>

text \<open>The library writes its output at the start of the window of the work buffer.\<close>

definition comp_output :: "byte list \<Rightarrow> buffer \<Rightarrow> buffer result" where
  "comp_output bs work = bindR (buf_poke (b_offset work) bs work) (\<lambda>w. buf_set_size (length bs) w)"

text \<open>
  \<open>CompressLZOAsym::decompress_work\<close>. The input is the memory from the window on; the output is written into the
  array of the work buffer. (A run without result is excluded by the termination of the decompressor.)
\<close>

definition lzo_decompress_work :: "comp_env \<Rightarrow> buffer \<Rightarrow> comp \<Rightarrow> (buffer \<times> comp) result" where
  "lzo_decompress_work env buf c =
     bindR (comp_prepare env DECOMPRESS_WORK (cm_work c)) (\<lambda>(zlen, work).
       case lzo1x_decompress_safe (drop (b_offset buf) (b_data buf)) (b_size buf) (drop (b_offset work) (b_data work)) zlen of
         None \<Rightarrow> Inl undefined_behaviour
       | Some (Inl e) \<Rightarrow> Inl e
       | Some (Inr (code, n, out)) \<Rightarrow>
           (let work1 = work\<lparr>b_data := take (b_offset work) (b_data work) @ out\<rparr>
            in if code \<noteq> LZOASYM_E_OK then Inr (comp_error buf (c\<lparr>cm_work := work1\<rparr>))
               else bindR (buf_set_size n work1) (\<lambda>work2. Inr (work2, c\<lparr>cm_work := buf\<rparr>))))"

definition lz4_extra_buffer :: "size_t \<Rightarrow> size_t" where
  "lz4_extra_buffer len = (if len < 65535 then len + len div 256 + 17 else len + len div 255 + 16)"

text \<open>\<open>CompressLZ4Base::do_decompress\<close> and \<open>do_compress\<close>: the flag is the result of the function.\<close>

definition lz4_do_decompress :: "comp_env \<Rightarrow> buffer \<Rightarrow> comp \<Rightarrow> (bool \<times> buffer \<times> comp) result" where
  "lz4_do_decompress env buf c =
     bindR (comp_prepare env DECOMPRESS_WORK (cm_work c)) (\<lambda>(payload, work).
       if \<not> payload \<le> 2147483647 then Inr (False, buf, c\<lparr>cm_work := work\<rparr>)
       else case ce_lz4_decompress env (content buf) (int payload) of
              None \<Rightarrow> Inr (False, comp_error buf (c\<lparr>cm_work := work\<rparr>))
            | Some out \<Rightarrow> bindR (comp_output out work) (\<lambda>work1. Inr (True, work1, c\<lparr>cm_work := buf\<rparr>)))"

definition lz4_do_compress :: "comp_env \<Rightarrow> buffer \<Rightarrow> comp \<Rightarrow> (bool \<times> buffer \<times> comp) result" where
  "lz4_do_compress env buf c =
     bindR (comp_prepare env COMPRESS_WORK (cm_work c)) (\<lambda>(_, work).
       if lz4_extra_buffer (b_size buf) > buf_max_size work then Inr (False, comp_error buf (c\<lparr>cm_work := work\<rparr>))
       else let out = (case ce_lz4_compress env (content buf) (int (b_capacity work)) of None \<Rightarrow> [] | Some out \<Rightarrow> out)
            in bindR (buf_poke (b_offset work) out work) (\<lambda>work1.
                 if length out < b_size buf
                 then if length out \<le> 0 then Inr (False, comp_error buf (c\<lparr>cm_work := work1\<rparr>))
                      else bindR (buf_set_size (length out) work1) (\<lambda>work2. Inr (True, work2, c\<lparr>cm_work := buf\<rparr>))
                 else Inr (False, buf, c\<lparr>cm_work := work1\<rparr>)))"

section \<open>The compressors\<close>

datatype compressor =
    CompressNull
  | CompressStub bool
  | CompressStubV2
  | CompressLZO bool
  | CompressLZ4 bool
  | CompressLZ4v2 bool
  | CompressSnappy bool

text \<open>The op byte of an uncompressed packet.\<close>

definition comp_plain :: "comp_env \<Rightarrow> bool \<Rightarrow> buffer \<Rightarrow> comp \<Rightarrow> (buffer \<times> comp) result" where
  "comp_plain env support_swap buf c =
     bindR (if support_swap then do_swap (ce_junk env) NO_COMPRESS_SWAP buf else buf_push_front NO_COMPRESS buf) (\<lambda>b. Inr (b, c))"

definition lz4_compress :: "comp_env \<Rightarrow> bool \<Rightarrow> bool \<Rightarrow> buffer \<Rightarrow> comp \<Rightarrow> (buffer \<times> comp) result" where
  "lz4_compress env asymm hint buf c =
     bindR (if hint \<and> \<not> asymm then lz4_do_compress env buf c else Inr (False, buf, c)) (\<lambda>(ok, b, c1).
     bindR (do_swap (ce_junk env) (if ok then LZ4_COMPRESS else NO_COMPRESS_SWAP) b) (\<lambda>b1. Inr (b1, c1)))"

definition lz4v2_compress :: "comp_env \<Rightarrow> bool \<Rightarrow> bool \<Rightarrow> buffer \<Rightarrow> comp \<Rightarrow> (buffer \<times> comp) result" where
  "lz4v2_compress env asymm hint buf c =
     bindR (if hint \<and> \<not> asymm then lz4_do_compress env buf c else Inr (False, buf, c)) (\<lambda>(ok, b, c1).
     bindR (v2_push (if ok then OVPN_COMPv2_LZ4 else OVPN_COMPv2_NONE) b) (\<lambda>b1. Inr (b1, c1)))"

definition snappy_compress :: "comp_env \<Rightarrow> bool \<Rightarrow> bool \<Rightarrow> buffer \<Rightarrow> comp \<Rightarrow> (buffer \<times> comp) result" where
  "snappy_compress env asymm hint buf c =
     (if hint \<and> \<not> asymm
      then bindR (comp_prepare env COMPRESS_WORK (cm_work c)) (\<lambda>(_, work).
           if ce_snappy_max env (b_size buf) > buf_max_size work then Inr (comp_error buf (c\<lparr>cm_work := work\<rparr>))
           else let out = ce_snappy_compress env (content buf)
                in bindR (buf_poke (b_offset work) out work) (\<lambda>work1.
                     if length out < b_size buf
                     then bindR (buf_set_size (length out) work1) (\<lambda>work2.
                          bindR (do_swap (ce_junk env) SNAPPY_COMPRESS work2) (\<lambda>work3. Inr (work3, c\<lparr>cm_work := buf\<rparr>)))
                     else comp_plain env True buf (c\<lparr>cm_work := work1\<rparr>)))
      else comp_plain env True buf c)"

definition snappy_unpack :: "comp_env \<Rightarrow> buffer \<Rightarrow> comp \<Rightarrow> (buffer \<times> comp) result" where
  "snappy_unpack env buf c =
     bindR (comp_prepare env DECOMPRESS_WORK (cm_work c)) (\<lambda>(payload_size, work).
       let c1 = c\<lparr>cm_work := work\<rparr>
       in case ce_snappy_length env (content buf) of
            None \<Rightarrow> Inr (comp_error buf c1)
          | Some n \<Rightarrow>
              if n > payload_size then Inr (comp_error buf c1)
              else case ce_snappy_uncompress env (content buf) of
                     None \<Rightarrow> Inr (comp_error buf c1)
                   | Some out \<Rightarrow>
                       bindR (buf_poke (b_offset work) out work) (\<lambda>work1.
                       bindR (buf_set_size n work1) (\<lambda>work2. Inr (work2, c\<lparr>cm_work := buf\<rparr>))))"

fun comp_compress_op :: "comp_env \<Rightarrow> compressor \<Rightarrow> bool \<Rightarrow> buffer \<Rightarrow> comp \<Rightarrow> (buffer \<times> comp) result" where
  "comp_compress_op env CompressNull hint buf c = Inr (buf, c)"
| "comp_compress_op env (CompressStub support_swap) hint buf c = (if b_size buf = 0 then Inr (buf, c) else comp_plain env support_swap buf c)"
| "comp_compress_op env CompressStubV2 hint buf c =
     (if b_size buf = 0 then Inr (buf, c) else bindR (v2_push OVPN_COMPv2_NONE buf) (\<lambda>b. Inr (b, c)))"
| "comp_compress_op env (CompressLZO support_swap) hint buf c = (if b_size buf = 0 then Inr (buf, c) else comp_plain env support_swap buf c)"
| "comp_compress_op env (CompressLZ4 asymm) hint buf c = (if b_size buf = 0 then Inr (buf, c) else lz4_compress env asymm hint buf c)"
| "comp_compress_op env (CompressLZ4v2 asymm) hint buf c = (if b_size buf = 0 then Inr (buf, c) else lz4v2_compress env asymm hint buf c)"
| "comp_compress_op env (CompressSnappy asymm) hint buf c = (if b_size buf = 0 then Inr (buf, c) else snappy_compress env asymm hint buf c)"

text \<open>\<open>switch (c)\<close> on the op byte of version 1: unswap, then the work of the op.\<close>

definition stub_decompress :: "comp_env \<Rightarrow> buffer \<Rightarrow> comp \<Rightarrow> (buffer \<times> comp) result" where
  "stub_decompress env buf c =
     bindR (buf_pop_front buf) (\<lambda>(op, b).
       if op = NO_COMPRESS_SWAP then bindR (do_unswap b) (\<lambda>b1. Inr (b1, c))
       else if op = NO_COMPRESS then Inr (b, c)
       else if op = LZO_COMPRESS then lzo_decompress_work env b c
       else Inr (comp_error b c))"

definition lzo_decompress :: "comp_env \<Rightarrow> buffer \<Rightarrow> comp \<Rightarrow> (buffer \<times> comp) result" where
  "lzo_decompress env buf c =
     bindR (buf_pop_front buf) (\<lambda>(op, b).
       if op = NO_COMPRESS_SWAP then bindR (do_unswap b) (\<lambda>b1. Inr (b1, c))
       else if op = NO_COMPRESS then Inr (b, c)
       else if op = LZO_COMPRESS_SWAP then bindR (do_unswap b) (\<lambda>b1. lzo_decompress_work env b1 c)
       else if op = LZO_COMPRESS then lzo_decompress_work env b c
       else Inr (comp_error b c))"

definition lz4_decompress :: "comp_env \<Rightarrow> buffer \<Rightarrow> comp \<Rightarrow> (buffer \<times> comp) result" where
  "lz4_decompress env buf c =
     bindR (buf_pop_front buf) (\<lambda>(op, b).
       if op = NO_COMPRESS_SWAP then bindR (do_unswap b) (\<lambda>b1. Inr (b1, c))
       else if op = LZ4_COMPRESS then bindR (do_unswap b) (\<lambda>b1. bindR (lz4_do_decompress env b1 c) (\<lambda>(_, r). Inr r))
       else Inr (comp_error b c))"

definition lz4v2_decompress :: "comp_env \<Rightarrow> buffer \<Rightarrow> comp \<Rightarrow> (buffer \<times> comp) result" where
  "lz4v2_decompress env buf c =
     bindR (v2_pull buf) (\<lambda>(op, b).
       if op = OVPN_COMPv2_NONE then Inr (b, c)
       else if op = OVPN_COMPv2_LZ4 then bindR (lz4_do_decompress env b c) (\<lambda>(_, r). Inr r)
       else Inr (comp_error b c))"

definition snappy_decompress :: "comp_env \<Rightarrow> buffer \<Rightarrow> comp \<Rightarrow> (buffer \<times> comp) result" where
  "snappy_decompress env buf c =
     bindR (buf_pop_front buf) (\<lambda>(op, b).
       if op = NO_COMPRESS_SWAP then bindR (do_unswap b) (\<lambda>b1. Inr (b1, c))
       else if op = SNAPPY_COMPRESS then bindR (do_unswap b) (\<lambda>b1. snappy_unpack env b1 c)
       else Inr (comp_error b c))"

definition stubv2_decompress :: "buffer \<Rightarrow> comp \<Rightarrow> (buffer \<times> comp) result" where
  "stubv2_decompress buf c = bindR (v2_pull buf) (\<lambda>(cop, b). if cop \<noteq> 0 then Inr (comp_error b c) else Inr (b, c))"

fun comp_decompress_op :: "comp_env \<Rightarrow> compressor \<Rightarrow> buffer \<Rightarrow> comp \<Rightarrow> (buffer \<times> comp) result" where
  "comp_decompress_op env CompressNull buf c = Inr (buf, c)"
| "comp_decompress_op env (CompressStub _) buf c = (if b_size buf = 0 then Inr (buf, c) else stub_decompress env buf c)"
| "comp_decompress_op env CompressStubV2 buf c = (if b_size buf = 0 then Inr (buf, c) else stubv2_decompress buf c)"
| "comp_decompress_op env (CompressLZO _) buf c = (if b_size buf = 0 then Inr (buf, c) else lzo_decompress env buf c)"
| "comp_decompress_op env (CompressLZ4 _) buf c = (if b_size buf = 0 then Inr (buf, c) else lz4_decompress env buf c)"
| "comp_decompress_op env (CompressLZ4v2 _) buf c = (if b_size buf = 0 then Inr (buf, c) else lz4v2_decompress env buf c)"
| "comp_decompress_op env (CompressSnappy _) buf c = (if b_size buf = 0 then Inr (buf, c) else snappy_decompress env buf c)"

section \<open>\<open>CompressContext\<close>\<close>

datatype comp_type =
    NONE
  | COMP_STUB
  | COMP_STUBv2
  | ANY
  | ANY_LZO
  | LZO
  | LZO_SWAP
  | LZO_STUB
  | LZ4
  | LZ4v2
  | SNAPPY

text \<open>The build: LZO not excluded by \<open>NO_LZO\<close>, \<open>HAVE_LZ4\<close>, \<open>HAVE_SNAPPY\<close>.\<close>

record comp_build =
  with_lzo :: bool
  have_lz4 :: bool
  have_snappy :: bool

record compress_context =
  cc_type :: comp_type
  cc_asym :: bool

fun compressor_available :: "comp_build \<Rightarrow> comp_type \<Rightarrow> bool" where
  "compressor_available bd t =
     (case t of
        LZO \<Rightarrow> with_lzo bd
      | LZO_SWAP \<Rightarrow> with_lzo bd
      | LZ4 \<Rightarrow> have_lz4 bd
      | LZ4v2 \<Rightarrow> have_lz4 bd
      | SNAPPY \<Rightarrow> have_snappy bd
      | _ \<Rightarrow> True)"

definition cc_ctor :: "comp_build \<Rightarrow> comp_type \<Rightarrow> bool \<Rightarrow> compress_context result" where
  "cc_ctor bd t asymm =
     (if \<not> compressor_available bd t then Inl compressor_unavailable else Inr \<lparr>cc_type = t, cc_asym = asymm\<rparr>)"

definition extra_payload_bytes :: "compress_context \<Rightarrow> nat" where
  "extra_payload_bytes cc = (case cc_type cc of NONE \<Rightarrow> 0 | COMP_STUBv2 \<Rightarrow> 2 | LZ4v2 \<Rightarrow> 2 | _ \<Rightarrow> 1)"

definition new_compressor :: "comp_build \<Rightarrow> compress_context \<Rightarrow> compressor result" where
  "new_compressor bd cc =
     (case cc_type cc of
        NONE \<Rightarrow> Inr CompressNull
      | ANY_LZO \<Rightarrow> Inr (CompressStub False)
      | LZO_STUB \<Rightarrow> Inr (CompressStub False)
      | ANY \<Rightarrow> Inr (CompressStub True)
      | COMP_STUB \<Rightarrow> Inr (CompressStub True)
      | COMP_STUBv2 \<Rightarrow> Inr CompressStubV2
      | LZO \<Rightarrow> if with_lzo bd then Inr (CompressLZO False) else Inl compressor_unavailable
      | LZO_SWAP \<Rightarrow> if with_lzo bd then Inr (CompressLZO True) else Inl compressor_unavailable
      | LZ4 \<Rightarrow> if have_lz4 bd then Inr (CompressLZ4 (cc_asym cc)) else Inl compressor_unavailable
      | LZ4v2 \<Rightarrow> if have_lz4 bd then Inr (CompressLZ4v2 (cc_asym cc)) else Inl compressor_unavailable
      | SNAPPY \<Rightarrow> if have_snappy bd then Inr (CompressSnappy (cc_asym cc)) else Inl compressor_unavailable)"

definition lzo_info :: "comp_build \<Rightarrow> string" where
  "lzo_info bd = (if with_lzo bd then ''IV_LZO=1'' @ [CHR 0x0A] @ ''IV_LZO_SWAP=1'' @ [CHR 0x0A] else ''IV_LZO_STUB=1'' @ [CHR 0x0A])"

definition peer_info_string :: "comp_build \<Rightarrow> compress_context \<Rightarrow> string option" where
  "peer_info_string bd cc =
     (let nl = [CHR 0x0A]; one = (\<lambda>name. Some (name @ ''=1'' @ nl));
          stubs = ''IV_COMP_STUB=1'' @ nl @ ''IV_COMP_STUBv2=1'' @ nl
      in case cc_type cc of
           LZO \<Rightarrow> if with_lzo bd then one ''IV_LZO'' else None
         | LZO_SWAP \<Rightarrow> if with_lzo bd then one ''IV_LZO_SWAP'' else None
         | LZ4 \<Rightarrow> if have_lz4 bd then one ''IV_LZ4'' else None
         | LZ4v2 \<Rightarrow> if have_lz4 bd then one ''IV_LZ4v2'' else None
         | SNAPPY \<Rightarrow> if have_snappy bd then one ''IV_SNAPPY'' else None
         | LZO_STUB \<Rightarrow> Some (''IV_LZO_STUB=1'' @ nl @ stubs)
         | COMP_STUB \<Rightarrow> Some (''IV_LZO_STUB=1'' @ nl @ stubs)
         | COMP_STUBv2 \<Rightarrow> Some (''IV_LZO_STUB=1'' @ nl @ stubs)
         | ANY \<Rightarrow> Some ((if have_snappy bd then ''IV_SNAPPY=1'' @ nl else []) @ lzo_info bd
                     @ (if have_lz4 bd then ''IV_LZ4=1'' @ nl @ ''IV_LZ4v2=1'' @ nl else []) @ stubs)
         | ANY_LZO \<Rightarrow> Some (lzo_info bd @ stubs)
         | NONE \<Rightarrow> None)"

definition peer_info_string_v1 :: "comp_build \<Rightarrow> compress_context \<Rightarrow> string option" where
  "peer_info_string_v1 bd cc =
     (let nl = [CHR 0x0A]; one = (\<lambda>name. Some (name @ ''=1'' @ nl)); stub = ''IV_COMP_STUB=1'' @ nl
      in case cc_type cc of
           LZO \<Rightarrow> if with_lzo bd then one ''IV_LZO'' else None
         | LZO_SWAP \<Rightarrow> if with_lzo bd then one ''IV_LZO_SWAP'' else None
         | LZ4 \<Rightarrow> if have_lz4 bd then one ''IV_LZ4'' else None
         | SNAPPY \<Rightarrow> if have_snappy bd then one ''IV_SNAPPY'' else None
         | LZO_STUB \<Rightarrow> Some (''IV_LZO_STUB=1'' @ nl @ stub)
         | COMP_STUB \<Rightarrow> Some (''IV_LZO_STUB=1'' @ nl @ stub)
         | ANY \<Rightarrow> Some ((if have_snappy bd then ''IV_SNAPPY=1'' @ nl else []) @ lzo_info bd
                     @ (if have_lz4 bd then ''IV_LZ4=1'' @ nl else []) @ stub)
         | ANY_LZO \<Rightarrow> Some (lzo_info bd @ stub)
         | _ \<Rightarrow> None)"

definition comp_options_string :: "compress_context \<Rightarrow> string option" where
  "comp_options_string cc = (if cc_type cc = NONE then None else Some ''comp-lzo'')"

definition comp_str :: "compress_context \<Rightarrow> string" where
  "comp_str cc =
     (case cc_type cc of
        LZO \<Rightarrow> ''LZO'' | LZO_SWAP \<Rightarrow> ''LZO_SWAP'' | LZ4 \<Rightarrow> ''LZ4'' | LZ4v2 \<Rightarrow> ''LZ4v2'' | SNAPPY \<Rightarrow> ''SNAPPY''
      | LZO_STUB \<Rightarrow> ''LZO_STUB'' | COMP_STUB \<Rightarrow> ''COMP_STUB'' | COMP_STUBv2 \<Rightarrow> ''COMP_STUBv2''
      | ANY \<Rightarrow> ''ANY'' | ANY_LZO \<Rightarrow> ''ANY_LZO'' | NONE \<Rightarrow> ''NONE'')"

definition method_to_string :: "compress_context \<Rightarrow> string option" where
  "method_to_string cc =
     (case cc_type cc of
        LZO \<Rightarrow> Some ''lzo''
      | LZO_SWAP \<Rightarrow> Some ''lzo-swap''
      | LZO_STUB \<Rightarrow> Some ''lzo-stub''
      | LZ4 \<Rightarrow> Some ''lz4''
      | LZ4v2 \<Rightarrow> Some ''lz4v2''
      | SNAPPY \<Rightarrow> Some ''snappy''
      | COMP_STUB \<Rightarrow> Some ''stub''
      | COMP_STUBv2 \<Rightarrow> Some ''stub-v2''
      | _ \<Rightarrow> None)"

definition parse_method :: "string \<Rightarrow> comp_type" where
  "parse_method m =
     (if m = ''stub-v2'' then COMP_STUBv2
      else if m = ''lz4-v2'' then LZ4v2
      else if m = ''lz4'' then LZ4
      else if m = ''lzo'' then LZO
      else if m = ''lzo-swap'' then LZO_SWAP
      else if m = ''lzo-stub'' then LZO_STUB
      else if m = ''snappy'' then SNAPPY
      else if m = ''stub'' then COMP_STUB
      else NONE)"

definition comp_stub_type :: "comp_type \<Rightarrow> comp_type" where
  "comp_stub_type t = (case t of COMP_STUBv2 \<Rightarrow> COMP_STUBv2 | LZ4v2 \<Rightarrow> COMP_STUBv2 | _ \<Rightarrow> COMP_STUB)"

definition is_any_stub :: "comp_type \<Rightarrow> bool" where
  "is_any_stub t = (case t of LZO_STUB \<Rightarrow> True | COMP_STUB \<Rightarrow> True | COMP_STUBv2 \<Rightarrow> True | _ \<Rightarrow> False)"

section \<open>The framing undone\<close>

lemma buf_push_back_Inr:
  assumes "buf_wf b" "b_capacity b + 1 < sz_max" "buf_push_back junk v b = Inr b'"
  shows "buf_wf b' \<and> content b' = content b @ [v]"
  using buf_write_meets [OF assms(1), of "[v]" junk] assms(2,3) by (simp add: buf_push_back_write)

lemma buf_set_at_0:
  assumes "buf_wf b" "content b = x # xs" "buf_set_at 0 v b = Inr b'"
  shows "buf_wf b' \<and> content b' = v # xs"
proof -
  have "0 < b_size b" using assms(1,2) length_content [OF assms(1)] by simp
  then have n: "0 + length [v] \<le> b_size b" by simp
  obtain b1 where "buf_poke (b_offset b + 0) [v] b = Inr b1" "buf_wf b1" "content b1 = overwrite 0 [v] (content b)"
    using buf_poke_window [OF assms(1) n] by blast
  then show ?thesis using assms(2,3) n by (auto simp: buf_set_at_def overwrite_def)
qed

lemma do_swap_Inr:
  assumes "buf_wf b" "b_capacity b + 1 < sz_max" "do_swap junk op b = Inr b'"
  shows "buf_wf b' \<and> content b' = (case content b of [] \<Rightarrow> [op] | x # xs \<Rightarrow> op # xs @ [x])"
proof (cases "content b")
  case Nil
  then have "b_size b = 0" using length_content [OF assms(1)] by simp
  then show ?thesis using assms buf_push_back_Inr [OF assms(1,2), of junk op b'] Nil by (simp add: do_swap_def)
next
  case (Cons x xs)
  then have n: "b_size b \<noteq> 0" using length_content [OF assms(1)] by auto
  have "buf_at b 0 = Inr x" using buf_at_eq [OF assms(1), of 0] n Cons by simp
  then obtain b1 where b1: "buf_push_back junk x b = Inr b1" "buf_set_at 0 op b1 = Inr b'"
    using assms(3) n by (auto simp: do_swap_def bindR_eq_Inr)
  note p = buf_push_back_Inr [OF assms(1,2) b1(1)]
  then have "content b1 = x # xs @ [x]" using Cons by simp
  with buf_set_at_0 [OF _ this b1(2)] p show ?thesis using Cons by simp
qed

lemma do_unswap_ok:
  assumes "buf_wf b" "content b = xs @ [x]" "xs \<noteq> [] \<longrightarrow> 0 < b_offset b"
  shows "\<exists>b'. do_unswap b = Inr b' \<and> buf_wf b' \<and> content b' = x # xs"
proof (cases "xs = []")
  case True
  then have "b_size b = 1" using assms(1,2) length_content [OF assms(1)] by simp
  then show ?thesis using assms True by (simp add: do_unswap_def)
next
  case False
  then have n: "2 \<le> b_size b" using assms(1,2) length_content [OF assms(1)] by (cases xs) auto
  let ?b = "b\<lparr>b_size := b_size b - 1\<rparr>"
  have w: "buf_wf ?b" "content ?b = xs" using wf_shrink [OF assms(1)] content_shrink [of _ b] length_content [OF assms(1)] assms(2) by simp_all
  have "buf_peek (b_offset b + (b_size b - 1)) 1 b = Inr [x]"
    using buf_peek_window [OF assms(1), of "b_size b - 1" 1] n assms(2) length_content [OF assms(1)] by simp
  then have "buf_pop_back b = Inr (x, ?b)" using n by (simp add: buf_pop_back_def)
  then show ?thesis using n buf_push_front_eq [OF w(1), of x] assms(3) False w(2) by (auto simp: do_unswap_def)
qed

lemma buf_pop_front_Cons:
  assumes "buf_wf b" "content b = x # xs"
  shows "\<exists>b'. buf_pop_front b = Inr (x, b') \<and> buf_wf b' \<and> content b' = xs \<and> 0 < b_offset b'"
proof -
  have n: "b_size b \<noteq> 0" using assms length_content [OF assms(1)] by auto
  then show ?thesis using buf_pop_front_eq [OF assms(1)] assms wf_consume [OF assms(1), of 1] content_consume [of b 1] by simp
qed

lemma v2_push_Inr:
  assumes "buf_wf b" "content b = x # xs" "v2_push v b = Inr b'"
  shows "buf_wf b' \<and> content b' = (if v = 0 \<and> x \<noteq> COMPRESS_V2_ESCAPE then x # xs else COMPRESS_V2_ESCAPE # v # x # xs)"
proof -
  have n: "b_size b \<noteq> 0" using assms(1,2) length_content [OF assms(1)] by auto
  have a: "buf_at b 0 = Inr x" using buf_at_eq [OF assms(1), of 0] n assms(2) by simp
  show ?thesis
  proof (cases "v = 0 \<and> x \<noteq> COMPRESS_V2_ESCAPE")
    case False
    then obtain b1 where b1: "buf_prepend_alloc 2 b = Inr b1" "buf_poke (b_offset b1) [COMPRESS_V2_ESCAPE, v] b1 = Inr b'"
      using assms(3) a by (auto simp: v2_push_def bindR_eq_Inr)
    obtain ys where y: "buf_wf b1" "length ys = 2" "content b1 = ys @ content b"
      by (rule buf_prepend_alloc_Inr [OF assms(1) b1(1)]) (auto simp: sz_max_def)
    have "0 + length [COMPRESS_V2_ESCAPE, v] \<le> b_size b1" using y length_content [OF y(1)] by simp
    then obtain b2 where "buf_poke (b_offset b1 + 0) [COMPRESS_V2_ESCAPE, v] b1 = Inr b2" "buf_wf b2"
      "content b2 = overwrite 0 [COMPRESS_V2_ESCAPE, v] (content b1)" using buf_poke_window [OF y(1)] by metis
    then show ?thesis using b1(2) y assms(2) False by (auto simp: overwrite_def)
  qed (use assms a in \<open>auto simp: v2_push_def\<close>)
qed

lemma v2_pull_ok:
  assumes "buf_wf b" "content b = x # xs" "x = COMPRESS_V2_ESCAPE \<longrightarrow> xs \<noteq> []"
  shows "\<exists>b'. v2_pull b = Inr (if x = COMPRESS_V2_ESCAPE then hd xs else 0, b') \<and> buf_wf b'
    \<and> content b' = (if x = COMPRESS_V2_ESCAPE then tl xs else x # xs)"
proof -
  have n: "b_size b = Suc (length xs)" using assms length_content [OF assms(1)] by auto
  have a: "buf_at b 0 = Inr x" using buf_at_eq [OF assms(1), of 0] n assms(2) by simp
  show ?thesis
  proof (cases "x = COMPRESS_V2_ESCAPE")
    case True
    then have a1: "buf_at b 1 = Inr (hd xs)" "2 \<le> b_size b" using buf_at_eq [OF assms(1), of 1] n assms(2,3) by (cases xs; simp)+
    let ?b = "b\<lparr>b_offset := b_offset b + 2, b_size := b_size b - 2\<rparr>"
    have "buf_wf ?b" "content ?b = tl xs" using wf_consume [OF assms(1), of 2] content_consume [of b 2] a1 assms(2) by (simp_all add: drop_Suc numeral_2_eq_2)
    then show ?thesis using a a1 True by (simp add: v2_pull_def buf_advance_def)
  qed (use a assms in \<open>simp add: v2_pull_def\<close>)
qed

section \<open>What the compressors rely on\<close>

definition comp_env_ok :: "comp_env \<Rightarrow> bool" where
  "comp_env_ok env \<longleftrightarrow> length (ce_frame env) = N_ALIGN_CONTEXTS
     \<and> (\<forall>fc\<in>set (ce_frame env). fc_wf fc \<and> fc_adj_capacity fc + 1 < sz_max \<and> fc_payload fc < 2 ^ 31)
     \<and> (\<forall>x n y. ce_lz4_decompress env x n = Some y \<longrightarrow> int (length y) \<le> n)
     \<and> (\<forall>x n y. ce_snappy_length env x = Some n \<and> ce_snappy_uncompress env x = Some y \<longrightarrow> length y = n)"

text \<open>The documented bounds and inverses of the libraries.\<close>

definition comp_libs_inverse :: "comp_env \<Rightarrow> bool" where
  "comp_libs_inverse env \<longleftrightarrow>
     (\<forall>x n y. ce_lz4_compress env x n = Some y \<longrightarrow> (\<forall>k. int (length x) \<le> k \<longrightarrow> ce_lz4_decompress env y k = Some x))
     \<and> (\<forall>x. ce_snappy_length env (ce_snappy_compress env x) = Some (length x) \<and> ce_snappy_uncompress env (ce_snappy_compress env x) = Some x)"

definition comp_ok :: "comp \<Rightarrow> bool" where
  "comp_ok c \<longleftrightarrow> buf_wf (cm_work c) \<and> b_flags (cm_work c) \<noteq> None \<and> b_capacity (cm_work c) + 1 < sz_max"

lemma comp_prepare_ok:
  assumes "comp_env_ok env" "comp_ok c" "i < N_ALIGN_CONTEXTS"
  obtains w where "comp_prepare env i (cm_work c) = Inr (fc_payload (ce_frame env ! i), w)" "buf_wf w" "b_size w = 0" "b_flags w \<noteq> None"
    "b_offset w + fc_payload (ce_frame env ! i) + fc_tailroom (ce_frame env ! i) \<le> b_capacity w"
    "b_capacity w + 1 < sz_max" "fc_payload (ce_frame env ! i) < 2 ^ 31"
proof -
  have fc: "fc_wf (ce_frame env ! i)" "fc_adj_capacity (ce_frame env ! i) + 1 < sz_max" "fc_payload (ce_frame env ! i) < 2 ^ 31"
    using assms(1,3) nth_mem [of i "ce_frame env"] by (auto simp: comp_env_ok_def)
  have w: "buf_wf (cm_work c)" "b_flags (cm_work c) \<noteq> None" using assms(2) by (simp_all add: comp_ok_def)
  show thesis
    by (rule fc_prepare_room [OF fc(1) w, of "ce_junk env" "ce_addr env"])
       (use that fc assms(2,3) in \<open>auto simp: comp_prepare_def frame_at_def comp_ok_def\<close>)
qed

lemma comp_output_ok:
  assumes "buf_wf w" "b_size w = 0" "b_offset w + length out \<le> b_capacity w"
  shows "\<exists>w'. comp_output out w = Inr w' \<and> buf_wf w' \<and> content w' = out \<and> b_flags w' = b_flags w \<and> b_capacity w' = b_capacity w"
proof -
  let ?w = "w\<lparr>b_data := overwrite (b_offset w) out (b_data w)\<rparr>"
  have wf: "buf_wf ?w" "buf_wf (?w\<lparr>b_size := length out\<rparr>)" and l: "b_offset w \<le> length (b_data w)" using assms by (auto simp: buf_wf_def)
  have "comp_output out w = Inr (?w\<lparr>b_size := length out\<rparr>)"
    using assms buf_max_size_exact [OF wf(1)] by (auto simp: comp_output_def buf_poke_def buf_set_size_def buf_wf_def)
  then show ?thesis using wf(2) l by (simp add: content_def)
qed

lemma comp_output_Inr:
  assumes "buf_wf w" "b_size w = 0" "comp_output out w = Inr w'"
  shows "buf_wf w' \<and> content w' = out \<and> b_flags w' = b_flags w \<and> b_capacity w' = b_capacity w"
proof -
  have "b_offset w + length out \<le> length (b_data w)" using assms(3) by (auto simp: comp_output_def buf_poke_def split: if_splits)
  then have "b_offset w + length out \<le> b_capacity w" using assms(1) by (simp add: buf_wf_def)
  from comp_output_ok [OF assms(1,2) this] assms(3) show ?thesis by auto
qed

section \<open>Round trip\<close>

lemmas comp_ops = NO_COMPRESS_def NO_COMPRESS_SWAP_def LZO_COMPRESS_def LZO_COMPRESS_SWAP_def SNAPPY_COMPRESS_def LZ4_COMPRESS_def
  OVPN_COMPv2_NONE_def OVPN_COMPv2_LZ4_def COMPRESS_V2_ESCAPE_def

lemma swapped_packet:
  assumes "buf_wf b" "content b = op # xs @ [x]"
  shows "\<exists>b1 b2. buf_pop_front b = Inr (op, b1) \<and> do_unswap b1 = Inr b2 \<and> buf_wf b2 \<and> content b2 = x # xs"
proof -
  obtain b1 where b1: "buf_pop_front b = Inr (op, b1)" "buf_wf b1" "content b1 = xs @ [x]" "0 < b_offset b1"
    using buf_pop_front_Cons [OF assms] by blast
  show ?thesis using do_unswap_ok [OF b1(2,3)] b1 by auto
qed

text \<open>Packets that were not compressed.\<close>

lemma comp_plain_round:
  assumes "buf_wf buf" "b_capacity buf + 1 < sz_max" "content buf \<noteq> []" "comp_plain env sw buf c = Inr (buf', c')"
    and "buf_wf wire" "content wire = content buf'"
  shows "c' = c \<and> (\<exists>op b1 b. buf_pop_front wire = Inr (op, b1) \<and> op = (if sw then NO_COMPRESS_SWAP else NO_COMPRESS)
    \<and> (if sw then do_unswap b1 else Inr b1) = Inr b \<and> content b = content buf)"
proof (cases sw)
  case True
  obtain x xs where x: "content buf = x # xs" using assms(3) by (cases "content buf") auto
  have "do_swap (ce_junk env) NO_COMPRESS_SWAP buf = Inr buf'" "c' = c" using assms(4) True by (auto simp: comp_plain_def bindR_eq_Inr)
  then have "content wire = NO_COMPRESS_SWAP # xs @ [x]" using do_swap_Inr [OF assms(1,2)] assms(6) x by auto
  from swapped_packet [OF assms(5) this] show ?thesis using True x \<open>c' = c\<close> by auto
next
  case False
  have "buf_push_front NO_COMPRESS buf = Inr buf'" "c' = c" using assms(4) False by (auto simp: comp_plain_def bindR_eq_Inr)
  moreover from this have "b_offset buf > 0" by (auto simp: buf_push_front_def split: if_splits)
  ultimately have "content wire = NO_COMPRESS # content buf" using buf_push_front_eq [OF assms(1), of NO_COMPRESS] assms(6) by auto
  from buf_pop_front_Cons [OF assms(5) this] show ?thesis using False \<open>c' = c\<close> by auto
qed

lemma lz4_do_decompress_ok:
  assumes "comp_env_ok env" "comp_ok c" "ce_lz4_decompress env (content b) (int (fc_payload (ce_frame env ! DECOMPRESS_WORK))) = Some out"
  shows "\<exists>w. lz4_do_decompress env b c = Inr (True, w, c\<lparr>cm_work := b\<rparr>) \<and> buf_wf w \<and> content w = out"
proof -
  let ?n = "fc_payload (ce_frame env ! DECOMPRESS_WORK)"
  obtain w where w: "comp_prepare env DECOMPRESS_WORK (cm_work c) = Inr (?n, w)" "buf_wf w" "b_size w = 0"
    "b_offset w + ?n + fc_tailroom (ce_frame env ! DECOMPRESS_WORK) \<le> b_capacity w" "?n < 2 ^ 31"
    by (rule comp_prepare_ok [OF assms(1,2), of DECOMPRESS_WORK]) (auto simp: DECOMPRESS_WORK_def N_ALIGN_CONTEXTS_def)
  have "int (length out) \<le> int ?n" using assms(1,3) unfolding comp_env_ok_def by blast
  then have "b_offset w + length out \<le> b_capacity w" using w(4) by simp
  from comp_output_ok [OF w(2,3) this] show ?thesis using w assms(3) by (auto simp: lz4_do_decompress_def)
qed

text \<open>The outcome of \<open>do_compress\<close>: the packet is untouched, or the library's output has replaced it.\<close>

lemma lz4_do_compress_Inr:
  assumes env: "comp_env_ok env" and c: "comp_ok c" and r: "lz4_do_compress env buf c = Inr (ok, b, c')" and e: "cm_errors c' = cm_errors c"
  shows "if ok then \<exists>n. ce_lz4_compress env (content buf) n = Some (content b) \<and> buf_wf b \<and> b_capacity b + 1 < sz_max \<and> content b \<noteq> []
    else b = buf"
proof -
  obtain w where w: "comp_prepare env COMPRESS_WORK (cm_work c) = Inr (fc_payload (ce_frame env ! COMPRESS_WORK), w)" "buf_wf w" "b_size w = 0"
    "b_capacity w + 1 < sz_max"
    by (rule comp_prepare_ok [OF env c, of COMPRESS_WORK]) (auto simp: COMPRESS_WORK_def N_ALIGN_CONTEXTS_def)
  show ?thesis
  proof (cases ok)
    case True
    let ?out = "case ce_lz4_compress env (content buf) (int (b_capacity w)) of None \<Rightarrow> [] | Some out \<Rightarrow> out"
    obtain w1 where w1: "buf_poke (b_offset w) ?out w = Inr w1" "buf_set_size (length ?out) w1 = Inr b" "?out \<noteq> []"
      using r True w(1) by (auto simp: lz4_do_compress_def bindR_eq_Inr Let_def comp_error_def split: if_splits)
    then have "comp_output ?out w = Inr b" by (simp add: comp_output_def)
    from comp_output_Inr [OF w(2,3) this] w(4) w1(3) True show ?thesis by (auto split: option.splits)
  next
    case False
    then show ?thesis using r w(1) e
      by (auto simp: lz4_do_compress_def bindR_eq_Inr Let_def comp_error_def split: if_splits)
  qed
qed

lemma stubv2_round:
  assumes "buf_wf buf" "content buf \<noteq> []" "v2_push v buf = Inr buf'" "buf_wf wire" "content wire = content buf'"
  shows "\<exists>b. v2_pull wire = Inr (v, b) \<and> buf_wf b \<and> content b = content buf"
proof -
  obtain x xs where x: "content buf = x # xs" using assms(2) by (cases "content buf") auto
  note p = v2_push_Inr [OF assms(1) x assms(3)]
  show ?thesis
  proof (cases "v = 0 \<and> x \<noteq> COMPRESS_V2_ESCAPE")
    case True
    then have "content wire = x # xs" using p assms(5) by simp
    from v2_pull_ok [OF assms(4) this] True x show ?thesis by auto
  next
    case False
    then have "content wire = COMPRESS_V2_ESCAPE # v # x # xs" using p assms(5) by simp
    from v2_pull_ok [OF assms(4) this] x show ?thesis by auto
  qed
qed

text \<open>A packet the library has compressed, with its op byte.\<close>

lemma swap_round:
  assumes "buf_wf b" "b_capacity b + 1 < sz_max" "do_swap junk op b = Inr buf'" "buf_wf wire" "content wire = content buf'"
  shows "\<exists>b1 b2. buf_pop_front wire = Inr (op, b1) \<and> do_unswap b1 = Inr b2 \<and> buf_wf b2 \<and> content b2 = content b"
proof (cases "content b")
  case Nil
  then have "content wire = [op]" using do_swap_Inr [OF assms(1-3)] assms(5) by simp
  from buf_pop_front_Cons [OF assms(4) this] obtain b1 where b1: "buf_pop_front wire = Inr (op, b1)" "buf_wf b1" "content b1 = []" by blast
  then have "b_size b1 = 0" using length_content [OF b1(2)] by simp
  then show ?thesis using b1 Nil by (simp add: do_unswap_def)
next
  case (Cons x xs)
  then have "content wire = op # xs @ [x]" using do_swap_Inr [OF assms(1-3)] assms(5) by simp
  from swapped_packet [OF assms(4) this] Cons show ?thesis by simp
qed

lemma lz4_choice:
  assumes env: "comp_env_ok env" and c: "comp_ok c" and buf: "buf_wf buf" "b_capacity buf + 1 < sz_max" "content buf \<noteq> []"
    and r: "(if hint \<and> \<not> asymm then lz4_do_compress env buf c else Inr (False, buf, c)) = Inr (ok, b, c')" and e: "cm_errors c' = cm_errors c"
  shows "buf_wf b \<and> b_capacity b + 1 < sz_max \<and> content b \<noteq> []
    \<and> (if ok then \<exists>n. ce_lz4_compress env (content buf) n = Some (content b) else b = buf)"
  using lz4_do_compress_Inr [OF env c, of buf ok b c'] r e buf by (cases "hint \<and> \<not> asymm") (auto split: if_splits)

lemma lz4_round:
  assumes env: "comp_env_ok env" "comp_libs_inverse env" and c: "comp_ok cs" "comp_ok cr"
    and buf: "buf_wf buf" "b_capacity buf + 1 < sz_max" "content buf \<noteq> []" "b_size buf \<le> fc_payload (ce_frame env ! DECOMPRESS_WORK)"
    and r: "lz4_compress env asymm hint buf cs = Inr (buf', cs')" "cm_errors cs' = cm_errors cs" and w: "buf_wf wire" "content wire = content buf'"
  shows "\<exists>b cr'. lz4_decompress env wire cr = Inr (b, cr') \<and> content b = content buf \<and> cm_errors cr' = cm_errors cr"
proof -
  obtain ok b c1 where 1: "(if hint \<and> \<not> asymm then lz4_do_compress env buf cs else Inr (False, buf, cs)) = Inr (ok, b, c1)"
    "do_swap (ce_junk env) (if ok then LZ4_COMPRESS else NO_COMPRESS_SWAP) b = Inr buf'" "cs' = c1"
    using r(1) by (auto simp: lz4_compress_def bindR_eq_Inr)
  have ch: "buf_wf b" "b_capacity b + 1 < sz_max" "content b \<noteq> []" "if ok then \<exists>n. ce_lz4_compress env (content buf) n = Some (content b) else b = buf"
    using lz4_choice [OF env(1) c(1) buf(1-3) 1(1)] 1(3) r(2) by simp_all
  obtain b1 b2 where 2: "buf_pop_front wire = Inr (if ok then LZ4_COMPRESS else NO_COMPRESS_SWAP, b1)" "do_unswap b1 = Inr b2" "content b2 = content b"
    using swap_round [OF ch(1,2) 1(2) w] by blast
  have len: "length (content buf) \<le> fc_payload (ce_frame env ! DECOMPRESS_WORK)" using buf by simp
  show ?thesis
  proof (cases ok)
    case True
    then have "ce_lz4_decompress env (content b2) (int (fc_payload (ce_frame env ! DECOMPRESS_WORK))) = Some (content buf)"
      using ch(4) env(2) 2(3) len by (auto simp: comp_libs_inverse_def)
    from lz4_do_decompress_ok [OF env(1) c(2) this] show ?thesis using 2 True by (auto simp: lz4_decompress_def comp_ops)
  next
    case False
    then show ?thesis using 2 ch(4) by (simp add: lz4_decompress_def)
  qed
qed

lemma lz4v2_round:
  assumes env: "comp_env_ok env" "comp_libs_inverse env" and c: "comp_ok cs" "comp_ok cr"
    and buf: "buf_wf buf" "b_capacity buf + 1 < sz_max" "content buf \<noteq> []" "b_size buf \<le> fc_payload (ce_frame env ! DECOMPRESS_WORK)"
    and r: "lz4v2_compress env asymm hint buf cs = Inr (buf', cs')" "cm_errors cs' = cm_errors cs" and w: "buf_wf wire" "content wire = content buf'"
  shows "\<exists>b cr'. lz4v2_decompress env wire cr = Inr (b, cr') \<and> content b = content buf \<and> cm_errors cr' = cm_errors cr"
proof -
  obtain ok b c1 where 1: "(if hint \<and> \<not> asymm then lz4_do_compress env buf cs else Inr (False, buf, cs)) = Inr (ok, b, c1)"
    "v2_push (if ok then OVPN_COMPv2_LZ4 else OVPN_COMPv2_NONE) b = Inr buf'" "cs' = c1"
    using r(1) by (auto simp: lz4v2_compress_def bindR_eq_Inr)
  have ch: "buf_wf b" "content b \<noteq> []" "if ok then \<exists>n. ce_lz4_compress env (content buf) n = Some (content b) else b = buf"
    using lz4_choice [OF env(1) c(1) buf(1-3) 1(1)] 1(3) r(2) by simp_all
  obtain b2 where 2: "v2_pull wire = Inr (if ok then OVPN_COMPv2_LZ4 else OVPN_COMPv2_NONE, b2)" "content b2 = content b"
    using stubv2_round [OF ch(1,2) 1(2) w] by blast
  have len: "length (content buf) \<le> fc_payload (ce_frame env ! DECOMPRESS_WORK)" using buf by simp
  show ?thesis
  proof (cases ok)
    case True
    then have "ce_lz4_decompress env (content b2) (int (fc_payload (ce_frame env ! DECOMPRESS_WORK))) = Some (content buf)"
      using ch(3) env(2) 2(2) len by (auto simp: comp_libs_inverse_def)
    from lz4_do_decompress_ok [OF env(1) c(2) this] show ?thesis using 2 True by (auto simp: lz4v2_decompress_def comp_ops)
  next
    case False
    then show ?thesis using 2 ch(3) by (simp add: lz4v2_decompress_def)
  qed
qed

lemma snappy_unpack_ok:
  assumes "comp_env_ok env" "comp_ok c" "ce_snappy_length env (content b) = Some (length out)" "ce_snappy_uncompress env (content b) = Some out"
    and "length out \<le> fc_payload (ce_frame env ! DECOMPRESS_WORK)"
  shows "\<exists>w. snappy_unpack env b c = Inr (w, c\<lparr>cm_work := b\<rparr>) \<and> buf_wf w \<and> content w = out"
proof -
  let ?n = "fc_payload (ce_frame env ! DECOMPRESS_WORK)"
  obtain w where w: "comp_prepare env DECOMPRESS_WORK (cm_work c) = Inr (?n, w)" "buf_wf w" "b_size w = 0"
    "b_offset w + ?n + fc_tailroom (ce_frame env ! DECOMPRESS_WORK) \<le> b_capacity w"
    by (rule comp_prepare_ok [OF assms(1,2), of DECOMPRESS_WORK]) (auto simp: DECOMPRESS_WORK_def N_ALIGN_CONTEXTS_def)
  then have "b_offset w + length out \<le> b_capacity w" using assms(5) by simp
  from comp_output_ok [OF w(2,3) this] show ?thesis using w(1) assms(3-5)
    by (auto simp: snappy_unpack_def comp_output_def bindR_eq_Inr Let_def)
qed

lemma snappy_round:
  assumes env: "comp_env_ok env" "comp_libs_inverse env" and c: "comp_ok cs" "comp_ok cr"
    and buf: "buf_wf buf" "b_capacity buf + 1 < sz_max" "content buf \<noteq> []" "b_size buf \<le> fc_payload (ce_frame env ! DECOMPRESS_WORK)"
    and r: "snappy_compress env asymm hint buf cs = Inr (buf', cs')" "cm_errors cs' = cm_errors cs" and w: "buf_wf wire" "content wire = content buf'"
  shows "\<exists>b cr'. snappy_decompress env wire cr = Inr (b, cr') \<and> content b = content buf \<and> cm_errors cr' = cm_errors cr"
proof -
  let ?out = "ce_snappy_compress env (content buf)"
  have len: "length (content buf) \<le> fc_payload (ce_frame env ! DECOMPRESS_WORK)" using buf by simp
  have plain: ?thesis if "comp_plain env True buf c0 = Inr (buf', cs')" for c0
    using comp_plain_round [OF buf(1-3) that w] by (auto simp: snappy_decompress_def)
  show ?thesis
  proof (cases "hint \<and> \<not> asymm")
    case True
    obtain wk where wk: "comp_prepare env COMPRESS_WORK (cm_work cs) = Inr (fc_payload (ce_frame env ! COMPRESS_WORK), wk)" "buf_wf wk" "b_size wk = 0"
      "b_capacity wk + 1 < sz_max"
      by (rule comp_prepare_ok [OF env(1) c(1), of COMPRESS_WORK]) (auto simp: COMPRESS_WORK_def N_ALIGN_CONTEXTS_def)
    from r True wk(1) consider w1 where "comp_plain env True buf (cs\<lparr>cm_work := w1\<rparr>) = Inr (buf', cs')"
      | w1 w2 where "buf_poke (b_offset wk) ?out wk = Inr w1" "buf_set_size (length ?out) w1 = Inr w2" "do_swap (ce_junk env) SNAPPY_COMPRESS w2 = Inr buf'"
      by (auto simp: snappy_compress_def bindR_eq_Inr Let_def comp_error_def split: if_splits)
    then show ?thesis
    proof cases
      case 2
      then have "comp_output ?out wk = Inr w2" by (simp add: comp_output_def)
      note o = comp_output_Inr [OF wk(2,3) this]
      obtain b1 b2 where 3: "buf_pop_front wire = Inr (SNAPPY_COMPRESS, b1)" "do_unswap b1 = Inr b2" "content b2 = ?out"
        using swap_round [OF _ _ 2(3) w] o wk(4) by auto
      then have "ce_snappy_length env (content b2) = Some (length (content buf))" "ce_snappy_uncompress env (content b2) = Some (content buf)"
        using env(2) by (auto simp: comp_libs_inverse_def)
      from snappy_unpack_ok [OF env(1) c(2) this len] show ?thesis using 3 by (auto simp: snappy_decompress_def comp_ops)
    qed (rule plain)
  qed (use r plain in \<open>auto simp: snappy_compress_def\<close>)
qed

text \<open>
  C37. What a compressor puts on the wire, the same compressor of the other end takes apart again. For each kind
  (none, both stubs, LZO, LZ4 and LZ4v2, Snappy), with or without the swap and whether the data was compressed or
  not, decompression of a packet that was compressed without error gives back its contents. The libraries are assumed to
  undo what they do themselves.
\<close>

theorem comp_round_trip:
  assumes "comp_env_ok env" "comp_libs_inverse env" "comp_ok cs" "comp_ok cr"
    and buf: "buf_wf buf" "b_capacity buf + 1 < sz_max" "b_size buf \<le> fc_payload (ce_frame env ! DECOMPRESS_WORK)"
    and r: "comp_compress_op env k hint buf cs = Inr (buf', cs')" "cm_errors cs' = cm_errors cs" and w: "buf_wf wire" "content wire = content buf'"
  shows "\<exists>b cr'. comp_decompress_op env k wire cr = Inr (b, cr') \<and> content b = content buf \<and> cm_errors cr' = cm_errors cr"
proof (cases "content buf = []")
  case True
  then have "b_size buf = 0" using length_content [OF buf(1)] by simp
  then have "content wire = []" using r(1) w(2) True by (cases k) auto
  moreover from this have "b_size wire = 0" using length_content [OF w(1)] by simp
  ultimately show ?thesis using True by (cases k) auto
next
  case False
  then have n: "b_size buf \<noteq> 0" using length_content [OF buf(1)] by (metis length_0_conv)
  have ne: "b_size wire \<noteq> 0" if "v2_pull wire = Inr q" for q
    using that by (cases "b_size wire = 0") (auto simp: v2_pull_def buf_at_def)
  have nf: "b_size wire \<noteq> 0" if "buf_pop_front wire = Inr q" for q
    using that by (cases "b_size wire = 0") (auto simp: buf_pop_front_def buf_at_def)
  have plain: "cs' = cs \<and> (\<exists>b1 b. buf_pop_front wire = Inr (if sw then NO_COMPRESS_SWAP else NO_COMPRESS, b1) \<and> b_size wire \<noteq> 0
      \<and> (if sw then do_unswap b1 else Inr b1) = Inr b \<and> content b = content buf)" if "comp_plain env sw buf cs = Inr (buf', cs')" for sw
    using comp_plain_round [OF buf(1,2) False that w] nf by blast
  show ?thesis
  proof (cases k)
    case CompressNull
    then show ?thesis using r(1) w by simp
  next
    case (CompressStub sw)
    then show ?thesis using plain [of sw] r(1) n by (auto simp: stub_decompress_def comp_ops split: if_splits)
  next
    case CompressStubV2
    then obtain b where "v2_pull wire = Inr (OVPN_COMPv2_NONE, b)" "content b = content buf"
      using stubv2_round [OF buf(1) False _ w] r(1) n by (auto simp: bindR_eq_Inr)
    then show ?thesis using CompressStubV2 ne by (auto simp: stubv2_decompress_def comp_ops)
  next
    case (CompressLZO sw)
    then show ?thesis using plain [of sw] r(1) n by (auto simp: lzo_decompress_def comp_ops split: if_splits)
  next
    case (CompressLZ4 as)
    then show ?thesis using lz4_round [OF assms(1-4) buf(1,2) False buf(3) _ r(2) w] r(1) n nf by (force simp: lz4_decompress_def bindR_eq_Inr)
  next
    case (CompressLZ4v2 as)
    then show ?thesis using lz4v2_round [OF assms(1-4) buf(1,2) False buf(3) _ r(2) w] r(1) n ne by (force simp: lz4v2_decompress_def bindR_eq_Inr)
  next
    case (CompressSnappy as)
    then show ?thesis using snappy_round [OF assms(1-4) buf(1,2) False buf(3) _ r(2) w] r(1) n nf by (force simp: snappy_decompress_def bindR_eq_Inr)
  qed
qed

lemma do_swap_room:
  assumes "buf_wf b" "b_offset b + b_size b + 1 \<le> b_capacity b"
  shows "\<exists>b'. do_swap junk op b = Inr b'"
proof -
  have p: "\<exists>b'. buf_push_back junk v b = Inr b' \<and> buf_wf b' \<and> content b' = content b @ [v]" for v
    using buf_write_fits [OF assms(1), of "[v]" junk] assms(2) by (auto simp: buf_push_back_write)
  show ?thesis
  proof (cases "b_size b = 0")
    case False
    then obtain v where v: "buf_at b 0 = Inr v" using buf_at_eq [OF assms(1), of 0] by auto
    obtain b1 where b1: "buf_push_back junk v b = Inr b1" "buf_wf b1" "content b1 = content b @ [v]" using p by blast
    then have "0 + length [op] \<le> b_size b1" using length_content [OF b1(2)] by simp
    then have "\<exists>b2. buf_poke (b_offset b1 + 0) [op] b1 = Inr b2" using buf_poke_window [OF b1(2)] by metis
    then show ?thesis using False v b1 length_content [OF b1(2)] by (auto simp: do_swap_def buf_set_at_def)
  qed (use p in \<open>auto simp: do_swap_def\<close>)
qed

text \<open>An example with a library that packs runs of one byte.\<close>

definition ex_comp_env :: comp_env where
  "ex_comp_env = \<lparr>ce_frame = replicate 16 (fc_ctor 128 512 64 0 16 0), ce_addr = 0, ce_junk = (\<lambda>_. 0),
     ce_lz4_compress = (\<lambda>x n. if 3 \<le> length x \<and> length x < 256 \<and> x = replicate (length x) (hd x) then Some [of_nat (length x), hd x] else None),
     ce_lz4_decompress = (\<lambda>y n. case y of [k, v] \<Rightarrow> if int (unat k) \<le> n then Some (replicate (unat k) v) else None | _ \<Rightarrow> None),
     ce_snappy_max = (\<lambda>n. n), ce_snappy_compress = (\<lambda>x. x), ce_snappy_length = (\<lambda>x. Some (length x)), ce_snappy_uncompress = Some\<rparr>"

definition ex_comp :: comp where
  "ex_comp = \<lparr>cm_work = buf_clear, cm_errors = 0\<rparr>"

lemma ex_comp_ok: "comp_env_ok ex_comp_env" "comp_libs_inverse ex_comp_env" "comp_ok ex_comp"
proof -
  have "fc_wf (fc_ctor 128 512 64 0 16 0)" "fc_adj_capacity (fc_ctor 128 512 64 0 16 0) + 1 < sz_max" "fc_payload (fc_ctor 128 512 64 0 16 0) = 512"
    by (simp_all add: fc_wf_def fc_ctor_def fc_recalc_derived_def sz_add_def sz_max_def)
  then show "comp_env_ok ex_comp_env"
    by (auto simp: comp_env_ok_def ex_comp_env_def N_ALIGN_CONTEXTS_def split: list.splits if_splits)
  have "unat (of_nat n :: byte) = n" if "n < 256" for n using that by (simp add: unat_of_nat)
  then show "comp_libs_inverse ex_comp_env"
    by (auto simp: comp_libs_inverse_def ex_comp_env_def split: if_splits)
  show "comp_ok ex_comp" by (simp add: comp_ok_def ex_comp_def buf_clear_def buf_wf_def sz_max_def)
qed

lemma ex_lz4_compresses:
  "\<exists>b c. comp_compress_op ex_comp_env (CompressLZ4 False) True (buf_alloc_data (\<lambda>_. 0) (replicate 20 7) 0) ex_comp = Inr (b, c) \<and> cm_errors c = 0 \<and> buf_wf b"
proof -
  let ?buf = "buf_alloc_data (\<lambda>_. 0) (replicate 20 7) 0" and ?fc = "fc_ctor 128 512 64 0 16 0"
  have b: "content ?buf = replicate 20 7" "b_size ?buf = 20"
    by (simp_all add: buf_alloc_data_def buf_alloc_def content_def overwrite_def Let_def)
  have fc: "ce_frame ex_comp_env ! COMPRESS_WORK = ?fc" "fc_payload ?fc = 512" "fc_tailroom ?fc = 64"
    by (simp_all add: ex_comp_env_def COMPRESS_WORK_def fc_ctor_def fc_recalc_derived_def Let_def)
  obtain w where w: "comp_prepare ex_comp_env COMPRESS_WORK (cm_work ex_comp) = Inr (512, w)" "buf_wf w" "b_size w = 0" "b_offset w + 512 + 64 \<le> b_capacity w"
    "b_capacity w + 1 < sz_max"
    by (rule comp_prepare_ok [OF ex_comp_ok(1,3), of COMPRESS_WORK]) (auto simp: COMPRESS_WORK_def N_ALIGN_CONTEXTS_def fc [unfolded COMPRESS_WORK_def])
  have lib: "ce_lz4_compress ex_comp_env (replicate 20 7) n = Some [20, 7]" for n by (simp add: ex_comp_env_def)
  obtain w2 where w2: "comp_output [20, 7] w = Inr w2" "buf_wf w2" "content w2 = [20, 7]" "b_capacity w2 = b_capacity w"
    using comp_output_ok [OF w(2,3), of "[20, 7]"] w(4) by auto
  obtain w1 where "buf_poke (b_offset w) [20, 7] w = Inr w1" "buf_set_size 2 w1 = Inr w2" using w2(1) by (auto simp: comp_output_def bindR_eq_Inr numeral_2_eq_2)
  then have "b_offset w1 = b_offset w" "b_offset w2 = b_offset w1" by (auto simp: buf_poke_def buf_set_size_def split: if_splits)
  then have o2: "b_offset w2 = b_offset w" "b_size w2 = 2" using w2(3) length_content [OF w2(2)] by simp_all
  have "512 \<le> buf_max_size w" using buf_max_size_exact [OF w(2)] w(4) by simp
  then have "lz4_do_compress ex_comp_env ?buf ex_comp = Inr (True, w2, ex_comp\<lparr>cm_work := ?buf\<rparr>)"
    using w2(1) by (auto simp: lz4_do_compress_def w(1) b lib lz4_extra_buffer_def comp_output_def bindR_eq_Inr Let_def)
  moreover obtain b' where "do_swap (ce_junk ex_comp_env) LZ4_COMPRESS w2 = Inr b'" using do_swap_room [OF w2(2)] o2 w2(4) w(4) by fastforce
  moreover have "buf_wf b'" using do_swap_Inr [OF w2(2) _ calculation(2)] w2(4) w(5) by simp
  ultimately show ?thesis by (simp add: lz4_compress_def b(2) ex_comp_def)
qed

theorem comp_round_trip_witness:
  "\<exists>b c b' c'. comp_compress_op ex_comp_env (CompressLZ4 False) True (buf_alloc_data (\<lambda>_. 0) (replicate 20 7) 0) ex_comp = Inr (b, c)
     \<and> comp_decompress_op ex_comp_env (CompressLZ4 False) b ex_comp = Inr (b', c') \<and> content b' = replicate 20 7"
proof -
  let ?buf = "buf_alloc_data (\<lambda>_. 0) (replicate 20 7) 0 :: buffer"
  obtain b c where r: "comp_compress_op ex_comp_env (CompressLZ4 False) True ?buf ex_comp = Inr (b, c)" "cm_errors c = 0" "buf_wf b" using ex_lz4_compresses by blast
  have buf: "buf_wf ?buf" "content ?buf = replicate 20 7" "b_size ?buf = 20" "b_capacity ?buf + 1 < sz_max"
    by (simp_all add: buf_alloc_data_def buf_alloc_def content_def overwrite_def buf_wf_def sz_max_def Let_def)
  have p: "b_size ?buf \<le> fc_payload (ce_frame ex_comp_env ! DECOMPRESS_WORK)"
    by (simp add: ex_comp_env_def DECOMPRESS_WORK_def fc_ctor_def fc_recalc_derived_def buf(3) Let_def)
  have "\<exists>b' c'. comp_decompress_op ex_comp_env (CompressLZ4 False) b ex_comp = Inr (b', c') \<and> content b' = content ?buf \<and> cm_errors c' = cm_errors ex_comp"
    by (rule comp_round_trip [OF ex_comp_ok(1,2,3,3) buf(1,4) p r(1) _ r(3) refl]) (simp add: r(2) ex_comp_def)
  then show ?thesis using r(1) unfolding buf(2) by blast
qed

section \<open>Arbitrary packets\<close>

text \<open>A packet as decryption leaves it: an owning buffer with two bytes of room behind the window.\<close>

definition comp_input :: "buffer \<Rightarrow> bool" where
  "comp_input b \<longleftrightarrow> buf_wf b \<and> b_flags b \<noteq> None \<and> b_capacity b + 1 < sz_max \<and> b_offset b + b_size b + 2 \<le> b_capacity b"

fun comp_outcome :: "(buffer \<times> comp) result \<Rightarrow> bool" where
  "comp_outcome (Inl e) = (\<exists>st. e = BufferException st)"
| "comp_outcome (Inr (b, c)) = (buf_wf b \<and> comp_ok c)"

lemma comp_error_outcome: "comp_ok c \<Longrightarrow> buf_wf b \<Longrightarrow> comp_outcome (Inr (comp_error b c))"
  by (auto simp: comp_error_def comp_ok_def buf_reset_size_def buf_wf_def)

lemma buf_pop_front_input:
  assumes "comp_input b" "buf_pop_front b = Inr (op, b1)"
  shows "comp_input b1 \<and> 0 < b_offset b1"
proof -
  have n: "b_size b \<noteq> 0" using assms(2) by (cases "b_size b = 0") (auto simp: buf_pop_front_def buf_at_def)
  then have "b1 = b\<lparr>b_offset := b_offset b + 1, b_size := b_size b - 1\<rparr>" using assms buf_pop_front_eq [of b] by (auto simp: comp_input_def)
  then show ?thesis using assms(1) n wf_consume [of b 1] by (auto simp: comp_input_def)
qed

lemma do_unswap_input:
  assumes "comp_input b" "0 < b_offset b"
  shows "\<exists>b1. do_unswap b = Inr b1 \<and> comp_input b1"
proof (cases "b_size b \<ge> 2")
  case True
  have w: "buf_wf b" using assms(1) by (simp add: comp_input_def)
  let ?b = "b\<lparr>b_size := b_size b - 1\<rparr>"
  obtain x where "buf_peek (b_offset b + (b_size b - 1)) 1 b = Inr [x]"
    using buf_peek_window [OF w, of "b_size b - 1" 1] True length_content [OF w]
    by (auto simp: take_Suc_conv_app_nth Cons_nth_drop_Suc [symmetric])
  then have p: "buf_pop_back b = Inr (x, ?b)" using True by (simp add: buf_pop_back_def)
  have w1: "buf_wf ?b" using wf_shrink [OF w] by simp
  obtain b1 where b1: "buf_push_front x ?b = Inr b1" "buf_wf b1" "b_capacity b1 = b_capacity b" using buf_push_front_eq [OF w1, of x] assms(2) by auto
  have "b_offset b1 = b_offset b - 1" "b_size b1 = b_size b" "b_flags b1 = b_flags b"
    using b1(1) assms(2) True by (auto simp: buf_push_front_def buf_poke_def split: if_splits)
  then show ?thesis using p b1 True assms by (auto simp: do_unswap_def comp_input_def)
qed (use assms in \<open>simp add: do_unswap_def\<close>)

lemma comp_input_ok: "comp_input b \<Longrightarrow> comp_ok (c\<lparr>cm_work := b\<rparr>)" "comp_input b \<Longrightarrow> buf_wf b"
  by (simp_all add: comp_input_def comp_ok_def)

lemma lzo_decompress_work_outcome:
  assumes env: "comp_env_ok env" and c: "comp_ok c" and b: "comp_input b"
  shows "comp_outcome (lzo_decompress_work env b c)"
proof -
  let ?n = "fc_payload (ce_frame env ! DECOMPRESS_WORK)"
  obtain w where w: "comp_prepare env DECOMPRESS_WORK (cm_work c) = Inr (?n, w)" "buf_wf w" "b_size w = 0" "b_flags w \<noteq> None"
    "b_offset w + ?n + fc_tailroom (ce_frame env ! DECOMPRESS_WORK) \<le> b_capacity w" "b_capacity w + 1 < sz_max" "?n < 2 ^ 31"
    by (rule comp_prepare_ok [OF env c, of DECOMPRESS_WORK]) (auto simp: DECOMPRESS_WORK_def N_ALIGN_CONTEXTS_def)
  let ?mem = "drop (b_offset b) (b_data b)" and ?out = "drop (b_offset w) (b_data w)"
  have "b_size b + 2 \<le> length ?mem" "?n \<le> length ?out" using b w by (auto simp: comp_input_def buf_wf_def)
  from lzo_decompress_total [OF this w(7)] obtain code n out' where
    r: "lzo1x_decompress_safe ?mem (b_size b) ?out ?n = Some (Inr (code, n, out'))" "n \<le> ?n" "length out' = length ?out" by blast
  let ?w = "w\<lparr>b_data := take (b_offset w) (b_data w) @ out'\<rparr>"
  have wf: "buf_wf ?w" using w r(3) by (auto simp: buf_wf_def)
  have "comp_ok (c\<lparr>cm_work := ?w\<rparr>)" using wf w by (simp add: comp_ok_def)
  moreover have "buf_set_size n ?w = Inr (?w\<lparr>b_size := n\<rparr>)" "buf_wf (?w\<lparr>b_size := n\<rparr>)"
    using buf_max_size_exact [OF wf] wf w(5) r(2) by (auto simp: buf_set_size_def buf_wf_def)
  ultimately show ?thesis
    using comp_error_outcome comp_input_ok [OF b] by (auto simp: lzo_decompress_work_def w(1) r(1) Let_def)
qed

lemma lz4_do_decompress_outcome:
  assumes env: "comp_env_ok env" and c: "comp_ok c" and b: "comp_input b"
  shows "comp_outcome (bindR (lz4_do_decompress env b c) (\<lambda>(_, r). Inr r))"
proof -
  let ?n = "fc_payload (ce_frame env ! DECOMPRESS_WORK)"
  show ?thesis
  proof (cases "ce_lz4_decompress env (content b) (int ?n)")
    case None
    obtain w where w: "comp_prepare env DECOMPRESS_WORK (cm_work c) = Inr (?n, w)" "buf_wf w" "b_flags w \<noteq> None" "b_capacity w + 1 < sz_max" "?n < 2 ^ 31"
      by (rule comp_prepare_ok [OF env c, of DECOMPRESS_WORK]) (auto simp: DECOMPRESS_WORK_def N_ALIGN_CONTEXTS_def)
    have "comp_outcome (Inr (comp_error b (c\<lparr>cm_work := w\<rparr>)))"
      by (rule comp_error_outcome) (use w b in \<open>auto simp: comp_ok_def comp_input_def\<close>)
    then show ?thesis using w None by (simp add: lz4_do_decompress_def comp_error_def)
  next
    case (Some out)
    then show ?thesis using lz4_do_decompress_ok [OF env c, of b out] comp_input_ok [OF b] by auto
  qed
qed

lemma snappy_unpack_outcome:
  assumes env: "comp_env_ok env" and c: "comp_ok c" and b: "comp_input b"
  shows "comp_outcome (snappy_unpack env b c)"
proof -
  let ?n = "fc_payload (ce_frame env ! DECOMPRESS_WORK)"
  show ?thesis
  proof (cases "\<exists>out. ce_snappy_length env (content b) = Some (length out) \<and> ce_snappy_uncompress env (content b) = Some out \<and> length out \<le> ?n")
    case True
    then obtain w where "snappy_unpack env b c = Inr (w, c\<lparr>cm_work := b\<rparr>)" "buf_wf w" using snappy_unpack_ok [OF env c, of b] by blast
    then show ?thesis using comp_input_ok [OF b] by simp
  next
    case False
    obtain w where w: "comp_prepare env DECOMPRESS_WORK (cm_work c) = Inr (?n, w)" "buf_wf w" "b_flags w \<noteq> None" "b_capacity w + 1 < sz_max"
      by (rule comp_prepare_ok [OF env c, of DECOMPRESS_WORK]) (auto simp: DECOMPRESS_WORK_def N_ALIGN_CONTEXTS_def)
    have l: "length out = n" if "ce_snappy_length env (content b) = Some n" "ce_snappy_uncompress env (content b) = Some out" for n out
      using that env unfolding comp_env_ok_def by blast
    have "snappy_unpack env b c = Inr (comp_error b (c\<lparr>cm_work := w\<rparr>))"
    proof (cases "ce_snappy_length env (content b)")
      case (Some n)
      show ?thesis
      proof (cases "ce_snappy_uncompress env (content b)")
        case (Some out)
        then have "\<not> n \<le> ?n" using False l [OF \<open>ce_snappy_length env (content b) = Some n\<close> Some] \<open>ce_snappy_length env (content b) = Some n\<close> by blast
        then show ?thesis using w(1) \<open>ce_snappy_length env (content b) = Some n\<close> by (simp add: snappy_unpack_def)
      qed (simp add: snappy_unpack_def w(1) Some Let_def)
    qed (simp add: snappy_unpack_def w(1) Let_def)
    moreover have "comp_outcome (Inr (comp_error b (c\<lparr>cm_work := w\<rparr>)))"
      by (rule comp_error_outcome) (use w b in \<open>auto simp: comp_ok_def comp_input_def\<close>)
    ultimately show ?thesis by simp
  qed
qed

text \<open>The two ways a packet is opened: with an op byte, which may be an unknown one, and with the escape.\<close>

lemma op_byte_outcome:
  assumes "comp_input b" "\<And>op b1. comp_input b1 \<Longrightarrow> 0 < b_offset b1 \<Longrightarrow> comp_outcome (f op b1)"
  shows "comp_outcome (bindR (buf_pop_front b) (\<lambda>(op, b1). f op b1))"
proof (cases "buf_pop_front b")
  case (Inl e)
  then show ?thesis using buf_pop_front_eq [of b] assms(1) by (auto simp: comp_input_def split: if_splits)
next
  case (Inr p)
  then show ?thesis using buf_pop_front_input [OF assms(1), of "fst p" "snd p"] assms(2) by (cases p) auto
qed

lemma unswap_outcome:
  assumes "comp_input b" "0 < b_offset b" "\<And>b1. comp_input b1 \<Longrightarrow> comp_outcome (f b1)"
  shows "comp_outcome (bindR (do_unswap b) f)"
  using do_unswap_input [OF assms(1,2)] assms(3) by auto

lemma escape_outcome:
  assumes "comp_input b" "\<And>v b1. comp_input b1 \<Longrightarrow> comp_outcome (f v b1)"
  shows "comp_outcome (bindR (v2_pull b) (\<lambda>(v, b1). f v b1))"
proof -
  have w: "buf_wf b" using assms(1) by (simp add: comp_input_def)
  let ?b = "b\<lparr>b_offset := b_offset b + 2, b_size := b_size b - 2\<rparr>"
  have "comp_input ?b" if "2 \<le> b_size b" using assms(1) that wf_consume [OF w that] by (auto simp: comp_input_def)
  then show ?thesis using assms buf_at_eq [OF w]
    by (cases "content b ! 0 = COMPRESS_V2_ESCAPE"; cases "2 \<le> b_size b") (auto simp: v2_pull_def buf_advance_def)
qed



section \<open>Names and errors\<close>

text \<open>The name of each method is parsed back as the method, but for LZ4v2: \<open>lz4v2\<close> is printed and \<open>lz4-v2\<close> expected.\<close>

lemma method_names: "method_to_string cc = Some m \<Longrightarrow> parse_method m = (if cc_type cc = LZ4v2 then NONE else cc_type cc)"
  by (cases "cc_type cc") (auto simp: method_to_string_def parse_method_def)

text \<open>A context made for a method of the build has a compressor.\<close>

lemma new_compressor_available: "cc_ctor bd t asymm = Inr cc \<Longrightarrow> \<exists>k. new_compressor bd cc = Inr k"
  by (cases t) (auto simp: cc_ctor_def new_compressor_def split: if_splits)

text \<open>The framing adds at most the bytes \<open>extra_payload_bytes\<close> announces.\<close>

lemma plain_overhead:
  assumes "buf_wf buf" "b_capacity buf + 1 < sz_max" "b_size buf \<noteq> 0" "cc_type cc \<in> {NONE, COMP_STUB, COMP_STUBv2, ANY, ANY_LZO, LZO, LZO_SWAP, LZO_STUB}"
    and "new_compressor bd cc = Inr k" "comp_compress_op env k hint buf c = Inr (buf', c')"
  shows "length (content buf') \<le> b_size buf + extra_payload_bytes cc"
proof -
  obtain x xs where x: "content buf = x # xs" using assms(1,3) length_content [OF assms(1)] by (cases "content buf") auto
  then have n: "b_size buf = Suc (length xs)" using length_content [OF assms(1)] by simp
  have pl: "length (content buf') = Suc (b_size buf)" if "comp_plain env sw buf c = Inr (buf', c')" for sw
  proof (cases sw)
    case True
    then show ?thesis using that do_swap_Inr [OF assms(1,2), of "ce_junk env" NO_COMPRESS_SWAP buf'] x n by (auto simp: comp_plain_def bindR_eq_Inr)
  next
    case False
    then have f: "buf_push_front NO_COMPRESS buf = Inr buf'" using that by (auto simp: comp_plain_def bindR_eq_Inr)
    then have "b_offset buf > 0" by (auto simp: buf_push_front_def split: if_splits)
    with f buf_push_front_eq [OF assms(1), of NO_COMPRESS] x n show ?thesis by auto
  qed
  show ?thesis using assms(3-6) pl v2_push_Inr [OF assms(1) x, of OVPN_COMPv2_NONE buf'] x n length_content [OF assms(1)]
    by (auto simp: new_compressor_def extra_payload_bytes_def bindR_eq_Inr split: if_splits)
qed

text \<open>
  When LZ4 cannot take a packet, \<open>do_compress\<close> empties it; the version 2 framing then looks at the first byte of
  an empty packet and raises an exception.
\<close>

lemma lz4v2_compress_error:
  assumes "lz4_do_compress env buf c = Inr (False, b, c1)" "b_size b = 0"
  shows "lz4v2_compress env False True buf c = Inl (BufferException buffer_const_index)"
  using assms by (simp add: lz4v2_compress_def v2_push_def buf_at_def)

end
