(* ===== verification/Crypto_Algs.thy ===== *)
theory Crypto_Algs
  imports OV_Prelude
begin

text \<open>
  The algorithms of the data channel: the table of crypto/cryptoalgs.hpp with its lookups and the algorithms that are
  allowed, the usage limit of AEAD ciphers (crypto/aead_usage_limit.hpp), and the settings of crypto/cryptodc.hpp. The
  table is a global array that the code changes: it is passed and returned. Names compare as \<open>strcasecmp\<close>
  does in the C locale.
\<close>

section \<open>The table\<close>

datatype alg_type =
    ALG_NONE
  | AES_128_CBC
  | AES_192_CBC
  | AES_256_CBC
  | DES_CBC
  | DES_EDE3_CBC
  | BF_CBC
  | AES_256_CTR
  | AES_128_GCM
  | AES_192_GCM
  | AES_256_GCM
  | CHACHA20_POLY1305
  | MD4
  | MD5
  | SHA1
  | SHA224
  | SHA256
  | SHA384
  | SHA512
  | ALG_SIZE

text \<open>The values of the enumeration in order: casts go through the position.\<close>

definition alg_types :: "alg_type list" where
  "alg_types = [ALG_NONE, AES_128_CBC, AES_192_CBC, AES_256_CBC, DES_CBC, DES_EDE3_CBC, BF_CBC, AES_256_CTR, AES_128_GCM,
     AES_192_GCM, AES_256_GCM, CHACHA20_POLY1305, MD4, MD5, SHA1, SHA224, SHA256, SHA384, SHA512, ALG_SIZE]"

fun alg_index :: "alg_type \<Rightarrow> nat" where
  "alg_index ALG_NONE = 0"
| "alg_index AES_128_CBC = 1"
| "alg_index AES_192_CBC = 2"
| "alg_index AES_256_CBC = 3"
| "alg_index DES_CBC = 4"
| "alg_index DES_EDE3_CBC = 5"
| "alg_index BF_CBC = 6"
| "alg_index AES_256_CTR = 7"
| "alg_index AES_128_GCM = 8"
| "alg_index AES_192_GCM = 9"
| "alg_index AES_256_GCM = 10"
| "alg_index CHACHA20_POLY1305 = 11"
| "alg_index MD4 = 12"
| "alg_index MD5 = 13"
| "alg_index SHA1 = 14"
| "alg_index SHA224 = 15"
| "alg_index SHA256 = 16"
| "alg_index SHA384 = 17"
| "alg_index SHA512 = 18"
| "alg_index ALG_SIZE = 19"

definition ALG_MODE_UNDEF :: u32 where "ALG_MODE_UNDEF = 0"
definition CBC_HMAC :: u32 where "CBC_HMAC = 1"
definition AEAD :: u32 where "AEAD = 2"
definition MODE_MASK :: u32 where "MODE_MASK = 0x03"
definition F_CIPHER :: u32 where "F_CIPHER = 4"
definition F_DIGEST :: u32 where "F_DIGEST = 8"
definition F_ALLOW_DC :: u32 where "F_ALLOW_DC = 16"
definition gcm_limit :: u64 where "gcm_limit = 0xFFFFFFFFF"

lemmas alg_flag_defs = ALG_MODE_UNDEF_def CBC_HMAC_def AEAD_def MODE_MASK_def F_CIPHER_def F_DIGEST_def F_ALLOW_DC_def

record alg =
  ag_name :: string
  ag_flags :: u32
  ag_size :: size_t
  ag_iv_length :: size_t
  ag_block_size :: size_t
  ag_usage_limit :: u64

definition alg_ctor :: "string \<Rightarrow> u32 \<Rightarrow> size_t \<Rightarrow> size_t \<Rightarrow> size_t \<Rightarrow> u64 \<Rightarrow> alg" where
  "alg_ctor n flags sz iv block lim =
     \<lparr>ag_name = n, ag_flags = flags, ag_size = sz, ag_iv_length = iv, ag_block_size = block, ag_usage_limit = lim\<rparr>"

definition alg_mode :: "alg \<Rightarrow> u32" where
  "alg_mode a = ag_flags a AND MODE_MASK"

definition alg_dc_cipher :: "alg \<Rightarrow> bool" where
  "alg_dc_cipher a \<longleftrightarrow> ag_flags a AND F_CIPHER \<noteq> 0 \<and> ag_flags a AND F_ALLOW_DC \<noteq> 0"

definition alg_dc_digest :: "alg \<Rightarrow> bool" where
  "alg_dc_digest a \<longleftrightarrow> ag_flags a AND F_DIGEST \<noteq> 0 \<and> ag_flags a AND F_ALLOW_DC \<noteq> 0"

definition alg_allow_dc :: "bool \<Rightarrow> alg \<Rightarrow> alg" where
  "alg_allow_dc allow a =
     (if allow then a\<lparr>ag_flags := ag_flags a OR F_ALLOW_DC\<rparr> else a\<lparr>ag_flags := ag_flags a AND NOT F_ALLOW_DC\<rparr>)"

definition algs_init :: "alg list" where
  "algs_init =
     [alg_ctor ''none'' (F_CIPHER OR F_DIGEST OR CBC_HMAC) 0 0 0 0,
      alg_ctor ''AES-128-CBC'' (F_CIPHER OR CBC_HMAC) 16 16 16 0,
      alg_ctor ''AES-192-CBC'' (F_CIPHER OR CBC_HMAC) 24 16 16 0,
      alg_ctor ''AES-256-CBC'' (F_CIPHER OR CBC_HMAC) 32 16 16 0,
      alg_ctor ''DES-CBC'' (F_CIPHER OR CBC_HMAC) 8 8 8 0,
      alg_ctor ''DES-EDE3-CBC'' (F_CIPHER OR CBC_HMAC) 24 8 8 0,
      alg_ctor ''BF-CBC'' (F_CIPHER OR CBC_HMAC) 16 8 8 0,
      alg_ctor ''AES-256-CTR'' F_CIPHER 32 16 16 0,
      alg_ctor ''AES-128-GCM'' (F_CIPHER OR AEAD) 16 12 16 gcm_limit,
      alg_ctor ''AES-192-GCM'' (F_CIPHER OR AEAD) 24 12 16 gcm_limit,
      alg_ctor ''AES-256-GCM'' (F_CIPHER OR AEAD) 32 12 16 gcm_limit,
      alg_ctor ''CHACHA20-POLY1305'' (F_CIPHER OR AEAD) 32 12 16 0,
      alg_ctor ''MD4'' F_DIGEST 16 0 0 0,
      alg_ctor ''MD5'' F_DIGEST 16 0 0 0,
      alg_ctor ''SHA1'' F_DIGEST 20 0 0 0,
      alg_ctor ''SHA224'' F_DIGEST 28 0 0 0,
      alg_ctor ''SHA256'' F_DIGEST 32 0 0 0,
      alg_ctor ''SHA384'' F_DIGEST 48 0 0 0,
      alg_ctor ''SHA512'' F_DIGEST 64 0 0 0]"

section \<open>Lookups\<close>

definition alg_defined :: "alg_type \<Rightarrow> bool" where
  "alg_defined t \<longleftrightarrow> t \<noteq> ALG_NONE"

definition alg_get_index :: "alg list \<Rightarrow> size_t \<Rightarrow> alg result" where
  "alg_get_index algs i = (if i \<ge> length algs then Inl crypto_alg_index else Inr (algs ! i))"

definition alg_get :: "alg list \<Rightarrow> alg_type \<Rightarrow> alg result" where
  "alg_get algs t = alg_get_index algs (alg_index t)"

text \<open>\<open>strcasecmp(a, b) == 0\<close>\<close>

definition c_tolower :: "char \<Rightarrow> char" where
  "c_tolower c = (if 65 \<le> (of_char c :: nat) \<and> (of_char c :: nat) \<le> 90 then char_of ((of_char c :: nat) + 32) else c)"

definition strcaseeq :: "string \<Rightarrow> string \<Rightarrow> bool" where
  "strcaseeq a b \<longleftrightarrow> map c_tolower a = map c_tolower b"

fun alg_lookup_loop :: "string \<Rightarrow> (alg_type \<times> alg) list \<Rightarrow> alg_type result" where
  "alg_lookup_loop n [] = Inl (crypto_alg (n @ '': not found''))"
| "alg_lookup_loop n ((t, a) # rest) = (if strcaseeq n (ag_name a) then Inr t else alg_lookup_loop n rest)"

definition alg_lookup :: "alg list \<Rightarrow> string \<Rightarrow> alg_type result" where
  "alg_lookup algs n = alg_lookup_loop n (zip alg_types algs)"

definition alg_name :: "alg list \<Rightarrow> alg_type \<Rightarrow> string option \<Rightarrow> string result" where
  "alg_name algs t default_name =
     (case default_name of
        Some d \<Rightarrow> if t = ALG_NONE then Inr d else bindR (alg_get algs t) (\<lambda>a. Inr (ag_name a))
      | None \<Rightarrow> bindR (alg_get algs t) (\<lambda>a. Inr (ag_name a)))"

definition alg_size :: "alg list \<Rightarrow> alg_type \<Rightarrow> size_t result" where
  "alg_size algs t = bindR (alg_get algs t) (\<lambda>a. Inr (ag_size a))"

definition alg_key_length :: "alg list \<Rightarrow> alg_type \<Rightarrow> size_t result" where
  "alg_key_length algs t = bindR (alg_get algs t) (\<lambda>a. Inr (ag_size a))"

definition alg_iv_length :: "alg list \<Rightarrow> alg_type \<Rightarrow> size_t result" where
  "alg_iv_length algs t = bindR (alg_get algs t) (\<lambda>a. Inr (ag_iv_length a))"

definition alg_block_size :: "alg list \<Rightarrow> alg_type \<Rightarrow> size_t result" where
  "alg_block_size algs t = bindR (alg_get algs t) (\<lambda>a. Inr (ag_block_size a))"

definition alg_aead_usage_limit :: "alg list \<Rightarrow> alg_type \<Rightarrow> u64 result" where
  "alg_aead_usage_limit algs t = bindR (alg_get algs t) (\<lambda>a. Inr (ag_usage_limit a))"

section \<open>What is allowed\<close>

definition legal_dc_cipher :: "alg list \<Rightarrow> alg_type \<Rightarrow> alg_type result" where
  "legal_dc_cipher algs t =
     bindR (alg_get algs t) (\<lambda>a.
       if \<not> alg_dc_cipher a then Inl (crypto_alg (ag_name a @ '': bad cipher for data channel use'')) else Inr t)"

definition legal_dc_digest :: "alg list \<Rightarrow> alg_type \<Rightarrow> alg_type result" where
  "legal_dc_digest algs t =
     bindR (alg_get algs t) (\<lambda>a.
       if \<not> alg_dc_digest a then Inl (crypto_alg (ag_name a @ '': bad digest for data channel use'')) else Inr t)"

definition dc_cbc_cipher :: "alg list \<Rightarrow> alg_type \<Rightarrow> alg_type result" where
  "dc_cbc_cipher algs t =
     bindR (alg_get algs t) (\<lambda>a.
       if \<not> ag_flags a AND CBC_HMAC \<noteq> 0 then Inl (crypto_alg (ag_name a @ '': bad cipher for data channel use'')) else Inr t)"

definition dc_cbc_hash :: "alg list \<Rightarrow> alg_type \<Rightarrow> alg_type result" where
  "dc_cbc_hash algs t =
     bindR (alg_get algs t) (\<lambda>a.
       if \<not> ag_flags a AND F_DIGEST \<noteq> 0 then Inl (crypto_alg (ag_name a @ '': bad digest for data channel use'')) else Inr t)"

fun alg_allow_each :: "alg_type list \<Rightarrow> alg list \<Rightarrow> alg list result" where
  "alg_allow_each [] algs = Inr algs"
| "alg_allow_each (t # ts) algs =
     (if alg_index t < length algs
      then alg_allow_each ts (algs[alg_index t := alg_allow_dc True (algs ! alg_index t)]) else Inl out_of_range)"

definition allow_dc_algs :: "alg_type list \<Rightarrow> alg list \<Rightarrow> alg list result" where
  "allow_dc_algs ts algs = alg_allow_each ts (map (alg_allow_dc False) algs)"

text \<open>The function given to \<open>for_each\<close> in \<open>allow_default_dc_algs\<close>; \<open>aead\<close> and \<open>cbc\<close> say what the library supports.\<close>

definition alg_default :: "(alg_type \<Rightarrow> bool) \<Rightarrow> (alg_type \<Rightarrow> bool) \<Rightarrow> bool \<Rightarrow> bool \<Rightarrow> alg_type \<Rightarrow> alg \<Rightarrow> bool" where
  "alg_default aead cbc preferred legacy t a =
     (if t = MD4 \<or> t = AES_256_CTR then False
      else if preferred \<and> alg_mode a \<noteq> AEAD then False
      else if alg_mode a = AEAD \<and> \<not> aead t then False
      else if ag_flags a AND F_CIPHER \<noteq> 0 \<and> \<not> legacy \<and> ag_block_size a \<le> 8 then False
      else if ag_flags a AND F_DIGEST \<noteq> 0 \<and> \<not> legacy \<and> ag_size a < 20 then False
      else if (ag_flags a AND F_CIPHER \<noteq> 0 \<and> alg_mode a \<noteq> AEAD \<and> t \<noteq> ALG_NONE) \<and> \<not> cbc t then False
      else True)"

definition allow_default_dc_algs :: "(alg_type \<Rightarrow> bool) \<Rightarrow> (alg_type \<Rightarrow> bool) \<Rightarrow> bool \<Rightarrow> bool \<Rightarrow> alg list \<Rightarrow> alg list" where
  "allow_default_dc_algs aead cbc preferred legacy algs =
     map (\<lambda>(t, a). if alg_default aead cbc preferred legacy t a then alg_allow_dc True a else a)
       (zip alg_types (map (alg_allow_dc False) algs))"

definition use_cipher_digest :: "alg list \<Rightarrow> alg_type \<Rightarrow> bool result" where
  "use_cipher_digest algs t = bindR (alg_get algs t) (\<lambda>a. Inr (alg_mode a \<noteq> AEAD))"

section \<open>\<open>AEADUsageLimit\<close>\<close>

record usage_limit =
  ul_invocations :: u64
  ul_plaintext_blocks :: u64
  ul_limit :: u64

definition ul_default :: usage_limit where
  "ul_default = \<lparr>ul_invocations = 0, ul_plaintext_blocks = 0, ul_limit = gcm_limit\<rparr>"

definition ul_ctor :: "alg list \<Rightarrow> alg_type \<Rightarrow> usage_limit result" where
  "ul_ctor algs t = bindR (alg_aead_usage_limit algs t) (\<lambda>lim. Inr (ul_default\<lparr>ul_limit := lim\<rparr>))"

definition aead_blocksize :: nat where "aead_blocksize = 16"

definition ul_update :: "size_t \<Rightarrow> usage_limit \<Rightarrow> usage_limit" where
  "ul_update outlen u =
     u\<lparr>ul_plaintext_blocks := ul_plaintext_blocks u + of_nat (sz_add outlen (aead_blocksize - 1) div aead_blocksize),
       ul_invocations := ul_invocations u + 1\<rparr>"

definition usage_limit_reached :: "usage_limit \<Rightarrow> bool" where
  "usage_limit_reached u = (if ul_limit u = 0 then False else ul_plaintext_blocks u + ul_invocations u > ul_limit u)"

definition usage_limit_warn :: "usage_limit \<Rightarrow> bool" where
  "usage_limit_warn u = (if ul_limit u = 0 then False else ul_plaintext_blocks u + ul_invocations u > ul_limit u div 8 * 7)"

section \<open>\<open>CryptoDCSettings\<close>\<close>

datatype key_derivation = KD_UNDEFINED | OPENVPN_PRF | TLS_EKM

record dc_settings =
  ds_cipher :: alg_type
  ds_digest :: alg_type
  ds_key_derivation :: key_derivation
  ds_use_epoch_keys :: bool
  ds_dirty :: bool
  ds_factory :: bool
  ds_context :: "(alg_type \<times> alg_type \<times> bool) option"

definition ds_default :: dc_settings where
  "ds_default = \<lparr>ds_cipher = ALG_NONE, ds_digest = ALG_NONE, ds_key_derivation = OPENVPN_PRF, ds_use_epoch_keys = False,
     ds_dirty = False, ds_factory = False, ds_context = None\<rparr>"

definition ds_get_digest :: "alg list \<Rightarrow> dc_settings \<Rightarrow> alg_type result" where
  "ds_get_digest algs s =
     bindR (use_cipher_digest algs (ds_cipher s)) (\<lambda>u. Inr (if u then ds_digest s else ALG_NONE))"

definition ds_set_factory :: "bool \<Rightarrow> dc_settings \<Rightarrow> dc_settings" where
  "ds_set_factory f s = s\<lparr>ds_factory := f, ds_context := None, ds_dirty := False\<rparr>"

definition ds_set_cipher :: "alg_type \<Rightarrow> dc_settings \<Rightarrow> dc_settings" where
  "ds_set_cipher c s = (if c \<noteq> ds_cipher s then s\<lparr>ds_cipher := c, ds_dirty := True\<rparr> else s)"

definition ds_set_digest :: "alg list \<Rightarrow> alg_type \<Rightarrow> dc_settings \<Rightarrow> dc_settings result" where
  "ds_set_digest algs d s =
     bindR (ds_get_digest algs s) (\<lambda>cur. Inr (if d \<noteq> cur then s\<lparr>ds_digest := d, ds_dirty := True\<rparr> else s))"

definition ds_set_use_epoch_keys :: "bool \<Rightarrow> dc_settings \<Rightarrow> dc_settings" where
  "ds_set_use_epoch_keys v s = (if v \<noteq> ds_use_epoch_keys s then s\<lparr>ds_use_epoch_keys := v, ds_dirty := True\<rparr> else s)"

text \<open>\<open>context()\<close>: the context is made from the settings it is given, again whenever they have changed.\<close>

definition ds_get_context :: "alg list \<Rightarrow> dc_settings \<Rightarrow> ((alg_type \<times> alg_type \<times> bool) \<times> dc_settings) result" where
  "ds_get_context algs s =
     (case (if ds_dirty s then None else ds_context s) of
        Some c \<Rightarrow> Inr (c, s)
      | None \<Rightarrow>
          if \<not> ds_factory s then Inl no_data_channel_factory
          else bindR (ds_get_digest algs s) (\<lambda>d.
               let c = (ds_cipher s, d, ds_use_epoch_keys s) in Inr (c, s\<lparr>ds_context := Some c, ds_dirty := False\<rparr>)))"

definition ds_reset :: "dc_settings \<Rightarrow> dc_settings" where
  "ds_reset s = s\<lparr>ds_factory := False, ds_context := None, ds_dirty := False\<rparr>"

section \<open>Facts\<close>

lemma alg_types_nth: "alg_types ! alg_index t = t" "alg_index t < 20"
  by (cases t; simp add: alg_types_def)+

text \<open>Every algorithm is found under its name, in whatever case.\<close>

lemma alg_lookup_loop_case:
  "strcaseeq m n \<Longrightarrow> alg_lookup_loop n l = Inr t \<Longrightarrow> alg_lookup_loop m l = Inr t"
  by (induction n l rule: alg_lookup_loop.induct) (auto simp: strcaseeq_def split: if_splits)

lemma lookup_name:
  assumes "alg_name algs_init t None = Inr n" "strcaseeq m n"
  shows "alg_lookup algs_init m = Inr t"
proof -
  have "alg_lookup algs_init n = Inr t"
    using assms(1)
    by (cases t) (auto simp: alg_name_def alg_get_def alg_get_index_def algs_init_def alg_lookup_def alg_types_def strcaseeq_def alg_ctor_def c_tolower_def)
  then show ?thesis unfolding alg_lookup_def by (rule alg_lookup_loop_case [OF assms(2)])
qed

text \<open>Without \<open>legacy\<close> no cipher with a block of 64 bits or less is allowed; with \<open>preferred\<close> only AEAD ciphers are.\<close>

lemma default_algs_sound:
  assumes "legal_dc_cipher (allow_default_dc_algs aead cbc preferred legacy algs_init) t = Inr t'"
  shows "(preferred \<longrightarrow> t \<in> {AES_128_GCM, AES_192_GCM, AES_256_GCM, CHACHA20_POLY1305})
    \<and> (\<not> legacy \<longrightarrow> t \<in> {AES_128_GCM, AES_192_GCM, AES_256_GCM, CHACHA20_POLY1305, AES_128_CBC, AES_192_CBC, AES_256_CBC})"
  using assms
  by (cases t)
    (auto simp: legal_dc_cipher_def alg_get_def alg_get_index_def allow_default_dc_algs_def algs_init_def alg_types_def alg_ctor_def
      alg_default_def alg_allow_dc_def alg_dc_cipher_def alg_mode_def alg_flag_defs split: if_splits)

text \<open>The warning comes no later than the limit.\<close>

lemma warn_before_limit: "usage_limit_reached u \<Longrightarrow> usage_limit_warn u"
proof -
  have "ul_limit u div 8 * 7 \<le> ul_limit u"
  proof -
    have "unat (ul_limit u) div 8 * 7 \<le> unat (ul_limit u)" by simp
    moreover have "unat (ul_limit u div 8 * 7) \<le> unat (ul_limit u) div 8 * 7"
      using unat_mult_lem [of "ul_limit u div 8" 7] by (simp add: unat_div unat_word_ariths)
    ultimately show ?thesis by (simp add: word_le_nat_alt)
  qed
  then show "usage_limit_reached u \<Longrightarrow> usage_limit_warn u"
    by (auto simp: usage_limit_reached_def usage_limit_warn_def split: if_splits)
qed

text \<open>The context in use always has the current settings.\<close>

lemma context_current:
  assumes "ds_get_context algs s = Inr (c, s')" "\<not> ds_dirty s \<and> ds_context s \<noteq> None \<longrightarrow> (\<exists>d. ds_get_digest algs s = Inr d \<and> ds_context s = Some (ds_cipher s, d, ds_use_epoch_keys s))"
  shows "\<exists>d. ds_get_digest algs s = Inr d \<and> c = (ds_cipher s, d, ds_use_epoch_keys s) \<and> \<not> ds_dirty s'"
  using assms by (cases c) (auto simp: ds_get_context_def bindR_eq_Inr Let_def split: if_splits option.splits)

end
