(* ===== verification/Data_Channel.thy ===== *)
theory Data_Channel
  imports Crypto_Algs Key_Context Packet_Id_Data Frame_Context
begin

text \<open>
  What the ways to encrypt the data channel share: work buffers, the 32-bit packet IDs in front of a packet, what a
  key context hands on of a received packet, and the lossy channel between two ends, with the interface \<open>dc_pair\<close>
  between what an encryption mode promises of single packets and the delivery of sequences of them.
\<close>

section \<open>\<open>CryptoDCInstance\<close>\<close>

definition DC_CIPHER_DEFINED :: u32 where "DC_CIPHER_DEFINED = 1"
definition DC_HMAC_DEFINED :: u32 where "DC_HMAC_DEFINED = 2"
definition DC_CRYPTO_DEFINED :: u32 where "DC_CRYPTO_DEFINED = 4"

definition op32_size :: nat where "op32_size = 4"
definition op32_ok :: "byte list option \<Rightarrow> bool" where
  "op32_ok op32 \<longleftrightarrow> (case op32 of Some op \<Rightarrow> length op = op32_size | None \<Rightarrow> True)"

section \<open>Work buffers\<close>

definition work_ok :: "buffer \<Rightarrow> bool" where
  "work_ok w \<longleftrightarrow> buf_wf w \<and> b_flags w \<noteq> None"

lemma work_ok_reset: "work_ok b \<Longrightarrow> work_ok (buf_reset_size b)"
  by (auto simp: work_ok_def buf_reset_size_def buf_wf_def)

lemma work_output:
  assumes "work_ok w" "b_size w = 0" "b_offset w + length m \<le> b_capacity w"
  obtains w1 where "buf_poke (b_offset w) m w = Inr w1" "work_ok w1" "buf_set_size (length m) w1 = Inr (w1\<lparr>b_size := length m\<rparr>)"
    "work_ok (w1\<lparr>b_size := length m\<rparr>)" "content (w1\<lparr>b_size := length m\<rparr>) = m"
proof -
  let ?w = "w\<lparr>b_data := overwrite (b_offset w) m (b_data w)\<rparr>"
  have wf: "buf_wf ?w" "buf_wf (?w\<lparr>b_size := length m\<rparr>)" and l: "b_offset w \<le> length (b_data w)"
    using assms by (auto simp: buf_wf_def work_ok_def)
  moreover have "buf_poke (b_offset w) m w = Inr ?w" using assms by (simp add: buf_poke_def buf_wf_def work_ok_def)
  moreover have "buf_set_size (length m) ?w = Inr (?w\<lparr>b_size := length m\<rparr>)"
    using assms(3) buf_max_size_exact [OF wf(1)] by (simp add: buf_set_size_def)
  moreover have "content (?w\<lparr>b_size := length m\<rparr>) = m" using l by (simp add: content_def)
  ultimately show thesis using that assms(1) by (auto simp: work_ok_def)
qed

section \<open>Packet IDs\<close>

abbreviation wire_id :: "packet_id_data \<Rightarrow> byte list" where
  "wire_id p \<equiv> be_bytes 4 (ucast (pd_id p) :: u32)"

lemma pds_next_wide: "pds_next s = (r, s') \<Longrightarrow> pd_wide s' = pd_wide s \<and> (\<forall>p. r = Inr p \<longrightarrow> p = s')"
  by (auto simp: pds_next_def Let_def split: if_splits)

lemma pds_next_step:
  assumes "pds_next s = (Inr p, p')" "\<not> pd_wide s" "pd_id s < 0xffffffff"
  shows "pd_id s < pd_id p" "pd_id p < 0xffffffff" "ucast (ucast (pd_id p) :: u32) = pd_id p"
proof -
  have p: "pd_id p = pd_id s + 1" "pd_id p \<noteq> 0xffffffff"
    using assms(1,2) by (auto simp: pds_next_def pds_at_limit_def Let_def split: if_splits)
  have "unat (pd_id s) < unat (0xffffffff :: u64)" using assms(3) by (simp only: word_less_nat_alt)
  then have lt: "unat (pd_id s) < 0xffffffff" by simp
  then have u: "unat (pd_id p) = unat (pd_id s) + 1" unfolding p(1) by (intro unat_inc_bound) simp
  show "pd_id s < pd_id p" using u by (simp add: word_less_nat_alt)
  have "unat (pd_id p) \<noteq> 0xffffffff" using p(2) by (auto simp: word_unat_eq_iff)
  with u lt have "unat (pd_id p) < 0xffffffff" by simp
  then show "pd_id p < 0xffffffff" "ucast (ucast (pd_id p) :: u32) = pd_id p"
    by (simp_all add: word_less_nat_alt word_unat_eq_iff unsigned_ucast_eq take_bit_eq_mod unat_mod)
qed

lemma unat_ucast_u32 [simp]: "unat (ucast (x :: u32) :: u64) = unat x"
  by transfer simp

section \<open>Under a key context\<close>

lemma kc_decrypt_output:
  assumes k: "kc_keyed kc c" and n: "kc_data_limit kc = None" "\<not> kc_compress kc" "mss_fix cfg = 0" and b: "buf_wf b"
  obtains "content (fst (kc_decrypt api cfg now b kc)) = []"
    | h er b2 c2 where "dc_decrypt api now (if h = OP_SIZE_V2 then Some (take 4 (content b)) else None) (b\<lparr>b_offset := b_offset b + h, b_size := b_size b - h\<rparr>) c = (Inr er, b2, c2)"
      "content (fst (kc_decrypt api cfg now b kc)) = content b2" "h \<le> b_size b" "h = op_head_size (ucast (hd (content b)))"
proof -
  have out: "content (fst (kc_decrypt api cfg now b kc)) =
      (case kc_decrypt_body api cfg now b c kc of (Inl e, _, _) \<Rightarrow> [] | (Inr _, b1, _) \<Rightarrow> content b1)"
    using k by (auto simp: kc_decrypt_def kc_keyed_def buf_reset_size_def split: prod.split sum.split)
  show thesis
  proof (cases "b_size b = 0")
    case True
    then have "\<exists>e. buf_at b 0 = Inl e" by (simp add: buf_at_def)
    then show thesis using that(1) out by (auto simp: kc_decrypt_body_def)
  next
    case False
    have at: "buf_at b 0 = Inr (hd (content b))" using b False by (simp add: buf_at_eq hd_conv_nth flip: length_greater_0_conv)
    let ?h = "op_head_size (ucast (hd (content b)))"
    let ?b1 = "b\<lparr>b_offset := b_offset b + ?h, b_size := b_size b - ?h\<rparr>"
    show thesis
    proof (cases "?h \<le> b_size b")
      case False
      then have "\<exists>e. buf_advance ?h b = Inl e" by (simp add: buf_advance_def)
      then show thesis using that(1) out at by (auto simp: kc_decrypt_body_def Let_def)
    next
      case True
      obtain r b2 c2 where d: "dc_decrypt api now (if ?h = OP_SIZE_V2 then Some (take 4 (content b)) else None) ?b1 c = (r, b2, c2)" by (metis prod_cases3)
      have adv: "buf_advance ?h b = Inr ?b1" using True by (simp add: buf_advance_def)
      show thesis
      proof (cases r)
        case (Inl e)
        then have "\<exists>e b' kc'. kc_decrypt_body api cfg now b c kc = (Inl e, b', kc')"
          using at adv d by (simp add: kc_decrypt_body_def Let_def)
        then show thesis using that(1) out by auto
      next
        case (Inr er)
        then have "\<exists>kc'. kc_decrypt_body api cfg now b c kc = (Inr (), b2, kc')"
          using at adv d n by (auto simp: kc_decrypt_body_def kc_decrypt_finish_def kc_error_def kc_invalidate_def kc_invalidate_callback_def Let_def)
        then show thesis using that(2) [OF d [unfolded Inr]] out True by auto
      qed
    qed
  qed
qed

section \<open>A lossy channel\<close>

text \<open>
  Messages are encrypted, lost or carried to the peer in the buffer \<open>wire\<close> makes of their bytes, and decrypted
  there. The result is what the receiver hands on, \<open>None\<close> if a call throws or a packet is not accepted.
\<close>

type_synonym dc_input = "int \<times> byte list option \<times> buffer"

fun dc_deliver :: "(byte list option \<Rightarrow> buffer \<Rightarrow> 's \<Rightarrow> bool result \<times> buffer \<times> 's)
    \<Rightarrow> (int \<Rightarrow> byte list option \<Rightarrow> buffer \<Rightarrow> 'r \<Rightarrow> err result \<times> buffer \<times> 'r)
    \<Rightarrow> (byte list \<Rightarrow> buffer) \<Rightarrow> (bool \<times> dc_input) list \<Rightarrow> 's \<Rightarrow> 'r \<Rightarrow> byte list list option" where
  "dc_deliver enc dec wire [] s r = Some []"
| "dc_deliver enc dec wire ((lost, now, op32, buf) # xs) s r =
     (case enc op32 buf s of
        (Inl e, _, _) \<Rightarrow> None
      | (Inr _, b, s1) \<Rightarrow>
          if lost then dc_deliver enc dec wire xs s1 r
          else (case dec now op32 (wire (content b)) r of
                  (Inr ERR_SUCCESS, b3, r3) \<Rightarrow> map_option (Cons (content b3)) (dc_deliver enc dec wire xs s1 r3)
                | _ \<Rightarrow> None))"

definition carried :: "(bool \<times> dc_input) list \<Rightarrow> byte list list" where
  "carried xs = map (\<lambda>(lost, now, op32, buf). content buf) (filter (\<lambda>(lost, x). \<not> lost) xs)"

lemma carried_simps [simp]:
  "carried [] = []"
  "carried ((lost, now, op32, buf) # xs) = (if lost then carried xs else content buf # carried xs)"
  by (simp_all add: carried_def)

text \<open>
  What a mode promises: as long as the sender has packet IDs left it encrypts, also when the packet is lost then, and
  what it encrypts for a matching receiver is accepted with the bytes it had.
\<close>

locale dc_pair =
  fixes enc :: "byte list option \<Rightarrow> buffer \<Rightarrow> 's \<Rightarrow> bool result \<times> buffer \<times> 's"
    and dec :: "int \<Rightarrow> byte list option \<Rightarrow> buffer \<Rightarrow> 'r \<Rightarrow> err result \<times> buffer \<times> 'r"
    and wire :: "byte list \<Rightarrow> buffer"
    and matched :: "'s \<Rightarrow> 'r \<Rightarrow> bool"
    and left :: "'s \<Rightarrow> nat"
    and message_ok :: "dc_input \<Rightarrow> bool"
  assumes sends: "matched s r \<Longrightarrow> message_ok (now, op32, buf) \<Longrightarrow> 0 < left s \<Longrightarrow>
      \<exists>wn b s1. enc op32 buf s = (Inr wn, b, s1) \<and> left s \<le> Suc (left s1) \<and> matched s1 r"
    and receives: "matched s r \<Longrightarrow> message_ok (now, op32, buf) \<Longrightarrow> enc op32 buf s = (Inr wn, b, s1) \<Longrightarrow>
      \<exists>b3 r3. dec now op32 (wire (content b)) r = (Inr ERR_SUCCESS, b3, r3) \<and> content b3 = content buf \<and> matched s1 r3"
begin

lemma deliver_all:
  "matched s r \<Longrightarrow> \<forall>(lost, x)\<in>set xs. message_ok x \<Longrightarrow> length xs \<le> left s \<Longrightarrow> dc_deliver enc dec wire xs s r = Some (carried xs)"
proof (induction xs arbitrary: s r)
  case (Cons x xs)
  obtain lost now op32 buf where x: "x = (lost, now, op32, buf)" by (metis prod_cases4)
  have ok: "message_ok (now, op32, buf)" "0 < left s" using Cons.prems(2,3) by (auto simp: x)
  obtain wn b s1 where e: "enc op32 buf s = (Inr wn, b, s1)" "left s \<le> Suc (left s1)" "matched s1 r"
    using sends [OF Cons.prems(1) ok] by blast
  obtain b3 r3 where d: "dec now op32 (wire (content b)) r = (Inr ERR_SUCCESS, b3, r3)" "content b3 = content buf" "matched s1 r3"
    using receives [OF Cons.prems(1) ok(1) e(1)] by blast
  have ih: "dc_deliver enc dec wire xs s1 r' = Some (carried xs)" if "matched s1 r'" for r'
    using Cons.IH [OF that] Cons.prems(2,3) e(2) by auto
  show ?case using ih [OF e(3)] ih [OF d(3)] e(1) d(1,2) by (simp add: x)
qed simp

end

end
