(* ===== verification/Crypto_Aead.thy ===== *)
theory Crypto_Aead
  imports Data_Channel
begin

text \<open>
  AEAD encryption of the data channel (crypto/crypto_aead.hpp) over the cipher contexts of OpenSSL and mbed TLS
  (openssl/crypto/cipheraead.hpp, mbedtls/crypto/cipheraead.hpp). The libraries are functions: sealing takes key,
  nonce, additional data and plaintext to ciphertext and tag; opening takes ciphertext and tag to what is written
  to the output, before the tag is known to be right, and whether it is. Either may fail altogether. Memory is
  addressed by index in the arrays of the buffers; the bytes a work buffer holds after an exception are left
  as they were before the library was called, the next use prepares it anew.
\<close>

section \<open>\<open>CipherContextAEAD\<close>\<close>

record aead_lib =
  al_supported :: "alg_type \<Rightarrow> bool"
  al_seal :: "byte list \<Rightarrow> byte list \<Rightarrow> byte list \<Rightarrow> byte list \<Rightarrow> (byte list \<times> byte list) option"
  al_open :: "byte list \<Rightarrow> byte list \<Rightarrow> byte list \<Rightarrow> byte list \<Rightarrow> byte list \<Rightarrow> (byte list \<times> bool) option"

definition IV_LEN :: nat where "IV_LEN = 12"
definition AUTH_TAG_LEN :: nat where "AUTH_TAG_LEN = 16"

record aead_ctx =
  ax_key :: "byte list option"
  ax_usage :: usage_limit

definition ax_default :: aead_ctx where
  "ax_default = \<lparr>ax_key = None, ax_usage = ul_default\<rparr>"

record dc_env =
  de_lib :: aead_lib
  de_mbedtls :: bool
  de_algs :: "alg list"
  de_frame :: frame
  de_addr :: nat
  de_junk :: "nat \<Rightarrow> byte"

definition requires_authtag_at_end :: "dc_env \<Rightarrow> bool" where
  "requires_authtag_at_end env = de_mbedtls env"

definition aead_cipher_type :: "dc_env \<Rightarrow> alg_type \<Rightarrow> nat option" where
  "aead_cipher_type env t =
     (if \<not> al_supported (de_lib env) t then None
      else case t of AES_128_GCM \<Rightarrow> Some 16 | AES_192_GCM \<Rightarrow> Some 24 | AES_256_GCM \<Rightarrow> Some 32 | CHACHA20_POLY1305 \<Rightarrow> Some 32 | _ \<Rightarrow> None)"

definition aead_error_of :: "dc_env \<Rightarrow> string \<Rightarrow> exn" where
  "aead_error_of env msg = (if de_mbedtls env then mbedtls_aead_error msg else openssl_gcm_error msg)"

definition ax_init :: "dc_env \<Rightarrow> alg_type \<Rightarrow> byte list \<Rightarrow> nat \<Rightarrow> aead_ctx result" where
  "ax_init env t key keysize =
     (case aead_cipher_type env t of
        None \<Rightarrow> bindR (alg_name (de_algs env) t None) (\<lambda>n. Inl (aead_error_of env (n @ '': not usable'')))
      | Some ckeysz \<Rightarrow>
          if ckeysz > keysize then Inl (aead_error_of env ''insufficient key material'')
          else bindR (ul_ctor (de_algs env) t) (\<lambda>u. Inr \<lparr>ax_key = Some (take ckeysz key), ax_usage = u\<rparr>))"

text \<open>
  \<open>encrypt\<close>: \<open>out\<close> and \<open>tag\<close> are positions in the array of \<open>w\<close>. OpenSSL writes the tag where it is told to; mbed TLS
  writes it behind the ciphertext, and the length it returns, with the tag, goes into the usage count.
\<close>

definition ax_encrypt :: "dc_env \<Rightarrow> byte list \<Rightarrow> nat \<Rightarrow> byte list \<Rightarrow> nat \<Rightarrow> byte list \<Rightarrow> buffer \<Rightarrow> aead_ctx \<Rightarrow> (buffer \<times> aead_ctx) result" where
  "ax_encrypt env input out iv tag ad w ax =
     (case ax_key ax of
        None \<Rightarrow> Inl undefined_behaviour
      | Some key \<Rightarrow>
          (case al_seal (de_lib env) key iv ad input of
             None \<Rightarrow> Inl (aead_error_of env ''encrypt'')
           | Some (c, t) \<Rightarrow>
               if de_mbedtls env
               then bindR (buf_poke out (c @ t) w) (\<lambda>w1.
                      Inr (w1, ax\<lparr>ax_usage := ul_update (sz_add (length (c @ t)) (length ad)) (ax_usage ax)\<rparr>))
               else bindR (buf_poke out c w) (\<lambda>w1.
                      if length c \<noteq> length input then Inl (aead_error_of env ''encrypt size inconsistency'')
                      else bindR (buf_poke tag t w1) (\<lambda>w2.
                             Inr (w2, ax\<lparr>ax_usage := ul_update (sz_add (length input) (length ad)) (ax_usage ax)\<rparr>)))))"

text \<open>\<open>decrypt\<close>: without a tag, the tag is at the end of the input.\<close>

definition ax_decrypt :: "dc_env \<Rightarrow> byte list \<Rightarrow> nat \<Rightarrow> byte list \<Rightarrow> byte list option \<Rightarrow> byte list \<Rightarrow> buffer \<Rightarrow> aead_ctx \<Rightarrow> (bool \<times> buffer) result" where
  "ax_decrypt env input out iv tag ad w ax =
     (let n = length input - AUTH_TAG_LEN
      in case ax_key ax of
           None \<Rightarrow> Inl undefined_behaviour
         | Some key \<Rightarrow>
             if de_mbedtls env
             then if tag \<noteq> None then Inl (mbedtls_aead_error ''tag must be null for aead decrypt'')
                  else if length input < AUTH_TAG_LEN then Inr (False, w)
                  else (case al_open (de_lib env) key iv ad (take n input) (drop n input) of
                          None \<Rightarrow> Inr (False, w)
                        | Some (m, ok) \<Rightarrow> bindR (buf_poke out m w) (\<lambda>w1. Inr (length m = n \<and> ok, w1)))
             else if tag = None \<and> length input < AUTH_TAG_LEN then Inl (openssl_gcm_error ''decrypt input length too short'')
             else let ct = (if tag = None then take n input else input); t = (case tag of None \<Rightarrow> drop n input | Some x \<Rightarrow> x)
                  in case al_open (de_lib env) key iv ad ct t of
                       None \<Rightarrow> Inl (openssl_gcm_error ''decrypt'')
                     | Some (m, ok) \<Rightarrow>
                         bindR (buf_poke out m w) (\<lambda>w1.
                           if \<not> ok then Inr (False, w1)
                           else if length m \<noteq> length ct then Inl (openssl_gcm_error ''decrypt size inconsistency'')
                           else Inr (True, w1)))"

section \<open>\<open>Nonce\<close>\<close>

record nonce =
  nc_ad_op32 :: bool
  nc_data :: "byte list"

definition data_offset_pkt_id :: nat where "data_offset_pkt_id = 4"
definition long_id_size :: nat where "long_id_size = 8"

definition nonce_default :: nonce where
  "nonce_default = \<lparr>nc_ad_op32 = False, nc_data = replicate 16 0\<rparr>"

definition nonce_set_tail :: "byte list \<Rightarrow> nonce \<Rightarrow> nonce result" where
  "nonce_set_tail sk n =
     (let implicit_iv_len = 8; implicit_iv_offset = data_offset_pkt_id + (12 - implicit_iv_len)
      in if length sk < implicit_iv_len then Inl (aead_error ''insufficient key material for nonce tail'')
         else Inr (n\<lparr>nc_data := overwrite implicit_iv_offset (take implicit_iv_len sk) (nc_data n)\<rparr>))"

definition nonce_op32 :: "byte list option \<Rightarrow> byte list \<Rightarrow> nonce" where
  "nonce_op32 op32 d =
     (case op32 of
        Some op \<Rightarrow> \<lparr>nc_ad_op32 = True, nc_data = overwrite 0 (take op32_size op) d\<rparr>
      | None \<Rightarrow> \<lparr>nc_ad_op32 = False, nc_data = d\<rparr>)"

text \<open>The eight bytes of the packet ID as a buffer of their own, and back.\<close>

definition nonce_pid_bytes :: "nonce \<Rightarrow> byte list" where
  "nonce_pid_bytes n = take long_id_size (drop data_offset_pkt_id (nc_data n))"

definition nonce_encrypt :: "nonce \<Rightarrow> packet_id_data \<Rightarrow> byte list option \<Rightarrow> nonce result \<times> packet_id_data" where
  "nonce_encrypt ref pid_send op32 =
     (let (r, pid') = pds_write_next (\<lambda>_. 0) pid_send (buf_ctor (nonce_pid_bytes ref) long_id_size False)
      in (bindR r (\<lambda>b. Inr (nonce_op32 op32 (overwrite data_offset_pkt_id (b_data b) (nc_data ref)))), pid'))"

definition nonce_prepend_ad :: "nonce \<Rightarrow> packet_id_data \<Rightarrow> buffer \<Rightarrow> buffer result" where
  "nonce_prepend_ad n pid_send buf = buf_prepend (take (pds_length pid_send) (drop data_offset_pkt_id (nc_data n))) buf"

definition nonce_decrypt :: "nonce \<Rightarrow> pid_data_recv \<Rightarrow> buffer \<Rightarrow> byte list option \<Rightarrow> (nonce \<times> buffer) result" where
  "nonce_decrypt ref recv_pid buf op32 =
     bindR (buf_read (pdr_length recv_pid) buf) (\<lambda>(bs, buf').
       Inr (nonce_op32 op32 (overwrite data_offset_pkt_id bs (nc_data ref)), buf'))"

text \<open>\<open>PacketIDDataReceive\<close> is the receiver with a window of \<open>2^8\<close> bytes and an expiry of 30 seconds.\<close>

definition nonce_verify_packet_id :: "nonce \<Rightarrow> int \<Rightarrow> pid_data_recv \<Rightarrow> (bool \<times> pid_data_recv) result" where
  "nonce_verify_packet_id n now pid_recv =
     bindR (pdr_read_next pid_recv (buf_ctor (nonce_pid_bytes n) long_id_size True)) (\<lambda>(pid, _). Inr (pdr_test_add 8 30 pid now pid_recv))"

definition nonce_iv :: "nonce \<Rightarrow> byte list" where
  "nonce_iv n = take IV_LEN (drop data_offset_pkt_id (nc_data n))"

definition nonce_ad :: "nonce \<Rightarrow> nat \<Rightarrow> byte list" where
  "nonce_ad n pid_len =
     (if nc_ad_op32 n then take (op32_size + pid_len) (nc_data n) else take pid_len (drop data_offset_pkt_id (nc_data n)))"

section \<open>\<open>AEAD::Crypto\<close>\<close>

record aead_crypto =
  e_impl :: aead_ctx
  e_nonce :: nonce
  e_pid_send :: packet_id_data
  e_work :: buffer
  d_impl :: aead_ctx
  d_nonce :: nonce
  d_pid_recv :: pid_data_recv
  d_work :: buffer

definition dc_prepare :: "dc_env \<Rightarrow> nat \<Rightarrow> buffer \<Rightarrow> buffer result" where
  "dc_prepare env i work = bindR (frame_at (de_frame env) i) (\<lambda>fc. fc_prepare (de_junk env) (de_addr env) fc work)"

text \<open>The work of \<open>encrypt\<close> in the work buffer: ciphertext with the tag in front.\<close>

definition aead_seal :: "dc_env \<Rightarrow> nonce \<Rightarrow> packet_id_data \<Rightarrow> byte list \<Rightarrow> buffer \<Rightarrow> aead_ctx \<Rightarrow> (buffer \<times> aead_ctx) result" where
  "aead_seal env n pid input w ax =
     bindR (buf_write_alloc (de_junk env) (length input) w) (\<lambda>w1.
     let work_data = b_offset w1 + (b_size w1 - length input) in
     bindR (buf_prepend_alloc AUTH_TAG_LEN w1) (\<lambda>w2.
     let auth_tag = b_offset w2 in
     if requires_authtag_at_end env
     then bindR (buf_write_alloc (de_junk env) AUTH_TAG_LEN w2) (\<lambda>w3.
          let auth_tag_tmp = b_offset w3 + (b_size w3 - AUTH_TAG_LEN) in
          bindR (ax_encrypt env input work_data (nonce_iv n) auth_tag (nonce_ad n (pds_length pid)) w3 ax) (\<lambda>(w4, ax').
          bindR (buf_peek auth_tag_tmp AUTH_TAG_LEN w4) (\<lambda>t.
          bindR (buf_poke auth_tag t w4) (\<lambda>w5.
          bindR (buf_inc_size (sz_sub 0 AUTH_TAG_LEN) w5) (\<lambda>w6. Inr (w6, ax'))))))
     else ax_encrypt env input work_data (nonce_iv n) auth_tag (nonce_ad n (pds_length pid)) w2 ax))"

definition aead_warn :: "aead_crypto \<Rightarrow> bool" where
  "aead_warn c \<longleftrightarrow> pds_wrap_warning (e_pid_send c) \<or> usage_limit_warn (ax_usage (e_impl c))"

definition aead_encrypt :: "dc_env \<Rightarrow> byte list option \<Rightarrow> buffer \<Rightarrow> aead_crypto \<Rightarrow> bool result \<times> buffer \<times> aead_crypto" where
  "aead_encrypt env op32 buf c =
     (if b_size buf = 0 then (Inr (aead_warn c), buf, c)
      else case nonce_encrypt (e_nonce c) (e_pid_send c) op32 of
        (Inl e, pid) \<Rightarrow> (Inl e, buf, c\<lparr>e_pid_send := pid\<rparr>)
      | (Inr n, pid) \<Rightarrow>
          (let c1 = c\<lparr>e_pid_send := pid\<rparr>
           in case dc_prepare env ENCRYPT_WORK (e_work c1) of
                Inl e \<Rightarrow> (Inl e, buf, c1)
              | Inr w \<Rightarrow>
                  if buf_max_size w < b_size buf
                  then (Inl (aead_error ''encrypt work buffer too small''), buf, c1\<lparr>e_work := w\<rparr>)
                  else (case aead_seal env n pid (content buf) w (e_impl c1) of
                          Inl e \<Rightarrow> (Inl e, buf, c1\<lparr>e_work := w\<rparr>)
                        | Inr (w', ax) \<Rightarrow>
                            (let c2 = c1\<lparr>e_impl := ax, e_work := buf\<rparr>
                             in case nonce_prepend_ad n pid w' of
                                  Inl e \<Rightarrow> (Inl e, w', c2)
                                | Inr b \<Rightarrow> (Inr (aead_warn c2), b, c2)))))"

text \<open>mbed TLS: the tag is copied behind the packet. Were the buffer to grow, its pointer would dangle.\<close>

definition aead_tag_to_end :: "dc_env \<Rightarrow> byte list \<Rightarrow> buffer \<Rightarrow> buffer result" where
  "aead_tag_to_end env tag b =
     bindR (buf_write_alloc (de_junk env) AUTH_TAG_LEN b) (\<lambda>b1.
       if AUTH_TAG_LEN > buf_remaining b 0 then Inl undefined_behaviour
       else buf_poke (b_offset b1 + (b_size b1 - AUTH_TAG_LEN)) tag b1)"

text \<open>The end of \<open>decrypt\<close>, when the library has accepted the packet.\<close>

definition aead_accept :: "dc_env \<Rightarrow> nonce \<Rightarrow> int \<Rightarrow> buffer \<Rightarrow> buffer \<Rightarrow> aead_crypto \<Rightarrow> err result \<times> buffer \<times> aead_crypto" where
  "aead_accept env n now b w c =
     (case buf_set_size (if requires_authtag_at_end env then sz_sub (b_size b) AUTH_TAG_LEN else b_size b) w of
        Inl e \<Rightarrow> (Inl e, b, c\<lparr>d_work := w\<rparr>)
      | Inr w1 \<Rightarrow>
          (case nonce_verify_packet_id n now (d_pid_recv c) of
             Inl e \<Rightarrow> (Inl e, b, c\<lparr>d_work := w1\<rparr>)
           | Inr (ok, r) \<Rightarrow>
               if \<not> ok then (Inr REPLAY_ERROR, buf_reset_size b, c\<lparr>d_work := w1, d_pid_recv := r\<rparr>)
               else (Inr ERR_SUCCESS, w1, c\<lparr>d_work := b, d_pid_recv := r\<rparr>)))"

definition aead_open :: "dc_env \<Rightarrow> nonce \<Rightarrow> byte list \<Rightarrow> int \<Rightarrow> buffer \<Rightarrow> aead_crypto \<Rightarrow> err result \<times> buffer \<times> aead_crypto" where
  "aead_open env n tag now b c =
     (case dc_prepare env DECRYPT_WORK (d_work c) of
        Inl e \<Rightarrow> (Inl e, b, c)
      | Inr w \<Rightarrow>
          let c1 = c\<lparr>d_work := w\<rparr>
          in if buf_max_size w < b_size b then (Inl (aead_error ''decrypt work buffer too small''), b, c1)
             else (case (if requires_authtag_at_end env then aead_tag_to_end env tag b else Inr b) of
                     Inl e \<Rightarrow> (Inl e, b, c1)
                   | Inr b1 \<Rightarrow>
                       (case ax_decrypt env (content b1) (b_offset w) (nonce_iv n) (if requires_authtag_at_end env then None else Some tag)
                               (nonce_ad n (pdr_length (d_pid_recv c1))) w (d_impl c1) of
                          Inl e \<Rightarrow> (Inl e, b1, c1)
                        | Inr (ok, w1) \<Rightarrow>
                            if \<not> ok then (Inr DECRYPT_ERROR, buf_reset_size b1, c1\<lparr>d_work := w1\<rparr>)
                            else aead_accept env n now b1 w1 c1)))"

definition aead_decrypt :: "dc_env \<Rightarrow> int \<Rightarrow> byte list option \<Rightarrow> buffer \<Rightarrow> aead_crypto \<Rightarrow> err result \<times> buffer \<times> aead_crypto" where
  "aead_decrypt env now op32 buf c =
     (if b_size buf = 0 then (Inr ERR_SUCCESS, buf, c)
      else case nonce_decrypt (d_nonce c) (d_pid_recv c) buf op32 of
        Inl e \<Rightarrow> (Inl e, buf, c)
      | Inr (n, b1) \<Rightarrow>
          (case buf_read AUTH_TAG_LEN b1 of
             Inl e \<Rightarrow> (Inl e, b1, c)
           | Inr (tag, b2) \<Rightarrow> aead_open env n tag now b2 c))"

section \<open>Initialisation\<close>

definition clamp_keysize :: "nat \<Rightarrow> nat" where
  "clamp_keysize n = (if n \<le> 4294967295 then n else 0)"

definition aead_init_cipher :: "dc_env \<Rightarrow> alg_type \<Rightarrow> byte list \<Rightarrow> byte list \<Rightarrow> aead_crypto \<Rightarrow> unit result \<times> aead_crypto" where
  "aead_init_cipher env cipher encrypt_key decrypt_key c =
     (case ax_init env cipher encrypt_key (clamp_keysize (length encrypt_key)) of
        Inl e \<Rightarrow> (Inl e, c\<lparr>e_impl := (e_impl c)\<lparr>ax_key := None\<rparr>\<rparr>)
      | Inr x \<Rightarrow>
          (let c1 = c\<lparr>e_impl := x\<rparr>
           in case ax_init env cipher decrypt_key (clamp_keysize (length decrypt_key)) of
                Inl e \<Rightarrow> (Inl e, c1\<lparr>d_impl := (d_impl c1)\<lparr>ax_key := None\<rparr>\<rparr>)
              | Inr y \<Rightarrow> (Inr (), c1\<lparr>d_impl := y\<rparr>)))"

definition aead_init_hmac :: "byte list \<Rightarrow> byte list \<Rightarrow> aead_crypto \<Rightarrow> unit result \<times> aead_crypto" where
  "aead_init_hmac encrypt_key decrypt_key c =
     (case nonce_set_tail encrypt_key (e_nonce c) of
        Inl e \<Rightarrow> (Inl e, c)
      | Inr n \<Rightarrow>
          (let c1 = c\<lparr>e_nonce := n\<rparr>
           in case nonce_set_tail decrypt_key (d_nonce c1) of
                Inl e \<Rightarrow> (Inl e, c1)
              | Inr m \<Rightarrow> (Inr (), c1\<lparr>d_nonce := m\<rparr>)))"

definition aead_init_pid :: "aead_crypto \<Rightarrow> aead_crypto" where
  "aead_init_pid c = c\<lparr>e_pid_send := pds_default, d_pid_recv := pdr_init 8 False\<rparr>"

definition aead_new :: aead_crypto where
  "aead_new = \<lparr>e_impl = ax_default, e_nonce = nonce_default, e_pid_send = pds_default, e_work = buf_clear,
     d_impl = ax_default, d_nonce = nonce_default, d_pid_recv = pdr_init 8 False, d_work = buf_clear\<rparr>"

definition aead_defined :: "alg_type \<Rightarrow> u32" where
  "aead_defined cipher = (if alg_defined cipher then DC_CRYPTO_DEFINED OR (DC_CIPHER_DEFINED OR DC_HMAC_DEFINED) else DC_CRYPTO_DEFINED)"

definition aead_context_ctor :: "alg list \<Rightarrow> dc_settings \<Rightarrow> dc_settings result" where
  "aead_context_ctor algs s = bindR (legal_dc_cipher algs (ds_cipher s)) (\<lambda>_. Inr (s\<lparr>ds_digest := ALG_NONE\<rparr>))"

definition aead_encap_overhead :: size_t where
  "aead_encap_overhead = AUTH_TAG_LEN"

text \<open>As the cipher of a key context.\<close>

definition aead_api :: "dc_env \<Rightarrow> int \<Rightarrow> aead_crypto dc_api" where
  "aead_api env base =
     \<lparr>dc_encrypt = aead_encrypt env, dc_decrypt = (\<lambda>now. aead_decrypt env (tm_seconds_since_epoch base now)),
      dc_rekey = (\<lambda>ty c. c), comp_compress = (\<lambda>h b. (Inr (), b)), comp_decompress = (\<lambda>b. (Inr (), b))\<rparr>"

section \<open>Nonces\<close>

text \<open>The nonce made from the packet ID \<open>pb\<close> as it is on the wire.\<close>

abbreviation nonce_of :: "nonce \<Rightarrow> byte list option \<Rightarrow> byte list \<Rightarrow> nonce" where
  "nonce_of ref op32 pb \<equiv> nonce_op32 op32 (overwrite data_offset_pkt_id pb (nc_data ref))"

definition op32_bytes_of :: "byte list option \<Rightarrow> byte list" where
  "op32_bytes_of op32 = (case op32 of Some op \<Rightarrow> op | None \<Rightarrow> [])"

lemmas nonce_consts = data_offset_pkt_id_def op32_size_def long_id_size_def IV_LEN_def AUTH_TAG_LEN_def

lemma length_16: "length d = 16 \<Longrightarrow> \<exists>a b c. d = a @ b @ c \<and> length a = 4 \<and> length b = 4 \<and> length c = 8"
  by (rule exI [of _ "take 4 d"], rule exI [of _ "take 4 (drop 4 d)"], rule exI [of _ "drop 8 d"])
    (simp flip: append_assoc add: take_add [symmetric])

lemma nonce_of_parts:
  assumes "length (nc_data ref) = 16" "length pb = 4" "op32_ok op32"
  shows "nonce_iv (nonce_of ref op32 pb) = pb @ drop 8 (nc_data ref)"
    "nonce_ad (nonce_of ref op32 pb) 4 = op32_bytes_of op32 @ pb"
    "take 4 (drop data_offset_pkt_id (nc_data (nonce_of ref op32 pb))) = pb"
    "nonce_pid_bytes (nonce_of ref op32 pb) = pb @ take 4 (drop 8 (nc_data ref))"
proof -
  obtain a b c where d: "nc_data ref = a @ b @ c" "length a = 4" "length b = 4" "length c = 8" using length_16 [OF assms(1)] by blast
  have o: "overwrite 4 pb (a @ b @ c) = a @ pb @ c" using d assms(2) by (simp add: overwrite_mid)
  have p: "length op = 4" if "op32 = Some op" for op using that assms(3) by (simp add: op32_ok_def op32_size_def)
  show "nonce_iv (nonce_of ref op32 pb) = pb @ drop 8 (nc_data ref)" "nonce_ad (nonce_of ref op32 pb) 4 = op32_bytes_of op32 @ pb"
    "take 4 (drop data_offset_pkt_id (nc_data (nonce_of ref op32 pb))) = pb"
    "nonce_pid_bytes (nonce_of ref op32 pb) = pb @ take 4 (drop 8 (nc_data ref))"
    using d assms(2) p o
    by (auto simp: nonce_iv_def nonce_ad_def nonce_op32_def nonce_pid_bytes_def op32_bytes_of_def nonce_consts overwrite_def split: option.split)
qed

lemma nonce_encrypt_eq:
  assumes "length (nc_data ref) = 16" "\<not> pd_wide pid"
  shows "nonce_encrypt ref pid op32 =
    (case pds_next pid of (Inl e, pid') \<Rightarrow> (Inl e, pid') | (Inr p, pid') \<Rightarrow> (Inr (nonce_of ref op32 (be_bytes 4 (ucast (pd_id p) :: u32))), pid'))"
proof -
  obtain a b c where d: "nc_data ref = a @ b @ c" "length a = 4" "length b = 4" "length c = 8" using length_16 [OF assms(1)] by blast
  obtain r pid' where n: "pds_next pid = (r, pid')" by fastforce
  have nw: "\<not> pd_wide p" if "r = Inr p" for p using n that assms(2) by (auto simp: pds_next_def Let_def split: if_splits)
  have "pd_write (\<lambda>_. 0) p (buf_ctor (nonce_pid_bytes ref) long_id_size False)
      = Inr \<lparr>b_data = be_bytes 4 (ucast (pd_id p) :: u32) @ take 4 c, b_offset = 0, b_size = 4, b_capacity = 8, b_flags = None\<rparr>" if "r = Inr p" for p
    using d nw [OF that]
    by (simp add: pd_write_def buf_write_def buf_ctor_def nonce_pid_bytes_def nonce_consts buf_remaining_def buf_poke_def overwrite_def
        sz_add_def sz_sub_def sz_max_def)
  moreover have "overwrite 4 (be_bytes 4 x @ take 4 c) (nc_data ref) = overwrite 4 (be_bytes 4 x) (nc_data ref)" for x :: u32
    using d by (simp add: overwrite_def)
  ultimately show ?thesis using n by (cases r) (simp_all add: nonce_encrypt_def pds_write_next_def nonce_consts)
qed

lemma nonce_verify_eq:
  assumes "length (nc_data ref) = 16" "length pb = 4" "op32_ok op32" "\<not> pdr_wide r"
  shows "nonce_verify_packet_id (nonce_of ref op32 pb) now r
    = Inr (pdr_test_add 8 30 \<lparr>pd_id = ucast (be_word pb :: u32), pd_wide = False\<rparr> now r)"
  using assms nonce_of_parts(4) [OF assms(1-3)]
  by (simp add: nonce_verify_packet_id_def pdr_read_next_def pd_read_def buf_read_def buf_ctor_def nonce_consts buf_peek_def)

section \<open>What is assumed of the libraries\<close>

text \<open>
  Ciphertext and plaintext have the same length, the tag has sixteen bytes, and what was sealed opens. The frame
  gives the work buffers room for tag, packet ID and header in front and for a tag behind.
\<close>

definition aead_lib_ok :: "aead_lib \<Rightarrow> bool" where
  "aead_lib_ok lib \<longleftrightarrow>
     (\<forall>key iv ad m c t. al_seal lib key iv ad m = Some (c, t) \<longrightarrow>
        length c = length m \<and> length t = AUTH_TAG_LEN \<and> al_open lib key iv ad c t = Some (m, True))
     \<and> (\<forall>key iv ad c t m ok. al_open lib key iv ad c t = Some (m, ok) \<longrightarrow> length m = length c)"

definition dc_env_ok :: "dc_env \<Rightarrow> bool" where
  "dc_env_ok env \<longleftrightarrow> aead_lib_ok (de_lib env) \<and> length (de_frame env) = N_ALIGN_CONTEXTS
     \<and> (\<forall>fc\<in>set (de_frame env). fc_wf fc \<and> 24 \<le> fc_headroom fc \<and> AUTH_TAG_LEN \<le> fc_tailroom fc)"

lemma dc_env_seal:
  "dc_env_ok env \<Longrightarrow> al_seal (de_lib env) key iv ad m = Some (c, t) \<Longrightarrow>
     length c = length m \<and> length t = AUTH_TAG_LEN \<and> al_open (de_lib env) key iv ad c t = Some (m, True)"
  unfolding dc_env_ok_def aead_lib_ok_def by blast

lemma dc_env_open: "dc_env_ok env \<Longrightarrow> al_open (de_lib env) key iv ad c t = Some (m, k) \<Longrightarrow> length m = length c"
  unfolding dc_env_ok_def aead_lib_ok_def by blast

lemma dc_prepare_ok:
  assumes "dc_env_ok env" "work_ok w" "i < N_ALIGN_CONTEXTS"
  obtains w' where "dc_prepare env i w = Inr w'" "work_ok w'" "b_size w' = 0" "24 \<le> b_offset w'"
    "b_offset w' + fc_payload (de_frame env ! i) + AUTH_TAG_LEN \<le> b_capacity w'"
proof -
  have fc: "fc_wf (de_frame env ! i)" "24 \<le> fc_headroom (de_frame env ! i)" "AUTH_TAG_LEN \<le> fc_tailroom (de_frame env ! i)"
    using assms(1,3) nth_mem [of i "de_frame env"] by (auto simp: dc_env_ok_def)
  have w: "buf_wf w" "b_flags w \<noteq> None" using assms(2) by (simp_all add: work_ok_def)
  show thesis
    by (rule fc_prepare_room [OF fc(1) w, of "de_junk env" "de_addr env"])
      (use that fc assms(3) in \<open>auto simp: dc_prepare_def frame_at_def work_ok_def\<close>)
qed

section \<open>Sealing\<close>

lemma aead_seal_ok:
  assumes env: "dc_env_ok env" and k: "ax_key ax = Some key"
    and s: "al_seal (de_lib env) key (nonce_iv n) (nonce_ad n (pds_length pid)) input = Some (c, t)"
    and w: "work_ok w" "b_size w = 0" "24 \<le> b_offset w" "b_offset w + length input + AUTH_TAG_LEN \<le> b_capacity w"
  obtains w' u where "aead_seal env n pid input w ax = Inr (w', ax\<lparr>ax_usage := u\<rparr>)" "work_ok w'" "content w' = t @ c" "8 \<le> b_offset w'"
proof -
  have len: "length c = length input" "length t = 16" using dc_env_seal [OF env s] by (simp_all add: AUTH_TAG_LEN_def)
  let ?n = "length input"
  have bw: "buf_wf w" using w(1) by (simp add: work_ok_def)
  let ?w1 = "w\<lparr>b_size := ?n\<rparr>"
  have w1: "buf_write_alloc (de_junk env) ?n w = Inr ?w1" "buf_wf ?w1"
    using buf_write_alloc_fits [OF bw, of ?n] w by simp_all
  let ?w2 = "w\<lparr>b_offset := b_offset w - 16, b_size := ?n + 16\<rparr>"
  have w2: "buf_prepend_alloc AUTH_TAG_LEN ?w1 = Inr ?w2" "buf_wf ?w2"
    using buf_prepend_alloc_fits [OF w1(2), of AUTH_TAG_LEN] w(3) by (simp_all add: AUTH_TAG_LEN_def)
  show thesis
  proof (cases "de_mbedtls env")
    case False
    have l2: "length (content ?w2) = ?n + 16" using length_content [OF w2(2)] by simp
    have "16 + length c \<le> b_size ?w2" using len by simp
    then obtain x1 where x1: "buf_poke (b_offset ?w2 + 16) c ?w2 = Inr x1" "buf_wf x1" "content x1 = overwrite 16 c (content ?w2)"
      "b_offset x1 = b_offset ?w2" "b_size x1 = b_size ?w2" "b_flags x1 = b_flags ?w2"
      using buf_poke_window [OF w2(2)] by blast
    have "0 + length t \<le> b_size x1" using x1(5) len by simp
    then obtain x2 where x2: "buf_poke (b_offset x1 + 0) t x1 = Inr x2" "buf_wf x2" "content x2 = overwrite 0 t (content x1)"
      "b_offset x2 = b_offset x1" "b_flags x2 = b_flags x1"
      using buf_poke_window [OF x1(2)] by blast
    have "content x2 = t @ c" using x2(3) x1(3) len l2 by (simp add: overwrite_def)
    then show thesis
      using that [of x2] w w1(1) w2(1) x1 x2 s k len False
      by (simp add: aead_seal_def ax_encrypt_def requires_authtag_at_end_def AUTH_TAG_LEN_def work_ok_def Let_def)
  next
    case True
    let ?w3 = "w\<lparr>b_offset := b_offset w - 16, b_size := ?n + 32\<rparr>"
    have w3: "buf_write_alloc (de_junk env) AUTH_TAG_LEN ?w2 = Inr ?w3" "buf_wf ?w3"
      using buf_write_alloc_fits [OF w2(2), of AUTH_TAG_LEN] w by (simp_all add: AUTH_TAG_LEN_def add.commute)
    have l3: "length (content ?w3) = ?n + 32" using length_content [OF w3(2)] by simp
    have "16 + length (c @ t) \<le> b_size ?w3" using len by simp
    then obtain x1 where x1: "buf_poke (b_offset ?w3 + 16) (c @ t) ?w3 = Inr x1" "buf_wf x1" "content x1 = overwrite 16 (c @ t) (content ?w3)"
      "b_offset x1 = b_offset ?w3" "b_size x1 = b_size ?w3" "b_capacity x1 = b_capacity ?w3" "b_flags x1 = b_flags ?w3"
      using buf_poke_window [OF w3(2)] by blast
    have c1: "content x1 = take 16 (content ?w3) @ c @ t" using x1(3) len l3 by (simp add: overwrite_def)
    have p: "buf_peek (b_offset x1 + (16 + ?n)) 16 x1 = Inr t"
      using buf_peek_window [OF x1(2), of "16 + ?n" 16] x1(5) c1 len l3 by simp
    have "0 + length t \<le> b_size x1" using x1(5) len by simp
    then obtain x2 where x2: "buf_poke (b_offset x1 + 0) t x1 = Inr x2" "buf_wf x2" "content x2 = overwrite 0 t (content x1)"
      "b_offset x2 = b_offset x1" "b_size x2 = b_size x1" "b_capacity x2 = b_capacity x1" "b_flags x2 = b_flags x1"
      using buf_poke_window [OF x1(2)] by blast
    have c2: "content x2 = (t @ c) @ t" using x2(3) c1 len l3 by (simp add: overwrite_def)
    have cap: "?n + 32 < sz_max" "?n + 16 \<le> b_capacity x2 - b_offset x2" using x2 x1 w bw by (auto simp: buf_wf_def AUTH_TAG_LEN_def)
    have "buf_inc_size (sz_sub 0 16) x2 = Inr (x2\<lparr>b_size := ?n + 16\<rparr>)"
      using cap x2 x1 buf_max_size_exact [OF x2(2)]
      by (simp add: buf_inc_size_def buf_set_size_def sz_add_def sz_sub_def sz_max_def mod_if)
    moreover have "buf_wf (x2\<lparr>b_size := ?n + 16\<rparr>)" "content (x2\<lparr>b_size := ?n + 16\<rparr>) = t @ c"
      using wf_shrink [OF x2(2), of "?n + 16"] content_shrink [of "?n + 16" x2] x2(5) x1(5) c2 len by simp_all
    ultimately show thesis
      using that [of "x2\<lparr>b_size := ?n + 16\<rparr>"] w w1(1) w2(1) w3(1) x1 x2 p s k len True
      by (simp add: aead_seal_def ax_encrypt_def requires_authtag_at_end_def AUTH_TAG_LEN_def work_ok_def Let_def add.commute add.left_commute)
  qed
qed

section \<open>Encryption\<close>

definition aead_ok :: "aead_crypto \<Rightarrow> bool" where
  "aead_ok c \<longleftrightarrow> ax_key (e_impl c) \<noteq> None \<and> ax_key (d_impl c) \<noteq> None \<and> length (nc_data (e_nonce c)) = 16 \<and> length (nc_data (d_nonce c)) = 16
     \<and> \<not> pd_wide (e_pid_send c) \<and> \<not> pdr_wide (d_pid_recv c) \<and> work_ok (e_work c) \<and> work_ok (d_work c)"

text \<open>A packet that is encrypted: packet ID, tag, ciphertext.\<close>

lemma aead_encrypt_sent:
  assumes env: "dc_env_ok env" and c: "aead_ok c" and buf: "work_ok buf" "0 < b_size buf" "b_size buf \<le> fc_payload (de_frame env ! ENCRYPT_WORK)"
    and op: "op32_ok op32" and q: "pds_next (e_pid_send c) = (Inr p, p)" and key: "ax_key (e_impl c) = Some key"
  defines "sealed \<equiv> al_seal (de_lib env) key (wire_id p @ drop 8 (nc_data (e_nonce c))) (op32_bytes_of op32 @ wire_id p) (content buf)"
  shows "sealed = Some (ct, t) \<Longrightarrow> \<exists>wn b u. aead_encrypt env op32 buf c = (Inr wn, b, c\<lparr>e_pid_send := p, e_impl := (e_impl c)\<lparr>ax_usage := u\<rparr>, e_work := buf\<rparr>)
      \<and> work_ok b \<and> content b = wire_id p @ t @ ct"
    and "sealed = None \<Longrightarrow> \<exists>e b c'. aead_encrypt env op32 buf c = (Inl e, b, c')"
proof -
  have ok: "length (nc_data (e_nonce c)) = 16" "\<not> pd_wide (e_pid_send c)" "work_ok (e_work c)" using c by (simp_all add: aead_ok_def)
  let ?n = "nonce_of (e_nonce c) op32 (wire_id p)"
  have ne: "nonce_encrypt (e_nonce c) (e_pid_send c) op32 = (Inr ?n, p)" using nonce_encrypt_eq [OF ok(1,2), of op32] q by simp
  obtain w where w: "dc_prepare env ENCRYPT_WORK (e_work c) = Inr w" "work_ok w" "b_size w = 0" "24 \<le> b_offset w"
    "b_offset w + fc_payload (de_frame env ! ENCRYPT_WORK) + AUTH_TAG_LEN \<le> b_capacity w"
    by (rule dc_prepare_ok [OF env ok(3), of ENCRYPT_WORK]) (simp_all add: ENCRYPT_WORK_def N_ALIGN_CONTEXTS_def)
  have parts: "nonce_iv ?n = wire_id p @ drop 8 (nc_data (e_nonce c))" "nonce_ad ?n 4 = op32_bytes_of op32 @ wire_id p"
    "take 4 (drop data_offset_pkt_id (nc_data ?n)) = wire_id p"
    using nonce_of_parts [OF ok(1) _ op, of "wire_id p"] by simp_all
  have l: "pds_length p = 4" using pds_next_wide [OF q] ok(2) by (simp add: pds_length_def pd_size_def)
  have bc: "length (content buf) = b_size buf" using buf(1) by (simp add: work_ok_def)
  have room: "b_offset w + length (content buf) + AUTH_TAG_LEN \<le> b_capacity w" using w(5) buf(3) bc by simp
  have mx: "\<not> buf_max_size w < b_size buf" using room bc w(2) by (simp add: work_ok_def buf_max_size_exact)
  have e: "aead_encrypt env op32 buf c =
      (case aead_seal env ?n p (content buf) w (e_impl c) of
         Inl e \<Rightarrow> (Inl e, buf, c\<lparr>e_pid_send := p, e_work := w\<rparr>)
       | Inr (w', ax) \<Rightarrow>
           (let c2 = c\<lparr>e_pid_send := p, e_impl := ax, e_work := buf\<rparr>
            in case nonce_prepend_ad ?n p w' of Inl e \<Rightarrow> (Inl e, w', c2) | Inr b \<Rightarrow> (Inr (aead_warn c2), b, c2)))"
    using buf(2) ne w(1) mx by (simp add: aead_encrypt_def Let_def)
  have sd: "sealed = al_seal (de_lib env) key (nonce_iv ?n) (nonce_ad ?n (pds_length p)) (content buf)"
    unfolding sealed_def l parts ..
  {
    assume "sealed = None"
    then have "\<exists>x. aead_seal env ?n p (content buf) w (e_impl c) = Inl x"
      using key by (auto simp: sd aead_seal_def ax_encrypt_def bindR_def Let_def split: sum.split)
    then show "\<exists>e b c'. aead_encrypt env op32 buf c = (Inl e, b, c')" unfolding e by auto
  next
    assume s: "sealed = Some (ct, t)"
    obtain w' u where w': "aead_seal env ?n p (content buf) w (e_impl c) = Inr (w', (e_impl c)\<lparr>ax_usage := u\<rparr>)" "work_ok w'" "content w' = t @ ct" "8 \<le> b_offset w'"
      by (rule aead_seal_ok [OF env key s [unfolded sd] w(2-4) room])
    have wf: "buf_wf w'" using w'(2) by (simp add: work_ok_def)
    then have "length (wire_id p) + b_size w' \<le> b_capacity w'" using w'(4) by (simp add: buf_wf_def)
    then obtain b' where b': "buf_prepend (wire_id p) w' = Inr b'" using buf_prepend_room [OF wf] by blast
    then have "nonce_prepend_ad ?n p w' = Inr b'" "work_ok b'" "content b' = wire_id p @ t @ ct"
      using buf_prepend_Inr [OF wf b'] parts(3) l w'(2,3) by (simp_all add: nonce_prepend_ad_def sz_max_def work_ok_def)
    then show "\<exists>wn b u. aead_encrypt env op32 buf c = (Inr wn, b, c\<lparr>e_pid_send := p, e_impl := (e_impl c)\<lparr>ax_usage := u\<rparr>, e_work := buf\<rparr>)
        \<and> work_ok b \<and> content b = wire_id p @ t @ ct"
      unfolding e w'(1) by (auto simp: Let_def)
  }
qed

lemma aead_encrypt_Inr:
  assumes env: "dc_env_ok env" and c: "aead_ok c" and buf: "work_ok buf" "0 < b_size buf" "b_size buf \<le> fc_payload (de_frame env ! ENCRYPT_WORK)"
    and op: "op32_ok op32" and r: "aead_encrypt env op32 buf c = (Inr wn, b, c')"
  shows "\<exists>p key ct t u. pds_next (e_pid_send c) = (Inr p, p) \<and> ax_key (e_impl c) = Some key
    \<and> al_seal (de_lib env) key (wire_id p @ drop 8 (nc_data (e_nonce c))) (op32_bytes_of op32 @ wire_id p) (content buf) = Some (ct, t)
    \<and> work_ok b \<and> content b = wire_id p @ t @ ct \<and> c' = c\<lparr>e_pid_send := p, e_impl := (e_impl c)\<lparr>ax_usage := u\<rparr>, e_work := buf\<rparr>"
proof -
  obtain key where key: "ax_key (e_impl c) = Some key" using c by (auto simp: aead_ok_def)
  have ok: "length (nc_data (e_nonce c)) = 16" "\<not> pd_wide (e_pid_send c)" using c by (simp_all add: aead_ok_def)
  obtain q pid where q: "pds_next (e_pid_send c) = (q, pid)" by fastforce
  obtain p where p: "q = Inr p" "pid = p"
    using r nonce_encrypt_eq [OF ok, of op32] q buf(2) pds_next_wide [OF q] by (cases q) (auto simp: aead_encrypt_def)
  note sent = aead_encrypt_sent [OF env c buf op q [unfolded p] key]
  let ?s = "al_seal (de_lib env) key (wire_id p @ drop 8 (nc_data (e_nonce c))) (op32_bytes_of op32 @ wire_id p) (content buf)"
  have "?s \<noteq> None" using sent(2) r by (metis Pair_inject sum.distinct(1))
  then obtain ct t where s: "?s = Some (ct, t)" by auto
  show ?thesis using sent(1) [OF s] r q p key s by auto
qed

section \<open>Decryption\<close>

text \<open>A received packet: an allocated buffer, for mbed TLS with room for the tag behind its contents.\<close>

definition dc_packet :: "dc_env \<Rightarrow> buffer \<Rightarrow> bool" where
  "dc_packet env b \<longleftrightarrow> work_ok b \<and> (de_mbedtls env \<longrightarrow> b_offset b + b_size b + AUTH_TAG_LEN \<le> b_capacity b)"

lemma dc_packet_consume: "dc_packet env b \<Longrightarrow> n \<le> b_size b \<Longrightarrow> dc_packet env (b\<lparr>b_offset := b_offset b + n, b_size := b_size b - n\<rparr>)"
  using wf_consume [of b n] by (auto simp: dc_packet_def work_ok_def)

lemma aead_tag_to_end_ok:
  assumes "dc_packet env b" "de_mbedtls env" "length tag = AUTH_TAG_LEN"
  obtains b1 where "aead_tag_to_end env tag b = Inr b1" "work_ok b1" "content b1 = content b @ tag" "b_size b1 = b_size b + AUTH_TAG_LEN"
proof -
  have wf: "buf_wf b" "b_flags b \<noteq> None" and room: "b_offset b + b_size b + AUTH_TAG_LEN \<le> b_capacity b"
    using assms(1,2) by (auto simp: dc_packet_def work_ok_def)
  have "buf_write_alloc (de_junk env) AUTH_TAG_LEN b = Inr (b\<lparr>b_size := b_size b + AUTH_TAG_LEN\<rparr>)" "\<not> AUTH_TAG_LEN > buf_remaining b 0"
    using buf_write_alloc_fits [OF wf(1) room] room by (simp_all add: buf_remaining_exact [OF wf(1)])
  moreover obtain b1 where "buf_poke (b_offset b + b_size b) tag (b\<lparr>b_size := b_size b + length tag\<rparr>) = Inr b1" "buf_wf b1"
    "content b1 = content b @ tag" "b_flags b1 = b_flags b"
    using poke_back [OF wf(1), of tag] room assms(3) by auto
  moreover from this have "b_size b1 = b_size b + AUTH_TAG_LEN" using length_content wf(1) assms(3) by (metis length_append)
  ultimately show thesis using that [of b1] wf assms(3) by (simp add: aead_tag_to_end_def work_ok_def)
qed

definition aead_exn :: "exn \<Rightarrow> bool" where
  "aead_exn e \<longleftrightarrow> (\<exists>st. e = BufferException st) \<or> (\<exists>msg. e = aead_error msg) \<or> (\<exists>msg. e = openssl_gcm_error msg)"

definition refused :: "err result \<Rightarrow> bool" where
  "refused r \<longleftrightarrow> (case r of Inl e \<Rightarrow> aead_exn e | Inr er \<Rightarrow> er = DECRYPT_ERROR)"

text \<open>
  What \<open>decrypt\<close> does after the header is read: either the library accepts the packet and the replay filter
  decides, or it is refused and the filter is not touched.
\<close>

lemma aead_open_outcome:
  assumes env: "dc_env_ok env" and b: "dc_packet env b" and w0: "work_ok (d_work c)" and key: "ax_key (d_impl c) = Some key"
    and wd: "\<not> pdr_wide (d_pid_recv c)" and tag: "length tag = AUTH_TAG_LEN"
    and v: "nonce_verify_packet_id n now (d_pid_recv c) = Inr (ok, pr)"
  defines "op \<equiv> al_open (de_lib env) key (nonce_iv n) (nonce_ad n 4) (content b) tag"
  shows "(\<exists>b1 w1. work_ok b1 \<and> work_ok w1 \<and> op = Some (content w1, True) \<and> aead_open env n tag now b c =
      (if ok then (Inr ERR_SUCCESS, w1, c\<lparr>d_work := b1, d_pid_recv := pr\<rparr>)
       else (Inr REPLAY_ERROR, buf_reset_size b1, c\<lparr>d_work := w1, d_pid_recv := pr\<rparr>)))
    \<or> (\<exists>r b1 w1. work_ok b1 \<and> work_ok w1 \<and> refused r \<and> aead_open env n tag now b c = (r, b1, c\<lparr>d_work := w1\<rparr>)
      \<and> (b_size b \<le> fc_payload (de_frame env ! DECRYPT_WORK) \<longrightarrow> (\<forall>m. op \<noteq> Some (m, True))))"
proof -
  obtain w where w: "dc_prepare env DECRYPT_WORK (d_work c) = Inr w" "work_ok w" "b_size w = 0" "24 \<le> b_offset w"
    "b_offset w + fc_payload (de_frame env ! DECRYPT_WORK) + AUTH_TAG_LEN \<le> b_capacity w"
    by (rule dc_prepare_ok [OF env w0, of DECRYPT_WORK]) (simp_all add: DECRYPT_WORK_def N_ALIGN_CONTEXTS_def)
  have mx: "buf_max_size w = b_capacity w - b_offset w" using w(2) by (simp add: work_ok_def buf_max_size_exact)
  have bok: "work_ok b" "buf_wf b" using b by (simp_all add: dc_packet_def work_ok_def)
  have r1: "refused (Inr DECRYPT_ERROR)" and r2: "refused (Inl (openssl_gcm_error msg))" for msg by (auto simp: refused_def aead_exn_def)
  show ?thesis
  proof (cases "buf_max_size w < b_size b")
    case True
    then have "aead_open env n tag now b c = (Inl (aead_error ''decrypt work buffer too small''), b, c\<lparr>d_work := w\<rparr>)"
      "refused (Inl (aead_error ''decrypt work buffer too small''))" "\<not> b_size b \<le> fc_payload (de_frame env ! DECRYPT_WORK)"
      using w mx by (auto simp: aead_open_def refused_def aead_exn_def Let_def)
    then show ?thesis using w(2) bok(1) by blast
  next
    case False
    obtain b1 where b1: "(if de_mbedtls env then aead_tag_to_end env tag b else Inr b) = Inr b1" "work_ok b1"
      "content b1 = (if de_mbedtls env then content b @ tag else content b)" "b_size b1 = (if de_mbedtls env then b_size b + AUTH_TAG_LEN else b_size b)"
    proof (cases "de_mbedtls env")
      case True
      obtain b1 where "aead_tag_to_end env tag b = Inr b1" "work_ok b1" "content b1 = content b @ tag" "b_size b1 = b_size b + AUTH_TAG_LEN"
        by (rule aead_tag_to_end_ok [OF b True tag])
      with True show thesis by (intro that) simp_all
    next
      case False
      with bok(1) show thesis by (intro that [of b]) simp_all
    qed
    have sz: "(if de_mbedtls env then sz_sub (b_size b1) AUTH_TAG_LEN else b_size b1) = b_size b"
      using b1(2,4) by (auto simp: work_ok_def buf_wf_def sz_sub_def AUTH_TAG_LEN_def sz_max_def)
    have l4: "pdr_length (d_pid_recv c) = 4" using wd by (simp add: pdr_length_def pd_size_def)
    let ?d = "ax_decrypt env (content b1) (b_offset w) (nonce_iv n) (if de_mbedtls env then None else Some tag) (nonce_ad n 4) w (d_impl c)"
    have o: "aead_open env n tag now b c = (case ?d of
        Inl e \<Rightarrow> (Inl e, b1, c\<lparr>d_work := w\<rparr>)
      | Inr (k, w1) \<Rightarrow> if \<not> k then (Inr DECRYPT_ERROR, buf_reset_size b1, c\<lparr>d_work := w1\<rparr>) else aead_accept env n now b1 w1 (c\<lparr>d_work := w\<rparr>))"
      using w(1) False b1(1) l4 by (simp add: aead_open_def requires_authtag_at_end_def Let_def split: sum.split)
    have d: "?d = (case op of None \<Rightarrow> (if de_mbedtls env then Inr (False, w) else Inl (openssl_gcm_error ''decrypt''))
        | Some (m, k) \<Rightarrow> bindR (buf_poke (b_offset w) m w) (\<lambda>w1. Inr (k, w1)))"
    proof -
      have "length m = b_size b" if "op = Some (m, k)" for m k
        using that dc_env_open [OF env] bok(2) unfolding op_def by fastforce
      then show ?thesis using b1(3) key tag bok(2)
        by (auto simp: ax_decrypt_def op_def Let_def AUTH_TAG_LEN_def split: option.split intro!: arg_cong [where f = "bindR _"])
    qed
    show ?thesis
    proof (cases op)
      case None
      have "aead_open env n tag now b c = (if de_mbedtls env then (Inr DECRYPT_ERROR, buf_reset_size b1, c\<lparr>d_work := w\<rparr>)
          else (Inl (openssl_gcm_error ''decrypt''), b1, c\<lparr>d_work := w\<rparr>))"
        using o d None by (cases "de_mbedtls env") simp_all
      then show ?thesis using b1(2) w(2) work_ok_reset [OF b1(2)] None r1 r2 by (metis option.distinct(1))
    next
      case (Some x)
      obtain m k where m: "op = Some (m, k)" using Some by (cases x) auto
      have l: "length m = b_size b" using m dc_env_open [OF env] bok(2) unfolding op_def by fastforce
      have "b_offset w + length m \<le> b_capacity w" using False mx l w(5) by linarith
      then obtain w1 where w1: "buf_poke (b_offset w) m w = Inr w1" "work_ok w1" "buf_set_size (length m) w1 = Inr (w1\<lparr>b_size := length m\<rparr>)"
        "work_ok (w1\<lparr>b_size := length m\<rparr>)" "content (w1\<lparr>b_size := length m\<rparr>) = m"
        using work_output [OF w(2,3)] by blast
      show ?thesis
      proof (cases k)
        case True
        then show ?thesis using o d m w1 l v sz b1(2)
          by (intro disjI1 exI [of _ b1] exI [of _ "w1\<lparr>b_size := length m\<rparr>"]) (simp add: aead_accept_def requires_authtag_at_end_def)
      next
        case False
        then have "aead_open env n tag now b c = (Inr DECRYPT_ERROR, buf_reset_size b1, c\<lparr>d_work := w1\<rparr>)" using o d m w1(1) by simp
        then show ?thesis using w1(2) work_ok_reset [OF b1(2)] r1 m False by blast
      qed
    qed
  qed
qed

text \<open>The packet as a whole: the fields that decryption reads, and when the library accepts it.\<close>

definition aead_message :: "dc_env \<Rightarrow> aead_crypto \<Rightarrow> byte list option \<Rightarrow> byte list \<Rightarrow> byte list option" where
  "aead_message env c op32 pkt =
     (case ax_key (d_impl c) of
        None \<Rightarrow> None
      | Some key \<Rightarrow>
          if length pkt < 20 then None
          else (case al_open (de_lib env) key (take 4 pkt @ drop 8 (nc_data (d_nonce c))) (op32_bytes_of op32 @ take 4 pkt)
                       (drop 20 pkt) (take 16 (drop 4 pkt)) of
                  Some (m, True) \<Rightarrow> Some m
                | _ \<Rightarrow> None))"

abbreviation aead_pid :: "byte list \<Rightarrow> packet_id_data" where
  "aead_pid pkt \<equiv> \<lparr>pd_id = ucast (be_word (take 4 pkt) :: u32), pd_wide = False\<rparr>"

lemma aead_decrypt_outcome:
  assumes env: "dc_env_ok env" and c: "aead_ok c" and b: "dc_packet env buf" "0 < b_size buf" and op: "op32_ok op32"
    and v: "pdr_test_add 8 30 (aead_pid (content buf)) now (d_pid_recv c) = (ok, pr)"
  shows "(\<exists>b1 w1. work_ok b1 \<and> work_ok w1 \<and> aead_message env c op32 (content buf) = Some (content w1) \<and> aead_decrypt env now op32 buf c =
      (if ok then (Inr ERR_SUCCESS, w1, c\<lparr>d_work := b1, d_pid_recv := pr\<rparr>)
       else (Inr REPLAY_ERROR, buf_reset_size b1, c\<lparr>d_work := w1, d_pid_recv := pr\<rparr>)))
    \<or> (\<exists>r b1 w1. work_ok b1 \<and> work_ok w1 \<and> refused r \<and> aead_decrypt env now op32 buf c = (r, b1, c\<lparr>d_work := w1\<rparr>)
      \<and> (b_size buf \<le> fc_payload (de_frame env ! DECRYPT_WORK) \<longrightarrow> aead_message env c op32 (content buf) = None))"
proof -
  have ok: "length (nc_data (d_nonce c)) = 16" "\<not> pdr_wide (d_pid_recv c)" "work_ok (d_work c)" using c by (simp_all add: aead_ok_def)
  obtain key where key: "ax_key (d_impl c) = Some key" using c by (auto simp: aead_ok_def)
  have wf: "buf_wf buf" "work_ok buf" using b(1) by (simp_all add: dc_packet_def work_ok_def)
  have bl: "length (content buf) = b_size buf" using wf(1) by simp
  have l4: "pdr_length (d_pid_recv c) = 4" using ok(2) by (simp add: pdr_length_def pd_size_def)
  let ?b1 = "buf\<lparr>b_offset := b_offset buf + 4, b_size := b_size buf - 4\<rparr>"
  let ?b2 = "?b1\<lparr>b_offset := b_offset ?b1 + 16, b_size := b_size ?b1 - 16\<rparr>"
  have rf: "refused (Inl (BufferException st))" for st by (simp add: refused_def aead_exn_def)
  have dw: "c = c\<lparr>d_work := d_work c\<rparr>" by simp
  show ?thesis
  proof (cases "20 \<le> b_size buf")
    case False
    then have n: "aead_message env c op32 (content buf) = None" using bl key by (simp add: aead_message_def)
    have "\<exists>b1. aead_decrypt env now op32 buf c = (Inl (BufferException buffer_underflow), b1, c) \<and> work_ok b1"
    proof (cases "4 \<le> b_size buf")
      case True
      then have "work_ok ?b1" "\<not> 16 \<le> b_size buf - 4" using wf wf_consume [OF wf(1), of 4] False by (simp_all add: work_ok_def)
      then show ?thesis using True False b(2) l4 buf_read_eq [OF wf(1), of 4]
        by (simp add: aead_decrypt_def nonce_decrypt_def buf_read_def [of 16] AUTH_TAG_LEN_def)
    next
      case False
      then show ?thesis using b(2) l4 wf(2) by (simp add: aead_decrypt_def nonce_decrypt_def buf_read_def)
    qed
    then show ?thesis using n rf ok(3) dw by metis
  next
    case True
    have b1: "dc_packet env ?b1" "buf_read 4 buf = Inr (take 4 (content buf), ?b1)" "content ?b1 = drop 4 (content buf)"
      using dc_packet_consume [OF b(1), of 4] buf_read_eq [OF wf(1), of 4] True by (simp_all add: content_consume)
    have b2: "dc_packet env ?b2" "buf_read 16 ?b1 = Inr (take 16 (drop 4 (content buf)), ?b2)" "content ?b2 = drop 20 (content buf)"
      using dc_packet_consume [OF b1(1), of 16] buf_read_eq [of ?b1 16] b1(1,3) True
      by (simp_all add: content_consume dc_packet_def work_ok_def add.commute)
    let ?pb = "take 4 (content buf)" and ?tag = "take 16 (drop 4 (content buf))"
    let ?n = "nonce_of (d_nonce c) op32 ?pb"
    have pl: "length ?pb = 4" "length ?tag = AUTH_TAG_LEN" using True bl by (simp_all add: AUTH_TAG_LEN_def)
    note parts = nonce_of_parts [OF ok(1) pl(1) op]
    have ver: "nonce_verify_packet_id ?n now (d_pid_recv c) = Inr (ok, pr)" using nonce_verify_eq [OF ok(1) pl(1) op ok(2), of now] v by simp
    have d: "aead_decrypt env now op32 buf c = aead_open env ?n ?tag now ?b2 c"
      using b(2) l4 b1(2) b2(2) by (simp add: aead_decrypt_def nonce_decrypt_def AUTH_TAG_LEN_def)
    have msg: "aead_message env c op32 (content buf) = (case al_open (de_lib env) key (nonce_iv ?n) (nonce_ad ?n 4) (content ?b2) ?tag of Some (m, True) \<Rightarrow> Some m | _ \<Rightarrow> None)"
      using key True bl parts(1,2) b2(3) by (simp add: aead_message_def)
    have sz: "b_size buf \<le> fc_payload (de_frame env ! DECRYPT_WORK) \<longrightarrow> b_size ?b2 \<le> fc_payload (de_frame env ! DECRYPT_WORK)" by auto
    from aead_open_outcome [OF env b2(1) ok(3) key ok(2) pl(2) ver] show ?thesis
    proof (elim disjE exE conjE)
      fix r b1 w1
      assume a: "work_ok b1" "work_ok w1" "refused r" "aead_open env ?n ?tag now ?b2 c = (r, b1, c\<lparr>d_work := w1\<rparr>)"
        "b_size ?b2 \<le> fc_payload (de_frame env ! DECRYPT_WORK) \<longrightarrow> (\<forall>m. al_open (de_lib env) key (nonce_iv ?n) (nonce_ad ?n 4) (content ?b2) ?tag \<noteq> Some (m, True))"
      have "aead_message env c op32 (content buf) = None" if "b_size buf \<le> fc_payload (de_frame env ! DECRYPT_WORK)"
        using a(5) sz that unfolding msg by (auto split: option.split bool.split)
      then show ?thesis using a(1-4) unfolding d by blast
    next
      fix b1 w1
      assume a: "work_ok b1" "work_ok w1" "al_open (de_lib env) key (nonce_iv ?n) (nonce_ad ?n 4) (content ?b2) ?tag = Some (content w1, True)"
        "aead_open env ?n ?tag now ?b2 c = (if ok then (Inr ERR_SUCCESS, w1, c\<lparr>d_work := b1, d_pid_recv := pr\<rparr>)
          else (Inr REPLAY_ERROR, buf_reset_size b1, c\<lparr>d_work := w1, d_pid_recv := pr\<rparr>))"
      then show ?thesis unfolding d msg by auto
    qed
  qed
qed

section \<open>Two ends\<close>

text \<open>
  A sending and a receiving end with the same library, key and implicit part of the nonce, where the receiver has
  seen nothing newer than the sender has sent.
\<close>

definition aead_matched :: "dc_env \<Rightarrow> dc_env \<Rightarrow> aead_crypto \<Rightarrow> aead_crypto \<Rightarrow> bool" where
  "aead_matched es er c c' \<longleftrightarrow> de_lib es = de_lib er \<and> aead_ok c \<and> aead_ok c' \<and> ax_key (e_impl c) = ax_key (d_impl c')
     \<and> drop 8 (nc_data (e_nonce c)) = drop 8 (nc_data (d_nonce c')) \<and> pd_id (e_pid_send c) < 0xffffffff
     \<and> (\<exists>t. pdr_rel 8 (d_pid_recv c') t) \<and> r_high (pdr_ring (d_pid_recv c')) \<le> pd_id (e_pid_send c)"

lemma aead_round:
  assumes env: "dc_env_ok es" "dc_env_ok er" and m: "aead_matched es er c c'" and op: "op32_ok op32"
    and buf: "work_ok buf" "0 < b_size buf" "b_size buf \<le> fc_payload (de_frame es ! ENCRYPT_WORK)" "b_size buf + 20 \<le> fc_payload (de_frame er ! DECRYPT_WORK)"
    and e: "aead_encrypt es op32 buf c = (Inr wn, b, c1)" and w: "dc_packet er b2" "content b2 = content b"
  shows "\<exists>b3 c3. aead_decrypt er now op32 b2 c' = (Inr ERR_SUCCESS, b3, c3) \<and> content b3 = content buf \<and> aead_matched es er c1 c3"
proof -
  have ok: "aead_ok c" "aead_ok c'" "ax_key (e_impl c) = ax_key (d_impl c')" "drop 8 (nc_data (e_nonce c)) = drop 8 (nc_data (d_nonce c'))"
    "de_lib es = de_lib er" "pd_id (e_pid_send c) < 0xffffffff" "r_high (pdr_ring (d_pid_recv c')) \<le> pd_id (e_pid_send c)"
    using m by (simp_all add: aead_matched_def)
  obtain t where t: "pdr_rel 8 (d_pid_recv c') t" using m by (auto simp: aead_matched_def)
  obtain p key ct tg u where p: "pds_next (e_pid_send c) = (Inr p, p)" "ax_key (e_impl c) = Some key"
      "al_seal (de_lib es) key (wire_id p @ drop 8 (nc_data (e_nonce c))) (op32_bytes_of op32 @ wire_id p) (content buf) = Some (ct, tg)"
      "work_ok b" "content b = wire_id p @ tg @ ct" "c1 = c\<lparr>e_pid_send := p, e_impl := (e_impl c)\<lparr>ax_usage := u\<rparr>, e_work := buf\<rparr>"
    using aead_encrypt_Inr [OF env(1) ok(1) buf(1-3) op e] by blast
  have sl: "length ct = b_size buf" "length tg = 16" "al_open (de_lib er) key (wire_id p @ drop 8 (nc_data (d_nonce c'))) (op32_bytes_of op32 @ wire_id p) ct tg = Some (content buf, True)"
    using dc_env_seal [OF env(1) p(3)] ok(4,5) buf(1) by (simp_all add: AUTH_TAG_LEN_def work_ok_def)
  have nw: "\<not> pd_wide (e_pid_send c)" "\<not> pdr_wide (d_pid_recv c')" using ok(1,2) by (simp_all add: aead_ok_def)
  note st = pds_next_step [OF p(1) nw(1) ok(6)]
  have pid: "aead_pid (content b2) = \<lparr>pd_id = pd_id p, pd_wide = False\<rparr>" using w(2) p(5) st(3) by simp
  have msg: "aead_message er c' op32 (content b2) = Some (content buf)"
    using w(2) p(2,5) sl ok(3) by (simp add: aead_message_def)
  have sz: "b_size b2 \<le> fc_payload (de_frame er ! DECRYPT_WORK)" "0 < b_size b2"
    using w arg_cong [OF p(5), of length] sl(1,2) buf(4) length_content [of b2] length_content [of b] p(4) by (auto simp: dc_packet_def work_ok_def)
  have "r_high (pdr_ring (d_pid_recv c')) < pd_id \<lparr>pd_id = pd_id p, pd_wide = False\<rparr>" using ok(7) st(1) by simp
  then obtain r t' where r: "pdr_test_add 8 30 \<lparr>pd_id = pd_id p, pd_wide = False\<rparr> now (d_pid_recv c') = (True, r)" "pdr_rel 8 r t'"
    "r_high (pdr_ring r) = pd_id p" "pdr_wide r = pdr_wide (d_pid_recv c')"
    using pdr_test_add_ascending [OF t] by (metis packet_id_data.select_convs(1))
  obtain b1 w1 where d: "work_ok b1" "work_ok w1" "content w1 = content buf" "aead_decrypt er now op32 b2 c' = (Inr ERR_SUCCESS, w1, c'\<lparr>d_work := b1, d_pid_recv := r\<rparr>)"
    using aead_decrypt_outcome [OF env(2) ok(2) w(1) sz(2) op, of now True r] r(1) msg sz(1) unfolding pid by auto
  have "aead_matched es er c1 (c'\<lparr>d_work := b1, d_pid_recv := r\<rparr>)"
    using m p(6) pds_next_wide [OF p(1)] nw r st(2) d(1) buf(1) by (auto simp: aead_matched_def aead_ok_def)
  then show ?thesis using d by blast
qed

section \<open>Runs\<close>

definition aead_step :: "dc_env \<Rightarrow> aead_crypto \<Rightarrow> dc_input \<Rightarrow> bool \<times> aead_crypto" where
  "aead_step env c x =
     (case x of (now, op32, buf) \<Rightarrow> let (r, _, c') = aead_decrypt env now op32 buf c in (0 < b_size buf \<and> r = Inr ERR_SUCCESS, c'))"

definition dc_input_id :: "'c \<Rightarrow> dc_input \<Rightarrow> nat" where
  "dc_input_id c x = unat (be_word (take 4 (content (snd (snd x)))) :: u32)"

definition dc_input_ok :: "dc_env \<Rightarrow> dc_input \<Rightarrow> bool" where
  "dc_input_ok env x \<longleftrightarrow> dc_packet env (snd (snd x)) \<and> op32_ok (fst (snd x))"

definition aead_ready :: "dc_env \<Rightarrow> aead_crypto \<Rightarrow> nat set \<Rightarrow> bool" where
  "aead_ready env c K \<longleftrightarrow> dc_env_ok env \<and> aead_ok c \<and> pdr_known (d_pid_recv c) K"

lemma aead_decrypt_ready:
  assumes c: "aead_ready env c K" and x: "dc_packet env buf" "op32_ok op32" and d: "aead_decrypt env now op32 buf c = (r, b', c')"
  shows "aead_ok c' \<and> work_ok b' \<and> (case r of Inl e \<Rightarrow> aead_exn e | Inr er \<Rightarrow> er \<in> {ERR_SUCCESS, DECRYPT_ERROR, REPLAY_ERROR})
    \<and> (0 < b_size buf \<longrightarrow> (if r = Inr ERR_SUCCESS
         then aead_message env c op32 (content buf) = Some (content b') \<and> unat (be_word (take 4 (content buf)) :: u32) \<notin> K
           \<and> pdr_known (d_pid_recv c') (insert (unat (be_word (take 4 (content buf)) :: u32)) K)
         else pdr_known (d_pid_recv c') K))
    \<and> (aead_message env c op32 (content buf) = None \<longrightarrow> c' = c\<lparr>d_work := d_work c'\<rparr> \<and> (0 < b_size buf \<longrightarrow> r \<noteq> Inr ERR_SUCCESS))"
proof (cases "b_size buf = 0")
  case True
  then show ?thesis using c x d by (auto simp: aead_ready_def aead_decrypt_def dc_packet_def)
next
  case False
  have env: "dc_env_ok env" and ok: "aead_ok c" and k: "pdr_known (d_pid_recv c) K" using c by (simp_all add: aead_ready_def)
  have z: "0 < b_size buf" using False by simp
  obtain acc pr where v: "pdr_test_add 8 30 (aead_pid (content buf)) now (d_pid_recv c) = (acc, pr)" "pdr_wide pr = pdr_wide (d_pid_recv c)"
    "pdr_known pr (if acc then insert (unat (pd_id (aead_pid (content buf)))) K else K)" "acc \<Longrightarrow> unat (pd_id (aead_pid (content buf))) \<notin> K"
    by (rule pdr_test_add_known [OF k, where xp = 30 and pin = "aead_pid (content buf)" and now = now]) blast
  from aead_decrypt_outcome [OF env ok x(1) z x(2) v(1)] show ?thesis
  proof (elim disjE exE conjE)
    fix q b1 w1
    assume a: "work_ok b1" "work_ok w1" "refused q" "aead_decrypt env now op32 buf c = (q, b1, c\<lparr>d_work := w1\<rparr>)"
    then have "r = q" "b' = b1" "c' = c\<lparr>d_work := w1\<rparr>" using d by auto
    then show ?thesis using a(1-3) ok k by (cases q) (auto simp: refused_def aead_ok_def)
  next
    fix b1 w1
    assume a: "work_ok b1" "work_ok w1" "aead_message env c op32 (content buf) = Some (content w1)" "aead_decrypt env now op32 buf c =
        (if acc then (Inr ERR_SUCCESS, w1, c\<lparr>d_work := b1, d_pid_recv := pr\<rparr>)
         else (Inr REPLAY_ERROR, buf_reset_size b1, c\<lparr>d_work := w1, d_pid_recv := pr\<rparr>))"
    then show ?thesis using d v ok k work_ok_reset [OF a(1)] by (cases acc) (auto simp: aead_ok_def)
  qed
qed

interpretation aead: fresh_steps "aead_step env" dc_input_id "aead_ready env" "dc_input_ok env" for env
proof
  fix c K x r c'
  assume a: "aead_ready env c K" "dc_input_ok env x" "aead_step env c x = (r, c')"
  obtain now op32 buf where x: "x = (now, op32, buf)" by (metis prod_cases3)
  obtain q b where d: "aead_decrypt env now op32 buf c = (q, b, c')" and r: "r = (0 < b_size buf \<and> q = Inr ERR_SUCCESS)"
    using a(3) by (auto simp: aead_step_def x Let_def split: prod.splits)
  note o = aead_decrypt_ready [OF a(1) _ _ d]
  have e: "dc_env_ok env" "pdr_known (d_pid_recv c) K" using a(1) by (simp_all add: aead_ready_def)
  show "\<exists>K'. aead_ready env c' K' \<and> K \<subseteq> K' \<and> (r \<longrightarrow> dc_input_id c x \<in> K' - K)"
  proof (cases "b_size buf = 0")
    case True
    then have "c' = c" using d by (simp add: aead_decrypt_def)
    then show ?thesis using a(1) r True by auto
  next
    case False
    then show ?thesis using o e a(2) r
      by (cases "q = Inr ERR_SUCCESS") (auto simp: aead_ready_def x dc_input_ok_def dc_input_id_def)
  qed
qed

text \<open>The nonces of the packets that are sent, up to the first exception.\<close>

fun aead_nonces :: "dc_env \<Rightarrow> (byte list option \<times> buffer) list \<Rightarrow> aead_crypto \<Rightarrow> byte list list" where
  "aead_nonces env [] c = []"
| "aead_nonces env ((op32, buf) # xs) c =
     (case aead_encrypt env op32 buf c of
        (Inl e, _, _) \<Rightarrow> []
      | (Inr _, b, c') \<Rightarrow> (if b_size buf = 0 then [] else [take 4 (content b) @ drop 8 (nc_data (e_nonce c))]) @ aead_nonces env xs c')"

definition dc_plain_ok :: "dc_env \<Rightarrow> byte list option \<times> buffer \<Rightarrow> bool" where
  "dc_plain_ok env x \<longleftrightarrow> op32_ok (fst x) \<and> work_ok (snd x) \<and> b_size (snd x) \<le> fc_payload (de_frame env ! ENCRYPT_WORK)"

lemma aead_nonces_above:
  "dc_env_ok env \<Longrightarrow> aead_ok c \<Longrightarrow> pd_id (e_pid_send c) < 0xffffffff \<Longrightarrow> \<forall>x\<in>set xs. dc_plain_ok env x \<Longrightarrow>
     distinct (aead_nonces env xs c)
     \<and> (\<forall>iv\<in>set (aead_nonces env xs c). pd_id (e_pid_send c) < ucast (be_word (take 4 iv) :: u32))"
proof (induction xs arbitrary: c)
  case (Cons x xs)
  obtain op32 buf where x: "x = (op32, buf)" by fastforce
  obtain r b c' where e: "aead_encrypt env op32 buf c = (r, b, c')" by (metis prod_cases3)
  show ?case
  proof (cases "b_size buf = 0 \<or> (\<exists>y. r = Inl y)")
    case True
    then show ?thesis using Cons e by (auto simp: x aead_encrypt_def)
  next
    case False
    then obtain wn where r: "r = Inr wn" by (cases r) auto
    have ok: "op32_ok op32" "work_ok buf" "b_size buf \<le> fc_payload (de_frame env ! ENCRYPT_WORK)" "0 < b_size buf"
      using Cons.prems(4) False by (simp_all add: x dc_plain_ok_def)
    obtain p key ct t u where p: "pds_next (e_pid_send c) = (Inr p, p)" "content b = wire_id p @ t @ ct"
      "c' = c\<lparr>e_pid_send := p, e_impl := (e_impl c)\<lparr>ax_usage := u\<rparr>, e_work := buf\<rparr>"
      using aead_encrypt_Inr [OF Cons.prems(1,2) ok(2,4,3,1) e [unfolded r]] by blast
    have nw: "\<not> pd_wide (e_pid_send c)" using Cons.prems(2) by (simp add: aead_ok_def)
    note st = pds_next_step [OF p(1) nw Cons.prems(3)]
    have "aead_ok c'" using Cons.prems(2) p(3) ok(2) pds_next_wide [OF p(1)] by (simp add: aead_ok_def)
    then have ih: "distinct (aead_nonces env xs c')" "\<forall>iv\<in>set (aead_nonces env xs c'). pd_id p < ucast (be_word (take 4 iv) :: u32)"
      using Cons.IH [of c'] Cons.prems(1,4) st(2) p(3) by simp_all
    have "aead_nonces env (x # xs) c = (wire_id p @ drop 8 (nc_data (e_nonce c))) # aead_nonces env xs c'"
      using e r False p(2) by (simp add: x)
    moreover have "wire_id p @ drop 8 (nc_data (e_nonce c)) \<notin> set (aead_nonces env xs c')"
    proof
      assume "wire_id p @ drop 8 (nc_data (e_nonce c)) \<in> set (aead_nonces env xs c')"
      from bspec [OF ih(2) this] show False using st(3) by simp
    qed
    moreover have "pd_id (e_pid_send c) < ucast (be_word (take 4 iv) :: u32)" if "iv \<in> set (aead_nonces env xs c')" for iv
      using bspec [OF ih(2) that] st(1) by (rule order.strict_trans [rotated])
    ultimately show ?thesis using ih(1) st(1,3) by simp
  qed
qed simp

section \<open>Under a key context\<close>

text \<open>A packet that is not accepted leaves an empty buffer.\<close>

lemma aead_error_empties: "aead_decrypt env now op32 buf c = (Inr er, b', c') \<Longrightarrow> er \<noteq> ERR_SUCCESS \<Longrightarrow> b_size b' = 0"
  by (auto simp: aead_decrypt_def aead_open_def aead_accept_def buf_reset_size_def Let_def split: if_splits sum.splits prod.splits)

definition dc_message_ok :: "dc_env \<Rightarrow> dc_env \<Rightarrow> dc_input \<Rightarrow> bool" where
  "dc_message_ok es er x \<longleftrightarrow> (case x of (now, op32, buf) \<Rightarrow> op32_ok op32 \<and> work_ok buf \<and> 0 < b_size buf
     \<and> b_size buf \<le> fc_payload (de_frame es ! ENCRYPT_WORK) \<and> b_size buf + 20 \<le> fc_payload (de_frame er ! DECRYPT_WORK))"

definition wire_ok :: "dc_env \<Rightarrow> (byte list \<Rightarrow> buffer) \<Rightarrow> bool" where
  "wire_ok er wire \<longleftrightarrow> (\<forall>bs. length bs \<le> fc_payload (de_frame er ! DECRYPT_WORK) \<longrightarrow> dc_packet er (wire bs) \<and> content (wire bs) = bs)"

definition seal_total :: "dc_env \<Rightarrow> bool" where
  "seal_total env \<longleftrightarrow> (\<forall>key iv ad m. al_seal (de_lib env) key iv ad m \<noteq> None)"

lemma aead_encrypt_succeeds:
  assumes "dc_env_ok es" "seal_total es" "aead_ok c" "dc_message_ok es er (now, op32, buf)" "unat (pd_id (e_pid_send c)) + 1 < 0xffffffff"
  shows "\<exists>wn b c1. aead_encrypt es op32 buf c = (Inr wn, b, c1) \<and> work_ok b \<and> length (content b) = b_size buf + 20
    \<and> unat (pd_id (e_pid_send c1)) = unat (pd_id (e_pid_send c)) + 1 \<and> (aead_matched es er c c' \<longrightarrow> aead_matched es er c1 c')"
proof -
  have ok: "\<not> pd_wide (e_pid_send c)" using assms(3) by (simp add: aead_ok_def)
  obtain key where key: "ax_key (e_impl c) = Some key" using assms(3) by (auto simp: aead_ok_def)
  have buf: "work_ok buf" "0 < b_size buf" "b_size buf \<le> fc_payload (de_frame es ! ENCRYPT_WORK)" "op32_ok op32"
    using assms(4) by (simp_all add: dc_message_ok_def)
  obtain p where p: "pds_next (e_pid_send c) = (Inr p, p)" "unat (pd_id p) = unat (pd_id (e_pid_send c)) + 1"
    using pds_next_ok [of "e_pid_send c"] assms(5) by simp
  let ?iv = "wire_id p @ drop 8 (nc_data (e_nonce c))" and ?ad = "op32_bytes_of op32 @ wire_id p"
  obtain ct t where s: "al_seal (de_lib es) key ?iv ?ad (content buf) = Some (ct, t)"
    using assms(2) by (fastforce simp: seal_total_def)
  obtain wn b u where e: "aead_encrypt es op32 buf c = (Inr wn, b, c\<lparr>e_pid_send := p, e_impl := (e_impl c)\<lparr>ax_usage := u\<rparr>, e_work := buf\<rparr>)"
      "work_ok b" "content b = wire_id p @ t @ ct"
    using aead_encrypt_sent(1) [OF assms(1,3) buf p(1) key s] by blast
  have lt: "pd_id (e_pid_send c) < 0xffffffff" using assms(5) by (simp add: word_less_nat_alt)
  note st = pds_next_step [OF p(1) ok lt]
  have "aead_matched es er (c\<lparr>e_pid_send := p, e_impl := (e_impl c)\<lparr>ax_usage := u\<rparr>, e_work := buf\<rparr>) c'" if "aead_matched es er c c'"
    using that pds_next_wide [OF p(1)] ok st(1,2) buf(1) by (auto simp: aead_matched_def aead_ok_def)
  moreover have "length (content b) = b_size buf + 20"
    using e(3) dc_env_seal [OF assms(1) s] buf(1) by (simp add: AUTH_TAG_LEN_def work_ok_def)
  ultimately show ?thesis using e(1,2) p(2) by auto
qed

definition aead_linked :: "dc_env \<Rightarrow> dc_env \<Rightarrow> (byte list \<Rightarrow> buffer) \<Rightarrow> aead_crypto \<Rightarrow> aead_crypto \<Rightarrow> bool" where
  "aead_linked es er wire c c' \<longleftrightarrow> dc_env_ok es \<and> dc_env_ok er \<and> seal_total es \<and> wire_ok er wire \<and> aead_matched es er c c'"

definition ids_left :: "packet_id_data \<Rightarrow> nat" where
  "ids_left p = 0xfffffffe - unat (pd_id p)"

interpretation aead_ends: dc_pair "aead_encrypt es" "aead_decrypt er" wire "aead_linked es er wire" "\<lambda>c. ids_left (e_pid_send c)" "dc_message_ok es er"
  for es er wire
proof
  fix s r now op32 buf
  assume a: "aead_linked es er wire s r" "dc_message_ok es er (now, op32, buf)" "0 < ids_left (e_pid_send s)"
  have "aead_ok s" "unat (pd_id (e_pid_send s)) + 1 < 0xffffffff" using a(1,3) by (simp_all add: aead_linked_def aead_matched_def ids_left_def)
  with a(1) aead_encrypt_succeeds [OF _ _ _ a(2), of s r]
  show "\<exists>wn b s1. aead_encrypt es op32 buf s = (Inr wn, b, s1) \<and> ids_left (e_pid_send s) \<le> Suc (ids_left (e_pid_send s1)) \<and> aead_linked es er wire s1 r"
    by (fastforce simp: aead_linked_def ids_left_def)
next
  fix s r now op32 buf wn b s1
  assume a: "aead_linked es er wire s r" "dc_message_ok es er (now, op32, buf)" "aead_encrypt es op32 buf s = (Inr wn, b, s1)"
  have l: "dc_env_ok es" "dc_env_ok er" "wire_ok er wire" "aead_matched es er s r" "seal_total es" using a(1) by (simp_all add: aead_linked_def)
  have m: "op32_ok op32" "work_ok buf" "0 < b_size buf" "b_size buf \<le> fc_payload (de_frame es ! ENCRYPT_WORK)" "b_size buf + 20 \<le> fc_payload (de_frame er ! DECRYPT_WORK)"
    using a(2) by (simp_all add: dc_message_ok_def)
  have ok: "aead_ok s" using l(4) by (simp add: aead_matched_def)
  have "length (content b) = b_size buf + 20"
    using aead_encrypt_Inr [OF l(1) ok m(2-4,1) a(3)] dc_env_seal [OF l(1)] m(2) by (fastforce simp: AUTH_TAG_LEN_def work_ok_def)
  then have w: "dc_packet er (wire (content b))" "content (wire (content b)) = content b" using l(3) m(5) by (simp_all add: wire_ok_def)
  show "\<exists>b3 r3. aead_decrypt er now op32 (wire (content b)) r = (Inr ERR_SUCCESS, b3, r3) \<and> content b3 = content buf \<and> aead_linked es er wire s1 r3"
    using aead_round [OF l(1,2,4) m a(3) w, of now] l by (auto simp: aead_linked_def)
qed

section \<open>An instance\<close>

text \<open>A library that satisfies the assumptions: the key's first byte is added, the tag is made of key and nonce.\<close>

definition ex_tag :: "byte list \<Rightarrow> byte list \<Rightarrow> byte list" where
  "ex_tag key iv = take 16 (iv @ key @ replicate 16 0)"

definition ex_lib :: aead_lib where
  "ex_lib = \<lparr>al_supported = (\<lambda>_. True), al_seal = (\<lambda>key iv ad m. Some (map (\<lambda>b. b + hd key) m, ex_tag key iv)),
     al_open = (\<lambda>key iv ad c t. Some (map (\<lambda>b. b - hd key) c, t = ex_tag key iv))\<rparr>"

definition ex_dc_env :: dc_env where
  "ex_dc_env = \<lparr>de_lib = ex_lib, de_mbedtls = False, de_algs = [], de_frame = replicate N_ALIGN_CONTEXTS (fc_ctor 24 64 16 0 8 0),
     de_addr = 0, de_junk = (\<lambda>_. 0)\<rparr>"

definition ex_aead :: aead_crypto where
  "ex_aead = aead_new\<lparr>e_impl := ax_default\<lparr>ax_key := Some [7, 8]\<rparr>, d_impl := ax_default\<lparr>ax_key := Some [7, 8]\<rparr>\<rparr>"

definition ex_wire :: "byte list \<Rightarrow> buffer" where
  "ex_wire bs = \<lparr>b_data = bs, b_offset = 0, b_size = length bs, b_capacity = length bs, b_flags = Some 0\<rparr>"

lemma ex_tag_length: "length (ex_tag key iv) = 16"
  by (simp add: ex_tag_def)

lemma ex_dc_env_ok: "dc_env_ok ex_dc_env" "seal_total ex_dc_env"
proof -
  have "aead_lib_ok ex_lib" by (simp add: aead_lib_ok_def ex_lib_def ex_tag_length AUTH_TAG_LEN_def comp_def)
  then show "dc_env_ok ex_dc_env" "seal_total ex_dc_env"
    by (simp_all add: dc_env_ok_def ex_dc_env_def ex_lib_def AUTH_TAG_LEN_def seal_total_def fc_wf_def fc_ctor_def
        fc_recalc_derived_def sz_add_def sz_sub_def sz_max_def Let_def)
qed

lemma ex_payload: "i < N_ALIGN_CONTEXTS \<Longrightarrow> fc_payload (de_frame ex_dc_env ! i) = 64"
  by (simp add: ex_dc_env_def fc_ctor_def fc_recalc_derived_def Let_def)

lemma ex_wire_ok: "length bs < 2 ^ 62 \<Longrightarrow> work_ok (ex_wire bs) \<and> dc_packet ex_dc_env (ex_wire bs) \<and> content (ex_wire bs) = bs"
  by (simp add: ex_wire_def work_ok_def dc_packet_def buf_wf_def content_def ex_dc_env_def sz_max_def)

lemma ex_aead_matched: "aead_matched ex_dc_env ex_dc_env ex_aead ex_aead"
proof -
  have "work_ok buf_clear" by (simp add: work_ok_def buf_clear_def buf_wf_def sz_max_def)
  moreover have "pdr_rel 8 (pdr_init 8 False) spec_init" by (rule pdr_rel_init) simp
  ultimately show ?thesis
    by (auto simp: aead_matched_def aead_ok_def ex_aead_def aead_new_def ax_default_def nonce_default_def pds_default_def pdr_init_def)
qed

lemmas ex_simps = ex_dc_env_ok ex_aead_matched ex_wire_ok ex_payload ENCRYPT_WORK_def DECRYPT_WORK_def N_ALIGN_CONTEXTS_def

lemma ex_aead_ok: "aead_ok ex_aead"
  using ex_aead_matched by (simp add: aead_matched_def)

lemma ex_aead_fresh: "d_pid_recv ex_aead = pdr_init 8 False" "e_pid_send ex_aead = pds_default"
  by (simp_all add: ex_aead_def aead_new_def)

section \<open>Properties\<close>

text \<open>
  Data channel delivery. Two ends with the same keys and implicit nonce, over any library that opens what it
  sealed: of every sequence of packets that are encrypted, of which the network loses any and carries the others
  in order, exactly the packets that are not lost are accepted, with exactly the bytes that were encrypted, by
  OpenSSL and mbed TLS on either side, with both header formats, until the 32-bit packet IDs run out.
\<close>

lemma aead_channel:
  assumes "dc_env_ok es" "dc_env_ok er" "seal_total es" "wire_ok er wire" "\<forall>(lost, x)\<in>set xs. dc_message_ok es er x"
    and "aead_matched es er c c'" "unat (pd_id (e_pid_send c)) + length xs < 0xffffffff"
  shows "dc_deliver (aead_encrypt es) (aead_decrypt er) wire xs c c' = Some (carried xs)"
  using aead_ends.deliver_all [of es er wire c c' xs] assms by (simp add: aead_linked_def ids_left_def)

text \<open>
  C12. No replay on the data channel. Starting from a freshly initialised replay filter, whatever sequence of packets
  arrives, at whatever times, forged, damaged, reordered or repeated: no packet ID is accepted twice.
\<close>

theorem aead_no_replay:
  assumes "dc_env_ok env" "aead_ok c" "d_pid_recv c = pdr_init 8 False" "\<forall>x\<in>set xs. dc_input_ok env x"
  shows "distinct (accepted_keys (aead_step env) dc_input_id c xs)"
  using aead.run_distinct [of env c "{}" xs] assms pdr_known_init [of False] by (simp add: aead_ready_def)

theorem aead_no_replay_witness:
  "dc_input_ok ex_dc_env (3, None, ex_wire [0, 0, 0, 1])
   \<and> distinct (accepted_keys (aead_step ex_dc_env) dc_input_id ex_aead [(3, None, ex_wire [0, 0, 0, 1]), (4, None, ex_wire [0, 0, 0, 1])])"
  using aead_no_replay [OF ex_dc_env_ok(1) ex_aead_ok ex_aead_fresh(1), of "[(3, None, ex_wire [0, 0, 0, 1]), (4, None, ex_wire [0, 0, 0, 1])]"]
  by (simp add: dc_input_ok_def op32_ok_def ex_wire_ok)

text \<open>
  C13. Forged data packets. Decryption of any packet raises only the documented exceptions or returns success,
  decryption error or replay error, and keeps the state well-formed. What is returned with success is what the
  library opened. A packet that the library does not accept for its packet ID, header and tag is never accepted
  and leaves keys, nonces, counters and the replay filter as they were.
\<close>

theorem aead_forgery:
  assumes "dc_env_ok env" "aead_ok c" "pdr_known (d_pid_recv c) K" "dc_packet env buf" "op32_ok op32" "0 < b_size buf"
    and "aead_decrypt env now op32 buf c = (r, b', c')"
  shows "aead_ok c' \<and> (case r of Inl e \<Rightarrow> aead_exn e | Inr er \<Rightarrow> er \<in> {ERR_SUCCESS, DECRYPT_ERROR, REPLAY_ERROR})
    \<and> (r = Inr ERR_SUCCESS \<longrightarrow> aead_message env c op32 (content buf) = Some (content b'))
    \<and> (aead_message env c op32 (content buf) = None \<longrightarrow> r \<noteq> Inr ERR_SUCCESS \<and> c' = c\<lparr>d_work := d_work c'\<rparr>)"
  using aead_decrypt_ready [of env c K buf op32 now r b' c'] assms by (auto simp: aead_ready_def)

theorem aead_forgery_witness:
  "\<exists>r b' c'. aead_decrypt ex_dc_env 0 None (ex_wire (replicate 24 1)) ex_aead = (r, b', c') \<and> r \<noteq> Inr ERR_SUCCESS \<and> c' = ex_aead\<lparr>d_work := d_work c'\<rparr>"
proof -
  obtain r b' c' where d: "aead_decrypt ex_dc_env 0 None (ex_wire (replicate 24 1)) ex_aead = (r, b', c')" by (metis prod_cases3)
  have w: "content (ex_wire (replicate 24 1)) = replicate 24 1" "dc_packet ex_dc_env (ex_wire (replicate 24 1))" "0 < b_size (ex_wire (replicate 24 1))"
    using ex_wire_ok [of "replicate 24 1"] by (simp_all add: ex_wire_def)
  have "pdr_known (d_pid_recv ex_aead) {}" by (simp add: ex_aead_fresh pdr_known_init)
  moreover have "aead_message ex_dc_env ex_aead None (replicate 24 1) = None"
    by (simp add: aead_message_def ex_aead_def ex_dc_env_def ex_lib_def ex_tag_def op32_bytes_of_def aead_new_def nonce_default_def
        numeral_eq_Suc)
  ultimately show ?thesis
    using aead_forgery [OF ex_dc_env_ok(1) ex_aead_ok _ w(2) _ w(3) d, of "{}"] d w(1) by (simp add: op32_ok_def)
qed



text \<open>
  Nothing is injected. What a key context hands on of a received packet, with AEAD encryption and without a data
  limit, compression and MSS clamping, is nothing, or it is what the library opened behind the packet's header.
\<close>

lemma aead_no_injection:
  fixes base :: int and now :: time64
  assumes "kc_keyed kc c" "kc_data_limit kc = None" "\<not> kc_compress kc" "mss_fix cfg = 0"
    and "dc_env_ok env" "aead_ok c" "pdr_known (d_pid_recv c) K" "dc_packet env b"
  defines "out \<equiv> content (fst (kc_decrypt (aead_api env base) cfg now b kc))" and "h \<equiv> op_head_size (ucast (hd (content b)))"
  shows "out = [] \<or> aead_message env c (if h = OP_SIZE_V2 then Some (take 4 (content b)) else None) (drop h (content b)) = Some out"
proof (rule kc_decrypt_output [OF assms(1-4), of b "aead_api env base" now])
  show "buf_wf b" using assms(8) by (simp add: dc_packet_def work_ok_def)
  fix k er b2 c2
  let ?op = "if k = OP_SIZE_V2 then Some (take 4 (content b)) else None" and ?b1 = "b\<lparr>b_offset := b_offset b + k, b_size := b_size b - k\<rparr>"
  assume a: "dc_decrypt (aead_api env base) now ?op ?b1 c = (Inr er, b2, c2)" "content (fst (kc_decrypt (aead_api env base) cfg now b kc)) = content b2"
    "k \<le> b_size b" "k = op_head_size (ucast (hd (content b)))"
  then have d: "aead_decrypt env (tm_seconds_since_epoch base now) ?op ?b1 c = (Inr er, b2, c2)" by (simp add: aead_api_def)
  have op: "op32_ok ?op" "dc_packet env ?b1" "content ?b1 = drop k (content b)"
    using a(3) assms(8) dc_packet_consume [OF assms(8) a(3)] content_consume [of b k]
    by (simp_all add: op32_ok_def op32_size_def OP_SIZE_V2_def dc_packet_def work_ok_def)
  have kh: "h = k" using a(4) by (simp add: h_def)
  show ?thesis
  proof (cases "er = ERR_SUCCESS \<and> 0 < b_size ?b1")
    case True
    have "aead_ready env c K" using assms(5-7) by (simp add: aead_ready_def)
    from aead_decrypt_ready [OF this op(2,1) d] True have "aead_message env c ?op (content ?b1) = Some (content b2)" by auto
    then show ?thesis using a(2) op(3) unfolding kh by (simp add: out_def)
  next
    case False
    then have "b_size b2 = 0" using aead_error_empties [OF d] d by (auto simp: aead_decrypt_def)
    then show ?thesis using a(2) by (simp add: out_def)
  qed
qed (simp add: out_def)

definition ex_aead_key :: "aead_crypto key_context" where
  "ex_aead_key = (kc_construct ex_cfg 5 2 True)\<lparr>kc_state := ACTIVE, kc_crypto := Some ex_aead, crypto_defined := True\<rparr>"

end
