(* ===== verification/Data_Epoch.thy ===== *)
theory Data_Epoch
  imports Crypto_Aead
begin

text \<open>
  Epoch keys of the data channel (crypto/data_epoch.hpp, crypto/data_epoch.cpp): the key derivation, the keys of an
  epoch, and the management of the current, retiring and future keys. HMAC-SHA256 is a parameter, a function of key and
  message; the rest of the environment is that of \<open>Crypto_Aead\<close>.
\<close>

section \<open>Key derivation\<close>

record epoch_env =
  ev_dc :: dc_env
  ev_hmac :: "byte list \<Rightarrow> byte list \<Rightarrow> byte list"

text \<open>
  The loop of \<open>ovpn_hkdf_expand\<close>. The counter is one byte: were it to wrap around, \<open>out_offset\<close> would be negative
  and the copy would write in front of the output.
\<close>

definition hkdf_digest_size :: nat where "hkdf_digest_size = 32"

function hkdf_loop :: "(byte list \<Rightarrow> byte list) \<Rightarrow> byte list \<Rightarrow> nat \<Rightarrow> byte \<Rightarrow> byte list \<Rightarrow> byte list \<Rightarrow> byte list result" where
  "hkdf_loop hm info out_len block t_prev out =
     (if (int (unat block) - 1) * int hkdf_digest_size < int out_len
      then if block = 0 then Inl undefined_behaviour
           else let t = hm (t_prev @ info @ [block]);
                    out_offset = (unat block - 1) * hkdf_digest_size;
                    copylen = min hkdf_digest_size (out_len - out_offset)
                in hkdf_loop hm info out_len (block + 1) t (overwrite out_offset (take copylen t) out)
      else Inr out)"
  by pat_completeness auto
termination
proof (relation "measure (\<lambda>(_, _, _, block, _, _). if block = 0 then 0 else 256 - unat block)", goal_cases)
  case (2 hm info out_len block)
  have lt: "unat block < 256" using unsigned_less [of block, where 'a = nat] by simp
  have "unat (block + 1) = unat block + 1" if "block + 1 \<noteq> 0" using that by (metis Suc_eq_plus1 unatSuc add.commute)
  then show ?case using 2(2) lt by auto
qed simp

declare hkdf_loop.simps [simp del]

definition ovpn_hkdf_expand :: "epoch_env \<Rightarrow> byte list \<Rightarrow> byte list \<Rightarrow> byte list \<Rightarrow> nat \<Rightarrow> byte list result" where
  "ovpn_hkdf_expand env secret info out out_len = hkdf_loop (ev_hmac env (take 32 secret)) info out_len 1 [] out"

text \<open>Successive writes to a buffer.\<close>

fun buf_write_all :: "(nat \<Rightarrow> byte) \<Rightarrow> byte list list \<Rightarrow> buffer \<Rightarrow> buffer result" where
  "buf_write_all junk [] b = Inr b"
| "buf_write_all junk (bs # bss) b = bindR (buf_write junk bs b) (buf_write_all junk bss)"

definition bytes_of_string :: "string \<Rightarrow> byte list" where
  "bytes_of_string s = map of_char s"

definition ovpn_expand_label :: "epoch_env \<Rightarrow> byte list \<Rightarrow> byte list \<Rightarrow> byte list \<Rightarrow> byte list \<Rightarrow> byte list result" where
  "ovpn_expand_label env secret label context out =
     (if length secret \<noteq> 32 then Inl (runtime_error ''hkdf secret length mismatch'')
      else let prefix_len = 5; hkdf_label_len = 2 + prefix_len + 1 + length label + 1 + length context
           in if hkdf_label_len \<ge> 65535 then Inl (runtime_error ''HKDF input parameters are too large'')
              else bindR (buf_write_all (de_junk (ev_dc env))
                            ([be_bytes 2 (of_nat (length out) :: u16), [of_nat (length label + prefix_len)], bytes_of_string ''ovpn '', label]
                             @ (if length context > 0 then [context] else []) @ [[of_nat (length context)]])
                            (buf_alloc_capacity (de_junk (ev_dc env)) hkdf_label_len 0)) (\<lambda>hkdf_label.
                   if b_size hkdf_label \<noteq> hkdf_label_len then Inl (runtime_error ''hkdf label length mismatch'')
                   else ovpn_hkdf_expand env secret (content hkdf_label) out (length out mod 65536)))"

section \<open>\<open>EpochKey\<close>\<close>

record epoch_key =
  ek_keydata :: "byte list"
  ek_epoch :: u16

definition ek_default :: epoch_key where
  "ek_default = \<lparr>ek_keydata = replicate 32 0, ek_epoch = 0\<rparr>"

definition ek_ctor :: "byte list \<Rightarrow> epoch_key result" where
  "ek_ctor key =
     (if length key < 32 then Inl (epoch_key_exception ''Secret key too short to create epoch key'')
      else Inr \<lparr>ek_keydata = take 32 key, ek_epoch = 1\<rparr>)"

definition ek_iterate :: "epoch_env \<Rightarrow> epoch_key \<Rightarrow> epoch_key result" where
  "ek_iterate env k =
     bindR (ovpn_expand_label env (ek_keydata k) (bytes_of_string ''datakey upd'') [] (replicate 32 0)) (\<lambda>new_keydata.
       Inr \<lparr>ek_keydata = new_keydata, ek_epoch = ek_epoch k + 1\<rparr>)"

definition ek_data_key :: "epoch_env \<Rightarrow> alg_type \<Rightarrow> epoch_key \<Rightarrow> (byte list \<times> byte list) result" where
  "ek_data_key env cipher k =
     bindR (alg_key_length (de_algs (ev_dc env)) cipher) (\<lambda>kl.
     bindR (alg_iv_length (de_algs (ev_dc env)) cipher) (\<lambda>il.
     let data_key = buf_alloc_capacity (de_junk (ev_dc env)) kl (DESTRUCT_ZERO OR ARRAY);
         data_iv = buf_alloc_capacity (de_junk (ev_dc env)) il (DESTRUCT_ZERO OR ARRAY)
     in bindR (ovpn_expand_label env (ek_keydata k) (bytes_of_string ''data_key'') [] (content data_key)) (\<lambda>key.
        bindR (ovpn_expand_label env (ek_keydata k) (bytes_of_string ''data_iv'') [] (content data_iv)) (\<lambda>iv.
        Inr (key, iv)))))"

record epoch_ctx =
  ec_epoch :: u16
  ec_cipher :: aead_ctx
  ec_iv :: "byte list"

definition EPOCH_IV_SIZE :: nat where "EPOCH_IV_SIZE = 12"

definition ec_default :: epoch_ctx where
  "ec_default = \<lparr>ec_epoch = 0, ec_cipher = ax_default, ec_iv = replicate EPOCH_IV_SIZE 0\<rparr>"

definition ek_key_context :: "epoch_env \<Rightarrow> alg_type \<Rightarrow> epoch_key \<Rightarrow> epoch_ctx result" where
  "ek_key_context env cipher k =
     bindR (ek_data_key env cipher k) (\<lambda>(key, iv).
       if length iv \<noteq> EPOCH_IV_SIZE then Inl (epoch_key_exception ''IV size mismatch. Expected IV size to be 12'')
       else bindR (ax_init (ev_dc env) cipher key (length key)) (\<lambda>ax.
              Inr \<lparr>ec_epoch = ek_epoch k, ec_cipher = ax, ec_iv = iv\<rparr>))"

definition ec_calculate_iv :: "byte list \<Rightarrow> epoch_ctx \<Rightarrow> byte list" where
  "ec_calculate_iv packet_id ctx = map2 (XOR) (take 8 packet_id) (take 8 (ec_iv ctx)) @ drop 8 (ec_iv ctx)"

section \<open>\<open>DataChannelEpoch\<close>\<close>

record epoch_send =
  es_ctx :: epoch_ctx
  es_pid :: packet_id_data

record epoch_recv =
  er_ctx :: epoch_ctx
  er_pid :: pid_data_recv

definition es_default :: epoch_send where
  "es_default = \<lparr>es_ctx = ec_default, es_pid = pds_ctor True 0\<rparr>"

definition er_default :: epoch_recv where
  "er_default = \<lparr>er_ctx = ec_default, er_pid = pdr_init 8 False\<rparr>"

record dce =
  dce_cipher :: alg_type
  dce_count :: u16
  encrypt_ctx :: epoch_send
  decrypt_ctx :: epoch_recv
  retiring_ctx :: epoch_recv
  future_keys :: "epoch_recv list"
  dce_send :: epoch_key
  dce_receive :: epoch_key

abbreviation er_epoch :: "epoch_recv \<Rightarrow> u16" where
  "er_epoch c \<equiv> ec_epoch (er_ctx c)"

text \<open>The loop at the end of \<open>generate_future_receive_keys\<close>.\<close>

function dce_fill :: "epoch_env \<Rightarrow> dce \<Rightarrow> unit result \<times> dce" where
  "dce_fill env d =
     (if length (future_keys d) < unat (dce_count d)
      then case ek_iterate env (dce_receive d) of
             Inl e \<Rightarrow> (Inl e, d)
           | Inr k \<Rightarrow>
               (case ek_key_context env (dce_cipher d) k of
                  Inl e \<Rightarrow> (Inl e, d\<lparr>dce_receive := k\<rparr>)
                | Inr ctx \<Rightarrow> dce_fill env (d\<lparr>dce_receive := k, future_keys := future_keys d @ [\<lparr>er_ctx = ctx, er_pid = pdr_init 8 True\<rparr>]\<rparr>))
      else (Inr (), d))"
  by pat_completeness auto
termination by (relation "measure (\<lambda>(_, d). unat (dce_count d) - length (future_keys d))") auto

declare dce_fill.simps [simp del]

definition generate_future_receive_keys :: "epoch_env \<Rightarrow> dce \<Rightarrow> unit result \<times> dce" where
  "generate_future_receive_keys env d =
     (let current_epoch_recv = er_epoch (decrypt_ctx d)
      in if current_epoch_recv = 0 then (Inl (epoch_key_exception ''Current receive key not initialised''), d)
         else if future_keys d \<noteq> [] \<and> er_epoch (last (future_keys d)) \<noteq> ek_epoch (dce_receive d)
         then (Inl (epoch_key_exception ''Epoch key generation and future keys mismatch detected''), d)
         else dce_fill env (d\<lparr>future_keys := filter (\<lambda>c. \<not> er_epoch c \<le> current_epoch_recv) (future_keys d)\<rparr>))"

definition generate_encrypt_ctx :: "epoch_env \<Rightarrow> dce \<Rightarrow> unit result \<times> dce" where
  "generate_encrypt_ctx env d =
     (case ek_key_context env (dce_cipher d) (dce_send d) of
        Inl e \<Rightarrow> (Inl e, d)
      | Inr ctx \<Rightarrow> (Inr (), d\<lparr>encrypt_ctx := \<lparr>es_ctx = ctx, es_pid = pds_ctor True (ek_epoch (dce_send d))\<rparr>\<rparr>))"

definition dce_ctor :: "epoch_env \<Rightarrow> alg_type \<Rightarrow> byte list \<Rightarrow> byte list \<Rightarrow> u16 \<Rightarrow> dce result" where
  "dce_ctor env cipher e1send e1recv count =
     bindR (ek_ctor e1send) (\<lambda>snd_key.
     bindR (ek_ctor e1recv) (\<lambda>rcv_key.
     bindR (ek_key_context env cipher rcv_key) (\<lambda>ctx.
     let d = \<lparr>dce_cipher = cipher, dce_count = count, encrypt_ctx = es_default, decrypt_ctx = er_default\<lparr>er_ctx := ctx\<rparr>,
              retiring_ctx = er_default, future_keys = [], dce_send = snd_key, dce_receive = rcv_key\<rparr>;
         (r, d1) = generate_encrypt_ctx env d
     in bindR r (\<lambda>_. let (r2, d2) = generate_future_receive_keys env d1 in bindR r2 (\<lambda>_. Inr d2)))))"

definition iterate_send_key :: "epoch_env \<Rightarrow> dce \<Rightarrow> unit result \<times> dce" where
  "iterate_send_key env d =
     (if ek_epoch (dce_send d) \<ge> 0xffff then (Inl (epoch_key_exception ''Send epoch at limit''), d)
      else case ek_iterate env (dce_send d) of
             Inl e \<Rightarrow> (Inl e, d)
           | Inr k \<Rightarrow> generate_encrypt_ctx env (d\<lparr>dce_send := k\<rparr>))"

definition should_renegotiate :: "dce \<Rightarrow> bool" where
  "should_renegotiate d \<longleftrightarrow> ek_epoch (dce_send d) > 0xff00"

definition check_send_iterate :: "epoch_env \<Rightarrow> dce \<Rightarrow> unit result \<times> dce" where
  "check_send_iterate env d =
     (if ek_epoch (dce_send d) = 0xffff then (Inr (), d)
      else if usage_limit_reached (ax_usage (ec_cipher (es_ctx (encrypt_ctx d)))) \<or> pds_at_limit (es_pid (encrypt_ctx d))
      then iterate_send_key env d
      else (Inr (), d))"

text \<open>The loop of \<open>replace_update_recv_key\<close> that brings the send key to the new epoch.\<close>

function ek_catch_up :: "epoch_env \<Rightarrow> u16 \<Rightarrow> epoch_key \<Rightarrow> unit result \<times> epoch_key" where
  "ek_catch_up env new_epoch k =
     (if ek_epoch k < new_epoch
      then case ek_iterate env k of Inl e \<Rightarrow> (Inl e, k) | Inr k' \<Rightarrow> ek_catch_up env new_epoch k'
      else (Inr (), k))"
  by pat_completeness auto
termination
proof (relation "measure (\<lambda>(_, n, k). unat n - unat (ek_epoch k))", goal_cases)
  case (2 env n k k')
  have e: "ek_epoch k' = ek_epoch k + 1" using 2(2) by (auto simp: ek_iterate_def bindR_eq_Inr)
  have "unat (ek_epoch k) < unat n" using 2(1) by (simp add: word_less_nat_alt)
  moreover from this have "unat (ek_epoch k + 1) = unat (ek_epoch k) + 1"
    using unsigned_less [of n, where 'a = nat] by (intro unat_inc_bound) simp
  ultimately show ?case using e by simp
qed simp

declare ek_catch_up.simps [simp del]

text \<open>
  \<open>replace_update_recv_key\<close>: the place of the new key in \<open>future_keys\<close> is overwritten with an empty context of epoch 0
  before the future keys are generated.
\<close>

definition dce_advance_send :: "epoch_env \<Rightarrow> u16 \<Rightarrow> dce \<Rightarrow> unit result \<times> dce" where
  "dce_advance_send env new_epoch d =
     (if ek_epoch (dce_send d) < new_epoch
      then case ek_catch_up env new_epoch (dce_send d) of
             (Inl e, k) \<Rightarrow> (Inl e, d\<lparr>dce_send := k\<rparr>)
           | (Inr _, k) \<Rightarrow> generate_encrypt_ctx env (d\<lparr>dce_send := k\<rparr>)
      else (Inr (), d))"

fun find_epoch :: "u16 \<Rightarrow> epoch_recv list \<Rightarrow> nat option" where
  "find_epoch e [] = None"
| "find_epoch e (c # cs) = (if er_epoch c = e then Some 0 else map_option Suc (find_epoch e cs))"

definition replace_update_recv_key :: "epoch_env \<Rightarrow> u16 \<Rightarrow> dce \<Rightarrow> unit result \<times> dce" where
  "replace_update_recv_key env new_epoch d =
     (if new_epoch \<le> er_epoch (decrypt_ctx d) then (Inr (), d)
      else case find_epoch new_epoch (future_keys d) of
        None \<Rightarrow> (Inl (epoch_key_exception ''Updating to new epoch receive key that is not a valid candidate''), d)
      | Some i \<Rightarrow>
          (case dce_advance_send env new_epoch d of
             (Inl e, d1) \<Rightarrow> (Inl e, d1)
           | (Inr _, d1) \<Rightarrow>
               generate_future_receive_keys env
                 (d1\<lparr>retiring_ctx := decrypt_ctx d1, decrypt_ctx := future_keys d1 ! i, future_keys := (future_keys d1)[i := er_default]\<rparr>)))"

text \<open>\<open>lookup_decrypt_key\<close> returns a pointer into the object: which context it is, or none.\<close>

datatype decrypt_key = DK_CURRENT | DK_RETIRING | DK_FUTURE nat

definition lookup_decrypt_key :: "u16 \<Rightarrow> dce \<Rightarrow> decrypt_key option result" where
  "lookup_decrypt_key epoch d =
     (if er_epoch (decrypt_ctx d) = epoch then Inr (Some DK_CURRENT)
      else if er_epoch (retiring_ctx d) > 0 \<and> er_epoch (retiring_ctx d) = epoch then Inr (Some DK_RETIRING)
      else if epoch > er_epoch (decrypt_ctx d) \<and> unat epoch \<le> unat (er_epoch (decrypt_ctx d)) + unat (dce_count d)
      then if int (unat epoch) > 65535 - int (unat (dce_count d)) - 1 then Inr None
           else let index = unat epoch - (unat (er_epoch (decrypt_ctx d)) + 1)
                in if index < length (future_keys d) then Inr (Some (DK_FUTURE index)) else Inl out_of_range
      else Inr None)"

fun dce_get :: "decrypt_key \<Rightarrow> dce \<Rightarrow> epoch_recv" where
  "dce_get DK_CURRENT d = decrypt_ctx d"
| "dce_get DK_RETIRING d = retiring_ctx d"
| "dce_get (DK_FUTURE i) d = future_keys d ! i"

fun dce_set_pid :: "decrypt_key \<Rightarrow> pid_data_recv \<Rightarrow> dce \<Rightarrow> dce" where
  "dce_set_pid DK_CURRENT p d = d\<lparr>decrypt_ctx := (decrypt_ctx d)\<lparr>er_pid := p\<rparr>\<rparr>"
| "dce_set_pid DK_RETIRING p d = d\<lparr>retiring_ctx := (retiring_ctx d)\<lparr>er_pid := p\<rparr>\<rparr>"
| "dce_set_pid (DK_FUTURE i) p d = d\<lparr>future_keys := (future_keys d)[i := (future_keys d ! i)\<lparr>er_pid := p\<rparr>]\<rparr>"

section \<open>The derivation is HKDF-Expand\<close>

text \<open>RFC 5869: \<open>T(0)\<close> is empty, \<open>T(n) = HMAC(T(n-1) | info | n)\<close>, and the output is the beginning of \<open>T(1) | T(2) | ...\<close>.\<close>

fun hkdf_T :: "(byte list \<Rightarrow> byte list) \<Rightarrow> byte list \<Rightarrow> nat \<Rightarrow> byte list" where
  "hkdf_T hm info 0 = []"
| "hkdf_T hm info (Suc n) = hm (hkdf_T hm info n @ info @ [of_nat (Suc n)])"

definition hkdf_okm :: "(byte list \<Rightarrow> byte list) \<Rightarrow> byte list \<Rightarrow> nat \<Rightarrow> byte list" where
  "hkdf_okm hm info n = take n (concat (map (hkdf_T hm info) [1..<Suc ((n + 31) div 32)]))"

definition hmac_ok :: "(byte list \<Rightarrow> byte list \<Rightarrow> byte list) \<Rightarrow> bool" where
  "hmac_ok hm \<longleftrightarrow> (\<forall>key m. length (hm key m) = 32)"

lemma length_concat_T: "\<forall>m. length (hm m) = 32 \<Longrightarrow> 0 < a \<Longrightarrow> length (concat (map (hkdf_T hm info) [a..<b])) = (b - a) * 32"
proof (induction b)
  case (Suc b)
  have "length (hkdf_T hm info b) = 32" if "0 < b" using that Suc.prems(1) by (cases b) simp_all
  then show ?case using Suc by (auto simp: Suc_diff_le)
qed simp

lemma hkdf_loop_eq:
  assumes hm: "\<forall>m. length (hm m) = 32" and l: "n \<le> length out" "n \<le> 8128"
  shows "i \<le> (n + 31) div 32 \<Longrightarrow> hkdf_loop hm info n (of_nat (Suc i)) (hkdf_T hm info i) out
    = Inr (take (min (i * 32) n) out @ take (n - i * 32) (concat (map (hkdf_T hm info) [Suc i..<Suc ((n + 31) div 32)])) @ drop n out)"
  using l(1)
proof (induction "(n + 31) div 32 - i" arbitrary: i out)
  case 0
  then have "n \<le> i * 32" by simp
  moreover have "i \<le> 254" using 0 l(2) by simp
  then have u: "unat (of_nat (Suc i) :: byte) = Suc i" by (simp add: unat_of_nat del: of_nat_Suc)
  ultimately have "\<not> (int (unat (of_nat (Suc i) :: byte)) - 1) * int hkdf_digest_size < int n" unfolding u by (simp add: hkdf_digest_size_def)
  then show ?case using 0 \<open>n \<le> i * 32\<close> by (subst hkdf_loop.simps) (simp only: if_False, simp add: min_absorb2 del: of_nat_Suc)
next
  case (Suc d)
  let ?N = "(n + 31) div 32"
  have i: "i * 32 < n" "i < 255" "i < ?N" using Suc.hyps(2) l(2) by auto
  have u: "unat (of_nat (Suc i) :: byte) = Suc i" "(of_nat (Suc i) :: byte) \<noteq> 0" using i(2) by (auto simp: unat_of_nat word_unat_eq_iff simp del: of_nat_Suc)
  let ?T = "hkdf_T hm info (Suc i)" and ?k = "min 32 (n - i * 32)"
  let ?out = "overwrite (i * 32) (take ?k ?T) out"
  have T: "length ?T = 32" using hm by simp
  have o: "take (min (Suc i * 32) n) ?out = take (i * 32) out @ take ?k ?T" "drop n ?out = drop n out" "n \<le> length ?out"
    using Suc.prems(2) i(1) T by (auto simp: overwrite_def min_def)
  have cat: "concat (map (hkdf_T hm info) [Suc i..<Suc ?N]) = ?T @ concat (map (hkdf_T hm info) [Suc (Suc i)..<Suc ?N])"
    using i(3) by (subst upt_conv_Cons) simp_all
  have "hkdf_loop hm info n (of_nat (Suc i)) (hkdf_T hm info i) out = hkdf_loop hm info n (of_nat (Suc (Suc i))) ?T ?out"
    using i(1) u by (subst hkdf_loop.simps) (simp add: hkdf_digest_size_def Let_def add.commute)
  also have "\<dots> = Inr (take (min (Suc i * 32) n) ?out @ take (n - Suc i * 32) (concat (map (hkdf_T hm info) [Suc (Suc i)..<Suc ?N])) @ drop n ?out)"
    by (rule Suc.hyps(1)) (use Suc.hyps(2) i(3) o(3) in auto)
  finally show ?case unfolding o(1,2) cat using T i(1) by (simp add: min_def add.commute del: upt_Suc)
qed

lemma hkdf_expand_okm:
  assumes "hmac_ok (ev_hmac env)" "length secret = 32" "n \<le> length out" "n \<le> 8128"
  shows "ovpn_hkdf_expand env secret info out n = Inr (hkdf_okm (ev_hmac env secret) info n @ drop n out)"
  using hkdf_loop_eq [of "ev_hmac env secret" n out 0 info] assms by (simp add: ovpn_hkdf_expand_def hkdf_okm_def hmac_ok_def del: upt_Suc)

lemma length_hkdf_okm: "\<forall>m. length (hm m) = 32 \<Longrightarrow> length (hkdf_okm hm info n) = n"
  using length_concat_T [of hm 1 info "Suc ((n + 31) div 32)"] by (simp add: hkdf_okm_def del: upt_Suc)

lemma buf_write_all_fits:
  "buf_wf b \<Longrightarrow> b_offset b + b_size b + length (concat bss) \<le> b_capacity b \<Longrightarrow>
     \<exists>b'. buf_write_all junk bss b = Inr b' \<and> buf_wf b' \<and> content b' = content b @ concat bss \<and> b_size b' = b_size b + length (concat bss)"
proof (induction bss arbitrary: b)
  case (Cons bs bss)
  obtain b1 where b1: "buf_write junk bs b = Inr b1" "buf_wf b1" "content b1 = content b @ bs"
    "b_size b1 = b_size b + length bs" "b_capacity b1 = b_capacity b" "b_offset b1 = b_offset b"
    by (rule buf_write_fits [of b bs junk]) (use Cons.prems in simp_all)
  then show ?case using Cons.IH [of b1] Cons.prems by (auto simp: add.assoc)
qed simp

text \<open>The label as it is encoded: the length of the context comes behind the context.\<close>

definition hkdf_label :: "nat \<Rightarrow> byte list \<Rightarrow> byte list \<Rightarrow> byte list" where
  "hkdf_label n label context =
     be_bytes 2 (of_nat n :: u16) @ [of_nat (length label + 5)] @ bytes_of_string ''ovpn '' @ label @ context @ [of_nat (length context)]"

lemma expand_label_okm:
  assumes "hmac_ok (ev_hmac env)" "length secret = 32" "length label + length context < 65526" "length out \<le> 8128"
  shows "ovpn_expand_label env secret label context out = Inr (hkdf_okm (ev_hmac env secret) (hkdf_label (length out) label context) (length out))"
proof -
  define ws where "ws = [be_bytes 2 (of_nat (length out) :: u16), [of_nat (length label + 5)], bytes_of_string ''ovpn '', label]
     @ (if length context > 0 then [context] else []) @ [[of_nat (length context)]]"
  have c: "concat ws = hkdf_label (length out) label context" by (simp add: hkdf_label_def ws_def)
  let ?n = "9 + length label + length context"
  have n: "length (hkdf_label (length out) label context) = ?n" by (simp add: hkdf_label_def bytes_of_string_def)
  let ?b = "buf_alloc_capacity (de_junk (ev_dc env)) ?n 0"
  have "buf_wf ?b" "b_offset ?b = 0" "b_size ?b = 0" "b_capacity ?b = ?n"
    using assms(3) by (simp_all add: buf_alloc_capacity_wf sz_max_def) (simp_all add: buf_alloc_capacity_def buf_alloc_def)
  with buf_write_all_fits [of ?b ws "de_junk (ev_dc env)"] c n
  obtain b' where "buf_write_all (de_junk (ev_dc env)) ws ?b = Inr b'" "content b' = hkdf_label (length out) label context" "b_size b' = ?n"
    by auto
  then show ?thesis using assms hkdf_expand_okm [OF assms(1,2) order_refl assms(4), of "hkdf_label (length out) label context"]
    unfolding ovpn_expand_label_def Let_def ws_def by (simp add: add.commute add.left_commute del: buf_write_all.simps)
qed

section \<open>The keys of an epoch\<close>

text \<open>The derivations as functions of the secret, for a cipher whose sizes are those of an AEAD cipher.\<close>

definition epoch_env_ok :: "epoch_env \<Rightarrow> alg_type \<Rightarrow> bool" where
  "epoch_env_ok env cipher \<longleftrightarrow> hmac_ok (ev_hmac env) \<and> dc_env_ok (ev_dc env)
     \<and> (\<exists>kl ck u. alg_key_length (de_algs (ev_dc env)) cipher = Inr kl \<and> kl \<le> 8128 \<and> alg_iv_length (de_algs (ev_dc env)) cipher = Inr 12
          \<and> aead_cipher_type (ev_dc env) cipher = Some ck \<and> ck \<le> kl \<and> ul_ctor (de_algs (ev_dc env)) cipher = Inr u)"

definition ek_expand :: "epoch_env \<Rightarrow> byte list \<Rightarrow> string \<Rightarrow> nat \<Rightarrow> byte list" where
  "ek_expand env secret label n = hkdf_okm (ev_hmac env secret) (hkdf_label n (bytes_of_string label) []) n"

definition ek_next :: "epoch_env \<Rightarrow> epoch_key \<Rightarrow> epoch_key" where
  "ek_next env k = \<lparr>ek_keydata = ek_expand env (ek_keydata k) ''datakey upd'' 32, ek_epoch = ek_epoch k + 1\<rparr>"

definition ek_ctx :: "epoch_env \<Rightarrow> alg_type \<Rightarrow> epoch_key \<Rightarrow> epoch_ctx" where
  "ek_ctx env cipher k = (case ek_key_context env cipher k of Inr c \<Rightarrow> c | Inl _ \<Rightarrow> ec_default)"

lemma ek_expand_ok:
  assumes "hmac_ok (ev_hmac env)" "length secret = 32" "length label < 65526" "length out \<le> 8128"
  shows "ovpn_expand_label env secret (bytes_of_string label) [] out = Inr (ek_expand env secret label (length out))"
  using expand_label_okm [of env secret "bytes_of_string label" "[]" out] assms by (simp add: ek_expand_def bytes_of_string_def)

lemma length_ek_expand: "hmac_ok (ev_hmac env) \<Longrightarrow> length (ek_expand env secret label n) = n"
  by (simp add: ek_expand_def length_hkdf_okm hmac_ok_def)

lemma ek_iterate_ok:
  assumes "hmac_ok (ev_hmac env)" "length (ek_keydata k) = 32"
  shows "ek_iterate env k = Inr (ek_next env k)" "length (ek_keydata (ek_next env k)) = 32"
  using ek_expand_ok [of env "ek_keydata k" "''datakey upd''" "replicate 32 0"] assms by (simp_all add: ek_iterate_def ek_next_def length_ek_expand)

lemma ek_key_context_eq:
  assumes h: "hmac_ok (ev_hmac env)" and k: "length (ek_keydata k) = 32"
    and e: "alg_key_length (de_algs (ev_dc env)) cipher = Inr kl" "kl \<le> 8128" "alg_iv_length (de_algs (ev_dc env)) cipher = Inr 12"
      "aead_cipher_type (ev_dc env) cipher = Some ck" "ck \<le> kl" "ul_ctor (de_algs (ev_dc env)) cipher = Inr u"
  shows "ek_key_context env cipher k = Inr \<lparr>ec_epoch = ek_epoch k,
      ec_cipher = \<lparr>ax_key = Some (take ck (ek_expand env (ek_keydata k) ''data_key'' kl)), ax_usage = u\<rparr>,
      ec_iv = ek_expand env (ek_keydata k) ''data_iv'' 12\<rparr>"
proof -
  have l: "length (content (buf_alloc_capacity junk n (DESTRUCT_ZERO OR ARRAY))) = n" for junk n
    by (simp add: buf_alloc_capacity_def buf_alloc_def content_def DESTRUCT_ZERO_def ARRAY_def CONSTRUCT_ZERO_def)
  have "ek_data_key env cipher k = Inr (ek_expand env (ek_keydata k) ''data_key'' kl, ek_expand env (ek_keydata k) ''data_iv'' 12)"
    using e h k by (simp add: ek_data_key_def ek_expand_ok l)
  then show ?thesis using e h k by (simp add: ek_key_context_def EPOCH_IV_SIZE_def ax_init_def length_ek_expand)
qed

lemma epoch_env_sizes:
  assumes "epoch_env_ok env cipher"
  obtains kl ck u where "alg_key_length (de_algs (ev_dc env)) cipher = Inr kl" "kl \<le> 8128" "alg_iv_length (de_algs (ev_dc env)) cipher = Inr 12"
    "aead_cipher_type (ev_dc env) cipher = Some ck" "ck \<le> kl" "ul_ctor (de_algs (ev_dc env)) cipher = Inr u"
  using assms by (auto simp: epoch_env_ok_def)

lemma ek_key_context_ok:
  assumes env: "epoch_env_ok env cipher" and k: "length (ek_keydata k) = 32"
  shows "ek_key_context env cipher k = Inr (ek_ctx env cipher k)" "ec_epoch (ek_ctx env cipher k) = ek_epoch k"
    "ax_key (ec_cipher (ek_ctx env cipher k)) \<noteq> None" "length (ec_iv (ek_ctx env cipher k)) = 12"
proof -
  have h: "hmac_ok (ev_hmac env)" using env by (simp add: epoch_env_ok_def)
  obtain kl ck u where e: "alg_key_length (de_algs (ev_dc env)) cipher = Inr kl" "kl \<le> 8128" "alg_iv_length (de_algs (ev_dc env)) cipher = Inr 12"
    "aead_cipher_type (ev_dc env) cipher = Some ck" "ck \<le> kl" "ul_ctor (de_algs (ev_dc env)) cipher = Inr u"
    by (rule epoch_env_sizes [OF env])
  show "ek_key_context env cipher k = Inr (ek_ctx env cipher k)" "ec_epoch (ek_ctx env cipher k) = ek_epoch k"
    "ax_key (ec_cipher (ek_ctx env cipher k)) \<noteq> None" "length (ec_iv (ek_ctx env cipher k)) = 12"
    using ek_key_context_eq [OF h k e] h by (simp_all add: ek_ctx_def length_ek_expand)
qed

text \<open>Two environments with the same HMAC, library and algorithms derive the same keys.\<close>

definition same_crypto :: "epoch_env \<Rightarrow> epoch_env \<Rightarrow> bool" where
  "same_crypto es er \<longleftrightarrow> ev_hmac es = ev_hmac er \<and> de_lib (ev_dc es) = de_lib (ev_dc er) \<and> de_algs (ev_dc es) = de_algs (ev_dc er)"

lemma same_crypto_keys:
  assumes "same_crypto es er"
  shows "ek_expand es = ek_expand er" "ek_next es = ek_next er"
proof -
  have h: "ev_hmac es = ev_hmac er" using assms by (simp add: same_crypto_def)
  show "ek_expand es = ek_expand er" by (intro ext) (simp add: ek_expand_def h)
  then show "ek_next es = ek_next er" by (intro ext) (simp add: ek_next_def)
qed

lemma ek_ctx_same:
  assumes same: "same_crypto es er" and env: "epoch_env_ok es cipher" "epoch_env_ok er cipher" and k: "length (ek_keydata k) = 32"
  shows "ek_ctx es cipher k = ek_ctx er cipher k"
proof -
  have h: "hmac_ok (ev_hmac es)" "hmac_ok (ev_hmac er)" using env by (simp_all add: epoch_env_ok_def)
  obtain kl ck u where e: "alg_key_length (de_algs (ev_dc es)) cipher = Inr kl" "kl \<le> 8128" "alg_iv_length (de_algs (ev_dc es)) cipher = Inr 12"
    "aead_cipher_type (ev_dc es) cipher = Some ck" "ck \<le> kl" "ul_ctor (de_algs (ev_dc es)) cipher = Inr u"
    by (rule epoch_env_sizes [OF env(1)])
  have e': "alg_key_length (de_algs (ev_dc er)) cipher = Inr kl" "alg_iv_length (de_algs (ev_dc er)) cipher = Inr 12"
    "aead_cipher_type (ev_dc er) cipher = Some ck" "ul_ctor (de_algs (ev_dc er)) cipher = Inr u"
    using e same by (simp_all add: same_crypto_def aead_cipher_type_def)
  show ?thesis
    using ek_key_context_eq [OF h(1) k e] ek_key_context_eq [OF h(2) k e'(1) e(2) e'(2,3) e(5) e'(4)] same_crypto_keys [OF same]
    by (simp add: ek_ctx_def)
qed

text \<open>The key of epoch \<open>n\<close>, from the secret of epoch 1.\<close>

definition ek_at :: "epoch_env \<Rightarrow> byte list \<Rightarrow> nat \<Rightarrow> epoch_key" where
  "ek_at env secret n = (ek_next env ^^ (n - 1)) \<lparr>ek_keydata = secret, ek_epoch = 1\<rparr>"

lemma ek_at_1: "ek_at env secret 1 = \<lparr>ek_keydata = secret, ek_epoch = 1\<rparr>"
  by (simp add: ek_at_def)

lemma ek_at_Suc: "0 < n \<Longrightarrow> ek_at env secret (Suc n) = ek_next env (ek_at env secret n)"
  by (cases n) (simp_all add: ek_at_def)

lemma ek_at_props:
  assumes "hmac_ok (ev_hmac env)" "length secret = 32"
  shows "0 < n \<Longrightarrow> length (ek_keydata (ek_at env secret n)) = 32 \<and> ek_epoch (ek_at env secret n) = of_nat n"
proof (induction n)
  case (Suc n)
  show ?case
  proof (cases "n = 0")
    case False
    then show ?thesis using Suc ek_iterate_ok(2) [OF assms(1)] by (simp add: ek_at_Suc) (simp add: ek_next_def)
  qed (use assms(2) ek_at_1 in simp)
qed simp

section \<open>The keys that are held\<close>

text \<open>
  \<open>dce_inv env se re s r d\<close>: with the secrets \<open>se\<close> and \<open>re\<close> of epoch 1, the object sends in epoch \<open>s\<close>, receives in epoch
  \<open>r\<close>, and holds the keys of the \<open>dce_count\<close> epochs that follow \<open>r\<close>.
\<close>

definition recv_at :: "epoch_env \<Rightarrow> alg_type \<Rightarrow> byte list \<Rightarrow> nat \<Rightarrow> epoch_ctx" where
  "recv_at env cipher secret n = ek_ctx env cipher (ek_at env secret n)"

definition dce_sends :: "epoch_env \<Rightarrow> byte list \<Rightarrow> nat \<Rightarrow> dce \<Rightarrow> bool" where
  "dce_sends env se s d \<longleftrightarrow> 0 < s \<and> s < 65536 \<and> dce_send d = ek_at env se s
     \<and> (\<exists>u. es_ctx (encrypt_ctx d) = (recv_at env (dce_cipher d) se s)\<lparr>ec_cipher := (ec_cipher (recv_at env (dce_cipher d) se s))\<lparr>ax_usage := u\<rparr>\<rparr>)"

definition dce_receives :: "epoch_env \<Rightarrow> byte list \<Rightarrow> nat \<Rightarrow> dce \<Rightarrow> bool" where
  "dce_receives env re r d \<longleftrightarrow> 0 < r \<and> r + unat (dce_count d) < 65536
     \<and> er_ctx (decrypt_ctx d) = recv_at env (dce_cipher d) re r
     \<and> map er_ctx (future_keys d) = map (recv_at env (dce_cipher d) re) [Suc r..<Suc (r + unat (dce_count d))]
     \<and> dce_receive d = ek_at env re (r + unat (dce_count d))
     \<and> (er_epoch (retiring_ctx d) = 0 \<or> (\<exists>q. 0 < q \<and> q < r \<and> er_ctx (retiring_ctx d) = recv_at env (dce_cipher d) re q))"

definition dce_inv :: "epoch_env \<Rightarrow> byte list \<Rightarrow> byte list \<Rightarrow> nat \<Rightarrow> nat \<Rightarrow> dce \<Rightarrow> bool" where
  "dce_inv env se re s r d \<longleftrightarrow> epoch_env_ok env (dce_cipher d) \<and> length se = 32 \<and> length re = 32 \<and> dce_sends env se s d \<and> dce_receives env re r d"

lemma epoch_env_hmac: "epoch_env_ok env cipher \<Longrightarrow> hmac_ok (ev_hmac env)"
  by (simp add: epoch_env_ok_def)

lemma recv_at_props:
  assumes "epoch_env_ok env cipher" "length secret = 32" "0 < n"
  shows "ek_key_context env cipher (ek_at env secret n) = Inr (recv_at env cipher secret n)" "ec_epoch (recv_at env cipher secret n) = of_nat n"
    "ax_key (ec_cipher (recv_at env cipher secret n)) \<noteq> None" "length (ec_iv (recv_at env cipher secret n)) = 12"
    "ek_iterate env (ek_at env secret n) = Inr (ek_at env secret (Suc n))"
  using ek_key_context_ok [OF assms(1), of "ek_at env secret n"] ek_iterate_ok [of env "ek_at env secret n"] ek_at_props [OF epoch_env_hmac assms(2,3)]
    ek_at_Suc [OF assms(3)] epoch_env_hmac assms(1)
  by (simp_all add: recv_at_def)

lemma recv_at_same:
  assumes "same_crypto es er" "epoch_env_ok es cipher" "epoch_env_ok er cipher" "length secret = 32" "0 < n"
  shows "recv_at es cipher secret n = recv_at er cipher secret n"
  using ek_ctx_same [OF assms(1-3), of "ek_at er secret n"] ek_at_props [OF epoch_env_hmac [OF assms(3)] assms(4,5)] same_crypto_keys [OF assms(1)]
  by (simp add: recv_at_def ek_at_def)

lemma u16_of_nat: "n < 65536 \<Longrightarrow> unat (of_nat n :: u16) = n"
  by (simp add: unat_of_nat)

lemma dce_fill_ok:
  assumes env: "epoch_env_ok env (dce_cipher d)" "length re = 32" and r: "0 < r" "j \<le> unat (dce_count d)"
    and d: "dce_receive d = ek_at env re (r + j)" "map er_ctx (future_keys d) = map (recv_at env (dce_cipher d) re) [Suc r..<Suc (r + j)]"
  shows "\<exists>fs. dce_fill env d = (Inr (), d\<lparr>dce_receive := ek_at env re (r + unat (dce_count d)), future_keys := future_keys d @ fs\<rparr>)
    \<and> map er_ctx (future_keys d @ fs) = map (recv_at env (dce_cipher d) re) [Suc r..<Suc (r + unat (dce_count d))]
    \<and> (\<forall>c\<in>set fs. er_pid c = pdr_init 8 True)"
  using assms
proof (induction "unat (dce_count d) - j" arbitrary: d j)
  case 0
  have "length (future_keys d) = j" using arg_cong [OF 0(7), of length] by simp
  then show ?case using 0 by (subst dce_fill.simps) (auto intro: exI [of _ "[]"])
next
  case (Suc n)
  have l: "length (future_keys d) = j" using arg_cong [OF Suc.prems(6), of length] by simp
  let ?c = "\<lparr>er_ctx = recv_at env (dce_cipher d) re (Suc (r + j)), er_pid = pdr_init 8 True\<rparr>"
  let ?d = "d\<lparr>dce_receive := ek_at env re (Suc (r + j)), future_keys := future_keys d @ [?c]\<rparr>"
  have lt: "j < unat (dce_count d)" using Suc.hyps(2) by simp
  have pos: "0 < r + j" "0 < Suc (r + j)" using Suc.prems(3) by simp_all
  have "dce_fill env d = dce_fill env ?d"
    using l lt Suc.prems(5) recv_at_props(5) [OF Suc.prems(1,2) pos(1)] recv_at_props(1) [OF Suc.prems(1,2) pos(2)]
    by (subst dce_fill.simps) simp
  moreover have "\<exists>fs. dce_fill env ?d = (Inr (), ?d\<lparr>dce_receive := ek_at env re (r + unat (dce_count ?d)), future_keys := future_keys ?d @ fs\<rparr>)
    \<and> map er_ctx (future_keys ?d @ fs) = map (recv_at env (dce_cipher ?d) re) [Suc r..<Suc (r + unat (dce_count ?d))]
    \<and> (\<forall>c\<in>set fs. er_pid c = pdr_init 8 True)"
    by (rule Suc.hyps(1) [of ?d "Suc j"]) (use Suc.hyps(2) Suc.prems in auto)
  ultimately show ?case by (auto intro!: exI [of _ "?c # _"])
qed

lemma generate_encrypt_ok:
  assumes "epoch_env_ok env (dce_cipher d)" "length se = 32" "dce_send d = ek_at env se s" "0 < s" "s < 65536"
  shows "generate_encrypt_ctx env d = (Inr (), d\<lparr>encrypt_ctx := \<lparr>es_ctx = recv_at env (dce_cipher d) se s, es_pid = pds_ctor True (of_nat s)\<rparr>\<rparr>)"
  using recv_at_props(1) [OF assms(1,2,4)] ek_at_props [OF epoch_env_hmac [OF assms(1)] assms(2,4)] assms(3) by (simp add: generate_encrypt_ctx_def)

lemma dce_sends_fresh:
  "0 < s \<Longrightarrow> s < 65536 \<Longrightarrow>
     dce_sends env se s (d\<lparr>dce_send := ek_at env se s, encrypt_ctx := \<lparr>es_ctx = recv_at env (dce_cipher d) se s, es_pid = p\<rparr>\<rparr>)"
  by (auto simp: dce_sends_def intro!: exI [of _ "ax_usage (ec_cipher (recv_at env (dce_cipher d) se s))"])

lemma ek_epoch_at: "epoch_env_ok env cipher \<Longrightarrow> length se = 32 \<Longrightarrow> 0 < s \<Longrightarrow> s < 65536 \<Longrightarrow> unat (ek_epoch (ek_at env se s)) = s"
  using ek_at_props [OF epoch_env_hmac] by (simp add: u16_of_nat)

lemma iterate_send_ok:
  assumes "epoch_env_ok env (dce_cipher d)" "length se = 32" "dce_sends env se s d" "s < 65535"
  shows "iterate_send_key env d = (Inr (), d\<lparr>dce_send := ek_at env se (Suc s),
      encrypt_ctx := \<lparr>es_ctx = recv_at env (dce_cipher d) se (Suc s), es_pid = pds_ctor True (of_nat (Suc s))\<rparr>\<rparr>)"
proof -
  have s: "0 < s" "dce_send d = ek_at env se s" using assms(3) by (simp_all add: dce_sends_def)
  have "\<not> ek_epoch (dce_send d) \<ge> 0xffff" using ek_epoch_at [OF assms(1,2) s(1)] assms(4) s(2) by (simp add: word_le_nat_alt)
  then show ?thesis using recv_at_props(5) [OF assms(1,2) s(1)] s(2) generate_encrypt_ok [of env "d\<lparr>dce_send := ek_at env se (Suc s)\<rparr>" se "Suc s"] assms
    by (simp add: iterate_send_key_def)
qed

lemma ek_catch_up_ok:
  assumes "epoch_env_ok env cipher" "length se = 32" "0 < s" "s \<le> n" "n < 65536"
  shows "ek_catch_up env (of_nat n) (ek_at env se s) = (Inr (), ek_at env se n)"
  using assms(3,4)
proof (induction "n - s" arbitrary: s)
  case 0
  then show ?case using ek_epoch_at [OF assms(1,2), of s] assms(5)
    by (subst ek_catch_up.simps) (simp add: word_less_nat_alt u16_of_nat)
next
  case (Suc j)
  have "ek_epoch (ek_at env se s) < of_nat n" using ek_epoch_at [OF assms(1,2), of s] Suc assms(5) by (simp add: word_less_nat_alt u16_of_nat)
  then show ?case using Suc recv_at_props(5) [OF assms(1,2), of s] by (subst ek_catch_up.simps) simp
qed

lemma dce_advance_send_ok:
  assumes "epoch_env_ok env (dce_cipher d)" "length se = 32" "dce_sends env se s d" "n < 65536"
  shows "\<exists>d'. dce_advance_send env (of_nat n) d = (Inr (), d') \<and> dce_sends env se (max s n) d'
    \<and> d' = d\<lparr>encrypt_ctx := encrypt_ctx d', dce_send := dce_send d'\<rparr> \<and> (n \<le> s \<longrightarrow> d' = d)
    \<and> (s < n \<longrightarrow> es_pid (encrypt_ctx d') = pds_ctor True (of_nat n))"
proof -
  have s: "0 < s" "s < 65536" "dce_send d = ek_at env se s" using assms(3) by (simp_all add: dce_sends_def)
  have lt: "ek_epoch (dce_send d) < of_nat n \<longleftrightarrow> s < n"
    using ek_epoch_at [OF assms(1,2) s(1,2)] s(3) assms(4) by (simp add: word_less_nat_alt u16_of_nat)
  show ?thesis
  proof (cases "s < n")
    case True
    let ?d = "d\<lparr>dce_send := ek_at env se n, encrypt_ctx := \<lparr>es_ctx = recv_at env (dce_cipher d) se n, es_pid = pds_ctor True (of_nat n)\<rparr>\<rparr>"
    have "dce_advance_send env (of_nat n) d = (Inr (), ?d)"
      using True lt s(3) ek_catch_up_ok [OF assms(1,2) s(1) _ assms(4)] generate_encrypt_ok [of env "d\<lparr>dce_send := ek_at env se n\<rparr>" se n] assms s(1)
      by (simp add: dce_advance_send_def)
    moreover have "dce_sends env se n ?d" using True by (intro dce_sends_fresh) (use assms(4) in simp_all)
    ultimately show ?thesis using True by (auto simp: max_def intro!: exI [of _ ?d])
  next
    case False
    then show ?thesis using lt assms(3) by (auto simp: dce_advance_send_def max_def)
  qed
qed

lemma future_nth:
  assumes "dce_receives env re r d" "i < unat (dce_count d)"
  shows "er_ctx (future_keys d ! i) = recv_at env (dce_cipher d) re (Suc (r + i))" "length (future_keys d) = unat (dce_count d)"
proof -
  have m: "map er_ctx (future_keys d) = map (recv_at env (dce_cipher d) re) [Suc r..<Suc (r + unat (dce_count d))]" using assms(1) by (simp add: dce_receives_def)
  show l: "length (future_keys d) = unat (dce_count d)" using arg_cong [OF m, of length] by simp
  have "er_ctx (future_keys d ! i) = map er_ctx (future_keys d) ! i" using l assms(2) by simp
  also have "\<dots> = recv_at env (dce_cipher d) re ([Suc r..<Suc (r + unat (dce_count d))] ! i)" unfolding m using assms(2) by (simp del: upt_Suc)
  also have "[Suc r..<Suc (r + unat (dce_count d))] ! i = Suc (r + i)" using assms(2) by (simp del: upt_Suc)
  finally show "er_ctx (future_keys d ! i) = recv_at env (dce_cipher d) re (Suc (r + i))" .
qed

lemma er_epoch_future:
  assumes "dce_inv env se re s r d" "i < unat (dce_count d)"
  shows "unat (er_epoch (future_keys d ! i)) = Suc (r + i)" "length (future_keys d) = unat (dce_count d)"
  using future_nth [of env re r d i] assms recv_at_props(2) [of env "dce_cipher d" re "Suc (r + i)"] u16_of_nat [of "Suc (r + i)"]
  by (simp_all add: dce_inv_def dce_receives_def del: of_nat_Suc)

lemma er_epoch_current: "dce_inv env se re s r d \<Longrightarrow> unat (er_epoch (decrypt_ctx d)) = r"
  using recv_at_props(2) [of env "dce_cipher d" re r] u16_of_nat [of r] by (simp add: dce_inv_def dce_receives_def)

lemma find_epoch_first: "i < length cs \<Longrightarrow> er_epoch (cs ! i) = e \<Longrightarrow> \<forall>j<i. er_epoch (cs ! j) \<noteq> e \<Longrightarrow> find_epoch e cs = Some i"
proof (induction cs arbitrary: i)
  case (Cons c cs)
  show ?case
  proof (cases i)
    case (Suc k)
    then have "er_epoch c \<noteq> e" "\<forall>j<k. er_epoch (cs ! j) \<noteq> e" using Cons.prems(3) by auto
    then show ?thesis using Suc Cons.IH [of k] Cons.prems(1,2) by simp
  qed (use Cons.prems in simp)
qed simp

lemma find_epoch_future:
  assumes "dce_inv env se re s r d" "r < n" "n \<le> r + unat (dce_count d)"
  shows "find_epoch (of_nat n) (future_keys d) = Some (n - Suc r)"
proof (rule find_epoch_first)
  have n: "n < 65536" using assms by (simp add: dce_inv_def dce_receives_def)
  show "n - Suc r < length (future_keys d)" using er_epoch_future(2) [OF assms(1), of "n - Suc r"] assms(2,3) by simp
  have "unat (er_epoch (future_keys d ! (n - Suc r))) = unat (of_nat n :: u16)"
    using er_epoch_future(1) [OF assms(1), of "n - Suc r"] assms(2,3) n by (simp add: u16_of_nat)
  then show "er_epoch (future_keys d ! (n - Suc r)) = of_nat n" by (simp only: word_unat_eq_iff)
  show "\<forall>j<n - Suc r. er_epoch (future_keys d ! j) \<noteq> of_nat n"
  proof (intro allI impI notI)
    fix j assume j: "j < n - Suc r" "er_epoch (future_keys d ! j) = of_nat n"
    have "j < unat (dce_count d)" using j(1) assms(2,3) by simp
    then show False using j er_epoch_future(1) [OF assms(1), of j] assms(2,3) n by (simp add: u16_of_nat)
  qed
qed

lemma filter_future:
  assumes inv: "dce_inv env se re s r d" and n: "r < n" "n \<le> r + unat (dce_count d)"
  shows "filter (\<lambda>c. \<not> er_epoch c \<le> of_nat n) ((future_keys d)[n - Suc r := er_default]) = drop (n - r) (future_keys d)"
proof -
  let ?f = "future_keys d" and ?i = "n - Suc r"
  have l: "length ?f = unat (dce_count d)" "?i < length ?f" using er_epoch_future(2) [OF inv, of ?i] n by simp_all
  have n16: "n < 65536" using inv n by (simp add: dce_inv_def dce_receives_def)
  have le: "er_epoch (?f ! j) \<le> of_nat n \<longleftrightarrow> Suc (r + j) \<le> n" if "j < length ?f" for j
    using er_epoch_future(1) [OF inv, of j] that l(1) n16 by (simp add: word_le_nat_alt u16_of_nat)
  have a: "filter (\<lambda>c. \<not> er_epoch c \<le> of_nat n) (take ?i ?f) = []"
    using le l by (auto simp: filter_empty_conv in_set_conv_nth)
  have b: "filter (\<lambda>c. \<not> er_epoch c \<le> of_nat n) (drop (Suc ?i) ?f) = drop (Suc ?i) ?f"
    using le l n by (auto simp: filter_id_conv in_set_conv_nth)
  have "er_epoch er_default \<le> of_nat n" by (simp add: er_default_def ec_default_def)
  then show ?thesis using a b n by (simp add: upd_conv_take_nth_drop [OF l(2)] Suc_diff_Suc)
qed

text \<open>The constructor, and the change to a newer receive key.\<close>

lemma drop_future:
  assumes "dce_receives env re r d" "r < n" "n \<le> r + unat (dce_count d)"
  shows "map er_ctx (drop (n - r) (future_keys d)) = map (recv_at env (dce_cipher d) re) [Suc n..<Suc (n + (r + unat (dce_count d) - n))]"
proof -
  have "map er_ctx (drop (n - r) (future_keys d)) = drop (n - r) (map (recv_at env (dce_cipher d) re) [Suc r..<Suc (r + unat (dce_count d))])"
    using assms(1) unfolding dce_receives_def by (simp only: drop_map [symmetric])
  then show ?thesis using assms(2,3) by (simp add: drop_map drop_upt del: upt_Suc)
qed

lemma replace_recv_ok:
  assumes inv: "dce_inv env se re s r d" and n: "r < n" "n < r + unat (dce_count d)" "n + unat (dce_count d) < 65536"
  shows "\<exists>d'. replace_update_recv_key env (of_nat n) d = (Inr (), d') \<and> dce_inv env se re (max s n) n d'
    \<and> dce_count d' = dce_count d \<and> dce_cipher d' = dce_cipher d
    \<and> er_pid (decrypt_ctx d') = er_pid (future_keys d ! (n - Suc r)) \<and> retiring_ctx d' = decrypt_ctx d
    \<and> (\<exists>fs. future_keys d' = drop (n - r) (future_keys d) @ fs \<and> (\<forall>c\<in>set fs. er_pid c = pdr_init 8 True))
    \<and> (n \<le> s \<longrightarrow> encrypt_ctx d' = encrypt_ctx d) \<and> (s < n \<longrightarrow> es_pid (encrypt_ctx d') = pds_ctor True (of_nat n))"
proof -
  have env: "epoch_env_ok env (dce_cipher d)" "length se = 32" "length re = 32" and snd: "dce_sends env se s d" and rcv: "dce_receives env re r d"
    using inv by (simp_all add: dce_inv_def)
  have n16: "n < 65536" using n by simp
  obtain d1 where d1: "dce_advance_send env (of_nat n) d = (Inr (), d1)" "dce_sends env se (max s n) d1"
    "d1 = d\<lparr>encrypt_ctx := encrypt_ctx d1, dce_send := dce_send d1\<rparr>" "n \<le> s \<longrightarrow> d1 = d" "s < n \<longrightarrow> es_pid (encrypt_ctx d1) = pds_ctor True (of_nat n)"
    using dce_advance_send_ok [OF env(1,2) snd n16] by blast
  note same = arg_cong [OF d1(3), of future_keys, simplified] arg_cong [OF d1(3), of decrypt_ctx, simplified] arg_cong [OF d1(3), of dce_count, simplified]
    arg_cong [OF d1(3), of dce_cipher, simplified] arg_cong [OF d1(3), of dce_receive, simplified]
  let ?i = "n - Suc r" and ?m = "unat (dce_count d)"
  have i: "?i < ?m" "Suc (r + ?i) = n" using n by simp_all
  let ?d2 = "d1\<lparr>retiring_ctx := decrypt_ctx d1, decrypt_ctx := future_keys d1 ! ?i, future_keys := (future_keys d1)[?i := er_default]\<rparr>"
  let ?d3 = "?d2\<lparr>future_keys := drop (n - r) (future_keys d)\<rparr>"
  have cur: "er_ctx (future_keys d ! ?i) = recv_at env (dce_cipher d) re n" and l: "length (future_keys d) = ?m" using future_nth [OF rcv i(1)] i(2) by simp_all
  have ep: "er_epoch (future_keys d ! ?i) = of_nat n" "(of_nat n :: u16) \<noteq> 0"
    using cur recv_at_props(2) [OF env(1,3), of n] n n16 by (simp_all add: word_unat_eq_iff u16_of_nat)
  have last: "er_epoch (last (future_keys ?d2)) = ek_epoch (dce_receive d)"
  proof -
    have "last (future_keys ?d2) = future_keys d ! (?m - 1)" using l n i(1) same(1) by (subst last_conv_nth) auto
    then have "unat (er_epoch (last (future_keys ?d2))) = unat (ek_epoch (dce_receive d))"
      using er_epoch_future(1) [OF inv, of "?m - 1"] ek_epoch_at [OF env(1,3), of "r + ?m"] rcv i(1) by (simp add: dce_receives_def)
    then show ?thesis by (simp only: word_unat_eq_iff)
  qed
  have g: "generate_future_receive_keys env ?d2 = dce_fill env ?d3"
    using ep last filter_future [OF inv n(1)] n(2) same by (simp add: generate_future_receive_keys_def Let_def)
  have "\<exists>fs. dce_fill env ?d3 = (Inr (), ?d3\<lparr>dce_receive := ek_at env re (n + unat (dce_count ?d3)), future_keys := future_keys ?d3 @ fs\<rparr>)
    \<and> map er_ctx (future_keys ?d3 @ fs) = map (recv_at env (dce_cipher ?d3) re) [Suc n..<Suc (n + unat (dce_count ?d3))]
    \<and> (\<forall>c\<in>set fs. er_pid c = pdr_init 8 True)"
    by (rule dce_fill_ok [where j = "r + ?m - n"])
      (use env n rcv same drop_future [OF rcv n(1)] in \<open>simp_all add: dce_receives_def del: upt_Suc\<close>)
  then obtain fs where fs: "dce_fill env ?d3 = (Inr (), ?d3\<lparr>dce_receive := ek_at env re (n + ?m), future_keys := drop (n - r) (future_keys d) @ fs\<rparr>)"
    "map er_ctx (drop (n - r) (future_keys d) @ fs) = map (recv_at env (dce_cipher d) re) [Suc n..<Suc (n + ?m)]" "\<forall>c\<in>set fs. er_pid c = pdr_init 8 True"
    using same by (auto simp del: upt_Suc)
  let ?d4 = "?d3\<lparr>dce_receive := ek_at env re (n + ?m), future_keys := drop (n - r) (future_keys d) @ fs\<rparr>"
  have "\<not> of_nat n \<le> er_epoch (decrypt_ctx d)" using er_epoch_current [OF inv] n n16 by (simp add: word_le_nat_alt u16_of_nat)
  then have "replace_update_recv_key env (of_nat n) d = (Inr (), ?d4)"
    using find_epoch_future [OF inv n(1)] n(2) d1(1) g fs(1) by (simp add: replace_update_recv_key_def)
  moreover have "dce_inv env se re (max s n) n ?d4"
  proof -
    have "dce_sends env se (max s n) ?d4" using d1(2) by (simp add: dce_sends_def)
    moreover have "dce_receives env re n ?d4"
      using n rcv cur fs(2) same unfolding dce_receives_def by (auto simp del: upt_Suc)
    ultimately show ?thesis using env same by (simp add: dce_inv_def)
  qed
  ultimately show ?thesis using same d1(4,5) fs(3) by (intro exI [of _ ?d4]) auto
qed

text \<open>A change to the last of the future keys: the emptied context is then the last one, and the check on it throws.\<close>

lemma replace_recv_last:
  assumes inv: "dce_inv env se re s r d" and m: "0 < unat (dce_count d)"
  defines "n \<equiv> r + unat (dce_count d)"
  shows "\<exists>d'. replace_update_recv_key env (of_nat n) d = (Inl (epoch_key_exception ''Epoch key generation and future keys mismatch detected''), d')
    \<and> er_epoch (decrypt_ctx d') = of_nat n \<and> dce_count d' = dce_count d
    \<and> future_keys d' = (future_keys d)[unat (dce_count d) - 1 := er_default] \<and> retiring_ctx d' = decrypt_ctx d"
proof -
  let ?m = "unat (dce_count d)" and ?i = "unat (dce_count d) - 1"
  have env: "epoch_env_ok env (dce_cipher d)" "length se = 32" "length re = 32" and snd: "dce_sends env se s d" and rcv: "dce_receives env re r d"
    using inv by (simp_all add: dce_inv_def)
  have n: "r < n" "n \<le> r + ?m" "n < 65536" "n - Suc r = ?i" using m rcv by (simp_all add: n_def dce_receives_def)
  obtain d1 where d1: "dce_advance_send env (of_nat n) d = (Inr (), d1)" "d1 = d\<lparr>encrypt_ctx := encrypt_ctx d1, dce_send := dce_send d1\<rparr>"
    using dce_advance_send_ok [OF env(1,2) snd n(3)] by blast
  note same = arg_cong [OF d1(2), of future_keys, simplified] arg_cong [OF d1(2), of decrypt_ctx, simplified] arg_cong [OF d1(2), of dce_count, simplified]
    arg_cong [OF d1(2), of dce_receive, simplified]
  let ?d2 = "d1\<lparr>retiring_ctx := decrypt_ctx d1, decrypt_ctx := future_keys d1 ! ?i, future_keys := (future_keys d1)[?i := er_default]\<rparr>"
  have l: "length (future_keys d) = ?m" and ei: "unat (er_epoch (future_keys d ! ?i)) = n" using er_epoch_future [OF inv, of ?i] m by (simp_all add: n_def)
  have ep: "er_epoch (future_keys d ! ?i) = of_nat n" using ei n(3) by (simp add: word_unat_eq_iff u16_of_nat)
  have ne: "future_keys d \<noteq> []" using l m by auto
  then have "last (future_keys ?d2) = er_default" "future_keys ?d2 \<noteq> []" using l same by (simp_all add: last_list_update)
  moreover have "unat (ek_epoch (dce_receive d)) = n" using ek_epoch_at [OF env(1,3), of n] rcv n by (simp add: n_def dce_receives_def)
  then have "ek_epoch (dce_receive d) \<noteq> 0" using n(1) by auto
  moreover have "er_epoch (future_keys d ! ?i) \<noteq> 0" using ei n(1) by auto
  ultimately have g: "generate_future_receive_keys env ?d2 = (Inl (epoch_key_exception ''Epoch key generation and future keys mismatch detected''), ?d2)"
    using same by (simp add: generate_future_receive_keys_def er_default_def ec_default_def)
  have "\<not> of_nat n \<le> er_epoch (decrypt_ctx d)" using er_epoch_current [OF inv] n by (simp add: word_le_nat_alt u16_of_nat)
  then have "replace_update_recv_key env (of_nat n) d = (Inl (epoch_key_exception ''Epoch key generation and future keys mismatch detected''), ?d2)"
    using find_epoch_future [OF inv n(1,2)] n(4) d1(1) g by (simp add: replace_update_recv_key_def)
  then show ?thesis using ep same by auto
qed

section \<open>Looking up keys\<close>

lemma lookup_key_eq:
  assumes inv: "dce_inv env se re s r d" and e: "e < 65536"
  shows "lookup_decrypt_key (of_nat e) d = Inr (if e = r then Some DK_CURRENT
     else if 0 < e \<and> e = unat (er_epoch (retiring_ctx d)) then Some DK_RETIRING
     else if r < e \<and> e \<le> r + unat (dce_count d) \<and> e + unat (dce_count d) < 65535 then Some (DK_FUTURE (e - Suc r))
     else None)"
proof -
  have c: "unat (er_epoch (decrypt_ctx d)) = r" by (rule er_epoch_current [OF inv])
  have u: "unat (of_nat e :: u16) = e" using e by (rule u16_of_nat)
  have l: "e - Suc r < length (future_keys d)" if "r < e" "e \<le> r + unat (dce_count d)"
    using er_epoch_future(2) [OF inv, of "e - Suc r"] that by simp
  have "er_epoch (decrypt_ctx d) = of_nat e \<longleftrightarrow> e = r" "er_epoch (retiring_ctx d) > 0 \<and> er_epoch (retiring_ctx d) = of_nat e \<longleftrightarrow> 0 < e \<and> e = unat (er_epoch (retiring_ctx d))"
    "of_nat e > er_epoch (decrypt_ctx d) \<longleftrightarrow> r < e"
    using c u by (auto simp: word_unat_eq_iff word_less_nat_alt)
  moreover have "int (unat (of_nat e :: u16)) > 65535 - int (unat (dce_count d)) - 1 \<longleftrightarrow> \<not> e + unat (dce_count d) < 65535"
    unfolding u by linarith
  ultimately show ?thesis using c u l by (auto simp: lookup_decrypt_key_def Let_def)
qed

lemma lookup_key_context:
  assumes inv: "dce_inv env se re s r d" and e: "e < 65536" and k: "lookup_decrypt_key (of_nat e) d = Inr (Some k)"
  shows "er_ctx (dce_get k d) = recv_at env (dce_cipher d) re e"
proof -
  have env: "epoch_env_ok env (dce_cipher d)" "length re = 32" and rcv: "dce_receives env re r d" using inv by (simp_all add: dce_inv_def)
  have ret: "er_ctx (retiring_ctx d) = recv_at env (dce_cipher d) re e" if "0 < e" "e = unat (er_epoch (retiring_ctx d))"
  proof -
    have "er_epoch (retiring_ctx d) \<noteq> 0" using that by auto
    then obtain q where q: "0 < q" "q < r" "er_ctx (retiring_ctx d) = recv_at env (dce_cipher d) re q" using rcv unfolding dce_receives_def by blast
    then have "unat (er_epoch (retiring_ctx d)) = q" using recv_at_props(2) [OF env, of q] u16_of_nat [of q] rcv by (simp add: dce_receives_def)
    then show ?thesis using q that by simp
  qed
  show ?thesis using k ret future_nth(1) [OF rcv, of "e - Suc r"] rcv
    by (auto simp: lookup_key_eq [OF inv e] dce_receives_def split: if_splits)
qed

definition dk_valid :: "dce \<Rightarrow> decrypt_key \<Rightarrow> bool" where
  "dk_valid d k \<longleftrightarrow> (case k of DK_FUTURE i \<Rightarrow> i < length (future_keys d) | _ \<Rightarrow> True)"

lemma dce_get_set: "dk_valid d k \<Longrightarrow> dk_valid d k' \<Longrightarrow> dce_get k' (dce_set_pid k p d) = (if k = k' then (dce_get k d)\<lparr>er_pid := p\<rparr> else dce_get k' d)"
  by (cases k; cases k') (auto simp: dk_valid_def nth_list_update)

lemma dce_set_pid_simps [simp]:
  "dk_valid (dce_set_pid k p d) k' = dk_valid d k'" "dce_count (dce_set_pid k p d) = dce_count d" "dce_cipher (dce_set_pid k p d) = dce_cipher d"
  "length (future_keys (dce_set_pid k p d)) = length (future_keys d)"
  "encrypt_ctx (dce_set_pid k p d) = encrypt_ctx d" "dce_send (dce_set_pid k p d) = dce_send d"
  by (cases k; simp add: dk_valid_def split: decrypt_key.split)+

lemma map_er_ctx_update: "map er_ctx (xs[i := (xs ! i)\<lparr>er_pid := p\<rparr>]) = map er_ctx xs"
  by (cases "i < length xs") (simp_all add: map_update list_update_same_conv list_update_beyond)

lemma dce_inv_set_pid: "dce_inv env se re s r (dce_set_pid k p d) = dce_inv env se re s r d"
  by (cases k) (simp_all add: dce_inv_def dce_sends_def dce_receives_def map_er_ctx_update)

lemma dk_epoch:
  assumes "dce_inv env se re s r d" "dk_valid d k"
  shows "case k of DK_CURRENT \<Rightarrow> unat (er_epoch (dce_get k d)) = r | DK_RETIRING \<Rightarrow> unat (er_epoch (dce_get k d)) < r
     | DK_FUTURE i \<Rightarrow> unat (er_epoch (dce_get k d)) = Suc (r + i) \<and> i < unat (dce_count d)"
proof (cases k)
  case DK_RETIRING
  have rcv: "dce_receives env re r d" and env: "epoch_env_ok env (dce_cipher d)" "length re = 32" using assms(1) by (simp_all add: dce_inv_def)
  have "unat (ec_epoch (recv_at env (dce_cipher d) re q)) = q" if "0 < q" "q < r" for q
    using recv_at_props(2) [OF env that(1)] u16_of_nat [of q] rcv that(2) by (simp add: dce_receives_def)
  then show ?thesis using DK_RETIRING rcv unfolding dce_receives_def by auto
next
  case (DK_FUTURE i)
  have "map er_ctx (future_keys d) = map (recv_at env (dce_cipher d) re) [Suc r..<Suc (r + unat (dce_count d))]"
    using assms(1) by (simp add: dce_inv_def dce_receives_def)
  from arg_cong [OF this, of length] have "length (future_keys d) = unat (dce_count d)" by simp
  then show ?thesis using er_epoch_future(1) [OF assms(1), of i] assms(2) DK_FUTURE by (simp add: dk_valid_def)
qed (use er_epoch_current [OF assms(1)] in simp)

lemma dk_inj:
  assumes "dce_inv env se re s r d" "dk_valid d k" "dk_valid d k'" "er_epoch (dce_get k d) = er_epoch (dce_get k' d)"
  shows "k = k'"
proof -
  have "unat (er_epoch (dce_get k d)) = unat (er_epoch (dce_get k' d))" using assms(4) by simp
  then show ?thesis using dk_epoch [OF assms(1,2)] dk_epoch [OF assms(1,3)] by (cases k; cases k'; simp)
qed

section \<open>Construction\<close>

lemma dce_ctor_ok:
  assumes env: "epoch_env_ok env cipher" and k: "32 \<le> length e1send" "32 \<le> length e1recv" and n: "unat count < 65535"
  shows "\<exists>d. dce_ctor env cipher e1send e1recv count = Inr d \<and> dce_inv env (take 32 e1send) (take 32 e1recv) 1 1 d
    \<and> dce_count d = count \<and> dce_cipher d = cipher \<and> es_pid (encrypt_ctx d) = pds_ctor True 1 \<and> er_pid (decrypt_ctx d) = pdr_init 8 False
    \<and> (\<forall>c\<in>set (future_keys d). er_pid c = pdr_init 8 True) \<and> er_pid (retiring_ctx d) = pdr_init 8 False"
proof -
  let ?se = "take 32 e1send" and ?re = "take 32 e1recv"
  have l: "length ?se = 32" "length ?re = 32" using k by simp_all
  let ?d = "\<lparr>dce_cipher = cipher, dce_count = count, encrypt_ctx = es_default, decrypt_ctx = er_default\<lparr>er_ctx := recv_at env cipher ?re 1\<rparr>,
              retiring_ctx = er_default, future_keys = [], dce_send = ek_at env ?se 1, dce_receive = ek_at env ?re 1\<rparr>"
  let ?d1 = "?d\<lparr>encrypt_ctx := \<lparr>es_ctx = recv_at env cipher ?se 1, es_pid = pds_ctor True 1\<rparr>\<rparr>"
  have g: "generate_encrypt_ctx env ?d = (Inr (), ?d1)" using generate_encrypt_ok [of env ?d ?se 1] env l by simp
  have "\<exists>fs. dce_fill env ?d1 = (Inr (), ?d1\<lparr>dce_receive := ek_at env ?re (1 + unat (dce_count ?d1)), future_keys := future_keys ?d1 @ fs\<rparr>)
    \<and> map er_ctx (future_keys ?d1 @ fs) = map (recv_at env (dce_cipher ?d1) ?re) [Suc 1..<Suc (1 + unat (dce_count ?d1))]
    \<and> (\<forall>c\<in>set fs. er_pid c = pdr_init 8 True)"
    by (rule dce_fill_ok [where j = 0]) (use env l in simp_all)
  then obtain fs where fs: "dce_fill env ?d1 = (Inr (), ?d1\<lparr>dce_receive := ek_at env ?re (Suc (unat count)), future_keys := fs\<rparr>)"
    "map er_ctx fs = map (recv_at env cipher ?re) [Suc 1..<Suc (Suc (unat count))]" "\<forall>c\<in>set fs. er_pid c = pdr_init 8 True"
    by (auto simp del: upt_Suc)
  let ?d2 = "?d1\<lparr>dce_receive := ek_at env ?re (Suc (unat count)), future_keys := fs\<rparr>"
  have "er_epoch (decrypt_ctx ?d1) = 1" using recv_at_props(2) [OF env l(2), of 1] by simp
  then have "generate_future_receive_keys env ?d1 = (Inr (), ?d2)" using fs(1) by (simp add: generate_future_receive_keys_def)
  then have "dce_ctor env cipher e1send e1recv count = Inr ?d2"
    using g k recv_at_props(1) [OF env l(2), of 1] by (simp add: dce_ctor_def ek_ctor_def ek_at_1 [unfolded One_nat_def] Let_def)
  moreover have "dce_sends env ?se 1 ?d2" using dce_sends_fresh [of 1 env ?se ?d2 "pds_ctor True 1"] by simp
  moreover have "dce_receives env ?re 1 ?d2" using n fs(2) by (simp add: dce_receives_def er_default_def ec_default_def del: upt_Suc)
  ultimately show ?thesis using env l fs(3) by (intro exI [of _ ?d2]) (simp add: dce_inv_def er_default_def)
qed

section \<open>Reachable states\<close>

text \<open>
  The life of the object: it is made, the send key is iterated, on request or because a limit is reached, and
  packets that were decrypted with a key it had found update that key's filter and move the receive key.
\<close>

inductive dce_reach :: "epoch_env \<Rightarrow> alg_type \<Rightarrow> byte list \<Rightarrow> byte list \<Rightarrow> u16 \<Rightarrow> dce \<Rightarrow> bool"
  for env :: epoch_env and cipher :: alg_type and e1send e1recv :: "byte list" and count :: u16
where
  made: "dce_ctor env cipher e1send e1recv count = Inr d \<Longrightarrow> dce_reach env cipher e1send e1recv count d"
| iterated: "dce_reach env cipher e1send e1recv count d \<Longrightarrow> iterate_send_key env d = (Inr (), d') \<Longrightarrow> dce_reach env cipher e1send e1recv count d'"
| used: "dce_reach env cipher e1send e1recv count d \<Longrightarrow> dce_reach env cipher e1send e1recv count
    (d\<lparr>encrypt_ctx := (encrypt_ctx d)\<lparr>es_ctx := (es_ctx (encrypt_ctx d))\<lparr>ec_cipher := (ec_cipher (es_ctx (encrypt_ctx d)))\<lparr>ax_usage := u\<rparr>\<rparr>, es_pid := p\<rparr>\<rparr>)"
| received: "dce_reach env cipher e1send e1recv count d \<Longrightarrow> lookup_decrypt_key e d = Inr (Some k) \<Longrightarrow>
    replace_update_recv_key env e (dce_set_pid k p d) = (Inr (), d') \<Longrightarrow> dce_reach env cipher e1send e1recv count d'"

lemma dce_reach_inv:
  assumes "dce_reach env cipher e1send e1recv count d" "epoch_env_ok env cipher" "32 \<le> length e1send" "32 \<le> length e1recv" "unat count < 65535"
  shows "\<exists>s r. dce_inv env (take 32 e1send) (take 32 e1recv) s r d \<and> dce_cipher d = cipher \<and> dce_count d = count"
  using assms(1)
proof induction
  case (made d)
  then show ?case using dce_ctor_ok [OF assms(2-5)] by auto
next
  case (iterated d d')
  obtain s r where i: "dce_inv env (take 32 e1send) (take 32 e1recv) s r d" "dce_cipher d = cipher" "dce_count d = count" using iterated.IH by blast
  have e: "epoch_env_ok env (dce_cipher d)" "length (take 32 e1send) = 32" "dce_sends env (take 32 e1send) s d" using i(1) by (simp_all add: dce_inv_def)
  have "s < 65535"
  proof (rule ccontr)
    assume "\<not> s < 65535"
    then have "unat (ek_epoch (dce_send d)) = 65535" using e ek_epoch_at [OF e(1,2), of s] by (auto simp: dce_sends_def)
    then have "ek_epoch (dce_send d) \<ge> 0xffff" by (simp add: word_le_nat_alt)
    then show False using iterated.hyps(2) by (simp add: iterate_send_key_def)
  qed
  from iterate_send_ok [OF e this] iterated.hyps(2) have d': "d' = d\<lparr>dce_send := ek_at env (take 32 e1send) (Suc s),
      encrypt_ctx := \<lparr>es_ctx = recv_at env (dce_cipher d) (take 32 e1send) (Suc s), es_pid = pds_ctor True (of_nat (Suc s))\<rparr>\<rparr>" by simp
  have "dce_sends env (take 32 e1send) (Suc s) d'" unfolding d' using \<open>s < 65535\<close> by (intro dce_sends_fresh) simp_all
  moreover have "dce_receives env (take 32 e1recv) r d'" using i(1) by (simp add: dce_inv_def dce_receives_def d')
  ultimately have "dce_inv env (take 32 e1send) (take 32 e1recv) (Suc s) r d'" using i(1) by (simp add: dce_inv_def d')
  then show ?case using i(2,3) d' by auto
next
  case (used d p u)
  then obtain s r where i: "dce_inv env (take 32 e1send) (take 32 e1recv) s r d" "dce_cipher d = cipher" "dce_count d = count" by blast
  have "dce_inv env (take 32 e1send) (take 32 e1recv) s r
    (d\<lparr>encrypt_ctx := (encrypt_ctx d)\<lparr>es_ctx := (es_ctx (encrypt_ctx d))\<lparr>ec_cipher := (ec_cipher (es_ctx (encrypt_ctx d)))\<lparr>ax_usage := u\<rparr>\<rparr>, es_pid := p\<rparr>\<rparr>)"
    using i(1) by (auto simp: dce_inv_def dce_sends_def dce_receives_def)
  then show ?case using i(2,3) by auto
next
  case (received d e k p d')
  then obtain s r where i: "dce_inv env (take 32 e1send) (take 32 e1recv) s r d" "dce_cipher d = cipher" "dce_count d = count" by blast
  let ?d = "dce_set_pid k p d"
  have i1: "dce_inv env (take 32 e1send) (take 32 e1recv) s r ?d" using i(1) by (simp add: dce_inv_set_pid)
  have u: "unat e < 65536" "(of_nat (unat e) :: u16) = e" using unsigned_less [of e, where 'a = nat] by simp_all
  have lk: "unat e \<le> r \<or> (r < unat e \<and> unat e \<le> r + unat (dce_count ?d) \<and> unat e + unat (dce_count ?d) < 65536)"
    using lookup_key_eq [OF i(1) u(1)] received.hyps(2) u(2) dk_epoch [OF i(1), of DK_RETIRING] by (auto simp: dk_valid_def split: if_splits)
  consider "unat e \<le> r" | "r < unat e" "unat e < r + unat (dce_count ?d)" | "r < unat e" "unat e = r + unat (dce_count ?d)" using lk by linarith
  then show ?case
  proof cases
    case 1
    have "e \<le> er_epoch (decrypt_ctx ?d)" using er_epoch_current [OF i1] 1 by (simp add: word_le_nat_alt)
    then have "d' = ?d" using received.hyps(3) by (simp add: replace_update_recv_key_def)
    then show ?thesis using i1 i(2,3) by auto
  next
    case 2
    then have "unat e + unat (dce_count ?d) < 65536" using lk by simp
    from replace_recv_ok [OF i1 2 this] received.hyps(3) u(2) show ?thesis using i(2,3) by auto
  next
    case 3
    then show ?thesis using replace_recv_last [OF i1] received.hyps(3) u(2) by auto
  qed
qed

section \<open>Properties\<close>

text \<open>An HMAC, and an environment, for the instances.\<close>

definition ex_hmac :: "byte list \<Rightarrow> byte list \<Rightarrow> byte list" where
  "ex_hmac key m = take 32 (m @ key @ replicate 32 0)"

definition ex_ev :: epoch_env where
  "ex_ev = \<lparr>ev_dc = ex_dc_env\<lparr>de_algs := algs_init\<rparr>, ev_hmac = ex_hmac\<rparr>"

lemma ex_hmac_ok: "hmac_ok (ev_hmac ex_ev)"
  by (auto simp: hmac_ok_def ex_ev_def ex_hmac_def min_def)

lemma ex_ev_ok: "epoch_env_ok ex_ev AES_256_GCM"
proof -
  have "dc_env_ok (ev_dc ex_ev)" using ex_dc_env_ok(1) by (simp add: dc_env_ok_def ex_ev_def)
  moreover have "aead_cipher_type (ev_dc ex_ev) AES_256_GCM = Some 32" by (simp add: aead_cipher_type_def ex_ev_def ex_dc_env_def ex_lib_def)
  moreover have "alg_key_length (de_algs (ev_dc ex_ev)) AES_256_GCM = Inr 32" "alg_iv_length (de_algs (ev_dc ex_ev)) AES_256_GCM = Inr 12"
    "ul_ctor (de_algs (ev_dc ex_ev)) AES_256_GCM = Inr \<lparr>ul_invocations = 0, ul_plaintext_blocks = 0, ul_limit = gcm_limit\<rparr>"
    by (simp_all add: ex_ev_def algs_init_def alg_ctor_def alg_key_length_def alg_iv_length_def alg_get_def alg_get_index_def ul_ctor_def
        alg_aead_usage_limit_def ul_default_def)
  ultimately show ?thesis using ex_hmac_ok unfolding epoch_env_ok_def by auto
qed

text \<open>
  C25. Key derivation. \<open>ovpn_hkdf_expand\<close> computes HKDF-Expand of RFC 5869 with the given HMAC, for outputs of up to 254
  blocks, which is more than any use of it asks for, and writes nothing behind the output.
\<close>

theorem hkdf_expand_rfc5869:
  assumes "hmac_ok (ev_hmac env)" "length secret = 32" "n \<le> length out" "n \<le> 8128"
  shows "ovpn_hkdf_expand env secret info out n = Inr (hkdf_okm (ev_hmac env secret) info n @ drop n out)"
  by (rule hkdf_expand_okm [OF assms])

theorem hkdf_expand_rfc5869_witness:
  "hmac_ok (ev_hmac ex_ev) \<and> ovpn_hkdf_expand ex_ev (replicate 32 1) [5] (replicate 42 0) 40
     = Inr (take 40 (concat (map (hkdf_T (ex_hmac (replicate 32 1)) [5]) [1, 2])) @ [0, 0])"
  using hkdf_expand_rfc5869 [OF ex_hmac_ok, of "replicate 32 1" 40 "replicate 42 0" "[5]"] ex_hmac_ok
  by (simp add: hkdf_okm_def ex_ev_def upt_rec numeral_2_eq_2)



text \<open>
  C21. The last future key. When a peer moves on to the last of the epochs for which a key is held, the update of the
  receive key throws, although the packet was decrypted with a valid candidate. Afterwards the keys at the
  places of the following epochs are those of epochs in the past: the look-up of the next epoch returns the
  key of the epoch after the old one.
\<close>

theorem epoch_last_key:
  assumes "dce_inv env se re s r d" "1 < unat (dce_count d)" "r + 2 * unat (dce_count d) < 65534"
  shows "\<exists>d' msg. replace_update_recv_key env (of_nat (r + unat (dce_count d))) d = (Inl (epoch_key_exception msg), d')
    \<and> lookup_decrypt_key (of_nat (r + unat (dce_count d) + 1)) d' = Inr (Some (DK_FUTURE 0))
    \<and> er_epoch (dce_get (DK_FUTURE 0) d') = of_nat (r + 1)"
proof -
  let ?m = "unat (dce_count d)"
  obtain d' where d': "replace_update_recv_key env (of_nat (r + ?m)) d = (Inl (epoch_key_exception ''Epoch key generation and future keys mismatch detected''), d')"
    "er_epoch (decrypt_ctx d') = of_nat (r + ?m)" "dce_count d' = dce_count d" "future_keys d' = (future_keys d)[?m - 1 := er_default]" "retiring_ctx d' = decrypt_ctx d"
    using replace_recv_last [OF assms(1)] assms(2) by auto
  have l: "length (future_keys d) = ?m" and e0: "unat (er_epoch (future_keys d ! 0)) = Suc r" using er_epoch_future [OF assms(1), of 0] assms(2) by simp_all
  have u: "unat (of_nat (r + ?m + 1) :: u16) = r + ?m + 1" "unat (of_nat (r + ?m) :: u16) = r + ?m" "unat (of_nat (r + 1) :: u16) = r + 1"
    by (rule u16_of_nat, use assms(3) in simp)+
  have "unat (er_epoch (retiring_ctx d')) = r" using er_epoch_current [OF assms(1)] d'(5) by simp
  then have ne: "er_epoch (decrypt_ctx d') \<noteq> of_nat (r + ?m + 1)" "er_epoch (retiring_ctx d') \<noteq> of_nat (r + ?m + 1)" "er_epoch (decrypt_ctx d') < of_nat (r + ?m + 1)"
    using u d'(2) by (auto simp: word_less_nat_alt simp del: of_nat_add of_nat_Suc dest: arg_cong [where f = unat])
  have g: "\<not> int (r + ?m + 1) > 65535 - int ?m - 1" using assms(3) by linarith
  have "lookup_decrypt_key (of_nat (r + ?m + 1)) d' = Inr (Some (DK_FUTURE 0))"
    unfolding lookup_decrypt_key_def using ne g u d'(2,3,4) l assms(2,3) by (simp del: of_nat_add of_nat_Suc)
  moreover have "er_epoch (future_keys d' ! 0) = of_nat (r + 1)" using e0 u(3) d'(4) assms(2) by (simp add: word_unat_eq_iff del: of_nat_add of_nat_Suc)
  ultimately show ?thesis using d'(1) by auto
qed

theorem epoch_last_key_witness:
  "\<exists>d d' msg. dce_ctor ex_ev AES_256_GCM (replicate 32 1) (replicate 32 2) 16 = Inr d
    \<and> replace_update_recv_key ex_ev 17 d = (Inl (epoch_key_exception msg), d') \<and> lookup_decrypt_key 18 d' = Inr (Some (DK_FUTURE 0))
    \<and> er_epoch (dce_get (DK_FUTURE 0) d') = 2"
proof -
  obtain d where d: "dce_ctor ex_ev AES_256_GCM (replicate 32 1) (replicate 32 2) 16 = Inr d" "dce_inv ex_ev (replicate 32 1) (replicate 32 2) 1 1 d" "dce_count d = 16"
    using dce_ctor_ok [OF ex_ev_ok, of "replicate 32 1" "replicate 32 2" 16] by auto
  from epoch_last_key [OF d(2)] d(1,3) show ?thesis by auto
qed

end
