(* ===== verification/Crypto_Epoch.thy ===== *)
theory Crypto_Epoch
  imports Data_Epoch
begin

text \<open>
  The data channel with epoch keys (crypto/crypto_aead_epoch.hpp): packets carry a 16-bit epoch and a 48-bit counter, the
  tag at the end, and the whole header is authenticated. Encryption moves to a new key when the usage limit is
  reached, decryption follows the peer's epoch. A header that the caller does not have (\<open>op32\<close> is a null pointer for packets with
  the one-byte header) would be read through a null pointer.
\<close>

section \<open>\<open>AEADEpoch::Crypto\<close>\<close>

record aead_epoch =
  ep_settings :: dc_settings
  ep_dce :: dce
  work_encrypt :: buffer
  work_decrypt :: buffer

definition ep_header :: "epoch_env \<Rightarrow> byte list option \<Rightarrow> buffer result" where
  "ep_header env op32 =
     (case op32 of
        None \<Rightarrow> Inl undefined_behaviour
      | Some op \<Rightarrow> buf_write (de_junk (ev_dc env)) (take 4 op) (buf_alloc_capacity (de_junk (ev_dc env)) (4 + 8) 0))"

definition ep_seal :: "epoch_env \<Rightarrow> byte list \<Rightarrow> byte list \<Rightarrow> byte list \<Rightarrow> buffer \<Rightarrow> aead_ctx \<Rightarrow> (buffer \<times> aead_ctx) result" where
  "ep_seal env iv ad input w ax =
     bindR (buf_write_alloc (de_junk (ev_dc env)) (length input) w) (\<lambda>w1.
     let work_data = b_offset w1 + (b_size w1 - length input) in
     bindR (buf_write_alloc (de_junk (ev_dc env)) AUTH_TAG_LEN w1) (\<lambda>w2.
     let auth_tag = b_offset w2 + (b_size w2 - AUTH_TAG_LEN) in
     ax_encrypt (ev_dc env) input work_data iv auth_tag ad w2 ax))"

abbreviation ep_set_send :: "epoch_send \<Rightarrow> aead_epoch \<Rightarrow> aead_epoch" where
  "ep_set_send x c \<equiv> c\<lparr>ep_dce := (ep_dce c)\<lparr>encrypt_ctx := x\<rparr>\<rparr>"

definition ep_encrypt :: "epoch_env \<Rightarrow> byte list option \<Rightarrow> buffer \<Rightarrow> aead_epoch \<Rightarrow> bool result \<times> buffer \<times> aead_epoch" where
  "ep_encrypt env op32 buf c =
     (if b_size buf = 0 then (Inr False, buf, c)
      else case check_send_iterate env (ep_dce c) of
        (Inl e, d) \<Rightarrow> (Inl e, buf, c\<lparr>ep_dce := d\<rparr>)
      | (Inr _, d) \<Rightarrow>
          (let c1 = c\<lparr>ep_dce := d\<rparr>; x = encrypt_ctx d
           in case ep_header env op32 of
                Inl e \<Rightarrow> (Inl e, buf, c1)
              | Inr h0 \<Rightarrow>
                  (case pds_write_next (de_junk (ev_dc env)) (es_pid x) h0 of
                     (Inl e, pid) \<Rightarrow> (Inl e, buf, ep_set_send (x\<lparr>es_pid := pid\<rparr>) c1)
                   | (Inr h, pid) \<Rightarrow>
                       (let c2 = ep_set_send (x\<lparr>es_pid := pid\<rparr>) c1; iv = ec_calculate_iv (drop 4 (content h)) (es_ctx x)
                        in case dc_prepare (ev_dc env) ENCRYPT_WORK (work_encrypt c2) of
                             Inl e \<Rightarrow> (Inl e, buf, c2)
                           | Inr w \<Rightarrow>
                               if buf_max_size w < b_size buf
                               then (Inl (aead_epoch_error ''encrypt work buffer too small''), buf, c2\<lparr>work_encrypt := w\<rparr>)
                               else (case ep_seal env iv (content h) (content buf) w (ec_cipher (es_ctx x)) of
                                       Inl e \<Rightarrow> (Inl e, buf, c2\<lparr>work_encrypt := w\<rparr>)
                                     | Inr (w', ax) \<Rightarrow>
                                         (let c3 = (ep_set_send (x\<lparr>es_pid := pid, es_ctx := (es_ctx x)\<lparr>ec_cipher := ax\<rparr>\<rparr>) c1)\<lparr>work_encrypt := buf\<rparr>
                                          in case buf_prepend (drop 4 (content h)) w' of
                                               Inl e \<Rightarrow> (Inl e, w', c3)
                                             | Inr b \<Rightarrow> (Inr (should_renegotiate (ep_dce c3)), b, c3)))))))"

text \<open>The end of \<open>decrypt\<close>, when the library has accepted the packet.\<close>

definition ep_accept :: "epoch_env \<Rightarrow> decrypt_key \<Rightarrow> packet_id_data \<Rightarrow> int \<Rightarrow> buffer \<Rightarrow> buffer \<Rightarrow> aead_epoch \<Rightarrow> err result \<times> buffer \<times> aead_epoch" where
  "ep_accept env k pid now b w c =
     (case buf_set_size (sz_sub (b_size b) AUTH_TAG_LEN) w of
        Inl e \<Rightarrow> (Inl e, b, c\<lparr>work_decrypt := w\<rparr>)
      | Inr w1 \<Rightarrow>
          (let (ok, r) = pdr_test_add 8 30 pid now (er_pid (dce_get k (ep_dce c)));
               d = dce_set_pid k r (ep_dce c)
           in if \<not> ok then (Inr REPLAY_ERROR, buf_reset_size b, c\<lparr>work_decrypt := w1, ep_dce := d\<rparr>)
              else case replace_update_recv_key env (er_epoch (dce_get k d)) d of
                     (Inl e, d') \<Rightarrow> (Inl e, b, c\<lparr>work_decrypt := w1, ep_dce := d'\<rparr>)
                   | (Inr _, d') \<Rightarrow> (Inr ERR_SUCCESS, w1, c\<lparr>work_decrypt := b, ep_dce := d'\<rparr>)))"

definition ep_open :: "epoch_env \<Rightarrow> decrypt_key \<Rightarrow> packet_id_data \<Rightarrow> byte list \<Rightarrow> int \<Rightarrow> buffer \<Rightarrow> aead_epoch \<Rightarrow> err result \<times> buffer \<times> aead_epoch" where
  "ep_open env k pid h now b c =
     (let x = er_ctx (dce_get k (ep_dce c)); iv = ec_calculate_iv (drop 4 h) x
      in case dc_prepare (ev_dc env) DECRYPT_WORK (work_decrypt c) of
           Inl e \<Rightarrow> (Inl e, b, c)
         | Inr w \<Rightarrow>
             (let c1 = c\<lparr>work_decrypt := w\<rparr>
              in if buf_max_size w < b_size b then (Inl (aead_epoch_error ''decrypt work buffer too small''), b, c1)
                 else (case ax_decrypt (ev_dc env) (content b) (b_offset w) iv None h w (ec_cipher x) of
                         Inl e \<Rightarrow> (Inl e, b, c1)
                       | Inr (ok, w1) \<Rightarrow>
                           if \<not> ok then (Inr DECRYPT_ERROR, buf_reset_size b, c1\<lparr>work_decrypt := w1\<rparr>)
                           else ep_accept env k pid now b w1 c1)))"

definition ep_decrypt :: "epoch_env \<Rightarrow> int \<Rightarrow> byte list option \<Rightarrow> buffer \<Rightarrow> aead_epoch \<Rightarrow> err result \<times> buffer \<times> aead_epoch" where
  "ep_decrypt env now op32 buf c =
     (if b_size buf = 0 then (Inr ERR_SUCCESS, buf, c)
      else if b_size buf < pd_size True then (Inr DECRYPT_ERROR, buf, c)
      else case ep_header env op32 of
        Inl e \<Rightarrow> (Inl e, buf, c)
      | Inr h0 \<Rightarrow>
          (case buf_read 8 buf of
             Inl e \<Rightarrow> (Inl e, buf, c)
           | Inr (packet_id, b1) \<Rightarrow>
               (case buf_write (de_junk (ev_dc env)) packet_id h0 of
                  Inl e \<Rightarrow> (Inl e, b1, c)
                | Inr h \<Rightarrow>
                    (case pd_read \<lparr>pd_id = 0, pd_wide = True\<rparr> (buf_ctor packet_id 8 True) of
                       Inl e \<Rightarrow> (Inl e, b1, c)
                     | Inr (pid, _) \<Rightarrow>
                         (case lookup_decrypt_key (pd_get_epoch pid) (ep_dce c) of
                            Inl e \<Rightarrow> (Inl e, b1, c)
                          | Inr None \<Rightarrow> (Inr DECRYPT_ERROR, b1, c)
                          | Inr (Some k) \<Rightarrow> ep_open env k pid (content h) now b1 c)))))"

section \<open>Initialisation\<close>

definition ep_new :: "epoch_env \<Rightarrow> dc_settings \<Rightarrow> aead_epoch" where
  "ep_new env settings =
     \<lparr>ep_settings = settings,
      ep_dce = \<lparr>dce_cipher = ALG_NONE, dce_count = 0, encrypt_ctx = es_default, decrypt_ctx = er_default, retiring_ctx = er_default,
         future_keys = [], dce_send = ek_default, dce_receive = ek_default\<rparr>,
      work_encrypt = buf_clear, work_decrypt = buf_clear\<rparr>"

definition ep_init_cipher :: "epoch_env \<Rightarrow> byte list \<Rightarrow> byte list \<Rightarrow> aead_epoch \<Rightarrow> unit result \<times> aead_epoch" where
  "ep_init_cipher env encrypt_key decrypt_key c =
     (if \<not> ds_use_epoch_keys (ep_settings c) then (Inl (aead_epoch_error ''AEAD Epoch requires epoch keys to be in use''), c)
      else case dce_ctor env (ds_cipher (ep_settings c)) encrypt_key decrypt_key 16 of
             Inl e \<Rightarrow> (Inl e, c)
           | Inr d \<Rightarrow> (Inr (), c\<lparr>ep_dce := d\<rparr>))"

definition ep_defined :: "aead_epoch \<Rightarrow> u32" where
  "ep_defined c = (if alg_defined (ds_cipher (ep_settings c)) then DC_CRYPTO_DEFINED OR DC_CIPHER_DEFINED else DC_CRYPTO_DEFINED)"

definition ep_increase_send_epoch :: "epoch_env \<Rightarrow> aead_epoch \<Rightarrow> unit result \<times> aead_epoch" where
  "ep_increase_send_epoch env c = (case iterate_send_key env (ep_dce c) of (r, d) \<Rightarrow> (r, c\<lparr>ep_dce := d\<rparr>))"

definition ep_context_ctor :: "alg list \<Rightarrow> dc_settings \<Rightarrow> dc_settings result" where
  "ep_context_ctor algs s = bindR (legal_dc_cipher algs (ds_cipher s)) (\<lambda>_. Inr (s\<lparr>ds_digest := ALG_NONE\<rparr>))"

definition ep_encap_overhead :: size_t where
  "ep_encap_overhead = AUTH_TAG_LEN + 4"

text \<open>As the cipher of a key context.\<close>

definition ep_api :: "epoch_env \<Rightarrow> int \<Rightarrow> aead_epoch dc_api" where
  "ep_api env base =
     \<lparr>dc_encrypt = ep_encrypt env, dc_decrypt = (\<lambda>now. ep_decrypt env (tm_seconds_since_epoch base now)),
      dc_rekey = (\<lambda>ty c. c), comp_compress = (\<lambda>h b. (Inr (), b)), comp_decompress = (\<lambda>b. (Inr (), b))\<rparr>"

section \<open>Headers and the library\<close>

lemma ep_header_ok:
  assumes "length op = 4"
  obtains h0 where "ep_header env (Some op) = Inr h0" "buf_wf h0" "content h0 = op" "b_offset h0 = 0" "b_size h0 = 4" "b_capacity h0 = 12"
proof -
  let ?b = "buf_alloc_capacity (de_junk (ev_dc env)) 12 0"
  have b: "buf_wf ?b" "b_offset ?b = 0" "b_size ?b = 0" "b_capacity ?b = 12"
    by (simp_all add: buf_alloc_capacity_wf sz_max_def) (simp_all add: buf_alloc_capacity_def buf_alloc_def)
  obtain h where "buf_write (de_junk (ev_dc env)) op ?b = Inr h" "buf_wf h" "content h = content ?b @ op"
    "b_size h = b_size ?b + length op" "b_capacity h = b_capacity ?b" "b_offset h = b_offset ?b"
    by (rule buf_write_fits [OF b(1), of op "de_junk (ev_dc env)"]) (use b assms in simp_all)
  then show thesis using that [of h] b assms by (simp add: ep_header_def)
qed

abbreviation ep_pid :: "byte list \<Rightarrow> packet_id_data" where
  "ep_pid pb \<equiv> \<lparr>pd_id = be_word pb, pd_wide = True\<rparr>"

lemma ep_read_pid: "length pb = 8 \<Longrightarrow> \<exists>b. pd_read \<lparr>pd_id = 0, pd_wide = True\<rparr> (buf_ctor pb 8 True) = Inr (ep_pid pb, b)"
  by (simp add: pd_read_def buf_read_def buf_ctor_def buf_peek_def)

text \<open>\<open>decrypt\<close> up to the choice of the key.\<close>

lemma ep_decrypt_lookup:
  assumes b: "buf_wf buf" "8 \<le> b_size buf" and op: "length op = 4"
  shows "ep_decrypt env now (Some op) buf c =
    (let b1 = buf\<lparr>b_offset := b_offset buf + 8, b_size := b_size buf - 8\<rparr>; pb = take 8 (content buf)
     in case lookup_decrypt_key (pd_get_epoch (ep_pid pb)) (ep_dce c) of
          Inl e \<Rightarrow> (Inl e, b1, c)
        | Inr None \<Rightarrow> (Inr DECRYPT_ERROR, b1, c)
        | Inr (Some k) \<Rightarrow> ep_open env k (ep_pid pb) (op @ pb) now b1 c)"
proof -
  let ?pb = "take 8 (content buf)" and ?b1 = "buf\<lparr>b_offset := b_offset buf + 8, b_size := b_size buf - 8\<rparr>"
  have pb: "length ?pb = 8" using b by simp
  obtain h0 where h0: "ep_header env (Some op) = Inr h0" "buf_wf h0" "content h0 = op" "b_offset h0 = 0" "b_size h0 = 4" "b_capacity h0 = 12"
    by (rule ep_header_ok [OF op, of env])
  obtain h where h: "buf_write (de_junk (ev_dc env)) ?pb h0 = Inr h" "content h = op @ ?pb"
    by (rule buf_write_fits [OF h0(2), of ?pb "de_junk (ev_dc env)"]) (use h0 pb in simp_all)
  have rd: "buf_read 8 buf = Inr (?pb, ?b1)" using b by (simp add: buf_read_eq)
  obtain b' where p: "pd_read \<lparr>pd_id = 0, pd_wide = True\<rparr> (buf_ctor ?pb 8 True) = Inr (ep_pid ?pb, b')" using ep_read_pid [OF pb] by blast
  show ?thesis using b(2) h0(1) h rd p by (simp add: ep_decrypt_def pd_size_def Let_def split: sum.split option.split)
qed

lemma ax_decrypt_end:
  fixes iv ad :: "byte list"
  assumes env: "dc_env_ok env" and w: "work_ok w" "b_size w = 0" "b_offset w + length input \<le> b_capacity w" and key: "ax_key ax = Some key"
  defines "n \<equiv> length input - AUTH_TAG_LEN"
  defines "op \<equiv> al_open (de_lib env) key iv ad (take n input) (drop n input)"
  defines "r \<equiv> ax_decrypt env input (b_offset w) iv None ad w ax"
  obtains (opened) w1 where "AUTH_TAG_LEN \<le> length input" "r = Inr (True, w1)" "buf_set_size n w1 = Inr (w1\<lparr>b_size := n\<rparr>)"
      "work_ok (w1\<lparr>b_size := n\<rparr>)" "op = Some (content (w1\<lparr>b_size := n\<rparr>), True)"
    | (not_opened) "length input < AUTH_TAG_LEN \<or> (\<forall>m. op \<noteq> Some (m, True))"
      "(\<exists>msg. r = Inl (openssl_gcm_error msg)) \<or> (\<exists>w1. r = Inr (False, w1) \<and> work_ok w1)"
proof (cases "length input < AUTH_TAG_LEN \<or> op = None")
  case True
  then have "(\<exists>msg. r = Inl (openssl_gcm_error msg)) \<or> r = Inr (False, w)"
    using key by (cases "de_mbedtls env") (auto simp: r_def ax_decrypt_def op_def n_def Let_def)
  then show thesis using True w(1) not_opened by auto
next
  case False
  then obtain m ok where m: "op = Some (m, ok)" by auto
  then have lm: "length m = n" using dc_env_open [OF env, of key iv ad "take n input" "drop n input" m ok] by (simp add: op_def n_def)
  have "b_offset w + length m \<le> b_capacity w" using w(3) lm by (simp add: n_def)
  from work_output [OF w(1,2) this] obtain w1 where w1: "buf_poke (b_offset w) m w = Inr w1" "work_ok w1" "buf_set_size n w1 = Inr (w1\<lparr>b_size := n\<rparr>)"
    "work_ok (w1\<lparr>b_size := n\<rparr>)" "content (w1\<lparr>b_size := n\<rparr>) = m"
    using lm by metis
  have "r = Inr (ok, w1)" using False m lm key w1(1) by (cases "de_mbedtls env") (auto simp: r_def ax_decrypt_def op_def n_def Let_def)
  then show thesis using False m w1 opened [of w1] not_opened by (cases ok) auto
qed

section \<open>Packets of an unknown epoch\<close>

lemma ep_decrypt_unknown:
  assumes inv: "dce_inv env se re s r (ep_dce c)" and b: "buf_wf buf" "content buf = pb @ payload" "length pb = 8" and op: "length op = 4"
    and e: "unat (pd_get_epoch (ep_pid pb)) = 0 \<or> unat (pd_get_epoch (ep_pid pb)) > r + unat (dce_count (ep_dce c))"
  shows "\<exists>b1. ep_decrypt env now (Some op) buf c = (Inr DECRYPT_ERROR, b1, c) \<and> buf_wf b1 \<and> content b1 = payload"
proof -
  let ?e = "unat (pd_get_epoch (ep_pid pb))"
  have sz: "8 \<le> b_size buf" using b length_content [OF b(1)] by simp
  have r: "0 < r" "er_epoch (retiring_ctx (ep_dce c)) = 0 \<or> unat (er_epoch (retiring_ctx (ep_dce c))) < r"
  proof -
    have *: "dce_receives env re r (ep_dce c)" "epoch_env_ok env (dce_cipher (ep_dce c))" "length re = 32" using inv by (simp_all add: dce_inv_def)
    then show "0 < r" by (simp add: dce_receives_def)
    have "unat (ec_epoch (recv_at env (dce_cipher (ep_dce c)) re q)) = q" if "0 < q" "q < r" for q
      using recv_at_props(2) [OF *(2,3) that(1)] u16_of_nat [of q] * that(2) by (simp add: dce_receives_def)
    then show "er_epoch (retiring_ctx (ep_dce c)) = 0 \<or> unat (er_epoch (retiring_ctx (ep_dce c))) < r"
      using *(1) unfolding dce_receives_def by auto
  qed
  have "lookup_decrypt_key (of_nat ?e) (ep_dce c) = Inr None"
    using lookup_key_eq [OF inv, of ?e] unsigned_less [of "pd_get_epoch (ep_pid pb)", where 'a = nat] e r by auto
  then have l: "lookup_decrypt_key (pd_get_epoch (ep_pid pb)) (ep_dce c) = Inr None" by simp
  let ?b1 = "buf\<lparr>b_offset := b_offset buf + 8, b_size := b_size buf - 8\<rparr>"
  have "buf_wf ?b1" "content ?b1 = payload" using wf_consume [OF b(1) sz] content_consume [of buf 8] sz b by simp_all
  then show ?thesis using ep_decrypt_lookup [OF b(1) sz op, of env now c] l b(2,3) by (simp add: Let_def)
qed

lemma kc_decrypt_passes:
  assumes k: "kc_keyed kc c" and n: "kc_data_limit kc = None" "\<not> kc_compress kc" "mss_fix cfg = 0"
    and b: "buf_wf b" "content b = op @ bs" "length op = 4" "op_head_size (ucast (hd op)) = OP_SIZE_V2"
    and d: "\<And>b1. buf_wf b1 \<Longrightarrow> content b1 = bs \<Longrightarrow> \<exists>er b2 c2. dc_decrypt api now (Some op) b1 c = (Inr er, b2, c2) \<and> content b2 = out"
  shows "content (fst (kc_decrypt api cfg now b kc)) = out"
proof -
  have sz: "4 \<le> b_size b" using b length_content [OF b(1)] by simp
  have at: "buf_at b 0 = Inr (hd op)" using b sz by (cases op) (simp_all add: buf_at_eq)
  define bb where "bb = b\<lparr>b_offset := b_offset b + 4, b_size := b_size b - 4\<rparr>"
  have adv: "buf_advance 4 b = Inr bb" using sz by (simp add: buf_advance_def bb_def)
  have bb: "buf_wf bb" "content bb = bs" unfolding bb_def content_consume using wf_consume [OF b(1), of 4] b(2,3) sz by simp_all
  obtain er b2 c2 where 2: "dc_decrypt api now (Some op) bb c = (Inr er, b2, c2)" "content b2 = out" using d [OF bb] by blast
  have "\<exists>kc'. kc_decrypt_body api cfg now b c kc = (Inr (), b2, kc')"
    unfolding kc_decrypt_body_def at using adv b(2-4) 2(1) n
    by (auto simp: OP_SIZE_V2_def kc_decrypt_finish_def Let_def kc_error_def kc_invalidate_def kc_invalidate_callback_def)
  then show ?thesis using k 2(2) by (auto simp: kc_decrypt_def kc_keyed_def)
qed

section \<open>Decryption\<close>

definition ep_refused :: "err result \<Rightarrow> bool" where
  "ep_refused r \<longleftrightarrow> (case r of Inl e \<Rightarrow> (\<exists>msg. e = aead_epoch_error msg \<or> e = openssl_gcm_error msg) | Inr er \<Rightarrow> er = DECRYPT_ERROR)"

text \<open>What the library opens under the context \<open>x\<close>, for the packet ID \<open>pb\<close>, the header \<open>op\<close> and the rest of the packet.\<close>

definition ctx_open :: "epoch_env \<Rightarrow> epoch_ctx \<Rightarrow> byte list \<Rightarrow> byte list \<Rightarrow> byte list \<Rightarrow> byte list option" where
  "ctx_open env x op pb body =
     (case ax_key (ec_cipher x) of
        None \<Rightarrow> None
      | Some key \<Rightarrow>
          if length body < 16 then None
          else (case al_open (de_lib (ev_dc env)) key (ec_calculate_iv pb x) (op @ pb) (take (length body - 16) body) (drop (length body - 16) body) of
                  Some (m, True) \<Rightarrow> Some m
                | _ \<Rightarrow> None))"

lemma ep_open_outcome:
  fixes pb :: "byte list"
  assumes env: "dc_env_ok (ev_dc env)" and b: "work_ok b" and w0: "work_ok (work_decrypt c)" and op: "length op = 4"
    and key: "ax_key (ec_cipher (er_ctx (dce_get k (ep_dce c)))) = Some key"
    and v: "pdr_test_add 8 30 pid now (er_pid (dce_get k (ep_dce c))) = (ok, pr)"
  defines "msg \<equiv> ctx_open env (er_ctx (dce_get k (ep_dce c))) op pb (content b)" and "d1 \<equiv> dce_set_pid k pr (ep_dce c)"
  shows "(\<exists>w1. work_ok w1 \<and> msg = Some (content w1) \<and> ep_open env k pid (op @ pb) now b c =
      (if \<not> ok then (Inr REPLAY_ERROR, buf_reset_size b, c\<lparr>work_decrypt := w1, ep_dce := d1\<rparr>)
       else case replace_update_recv_key env (er_epoch (dce_get k d1)) d1 of
              (Inl e, d') \<Rightarrow> (Inl e, b, c\<lparr>work_decrypt := w1, ep_dce := d'\<rparr>)
            | (Inr _, d') \<Rightarrow> (Inr ERR_SUCCESS, w1, c\<lparr>work_decrypt := b, ep_dce := d'\<rparr>)))
    \<or> (\<exists>r b1 w1. work_ok w1 \<and> work_ok b1 \<and> ep_refused r \<and> ep_open env k pid (op @ pb) now b c = (r, b1, c\<lparr>work_decrypt := w1\<rparr>)
      \<and> (b_size b \<le> fc_payload (de_frame (ev_dc env) ! DECRYPT_WORK) \<longrightarrow> msg = None))"
proof -
  let ?x = "er_ctx (dce_get k (ep_dce c))"
  obtain w where w: "dc_prepare (ev_dc env) DECRYPT_WORK (work_decrypt c) = Inr w" "work_ok w" "b_size w = 0"
    "b_offset w + fc_payload (de_frame (ev_dc env) ! DECRYPT_WORK) + AUTH_TAG_LEN \<le> b_capacity w"
    by (rule dc_prepare_ok [OF env w0, of DECRYPT_WORK]) (simp_all add: DECRYPT_WORK_def N_ALIGN_CONTEXTS_def)
  have mx: "buf_max_size w = b_capacity w - b_offset w" using w(2) by (simp add: work_ok_def buf_max_size_exact)
  have lb: "length (content b) = b_size b" using b by (simp add: work_ok_def)
  show ?thesis
  proof (cases "buf_max_size w < b_size b")
    case True
    then have "ep_open env k pid (op @ pb) now b c = (Inl (aead_epoch_error ''decrypt work buffer too small''), b, c\<lparr>work_decrypt := w\<rparr>)"
      "\<not> b_size b \<le> fc_payload (de_frame (ev_dc env) ! DECRYPT_WORK)"
      using w mx by (simp_all add: ep_open_def Let_def)
    moreover have "ep_refused (Inl (aead_epoch_error ''decrypt work buffer too small''))" by (auto simp: ep_refused_def)
    ultimately show ?thesis using w(2) b by blast
  next
    case False
    have iv: "drop 4 (op @ pb) = pb" using op by simp
    have r1: "b_offset w + length (content b) \<le> b_capacity w" using False mx lb w(2) by (auto simp: work_ok_def buf_wf_def)
    let ?r = "ax_decrypt (ev_dc env) (content b) (b_offset w) (ec_calculate_iv pb ?x) None (op @ pb) w (ec_cipher ?x)"
    have e: "ep_open env k pid (op @ pb) now b c = (case ?r of
          Inl e \<Rightarrow> (Inl e, b, c\<lparr>work_decrypt := w\<rparr>)
        | Inr (acc, w1) \<Rightarrow> if \<not> acc then (Inr DECRYPT_ERROR, buf_reset_size b, c\<lparr>work_decrypt := w1\<rparr>) else ep_accept env k pid now b w1 (c\<lparr>work_decrypt := w\<rparr>))"
      using w(1) False iv by (simp add: ep_open_def Let_def split: sum.split prod.split)
    show ?thesis
    proof (cases rule: ax_decrypt_end [OF env w(2,3) r1 key, of "ec_calculate_iv pb ?x" "op @ pb", case_names opened not_opened])
      case a: (opened w1)
      let ?n = "length (content b) - AUTH_TAG_LEN"
      have m: "msg = Some (content (w1\<lparr>b_size := ?n\<rparr>))" using a(1,5) key by (simp add: msg_def ctx_open_def AUTH_TAG_LEN_def)
      have "b_size b < sz_max" using b by (simp add: work_ok_def buf_wf_def)
      then have "sz_sub (b_size b) AUTH_TAG_LEN = ?n" using a(1) lb by (simp add: sz_sub_exact)
      then have acc: "ep_open env k pid (op @ pb) now b c =
        (if \<not> ok then (Inr REPLAY_ERROR, buf_reset_size b, c\<lparr>work_decrypt := w1\<lparr>b_size := ?n\<rparr>, ep_dce := d1\<rparr>)
         else case replace_update_recv_key env (er_epoch (dce_get k d1)) d1 of
              (Inl e, d') \<Rightarrow> (Inl e, b, c\<lparr>work_decrypt := w1\<lparr>b_size := ?n\<rparr>, ep_dce := d'\<rparr>)
            | (Inr _, d') \<Rightarrow> (Inr ERR_SUCCESS, w1\<lparr>b_size := ?n\<rparr>, c\<lparr>work_decrypt := b, ep_dce := d'\<rparr>))"
        using e a(2,3) v by (simp add: ep_accept_def d1_def split: prod.split sum.split)
      show ?thesis using a(4) m acc by blast
    next
      case n: not_opened
      have none: "msg = None" using n(1) key by (auto simp: msg_def ctx_open_def AUTH_TAG_LEN_def split: option.split bool.split)
      have r2: "ep_refused (Inr DECRYPT_ERROR)" "\<And>msg. ep_refused (Inl (openssl_gcm_error msg))" by (auto simp: ep_refused_def)
      show ?thesis using n(2)
      proof (elim disjE exE conjE)
        fix msg assume "?r = Inl (openssl_gcm_error msg)"
        then have "ep_open env k pid (op @ pb) now b c = (Inl (openssl_gcm_error msg), b, c\<lparr>work_decrypt := w\<rparr>)" using e by simp
        then show ?thesis using none r2(2) w(2) b by blast
      next
        fix w1 assume "?r = Inr (False, w1)" "work_ok w1"
        then have "ep_open env k pid (op @ pb) now b c = (Inr DECRYPT_ERROR, buf_reset_size b, c\<lparr>work_decrypt := w1\<rparr>)" "work_ok w1" using e by simp_all
        then show ?thesis using none r2(1) work_ok_reset [OF b] by blast
      qed
    qed
  qed
qed

section \<open>The replay filters of the keys\<close>

text \<open>The epoch is in the top 16 bits of an ID. Every key knows the IDs that were accepted in its epoch.\<close>

abbreviation id_epoch :: "nat \<Rightarrow> nat" where
  "id_epoch x \<equiv> x div 2 ^ 48"

definition dce_known :: "nat \<Rightarrow> dce \<Rightarrow> nat set \<Rightarrow> bool" where
  "dce_known r d K \<longleftrightarrow> (\<forall>x\<in>K. 0 < id_epoch x \<and> id_epoch x \<le> r + unat (dce_count d))
     \<and> (\<forall>k. dk_valid d k \<longrightarrow> pdr_known (er_pid (dce_get k d)) {x \<in> K. id_epoch x = unat (er_epoch (dce_get k d))})"

lemma get_epoch_unat: "unat (pd_get_epoch p) = id_epoch (unat (pd_id p))"
proof -
  have "pd_get_epoch p = ucast (drop_bit 48 (pd_id p))"
  proof -
    have m: "epoch_packet_id_mask = mask 48" by (simp add: epoch_packet_id_mask_def mask_eq_exp_minus_1)
    have "bit epoch_packet_id_mask k \<longleftrightarrow> k < 48" for k unfolding m bit_mask_iff by auto
    then show ?thesis unfolding pd_get_epoch_def by (intro bit_word_eqI) (auto simp: bit_simps)
  qed
  moreover have "unat (drop_bit 48 (pd_id p)) = id_epoch (unat (pd_id p))" by (simp add: drop_bit_eq_div unat_div)
  moreover have "id_epoch (unat (pd_id p)) < 2 ^ 16" using unsigned_less [of "pd_id p", where 'a = nat] by (simp add: less_mult_imp_div_less)
  ultimately show ?thesis by (simp add: unsigned_ucast_eq take_bit_eq_mod)
qed

lemma dce_known_test_add:
  assumes inv: "dce_inv env se re s r d" and kn: "dce_known r d K" and k: "dk_valid d k"
    and e: "er_epoch (dce_get k d) = pd_get_epoch pid" "pd_get_epoch pid \<noteq> 0"
  obtains ok pr where "pdr_test_add 8 30 pid now (er_pid (dce_get k d)) = (ok, pr)"
    "dce_known r (dce_set_pid k pr d) (if ok then insert (unat (pd_id pid)) K else K)" "ok \<Longrightarrow> unat (pd_id pid) \<notin> K"
proof -
  let ?id = "unat (pd_id pid)" and ?S = "\<lambda>K k. {x \<in> K. id_epoch x = unat (er_epoch (dce_get k d))}"
  have ie: "id_epoch ?id = unat (er_epoch (dce_get k d))" "0 < id_epoch ?id"
    unfolding get_epoch_unat [symmetric] using e by (simp_all add: unat_gt_0)
  have le: "unat (er_epoch (dce_get k d)) \<le> r + unat (dce_count d)" using dk_epoch [OF inv k] by (auto split: decrypt_key.splits)
  have "pdr_known (er_pid (dce_get k d)) (?S K k)" using kn k by (simp add: dce_known_def)
  then obtain ok pr where t: "pdr_test_add 8 30 pid now (er_pid (dce_get k d)) = (ok, pr)"
    "pdr_known pr (if ok then insert ?id (?S K k) else ?S K k)" "ok \<Longrightarrow> ?id \<notin> ?S K k"
    by (rule pdr_test_add_known [where xp = 30 and pin = pid and now = now]) blast
  let ?K = "if ok then insert ?id K else K"
  have S: "?S ?K k = (if ok then insert ?id (?S K k) else ?S K k)" using ie by auto
  have S': "?S ?K k' = ?S K k'" if "dk_valid d k'" "k' \<noteq> k" for k'
    using dk_inj [OF inv k that(1)] that(2) ie(1) by (auto simp: word_unat_eq_iff)
  have "dce_known r (dce_set_pid k pr d) ?K"
    unfolding dce_known_def
  proof (intro conjI allI impI)
    show "\<forall>x\<in>?K. 0 < id_epoch x \<and> id_epoch x \<le> r + unat (dce_count (dce_set_pid k pr d))" using kn ie le by (auto simp: dce_known_def)
    fix k' assume v: "dk_valid (dce_set_pid k pr d) k'"
    then show "pdr_known (er_pid (dce_get k' (dce_set_pid k pr d))) {x \<in> ?K. id_epoch x = unat (er_epoch (dce_get k' (dce_set_pid k pr d)))}"
      using S S' [of k'] t(2) kn k by (cases "k' = k") (simp_all add: dce_get_set dce_known_def)
  qed
  moreover have "?id \<notin> K" if ok using t(3) [OF that] ie(1) by simp
  ultimately show thesis using that t(1) by blast
qed

section \<open>What decryption does\<close>

lemma dce_known_replace:
  assumes inv: "dce_inv env se re s r d" and kn: "dce_known r d K" and n: "r < n" "n < r + unat (dce_count d)" "n + unat (dce_count d) < 65536"
  shows "\<exists>d'. replace_update_recv_key env (of_nat n) d = (Inr (), d') \<and> dce_inv env se re (max s n) n d' \<and> dce_known n d' K
    \<and> dce_count d' = dce_count d \<and> dce_cipher d' = dce_cipher d"
proof -
  let ?m = "unat (dce_count d)"
  obtain d' fs where d': "replace_update_recv_key env (of_nat n) d = (Inr (), d')" "dce_inv env se re (max s n) n d'"
    "dce_count d' = dce_count d" "dce_cipher d' = dce_cipher d" "er_pid (decrypt_ctx d') = er_pid (future_keys d ! (n - Suc r))" "retiring_ctx d' = decrypt_ctx d"
    "future_keys d' = drop (n - r) (future_keys d) @ fs" "\<forall>c\<in>set fs. er_pid c = pdr_init 8 True"
    using replace_recv_ok [OF inv n] by blast
  have l: "length (future_keys d) = ?m" using er_epoch_future(2) [OF inv, of "n - Suc r"] n by simp
  have pid: "pdr_known (er_pid (dce_get k d)) {x \<in> K. id_epoch x = unat (er_epoch (dce_get k d))}" if "dk_valid d k" for k
    using kn that by (simp add: dce_known_def)
  have e: "unat (er_epoch (decrypt_ctx d')) = n" "unat (er_epoch (decrypt_ctx d)) = r" using er_epoch_current [OF d'(2)] er_epoch_current [OF inv] .
  have "pdr_known (er_pid (dce_get k d')) {x \<in> K. id_epoch x = unat (er_epoch (dce_get k d'))}" if v: "dk_valid d' k" for k
  proof (cases k)
    case DK_CURRENT
    then show ?thesis using pid [of "DK_FUTURE (n - Suc r)"] er_epoch_future(1) [OF inv, of "n - Suc r"] n l e d'(5) by (simp add: dk_valid_def)
  next
    case DK_RETIRING
    then show ?thesis using pid [of DK_CURRENT] d'(6) by (simp add: dk_valid_def)
  next
    case (DK_FUTURE i)
    have ei: "unat (er_epoch (future_keys d' ! i)) = Suc (n + i)" using dk_epoch [OF d'(2) v] DK_FUTURE by simp
    show ?thesis
    proof (cases "i + (n - r) < ?m")
      case True
      have "future_keys d' ! i = future_keys d ! (i + (n - r))" using True l d'(7) n by (simp add: nth_append add.commute)
      then show ?thesis using pid [of "DK_FUTURE (i + (n - r))"] True l DK_FUTURE by (simp add: dk_valid_def)
    next
      case False
      have "\<not> i < length (drop (n - r) (future_keys d))" using False l by simp
      then have "future_keys d' ! i \<in> set fs" using v DK_FUTURE d'(7) by (auto simp: dk_valid_def nth_append)
      moreover have "{x \<in> K. id_epoch x = unat (er_epoch (dce_get k d'))} = {}" using kn False n ei DK_FUTURE by (auto simp: dce_known_def)
      ultimately show ?thesis using d'(8) DK_FUTURE pdr_known_init [of True] by (simp only: dce_get.simps)
    qed
  qed
  moreover have "\<forall>x\<in>K. 0 < id_epoch x \<and> id_epoch x \<le> n + ?m" using kn n(1) by (auto simp: dce_known_def)
  ultimately show ?thesis using d' unfolding dce_known_def by auto
qed

definition ep_ok :: "epoch_env \<Rightarrow> byte list \<Rightarrow> byte list \<Rightarrow> nat \<Rightarrow> nat \<Rightarrow> aead_epoch \<Rightarrow> bool" where
  "ep_ok env se re s r c \<longleftrightarrow> dce_inv env se re s r (ep_dce c) \<and> work_ok (work_encrypt c) \<and> work_ok (work_decrypt c)"

text \<open>What the holder of the secret of epoch 1 opens: the packet names the epoch, which gives the key.\<close>

definition ep_message :: "epoch_env \<Rightarrow> alg_type \<Rightarrow> byte list \<Rightarrow> byte list \<Rightarrow> byte list \<Rightarrow> byte list option" where
  "ep_message env cipher re op pkt =
     ctx_open env (recv_at env cipher re (unat (pd_get_epoch (ep_pid (take 8 pkt))))) op (take 8 pkt) (drop 8 pkt)"

lemma lookup_valid:
  assumes inv: "dce_inv env se re s r d" and k: "lookup_decrypt_key e d = Inr (Some k)"
  shows "dk_valid d k" "er_epoch (dce_get k d) = e" "e \<noteq> 0" "er_ctx (dce_get k d) = recv_at env (dce_cipher d) re (unat e)"
    "unat e + unat (dce_count d) < 65535 \<or> unat e \<le> r"
proof -
  have u: "unat e < 65536" using unsigned_less [of e, where 'a = nat] by simp
  have k': "lookup_decrypt_key (of_nat (unat e)) d = Inr (Some k)" using k by simp
  show "er_ctx (dce_get k d) = recv_at env (dce_cipher d) re (unat e)" by (rule lookup_key_context [OF inv u k'])
  note eq = lookup_key_eq [OF inv u, unfolded k']
  have r: "0 < r" using inv by (simp add: dce_inv_def dce_receives_def)
  have l: "unat e - Suc r < length (future_keys d)" if "r < unat e" "unat e \<le> r + unat (dce_count d)"
    using er_epoch_future(2) [OF inv, of "unat e - Suc r"] that by simp
  show v: "dk_valid d k" "e \<noteq> 0" "unat e + unat (dce_count d) < 65535 \<or> unat e \<le> r"
    using eq l r dk_epoch [OF inv, of DK_RETIRING] by (auto simp: dk_valid_def split: if_splits)
  have "unat (er_epoch (dce_get k d)) = unat e" using eq dk_epoch [OF inv v(1)] by (auto split: if_splits)
  then show "er_epoch (dce_get k d) = e" by (simp only: word_unat_eq_iff)
qed

definition ep_ready :: "epoch_env \<Rightarrow> alg_type \<Rightarrow> byte list \<Rightarrow> aead_epoch \<Rightarrow> nat set \<Rightarrow> bool" where
  "ep_ready env cipher re c K \<longleftrightarrow> (\<exists>se s r. ep_ok env se re s r c \<and> dce_known r (ep_dce c) K \<and> dce_cipher (ep_dce c) = cipher)"

lemma ep_readyI: "ep_ok env se re s r c \<Longrightarrow> dce_known r (ep_dce c) K \<Longrightarrow> dce_cipher (ep_dce c) = cipher \<Longrightarrow> ep_ready env cipher re c K"
  unfolding ep_ready_def by blast

text \<open>Decryption with a key that was found: accepted, or refused, or the jump to the last future key.\<close>

lemma ep_open_ready:
  assumes c: "ep_ok env se re s r c" "dce_known r (ep_dce c) K" and b: "work_ok b" and op: "length op = 4"
    and k: "lookup_decrypt_key (pd_get_epoch pid) (ep_dce c) = Inr (Some k)" and o: "ep_open env k pid (op @ pb) now b c = (rs, b', c')"
  defines "cph \<equiv> dce_cipher (ep_dce c)" and "e \<equiv> unat (pd_get_epoch pid)"
  defines "msg \<equiv> ctx_open env (recv_at env cph re e) op pb (content b)"
  shows "rs = Inr ERR_SUCCESS \<and> msg = Some (content b') \<and> work_ok b' \<and> unat (pd_id pid) \<notin> K \<and> ep_ready env cph re c' (insert (unat (pd_id pid)) K)
    \<or> rs = Inr REPLAY_ERROR \<and> msg \<noteq> None \<and> ep_ready env cph re c' K
    \<or> (\<exists>x. rs = Inl (epoch_key_exception x)) \<and> msg \<noteq> None \<and> e = r + unat (dce_count (ep_dce c))
    \<or> ep_refused rs \<and> c' = c\<lparr>work_decrypt := work_decrypt c'\<rparr> \<and> ep_ready env cph re c' K
      \<and> (b_size b \<le> fc_payload (de_frame (ev_dc env) ! DECRYPT_WORK) \<longrightarrow> msg = None)"
proof -
  have inv: "dce_inv env se re s r (ep_dce c)" and w: "work_ok (work_encrypt c)" "work_ok (work_decrypt c)" using c(1) by (simp_all add: ep_ok_def)
  have env: "epoch_env_ok env cph" "length re = 32" using inv by (simp_all add: dce_inv_def cph_def)
  have dcenv: "dc_env_ok (ev_dc env)" using env by (simp add: epoch_env_ok_def)
  note lk = lookup_valid [OF inv k]
  have e0: "0 < e" using lk(3) by (simp add: e_def unat_gt_0)
  have x: "er_ctx (dce_get k (ep_dce c)) = recv_at env cph re e" using lk(4) by (simp add: e_def cph_def)
  then obtain key where key: "ax_key (ec_cipher (er_ctx (dce_get k (ep_dce c)))) = Some key" using recv_at_props(3) [OF env e0] by auto
  obtain ok pr where t: "pdr_test_add 8 30 pid now (er_pid (dce_get k (ep_dce c))) = (ok, pr)"
    "dce_known r (dce_set_pid k pr (ep_dce c)) (if ok then insert (unat (pd_id pid)) K else K)" "ok \<Longrightarrow> unat (pd_id pid) \<notin> K"
    by (rule dce_known_test_add [OF inv c(2) lk(1-3), where now = now]) blast
  let ?d1 = "dce_set_pid k pr (ep_dce c)"
  have inv1: "dce_inv env se re s r ?d1" using inv by (simp add: dce_inv_set_pid)
  have e1: "er_epoch (dce_get k ?d1) = of_nat e" using lk(1,2) by (simp add: dce_get_set e_def)
  have ready: "ep_ready env cph re (c\<lparr>work_decrypt := y, ep_dce := d\<rparr>) K'"
    if "dce_inv env se re s' r' d" "dce_known r' d K'" "dce_cipher d = cph" "work_ok y" for s' r' d K' y
    using that w(1) by (intro ep_readyI [of env se re s' r']) (simp_all add: ep_ok_def)
  from ep_open_outcome [OF dcenv b w(2) op key t(1), of pb] show ?thesis
  proof (elim disjE exE conjE)
    fix q b1 w1
    assume a: "work_ok w1" "ep_refused q" "ep_open env k pid (op @ pb) now b c = (q, b1, c\<lparr>work_decrypt := w1\<rparr>)"
      "b_size b \<le> fc_payload (de_frame (ev_dc env) ! DECRYPT_WORK) \<longrightarrow> ctx_open env (er_ctx (dce_get k (ep_dce c))) op pb (content b) = None"
    have "ep_ready env cph re (c\<lparr>work_decrypt := w1\<rparr>) K" using ready [OF inv c(2) _ a(1)] by (simp add: cph_def)
    then show ?thesis using a o x by (auto simp: msg_def)
  next
    fix w1
    assume a: "work_ok w1" "ctx_open env (er_ctx (dce_get k (ep_dce c))) op pb (content b) = Some (content w1)"
      and q: "ep_open env k pid (op @ pb) now b c =
        (if \<not> ok then (Inr REPLAY_ERROR, buf_reset_size b, c\<lparr>work_decrypt := w1, ep_dce := ?d1\<rparr>)
         else case replace_update_recv_key env (er_epoch (dce_get k ?d1)) ?d1 of
                (Inl e, d') \<Rightarrow> (Inl e, b, c\<lparr>work_decrypt := w1, ep_dce := d'\<rparr>)
              | (Inr _, d') \<Rightarrow> (Inr ERR_SUCCESS, w1, c\<lparr>work_decrypt := b, ep_dce := d'\<rparr>))"
    have m: "msg = Some (content w1)" using a(2) x by (simp add: msg_def)
    have le: "e \<le> r + unat (dce_count ?d1)" using dk_epoch [OF inv lk(1)] lk(2) by (auto simp: e_def split: decrypt_key.splits)
    consider "\<not> ok" | "ok" "e \<le> r" | "ok" "r < e" "e < r + unat (dce_count ?d1)" | "ok" "r < e" "e = r + unat (dce_count ?d1)"
      using le by (metis le_neq_implies_less not_le_imp_less)
    then show ?thesis
    proof cases
      case 1
      then show ?thesis using q o m ready [OF inv1 _ _ a(1)] t(2) by (auto simp: cph_def)
    next
      case 2
      have "of_nat e \<le> er_epoch (decrypt_ctx ?d1)" using er_epoch_current [OF inv1] 2(2) by (simp add: word_le_nat_alt e_def)
      then have "replace_update_recv_key env (er_epoch (dce_get k ?d1)) ?d1 = (Inr (), ?d1)" by (simp add: replace_update_recv_key_def e1)
      then show ?thesis using q o m a(1) 2 t(2,3) ready [OF inv1 _ _ b] by (auto simp: cph_def)
    next
      case 3
      have n: "e + unat (dce_count ?d1) < 65536" using lk(5) 3(2) by (simp add: e_def)
      obtain d' where "replace_update_recv_key env (of_nat e) ?d1 = (Inr (), d')" "dce_inv env se re (max s e) e d'"
        "dce_known e d' (insert (unat (pd_id pid)) K)" "dce_cipher d' = dce_cipher ?d1"
        using dce_known_replace [OF inv1 _ 3(2,3) n] t(2) 3(1) by auto
      then show ?thesis using q o m a(1) 3(1) t(3) ready [of "max s e" e d' "insert (unat (pd_id pid)) K" b] b by (simp add: e1 cph_def)
    next
      case 4
      obtain d' where "replace_update_recv_key env (of_nat e) ?d1 = (Inl (epoch_key_exception ''Epoch key generation and future keys mismatch detected''), d')"
        using replace_recv_last [OF inv1] 4(2,3) by auto
      then show ?thesis using q o m 4 by (simp add: e1)
    qed
  qed
qed

section \<open>Runs\<close>

abbreviation pkt_id :: "buffer \<Rightarrow> nat" where
  "pkt_id buf \<equiv> unat (be_word (take 8 (content buf)) :: u64)"

lemma ep_decrypt_ready:
  assumes c: "ep_ready env cph re c K" and b: "work_ok buf" "0 < b_size buf" and op: "length op = 4" and d: "ep_decrypt env now (Some op) buf c = (rs, b', c')"
  defines "msg \<equiv> ep_message env cph re op (content buf)"
  shows "rs = Inr ERR_SUCCESS \<and> msg = Some (content b') \<and> pkt_id buf \<notin> K \<and> ep_ready env cph re c' (insert (pkt_id buf) K)
    \<or> rs = Inr REPLAY_ERROR \<and> msg \<noteq> None \<and> ep_ready env cph re c' K
    \<or> (\<exists>x. rs = Inl (epoch_key_exception x)) \<and> msg \<noteq> None
    \<or> ep_refused rs \<and> c' = c\<lparr>work_decrypt := work_decrypt c'\<rparr> \<and> ep_ready env cph re c' K"
proof -
  obtain se s r where c': "ep_ok env se re s r c" "dce_known r (ep_dce c) K" "dce_cipher (ep_dce c) = cph" using c by (auto simp: ep_ready_def)
  have rf: "ep_refused (Inr DECRYPT_ERROR)" by (simp add: ep_refused_def)
  have wf: "buf_wf buf" using b by (simp add: work_ok_def)
  show ?thesis
  proof (cases "b_size buf < 8")
    case True
    then show ?thesis using d b(2) c rf by (auto simp: ep_decrypt_def pd_size_def)
  next
    case False
    let ?pb = "take 8 (content buf)" and ?b1 = "buf\<lparr>b_offset := b_offset buf + 8, b_size := b_size buf - 8\<rparr>"
    let ?e = "pd_get_epoch (ep_pid ?pb)"
    have eq: "ep_decrypt env now (Some op) buf c =
      (case lookup_decrypt_key ?e (ep_dce c) of
          Inl e \<Rightarrow> (Inl e, ?b1, c)
        | Inr None \<Rightarrow> (Inr DECRYPT_ERROR, ?b1, c)
        | Inr (Some k) \<Rightarrow> ep_open env k (ep_pid ?pb) (op @ ?pb) now ?b1 c)"
      using ep_decrypt_lookup [OF wf _ op, of env now c] False by (simp add: Let_def)
    have b1: "work_ok ?b1" "content ?b1 = drop 8 (content buf)" using b wf_consume [OF wf, of 8] content_consume [of buf 8] False by (simp_all add: work_ok_def)
    have inv: "dce_inv env se re s r (ep_dce c)" using c'(1) by (simp add: ep_ok_def)
    obtain ko where ko: "lookup_decrypt_key ?e (ep_dce c) = Inr ko"
      using lookup_key_eq [OF inv, of "unat ?e"] unsigned_less [of ?e, where 'a = nat] by auto
    show ?thesis
    proof (cases ko)
      case None
      then show ?thesis using d eq ko c rf by simp
    next
      case (Some k)
      then have "ep_open env k (ep_pid ?pb) (op @ ?pb) now ?b1 c = (rs, b', c')" using d eq ko by simp
      from ep_open_ready [OF c'(1,2) b1(1) op ko [unfolded Some] this] show ?thesis
        using b1(2) c'(3) by (auto simp: msg_def ep_message_def)
    qed
  qed
qed

text \<open>Runs of the receiver, up to the exception of a jump to the last future key.\<close>

definition ep_step :: "epoch_env \<Rightarrow> aead_epoch option \<Rightarrow> dc_input \<Rightarrow> bool \<times> aead_epoch option" where
  "ep_step env st x =
     (case st of
        None \<Rightarrow> (False, None)
      | Some c \<Rightarrow>
          (case x of (now, op32, buf) \<Rightarrow>
             (case ep_decrypt env now op32 buf c of
                (Inl (epoch_key_exception _), _, _) \<Rightarrow> (False, None)
              | (r, _, c') \<Rightarrow> (0 < b_size buf \<and> r = Inr ERR_SUCCESS, Some c'))))"

definition ep_input_id :: "'c \<Rightarrow> dc_input \<Rightarrow> nat" where
  "ep_input_id c x = pkt_id (snd (snd x))"

definition ep_input_ok :: "dc_input \<Rightarrow> bool" where
  "ep_input_ok x \<longleftrightarrow> work_ok (snd (snd x)) \<and> (\<exists>op. fst (snd x) = Some op \<and> length op = 4)"

definition ep_run_ready :: "epoch_env \<Rightarrow> alg_type \<Rightarrow> byte list \<Rightarrow> aead_epoch option \<Rightarrow> nat set \<Rightarrow> bool" where
  "ep_run_ready env cph re st K \<longleftrightarrow> (case st of None \<Rightarrow> True | Some c \<Rightarrow> ep_ready env cph re c K)"

interpretation epoch: fresh_steps "ep_step env" ep_input_id "ep_run_ready env cph re" ep_input_ok for env cph re
proof
  fix st K x r st'
  assume a: "ep_run_ready env cph re st K" "ep_input_ok x" "ep_step env st x = (r, st')"
  obtain now op buf where x: "x = (now, Some op, buf)" "work_ok buf" "length op = 4" using a(2) by (cases x) (auto simp: ep_input_ok_def)
  show "\<exists>K'. ep_run_ready env cph re st' K' \<and> K \<subseteq> K' \<and> (r \<longrightarrow> ep_input_id st x \<in> K' - K)"
  proof (cases st)
    case None
    then show ?thesis using a(3) by (auto simp: ep_step_def ep_run_ready_def)
  next
    case (Some c)
    have c: "ep_ready env cph re c K" using a(1) Some by (simp add: ep_run_ready_def)
    obtain rs b' c' where d: "ep_decrypt env now (Some op) buf c = (rs, b', c')" by (metis prod_cases3)
    show ?thesis
    proof (cases "b_size buf = 0")
      case True
      then have "st' = Some c" "\<not> r" using a(3) Some x(1) by (auto simp: ep_step_def ep_decrypt_def)
      then show ?thesis using c by (auto simp: ep_run_ready_def)
    next
      case False
      then have z: "0 < b_size buf" by simp
      from ep_decrypt_ready [OF c x(2) z x(3) d] show ?thesis
        using a(3) Some x(1) d z
        by (elim disjE conjE exE) (auto simp: ep_step_def ep_run_ready_def ep_input_id_def ep_refused_def split: sum.splits exn.splits)
    qed
  qed
qed

section \<open>Encryption\<close>

lemma ep_seal_ok:
  assumes env: "dc_env_ok (ev_dc env)" and k: "ax_key ax = Some key" and s: "al_seal (de_lib (ev_dc env)) key iv ad input = Some (ct, t)"
    and w: "work_ok w" "b_size w = 0" "b_offset w + length input + AUTH_TAG_LEN \<le> b_capacity w"
  shows "\<exists>w' u. ep_seal env iv ad input w ax = Inr (w', ax\<lparr>ax_usage := u\<rparr>) \<and> work_ok w' \<and> content w' = ct @ t \<and> b_offset w' = b_offset w"
proof -
  have len: "length ct = length input" "length t = 16" using dc_env_seal [OF env s] by (simp_all add: AUTH_TAG_LEN_def)
  let ?n = "length input"
  have bw: "buf_wf w" using w(1) by (simp add: work_ok_def)
  have w1: "buf_write_alloc (de_junk (ev_dc env)) ?n w = Inr (w\<lparr>b_size := ?n\<rparr>)" "buf_wf (w\<lparr>b_size := ?n\<rparr>)"
    using buf_write_alloc_fits [OF bw, of ?n] w by simp_all
  let ?w2 = "w\<lparr>b_size := ?n + 16\<rparr>"
  have w2: "buf_write_alloc (de_junk (ev_dc env)) AUTH_TAG_LEN (w\<lparr>b_size := ?n\<rparr>) = Inr ?w2" "buf_wf ?w2"
    using buf_write_alloc_fits [OF w1(2), of AUTH_TAG_LEN] w by (simp_all add: AUTH_TAG_LEN_def)
  have l2: "length (content ?w2) = ?n + 16" using length_content [OF w2(2)] by simp
  have f: "0 + length (ct @ t) \<le> b_size ?w2" "0 + length ct \<le> b_size ?w2" using len by simp_all
  obtain x where x: "buf_poke (b_offset ?w2 + 0) (ct @ t) ?w2 = Inr x" "buf_wf x" "content x = overwrite 0 (ct @ t) (content ?w2)"
    "b_offset x = b_offset ?w2" "b_flags x = b_flags ?w2"
    using buf_poke_window [OF w2(2) f(1)] by blast
  obtain y where y: "buf_poke (b_offset ?w2 + 0) ct ?w2 = Inr y" "buf_wf y" "content y = overwrite 0 ct (content ?w2)"
    "b_offset y = b_offset ?w2" "b_size y = b_size ?w2" "b_flags y = b_flags ?w2"
    using buf_poke_window [OF w2(2) f(2)] by blast
  have "?n + length t \<le> b_size y" using y(5) len by simp
  then obtain z where z: "buf_poke (b_offset y + ?n) t y = Inr z" "buf_wf z" "content z = overwrite ?n t (content y)" "b_offset z = b_offset y" "b_flags z = b_flags y"
    using buf_poke_window [OF y(2)] by blast
  have "content x = ct @ t" "content z = ct @ t" using x(3) y(3) z(3) len l2 by (simp_all add: overwrite_def)
  then show ?thesis using w1(1) w2(1) x y z s k len w(1,2)
    by (cases "de_mbedtls (ev_dc env)") (auto simp: ep_seal_def ax_encrypt_def AUTH_TAG_LEN_def work_ok_def Let_def)
qed

text \<open>Packet IDs with an epoch.\<close>

lemma pds_limit_wide: "pd_wide p \<Longrightarrow> pds_at_limit p \<longleftrightarrow> unat (pd_id p) mod 2 ^ 48 = 2 ^ 48 - 1"
proof -
  assume w: "pd_wide p"
  have m: "epoch_packet_id_mask = mask 48" "epoch_packet_id_max = mask 48" by (simp_all add: epoch_packet_id_mask_def epoch_packet_id_max_def mask_eq_exp_minus_1)
  have "pds_at_limit p \<longleftrightarrow> take_bit 48 (pd_id p) = mask 48" using w unfolding pds_at_limit_def m by (simp add: take_bit_eq_mask)
  also have "\<dots> \<longleftrightarrow> unat (take_bit 48 (pd_id p)) = unat (mask 48 :: u64)" by (simp only: word_unat_eq_iff)
  also have "unat (take_bit 48 (pd_id p)) = unat (pd_id p) mod 2 ^ 48" by (simp add: take_bit_eq_mod unat_mod)
  also have "unat (mask 48 :: u64) = 2 ^ 48 - 1" by (simp add: mask_eq_exp_minus_1)
  finally show ?thesis .
qed

lemma pds_next_epoch:
  assumes w: "pd_wide p" and n: "unat (pd_id p) mod 2 ^ 48 + 2 < 2 ^ 48"
  obtains p' where "pds_next p = (Inr p', p')" "pd_wide p'" "unat (pd_id p') = unat (pd_id p) + 1" "id_epoch (unat (pd_id p')) = id_epoch (unat (pd_id p))"
proof -
  let ?p = "p\<lparr>pd_id := pd_id p + 1\<rparr>"
  have lt: "unat (pd_id p) < 2 ^ 64" using unsigned_less [of "pd_id p", where 'a = nat] by simp
  have "unat (pd_id p) \<noteq> 2 ^ 64 - 1" using n by auto
  with lt have "unat (pd_id p) + 1 < 2 ^ 64" by simp
  then have u: "unat (pd_id p + 1) = unat (pd_id p) + 1" by (intro unat_inc_bound) simp
  have md: "(unat (pd_id p) + 1) mod 2 ^ 48 = unat (pd_id p) mod 2 ^ 48 + 1" using n by (simp add: mod_Suc)
  have "\<not> pds_at_limit ?p" using pds_limit_wide [of ?p] w n u md by simp
  moreover have "id_epoch (unat (pd_id p) + 1) = id_epoch (unat (pd_id p))"
    using md by (simp add: div_Suc)
  ultimately show thesis using that [of ?p] w u by (simp add: pds_next_def Let_def)
qed

lemma pds_ctor_epoch:
  assumes "s < 65536"
  shows "unat (pd_id (pds_ctor True (of_nat s))) = s * 2 ^ 48" "pd_wide (pds_ctor True (of_nat s))"
proof -
  have u: "unat (ucast (of_nat s :: u16) :: u64) = s" using assms u16_of_nat [OF assms] by (simp add: unsigned_ucast_eq take_bit_eq_mod)
  have "unat (push_bit 48 (ucast (of_nat s :: u16) :: u64)) = (s * 2 ^ 48) mod 2 ^ 64"
    unfolding push_bit_eq_mult unat_word_ariths u by simp
  also have "\<dots> = s * 2 ^ 48" using assms by simp
  finally show "unat (pd_id (pds_ctor True (of_nat s))) = s * 2 ^ 48" "pd_wide (pds_ctor True (of_nat s))" by (simp_all add: pds_ctor_def)
qed

definition send_limit :: "dce \<Rightarrow> bool" where
  "send_limit d \<longleftrightarrow> usage_limit_reached (ax_usage (ec_cipher (es_ctx (encrypt_ctx d)))) \<or> pds_at_limit (es_pid (encrypt_ctx d))"

lemma check_send_ok:
  assumes inv: "dce_inv env se re s r d" and s: "send_limit d \<Longrightarrow> s < 65535"
  defines "s2 \<equiv> if send_limit d then Suc s else s"
  shows "\<exists>d2. check_send_iterate env d = (Inr (), d2) \<and> dce_inv env se re s2 r d2 \<and> dce_cipher d2 = dce_cipher d
    \<and> es_pid (encrypt_ctx d2) = (if send_limit d then pds_ctor True (of_nat s2) else es_pid (encrypt_ctx d))"
proof -
  have env: "epoch_env_ok env (dce_cipher d)" "length se = 32" and snd: "dce_sends env se s d" and rcv: "dce_receives env re r d" "length re = 32"
    using inv by (simp_all add: dce_inv_def)
  have se: "unat (ek_epoch (dce_send d)) = s" using snd ek_epoch_at [OF env, of s] by (simp add: dce_sends_def)
  show ?thesis
  proof (cases "send_limit d")
    case True
    let ?d = "d\<lparr>dce_send := ek_at env se (Suc s), encrypt_ctx := \<lparr>es_ctx = recv_at env (dce_cipher d) se (Suc s), es_pid = pds_ctor True (of_nat (Suc s))\<rparr>\<rparr>"
    have "ek_epoch (dce_send d) \<noteq> 0xffff" using se s [OF True] by auto
    then have "check_send_iterate env d = (Inr (), ?d)"
      using True iterate_send_ok [OF env snd s [OF True]] unfolding check_send_iterate_def send_limit_def by simp
    moreover have "dce_sends env se (Suc s) ?d" using s [OF True] by (intro dce_sends_fresh) simp_all
    moreover have "dce_receives env re r ?d" using rcv(1) by (simp add: dce_receives_def)
    ultimately show ?thesis using True env rcv(2) by (intro exI [of _ ?d]) (simp add: dce_inv_def s2_def del: of_nat_Suc)
  next
    case False
    then have "check_send_iterate env d = (Inr (), d)" by (auto simp: check_send_iterate_def send_limit_def)
    then show ?thesis using False inv by (auto simp: s2_def)
  qed
qed

text \<open>A packet that is sent: packet ID, ciphertext, tag.\<close>

lemma ep_encrypt_sent:
  assumes c: "ep_ok env se re s r c" and lib: "seal_total (ev_dc env)" and lim: "send_limit (ep_dce c) \<Longrightarrow> s < 65535"
    and buf: "work_ok buf" "0 < b_size buf" "b_size buf \<le> fc_payload (de_frame (ev_dc env) ! ENCRYPT_WORK)" and op: "length op = 4"
  defines "s2 \<equiv> if send_limit (ep_dce c) then Suc s else s"
  defines "x \<equiv> recv_at env (dce_cipher (ep_dce c)) se s2"
    and "p0 \<equiv> if send_limit (ep_dce c) then pds_ctor True (of_nat s2) else es_pid (encrypt_ctx (ep_dce c))"
  assumes p: "pds_next p0 = (Inr p, p)" "pd_wide p"
  shows "\<exists>wn b c1 key ct t. ep_encrypt env (Some op) buf c = (Inr wn, b, c1) \<and> work_ok b \<and> content b = be_bytes 8 (pd_id p) @ ct @ t
    \<and> ax_key (ec_cipher x) = Some key
    \<and> al_seal (de_lib (ev_dc env)) key (ec_calculate_iv (be_bytes 8 (pd_id p)) x) (op @ be_bytes 8 (pd_id p)) (content buf) = Some (ct, t)
    \<and> ep_ok env se re s2 r c1 \<and> dce_cipher (ep_dce c1) = dce_cipher (ep_dce c) \<and> es_pid (encrypt_ctx (ep_dce c1)) = p"
proof -
  have inv: "dce_inv env se re s r (ep_dce c)" and w0: "work_ok (work_encrypt c)" "work_ok (work_decrypt c)" using c by (simp_all add: ep_ok_def)
  have env: "dc_env_ok (ev_dc env)" using inv by (simp add: dce_inv_def epoch_env_ok_def)
  obtain d2 where d2: "check_send_iterate env (ep_dce c) = (Inr (), d2)" "dce_inv env se re s2 r d2" "dce_cipher d2 = dce_cipher (ep_dce c)"
    "es_pid (encrypt_ctx d2) = p0"
    using check_send_ok [OF inv lim] unfolding s2_def p0_def by blast
  have snd: "dce_sends env se s2 d2" using d2(2) by (simp add: dce_inv_def)
  obtain u where ex: "es_ctx (encrypt_ctx d2) = x\<lparr>ec_cipher := (ec_cipher x)\<lparr>ax_usage := u\<rparr>\<rparr>" using snd d2(3) by (auto simp: dce_sends_def x_def)
  obtain key where key: "ax_key (ec_cipher x) = Some key"
    using recv_at_props(3) [of env "dce_cipher d2" se s2] d2(2,3) snd by (auto simp: x_def dce_inv_def dce_sends_def)
  let ?pb = "be_bytes 8 (pd_id p)"
  obtain h0 where h0: "ep_header env (Some op) = Inr h0" "buf_wf h0" "content h0 = op" "b_offset h0 = 0" "b_size h0 = 4" "b_capacity h0 = 12"
    by (rule ep_header_ok [OF op, of env])
  obtain h where h: "buf_write (de_junk (ev_dc env)) ?pb h0 = Inr h" "content h = op @ ?pb"
    by (rule buf_write_fits [OF h0(2), of ?pb "de_junk (ev_dc env)"]) (use h0 in simp_all)
  have wn: "pds_write_next (de_junk (ev_dc env)) p0 h0 = (Inr h, p)" using p h(1) by (simp add: pds_write_next_def pd_write_def)
  obtain w where w: "dc_prepare (ev_dc env) ENCRYPT_WORK (work_encrypt c) = Inr w" "work_ok w" "b_size w = 0" "24 \<le> b_offset w"
    "b_offset w + fc_payload (de_frame (ev_dc env) ! ENCRYPT_WORK) + AUTH_TAG_LEN \<le> b_capacity w"
    by (rule dc_prepare_ok [OF env w0(1), of ENCRYPT_WORK]) (simp_all add: ENCRYPT_WORK_def N_ALIGN_CONTEXTS_def)
  have bc: "length (content buf) = b_size buf" using buf(1) by (simp add: work_ok_def)
  have room: "b_offset w + length (content buf) + AUTH_TAG_LEN \<le> b_capacity w" using w(5) buf(3) bc by simp
  have mx: "\<not> buf_max_size w < b_size buf" using room bc w(2) by (simp add: work_ok_def buf_max_size_exact)
  have iv: "ec_calculate_iv ?pb (es_ctx (encrypt_ctx d2)) = ec_calculate_iv ?pb x" using ex by (simp add: ec_calculate_iv_def)
  obtain ct t where s: "al_seal (de_lib (ev_dc env)) key (ec_calculate_iv ?pb x) (op @ ?pb) (content buf) = Some (ct, t)"
    using lib by (fastforce simp: seal_total_def)
  have k2: "ax_key (ec_cipher (es_ctx (encrypt_ctx d2))) = Some key" using key ex by simp
  obtain w' v where w': "ep_seal env (ec_calculate_iv ?pb x) (op @ ?pb) (content buf) w (ec_cipher (es_ctx (encrypt_ctx d2))) = Inr (w', (ec_cipher (es_ctx (encrypt_ctx d2)))\<lparr>ax_usage := v\<rparr>)"
      "work_ok w'" "content w' = ct @ t" "b_offset w' = b_offset w"
    using ep_seal_ok [OF env k2 s w(2,3) room] by blast
  have wf: "buf_wf w'" using w'(2) by (simp add: work_ok_def)
  have "length ?pb + b_size w' \<le> b_capacity w'" using w'(4) w(4) wf by (simp add: buf_wf_def)
  then obtain b where b: "buf_prepend ?pb w' = Inr b" using buf_prepend_room [OF wf] by blast
  have bok: "work_ok b" "content b = ?pb @ ct @ t" using buf_prepend_Inr [OF wf b] w'(2,3) by (simp_all add: sz_max_def work_ok_def)
  let ?x = "(encrypt_ctx d2)\<lparr>es_pid := p, es_ctx := (es_ctx (encrypt_ctx d2))\<lparr>ec_cipher := (ec_cipher (es_ctx (encrypt_ctx d2)))\<lparr>ax_usage := v\<rparr>\<rparr>\<rparr>"
  let ?c1 = "c\<lparr>ep_dce := d2\<lparr>encrypt_ctx := ?x\<rparr>, work_encrypt := buf\<rparr>"
  have "ep_encrypt env (Some op) buf c = (Inr (should_renegotiate (ep_dce ?c1)), b, ?c1)"
    using buf(2) d2(1,4) h0(1) wn w(1) mx h(2) op iv w'(1) b by (simp add: ep_encrypt_def Let_def)
  moreover have "dce_sends env se s2 (d2\<lparr>encrypt_ctx := ?x\<rparr>)" using snd ex d2(3) by (auto simp: dce_sends_def x_def)
  then have "ep_ok env se re s2 r ?c1" using d2(2) w0(2) buf(1) by (simp add: ep_ok_def dce_inv_def dce_receives_def)
  ultimately show ?thesis using bok key s d2(3) by (intro exI [of _ "should_renegotiate (ep_dce ?c1)"] exI [of _ b] exI [of _ ?c1] exI [of _ key] exI [of _ ct] exI [of _ t]) simp
qed

section \<open>Two ends\<close>

text \<open>
  A sending end in epoch \<open>s\<close> and a receiving end in epoch \<open>r\<close> with the same secret, cipher and library, where no
  filter of the receiver has seen an ID above the last one that was sent.
\<close>

definition ep_matched :: "epoch_env \<Rightarrow> epoch_env \<Rightarrow> byte list \<Rightarrow> nat \<Rightarrow> nat \<Rightarrow> aead_epoch \<Rightarrow> aead_epoch \<Rightarrow> bool" where
  "ep_matched es er secret s r c c' \<longleftrightarrow> same_crypto es er \<and> (\<exists>re q. ep_ok es secret re s q c) \<and> (\<exists>se q. ep_ok er se secret q r c')
     \<and> dce_cipher (ep_dce c) = dce_cipher (ep_dce c') \<and> r \<le> s \<and> pd_wide (es_pid (encrypt_ctx (ep_dce c)))
     \<and> id_epoch (unat (pd_id (es_pid (encrypt_ctx (ep_dce c))))) = s
     \<and> (\<forall>k. dk_valid (ep_dce c') k \<longrightarrow> (\<exists>t. pdr_rel 8 (er_pid (dce_get k (ep_dce c'))) t)
          \<and> r_high (pdr_ring (er_pid (dce_get k (ep_dce c')))) \<le> pd_id (es_pid (encrypt_ctx (ep_dce c))))"

lemma ep_matched_next:
  assumes m: "ep_matched es er secret s r c c'" and lim: "send_limit (ep_dce c) \<Longrightarrow> s < 65535"
    and cnt: "\<not> send_limit (ep_dce c) \<Longrightarrow> unat (pd_id (es_pid (encrypt_ctx (ep_dce c)))) mod 2 ^ 48 + 2 < 2 ^ 48"
  defines "s2 \<equiv> if send_limit (ep_dce c) then Suc s else s"
  defines "p0 \<equiv> if send_limit (ep_dce c) then pds_ctor True (of_nat s2) else es_pid (encrypt_ctx (ep_dce c))"
  obtains p where "pds_next p0 = (Inr p, p)" "pd_wide p" "pd_id (es_pid (encrypt_ctx (ep_dce c))) < pd_id p" "id_epoch (unat (pd_id p)) = s2" "s2 < 65536"
proof -
  let ?p = "es_pid (encrypt_ctx (ep_dce c))"
  have s: "id_epoch (unat (pd_id ?p)) = s" "pd_wide ?p" "s < 65536" using m by (auto simp: ep_matched_def ep_ok_def dce_inv_def dce_sends_def)
  have s2: "s2 < 65536" using s(3) lim by (simp add: s2_def)
  have z: "(s * 2 ^ 48) mod 2 ^ 48 = 0" "id_epoch (s * 2 ^ 48) = s" for s :: nat by simp_all
  have p0: "pd_wide p0" "unat (pd_id p0) mod 2 ^ 48 + 2 < 2 ^ 48" "id_epoch (unat (pd_id p0)) = s2" "unat (pd_id ?p) \<le> unat (pd_id p0)"
  proof -
    have *: "unat (pd_id ?p) \<le> s2 * 2 ^ 48" if "send_limit (ep_dce c)"
    proof -
      have "unat (pd_id ?p) = s * 2 ^ 48 + unat (pd_id ?p) mod 2 ^ 48" using s(1) div_mult_mod_eq [of "unat (pd_id ?p)" "2 ^ 48"] by simp
      moreover have "unat (pd_id ?p) mod 2 ^ 48 < 2 ^ 48" by simp
      ultimately show ?thesis using that by (simp add: s2_def)
    qed
    show "pd_wide p0" "unat (pd_id p0) mod 2 ^ 48 + 2 < 2 ^ 48" "id_epoch (unat (pd_id p0)) = s2" "unat (pd_id ?p) \<le> unat (pd_id p0)"
      using cnt s(1,2) pds_ctor_epoch [OF s2] z [of s2] * unfolding p0_def by (auto simp: s2_def split: if_splits)
  qed
  obtain p where p: "pds_next p0 = (Inr p, p)" "pd_wide p" "unat (pd_id p) = unat (pd_id p0) + 1" "id_epoch (unat (pd_id p)) = id_epoch (unat (pd_id p0))"
    by (rule pds_next_epoch [OF p0(1,2)])
  have "pd_id ?p < pd_id p" using p(3) p0(4) by (simp add: word_less_nat_alt)
  then show thesis using that p p0(3) s2 by metis
qed

lemma ep_encrypt_matched:
  assumes m: "ep_matched es er secret s r c c'" and lib: "seal_total (ev_dc es)" and lim: "send_limit (ep_dce c) \<Longrightarrow> s < 65535"
    and cnt: "\<not> send_limit (ep_dce c) \<Longrightarrow> unat (pd_id (es_pid (encrypt_ctx (ep_dce c)))) mod 2 ^ 48 + 2 < 2 ^ 48"
    and buf: "work_ok buf" "0 < b_size buf" "b_size buf \<le> fc_payload (de_frame (ev_dc es) ! ENCRYPT_WORK)" and op: "length op = 4"
  defines "s2 \<equiv> if send_limit (ep_dce c) then Suc s else s" and "cph \<equiv> dce_cipher (ep_dce c')"
  shows "\<exists>wn b c1 p ct t. ep_encrypt es (Some op) buf c = (Inr wn, b, c1) \<and> work_ok b \<and> content b = be_bytes 8 (pd_id p) @ ct @ t
    \<and> length ct = b_size buf \<and> length t = 16 \<and> id_epoch (unat (pd_id p)) = s2 \<and> es_pid (encrypt_ctx (ep_dce c1)) = p \<and> pd_wide p \<and> s2 < 65536
    \<and> (\<forall>k. dk_valid (ep_dce c') k \<longrightarrow> r_high (pdr_ring (er_pid (dce_get k (ep_dce c')))) < pd_id p)
    \<and> ctx_open er (recv_at er cph secret s2) op (be_bytes 8 (pd_id p)) (ct @ t) = Some (content buf) \<and> ep_matched es er secret s2 r c1 c'"
proof -
  obtain re q se q' where ok: "ep_ok es secret re s q c" "ep_ok er se secret q' r c'" using m by (auto simp: ep_matched_def)
  have inv: "dce_inv es secret re s q (ep_dce c)" "dce_inv er se secret q' r (ep_dce c')" using ok by (simp_all add: ep_ok_def)
  have cp: "dce_cipher (ep_dce c) = cph" and same: "same_crypto es er" using m by (simp_all add: ep_matched_def cph_def)
  have env: "epoch_env_ok es cph" "epoch_env_ok er cph" "length secret = 32" "0 < s" using inv cp by (simp_all add: dce_inv_def dce_sends_def cph_def)
  have s2: "0 < s2" using env(4) by (simp add: s2_def)
  obtain p where p: "pds_next (if send_limit (ep_dce c) then pds_ctor True (of_nat s2) else es_pid (encrypt_ctx (ep_dce c))) = (Inr p, p)" "pd_wide p"
    "pd_id (es_pid (encrypt_ctx (ep_dce c))) < pd_id p" "id_epoch (unat (pd_id p)) = s2" "s2 < 65536"
    by (rule ep_matched_next [OF m lim cnt, folded s2_def])
  obtain wn b c1 key ct t where e: "ep_encrypt es (Some op) buf c = (Inr wn, b, c1)" "work_ok b" "content b = be_bytes 8 (pd_id p) @ ct @ t"
    "ax_key (ec_cipher (recv_at es cph secret s2)) = Some key"
    "al_seal (de_lib (ev_dc es)) key (ec_calculate_iv (be_bytes 8 (pd_id p)) (recv_at es cph secret s2)) (op @ be_bytes 8 (pd_id p)) (content buf) = Some (ct, t)"
    "ep_ok es secret re s2 q c1" "dce_cipher (ep_dce c1) = cph" "es_pid (encrypt_ctx (ep_dce c1)) = p"
    using ep_encrypt_sent [OF ok(1) lib lim buf op p(1,2) [unfolded s2_def]] unfolding s2_def [symmetric] cp by blast
  have x: "recv_at es cph secret s2 = recv_at er cph secret s2" by (rule recv_at_same [OF same env(1-3) s2])
  have dc: "dc_env_ok (ev_dc es)" and lb: "de_lib (ev_dc es) = de_lib (ev_dc er)" using env(1) same by (simp_all add: epoch_env_ok_def same_crypto_def)
  have sl: "length ct = b_size buf" "length t = 16" using dc_env_seal [OF dc e(5)] buf(1) by (simp_all add: AUTH_TAG_LEN_def work_ok_def)
  have "ctx_open er (recv_at er cph secret s2) op (be_bytes 8 (pd_id p)) (ct @ t) = Some (content buf)"
    using dc_env_seal [OF dc e(5)] e(4) x lb sl by (simp add: ctx_open_def)
  moreover have hi: "r_high (pdr_ring (er_pid (dce_get k (ep_dce c')))) < pd_id p" if "dk_valid (ep_dce c') k" for k
    using m that p(3) unfolding ep_matched_def by (meson order_le_less_trans)
  moreover have "ep_matched es er secret s2 r c1 c'"
  proof -
    have "\<exists>t. pdr_rel 8 (er_pid (dce_get k (ep_dce c'))) t" if "dk_valid (ep_dce c') k" for k using m that by (simp add: ep_matched_def)
    moreover have "r \<le> s2" using m by (simp add: ep_matched_def s2_def)
    ultimately show ?thesis using e(6-8) ok(2) same p(2,4) hi unfolding ep_matched_def cph_def by (auto intro: order_less_imp_le)
  qed
  ultimately show ?thesis using e(1-3,8) sl p(2,4,5) by blast
qed

text \<open>The receiver moves on to the sender's epoch; its filters have then seen the ID at most.\<close>

abbreviation seen_upto :: "dce \<Rightarrow> u64 \<Rightarrow> bool" where
  "seen_upto d x \<equiv> \<forall>k. dk_valid d k \<longrightarrow> (\<exists>t. pdr_rel 8 (er_pid (dce_get k d)) t) \<and> r_high (pdr_ring (er_pid (dce_get k d))) \<le> x"

lemma replace_seen:
  assumes inv: "dce_inv env se re s r d" and n: "r \<le> n" "n = r \<or> n < r + unat (dce_count d)" "n + unat (dce_count d) < 65536" and h: "seen_upto d x"
  shows "\<exists>d' s'. replace_update_recv_key env (of_nat n) d = (Inr (), d') \<and> dce_inv env se re s' n d' \<and> dce_cipher d' = dce_cipher d \<and> seen_upto d' x"
proof (cases "n = r")
  case True
  have "of_nat n \<le> er_epoch (decrypt_ctx d)" using er_epoch_current [OF inv] True n(3) by (simp add: word_le_nat_alt u16_of_nat)
  then have "replace_update_recv_key env (of_nat n) d = (Inr (), d)" by (simp add: replace_update_recv_key_def)
  then show ?thesis using inv h True by blast
next
  case False
  then have n': "r < n" "n < r + unat (dce_count d)" using n by simp_all
  obtain d' fs where d': "replace_update_recv_key env (of_nat n) d = (Inr (), d')" "dce_inv env se re (max s n) n d'"
    "dce_count d' = dce_count d" "dce_cipher d' = dce_cipher d" "er_pid (decrypt_ctx d') = er_pid (future_keys d ! (n - Suc r))" "retiring_ctx d' = decrypt_ctx d"
    "future_keys d' = drop (n - r) (future_keys d) @ fs" "\<forall>c\<in>set fs. er_pid c = pdr_init 8 True"
    using replace_recv_ok [OF inv n' n(3)] by blast
  have l: "length (future_keys d) = unat (dce_count d)" using er_epoch_future(2) [OF inv, of "n - Suc r"] n' by simp
  have new: "pdr_rel 8 (pdr_init 8 True) spec_init" "r_high (pdr_ring (pdr_init 8 True)) \<le> x" using pdr_rel_init [of 8 True] by (simp_all add: pdr_init_def)
  have hk: "(\<exists>t. pdr_rel 8 (er_pid (dce_get k d)) t) \<and> r_high (pdr_ring (er_pid (dce_get k d))) \<le> x" if "dk_valid d k" for k using h that by blast
  have "(\<exists>t. pdr_rel 8 (er_pid (dce_get k d')) t) \<and> r_high (pdr_ring (er_pid (dce_get k d'))) \<le> x" if v: "dk_valid d' k" for k
  proof (cases k)
    case DK_CURRENT
    then show ?thesis using hk [of "DK_FUTURE (n - Suc r)"] d'(5) n' l by (simp add: dk_valid_def)
  next
    case DK_RETIRING
    then show ?thesis using hk [of DK_CURRENT] d'(6) by (simp add: dk_valid_def)
  next
    case (DK_FUTURE i)
    show ?thesis
    proof (cases "i < length (drop (n - r) (future_keys d))")
      case True
      then have "future_keys d' ! i = future_keys d ! (n - r + i)" using d'(7) by (simp add: nth_append)
      then show ?thesis using hk [of "DK_FUTURE (n - r + i)"] True DK_FUTURE by (simp add: dk_valid_def)
    next
      case False
      then have "future_keys d' ! i \<in> set fs" using v DK_FUTURE d'(7) by (auto simp: dk_valid_def nth_append)
      then show ?thesis using d'(8) new DK_FUTURE by auto
    qed
  qed
  then show ?thesis using d' by blast
qed

lemma ep_decrypt_matched:
  assumes m: "ep_matched es er secret s r c c'" and b: "work_ok b2" "content b2 = be_bytes 8 (pd_id p) @ body"
    and sz: "b_size b2 \<le> fc_payload (de_frame (ev_dc er) ! DECRYPT_WORK)" and op: "length op = 4"
    and p: "id_epoch (unat (pd_id p)) = s" "s < 65536" "es_pid (encrypt_ctx (ep_dce c)) = p"
    and hi: "\<And>k. dk_valid (ep_dce c') k \<Longrightarrow> r_high (pdr_ring (er_pid (dce_get k (ep_dce c')))) < pd_id p"
    and win: "s = r \<or> s < r + unat (dce_count (ep_dce c'))" "s + unat (dce_count (ep_dce c')) < 65535"
    and msg: "ctx_open er (recv_at er (dce_cipher (ep_dce c')) secret s) op (be_bytes 8 (pd_id p)) body = Some out"
  shows "\<exists>b3 c3. ep_decrypt er now (Some op) b2 c' = (Inr ERR_SUCCESS, b3, c3) \<and> content b3 = out \<and> ep_matched es er secret s s c c3"
proof -
  let ?d = "ep_dce c'" and ?pb = "be_bytes 8 (pd_id p)"
  obtain se q where ok: "ep_ok er se secret q r c'" using m by (auto simp: ep_matched_def)
  have inv: "dce_inv er se secret q r ?d" and w: "work_ok (work_decrypt c')" using ok by (simp_all add: ep_ok_def)
  have rs: "r \<le> s" "dce_cipher (ep_dce c) = dce_cipher ?d" using m by (simp_all add: ep_matched_def)
  have wf: "buf_wf b2" "8 \<le> b_size b2" using b length_content [of b2] by (auto simp: work_ok_def)
  have pid: "pd_get_epoch (ep_pid ?pb) = of_nat s" using p(1,2) get_epoch_unat [of "ep_pid ?pb"] u16_of_nat [OF p(2)] by (simp add: word_unat_eq_iff)
  have "unat (er_epoch (retiring_ctx ?d)) < r" using dk_epoch [OF inv, of DK_RETIRING] by (simp add: dk_valid_def)
  then have "lookup_decrypt_key (of_nat s) ?d = Inr (Some (if s = r then DK_CURRENT else DK_FUTURE (s - Suc r)))"
    using lookup_key_eq [OF inv p(2)] rs(1) win by auto
  then obtain k where k: "lookup_decrypt_key (of_nat s) ?d = Inr (Some k)" by blast
  note lk = lookup_valid [OF inv k]
  have dcenv: "dc_env_ok (ev_dc er)" using inv by (simp add: dce_inv_def epoch_env_ok_def)
  have x: "er_ctx (dce_get k ?d) = recv_at er (dce_cipher ?d) secret s" using lk(4) u16_of_nat [OF p(2)] by simp
  obtain key where key: "ax_key (ec_cipher (er_ctx (dce_get k ?d))) = Some key" using msg x by (auto simp: ctx_open_def split: option.splits)
  obtain t where t: "pdr_rel 8 (er_pid (dce_get k ?d)) t" using m lk(1) by (auto simp: ep_matched_def)
  obtain pr t' where pr: "pdr_test_add 8 30 (ep_pid ?pb) now (er_pid (dce_get k ?d)) = (True, pr)" "pdr_rel 8 pr t'" "r_high (pdr_ring pr) = pd_id p"
    by (rule pdr_test_add_ascending [OF t, of "ep_pid ?pb" 30 now]) (use hi [OF lk(1)] in simp_all)
  let ?d1 = "dce_set_pid k pr ?d" and ?b1 = "b2\<lparr>b_offset := b_offset b2 + 8, b_size := b_size b2 - 8\<rparr>"
  have e1: "er_epoch (dce_get k ?d1) = of_nat s" using lk(1,2) by (simp add: dce_get_set)
  have seen: "seen_upto ?d1 (pd_id p)"
  proof (intro allI impI)
    fix k' assume v: "dk_valid ?d1 k'"
    then show "(\<exists>t. pdr_rel 8 (er_pid (dce_get k' ?d1)) t) \<and> r_high (pdr_ring (er_pid (dce_get k' ?d1))) \<le> pd_id p"
      using m pr(2,3) lk(1) p(3) by (cases "k = k'") (auto simp: dce_get_set ep_matched_def)
  qed
  have inv1: "dce_inv er se secret q r ?d1" using inv by (simp add: dce_inv_set_pid)
  obtain d' s' where d': "replace_update_recv_key er (of_nat s) ?d1 = (Inr (), d')" "dce_inv er se secret s' s d'" "dce_cipher d' = dce_cipher ?d" "seen_upto d' (pd_id p)"
    using replace_seen [OF inv1 rs(1) _ _ seen] win by auto
  have b1: "work_ok ?b1" "content ?b1 = body" "b_size ?b1 \<le> b_size b2" using b wf_consume [OF wf] content_consume [of b2 8] by (simp_all add: work_ok_def)
  have m1: "ctx_open er (er_ctx (dce_get k ?d)) op ?pb (content ?b1) = Some out" using msg x b1(2) by simp
  from ep_open_outcome [OF dcenv b1(1) w op key pr(1), of ?pb]
  obtain w1 where w1: "work_ok w1" "content w1 = out" "ep_open er k (ep_pid ?pb) (op @ ?pb) now ?b1 c' = (Inr ERR_SUCCESS, w1, c'\<lparr>work_decrypt := ?b1, ep_dce := d'\<rparr>)"
    using m1 d'(1) e1 sz b1(3) by auto
  have "ep_decrypt er now (Some op) b2 c' = (Inr ERR_SUCCESS, w1, c'\<lparr>work_decrypt := ?b1, ep_dce := d'\<rparr>)"
    using ep_decrypt_lookup [OF wf op, of er now c'] b(2) k pid w1(3) by (simp add: Let_def)
  moreover have "ep_ok er se secret s' s (c'\<lparr>work_decrypt := ?b1, ep_dce := d'\<rparr>)" using d'(2) ok b1(1) by (simp add: ep_ok_def)
  then have "ep_matched es er secret s s c (c'\<lparr>work_decrypt := ?b1, ep_dce := d'\<rparr>)"
    using m d'(3,4) rs(2) p(3) unfolding ep_matched_def by auto
  ultimately show ?thesis using w1(2) by blast
qed

section \<open>A fresh pair of ends\<close>

lemma ep_init_ok:
  assumes "epoch_env_ok env (ds_cipher st)" "ds_use_epoch_keys st" "length k1 = 32" "length k2 = 32"
  shows "\<exists>c. ep_init_cipher env k1 k2 (ep_new env st) = (Inr (), c) \<and> ep_ok env k1 k2 1 1 c \<and> dce_known 1 (ep_dce c) {}
    \<and> dce_cipher (ep_dce c) = ds_cipher st \<and> dce_count (ep_dce c) = 16 \<and> es_pid (encrypt_ctx (ep_dce c)) = pds_ctor True 1
    \<and> seen_upto (ep_dce c) x"
proof -
  obtain d where d: "dce_ctor env (ds_cipher st) k1 k2 16 = Inr d" "dce_inv env k1 k2 1 1 d" "dce_count d = 16" "dce_cipher d = ds_cipher st"
    "es_pid (encrypt_ctx d) = pds_ctor True 1" "er_pid (decrypt_ctx d) = pdr_init 8 False" "\<forall>c\<in>set (future_keys d). er_pid c = pdr_init 8 True"
    "er_pid (retiring_ctx d) = pdr_init 8 False"
    using dce_ctor_ok [OF assms(1), of k1 k2 16] assms(3,4) by auto
  have pid: "\<exists>w. er_pid (dce_get k d) = pdr_init 8 w" if "dk_valid d k" for k
    using d(6-8) that by (cases k) (auto simp: dk_valid_def)
  have "dce_known 1 d {}" unfolding dce_known_def using pid pdr_known_init by fastforce
  moreover have "seen_upto d x"
  proof (intro allI impI)
    fix k assume "dk_valid d k"
    then obtain w where "er_pid (dce_get k d) = pdr_init 8 w" using pid by blast
    then show "(\<exists>t. pdr_rel 8 (er_pid (dce_get k d)) t) \<and> r_high (pdr_ring (er_pid (dce_get k d))) \<le> x"
      using pdr_rel_init [of 8 w] by (auto simp: pdr_init_def)
  qed
  moreover have "work_ok buf_clear" by (simp add: work_ok_def buf_clear_def buf_wf_def sz_max_def)
  ultimately show ?thesis using d assms(2)
    by (intro exI [of _ "(ep_new env st)\<lparr>ep_dce := d\<rparr>"]) (simp add: ep_init_cipher_def ep_new_def ep_ok_def)
qed

definition ex_settings :: dc_settings where
  "ex_settings = ds_default\<lparr>ds_cipher := AES_256_GCM, ds_use_epoch_keys := True\<rparr>"

definition ex_end :: "byte \<Rightarrow> byte \<Rightarrow> aead_epoch" where
  "ex_end a b = snd (ep_init_cipher ex_ev (replicate 32 a) (replicate 32 b) (ep_new ex_ev ex_settings))"

lemma ex_end_ok: "ep_ok ex_ev (replicate 32 a) (replicate 32 b) 1 1 (ex_end a b)" "dce_known 1 (ep_dce (ex_end a b)) {}"
  "dce_cipher (ep_dce (ex_end a b)) = AES_256_GCM" "dce_count (ep_dce (ex_end a b)) = 16" "es_pid (encrypt_ctx (ep_dce (ex_end a b))) = pds_ctor True 1"
  "seen_upto (ep_dce (ex_end a b)) x"
  using ep_init_ok [of ex_ev ex_settings "replicate 32 a" "replicate 32 b" x] ex_ev_ok by (auto simp: ex_end_def ex_settings_def)

lemma ex_ends_matched: "ep_matched ex_ev ex_ev (replicate 32 a) 1 1 (ex_end a b) (ex_end b a)"
proof -
  have p: "pd_wide (pds_ctor True 1)" "id_epoch (unat (pd_id (pds_ctor True 1))) = 1" using pds_ctor_epoch [of 1] by simp_all
  show ?thesis unfolding ep_matched_def ex_end_ok(3,5) using ex_end_ok(1) [of a b] ex_end_ok(1) [of b a] ex_end_ok(6) [of b a] p
    by (auto simp: same_crypto_def)
qed

section \<open>Properties\<close>

text \<open>
  C18. Delivery with epoch keys. A packet that the sending end encrypts, having moved to its next epoch first if a limit
  was reached, is accepted by the receiving end with exactly its bytes, whether or not packets before it were
  lost, as long as the sender's epoch is less than 16 ahead; the receiver is then in the sender's epoch, and both
  ends are ready for the next packet. A packet that is lost also leaves them ready.
\<close>

theorem epoch_round_trip:
  assumes "ep_matched es er secret s r c c'" "seal_total (ev_dc es)" "length op = 4"
    and "work_ok buf" "0 < b_size buf" "b_size buf \<le> fc_payload (de_frame (ev_dc es) ! ENCRYPT_WORK)"
      "b_size buf + 24 \<le> fc_payload (de_frame (ev_dc er) ! DECRYPT_WORK)"
    and "send_limit (ep_dce c) \<or> unat (pd_id (es_pid (encrypt_ctx (ep_dce c)))) mod 2 ^ 48 + 2 < 2 ^ 48"
    and "s + 1 < r + unat (dce_count (ep_dce c'))" "s + 1 + unat (dce_count (ep_dce c')) < 65535"
  shows "\<exists>wn b c1. let s2 = (if send_limit (ep_dce c) then s + 1 else s)
    in ep_encrypt es (Some op) buf c = (Inr wn, b, c1) \<and> ep_matched es er secret s2 r c1 c'
      \<and> (\<forall>b2 now. work_ok b2 \<and> content b2 = content b \<longrightarrow>
           (\<exists>b3 c3. ep_decrypt er now (Some op) b2 c' = (Inr ERR_SUCCESS, b3, c3) \<and> content b3 = content buf \<and> ep_matched es er secret s2 s2 c1 c3))"
proof -
  let ?s2 = "if send_limit (ep_dce c) then Suc s else s"
  have lim: "send_limit (ep_dce c) \<Longrightarrow> s < 65535" "\<not> send_limit (ep_dce c) \<Longrightarrow> unat (pd_id (es_pid (encrypt_ctx (ep_dce c)))) mod 2 ^ 48 + 2 < 2 ^ 48"
    using assms(8,10) by auto
  obtain wn b c1 p ct t where e: "ep_encrypt es (Some op) buf c = (Inr wn, b, c1)" "work_ok b" "content b = be_bytes 8 (pd_id p) @ ct @ t"
    "length ct = b_size buf" "length t = 16" "id_epoch (unat (pd_id p)) = ?s2" "es_pid (encrypt_ctx (ep_dce c1)) = p" "?s2 < 65536"
    "\<And>k. dk_valid (ep_dce c') k \<Longrightarrow> r_high (pdr_ring (er_pid (dce_get k (ep_dce c')))) < pd_id p"
    "ctx_open er (recv_at er (dce_cipher (ep_dce c')) secret ?s2) op (be_bytes 8 (pd_id p)) (ct @ t) = Some (content buf)" "ep_matched es er secret ?s2 r c1 c'"
    using ep_encrypt_matched [OF assms(1,2) lim assms(4-6,3)] by blast
  have "\<exists>b3 c3. ep_decrypt er now (Some op) b2 c' = (Inr ERR_SUCCESS, b3, c3) \<and> content b3 = content buf \<and> ep_matched es er secret ?s2 ?s2 c1 c3"
    if b2: "work_ok b2" "content b2 = content b" for b2 now
  proof (rule ep_decrypt_matched [OF e(11) b2(1) _ _ assms(3) e(6,8,7,9) _ _ e(10)])
    show "content b2 = be_bytes 8 (pd_id p) @ ct @ t" using b2(2) e(3) by simp
    then have "length (content b2) = 24 + b_size buf" using e(4,5) by simp
    then have "b_size b2 = 24 + b_size buf" using b2(1) by (simp add: work_ok_def)
    then show "b_size b2 \<le> fc_payload (de_frame (ev_dc er) ! DECRYPT_WORK)" using assms(7) by simp
  qed (use assms(9,10) in auto)
  then show ?thesis unfolding Let_def Suc_eq_plus1 [symmetric] using e(1,11) by blast
qed

lemma ex_ev_payload: "i < N_ALIGN_CONTEXTS \<Longrightarrow> fc_payload (de_frame (ev_dc ex_ev) ! i) = 64" "seal_total (ev_dc ex_ev)"
  using ex_payload ex_dc_env_ok(2) by (simp_all add: ex_ev_def seal_total_def)

theorem epoch_round_trip_witness:
  "\<exists>wn b c1. ep_encrypt ex_ev (Some [72, 0, 0, 7]) (ex_wire [9, 8]) (ex_end 1 2) = (Inr wn, b, c1)
     \<and> (\<forall>b2. work_ok b2 \<and> content b2 = content b \<longrightarrow>
          (\<exists>b3 c3. ep_decrypt ex_ev 5 (Some [72, 0, 0, 7]) b2 (ex_end 2 1) = (Inr ERR_SUCCESS, b3, c3) \<and> content b3 = [9, 8]))"
proof -
  have w: "work_ok (ex_wire [9, 8])" "content (ex_wire [9, 8]) = [9, 8]" using ex_wire_ok [of "[9, 8]"] by simp_all
  have sz: "b_size (ex_wire [9, 8]) = 2" by (simp add: ex_wire_def)
  have cnt: "unat (pd_id (pds_ctor True 1)) mod 2 ^ 48 + 2 < 2 ^ 48" using pds_ctor_epoch(1) [of 1] by simp
  obtain wn b c1 s2 where e: "ep_encrypt ex_ev (Some [72, 0, 0, 7]) (ex_wire [9, 8]) (ex_end 1 2) = (Inr wn, b, c1)"
    "\<forall>b2 now. work_ok b2 \<and> content b2 = content b \<longrightarrow>
       (\<exists>b3 c3. ep_decrypt ex_ev now (Some [72, 0, 0, 7]) b2 (ex_end 2 1) = (Inr ERR_SUCCESS, b3, c3) \<and> content b3 = content (ex_wire [9, 8]) \<and> ep_matched ex_ev ex_ev (replicate 32 1) s2 s2 c1 c3)"
    using epoch_round_trip [OF ex_ends_matched [of 1 2] ex_ev_payload(2), of "[72, 0, 0, 7]" "ex_wire [9, 8]"] w(1) sz cnt
    by (auto simp: ex_end_ok ex_ev_payload ENCRYPT_WORK_def DECRYPT_WORK_def N_ALIGN_CONTEXTS_def Let_def)
  then show ?thesis using w(2) by (metis (no_types, lifting))
qed



text \<open>
  C17. Packets of an unknown epoch are passed on. A packet with the four-byte header whose epoch is 0, or lies beyond the epochs
  for which keys are held, is answered with a decryption error but its buffer is not cleared. A key context
  without a data limit, compression and MSS clamping hands the rest of such a packet on as if it had been decrypted:
  any bytes, chosen by a sender that has no key.
\<close>

theorem epoch_injection:
  assumes "kc_keyed kc c" "kc_data_limit kc = None" "\<not> kc_compress kc" "mss_fix cfg = 0"
    and "dce_inv env se re s r (ep_dce c)" "length op = 4" "op_head_size (ucast (hd op)) = OP_SIZE_V2" "length pb = 8"
    and "id_epoch (unat (be_word pb :: u64)) = 0 \<or> id_epoch (unat (be_word pb :: u64)) > r + unat (dce_count (ep_dce c))"
    and "buf_wf b" "content b = op @ pb @ payload"
  shows "content (fst (kc_decrypt (ep_api env base) cfg now b kc)) = payload"
proof (rule kc_decrypt_passes [OF assms(1-4,10,11,6,7)])
  fix b1 assume b1: "buf_wf b1" "content b1 = pb @ payload"
  have "unat (pd_get_epoch (ep_pid pb)) = 0 \<or> unat (pd_get_epoch (ep_pid pb)) > r + unat (dce_count (ep_dce c))"
    using assms(9) by (simp only: get_epoch_unat) simp
  from ep_decrypt_unknown [OF assms(5) b1 assms(8,6) this]
  show "\<exists>er b2 c2. dc_decrypt (ep_api env base) now (Some op) b1 c = (Inr er, b2, c2) \<and> content b2 = payload"
    by (simp add: ep_api_def) blast
qed

definition ex_epoch_key :: "aead_epoch key_context" where
  "ex_epoch_key = (kc_construct ex_cfg 5 2 True)\<lparr>kc_state := ACTIVE, kc_crypto := Some (ex_end 1 2), crypto_defined := True\<rparr>"

theorem epoch_injection_witness:
  "content (fst (kc_decrypt (ep_api ex_ev 0) ex_cfg 9 (ex_wire ([72, 0, 0, 7] @ replicate 8 0 @ [69, 1, 2, 3])) ex_epoch_key)) = [69, 1, 2, 3]"
proof -
  have k: "kc_keyed ex_epoch_key (ex_end 1 2)" "kc_data_limit ex_epoch_key = None" "\<not> kc_compress ex_epoch_key"
    by (simp_all add: ex_epoch_key_def kc_keyed_def kc_construct_def kc_set_event_def)
  have inv: "dce_inv ex_ev (replicate 32 1) (replicate 32 2) 1 1 (ep_dce (ex_end 1 2))" using ex_end_ok(1) by (simp add: ep_ok_def)
  have h: "op_head_size 72 = OP_SIZE_V2" by (simp add: op_head_size_def OP_SIZE_V2_def opcode_defs opcode_extract_def)
  have z: "(be_word (replicate 8 0) :: u64) = 0" by (simp add: be_word_def numeral_eq_Suc)
  show ?thesis
    by (rule epoch_injection [OF k ex_buf_facts(3) inv, of "[72, 0, 0, 7]" "replicate 8 0"])
      (use ex_wire_ok [of "[72, 0, 0, 7] @ replicate 8 0 @ [69, 1, 2, 3]"] h z in \<open>simp_all add: work_ok_def\<close>)
qed

end
