(* ===== verification/Crypto_Chm.thy ===== *)
theory Crypto_Chm
  imports Crypto_Aead Control_Crypto
begin

text \<open>
  CBC with HMAC for the data channel (crypto/crypto_chm.hpp, encrypt_chm.hpp, decrypt_chm.hpp), over the cipher
  context of crypto/cipher.hpp and the HMAC of crypto/ovpnhmac.hpp as OpenSSL 3 provides them
  (openssl/crypto/cipher.hpp, mac.hpp).
  The ciphers of the library are records of functions found by name. The bytes of a work buffer after an exception
  are left as they were before, the next use prepares it anew. Cipher \<open>none\<close> and digest \<open>none\<close> leave the contexts
  uninitialised, and packets are then only numbered, or only encrypted.
\<close>

section \<open>\<open>OpenSSLCrypto::CipherContext\<close>\<close>

text \<open>
  \<open>cph_run_update\<close> and \<open>cph_run_final\<close> are the outputs of \<open>EVP_CipherUpdate\<close> on the whole input and of
  \<open>EVP_CipherFinal_ex\<close> behind it, either of which may fail, as may setting the key and the initialisation vector.
\<close>

record evp_cipher =
  cph_iv_size :: size_t
  cph_block_size :: size_t
  cph_key_size :: size_t
  cph_cbc :: bool
  cph_set_key :: "byte list \<Rightarrow> bool"
  cph_set_iv :: "byte list \<Rightarrow> bool"
  cph_run_update :: "cipher_mode \<Rightarrow> byte list \<Rightarrow> byte list \<Rightarrow> byte list \<Rightarrow> byte list option"
  cph_run_final :: "cipher_mode \<Rightarrow> byte list \<Rightarrow> byte list \<Rightarrow> byte list \<Rightarrow> byte list option"

record chm_env =
  ce_dc :: dc_env
  ce_fetch :: "string \<Rightarrow> evp_cipher option"
  ce_mac :: "string \<Rightarrow> digest option"

text \<open>The pointer to the library's context: null, to a context without a cipher, or to one with cipher and key.\<close>

datatype evp_ctx = EVP_NULL | EVP_BLANK | EVP_READY evp_cipher "byte list"

definition EVP_MAX_IV_LENGTH :: nat where "EVP_MAX_IV_LENGTH = 16"

definition evp_cipher_type :: "chm_env \<Rightarrow> alg_type \<Rightarrow> evp_cipher option" where
  "evp_cipher_type env t =
     (case t of
        AES_128_CBC \<Rightarrow> ce_fetch env ''AES-128-CBC''
      | AES_192_CBC \<Rightarrow> ce_fetch env ''AES-192-CBC''
      | AES_256_CBC \<Rightarrow> ce_fetch env ''AES-256-CBC''
      | AES_256_CTR \<Rightarrow> ce_fetch env ''AES-256-CTR''
      | DES_CBC \<Rightarrow> ce_fetch env ''DES-CBC''
      | DES_EDE3_CBC \<Rightarrow> ce_fetch env ''DES-EDE-CBC''
      | BF_CBC \<Rightarrow> ce_fetch env ''BF-CBC''
      | _ \<Rightarrow> None)"

definition evp_is_supported :: "chm_env \<Rightarrow> alg_type \<Rightarrow> bool" where
  "evp_is_supported env t \<longleftrightarrow> evp_cipher_type env t \<noteq> None"

definition evp_init :: "chm_env \<Rightarrow> alg_type \<Rightarrow> byte list \<Rightarrow> cipher_mode \<Rightarrow> evp_ctx \<Rightarrow> unit result \<times> evp_ctx" where
  "evp_init env t key md x =
     (if \<not> (md = CIPHER_ENCRYPT \<or> md = CIPHER_DECRYPT) then (Inl openssl_cipher_mode_error, x)
      else case evp_cipher_type env t of
        None \<Rightarrow> (bindR (alg_name (de_algs (ce_dc env)) t None) (\<lambda>n. Inl (openssl_cipher_error (n @ '': not usable''))), EVP_BLANK)
      | Some ci \<Rightarrow>
          if length key < cph_key_size ci then (Inl undefined_behaviour, EVP_BLANK)
          else if \<not> cph_set_key ci (take (cph_key_size ci) key) then (Inl (openssl_cipher_error ''EVP_CipherInit_ex (init)''), EVP_NULL)
          else (Inr (), EVP_READY ci (take (cph_key_size ci) key)))"

text \<open>Without a cipher in the context the answers of the library are not specified.\<close>

definition evp_ready :: "evp_ctx \<Rightarrow> (evp_cipher \<times> byte list) result" where
  "evp_ready x = (case x of EVP_READY ci key \<Rightarrow> Inr (ci, key) | _ \<Rightarrow> Inl undefined_behaviour)"

definition evp_reset :: "evp_ctx \<Rightarrow> byte list \<Rightarrow> unit result" where
  "evp_reset x iv =
     bindR (evp_ready x) (\<lambda>(ci, key). if \<not> cph_set_iv ci iv then Inl (openssl_cipher_error ''EVP_CipherInit_ex (reset)'') else Inr ())"

text \<open>\<open>update\<close> casts the size of its input to \<open>int\<close>; sizes that do not fit are not modelled.\<close>

definition evp_update :: "evp_ctx \<Rightarrow> cipher_mode \<Rightarrow> byte list \<Rightarrow> byte list \<Rightarrow> byte list option result" where
  "evp_update x md iv input =
     bindR (evp_ready x) (\<lambda>(ci, key).
       if length input \<ge> 2 ^ 31 then Inl undefined_behaviour else Inr (cph_run_update ci md key iv input))"

definition evp_final :: "evp_ctx \<Rightarrow> cipher_mode \<Rightarrow> byte list \<Rightarrow> byte list \<Rightarrow> byte list option result" where
  "evp_final x md iv input = bindR (evp_ready x) (\<lambda>(ci, key). Inr (cph_run_final ci md key iv input))"

section \<open>\<open>CipherContext\<close>\<close>

record cipher_ctx =
  cc_mode :: cipher_mode
  cc_ctx :: evp_ctx

definition cc_new :: cipher_ctx where
  "cc_new = \<lparr>cc_mode = MODE_UNDEF, cc_ctx = EVP_NULL\<rparr>"

definition cc_defined :: "cipher_ctx \<Rightarrow> bool" where
  "cc_defined cc \<longleftrightarrow> cc_ctx cc \<noteq> EVP_NULL"

definition cc_iv_length :: "cipher_ctx \<Rightarrow> size_t result" where
  "cc_iv_length cc = bindR (evp_ready (cc_ctx cc)) (\<lambda>(ci, key). Inr (cph_iv_size ci))"

definition cc_is_cbc :: "cipher_ctx \<Rightarrow> bool result" where
  "cc_is_cbc cc = bindR (evp_ready (cc_ctx cc)) (\<lambda>(ci, key). Inr (cph_cbc ci))"

definition cc_output_size :: "cipher_ctx \<Rightarrow> size_t \<Rightarrow> size_t result" where
  "cc_output_size cc in_size = bindR (evp_ready (cc_ctx cc)) (\<lambda>(ci, key). Inr (sz_add in_size (cph_block_size ci)))"

definition cc_init :: "chm_env \<Rightarrow> alg_type \<Rightarrow> byte list \<Rightarrow> cipher_mode \<Rightarrow> cipher_ctx \<Rightarrow> unit result \<times> cipher_ctx" where
  "cc_init env t key md cc =
     (case alg_get (de_algs (ce_dc env)) t of
        Inl e \<Rightarrow> (Inl e, cc)
      | Inr a \<Rightarrow>
          if length key < ag_size a then (Inl cipher_init_insufficient_key_material, cc)
          else if ag_iv_length a > EVP_MAX_IV_LENGTH then (Inl cipher_internal_error, cc)
          else (case evp_init env t key md (cc_ctx cc) of
                  (Inl e, x) \<Rightarrow> (Inl e, cc\<lparr>cc_ctx := x\<rparr>)
                | (Inr _, x) \<Rightarrow> (Inr (), cc\<lparr>cc_ctx := x, cc_mode := md\<rparr>)))"

text \<open>\<open>encrypt_decrypt\<close> writes from index \<open>out\<close> in the array of \<open>w\<close> and returns how much, 0 for a failure.\<close>

definition cc_encrypt_decrypt :: "cipher_ctx \<Rightarrow> byte list \<Rightarrow> nat \<Rightarrow> size_t \<Rightarrow> byte list \<Rightarrow> buffer \<Rightarrow> (size_t \<times> buffer) result" where
  "cc_encrypt_decrypt cc iv out out_size input w =
     bindR (cc_output_size cc (length input)) (\<lambda>need.
       if out_size < need then Inl cipher_output_buffer
       else bindR (evp_reset (cc_ctx cc) iv) (\<lambda>_.
            bindR (evp_update (cc_ctx cc) (cc_mode cc) iv input) (\<lambda>u.
              case u of
                None \<Rightarrow> Inr (0, w)
              | Some o1 \<Rightarrow>
                  bindR (buf_poke out o1 w) (\<lambda>w1.
                  bindR (evp_final (cc_ctx cc) (cc_mode cc) iv input) (\<lambda>f.
                    case f of
                      None \<Rightarrow> Inr (0, w1)
                    | Some o2 \<Rightarrow> bindR (buf_poke (out + length o1) o2 w1) (\<lambda>w2. Inr (length o1 + length o2, w2)))))))"

definition cc_encrypt :: "cipher_ctx \<Rightarrow> byte list \<Rightarrow> nat \<Rightarrow> size_t \<Rightarrow> byte list \<Rightarrow> buffer \<Rightarrow> (size_t \<times> buffer) result" where
  "cc_encrypt cc iv out out_size input w =
     (if cc_mode cc \<noteq> CIPHER_ENCRYPT then Inl cipher_mode_error else cc_encrypt_decrypt cc iv out out_size input w)"

definition cc_decrypt :: "cipher_ctx \<Rightarrow> byte list \<Rightarrow> nat \<Rightarrow> size_t \<Rightarrow> byte list \<Rightarrow> buffer \<Rightarrow> (size_t \<times> buffer) result" where
  "cc_decrypt cc iv out out_size input w =
     (if cc_mode cc \<noteq> CIPHER_DECRYPT then Inl cipher_mode_error else cc_encrypt_decrypt cc iv out out_size input w)"

section \<open>\<open>OvpnHMAC\<close>\<close>

type_synonym hmac_ctx = "(digest \<times> byte list) option"

definition MAX_HMAC_SIZE :: nat where "MAX_HMAC_SIZE = 64"

text \<open>The key is copied into an array of \<open>MAX_HMAC_SIZE\<close> bytes.\<close>

definition mac_init :: "chm_env \<Rightarrow> alg_type \<Rightarrow> byte list \<Rightarrow> size_t \<Rightarrow> hmac_ctx result" where
  "mac_init env t key key_size =
     (if key_size > MAX_HMAC_SIZE then Inl undefined_behaviour
      else bindR (alg_name (de_algs (ce_dc env)) t None) (\<lambda>n.
        case ce_mac env n of
          None \<Rightarrow> Inl (openssl_mac_error ''EVP_MAC_init (init)'')
        | Some dg \<Rightarrow> Inr (Some (dg, take key_size key))))"

definition hm_init :: "chm_env \<Rightarrow> alg_type \<Rightarrow> byte list \<Rightarrow> hmac_ctx \<Rightarrow> unit result \<times> hmac_ctx" where
  "hm_init env t key hm =
     (case alg_get (de_algs (ce_dc env)) t of
        Inl e \<Rightarrow> (Inl e, hm)
      | Inr a \<Rightarrow>
          if length key < ag_size a then (Inl ovpn_hmac_context_digest_size, hm)
          else (case mac_init env t key (ag_size a) of Inl e \<Rightarrow> (Inl e, None) | Inr x \<Rightarrow> (Inr (), x)))"

section \<open>\<open>CryptoCHM\<close>\<close>

text \<open>The state of \<open>encrypt_\<close> and \<open>decrypt_\<close>; \<open>he_rng\<close> holds the bytes the random number generator will deliver.\<close>

record chm_crypto =
  he_cipher :: cipher_ctx
  he_hmac :: hmac_ctx
  he_pid_send :: packet_id_data
  he_work :: buffer
  he_rng :: "nat \<Rightarrow> byte"
  hd_cipher :: cipher_ctx
  hd_hmac :: hmac_ctx
  hd_pid_recv :: pid_data_recv
  hd_work :: buffer

text \<open>
  \<open>prepend_hmac\<close> takes the address of the contents before it makes room in front: would the contents be moved for
  that, the HMAC would be taken over what is left at the old address.
\<close>

definition prepend_hmac :: "hmac_ctx \<Rightarrow> buffer \<Rightarrow> buffer result" where
  "prepend_hmac hm buf =
     (case hm of
        None \<Rightarrow> Inr buf
      | Some (dg, key) \<Rightarrow>
          bindR (buf_prepend_alloc (dg_size dg) buf) (\<lambda>b1.
          bindR (buf_peek (b_offset buf) (b_size buf) b1) (\<lambda>m. buf_poke (b_offset b1) (dg_hmac dg key m) b1)))"

text \<open>From the numbered plaintext to the work buffer with IV and HMAC; \<open>False\<close> if the cipher failed.\<close>

definition chm_seal :: "chm_env \<Rightarrow> byte list \<Rightarrow> byte list \<Rightarrow> chm_crypto \<Rightarrow> (bool \<times> buffer) result" where
  "chm_seal env iv input c =
     bindR (dc_prepare (ce_dc env) ENCRYPT_WORK (he_work c)) (\<lambda>w.
     bindR (cc_encrypt (he_cipher c) iv (b_offset w) (buf_max_size w) input w) (\<lambda>(encrypt_bytes, w1).
       if encrypt_bytes = 0 then Inr (False, w1)
       else bindR (buf_set_size encrypt_bytes w1) (\<lambda>w2.
            bindR (buf_prepend iv w2) (\<lambda>w3.
            bindR (prepend_hmac (he_hmac c) w3) (\<lambda>w4. Inr (True, w4))))))"

definition chm_next_id :: "buffer \<Rightarrow> chm_crypto \<Rightarrow> buffer result \<times> chm_crypto" where
  "chm_next_id buf c = (case pds_prepend_next (he_pid_send c) buf of (r, pid) \<Rightarrow> (r, c\<lparr>he_pid_send := pid\<rparr>))"

definition chm_rand :: "size_t \<Rightarrow> chm_crypto \<Rightarrow> byte list \<times> chm_crypto" where
  "chm_rand n c = (map (he_rng c) [0..<n], c\<lparr>he_rng := (\<lambda>i. he_rng c (i + n))\<rparr>)"

definition chm_encrypt_cipher :: "chm_env \<Rightarrow> buffer \<Rightarrow> chm_crypto \<Rightarrow> unit result \<times> buffer \<times> chm_crypto" where
  "chm_encrypt_cipher env buf c =
     (case bindR (cc_iv_length (he_cipher c)) (\<lambda>n. bindR (cc_is_cbc (he_cipher c)) (\<lambda>cbc.
             if \<not> cbc then Inl chm_unsupported_cipher_mode else if n > EVP_MAX_IV_LENGTH then Inl undefined_behaviour else Inr n)) of
        Inl e \<Rightarrow> (Inl e, buf, c)
      | Inr iv_length \<Rightarrow>
          (let (iv, c1) = chm_rand iv_length c
           in case chm_next_id buf c1 of
                (Inl e, c2) \<Rightarrow> (Inl e, buf, c2)
              | (Inr b1, c2) \<Rightarrow>
                  (case chm_seal env iv (content b1) c2 of
                     Inl e \<Rightarrow> (Inl e, b1, c2)
                   | Inr (ok, w) \<Rightarrow>
                       if ok then (Inr (), w, c2\<lparr>he_work := b1\<rparr>) else (Inr (), buf_reset_size b1, c2\<lparr>he_work := w\<rparr>))))"

definition chm_encrypt_plain :: "buffer \<Rightarrow> chm_crypto \<Rightarrow> unit result \<times> buffer \<times> chm_crypto" where
  "chm_encrypt_plain buf c =
     (case chm_next_id buf c of
        (Inl e, c1) \<Rightarrow> (Inl e, buf, c1)
      | (Inr b1, c1) \<Rightarrow> (case prepend_hmac (he_hmac c1) b1 of Inl e \<Rightarrow> (Inl e, b1, c1) | Inr b2 \<Rightarrow> (Inr (), b2, c1)))"

definition chm_encrypt_buf :: "chm_env \<Rightarrow> buffer \<Rightarrow> chm_crypto \<Rightarrow> unit result \<times> buffer \<times> chm_crypto" where
  "chm_encrypt_buf env buf c =
     (if b_size buf = 0 then (Inr (), buf, c)
      else if cc_defined (he_cipher c) then chm_encrypt_cipher env buf c
      else chm_encrypt_plain buf c)"

definition chm_encrypt :: "chm_env \<Rightarrow> byte list option \<Rightarrow> buffer \<Rightarrow> chm_crypto \<Rightarrow> bool result \<times> buffer \<times> chm_crypto" where
  "chm_encrypt env op32 buf c =
     (case chm_encrypt_buf env buf c of
        (Inl e, b, c') \<Rightarrow> (Inl e, b, c')
      | (Inr _, b, c') \<Rightarrow> (Inr (pds_wrap_warning (he_pid_send c')), b, c'))"

definition check_hmac :: "hmac_ctx \<Rightarrow> buffer \<Rightarrow> (bool \<times> buffer) result" where
  "check_hmac hm buf =
     (case hm of
        None \<Rightarrow> Inr (True, buf)
      | Some (dg, key) \<Rightarrow>
          bindR (buf_read (dg_size dg) buf) (\<lambda>(packet_hmac, b1).
            Inr (packet_hmac = take (dg_size dg) (dg_hmac dg key (content b1)), b1)))"

definition chm_verify_packet_id :: "int \<Rightarrow> buffer \<Rightarrow> chm_crypto \<Rightarrow> (bool \<times> buffer \<times> chm_crypto) result" where
  "chm_verify_packet_id now buf c =
     bindR (pdr_read_next (hd_pid_recv c) buf) (\<lambda>(pid, b1).
       case pdr_test_add 8 30 pid now (hd_pid_recv c) of (ok, r) \<Rightarrow> Inr (ok, b1, c\<lparr>hd_pid_recv := r\<rparr>))"

text \<open>The part of \<open>decrypt\<close> behind the call of the cipher: \<open>w\<close> is the work buffer with the plaintext.\<close>

definition chm_accept :: "int \<Rightarrow> buffer \<Rightarrow> size_t \<Rightarrow> buffer \<Rightarrow> chm_crypto \<Rightarrow> err result \<times> buffer \<times> chm_crypto" where
  "chm_accept now b decrypt_bytes w c =
     (if decrypt_bytes = 0 then (Inr DECRYPT_ERROR, buf_reset_size b, c\<lparr>hd_work := w\<rparr>)
      else case buf_set_size decrypt_bytes w of
        Inl e \<Rightarrow> (Inl e, b, c\<lparr>hd_work := w\<rparr>)
      | Inr w1 \<Rightarrow>
          (case bindR (cc_is_cbc (hd_cipher c)) (\<lambda>cbc. if cbc then chm_verify_packet_id now w1 c else Inl chm_unsupported_cipher_mode) of
             Inl e \<Rightarrow> (Inl e, b, c\<lparr>hd_work := w1\<rparr>)
           | Inr (ok, w2, c1) \<Rightarrow>
               if \<not> ok then (Inr REPLAY_ERROR, buf_reset_size b, c1\<lparr>hd_work := w2\<rparr>) else (Inr ERR_SUCCESS, w2, c1\<lparr>hd_work := b\<rparr>)))"

definition chm_decrypt_cipher :: "chm_env \<Rightarrow> int \<Rightarrow> buffer \<Rightarrow> chm_crypto \<Rightarrow> err result \<times> buffer \<times> chm_crypto" where
  "chm_decrypt_cipher env now buf c =
     (case bindR (cc_iv_length (hd_cipher c)) (\<lambda>n. if n > EVP_MAX_IV_LENGTH then Inl undefined_behaviour else buf_read n buf) of
        Inl e \<Rightarrow> (Inl e, buf, c)
      | Inr (iv, b1) \<Rightarrow>
          (case dc_prepare (ce_dc env) DECRYPT_WORK (hd_work c) of
             Inl e \<Rightarrow> (Inl e, b1, c)
           | Inr w \<Rightarrow>
               (case cc_decrypt (hd_cipher c) iv (b_offset w) (buf_max_size w) (content b1) w of
                  Inl e \<Rightarrow> (Inl e, b1, c\<lparr>hd_work := w\<rparr>)
                | Inr (decrypt_bytes, w1) \<Rightarrow> chm_accept now b1 decrypt_bytes w1 c)))"

definition chm_decrypt_plain :: "int \<Rightarrow> buffer \<Rightarrow> chm_crypto \<Rightarrow> err result \<times> buffer \<times> chm_crypto" where
  "chm_decrypt_plain now buf c =
     (case chm_verify_packet_id now buf c of
        Inl e \<Rightarrow> (Inl e, buf, c)
      | Inr (ok, b1, c1) \<Rightarrow> if \<not> ok then (Inr REPLAY_ERROR, buf_reset_size b1, c1) else (Inr ERR_SUCCESS, b1, c1))"

definition chm_decrypt :: "chm_env \<Rightarrow> int \<Rightarrow> byte list option \<Rightarrow> buffer \<Rightarrow> chm_crypto \<Rightarrow> err result \<times> buffer \<times> chm_crypto" where
  "chm_decrypt env now op32 buf c =
     (if b_size buf = 0 then (Inr ERR_SUCCESS, buf, c)
      else case check_hmac (hd_hmac c) buf of
        Inl e \<Rightarrow> (Inl e, buf, c)
      | Inr (ok, b1) \<Rightarrow>
          if \<not> ok then (Inr HMAC_ERROR, buf_reset_size b1, c)
          else if cc_defined (hd_cipher c) then chm_decrypt_cipher env now b1 c
          else chm_decrypt_plain now b1 c)"

section \<open>Initialisation\<close>

definition chm_new :: "(nat \<Rightarrow> byte) \<Rightarrow> chm_crypto" where
  "chm_new rng =
     \<lparr>he_cipher = cc_new, he_hmac = None, he_pid_send = pds_default, he_work = buf_clear, he_rng = rng,
      hd_cipher = cc_new, hd_hmac = None, hd_pid_recv = pdr_init 8 False, hd_work = buf_clear\<rparr>"

definition chm_init_cipher :: "chm_env \<Rightarrow> alg_type \<Rightarrow> byte list \<Rightarrow> byte list \<Rightarrow> chm_crypto \<Rightarrow> unit result \<times> chm_crypto" where
  "chm_init_cipher env cipher encrypt_key decrypt_key c =
     (case cc_init env cipher encrypt_key CIPHER_ENCRYPT (he_cipher c) of
        (Inl e, x) \<Rightarrow> (Inl e, c\<lparr>he_cipher := x\<rparr>)
      | (Inr _, x) \<Rightarrow>
          (case cc_init env cipher decrypt_key CIPHER_DECRYPT (hd_cipher c) of
             (r, y) \<Rightarrow> (r, c\<lparr>he_cipher := x, hd_cipher := y\<rparr>)))"

definition chm_init_hmac :: "chm_env \<Rightarrow> alg_type \<Rightarrow> byte list \<Rightarrow> byte list \<Rightarrow> chm_crypto \<Rightarrow> unit result \<times> chm_crypto" where
  "chm_init_hmac env digest encrypt_key decrypt_key c =
     (case hm_init env digest encrypt_key (he_hmac c) of
        (Inl e, x) \<Rightarrow> (Inl e, c\<lparr>he_hmac := x\<rparr>)
      | (Inr _, x) \<Rightarrow>
          (case hm_init env digest decrypt_key (hd_hmac c) of (r, y) \<Rightarrow> (r, c\<lparr>he_hmac := x, hd_hmac := y\<rparr>)))"

definition chm_init_pid :: "chm_crypto \<Rightarrow> chm_crypto" where
  "chm_init_pid c = c\<lparr>he_pid_send := pds_default, hd_pid_recv := pdr_init 8 False\<rparr>"

definition chm_defined :: "alg_type \<Rightarrow> alg_type \<Rightarrow> u32" where
  "chm_defined cipher digest =
     DC_CRYPTO_DEFINED OR (if alg_defined cipher then DC_CIPHER_DEFINED else 0) OR (if alg_defined digest then DC_HMAC_DEFINED else 0)"

definition chm_encap_overhead :: "alg list \<Rightarrow> alg_type \<Rightarrow> alg_type \<Rightarrow> size_t result" where
  "chm_encap_overhead algs cipher digest =
     bindR (alg_size algs digest) (\<lambda>h. bindR (alg_iv_length algs cipher) (\<lambda>iv. bindR (alg_block_size algs cipher) (\<lambda>bs.
       Inr (sz_add (sz_add h iv) bs))))"

definition chm_api :: "chm_env \<Rightarrow> int \<Rightarrow> chm_crypto dc_api" where
  "chm_api env base =
     \<lparr>dc_encrypt = chm_encrypt env, dc_decrypt = (\<lambda>now. chm_decrypt env (tm_seconds_since_epoch base now)),
      dc_rekey = (\<lambda>ty c. c), comp_compress = (\<lambda>h b. (Inr (), b)), comp_decompress = (\<lambda>b. (Inr (), b))\<rparr>"

section \<open>What is assumed of the library\<close>

definition evp_run :: "evp_cipher \<Rightarrow> cipher_mode \<Rightarrow> byte list \<Rightarrow> byte list \<Rightarrow> byte list \<Rightarrow> byte list option" where
  "evp_run ci md key iv m =
     (case cph_run_update ci md key iv m of
        None \<Rightarrow> None
      | Some o1 \<Rightarrow> map_option (append o1) (cph_run_final ci md key iv m))"

text \<open>
  The limits of the library on the sizes, outputs that are at most a block longer than the input, a cipher in CBC
  mode, and decryption that reverses encryption.
\<close>

definition evp_ok :: "evp_cipher \<Rightarrow> bool" where
  "evp_ok ci \<longleftrightarrow> cph_iv_size ci \<le> EVP_MAX_IV_LENGTH \<and> cph_block_size ci \<le> 32 \<and> cph_cbc ci
     \<and> (\<forall>md key iv m o1. cph_run_update ci md key iv m = Some o1 \<longrightarrow> length o1 \<le> length m + cph_block_size ci)
     \<and> (\<forall>md key iv m r. evp_run ci md key iv m = Some r \<longrightarrow> length r \<le> length m + cph_block_size ci)
     \<and> (\<forall>key iv m r. evp_run ci CIPHER_ENCRYPT key iv m = Some r \<longrightarrow> r \<noteq> [] \<and> evp_run ci CIPHER_DECRYPT key iv r = Some m)"

lemma evp_ok_sizes: "evp_ok ci \<Longrightarrow> cph_iv_size ci \<le> 16 \<and> cph_block_size ci \<le> 32"
  by (simp add: evp_ok_def EVP_MAX_IV_LENGTH_def)

text \<open>The frame gives the work buffers room for IV and HMAC in front and for a block behind.\<close>

definition chm_env_ok :: "chm_env \<Rightarrow> bool" where
  "chm_env_ok env \<longleftrightarrow> length (de_frame (ce_dc env)) = N_ALIGN_CONTEXTS
     \<and> (\<forall>fc\<in>set (de_frame (ce_dc env)). fc_wf fc \<and> 96 \<le> fc_headroom fc \<and> 32 \<le> fc_tailroom fc)"

lemma chm_prepare_ok:
  assumes "chm_env_ok env" "work_ok w" "i < N_ALIGN_CONTEXTS"
  obtains w' where "dc_prepare (ce_dc env) i w = Inr w'" "work_ok w'" "b_size w' = 0" "96 \<le> b_offset w'"
    "b_offset w' + fc_payload (de_frame (ce_dc env) ! i) + 32 \<le> b_capacity w'"
proof -
  let ?fc = "de_frame (ce_dc env) ! i"
  have fc: "fc_wf ?fc" "96 \<le> fc_headroom ?fc" "32 \<le> fc_tailroom ?fc"
    using assms(1,3) nth_mem [of i "de_frame (ce_dc env)"] by (auto simp: chm_env_ok_def)
  have w: "buf_wf w" "b_flags w \<noteq> None" using assms(2) by (simp_all add: work_ok_def)
  show thesis
    by (rule fc_prepare_room [OF fc(1) w, of "de_junk (ce_dc env)" "de_addr (ce_dc env)"])
      (use that fc assms(3) in \<open>auto simp: dc_prepare_def frame_at_def work_ok_def\<close>)
qed

section \<open>The cipher context\<close>

lemma buf_poke_poke:
  "i + length xs + length ys \<le> length (b_data w) \<Longrightarrow>
     \<exists>w1. buf_poke i xs w = Inr w1 \<and> buf_poke (i + length xs) ys w1 = buf_poke i (xs @ ys) w \<and> w1 = w\<lparr>b_data := overwrite i xs (b_data w)\<rparr>"
  by (auto simp: buf_poke_def overwrite_def ac_simps)

lemma cc_run:
  assumes r: "cc_ctx cc = EVP_READY ci key" and ok: "evp_ok ci" and w: "work_ok w" "b_size w = 0" and n: "length input < 2 ^ 31"
  obtains (small) "b_capacity w - b_offset w < length input + cph_block_size ci"
      "cc_encrypt_decrypt cc iv (b_offset w) (buf_max_size w) input w = Inl cipher_output_buffer"
    | (iv) "\<not> cph_set_iv ci iv"
      "cc_encrypt_decrypt cc iv (b_offset w) (buf_max_size w) input w = Inl (openssl_cipher_error ''EVP_CipherInit_ex (reset)'')"
    | (failed) w1 where "evp_run ci (cc_mode cc) key iv input = None" "work_ok w1"
      "cc_encrypt_decrypt cc iv (b_offset w) (buf_max_size w) input w = Inr (0, w1)"
    | (run) m w1 where "cph_set_iv ci iv" "evp_run ci (cc_mode cc) key iv input = Some m" "work_ok w1" "b_offset w1 = b_offset w"
      "b_capacity w1 = b_capacity w" "length m \<le> length input + cph_block_size ci"
      "cc_encrypt_decrypt cc iv (b_offset w) (buf_max_size w) input w = Inr (length m, w1)"
      "buf_set_size (length m) w1 = Inr (w1\<lparr>b_size := length m\<rparr>)" "work_ok (w1\<lparr>b_size := length m\<rparr>)" "content (w1\<lparr>b_size := length m\<rparr>) = m"
proof -
  have bw: "buf_wf w" using w(1) by (simp add: work_ok_def)
  have mx: "buf_max_size w = b_capacity w - b_offset w" using bw by (rule buf_max_size_exact)
  have bs: "cph_block_size ci \<le> 32" using ok by (simp add: evp_ok_def)
  have add: "sz_add (length input) (cph_block_size ci) = length input + cph_block_size ci" using n bs by (simp add: sz_add_def sz_max_def)
  let ?d = "cc_encrypt_decrypt cc iv (b_offset w) (buf_max_size w) input w"
  show thesis
  proof (cases "b_capacity w - b_offset w < length input + cph_block_size ci")
    case True
    then show thesis using small r mx add by (simp add: cc_encrypt_decrypt_def cc_output_size_def evp_ready_def)
  next
    case room: False
    show thesis
    proof (cases "cph_set_iv ci iv")
      case False
      then show thesis using iv r mx add room by (simp add: cc_encrypt_decrypt_def cc_output_size_def evp_ready_def evp_reset_def)
    next
      case True
      let ?u = "cph_run_update ci (cc_mode cc) key iv input" and ?f = "cph_run_final ci (cc_mode cc) key iv input"
      have d: "?d = (case ?u of None \<Rightarrow> Inr (0, w) | Some o1 \<Rightarrow> bindR (buf_poke (b_offset w) o1 w) (\<lambda>w1.
          case ?f of None \<Rightarrow> Inr (0, w1) | Some o2 \<Rightarrow> bindR (buf_poke (b_offset w + length o1) o2 w1) (\<lambda>w2. Inr (length o1 + length o2, w2))))"
        using True r mx add room n
        by (simp add: cc_encrypt_decrypt_def cc_output_size_def evp_ready_def evp_reset_def evp_update_def evp_final_def)
      show thesis
      proof (cases ?u)
        case None
        then show thesis using failed [of w] d w(1) by (simp add: evp_run_def)
      next
        case (Some o1)
        have l1: "length o1 \<le> length input + cph_block_size ci" using ok Some unfolding evp_ok_def by blast
        show thesis
        proof (cases ?f)
          case None
          have "b_offset w + length o1 \<le> b_capacity w" using room l1 bw unfolding buf_wf_def by linarith
          from work_output [OF w this] obtain w1 where "buf_poke (b_offset w) o1 w = Inr w1" "work_ok w1" by blast
          then show thesis using failed [of w1] d Some None by (simp add: evp_run_def)
        next
          case (Some o2)
          let ?m = "o1 @ o2"
          have run1: "evp_run ci (cc_mode cc) key iv input = Some ?m" using \<open>?u = Some o1\<close> Some by (simp add: evp_run_def)
          then have l: "length ?m \<le> length input + cph_block_size ci" using ok unfolding evp_ok_def by blast
          have rm: "b_offset w + length ?m \<le> b_capacity w" using room l bw unfolding buf_wf_def by linarith
          from work_output [OF w rm] obtain w2 where w2: "buf_poke (b_offset w) ?m w = Inr w2" "work_ok w2"
            "buf_set_size (length ?m) w2 = Inr (w2\<lparr>b_size := length ?m\<rparr>)" "work_ok (w2\<lparr>b_size := length ?m\<rparr>)" "content (w2\<lparr>b_size := length ?m\<rparr>) = ?m"
            by blast
          have "w2 = w\<lparr>b_data := overwrite (b_offset w) ?m (b_data w)\<rparr>" using w2(1) by (simp add: buf_poke_def split: if_splits)
          moreover have "?d = Inr (length ?m, w2)"
            using d \<open>?u = Some o1\<close> Some buf_poke_poke [of "b_offset w" o1 o2 w] rm bw w2(1) by (auto simp: buf_wf_def)
          ultimately show thesis using run [OF True run1 w2(2) _ _ l _ w2(3-5)] by simp
        qed
      qed
    qed
  qed
qed

section \<open>The HMAC\<close>

definition hmac_tag :: "hmac_ctx \<Rightarrow> byte list \<Rightarrow> byte list" where
  "hmac_tag hm m = (case hm of None \<Rightarrow> [] | Some (dg, key) \<Rightarrow> dg_hmac dg key m)"

definition hmac_ok :: "hmac_ctx \<Rightarrow> bool" where
  "hmac_ok hm \<longleftrightarrow> (case hm of None \<Rightarrow> True | Some (dg, key) \<Rightarrow> digest_ok dg)"

definition hmac_length :: "hmac_ctx \<Rightarrow> nat" where
  "hmac_length hm = (case hm of None \<Rightarrow> 0 | Some (dg, key) \<Rightarrow> dg_size dg)"

lemma hmac_tag_length: "hmac_ok hm \<Longrightarrow> length (hmac_tag hm m) = hmac_length hm"
  and hmac_length_le: "hmac_ok hm \<Longrightarrow> hmac_length hm \<le> 64"
  by (auto simp: hmac_ok_def hmac_tag_def hmac_length_def digest_ok_def split: option.split)

lemma buf_prepend_fits:
  assumes "work_ok b" "length bs \<le> b_offset b"
  obtains b' where "buf_prepend bs b = Inr b'" "work_ok b'" "content b' = bs @ content b" "b_offset b' = b_offset b - length bs"
proof -
  obtain b' where b': "buf_poke (b_offset b - length bs) bs (b\<lparr>b_offset := b_offset b - length bs, b_size := b_size b + length bs\<rparr>) = Inr b'"
    "buf_wf b'" "content b' = bs @ content b" "b_flags b' = b_flags b"
    using poke_front [OF _ assms(2)] assms(1) by (auto simp: work_ok_def)
  then have "b_offset b' = b_offset b - length bs" by (auto simp: buf_poke_def split: if_splits)
  with b' show thesis using that [of b'] assms by (simp add: buf_prepend_def work_ok_def Let_def)
qed

lemma prepend_hmac_fits:
  assumes "work_ok b" "hmac_ok hm" "hmac_length hm \<le> b_offset b"
  obtains b' where "prepend_hmac hm b = Inr b'" "work_ok b'" "content b' = hmac_tag hm (content b) @ content b"
proof (cases hm)
  case None
  then show thesis using that [of b] assms(1) by (simp add: prepend_hmac_def hmac_tag_def)
next
  case (Some x)
  obtain dg key where x: "x = (dg, key)" by fastforce
  have dg: "digest_ok dg" "dg_size dg \<le> b_offset b" using assms(2,3) Some x by (simp_all add: hmac_ok_def hmac_length_def)
  have wf: "buf_wf b" "b_flags b \<noteq> None" using assms(1) by (simp_all add: work_ok_def)
  let ?b1 = "b\<lparr>b_offset := b_offset b - dg_size dg, b_size := b_size b + dg_size dg\<rparr>"
  have a: "buf_prepend_alloc (dg_size dg) b = Inr ?b1" "buf_wf ?b1" using buf_prepend_alloc_fits [OF wf(1) dg(2)] by simp_all
  have p: "buf_peek (b_offset b) (b_size b) ?b1 = Inr (content b)" using wf(1) by (simp add: buf_prim_defs)
  let ?t = "dg_hmac dg key (content b)"
  have l: "length ?t = dg_size dg" using dg(1) by (simp add: digest_ok_def)
  obtain b' where "buf_poke (b_offset b - dg_size dg) ?t ?b1 = Inr b'" "buf_wf b'" "content b' = ?t @ content b" "b_flags b' = b_flags b"
    using poke_front [OF wf(1), of ?t] dg(2) l by auto
  then show thesis using that [of b'] a(1) p wf(2) Some x by (simp add: prepend_hmac_def hmac_tag_def work_ok_def)
qed

lemma check_hmac_eq:
  assumes "work_ok b" "hmac_ok hm"
  defines "n \<equiv> hmac_length hm"
  shows "check_hmac hm b =
    (if b_size b < n then Inl (BufferException buffer_underflow)
     else Inr (take n (content b) = hmac_tag hm (drop n (content b)), b\<lparr>b_offset := b_offset b + n, b_size := b_size b - n\<rparr>))"
proof (cases hm)
  case (Some x)
  obtain dg key where x: "x = (dg, key)" by fastforce
  have wf: "buf_wf b" using assms(1) by (simp add: work_ok_def)
  have "length (dg_hmac dg key m) = dg_size dg" for m using assms(2) Some x by (simp add: hmac_ok_def digest_ok_def)
  then show ?thesis using Some x buf_read_eq [OF wf] content_consume [of b "dg_size dg"]
    by (auto simp: check_hmac_def n_def hmac_length_def hmac_tag_def buf_read_def)
qed (simp add: check_hmac_def n_def hmac_length_def hmac_tag_def)

section \<open>Encryption\<close>

definition ctx_ok :: "cipher_mode \<Rightarrow> cipher_ctx \<Rightarrow> bool" where
  "ctx_ok md cc \<longleftrightarrow> (case cc_ctx cc of EVP_NULL \<Rightarrow> True | EVP_BLANK \<Rightarrow> False | EVP_READY ci key \<Rightarrow> evp_ok ci \<and> cc_mode cc = md)"

definition chm_ok :: "chm_crypto \<Rightarrow> bool" where
  "chm_ok c \<longleftrightarrow> ctx_ok CIPHER_ENCRYPT (he_cipher c) \<and> ctx_ok CIPHER_DECRYPT (hd_cipher c) \<and> hmac_ok (he_hmac c) \<and> hmac_ok (hd_hmac c)
     \<and> \<not> pd_wide (he_pid_send c) \<and> \<not> pdr_wide (hd_pid_recv c) \<and> work_ok (he_work c) \<and> work_ok (hd_work c)"

lemma ctx_ok_cases:
  assumes "ctx_ok md cc"
  obtains (null) "cc_ctx cc = EVP_NULL" | (ready) ci key where "cc_ctx cc = EVP_READY ci key" "evp_ok ci" "cc_mode cc = md"
  using assms by (cases "cc_ctx cc") (auto simp: ctx_ok_def)

definition ctx_iv_size :: "evp_ctx \<Rightarrow> nat" where
  "ctx_iv_size x = (case x of EVP_READY ci key \<Rightarrow> cph_iv_size ci | _ \<Rightarrow> 0)"

text \<open>What is behind the HMAC of a packet: IV and ciphertext, or the numbered plaintext.\<close>

definition chm_body :: "evp_ctx \<Rightarrow> byte list \<Rightarrow> byte list \<Rightarrow> byte list option" where
  "chm_body x iv m =
     (case x of
        EVP_READY ci key \<Rightarrow> (if cph_set_iv ci iv then map_option (append iv) (evp_run ci CIPHER_ENCRYPT key iv m) else None)
      | _ \<Rightarrow> Some m)"

definition chm_packet_of :: "hmac_ctx \<Rightarrow> byte list \<Rightarrow> byte list" where
  "chm_packet_of hm body = hmac_tag hm body @ body"

definition chm_plain_ok :: "chm_env \<Rightarrow> buffer \<Rightarrow> bool" where
  "chm_plain_ok env buf \<longleftrightarrow> work_ok buf \<and> 68 \<le> b_offset buf \<and> b_size buf + 4 \<le> fc_payload (de_frame (ce_dc env) ! ENCRYPT_WORK) \<and> b_size buf + 4 < 2 ^ 31"

lemma chm_next_id_ok:
  assumes "work_ok buf" "4 \<le> b_offset buf" "\<not> pd_wide (he_pid_send c)" "pds_next (he_pid_send c) = (Inr p, p)"
  obtains b1 where "chm_next_id buf c = (Inr b1, c\<lparr>he_pid_send := p\<rparr>)" "work_ok b1" "content b1 = wire_id p @ content buf" "b_offset b1 = b_offset buf - 4"
proof -
  obtain b1 where b1: "buf_prepend (wire_id p) buf = Inr b1" "work_ok b1" "content b1 = wire_id p @ content buf" "b_offset b1 = b_offset buf - 4"
    using buf_prepend_fits [OF assms(1), of "wire_id p"] assms(2) by auto
  have "\<not> pd_wide p" using pds_next_wide [OF assms(4)] assms(3) by simp
  then have "pds_prepend_next (he_pid_send c) buf = (Inr b1, p)" using assms(4) b1(1) by (simp add: pds_prepend_next_def pd_write_prepend_def)
  then show thesis using that [OF _ b1(2-4)] by (simp add: chm_next_id_def)
qed

lemma chm_seal_ok:
  assumes env: "chm_env_ok env" and c: "work_ok (he_work c)" "hmac_ok (he_hmac c)"
    and x: "cc_ctx (he_cipher c) = EVP_READY ci key" "evp_ok ci" "cc_mode (he_cipher c) = CIPHER_ENCRYPT"
    and m: "length m \<le> fc_payload (de_frame (ce_dc env) ! ENCRYPT_WORK)" "length m < 2 ^ 31" and iv: "length iv \<le> 16"
    and body: "chm_body (cc_ctx (he_cipher c)) iv m = Some body"
  obtains w where "chm_seal env iv m c = Inr (True, w)" "work_ok w" "content w = chm_packet_of (he_hmac c) body"
proof -
  obtain w where w: "dc_prepare (ce_dc env) ENCRYPT_WORK (he_work c) = Inr w" "work_ok w" "b_size w = 0" "96 \<le> b_offset w"
    "b_offset w + fc_payload (de_frame (ce_dc env) ! ENCRYPT_WORK) + 32 \<le> b_capacity w"
    by (rule chm_prepare_ok [OF env c(1), of ENCRYPT_WORK]) (simp_all add: ENCRYPT_WORK_def N_ALIGN_CONTEXTS_def)
  have room: "\<not> b_capacity w - b_offset w < length m + cph_block_size ci" using w(5) m(1) evp_ok_sizes [OF x(2)] by linarith
  obtain r where r: "evp_run ci CIPHER_ENCRYPT key iv m = Some r" "body = iv @ r" "cph_set_iv ci iv" "r \<noteq> []"
    using body x(1,2) by (auto simp: chm_body_def evp_ok_def split: if_splits)
  obtain w1 where w1: "b_offset w1 = b_offset w"
    "cc_encrypt_decrypt (he_cipher c) iv (b_offset w) (buf_max_size w) m w = Inr (length r, w1)"
    "buf_set_size (length r) w1 = Inr (w1\<lparr>b_size := length r\<rparr>)" "work_ok (w1\<lparr>b_size := length r\<rparr>)" "content (w1\<lparr>b_size := length r\<rparr>) = r"
    by (rule cc_run [OF x(1,2) w(2,3) m(2), of iv]) (use room r x(3) in auto)
  let ?w2 = "w1\<lparr>b_size := length r\<rparr>"
  have "length iv \<le> b_offset ?w2" using iv w(4) w1(1) by simp
  then obtain w3 where w3: "buf_prepend iv ?w2 = Inr w3" "work_ok w3" "content w3 = body" "b_offset w3 = b_offset w - length iv"
    using buf_prepend_fits [OF w1(4), of iv] w1(1,5) r(2) by auto
  have "hmac_length (he_hmac c) \<le> b_offset w3" using hmac_length_le [OF c(2)] w3(4) w(4) iv by simp
  then obtain w4 where "prepend_hmac (he_hmac c) w3 = Inr w4" "work_ok w4" "content w4 = hmac_tag (he_hmac c) body @ body"
    using prepend_hmac_fits [OF w3(2) c(2)] w3(3) by metis
  then show thesis using that [of w4] w(1) w1(2,3) w3(1) r(4) x(3) by (simp add: chm_seal_def cc_encrypt_def chm_packet_of_def)
qed

lemma chm_encrypt_sent:
  assumes env: "chm_env_ok env" and c: "chm_ok c" and buf: "chm_plain_ok env buf" "0 < b_size buf"
    and q: "pds_next (he_pid_send c) = (Inr p, p)"
  defines "x \<equiv> cc_ctx (he_cipher c)"
  defines "iv \<equiv> map (he_rng c) [0..<ctx_iv_size x]"
  assumes body: "chm_body x iv (wire_id p @ content buf) = Some body"
  obtains b g w where "chm_encrypt env op32 buf c = (Inr (pds_wrap_warning p), b, c\<lparr>he_rng := g, he_pid_send := p, he_work := w\<rparr>)"
    "work_ok b" "work_ok w" "content b = chm_packet_of (he_hmac c) body"
proof -
  have ok: "\<not> pd_wide (he_pid_send c)" "hmac_ok (he_hmac c)" "work_ok (he_work c)" "ctx_ok CIPHER_ENCRYPT (he_cipher c)" using c by (simp_all add: chm_ok_def)
  have b: "work_ok buf" "68 \<le> b_offset buf" using buf(1) by (simp_all add: chm_plain_ok_def)
  from ok(4) show thesis
  proof (cases rule: ctx_ok_cases)
    case null
    obtain b1 where b1: "chm_next_id buf c = (Inr b1, c\<lparr>he_pid_send := p\<rparr>)" "work_ok b1" "content b1 = wire_id p @ content buf" "b_offset b1 = b_offset buf - 4"
      using chm_next_id_ok [OF b(1) _ ok(1) q] b(2) by auto
    have "hmac_length (he_hmac c) \<le> b_offset b1" using hmac_length_le [OF ok(2)] b1(4) b(2) by simp
    then obtain b2 where "prepend_hmac (he_hmac c) b1 = Inr b2" "work_ok b2" "content b2 = hmac_tag (he_hmac c) (content b1) @ content b1"
      using prepend_hmac_fits [OF b1(2) ok(2)] by metis
    moreover have "c\<lparr>he_pid_send := p\<rparr> = c\<lparr>he_rng := he_rng c, he_pid_send := p, he_work := he_work c\<rparr>" by simp
    moreover have "body = content b1" using body b1(3) null by (simp add: x_def chm_body_def)
    ultimately show thesis using that [of b2 "he_work c" "he_rng c"] b1(1) buf(2) null ok(3)
      by (simp add: chm_encrypt_def chm_encrypt_buf_def chm_encrypt_plain_def cc_defined_def chm_packet_of_def)
  next
    case (ready ci key)
    have n: "cph_iv_size ci \<le> EVP_MAX_IV_LENGTH" "cph_cbc ci" using ready(2) by (simp_all add: evp_ok_def)
    let ?g = "\<lambda>i. he_rng c (i + cph_iv_size ci)"
    let ?c1 = "c\<lparr>he_rng := ?g\<rparr>"
    have r: "chm_rand (cph_iv_size ci) c = (iv, ?c1)" using ready(1) by (simp add: chm_rand_def iv_def x_def ctx_iv_size_def)
    obtain b1 where b1: "chm_next_id buf ?c1 = (Inr b1, ?c1\<lparr>he_pid_send := p\<rparr>)" "work_ok b1" "content b1 = wire_id p @ content buf"
      by (rule chm_next_id_ok [OF b(1), of ?c1 p]) (use b(2) ok(1) q in simp_all)
    have len: "length (content b1) = b_size buf + 4" using b1(3) b(1) by (simp add: work_ok_def)
    obtain w where w: "chm_seal env iv (content b1) (?c1\<lparr>he_pid_send := p\<rparr>) = Inr (True, w)" "work_ok w" "content w = chm_packet_of (he_hmac c) body"
      by (rule chm_seal_ok [OF env, of "?c1\<lparr>he_pid_send := p\<rparr>" ci key "content b1" iv body])
        (use ok ready n len buf(1) body b1(3) in \<open>simp_all add: chm_plain_ok_def iv_def x_def ctx_iv_size_def EVP_MAX_IV_LENGTH_def\<close>)
    show thesis
      by (rule that [OF _ w(2) b1(2) w(3), of ?g])
        (use ready n buf(2) r b1(1) w(1) in \<open>simp add: chm_encrypt_def chm_encrypt_buf_def chm_encrypt_cipher_def cc_defined_def cc_iv_length_def cc_is_cbc_def evp_ready_def\<close>)
  qed
qed

section \<open>Decryption\<close>

text \<open>A packet as a whole: the numbered plaintext behind a HMAC, and what is accepted as packet ID and payload.\<close>

definition chm_plain :: "evp_ctx \<Rightarrow> byte list \<Rightarrow> byte list option" where
  "chm_plain x body =
     (case x of
        EVP_READY ci key \<Rightarrow>
          (let n = cph_iv_size ci
           in if length body < n \<or> \<not> cph_set_iv ci (take n body) then None
              else evp_run ci CIPHER_DECRYPT key (take n body) (drop n body))
      | _ \<Rightarrow> Some body)"

definition chm_numbered :: "byte list \<Rightarrow> (u32 \<times> byte list) option" where
  "chm_numbered m = (if length m < 4 then None else Some (be_word (take 4 m), drop 4 m))"

definition chm_message :: "chm_crypto \<Rightarrow> byte list \<Rightarrow> (u32 \<times> byte list) option" where
  "chm_message c pkt =
     (let n = hmac_length (hd_hmac c)
      in if length pkt < n \<or> take n pkt \<noteq> hmac_tag (hd_hmac c) (drop n pkt) then None
         else Option.bind (chm_plain (cc_ctx (hd_cipher c)) (drop n pkt)) chm_numbered)"

lemma chm_message_Some:
  "chm_message c pkt = Some (i, m) \<Longrightarrow> \<exists>p. take (hmac_length (hd_hmac c)) pkt = hmac_tag (hd_hmac c) (drop (hmac_length (hd_hmac c)) pkt)
     \<and> chm_plain (cc_ctx (hd_cipher c)) (drop (hmac_length (hd_hmac c)) pkt) = Some p \<and> 4 \<le> length p \<and> m = drop 4 p"
  by (auto simp: chm_message_def chm_numbered_def Let_def Option.bind_eq_Some_conv split: if_splits)

abbreviation chm_pid :: "u32 \<Rightarrow> packet_id_data" where
  "chm_pid i \<equiv> \<lparr>pd_id = ucast i, pd_wide = False\<rparr>"

definition chm_exn :: "exn \<Rightarrow> bool" where
  "chm_exn e \<longleftrightarrow> (\<exists>st. e = BufferException st) \<or> e = cipher_output_buffer \<or> (\<exists>msg. e = openssl_cipher_error msg)"

definition chm_refused :: "err result \<Rightarrow> buffer \<Rightarrow> bool" where
  "chm_refused r b \<longleftrightarrow> (case r of Inl e \<Rightarrow> chm_exn e | Inr er \<Rightarrow> er \<in> {HMAC_ERROR, DECRYPT_ERROR} \<and> b_size b = 0)"

lemma chm_refused_simps:
  "chm_refused (Inl (BufferException st)) b" "chm_refused (Inl cipher_output_buffer) b" "chm_refused (Inl (openssl_cipher_error msg)) b"
  "chm_refused (Inr HMAC_ERROR) (buf_reset_size b)" "chm_refused (Inr DECRYPT_ERROR) (buf_reset_size b)"
  by (auto simp: chm_refused_def chm_exn_def buf_reset_size_def)

text \<open>
  What becomes of a packet with packet ID \<open>i\<close> and payload \<open>m\<close>: the replay filter decides. Otherwise it is refused,
  and only the work buffer has changed.
\<close>

definition chm_judged :: "int \<Rightarrow> u32 \<Rightarrow> byte list \<Rightarrow> chm_crypto \<Rightarrow> err result \<times> buffer \<times> chm_crypto \<Rightarrow> bool" where
  "chm_judged now i m c res \<longleftrightarrow> (case pdr_test_add 8 30 (chm_pid i) now (hd_pid_recv c) of (ok, pr) \<Rightarrow>
     \<exists>b w. work_ok b \<and> work_ok w \<and> (if ok then content b = m else b_size b = 0)
       \<and> res = (Inr (if ok then ERR_SUCCESS else REPLAY_ERROR), b, c\<lparr>hd_pid_recv := pr, hd_work := w\<rparr>))"

definition chm_rejected :: "chm_crypto \<Rightarrow> err result \<times> buffer \<times> chm_crypto \<Rightarrow> bool" where
  "chm_rejected c res \<longleftrightarrow> (\<exists>r b w. work_ok b \<and> work_ok w \<and> chm_refused r b \<and> res = (r, b, c\<lparr>hd_work := w\<rparr>))"

lemma chm_rejectedI: "work_ok b \<Longrightarrow> work_ok w \<Longrightarrow> chm_refused r b \<Longrightarrow> chm_rejected c (r, b, c\<lparr>hd_work := w\<rparr>)"
  by (auto simp: chm_rejected_def)

lemma chm_rejected_same: "work_ok b \<Longrightarrow> work_ok (hd_work c) \<Longrightarrow> chm_refused r b \<Longrightarrow> chm_rejected c (r, b, c)"
  using chm_rejectedI [of b "hd_work c" r c] by simp

lemma work_ok_consume: "work_ok b \<Longrightarrow> n \<le> b_size b \<Longrightarrow> work_ok (b\<lparr>b_offset := b_offset b + n, b_size := b_size b - n\<rparr>)"
  using wf_consume [of b n] by (auto simp: work_ok_def)

lemma chm_verify_eq:
  assumes "work_ok b" "\<not> pdr_wide (hd_pid_recv c)"
  shows "chm_verify_packet_id now b c =
    (case chm_numbered (content b) of
       None \<Rightarrow> Inl (BufferException buffer_underflow)
     | Some (i, m) \<Rightarrow>
         (case pdr_test_add 8 30 (chm_pid i) now (hd_pid_recv c) of
            (ok, pr) \<Rightarrow> Inr (ok, b\<lparr>b_offset := b_offset b + 4, b_size := b_size b - 4\<rparr>, c\<lparr>hd_pid_recv := pr\<rparr>)))"
proof -
  have wf: "buf_wf b" using assms(1) by (simp add: work_ok_def)
  then show ?thesis using assms(2) buf_read_eq [OF wf, of 4]
    by (auto simp: chm_verify_packet_id_def chm_numbered_def pdr_read_next_def pd_read_def buf_read_def)
qed

lemma chm_decrypt_plain_outcome:
  assumes "work_ok b" "work_ok (hd_work c)" "\<not> pdr_wide (hd_pid_recv c)"
  shows "case chm_numbered (content b) of
      Some (i, m) \<Rightarrow> chm_judged now i m c (chm_decrypt_plain now b c)
    | None \<Rightarrow> chm_rejected c (chm_decrypt_plain now b c)"
proof (cases "chm_numbered (content b)")
  case None
  then show ?thesis using chm_verify_eq [OF assms(1,3), of now] chm_rejected_same [OF assms(1,2)] chm_refused_simps(1)
    by (simp add: chm_decrypt_plain_def)
next
  case (Some x)
  obtain i m where x: "x = (i, m)" by fastforce
  obtain ok pr where t: "pdr_test_add 8 30 (chm_pid i) now (hd_pid_recv c) = (ok, pr)" by fastforce
  have wf: "buf_wf b" using assms(1) by (simp add: work_ok_def)
  have l: "4 \<le> b_size b" "m = drop 4 (content b)" using Some x wf by (auto simp: chm_numbered_def split: if_splits)
  let ?b1 = "b\<lparr>b_offset := b_offset b + 4, b_size := b_size b - 4\<rparr>"
  have b1: "work_ok ?b1" "content ?b1 = m" using work_ok_consume [OF assms(1) l(1)] content_consume [of b 4] l by simp_all
  have d: "chm_decrypt_plain now b c = (Inr (if ok then ERR_SUCCESS else REPLAY_ERROR), (if ok then ?b1 else buf_reset_size ?b1), c\<lparr>hd_pid_recv := pr, hd_work := hd_work c\<rparr>)"
    using Some x t chm_verify_eq [OF assms(1,3), of now] by (simp add: chm_decrypt_plain_def)
  have "chm_judged now i m c (chm_decrypt_plain now b c)"
    unfolding chm_judged_def t prod.case d
    by (rule exI [of _ "if ok then ?b1 else buf_reset_size ?b1"], rule exI [of _ "hd_work c"])
      (use b1 work_ok_reset [OF b1(1)] assms(2) in \<open>simp add: buf_reset_size_def\<close>)
  then show ?thesis using Some x by simp
qed

lemma chm_accept_outcome:
  assumes b: "work_ok b" and w: "buf_set_size n w = Inr w1" "work_ok w" "work_ok w1" "n = length (content w1)"
    and c: "\<not> pdr_wide (hd_pid_recv c)" "cc_ctx (hd_cipher c) = EVP_READY ci key" "cph_cbc ci"
  shows "case chm_numbered (content w1) of
      Some (i, m) \<Rightarrow> chm_judged now i m c (chm_accept now b n w c)
    | None \<Rightarrow> chm_rejected c (chm_accept now b n w c)"
proof (cases "chm_numbered (content w1)")
  case None
  have "chm_accept now b n w c = (if n = 0 then (Inr DECRYPT_ERROR, buf_reset_size b, c\<lparr>hd_work := w\<rparr>)
      else (Inl (BufferException buffer_underflow), b, c\<lparr>hd_work := w1\<rparr>))"
    using None w(1) c chm_verify_eq [OF w(3) c(1), of now] by (simp add: chm_accept_def cc_is_cbc_def evp_ready_def)
  then show ?thesis using None b w(2,3) work_ok_reset [OF b] chm_refused_simps by (simp add: chm_rejectedI)
next
  case (Some x)
  obtain i m where x: "x = (i, m)" by fastforce
  obtain ok pr where t: "pdr_test_add 8 30 (chm_pid i) now (hd_pid_recv c) = (ok, pr)" by fastforce
  have wf: "buf_wf w1" using w(3) by (simp add: work_ok_def)
  have l: "4 \<le> b_size w1" "m = drop 4 (content w1)" "n \<noteq> 0" using Some x wf w(4) by (auto simp: chm_numbered_def split: if_splits)
  let ?w2 = "w1\<lparr>b_offset := b_offset w1 + 4, b_size := b_size w1 - 4\<rparr>"
  have w2: "work_ok ?w2" "content ?w2 = m" using work_ok_consume [OF w(3) l(1)] content_consume [of w1 4] l by simp_all
  have d: "chm_accept now b n w c = (Inr (if ok then ERR_SUCCESS else REPLAY_ERROR), (if ok then ?w2 else buf_reset_size b),
      c\<lparr>hd_pid_recv := pr, hd_work := (if ok then b else ?w2)\<rparr>)"
    using Some x t l(3) w(1) c chm_verify_eq [OF w(3) c(1), of now] by (simp add: chm_accept_def cc_is_cbc_def evp_ready_def)
  have "chm_judged now i m c (chm_accept now b n w c)"
    unfolding chm_judged_def t prod.case d
    by (rule exI [of _ "if ok then ?w2 else buf_reset_size b"], rule exI [of _ "if ok then b else ?w2"])
      (use w2 b work_ok_reset [OF b] in \<open>simp add: buf_reset_size_def\<close>)
  then show ?thesis using Some x by simp
qed

lemma chm_decrypt_cipher_outcome:
  assumes env: "chm_env_ok env" and b: "work_ok b" "b_size b < 2 ^ 31" and c: "work_ok (hd_work c)" "\<not> pdr_wide (hd_pid_recv c)"
    and x: "cc_ctx (hd_cipher c) = EVP_READY ci key" "evp_ok ci" "cc_mode (hd_cipher c) = CIPHER_DECRYPT"
  defines "msg \<equiv> Option.bind (chm_plain (cc_ctx (hd_cipher c)) (content b)) chm_numbered"
  obtains (judged) i m where "msg = Some (i, m)" "chm_judged now i m c (chm_decrypt_cipher env now b c)"
    | (rejected) "chm_rejected c (chm_decrypt_cipher env now b c)" "b_size b \<le> fc_payload (de_frame (ce_dc env) ! DECRYPT_WORK) \<longrightarrow> msg = None"
proof -
  have wf: "buf_wf b" using b(1) by (simp add: work_ok_def)
  let ?n = "cph_iv_size ci"
  have n: "?n \<le> 16" using evp_ok_sizes [OF x(2)] by simp
  have iv: "bindR (cc_iv_length (hd_cipher c)) (\<lambda>n. if n > EVP_MAX_IV_LENGTH then Inl undefined_behaviour else buf_read n b) = buf_read ?n b"
    using x(1) n by (simp add: cc_iv_length_def evp_ready_def EVP_MAX_IV_LENGTH_def)
  show thesis
  proof (cases "?n \<le> b_size b")
    case False
    then have "chm_decrypt_cipher env now b c = (Inl (BufferException buffer_underflow), b, c)" "msg = None"
      using iv x(1) wf by (simp_all add: chm_decrypt_cipher_def buf_read_def msg_def chm_plain_def)
    then show thesis using rejected chm_rejected_same [OF b(1) c(1) chm_refused_simps(1)] by simp
  next
    case True
    let ?iv = "take ?n (content b)" and ?b1 = "b\<lparr>b_offset := b_offset b + ?n, b_size := b_size b - ?n\<rparr>"
    have b1: "buf_read ?n b = Inr (?iv, ?b1)" "work_ok ?b1" "content ?b1 = drop ?n (content b)"
      using buf_read_eq [OF wf, of ?n] work_ok_consume [OF b(1) True] content_consume [of b ?n] True by simp_all
    obtain w where w: "dc_prepare (ce_dc env) DECRYPT_WORK (hd_work c) = Inr w" "work_ok w" "b_size w = 0" "96 \<le> b_offset w"
      "b_offset w + fc_payload (de_frame (ce_dc env) ! DECRYPT_WORK) + 32 \<le> b_capacity w"
      by (rule chm_prepare_ok [OF env c(1), of DECRYPT_WORK]) (simp_all add: DECRYPT_WORK_def N_ALIGN_CONTEXTS_def)
    have l: "length (content ?b1) = b_size b - ?n" using b1(3) wf by simp
    then have lt: "length (content ?b1) < 2 ^ 31" using b(2) by simp
    let ?cd = "cc_encrypt_decrypt (hd_cipher c) ?iv (b_offset w) (buf_max_size w) (content ?b1) w"
    have d: "chm_decrypt_cipher env now b c =
        (case ?cd of Inl e \<Rightarrow> (Inl e, ?b1, c\<lparr>hd_work := w\<rparr>) | Inr (k, w1) \<Rightarrow> chm_accept now ?b1 k w1 c)"
      using iv b1(1) w(1) x(3) by (simp add: chm_decrypt_cipher_def cc_decrypt_def)
    have msg: "msg = (if \<not> cph_set_iv ci ?iv then None else Option.bind (evp_run ci CIPHER_DECRYPT key ?iv (content ?b1)) chm_numbered)"
      using x(1) True wf by (simp add: msg_def chm_plain_def b1(3) Let_def)
    show thesis
    proof (rule cc_run [OF x(1,2) w(2,3) lt, of ?iv])
      assume a: "b_capacity w - b_offset w < length (content ?b1) + cph_block_size ci" "?cd = Inl cipher_output_buffer"
      have "\<not> b_size b \<le> fc_payload (de_frame (ce_dc env) ! DECRYPT_WORK)" using a(1) w(5) l evp_ok_sizes [OF x(2)] by linarith
      then show thesis using rejected d a(2) chm_rejectedI [OF b1(2) w(2) chm_refused_simps(2)] by simp
    next
      assume a: "\<not> cph_set_iv ci ?iv" "?cd = Inl (openssl_cipher_error ''EVP_CipherInit_ex (reset)'')"
      then show thesis using rejected d msg chm_rejectedI [OF b1(2) w(2) chm_refused_simps(3)] by simp
    next
      fix w1 assume a: "evp_run ci (cc_mode (hd_cipher c)) key ?iv (content ?b1) = None" "work_ok w1" "?cd = Inr (0, w1)"
      then have "chm_decrypt_cipher env now b c = (Inr DECRYPT_ERROR, buf_reset_size ?b1, c\<lparr>hd_work := w1\<rparr>)" using d by (simp add: chm_accept_def)
      then show thesis using rejected a(1) msg x(3) chm_rejectedI [OF work_ok_reset [OF b1(2)] a(2) chm_refused_simps(5)] by simp
    next
      fix m w1
      assume v: "cph_set_iv ci ?iv" and a: "evp_run ci (cc_mode (hd_cipher c)) key ?iv (content ?b1) = Some m" "work_ok w1" "?cd = Inr (length m, w1)"
        "buf_set_size (length m) w1 = Inr (w1\<lparr>b_size := length m\<rparr>)" "work_ok (w1\<lparr>b_size := length m\<rparr>)" "content (w1\<lparr>b_size := length m\<rparr>) = m"
      have cbc: "cph_cbc ci" using x(2) by (simp add: evp_ok_def)
      have o: "case chm_numbered m of Some (i, m') \<Rightarrow> chm_judged now i m' c (chm_accept now ?b1 (length m) w1 c)
          | None \<Rightarrow> chm_rejected c (chm_accept now ?b1 (length m) w1 c)"
        using chm_accept_outcome [OF b1(2) a(4,2,5) _ c(2) x(1) cbc, of now] a(6) by simp
      have d1: "chm_decrypt_cipher env now b c = chm_accept now ?b1 (length m) w1 c" using d a(3) by simp
      have "msg = chm_numbered m" using msg a(1) x(3) v by simp
      then show thesis using judged rejected o d1 by (cases "chm_numbered m") auto
    qed
  qed
qed

lemma chm_decrypt_outcome:
  assumes env: "chm_env_ok env" and c: "chm_ok c" and b: "work_ok buf" "0 < b_size buf" "b_size buf < 2 ^ 31"
  obtains (judged) i m where "chm_message c (content buf) = Some (i, m)" "chm_judged now i m c (chm_decrypt env now op32 buf c)"
    | (rejected) "chm_rejected c (chm_decrypt env now op32 buf c)"
      "b_size buf \<le> fc_payload (de_frame (ce_dc env) ! DECRYPT_WORK) \<longrightarrow> chm_message c (content buf) = None"
proof -
  have ok: "hmac_ok (hd_hmac c)" "\<not> pdr_wide (hd_pid_recv c)" "work_ok (hd_work c)" "ctx_ok CIPHER_DECRYPT (hd_cipher c)" using c by (simp_all add: chm_ok_def)
  have wf: "buf_wf buf" using b(1) by (simp add: work_ok_def)
  let ?n = "hmac_length (hd_hmac c)"
  let ?b1 = "buf\<lparr>b_offset := b_offset buf + ?n, b_size := b_size buf - ?n\<rparr>"
  note h = check_hmac_eq [OF b(1) ok(1)]
  show thesis
  proof (cases "?n \<le> b_size buf \<and> take ?n (content buf) = hmac_tag (hd_hmac c) (drop ?n (content buf))")
    case False
    then have n: "chm_message c (content buf) = None" using wf by (auto simp: chm_message_def Let_def)
    have "chm_rejected c (chm_decrypt env now op32 buf c)"
    proof (cases "?n \<le> b_size buf")
      case True
      have "chm_rejected c (Inr HMAC_ERROR, buf_reset_size ?b1, c)"
        by (rule chm_rejected_same [OF work_ok_reset [OF work_ok_consume [OF b(1) True]] ok(3) chm_refused_simps(4)])
      then show ?thesis using True False h b(2) by (simp add: chm_decrypt_def)
    next
      case lt: False
      have "chm_rejected c (Inl (BufferException buffer_underflow), buf, c)" by (rule chm_rejected_same [OF b(1) ok(3) chm_refused_simps(1)])
      then show ?thesis using lt h b(2) by (simp add: chm_decrypt_def)
    qed
    then show thesis using rejected n by simp
  next
    case True
    have b1: "work_ok ?b1" "content ?b1 = drop ?n (content buf)" "b_size ?b1 < 2 ^ 31"
      using work_ok_consume [OF b(1)] content_consume [of buf ?n] True b(3) by simp_all
    have msg: "chm_message c (content buf) = Option.bind (chm_plain (cc_ctx (hd_cipher c)) (content ?b1)) chm_numbered"
      using True wf b1(2) by (simp add: chm_message_def Let_def)
    have d: "chm_decrypt env now op32 buf c = (if cc_defined (hd_cipher c) then chm_decrypt_cipher env now ?b1 c else chm_decrypt_plain now ?b1 c)"
      using True h b(2) by (simp add: chm_decrypt_def)
    from ok(4) show thesis
    proof (cases rule: ctx_ok_cases)
      case null
      then show thesis using chm_decrypt_plain_outcome [OF b1(1) ok(3,2), of now] d msg judged rejected
        by (auto simp: cc_defined_def chm_plain_def split: option.splits)
    next
      case (ready ci key)
      have d1: "chm_decrypt env now op32 buf c = chm_decrypt_cipher env now ?b1 c" using d ready(1) by (simp add: cc_defined_def)
      show thesis
        by (rule chm_decrypt_cipher_outcome [OF env b1(1,3) ok(3,2) ready, of now]) (use judged rejected d1 msg in auto)
    qed
  qed
qed

section \<open>Two ends\<close>

lemma chm_plain_body:
  assumes "ctx_ok CIPHER_ENCRYPT cc" "chm_body (cc_ctx cc) iv m = Some body" "length iv = ctx_iv_size (cc_ctx cc)"
  shows "chm_plain (cc_ctx cc) body = Some m \<and> length body \<le> length m + 48 \<and> (m \<noteq> [] \<longrightarrow> body \<noteq> [])"
  using assms(1)
proof (cases rule: ctx_ok_cases)
  case null
  then show ?thesis using assms(2) by (simp add: chm_body_def chm_plain_def)
next
  case (ready ci key)
  obtain r where r: "cph_set_iv ci iv" "evp_run ci CIPHER_ENCRYPT key iv m = Some r" "body = iv @ r"
    using assms(2) ready(1) by (auto simp: chm_body_def split: if_splits)
  have "evp_run ci CIPHER_DECRYPT key iv r = Some m" "length r \<le> length m + cph_block_size ci" "r \<noteq> []" using ready(2) r(2) unfolding evp_ok_def by blast+
  then show ?thesis using ready(1) r(1,3) assms(3) evp_ok_sizes [OF ready(2)] by (simp add: chm_plain_def ctx_iv_size_def Let_def)
qed

definition ctx_total :: "evp_ctx \<Rightarrow> bool" where
  "ctx_total x \<longleftrightarrow> (\<forall>iv m. length iv = ctx_iv_size x \<longrightarrow> chm_body x iv m \<noteq> None)"

text \<open>
  The receiver has the keys of the sender and has seen nothing newer than was sent; the library encrypts whatever it
  is given, and the network carries the bytes of a packet.
\<close>

definition chm_matched :: "chm_crypto \<Rightarrow> chm_crypto \<Rightarrow> bool" where
  "chm_matched c c' \<longleftrightarrow> chm_ok c \<and> chm_ok c' \<and> cc_ctx (he_cipher c) = cc_ctx (hd_cipher c') \<and> he_hmac c = hd_hmac c'
     \<and> ctx_total (cc_ctx (he_cipher c)) \<and> pd_id (he_pid_send c) < 0xffffffff
     \<and> (\<exists>t. pdr_rel 8 (hd_pid_recv c') t) \<and> r_high (pdr_ring (hd_pid_recv c')) \<le> pd_id (he_pid_send c)"

definition chm_wire_ok :: "chm_env \<Rightarrow> (byte list \<Rightarrow> buffer) \<Rightarrow> bool" where
  "chm_wire_ok er wire \<longleftrightarrow> (\<forall>bs. length bs \<le> fc_payload (de_frame (ce_dc er) ! DECRYPT_WORK) \<longrightarrow> work_ok (wire bs) \<and> content (wire bs) = bs)"

definition chm_message_ok :: "chm_env \<Rightarrow> chm_env \<Rightarrow> dc_input \<Rightarrow> bool" where
  "chm_message_ok es er x \<longleftrightarrow> (case x of (now, op32, buf) \<Rightarrow> chm_plain_ok es buf \<and> 0 < b_size buf
     \<and> b_size buf + 116 \<le> fc_payload (de_frame (ce_dc er) ! DECRYPT_WORK) \<and> b_size buf + 116 < 2 ^ 31)"

definition chm_linked :: "chm_env \<Rightarrow> chm_env \<Rightarrow> (byte list \<Rightarrow> buffer) \<Rightarrow> chm_crypto \<Rightarrow> chm_crypto \<Rightarrow> bool" where
  "chm_linked es er wire c c' \<longleftrightarrow> chm_env_ok es \<and> chm_env_ok er \<and> chm_wire_ok er wire \<and> chm_matched c c'"

lemma chm_encrypt_matched:
  assumes env: "chm_env_ok es" and m: "chm_matched c c'" and buf: "chm_plain_ok es buf" "0 < b_size buf" and q: "pds_next (he_pid_send c) = (Inr p, p)"
  obtains b c1 body where "chm_encrypt es op32 buf c = (Inr (pds_wrap_warning p), b, c1)" "he_pid_send c1 = p" "chm_matched c1 c'"
    "content b = chm_packet_of (hd_hmac c') body" "chm_plain (cc_ctx (hd_cipher c')) body = Some (wire_id p @ content buf)" "length body \<le> b_size buf + 52" "body \<noteq> []"
proof -
  have ok: "chm_ok c" "cc_ctx (he_cipher c) = cc_ctx (hd_cipher c')" "he_hmac c = hd_hmac c'" "ctx_total (cc_ctx (he_cipher c))" "pd_id (he_pid_send c) < 0xffffffff"
    using m unfolding chm_matched_def by blast+
  have k: "ctx_ok CIPHER_ENCRYPT (he_cipher c)" "\<not> pd_wide (he_pid_send c)" using ok(1) by (simp_all add: chm_ok_def)
  let ?x = "cc_ctx (he_cipher c)"
  let ?iv = "map (he_rng c) [0..<ctx_iv_size ?x]"
  obtain body where body: "chm_body ?x ?iv (wire_id p @ content buf) = Some body" using ok(4) by (fastforce simp: ctx_total_def)
  obtain b g w where e: "chm_encrypt es op32 buf c = (Inr (pds_wrap_warning p), b, c\<lparr>he_rng := g, he_pid_send := p, he_work := w\<rparr>)" "work_ok w"
    "content b = chm_packet_of (he_hmac c) body"
    by (rule chm_encrypt_sent [OF env ok(1) buf q body, of op32]) blast
  note st = pds_next_step [OF q k(2) ok(5)]
  have mm: "chm_matched (c\<lparr>he_rng := g, he_pid_send := p, he_work := w\<rparr>) c'"
    using m st(1,2) pds_next_wide [OF q] k(2) e(2) by (auto simp: chm_matched_def chm_ok_def)
  have "length (content buf) = b_size buf" "content buf \<noteq> []" using buf by (auto simp: chm_plain_ok_def work_ok_def simp flip: length_0_conv)
  then have pl: "chm_plain (cc_ctx (hd_cipher c')) body = Some (wire_id p @ content buf)" "length body \<le> b_size buf + 52" "body \<noteq> []"
    using chm_plain_body [OF k(1) body] ok(2) by simp_all
  show thesis by (rule that [OF e(1) _ mm _ pl]) (use e(3) ok(3) in simp_all)
qed

lemma chm_encrypt_pid:
  assumes "chm_encrypt env op32 buf c = (Inr wn, b, c')" "0 < b_size buf"
  obtains p where "pds_next (he_pid_send c) = (Inr p, p)"
proof -
  obtain r p where q: "pds_next (he_pid_send c) = (r, p)" by fastforce
  have "\<exists>y. r = Inr y"
  proof (cases r)
    case (Inl e)
    have n: "chm_next_id buf c0 = (Inl e, c0\<lparr>he_pid_send := p\<rparr>)" if "he_pid_send c0 = he_pid_send c" for c0
      using that q Inl by (simp add: chm_next_id_def pds_prepend_next_def)
    have "\<exists>e b c'. chm_encrypt_buf env buf c = (Inl e, b, c')"
      using n assms(2) by (simp add: chm_encrypt_buf_def chm_encrypt_cipher_def chm_encrypt_plain_def chm_rand_def split: sum.split)
    then show ?thesis using assms(1) by (auto simp: chm_encrypt_def)
  qed simp
  then show thesis using that q pds_next_wide [OF q] by auto
qed

lemma chm_round:
  assumes env: "chm_env_ok er" and m: "chm_matched c1 c'" and old: "r_high (pdr_ring (hd_pid_recv c')) < pd_id p" and p: "pd_id p = pd_id (he_pid_send c1)"
    and pkt: "chm_plain (cc_ctx (hd_cipher c')) body = Some (wire_id p @ d)"
    and b: "work_ok b" "content b = chm_packet_of (hd_hmac c') body" "b_size b \<le> fc_payload (de_frame (ce_dc er) ! DECRYPT_WORK)" "b_size b < 2 ^ 31" "0 < b_size b"
    and u: "ucast (ucast (pd_id p) :: u32) = pd_id p"
  shows "\<exists>b3 c3. chm_decrypt er now op32 b c' = (Inr ERR_SUCCESS, b3, c3) \<and> content b3 = d \<and> chm_matched c1 c3"
proof -
  have ok: "chm_ok c'" "hmac_ok (hd_hmac c')" using m by (simp_all add: chm_matched_def chm_ok_def)
  obtain t where t: "pdr_rel 8 (hd_pid_recv c') t" using m by (auto simp: chm_matched_def)
  have msg: "chm_message c' (content b) = Some (ucast (pd_id p), d)"
    using pkt hmac_tag_length [OF ok(2), of body] b(2) by (simp add: chm_message_def chm_packet_of_def chm_numbered_def Let_def)
  obtain r t' where r: "pdr_test_add 8 30 (chm_pid (ucast (pd_id p))) now (hd_pid_recv c') = (True, r)" "pdr_rel 8 r t'" "r_high (pdr_ring r) = pd_id p"
    "pdr_wide r = pdr_wide (hd_pid_recv c')"
    using pdr_test_add_ascending [OF t, of "chm_pid (ucast (pd_id p))"] old u by (metis packet_id_data.select_convs(1))
  have "chm_judged now (ucast (pd_id p)) d c' (chm_decrypt er now op32 b c')"
    by (rule chm_decrypt_outcome [OF env ok(1) b(1,5,4), of now op32]) (use msg b(3) in auto)
  then obtain b3 w where e: "work_ok b3" "work_ok w" "content b3 = d" "chm_decrypt er now op32 b c' = (Inr ERR_SUCCESS, b3, c'\<lparr>hd_pid_recv := r, hd_work := w\<rparr>)"
    using r(1) by (auto simp: chm_judged_def)
  have "chm_matched c1 (c'\<lparr>hd_pid_recv := r, hd_work := w\<rparr>)" using m r p e(2) by (auto simp: chm_matched_def chm_ok_def)
  then show ?thesis using e by blast
qed

interpretation chm_ends: dc_pair "chm_encrypt es" "chm_decrypt er" wire "chm_linked es er wire" "\<lambda>c. ids_left (he_pid_send c)" "chm_message_ok es er"
  for es er wire
proof
  fix s r now op32 buf
  assume a: "chm_linked es er wire s r" "chm_message_ok es er (now, op32, buf)" "0 < ids_left (he_pid_send s)"
  have l: "chm_env_ok es" "chm_matched s r" "chm_plain_ok es buf" "0 < b_size buf" using a(1,2) by (simp_all add: chm_linked_def chm_message_ok_def)
  have nw: "\<not> pd_wide (he_pid_send s)" using l(2) by (simp add: chm_matched_def chm_ok_def)
  obtain p where p: "pds_next (he_pid_send s) = (Inr p, p)" "unat (pd_id p) = unat (pd_id (he_pid_send s)) + 1"
    using pds_next_ok [of "he_pid_send s"] a(3) nw by (simp add: ids_left_def)
  obtain b s1 where "chm_encrypt es op32 buf s = (Inr (pds_wrap_warning p), b, s1)" "he_pid_send s1 = p" "chm_matched s1 r"
    by (rule chm_encrypt_matched [OF l p(1), of op32]) blast
  then show "\<exists>wn b s1. chm_encrypt es op32 buf s = (Inr wn, b, s1) \<and> ids_left (he_pid_send s) \<le> Suc (ids_left (he_pid_send s1)) \<and> chm_linked es er wire s1 r"
    using a(1) p(2) by (auto simp: chm_linked_def ids_left_def)
next
  fix s r now op32 buf wn b s1
  assume a: "chm_linked es er wire s r" "chm_message_ok es er (now, op32, buf)" "chm_encrypt es op32 buf s = (Inr wn, b, s1)"
  have l: "chm_env_ok es" "chm_matched s r" "chm_plain_ok es buf" "0 < b_size buf" "chm_env_ok er" "chm_wire_ok er wire"
    and sz: "b_size buf + 116 \<le> fc_payload (de_frame (ce_dc er) ! DECRYPT_WORK)" "b_size buf + 116 < 2 ^ 31"
    using a(1,2) by (simp_all add: chm_linked_def chm_message_ok_def)
  obtain p where p: "pds_next (he_pid_send s) = (Inr p, p)" by (rule chm_encrypt_pid [OF a(3) l(4)])
  obtain body where e: "he_pid_send s1 = p" "chm_matched s1 r" "content b = chm_packet_of (hd_hmac r) body"
    "chm_plain (cc_ctx (hd_cipher r)) body = Some (wire_id p @ content buf)" "length body \<le> b_size buf + 52" "body \<noteq> []"
    by (rule chm_encrypt_matched [OF l(1-4) p, of op32]) (use a(3) in auto)
  have k: "hmac_ok (hd_hmac r)" "\<not> pd_wide (he_pid_send s)" "pd_id (he_pid_send s) < 0xffffffff" "r_high (pdr_ring (hd_pid_recv r)) \<le> pd_id (he_pid_send s)"
    using l(2) by (simp_all add: chm_matched_def chm_ok_def)
  note st = pds_next_step [OF p k(2,3)]
  have len: "length (content b) \<le> b_size buf + 116" using e(3,5) hmac_tag_length [OF k(1)] hmac_length_le [OF k(1)] by (simp add: chm_packet_of_def)
  then have w: "work_ok (wire (content b))" "content (wire (content b)) = content b" using l(6) sz(1) by (simp_all add: chm_wire_ok_def)
  then have n: "b_size (wire (content b)) = length (content b)" using length_content [of "wire (content b)"] by (simp add: work_ok_def)
  have old: "r_high (pdr_ring (hd_pid_recv r)) < pd_id p" using k(4) st(1) by (rule order.strict_trans1)
  have z: "0 < length (content b)" using e(3,6) by (simp add: chm_packet_of_def)
  show "\<exists>b3 r3. chm_decrypt er now op32 (wire (content b)) r = (Inr ERR_SUCCESS, b3, r3) \<and> content b3 = content buf \<and> chm_linked es er wire s1 r3"
    using chm_round [OF l(5) e(2) old _ e(4) w(1) _ _ _ _ st(3), of now op32] w(2) e(1,3) n len sz z a(1) by (fastforce simp: chm_linked_def)
qed

section \<open>Runs\<close>

definition chm_step :: "chm_env \<Rightarrow> chm_crypto \<Rightarrow> dc_input \<Rightarrow> bool \<times> chm_crypto" where
  "chm_step env c x =
     (case x of (now, op32, buf) \<Rightarrow> let (r, _, c') = chm_decrypt env now op32 buf c in (0 < b_size buf \<and> r = Inr ERR_SUCCESS, c'))"

text \<open>The packet ID is known once the packet is decrypted.\<close>

definition chm_input_id :: "chm_crypto \<Rightarrow> dc_input \<Rightarrow> nat" where
  "chm_input_id c x = (case chm_message c (content (snd (snd x))) of Some (i, m) \<Rightarrow> unat i | None \<Rightarrow> 0)"

definition chm_input_ok :: "dc_input \<Rightarrow> bool" where
  "chm_input_ok x \<longleftrightarrow> work_ok (snd (snd x)) \<and> b_size (snd (snd x)) < 2 ^ 31"

definition chm_ready :: "chm_env \<Rightarrow> chm_crypto \<Rightarrow> nat set \<Rightarrow> bool" where
  "chm_ready env c K \<longleftrightarrow> chm_env_ok env \<and> chm_ok c \<and> pdr_known (hd_pid_recv c) K"

lemma chm_decrypt_ready:
  assumes c: "chm_ready env c K" and x: "work_ok buf" "b_size buf < 2 ^ 31" "0 < b_size buf" and d: "chm_decrypt env now op32 buf c = (r, b', c')"
  shows "chm_ok c' \<and> work_ok b' \<and> (case r of Inl e \<Rightarrow> chm_exn e | Inr er \<Rightarrow> er \<in> {ERR_SUCCESS, HMAC_ERROR, DECRYPT_ERROR, REPLAY_ERROR})
    \<and> (\<forall>er. r = Inr er \<longrightarrow> er \<noteq> ERR_SUCCESS \<longrightarrow> content b' = [])
    \<and> (if r = Inr ERR_SUCCESS
       then \<exists>i. chm_message c (content buf) = Some (i, content b') \<and> unat i \<notin> K \<and> pdr_known (hd_pid_recv c') (insert (unat i) K)
       else pdr_known (hd_pid_recv c') K)
    \<and> (chm_message c (content buf) = None \<longrightarrow> c' = c\<lparr>hd_work := hd_work c'\<rparr>)"
proof -
  have env: "chm_env_ok env" and ok: "chm_ok c" and k: "pdr_known (hd_pid_recv c) K" using c by (simp_all add: chm_ready_def)
  show ?thesis
  proof (rule chm_decrypt_outcome [OF env ok x(1,3,2), of now op32])
    assume "chm_rejected c (chm_decrypt env now op32 buf c)"
    then obtain w where a: "work_ok b'" "work_ok w" "chm_refused r b'" "c' = c\<lparr>hd_work := w\<rparr>" using d by (auto simp: chm_rejected_def)
    then show ?thesis using ok k by (cases r) (auto simp: chm_refused_def chm_ok_def content_def)
  next
    fix i m assume judged: "chm_message c (content buf) = Some (i, m)" "chm_judged now i m c (chm_decrypt env now op32 buf c)"
    obtain acc pr where v: "pdr_test_add 8 30 (chm_pid i) now (hd_pid_recv c) = (acc, pr)" "pdr_wide pr = pdr_wide (hd_pid_recv c)"
      "pdr_known pr (if acc then insert (unat (pd_id (chm_pid i))) K else K)" "acc \<Longrightarrow> unat (pd_id (chm_pid i)) \<notin> K"
      by (rule pdr_test_add_known [OF k, where xp = 30 and pin = "chm_pid i" and now = now]) blast
    obtain w where a: "work_ok b'" "work_ok w" "if acc then content b' = m else b_size b' = 0"
      "r = Inr (if acc then ERR_SUCCESS else REPLAY_ERROR)" "c' = c\<lparr>hd_pid_recv := pr, hd_work := w\<rparr>"
      using judged(2) v(1) d by (auto simp: chm_judged_def)
    have o: "chm_ok c'" using ok a(2,5) v(2) by (simp add: chm_ok_def)
    show ?thesis using o a v judged(1) by (cases acc) (auto simp: content_def)
  qed
qed

interpretation chm: fresh_steps "chm_step env" chm_input_id "chm_ready env" chm_input_ok for env
proof
  fix c K x r c'
  assume a: "chm_ready env c K" "chm_input_ok x" "chm_step env c x = (r, c')"
  obtain now op32 buf where x: "x = (now, op32, buf)" by (metis prod_cases3)
  obtain q b where d: "chm_decrypt env now op32 buf c = (q, b, c')" and r: "r = (0 < b_size buf \<and> q = Inr ERR_SUCCESS)"
    using a(3) by (auto simp: chm_step_def x Let_def split: prod.splits)
  have i: "work_ok buf" "b_size buf < 2 ^ 31" and e: "chm_env_ok env" using a(1,2) by (simp_all add: chm_input_ok_def x chm_ready_def)
  show "\<exists>K'. chm_ready env c' K' \<and> K \<subseteq> K' \<and> (r \<longrightarrow> chm_input_id c x \<in> K' - K)"
  proof (cases "b_size buf = 0")
    case True
    then show ?thesis using a(1) r d by (auto simp: chm_decrypt_def)
  next
    case False
    then show ?thesis using chm_decrypt_ready [OF a(1) i _ d] e r
      by (cases "q = Inr ERR_SUCCESS") (auto simp: chm_ready_def x chm_input_id_def)
  qed
qed

section \<open>The size of packets\<close>

definition ctx_block_size :: "evp_ctx \<Rightarrow> nat" where
  "ctx_block_size x = (case x of EVP_READY ci key \<Rightarrow> cph_block_size ci | _ \<Rightarrow> 0)"

lemma chm_body_length:
  "ctx_ok CIPHER_ENCRYPT cc \<Longrightarrow> chm_body (cc_ctx cc) iv m = Some body \<Longrightarrow> length iv = ctx_iv_size (cc_ctx cc) \<Longrightarrow>
     length body \<le> length m + ctx_iv_size (cc_ctx cc) + ctx_block_size (cc_ctx cc)"
  by (erule ctx_ok_cases) (auto simp: chm_body_def ctx_iv_size_def ctx_block_size_def evp_ok_def split: if_splits)

lemma chm_encrypt_failed:
  assumes env: "chm_env_ok env" and c: "chm_ok c" and buf: "chm_plain_ok env buf" "0 < b_size buf" and q: "pds_next (he_pid_send c) = (Inr p, p)"
    and body: "chm_body (cc_ctx (he_cipher c)) (map (he_rng c) [0..<ctx_iv_size (cc_ctx (he_cipher c))]) (wire_id p @ content buf) = None"
    and r: "chm_encrypt env op32 buf c = (Inr wn, b, c')"
  shows "b_size b = 0"
proof -
  have ok: "\<not> pd_wide (he_pid_send c)" "work_ok (he_work c)" "ctx_ok CIPHER_ENCRYPT (he_cipher c)" using c by (simp_all add: chm_ok_def)
  have bo: "work_ok buf" "68 \<le> b_offset buf" using buf(1) by (simp_all add: chm_plain_ok_def)
  obtain ci key where x: "cc_ctx (he_cipher c) = EVP_READY ci key" "evp_ok ci" "cc_mode (he_cipher c) = CIPHER_ENCRYPT"
    using ok(3) body by (auto elim!: ctx_ok_cases simp: chm_body_def)
  let ?iv = "map (he_rng c) [0..<cph_iv_size ci]" and ?c1 = "c\<lparr>he_rng := \<lambda>i. he_rng c (i + cph_iv_size ci)\<rparr>"
  obtain b1 where b1: "chm_next_id buf ?c1 = (Inr b1, ?c1\<lparr>he_pid_send := p\<rparr>)" "work_ok b1" "content b1 = wire_id p @ content buf"
    by (rule chm_next_id_ok [OF bo(1), of ?c1 p]) (use bo(2) ok(1) q in simp_all)
  obtain w where w: "dc_prepare (ce_dc env) ENCRYPT_WORK (he_work c) = Inr w" "work_ok w" "b_size w = 0"
    by (rule chm_prepare_ok [OF env ok(2), of ENCRYPT_WORK]) (simp_all add: ENCRYPT_WORK_def N_ALIGN_CONTEXTS_def)
  have len: "length (content b1) < 2 ^ 31" using b1(3) buf(1) by (simp add: chm_plain_ok_def work_ok_def)
  have none: "\<not> cph_set_iv ci ?iv \<or> evp_run ci CIPHER_ENCRYPT key ?iv (content b1) = None"
    using body x(1) b1(3) by (auto simp: chm_body_def ctx_iv_size_def)
  have "(\<exists>e. chm_seal env ?iv (content b1) (?c1\<lparr>he_pid_send := p\<rparr>) = Inl e) \<or> (\<exists>w. chm_seal env ?iv (content b1) (?c1\<lparr>he_pid_send := p\<rparr>) = Inr (False, w))"
    by (rule cc_run [OF x(1,2) w(2,3) len, of ?iv]) (use w(1) x(3) none in \<open>auto simp: chm_seal_def cc_encrypt_def\<close>)
  then show ?thesis
    using r x buf(2) b1(1) by (auto simp: chm_encrypt_def chm_encrypt_buf_def chm_encrypt_cipher_def chm_rand_def cc_defined_def cc_iv_length_def
        cc_is_cbc_def evp_ready_def evp_ok_def buf_reset_size_def)
qed

lemma chm_encrypt_length:
  assumes env: "chm_env_ok env" and c: "chm_ok c" and buf: "chm_plain_ok env buf" "0 < b_size buf" and r: "chm_encrypt env op32 buf c = (Inr wn, b, c')"
  defines "x \<equiv> cc_ctx (he_cipher c)"
  shows "length (content b) \<le> b_size buf + 4 + hmac_length (he_hmac c) + ctx_iv_size x + ctx_block_size x"
proof -
  obtain p where p: "pds_next (he_pid_send c) = (Inr p, p)" by (rule chm_encrypt_pid [OF r buf(2)])
  let ?iv = "map (he_rng c) [0..<ctx_iv_size x]"
  have ok: "ctx_ok CIPHER_ENCRYPT (he_cipher c)" "hmac_ok (he_hmac c)" using c by (simp_all add: chm_ok_def)
  have l: "length (content buf) = b_size buf" using buf(1) by (simp add: chm_plain_ok_def work_ok_def)
  show ?thesis
  proof (cases "chm_body x ?iv (wire_id p @ content buf)")
    case None
    then show ?thesis using chm_encrypt_failed [OF env c buf p _ r] by (simp add: x_def content_def)
  next
    case (Some body)
    have "content b = chm_packet_of (he_hmac c) body"
      by (rule chm_encrypt_sent [OF env c buf p, of body op32]) (use r Some in \<open>auto simp: x_def\<close>)
    then show ?thesis using chm_body_length [OF ok(1), of ?iv "wire_id p @ content buf" body] Some hmac_tag_length [OF ok(2)] l by (simp add: x_def chm_packet_of_def)
  qed
qed

section \<open>An instance\<close>

text \<open>A cipher with the sizes of AES-128-CBC that pads with one byte, and a digest of the size of SHA1.\<close>

definition ex_cph :: evp_cipher where
  "ex_cph = \<lparr>cph_iv_size = 16, cph_block_size = 16, cph_key_size = 16, cph_cbc = True, cph_set_key = (\<lambda>_. True), cph_set_iv = (\<lambda>_. True),
     cph_run_update = (\<lambda>md key iv m. if md = CIPHER_ENCRYPT then Some (map (\<lambda>b. b + hd key) m) else Some (map (\<lambda>b. b - hd key) (butlast m))),
     cph_run_final = (\<lambda>md key iv m. if md = CIPHER_ENCRYPT then Some [255] else if m = [] then None else Some [])\<rparr>"

definition ex_dg :: digest where
  "ex_dg = \<lparr>dg_hmac = (\<lambda>key m. take 20 (map2 (XOR) key (m @ replicate 20 0) @ replicate 20 0)), dg_size = 20\<rparr>"

definition ex_chm_env :: chm_env where
  "ex_chm_env = \<lparr>ce_dc = ex_dc_env\<lparr>de_algs := algs_init, de_frame := replicate N_ALIGN_CONTEXTS (fc_ctor 128 512 32 0 8 0)\<rparr>,
     ce_fetch = (\<lambda>n. Some ex_cph), ce_mac = (\<lambda>n. Some ex_dg)\<rparr>"

definition ex_chm :: chm_crypto where
  "ex_chm = (chm_new (\<lambda>i. of_nat i))\<lparr>he_cipher := \<lparr>cc_mode = CIPHER_ENCRYPT, cc_ctx = EVP_READY ex_cph (replicate 16 7)\<rparr>,
     hd_cipher := \<lparr>cc_mode = CIPHER_DECRYPT, cc_ctx = EVP_READY ex_cph (replicate 16 7)\<rparr>,
     he_hmac := Some (ex_dg, replicate 20 9), hd_hmac := Some (ex_dg, replicate 20 9)\<rparr>"

definition ex_tun :: "byte list \<Rightarrow> buffer" where
  "ex_tun bs = \<lparr>b_data = replicate 68 0 @ bs, b_offset = 68, b_size = length bs, b_capacity = 68 + length bs, b_flags = Some 0\<rparr>"

lemma ex_cph_run: "evp_run ex_cph CIPHER_ENCRYPT key iv m = Some (map (\<lambda>b. b + hd key) m @ [255])"
  "evp_run ex_cph CIPHER_DECRYPT key iv m = (if m = [] then None else Some (map (\<lambda>b. b - hd key) (butlast m)))"
  by (simp_all add: evp_run_def ex_cph_def)

lemma ex_cph_ok: "evp_ok ex_cph"
proof -
  have "length r \<le> length m + 16" if "evp_run ex_cph md key iv m = Some r" for md key iv m r
    using that by (auto simp: evp_run_def ex_cph_def split: if_splits)
  moreover have "length o1 \<le> length m + 16" if "cph_run_update ex_cph md key iv m = Some o1" for md key iv m o1
    using that by (auto simp: ex_cph_def split: if_splits)
  moreover have "cph_iv_size ex_cph = 16" "cph_block_size ex_cph = 16" "cph_cbc ex_cph" by (simp_all add: ex_cph_def)
  ultimately show ?thesis by (simp add: evp_ok_def EVP_MAX_IV_LENGTH_def ex_cph_run comp_def)
qed

lemma ex_dg_ok: "digest_ok ex_dg"
  by (auto simp: digest_ok_def ex_dg_def)

lemma ex_chm_env_ok: "chm_env_ok ex_chm_env"
  by (simp add: chm_env_ok_def ex_chm_env_def fc_wf_def fc_ctor_def fc_recalc_derived_def sz_add_def sz_sub_def sz_max_def Let_def)

lemma ex_chm_payload: "i < N_ALIGN_CONTEXTS \<Longrightarrow> fc_payload (de_frame (ce_dc ex_chm_env) ! i) = 512"
  by (simp add: ex_chm_env_def fc_ctor_def fc_recalc_derived_def Let_def)

lemma ex_chm_ok: "chm_ok ex_chm"
  using ex_cph_ok ex_dg_ok
  by (simp add: chm_ok_def ex_chm_def chm_new_def ctx_ok_def hmac_ok_def pds_default_def pdr_init_def work_ok_def buf_clear_def buf_wf_def sz_max_def)

lemma ex_tun_ok: "length bs \<le> 396 \<Longrightarrow> chm_plain_ok ex_chm_env (ex_tun bs) \<and> content (ex_tun bs) = bs"
  by (simp add: chm_plain_ok_def ex_chm_payload ENCRYPT_WORK_def N_ALIGN_CONTEXTS_def) (simp add: ex_tun_def work_ok_def buf_wf_def sz_max_def content_def)

section \<open>Properties\<close>

text \<open>
  C15. No replay with CBC and HMAC. Starting from a freshly initialised replay filter, whatever sequence of packets
  arrives, at whatever times, forged, damaged, reordered or repeated: no packet ID is accepted twice, also where
  cipher or digest is \<open>none\<close>.
\<close>

theorem chm_no_replay:
  assumes "chm_env_ok env" "chm_ok c" "hd_pid_recv c = pdr_init 8 False" "\<forall>x\<in>set xs. chm_input_ok x"
  shows "distinct (accepted_keys (chm_step env) chm_input_id c xs)"
  using chm.run_distinct [of env c "{}" xs] assms pdr_known_init [of False] by (simp add: chm_ready_def)

theorem chm_no_replay_witness:
  "chm_input_ok (3, None, ex_wire [1, 2, 3])
   \<and> distinct (accepted_keys (chm_step ex_chm_env) chm_input_id ex_chm [(3, None, ex_wire [1, 2, 3]), (4, None, ex_wire [1, 2, 3])])"
proof -
  have i: "chm_input_ok (t, None, ex_wire [1, 2, 3])" for t using ex_wire_ok [of "[1, 2, 3]"] by (simp add: chm_input_ok_def) (simp add: ex_wire_def)
  moreover have "hd_pid_recv ex_chm = pdr_init 8 False" by (simp add: ex_chm_def chm_new_def)
  ultimately show ?thesis
    using chm_no_replay [OF ex_chm_env_ok ex_chm_ok, of "[(3, None, ex_wire [1, 2, 3]), (4, None, ex_wire [1, 2, 3])]"] by simp
qed


definition ex_chm_key :: "chm_crypto key_context" where
  "ex_chm_key = (kc_construct ex_cfg 5 2 True)\<lparr>kc_state := ACTIVE, kc_crypto := Some ex_chm, crypto_defined := True\<rparr>"


text \<open>
  C39. The announced overhead. When the sizes of cipher and digest in the library are those of the table of algorithms,
  an encrypted packet is longer than the plaintext by at most the packet ID and what \<open>encap_overhead\<close> says.
\<close>

theorem chm_overhead:
  assumes "chm_env_ok env" "chm_ok c" "chm_plain_ok env buf" "0 < b_size buf" "chm_encrypt env op32 buf c = (Inr wn, b, c')"
    and "alg_size algs digest = Inr (hmac_length (he_hmac c))" "alg_iv_length algs cipher = Inr (ctx_iv_size (cc_ctx (he_cipher c)))"
    and "alg_block_size algs cipher = Inr (ctx_block_size (cc_ctx (he_cipher c)))"
  shows "\<exists>n. chm_encap_overhead algs cipher digest = Inr n \<and> length (content b) \<le> b_size buf + pd_size False + n"
proof -
  have "hmac_length (he_hmac c) \<le> 64" "ctx_ok CIPHER_ENCRYPT (he_cipher c)" using assms(2) hmac_length_le by (simp_all add: chm_ok_def)
  moreover from this(2) have "ctx_iv_size (cc_ctx (he_cipher c)) \<le> 16" "ctx_block_size (cc_ctx (he_cipher c)) \<le> 32"
    by (auto elim!: ctx_ok_cases dest: evp_ok_sizes simp: ctx_iv_size_def ctx_block_size_def)
  ultimately show ?thesis using chm_encrypt_length [OF assms(1-5)] assms(6-8) by (simp add: chm_encap_overhead_def sz_add_def sz_max_def pd_size_def)
qed

theorem chm_overhead_witness:
  "\<exists>wn b c' n. chm_encrypt ex_chm_env None (ex_tun [1, 2, 3]) ex_chm = (Inr wn, b, c') \<and> chm_encap_overhead algs_init AES_128_CBC SHA1 = Inr n
     \<and> length (content b) \<le> 3 + 4 + n"
proof -
  have p: "chm_plain_ok ex_chm_env (ex_tun [1, 2, 3])" "0 < b_size (ex_tun [1, 2, 3])" using ex_tun_ok [of "[1, 2, 3]"] by simp_all (simp add: ex_tun_def)
  have q: "pds_next (he_pid_send ex_chm) = (Inr \<lparr>pd_id = 1, pd_wide = False\<rparr>, \<lparr>pd_id = 1, pd_wide = False\<rparr>)"
    by (simp add: ex_chm_def chm_new_def pds_default_def pds_next_def pds_at_limit_def epoch_packet_id_mask_def epoch_packet_id_max_def Let_def)
  have x: "cc_ctx (he_cipher ex_chm) = EVP_READY ex_cph (replicate 16 7)" "he_hmac ex_chm = Some (ex_dg, replicate 20 9)" "cph_set_iv ex_cph iv" for iv
    by (simp_all add: ex_chm_def ex_cph_def)
  obtain b c' where e: "chm_encrypt ex_chm_env None (ex_tun [1, 2, 3]) ex_chm = (Inr (pds_wrap_warning \<lparr>pd_id = 1, pd_wide = False\<rparr>), b, c')"
    by (rule chm_encrypt_sent [OF ex_chm_env_ok ex_chm_ok p q]) (use x in \<open>auto simp: chm_body_def ex_cph_run\<close>)
  have "alg_size algs_init SHA1 = Inr (hmac_length (he_hmac ex_chm))" "alg_iv_length algs_init AES_128_CBC = Inr (ctx_iv_size (cc_ctx (he_cipher ex_chm)))"
    "alg_block_size algs_init AES_128_CBC = Inr (ctx_block_size (cc_ctx (he_cipher ex_chm)))"
    by (simp_all add: x hmac_length_def ctx_iv_size_def ctx_block_size_def ex_dg_def ex_cph_def alg_size_def alg_iv_length_def alg_block_size_def
        alg_get_def alg_get_index_def algs_init_def alg_ctor_def)
  from chm_overhead [OF ex_chm_env_ok ex_chm_ok p e this] e show ?thesis by (auto simp: ex_tun_def pd_size_def)
qed

end
