(* ===== verification/Crypto_Select.thy ===== *)
theory Crypto_Select
  imports Crypto_Epoch Crypto_Chm Static_Key
begin

text \<open>
  The choice between the ways to encrypt the data channel (crypto/cryptodcsel.hpp) and the keys they are given when a
  key context sets up its data channel (\<open>KeyContext::init_data_channel\<close> of ssl/proto.hpp): slices of the 256 bytes
  of key material both ends have agreed on. Shown: the two ends are then matched in both directions, so that the
  packets of both arrive.
\<close>

section \<open>\<open>CryptoDCSelect\<close>\<close>

datatype dc_kind = DC_CHM | DC_AEAD | DC_AEAD_EPOCH

definition dc_select :: "alg list \<Rightarrow> alg_type \<Rightarrow> bool \<Rightarrow> dc_kind result" where
  "dc_select algs cipher use_epoch_keys =
     bindR (alg_get algs cipher) (\<lambda>a.
       if ag_flags a AND CBC_HMAC \<noteq> 0 then Inr DC_CHM
       else if ag_flags a AND AEAD \<noteq> 0 \<and> use_epoch_keys then Inr DC_AEAD_EPOCH
       else if ag_flags a AND AEAD \<noteq> 0 then Inr DC_AEAD
       else Inl (crypto_dc_select (ag_name a @ '': only CBC/HMAC and AEAD cipher modes supported'')))"

text \<open>The constructors of the contexts: those for AEAD check that the cipher is allowed, the one for CBC does not.\<close>

definition dc_new_context :: "alg list \<Rightarrow> dc_settings \<Rightarrow> (dc_kind \<times> dc_settings) result" where
  "dc_new_context algs s =
     bindR (dc_select algs (ds_cipher s) (ds_use_epoch_keys s)) (\<lambda>k.
       case k of
         DC_CHM \<Rightarrow> Inr (k, s)
       | DC_AEAD_EPOCH \<Rightarrow> bindR (ep_context_ctor algs s) (\<lambda>s'. Inr (k, s'))
       | DC_AEAD \<Rightarrow> bindR (aead_context_ctor algs s) (\<lambda>s'. Inr (k, s')))"

section \<open>\<open>init_data_channel\<close>\<close>

definition key_dir :: "bool \<Rightarrow> nat" where
  "key_dir is_server = (if is_server then KEY_INVERSE else KEY_NORMAL)"

definition dc_init_with ::
  "(byte list \<Rightarrow> byte list \<Rightarrow> 'c \<Rightarrow> unit result \<times> 'c) \<Rightarrow> nat \<Rightarrow> bool \<Rightarrow> byte list \<Rightarrow> 'c \<Rightarrow> unit result \<times> 'c" where
  "dc_init_with ini use is_server key c =
     (case bindR (sk_slice key (use + KEY_ENCRYPT + key_dir is_server)) (\<lambda>k1.
             bindR (sk_slice key (use + KEY_DECRYPT + key_dir is_server)) (\<lambda>k2. Inr (k1, k2))) of
        Inl e \<Rightarrow> (Inl e, c)
      | Inr (k1, k2) \<Rightarrow> ini k1 k2 c)"

definition dc_init_keys ::
  "(byte list \<Rightarrow> byte list \<Rightarrow> 'c \<Rightarrow> unit result \<times> 'c) \<Rightarrow> (byte list \<Rightarrow> byte list \<Rightarrow> 'c \<Rightarrow> unit result \<times> 'c) \<Rightarrow> ('c \<Rightarrow> 'c)
    \<Rightarrow> u32 \<Rightarrow> bool \<Rightarrow> byte list \<Rightarrow> 'c \<Rightarrow> unit result \<times> 'c" where
  "dc_init_keys init_cipher init_hmac init_pid crypto_flags is_server key c =
     (case (if crypto_flags AND DC_CIPHER_DEFINED \<noteq> 0 then dc_init_with init_cipher KEY_CIPHER is_server key c else (Inr (), c)) of
        (Inl e, c1) \<Rightarrow> (Inl e, c1)
      | (Inr _, c1) \<Rightarrow>
          (case (if crypto_flags AND DC_HMAC_DEFINED \<noteq> 0 then dc_init_with init_hmac KEY_HMAC is_server key c1 else (Inr (), c1)) of
             (Inl e, c2) \<Rightarrow> (Inl e, c2)
           | (Inr _, c2) \<Rightarrow> (Inr (), init_pid c2)))"

abbreviation aead_init_channel :: "dc_env \<Rightarrow> alg_type \<Rightarrow> bool \<Rightarrow> byte list \<Rightarrow> aead_crypto \<Rightarrow> unit result \<times> aead_crypto" where
  "aead_init_channel env cipher \<equiv> dc_init_keys (aead_init_cipher env cipher) aead_init_hmac aead_init_pid (aead_defined cipher)"

abbreviation chm_init_channel :: "chm_env \<Rightarrow> alg_type \<Rightarrow> alg_type \<Rightarrow> bool \<Rightarrow> byte list \<Rightarrow> chm_crypto \<Rightarrow> unit result \<times> chm_crypto" where
  "chm_init_channel env cipher digest \<equiv> dc_init_keys (chm_init_cipher env cipher) (chm_init_hmac env digest) chm_init_pid (chm_defined cipher digest)"

section \<open>Keys for both ends\<close>

lemma slices_swapped:
  assumes "use = KEY_CIPHER \<or> use = KEY_HMAC"
  shows "sk_slice key (use + KEY_ENCRYPT + key_dir sv) = sk_slice key (use + KEY_DECRYPT + key_dir (\<not> sv))"
proof (cases "length key = KEY_SIZE")
  case True
  then show ?thesis using sk_slices(1,2) [OF True assms] by (cases sv) (simp_all add: key_dir_def)
qed (simp add: sk_slice_def)

lemma dc_init_with_Inr:
  assumes "use = KEY_CIPHER \<or> use = KEY_HMAC" "dc_init_with f use sv key a = (Inr (), a1)" "dc_init_with g use (\<not> sv) key b = (Inr (), b1)"
  obtains k1 k2 where "f k1 k2 a = (Inr (), a1)" "g k2 k1 b = (Inr (), b1)"
  using assms(2,3) slices_swapped [OF assms(1), of key sv] slices_swapped [OF assms(1), of key "\<not> sv"]
  by (auto simp: dc_init_with_def bindR_def split: sum.splits)

lemma dc_init_keys_pid: "dc_init_keys ic ih ip flags sv key a = (Inr (), a') \<Longrightarrow> \<exists>a2. a' = ip a2"
  by (auto simp: dc_init_keys_def split: prod.splits sum.splits)

text \<open>
  What an encryption mode promises of its initialisation: two fresh instances that are given the same keys, each the
  other's for encryption and decryption, are matched.
\<close>

locale dc_keys =
  fixes ic ic' ih ih' :: "byte list \<Rightarrow> byte list \<Rightarrow> 'c \<Rightarrow> unit result \<times> 'c"
    and ip :: "'c \<Rightarrow> 'c" and flags :: u32
    and fresh :: "'c \<Rightarrow> 'c \<Rightarrow> bool" and matched :: "'c \<Rightarrow> 'c \<Rightarrow> bool"
  assumes agree: "fresh a b \<Longrightarrow>
      (if flags AND DC_CIPHER_DEFINED \<noteq> 0 then ic k1 k2 a = (Inr (), a1) \<and> ic' k2 k1 b = (Inr (), b1) else a1 = a \<and> b1 = b) \<Longrightarrow>
      (if flags AND DC_HMAC_DEFINED \<noteq> 0 then ih h1 h2 a1 = (Inr (), a2) \<and> ih' h2 h1 b1 = (Inr (), b2) else a2 = a1 \<and> b2 = b1) \<Longrightarrow>
      matched (ip a2) (ip b2)"
begin

lemma ends_agree:
  assumes "fresh a b" "dc_init_keys ic ih ip flags sv key a = (Inr (), a')" "dc_init_keys ic' ih' ip flags (\<not> sv) key b = (Inr (), b')"
  shows "matched a' b'"
proof -
  obtain a1 b1 where s1: "(if flags AND DC_CIPHER_DEFINED \<noteq> 0 then dc_init_with ic KEY_CIPHER sv key a else (Inr (), a)) = (Inr (), a1)"
      "(if flags AND DC_CIPHER_DEFINED \<noteq> 0 then dc_init_with ic' KEY_CIPHER (\<not> sv) key b else (Inr (), b)) = (Inr (), b1)"
    and r: "(case (if flags AND DC_HMAC_DEFINED \<noteq> 0 then dc_init_with ih KEY_HMAC sv key a1 else (Inr (), a1)) of
        (Inl e, c2) \<Rightarrow> (Inl e, c2) | (Inr _, c2) \<Rightarrow> (Inr (), ip c2)) = (Inr (), a')"
      "(case (if flags AND DC_HMAC_DEFINED \<noteq> 0 then dc_init_with ih' KEY_HMAC (\<not> sv) key b1 else (Inr (), b1)) of
        (Inl e, c2) \<Rightarrow> (Inl e, c2) | (Inr _, c2) \<Rightarrow> (Inr (), ip c2)) = (Inr (), b')"
    using assms(2,3) unfolding dc_init_keys_def by (auto split: prod.splits sum.splits)
  obtain a2 b2 where s2: "(if flags AND DC_HMAC_DEFINED \<noteq> 0 then dc_init_with ih KEY_HMAC sv key a1 else (Inr (), a1)) = (Inr (), a2)"
      "(if flags AND DC_HMAC_DEFINED \<noteq> 0 then dc_init_with ih' KEY_HMAC (\<not> sv) key b1 else (Inr (), b1)) = (Inr (), b2)" "a' = ip a2" "b' = ip b2"
    using r by (auto split: prod.splits sum.splits)
  obtain k1 k2 where k: "if flags AND DC_CIPHER_DEFINED \<noteq> 0 then ic k1 k2 a = (Inr (), a1) \<and> ic' k2 k1 b = (Inr (), b1) else a1 = a \<and> b1 = b"
    using s1 by (cases "flags AND DC_CIPHER_DEFINED = 0") (auto elim: dc_init_with_Inr [rotated])
  obtain h1 h2 where "if flags AND DC_HMAC_DEFINED \<noteq> 0 then ih h1 h2 a1 = (Inr (), a2) \<and> ih' h2 h1 b1 = (Inr (), b2) else a2 = a1 \<and> b2 = b1"
    using s2 by (cases "flags AND DC_HMAC_DEFINED = 0") (auto elim: dc_init_with_Inr [rotated])
  from agree [OF assms(1) k this] s2 show ?thesis by simp
qed

end

section \<open>AEAD\<close>

lemma ax_init_Inr: "ax_init env t key n = Inr x \<Longrightarrow> \<exists>k. aead_cipher_type env t = Some k \<and> ax_key x = Some (take k key)"
  by (auto simp: ax_init_def bindR_eq_Inr split: option.splits if_splits)

lemma aead_init_cipher_Inr:
  assumes "aead_init_cipher env t k1 k2 c = (Inr (), c')"
  obtains x y k where "c' = c\<lparr>e_impl := x, d_impl := y\<rparr>" "aead_cipher_type env t = Some k" "ax_key x = Some (take k k1)" "ax_key y = Some (take k k2)"
  using assms by (auto simp: aead_init_cipher_def Let_def split: sum.splits dest!: ax_init_Inr)

lemma nonce_set_tail_Inr:
  "nonce_set_tail h n = Inr m \<Longrightarrow> length (nc_data n) = 16 \<Longrightarrow> length (nc_data m) = 16 \<and> drop 8 (nc_data m) = take 8 h"
  by (auto simp: nonce_set_tail_def data_offset_pkt_id_def overwrite_def Let_def split: if_splits)

lemma aead_init_hmac_Inr:
  assumes "aead_init_hmac h1 h2 c = (Inr (), c')" "length (nc_data (e_nonce c)) = 16" "length (nc_data (d_nonce c)) = 16"
  obtains m n where "c' = c\<lparr>e_nonce := m, d_nonce := n\<rparr>" "length (nc_data m) = 16" "length (nc_data n) = 16"
    "drop 8 (nc_data m) = take 8 h1" "drop 8 (nc_data n) = take 8 h2"
  using assms nonce_set_tail_Inr by (auto simp: aead_init_hmac_def Let_def split: sum.splits)

lemma aead_defined_flags: "alg_defined t \<Longrightarrow> aead_defined t AND DC_CIPHER_DEFINED \<noteq> 0 \<and> aead_defined t AND DC_HMAC_DEFINED \<noteq> 0"
  by (simp add: aead_defined_def DC_CIPHER_DEFINED_def DC_HMAC_DEFINED_def DC_CRYPTO_DEFINED_def)

definition aead_fresh :: "dc_env \<Rightarrow> dc_env \<Rightarrow> alg_type \<Rightarrow> aead_crypto \<Rightarrow> aead_crypto \<Rightarrow> bool" where
  "aead_fresh es er cipher a b \<longleftrightarrow> de_lib es = de_lib er \<and> alg_defined cipher \<and> a = aead_new \<and> b = aead_new"

lemma work_ok_clear: "work_ok buf_clear"
  by (simp add: work_ok_def buf_clear_def buf_wf_def sz_max_def)

interpretation aead_keys: dc_keys "aead_init_cipher es cipher" "aead_init_cipher er cipher" aead_init_hmac aead_init_hmac aead_init_pid
  "aead_defined cipher" "aead_fresh es er cipher" "aead_matched es er" for es er cipher
proof
  fix a b k1 k2 a1 b1 h1 h2 a2 b2
  assume f: "aead_fresh es er cipher a b"
    and c: "if aead_defined cipher AND DC_CIPHER_DEFINED \<noteq> 0
      then aead_init_cipher es cipher k1 k2 a = (Inr (), a1) \<and> aead_init_cipher er cipher k2 k1 b = (Inr (), b1) else a1 = a \<and> b1 = b"
    and h: "if aead_defined cipher AND DC_HMAC_DEFINED \<noteq> 0
      then aead_init_hmac h1 h2 a1 = (Inr (), a2) \<and> aead_init_hmac h2 h1 b1 = (Inr (), b2) else a2 = a1 \<and> b2 = b1"
  have n: "length (nc_data nonce_default) = 16" by (simp add: nonce_default_def)
  have f': "de_lib es = de_lib er" "a = aead_new" "b = aead_new" "aead_defined cipher AND DC_CIPHER_DEFINED \<noteq> 0" "aead_defined cipher AND DC_HMAC_DEFINED \<noteq> 0"
    using f aead_defined_flags by (auto simp: aead_fresh_def)
  have i: "aead_init_cipher es cipher k1 k2 a = (Inr (), a1)" "aead_init_cipher er cipher k2 k1 b = (Inr (), b1)"
    "aead_init_hmac h1 h2 a1 = (Inr (), a2)" "aead_init_hmac h2 h1 b1 = (Inr (), b2)" using c h f'(4,5) by simp_all
  obtain x y k where a1: "a1 = a\<lparr>e_impl := x, d_impl := y\<rparr>" "aead_cipher_type es cipher = Some k" "ax_key x = Some (take k k1)" "ax_key y = Some (take k k2)"
    by (rule aead_init_cipher_Inr [OF i(1)])
  obtain x' y' k' where b1: "b1 = b\<lparr>e_impl := x', d_impl := y'\<rparr>" "aead_cipher_type er cipher = Some k'" "ax_key x' = Some (take k' k2)" "ax_key y' = Some (take k' k1)"
    by (rule aead_init_cipher_Inr [OF i(2)])
  have k: "k' = k" using a1(2) b1(2) f'(1) by (simp add: aead_cipher_type_def split: if_splits)
  obtain m1 m2 where a2: "a2 = a1\<lparr>e_nonce := m1, d_nonce := m2\<rparr>" "length (nc_data m1) = 16" "length (nc_data m2) = 16" "drop 8 (nc_data m1) = take 8 h1"
    by (rule aead_init_hmac_Inr [OF i(3)]) (use n in \<open>simp_all add: a1(1) f'(2) aead_new_def\<close>)
  obtain n1 n2 where b2: "b2 = b1\<lparr>e_nonce := n1, d_nonce := n2\<rparr>" "length (nc_data n1) = 16" "length (nc_data n2) = 16" "drop 8 (nc_data n2) = take 8 h1"
    by (rule aead_init_hmac_Inr [OF i(4)]) (use n in \<open>simp_all add: b1(1) f'(3) aead_new_def\<close>)
  show "aead_matched es er (aead_init_pid a2) (aead_init_pid b2)"
    using a1 b1 a2 b2 k f'(1-3) work_ok_clear pdr_rel_init [of 8 False]
    by (auto simp: aead_matched_def aead_ok_def aead_init_pid_def aead_new_def pds_default_def pdr_init_def)
qed

section \<open>CBC with HMAC\<close>

text \<open>The ciphers the library has, but for the one in counter mode, and its digests; the same library on both ends.\<close>

definition chm_lib_ok :: "chm_env \<Rightarrow> bool" where
  "chm_lib_ok env \<longleftrightarrow> (\<forall>t ci. evp_cipher_type env t = Some ci \<longrightarrow> t \<noteq> AES_256_CTR \<longrightarrow>
       evp_ok ci \<and> (\<forall>key. ctx_total (EVP_READY ci key))) \<and> (\<forall>n dg. ce_mac env n = Some dg \<longrightarrow> digest_ok dg)"

definition chm_fresh :: "chm_env \<Rightarrow> chm_env \<Rightarrow> alg_type \<Rightarrow> chm_crypto \<Rightarrow> chm_crypto \<Rightarrow> bool" where
  "chm_fresh es er cipher a b \<longleftrightarrow> ce_fetch es = ce_fetch er \<and> ce_mac es = ce_mac er \<and> de_algs (ce_dc es) = de_algs (ce_dc er)
     \<and> chm_lib_ok es \<and> cipher \<noteq> AES_256_CTR \<and> (\<exists>g. a = chm_new g) \<and> (\<exists>g. b = chm_new g)"

lemma cc_init_Inr:
  "cc_init env t key md cc = (Inr (), cc') \<Longrightarrow>
     \<exists>ci. evp_cipher_type env t = Some ci \<and> cc' = \<lparr>cc_mode = md, cc_ctx = EVP_READY ci (take (cph_key_size ci) key)\<rparr>"
  by (cases cc) (auto simp: cc_init_def evp_init_def bindR_def split: sum.splits if_splits option.splits prod.splits)

lemma hm_init_Inr:
  "hm_init env t key hm = (Inr (), x) \<Longrightarrow>
     \<exists>a n dg. alg_get (de_algs (ce_dc env)) t = Inr a \<and> alg_name (de_algs (ce_dc env)) t None = Inr n \<and> ce_mac env n = Some dg \<and> x = Some (dg, take (ag_size a) key)"
  by (auto simp: hm_init_def mac_init_def bindR_def split: sum.splits if_splits option.splits)

lemma chm_init_cipher_Inr:
  assumes "chm_init_cipher env t k1 k2 c = (Inr (), c')"
  obtains ci where "evp_cipher_type env t = Some ci"
    "c' = c\<lparr>he_cipher := \<lparr>cc_mode = CIPHER_ENCRYPT, cc_ctx = EVP_READY ci (take (cph_key_size ci) k1)\<rparr>,
            hd_cipher := \<lparr>cc_mode = CIPHER_DECRYPT, cc_ctx = EVP_READY ci (take (cph_key_size ci) k2)\<rparr>\<rparr>"
  using assms by (auto simp: chm_init_cipher_def split: prod.splits sum.splits dest!: cc_init_Inr)

lemma chm_init_hmac_Inr:
  assumes "chm_init_hmac env t k1 k2 c = (Inr (), c')"
  obtains a n dg where "alg_get (de_algs (ce_dc env)) t = Inr a" "alg_name (de_algs (ce_dc env)) t None = Inr n" "ce_mac env n = Some dg"
    "c' = c\<lparr>he_hmac := Some (dg, take (ag_size a) k1), hd_hmac := Some (dg, take (ag_size a) k2)\<rparr>"
  using assms by (auto simp: chm_init_hmac_def split: prod.splits sum.splits dest!: hm_init_Inr)

lemma ctx_total_null: "ctx_total EVP_NULL"
  by (simp add: ctx_total_def chm_body_def)

interpretation chm_keys: dc_keys "chm_init_cipher es cipher" "chm_init_cipher er cipher" "chm_init_hmac es digest" "chm_init_hmac er digest" chm_init_pid
  "chm_defined cipher digest" "chm_fresh es er cipher" chm_matched for es er cipher digest
proof
  fix a b k1 k2 a1 b1 h1 h2 a2 b2
  assume f: "chm_fresh es er cipher a b"
    and c: "if chm_defined cipher digest AND DC_CIPHER_DEFINED \<noteq> 0
      then chm_init_cipher es cipher k1 k2 a = (Inr (), a1) \<and> chm_init_cipher er cipher k2 k1 b = (Inr (), b1) else a1 = a \<and> b1 = b"
    and h: "if chm_defined cipher digest AND DC_HMAC_DEFINED \<noteq> 0
      then chm_init_hmac es digest h1 h2 a1 = (Inr (), a2) \<and> chm_init_hmac er digest h2 h1 b1 = (Inr (), b2) else a2 = a1 \<and> b2 = b1"
  obtain g g' where new: "a = chm_new g" "b = chm_new g'" and lib: "chm_lib_ok es" "cipher \<noteq> AES_256_CTR"
    and eq: "ce_fetch er = ce_fetch es" "ce_mac er = ce_mac es" "de_algs (ce_dc er) = de_algs (ce_dc es)"
    using f by (auto simp: chm_fresh_def)
  have "evp_cipher_type er = evp_cipher_type es" by (rule ext) (unfold evp_cipher_type_def eq(1), rule refl)
  note same = this eq(2,3)
  have c1: "ctx_ok CIPHER_ENCRYPT (he_cipher a1) \<and> ctx_ok CIPHER_DECRYPT (hd_cipher a1) \<and> ctx_ok CIPHER_ENCRYPT (he_cipher b1) \<and> ctx_ok CIPHER_DECRYPT (hd_cipher b1)
    \<and> cc_ctx (he_cipher a1) = cc_ctx (hd_cipher b1) \<and> ctx_total (cc_ctx (he_cipher a1))
    \<and> a1 = a\<lparr>he_cipher := he_cipher a1, hd_cipher := hd_cipher a1\<rparr> \<and> b1 = b\<lparr>he_cipher := he_cipher b1, hd_cipher := hd_cipher b1\<rparr>"
  proof (cases "chm_defined cipher digest AND DC_CIPHER_DEFINED = 0")
    case True
    then show ?thesis using c new ctx_total_null by (simp add: chm_new_def cc_new_def ctx_ok_def)
  next
    case False
    obtain ci where ci: "evp_cipher_type es cipher = Some ci"
      "a1 = a\<lparr>he_cipher := \<lparr>cc_mode = CIPHER_ENCRYPT, cc_ctx = EVP_READY ci (take (cph_key_size ci) k1)\<rparr>,
              hd_cipher := \<lparr>cc_mode = CIPHER_DECRYPT, cc_ctx = EVP_READY ci (take (cph_key_size ci) k2)\<rparr>\<rparr>"
      by (rule chm_init_cipher_Inr [of es cipher k1 k2 a a1]) (use c False in auto)
    obtain ci' where "evp_cipher_type er cipher = Some ci'"
      "b1 = b\<lparr>he_cipher := \<lparr>cc_mode = CIPHER_ENCRYPT, cc_ctx = EVP_READY ci' (take (cph_key_size ci') k2)\<rparr>,
              hd_cipher := \<lparr>cc_mode = CIPHER_DECRYPT, cc_ctx = EVP_READY ci' (take (cph_key_size ci') k1)\<rparr>\<rparr>"
      by (rule chm_init_cipher_Inr [of er cipher k2 k1 b b1]) (use c False in auto)
    moreover have "evp_ok ci" "ctx_total (EVP_READY ci key)" for key using lib ci(1) by (auto simp: chm_lib_ok_def)
    ultimately show ?thesis using ci same(1) by (simp add: ctx_ok_def)
  qed
  have h1: "hmac_ok (he_hmac a2) \<and> hmac_ok (hd_hmac a2) \<and> hmac_ok (he_hmac b2) \<and> hmac_ok (hd_hmac b2) \<and> he_hmac a2 = hd_hmac b2
    \<and> a2 = a1\<lparr>he_hmac := he_hmac a2, hd_hmac := hd_hmac a2\<rparr> \<and> b2 = b1\<lparr>he_hmac := he_hmac b2, hd_hmac := hd_hmac b2\<rparr>"
  proof (cases "chm_defined cipher digest AND DC_HMAC_DEFINED = 0")
    case True
    have "he_hmac a1 = None" "hd_hmac a1 = None" "he_hmac b1 = None" "hd_hmac b1 = None"
      using c new by (auto simp: chm_new_def split: if_splits elim!: chm_init_cipher_Inr)
    then show ?thesis using True h by (simp add: hmac_ok_def)
  next
    case False
    obtain al n dg where i: "alg_get (de_algs (ce_dc es)) digest = Inr al" "alg_name (de_algs (ce_dc es)) digest None = Inr n" "ce_mac es n = Some dg"
      "a2 = a1\<lparr>he_hmac := Some (dg, take (ag_size al) h1), hd_hmac := Some (dg, take (ag_size al) h2)\<rparr>"
      by (rule chm_init_hmac_Inr [of es digest h1 h2 a1 a2]) (use h False in auto)
    obtain al' n' dg' where "alg_get (de_algs (ce_dc er)) digest = Inr al'" "alg_name (de_algs (ce_dc er)) digest None = Inr n'" "ce_mac er n' = Some dg'"
      "b2 = b1\<lparr>he_hmac := Some (dg', take (ag_size al') h2), hd_hmac := Some (dg', take (ag_size al') h1)\<rparr>"
      by (rule chm_init_hmac_Inr [of er digest h2 h1 b1 b2]) (use h False in auto)
    moreover have "digest_ok dg" using lib(1) i(3) by (simp add: chm_lib_ok_def)
    ultimately show ?thesis using i same(2,3) by (simp add: hmac_ok_def)
  qed
  have rest: "he_work a2 = buf_clear" "hd_work a2 = buf_clear" "he_work b2 = buf_clear" "hd_work b2 = buf_clear"
    "he_cipher a2 = he_cipher a1" "hd_cipher a2 = hd_cipher a1" "he_cipher b2 = he_cipher b1" "hd_cipher b2 = hd_cipher b1"
    using c h new by (auto simp: chm_new_def split: if_splits elim!: chm_init_cipher_Inr chm_init_hmac_Inr)
  show "chm_matched (chm_init_pid a2) (chm_init_pid b2)"
    using c1 h1 rest work_ok_clear pdr_rel_init [of 8 False]
    by (auto simp: chm_matched_def chm_ok_def chm_init_pid_def pds_default_def pdr_init_def)
qed

section \<open>An instance\<close>

definition ex_aead_env :: dc_env where
  "ex_aead_env = ex_dc_env\<lparr>de_algs := algs_init\<rparr>"

definition ex_dc_key :: "byte list" where
  "ex_dc_key = replicate 64 1 @ replicate 64 2 @ replicate 64 3 @ replicate 64 4"

lemma ex_slices:
  "sk_slice ex_dc_key 0 = Inr (replicate 64 1)" "sk_slice ex_dc_key 1 = Inr (replicate 64 2)" "sk_slice ex_dc_key 2 = Inr (replicate 64 3)"
  "sk_slice ex_dc_key 3 = Inr (replicate 64 4)" "sk_slice ex_dc_key 4 = Inr (replicate 64 3)" "sk_slice ex_dc_key 5 = Inr (replicate 64 4)"
  "sk_slice ex_dc_key 6 = Inr (replicate 64 1)" "sk_slice ex_dc_key 7 = Inr (replicate 64 2)"
  by (simp_all add: sk_slice_def ex_dc_key_def KEY_SIZE_def)

lemma ex_slice: "n < 8 \<Longrightarrow> \<exists>k. sk_slice ex_dc_key n = Inr (replicate 64 k)"
proof -
  assume "n < 8"
  then consider "n = 0" | "n = 1" | "n = 2" | "n = 3" | "n = 4" | "n = 5" | "n = 6" | "n = 7" by linarith
  then show ?thesis by cases (use ex_slices in blast)+
qed

lemma ex_init_with:
  assumes "\<And>k1 k2 c. \<exists>c'. f (replicate 64 k1) (replicate 64 k2) c = (Inr (), c')" "use < 2"
  shows "\<exists>c'. dc_init_with f use sv ex_dc_key c = (Inr (), c')"
proof -
  have lt: "use + KEY_ENCRYPT + key_dir sv < 8" "use + KEY_DECRYPT + key_dir sv < 8"
    using assms(2) by (simp_all add: key_dir_def KEY_ENCRYPT_def KEY_DECRYPT_def KEY_NORMAL_def KEY_INVERSE_def)
  obtain k1 k2 where "sk_slice ex_dc_key (use + KEY_ENCRYPT + key_dir sv) = Inr (replicate 64 k1)" "sk_slice ex_dc_key (use + KEY_DECRYPT + key_dir sv) = Inr (replicate 64 k2)"
    using ex_slice [OF lt(1)] ex_slice [OF lt(2)] by blast
  then show ?thesis using assms(1) [of k1 k2 c] by (simp add: dc_init_with_def)
qed

lemma ex_aead_env_ok: "dc_env_ok ex_aead_env" "seal_total ex_aead_env" "wire_ok ex_aead_env ex_wire"
proof -
  show "dc_env_ok ex_aead_env" "seal_total ex_aead_env" using ex_dc_env_ok by (simp_all add: ex_aead_env_def dc_env_ok_def seal_total_def)
  have "wire_ok ex_dc_env ex_wire" by (simp add: wire_ok_def ex_simps)
  then show "wire_ok ex_aead_env ex_wire" by (simp add: wire_ok_def ex_aead_env_def dc_packet_def)
qed

lemma ex_aead_init: "\<exists>c. aead_init_channel ex_aead_env AES_128_GCM sv ex_dc_key aead_new = (Inr (), c)"
proof -
  have i: "\<exists>c'. aead_init_cipher ex_aead_env AES_128_GCM (replicate 64 k1) (replicate 64 k2) c = (Inr (), c')" for k1 k2 c
    by (simp add: aead_init_cipher_def ax_init_def aead_cipher_type_def ex_aead_env_def ex_dc_env_def ex_lib_def clamp_keysize_def ul_ctor_def
        alg_aead_usage_limit_def alg_get_def alg_get_index_def algs_init_def)
  have h: "\<exists>c'. aead_init_hmac (replicate 64 k1) (replicate 64 k2) c = (Inr (), c')" for k1 k2 c
    by (simp add: aead_init_hmac_def nonce_set_tail_def)
  obtain c1 where c1: "dc_init_with (aead_init_cipher ex_aead_env AES_128_GCM) KEY_CIPHER sv ex_dc_key aead_new = (Inr (), c1)"
    using ex_init_with [where f = "aead_init_cipher ex_aead_env AES_128_GCM" and use = KEY_CIPHER and sv = sv and c = "aead_new"] i by (auto simp: KEY_CIPHER_def)
  obtain c2 where "dc_init_with aead_init_hmac KEY_HMAC sv ex_dc_key c1 = (Inr (), c2)"
    using ex_init_with [where f = "aead_init_hmac" and use = KEY_HMAC and sv = sv and c = "c1"] h by (auto simp: KEY_HMAC_def)
  then show ?thesis using c1 aead_defined_flags [of AES_128_GCM] by (simp add: dc_init_keys_def alg_defined_def)
qed

lemma ex_chm_lib_ok: "chm_lib_ok ex_chm_env" "chm_wire_ok ex_chm_env ex_wire"
proof -
  have "ctx_total (EVP_READY ex_cph key)" for key by (simp add: ctx_total_def chm_body_def ex_cph_run) (simp add: ex_cph_def)
  then show "chm_lib_ok ex_chm_env" using ex_cph_ok ex_dg_ok
    by (auto simp: chm_lib_ok_def ex_chm_env_def evp_cipher_type_def split: alg_type.splits)
  show "chm_wire_ok ex_chm_env ex_wire" using ex_wire_ok by (simp add: chm_wire_ok_def ex_chm_payload DECRYPT_WORK_def N_ALIGN_CONTEXTS_def)
qed

lemma ex_chm_init: "\<exists>c. chm_init_channel ex_chm_env AES_128_CBC SHA1 sv ex_dc_key (chm_new g) = (Inr (), c)"
proof -
  have i: "\<exists>c'. chm_init_cipher ex_chm_env AES_128_CBC (replicate 64 k1) (replicate 64 k2) c = (Inr (), c')" for k1 k2 c
    by (simp add: chm_init_cipher_def cc_init_def evp_init_def evp_cipher_type_def ex_chm_env_def ex_cph_def EVP_MAX_IV_LENGTH_def
        alg_get_def alg_get_index_def algs_init_def alg_ctor_def)
  have h: "\<exists>c'. chm_init_hmac ex_chm_env SHA1 (replicate 64 k1) (replicate 64 k2) c = (Inr (), c')" for k1 k2 c
    by (simp add: chm_init_hmac_def hm_init_def mac_init_def ex_chm_env_def MAX_HMAC_SIZE_def alg_name_def alg_get_def alg_get_index_def algs_init_def alg_ctor_def)
  obtain c1 where c1: "dc_init_with (chm_init_cipher ex_chm_env AES_128_CBC) KEY_CIPHER sv ex_dc_key (chm_new g) = (Inr (), c1)"
    using ex_init_with [where f = "chm_init_cipher ex_chm_env AES_128_CBC" and use = KEY_CIPHER and sv = sv and c = "chm_new g"] i by (auto simp: KEY_CIPHER_def)
  obtain c2 where "dc_init_with (chm_init_hmac ex_chm_env SHA1) KEY_HMAC sv ex_dc_key c1 = (Inr (), c2)"
    using ex_init_with [where f = "chm_init_hmac ex_chm_env SHA1" and use = KEY_HMAC and sv = sv and c = "c1"] h by (auto simp: KEY_HMAC_def)
  moreover have "chm_defined AES_128_CBC SHA1 AND DC_CIPHER_DEFINED \<noteq> 0" "chm_defined AES_128_CBC SHA1 AND DC_HMAC_DEFINED \<noteq> 0"
    by (simp_all add: chm_defined_def alg_defined_def DC_CIPHER_DEFINED_def DC_HMAC_DEFINED_def DC_CRYPTO_DEFINED_def)
  ultimately show ?thesis using c1 by (simp add: dc_init_keys_def)
qed

section \<open>Properties\<close>

text \<open>
  C10. The data channel with AEAD, from the key material on. A client and a server that set up their data channel from
  the same 256 bytes of key material, with the same cipher and library, in OpenSSL or mbed TLS: of whatever
  packets either end sends, of which the network loses any, exactly those that are not lost are accepted by the other
  end, with the bytes they had, until the packet IDs run out.
\<close>

theorem data_channel_aead:
  assumes "dc_env_ok ec" "dc_env_ok es" "de_lib ec = de_lib es" "seal_total ec" "alg_defined cipher"
    and "aead_init_channel ec cipher False key aead_new = (Inr (), c)" "aead_init_channel es cipher True key aead_new = (Inr (), s)"
    and "wire_ok es up" "wire_ok ec down" "\<forall>(lost, x)\<in>set xs. dc_message_ok ec es x" "\<forall>(lost, x)\<in>set ys. dc_message_ok es ec x"
    and "length xs < 0xffffffff" "length ys < 0xffffffff"
  shows "dc_deliver (aead_encrypt ec) (aead_decrypt es) up xs c s = Some (carried xs)
    \<and> dc_deliver (aead_encrypt es) (aead_decrypt ec) down ys s c = Some (carried ys)"
proof -
  have m: "aead_matched ec es c s" "aead_matched es ec s c"
    using aead_keys.ends_agree [of ec es cipher aead_new aead_new False key c s] aead_keys.ends_agree [of es ec cipher aead_new aead_new True key s c] assms(3,5-7)
    by (simp_all add: aead_fresh_def)
  have t: "seal_total es" using assms(3,4) by (simp add: seal_total_def)
  have "e_pid_send c = pds_default" "e_pid_send s = pds_default"
    using dc_init_keys_pid [OF assms(6)] dc_init_keys_pid [OF assms(7)] by (auto simp: aead_init_pid_def)
  then show ?thesis
    using aead_channel [OF assms(1,2,4,8,10) m(1)] aead_channel [OF assms(2,1) t assms(9,11) m(2)] assms(12,13) by (simp add: pds_default_def)
qed

theorem data_channel_aead_witness:
  "\<exists>c s. aead_init_channel ex_aead_env AES_128_GCM False ex_dc_key aead_new = (Inr (), c) \<and> aead_init_channel ex_aead_env AES_128_GCM True ex_dc_key aead_new = (Inr (), s)
     \<and> dc_deliver (aead_encrypt ex_aead_env) (aead_decrypt ex_aead_env) ex_wire
         [(True, 0, None, ex_wire [1]), (False, 0, Some [72, 0, 0, 1], ex_wire [2, 3]), (False, 5, None, ex_wire [4])] c s = Some [[2, 3], [4]]"
proof -
  obtain c s where i: "aead_init_channel ex_aead_env AES_128_GCM False ex_dc_key aead_new = (Inr (), c)" "aead_init_channel ex_aead_env AES_128_GCM True ex_dc_key aead_new = (Inr (), s)"
    using ex_aead_init [of False] ex_aead_init [of True] by blast
  have m: "dc_message_ok ex_aead_env ex_aead_env (now, op32, ex_wire bs)" if "op32_ok op32" "bs \<noteq> []" "length bs \<le> 44" for now op32 bs
    using that ex_wire_ok [of bs] by (simp add: dc_message_ok_def ex_aead_env_def ex_simps) (simp add: ex_wire_def)
  have "alg_defined AES_128_GCM" by (simp add: alg_defined_def)
  from data_channel_aead [OF ex_aead_env_ok(1,1) refl ex_aead_env_ok(2) this i ex_aead_env_ok(3,3), of
      "[(True, 0, None, ex_wire [1]), (False, 0, Some [72, 0, 0, 1], ex_wire [2, 3]), (False, 5, None, ex_wire [4])]" "[]"] i
  show ?thesis by (auto simp: m op32_ok_def op32_size_def ex_wire_ok)
qed

text \<open>
  C11. The data channel with CBC and HMAC, from the key material on. Likewise for every cipher that is not in counter
  mode and every digest of the library, also where one or both are \<open>none\<close>.
\<close>

theorem data_channel_chm:
  assumes "chm_env_ok ec" "chm_env_ok es" "ce_fetch ec = ce_fetch es" "ce_mac ec = ce_mac es" "de_algs (ce_dc ec) = de_algs (ce_dc es)"
    and "chm_lib_ok ec" "cipher \<noteq> AES_256_CTR"
    and "chm_init_channel ec cipher digest False key (chm_new g) = (Inr (), c)" "chm_init_channel es cipher digest True key (chm_new g') = (Inr (), s)"
    and "chm_wire_ok es up" "chm_wire_ok ec down" "\<forall>(lost, x)\<in>set xs. chm_message_ok ec es x" "\<forall>(lost, x)\<in>set ys. chm_message_ok es ec x"
    and "length xs < 0xffffffff" "length ys < 0xffffffff"
  shows "dc_deliver (chm_encrypt ec) (chm_decrypt es) up xs c s = Some (carried xs)
    \<and> dc_deliver (chm_encrypt es) (chm_decrypt ec) down ys s c = Some (carried ys)"
proof -
  have "evp_cipher_type es = evp_cipher_type ec" by (rule ext) (unfold evp_cipher_type_def assms(3), rule refl)
  then have "chm_lib_ok es" using assms(4,6) by (simp add: chm_lib_ok_def)
  then have m: "chm_matched c s" "chm_matched s c"
    using chm_keys.ends_agree [of ec es cipher "chm_new g" "chm_new g'" digest False key c s] chm_keys.ends_agree [of es ec cipher "chm_new g'" "chm_new g" digest True key s c] assms(3-9)
    by (auto simp: chm_fresh_def)
  have "he_pid_send c = pds_default" "he_pid_send s = pds_default"
    using dc_init_keys_pid [OF assms(8)] dc_init_keys_pid [OF assms(9)] by (auto simp: chm_init_pid_def)
  then show ?thesis
    using chm_ends.deliver_all [of ec es up c s xs] chm_ends.deliver_all [of es ec down s c ys] assms m
    by (simp add: chm_linked_def ids_left_def pds_default_def)
qed

theorem data_channel_chm_witness:
  "\<exists>c s. chm_init_channel ex_chm_env AES_128_CBC SHA1 False ex_dc_key (chm_new (\<lambda>i. 5)) = (Inr (), c)
     \<and> chm_init_channel ex_chm_env AES_128_CBC SHA1 True ex_dc_key (chm_new (\<lambda>i. 6)) = (Inr (), s)
     \<and> dc_deliver (chm_encrypt ex_chm_env) (chm_decrypt ex_chm_env) ex_wire
         [(True, 0, None, ex_tun [1]), (False, 0, None, ex_tun [2, 3]), (False, 5, None, ex_tun [4])] c s = Some [[2, 3], [4]]"
proof -
  obtain c s where i: "chm_init_channel ex_chm_env AES_128_CBC SHA1 False ex_dc_key (chm_new (\<lambda>i. 5)) = (Inr (), c)"
      "chm_init_channel ex_chm_env AES_128_CBC SHA1 True ex_dc_key (chm_new (\<lambda>i. 6)) = (Inr (), s)"
    using ex_chm_init [of False "\<lambda>i. 5"] ex_chm_init [of True "\<lambda>i. 6"] by blast
  have m: "chm_message_ok ex_chm_env ex_chm_env (now, op32, ex_tun bs)" if "bs \<noteq> []" "length bs \<le> 100" for now op32 bs
    using that ex_tun_ok [of bs] by (simp add: chm_message_ok_def ex_chm_payload DECRYPT_WORK_def N_ALIGN_CONTEXTS_def) (simp add: ex_tun_def)
  from data_channel_chm [OF ex_chm_env_ok ex_chm_env_ok refl refl refl ex_chm_lib_ok(1) _ i ex_chm_lib_ok(2,2), of
      "[(True, 0, None, ex_tun [1]), (False, 0, None, ex_tun [2, 3]), (False, 5, None, ex_tun [4])]" "[]"] i
  show ?thesis using ex_tun_ok by (auto simp: m)
qed

lemma allow_dc_cbc: "ag_flags (alg_allow_dc x a) AND CBC_HMAC = ag_flags a AND CBC_HMAC"
  by (rule bit_word_eqI) (auto simp: alg_allow_dc_def CBC_HMAC_def F_ALLOW_DC_def bit_simps)

lemma cbc_flag_kept:
  assumes "alg_get algs t = Inr a"
  shows "\<exists>a'. alg_get (allow_default_dc_algs aead cbc preferred legacy algs) t = Inr a' \<and> ag_flags a' AND CBC_HMAC = ag_flags a AND CBC_HMAC"
proof -
  have i: "alg_index t < length algs" "a = algs ! alg_index t" "alg_index t < length alg_types"
    using assms alg_types_nth(2) [of t] by (auto simp: alg_get_def alg_get_index_def alg_types_def split: if_splits)
  let ?algs = "allow_default_dc_algs aead cbc preferred legacy algs"
  have "alg_get ?algs t = Inr (?algs ! alg_index t)" using i by (simp add: alg_get_def alg_get_index_def allow_default_dc_algs_def)
  moreover have "ag_flags (?algs ! alg_index t) AND CBC_HMAC = ag_flags a AND CBC_HMAC"
    using i by (simp add: allow_default_dc_algs_def allow_dc_cbc)
  ultimately show ?thesis by blast
qed

lemma cbc_flag_init:
  "t \<in> {ALG_NONE, AES_128_CBC, AES_192_CBC, AES_256_CBC, DES_CBC, DES_EDE3_CBC, BF_CBC} \<Longrightarrow> \<exists>a. alg_get algs_init t = Inr a \<and> ag_flags a AND CBC_HMAC \<noteq> 0"
  by (elim insertE emptyE) (simp_all add: alg_get_def alg_get_index_def algs_init_def alg_ctor_def alg_flag_defs)

text \<open>
  C16. CBC ciphers are not checked. Where only AEAD ciphers are allowed for the data channel, neither a CBC cipher nor
  \<open>none\<close> is legal; yet a context is made for every one of them.
\<close>

theorem dc_cbc_unchecked:
  fixes aead cbc :: "alg_type \<Rightarrow> bool" and legacy :: bool
  assumes "t \<in> {ALG_NONE, AES_128_CBC, AES_192_CBC, AES_256_CBC, DES_CBC, DES_EDE3_CBC, BF_CBC}"
  defines "algs \<equiv> allow_default_dc_algs aead cbc True legacy algs_init"
  shows "(\<exists>e. legal_dc_cipher algs t = Inl e) \<and> dc_new_context algs (s\<lparr>ds_cipher := t\<rparr>) = Inr (DC_CHM, s\<lparr>ds_cipher := t\<rparr>)"
proof
  show "\<exists>e. legal_dc_cipher algs t = Inl e"
    using default_algs_sound [of aead cbc True legacy t] assms(1) by (cases "legal_dc_cipher algs t") (auto simp: algs_def)
  have "\<exists>a. alg_get algs t = Inr a \<and> ag_flags a AND CBC_HMAC \<noteq> 0"
    using cbc_flag_init [OF assms(1)] cbc_flag_kept [of algs_init t _ aead cbc True legacy] by (fastforce simp: algs_def)
  then show "dc_new_context algs (s\<lparr>ds_cipher := t\<rparr>) = Inr (DC_CHM, s\<lparr>ds_cipher := t\<rparr>)"
    by (auto simp: dc_new_context_def dc_select_def)
qed

theorem dc_cbc_unchecked_witness:
  "(\<exists>e. legal_dc_cipher (allow_default_dc_algs (\<lambda>_. True) (\<lambda>_. True) True False algs_init) BF_CBC = Inl e)
   \<and> dc_new_context (allow_default_dc_algs (\<lambda>_. True) (\<lambda>_. True) True False algs_init) (ds_default\<lparr>ds_cipher := BF_CBC\<rparr>) = Inr (DC_CHM, ds_default\<lparr>ds_cipher := BF_CBC\<rparr>)"
  using dc_cbc_unchecked [of BF_CBC "\<lambda>_. True" "\<lambda>_. True" False ds_default] by simp

end
