(* ===== verification/OV_Unicode.thy ===== *)
theory OV_Unicode
  imports OV_Prelude
begin

text \<open>
  UTF-8 as common/unicode.hpp and common/unicode-impl.hpp treat it: the check of one sequence, of a whole
  string, the position and the number of characters, and the printable form used in messages. The
  reference is the encoding of scalar values of RFC 3629.

  A pointer into a string is the list of the bytes from it to the end of the memory that may be read: the
  rest of the string and its terminating null. A read behind that is \<open>undefined_behaviour\<close>.
\<close>

section \<open>Sequences\<close>

definition rd :: "string \<Rightarrow> nat \<Rightarrow> nat result" where
  "rd src i = (if i < length src then Inr (of_char (src ! i)) else Inl undefined_behaviour)"

definition trailingBytesForUTF8 :: "nat \<Rightarrow> nat" where
  "trailingBytesForUTF8 c =
     (if c < 0xC0 then 0 else if c < 0xE0 then 1 else if c < 0xF0 then 2 else if c < 0xF8 then 3
      else if c < 0xFC then 4 else 5)"

text \<open>The four cases of the switch in \<open>isLegalUTF8\<close>, each falling through to the next.\<close>

definition legal_case1 :: "string \<Rightarrow> bool result" where
  "legal_case1 src =
     bindR (rd src 0) (\<lambda>b. Inr (if b \<ge> 0x80 \<and> b < 0xC2 then False else \<not> b > 0xF4))"

definition legal_case2 :: "string \<Rightarrow> bool result" where
  "legal_case2 src =
     bindR (rd src 1) (\<lambda>a. if a > 0xBF then Inr False else
     bindR (rd src 0) (\<lambda>b.
       if (if b = 0xE0 then a < 0xA0 else if b = 0xED then a > 0x9F else if b = 0xF0 then a < 0x90
           else if b = 0xF4 then a > 0x8F else a < 0x80)
       then Inr False else legal_case1 src))"

definition legal_case3 :: "string \<Rightarrow> bool result" where
  "legal_case3 src = bindR (rd src 2) (\<lambda>a. if a < 0x80 \<or> a > 0xBF then Inr False else legal_case2 src)"

definition legal_case4 :: "string \<Rightarrow> bool result" where
  "legal_case4 src = bindR (rd src 3) (\<lambda>a. if a < 0x80 \<or> a > 0xBF then Inr False else legal_case3 src)"

definition isLegalUTF8 :: "string \<Rightarrow> nat \<Rightarrow> bool result" where
  "isLegalUTF8 src len =
     (if len = 4 then legal_case4 src else if len = 3 then legal_case3 src
      else if len = 2 then legal_case2 src else if len = 1 then legal_case1 src else Inr False)"

text \<open>The number of bytes that the first byte announces.\<close>

definition seq_len :: "char \<Rightarrow> nat" where
  "seq_len c = trailingBytesForUTF8 (of_char c) + 1"

text \<open>A string in memory.\<close>

abbreviation c_mem :: "string \<Rightarrow> string" where
  "c_mem str \<equiv> str @ [CHR 0x00]"

section \<open>Strings\<close>

definition iscntrl :: "nat \<Rightarrow> bool" where
  "iscntrl c \<longleftrightarrow> c < 0x20 \<or> c = 0x7F"

definition isspace :: "nat \<Rightarrow> bool" where
  "isspace c \<longleftrightarrow> (9 \<le> c \<and> c \<le> 13) \<or> c = 0x20"

text \<open>
  The flags. The enumerator \<open>1 << 31\<close> is a negative \<open>int\<close>, so as a \<open>size_t\<close> it has all
  bits from 31 on.
\<close>

definition UTF8_NO_CTRL :: u64 where "UTF8_NO_CTRL = 0x40000000"
definition UTF8_NO_SPACE :: u64 where "UTF8_NO_SPACE = 0xFFFFFFFF80000000"
definition UTF8_PASS_FMT :: u64 where "UTF8_PASS_FMT = 0xFFFFFFFF80000000"
definition UTF8_FILTER :: u64 where "UTF8_FILTER = 0x40000000"

definition max_len_of :: "u64 \<Rightarrow> nat" where
  "max_len_of max_len_flags = unat (max_len_flags AND (UTF8_NO_CTRL - 1))"

function is_valid_utf8_loop :: "u64 \<Rightarrow> string \<Rightarrow> size_t \<Rightarrow> bool result" where
  "is_valid_utf8_loop max_len_flags [] unicode_len = Inr True"
| "is_valid_utf8_loop max_len_flags (c # cs) unicode_len =
     (if c = CHR 0x00 then Inr False
      else if seq_len c > length (c # cs) then Inr False
      else bindR (isLegalUTF8 (c_mem (c # cs)) (seq_len c)) (\<lambda>legal.
        if \<not> legal then Inr False
        else if seq_len c = 1 \<and> max_len_flags AND UTF8_NO_CTRL \<noteq> 0 \<and> iscntrl (of_char c) then Inr False
        else if seq_len c = 1 \<and> max_len_flags AND UTF8_NO_SPACE \<noteq> 0 \<and> isspace (of_char c) then Inr False
        else if max_len_of max_len_flags \<noteq> 0 \<and> unicode_len + 1 > max_len_of max_len_flags then Inr False
        else is_valid_utf8_loop max_len_flags (drop (seq_len c) (c # cs)) (unicode_len + 1)))"
  by pat_completeness auto
termination
  by (relation "measure (\<lambda>(_, s, _). length s)") (auto simp: seq_len_def)

declare is_valid_utf8_loop.simps(2) [simp del]

definition is_valid_utf8 :: "string \<Rightarrow> u64 \<Rightarrow> bool result" where
  "is_valid_utf8 str max_len_flags = is_valid_utf8_loop max_len_flags str 0"

datatype utf8_status = UTF8_GOOD nat | UTF8_BAD | UTF8_RANGE

function utf8_index_loop :: "string \<Rightarrow> size_t \<Rightarrow> size_t \<Rightarrow> size_t \<Rightarrow> utf8_status result" where
  "utf8_index_loop [] index upos pos = Inr UTF8_RANGE"
| "utf8_index_loop (c # cs) index upos pos =
     (if seq_len c > length (c # cs) then Inr UTF8_BAD
      else bindR (isLegalUTF8 (c_mem (c # cs)) (seq_len c)) (\<lambda>legal.
        if \<not> legal then Inr UTF8_BAD
        else if upos \<ge> index then Inr (UTF8_GOOD pos)
        else utf8_index_loop (drop (seq_len c) (c # cs)) index (upos + 1) (pos + seq_len c)))"
  by pat_completeness auto
termination
  by (relation "measure (\<lambda>(s, _). length s)") (auto simp: seq_len_def)

declare utf8_index_loop.simps(2) [simp del]

definition utf8_index :: "string \<Rightarrow> size_t \<Rightarrow> utf8_status result" where
  "utf8_index str index = utf8_index_loop str index 0 0"

definition utf8_truncate :: "string \<Rightarrow> size_t \<Rightarrow> string result" where
  "utf8_truncate str max_len =
     bindR (utf8_index str max_len) (\<lambda>status. Inr (case status of
         UTF8_GOOD index \<Rightarrow> take index str | UTF8_BAD \<Rightarrow> take max_len str | UTF8_RANGE \<Rightarrow> str))"

text \<open>The character printed for one that is a control character or not legal: none, or one.\<close>

definition printable_subst :: "u64 \<Rightarrow> char \<Rightarrow> string" where
  "printable_subst max_len_flags c =
     (if c \<in> {CHR 0x0D, CHR 0x0A, CHR 0x09}
      then (if max_len_flags AND UTF8_PASS_FMT = 0 then [CHR '' ''] else [c])
      else if max_len_flags AND UTF8_FILTER \<noteq> 0 then [] else [CHR ''?''])"

function utf8_printable_loop :: "u64 \<Rightarrow> string \<Rightarrow> size_t \<Rightarrow> string \<Rightarrow> string result" where
  "utf8_printable_loop max_len_flags [] upos ret = Inr ret"
| "utf8_printable_loop max_len_flags (c # cs) upos ret =
     (if max_len_of max_len_flags = 0 \<or> upos < max_len_of max_len_flags
      then bindR (if seq_len c \<le> length (c # cs) \<and> of_char c \<ge> (0x20 :: nat) \<and> of_char c \<noteq> (0x7F :: nat)
                  then isLegalUTF8 (c_mem (c # cs)) (seq_len c) else Inr False) (\<lambda>legal.
             if legal
             then utf8_printable_loop max_len_flags (drop (seq_len c) (c # cs)) (upos + 1)
                    (ret @ take (seq_len c) (c # cs))
             else utf8_printable_loop max_len_flags cs (upos + 1) (ret @ printable_subst max_len_flags c))
      else Inr (ret @ ''...''))"
  by pat_completeness auto
termination
  by (relation "measure (\<lambda>(_, s, _). length s)") (auto simp: seq_len_def)

declare utf8_printable_loop.simps(2) [simp del]

definition utf8_printable :: "string \<Rightarrow> u64 \<Rightarrow> string result" where
  "utf8_printable str max_len_flags = utf8_printable_loop max_len_flags str 0 []"

text \<open>
  \<open>utf8_length\<close> takes the smaller of the announced length and the size of the whole string, not of
  what is left of it. (A sequence of length 0 is not legal, so that \<open>max 1\<close> is the length itself.)
\<close>

function utf8_length_loop :: "size_t \<Rightarrow> string \<Rightarrow> size_t \<Rightarrow> size_t result" where
  "utf8_length_loop sz [] upos = Inr upos"
| "utf8_length_loop sz (c # cs) upos =
     bindR (isLegalUTF8 (c_mem (c # cs)) (min (seq_len c) sz)) (\<lambda>legal.
       utf8_length_loop sz (drop (if legal then max 1 (min (seq_len c) sz) else 1) (c # cs)) (upos + 1))"
  by pat_completeness auto
termination
  by (relation "measure (\<lambda>(_, s, _). length s)") auto

declare utf8_length_loop.simps(2) [simp del]

definition utf8_length :: "string \<Rightarrow> size_t result" where
  "utf8_length str = utf8_length_loop (length str) str 0"

section \<open>The encoding of scalar values\<close>

definition scalar :: "nat \<Rightarrow> bool" where
  "scalar n \<longleftrightarrow> n < 0xD800 \<or> 0xDFFF < n \<and> n \<le> 0x10FFFF"

definition utf8_bytes :: "nat \<Rightarrow> nat list" where
  "utf8_bytes n =
     (if n < 0x80 then [n]
      else if n < 0x800 then [0xC0 + n div 0x40, 0x80 + n mod 0x40]
      else if n < 0x10000 then [0xE0 + n div 0x1000, 0x80 + n div 0x40 mod 0x40, 0x80 + n mod 0x40]
      else [0xF0 + n div 0x40000, 0x80 + n div 0x1000 mod 0x40, 0x80 + n div 0x40 mod 0x40, 0x80 + n mod 0x40])"

definition utf8_enc :: "nat \<Rightarrow> string" where
  "utf8_enc n = map char_of (utf8_bytes n)"

definition utf8_str :: "nat list \<Rightarrow> string" where
  "utf8_str ns = concat (map utf8_enc ns)"

lemma utf8_str_simps [simp]:
  "utf8_str [] = []"
  "utf8_str (n # ns) = utf8_enc n @ utf8_str ns"
  "utf8_str (ms @ ns) = utf8_str ms @ utf8_str ns"
  by (simp_all add: utf8_str_def)

lemma of_char_less [simp]: "(of_char c :: nat) < 256"
  using nat_of_char_less_256 .

lemma utf8_bytes_small: "scalar n \<Longrightarrow> b \<in> set (utf8_bytes n) \<Longrightarrow> b < 256"
  by (auto simp: utf8_bytes_def scalar_def split: if_splits)

lemma bytes_of_enc: "scalar n \<Longrightarrow> map of_char (utf8_enc n) = utf8_bytes n"
  using utf8_bytes_small [of n] by (auto simp: utf8_enc_def o_def intro!: map_idI)

lemma enc_iff_bytes: "scalar n \<Longrightarrow> s = utf8_enc n \<longleftrightarrow> map of_char s = utf8_bytes n"
proof
  assume "map of_char s = utf8_bytes n"
  then have "map char_of (map of_char s :: nat list) = utf8_enc n" by (simp only: utf8_enc_def)
  then show "s = utf8_enc n" by (simp add: o_def)
qed (simp add: bytes_of_enc)

text \<open>Which sequences of one to four bytes are the encoding of a scalar value.\<close>

lemma utf8_bytes_shapes:
  "utf8_bytes n = [b] \<longleftrightarrow> n < 0x80 \<and> b = n"
  "utf8_bytes n = [b, a] \<longleftrightarrow> 0x80 \<le> n \<and> n < 0x800 \<and> b = 0xC0 + n div 0x40 \<and> a = 0x80 + n mod 0x40"
  "utf8_bytes n = [b, a, a2] \<longleftrightarrow> 0x800 \<le> n \<and> n < 0x10000 \<and>
     b = 0xE0 + n div 0x1000 \<and> a = 0x80 + n div 0x40 mod 0x40 \<and> a2 = 0x80 + n mod 0x40"
  "utf8_bytes n = [b, a, a2, a3] \<longleftrightarrow> 0x10000 \<le> n \<and>
     b = 0xF0 + n div 0x40000 \<and> a = 0x80 + n div 0x1000 mod 0x40 \<and> a2 = 0x80 + n div 0x40 mod 0x40 \<and> a3 = 0x80 + n mod 0x40"
  unfolding utf8_bytes_def by (simp_all split: if_split add: eq_commute) (linarith+)?

lemma digits2: "z < 0x40 \<Longrightarrow> n = y * 0x40 + z \<Longrightarrow> n div 0x40 = y \<and> n mod 0x40 = (z :: nat)"
  by simp

lemma digits3:
  assumes "z < 0x40" "y < 0x40" "n = x * 0x1000 + y * 0x40 + (z :: nat)"
  shows "n div 0x1000 = x" "n div 0x40 mod 0x40 = y" "n mod 0x40 = z"
proof -
  have "n div 0x40 = x * 0x40 + y" "n mod 0x40 = z"
    using digits2 [of z n "x * 0x40 + y"] assms by (simp_all add: algebra_simps)
  moreover have "n div 0x1000 = n div 0x40 div 0x40" by (simp add: div_mult2_eq [symmetric])
  ultimately show "n div 0x1000 = x" "n div 0x40 mod 0x40 = y" "n mod 0x40 = z" using assms by simp_all
qed

lemma digits4:
  assumes "z < 0x40" "y < 0x40" "x < 0x40" "n = w * 0x40000 + x * 0x1000 + y * 0x40 + (z :: nat)"
  shows "n div 0x40000 = w" "n div 0x1000 mod 0x40 = x" "n div 0x40 mod 0x40 = y" "n mod 0x40 = z"
proof -
  have d: "n div 0x1000 = w * 0x40 + x" "n div 0x40 mod 0x40 = y" "n mod 0x40 = z"
    using digits3 [of z y n "w * 0x40 + x"] assms by (simp_all add: algebra_simps)
  moreover have "n div 0x40000 = n div 0x1000 div 0x40" by (simp add: div_mult2_eq [symmetric])
  ultimately show "n div 0x40000 = w" "n div 0x1000 mod 0x40 = x" "n div 0x40 mod 0x40 = y" "n mod 0x40 = z"
    using assms by simp_all
qed

lemma join3: "n = n div 0x1000 * 0x1000 + n div 0x40 mod 0x40 * 0x40 + n mod (0x40 :: nat)"
proof -
  have "n = n div 0x40 * 0x40 + n mod 0x40" "n div 0x40 = n div 0x40 div 0x40 * 0x40 + n div 0x40 mod 0x40" by simp_all
  moreover have "n div 0x1000 = n div 0x40 div 0x40" by (simp add: div_mult2_eq [symmetric])
  ultimately show ?thesis by linarith
qed

lemma join4: "n = n div 0x40000 * 0x40000 + n div 0x1000 mod 0x40 * 0x1000 + n div 0x40 mod 0x40 * 0x40 + n mod (0x40 :: nat)"
proof -
  have "n div 0x1000 = n div 0x1000 div 0x40 * 0x40 + n div 0x1000 mod 0x40" by simp
  moreover have "n div 0x40000 = n div 0x1000 div 0x40" by (simp add: div_mult2_eq [symmetric])
  ultimately show ?thesis using join3 [of n] by linarith
qed

lemma enc1: "(\<exists>n. scalar n \<and> utf8_bytes n = [b]) \<longleftrightarrow> b < 0x80"
  by (auto simp: utf8_bytes_shapes scalar_def)

lemma enc2:
  "(\<exists>n. scalar n \<and> utf8_bytes n = [b, a]) \<longleftrightarrow> 0xC2 \<le> b \<and> b < 0xE0 \<and> 0x80 \<le> a \<and> a < 0xC0"
    (is "?l \<longleftrightarrow> ?r")
proof
  assume ?r
  then obtain x y where e: "b = 0xC0 + x" "a = 0x80 + y" "2 \<le> x" "x < 0x20" "y < 0x40"
    by (auto simp: le_iff_add)
  have "(x * 0x40 + y) div 0x40 = x" "(x * 0x40 + y) mod 0x40 = y" using e by simp_all
  then show ?l using e unfolding utf8_bytes_shapes
    by (intro exI [of _ "x * 0x40 + y"]) (simp add: scalar_def)
next
  assume ?l
  then obtain n where n: "0x80 \<le> n" "n < 0x800" "b = 0xC0 + n div 0x40" "a = 0x80 + n mod 0x40"
    unfolding utf8_bytes_shapes by blast
  then have "2 \<le> n div 0x40" "n div 0x40 < 0x20" by simp_all
  then show ?r using n by simp
qed

lemma enc3:
  "(\<exists>n. scalar n \<and> utf8_bytes n = [b, a, a2]) \<longleftrightarrow>
     0xE0 \<le> b \<and> b < 0xF0 \<and> (if b = 0xE0 then 0xA0 else 0x80) \<le> a \<and> a < (if b = 0xED then 0xA0 else 0xC0)
     \<and> 0x80 \<le> a2 \<and> a2 < 0xC0"
    (is "?l \<longleftrightarrow> ?r")
proof
  assume r: ?r
  then have "0xE0 \<le> b" "0x80 \<le> a" "0x80 \<le> a2" by (simp_all split: if_splits)
  then obtain x y z where e: "b = 0xE0 + x" "a = 0x80 + y" "a2 = 0x80 + z" unfolding le_iff_add by blast
  have b: "x < 0x10" "y < 0x40" "z < 0x40" "x = 0 \<Longrightarrow> 0x20 \<le> y" "x = 0xD \<Longrightarrow> y < 0x20"
    using r unfolding e by (simp_all split: if_splits)
  define n where "n = x * 0x1000 + y * 0x40 + z"
  have "0x800 \<le> n" "n < 0x10000" using b unfolding n_def by (cases "x = 0"; simp)+
  moreover have "scalar n"
  proof (cases "x = 0xD")
    case False
    then have "x \<le> 0xC \<or> 0xE \<le> x" by linarith
    then show ?thesis using b unfolding n_def scalar_def by linarith
  qed (use b in \<open>simp add: n_def scalar_def\<close>)
  ultimately show ?l using digits3 [OF b(3,2) n_def] e unfolding utf8_bytes_shapes by blast
next
  assume ?l
  then obtain n where n: "scalar n" "0x800 \<le> n" "n < 0x10000"
    and e: "b = 0xE0 + n div 0x1000" "a = 0x80 + n div 0x40 mod 0x40" "a2 = 0x80 + n mod 0x40"
    unfolding utf8_bytes_shapes by blast
  define x y z where d: "x = n div 0x1000" "y = n div 0x40 mod 0x40" "z = n mod 0x40"
  have "n = x * 0x1000 + y * 0x40 + z" "y < 0x40" "z < 0x40" unfolding d by (rule join3, simp_all)
  then show ?r using n unfolding scalar_def e d [symmetric] by auto
qed

lemma enc4:
  "(\<exists>n. scalar n \<and> utf8_bytes n = [b, a, a2, a3]) \<longleftrightarrow>
     0xF0 \<le> b \<and> b < 0xF5 \<and> (if b = 0xF0 then 0x90 else 0x80) \<le> a \<and> a < (if b = 0xF4 then 0x90 else 0xC0)
     \<and> 0x80 \<le> a2 \<and> a2 < 0xC0 \<and> 0x80 \<le> a3 \<and> a3 < 0xC0"
    (is "?l \<longleftrightarrow> ?r")
proof
  assume r: ?r
  then have "0xF0 \<le> b" "0x80 \<le> a" "0x80 \<le> a2" "0x80 \<le> a3" by (simp_all split: if_splits)
  then obtain w x y z where e: "b = 0xF0 + w" "a = 0x80 + x" "a2 = 0x80 + y" "a3 = 0x80 + z" unfolding le_iff_add by blast
  have b: "w < 5" "x < 0x40" "y < 0x40" "z < 0x40" "w = 0 \<Longrightarrow> 0x10 \<le> x" "w = 4 \<Longrightarrow> x < 0x10"
    using r unfolding e by (simp_all split: if_splits)
  define n where "n = w * 0x40000 + x * 0x1000 + y * 0x40 + z"
  have "0x10000 \<le> n" using b unfolding n_def by (cases "w = 0"; simp)
  moreover have "scalar n" using b calculation unfolding n_def scalar_def by (cases "w = 4"; simp)
  ultimately show ?l using digits4 [OF b(4,3,2) n_def] e unfolding utf8_bytes_shapes by blast
next
  assume ?l
  then obtain n where n: "scalar n" "0x10000 \<le> n"
    and e: "b = 0xF0 + n div 0x40000" "a = 0x80 + n div 0x1000 mod 0x40" "a2 = 0x80 + n div 0x40 mod 0x40" "a3 = 0x80 + n mod 0x40"
    unfolding utf8_bytes_shapes by blast
  define w x y z where d: "w = n div 0x40000" "x = n div 0x1000 mod 0x40" "y = n div 0x40 mod 0x40" "z = n mod 0x40"
  have "n = w * 0x40000 + x * 0x1000 + y * 0x40 + z" "x < 0x40" "y < 0x40" "z < 0x40"
    unfolding d by (rule join4, simp_all)
  then show ?r using n unfolding scalar_def e d [symmetric] by auto
qed

section \<open>Legal sequences\<close>

text \<open>
  The switch on the first byte has cases of its own for \<open>0xED\<close> and \<open>0xF4\<close>, which look at the
  upper bound of the second byte only; the lower bound of the default case does not apply to them. So the
  check lets pass, beside the encodings of scalar values, these sequences with a second byte below
  \<open>0x80\<close>.
\<close>

definition utf8_hole :: "string \<Rightarrow> bool" where
  "utf8_hole u \<longleftrightarrow> (case map of_char u of
       [b, a, a2] \<Rightarrow> b = (0xED :: nat) \<and> a < 0x80 \<and> 0x80 \<le> a2 \<and> a2 < 0xC0
     | [b, a, a2, a3] \<Rightarrow> b = 0xF4 \<and> a < 0x80 \<and> 0x80 \<le> a2 \<and> a2 < 0xC0 \<and> 0x80 \<le> a3 \<and> a3 < 0xC0
     | _ \<Rightarrow> False)"

definition utf8_unit :: "string \<Rightarrow> bool" where
  "utf8_unit u \<longleftrightarrow> (\<exists>n. scalar n \<and> u = utf8_enc n) \<or> utf8_hole u"

lemma ex_enc: "(\<exists>n. scalar n \<and> s = utf8_enc n) \<longleftrightarrow> (\<exists>n. scalar n \<and> utf8_bytes n = map of_char s)"
  using enc_iff_bytes by metis

lemma seq_len_bounds: "1 \<le> seq_len c" "seq_len c \<le> 6"
  by (auto simp: seq_len_def trailingBytesForUTF8_def)

lemma length_enc: "length (utf8_enc n) \<in> {1, 2, 3, 4}"
  by (simp add: utf8_enc_def utf8_bytes_def)

lemma hole_cases:
  assumes "utf8_hole u"
  obtains c a a2 where "u = [c, a, a2]" "of_char c = (0xED :: nat)" "of_char a < (0x80 :: nat)"
  | c a a2 a3 where "u = [c, a, a2, a3]" "of_char c = (0xF4 :: nat)" "of_char a < (0x80 :: nat)"
  using assms by (auto simp: utf8_hole_def split: list.splits)

lemma length_unit:
  assumes "utf8_unit u"
  shows "length u \<in> {1, 2, 3, 4}"
  using assms unfolding utf8_unit_def by (elim disjE exE conjE hole_cases) (use length_enc in auto)

lemma rd_c_mem:
  "rd (c # s) 0 = Inr (of_char c)" "rd (c # a # s) (Suc 0) = Inr (of_char a)"
  "rd (c # a # a2 # s) 2 = Inr (of_char a2)" "rd (c # a # a2 # a3 # s) 3 = Inr (of_char a3)"
  by (simp_all add: rd_def numeral_2_eq_2 numeral_3_eq_3)

lemma take_numerals:
  "take 1 (c # s) = [c]" "take 2 (c # a # s) = [c, a]" "take 3 (c # a # a2 # s) = [c, a, a2]"
  "take 4 (c # a # a2 # a3 # s) = [c, a, a2, a3]"
  by (simp_all add: numeral_2_eq_2 numeral_3_eq_3 eval_nat_numeral)

lemmas legal_cases = isLegalUTF8_def legal_case1_def legal_case2_def legal_case3_def legal_case4_def

text \<open>What the check does when all announced bytes are at hand.\<close>

lemma isLegalUTF8_iff:
  assumes "seq_len c \<le> length (c # cs)"
  shows "isLegalUTF8 (c_mem (c # cs)) (seq_len c) = Inr (utf8_unit (take (seq_len c) (c # cs)))"
proof -
  define b :: nat where "b = of_char c"
  consider "seq_len c = 1" "b < 0xC0" | "seq_len c = 2" "0xC0 \<le> b" "b < 0xE0" | "seq_len c = 3" "0xE0 \<le> b" "b < 0xF0"
    | "seq_len c = 4" "0xF0 \<le> b" "b < 0xF8" | "4 < seq_len c"
    unfolding seq_len_def trailingBytesForUTF8_def b_def [symmetric]
    by (cases "b < 0xC0"; cases "b < 0xE0"; cases "b < 0xF0"; cases "b < 0xF8") simp_all
  then show ?thesis
  proof cases
    case 1
    then show ?thesis unfolding utf8_unit_def ex_enc
      by (simp add: take_numerals enc1 legal_cases rd_c_mem utf8_hole_def b_def [symmetric])
  next
    case 2
    then obtain a s where cs: "cs = a # s" using assms by (cases cs) auto
    show ?thesis using 2 unfolding utf8_unit_def ex_enc cs
      by (simp add: take_numerals enc2 legal_cases rd_c_mem utf8_hole_def b_def [symmetric])
  next
    case 3
    then obtain a a2 s where cs: "cs = a # a2 # s" using assms by (cases cs; cases "tl cs") auto
    show ?thesis using 3 unfolding utf8_unit_def ex_enc cs
      by (simp add: take_numerals enc3 legal_cases rd_c_mem utf8_hole_def b_def [symmetric]) linarith
  next
    case 4
    then obtain a a2 a3 s where cs: "cs = a # a2 # a3 # s"
      using assms by (cases cs; cases "tl cs"; cases "tl (tl cs)") auto
    show ?thesis using 4 unfolding utf8_unit_def ex_enc cs
      by (simp add: take_numerals enc4 legal_cases rd_c_mem utf8_hole_def b_def [symmetric]) linarith
  next
    case 5
    moreover have "length (take (seq_len c) (c # cs)) = seq_len c" using assms by simp
    ultimately have "\<not> utf8_unit (take (seq_len c) (c # cs))" using length_unit [of "take (seq_len c) (c # cs)"] by auto
    then show ?thesis using 5 by (simp add: isLegalUTF8_def)
  qed
qed

text \<open>The first byte of a legal sequence announces its length, so the sequences are a prefix code.\<close>

lemma enc_announces:
  assumes "scalar n"
  shows "seq_len (hd (utf8_enc n)) = length (utf8_enc n)"
proof -
  have "utf8_bytes n \<noteq> []" by (simp add: utf8_bytes_def)
  then have h: "of_char (hd (utf8_enc n)) = hd (utf8_bytes n)"
    using bytes_of_enc [OF assms] by (cases "utf8_enc n") (auto dest: sym)
  have "n < 0x800 \<Longrightarrow> n div 0x40 < 0x20" "n < 0x10000 \<Longrightarrow> n div 0x1000 < 0x10" by simp_all
  moreover have "n div 0x40000 < 8" using assms by (simp add: scalar_def, linarith)
  ultimately show ?thesis
    unfolding seq_len_def h by (simp add: utf8_enc_def utf8_bytes_def trailingBytesForUTF8_def)
qed

lemma unit_announces:
  assumes "utf8_unit u"
  shows "seq_len (hd u) = length u"
  using assms unfolding utf8_unit_def
proof
  assume "utf8_hole u"
  then show ?thesis by (cases rule: hole_cases) (simp_all add: seq_len_def trailingBytesForUTF8_def)
qed (auto simp: enc_announces)

lemma unit_step:
  assumes "utf8_unit u"
  obtains c cs where "u @ s = c # cs" "c = hd u" "seq_len c \<le> length (c # cs)" "seq_len c = length u"
    "take (seq_len c) (c # cs) = u" "drop (seq_len c) (c # cs) = s"
    "isLegalUTF8 (c_mem (c # cs)) (seq_len c) = Inr True"
proof -
  obtain c t where e: "u = c # t" using length_unit [OF assms] by (cases u) auto
  have l: "seq_len c = length u" using unit_announces [OF assms] e by simp
  have d: "seq_len c \<le> length (c # t @ s)" "take (seq_len c) (c # t @ s) = u" "drop (seq_len c) (c # t @ s) = s"
    unfolding l e by simp_all
  have "isLegalUTF8 (c_mem (c # t @ s)) (seq_len c) = Inr True"
    unfolding isLegalUTF8_iff [OF d(1)] d(2) using assms by blast
  then show thesis using that [of c "t @ s"] e l d by (metis append_Cons list.sel(1))
qed

lemma unit_prefix_code:
  assumes "utf8_unit u" "utf8_unit v" "u @ s = v @ t"
  shows "u = v \<and> s = t"
proof -
  have "u \<noteq> []" "v \<noteq> []" using length_unit assms(1,2) by force+
  then have "hd u = hd v" using assms(3) by (metis hd_append2)
  then have "length u = length v" using unit_announces assms(1,2) by metis
  then show ?thesis using assms(3) by simp
qed

section \<open>Valid strings\<close>

definition unit_allowed :: "u64 \<Rightarrow> string \<Rightarrow> bool" where
  "unit_allowed f u \<longleftrightarrow> utf8_unit u \<and> u \<noteq> [CHR 0x00]
     \<and> (f AND UTF8_NO_CTRL \<noteq> 0 \<and> length u = 1 \<longrightarrow> \<not> iscntrl (of_char (hd u)))
     \<and> (f AND UTF8_NO_SPACE \<noteq> 0 \<and> length u = 1 \<longrightarrow> \<not> isspace (of_char (hd u)))"

definition valid_units :: "u64 \<Rightarrow> string \<Rightarrow> size_t \<Rightarrow> string list \<Rightarrow> bool" where
  "valid_units f s k us \<longleftrightarrow> s = concat us \<and> (\<forall>u\<in>set us. unit_allowed f u)
     \<and> (max_len_of f \<noteq> 0 \<and> us \<noteq> [] \<longrightarrow> k + length us \<le> max_len_of f)"

lemma valid_units_Cons:
  assumes "utf8_unit u"
  shows "(\<exists>us. valid_units f (u @ s) k us) \<longleftrightarrow>
     unit_allowed f u \<and> (max_len_of f \<noteq> 0 \<longrightarrow> k + 1 \<le> max_len_of f) \<and> (\<exists>us. valid_units f s (k + 1) us)"
proof
  assume "\<exists>us. valid_units f (u @ s) k us"
  then obtain us where us: "valid_units f (u @ s) k us" by blast
  then obtain v vs where v: "us = v # vs" using length_unit [OF assms] by (cases us) (auto simp: valid_units_def)
  with us have "u @ s = v @ concat vs" "utf8_unit v" by (simp_all add: valid_units_def unit_allowed_def)
  then have e: "u = v" "s = concat vs" using unit_prefix_code [OF assms] by blast+
  with us v have "valid_units f s (k + 1) vs" by (auto simp: valid_units_def)
  with us v e show "unit_allowed f u \<and> (max_len_of f \<noteq> 0 \<longrightarrow> k + 1 \<le> max_len_of f) \<and> (\<exists>us. valid_units f s (k + 1) us)"
    by (auto simp: valid_units_def)
next
  assume a: "unit_allowed f u \<and> (max_len_of f \<noteq> 0 \<longrightarrow> k + 1 \<le> max_len_of f) \<and> (\<exists>us. valid_units f s (k + 1) us)"
  then obtain us where "valid_units f s (k + 1) us" by blast
  with a have "valid_units f (u @ s) k (u # us)" by (cases us) (auto simp: valid_units_def)
  then show "\<exists>us. valid_units f (u @ s) k us" by blast
qed

lemma is_valid_utf8_loop_step:
  assumes "utf8_unit u"
  shows "is_valid_utf8_loop f (u @ s) k =
     (if unit_allowed f u \<and> (max_len_of f \<noteq> 0 \<longrightarrow> k + 1 \<le> max_len_of f) then is_valid_utf8_loop f s (k + 1) else Inr False)"
proof -
  obtain c cs where e: "u @ s = c # cs" "c = hd u" "seq_len c \<le> length (c # cs)" "seq_len c = length u"
    "drop (seq_len c) (c # cs) = s" "isLegalUTF8 (c_mem (c # cs)) (seq_len c) = Inr True"
    using unit_step [OF assms] by metis
  have "c = CHR 0x00 \<longleftrightarrow> u = [CHR 0x00]"
  proof
    assume "c = CHR 0x00"
    then have "length u = 1" using e(4) by (simp add: seq_len_def trailingBytesForUTF8_def)
    then show "u = [CHR 0x00]" using e(2) \<open>c = CHR 0x00\<close> by (cases u) auto
  qed (simp add: e(2))
  then show ?thesis using assms e(3-6) unfolding e(1) e(2) [symmetric]
    by (subst is_valid_utf8_loop.simps) (auto simp: unit_allowed_def e(2) [symmetric])
qed

lemma is_valid_utf8_loop_iff: "is_valid_utf8_loop f s k = Inr (\<exists>us. valid_units f s k us)"
proof (induction "length s" arbitrary: s k rule: less_induct)
  case less
  show ?case
  proof (cases "\<exists>u t. utf8_unit u \<and> s = u @ t")
    case True
    then obtain u t where u: "utf8_unit u" "s = u @ t" by blast
    then have "length t < length s" using length_unit [OF u(1)] by auto
    then show ?thesis using less [of t "k + 1"]
      unfolding u(2) is_valid_utf8_loop_step [OF u(1)] valid_units_Cons [OF u(1)] by simp
  next
    case False
    show ?thesis
    proof (cases s)
      case Nil
      have "valid_units f [] k []" by (simp add: valid_units_def)
      then show ?thesis using Nil by auto
    next
      case (Cons c cs)
      have "\<not> valid_units f s k us" for us
        using False Cons by (cases us) (auto simp: valid_units_def unit_allowed_def)
      moreover have "\<not> utf8_unit (take (seq_len c) (c # cs))"
        using False Cons append_take_drop_id [of "seq_len c" "c # cs"] by metis
      then have "isLegalUTF8 (c_mem (c # cs)) (seq_len c) = Inr False \<or> seq_len c > length (c # cs)"
        using isLegalUTF8_iff [of c cs] by auto
      then have "is_valid_utf8_loop f s k = Inr False"
        unfolding Cons by (subst is_valid_utf8_loop.simps) auto
      ultimately show ?thesis by simp
    qed
  qed
qed

text \<open>Strings in which no \<open>0xED\<close> or \<open>0xF4\<close> is followed by a byte below \<open>0x80\<close>.\<close>

fun hole_free :: "string \<Rightarrow> bool" where
  "hole_free (c # d # s) \<longleftrightarrow> \<not> (of_char c \<in> {0xED, 0xF4 :: nat} \<and> of_char d < (0x80 :: nat)) \<and> hole_free (d # s)"
| "hole_free s \<longleftrightarrow> True"

lemma hole_free_append: "hole_free (s @ t) \<Longrightarrow> hole_free s \<and> hole_free t"
proof (induction s)
  case (Cons c s)
  then show ?case by (cases s; cases t) auto
qed simp

lemma hole_free_concat: "hole_free (concat us) \<Longrightarrow> u \<in> set us \<Longrightarrow> hole_free u"
  by (induction us) (auto dest: hole_free_append)

lemma hole_free_unit: "utf8_unit u \<Longrightarrow> hole_free u \<Longrightarrow> \<exists>n. scalar n \<and> u = utf8_enc n"
  by (auto simp: utf8_unit_def elim!: hole_cases)

lemma hole_free_units:
  assumes "hole_free (concat us)" "\<forall>u\<in>set us. utf8_unit u"
  shows "\<exists>ns. us = map utf8_enc ns \<and> (\<forall>n\<in>set ns. scalar n)"
  using assms
proof (induction us)
  case (Cons u us)
  then obtain n ns where "scalar n" "u = utf8_enc n" "us = map utf8_enc ns" "\<forall>n\<in>set ns. scalar n"
    using hole_free_unit [of u] hole_free_append [of u "concat us"] by auto
  then show ?case by (intro exI [of _ "n # ns"]) simp
qed simp

definition char_allowed :: "u64 \<Rightarrow> nat \<Rightarrow> bool" where
  "char_allowed f n \<longleftrightarrow> scalar n \<and> n \<noteq> 0 \<and> (f AND UTF8_NO_CTRL \<noteq> 0 \<longrightarrow> \<not> iscntrl n)
     \<and> (f AND UTF8_NO_SPACE \<noteq> 0 \<longrightarrow> \<not> isspace n)"

lemma unit_allowed_enc: "scalar n \<Longrightarrow> unit_allowed f (utf8_enc n) \<longleftrightarrow> char_allowed f n"
proof (cases "n < 0x80")
  case True
  then have e: "utf8_enc n = [char_of n]" "of_char (char_of n) = n" by (simp_all add: utf8_enc_def utf8_bytes_def)
  then have "char_of n = CHR 0x00 \<longleftrightarrow> n = 0" using of_char_eq_iff [of "char_of n" "CHR 0x00", where ?'a = nat] by simp
  moreover assume "scalar n"
  then have "utf8_unit [char_of n]" using e(1) by (auto simp: utf8_unit_def)
  ultimately show ?thesis using e by (simp add: unit_allowed_def char_allowed_def \<open>scalar n\<close>)
next
  case False
  then have "length (utf8_enc n) \<noteq> 1" by (simp add: utf8_enc_def utf8_bytes_def)
  moreover assume "scalar n"
  moreover have "\<not> iscntrl n" "\<not> isspace n" using False by (simp_all add: iscntrl_def isspace_def)
  ultimately show ?thesis using False by (auto simp: unit_allowed_def char_allowed_def utf8_unit_def)
qed

lemma is_valid_utf8_rfc3629_aux:
  assumes "hole_free s"
  shows "(\<exists>us. valid_units f s 0 us) \<longleftrightarrow>
     (\<exists>ns. s = utf8_str ns \<and> (\<forall>n\<in>set ns. char_allowed f n) \<and> (max_len_of f \<noteq> 0 \<longrightarrow> length ns \<le> max_len_of f))"
proof
  assume "\<exists>us. valid_units f s 0 us"
  then obtain us where us: "valid_units f s 0 us" by blast
  then obtain ns where ns: "us = map utf8_enc ns" "\<forall>n\<in>set ns. scalar n"
    using hole_free_units [of us] assms by (auto simp: valid_units_def unit_allowed_def)
  then have "s = utf8_str ns" "\<forall>n\<in>set ns. char_allowed f n" "max_len_of f \<noteq> 0 \<longrightarrow> length ns \<le> max_len_of f"
    using us unit_allowed_enc by (cases "ns = []"; auto simp: valid_units_def utf8_str_def)+
  then show "\<exists>ns. s = utf8_str ns \<and> (\<forall>n\<in>set ns. char_allowed f n) \<and> (max_len_of f \<noteq> 0 \<longrightarrow> length ns \<le> max_len_of f)"
    by blast
next
  assume "\<exists>ns. s = utf8_str ns \<and> (\<forall>n\<in>set ns. char_allowed f n) \<and> (max_len_of f \<noteq> 0 \<longrightarrow> length ns \<le> max_len_of f)"
  then obtain ns where "s = utf8_str ns" "\<forall>n\<in>set ns. char_allowed f n" "max_len_of f \<noteq> 0 \<longrightarrow> length ns \<le> max_len_of f"
    by blast
  then have "valid_units f s 0 (map utf8_enc ns)"
    using unit_allowed_enc by (auto simp: valid_units_def utf8_str_def char_allowed_def)
  then show "\<exists>us. valid_units f s 0 us" by blast
qed

section \<open>Printing\<close>

lemma utf8_printable_loop_step:
  assumes "max_len_of f = 0 \<or> k < max_len_of f"
  shows "\<exists>out rest. utf8_printable_loop f (c # cs) k ret = utf8_printable_loop f rest (k + 1) (ret @ out)
     \<and> length rest < length (c # cs) \<and> (\<exists>pre. c # cs = pre @ rest)
     \<and> ((out = printable_subst f c) \<or> (utf8_unit out \<and> hd out = c \<and> (\<exists>post. c # cs = out @ post) \<and> \<not> iscntrl (of_char c)))"
proof (cases "seq_len c \<le> length (c # cs) \<and> of_char c \<ge> (0x20 :: nat) \<and> of_char c \<noteq> (0x7F :: nat)
    \<and> utf8_unit (take (seq_len c) (c # cs))")
  case True
  then have "isLegalUTF8 (c_mem (c # cs)) (seq_len c) = Inr True" using isLegalUTF8_iff by simp
  then have "utf8_printable_loop f (c # cs) k ret =
      utf8_printable_loop f (drop (seq_len c) (c # cs)) (k + 1) (ret @ take (seq_len c) (c # cs))"
    using True assms by (subst utf8_printable_loop.simps) auto
  moreover have "length (drop (seq_len c) (c # cs)) < length (c # cs)" using seq_len_bounds(1) [of c] by (simp add: Suc_le_eq)
  moreover have "c # cs = take (seq_len c) (c # cs) @ drop (seq_len c) (c # cs)" by (simp only: append_take_drop_id)
  moreover have "hd (take (seq_len c) (c # cs)) = c" using seq_len_bounds(1) [of c] by (cases "seq_len c") auto
  moreover have "\<not> iscntrl (of_char c)" using True by (simp add: iscntrl_def)
  ultimately show ?thesis using True by metis
next
  case False
  then have "(if seq_len c \<le> length (c # cs) \<and> of_char c \<ge> (0x20 :: nat) \<and> of_char c \<noteq> (0x7F :: nat)
      then isLegalUTF8 (c_mem (c # cs)) (seq_len c) else Inr False) = Inr False"
    using isLegalUTF8_iff [of c cs] by auto
  then have "utf8_printable_loop f (c # cs) k ret = utf8_printable_loop f cs (k + 1) (ret @ printable_subst f c)"
    using assms by (subst utf8_printable_loop.simps) simp
  then show ?thesis by (metis append_Cons append_Nil length_Cons lessI)
qed

definition printed :: "nat \<Rightarrow> bool" where
  "printed n \<longleftrightarrow> scalar n \<and> \<not> iscntrl n"

lemma utf8_str_ascii: "\<forall>c\<in>set s. of_char c < (0x80 :: nat) \<Longrightarrow> utf8_str (map of_char s) = s"
  by (induction s) (auto simp: utf8_enc_def utf8_bytes_def)

lemma printable_subst_printed:
  assumes "f AND UTF8_PASS_FMT = 0"
  shows "\<exists>ns. printable_subst f c = utf8_str ns \<and> (\<forall>n\<in>set ns. printed n) \<and> length ns \<le> 1"
proof -
  have "utf8_str [0x20] = '' ''" "utf8_str [0x3F] = ''?''"
    using utf8_str_ascii [of "'' ''"] utf8_str_ascii [of "''?''"] by simp_all
  moreover have "printed 0x20" "printed 0x3F" by (simp_all add: printed_def scalar_def iscntrl_def)
  moreover have "printable_subst f c \<in> {'' '', ''?'', []}" using assms by (simp add: printable_subst_def)
  ultimately consider "printable_subst f c = utf8_str [0x20]" | "printable_subst f c = utf8_str [0x3F]"
    | "printable_subst f c = utf8_str []" by fastforce
  then show ?thesis
    by cases (use \<open>printed 0x20\<close> \<open>printed 0x3F\<close> in \<open>auto intro: exI [of _ "[0x20]"] exI [of _ "[0x3F]"] exI [of _ "[]"]\<close>)
qed

lemma unit_printed:
  assumes "utf8_unit u" "hole_free u" "\<not> iscntrl (of_char (hd u))"
  shows "\<exists>n. u = utf8_enc n \<and> printed n"
proof -
  obtain n where n: "scalar n" "u = utf8_enc n" using hole_free_unit assms(1,2) by blast
  have "\<not> iscntrl n"
  proof
    assume "iscntrl n"
    then have "hd u = char_of n" "of_char (char_of n) = n"
      by (auto simp: n utf8_enc_def utf8_bytes_def iscntrl_def)
    then show False using assms(3) \<open>iscntrl n\<close> by simp
  qed
  then show ?thesis using n by (auto simp: printed_def)
qed

lemma utf8_printable_loop_printed:
  assumes "hole_free s" "f AND UTF8_PASS_FMT = 0" "\<forall>n\<in>set ns. printed n" "length ns \<le> k" "max_len_of f \<noteq> 0 \<longrightarrow> k \<le> max_len_of f"
  shows "\<exists>ns'. utf8_printable_loop f s k (utf8_str ns) = Inr (utf8_str ns') \<and> (\<forall>n\<in>set ns'. printed n)
     \<and> (max_len_of f \<noteq> 0 \<longrightarrow> length ns' \<le> max_len_of f + 3)"
  using assms
proof (induction "length s" arbitrary: s k ns rule: less_induct)
  case less
  show ?case
  proof (cases s)
    case Nil
    then show ?thesis using less.prems by auto
  next
    case (Cons c cs)
    show ?thesis
    proof (cases "max_len_of f = 0 \<or> k < max_len_of f")
      case True
      from utf8_printable_loop_step [OF True, of c cs "utf8_str ns"] obtain out rest pre where
        st: "utf8_printable_loop f s k (utf8_str ns) = utf8_printable_loop f rest (k + 1) (utf8_str ns @ out)"
        "length rest < length s" "s = pre @ rest"
        "out = printable_subst f c \<or> utf8_unit out \<and> hd out = c \<and> (\<exists>post. s = out @ post) \<and> \<not> iscntrl (of_char c)"
        unfolding Cons by blast
      obtain ms where ms: "out = utf8_str ms" "\<forall>n\<in>set ms. printed n" "length ms \<le> 1"
        using st(4)
      proof
        assume "out = printable_subst f c"
        then show ?thesis using that printable_subst_printed [OF less.prems(2)] by metis
      next
        assume o: "utf8_unit out \<and> hd out = c \<and> (\<exists>post. s = out @ post) \<and> \<not> iscntrl (of_char c)"
        then have "hole_free out" using hole_free_append less.prems(1) by blast
        then obtain n where "out = utf8_enc n" "printed n" using unit_printed o by blast
        then show ?thesis using that [of "[n]"] by simp
      qed
      have "hole_free rest" using st(3) less.prems(1) hole_free_append by blast
      moreover have "\<forall>n\<in>set (ns @ ms). printed n" "length (ns @ ms) \<le> k + 1" using less.prems(3,4) ms by auto
      moreover have "max_len_of f \<noteq> 0 \<longrightarrow> k + 1 \<le> max_len_of f" using True by auto
      ultimately show ?thesis
        using less.hyps [OF st(2), of "ns @ ms" "k + 1"] less.prems(2) unfolding st(1) ms(1) by simp
    next
      case False
      then have "utf8_printable_loop f s k (utf8_str ns) = Inr (utf8_str (ns @ [0x2E, 0x2E, 0x2E]))"
        unfolding Cons using utf8_str_ascii [of "''...''"] by (subst utf8_printable_loop.simps) simp
      moreover have "\<forall>n\<in>set (ns @ [0x2E, 0x2E, 0x2E]). printed n" using less.prems(3) by (auto simp: printed_def scalar_def iscntrl_def)
      moreover have "length (ns @ [0x2E, 0x2E, 0x2E]) \<le> max_len_of f + 3" using less.prems(4,5) False by simp
      ultimately show ?thesis by blast
    qed
  qed
qed

section \<open>Counting\<close>

lemma utf8_length_loop_step:
  assumes "utf8_unit u" "length u \<le> sz"
  shows "utf8_length_loop sz (u @ s) k = utf8_length_loop sz s (k + 1)"
proof -
  obtain c cs where e: "u @ s = c # cs" "seq_len c = length u"
    "drop (seq_len c) (c # cs) = s" "isLegalUTF8 (c_mem (c # cs)) (seq_len c) = Inr True"
    using unit_step [OF assms(1)] by metis
  have "max 1 (min (seq_len c) sz) = seq_len c" "min (seq_len c) sz = seq_len c"
    using e(2) assms(2) seq_len_bounds(1) [of c] by simp_all
  then show ?thesis unfolding e(1) using e(3,4) by (subst utf8_length_loop.simps) (simp del: drop_Cons')
qed

lemma utf8_length_loop_units:
  "\<forall>u\<in>set us. utf8_unit u \<Longrightarrow> length (concat us) \<le> sz \<Longrightarrow>
     utf8_length_loop sz (concat us @ s) k = utf8_length_loop sz s (k + length us)"
proof (induction us arbitrary: k)
  case (Cons u us)
  then show ?case using utf8_length_loop_step [of u sz "concat us @ s" k] by simp
qed simp

text \<open>
  C22. \<open>Unicode::is_valid_utf8\<close> accepts, of the strings in which no byte 0xED or 0xF4 is followed by one
  below 0x80, exactly the UTF-8 encodings (RFC 3629) of sequences of non-null scalar values that have at
  most the given number of characters and, as the flags say, no control characters and no spaces.
\<close>

theorem valid_utf8_rfc3629:
  assumes "hole_free s"
  shows "is_valid_utf8 s f = Inr (\<exists>ns. s = utf8_str ns \<and> (\<forall>n\<in>set ns. char_allowed f n)
     \<and> (max_len_of f \<noteq> 0 \<longrightarrow> length ns \<le> max_len_of f))"
  unfolding is_valid_utf8_def is_valid_utf8_loop_iff is_valid_utf8_rfc3629_aux [OF assms] ..

theorem valid_utf8_rfc3629_witness:
  "is_valid_utf8 (utf8_str [0x41, 0xE9, 0x20AC, 0x1F600]) UTF8_NO_CTRL = Inr True"
proof -
  let ?ns = "[0x41, 0xE9, 0x20AC, 0x1F600] :: nat list"
  have "hole_free (utf8_str ?ns)" by (simp add: utf8_enc_def utf8_bytes_def)
  moreover have "\<forall>n\<in>set ?ns. char_allowed UTF8_NO_CTRL n"
    by (simp add: char_allowed_def scalar_def iscntrl_def UTF8_NO_CTRL_def UTF8_NO_SPACE_def)
  moreover have "max_len_of UTF8_NO_CTRL = 0" by (simp add: max_len_of_def UTF8_NO_CTRL_def)
  ultimately show ?thesis
    by (subst valid_utf8_rfc3629) (auto simp del: utf8_str_simps intro: exI [of _ ?ns])
qed

text \<open>
  C23. Every sequence of 0xED, a byte below 0x80 and a continuation byte passes \<open>is_valid_utf8\<close> under
  any flags, also when control characters are to be refused, and passes \<open>utf8_printable\<close> unchanged: a
  message from the peer can carry a line feed or a null through both. It is no UTF-8 encoding of anything.
\<close>

theorem utf8_hole_passes:
  fixes a b :: nat
  assumes "a < 0x80" "0x80 \<le> b" "b < 0xC0"
  shows "is_valid_utf8 (map char_of [0xED, a, b]) f = Inr True
     \<and> utf8_printable (map char_of [0xED, a, b]) g = Inr (map char_of [0xED, a, b])
     \<and> \<not> (\<exists>ns. (\<forall>n\<in>set ns. scalar n) \<and> map char_of [0xED, a, b] = utf8_str ns)"
proof -
  let ?s = "map char_of [0xED, a, b :: nat]"
  have h: "utf8_unit ?s" using assms by (simp add: utf8_unit_def utf8_hole_def)
  have "valid_units f ?s 0 [?s]" using h by (simp add: valid_units_def unit_allowed_def)
  then have v: "is_valid_utf8 ?s f = Inr True" unfolding is_valid_utf8_def is_valid_utf8_loop_iff by blast
  have l: "seq_len (char_of (0xED :: nat)) = 3" by (simp add: seq_len_def trailingBytesForUTF8_def)
  have "isLegalUTF8 (c_mem ?s) 3 = Inr True"
    using h isLegalUTF8_iff [of "char_of (0xED :: nat)" "map char_of [a, b]"] l by (simp add: take_numerals)
  then have p: "utf8_printable ?s g = Inr ?s"
    unfolding utf8_printable_def by (auto simp: utf8_printable_loop.simps(2) l take_numerals)
  have "?s \<noteq> utf8_str ns" if "\<forall>n\<in>set ns. scalar n" for ns
  proof
    assume e: "?s = utf8_str ns"
    then obtain n ms where n: "ns = n # ms" by (cases ns) auto
    then have "?s = utf8_enc n" using unit_prefix_code [OF h, of "utf8_enc n" "[]" "utf8_str ms"] that e
      by (auto simp: utf8_unit_def)
    then have "utf8_bytes n = map of_char ?s" using bytes_of_enc [of n] that n by simp
    then have "utf8_bytes n = [0xED, a, b]" using assms by simp
    then have "\<exists>n. scalar n \<and> utf8_bytes n = [0xED, a, b]" using that n by auto
    then show False unfolding enc3 using assms by simp
  qed
  then show ?thesis using v p by blast
qed

theorem utf8_hole_passes_witness:
  "is_valid_utf8 (map char_of [0xED, 0x0A, 0x80 :: nat]) UTF8_NO_CTRL = Inr True
   \<and> utf8_printable (map char_of [0xED, 0x0A, 0x80 :: nat]) 0 = Inr (map char_of [0xED, 0x0A, 0x80 :: nat])"
  using utf8_hole_passes [of "0x0A" "0x80" UTF8_NO_CTRL 0] by simp

text \<open>
  Apart from such sequences, the printable form of a string (without \<open>UTF8_PASS_FMT\<close>) is valid
  UTF-8 without control characters, and has at most three characters more than asked for.
\<close>

lemma utf8_printable_clean:
  assumes "hole_free s" "f AND UTF8_PASS_FMT = 0"
  shows "\<exists>ns. utf8_printable s f = Inr (utf8_str ns) \<and> (\<forall>n\<in>set ns. scalar n \<and> \<not> iscntrl n)
     \<and> (max_len_of f \<noteq> 0 \<longrightarrow> length ns \<le> max_len_of f + 3)"
  using utf8_printable_loop_printed [OF assms, of "[]" 0] by (simp add: utf8_printable_def printed_def)

text \<open>
  C24. \<open>utf8_length\<close> counts the characters of valid UTF-8. But it bounds the length of the last
  sequence by the size of the whole string: behind at least three bytes, a first byte of a sequence of three
  or four at the end of the string makes it read behind the terminating null.
\<close>

theorem utf8_length_overread:
  assumes "\<forall>n\<in>set ns. scalar n"
  shows "utf8_length (utf8_str ns) = Inr (length ns)
     \<and> (3 \<le> length (utf8_str ns) \<and> 0xE0 \<le> (of_char c :: nat) \<and> (of_char c :: nat) < 0xF8 \<longrightarrow>
          utf8_length (utf8_str ns @ [c]) = Inl undefined_behaviour)"
proof -
  have u: "\<forall>u\<in>set (map utf8_enc ns). utf8_unit u" using assms by (auto simp: utf8_unit_def)
  have e: "utf8_length_loop sz (utf8_str ns @ s) k = utf8_length_loop sz s (k + length ns)"
    if "length (utf8_str ns) \<le> sz" for sz s k
    using utf8_length_loop_units [OF u, of sz s k] that by (simp add: utf8_str_def)
  have "utf8_length_loop (Suc (length (utf8_str ns))) [c] k = Inl undefined_behaviour"
    if "3 \<le> length (utf8_str ns)" "0xE0 \<le> (of_char c :: nat)" "(of_char c :: nat) < 0xF8" for k
  proof -
    have "seq_len c = 3 \<or> seq_len c = 4" using that(2,3) by (auto simp: seq_len_def trailingBytesForUTF8_def)
    then have "isLegalUTF8 [c, CHR 0x00] (min (seq_len c) (Suc (length (utf8_str ns)))) = Inl undefined_behaviour"
      using that(1) by (auto simp: legal_cases rd_def min_def)
    then show ?thesis by (simp add: utf8_length_loop.simps(2))
  qed
  then show ?thesis using e [of "length (utf8_str ns)" "[]" 0] e [of "Suc (length (utf8_str ns))" "[c]" 0]
    by (simp add: utf8_length_def)
qed

theorem utf8_length_overread_witness:
  "utf8_length (''abc'' @ [CHR 0xF0]) = Inl undefined_behaviour"
proof -
  have "utf8_str [0x61, 0x62, 0x63] = ''abc''" using utf8_str_ascii [of "''abc''"] by simp
  then show ?thesis
    using utf8_length_overread [of "[0x61, 0x62, 0x63]" "CHR 0xF0"] by (simp add: scalar_def del: utf8_str_simps)
qed

end
