(* ===== verification/Spec2Isabelle.thy ===== *)
theory Spec2Isabelle
  imports Packet_Id_Control Packet_Id_Data Reliable_Channel IPv6_Net OV_Base64 Tcp_Link Key_Rotation Control_Channel Compress Crypto_Select OV_Unicode
begin

text \<open>
  \<^bold>\<open>The OpenVPN 3 core, modelled and verified.\<close>

  The C++ library under \<^verbatim>\<open>src/openvpn/openvpn\<close> is the tunnel core: packets arrive from a transport, are
  classified by their first byte, and go either to the control channel (a TLS session over a reliability
  layer that acknowledges, reorders and retransmits) or to the data channel (packets under the keys that
  the control channel negotiated, with replay protection). Keys are replaced while the tunnel is up. The
  theories follow the components of that core; every definition is the translation of one C++ function,
  constant or class, with the exceptions as values of the type \<open>exn\<close>, machine integers as words of their
  width and memory as explicit buffers.

  \<^bold>\<open>Foundations.\<close>
  \<^item> \<open>OV_Prelude\<close>: the result type and its bind, the exceptions, byte orders, collections of simplification
    rules and lemmas on lists and words that several components use.
  \<^item> \<open>OV_Buffer\<close> (\<^verbatim>\<open>buffer/buffer.hpp\<close>): a buffer is an array with an offset, a size and a capacity.
    Every operation keeps the layout, has its effect on the contents only, and never touches memory outside
    of the array; when exactly write and prepend throw; what the destructor clears. \<open>Frame_Context\<close>
    (\<^verbatim>\<open>frame/frame.hpp\<close>, \<^verbatim>\<open>frame_init.hpp\<close>) gives the headroom, payload and tailroom the buffers are
    made with.
  \<^item> \<open>OV_Time\<close> (\<^verbatim>\<open>time/time.hpp\<close>): durations and time points, saturating at zero and absorbing infinity.
  \<^item> \<open>Hex_Str\<close> (\<^verbatim>\<open>common/hexstr.hpp\<close>), \<open>OV_Base64\<close> (\<^verbatim>\<open>common/base64.hpp\<close>), \<open>Split_Lines\<close>
    (\<^verbatim>\<open>common/splitlines.hpp\<close>), \<open>Static_Key\<close> (\<^verbatim>\<open>crypto/static_key.hpp\<close>): text forms and their round trips.
  \<^item> \<open>OV_Unicode\<close> (\<^verbatim>\<open>common/unicode.hpp\<close>, \<^verbatim>\<open>unicode-impl.hpp\<close>): the checks of UTF-8 that messages from
    the peer go through, against the encoding of RFC 3629; which illegal sequences the check lets pass, and when
    counting the characters reads behind the string.

  \<^bold>\<open>Replay protection.\<close> \<open>Replay_Window\<close> and \<open>Replay_Filter\<close> hold the circular bit history and the part of
  \<open>do_test_add\<close> that \<^verbatim>\<open>packet_id_control.hpp\<close> and \<^verbatim>\<open>packet_id_data.hpp\<close> share; its locale is
  interpreted for the 32-bit and the 64-bit IDs. \<open>Packet_Id_Control\<close> and \<open>Packet_Id_Data\<close> model the two
  classes in full. The filters refine a specification over the set of accepted IDs; no ID is accepted
  twice; the senders never repeat an ID before the wrap exception; the wire formats are read back.

  \<^bold>\<open>Reliability.\<close> \<open>Msg_Window\<close> (\<^verbatim>\<open>common/msgwin.hpp\<close>) is the sliding window, \<open>Reliable\<close>
  (\<^verbatim>\<open>reliable/rel*.hpp\<close>) the sending and receiving sides and the acknowledgement queues.
  \<open>Reliable_Channel\<close> composes two ends over a network that loses, repeats and reorders: what is handed up is
  a prefix of what was sent, and every reachable state can still deliver everything.

  \<^bold>\<open>Transport.\<close> \<open>Packet_Stream\<close> (\<^verbatim>\<open>transport/pktstream.hpp\<close>) cuts the byte stream into packets,
  \<open>Tcp_Link\<close> (\<^verbatim>\<open>tcplinkcommon.hpp\<close>) queues and receives them: end to end the packets come out as they went
  in, however the socket cuts the bytes. \<open>IP_Checksum\<close> (\<^verbatim>\<open>ip/csum.hpp\<close>) and \<open>MSS_Fix\<close>
  (\<^verbatim>\<open>transport/mssfix.hpp\<close>) model the checksum and the clamping of the TCP segment size.

  \<^bold>\<open>Keys.\<close> \<open>Data_Limit\<close> (\<^verbatim>\<open>ssl/datalimit.hpp\<close>), \<open>Proto_Op\<close> (packet headers and \<open>PacketType\<close> of
  \<^verbatim>\<open>ssl/proto.hpp\<close>), \<open>Key_Context\<close> (the events of a key, data limits, encryption and decryption; the cipher
  and the compressor are parameters, gathered in the record \<open>dc_api\<close>), \<open>Proto_Context\<close> (primary and secondary key,
  key IDs, event processing, dispatch) and \<open>Key_Rotation\<close> (the step relation of the protocol context, its
  invariant, and what it gives: every valid key has a deadline, a promoted key is active).

  \<^bold>\<open>Control channel.\<close> \<open>Control_Crypto\<close> (\<^verbatim>\<open>ssl/psid.hpp\<close>, \<^verbatim>\<open>crypto/ovpnhmac.hpp\<close>, \<^verbatim>\<open>crypto/tls_crypt.hpp\<close>)
  has the session IDs and the HMAC and cipher operations on packets, over a digest and a cipher as parameters;
  \<open>Control_Wrap\<close> the methods of \<open>KeyContext\<close> that put control packets on the wire and take them off it, without
  protection, with tls-auth and with tls-crypt; \<open>Tls_Crypt_V2\<close> the wrapped client keys and the validation of
  first packets. \<open>Control_Safe\<close> shows that \<open>decapsulate\<close> returns for every packet and keeps the invariant, that no packet is
  filed twice, and that a packet with a wrong HMAC changes nothing; \<open>Control_Channel\<close> that what one end
  encapsulates the other end files.

  \<^bold>\<open>Data channel encryption.\<close> \<open>Crypto_Algs\<close> (\<^verbatim>\<open>crypto/cryptoalgs.hpp\<close>, \<^verbatim>\<open>aead_usage_limit.hpp\<close>, \<^verbatim>\<open>cryptodc.hpp\<close>) has the
  table of algorithms, what may be used on the data channel, usage limits and settings. \<open>Data_Channel\<close> has what the modes share, with the
  interface \<open>dc_pair\<close> from single packets to delivery over a lossy channel. \<open>Crypto_Aead\<close>
  (\<^verbatim>\<open>crypto/crypto_aead.hpp\<close>, \<^verbatim>\<open>cipheraead.hpp\<close> of both libraries) has nonces, encryption and decryption, over the
  seal and open functions of the library as parameters: what one end encrypts the other end decrypts under any
  loss, no packet is accepted twice, forged packets change nothing and nothing of them is handed on, and nonces do not
  repeat. \<open>Data_Epoch\<close> (\<^verbatim>\<open>crypto/data_epoch.hpp\<close>, \<^verbatim>\<open>data_epoch.cpp\<close>) has the key derivation, which is HKDF-Expand, and the
  object that holds the keys of an epoch and of those around it, with its reachable states; \<open>Crypto_Epoch\<close>
  (\<^verbatim>\<open>crypto/crypto_aead_epoch.hpp\<close>) encryption and decryption with these keys: delivery and replay protection
  across changes of the epoch, and two flaws, packets of an unknown epoch that are passed on unopened and an
  exception when a peer moves to the last future key. \<open>Crypto_Chm\<close> (\<^verbatim>\<open>crypto/crypto_chm.hpp\<close>, \<^verbatim>\<open>encrypt_chm.hpp\<close>,
  \<^verbatim>\<open>decrypt_chm.hpp\<close>, \<^verbatim>\<open>cipher.hpp\<close>, and the contexts of OpenSSL) has CBC with HMAC: no replay, nothing handed on without its
  HMAC, and packets no longer than announced. \<open>Crypto_Select\<close> (\<^verbatim>\<open>crypto/cryptodcsel.hpp\<close>, \<^verbatim>\<open>init_data_channel\<close> of
  \<^verbatim>\<open>ssl/proto.hpp\<close>) chooses the mode and distributes the key material, with the interface \<open>dc_keys\<close>: from the same
  key material both ends are matched in both directions, and every packet that is not lost arrives. It also shows
  that CBC ciphers are used without being checked against those allowed.

  \<^bold>\<open>Compression.\<close> \<open>Lzo_Asym\<close> (\<^verbatim>\<open>compress/lzoasym_impl.hpp\<close>) is the built-in LZO decompressor, as a machine over the
  labels of the function: it returns for every input, stays inside of its arrays when two bytes follow the
  input, and copies matches byte by byte. \<open>Compress\<close> (\<^verbatim>\<open>compress/*.hpp\<close>) has the framing, the compressors and
  \<open>CompressContext\<close>: each compressor undoes what it does, and decompression of any packet is safe.

  \<^bold>\<open>Addresses.\<close> \<open>Addr_Family\<close>, \<open>IPv4_Addr\<close>, \<open>IPv6_Addr\<close>, \<open>IPv6_Arith\<close>, \<open>IPv6_Net\<close> (\<^verbatim>\<open>addr/ipv4.hpp\<close>,
  \<^verbatim>\<open>addr/ipv6.hpp\<close>): the arithmetic on two 64-bit halves is that of 128-bit integers; netmasks, prefix lengths
  and networks.

  \<^bold>\<open>Bounds and loops.\<close> Loops are structural recursions or come with a measure. Only \<open>lz_run\<close> of \<open>Lzo_Asym\<close> has fuel:
  two steps per byte of the memory and two more, which \<open>lzo_terminates\<close> shows to be enough for every input.
  \<open>size_t\<close> is a natural number below \<open>2^64\<close> whose additions wrap explicitly; packet IDs, times and addresses are
  words.

  \<^bold>\<open>Not modelled.\<close> The TLS and crypto libraries and asio (third-party code behind interfaces), the client
  and transport classes that only connect asynchronous calls, tun devices, option parsing, HTTP and
  websockets, data channel offload, the variant of LZO over the LZO library, and the Go bindings.
\<close>

end
